(* ===== verification/Prelude.thy ===== *)
theory Prelude
  imports Main "HOL-Library.Word"
begin

text \<open>
  Shared vocabulary of the development: Go errors and the error taxonomy of the repository,
  results of calls that may fail or panic, machine integers, the collections of rewrite rules
  the component theories fill, and the generic list lemmas they use.
\<close>

section \<open>Collections of facts\<close>

named_theorems op_defs
named_theorems err_simps
named_theorems inv_intros

section \<open>Machine integers, instants and identifiers\<close>

text \<open>
  \<open>uint64\<close> and \<open>int\<close> of Go on a 64-bit platform are both 64-bit words; a signed
  reading goes through \<^const>\<open>sint\<close>. A \<open>time.Time\<close> is the number of nanoseconds since
  the zero time, so \<open>IsZero\<close> is equality with 0 and \<open>After\<close> is the strict order.
  A ULID-backed branded identifier is its 128-bit value; the zero value is 0.
\<close>

type_synonym u64 = "64 word"
type_synonym instant = int
type_synonym ulid = "128 word"
type_synonym byte = "8 word"

lemma of_nat_unat_self: "(of_nat (unat w) :: 'a::len word) = w"
  by simp

lemma int_unat_eq_uint: "int (unat w) = uint w"
  by simp

declare of_nat_unat [simp del]

definition After :: "instant \<Rightarrow> instant \<Rightarrow> bool" where
  "After t u \<longleftrightarrow> u < t"

definition MaxInt :: int where
  "MaxInt = 2 ^ 63 - 1"

section \<open>Errors\<close>

text \<open>
  The six error families, and error values by the way the sources build them: a fresh error of
  a family with its code (the package-level sentinels), an error wrapping a cause, the
  formatted errors of \<open>fmt.Errorf\<close> with their wrapped operands, \<open>errors.Join\<close>, and
  errors of code outside the repository. The human-readable message is not part of the model.
\<close>

datatype family = Rejection | Conflict | Transient | Corruption | Infrastructure | Orchestration

datatype go_error =
    ErrNew family string
  | ErrWrap family string go_error
  | ErrFmt "go_error list"
  | ErrJoin "go_error list"
  | ErrExt string

text \<open>\<open>errors.Is\<close>: some error of the wrap tree equals the target.\<close>

fun errors_Is :: "go_error \<Rightarrow> go_error \<Rightarrow> bool" where
  "errors_Is (ErrNew f c) t = (ErrNew f c = t)"
| "errors_Is (ErrWrap f c e) t = (ErrWrap f c e = t \<or> errors_Is e t)"
| "errors_Is (ErrFmt es) t = (ErrFmt es = t \<or> list_ex (\<lambda>e. errors_Is e t) es)"
| "errors_Is (ErrJoin es) t = (ErrJoin es = t \<or> list_ex (\<lambda>e. errors_Is e t) es)"
| "errors_Is (ErrExt s) t = (ErrExt s = t)"

lemma errors_Is_refl [simp]: "errors_Is e e"
  by (cases e) simp_all

lemma errors_Is_wrap [simp, err_simps]: "errors_Is e t \<Longrightarrow> errors_Is (ErrWrap f c e) t"
  by simp

lemma errors_Is_join [err_simps]: "e \<in> set es \<Longrightarrow> errors_Is e t \<Longrightarrow> errors_Is (ErrJoin es) t"
  by (auto simp: list_ex_iff)

text \<open>The value a call returns: a result, an error, or a run-time panic.\<close>

datatype 'a outcome = Ok 'a | Fail go_error | Panic

fun obind :: "'a outcome \<Rightarrow> ('a \<Rightarrow> 'b outcome) \<Rightarrow> 'b outcome" where
  "obind (Ok a) f = f a"
| "obind (Fail e) f = Fail e"
| "obind Panic f = Panic"

lemma obind_Ok_iff: "obind m f = Ok b \<longleftrightarrow> (\<exists>a. m = Ok a \<and> f a = Ok b)"
  by (cases m) auto

lemma obind_Ok_id [simp]: "obind m Ok = m"
  by (cases m) auto

lemma obind_Fail_iff:
  "obind m f = Fail e \<longleftrightarrow> m = Fail e \<or> (\<exists>a. m = Ok a \<and> f a = Fail e)"
  by (cases m) auto

lemma obind_assoc: "obind (obind m f) g = obind m (\<lambda>a. obind (f a) g)"
  by (cases m) auto

section \<open>Slices\<close>

text \<open>
  Go slice expressions check their bounds at run time: \<open>xs[i:]\<close> and \<open>xs[:i]\<close> panic
  unless \<open>0 \<le> i \<le> len(xs)\<close>, and \<open>xs[i]\<close> panics unless \<open>0 \<le> i < len(xs)\<close>.
\<close>

definition slice_from :: "'a list \<Rightarrow> int \<Rightarrow> 'a list outcome" where
  "slice_from xs i = (if 0 \<le> i \<and> i \<le> int (length xs) then Ok (drop (nat i) xs) else Panic)"

definition slice_to :: "'a list \<Rightarrow> int \<Rightarrow> 'a list outcome" where
  "slice_to xs i = (if 0 \<le> i \<and> i \<le> int (length xs) then Ok (take (nat i) xs) else Panic)"

definition index :: "'a list \<Rightarrow> nat \<Rightarrow> 'a outcome" where
  "index xs i = (if i < length xs then Ok (xs ! i) else Panic)"

text \<open>Reading every index of a list of indices, left to right.\<close>

fun index_all :: "'a list \<Rightarrow> nat list \<Rightarrow> 'a list outcome" where
  "index_all xs [] = Ok []"
| "index_all xs (i # is) = obind (index xs i) (\<lambda>x. obind (index_all xs is) (\<lambda>ys. Ok (x # ys)))"

lemma index_all_Ok:
  "\<forall>i \<in> set is. i < length xs \<Longrightarrow> index_all xs is = Ok (map ((!) xs) is)"
  by (induction "is") (auto simp: index_def)

lemma butlast_last_append: "xs \<noteq> [] \<Longrightarrow> butlast xs @ last xs # ys = xs @ ys"
  by (metis append_butlast_last_id append.assoc append_Cons append_Nil)

section \<open>Positions of the elements of a list that satisfy a predicate\<close>

definition positions :: "('a \<Rightarrow> bool) \<Rightarrow> 'a list \<Rightarrow> nat list" where
  "positions P xs = filter (\<lambda>i. P (xs ! i)) [0..<length xs]"

lemma positions_Nil [simp]: "positions P [] = []"
  by (simp add: positions_def)

lemma positions_snoc:
  "positions P (xs @ [x]) = positions P xs @ (if P x then [length xs] else [])"
proof -
  have "filter (\<lambda>i. P ((xs @ [x]) ! i)) [0..<length xs] = positions P xs"
    unfolding positions_def by (rule filter_cong) (auto simp: nth_append)
  then show ?thesis
    by (simp add: positions_def nth_append)
qed

lemma positions_less: "i \<in> set (positions P xs) \<Longrightarrow> i < length xs"
  by (auto simp: positions_def)

lemma map_nth_positions: "map ((!) xs) (positions P xs) = filter P xs"
proof (induction xs rule: rev_induct)
  case Nil
  then show ?case by simp
next
  case (snoc x xs)
  have "map ((!) (xs @ [x])) (positions P xs) = map ((!) xs) (positions P xs)"
    by (rule map_cong) (auto dest: positions_less simp: nth_append)
  with snoc show ?case
    by (simp add: positions_snoc)
qed

lemma length_positions: "length (positions P xs) = length (filter P xs)"
  by (metis length_map map_nth_positions)

lemma positions_map: "positions P (map f xs) = positions (P \<circ> f) xs"
  by (auto simp: positions_def intro!: filter_cong)

text \<open>The last position that satisfies a predicate.\<close>

definition last_position :: "('a \<Rightarrow> bool) \<Rightarrow> 'a list \<Rightarrow> nat option" where
  "last_position P xs =
     (let ps = positions P xs in if ps = [] then None else Some (last ps))"

lemma last_position_Nil [simp]: "last_position P [] = None"
  by (simp add: last_position_def)

lemma last_position_snoc:
  "last_position P (xs @ [x]) = (if P x then Some (length xs) else last_position P xs)"
  by (simp add: last_position_def positions_snoc Let_def)

lemma last_position_None: "last_position P xs = None \<longleftrightarrow> (\<forall>x \<in> set xs. \<not> P x)"
  by (induction xs rule: rev_induct) (auto simp: last_position_snoc)

lemma last_position_Some:
  "last_position P xs = Some i \<Longrightarrow> i < length xs \<and> P (xs ! i)"
proof (induction xs rule: rev_induct)
  case (snoc x xs)
  then show ?case
    by (auto simp: last_position_snoc nth_append split: if_splits)
qed simp

lemma last_position_distinct:
  assumes "distinct (map f xs)" and "i < length xs"
  shows "last_position (\<lambda>x. f x = f (xs ! i)) xs = Some i"
  using assms
proof (induction xs rule: rev_induct)
  case (snoc x xs)
  then show ?case
    by (cases "i = length xs")
      (auto simp: last_position_snoc nth_append less_Suc_eq image_iff)
qed simp

end
