(* ===== verification/Ids.thy ===== *)
theory Ids
  imports Prelude
begin

text \<open>
  Identifiers of \<open>src/id\<close>: stream identity (\<open>stream_id.go\<close>, \<open>stream_type.go\<close>) with the
  storage key of a stream, and the kind-discriminated actor identity with its
  \<open>kind:raw\<close> wire form (\<open>actor_id.go\<close>, \<open>actor_id_binary.go\<close>). A \<open>StreamID\<close> is
  the string its \<open>Get\<close> returns. The display form \<open>String\<close> of a branded identifier is
  code of another module: it is the parameter \<open>disp\<close> of the definitions that use it.
\<close>

section \<open>String helpers of the standard library\<close>

text \<open>\<open>strings.TrimPrefix\<close> and \<open>strings.Cut\<close> at a single separator byte.\<close>

definition TrimPrefix :: "string \<Rightarrow> string \<Rightarrow> string" where
  "TrimPrefix s p = (if take (length p) s = p then drop (length p) s else s)"

fun Cut :: "'a \<Rightarrow> 'a list \<Rightarrow> 'a list \<times> 'a list \<times> bool" where
  "Cut c [] = ([], [], False)"
| "Cut c (x # xs) =
     (if x = c then ([], xs, True)
      else case Cut c xs of (b, a, f) \<Rightarrow> if f then (x # b, a, True) else (x # xs, [], False))"

lemma Cut_append: "c \<notin> set b \<Longrightarrow> Cut c (b @ c # a) = (b, a, True)"
  by (induction b) auto

lemma Cut_found: "Cut c s = (b, a, True) \<Longrightarrow> s = b @ c # a \<and> c \<notin> set b"
  by (induction s arbitrary: b) (auto split: if_splits prod.splits)

text \<open>
  \<open>utf8.ValidString\<close>: the byte sequences of RFC 3629, without overlong forms, surrogates
  and code points above U+10FFFF.
\<close>

definition cont :: "char \<Rightarrow> bool" where
  "cont c \<longleftrightarrow> 128 \<le> (of_char c :: nat) \<and> (of_char c :: nat) < 192"

definition between :: "nat \<Rightarrow> nat \<Rightarrow> char \<Rightarrow> bool" where
  "between lo hi c \<longleftrightarrow> lo \<le> (of_char c :: nat) \<and> (of_char c :: nat) \<le> hi"

fun ValidString :: "string \<Rightarrow> bool" where
  "ValidString [] = True"
| "ValidString (a # s) =
     (if between 0 127 a then ValidString s
      else if between 194 223 a then
        (case s of b # t \<Rightarrow> cont b \<and> ValidString t | _ \<Rightarrow> False)
      else if between 224 239 a then
        (case s of b # c # t \<Rightarrow>
             (if between 224 224 a then between 160 191 b
              else if between 237 237 a then between 128 159 b else cont b)
             \<and> cont c \<and> ValidString t
         | _ \<Rightarrow> False)
      else if between 240 244 a then
        (case s of b # c # d # t \<Rightarrow>
             (if between 240 240 a then between 144 191 b
              else if between 244 244 a then between 128 143 b else cont b)
             \<and> cont c \<and> cont d \<and> ValidString t
         | _ \<Rightarrow> False)
      else False)"

section \<open>Streams\<close>

type_synonym StreamType = string
type_synonym StreamID = string

record StreamRef =
  sr_Type :: StreamType
  sr_ID :: StreamID

definition ErrEmptyString :: go_error where
  "ErrEmptyString = ErrNew Rejection ''id.empty_string''"

definition ErrEmptyStreamType :: go_error where
  "ErrEmptyStreamType = ErrNew Rejection ''id.empty_stream_type''"

definition StreamMarker_Name :: string where
  "StreamMarker_Name = ''StreamMarker''"

definition ParseStreamID :: "string \<Rightarrow> StreamID outcome" where
  "ParseStreamID s0 =
     (let s = TrimPrefix s0 (StreamMarker_Name @ '':'') in
      if s = [] then Fail (ErrWrap Rejection ''id.parse_stream_empty'' ErrEmptyString)
      else if \<not> ValidString s then Fail (ErrNew Rejection ''id.parse_stream_not_utf8'')
      else Ok s)"

definition ParseStreamType :: "string \<Rightarrow> StreamType outcome" where
  "ParseStreamType s =
     (if s = [] then Fail ErrEmptyStreamType
      else if \<not> ValidString s then Fail (ErrNew Rejection ''id.stream_type_not_utf8'')
      else Ok s)"

definition NewStreamRef :: "StreamType \<Rightarrow> StreamID \<Rightarrow> StreamRef" where
  "NewStreamRef t i = \<lparr>sr_Type = t, sr_ID = i\<rparr>"

definition StreamRef_String :: "(StreamID \<Rightarrow> string) \<Rightarrow> StreamRef \<Rightarrow> string" where
  "StreamRef_String disp r = sr_Type r @ '':'' @ disp (sr_ID r)"

definition StreamKey :: "StreamRef \<Rightarrow> string" where
  "StreamKey r = sr_Type r @ '':'' @ sr_ID r"

definition StreamRef_IsZero :: "StreamRef \<Rightarrow> bool" where
  "StreamRef_IsZero r \<longleftrightarrow> sr_Type r = [] \<and> sr_ID r = []"

definition StreamRef_Validate :: "StreamRef \<Rightarrow> go_error option" where
  "StreamRef_Validate r =
     (if sr_Type r = [] then Some ErrEmptyStreamType
      else if sr_ID r = [] then Some (ErrNew Rejection ''id.nil_stream_id'')
      else None)"

text \<open>\<open>IsDerivedCommandID\<close>: the six timestamp bytes of the 16-byte ULID are zero.\<close>

definition IsDerivedCommandID :: "ulid \<Rightarrow> bool" where
  "IsDerivedCommandID u \<longleftrightarrow> drop_bit 80 u = 0"

text \<open>
  \<open>DeriveCommandID\<close> copies the first ten bytes of the digest of the namespaced keys into the
  randomness part and leaves the timestamp zero. The digest of \<open>crypto/sha256\<close> is the
  parameter \<open>sha256\<close>; the message it is applied to is built as the source does.
\<close>

fun hashInput :: "byte list \<Rightarrow> byte list list \<Rightarrow> byte list" where
  "hashInput ns [] = ns"
| "hashInput ns (k # ks) = hashInput (ns @ [0] @ k) ks"

definition hashNamespacedKeys :: "(byte list \<Rightarrow> byte list) \<Rightarrow> byte list \<Rightarrow> byte list list \<Rightarrow> byte list" where
  "hashNamespacedKeys sha256 ns ks = sha256 (hashInput ns ks)"

definition bytes_to_word :: "byte list \<Rightarrow> ulid" where
  "bytes_to_word bs = foldl (\<lambda>acc b. acc * 256 + ucast b) 0 bs"

definition DeriveCommandID :: "(byte list \<Rightarrow> byte list) \<Rightarrow> byte list \<Rightarrow> byte list list \<Rightarrow> ulid" where
  "DeriveCommandID sha256 ns ks = bytes_to_word (take 10 (hashNamespacedKeys sha256 ns ks))"

section \<open>Actors\<close>

datatype ActorKind = ActorUnknown | ActorUser | ActorBot | ActorSystem | ActorService

record ActorID =
  a_kind :: ActorKind
  a_raw :: string

fun ActorKind_String :: "ActorKind \<Rightarrow> string" where
  "ActorKind_String ActorUser = ''user''"
| "ActorKind_String ActorBot = ''bot''"
| "ActorKind_String ActorSystem = ''system''"
| "ActorKind_String ActorService = ''service''"
| "ActorKind_String ActorUnknown = ''unknown''"

definition NewActorID :: "ActorKind \<Rightarrow> string \<Rightarrow> ActorID" where
  "NewActorID k r = \<lparr>a_kind = k, a_raw = r\<rparr>"

definition NewUserActor :: "string \<Rightarrow> ActorID" where
  "NewUserActor userID = \<lparr>a_kind = ActorUser, a_raw = userID\<rparr>"

definition NewBotActor :: "string \<Rightarrow> ActorID" where
  "NewBotActor raw = \<lparr>a_kind = ActorBot, a_raw = raw\<rparr>"

definition NewSystemActor :: "string \<Rightarrow> ActorID" where
  "NewSystemActor name = \<lparr>a_kind = ActorSystem, a_raw = name\<rparr>"

definition NewServiceActor :: "string \<Rightarrow> ActorID" where
  "NewServiceActor serviceID = \<lparr>a_kind = ActorService, a_raw = serviceID\<rparr>"

definition zeroActor :: ActorID where
  "zeroActor = \<lparr>a_kind = ActorUnknown, a_raw = []\<rparr>"

definition parseActorKind :: "string \<Rightarrow> ActorKind \<times> bool" where
  "parseActorKind s =
     (if s = ''user'' then (ActorUser, True)
      else if s = ''bot'' then (ActorBot, True)
      else if s = ''system'' then (ActorSystem, True)
      else if s = ''service'' then (ActorService, True)
      else (ActorUnknown, False))"

definition ParseActorID :: "string \<Rightarrow> ActorID outcome" where
  "ParseActorID s =
     (if s = [] then Ok zeroActor
      else case Cut CHR '':'' s of (kindStr, raw, found) \<Rightarrow>
        if \<not> found then Fail (ErrFmt [])
        else case parseActorKind kindStr of (kind, ok) \<Rightarrow>
          if \<not> ok then Fail (ErrFmt [])
          else Ok \<lparr>a_kind = kind, a_raw = raw\<rparr>)"

definition ActorID_IsZero :: "ActorID \<Rightarrow> bool" where
  "ActorID_IsZero a \<longleftrightarrow> a_raw a = []"

definition PrefixedString :: "ActorID \<Rightarrow> string" where
  "PrefixedString a =
     (if ActorID_IsZero a then [] else ActorKind_String (a_kind a) @ '':'' @ a_raw a)"

definition ActorID_Validate :: "ActorID \<Rightarrow> go_error option" where
  "ActorID_Validate a =
     (if a_raw a = [] then None
      else if a_kind a = ActorUnknown then Some (ErrFmt [])
      else None)"

definition ActorID_Equal :: "ActorID \<Rightarrow> ActorID \<Rightarrow> bool" where
  "ActorID_Equal a b \<longleftrightarrow> a_kind a = a_kind b \<and> a_raw a = a_raw b"

definition ActorID_MarshalBinary :: "ActorID \<Rightarrow> string outcome" where
  "ActorID_MarshalBinary a = Ok (PrefixedString a)"

definition ActorID_UnmarshalBinary :: "string \<Rightarrow> ActorID outcome" where
  "ActorID_UnmarshalBinary data =
     (if length data = 0 then Ok zeroActor
      else case ParseActorID data of
          Ok a \<Rightarrow> Ok a
        | Fail e \<Rightarrow> Fail (ErrFmt [e])
        | Panic \<Rightarrow> Panic)"

lemmas [op_defs] = StreamKey_def NewStreamRef_def StreamRef_Validate_def ActorID_IsZero_def

section \<open>Laws\<close>

text \<open>
  The separator argument: a key built as \<open>t @ c # i\<close> is injective in both components as soon
  as the first one does not contain the separator.
\<close>

lemma separator_inj:
  assumes "c \<notin> set t" and "c \<notin> set t'" and "t @ c # i = t' @ c # i'"
  shows "t = t' \<and> i = i'"
proof -
  have "(t, i, True) = Cut c (t @ c # i)" using assms(1) by (simp add: Cut_append)
  also have "\<dots> = Cut c (t' @ c # i')" using assms(3) by (rule arg_cong)
  also have "\<dots> = (t', i', True)" using assms(2) by (simp add: Cut_append)
  finally show ?thesis by simp
qed

definition colon_free :: "StreamRef \<Rightarrow> bool" where
  "colon_free r \<longleftrightarrow> CHR '':'' \<notin> set (sr_Type r)"

lemma StreamKey_eqD:
  "colon_free r \<Longrightarrow> colon_free r' \<Longrightarrow> StreamKey r = StreamKey r' \<Longrightarrow> r = r'"
  using separator_inj [of "CHR '':''" "sr_Type r" "sr_Type r'" "sr_ID r" "sr_ID r'"]
  by (simp add: colon_free_def StreamKey_def)

lemma StreamRef_String_eqD:
  "colon_free r \<Longrightarrow> colon_free r' \<Longrightarrow> inj disp \<Longrightarrow>
   StreamRef_String disp r = StreamRef_String disp r' \<Longrightarrow> r = r'"
  using separator_inj [of "CHR '':''" "sr_Type r" "sr_Type r'" "disp (sr_ID r)" "disp (sr_ID r')"]
  by (simp add: colon_free_def StreamRef_String_def inj_def)

text \<open>
  The storage key of a stream identifies the stream: two references whose types contain no
  colon have the same key only if they are equal.
\<close>

theorem StreamKey_inj:
  assumes "colon_free r" and "colon_free r'"
  shows "StreamKey r = StreamKey r' \<longleftrightarrow> r = r'"
  using assms StreamKey_eqD by blast

theorem StreamKey_inj_witness:
  "colon_free (NewStreamRef ''User'' ''a:b'') \<and> colon_free (NewStreamRef ''Order'' ''a:b'') \<and>
   StreamKey (NewStreamRef ''User'' ''a:b'') \<noteq> StreamKey (NewStreamRef ''Order'' ''a:b'')"
proof -
  have u: "colon_free (NewStreamRef ''User'' ''a:b'')"
    and o: "colon_free (NewStreamRef ''Order'' ''a:b'')"
    by (simp_all add: colon_free_def NewStreamRef_def)
  show ?thesis
    using u o StreamKey_inj [OF u o] by (simp add: NewStreamRef_def)
qed

text \<open>
  Without that restriction the key is ambiguous: two distinct, valid references share one
  key, although both of their types and both of their identifiers are accepted by the parsers.
\<close>

theorem StreamKey_collision:
  "\<exists>r r'. r \<noteq> r' \<and> StreamKey r = StreamKey r' \<and>
     StreamRef_Validate r = None \<and> StreamRef_Validate r' = None \<and>
     ParseStreamType (sr_Type r) = Ok (sr_Type r) \<and> ParseStreamID (sr_ID r) = Ok (sr_ID r) \<and>
     ParseStreamType (sr_Type r') = Ok (sr_Type r') \<and> ParseStreamID (sr_ID r') = Ok (sr_ID r')"
proof (intro exI conjI)
  let ?r = "NewStreamRef ''a'' ''b:c''" and ?r' = "NewStreamRef ''a:b'' ''c''"
  show "?r \<noteq> ?r'" by (simp add: NewStreamRef_def)
  show "StreamKey ?r = StreamKey ?r'" by (simp add: NewStreamRef_def StreamKey_def)
  show "StreamRef_Validate ?r = None" and "StreamRef_Validate ?r' = None"
    by (simp_all add: NewStreamRef_def StreamRef_Validate_def)
  show "ParseStreamType (sr_Type ?r) = Ok (sr_Type ?r)" by code_simp
  show "ParseStreamID (sr_ID ?r) = Ok (sr_ID ?r)" by code_simp
  show "ParseStreamType (sr_Type ?r') = Ok (sr_Type ?r')" by code_simp
  show "ParseStreamID (sr_ID ?r') = Ok (sr_ID ?r')" by code_simp
qed

lemma parseActorKind_String:
  "k \<noteq> ActorUnknown \<Longrightarrow> parseActorKind (ActorKind_String k) = (k, True)"
  by (cases k) (simp_all add: parseActorKind_def)

lemma colon_notin_kind: "CHR '':'' \<notin> set (ActorKind_String k)"
  by (cases k) simp_all

lemma parseActorKind_True: "parseActorKind s = (k, True) \<Longrightarrow> s = ActorKind_String k \<and> k \<noteq> ActorUnknown"
  by (auto simp: parseActorKind_def split: if_splits)

lemma Cut_prefixed:
  "Cut CHR '':'' (ActorKind_String k @ CHR '':'' # raw) = (ActorKind_String k, raw, True)"
  by (simp add: Cut_append colon_notin_kind)

text \<open>
  The wire form of an actor round-trips exactly for the valid identities: an actor that
  passes \<open>Validate\<close> is recovered from \<open>PrefixedString\<close>, up to the kind of an actor with an
  empty raw value, which is the zero actor; an actor that does not pass is rejected by the parser.
\<close>

theorem ActorID_roundtrip:
  "ParseActorID (PrefixedString a) =
     (if ActorID_IsZero a then Ok zeroActor
      else if ActorID_Validate a = None then Ok a
      else Fail (ErrFmt []))"
proof (cases "ActorID_IsZero a")
  case True
  then show ?thesis by (simp add: PrefixedString_def ParseActorID_def)
next
  case False
  then have "PrefixedString a = ActorKind_String (a_kind a) @ CHR '':'' # a_raw a"
    by (simp add: PrefixedString_def)
  with False show ?thesis
    by (cases a, cases "a_kind a")
      (simp_all add: ParseActorID_def Cut_append ActorID_Validate_def ActorID_IsZero_def
        parseActorKind_def)
qed

text \<open>The parser only produces actors of a known kind, and printing them gives the input back.\<close>

lemma ParseActorID_sound:
  assumes "ParseActorID s = Ok a" and "s \<noteq> []"
  shows "s = ActorKind_String (a_kind a) @ CHR '':'' # a_raw a \<and> a_kind a \<noteq> ActorUnknown"
  using assms
  by (auto simp: ParseActorID_def split: if_splits prod.splits
      dest!: Cut_found parseActorKind_True)

lemma DeriveCommandID_bound:
  "length bs \<le> 10 \<Longrightarrow> unat (bytes_to_word bs) < 256 ^ length bs"
proof (induction bs rule: rev_induct)
  case Nil
  then show ?case by (simp add: bytes_to_word_def)
next
  case (snoc b bs)
  let ?w = "bytes_to_word bs"
  have IH: "unat ?w < 256 ^ length bs" using snoc by simp
  have b: "unat (ucast b :: ulid) < 256"
    using unsigned_less [where 'a = nat, of b]
    by (simp add: unsigned_ucast_eq take_bit_nat_eq_self)
  have step: "bytes_to_word (bs @ [b]) = ?w * 256 + ucast b"
    by (simp add: bytes_to_word_def)
  have lt: "unat ?w * 256 + unat (ucast b :: ulid) < 256 ^ Suc (length bs)"
    using IH b by simp
  have "(256::nat) ^ Suc (length bs) \<le> 256 ^ 10"
    using snoc.prems by (intro power_increasing) auto
  also have "\<dots> \<le> 2 ^ 128" by simp
  finally have big: "unat ?w * 256 + unat (ucast b :: ulid) < 2 ^ 128" using lt by linarith
  have "unat (?w * 256 + ucast b) = unat ?w * 256 + unat (ucast b :: ulid)"
    using big by (simp add: unat_word_ariths unat_of_nat mod_less)
  then show ?case using lt step by simp
qed

lemma derived_is_derived: "IsDerivedCommandID (DeriveCommandID sha256 ns ks)"
proof -
  let ?bs = "take 10 (hashNamespacedKeys sha256 ns ks)"
  have "unat (bytes_to_word ?bs) < 256 ^ length ?bs"
    by (rule DeriveCommandID_bound) simp
  also have "(256::nat) ^ length ?bs \<le> 256 ^ 10"
    by (intro power_increasing) auto
  also have "(256::nat) ^ 10 = 2 ^ 80" by simp
  finally have "unat (bytes_to_word ?bs) < 2 ^ 80" .
  then have "unat (drop_bit 80 (bytes_to_word ?bs)) = 0"
    by (simp only: unat_drop_bit_eq) (simp add: drop_bit_eq_div)
  then show ?thesis
    by (simp add: IsDerivedCommandID_def DeriveCommandID_def unat_eq_zero)
qed

end
