(* ===== verification/Versions.thy ===== *)
theory Versions
  imports Prelude "HOL-Library.Signed_Division"
begin

text \<open>
  Stream positions and payload schema versions of \<open>src/event/types.go\<close>, with the
  optimistic-concurrency check and the version slices of \<open>src/event/slice.go\<close>. A
  \<open>Version\<close> is a \<open>uint64\<close> read as a signed \<open>int\<close> by \<open>Int\<close>; a \<open>SchemaVersion\<close> is a
  signed \<open>int\<close>. Both keep their width, so every wrap-around of the source is in the model.
\<close>

section \<open>Version\<close>

type_synonym Version = u64

definition ErrVersionUnderflow :: go_error where
  "ErrVersionUnderflow = ErrNew Rejection ''event.version_underflow''"

definition ErrVersionConflict :: go_error where
  "ErrVersionConflict = ErrNew Conflict ''event.version_conflict''"

definition ParseVersion :: "u64 \<Rightarrow> Version outcome" where
  "ParseVersion v = Ok v"

definition Version_Int :: "Version \<Rightarrow> int" where
  "Version_Int v = sint v"

definition Version_IsZero :: "Version \<Rightarrow> bool" where
  "Version_IsZero v \<longleftrightarrow> v = 0"

definition Version_IsPositive :: "Version \<Rightarrow> bool" where
  "Version_IsPositive v \<longleftrightarrow> 0 < v"

definition Version_Increment :: "Version \<Rightarrow> Version" where
  "Version_Increment v = v + 1"

definition Version_Decrement :: "Version \<Rightarrow> Version outcome" where
  "Version_Decrement v = (if v = 0 then Fail (ErrFmt [ErrVersionUnderflow]) else Ok (v - 1))"

definition Version_Add :: "Version \<Rightarrow> u64 \<Rightarrow> Version" where
  "Version_Add v n = v + n"

definition Version_Sub :: "Version \<Rightarrow> int \<Rightarrow> Version outcome" where
  "Version_Sub v n =
     (if v < word_of_int n then Fail (ErrFmt [ErrVersionUnderflow]) else Ok (v - word_of_int n))"

text \<open>\<open>int(v) % n\<close>: the remainder truncates towards zero and division by zero panics.\<close>

definition Version_Mod :: "Version \<Rightarrow> int \<Rightarrow> int outcome" where
  "Version_Mod v n = (if n = 0 then Panic else Ok (Version_Int v smod n))"

definition Version_Cmp :: "Version \<Rightarrow> Version \<Rightarrow> int" where
  "Version_Cmp v w = (if v < w then -1 else if w < v then 1 else 0)"

definition CheckVersionConflict :: "nat \<Rightarrow> Version \<Rightarrow> go_error option" where
  "CheckVersionConflict existingLen expected =
     (if int existingLen \<noteq> Version_Int expected
      then Some (ErrWrap Conflict ''event.version_conflict'' ErrVersionConflict)
      else None)"

section \<open>SchemaVersion\<close>

type_synonym SchemaVersion = u64

definition ErrSchemaVersionUnderflow :: go_error where
  "ErrSchemaVersionUnderflow = ErrNew Rejection ''event.schema_version_underflow''"

definition ParseSchemaVersion :: "int \<Rightarrow> SchemaVersion outcome" where
  "ParseSchemaVersion v =
     (if v < 1 then Fail (ErrNew Rejection ''event.invalid_schema_version'')
      else Ok (word_of_int v))"

definition SchemaVersion_Decrement :: "SchemaVersion \<Rightarrow> SchemaVersion outcome" where
  "SchemaVersion_Decrement sv =
     (if sint sv \<le> 1 then Fail (ErrFmt [ErrSchemaVersionUnderflow]) else Ok (sv - 1))"

definition SchemaVersion_Increment :: "SchemaVersion \<Rightarrow> SchemaVersion" where
  "SchemaVersion_Increment sv = sv + 1"

definition SchemaVersion_checkUnderflow :: "SchemaVersion \<Rightarrow> SchemaVersion outcome" where
  "SchemaVersion_checkUnderflow result =
     (if sint result < 1 then Fail (ErrFmt [ErrSchemaVersionUnderflow]) else Ok result)"

definition SchemaVersion_Add :: "SchemaVersion \<Rightarrow> int \<Rightarrow> SchemaVersion outcome" where
  "SchemaVersion_Add sv n = SchemaVersion_checkUnderflow (sv + word_of_int n)"

definition SchemaVersion_Sub :: "SchemaVersion \<Rightarrow> int \<Rightarrow> SchemaVersion outcome" where
  "SchemaVersion_Sub sv n = SchemaVersion_checkUnderflow (sv - word_of_int n)"

section \<open>Version slices\<close>

definition SliceFromVersion :: "'e list \<Rightarrow> Version \<Rightarrow> 'e list outcome" where
  "SliceFromVersion events version =
     (if int (length events) \<le> Version_Int version then Ok []
      else slice_from events (Version_Int version))"

definition SliceToVersion :: "'e list \<Rightarrow> Version \<Rightarrow> 'e list outcome" where
  "SliceToVersion events maxVersion =
     slice_to events (min (Version_Int maxVersion) (int (length events)))"

section \<open>Laws\<close>

text \<open>A version a stream can have: its signed reading is not negative.\<close>

definition version_ok :: "Version \<Rightarrow> bool" where
  "version_ok v \<longleftrightarrow> unat v < 2 ^ 63"

text \<open>The signed reading as arithmetic on integers; wrap-around becomes a \<open>mod\<close>.\<close>

lemma sint_word_of_int: "sint (word_of_int k :: u64) = (k + 2 ^ 63) mod 2 ^ 64 - 2 ^ 63"
  by (simp add: signed_of_int signed_take_bit_eq_take_bit_shift take_bit_eq_mod)

lemma wrap63_small: "- (2 ^ 63) \<le> k \<Longrightarrow> k < 2 ^ 63 \<Longrightarrow> (k + 2 ^ 63) mod 2 ^ 64 - 2 ^ 63 = (k :: int)"
  by (simp add: mod_pos_pos_trivial)

lemma wrap63_large:
  assumes "2 ^ 63 \<le> k" and "k < 2 ^ 64"
  shows "(k + 2 ^ 63) mod 2 ^ 64 - 2 ^ 63 = (k :: int) - 2 ^ 64"
proof -
  have "(k + 2 ^ 63) mod 2 ^ 64 = (k + 2 ^ 63 - 2 ^ 64) mod 2 ^ 64"
    by (rule minus_mod_self2 [symmetric])
  also have "\<dots> = k + 2 ^ 63 - 2 ^ 64"
    using assms by (intro mod_pos_pos_trivial) auto
  finally show ?thesis by simp
qed

lemma sint_of_nat: "n < 2 ^ 63 \<Longrightarrow> sint (of_nat n :: u64) = int n"
  using sint_word_of_int [of "int n"] wrap63_small [of "int n"] by simp

lemma sint_eq_unat: "unat (v :: u64) < 2 ^ 63 \<Longrightarrow> sint v = int (unat v)"
  using sint_of_nat [of "unat v"] by (simp only: of_nat_unat_self)

lemma sint_negative:
  assumes "\<not> unat (v :: u64) < 2 ^ 63"
  shows "sint v < 0"
proof -
  let ?k = "int (unat v)"
  have "unat v < 2 ^ 64" using unsigned_less [where 'a = nat, of v] by simp
  then have lt: "?k < 2 ^ 64" by simp
  have ge: "2 ^ 63 \<le> ?k" using assms by simp
  have "sint (word_of_int ?k :: u64) = ?k - 2 ^ 64"
    using wrap63_large [of ?k] ge lt by (simp only: sint_word_of_int)
  moreover have "(word_of_int ?k :: u64) = v" by (simp add: int_unat_eq_uint)
  ultimately show ?thesis using lt by simp
qed

lemma Version_Int_of_nat: "n < 2 ^ 63 \<Longrightarrow> Version_Int (of_nat n) = int n"
  by (simp only: Version_Int_def sint_of_nat)

lemma Version_Int_ok: "version_ok v \<Longrightarrow> Version_Int v = int (unat v)"
  by (simp only: version_ok_def Version_Int_def sint_eq_unat)

lemma Version_Int_bad: "\<not> version_ok v \<Longrightarrow> Version_Int v < 0"
  unfolding version_ok_def Version_Int_def by (rule sint_negative)

lemma version_ok_of_nat: "n < 2 ^ 63 \<Longrightarrow> version_ok (of_nat n) \<and> unat (of_nat n :: u64) = n"
  by (simp add: version_ok_def unat_of_nat)

lemma CheckVersionConflict_None:
  assumes "version_ok v"
  shows "CheckVersionConflict n v = None \<longleftrightarrow> n = unat v"
  using assms by (simp only: CheckVersionConflict_def Version_Int_ok) auto

lemma CheckVersionConflict_Some:
  "CheckVersionConflict n v = Some e \<Longrightarrow> errors_Is e ErrVersionConflict"
  by (auto simp: CheckVersionConflict_def split: if_splits)

text \<open>The value of a version slice, and its panic.\<close>

lemma SliceFromVersion_ok:
  assumes "version_ok v"
  shows "SliceFromVersion es v = Ok (drop (unat v) es)"
  by (simp only: SliceFromVersion_def slice_from_def Version_Int_ok [OF assms]) auto

lemma SliceToVersion_ok:
  assumes "version_ok v"
  shows "SliceToVersion es v = Ok (take (unat v) es)"
  by (simp only: SliceToVersion_def slice_to_def Version_Int_ok [OF assms]) (auto simp: min_def)

lemma Slice_panic:
  assumes "\<not> version_ok v"
  shows "SliceFromVersion es v = Panic" and "SliceToVersion es v = Panic"
  using Version_Int_bad [OF assms]
  by (auto simp: SliceFromVersion_def slice_from_def SliceToVersion_def slice_to_def)

text \<open>
  For every version a stream can have, the events up to the version followed by the events
  after it are the whole stream, in order, and the first part has the version as its length
  (or is everything, when the version is beyond the end).
\<close>

theorem version_slices_partition:
  assumes "version_ok v"
  shows "\<exists>xs ys. SliceToVersion es v = Ok xs \<and> SliceFromVersion es v = Ok ys \<and>
           xs @ ys = es \<and> length xs = min (unat v) (length es)"
  using assms by (simp add: SliceFromVersion_ok SliceToVersion_ok min.commute)

theorem version_slices_partition_witness:
  "version_ok 2 \<and> SliceToVersion [10, 20, 30 :: int] 2 = Ok [10, 20] \<and>
   SliceFromVersion [10, 20, 30 :: int] 2 = Ok [30]"
proof -
  have v: "version_ok 2" by (simp add: version_ok_def)
  have "SliceToVersion [10, 20, 30 :: int] 2 = Ok [10, 20]" by code_simp
  moreover obtain ys where "SliceFromVersion [10, 20, 30 :: int] 2 = Ok ys"
      and "[10, 20] @ ys = [10, 20, 30 :: int]"
    using version_slices_partition [OF v, of "[10, 20, 30 :: int]"] calculation by auto
  ultimately show ?thesis using v by simp
qed

text \<open>
  A version whose signed reading is negative makes both slices panic, whatever the stream,
  instead of returning the empty tail or the whole stream.
\<close>

theorem version_slices_panic:
  assumes "\<not> version_ok v"
  shows "SliceFromVersion es v = Panic \<and> SliceToVersion es v = Panic"
  by (simp add: Slice_panic [OF assms])

theorem version_slices_panic_witness:
  "\<not> version_ok (2 ^ 63) \<and> SliceFromVersion ([] :: int list) (2 ^ 63) = Panic"
proof -
  have v: "\<not> version_ok (2 ^ 63)" by (simp add: version_ok_def)
  show ?thesis using v version_slices_panic [OF v, of "[] :: int list"] by simp
qed

text \<open>Checked subtraction, and the checked schema arithmetic with its wrap-around.\<close>

definition int64 :: "int \<Rightarrow> bool" where
  "int64 n \<longleftrightarrow> - (2 ^ 63) \<le> n \<and> n < 2 ^ 63"

lemma sint_in_range:
  assumes "int64 k"
  shows "sint (word_of_int k :: u64) = k"
  using assms wrap63_small [of k] unfolding int64_def by (simp only: sint_word_of_int)

lemma checkUnderflow_exact:
  assumes "k < 2 ^ 64" and "- (2 ^ 63) \<le> k"
  shows "SchemaVersion_checkUnderflow (word_of_int k) =
     (if 1 \<le> k \<and> k < 2 ^ 63 then Ok (word_of_int k)
      else Fail (ErrFmt [ErrSchemaVersionUnderflow]))"
proof (cases "k < 2 ^ 63")
  case True
  then have "sint (word_of_int k :: u64) = k"
    using assms sint_in_range [of k] by (simp add: int64_def)
  with True show ?thesis by (simp add: SchemaVersion_checkUnderflow_def)
next
  case False
  have "sint (word_of_int k :: u64) = k - 2 ^ 64"
    using assms False wrap63_large [of k] by (simp only: sint_word_of_int not_less)
  then show ?thesis
    using False assms by (simp add: SchemaVersion_checkUnderflow_def)
qed

lemma word_of_int_sint_add: "(sv :: u64) + word_of_int n = word_of_int (sint sv + n)"
  by (simp add: wi_hom_add [symmetric])

lemma word_of_int_sint_diff: "(sv :: u64) - word_of_int n = word_of_int (sint sv - n)"
  by (simp add: wi_hom_sub [symmetric])

lemma sint_u64_less: "sint (sv :: u64) < 2 ^ 63"
  using sint_lt [of sv] by simp

text \<open>
  Schema-version arithmetic is exact: from a positive schema version, adding or subtracting
  any \<open>int\<close> succeeds exactly when the mathematical result is a positive \<open>int\<close>, and then
  the result reads as that number; an overflow of the machine addition is reported as an error
  rather than returned as a wrapped value.
\<close>

theorem SchemaVersion_arith_exact:
  assumes "1 \<le> sint sv" and "int64 n"
  shows "SchemaVersion_Add sv n =
           (if 1 \<le> sint sv + n \<and> sint sv + n < 2 ^ 63 then Ok (word_of_int (sint sv + n))
            else Fail (ErrFmt [ErrSchemaVersionUnderflow])) \<and>
         SchemaVersion_Sub sv n =
           (if 1 \<le> sint sv - n \<and> sint sv - n < 2 ^ 63 then Ok (word_of_int (sint sv - n))
            else Fail (ErrFmt [ErrSchemaVersionUnderflow]))"
proof -
  have "sint sv + n < 2 ^ 64" and "- (2 ^ 63) \<le> sint sv + n"
    and "sint sv - n < 2 ^ 64" and "- (2 ^ 63) \<le> sint sv - n"
    using assms sint_u64_less [of sv] by (auto simp: int64_def)
  then show ?thesis
    unfolding SchemaVersion_Add_def SchemaVersion_Sub_def word_of_int_sint_add word_of_int_sint_diff
    by (simp only: checkUnderflow_exact)
qed

theorem SchemaVersion_arith_exact_witness:
  "1 \<le> sint (word_of_int (2 ^ 63 - 1) :: u64) \<and> int64 1 \<and>
   SchemaVersion_Add (word_of_int (2 ^ 63 - 1)) 1 = Fail (ErrFmt [ErrSchemaVersionUnderflow])"
proof -
  have m: "sint (word_of_int (2 ^ 63 - 1) :: u64) = 2 ^ 63 - 1"
    by (rule sint_in_range) (simp add: int64_def)
  have p: "1 \<le> sint (word_of_int (2 ^ 63 - 1) :: u64)" unfolding m by simp
  have n: "int64 1" by (simp add: int64_def)
  show ?thesis
    using p n SchemaVersion_arith_exact [OF p n] unfolding m by simp
qed

text \<open>
  Version subtraction is exact for every \<open>int\<close> operand: it returns the difference when the
  operand is between zero and the version, and reports underflow otherwise; a negative operand
  never increases a version.
\<close>

theorem Version_Sub_exact:
  assumes "version_ok v" and "int64 n"
  shows "Version_Sub v n =
    (if 0 \<le> n \<and> n \<le> int (unat v) then Ok (of_nat (unat v - nat n))
     else Fail (ErrFmt [ErrVersionUnderflow]))"
proof (cases "0 \<le> n")
  case True
  then obtain m where n: "n = int m" using zero_le_imp_eq_int by blast
  then have m: "m < 2 ^ 63" using assms by (simp add: int64_def)
  then have w: "unat (word_of_int n :: u64) = m" by (simp add: n unat_of_nat)
  have "v - of_nat m = of_nat (unat v - m)" if "m \<le> unat v"
    using that by (simp add: of_nat_diff of_nat_unat_self)
  then show ?thesis
    using True w by (simp add: Version_Sub_def word_less_nat_alt n not_less)
next
  case False
  have "unat (word_of_int n :: u64) \<ge> 2 ^ 63"
  proof (rule ccontr)
    assume "\<not> unat (word_of_int n :: u64) \<ge> 2 ^ 63"
    then have "0 \<le> sint (word_of_int n :: u64)" using sint_eq_unat [of "word_of_int n"] by simp
    then show False using False sint_in_range [OF assms(2)] by simp
  qed
  with assms(1) False show ?thesis
    by (auto simp: Version_Sub_def version_ok_def word_less_nat_alt)
qed

theorem Version_Sub_exact_witness:
  "version_ok 5 \<and> int64 (- 3) \<and> Version_Sub 5 (- 3) = Fail (ErrFmt [ErrVersionUnderflow])"
proof -
  have v: "version_ok 5" by (simp add: version_ok_def)
  have n: "int64 (- 3)" by (simp add: int64_def)
  show ?thesis using v n Version_Sub_exact [OF v n] by simp
qed

end
