(* ===== verification/Metadata.thy ===== *)
theory Metadata
  imports Ids
begin

text \<open>
  Tracing identifiers and metadata of \<open>src/metadata/metadata.go\<close>, \<open>src/metadata/ids.go\<close>,
  \<open>src/metadata/record_actor.go\<close> and the event metadata of \<open>src/event/metadata.go\<close>,
  \<open>src/event/tombstone.go\<close> (status and mark) and \<open>src/event/causality.go\<close> (the typed
  causation). A custom map is a partial function; a nil map and an empty map read, clone and
  copy alike, so both are \<open>Map.empty\<close>. Clones of maps and of pointed-to values are equal values.
\<close>

section \<open>Tracing\<close>

record Tracing =
  t_CorrelationID :: ulid
  t_CausationID :: ulid
  t_UserID :: ulid
  t_RequestID :: ulid
  t_ActorID :: ActorID

definition zeroTracing :: Tracing where
  "zeroTracing = \<lparr>t_CorrelationID = 0, t_CausationID = 0, t_UserID = 0, t_RequestID = 0,
                  t_ActorID = zeroActor\<rparr>"

definition Tracing_IsZero :: "Tracing \<Rightarrow> bool" where
  "Tracing_IsZero t \<longleftrightarrow>
     t_CorrelationID t = 0 \<and> t_CausationID t = 0 \<and> t_UserID t = 0 \<and> t_RequestID t = 0 \<and>
     ActorID_IsZero (t_ActorID t)"

text \<open>A field of the second operand that is not zero wins.\<close>

definition overlay :: "('a \<Rightarrow> bool) \<Rightarrow> 'a \<Rightarrow> 'a \<Rightarrow> 'a" where
  "overlay isZero a b = (if isZero b then a else b)"

lemma overlay_assoc: "overlay z (overlay z a b) c = overlay z a (overlay z b c)"
  by (simp add: overlay_def)

lemma overlay_left_zero: "isZero b \<longrightarrow> b = z \<Longrightarrow> overlay isZero z b = b"
  by (auto simp: overlay_def)

definition Tracing_Merge :: "Tracing \<Rightarrow> Tracing \<Rightarrow> Tracing" where
  "Tracing_Merge t u =
     \<lparr>t_CorrelationID = overlay (\<lambda>x. x = 0) (t_CorrelationID t) (t_CorrelationID u),
      t_CausationID = overlay (\<lambda>x. x = 0) (t_CausationID t) (t_CausationID u),
      t_UserID = overlay (\<lambda>x. x = 0) (t_UserID t) (t_UserID u),
      t_RequestID = overlay (\<lambda>x. x = 0) (t_RequestID t) (t_RequestID u),
      t_ActorID = overlay ActorID_IsZero (t_ActorID t) (t_ActorID u)\<rparr>"

text \<open>
  \<open>BrandedString\<close> and \<open>ActorString\<close>; the display form of a branded identifier is the
  parameter \<open>disp\<close>.
\<close>

definition BrandedString :: "(ulid \<Rightarrow> string) \<Rightarrow> ulid \<Rightarrow> string" where
  "BrandedString disp v = (if v = 0 then [] else disp v)"

definition ActorString :: "(ulid \<Rightarrow> string) \<Rightarrow> Tracing \<Rightarrow> string" where
  "ActorString disp t =
     (if \<not> ActorID_IsZero (t_ActorID t) then PrefixedString (t_ActorID t)
      else BrandedString disp (t_UserID t))"

text \<open>
  \<open>RecordActor\<close>: the structural actor of a record. The record layer mirrors the kinds of the
  identifier layer one for one (\<open>recordActorKind\<close>), so the same datatype stands for both.
\<close>

definition RecordActor :: "(ulid \<Rightarrow> string) \<Rightarrow> Tracing \<Rightarrow> ActorID" where
  "RecordActor disp t =
     (if \<not> ActorID_IsZero (t_ActorID t)
      then \<lparr>a_kind = a_kind (t_ActorID t), a_raw = a_raw (t_ActorID t)\<rparr>
      else if t_UserID t \<noteq> 0 then \<lparr>a_kind = ActorUser, a_raw = disp (t_UserID t)\<rparr>
      else \<lparr>a_kind = ActorUnknown, a_raw = []\<rparr>)"

section \<open>Event metadata\<close>

datatype TombstoneStatus = TombstoneActive | TombstoneTombstoned | TombstoneUndetermined

record TombstoneMark =
  tm_Status :: TombstoneStatus
  tm_Reason :: string

record Causation =
  c_CommandType :: string
  c_CommandID :: ulid

type_synonym custom = "string \<rightharpoonup> string"

record Metadata =
  m_Tracing :: Tracing
  m_Source :: string
  m_IPAddress :: string
  m_UserAgent :: string
  m_Tombstone :: "TombstoneMark option"
  m_Causation :: "Causation option"
  m_Custom :: custom

definition NewMetadata :: Metadata where
  "NewMetadata = \<lparr>m_Tracing = zeroTracing, m_Source = [], m_IPAddress = [], m_UserAgent = [],
                  m_Tombstone = None, m_Causation = None, m_Custom = Map.empty\<rparr>"

definition Metadata_Clone :: "Metadata \<Rightarrow> Metadata" where
  "Metadata_Clone m = m"

definition Metadata_WithCustom :: "Metadata \<Rightarrow> string \<Rightarrow> string \<Rightarrow> Metadata" where
  "Metadata_WithCustom m k v = m\<lparr>m_Custom := (m_Custom m)(k \<mapsto> v)\<rparr>"

text \<open>
  \<open>MergeCustomMaps\<close> returns the base map when the other one has no entry, and a fresh map
  with both copied into it otherwise; as a map of values both cases are \<open>base ++ other\<close>.
\<close>

definition MergeCustomMaps :: "custom \<Rightarrow> custom \<Rightarrow> custom" where
  "MergeCustomMaps base other = base ++ other"

definition Metadata_Merge :: "Metadata \<Rightarrow> Metadata \<Rightarrow> Metadata" where
  "Metadata_Merge m n =
     \<lparr>m_Tracing = Tracing_Merge (m_Tracing m) (m_Tracing n),
      m_Source = overlay (\<lambda>x. x = []) (m_Source m) (m_Source n),
      m_IPAddress = overlay (\<lambda>x. x = []) (m_IPAddress m) (m_IPAddress n),
      m_UserAgent = overlay (\<lambda>x. x = []) (m_UserAgent m) (m_UserAgent n),
      m_Tombstone = overlay (\<lambda>x. x = None) (m_Tombstone m) (m_Tombstone n),
      m_Causation = overlay (\<lambda>x. x = None) (m_Causation m) (m_Causation n),
      m_Custom = MergeCustomMaps (m_Custom m) (m_Custom n)\<rparr>"

text \<open>Reading a Go map of strings: the empty string for an absent key.\<close>

definition custom_get :: "custom \<Rightarrow> string \<Rightarrow> string" where
  "custom_get c k = (case c k of None \<Rightarrow> [] | Some v \<Rightarrow> v)"

lemmas metadata_defs = Metadata_Merge_def Tracing_Merge_def MergeCustomMaps_def NewMetadata_def
  zeroTracing_def

section \<open>Laws\<close>

lemma Tracing_Merge_assoc:
  "Tracing_Merge (Tracing_Merge a b) c = Tracing_Merge a (Tracing_Merge b c)"
  by (simp add: Tracing_Merge_def overlay_assoc)

lemma Metadata_Merge_assoc:
  "Metadata_Merge (Metadata_Merge a b) c = Metadata_Merge a (Metadata_Merge b c)"
  by (simp add: Metadata_Merge_def Tracing_Merge_assoc overlay_assoc MergeCustomMaps_def)

lemma Metadata_Merge_right_zero: "Metadata_Merge m NewMetadata = m"
  by (cases m, cases "m_Tracing m")
    (simp add: metadata_defs overlay_def ActorID_IsZero_def zeroActor_def)

lemma Metadata_Merge_left_zero:
  assumes "ActorID_IsZero (t_ActorID (m_Tracing m)) \<Longrightarrow> t_ActorID (m_Tracing m) = zeroActor"
  shows "Metadata_Merge NewMetadata m = m"
  using assms
  by (cases m, cases "m_Tracing m")
    (auto simp: metadata_defs overlay_def)

text \<open>
  Merging metadata is associative and has the empty metadata as its right unit; it is also
  its left unit for metadata whose actor, if it has no raw value, is the zero actor.
\<close>

theorem Metadata_Merge_monoid:
  assumes "ActorID_IsZero (t_ActorID (m_Tracing m)) \<longrightarrow> t_ActorID (m_Tracing m) = zeroActor"
  shows "Metadata_Merge (Metadata_Merge m n) p = Metadata_Merge m (Metadata_Merge n p) \<and>
         Metadata_Merge m NewMetadata = m \<and> Metadata_Merge NewMetadata m = m"
  using assms Metadata_Merge_assoc Metadata_Merge_right_zero Metadata_Merge_left_zero by simp

theorem Metadata_Merge_monoid_witness:
  "Metadata_Merge NewMetadata (Metadata_WithCustom NewMetadata ''k'' ''v'') =
     Metadata_WithCustom NewMetadata ''k'' ''v''"
proof -
  have "ActorID_IsZero (t_ActorID (m_Tracing (Metadata_WithCustom NewMetadata ''k'' ''v''))) \<longrightarrow>
        t_ActorID (m_Tracing (Metadata_WithCustom NewMetadata ''k'' ''v'')) = zeroActor"
    by (simp add: metadata_defs Metadata_WithCustom_def)
  from Metadata_Merge_monoid [OF this] show ?thesis by blast
qed

text \<open>
  The structural actor of a record prints to the string form of the same tracing, whenever the
  recorded actor is valid or absent.
\<close>

lemma RecordActor_consistent:
  assumes "ActorID_Validate (t_ActorID t) = None" and "\<not> ActorID_IsZero (t_ActorID t)"
  shows "PrefixedString (RecordActor disp t) = ActorString disp t"
  using assms
  by (simp add: RecordActor_def ActorString_def PrefixedString_def ActorID_IsZero_def)

end
