(* ===== verification/Events.thy ===== *)
theory Events
  imports Metadata Versions
begin

text \<open>
  The event value of \<open>src/event/event.go\<close>, its construction and validation
  (\<open>event_new.go\<close>, \<open>event_construct.go\<close>, \<open>event_validate.go\<close>, \<open>batch.go\<close>, \<open>single.go\<close>),
  the options of \<open>options.go\<close>, reconstruction from stored fields (\<open>reconstruct.go\<close>),
  payload decoding (\<open>codec.go\<close>), soft deletion (\<open>tombstone.go\<close>) and command causality
  (\<open>causality.go\<close>). Codecs are code of another module: a codec is a record of its three
  operations. The identifier minted for a new event and the reading of the default clock are
  arguments; an option is the function it applies to the event.
\<close>

section \<open>Events\<close>

text \<open>A payload of type \<open>any\<close>: nil, raw bytes, a JSON text, or another value.\<close>

datatype payload = PNil | PBytes "byte list" | PJSON "byte list" | PValue string

record codec =
  cd_Encoding :: string
  cd_Encode :: "payload \<Rightarrow> byte list outcome"
  cd_Decode :: "byte list \<Rightarrow> payload outcome"

record eventOptions =
  o_clock :: "(unit \<Rightarrow> instant) option"
  o_newCodec :: "codec option"
  o_deadline :: instant

record event =
  e_id :: ulid
  e_eventType :: string
  e_streamID :: StreamID
  e_streamType :: StreamType
  e_version :: Version
  e_schemaVersion :: SchemaVersion
  e_encoding :: string
  e_payload :: "byte list"
  e_metadata :: Metadata
  e_occurredAt :: instant
  e_opts :: "eventOptions option"

type_synonym option_fn = "event \<Rightarrow> event"

definition zeroOptions :: eventOptions where
  "zeroOptions = \<lparr>o_clock = None, o_newCodec = None, o_deadline = 0\<rparr>"

definition zeroEvent :: event where
  "zeroEvent = \<lparr>e_id = 0, e_eventType = [], e_streamID = [], e_streamType = [], e_version = 0,
                e_schemaVersion = 0, e_encoding = [], e_payload = [], e_metadata = NewMetadata,
                e_occurredAt = 0, e_opts = None\<rparr>"

definition ErrEmptyEventType :: go_error where
  "ErrEmptyEventType = ErrNew Rejection ''event.empty_event_type''"

definition ErrNilStreamID :: go_error where
  "ErrNilStreamID = ErrNew Rejection ''event.nil_stream_id''"

definition event_ErrEmptyStreamType :: go_error where
  "event_ErrEmptyStreamType = ErrNew Rejection ''event.empty_stream_type''"

definition ErrVersionNotPositive :: go_error where
  "ErrVersionNotPositive = ErrNew Rejection ''event.version_not_positive''"

definition ErrNilPayload :: go_error where
  "ErrNilPayload = ErrNew Rejection ''event.nil_payload''"

definition ErrMismatchedEventCount :: go_error where
  "ErrMismatchedEventCount = ErrNew Rejection ''event.mismatched_event_count''"

subsection \<open>Accessors\<close>

definition EncodingJSON :: string where
  "EncodingJSON = ''json''"

definition Event_Encoding :: "event \<Rightarrow> string" where
  "Event_Encoding e = (if e_encoding e = [] then EncodingJSON else e_encoding e)"

definition Event_Deadline :: "event \<Rightarrow> instant \<times> bool" where
  "Event_Deadline e =
     (case e_opts e of None \<Rightarrow> (0, False) | Some oo \<Rightarrow> (o_deadline oo, o_deadline oo \<noteq> 0))"

definition Event_Clone :: "event \<Rightarrow> event" where
  "Event_Clone e = e\<lparr>e_metadata := Metadata_Clone (e_metadata e)\<rparr>"

section \<open>Options\<close>

definition ensureOpts :: "event \<Rightarrow> eventOptions" where
  "ensureOpts e = (case e_opts e of None \<Rightarrow> zeroOptions | Some oo \<Rightarrow> oo)"

definition WithCodec :: "codec \<Rightarrow> option_fn" where
  "WithCodec c e = e\<lparr>e_opts := Some ((ensureOpts e)\<lparr>o_newCodec := Some c\<rparr>)\<rparr>"

definition WithClock :: "(unit \<Rightarrow> instant) \<Rightarrow> option_fn" where
  "WithClock clk e = e\<lparr>e_opts := Some ((ensureOpts e)\<lparr>o_clock := Some clk\<rparr>)\<rparr>"

definition WithDeadline :: "instant \<Rightarrow> option_fn" where
  "WithDeadline t e = e\<lparr>e_opts := Some ((ensureOpts e)\<lparr>o_deadline := t\<rparr>)\<rparr>"

definition WithEventID :: "ulid \<Rightarrow> option_fn" where
  "WithEventID v e = e\<lparr>e_id := v\<rparr>"

definition WithOccurredAt :: "instant \<Rightarrow> option_fn" where
  "WithOccurredAt v e = e\<lparr>e_occurredAt := v\<rparr>"

definition WithMetadata :: "Metadata \<Rightarrow> option_fn" where
  "WithMetadata m e = e\<lparr>e_metadata := Metadata_Merge (e_metadata e) m\<rparr>"

text \<open>\<open>apply\<close>: set one field of the metadata in place.\<close>

definition opt_apply :: "(Metadata \<Rightarrow> Metadata) \<Rightarrow> option_fn" where
  "opt_apply f e = e\<lparr>e_metadata := f (e_metadata e)\<rparr>"

definition set_tracing :: "(Tracing \<Rightarrow> Tracing) \<Rightarrow> Metadata \<Rightarrow> Metadata" where
  "set_tracing f m = m\<lparr>m_Tracing := f (m_Tracing m)\<rparr>"

definition WithCorrelationID :: "ulid \<Rightarrow> option_fn" where
  "WithCorrelationID v = opt_apply (set_tracing (\<lambda>t. t\<lparr>t_CorrelationID := v\<rparr>))"

definition WithCausationID :: "ulid \<Rightarrow> option_fn" where
  "WithCausationID v = opt_apply (set_tracing (\<lambda>t. t\<lparr>t_CausationID := v\<rparr>))"

definition WithUserID :: "ulid \<Rightarrow> option_fn" where
  "WithUserID v = opt_apply (set_tracing (\<lambda>t. t\<lparr>t_UserID := v\<rparr>))"

definition WithActor :: "ActorID \<Rightarrow> option_fn" where
  "WithActor v = opt_apply (set_tracing (\<lambda>t. t\<lparr>t_ActorID := v\<rparr>))"

definition WithRequestID :: "ulid \<Rightarrow> option_fn" where
  "WithRequestID v = opt_apply (set_tracing (\<lambda>t. t\<lparr>t_RequestID := v\<rparr>))"

definition WithSource :: "string \<Rightarrow> option_fn" where
  "WithSource v = opt_apply (\<lambda>m. m\<lparr>m_Source := v\<rparr>)"

definition WithIPAddress :: "string \<Rightarrow> option_fn" where
  "WithIPAddress v = opt_apply (\<lambda>m. m\<lparr>m_IPAddress := v\<rparr>)"

definition WithUserAgent :: "string \<Rightarrow> option_fn" where
  "WithUserAgent v = opt_apply (\<lambda>m. m\<lparr>m_UserAgent := v\<rparr>)"

definition MetadataKeyCommandType :: string where
  "MetadataKeyCommandType = ''command.type''"

definition MetadataKeyCommandID :: string where
  "MetadataKeyCommandID = ''command.id''"

definition MetadataKeyTombstone :: string where
  "MetadataKeyTombstone = ''tombstone''"

definition MetadataKeyRebirth :: string where
  "MetadataKeyRebirth = ''rebirth''"

definition WithCustom :: "string \<Rightarrow> string \<Rightarrow> option_fn" where
  "WithCustom k v = opt_apply (\<lambda>m. Metadata_WithCustom m k v)"

definition WithSchemaVersion :: "SchemaVersion \<Rightarrow> option_fn" where
  "WithSchemaVersion v e = e\<lparr>e_schemaVersion := v\<rparr>"

definition WithCausation :: "string \<Rightarrow> ulid \<Rightarrow> option_fn" where
  "WithCausation ct cid =
     opt_apply (\<lambda>m. m\<lparr>m_Causation := Some \<lparr>c_CommandType = ct, c_CommandID = cid\<rparr>\<rparr>)"

definition WithEncoding :: "string \<Rightarrow> option_fn" where
  "WithEncoding v e = e\<lparr>e_encoding := v\<rparr>"

definition FromContext :: "instant option \<Rightarrow> option_fn" where
  "FromContext deadline = (case deadline of None \<Rightarrow> (\<lambda>e. e) | Some d \<Rightarrow> WithDeadline d)"

text \<open>\<open>for _, opt := range opts { opt(evt) }\<close>\<close>

definition apply_opts :: "option_fn list \<Rightarrow> event \<Rightarrow> event" where
  "apply_opts opts e = fold (\<lambda>opt e. opt e) opts e"

lemma apply_opts_simps [simp]:
  "apply_opts [] e = e"
  "apply_opts (opt # os) e = apply_opts os (opt e)"
  "apply_opts (os @ os') e = apply_opts os' (apply_opts os e)"
  by (simp_all add: apply_opts_def)

section \<open>Construction\<close>

definition validateEventParams ::
  "string \<Rightarrow> StreamID \<Rightarrow> StreamType \<Rightarrow> Version \<Rightarrow> byte list \<Rightarrow> go_error option" where
  "validateEventParams eventType streamID streamType version payload =
     (if eventType = [] then Some (ErrWrap Rejection ''event.empty_event_type'' ErrEmptyEventType)
      else if streamID = [] then Some (ErrWrap Rejection ''event.nil_stream_id'' ErrNilStreamID)
      else if streamType = [] then
        Some (ErrWrap Rejection ''event.empty_stream_type'' event_ErrEmptyStreamType)
      else if Version_IsZero version then
        Some (ErrWrap Rejection ''event.version_not_positive'' ErrVersionNotPositive)
      else None)"

definition buildEvent ::
  "ulid \<Rightarrow> instant \<Rightarrow> string \<Rightarrow> StreamID \<Rightarrow> StreamType \<Rightarrow> Version \<Rightarrow> byte list \<Rightarrow>
   option_fn list \<Rightarrow> event" where
  "buildEvent newID now eventType streamID streamType version payload opts =
     (let evt = apply_opts opts
            \<lparr>e_id = newID, e_eventType = eventType, e_streamID = streamID,
             e_streamType = streamType, e_version = version, e_schemaVersion = 1,
             e_encoding = [], e_payload = payload, e_metadata = NewMetadata,
             e_occurredAt = 0, e_opts = None\<rparr>
      in if e_occurredAt evt = 0
         then evt\<lparr>e_occurredAt :=
                (case e_opts evt of
                   None \<Rightarrow> now
                 | Some oo \<Rightarrow> (case o_clock oo of None \<Rightarrow> now | Some clk \<Rightarrow> clk ()))\<rparr>
         else evt)"

definition NewEvent ::
  "ulid \<Rightarrow> instant \<Rightarrow> string \<Rightarrow> StreamID \<Rightarrow> StreamType \<Rightarrow> Version \<Rightarrow> byte list \<Rightarrow>
   option_fn list \<Rightarrow> event outcome" where
  "NewEvent newID now eventType streamID streamType version payload opts =
     (case validateEventParams eventType streamID streamType version payload of
        Some e \<Rightarrow> Fail e
      | None \<Rightarrow> Ok (buildEvent newID now eventType streamID streamType version payload opts))"

definition marshalPayload :: "payload \<Rightarrow> string \<Rightarrow> codec \<Rightarrow> byte list outcome" where
  "marshalPayload payload eventType c =
     (case payload of
        PNil \<Rightarrow> Fail (ErrWrap Rejection ''event.nil_payload'' ErrNilPayload)
      | PBytes v \<Rightarrow> Ok v
      | PJSON v \<Rightarrow> Ok v
      | PValue _ \<Rightarrow>
          (case cd_Encode c payload of
             Ok data \<Rightarrow> Ok data
           | Fail err \<Rightarrow> Fail (ErrWrap Corruption ''event.marshal_payload_failed'' err)
           | Panic \<Rightarrow> Panic))"

definition probeCodec :: "codec \<Rightarrow> option_fn list \<Rightarrow> codec" where
  "probeCodec DefaultCodec opts =
     (case e_opts (apply_opts opts zeroEvent) of
        None \<Rightarrow> DefaultCodec
      | Some oo \<Rightarrow> (case o_newCodec oo of None \<Rightarrow> DefaultCodec | Some c \<Rightarrow> c))"

definition New ::
  "codec \<Rightarrow> ulid \<Rightarrow> instant \<Rightarrow> string \<Rightarrow> StreamID \<Rightarrow> StreamType \<Rightarrow> Version \<Rightarrow> payload \<Rightarrow>
   option_fn list \<Rightarrow> event outcome" where
  "New DefaultCodec newID now eventType streamID streamType version payload opts =
     (let c = probeCodec DefaultCodec opts in
      obind (marshalPayload payload eventType c) (\<lambda>data.
        case validateEventParams eventType streamID streamType version data of
          Some e \<Rightarrow> Fail e
        | None \<Rightarrow>
            (let evt = buildEvent newID now eventType streamID streamType version data opts in
             Ok (if e_encoding evt = [] then evt\<lparr>e_encoding := cd_Encoding c\<rparr> else evt))))"

definition Single ::
  "codec \<Rightarrow> ulid \<Rightarrow> instant \<Rightarrow> string \<Rightarrow> StreamID \<Rightarrow> StreamType \<Rightarrow> Version \<Rightarrow> payload \<Rightarrow>
   option_fn list \<Rightarrow> event list outcome" where
  "Single c newID now eventType streamID streamType version payload opts =
     obind (New c newID now eventType streamID streamType version payload opts) (\<lambda>evt. Ok [evt])"

text \<open>
  The loop of \<open>NewEvents\<close> from index \<open>i\<close> on; \<open>newID\<close> and \<open>now\<close> give the identifier
  minted and the clock read in the \<open>i\<close>-th iteration.
\<close>

fun NewEvents_loop ::
  "codec \<Rightarrow> (nat \<Rightarrow> ulid) \<Rightarrow> (nat \<Rightarrow> instant) \<Rightarrow> StreamID \<Rightarrow> StreamType \<Rightarrow> Version \<Rightarrow> nat \<Rightarrow>
   string list \<Rightarrow> payload list \<Rightarrow> option_fn list \<Rightarrow> event list outcome" where
  "NewEvents_loop c newID now sid st version i (t # ts) (p # ps) opts =
     (case New c (newID i) (now i) t sid st (Version_Add version (of_nat (i + 1))) p opts of
        Ok evt \<Rightarrow> obind (NewEvents_loop c newID now sid st version (Suc i) ts ps opts)
                    (\<lambda>evts. Ok (evt # evts))
      | Fail e \<Rightarrow> Fail (ErrFmt [e])
      | Panic \<Rightarrow> Panic)"
| "NewEvents_loop c newID now sid st version i _ _ opts = Ok []"

definition NewEvents ::
  "codec \<Rightarrow> (nat \<Rightarrow> ulid) \<Rightarrow> (nat \<Rightarrow> instant) \<Rightarrow> StreamID \<Rightarrow> StreamType \<Rightarrow> Version \<Rightarrow>
   string list \<Rightarrow> payload list \<Rightarrow> option_fn list \<Rightarrow> event list outcome" where
  "NewEvents c newID now sid st version eventTypes payloads opts =
     (if length eventTypes \<noteq> length payloads
      then Fail (ErrWrap Rejection ''event.mismatched_event_count'' ErrMismatchedEventCount)
      else if length eventTypes = 0 then Ok []
      else NewEvents_loop c newID now sid st version 0 eventTypes payloads opts)"

section \<open>Reconstruction from stored fields\<close>

definition reconstructOpts ::
  "ulid \<Rightarrow> instant \<Rightarrow> int \<Rightarrow> string \<Rightarrow> option_fn list \<Rightarrow> option_fn list" where
  "reconstructOpts eventID occurredAt schemaVersion encoding metaOpts =
     [WithEventID eventID, WithOccurredAt occurredAt]
     @ (if schemaVersion > 0 then [WithSchemaVersion (word_of_int schemaVersion)] else [])
     @ metaOpts
     @ (if encoding \<noteq> [] then [WithEncoding encoding] else [])"

definition reconstructEvent ::
  "ulid \<Rightarrow> instant \<Rightarrow> ulid \<Rightarrow> string \<Rightarrow> StreamType \<Rightarrow> StreamID \<Rightarrow> int \<Rightarrow> int \<Rightarrow> byte list \<Rightarrow>
   option_fn list \<Rightarrow> instant \<Rightarrow> string \<Rightarrow> string \<Rightarrow> event outcome" where
  "reconstructEvent newID now eventID eventType aggType aggID version schemaVersion payload
     metaOpts occurredAt encoding errCodePrefix =
     (case NewEvent newID now eventType aggID aggType (word_of_int version) payload
             (reconstructOpts eventID occurredAt schemaVersion encoding metaOpts) of
        Ok evt \<Rightarrow> Ok evt
      | Fail err \<Rightarrow> Fail (ErrWrap Corruption (errCodePrefix @ ''.reconstruct_event'') err)
      | Panic \<Rightarrow> Panic)"

definition ReconstructEventWithMetadata ::
  "ulid \<Rightarrow> instant \<Rightarrow> ulid \<Rightarrow> string \<Rightarrow> StreamType \<Rightarrow> StreamID \<Rightarrow> int \<Rightarrow> int \<Rightarrow> byte list \<Rightarrow>
   Metadata \<Rightarrow> instant \<Rightarrow> string \<Rightarrow> string \<Rightarrow> event outcome" where
  "ReconstructEventWithMetadata newID now eventID eventType aggType aggID version schemaVersion
     payload metadata occurredAt encoding errCodePrefix =
     reconstructEvent newID now eventID eventType aggType aggID version schemaVersion payload
       [WithMetadata metadata] occurredAt encoding errCodePrefix"

definition ReconstructEventWithAdoptedPayload ::
  "ulid \<Rightarrow> instant \<Rightarrow> ulid \<Rightarrow> string \<Rightarrow> StreamType \<Rightarrow> StreamID \<Rightarrow> int \<Rightarrow> int \<Rightarrow> byte list \<Rightarrow>
   Metadata \<Rightarrow> instant \<Rightarrow> string \<Rightarrow> string \<Rightarrow> event outcome" where
  "ReconstructEventWithAdoptedPayload newID now eventID eventType aggType aggID version
     schemaVersion payload metadata occurredAt encoding errCodePrefix =
     (case validateEventParams eventType aggID aggType (word_of_int version) payload of
        Some err \<Rightarrow> Fail (ErrWrap Corruption (errCodePrefix @ ''.reconstruct_event'') err)
      | None \<Rightarrow>
          Ok (buildEvent newID now eventType aggID aggType (word_of_int version) payload
               (reconstructOpts eventID occurredAt schemaVersion encoding [WithMetadata metadata])))"

section \<open>Decoding\<close>

definition validateEncodingMatch :: "event \<Rightarrow> codec \<Rightarrow> go_error option" where
  "validateEncodingMatch evt c =
     (if Event_Encoding evt \<noteq> cd_Encoding c
      then Some (ErrNew Rejection ''event.encoding_mismatch'') else None)"

text \<open>The zero value of the target type is \<open>PNil\<close>.\<close>

definition DecodePayload :: "event \<Rightarrow> codec \<Rightarrow> payload outcome" where
  "DecodePayload evt c =
     (case validateEncodingMatch evt c of
        Some err \<Rightarrow> Fail err
      | None \<Rightarrow>
          if length (e_payload evt) = 0 then Ok PNil
          else (case cd_Decode c (e_payload evt) of
                  Ok target \<Rightarrow> Ok target
                | Fail err \<Rightarrow> Fail (ErrWrap Corruption ''event.decode_payload_failed'' err)
                | Panic \<Rightarrow> Panic))"

definition DecodePayloadAuto :: "(string \<Rightarrow> codec outcome) \<Rightarrow> event \<Rightarrow> payload outcome" where
  "DecodePayloadAuto ForEncoding evt =
     (case ForEncoding (Event_Encoding evt) of
        Ok c \<Rightarrow> DecodePayload evt c
      | Fail err \<Rightarrow> Fail (ErrWrap Corruption ''event.decode_payload_auto_no_codec'' err)
      | Panic \<Rightarrow> Panic)"

fun DecodePayloads :: "event list \<Rightarrow> codec \<Rightarrow> payload list outcome" where
  "DecodePayloads [] c = Ok []"
| "DecodePayloads (evt # evts) c =
     (case validateEncodingMatch evt c of
        Some err \<Rightarrow> Fail (ErrFmt [err])
      | None \<Rightarrow>
          obind (if length (e_payload evt) > 0
                 then (case cd_Decode c (e_payload evt) of
                         Ok target \<Rightarrow> Ok target
                       | Fail err \<Rightarrow> Fail (ErrWrap Corruption ''event.decode_payload_failed'' err)
                       | Panic \<Rightarrow> Panic)
                 else Ok PNil)
            (\<lambda>target. obind (DecodePayloads evts c) (\<lambda>rest. Ok (target # rest))))"

section \<open>Filters and soft deletion\<close>

fun FilterByTimestamp :: "event list \<Rightarrow> instant \<Rightarrow> event list" where
  "FilterByTimestamp [] maxTime = []"
| "FilterByTimestamp (e # es) maxTime =
     (if \<not> After (e_occurredAt e) maxTime then e # FilterByTimestamp es maxTime
      else FilterByTimestamp es maxTime)"

definition DetectTombstone :: "event list \<Rightarrow> TombstoneStatus" where
  "DetectTombstone events =
     (if length events = 0 then TombstoneUndetermined
      else let md = e_metadata (last events) in
        case m_Tombstone md of
          Some mark \<Rightarrow> tm_Status mark
        | None \<Rightarrow>
            if custom_get (m_Custom md) MetadataKeyRebirth = ''true'' then TombstoneActive
            else if custom_get (m_Custom md) MetadataKeyTombstone = ''true'' then TombstoneTombstoned
            else TombstoneUndetermined)"

definition copyWithTombstoneMark ::
  "event option \<Rightarrow> TombstoneMark \<Rightarrow> string \<Rightarrow> event outcome" where
  "copyWithTombstoneMark evto mark key =
     (case evto of
        None \<Rightarrow> Fail (ErrNew Rejection ''event.nil_event'')
      | Some evt \<Rightarrow>
          (let md = (Metadata_WithCustom (e_metadata evt) key ''true'')\<lparr>m_Tombstone := Some mark\<rparr>;
               (deadline, hasDeadline) = Event_Deadline evt;
               opts = (if hasDeadline then Some (zeroOptions\<lparr>o_deadline := deadline\<rparr>) else None)
           in Ok (evt\<lparr>e_metadata := md, e_opts := opts\<rparr>)))"

definition MarkTombstone :: "event option \<Rightarrow> event outcome" where
  "MarkTombstone evt =
     copyWithTombstoneMark evt \<lparr>tm_Status = TombstoneTombstoned, tm_Reason = []\<rparr> MetadataKeyTombstone"

definition MarkRebirth :: "event option \<Rightarrow> event outcome" where
  "MarkRebirth evt =
     copyWithTombstoneMark evt \<lparr>tm_Status = TombstoneActive, tm_Reason = []\<rparr> MetadataKeyRebirth"

section \<open>Command causality\<close>

text \<open>\<open>CommandCausalityEnricher\<close>, with the value stored in the context as its argument.\<close>

definition CommandCausalityEnricher ::
  "(ulid \<Rightarrow> string) \<Rightarrow> (string \<times> ulid) option \<Rightarrow> option_fn list" where
  "CommandCausalityEnricher disp ctx =
     (case ctx of
        None \<Rightarrow> []
      | Some (cmdType, cmdID) \<Rightarrow>
          [WithCausation cmdType cmdID,
           WithCustom MetadataKeyCommandType cmdType,
           WithCustom MetadataKeyCommandID (disp cmdID)])"

section \<open>What options cannot change\<close>

text \<open>
  The fields of an event are unexported, so an option of a client is composed of the options
  above: none of them touches the type, the stream, the version or the payload.
\<close>

definition event_core ::
  "event \<Rightarrow> string \<times> StreamID \<times> StreamType \<times> Version \<times> byte list" where
  "event_core e = (e_eventType e, e_streamID e, e_streamType e, e_version e, e_payload e)"

definition frame_option :: "option_fn \<Rightarrow> bool" where
  "frame_option opt \<longleftrightarrow> (\<forall>e. event_core (opt e) = event_core e)"

definition neutral_option :: "option_fn \<Rightarrow> bool" where
  "neutral_option opt \<longleftrightarrow>
     (\<forall>e. e_encoding (opt e) = e_encoding e \<and>
          o_newCodec (ensureOpts (opt e)) = o_newCodec (ensureOpts e))"

lemmas option_defs = WithCodec_def WithClock_def WithDeadline_def WithEventID_def WithOccurredAt_def
  WithMetadata_def opt_apply_def WithCorrelationID_def WithCausationID_def WithUserID_def
  WithActor_def WithRequestID_def WithSource_def WithIPAddress_def WithUserAgent_def WithCustom_def
  WithSchemaVersion_def WithCausation_def WithEncoding_def FromContext_def

lemma frame_options [simp, intro]:
  "frame_option (WithCodec c)" "frame_option (WithClock clk)" "frame_option (WithDeadline t)"
  "frame_option (WithEventID v)" "frame_option (WithOccurredAt t)" "frame_option (WithMetadata m)"
  "frame_option (WithCorrelationID v)" "frame_option (WithCausationID v)"
  "frame_option (WithUserID v)" "frame_option (WithActor a)" "frame_option (WithRequestID v)"
  "frame_option (WithSource s)" "frame_option (WithIPAddress s)" "frame_option (WithUserAgent s)"
  "frame_option (WithCustom k s)" "frame_option (WithSchemaVersion sv)"
  "frame_option (WithCausation s v)" "frame_option (WithEncoding s)" "frame_option (FromContext d)"
  by (simp_all add: frame_option_def event_core_def option_defs split: option.split)

lemma neutral_options [simp, intro]:
  "neutral_option (WithClock clk)" "neutral_option (WithDeadline t)"
  "neutral_option (WithEventID v)" "neutral_option (WithOccurredAt t)"
  "neutral_option (WithMetadata m)" "neutral_option (WithCorrelationID v)"
  "neutral_option (WithCausationID v)" "neutral_option (WithUserID v)"
  "neutral_option (WithActor a)" "neutral_option (WithRequestID v)" "neutral_option (WithSource s)"
  "neutral_option (WithIPAddress s)" "neutral_option (WithUserAgent s)"
  "neutral_option (WithCustom k s)" "neutral_option (WithSchemaVersion sv)"
  "neutral_option (WithCausation s v)" "neutral_option (FromContext d)"
  by (simp_all add: neutral_option_def option_defs ensureOpts_def zeroOptions_def split: option.split)

lemma apply_opts_frame:
  "\<forall>opt \<in> set opts. frame_option opt \<Longrightarrow> event_core (apply_opts opts e) = event_core e"
  by (induction opts arbitrary: e) (auto simp: frame_option_def)

lemma apply_opts_neutral:
  assumes "\<forall>opt \<in> set opts. neutral_option opt"
  shows "e_encoding (apply_opts opts e) = e_encoding e"
    and "o_newCodec (ensureOpts (apply_opts opts e)) = o_newCodec (ensureOpts e)"
  using assms by (induction opts arbitrary: e) (auto simp: neutral_option_def)

lemma probeCodec_ensure:
  "probeCodec dc opts =
     (case o_newCodec (ensureOpts (apply_opts opts zeroEvent)) of None \<Rightarrow> dc | Some c \<Rightarrow> c)"
  by (simp add: probeCodec_def ensureOpts_def zeroOptions_def split: option.split)

lemma probeCodec_neutral:
  "\<forall>opt \<in> set opts. neutral_option opt \<Longrightarrow> probeCodec dc opts = dc"
  "\<forall>opt \<in> set opts. neutral_option opt \<Longrightarrow> probeCodec dc (WithCodec c # opts) = c"
  by (simp_all add: probeCodec_ensure apply_opts_neutral)
    (simp_all add: ensureOpts_def zeroEvent_def zeroOptions_def WithCodec_def)

lemma buildEvent_core:
  assumes "\<forall>opt \<in> set opts. frame_option opt"
  shows "event_core (buildEvent newID now t sid st v p opts) = (t, sid, st, v, p)"
  using apply_opts_frame [OF assms]
  by (simp add: buildEvent_def Let_def event_core_def)

lemma buildEvent_encoding:
  "e_encoding (buildEvent newID now t sid st v p opts) =
     e_encoding (apply_opts opts
       \<lparr>e_id = newID, e_eventType = t, e_streamID = sid, e_streamType = st, e_version = v,
        e_schemaVersion = 1, e_encoding = [], e_payload = p, e_metadata = NewMetadata,
        e_occurredAt = 0, e_opts = None\<rparr>)"
  by (simp add: buildEvent_def Let_def)

section \<open>Properties of construction\<close>

lemma validateEventParams_None:
  "validateEventParams t sid st v p = None \<longleftrightarrow> t \<noteq> [] \<and> sid \<noteq> [] \<and> st \<noteq> [] \<and> v \<noteq> 0"
  by (simp add: validateEventParams_def Version_IsZero_def)

lemma New_Ok_core:
  assumes "New dc newID now t sid st v p opts = Ok evt" and "\<forall>opt \<in> set opts. frame_option opt"
  shows "t \<noteq> []" "sid \<noteq> []" "st \<noteq> []" "v \<noteq> 0"
    and "e_eventType evt = t" "e_streamID evt = sid" "e_streamType evt = st" "e_version evt = v"
    and "marshalPayload p t (probeCodec dc opts) = Ok (e_payload evt)"
proof -
  from assms(1) obtain data where data: "marshalPayload p t (probeCodec dc opts) = Ok data"
    and valid: "validateEventParams t sid st v data = None"
    and evt: "event_core evt = event_core (buildEvent newID now t sid st v data opts)"
    by (auto simp: New_def Let_def obind_Ok_iff event_core_def split: option.splits if_splits)
  from valid show "t \<noteq> []" "sid \<noteq> []" "st \<noteq> []" "v \<noteq> 0"
    by (simp_all add: validateEventParams_None)
  from evt buildEvent_core [OF assms(2)] have "event_core evt = (t, sid, st, v, data)"
    by simp
  then show "e_eventType evt = t" "e_streamID evt = sid" "e_streamType evt = st"
    "e_version evt = v" "marshalPayload p t (probeCodec dc opts) = Ok (e_payload evt)"
    using data by (simp_all add: event_core_def)
qed

lemma NewEvents_loop_versions:
  assumes "NewEvents_loop c newID now sid st v i ts ps opts = Ok evts"
    and "length ts = length ps" and "\<forall>opt \<in> set opts. frame_option opt"
  shows "length evts = length ts \<and>
         map e_eventType evts = ts \<and>
         (\<forall>k < length evts. e_version (evts ! k) = v + of_nat (i + k + 1) \<and>
            e_streamID (evts ! k) = sid \<and> e_streamType (evts ! k) = st)"
  using assms
proof (induction ts arbitrary: ps i evts)
  case Nil
  then show ?case by simp
next
  case (Cons t ts)
  then obtain p ps' where ps: "ps = p # ps'" by (cases ps) auto
  with Cons.prems obtain evt rest
    where evt: "New c (newID i) (now i) t sid st (Version_Add v (of_nat (i + 1))) p opts = Ok evt"
      and rest: "NewEvents_loop c newID now sid st v (Suc i) ts ps' opts = Ok rest"
      and evts: "evts = evt # rest"
    by (auto simp: obind_Ok_iff split: outcome.splits)
  note core = New_Ok_core [OF evt Cons.prems(3)]
  from Cons.IH [OF rest] Cons.prems ps
  have IH: "length rest = length ts" "map e_eventType rest = ts"
    "\<And>k. k < length rest \<Longrightarrow> e_version (rest ! k) = v + of_nat (Suc i + k + 1) \<and>
            e_streamID (rest ! k) = sid \<and> e_streamType (rest ! k) = st"
    by auto
  show ?case
    using core IH unfolding evts
    by (auto simp: Version_Add_def nth_Cons algebra_simps split: nat.split)
qed

text \<open>
  A batch of events is all or nothing: when \<open>NewEvents\<close> succeeds it gives one event per
  event type, in order, all of the given stream, the \<open>k\<close>-th one with the version \<open>k + 1\<close>
  above the current version, whatever options the caller passes; lists of different lengths are
  rejected.
\<close>

theorem NewEvents_versions:
  assumes "\<forall>opt \<in> set opts. frame_option opt"
  shows "(length ts \<noteq> length ps \<longrightarrow>
           (\<exists>e. NewEvents c newID now sid st v ts ps opts = Fail e \<and>
                errors_Is e ErrMismatchedEventCount)) \<and>
         (\<forall>evts. NewEvents c newID now sid st v ts ps opts = Ok evts \<longrightarrow>
            map e_eventType evts = ts \<and>
            (\<forall>k < length evts. e_version (evts ! k) = v + of_nat (k + 1) \<and>
               e_streamID (evts ! k) = sid \<and> e_streamType (evts ! k) = st))"
proof (cases "length ts = length ps")
  case True
  then show ?thesis
    using NewEvents_loop_versions [of c newID now sid st v 0 ts ps opts, OF _ True assms]
    by (auto simp: NewEvents_def)
next
  case False
  then show ?thesis
    by (simp add: NewEvents_def)
qed

definition witness_codec :: codec where
  "witness_codec = \<lparr>cd_Encoding = ''raw'',
     cd_Encode = (\<lambda>p. case p of PValue s \<Rightarrow> Ok (1 # map (\<lambda>c. of_nat (of_char c)) s) | _ \<Rightarrow> Fail (ErrExt ''raw'')),
     cd_Decode = (\<lambda>b. Ok (PValue (map (\<lambda>w. char_of (unat w)) (tl b))))\<rparr>"

theorem NewEvents_versions_witness:
  "\<exists>evts. NewEvents witness_codec (\<lambda>i. of_nat i + 1) (\<lambda>_. 5) ''7'' ''order'' 2 [''a'', ''b'']
            [PValue ''x'', PBytes [1]] [WithSchemaVersion 2, WithDeadline 9] = Ok evts \<and>
          map e_version evts = [3, 4]"
proof -
  have "\<forall>opt \<in> set [WithSchemaVersion 2, WithDeadline 9]. frame_option opt"
    by simp
  note * = NewEvents_versions [OF this]
  obtain evts where evts: "NewEvents witness_codec (\<lambda>i. of_nat i + 1) (\<lambda>_. 5) ''7'' ''order'' 2
      [''a'', ''b''] [PValue ''x'', PBytes [1]] [WithSchemaVersion 2, WithDeadline 9] = Ok evts"
    and len: "length evts = 2"
    by (simp add: NewEvents_def New_def Let_def probeCodec_def witness_codec_def marshalPayload_def
        validateEventParams_def Version_IsZero_def Version_Add_def option_defs ensureOpts_def
        zeroEvent_def zeroOptions_def)
  have "map e_eventType evts = [''a'', ''b''] \<and>
        (\<forall>k < length evts. e_version (evts ! k) = 2 + of_nat (k + 1) \<and>
               e_streamID (evts ! k) = ''7'' \<and> e_streamType (evts ! k) = ''order'')"
    by (rule * [THEN conjunct2, rule_format, OF evts])
  then have "e_version (evts ! 0) = 3" "e_version (evts ! 1) = 4"
    using len by simp_all
  moreover obtain a b where "evts = [a, b]"
    using len by (auto simp: numeral_2_eq_2 length_Suc_conv)
  ultimately have "map e_version evts = [3, 4]"
    by simp
  with evts show ?thesis by (intro exI conjI)
qed

lemma New_neutral_encoding:
  assumes "New dc newID now t sid st v p (WithCodec c # opts) = Ok evt"
    and "\<forall>opt \<in> set opts. frame_option opt \<and> neutral_option opt"
  shows "e_encoding evt = cd_Encoding c"
proof -
  have "e_encoding (buildEvent newID now t sid st v data (WithCodec c # opts)) = []" for data
    using assms(2) by (simp add: buildEvent_encoding apply_opts_neutral) (simp add: WithCodec_def)
  with assms show ?thesis
    by (auto simp: New_def Let_def obind_Ok_iff probeCodec_neutral split: option.splits if_splits)
qed

text \<open>
  A payload encoded into an event by \<open>New\<close> with a codec is read back by
  \<open>DecodePayload\<close> with the same codec, and by \<open>DecodePayloadAuto\<close> when the registry
  knows the codec, for every list of options that set neither the codec nor the encoding. The
  codec is assumed to decode what it encodes, to give no empty encoding and to have a name.
\<close>

theorem New_DecodePayload_roundtrip:
  assumes codec: "\<And>b. cd_Encode c (PValue s) = Ok b \<Longrightarrow> b \<noteq> [] \<and> cd_Decode c b = Ok (PValue s)"
    and name: "cd_Encoding c \<noteq> []"
    and opts: "\<forall>opt \<in> set opts. frame_option opt \<and> neutral_option opt"
    and evt: "New dc newID now t sid st v (PValue s) (WithCodec c # opts) = Ok evt"
    and registry: "ForEncoding (cd_Encoding c) = Ok c"
  shows "DecodePayload evt c = Ok (PValue s) \<and> DecodePayloadAuto ForEncoding evt = Ok (PValue s)"
proof -
  have frame: "\<forall>opt \<in> set (WithCodec c # opts). frame_option opt" using opts by simp
  have "marshalPayload (PValue s) t c = Ok (e_payload evt)"
    using New_Ok_core(9) [OF evt frame] opts by (simp add: probeCodec_neutral)
  then have "cd_Encode c (PValue s) = Ok (e_payload evt)"
    by (simp add: marshalPayload_def split: outcome.splits)
  moreover have "Event_Encoding evt = cd_Encoding c"
    using New_neutral_encoding [OF evt opts] name by (simp add: Event_Encoding_def)
  ultimately show ?thesis
    using codec registry
    by (simp add: DecodePayload_def DecodePayloadAuto_def validateEncodingMatch_def)
qed

lemma witness_codec_roundtrip:
  "cd_Encode witness_codec (PValue s) = Ok b \<Longrightarrow>
     b \<noteq> [] \<and> cd_Decode witness_codec b = Ok (PValue s)"
proof -
  have "char_of (unat (of_nat (of_char ch) :: byte)) = (ch :: char)" for ch
    by (simp add: unat_of_nat take_bit_eq_mod)
  then show "cd_Encode witness_codec (PValue s) = Ok b \<Longrightarrow>
     b \<noteq> [] \<and> cd_Decode witness_codec b = Ok (PValue s)"
    by (auto simp: witness_codec_def comp_def)
qed

theorem New_DecodePayload_roundtrip_witness:
  "\<exists>evt. New witness_codec 7 5 ''a'' ''7'' ''order'' 1 (PValue ''hi'') [WithCodec witness_codec, WithActor zeroActor]
            = Ok evt \<and> DecodePayload evt witness_codec = Ok (PValue ''hi'')"
proof -
  obtain evt where evt: "New witness_codec 7 5 ''a'' ''7'' ''order'' 1 (PValue ''hi'')
      [WithCodec witness_codec, WithActor zeroActor] = Ok evt"
    by (simp add: New_def Let_def probeCodec_def witness_codec_def marshalPayload_def
        validateEventParams_def Version_IsZero_def option_defs ensureOpts_def)
  have "DecodePayload evt witness_codec = Ok (PValue ''hi'') \<and>
        DecodePayloadAuto (\<lambda>_. Ok witness_codec) evt = Ok (PValue ''hi'')"
    by (rule New_DecodePayload_roundtrip [OF witness_codec_roundtrip _ _ evt])
      (simp_all, simp add: witness_codec_def)
  with evt show ?thesis by blast
qed

text \<open>
  Reconstructing an event from its stored fields gives the event back: same identity,
  stream, versions, encoding, payload, metadata and time, with only the transient options
  dropped. It fails exactly for an event with an empty type, stream type, stream identifier or a
  zero version. The adopting variant, which avoids copying the payload, agrees with it.
\<close>

theorem reconstruct_roundtrip:
  assumes "e_schemaVersion e \<noteq> 0 \<and> 0 < sint (e_schemaVersion e)" and "e_occurredAt e \<noteq> 0"
    and "ActorID_IsZero (t_ActorID (m_Tracing (e_metadata e))) \<longrightarrow>
         t_ActorID (m_Tracing (e_metadata e)) = zeroActor"
  shows "ReconstructEventWithMetadata newID now (e_id e) (e_eventType e) (e_streamType e)
           (e_streamID e) (sint (e_version e)) (sint (e_schemaVersion e)) (e_payload e)
           (e_metadata e) (e_occurredAt e) (e_encoding e) prefix =
         (if e_eventType e \<noteq> [] \<and> e_streamID e \<noteq> [] \<and> e_streamType e \<noteq> [] \<and> e_version e \<noteq> 0
          then Ok (e\<lparr>e_opts := None\<rparr>)
          else Fail (ErrWrap Corruption (prefix @ ''.reconstruct_event'')
            (the (validateEventParams (e_eventType e) (e_streamID e) (e_streamType e) (e_version e)
              (e_payload e))))) \<and>
         ReconstructEventWithAdoptedPayload newID now (e_id e) (e_eventType e) (e_streamType e)
           (e_streamID e) (sint (e_version e)) (sint (e_schemaVersion e)) (e_payload e)
           (e_metadata e) (e_occurredAt e) (e_encoding e) prefix =
         ReconstructEventWithMetadata newID now (e_id e) (e_eventType e) (e_streamType e)
           (e_streamID e) (sint (e_version e)) (sint (e_schemaVersion e)) (e_payload e)
           (e_metadata e) (e_occurredAt e) (e_encoding e) prefix"
proof -
  have merge: "Metadata_Merge NewMetadata (e_metadata e) = e_metadata e"
    using assms(3) by (intro Metadata_Merge_left_zero) simp
  have build: "buildEvent newID now (e_eventType e) (e_streamID e) (e_streamType e) (e_version e)
      (e_payload e) (reconstructOpts (e_id e) (e_occurredAt e) (sint (e_schemaVersion e))
        (e_encoding e) [WithMetadata (e_metadata e)]) = e\<lparr>e_opts := None\<rparr>"
    using assms(1,2) merge
    by (cases e) (simp add: buildEvent_def Let_def reconstructOpts_def option_defs)
  show ?thesis
  proof (cases "validateEventParams (e_eventType e) (e_streamID e) (e_streamType e) (e_version e)
                  (e_payload e)")
    case None
    then have "e_eventType e \<noteq> [] \<and> e_streamID e \<noteq> [] \<and> e_streamType e \<noteq> [] \<and> e_version e \<noteq> 0"
      by (simp only: validateEventParams_None simp_thms)
    with None build show ?thesis
      by (simp add: ReconstructEventWithMetadata_def ReconstructEventWithAdoptedPayload_def
          reconstructEvent_def NewEvent_def)
  next
    case (Some err)
    then have "\<not> (e_eventType e \<noteq> [] \<and> e_streamID e \<noteq> [] \<and> e_streamType e \<noteq> [] \<and> e_version e \<noteq> 0)"
      by (metis option.distinct(1) validateEventParams_None)
    with Some show ?thesis
      by (simp only: if_not_P)
        (simp add: ReconstructEventWithMetadata_def ReconstructEventWithAdoptedPayload_def
          reconstructEvent_def NewEvent_def)
  qed
qed

theorem reconstruct_roundtrip_witness:
  "ReconstructEventWithMetadata 0 0 3 ''a'' ''order'' ''7'' (sint (1::u64)) (sint (2::u64)) [1]
     NewMetadata 5 ''raw'' ''pg'' =
   Ok \<lparr>e_id = 3, e_eventType = ''a'', e_streamID = ''7'', e_streamType = ''order'', e_version = 1,
       e_schemaVersion = 2, e_encoding = ''raw'', e_payload = [1], e_metadata = NewMetadata,
       e_occurredAt = 5, e_opts = None\<rparr>"
  using reconstruct_roundtrip [of "\<lparr>e_id = 3, e_eventType = ''a'', e_streamID = ''7'',
      e_streamType = ''order'', e_version = 1, e_schemaVersion = 2, e_encoding = ''raw'',
      e_payload = [1], e_metadata = NewMetadata, e_occurredAt = 5, e_opts = None\<rparr>" 0 0 "''pg''"]
  by (simp add: NewMetadata_def zeroTracing_def)

lemma copyWithTombstoneMark_Some:
  "copyWithTombstoneMark (Some e) mark key =
     Ok (e\<lparr>e_metadata := (Metadata_WithCustom (e_metadata e) key ''true'')\<lparr>m_Tombstone := Some mark\<rparr>,
           e_opts := (if snd (Event_Deadline e)
                      then Some (zeroOptions\<lparr>o_deadline := fst (Event_Deadline e)\<rparr>) else None)\<rparr>)"
  by (simp add: copyWithTombstoneMark_def Let_def split: prod.split)

lemma Event_Deadline_marked:
  assumes "e_opts d = (if snd (Event_Deadline e)
             then Some (zeroOptions\<lparr>o_deadline := fst (Event_Deadline e)\<rparr>) else None)"
  shows "snd (Event_Deadline d) = snd (Event_Deadline e)"
    and "snd (Event_Deadline e) \<Longrightarrow> Event_Deadline d = Event_Deadline e"
  using assms by (auto simp: Event_Deadline_def split: option.splits if_splits)

lemma marked_event:
  "\<exists>d. copyWithTombstoneMark (Some e) mark key = Ok d \<and>
       DetectTombstone (es @ [d]) = tm_Status mark \<and> event_core d = event_core e \<and>
       e_id d = e_id e \<and> e_occurredAt d = e_occurredAt e \<and>
       snd (Event_Deadline d) = snd (Event_Deadline e) \<and>
       (snd (Event_Deadline e) \<longrightarrow> Event_Deadline d = Event_Deadline e)"
proof -
  let ?opts = "if snd (Event_Deadline e)
    then Some (zeroOptions\<lparr>o_deadline := fst (Event_Deadline e)\<rparr>) else None"
  let ?d = "e\<lparr>e_metadata := (Metadata_WithCustom (e_metadata e) key ''true'')\<lparr>m_Tombstone := Some mark\<rparr>,
              e_opts := ?opts\<rparr>"
  have opts: "e_opts ?d = ?opts" by simp
  have "DetectTombstone (es @ [?d]) = tm_Status mark"
    by (simp add: DetectTombstone_def Let_def)
  moreover have "event_core ?d = event_core e" "e_id ?d = e_id e" "e_occurredAt ?d = e_occurredAt e"
    by (simp_all add: event_core_def)
  ultimately show ?thesis
    using copyWithTombstoneMark_Some [of e mark key] Event_Deadline_marked [OF opts] by blast
qed

text \<open>
  Marking is decisive and touches nothing else: after \<open>MarkTombstone\<close> the stream that
  ends in the marked event is tombstoned and after \<open>MarkRebirth\<close> it is active, whatever marks
  the event carried before; every field but the metadata, and the deadline, are those of the
  original event. A nil event is rejected.
\<close>

theorem tombstone_marks:
  "(\<exists>d. MarkTombstone (Some e) = Ok d \<and> DetectTombstone (es @ [d]) = TombstoneTombstoned \<and>
        event_core d = event_core e \<and> e_id d = e_id e \<and> e_occurredAt d = e_occurredAt e \<and>
        snd (Event_Deadline d) = snd (Event_Deadline e) \<and>
        (snd (Event_Deadline e) \<longrightarrow> Event_Deadline d = Event_Deadline e)) \<and>
   (\<exists>r. MarkRebirth (Some e) = Ok r \<and> DetectTombstone (es @ [r]) = TombstoneActive \<and>
        event_core r = event_core e \<and> e_id r = e_id e \<and> e_occurredAt r = e_occurredAt e \<and>
        snd (Event_Deadline r) = snd (Event_Deadline e) \<and>
        (snd (Event_Deadline e) \<longrightarrow> Event_Deadline r = Event_Deadline e)) \<and>
   (\<exists>err. MarkTombstone None = Fail err \<and> MarkRebirth None = Fail err) \<and>
   DetectTombstone [] = TombstoneUndetermined"
proof (intro conjI)
  show "\<exists>err. MarkTombstone None = Fail err \<and> MarkRebirth None = Fail err"
    by (simp add: MarkTombstone_def MarkRebirth_def copyWithTombstoneMark_def)
  show "DetectTombstone [] = TombstoneUndetermined"
    by (simp add: DetectTombstone_def)
qed (use marked_event [of e "\<lparr>tm_Status = TombstoneTombstoned, tm_Reason = []\<rparr>"
          MetadataKeyTombstone es]
        marked_event [of e "\<lparr>tm_Status = TombstoneActive, tm_Reason = []\<rparr>"
          MetadataKeyRebirth es]
      in \<open>simp_all only: MarkTombstone_def MarkRebirth_def TombstoneMark.simps\<close>)

theorem tombstone_marks_witness:
  "\<exists>d. MarkTombstone (Some zeroEvent) = Ok d \<and> DetectTombstone [d] = TombstoneTombstoned"
  using tombstone_marks [of zeroEvent "[]"] by (metis append_Nil)

end
