(* ===== verification/Dispatcher.thy ===== *)
theory Dispatcher
  imports Prelude
begin

text \<open>
  The generic dispatcher of \<open>src/dispatcher\<close> (closed-state lifecycle, middleware chain,
  handler table) and the command and query dispatchers of \<open>src/command/dispatcher.go\<close> and
  \<open>src/query/dispatcher.go\<close> built on it. Handlers and middleware are values of type
  parameters; a command or query handler transforms the world it acts on. The classification of
  an error into a family belongs to another module and is the argument \<open>cls\<close>.
\<close>

section \<open>Lifecycle\<close>

record Lifecycle =
  lc_closed :: bool

definition Lifecycle_Close :: "Lifecycle \<Rightarrow> Lifecycle \<times> go_error option" where
  "Lifecycle_Close m = (m\<lparr>lc_closed := True\<rparr>, None)"

definition Lifecycle_IsClosed :: "Lifecycle \<Rightarrow> bool" where
  "Lifecycle_IsClosed m = lc_closed m"

definition Lifecycle_CheckClosed :: "Lifecycle \<Rightarrow> go_error \<Rightarrow> go_error option" where
  "Lifecycle_CheckClosed m closedErr = (if lc_closed m then Some closedErr else None)"

section \<open>The middleware chain\<close>

record 'm middlewareChain =
  mc_middleware :: "'m list"

definition Chain_Add :: "'m middlewareChain \<Rightarrow> 'm list \<Rightarrow> 'm middlewareChain" where
  "Chain_Add c middleware = c\<lparr>mc_middleware := mc_middleware c @ middleware\<rparr>"

text \<open>\<open>Apply\<close> walks the slice backward, wrapping the handler at every step.\<close>

fun Chain_Apply_loop :: "'m list \<Rightarrow> ('m \<Rightarrow> 'h \<Rightarrow> 'h) \<Rightarrow> 'h \<Rightarrow> 'h" where
  "Chain_Apply_loop [] wrap wrapped = wrapped"
| "Chain_Apply_loop (m # ms) wrap wrapped = Chain_Apply_loop ms wrap (wrap m wrapped)"

definition Chain_Apply :: "'m middlewareChain \<Rightarrow> 'h \<Rightarrow> ('m \<Rightarrow> 'h \<Rightarrow> 'h) \<Rightarrow> 'h" where
  "Chain_Apply c handler wrap = Chain_Apply_loop (rev (mc_middleware c)) wrap handler"

definition Chain_Middleware :: "'m middlewareChain \<Rightarrow> 'm list" where
  "Chain_Middleware c = mc_middleware c"

section \<open>The dispatcher\<close>

record ('h, 'm) handlerEntry =
  he_handler :: 'h
  he_wrap :: "'m \<Rightarrow> 'h \<Rightarrow> 'h"

record ('h, 'm) Dispatcher =
  d_handlers :: "string \<rightharpoonup> ('h, 'm) handlerEntry"
  d_lifecycle :: Lifecycle
  d_middleware :: "'m middlewareChain"

definition ErrHandlerNotFound :: go_error where
  "ErrHandlerNotFound = ErrNew Rejection ''dispatcher.handler_not_found''"

definition ErrDispatcherClosed :: go_error where
  "ErrDispatcherClosed = ErrNew Infrastructure ''dispatcher.dispatcher_closed''"

definition ErrHandlerAlreadyRegistered :: go_error where
  "ErrHandlerAlreadyRegistered = ErrNew Conflict ''dispatcher.handler_already_registered''"

definition NewDispatcher :: "('h, 'm) Dispatcher" where
  "NewDispatcher = \<lparr>d_handlers = Map.empty, d_lifecycle = \<lparr>lc_closed = False\<rparr>,
                    d_middleware = \<lparr>mc_middleware = []\<rparr>\<rparr>"

definition Dispatcher_Use :: "('h, 'm) Dispatcher \<Rightarrow> 'm list \<Rightarrow> ('h, 'm) Dispatcher" where
  "Dispatcher_Use d middleware = d\<lparr>d_middleware := Chain_Add (d_middleware d) middleware\<rparr>"

definition Dispatcher_Register ::
  "('h, 'm) Dispatcher \<Rightarrow> string \<Rightarrow> 'h \<Rightarrow> ('m \<Rightarrow> 'h \<Rightarrow> 'h) \<Rightarrow>
   ('h, 'm) Dispatcher \<times> go_error option" where
  "Dispatcher_Register d t handler wrap =
     (case Lifecycle_CheckClosed (d_lifecycle d) ErrDispatcherClosed of
        Some err \<Rightarrow> (d, Some err)
      | None \<Rightarrow>
          if d_handlers d t \<noteq> None
          then (d, Some (ErrWrap Conflict ''dispatcher.handler_registered''
                           ErrHandlerAlreadyRegistered))
          else (d\<lparr>d_handlers := (d_handlers d)(t \<mapsto> \<lparr>he_handler = handler, he_wrap = wrap\<rparr>)\<rparr>, None))"

definition ApplyMiddleware :: "('h \<Rightarrow> 'h) \<Rightarrow> 'h \<Rightarrow> 'h" where
  "ApplyMiddleware m h = m h"

definition RegisterWithWrapping ::
  "(go_error \<Rightarrow> family) \<Rightarrow> ('h, 'm) Dispatcher \<Rightarrow> string \<Rightarrow> string \<Rightarrow> 'h \<Rightarrow>
   ('m \<Rightarrow> 'h \<Rightarrow> 'h) \<Rightarrow> ('h, 'm) Dispatcher \<times> go_error option" where
  "RegisterWithWrapping cls d typeStr module handler wrap =
     (case Dispatcher_Register d typeStr handler wrap of
        (d', Some err) \<Rightarrow> (d', Some (ErrWrap (cls err) (module @ ''.register_handler_failed'') err))
      | (d', None) \<Rightarrow> (d', None))"

definition getHandler :: "('h, 'm) Dispatcher \<Rightarrow> string \<Rightarrow> 'h option" where
  "getHandler d t =
     (case d_handlers d t of
        None \<Rightarrow> None
      | Some entry \<Rightarrow> Some (Chain_Apply (d_middleware d) (he_handler entry) (he_wrap entry)))"

definition Dispatcher_Dispatch :: "('h, 'm) Dispatcher \<Rightarrow> string \<Rightarrow> 'h outcome" where
  "Dispatcher_Dispatch d t =
     (case Lifecycle_CheckClosed (d_lifecycle d) ErrDispatcherClosed of
        Some err \<Rightarrow> Fail err
      | None \<Rightarrow>
          (case getHandler d t of
             None \<Rightarrow> Fail (ErrWrap Rejection ''dispatcher.handler_not_found'' ErrHandlerNotFound)
           | Some h \<Rightarrow> Ok h))"

definition Dispatcher_Close :: "('h, 'm) Dispatcher \<Rightarrow> ('h, 'm) Dispatcher \<times> go_error option" where
  "Dispatcher_Close d = (case Lifecycle_Close (d_lifecycle d) of
     (l, err) \<Rightarrow> (d\<lparr>d_lifecycle := l\<rparr>, err))"

definition Dispatcher_IsClosed :: "('h, 'm) Dispatcher \<Rightarrow> bool" where
  "Dispatcher_IsClosed d = Lifecycle_IsClosed (d_lifecycle d)"

definition Dispatcher_CheckClosed :: "('h, 'm) Dispatcher \<Rightarrow> go_error \<Rightarrow> go_error option" where
  "Dispatcher_CheckClosed d closedErr = Lifecycle_CheckClosed (d_lifecycle d) closedErr"

definition Dispatcher_WrapClose ::
  "('h, 'm) Dispatcher \<Rightarrow> string \<Rightarrow> ('h, 'm) Dispatcher \<times> go_error option" where
  "Dispatcher_WrapClose d code =
     (case Dispatcher_Close d of
        (d', Some err) \<Rightarrow> (d', Some (ErrWrap Infrastructure code err))
      | (d', None) \<Rightarrow> (d', None))"

definition Dispatcher_WrapCheckClosed ::
  "('h, 'm) Dispatcher \<Rightarrow> go_error \<Rightarrow> string \<Rightarrow> go_error option" where
  "Dispatcher_WrapCheckClosed d closedErr code =
     map_option (ErrWrap Infrastructure code) (Dispatcher_CheckClosed d closedErr)"

section \<open>Command dispatch\<close>

type_synonym ('c, 'w) command_handler = "'c \<Rightarrow> 'w \<Rightarrow> 'w \<times> go_error option"
type_synonym ('c, 'w) command_Dispatcher =
  "(('c, 'w) command_handler, ('c, 'w) command_handler \<Rightarrow> ('c, 'w) command_handler) Dispatcher"

definition command_ErrHandlerNotFound :: go_error where
  "command_ErrHandlerNotFound = ErrNew Rejection ''command.handler_not_found''"

definition command_ErrDispatcherClosed :: go_error where
  "command_ErrDispatcherClosed = ErrNew Infrastructure ''command.dispatcher_closed''"

definition command_checkClosed :: "('h, 'm) Dispatcher \<Rightarrow> string \<Rightarrow> go_error option" where
  "command_checkClosed d code = Dispatcher_WrapCheckClosed d command_ErrDispatcherClosed code"

definition command_Register ::
  "(go_error \<Rightarrow> family) \<Rightarrow> ('c, 'w) command_Dispatcher \<Rightarrow> string \<Rightarrow> ('c, 'w) command_handler \<Rightarrow>
   ('c, 'w) command_Dispatcher \<times> go_error option" where
  "command_Register cls d cmdType handler =
     (case command_checkClosed d ''command.register_failed'' of
        Some err \<Rightarrow> (d, Some err)
      | None \<Rightarrow> RegisterWithWrapping cls d cmdType ''command'' handler ApplyMiddleware)"

text \<open>The lookup returns a handler or an error; it never panics, so the third case is not reached.\<close>

definition command_Dispatch ::
  "(go_error \<Rightarrow> family) \<Rightarrow> ('c \<Rightarrow> string) \<Rightarrow> ('c, 'w) command_Dispatcher \<Rightarrow>
   ('c, 'w) command_handler" where
  "command_Dispatch cls Type d cmd w =
     (case command_checkClosed d ''command.dispatch_failed'' of
        Some err \<Rightarrow> (w, Some err)
      | None \<Rightarrow>
          (case Dispatcher_Dispatch d (Type cmd) of
             Fail err \<Rightarrow>
               (w, Some (if errors_Is err ErrHandlerNotFound
                         then ErrWrap Rejection ''command.handler_not_found''
                                command_ErrHandlerNotFound
                         else ErrWrap (cls err) ''command.handler_failed'' err))
           | Panic \<Rightarrow> (w, None)
           | Ok wrapped \<Rightarrow> wrapped cmd w))"

definition command_Close ::
  "('c, 'w) command_Dispatcher \<Rightarrow> ('c, 'w) command_Dispatcher \<times> go_error option" where
  "command_Close d = Dispatcher_WrapClose d ''command.dispatcher_close''"

section \<open>Query dispatch\<close>

type_synonym ('q, 'w, 'r) query_handler = "'q \<Rightarrow> 'w \<Rightarrow> 'w \<times> 'r outcome"
type_synonym ('q, 'w, 'r) query_Dispatcher =
  "(('q, 'w, 'r) query_handler, ('q, 'w, 'r) query_handler \<Rightarrow> ('q, 'w, 'r) query_handler) Dispatcher"

definition query_ErrHandlerNotFound :: go_error where
  "query_ErrHandlerNotFound = ErrNew Rejection ''query.handler_not_found''"

definition query_ErrDispatcherClosed :: go_error where
  "query_ErrDispatcherClosed = ErrNew Infrastructure ''query.dispatcher_closed''"

definition query_ErrTypeAssertion :: go_error where
  "query_ErrTypeAssertion = ErrNew Rejection ''query.type_assertion''"

definition query_ensureOpen :: "('h, 'm) Dispatcher \<Rightarrow> string \<Rightarrow> go_error option" where
  "query_ensureOpen d code = Dispatcher_WrapCheckClosed d query_ErrDispatcherClosed code"

definition query_Register ::
  "(go_error \<Rightarrow> family) \<Rightarrow> ('q, 'w, 'r) query_Dispatcher \<Rightarrow> string \<Rightarrow>
   ('q, 'w, 'r) query_handler \<Rightarrow> ('q, 'w, 'r) query_Dispatcher \<times> go_error option" where
  "query_Register cls d queryType handler =
     (case query_ensureOpen d ''query.register_failed'' of
        Some err \<Rightarrow> (d, Some err)
      | None \<Rightarrow> RegisterWithWrapping cls d queryType ''query'' handler ApplyMiddleware)"

text \<open>
  \<open>asQ\<close> is the assertion of the query to its concrete type, \<open>toAny\<close> the conversion of a
  typed result to \<open>any\<close>, \<open>asT\<close> the assertion of a result to the expected type.
\<close>

definition RegisterTyped ::
  "(go_error \<Rightarrow> family) \<Rightarrow> ('q \<Rightarrow> 'a option) \<Rightarrow> ('b \<Rightarrow> 'r) \<Rightarrow> ('q, 'w, 'r) query_Dispatcher \<Rightarrow>
   string \<Rightarrow> ('a, 'w, 'b) query_handler \<Rightarrow> ('q, 'w, 'r) query_Dispatcher \<times> go_error option" where
  "RegisterTyped cls asQ toAny d queryType handler =
     query_Register cls d queryType (\<lambda>q w.
       case asQ q of
         None \<Rightarrow> (w, Fail query_ErrTypeAssertion)
       | Some typed \<Rightarrow>
           (case handler typed w of (w', r) \<Rightarrow> (w', obind r (\<lambda>x. Ok (toAny x)))))"

definition query_Dispatch ::
  "(go_error \<Rightarrow> family) \<Rightarrow> ('q \<Rightarrow> string) \<Rightarrow> ('q, 'w, 'r) query_Dispatcher \<Rightarrow>
   ('q, 'w, 'r) query_handler" where
  "query_Dispatch cls Type d query w =
     (case query_ensureOpen d ''query.dispatch_failed'' of
        Some err \<Rightarrow> (w, Fail err)
      | None \<Rightarrow>
          (case Dispatcher_Dispatch d (Type query) of
             Fail err \<Rightarrow>
               (w, Fail (if errors_Is err ErrHandlerNotFound
                         then ErrWrap Rejection ''query.handler_not_found'' query_ErrHandlerNotFound
                         else ErrWrap (cls err) ''query.handler_failed'' err))
           | Panic \<Rightarrow> (w, Panic)
           | Ok wrapped \<Rightarrow> wrapped query w))"

definition DispatchTyped ::
  "(go_error \<Rightarrow> family) \<Rightarrow> ('q \<Rightarrow> string) \<Rightarrow> ('r \<Rightarrow> 't option) \<Rightarrow> ('q, 'w, 'r) query_Dispatcher \<Rightarrow>
   ('q, 'w, 't) query_handler" where
  "DispatchTyped cls Type asT d query w =
     (case query_Dispatch cls Type d query w of
        (w', result) \<Rightarrow>
          (w', obind result (\<lambda>r.
             case asT r of
               None \<Rightarrow> Fail (ErrNew Corruption ''query.type_mismatch'')
             | Some typed \<Rightarrow> Ok typed)))"

definition query_Close ::
  "('q, 'w, 'r) query_Dispatcher \<Rightarrow> ('q, 'w, 'r) query_Dispatcher \<times> go_error option" where
  "query_Close d = Dispatcher_WrapClose d ''query.dispatcher_close''"

section \<open>What a dispatcher promises\<close>

text \<open>
  The life of a dispatcher is a sequence of calls. Its specification reads off the sequence
  alone: the first registration of a type before the dispatcher is closed counts, and the
  middleware is that of all \<open>Use\<close> calls, earlier or later, the first one outermost.
\<close>

datatype ('h, 'm) call =
    CallUse "'m list"
  | CallRegister string 'h "'m \<Rightarrow> 'h \<Rightarrow> 'h"
  | CallClose

fun run_call :: "('h, 'm) call \<Rightarrow> ('h, 'm) Dispatcher \<Rightarrow> ('h, 'm) Dispatcher" where
  "run_call (CallUse ms) d = Dispatcher_Use d ms"
| "run_call (CallRegister t h w) d = fst (Dispatcher_Register d t h w)"
| "run_call CallClose d = fst (Dispatcher_Close d)"

definition run_calls :: "('h, 'm) call list \<Rightarrow> ('h, 'm) Dispatcher" where
  "run_calls cs = fold run_call cs NewDispatcher"

fun spec_middleware :: "('h, 'm) call list \<Rightarrow> 'm list" where
  "spec_middleware [] = []"
| "spec_middleware (CallUse ms # cs) = ms @ spec_middleware cs"
| "spec_middleware (_ # cs) = spec_middleware cs"

fun spec_closed :: "('h, 'm) call list \<Rightarrow> bool" where
  "spec_closed [] = False"
| "spec_closed (CallClose # cs) = True"
| "spec_closed (_ # cs) = spec_closed cs"

fun spec_handler ::
  "('h, 'm) call list \<Rightarrow> string \<Rightarrow> ('h \<times> ('m \<Rightarrow> 'h \<Rightarrow> 'h)) option" where
  "spec_handler [] t = None"
| "spec_handler (CallRegister s h w # cs) t = (if s = t then Some (h, w) else spec_handler cs t)"
| "spec_handler (CallClose # cs) t = None"
| "spec_handler (CallUse ms # cs) t = spec_handler cs t"

lemmas dispatcher_defs [op_defs] = Dispatcher_Use_def Dispatcher_Register_def Dispatcher_Close_def
  Lifecycle_CheckClosed_def Lifecycle_Close_def Chain_Add_def

lemma Chain_Apply_loop_foldl: "Chain_Apply_loop ms wrap h = foldl (\<lambda>x m. wrap m x) h ms"
  by (induction ms arbitrary: h) auto

lemma Chain_Apply_foldr: "Chain_Apply c h wrap = foldr wrap (mc_middleware c) h"
  by (simp add: Chain_Apply_def Chain_Apply_loop_foldl foldl_conv_foldr)

lemma run_calls_spec:
  assumes "fold run_call cs d = d'"
  shows "mc_middleware (d_middleware d') = mc_middleware (d_middleware d) @ spec_middleware cs"
    and "lc_closed (d_lifecycle d') \<longleftrightarrow> lc_closed (d_lifecycle d) \<or> spec_closed cs"
    and "d_handlers d' t =
           (if d_handlers d t \<noteq> None \<or> lc_closed (d_lifecycle d) then d_handlers d t
            else map_option (\<lambda>(h, w). \<lparr>he_handler = h, he_wrap = w\<rparr>) (spec_handler cs t))"
  using assms
proof (induction cs arbitrary: d)
  case (Cons c cs)
  {
    case 1
    then show ?case using Cons(1) [of "run_call c d"]
      by (cases c) (auto simp: op_defs)
  next
    case 2
    then show ?case using Cons(2) [of "run_call c d"]
      by (cases c) (auto simp: op_defs)
  next
    case 3
    then show ?case using Cons(3) [of "run_call c d"]
      by (cases c) (auto simp: op_defs split: if_splits)
  }
qed auto

text \<open>
  C12. Dispatch depends on the history of calls only through the specification: a closed
  dispatcher gives the closed error; a type never registered is not found; otherwise the handler
  is the first one registered for the type, wrapped by the middleware of all \<open>Use\<close> calls,
  whether made before or after the registration, the first-added middleware outermost.
\<close>

theorem Dispatch_history:
  "Dispatcher_Dispatch (run_calls cs) t =
     (if spec_closed cs then Fail ErrDispatcherClosed
      else case spec_handler cs t of
        None \<Rightarrow> Fail (ErrWrap Rejection ''dispatcher.handler_not_found'' ErrHandlerNotFound)
      | Some (h, w) \<Rightarrow> Ok (foldr w (spec_middleware cs) h))"
proof -
  note spec = run_calls_spec [OF refl, of cs NewDispatcher]
  have "d_handlers (run_calls cs) t =
        map_option (\<lambda>(h, w). \<lparr>he_handler = h, he_wrap = w\<rparr>) (spec_handler cs t)"
    and "lc_closed (d_lifecycle (run_calls cs)) = spec_closed cs"
    and "mc_middleware (d_middleware (run_calls cs)) = spec_middleware cs"
    using spec(3) [of t] spec(1,2) by (simp_all add: run_calls_def NewDispatcher_def)
  then show ?thesis
    by (auto simp: Dispatcher_Dispatch_def Lifecycle_CheckClosed_def getHandler_def
        Chain_Apply_foldr split: option.split)
qed

lemma command_Register_cases:
  "command_Register cls d t h =
     (if lc_closed (d_lifecycle d)
      then (d, Some (ErrWrap Infrastructure ''command.register_failed'' command_ErrDispatcherClosed))
      else if d_handlers d t \<noteq> None
      then (let err = ErrWrap Conflict ''dispatcher.handler_registered'' ErrHandlerAlreadyRegistered in
            (d, Some (ErrWrap (cls err) ''command.register_handler_failed'' err)))
      else (d\<lparr>d_handlers := (d_handlers d)(t \<mapsto> \<lparr>he_handler = h, he_wrap = ApplyMiddleware\<rparr>)\<rparr>, None))"
  by (simp add: command_Register_def command_checkClosed_def Dispatcher_WrapCheckClosed_def
      Dispatcher_CheckClosed_def RegisterWithWrapping_def op_defs Let_def)

lemma query_Register_cases:
  "query_Register cls d t h =
     (if lc_closed (d_lifecycle d)
      then (d, Some (ErrWrap Infrastructure ''query.register_failed'' query_ErrDispatcherClosed))
      else if d_handlers d t \<noteq> None
      then (let err = ErrWrap Conflict ''dispatcher.handler_registered'' ErrHandlerAlreadyRegistered in
            (d, Some (ErrWrap (cls err) ''query.register_handler_failed'' err)))
      else (d\<lparr>d_handlers := (d_handlers d)(t \<mapsto> \<lparr>he_handler = h, he_wrap = ApplyMiddleware\<rparr>)\<rparr>, None))"
  by (simp add: query_Register_def query_ensureOpen_def Dispatcher_WrapCheckClosed_def
      Dispatcher_CheckClosed_def RegisterWithWrapping_def op_defs Let_def)

text \<open>
  C13. A command is handled exactly once or not at all: on a closed dispatcher, and for a type
  without handler, \<open>Dispatch\<close> fails with an error that is the documented sentinel and leaves
  the world untouched; otherwise its effect and result are those of the registered handler inside
  the middleware. Registering a type twice is a conflict that leaves the first handler in place.
\<close>

theorem command_dispatch_correct:
  "(lc_closed (d_lifecycle d) \<longrightarrow>
     (\<exists>e. command_Dispatch cls Type d cmd w = (w, Some e) \<and>
          errors_Is e command_ErrDispatcherClosed)) \<and>
   (\<not> lc_closed (d_lifecycle d) \<and> d_handlers d (Type cmd) = None \<longrightarrow>
     (\<exists>e. command_Dispatch cls Type d cmd w = (w, Some e) \<and>
          errors_Is e command_ErrHandlerNotFound)) \<and>
   (\<not> lc_closed (d_lifecycle d) \<and> d_handlers d (Type cmd) = None \<longrightarrow>
     (\<exists>d'. command_Register cls d (Type cmd) h = (d', None) \<and>
        command_Dispatch cls Type d' cmd w =
          foldr (\<lambda>m h. m h) (mc_middleware (d_middleware d)) h cmd w \<and>
        (\<exists>e. command_Register cls d' (Type cmd) h' = (d', Some e) \<and>
             errors_Is e ErrHandlerAlreadyRegistered)))"
  by (auto simp: command_Dispatch_def command_checkClosed_def Dispatcher_WrapCheckClosed_def
      Dispatcher_CheckClosed_def Dispatcher_Dispatch_def getHandler_def Lifecycle_CheckClosed_def
      command_Register_cases Chain_Apply_foldr ApplyMiddleware_def Let_def fun_eq_iff
      intro!: arg_cong [where f = "\<lambda>f. foldr f _ _ _ _"])

theorem command_dispatch_correct_witness:
  "\<exists>d'. command_Register (\<lambda>_. Conflict) (NewDispatcher :: (string, nat) command_Dispatcher) ''a''
          (\<lambda>c w. (w + length c, None)) = (d', None) \<and>
        command_Dispatch (\<lambda>_. Conflict) id d' ''a'' 4 = (5, None)"
  using command_dispatch_correct [of "NewDispatcher :: (string, nat) command_Dispatcher"
      "\<lambda>_. Conflict" id "''a''" 4 "\<lambda>c w. (w + length c, None)" "\<lambda>c w. (w, None)"]
  by (auto simp: NewDispatcher_def)

text \<open>
  The typed bookends of the query side: after registering a typed handler, a typed dispatch
  of a query that has the expected concrete type returns exactly what the handler returns, with
  its effect, and one of another concrete type is rejected without running the handler.
\<close>

theorem typed_query_roundtrip:
  assumes any: "\<And>b. asT (toAny b) = Some b"
    and fresh: "\<not> lc_closed (d_lifecycle d)" "d_handlers d (Type q) = None"
    and no_mw: "mc_middleware (d_middleware d) = []"
  shows "\<exists>d'. RegisterTyped cls asQ toAny d (Type q) handler = (d', None) \<and>
           DispatchTyped cls Type asT d' q w =
             (case asQ q of None \<Rightarrow> (w, Fail query_ErrTypeAssertion) | Some a \<Rightarrow> handler a w)"
proof -
  have id: "obind (obind r (\<lambda>x. Ok (toAny x)))
          (\<lambda>r. case asT r of None \<Rightarrow> Fail (ErrNew Corruption ''query.type_mismatch'')
               | Some typed \<Rightarrow> Ok typed) = r" for r
    by (cases r) (simp_all add: any)
  show ?thesis
    using fresh no_mw
    by (simp add: RegisterTyped_def query_Register_cases DispatchTyped_def query_Dispatch_def
        query_ensureOpen_def Dispatcher_WrapCheckClosed_def Dispatcher_CheckClosed_def
        Dispatcher_Dispatch_def getHandler_def Lifecycle_CheckClosed_def Chain_Apply_foldr id
        split: option.split prod.split)
qed

theorem typed_query_roundtrip_witness:
  "\<exists>d'. RegisterTyped (\<lambda>_. Conflict) (\<lambda>q. Some (length q)) id
          (NewDispatcher :: (string, nat, nat) query_Dispatcher) ''a'' (\<lambda>n w. (w, Ok (n + w))) = (d', None) \<and>
        DispatchTyped (\<lambda>_. Conflict) (\<lambda>q. ''a'') Some d' ''xyz'' 4 = (4, Ok 7)"
  using typed_query_roundtrip [of Some "id :: nat \<Rightarrow> nat"
      "NewDispatcher :: (string, nat, nat) query_Dispatcher" "\<lambda>q. ''a''" "''xyz''" "\<lambda>_. Conflict"
      "\<lambda>q. Some (length q)" "\<lambda>n w. (w, Ok (n + w))" 4]
  by (simp add: NewDispatcher_def)

end
