(* ===== verification/LogStore.thy ===== *)
theory LogStore
  imports Dispatcher
begin

text \<open>
  The append-only log core of \<open>src/storage/memory/log_store.go\<close>, shared by the in-memory event,
  command and query stores: the global log, the index of each stream, the index of identifiers
  and the closed check. A body run under the lock is a function on the store. The refinement
  relation \<open>log_repr\<close> ties the store to a plain list of keyed entries; every operation is
  characterised over that list. The locale \<open>seekable_log\<close> is the interface of position-based
  reading, with the correctness of reading a log page by page.
\<close>

section \<open>Data\<close>

record ('t, 'id) LogStoreConfig =
  cfg_GetID :: "'t \<Rightarrow> 'id"
  cfg_IsZeroID :: "'id \<Rightarrow> bool"
  cfg_ClosedErr :: go_error
  cfg_NewDupErr :: "('id \<Rightarrow> string \<Rightarrow> go_error) option"
  cfg_NewNotFound :: "(string \<Rightarrow> string \<Rightarrow> go_error) option"
  cfg_TrackStreams :: bool

record ('t, 'id) LogStore =
  ls_Lifecycle :: Lifecycle
  ls_log :: "'t list"
  ls_streamIndex :: "string \<rightharpoonup> nat list"
  ls_idIndex :: "'id \<rightharpoonup> nat"
  ls_cfg :: "('t, 'id) LogStoreConfig"

definition ErrNoStreamScoping :: go_error where
  "ErrNoStreamScoping = ErrNew Rejection ''memory.no_stream_scoping''"

section \<open>Operations\<close>

definition NewLogStore :: "('t, 'id) LogStoreConfig \<Rightarrow> ('t, 'id) LogStore" where
  "NewLogStore cfg = \<lparr>ls_Lifecycle = \<lparr>lc_closed = False\<rparr>, ls_log = [], ls_streamIndex = Map.empty,
                      ls_idIndex = Map.empty, ls_cfg = cfg\<rparr>"

definition LogStore_Close :: "('t, 'id) LogStore \<Rightarrow> ('t, 'id) LogStore \<times> go_error option" where
  "LogStore_Close s = (case Lifecycle_Close (ls_Lifecycle s) of
     (l, err) \<Rightarrow> (s\<lparr>ls_Lifecycle := l\<rparr>, err))"

definition wrapClosed :: "go_error option \<Rightarrow> string \<Rightarrow> go_error option" where
  "wrapClosed err code = (case err of None \<Rightarrow> None | Some e \<Rightarrow> Some (ErrWrap Infrastructure code e))"

definition WithWrite ::
  "('t, 'id) LogStore \<Rightarrow> string \<Rightarrow>
   (('t, 'id) LogStore \<Rightarrow> ('t, 'id) LogStore \<times> go_error option) \<Rightarrow>
   ('t, 'id) LogStore \<times> go_error option" where
  "WithWrite s code fn =
     (case wrapClosed (Lifecycle_CheckClosed (ls_Lifecycle s) (cfg_ClosedErr (ls_cfg s))) code of
        Some err \<Rightarrow> (s, Some err)
      | None \<Rightarrow> fn s)"

definition WithReadLock ::
  "('t, 'id) LogStore \<Rightarrow> string \<Rightarrow> (('t, 'id) LogStore \<Rightarrow> 'r outcome) \<Rightarrow> 'r outcome" where
  "WithReadLock s code fn =
     (case wrapClosed (Lifecycle_CheckClosed (ls_Lifecycle s) (cfg_ClosedErr (ls_cfg s))) code of
        Some err \<Rightarrow> Fail err
      | None \<Rightarrow> fn s)"

definition stream_indices :: "(string \<rightharpoonup> nat list) \<Rightarrow> string \<Rightarrow> nat list" where
  "stream_indices m k = (case m k of None \<Rightarrow> [] | Some is \<Rightarrow> is)"

fun AppendLocked :: "('t, 'id) LogStore \<Rightarrow> string \<Rightarrow> 't list \<Rightarrow> ('t, 'id) LogStore" where
  "AppendLocked s streamKey [] = s"
| "AppendLocked s streamKey (item # items) =
     (let idx = length (ls_log s);
          s1 = s\<lparr>ls_idIndex := (ls_idIndex s)(cfg_GetID (ls_cfg s) item \<mapsto> idx),
                 ls_log := ls_log s @ [item]\<rparr>;
          s2 = (if cfg_TrackStreams (ls_cfg s1)
                then s1\<lparr>ls_streamIndex := (ls_streamIndex s1)(streamKey \<mapsto>
                          stream_indices (ls_streamIndex s1) streamKey @ [idx])\<rparr>
                else s1)
      in AppendLocked s2 streamKey items)"

definition StreamLenLocked :: "('t, 'id) LogStore \<Rightarrow> string \<Rightarrow> nat" where
  "StreamLenLocked s streamKey = length (stream_indices (ls_streamIndex s) streamKey)"

definition CheckDuplicateLocked ::
  "('t, 'id) LogStore \<Rightarrow> 'id \<Rightarrow> string \<Rightarrow> go_error option" where
  "CheckDuplicateLocked s itemID suffix =
     (case cfg_NewDupErr (ls_cfg s) of
        None \<Rightarrow> None
      | Some mk \<Rightarrow> if ls_idIndex s itemID \<noteq> None then Some (mk itemID suffix) else None)"

definition LoadStreamLocked ::
  "('t, 'id) LogStore \<Rightarrow> string \<Rightarrow> string \<Rightarrow> ('t list \<Rightarrow> 't list) option \<Rightarrow> 't list outcome" where
  "LoadStreamLocked s op streamKey flt =
     (case cfg_NewNotFound (ls_cfg s) of
        None \<Rightarrow> Fail (ErrFmt [ErrNoStreamScoping])
      | Some notFound \<Rightarrow>
          (case ls_streamIndex s streamKey of
             None \<Rightarrow> Fail (notFound op streamKey)
           | Some indices \<Rightarrow>
               obind (index_all (ls_log s) indices) (\<lambda>items.
                 Ok (case flt of None \<Rightarrow> items | Some f \<Rightarrow> f items))))"

definition ReadAllLocked :: "('t, 'id) LogStore \<Rightarrow> 't list" where
  "ReadAllLocked s = ls_log s"

fun FilterAll_loop :: "('t \<Rightarrow> bool) \<Rightarrow> 't list \<Rightarrow> 't list \<Rightarrow> 't list" where
  "FilterAll_loop P [] result = result"
| "FilterAll_loop P (item # items) result =
     FilterAll_loop P items (if P item then result @ [item] else result)"

definition FilterAllLocked :: "('t, 'id) LogStore \<Rightarrow> ('t \<Rightarrow> bool) \<Rightarrow> 't list" where
  "FilterAllLocked s P = FilterAll_loop P (ls_log s) []"

definition ReadFromLocked ::
  "('t, 'id) LogStore \<Rightarrow> 'id \<Rightarrow> int \<Rightarrow> bool \<Rightarrow> 't list" where
  "ReadFromLocked s afterID limit fromStartWhenMissing =
     (let page = (\<lambda>startIdx.
            if startIdx \<ge> length (ls_log s) then []
            else let filtered = drop startIdx (ls_log s) in
              if limit > 0 \<and> int (length filtered) > limit then take (nat limit) filtered
              else filtered)
      in if cfg_IsZeroID (ls_cfg s) afterID then page 0
         else case ls_idIndex s afterID of
             None \<Rightarrow> if fromStartWhenMissing then page 0 else []
           | Some idx \<Rightarrow> page (idx + 1))"

lemmas log_op_defs [op_defs] = WithWrite_def WithReadLock_def wrapClosed_def LogStore_Close_def

section \<open>Refinement of a list of keyed entries\<close>

definition stream_of :: "(string \<times> 't) list \<Rightarrow> string \<Rightarrow> 't list" where
  "stream_of es k = map snd (filter (\<lambda>e. fst e = k) es)"

definition some_nonempty :: "'a list \<Rightarrow> 'a list option" where
  "some_nonempty xs = (if xs = [] then None else Some xs)"

definition log_repr :: "(string \<times> 't) list \<Rightarrow> ('t, 'id) LogStore \<Rightarrow> bool" where
  "log_repr es s \<longleftrightarrow>
     ls_log s = map snd es \<and>
     ls_streamIndex s =
       (\<lambda>k. if cfg_TrackStreams (ls_cfg s) then some_nonempty (positions (\<lambda>e. fst e = k) es) else None) \<and>
     ls_idIndex s = (\<lambda>i. last_position (\<lambda>e. cfg_GetID (ls_cfg s) (snd e) = i) es)"

lemma stream_of_simps [simp]:
  "stream_of [] k = []"
  "stream_of (es @ fs) k = stream_of es k @ stream_of fs k"
  "stream_of (map (Pair k') items) k = (if k = k' then items else [])"
  by (auto simp: stream_of_def filter_map comp_def)

lemma stream_of_concat: "stream_of (concat ess) k = concat (map (\<lambda>es. stream_of es k) ess)"
  by (induction ess) auto

lemma stream_of_eq_Nil: "stream_of es k = [] \<longleftrightarrow> k \<notin> fst ` set es"
  by (auto simp: stream_of_def filter_empty_conv)

lemma log_repr_New [inv_intros]: "log_repr [] (NewLogStore cfg)"
  by (simp add: log_repr_def NewLogStore_def some_nonempty_def fun_eq_iff)

lemma stream_indices_repr:
  assumes "log_repr es s"
  shows "stream_indices (ls_streamIndex s) k =
           (if cfg_TrackStreams (ls_cfg s) then positions (\<lambda>e. fst e = k) es else [])"
  using assms by (auto simp: log_repr_def stream_indices_def some_nonempty_def)

lemma AppendLocked_cfg [simp]:
  "ls_cfg (AppendLocked s k items) = ls_cfg s"
  "ls_Lifecycle (AppendLocked s k items) = ls_Lifecycle s"
  by (induction s k items rule: AppendLocked.induct) (simp_all add: Let_def)

lemma log_repr_append1:
  assumes "log_repr es s"
  shows "log_repr (es @ [(k, item)]) (AppendLocked s k [item])"
  using assms stream_indices_repr [OF assms, of k]
  by (auto simp: log_repr_def Let_def positions_snoc last_position_snoc some_nonempty_def fun_eq_iff)

lemma AppendLocked_Cons:
  "AppendLocked s k (item # items) = AppendLocked (AppendLocked s k [item]) k items"
  by (simp add: Let_def)

lemma log_repr_append [inv_intros]:
  "log_repr es s \<Longrightarrow> log_repr (es @ map (Pair k) items) (AppendLocked s k items)"
proof (induction items arbitrary: es s)
  case (Cons item items)
  from Cons.IH [OF log_repr_append1 [OF Cons.prems, of k item]] show ?case
    by (subst AppendLocked_Cons) simp
qed simp

lemma log_repr_Lifecycle [simp]: "log_repr es (s\<lparr>ls_Lifecycle := l\<rparr>) = log_repr es s"
  by (simp add: log_repr_def)

lemma StreamLenLocked_repr:
  assumes "log_repr es s" and "cfg_TrackStreams (ls_cfg s)"
  shows "StreamLenLocked s k = length (stream_of es k)"
  using assms by (simp add: StreamLenLocked_def stream_indices_repr length_positions stream_of_def)

lemma CheckDuplicateLocked_repr:
  assumes "log_repr es s" and "cfg_NewDupErr (ls_cfg s) = Some mk"
  shows "CheckDuplicateLocked s i suffix =
           (if i \<in> cfg_GetID (ls_cfg s) ` snd ` set es then Some (mk i suffix) else None)"
proof -
  have "ls_idIndex s i = None \<longleftrightarrow> (\<forall>e \<in> set es. cfg_GetID (ls_cfg s) (snd e) \<noteq> i)"
    using assms(1) by (simp add: log_repr_def last_position_None)
  then show ?thesis
    using assms(2) by (auto simp: CheckDuplicateLocked_def)
qed

lemma LoadStreamLocked_repr:
  assumes "log_repr es s" and "cfg_TrackStreams (ls_cfg s)"
    and "cfg_NewNotFound (ls_cfg s) = Some notFound"
  shows "LoadStreamLocked s op k flt =
           (if stream_of es k = [] then Fail (notFound op k)
            else Ok ((case flt of None \<Rightarrow> id | Some f \<Rightarrow> f) (stream_of es k)))"
proof -
  let ?ps = "positions (\<lambda>e. fst e = k) es"
  have "map ((!) (ls_log s)) ?ps = map snd (map ((!) es) ?ps)"
    using assms(1) by (auto simp: log_repr_def dest: positions_less)
  then have items: "map ((!) (ls_log s)) ?ps = stream_of es k"
    by (simp add: map_nth_positions stream_of_def)
  have "index_all (ls_log s) ?ps = Ok (stream_of es k)"
    using assms(1) items by (subst index_all_Ok) (auto simp: log_repr_def dest: positions_less)
  moreover have "?ps = [] \<longleftrightarrow> stream_of es k = []"
    using items by auto
  ultimately show ?thesis
    using assms by (auto simp: LoadStreamLocked_def log_repr_def some_nonempty_def split: option.split)
qed

lemma FilterAll_loop_eq: "FilterAll_loop P xs acc = acc @ filter P xs"
  by (induction xs arbitrary: acc) auto

lemma FilterAllLocked_repr: "log_repr es s \<Longrightarrow> FilterAllLocked s P = filter P (map snd es)"
  by (simp add: FilterAllLocked_def FilterAll_loop_eq log_repr_def)

definition page :: "int \<Rightarrow> 't list \<Rightarrow> 't list" where
  "page limit xs = (if limit > 0 then take (nat limit) xs else xs)"

lemma page_Nil [simp]: "page limit [] = []"
  by (simp add: page_def)

lemma page_eq:
  "(if limit > 0 \<and> int (length xs) > limit then take (nat limit) xs else xs) = page limit xs"
  by (auto simp: page_def)

lemma ReadFromLocked_repr:
  assumes "log_repr es s"
  shows "ReadFromLocked s i limit fromStart =
    (if cfg_IsZeroID (ls_cfg s) i then page limit (map snd es)
     else case last_position (\<lambda>e. cfg_GetID (ls_cfg s) (snd e) = i) es of
         None \<Rightarrow> if fromStart then page limit (map snd es) else []
       | Some idx \<Rightarrow> page limit (drop (idx + 1) (map snd es)))"
  using assms by (auto simp: ReadFromLocked_def Let_def log_repr_def page_eq split: option.split)

section \<open>Reading a log page by page\<close>

text \<open>
  The interface of position-based reading: \<open>readFrom\<close> on the zero identifier gives the first
  page, and on the identifier of the last item of a prefix of the log the page after it.
\<close>

fun catch_up :: "nat \<Rightarrow> ('id \<Rightarrow> int \<Rightarrow> 't list) \<Rightarrow> ('t \<Rightarrow> 'id) \<Rightarrow> int \<Rightarrow> 'id \<Rightarrow> 't list option" where
  "catch_up 0 readFrom getID limit pos = None"
| "catch_up (Suc fuel) readFrom getID limit pos =
     (case readFrom pos limit of
        [] \<Rightarrow> Some []
      | x # xs \<Rightarrow>
          map_option (\<lambda>rest. (x # xs) @ rest)
            (catch_up fuel readFrom getID limit (getID (last (x # xs)))))"

locale seekable_log =
  fixes inv :: "'s \<Rightarrow> bool"
    and log :: "'s \<Rightarrow> 't list"
    and readFrom :: "'s \<Rightarrow> 'id \<Rightarrow> int \<Rightarrow> 't list"
    and getID :: "'t \<Rightarrow> 'id"
    and zero :: 'id
  assumes read_zero: "inv s \<Longrightarrow> readFrom s zero limit = page limit (log s)"
    and read_after: "inv s \<Longrightarrow> distinct (map getID (log s)) \<Longrightarrow> zero \<notin> getID ` set (log s) \<Longrightarrow>
      log s = pre @ x # post \<Longrightarrow> readFrom s (getID x) limit = page limit post"
begin

lemma catch_up_after:
  assumes "inv s" and "distinct (map getID (log s))" and "zero \<notin> getID ` set (log s)"
    and "limit > 0" and "log s = pre @ x # post" and "length post < fuel"
  shows "catch_up fuel (readFrom s) getID limit (getID x) = Some post"
  using assms
proof (induction fuel arbitrary: pre x post)
  case (Suc fuel)
  let ?pg = "take (nat limit) post"
  have rd: "readFrom s (getID x) limit = ?pg"
    using read_after [OF Suc.prems(1-3,5)] Suc.prems(4) by (simp add: page_def)
  show ?case
  proof (cases "post = []")
    case True
    with rd show ?thesis by simp
  next
    case False
    with Suc.prems(4) have ne: "?pg \<noteq> []" by simp
    let ?rest = "drop (nat limit) post"
    have "log s = (pre @ x # butlast ?pg) @ last ?pg # ?rest"
      using Suc.prems(5) ne by (simp add: butlast_last_append)
    moreover have "length ?rest < fuel"
      using Suc.prems(4,6) False by (cases post) auto
    ultimately have "catch_up fuel (readFrom s) getID limit (getID (last ?pg)) = Some ?rest"
      using Suc.IH Suc.prems(1-4) by blast
    with rd ne show ?thesis
      by (cases ?pg) (simp_all, metis append_Cons append_take_drop_id)
  qed
qed simp

lemma catch_up_whole_log:
  assumes "inv s" and "distinct (map getID (log s))" and "zero \<notin> getID ` set (log s)"
    and "limit > 0" and "length (log s) < fuel"
  shows "catch_up fuel (readFrom s) getID limit zero = Some (log s)"
proof -
  obtain fuel' where fuel: "fuel = Suc fuel'" using assms(5) by (cases fuel) auto
  let ?pg = "take (nat limit) (log s)"
  have rd: "readFrom s zero limit = ?pg"
    using read_zero [OF assms(1)] assms(4) by (simp add: page_def)
  show ?thesis
  proof (cases "log s = []")
    case True
    with rd fuel show ?thesis by simp
  next
    case False
    with assms(4) have ne: "?pg \<noteq> []" by simp
    let ?rest = "drop (nat limit) (log s)"
    have "log s = butlast ?pg @ last ?pg # ?rest"
      using ne by (simp add: butlast_last_append)
    moreover have "length ?rest < fuel'"
      using assms(4,5) False fuel by (cases "log s") auto
    ultimately have "catch_up fuel' (readFrom s) getID limit (getID (last ?pg)) = Some ?rest"
      using catch_up_after assms(1-4) by blast
    with rd ne fuel show ?thesis
      by (cases ?pg) (simp_all, metis append_Cons append_take_drop_id)
  qed
qed

end

lemma ReadFromLocked_after:
  assumes "log_repr es s" and "distinct (map (cfg_GetID (ls_cfg s)) (ls_log s))"
    and "\<not> cfg_IsZeroID (ls_cfg s) (cfg_GetID (ls_cfg s) x)" and "ls_log s = pre @ x # post"
  shows "ReadFromLocked s (cfg_GetID (ls_cfg s) x) limit fromStart = page limit post"
proof -
  let ?f = "\<lambda>e. cfg_GetID (ls_cfg s) (snd e)"
  from assms(1,4) have map: "map snd es = pre @ x # post" by (simp add: log_repr_def)
  then have len: "length pre < length es"
    by (metis length_append length_map length_Cons less_add_Suc1 add_Suc_right)
  with map have "snd (es ! length pre) = x"
    by (metis nth_append_length nth_map)
  moreover have "distinct (map ?f es)"
    using assms(1,2) by (simp add: log_repr_def comp_def)
  ultimately have "last_position (\<lambda>e. ?f e = cfg_GetID (ls_cfg s) x) es = Some (length pre)"
    using last_position_distinct [of ?f es "length pre"] len by simp
  with assms(3) map show ?thesis
    by (simp add: ReadFromLocked_repr [OF assms(1)])
qed

end
