(* ===== verification/MemoryStore.thy ===== *)
theory MemoryStore
  imports LogStore Events
begin

text \<open>
  The in-memory event store of \<open>src/storage/memory\<close> (\<open>store.go\<close>, \<open>store_load.go\<close>,
  \<open>stream.go\<close>) on the log core, and the slice iterator of \<open>src/event/streaming_source.go\<close>.
  The locale \<open>event_store\<close> is the interface \<open>event.Store\<close> of \<open>src/event/store.go\<close> with the
  laws its clients rely on; the store is an instance of it.
\<close>

section \<open>The store\<close>

type_synonym MemoryStore = "(event, ulid) LogStore"

definition event_ErrStoreClosed :: go_error where
  "event_ErrStoreClosed = ErrNew Infrastructure ''event.store_closed''"

definition ErrStreamNotFound :: go_error where
  "ErrStreamNotFound = ErrNew Rejection ''event.stream_not_found''"

record MultiBatchEntry =
  mbe_Ref :: StreamRef
  mbe_Events :: "event list"

definition memory_config :: "(event, ulid) LogStoreConfig" where
  "memory_config =
     \<lparr>cfg_GetID = e_id, cfg_IsZeroID = (\<lambda>evtID. evtID = 0), cfg_ClosedErr = event_ErrStoreClosed,
      cfg_NewDupErr = None,
      cfg_NewNotFound = Some (\<lambda>op streamKey.
        ErrWrap Rejection ''memory.stream_not_found'' ErrStreamNotFound),
      cfg_TrackStreams = True\<rparr>"

definition NewMemoryStore :: MemoryStore where
  "NewMemoryStore = NewLogStore memory_config"

definition MemoryStore_Save ::
  "(go_error \<Rightarrow> family) \<Rightarrow> MemoryStore \<Rightarrow> StreamRef \<Rightarrow> event list \<Rightarrow> Version \<Rightarrow>
   MemoryStore \<times> go_error option" where
  "MemoryStore_Save cls s ref events expectedVersion =
     WithWrite s ''memory.save_failed'' (\<lambda>s.
       let key = StreamKey ref in
       case CheckVersionConflict (StreamLenLocked s key) expectedVersion of
         Some err \<Rightarrow> (s, Some (ErrWrap (cls err) ''memory.save_failed'' err))
       | None \<Rightarrow> (AppendLocked s key events, None))"

definition MemoryStore_AppendBatch ::
  "MemoryStore \<Rightarrow> StreamRef \<Rightarrow> event list \<Rightarrow> MemoryStore \<times> go_error option" where
  "MemoryStore_AppendBatch s ref events =
     WithWrite s ''memory.append_batch_failed'' (\<lambda>s. (AppendLocked s (StreamKey ref) events, None))"

fun SaveMultiBatch_loop :: "MemoryStore \<Rightarrow> MultiBatchEntry list \<Rightarrow> MemoryStore" where
  "SaveMultiBatch_loop s [] = s"
| "SaveMultiBatch_loop s (entry # entries) =
     SaveMultiBatch_loop (AppendLocked s (StreamKey (mbe_Ref entry)) (mbe_Events entry)) entries"

definition MemoryStore_SaveMultiBatch ::
  "MemoryStore \<Rightarrow> MultiBatchEntry list \<Rightarrow> MemoryStore \<times> go_error option" where
  "MemoryStore_SaveMultiBatch s entries =
     WithWrite s ''memory.save_multi_batch_failed'' (\<lambda>s. (SaveMultiBatch_loop s entries, None))"

definition getEvents :: "MemoryStore \<Rightarrow> StreamRef \<Rightarrow> string \<Rightarrow> event list outcome" where
  "getEvents s ref op =
     WithReadLock s ''memory.load_failed'' (\<lambda>s. LoadStreamLocked s op (StreamKey ref) None)"

definition MemoryStore_Load :: "MemoryStore \<Rightarrow> StreamRef \<Rightarrow> event list outcome" where
  "MemoryStore_Load s ref = getEvents s ref ''load''"

text \<open>The filter of a load may panic (slicing at a version of \<open>2^63\<close> and above).\<close>

definition MemoryStore_loadFiltered ::
  "MemoryStore \<Rightarrow> StreamRef \<Rightarrow> string \<Rightarrow> (event list \<Rightarrow> event list outcome) \<Rightarrow>
   event list outcome" where
  "MemoryStore_loadFiltered s ref op flt = obind (getEvents s ref op) flt"

definition MemoryStore_LoadFromVersion ::
  "MemoryStore \<Rightarrow> StreamRef \<Rightarrow> Version \<Rightarrow> event list outcome" where
  "MemoryStore_LoadFromVersion s ref version =
     MemoryStore_loadFiltered s ref ''load from version'' (\<lambda>evts. SliceFromVersion evts version)"

definition MemoryStore_LoadToVersion ::
  "MemoryStore \<Rightarrow> StreamRef \<Rightarrow> Version \<Rightarrow> event list outcome" where
  "MemoryStore_LoadToVersion s ref maxVersion =
     MemoryStore_loadFiltered s ref ''load to version'' (\<lambda>evts. SliceToVersion evts maxVersion)"

definition MemoryStore_LoadToTimestamp ::
  "MemoryStore \<Rightarrow> StreamRef \<Rightarrow> instant \<Rightarrow> event list outcome" where
  "MemoryStore_LoadToTimestamp s ref maxTime =
     MemoryStore_loadFiltered s ref ''load to timestamp'' (\<lambda>evts. Ok (FilterByTimestamp evts maxTime))"

definition MemoryStore_LoadBackwards :: "MemoryStore \<Rightarrow> StreamRef \<Rightarrow> event list outcome" where
  "MemoryStore_LoadBackwards s ref =
     obind (getEvents s ref ''load backwards'') (\<lambda>events. Ok (rev events))"

definition MemoryStore_ReadAll :: "MemoryStore \<Rightarrow> event list outcome" where
  "MemoryStore_ReadAll s = WithReadLock s ''memory.read_all_failed'' (\<lambda>s. Ok (ReadAllLocked s))"

definition MemoryStore_ReadFrom :: "MemoryStore \<Rightarrow> ulid \<Rightarrow> int \<Rightarrow> event list outcome" where
  "MemoryStore_ReadFrom s afterEventID limit =
     WithReadLock s ''memory.read_from_failed'' (\<lambda>s. Ok (ReadFromLocked s afterEventID limit True))"

section \<open>Streaming reads\<close>

record SliceIterator =
  it_events :: "event list"
  it_pos :: nat
  it_closed :: bool

definition NewSliceIterator :: "event list \<Rightarrow> SliceIterator" where
  "NewSliceIterator events = \<lparr>it_events = events, it_pos = 0, it_closed = False\<rparr>"

definition io_EOF :: go_error where
  "io_EOF = ErrExt ''EOF''"

definition SliceIterator_Next :: "SliceIterator \<Rightarrow> SliceIterator \<times> event outcome" where
  "SliceIterator_Next s =
     (if it_closed s \<or> it_pos s \<ge> length (it_events s) then (s, Fail io_EOF)
      else (s\<lparr>it_pos := it_pos s + 1\<rparr>, index (it_events s) (it_pos s)))"

definition SliceIterator_Close :: "SliceIterator \<Rightarrow> SliceIterator \<times> go_error option" where
  "SliceIterator_Close s = (s\<lparr>it_closed := True, it_events := []\<rparr>, None)"

definition sliceIteratorOrErr ::
  "event list outcome \<Rightarrow> string \<Rightarrow> SliceIterator outcome" where
  "sliceIteratorOrErr r code =
     (case r of
        Fail err \<Rightarrow> Fail (ErrWrap Infrastructure code err)
      | Panic \<Rightarrow> Panic
      | Ok events \<Rightarrow> Ok (NewSliceIterator events))"

definition MemoryStore_LoadStream :: "MemoryStore \<Rightarrow> StreamRef \<Rightarrow> SliceIterator outcome" where
  "MemoryStore_LoadStream s ref = sliceIteratorOrErr (MemoryStore_Load s ref) ''memory.load_stream''"

definition MemoryStore_LoadStreamFromVersion ::
  "MemoryStore \<Rightarrow> StreamRef \<Rightarrow> Version \<Rightarrow> SliceIterator outcome" where
  "MemoryStore_LoadStreamFromVersion s ref version =
     sliceIteratorOrErr (MemoryStore_LoadFromVersion s ref version) ''memory.load_stream_from_version''"

definition MemoryStore_ReadStream :: "MemoryStore \<Rightarrow> SliceIterator outcome" where
  "MemoryStore_ReadStream s = sliceIteratorOrErr (MemoryStore_ReadAll s) ''memory.read_stream''"

definition MemoryStore_ReadStreamFrom :: "MemoryStore \<Rightarrow> ulid \<Rightarrow> int \<Rightarrow> SliceIterator outcome" where
  "MemoryStore_ReadStreamFrom s afterEventID limit =
     sliceIteratorOrErr (MemoryStore_ReadFrom s afterEventID limit) ''memory.read_stream_from''"

text \<open>The documented use of an iterator: call \<open>Next\<close> until it returns \<open>io.EOF\<close>.\<close>

fun drain :: "nat \<Rightarrow> SliceIterator \<Rightarrow> event list outcome option" where
  "drain 0 it = None"
| "drain (Suc fuel) it =
     (case SliceIterator_Next it of
        (it', Ok evt) \<Rightarrow> map_option (\<lambda>r. obind r (\<lambda>es. Ok (evt # es))) (drain fuel it')
      | (it', Fail err) \<Rightarrow> Some (if err = io_EOF then Ok [] else Fail err)
      | (it', Panic) \<Rightarrow> Some Panic)"

section \<open>The interface of an event store\<close>

locale event_store =
  fixes inv :: "'s \<Rightarrow> bool"
    and is_open :: "'s \<Rightarrow> bool"
    and key :: "StreamRef \<Rightarrow> 'k"
    and stream :: "'s \<Rightarrow> 'k \<Rightarrow> event list"
    and save :: "'s \<Rightarrow> StreamRef \<Rightarrow> event list \<Rightarrow> Version \<Rightarrow> 's \<times> go_error option"
    and load :: "'s \<Rightarrow> StreamRef \<Rightarrow> event list outcome"
    and loadFrom :: "'s \<Rightarrow> StreamRef \<Rightarrow> Version \<Rightarrow> event list outcome"
    and loadTo :: "'s \<Rightarrow> StreamRef \<Rightarrow> Version \<Rightarrow> event list outcome"
    and loadToTime :: "'s \<Rightarrow> StreamRef \<Rightarrow> instant \<Rightarrow> event list outcome"
  assumes load_ok: "inv s \<Longrightarrow> is_open s \<Longrightarrow> stream s (key r) \<noteq> [] \<Longrightarrow> load s r = Ok (stream s (key r))"
    and load_missing: "inv s \<Longrightarrow> is_open s \<Longrightarrow> stream s (key r) = [] \<Longrightarrow>
      \<exists>e. load s r = Fail e \<and> errors_Is e ErrStreamNotFound"
    and loadFrom_ok: "inv s \<Longrightarrow> is_open s \<Longrightarrow> stream s (key r) \<noteq> [] \<Longrightarrow> version_ok v \<Longrightarrow>
      loadFrom s r v = Ok (drop (unat v) (stream s (key r)))"
    and loadFrom_missing: "inv s \<Longrightarrow> is_open s \<Longrightarrow> stream s (key r) = [] \<Longrightarrow>
      \<exists>e. loadFrom s r v = Fail e \<and> errors_Is e ErrStreamNotFound"
    and loadTo_ok: "inv s \<Longrightarrow> is_open s \<Longrightarrow> stream s (key r) \<noteq> [] \<Longrightarrow> version_ok v \<Longrightarrow>
      loadTo s r v = Ok (take (unat v) (stream s (key r)))"
    and loadToTime_ok: "inv s \<Longrightarrow> is_open s \<Longrightarrow> stream s (key r) \<noteq> [] \<Longrightarrow>
      loadToTime s r t = Ok (filter (\<lambda>e. e_occurredAt e \<le> t) (stream s (key r)))"
    and save_ok: "inv s \<Longrightarrow> is_open s \<Longrightarrow> version_ok v \<Longrightarrow> length (stream s (key r)) = unat v \<Longrightarrow>
      \<exists>s'. save s r evs v = (s', None) \<and> inv s' \<and> is_open s' \<and>
           stream s' = (stream s)(key r := stream s (key r) @ evs)"
    and save_conflict: "inv s \<Longrightarrow> is_open s \<Longrightarrow> \<not> (version_ok v \<and> length (stream s (key r)) = unat v) \<Longrightarrow>
      \<exists>e. save s r evs v = (s, Some e) \<and> errors_Is e ErrVersionConflict"
    and save_closed: "inv s \<Longrightarrow> \<not> is_open s \<Longrightarrow>
      \<exists>e. save s r evs v = (s, Some e) \<and> \<not> errors_Is e ErrVersionConflict"
    and load_closed: "inv s \<Longrightarrow> \<not> is_open s \<Longrightarrow>
      \<exists>e. load s r = Fail e \<and> \<not> errors_Is e ErrStreamNotFound"
begin

lemma load_stream:
  assumes "inv s" and "is_open s"
  shows "load s r = Ok evs \<longleftrightarrow> evs \<noteq> [] \<and> evs = stream s (key r)"
  using load_ok [OF assms, of r] load_missing [OF assms, of r]
  by (cases "stream s (key r) = []") auto

lemma save_success_iff:
  assumes "inv s"
  shows "snd (save s r evs v) = None \<longleftrightarrow>
           is_open s \<and> version_ok v \<and> length (stream s (key r)) = unat v"
proof (cases "is_open s")
  case True
  then show ?thesis
    using save_ok [OF assms True, of v r evs] save_conflict [OF assms True, of v r evs] by force
next
  case False
  then show ?thesis using save_closed [OF assms False, of r evs v] by force
qed

lemma save_error_unchanged: "inv s \<Longrightarrow> snd (save s r evs v) = Some e \<Longrightarrow> fst (save s r evs v) = s"
  using save_ok [of s v r evs] save_conflict [of s v r evs] save_closed [of s r evs v]
  by (cases "is_open s") force+

lemma save_inv: "inv s \<Longrightarrow> inv (fst (save s r evs v))"
  using save_ok [of s v r evs] save_conflict [of s v r evs] save_closed [of s r evs v]
  by (cases "is_open s") force+

lemma save_then_load:
  assumes "inv s" and "save s r evs v = (s', None)" and "evs \<noteq> []"
  shows "load s' r = Ok (stream s (key r) @ evs)"
    and "key r' \<noteq> key r \<Longrightarrow> load s' r' = load s r' \<or>
           (\<exists>e e'. load s r' = Fail e \<and> load s' r' = Fail e')"
proof -
  have pre: "is_open s \<and> version_ok v \<and> length (stream s (key r)) = unat v"
    using save_success_iff [OF assms(1), of r evs v] assms(2) by simp
  with save_ok [OF assms(1), of v r evs] assms(2)
  have s': "inv s'" "is_open s'" "stream s' = (stream s)(key r := stream s (key r) @ evs)"
    by auto
  with assms(3) show "load s' r = Ok (stream s (key r) @ evs)"
    by (simp add: load_stream)
  show "load s' r' = load s r' \<or> (\<exists>e e'. load s r' = Fail e \<and> load s' r' = Fail e')"
    if "key r' \<noteq> key r"
    using s' that pre assms(1) load_ok [of _ r'] load_missing [of _ r']
    by (cases "stream s (key r') = []") fastforce+
qed

text \<open>Two writers that expect the same version: after one of them wrote, the other one fails.\<close>

lemma lost_update_excluded:
  assumes "inv s" and "save s r evs v = (s', None)" and "evs \<noteq> []"
    and "length (stream s (key r)) + length evs < 2 ^ 63"
  shows "\<exists>e. save s' r evs' v = (s', Some e) \<and> errors_Is e ErrVersionConflict"
proof -
  have pre: "is_open s" "version_ok v" "length (stream s (key r)) = unat v"
    using save_success_iff [OF assms(1), of r evs v] assms(2) by auto
  with save_ok [OF assms(1), of v r evs] assms(2)
  have s': "inv s'" "is_open s'" "stream s' = (stream s)(key r := stream s (key r) @ evs)"
    by auto
  with pre assms(3) show ?thesis
    by (intro save_conflict) auto
qed

end

section \<open>The memory store is an event store\<close>

definition ms_inv :: "MemoryStore \<Rightarrow> bool" where
  "ms_inv s \<longleftrightarrow> ls_cfg s = memory_config \<and> (\<exists>es. log_repr es s)"

definition ms_open :: "MemoryStore \<Rightarrow> bool" where
  "ms_open s \<longleftrightarrow> \<not> lc_closed (ls_Lifecycle s)"

definition ms_stream :: "MemoryStore \<Rightarrow> string \<Rightarrow> event list" where
  "ms_stream s k = map ((!) (ls_log s)) (stream_indices (ls_streamIndex s) k)"

lemma memory_config_simps [simp]:
  "cfg_GetID memory_config = e_id" "cfg_IsZeroID memory_config = (\<lambda>i. i = 0)"
  "cfg_ClosedErr memory_config = event_ErrStoreClosed" "cfg_NewDupErr memory_config = None"
  "cfg_TrackStreams memory_config"
  "cfg_NewNotFound memory_config =
     Some (\<lambda>op k. ErrWrap Rejection ''memory.stream_not_found'' ErrStreamNotFound)"
  by (simp_all add: memory_config_def)

lemma ms_stream_repr:
  assumes "log_repr es s" and "ls_cfg s = memory_config"
  shows "ms_stream s k = stream_of es k"
proof -
  let ?ps = "positions (\<lambda>e. fst e = k) es"
  have "map ((!) (ls_log s)) ?ps = map snd (map ((!) es) ?ps)"
    using assms(1) by (auto simp: log_repr_def dest: positions_less)
  then show ?thesis
    using assms by (simp add: ms_stream_def stream_indices_repr map_nth_positions stream_of_def)
qed

lemma ms_inv_New [inv_intros]: "ms_inv NewMemoryStore"
  using log_repr_New [of memory_config]
  by (auto simp: ms_inv_def NewMemoryStore_def) (simp add: NewLogStore_def)

lemma ms_inv_append [inv_intros]: "ms_inv s \<Longrightarrow> ms_inv (AppendLocked s k evs)"
  using log_repr_append unfolding ms_inv_def by fastforce

lemma ms_stream_append:
  assumes "ms_inv s"
  shows "ms_stream (AppendLocked s k evs) = (ms_stream s)(k := ms_stream s k @ evs)"
proof -
  from assms obtain es where es: "log_repr es s" and cfg: "ls_cfg s = memory_config"
    by (auto simp: ms_inv_def)
  show ?thesis
    using ms_stream_repr [OF es cfg] ms_stream_repr [OF log_repr_append [OF es, of k evs]] cfg
    by (auto simp: fun_eq_iff)
qed

lemma ms_open_append [simp]: "ms_open (AppendLocked s k evs) = ms_open s"
  by (simp add: ms_open_def)

lemma MemoryStore_Save_cases:
  assumes "ms_inv s"
  shows "MemoryStore_Save cls s r evs v =
    (if \<not> ms_open s then (s, Some (ErrWrap Infrastructure ''memory.save_failed'' event_ErrStoreClosed))
     else case CheckVersionConflict (length (ms_stream s (StreamKey r))) v of
         None \<Rightarrow> (AppendLocked s (StreamKey r) evs, None)
       | Some err \<Rightarrow> (s, Some (ErrWrap (cls err) ''memory.save_failed'' err)))"
proof -
  from assms obtain es where es: "log_repr es s" and cfg: "ls_cfg s = memory_config"
    by (auto simp: ms_inv_def)
  then have "StreamLenLocked s (StreamKey r) = length (ms_stream s (StreamKey r))"
    by (simp add: StreamLenLocked_repr ms_stream_repr)
  with cfg show ?thesis
    by (simp add: MemoryStore_Save_def log_op_defs Lifecycle_CheckClosed_def ms_open_def Let_def)
qed

lemma getEvents_cases:
  assumes "ms_inv s"
  shows "getEvents s r op =
    (if \<not> ms_open s then Fail (ErrWrap Infrastructure ''memory.load_failed'' event_ErrStoreClosed)
     else if ms_stream s (StreamKey r) = []
     then Fail (ErrWrap Rejection ''memory.stream_not_found'' ErrStreamNotFound)
     else Ok (ms_stream s (StreamKey r)))"
proof -
  from assms obtain es where es: "log_repr es s" and cfg: "ls_cfg s = memory_config"
    by (auto simp: ms_inv_def)
  then show ?thesis
    by (simp add: getEvents_def log_op_defs Lifecycle_CheckClosed_def ms_open_def ms_stream_repr
        LoadStreamLocked_repr [OF es])
qed

lemma FilterByTimestamp_eq: "FilterByTimestamp es t = filter (\<lambda>e. e_occurredAt e \<le> t) es"
  by (induction es t rule: FilterByTimestamp.induct) (auto simp: After_def)

lemma CheckVersionConflict_bad: "\<not> version_ok v \<Longrightarrow> CheckVersionConflict n v \<noteq> None"
  using Version_Int_bad [of v] by (auto simp: CheckVersionConflict_def)

lemmas ms_load_defs = MemoryStore_Load_def MemoryStore_LoadFromVersion_def
  MemoryStore_LoadToVersion_def MemoryStore_LoadToTimestamp_def MemoryStore_LoadBackwards_def
  MemoryStore_loadFiltered_def

lemma err_distinct [simp]:
  "\<not> errors_Is event_ErrStoreClosed ErrVersionConflict"
  "\<not> errors_Is event_ErrStoreClosed ErrStreamNotFound"
  by (simp_all add: event_ErrStoreClosed_def ErrVersionConflict_def ErrStreamNotFound_def)

interpretation ms: event_store ms_inv ms_open StreamKey ms_stream "MemoryStore_Save cls"
  MemoryStore_Load MemoryStore_LoadFromVersion MemoryStore_LoadToVersion MemoryStore_LoadToTimestamp
  for cls
proof (unfold_locales, goal_cases)
  case (7 s v r evs)
  then show ?case
    by (simp add: MemoryStore_Save_cases CheckVersionConflict_None [THEN iffD2] inv_intros
        ms_stream_append)
next
  case (8 s v r evs)
  then show ?case
    using CheckVersionConflict_None [of v "length (ms_stream s (StreamKey r))"]
      CheckVersionConflict_bad [of v "length (ms_stream s (StreamKey r))"]
    by (auto simp: MemoryStore_Save_cases split: option.split dest: CheckVersionConflict_Some)
next
  case (9 s r evs v)
  then show ?case
    by (simp add: MemoryStore_Save_cases) (simp add: ErrVersionConflict_def)
next
  case (10 s r)
  then show ?case
    by (simp add: ms_load_defs getEvents_cases) (simp add: ErrStreamNotFound_def)
qed (auto simp: ms_load_defs getEvents_cases SliceFromVersion_ok SliceToVersion_ok
       FilterByTimestamp_eq)

section \<open>Position-based reading\<close>

lemma ms_ids_nonzero: "0 \<notin> e_id ` set (ls_log s) \<Longrightarrow> ls_log s = pre @ x # post \<Longrightarrow> e_id x \<noteq> 0"
  by auto

interpretation ms_journal: seekable_log ms_inv ls_log "\<lambda>s i limit. ReadFromLocked s i limit True" e_id 0
proof (unfold_locales, goal_cases)
  case (1 s limit)
  then show ?case by (auto simp: ms_inv_def ReadFromLocked_repr) (simp add: log_repr_def)
next
  case (2 s pre x post limit)
  then obtain es where "log_repr es s" and cfg: "ls_cfg s = memory_config"
    by (auto simp: ms_inv_def)
  with 2 ms_ids_nonzero [of s pre x post] show ?case
    using ReadFromLocked_after [of es s x pre post limit True] by simp
qed

lemma MemoryStore_ReadFrom_open:
  assumes "ms_inv s" and "ms_open s"
  shows "MemoryStore_ReadFrom s i limit = Ok (ReadFromLocked s i limit True)"
    and "MemoryStore_ReadAll s = Ok (ls_log s)"
  using assms
  by (simp_all add: MemoryStore_ReadFrom_def MemoryStore_ReadAll_def log_op_defs ReadAllLocked_def
      Lifecycle_CheckClosed_def ms_open_def)

section \<open>Histories of calls\<close>

text \<open>
  The abstract store is the list of all entries, each with the key of its stream, in the order
  they were appended, and whether the store is closed.
\<close>

datatype store_call =
    CallSave StreamRef "event list" Version
  | CallAppendBatch StreamRef "event list"
  | CallSaveMultiBatch "MultiBatchEntry list"
  | CallStoreClose

fun run_store_call ::
  "(go_error \<Rightarrow> family) \<Rightarrow> store_call \<Rightarrow> MemoryStore \<Rightarrow> MemoryStore \<times> go_error option" where
  "run_store_call cls (CallSave r evs v) s = MemoryStore_Save cls s r evs v"
| "run_store_call cls (CallAppendBatch r evs) s = MemoryStore_AppendBatch s r evs"
| "run_store_call cls (CallSaveMultiBatch entries) s = MemoryStore_SaveMultiBatch s entries"
| "run_store_call cls CallStoreClose s = LogStore_Close s"

definition keyed :: "StreamRef \<Rightarrow> event list \<Rightarrow> (string \<times> event) list" where
  "keyed r evs = map (Pair (StreamKey r)) evs"

fun spec_store_call ::
  "store_call \<Rightarrow> (string \<times> event) list \<times> bool \<Rightarrow> (string \<times> event) list \<times> bool" where
  "spec_store_call (CallSave r evs v) (es, closed) =
     (if \<not> closed \<and> version_ok v \<and> unat v = length (stream_of es (StreamKey r))
      then (es @ keyed r evs, closed) else (es, closed))"
| "spec_store_call (CallAppendBatch r evs) (es, closed) =
     (if closed then (es, closed) else (es @ keyed r evs, closed))"
| "spec_store_call (CallSaveMultiBatch entries) (es, closed) =
     (if closed then (es, closed)
      else (es @ concat (map (\<lambda>en. keyed (mbe_Ref en) (mbe_Events en)) entries), closed))"
| "spec_store_call CallStoreClose (es, closed) = (es, True)"

definition store_repr :: "(string \<times> event) list \<times> bool \<Rightarrow> MemoryStore \<Rightarrow> bool" where
  "store_repr a s \<longleftrightarrow>
     log_repr (fst a) s \<and> ls_cfg s = memory_config \<and> snd a = lc_closed (ls_Lifecycle s)"

lemma store_repr_append [inv_intros]:
  "store_repr (es, closed) s \<Longrightarrow> store_repr (es @ keyed r evs, closed) (AppendLocked s (StreamKey r) evs)"
  by (simp add: store_repr_def keyed_def log_repr_append)

lemma SaveMultiBatch_loop_repr [inv_intros]:
  "store_repr (es, closed) s \<Longrightarrow>
   store_repr (es @ concat (map (\<lambda>en. keyed (mbe_Ref en) (mbe_Events en)) entries), closed)
     (SaveMultiBatch_loop s entries)"
proof (induction entries arbitrary: es s)
  case (Cons en entries)
  from Cons.IH [OF store_repr_append [OF Cons.prems]] show ?case by simp
qed simp

lemma store_repr_inv: "store_repr a s \<Longrightarrow> ms_inv s"
  by (auto simp: store_repr_def ms_inv_def)

lemma run_store_call_repr:
  assumes "store_repr a s"
  shows "store_repr (spec_store_call c a) (fst (run_store_call cls c s))"
proof (cases c)
  case (CallSave r evs v)
  obtain es closed where a: "a = (es, closed)" by fastforce
  have stream: "ms_stream s k = stream_of es k" for k
    using assms a by (simp add: store_repr_def ms_stream_repr)
  have closed: "closed = (\<not> ms_open s)" using assms a by (simp add: store_repr_def ms_open_def)
  let ?n = "length (stream_of es (StreamKey r))"
  have check: "CheckVersionConflict ?n v = None \<longleftrightarrow> version_ok v \<and> unat v = ?n"
    using CheckVersionConflict_None [of v ?n] CheckVersionConflict_bad [of v ?n] by metis
  note save = MemoryStore_Save_cases [OF store_repr_inv [OF assms], of cls r evs v, unfolded stream]
  show ?thesis
  proof (cases "CheckVersionConflict ?n v")
    case None
    with check have "version_ok v \<and> unat v = ?n" by simp
    with None assms show ?thesis unfolding a CallSave
      by (cases "ms_open s") (simp_all add: save closed store_repr_append)
  next
    case (Some err)
    with check have "\<not> (version_ok v \<and> unat v = ?n)" by (metis option.distinct(1))
    with Some assms show ?thesis unfolding a CallSave
      by (simp only: run_store_call.simps spec_store_call.simps save)
        (simp only: simp_thms if_False if_cancel option.case prod.sel split: if_splits)
  qed
next
  case (CallAppendBatch r evs)
  with assms show ?thesis
    by (cases a) (auto simp: MemoryStore_AppendBatch_def log_op_defs Lifecycle_CheckClosed_def
        intro: inv_intros, auto simp: store_repr_def)
next
  case (CallSaveMultiBatch entries)
  with assms show ?thesis
    by (cases a) (auto simp: MemoryStore_SaveMultiBatch_def log_op_defs Lifecycle_CheckClosed_def
        intro: inv_intros, auto simp: store_repr_def)
next
  case CallStoreClose
  with assms show ?thesis
    by (cases a) (simp add: store_repr_def log_op_defs Lifecycle_Close_def)
qed

definition run_store :: "(go_error \<Rightarrow> family) \<Rightarrow> store_call list \<Rightarrow> MemoryStore" where
  "run_store cls cs = fold (\<lambda>c s. fst (run_store_call cls c s)) cs NewMemoryStore"

definition spec_store :: "store_call list \<Rightarrow> (string \<times> event) list \<times> bool" where
  "spec_store cs = fold spec_store_call cs ([], False)"

lemma run_store_repr: "store_repr (spec_store cs) (run_store cls cs)"
proof -
  have "store_repr a s \<Longrightarrow>
      store_repr (fold spec_store_call cs a) (fold (\<lambda>c s. fst (run_store_call cls c s)) cs s)" for a s
    by (induction cs arbitrary: a s) (simp_all add: run_store_call_repr)
  moreover have "store_repr ([], False) NewMemoryStore"
    using log_repr_New [of memory_config]
    by (simp add: store_repr_def NewMemoryStore_def) (simp add: NewLogStore_def)
  ultimately show ?thesis by (simp add: run_store_def spec_store_def)
qed

section \<open>Properties\<close>

text \<open>
  C1. The memory store refines the abstract store: after any history of saves, batch appends,
  multi-stream batches and closing, with whatever arguments, an open store loads exactly the
  entries the specification has for the stream, reads back the whole history in order, and a
  closed store answers every read with the closed error.
\<close>

theorem MemoryStore_refinement:
  "(\<not> snd (spec_store cs) \<longrightarrow>
     MemoryStore_ReadAll (run_store cls cs) = Ok (map snd (fst (spec_store cs))) \<and>
     MemoryStore_Load (run_store cls cs) r =
       (if stream_of (fst (spec_store cs)) (StreamKey r) = []
        then Fail (ErrWrap Rejection ''memory.stream_not_found'' ErrStreamNotFound)
        else Ok (stream_of (fst (spec_store cs)) (StreamKey r)))) \<and>
   (snd (spec_store cs) \<longrightarrow>
     MemoryStore_ReadAll (run_store cls cs) =
       Fail (ErrWrap Infrastructure ''memory.read_all_failed'' event_ErrStoreClosed) \<and>
     MemoryStore_Load (run_store cls cs) r =
       Fail (ErrWrap Infrastructure ''memory.load_failed'' event_ErrStoreClosed))"
proof -
  have repr: "store_repr (spec_store cs) (run_store cls cs)" by (rule run_store_repr)
  then have inv: "ms_inv (run_store cls cs)" by (rule store_repr_inv)
  from repr have stream: "ms_stream (run_store cls cs) k = stream_of (fst (spec_store cs)) k" for k
    by (simp add: store_repr_def ms_stream_repr)
  from repr have cfg: "ls_cfg (run_store cls cs) = memory_config"
    and log: "ls_log (run_store cls cs) = map snd (fst (spec_store cs))"
    and opn: "ms_open (run_store cls cs) \<longleftrightarrow> \<not> snd (spec_store cs)"
    by (simp_all add: store_repr_def log_repr_def ms_open_def)
  then show ?thesis
    by (simp add: MemoryStore_Load_def getEvents_cases [OF inv] stream MemoryStore_ReadAll_def
        log_op_defs Lifecycle_CheckClosed_def ReadAllLocked_def ms_open_def)
qed

definition witness_event :: "nat \<Rightarrow> event" where
  "witness_event i = zeroEvent\<lparr>e_id := of_nat i, e_version := of_nat i, e_occurredAt := int i\<rparr>"

definition witness_ref :: StreamRef where
  "witness_ref = \<lparr>sr_Type = ''order'', sr_ID = ''7''\<rparr>"

lemma version_ok_small: "version_ok 0" "version_ok 1" "version_ok 2"
  by (simp_all add: version_ok_def)

theorem MemoryStore_refinement_witness:
  "MemoryStore_Load (run_store (\<lambda>_. Conflict)
     [CallSave witness_ref [witness_event 1] 0, CallSave witness_ref [witness_event 2] 0])
     witness_ref = Ok [witness_event 1]"
  using MemoryStore_refinement [of "[CallSave witness_ref [witness_event 1] 0,
      CallSave witness_ref [witness_event 2] 0]" "\<lambda>_. Conflict" witness_ref]
  by (simp add: spec_store_def version_ok_small keyed_def stream_of_def)

text \<open>
  C2. Optimistic concurrency: on a well-formed store \<open>Save\<close> succeeds exactly when the store is
  open and the expected version is the current length of the stream; otherwise the store is
  unchanged and the error is the version conflict or the closed error.
\<close>

theorem Save_optimistic_concurrency:
  assumes "ms_inv s"
  shows "(snd (MemoryStore_Save cls s r evs v) = None \<longleftrightarrow>
            ms_open s \<and> version_ok v \<and> length (ms_stream s (StreamKey r)) = unat v) \<and>
         (\<forall>e. snd (MemoryStore_Save cls s r evs v) = Some e \<longrightarrow>
            fst (MemoryStore_Save cls s r evs v) = s \<and>
            (errors_Is e ErrVersionConflict \<longleftrightarrow> ms_open s)) \<and>
         ms_inv (fst (MemoryStore_Save cls s r evs v))"
proof (intro conjI allI impI)
  show "snd (MemoryStore_Save cls s r evs v) = None \<longleftrightarrow>
          ms_open s \<and> version_ok v \<and> length (ms_stream s (StreamKey r)) = unat v"
    by (rule ms.save_success_iff [OF assms])
  show "ms_inv (fst (MemoryStore_Save cls s r evs v))"
    by (rule ms.save_inv [OF assms])
  fix e assume e: "snd (MemoryStore_Save cls s r evs v) = Some e"
  show "fst (MemoryStore_Save cls s r evs v) = s"
    by (rule ms.save_error_unchanged [OF assms e])
  show "errors_Is e ErrVersionConflict \<longleftrightarrow> ms_open s"
    using e ms.save_closed [OF assms, of cls r evs v] ms.save_conflict [OF assms, of v r cls evs]
      ms.save_success_iff [OF assms, of cls r evs v]
    by (cases "ms_open s") auto
qed

theorem Save_optimistic_concurrency_witness:
  "ms_inv NewMemoryStore \<and>
   snd (MemoryStore_Save (\<lambda>_. Conflict) NewMemoryStore witness_ref [witness_event 1] 0) = None"
proof -
  have inv: "ms_inv NewMemoryStore" by (rule ms_inv_New)
  show ?thesis
    using inv Save_optimistic_concurrency [OF inv, of "\<lambda>_. Conflict" witness_ref "[witness_event 1]" 0]
    by (simp add: ms_open_def NewMemoryStore_def NewLogStore_def version_ok_small ms_stream_def
        stream_indices_def)
qed

text \<open>
  C8. What was saved is loaded: after a successful \<open>Save\<close> of some events, \<open>Load\<close> returns the
  earlier events of the stream followed by the new ones, streams with another key load as
  before, and a second writer that still expects the old version is refused with a version
  conflict.
\<close>

theorem Save_then_Load:
  assumes "ms_inv s" and "MemoryStore_Save cls s r evs v = (s', None)" and "evs \<noteq> []"
    and "length (ms_stream s (StreamKey r)) + length evs < 2 ^ 63"
  shows "MemoryStore_Load s' r = Ok (ms_stream s (StreamKey r) @ evs) \<and>
         (StreamKey r' \<noteq> StreamKey r \<longrightarrow> ms_stream s' (StreamKey r') = ms_stream s (StreamKey r') \<and>
            MemoryStore_Load s' r' = MemoryStore_Load s r') \<and>
         (\<exists>e. MemoryStore_Save cls s' r evs' v = (s', Some e) \<and> errors_Is e ErrVersionConflict)"
proof -
  have pre: "ms_open s" "CheckVersionConflict (length (ms_stream s (StreamKey r))) v = None"
    using assms(2) by (auto simp: MemoryStore_Save_cases [OF assms(1)] split: if_splits option.splits)
  then have s': "s' = AppendLocked s (StreamKey r) evs"
    using assms(2) by (simp add: MemoryStore_Save_cases [OF assms(1)])
  have "StreamKey r' \<noteq> StreamKey r \<longrightarrow> ms_stream s' (StreamKey r') = ms_stream s (StreamKey r') \<and>
      MemoryStore_Load s' r' = MemoryStore_Load s r'"
    using assms(1) pre unfolding s'
    by (simp add: MemoryStore_Load_def getEvents_cases inv_intros ms_stream_append)
  then show ?thesis
    using ms.save_then_load(1) [OF assms(1-3)] ms.lost_update_excluded [OF assms] by blast
qed

theorem Save_then_Load_witness:
  "\<exists>s'. MemoryStore_Save (\<lambda>_. Conflict) NewMemoryStore witness_ref [witness_event 1] 0 = (s', None) \<and>
        MemoryStore_Load s' witness_ref = Ok [witness_event 1]"
proof -
  have str: "ms_stream NewMemoryStore k = []" for k
    by (simp add: ms_stream_def NewMemoryStore_def NewLogStore_def stream_indices_def)
  have opn: "ms_open NewMemoryStore"
    by (simp add: ms_open_def NewMemoryStore_def NewLogStore_def)
  obtain s' where s': "MemoryStore_Save (\<lambda>_. Conflict) NewMemoryStore witness_ref [witness_event 1] 0 =
      (s', None)"
    using ms.save_ok [OF ms_inv_New opn, of 0 witness_ref "\<lambda>_. Conflict" "[witness_event 1]"]
    by (auto simp: version_ok_small str)
  have "MemoryStore_Load s' witness_ref = Ok [witness_event 1]"
    using Save_then_Load [OF ms_inv_New s', of witness_ref "[]"] by (simp add: str)
  with s' show ?thesis by blast
qed

lemma drain_slice:
  assumes "\<not> it_closed it" and "length (it_events it) - it_pos it < fuel"
  shows "drain fuel it = Some (Ok (drop (it_pos it) (it_events it)))"
  using assms
proof (induction fuel arbitrary: it)
  case (Suc fuel)
  show ?case
  proof (cases "it_pos it < length (it_events it)")
    case True
    with Suc.prems Suc.IH [of "it\<lparr>it_pos := it_pos it + 1\<rparr>"] show ?thesis
      by (simp add: SliceIterator_Next_def index_def Cons_nth_drop_Suc)
  qed (use Suc.prems in \<open>simp add: SliceIterator_Next_def io_EOF_def\<close>)
qed simp

text \<open>
  All reads of a stream are views of one sequence of events: for every version the events up
  to it and the events after it make up the stream, the backward read is the reverse, the read up
  to a time keeps exactly the events that did not occur later, and draining the streaming read
  gives the same events as the plain one.
\<close>

theorem read_views_agree:
  assumes "ms_inv s" and "MemoryStore_Load s r = Ok evs" and "version_ok v"
  shows "(\<exists>xs ys. MemoryStore_LoadToVersion s r v = Ok xs \<and> MemoryStore_LoadFromVersion s r v = Ok ys \<and>
            xs @ ys = evs \<and> length xs = min (unat v) (length evs)) \<and>
         MemoryStore_LoadBackwards s r = Ok (rev evs) \<and>
         MemoryStore_LoadToTimestamp s r t = Ok (filter (\<lambda>e. e_occurredAt e \<le> t) evs) \<and>
         (\<exists>it. MemoryStore_LoadStream s r = Ok it \<and>
            drain (Suc (length evs)) it = Some (Ok evs)) \<and>
         (\<exists>it. MemoryStore_LoadStreamFromVersion s r v = Ok it \<and>
            drain (Suc (length evs)) it = Some (Ok (drop (unat v) evs)))"
proof -
  from assms(1,2) have evs: "ms_stream s (StreamKey r) = evs" "evs \<noteq> []" "ms_open s"
    by (auto simp: MemoryStore_Load_def getEvents_cases split: if_splits)
  note get = getEvents_cases [OF assms(1), of r, simplified evs, simplified]
  have "drain (Suc (length evs)) (NewSliceIterator evs) = Some (Ok evs)"
    by (subst drain_slice) (simp_all add: NewSliceIterator_def)
  moreover have "drain (Suc (length evs)) (NewSliceIterator (drop (unat v) evs)) =
      Some (Ok (drop (unat v) evs))"
    by (subst drain_slice) (simp_all add: NewSliceIterator_def)
  ultimately show ?thesis
    using evs(2)
    by (simp add: ms_load_defs get SliceToVersion_ok [OF assms(3)] SliceFromVersion_ok [OF assms(3)]
        FilterByTimestamp_eq MemoryStore_LoadStream_def MemoryStore_LoadStreamFromVersion_def
        sliceIteratorOrErr_def del: drain.simps)
qed

definition witness_store :: MemoryStore where
  "witness_store = AppendLocked NewMemoryStore (StreamKey witness_ref)
     [witness_event 1, witness_event 2, witness_event 3]"

lemma witness_store_inv: "ms_inv witness_store"
  unfolding witness_store_def by (intro inv_intros)

lemma witness_store_facts:
  "ms_open witness_store"
  "ls_log witness_store = [witness_event 1, witness_event 2, witness_event 3]"
  "ms_stream witness_store (StreamKey witness_ref) = [witness_event 1, witness_event 2, witness_event 3]"
  by (simp_all add: witness_store_def NewMemoryStore_def NewLogStore_def ms_open_def Let_def
      ms_stream_def stream_indices_def)

theorem read_views_agree_witness:
  "MemoryStore_Load witness_store witness_ref =
     Ok [witness_event 1, witness_event 2, witness_event 3] \<and>
   MemoryStore_LoadBackwards witness_store witness_ref =
     Ok [witness_event 3, witness_event 2, witness_event 1]"
proof -
  have load: "MemoryStore_Load witness_store witness_ref =
      Ok [witness_event 1, witness_event 2, witness_event 3]"
    by (simp add: MemoryStore_Load_def getEvents_cases witness_store_inv witness_store_facts)
  then show ?thesis
    using read_views_agree [OF witness_store_inv load version_ok_small(2), of 0] by simp
qed

text \<open>
  Reading the journal page by page, each time from the identifier of the last event read,
  visits every event exactly once, in order, and stops, for every page size, when event
  identifiers are distinct and non-zero.
\<close>

theorem journal_paging_complete:
  assumes "ms_inv s" and "ms_open s" and "distinct (map e_id (ls_log s))"
    and "0 \<notin> e_id ` set (ls_log s)" and "limit > 0" and "length (ls_log s) < fuel"
  shows "MemoryStore_ReadAll s = Ok (ls_log s) \<and>
         catch_up fuel (\<lambda>i l. case MemoryStore_ReadFrom s i l of Ok es \<Rightarrow> es | _ \<Rightarrow> []) e_id limit 0 =
           Some (ls_log s)"
  using ms_journal.catch_up_whole_log [OF assms(1,3-6)]
  by (simp add: MemoryStore_ReadFrom_open [OF assms(1,2)])

theorem journal_paging_complete_witness:
  "catch_up 4 (\<lambda>i l. case MemoryStore_ReadFrom witness_store i l of Ok es \<Rightarrow> es | _ \<Rightarrow> []) e_id 2 0 =
     Some [witness_event 1, witness_event 2, witness_event 3]"
  using journal_paging_complete [OF witness_store_inv witness_store_facts(1), of 2 4]
  by (simp add: witness_store_facts witness_event_def zeroEvent_def)

text \<open>
  A cursor that is not in the journal makes \<open>ReadFrom\<close> start again from the first event, so
  a consumer that continues from a pruned position reads the whole journal a second time.
\<close>

theorem dangling_cursor_replays:
  assumes "ms_inv s" and "ms_open s" and "i \<notin> e_id ` set (ls_log s)"
  shows "MemoryStore_ReadFrom s i limit = MemoryStore_ReadFrom s 0 limit \<and>
         MemoryStore_ReadFrom s i 0 = Ok (ls_log s)"
proof -
  obtain es where es: "log_repr es s" and cfg: "ls_cfg s = memory_config"
    using assms(1) by (auto simp: ms_inv_def)
  have "last_position (\<lambda>e. e_id (snd e) = i) es = None"
    using es assms(3) by (auto simp: last_position_None log_repr_def image_image)
  with es cfg show ?thesis
    by (simp add: MemoryStore_ReadFrom_open [OF assms(1,2)] ReadFromLocked_repr page_def)
      (simp add: log_repr_def)
qed

theorem dangling_cursor_replays_witness:
  "MemoryStore_ReadFrom witness_store 99 0 = Ok [witness_event 1, witness_event 2, witness_event 3]"
proof -
  have "99 \<notin> e_id ` set (ls_log witness_store)"
    by (simp add: witness_store_facts witness_event_def zeroEvent_def)
  from dangling_cursor_replays [OF witness_store_inv witness_store_facts(1) this, of 0, THEN conjunct2]
  show ?thesis
    by (simp add: witness_store_facts)
qed

end
