(* ===== verification/MessageStores.thy ===== *)
theory MessageStores
  imports LogStore Metadata
begin

text \<open>
  Commands and queries as values (\<open>src/command\<close>, \<open>src/query\<close>) and their in-memory stores
  (\<open>src/storage/memory/command_store.go\<close>, \<open>query_store.go\<close>) on the log core: construction with
  validation, duplicate detection, atomic batches, and reads by stream, by time and by position.
  Minted identifiers and the reading of the clock are arguments of the constructors.
\<close>

section \<open>Commands and queries\<close>

text \<open>\<open>metadata.Metadata\<close>: tracing and a custom map.\<close>

record MsgMetadata =
  mm_Tracing :: Tracing
  mm_Custom :: custom

definition zeroMsgMetadata :: MsgMetadata where
  "zeroMsgMetadata = \<lparr>mm_Tracing = zeroTracing, mm_Custom = Map.empty\<rparr>"

definition MsgMetadata_Clone :: "MsgMetadata \<Rightarrow> MsgMetadata" where
  "MsgMetadata_Clone m = \<lparr>mm_Tracing = mm_Tracing m, mm_Custom = mm_Custom m\<rparr>"

definition MsgMetadata_Merge :: "MsgMetadata \<Rightarrow> MsgMetadata \<Rightarrow> MsgMetadata" where
  "MsgMetadata_Merge m other =
     \<lparr>mm_Tracing = Tracing_Merge (mm_Tracing m) (mm_Tracing other),
      mm_Custom = MergeCustomMaps (mm_Custom m) (mm_Custom other)\<rparr>"

definition MsgMetadata_WithCustom :: "MsgMetadata \<Rightarrow> string \<Rightarrow> string \<Rightarrow> MsgMetadata" where
  "MsgMetadata_WithCustom m k v =
     \<lparr>mm_Tracing = mm_Tracing m, mm_Custom = (mm_Custom m)(k \<mapsto> v)\<rparr>"

record BasicCommand =
  bc_commandID :: ulid
  bc_commandType :: string
  bc_streamID :: StreamID
  bc_metadata :: MsgMetadata

record BasicQuery =
  bq_queryType :: string
  bq_metadata :: MsgMetadata

definition ErrEmptyCommandType :: go_error where
  "ErrEmptyCommandType = ErrNew Rejection ''command.empty_command_type''"

definition command_ErrNilStreamID :: go_error where
  "command_ErrNilStreamID = ErrNew Rejection ''command.nil_stream_id''"

definition command_ErrEmptyStreamType :: go_error where
  "command_ErrEmptyStreamType = ErrNew Rejection ''command.empty_stream_type''"

definition ErrDuplicateCommand :: go_error where
  "ErrDuplicateCommand = ErrNew Conflict ''command.duplicate''"

definition ErrCommandNotFound :: go_error where
  "ErrCommandNotFound = ErrNew Rejection ''command.not_found''"

definition command_ErrStoreClosed :: go_error where
  "command_ErrStoreClosed = ErrNew Infrastructure ''command.store_closed''"

definition ErrEmptyQueryType :: go_error where
  "ErrEmptyQueryType = ErrNew Rejection ''query.empty_query_type''"

definition ErrDuplicateQuery :: go_error where
  "ErrDuplicateQuery = ErrNew Conflict ''query.duplicate''"

definition query_ErrStoreClosed :: go_error where
  "query_ErrStoreClosed = ErrNew Infrastructure ''query.store_closed''"

definition command_New ::
  "ulid \<Rightarrow> string \<Rightarrow> StreamID \<Rightarrow> (BasicCommand \<Rightarrow> BasicCommand) list \<Rightarrow> BasicCommand outcome" where
  "command_New newID commandType streamID opts =
     (if commandType = [] then
        Fail (ErrWrap Rejection ''command.empty_command_type'' ErrEmptyCommandType)
      else if streamID = [] then
        Fail (ErrWrap Rejection ''command.nil_stream_id'' command_ErrNilStreamID)
      else Ok (fold (\<lambda>opt cmd. opt cmd) opts
             \<lparr>bc_commandID = newID, bc_commandType = commandType, bc_streamID = streamID,
              bc_metadata = zeroMsgMetadata\<rparr>))"

definition query_New ::
  "string \<Rightarrow> (BasicQuery \<Rightarrow> BasicQuery) list \<Rightarrow> BasicQuery outcome" where
  "query_New queryType opts =
     (if queryType = [] then
        Fail (ErrWrap Rejection ''query.empty_query_type'' ErrEmptyQueryType)
      else Ok (fold (\<lambda>opt q. opt q) opts
             \<lparr>bq_queryType = queryType, bq_metadata = zeroMsgMetadata\<rparr>))"

record PersistedCommand =
  pc_id :: ulid
  pc_cmdType :: string
  pc_streamRef :: StreamRef
  pc_receivedAt :: instant
  pc_payload :: "byte list"
  pc_metadata :: MsgMetadata

record PersistedQuery =
  pq_id :: ulid
  pq_queryType :: string
  pq_receivedAt :: instant
  pq_payload :: "byte list"
  pq_metadata :: MsgMetadata

definition NewPersistedCommand ::
  "ulid \<Rightarrow> instant \<Rightarrow> string \<Rightarrow> StreamRef \<Rightarrow> byte list \<Rightarrow>
   (PersistedCommand \<Rightarrow> PersistedCommand) list \<Rightarrow> PersistedCommand outcome" where
  "NewPersistedCommand newID now cmdType ref payload opts =
     (if cmdType = [] then
        Fail (ErrWrap Rejection ''command.empty_command_type'' ErrEmptyCommandType)
      else if sr_Type ref = [] then
        Fail (ErrWrap Rejection ''command.empty_stream_type'' command_ErrEmptyStreamType)
      else if sr_ID ref = [] then
        Fail (ErrWrap Rejection ''command.nil_stream_id'' command_ErrNilStreamID)
      else Ok (fold (\<lambda>opt cmd. opt cmd) opts
             \<lparr>pc_id = newID, pc_cmdType = cmdType, pc_streamRef = ref, pc_receivedAt = now,
              pc_payload = payload, pc_metadata = zeroMsgMetadata\<rparr>))"

definition NewPersistedQuery ::
  "ulid \<Rightarrow> instant \<Rightarrow> string \<Rightarrow> byte list \<Rightarrow> (PersistedQuery \<Rightarrow> PersistedQuery) list \<Rightarrow>
   PersistedQuery outcome" where
  "NewPersistedQuery newID now queryType payload opts =
     (if queryType = [] then
        Fail (ErrWrap Rejection ''query.empty_query_type'' ErrEmptyQueryType)
      else Ok (fold (\<lambda>opt q. opt q) opts
             \<lparr>pq_id = newID, pq_queryType = queryType, pq_receivedAt = now, pq_payload = payload,
              pq_metadata = zeroMsgMetadata\<rparr>))"

definition WithReceivedAt :: "instant \<Rightarrow> PersistedCommand \<Rightarrow> PersistedCommand" where
  "WithReceivedAt t c = c\<lparr>pc_receivedAt := t\<rparr>"

definition WithPersistedCommandID :: "ulid \<Rightarrow> PersistedCommand \<Rightarrow> PersistedCommand" where
  "WithPersistedCommandID cmdID c = c\<lparr>pc_id := cmdID\<rparr>"

definition WithCommandMetadata :: "MsgMetadata \<Rightarrow> PersistedCommand \<Rightarrow> PersistedCommand" where
  "WithCommandMetadata m c = c\<lparr>pc_metadata := MsgMetadata_Clone m\<rparr>"

definition WithQueryReceivedAt :: "instant \<Rightarrow> PersistedQuery \<Rightarrow> PersistedQuery" where
  "WithQueryReceivedAt t q = q\<lparr>pq_receivedAt := t\<rparr>"

definition WithQueryID :: "ulid \<Rightarrow> PersistedQuery \<Rightarrow> PersistedQuery" where
  "WithQueryID requestID q = q\<lparr>pq_id := requestID\<rparr>"

definition WithQueryMetadata :: "MsgMetadata \<Rightarrow> PersistedQuery \<Rightarrow> PersistedQuery" where
  "WithQueryMetadata m q = q\<lparr>pq_metadata := MsgMetadata_Clone m\<rparr>"

section \<open>The command store\<close>

type_synonym MemoryCommandStore = "(PersistedCommand, ulid) LogStore"

definition command_config :: "(PersistedCommand, ulid) LogStoreConfig" where
  "command_config =
     \<lparr>cfg_GetID = pc_id, cfg_IsZeroID = (\<lambda>cmdID. cmdID = 0),
      cfg_ClosedErr = command_ErrStoreClosed,
      cfg_NewDupErr = Some (\<lambda>cmdID suffix.
        ErrWrap Conflict ''memory.duplicate_command'' ErrDuplicateCommand),
      cfg_NewNotFound = Some (\<lambda>op streamKey.
        ErrWrap Rejection ''memory.command_not_found'' ErrCommandNotFound),
      cfg_TrackStreams = True\<rparr>"

definition NewMemoryCommandStore :: MemoryCommandStore where
  "NewMemoryCommandStore = NewLogStore command_config"

definition CommandStore_Save ::
  "MemoryCommandStore \<Rightarrow> StreamRef \<Rightarrow> PersistedCommand \<Rightarrow> MemoryCommandStore \<times> go_error option" where
  "CommandStore_Save s ref cmd =
     WithWrite s ''memory.save_failed'' (\<lambda>s.
       case CheckDuplicateLocked s (pc_id cmd) [] of
         Some dupErr \<Rightarrow> (s, Some dupErr)
       | None \<Rightarrow> (AppendLocked s (StreamKey ref) [cmd], None))"

text \<open>The loop of \<open>AppendBatch\<close> over the batch, with the set of identifiers already seen.\<close>

fun AppendBatch_check ::
  "MemoryCommandStore \<Rightarrow> ulid list \<Rightarrow> PersistedCommand list \<Rightarrow> go_error option" where
  "AppendBatch_check s seen [] = None"
| "AppendBatch_check s seen (cmd # cmds) =
     (if pc_id cmd \<in> set seen
      then Some (ErrWrap Conflict ''memory.duplicate_command'' ErrDuplicateCommand)
      else case CheckDuplicateLocked s (pc_id cmd) '' in batch'' of
          Some dupErr \<Rightarrow> Some dupErr
        | None \<Rightarrow> AppendBatch_check s (pc_id cmd # seen) cmds)"

definition CommandStore_AppendBatch ::
  "MemoryCommandStore \<Rightarrow> StreamRef \<Rightarrow> PersistedCommand list \<Rightarrow>
   MemoryCommandStore \<times> go_error option" where
  "CommandStore_AppendBatch s ref cmds =
     WithWrite s ''memory.append_batch_failed'' (\<lambda>s.
       case AppendBatch_check s [] cmds of
         Some err \<Rightarrow> (s, Some err)
       | None \<Rightarrow> (AppendLocked s (StreamKey ref) cmds, None))"

definition CommandStore_loadFiltered ::
  "MemoryCommandStore \<Rightarrow> StreamRef \<Rightarrow> string \<Rightarrow> (PersistedCommand list \<Rightarrow> PersistedCommand list) option \<Rightarrow>
   PersistedCommand list outcome" where
  "CommandStore_loadFiltered s ref op flt =
     WithReadLock s ''memory.load_failed'' (\<lambda>s. LoadStreamLocked s op (StreamKey ref) flt)"

definition CommandStore_Load ::
  "MemoryCommandStore \<Rightarrow> StreamRef \<Rightarrow> PersistedCommand list outcome" where
  "CommandStore_Load s ref = CommandStore_loadFiltered s ref ''load'' None"

fun filterCommandsByTimestampAfter ::
  "PersistedCommand list \<Rightarrow> instant \<Rightarrow> PersistedCommand list" where
  "filterCommandsByTimestampAfter [] after = []"
| "filterCommandsByTimestampAfter (cmd # cmds) after =
     (if After (pc_receivedAt cmd) after then cmd # filterCommandsByTimestampAfter cmds after
      else filterCommandsByTimestampAfter cmds after)"

fun filterCommandsByTimestampTo ::
  "PersistedCommand list \<Rightarrow> instant \<Rightarrow> PersistedCommand list" where
  "filterCommandsByTimestampTo [] maxTime = []"
| "filterCommandsByTimestampTo (cmd # cmds) maxTime =
     (if \<not> After (pc_receivedAt cmd) maxTime then cmd # filterCommandsByTimestampTo cmds maxTime
      else filterCommandsByTimestampTo cmds maxTime)"

definition CommandStore_LoadFromTimestamp ::
  "MemoryCommandStore \<Rightarrow> StreamRef \<Rightarrow> instant \<Rightarrow> PersistedCommand list outcome" where
  "CommandStore_LoadFromTimestamp s ref after =
     CommandStore_loadFiltered s ref ''load from timestamp''
       (Some (\<lambda>cmds. filterCommandsByTimestampAfter cmds after))"

definition CommandStore_LoadToTimestamp ::
  "MemoryCommandStore \<Rightarrow> StreamRef \<Rightarrow> instant \<Rightarrow> PersistedCommand list outcome" where
  "CommandStore_LoadToTimestamp s ref maxTime =
     CommandStore_loadFiltered s ref ''load to timestamp''
       (Some (\<lambda>cmds. filterCommandsByTimestampTo cmds maxTime))"

definition CommandStore_ReadAll :: "MemoryCommandStore \<Rightarrow> PersistedCommand list outcome" where
  "CommandStore_ReadAll s = WithReadLock s ''memory.readall_failed'' (\<lambda>s. Ok (ReadAllLocked s))"

definition CommandStore_ReadFrom ::
  "MemoryCommandStore \<Rightarrow> ulid \<Rightarrow> int \<Rightarrow> PersistedCommand list outcome" where
  "CommandStore_ReadFrom s afterCommandID limit =
     WithReadLock s ''memory.readfrom_failed'' (\<lambda>s. Ok (ReadFromLocked s afterCommandID limit False))"

section \<open>The query store\<close>

type_synonym MemoryQueryStore = "(PersistedQuery, ulid) LogStore"

definition query_config :: "(PersistedQuery, ulid) LogStoreConfig" where
  "query_config =
     \<lparr>cfg_GetID = pq_id, cfg_IsZeroID = (\<lambda>requestID. requestID = 0),
      cfg_ClosedErr = query_ErrStoreClosed,
      cfg_NewDupErr = Some (\<lambda>requestID _. ErrWrap Conflict ''memory.duplicate_query'' ErrDuplicateQuery),
      cfg_NewNotFound = None, cfg_TrackStreams = False\<rparr>"

definition NewMemoryQueryStore :: MemoryQueryStore where
  "NewMemoryQueryStore = NewLogStore query_config"

definition QueryStore_SaveQuery ::
  "MemoryQueryStore \<Rightarrow> PersistedQuery \<Rightarrow> MemoryQueryStore \<times> go_error option" where
  "QueryStore_SaveQuery s q =
     WithWrite s ''memory.save_query_failed'' (\<lambda>s.
       case CheckDuplicateLocked s (pq_id q) [] of
         Some dupErr \<Rightarrow> (s, Some dupErr)
       | None \<Rightarrow> (AppendLocked s [] [q], None))"

definition QueryStore_LoadQueries :: "MemoryQueryStore \<Rightarrow> instant \<Rightarrow> PersistedQuery list outcome" where
  "QueryStore_LoadQueries s after =
     WithReadLock s ''memory.load_queries_failed''
       (\<lambda>s. Ok (FilterAllLocked s (\<lambda>q. After (pq_receivedAt q) after)))"

definition QueryStore_ReadAllQueries :: "MemoryQueryStore \<Rightarrow> PersistedQuery list outcome" where
  "QueryStore_ReadAllQueries s =
     WithReadLock s ''memory.readall_queries_failed'' (\<lambda>s. Ok (ReadAllLocked s))"

definition QueryStore_ReadQueriesFrom ::
  "MemoryQueryStore \<Rightarrow> ulid \<Rightarrow> int \<Rightarrow> PersistedQuery list outcome" where
  "QueryStore_ReadQueriesFrom s afterRequestID limit =
     WithReadLock s ''memory.readqueries_from_failed''
       (\<lambda>s. Ok (ReadFromLocked s afterRequestID limit False))"

section \<open>A log without duplicates\<close>

text \<open>
  The contract both stores share: writing an item under an identifier that is in the log fails
  and changes nothing, any other write to an open store appends. A history of writes then never
  holds an identifier twice.
\<close>

definition puts :: "('s \<Rightarrow> 'a \<Rightarrow> 's \<times> go_error option) \<Rightarrow> 'a list \<Rightarrow> 's \<Rightarrow> 's" where
  "puts put xs s = fold (\<lambda>x s. fst (put s x)) xs s"

text \<open>The items of a history in which the first item under each identifier counts.\<close>

fun first_by_id :: "('t \<Rightarrow> 'id) \<Rightarrow> 't list \<Rightarrow> 't list \<Rightarrow> 't list" where
  "first_by_id getID acc [] = acc"
| "first_by_id getID acc (x # xs) =
     first_by_id getID (if getID x \<in> getID ` set acc then acc else acc @ [x]) xs"

lemma first_by_id_distinct:
  "distinct (map getID acc) \<Longrightarrow> distinct (map getID (first_by_id getID acc xs))"
  by (induction getID acc xs rule: first_by_id.induct) auto

lemma first_by_id_covers: "getID ` set (first_by_id getID acc xs) = getID ` set (acc @ xs)"
  by (induction getID acc xs rule: first_by_id.induct) (auto simp: image_iff)

lemma first_by_id_length: "length (first_by_id getID acc xs) \<le> length acc + length xs"
  by (induction getID acc xs rule: first_by_id.induct) auto

locale unique_log =
  fixes inv :: "'s \<Rightarrow> bool"
    and is_open :: "'s \<Rightarrow> bool"
    and items :: "'s \<Rightarrow> 't list"
    and getID :: "'t \<Rightarrow> 'id"
    and item :: "'a \<Rightarrow> 't"
    and put :: "'s \<Rightarrow> 'a \<Rightarrow> 's \<times> go_error option"
    and dup :: go_error
  assumes put_fresh: "inv s \<Longrightarrow> is_open s \<Longrightarrow> getID (item x) \<notin> getID ` set (items s) \<Longrightarrow>
      \<exists>s'. put s x = (s', None) \<and> inv s' \<and> is_open s' \<and> items s' = items s @ [item x]"
    and put_dup: "inv s \<Longrightarrow> is_open s \<Longrightarrow> getID (item x) \<in> getID ` set (items s) \<Longrightarrow>
      \<exists>e. put s x = (s, Some e) \<and> errors_Is e dup"
    and put_closed: "inv s \<Longrightarrow> \<not> is_open s \<Longrightarrow>
      \<exists>e. put s x = (s, Some e) \<and> \<not> errors_Is e dup"
begin

lemma puts_items:
  assumes "inv s" and "is_open s"
  shows "items (puts put xs s) = first_by_id getID (items s) (map item xs)"
  using assms
proof (induction xs arbitrary: s)
  case (Cons x xs)
  show ?case
  proof (cases "getID (item x) \<in> getID ` set (items s)")
    case True
    with put_dup [OF Cons.prems] obtain e where "put s x = (s, Some e)" by blast
    with Cons True show ?thesis by (simp add: puts_def)
  next
    case False
    with put_fresh [OF Cons.prems] obtain s' where "put s x = (s', None)" "inv s'" "is_open s'"
      "items s' = items s @ [item x]" by blast
    with Cons.IH [of s'] False show ?thesis by (simp add: puts_def)
  qed
qed (simp add: puts_def)

lemma put_inv_open:
  assumes "inv s" and "is_open s"
  shows "inv (fst (put s x)) \<and> is_open (fst (put s x))"
  using put_fresh [OF assms, of x] put_dup [OF assms, of x] assms
  by (cases "getID (item x) \<in> getID ` set (items s)") force+

lemma puts_inv_open:
  assumes "inv s" and "is_open s"
  shows "inv (puts put xs s) \<and> is_open (puts put xs s)"
  unfolding puts_def using assms by (induction xs arbitrary: s) (simp_all add: put_inv_open)

lemma put_result:
  assumes "inv s"
  shows "snd (put s x) = None \<longleftrightarrow> is_open s \<and> getID (item x) \<notin> getID ` set (items s)"
    and "snd (put s x) = Some e \<Longrightarrow> fst (put s x) = s \<and> (errors_Is e dup \<longleftrightarrow> is_open s)"
  using put_fresh [OF assms, of x] put_dup [OF assms, of x] put_closed [OF assms, of x]
  by (cases "is_open s"; cases "getID (item x) \<in> getID ` set (items s)"; force)+

end

definition cs_inv :: "('t, ulid) LogStoreConfig \<Rightarrow> ('t, ulid) LogStore \<Rightarrow> bool" where
  "cs_inv cfg s \<longleftrightarrow> ls_cfg s = cfg \<and> (\<exists>es. log_repr es s)"

definition cs_open :: "('t, 'id) LogStore \<Rightarrow> bool" where
  "cs_open s \<longleftrightarrow> \<not> lc_closed (ls_Lifecycle s)"

lemma command_config_simps [simp]:
  "cfg_GetID command_config = pc_id" "cfg_IsZeroID command_config = (\<lambda>i. i = 0)"
  "cfg_ClosedErr command_config = command_ErrStoreClosed" "cfg_TrackStreams command_config"
  "cfg_NewDupErr command_config =
     Some (\<lambda>_ _. ErrWrap Conflict ''memory.duplicate_command'' ErrDuplicateCommand)"
  "cfg_NewNotFound command_config =
     Some (\<lambda>_ _. ErrWrap Rejection ''memory.command_not_found'' ErrCommandNotFound)"
  by (simp_all add: command_config_def)

lemma query_config_simps [simp]:
  "cfg_GetID query_config = pq_id" "cfg_IsZeroID query_config = (\<lambda>i. i = 0)"
  "cfg_ClosedErr query_config = query_ErrStoreClosed" "\<not> cfg_TrackStreams query_config"
  "cfg_NewDupErr query_config =
     Some (\<lambda>_ _. ErrWrap Conflict ''memory.duplicate_query'' ErrDuplicateQuery)"
  by (simp_all add: query_config_def)

lemma cs_inv_New: "cs_inv cfg (NewLogStore cfg)"
  using log_repr_New [of cfg] by (auto simp: cs_inv_def) (simp add: NewLogStore_def)

lemma cs_inv_append: "cs_inv cfg s \<Longrightarrow> cs_inv cfg (AppendLocked s k xs)"
  using log_repr_append unfolding cs_inv_def by fastforce

lemma AppendLocked_log [simp]: "ls_log (AppendLocked s k xs) = ls_log s @ xs"
  by (induction s k xs rule: AppendLocked.induct) (simp_all add: Let_def)

lemma cs_open_append [simp]: "cs_open (AppendLocked s k xs) = cs_open s"
  by (simp add: cs_open_def)

lemma CheckDuplicate_cs:
  assumes "cs_inv cfg s" and "cfg_NewDupErr cfg = Some mk"
  shows "CheckDuplicateLocked s i suffix =
           (if i \<in> cfg_GetID cfg ` set (ls_log s) then Some (mk i suffix) else None)"
proof -
  from assms obtain es where es: "log_repr es s" and cfg: "ls_cfg s = cfg" by (auto simp: cs_inv_def)
  then have "snd ` set es = set (ls_log s)" by (simp add: log_repr_def)
  then show ?thesis
    using CheckDuplicateLocked_repr [OF es, of mk i suffix] cfg assms(2) by simp
qed

lemma dup_err_distinct [simp]:
  "\<not> errors_Is command_ErrStoreClosed ErrDuplicateCommand"
  "\<not> errors_Is query_ErrStoreClosed ErrDuplicateQuery"
  by (simp_all add: command_ErrStoreClosed_def ErrDuplicateCommand_def query_ErrStoreClosed_def
      ErrDuplicateQuery_def)

lemma CommandStore_Save_cases:
  assumes "cs_inv command_config s"
  shows "CommandStore_Save s r c =
    (if \<not> cs_open s then (s, Some (ErrWrap Infrastructure ''memory.save_failed'' command_ErrStoreClosed))
     else if pc_id c \<in> pc_id ` set (ls_log s)
     then (s, Some (ErrWrap Conflict ''memory.duplicate_command'' ErrDuplicateCommand))
     else (AppendLocked s (StreamKey r) [c], None))"
  using CheckDuplicate_cs [OF assms command_config_simps(5)] assms
  by (simp add: CommandStore_Save_def log_op_defs Lifecycle_CheckClosed_def cs_open_def cs_inv_def
      del: AppendLocked.simps)

lemma QueryStore_SaveQuery_cases:
  assumes "cs_inv query_config s"
  shows "QueryStore_SaveQuery s q =
    (if \<not> cs_open s then (s, Some (ErrWrap Infrastructure ''memory.save_query_failed'' query_ErrStoreClosed))
     else if pq_id q \<in> pq_id ` set (ls_log s)
     then (s, Some (ErrWrap Conflict ''memory.duplicate_query'' ErrDuplicateQuery))
     else (AppendLocked s [] [q], None))"
  using CheckDuplicate_cs [OF assms query_config_simps(5)] assms
  by (simp add: QueryStore_SaveQuery_def log_op_defs Lifecycle_CheckClosed_def cs_open_def cs_inv_def
      del: AppendLocked.simps)

interpretation cmds: unique_log "cs_inv command_config" cs_open ls_log pc_id snd
  "\<lambda>s rc. CommandStore_Save s (fst rc) (snd rc)" ErrDuplicateCommand
  by unfold_locales
    (auto simp: CommandStore_Save_cases cs_inv_append ErrDuplicateCommand_def
      command_ErrStoreClosed_def simp del: AppendLocked.simps)

interpretation queries: unique_log "cs_inv query_config" cs_open ls_log pq_id id
  QueryStore_SaveQuery ErrDuplicateQuery
  by unfold_locales
    (auto simp: QueryStore_SaveQuery_cases cs_inv_append ErrDuplicateQuery_def
      query_ErrStoreClosed_def simp del: AppendLocked.simps)

text \<open>Position-based reading of both journals.\<close>

lemma cs_read_zero:
  "cs_inv cfg s \<Longrightarrow> cfg_IsZeroID cfg i \<Longrightarrow> ReadFromLocked s i limit b = page limit (ls_log s)"
  by (auto simp: cs_inv_def ReadFromLocked_repr) (simp add: log_repr_def)

lemma cs_read_after:
  assumes "cs_inv cfg s" and "distinct (map (cfg_GetID cfg) (ls_log s))"
    and "\<not> cfg_IsZeroID cfg (cfg_GetID cfg x)" and "ls_log s = pre @ x # post"
  shows "ReadFromLocked s (cfg_GetID cfg x) limit b = page limit post"
  using assms ReadFromLocked_after [of _ s x pre post limit b] by (auto simp: cs_inv_def)

interpretation cmd_journal: seekable_log "cs_inv command_config" ls_log
  "\<lambda>s i limit. ReadFromLocked s i limit False" pc_id 0
proof (unfold_locales, goal_cases)
  case (1 s limit)
  then show ?case by (simp add: cs_read_zero)
next
  case (2 s pre x post limit)
  then have "pc_id x \<noteq> 0" by auto
  with 2 cs_read_after [of command_config s x pre post limit False] show ?case by simp
qed

interpretation query_journal: seekable_log "cs_inv query_config" ls_log
  "\<lambda>s i limit. ReadFromLocked s i limit False" pq_id 0
proof (unfold_locales, goal_cases)
  case (1 s limit)
  then show ?case by (simp add: cs_read_zero)
next
  case (2 s pre x post limit)
  then have "pq_id x \<noteq> 0" by auto
  with 2 cs_read_after [of query_config s x pre post limit False] show ?case by simp
qed

lemma AppendBatch_check_None:
  assumes "cs_inv command_config s"
  shows "AppendBatch_check s seen cmds = None \<longleftrightarrow>
    distinct (map pc_id cmds) \<and> pc_id ` set cmds \<inter> (set seen \<union> pc_id ` set (ls_log s)) = {}"
proof (induction cmds arbitrary: seen)
  case (Cons c cmds)
  then show ?case
    using CheckDuplicate_cs [OF assms command_config_simps(5), of "pc_id c" "'' in batch''"]
    by auto
qed simp

lemma AppendBatch_check_Some:
  assumes "cs_inv command_config s" and "AppendBatch_check s seen cmds = Some e"
  shows "errors_Is e ErrDuplicateCommand"
  using assms(2)
proof (induction cmds arbitrary: seen)
  case (Cons c cmds)
  then show ?case
    using CheckDuplicate_cs [OF assms(1) command_config_simps(5), of "pc_id c" "'' in batch''"]
    by (auto split: if_splits)
qed simp

section \<open>Properties\<close>

lemma cs_open_New: "cs_open (NewLogStore cfg)" "ls_log (NewLogStore cfg) = []"
  by (simp_all add: cs_open_def NewLogStore_def)

lemma CommandStore_reads_open:
  assumes "cs_open s"
  shows "CommandStore_ReadAll s = Ok (ls_log s)"
    and "CommandStore_ReadFrom s i limit = Ok (ReadFromLocked s i limit False)"
  using assms
  by (simp_all add: CommandStore_ReadAll_def CommandStore_ReadFrom_def log_op_defs cs_open_def
      Lifecycle_CheckClosed_def ReadAllLocked_def)

lemma QueryStore_reads_open:
  assumes "cs_open s"
  shows "QueryStore_ReadAllQueries s = Ok (ls_log s)"
    and "QueryStore_ReadQueriesFrom s i limit = Ok (ReadFromLocked s i limit False)"
  using assms
  by (simp_all add: QueryStore_ReadAllQueries_def QueryStore_ReadQueriesFrom_def log_op_defs
      cs_open_def Lifecycle_CheckClosed_def ReadAllLocked_def)

text \<open>
  After any history of single saves, the command journal holds for each command identifier
  exactly the first command saved under it, in the order of the saves, and reading it page by
  page with positive page size visits exactly these commands, when no identifier is zero.
\<close>

theorem command_store_history:
  fixes rcs :: "(StreamRef \<times> PersistedCommand) list"
  defines "s \<equiv> puts (\<lambda>s rc. CommandStore_Save s (fst rc) (snd rc)) rcs NewMemoryCommandStore"
    and "firsts \<equiv> first_by_id pc_id [] (map snd rcs)"
  assumes "0 \<notin> pc_id ` snd ` set rcs" and "0 < limit" and "length rcs < fuel"
  shows "CommandStore_ReadAll s = Ok firsts \<and> distinct (map pc_id firsts) \<and>
         pc_id ` set firsts = pc_id ` snd ` set rcs \<and>
         catch_up fuel (\<lambda>i l. case CommandStore_ReadFrom s i l of Ok cs \<Rightarrow> cs | _ \<Rightarrow> []) pc_id limit 0 =
           Some firsts"
proof -
  have log: "ls_log s = firsts" and inv: "cs_inv command_config s" and opn: "cs_open s"
    using cmds.puts_items [OF cs_inv_New cs_open_New(1), of rcs]
      cmds.puts_inv_open [OF cs_inv_New cs_open_New(1), of rcs]
    by (simp_all add: s_def firsts_def NewMemoryCommandStore_def cs_open_New)
  have dist: "distinct (map pc_id firsts)" and ids: "pc_id ` set firsts = pc_id ` snd ` set rcs"
    by (simp_all add: firsts_def first_by_id_distinct first_by_id_covers)
  have "length firsts \<le> length rcs"
    unfolding firsts_def using first_by_id_length [of pc_id "[]" "map snd rcs"] by simp
  with cmd_journal.catch_up_whole_log [OF inv, of limit fuel] assms(3-5) log dist ids
  show ?thesis
    by (simp add: CommandStore_reads_open [OF opn])
qed

definition witness_command :: "nat \<Rightarrow> PersistedCommand" where
  "witness_command i = \<lparr>pc_id = of_nat i, pc_cmdType = ''c'',
     pc_streamRef = \<lparr>sr_Type = ''order'', sr_ID = ''7''\<rparr>, pc_receivedAt = int i, pc_payload = [],
     pc_metadata = zeroMsgMetadata\<rparr>"

theorem command_store_history_witness:
  "CommandStore_ReadAll (puts (\<lambda>s rc. CommandStore_Save s (fst rc) (snd rc))
     [(\<lparr>sr_Type = ''order'', sr_ID = ''7''\<rparr>, witness_command 1),
      (\<lparr>sr_Type = ''order'', sr_ID = ''8''\<rparr>, witness_command 2),
      (\<lparr>sr_Type = ''order'', sr_ID = ''8''\<rparr>, witness_command 1)] NewMemoryCommandStore) =
   Ok [witness_command 1, witness_command 2]"
  using command_store_history [of "[(\<lparr>sr_Type = ''order'', sr_ID = ''7''\<rparr>, witness_command 1),
      (\<lparr>sr_Type = ''order'', sr_ID = ''8''\<rparr>, witness_command 2),
      (\<lparr>sr_Type = ''order'', sr_ID = ''8''\<rparr>, witness_command 1)]" 1 4]
  by (simp add: witness_command_def)

text \<open>The commands a store gives back for a stream.\<close>

definition command_stream :: "MemoryCommandStore \<Rightarrow> StreamRef \<Rightarrow> PersistedCommand list" where
  "command_stream s r = (case CommandStore_Load s r of Ok cmds \<Rightarrow> cmds | _ \<Rightarrow> [])"

lemma command_stream_repr:
  assumes "cs_inv command_config s" and "cs_open s" and "log_repr es s"
  shows "command_stream s r = stream_of es (StreamKey r)"
proof -
  have "ls_cfg s = command_config"
    using assms(1) by (simp add: cs_inv_def)
  then have "CommandStore_Load s r = LoadStreamLocked s ''load'' (StreamKey r) None"
    using assms(2) by (simp add: CommandStore_Load_def CommandStore_loadFiltered_def log_op_defs
        Lifecycle_CheckClosed_def cs_open_def)
  with LoadStreamLocked_repr [OF assms(3)] \<open>ls_cfg s = command_config\<close> show ?thesis
    by (simp add: command_stream_def command_config_def)
qed

lemma command_stream_append:
  assumes "cs_inv command_config s" and "cs_open s"
  shows "command_stream (AppendLocked s (StreamKey r) cmds) r' =
    command_stream s r' @ (if StreamKey r' = StreamKey r then cmds else [])"
proof -
  obtain es where "log_repr es s"
    using assms(1) by (auto simp: cs_inv_def)
  then show ?thesis
    using command_stream_repr [OF assms] assms(2)
      command_stream_repr [OF cs_inv_append [OF assms(1)] _ log_repr_append] by simp
qed

text \<open>
  C16. A batch of commands is all or nothing: \<open>AppendBatch\<close> succeeds exactly when the store is
  open, no identifier occurs twice in the batch and none is already stored. Then the journal is
  the old one followed by the batch, the stream of the batch has grown by it and every other
  stream is as before; otherwise the store is unchanged and the error is the duplicate conflict, or on a
  closed store that it is closed.
\<close>

theorem command_batch_atomic:
  assumes "cs_inv command_config s"
  shows "(snd (CommandStore_AppendBatch s r cmds) = None \<longleftrightarrow>
      cs_open s \<and> distinct (map pc_id cmds) \<and> pc_id ` set cmds \<inter> pc_id ` set (ls_log s) = {}) \<and>
    (snd (CommandStore_AppendBatch s r cmds) = None \<longrightarrow>
      cs_inv command_config (fst (CommandStore_AppendBatch s r cmds)) \<and>
      CommandStore_ReadAll (fst (CommandStore_AppendBatch s r cmds)) = Ok (ls_log s @ cmds) \<and>
      (\<forall>r'. command_stream (fst (CommandStore_AppendBatch s r cmds)) r' =
        command_stream s r' @ (if StreamKey r' = StreamKey r then cmds else []))) \<and>
    (\<forall>e. snd (CommandStore_AppendBatch s r cmds) = Some e \<longrightarrow>
      fst (CommandStore_AppendBatch s r cmds) = s \<and>
      errors_Is e (if cs_open s then ErrDuplicateCommand else command_ErrStoreClosed))"
proof (cases "cs_open s")
  case True
  then have body: "CommandStore_AppendBatch s r cmds =
      (case AppendBatch_check s [] cmds of Some err \<Rightarrow> (s, Some err)
       | None \<Rightarrow> (AppendLocked s (StreamKey r) cmds, None))"
    by (simp add: CommandStore_AppendBatch_def log_op_defs Lifecycle_CheckClosed_def cs_open_def)
  show ?thesis
  proof (cases "AppendBatch_check s [] cmds")
    case None
    then have "distinct (map pc_id cmds) \<and> pc_id ` set cmds \<inter> pc_id ` set (ls_log s) = {}"
      using AppendBatch_check_None [OF assms, of "[]" cmds] by auto
    with body None True show ?thesis
      by (simp add: cs_inv_append [OF assms] command_stream_append [OF assms True] CommandStore_reads_open)
  next
    case (Some e)
    then have "\<not> (distinct (map pc_id cmds) \<and> pc_id ` set cmds \<inter> pc_id ` set (ls_log s) = {})"
      using AppendBatch_check_None [OF assms, of "[]" cmds] by auto
    with body Some True AppendBatch_check_Some [OF assms Some] show ?thesis by auto
  qed
next
  case False
  then show ?thesis
    using assms by (simp add: CommandStore_AppendBatch_def log_op_defs Lifecycle_CheckClosed_def
        cs_open_def cs_inv_def)
qed

theorem command_batch_atomic_witness:
  "\<exists>s. CommandStore_AppendBatch NewMemoryCommandStore \<lparr>sr_Type = ''order'', sr_ID = ''7''\<rparr>
        [witness_command 1, witness_command 2] = (s, None) \<and>
      CommandStore_ReadAll s = Ok [witness_command 1, witness_command 2] \<and>
      (\<exists>e. CommandStore_AppendBatch s \<lparr>sr_Type = ''order'', sr_ID = ''8''\<rparr>
         [witness_command 3, witness_command 1] = (s, Some e) \<and> errors_Is e ErrDuplicateCommand)"
proof -
  let ?r = "\<lparr>sr_Type = ''order'', sr_ID = ''7''\<rparr>" and ?b = "[witness_command 1, witness_command 2]"
  define s where "s = fst (CommandStore_AppendBatch NewMemoryCommandStore ?r ?b)"
  have new: "cs_inv command_config NewMemoryCommandStore" "cs_open NewMemoryCommandStore" "ls_log NewMemoryCommandStore = []"
    unfolding NewMemoryCommandStore_def by (rule cs_inv_New cs_open_New)+
  have ok: "snd (CommandStore_AppendBatch NewMemoryCommandStore ?r ?b) = None"
    using command_batch_atomic [OF new(1), of ?r ?b] new by (simp add: witness_command_def)
  then have s: "cs_inv command_config s" "CommandStore_ReadAll s = Ok ?b"
    using command_batch_atomic [OF new(1), of ?r ?b] new by (simp_all add: s_def)
  have "cs_open s"
    using s(2) by (rule contrapos_pp)
      (simp add: CommandStore_ReadAll_def log_op_defs Lifecycle_CheckClosed_def cs_open_def)
  with s(2) have "ls_log s = ?b"
    by (simp add: CommandStore_reads_open)
  then have "snd (CommandStore_AppendBatch s \<lparr>sr_Type = ''order'', sr_ID = ''8''\<rparr>
      [witness_command 3, witness_command 1]) \<noteq> None"
    using command_batch_atomic [OF s(1), of "\<lparr>sr_Type = ''order'', sr_ID = ''8''\<rparr>"
        "[witness_command 3, witness_command 1]"] by simp
  then obtain e where "snd (CommandStore_AppendBatch s \<lparr>sr_Type = ''order'', sr_ID = ''8''\<rparr>
      [witness_command 3, witness_command 1]) = Some e"
    by (cases "snd (CommandStore_AppendBatch s \<lparr>sr_Type = ''order'', sr_ID = ''8''\<rparr>
      [witness_command 3, witness_command 1])") auto
  then have "CommandStore_AppendBatch s \<lparr>sr_Type = ''order'', sr_ID = ''8''\<rparr>
      [witness_command 3, witness_command 1] = (s, Some e) \<and> errors_Is e ErrDuplicateCommand"
    using command_batch_atomic [OF s(1), of "\<lparr>sr_Type = ''order'', sr_ID = ''8''\<rparr>"
        "[witness_command 3, witness_command 1]"] \<open>cs_open s\<close> by (simp add: prod_eq_iff)
  moreover have "CommandStore_AppendBatch NewMemoryCommandStore ?r ?b = (s, None)"
    using ok by (simp add: s_def prod_eq_iff)
  ultimately show ?thesis
    using s(2) by blast
qed

text \<open>
  The query journal after any history of saves holds the first query under each request
  identifier, in order; reading by time keeps exactly the queries received later; a query under
  a stored identifier is refused with the duplicate conflict and the journal is unchanged.
\<close>

theorem query_store_history:
  fixes qs :: "PersistedQuery list"
  defines "s \<equiv> puts QueryStore_SaveQuery qs NewMemoryQueryStore"
    and "firsts \<equiv> first_by_id pq_id [] qs"
  shows "QueryStore_ReadAllQueries s = Ok firsts \<and>
         QueryStore_LoadQueries s t = Ok (filter (\<lambda>q. t < pq_receivedAt q) firsts) \<and>
         distinct (map pq_id firsts) \<and>
         (snd (QueryStore_SaveQuery s q) = None \<longleftrightarrow> pq_id q \<notin> pq_id ` set qs) \<and>
         (\<forall>e. snd (QueryStore_SaveQuery s q) = Some e \<longrightarrow>
            fst (QueryStore_SaveQuery s q) = s \<and> errors_Is e ErrDuplicateQuery)"
proof -
  have log: "ls_log s = firsts" and inv: "cs_inv query_config s" and opn: "cs_open s"
    using queries.puts_items [OF cs_inv_New cs_open_New(1), of qs]
      queries.puts_inv_open [OF cs_inv_New cs_open_New(1), of qs]
    by (simp_all add: s_def firsts_def NewMemoryQueryStore_def cs_open_New)
  have dist: "distinct (map pq_id firsts)" and ids: "pq_id ` set firsts = pq_id ` set qs"
    by (simp_all add: firsts_def first_by_id_distinct first_by_id_covers)
  obtain es where "log_repr es s" using inv by (auto simp: cs_inv_def)
  then have "QueryStore_LoadQueries s t = Ok (filter (\<lambda>q. t < pq_receivedAt q) firsts)"
    using opn log
    by (simp add: QueryStore_LoadQueries_def log_op_defs Lifecycle_CheckClosed_def cs_open_def
        FilterAllLocked_repr After_def) (simp add: log_repr_def)
  then show ?thesis
    using queries.put_result [OF inv, of q] log dist ids opn
    by (simp add: QueryStore_reads_open [OF opn])
qed

theorem query_store_history_witness:
  "QueryStore_ReadAllQueries (puts QueryStore_SaveQuery [] NewMemoryQueryStore) = Ok []"
  using query_store_history [of "[]" 0 "\<lparr>pq_id = 1, pq_queryType = [], pq_receivedAt = 0,
      pq_payload = [], pq_metadata = zeroMsgMetadata\<rparr>"] by simp

end
