(* ===== verification/Snapshots.thy ===== *)
theory Snapshots
  imports LogStore Ids Versions
begin

text \<open>
  Snapshots (\<open>src/snapshot\<close>) and the in-memory snapshot and checkpoint stores of
  \<open>src/storage/memory\<close>: construction and validation, the snapshot strategies (every n events and
  read pressure with its LRU bound), the memory store, and the two decorators \<open>TransformedStore\<close>
  and \<open>TypedStore\<close>, which work over any snapshot store, given as a record of its operations. The
  transforms and the state codec are code of other modules and are parameters.
\<close>

section \<open>Snapshots\<close>

text \<open>\<open>record.Encoding\<close>: the compact stamp of the codec the state was written with.\<close>

datatype record_Encoding = RecordUnknown | RecordJSON | RecordCBOR

definition ErrUnknownEncoding :: go_error where
  "ErrUnknownEncoding = ErrExt ''record: unknown encoding''"

definition ParseEncoding :: "string \<Rightarrow> record_Encoding outcome" where
  "ParseEncoding name =
     (if name = ''json'' then Ok RecordJSON
      else if name = ''cbor'' then Ok RecordCBOR
      else Fail (ErrFmt [ErrUnknownEncoding]))"

record Snapshot =
  sn_StreamID :: StreamID
  sn_StreamType :: StreamType
  sn_Version :: Version
  sn_State :: "byte list"
  sn_Encoding :: record_Encoding
  sn_CreatedAt :: instant
  sn_StateShape :: string

definition ErrInvalidSnapshot :: go_error where
  "ErrInvalidSnapshot = ErrNew Rejection ''snapshot.invalid''"

definition ErrSnapshotNotFound :: go_error where
  "ErrSnapshotNotFound = ErrNew Rejection ''snapshot.not_found''"

definition ErrSnapshotStoreClosed :: go_error where
  "ErrSnapshotStoreClosed = ErrNew Infrastructure ''snapshot.store_closed''"

definition ErrInvalidInterval :: go_error where
  "ErrInvalidInterval = ErrNew Rejection ''snapshot.invalid_interval''"

definition ErrInvalidThreshold :: go_error where
  "ErrInvalidThreshold = ErrNew Rejection ''snapshot.invalid_threshold''"

definition Snapshot_Ref :: "Snapshot \<Rightarrow> StreamRef" where
  "Snapshot_Ref s = NewStreamRef (sn_StreamType s) (sn_StreamID s)"

definition Snapshot_Validate :: "Snapshot \<Rightarrow> go_error option" where
  "Snapshot_Validate s =
     (case StreamRef_Validate (Snapshot_Ref s) of
        Some err \<Rightarrow> Some (ErrWrap Rejection ''snapshot.invalid_ref'' err)
      | None \<Rightarrow>
          if sn_Version s < 1 then
            Some (ErrWrap Rejection ''snapshot.zero_version'' ErrInvalidSnapshot)
          else if length (sn_State s) = 0 then
            Some (ErrWrap Rejection ''snapshot.nil_state'' ErrInvalidSnapshot)
          else None)"

definition NewSnapshot ::
  "instant \<Rightarrow> StreamRef \<Rightarrow> Version \<Rightarrow> byte list \<Rightarrow> record_Encoding \<Rightarrow> Snapshot outcome" where
  "NewSnapshot now ref version state encoding =
     (case StreamRef_Validate ref of
        Some err \<Rightarrow> Fail (ErrWrap Rejection ''snapshot.invalid_ref'' err)
      | None \<Rightarrow>
          (let snap = \<lparr>sn_StreamID = sr_ID ref, sn_StreamType = sr_Type ref, sn_Version = version,
                       sn_State = state, sn_Encoding = encoding, sn_CreatedAt = now,
                       sn_StateShape = []\<rparr>
           in case Snapshot_Validate snap of Some err \<Rightarrow> Fail err | None \<Rightarrow> Ok snap))"

section \<open>Strategies\<close>

type_synonym strategy_fn = "StreamType \<Rightarrow> Version \<Rightarrow> bool outcome"

definition everyN_ShouldSnapshot :: "int \<Rightarrow> strategy_fn" where
  "everyN_ShouldSnapshot interval streamType version =
     (if Version_IsPositive version then obind (Version_Mod version interval) (\<lambda>m. Ok (m = 0))
      else Ok False)"

definition EveryNEvents :: "int \<Rightarrow> strategy_fn outcome" where
  "EveryNEvents n = (if n \<le> 0 then Fail ErrInvalidInterval else Ok (everyN_ShouldSnapshot n))"

text \<open>
  The least-recently-read list holds the keys, front first; \<open>rp_lruElems\<close> is the set of keys
  that have an element in it.
\<close>

record ReadPressure =
  rp_threshold :: int
  rp_inner :: "strategy_fn option"
  rp_reads :: "string \<rightharpoonup> int"
  rp_capacity :: int
  rp_lru :: "string list"
  rp_lruElems :: "string set"

definition NewReadPressure ::
  "int \<Rightarrow> (ReadPressure \<Rightarrow> ReadPressure) list \<Rightarrow> ReadPressure outcome" where
  "NewReadPressure threshold opts =
     (if threshold \<le> 0 then Fail ErrInvalidThreshold
      else Ok (fold (\<lambda>opt rp. opt rp) opts
             \<lparr>rp_threshold = threshold, rp_inner = None, rp_reads = Map.empty, rp_capacity = 0,
              rp_lru = [], rp_lruElems = {}\<rparr>))"

definition WithInnerStrategy :: "strategy_fn \<Rightarrow> ReadPressure \<Rightarrow> ReadPressure" where
  "WithInnerStrategy inner rp = rp\<lparr>rp_inner := Some inner\<rparr>"

definition WithReadTrackingLimit :: "int \<Rightarrow> ReadPressure \<Rightarrow> ReadPressure" where
  "WithReadTrackingLimit limit rp = rp\<lparr>rp_capacity := limit\<rparr>"

definition rp_count :: "ReadPressure \<Rightarrow> string \<Rightarrow> int" where
  "rp_count rp key = (case rp_reads rp key of None \<Rightarrow> 0 | Some n \<Rightarrow> n)"

definition rp_reset :: "ReadPressure \<Rightarrow> string \<Rightarrow> ReadPressure" where
  "rp_reset rp key =
     (let rp1 = rp\<lparr>rp_reads := (rp_reads rp)(key := None)\<rparr> in
      if key \<in> rp_lruElems rp1
      then rp1\<lparr>rp_lru := remove1 key (rp_lru rp1), rp_lruElems := rp_lruElems rp1 - {key}\<rparr>
      else rp1)"

definition evictOldest :: "ReadPressure \<Rightarrow> ReadPressure" where
  "evictOldest rp =
     (case rp_lru rp of
        [] \<Rightarrow> rp
      | key # rest \<Rightarrow>
          rp\<lparr>rp_lru := rest, rp_reads := (rp_reads rp)(key := None),
             rp_lruElems := rp_lruElems rp - {key}\<rparr>)"

definition RecordRead :: "(StreamID \<Rightarrow> string) \<Rightarrow> ReadPressure \<Rightarrow> StreamRef \<Rightarrow> ReadPressure" where
  "RecordRead disp rp ref =
     (let key = StreamRef_String disp ref;
          rp1 = (if key \<in> rp_lruElems rp
                 then rp\<lparr>rp_lru := remove1 key (rp_lru rp) @ [key]\<rparr>
                 else let rp0 = (if rp_capacity rp > 0 \<and> int (card (dom (rp_reads rp))) \<ge> rp_capacity rp
                                 then evictOldest rp else rp)
                      in rp0\<lparr>rp_lru := rp_lru rp0 @ [key], rp_lruElems := insert key (rp_lruElems rp0)\<rparr>)
      in rp1\<lparr>rp_reads := (rp_reads rp1)(key \<mapsto> rp_count rp1 key + 1)\<rparr>)"

definition ReadCount :: "(StreamID \<Rightarrow> string) \<Rightarrow> ReadPressure \<Rightarrow> StreamRef \<Rightarrow> int" where
  "ReadCount disp rp ref = rp_count rp (StreamRef_String disp ref)"

definition rp_ShouldSnapshot :: "ReadPressure \<Rightarrow> strategy_fn" where
  "rp_ShouldSnapshot rp streamType version =
     (case rp_inner rp of None \<Rightarrow> Ok False | Some inner \<Rightarrow> inner streamType version)"

definition rp_ShouldSnapshotFor ::
  "(StreamID \<Rightarrow> string) \<Rightarrow> ReadPressure \<Rightarrow> StreamRef \<Rightarrow> Version \<Rightarrow> ReadPressure \<times> bool outcome" where
  "rp_ShouldSnapshotFor disp rp ref version =
     (let key = StreamRef_String disp ref;
          pressure = (if rp_count rp key \<ge> rp_threshold rp then (rp_reset rp key, Ok True)
                      else (rp, Ok False))
      in case rp_inner rp of
           None \<Rightarrow> pressure
         | Some inner \<Rightarrow>
             (case inner (sr_Type ref) version of
                Ok True \<Rightarrow> (rp_reset rp key, Ok True)
              | Ok False \<Rightarrow> pressure
              | Fail e \<Rightarrow> (rp, Fail e)
              | Panic \<Rightarrow> (rp, Panic)))"

text \<open>
  A strategy is one that decides by stream type and version alone, or the read-pressure strategy,
  which implements \<open>AggregateAwareStrategy\<close> and \<open>ReadTracker\<close>.
\<close>

datatype SnapshotStrategy = PlainStrategy strategy_fn | ReadPressureStrategy ReadPressure

definition ShouldSnapshotFor ::
  "(StreamID \<Rightarrow> string) \<Rightarrow> SnapshotStrategy option \<Rightarrow> bool \<Rightarrow> bool \<Rightarrow> StreamRef \<Rightarrow> Version \<Rightarrow>
   SnapshotStrategy option \<times> bool outcome" where
  "ShouldSnapshotFor disp strategy hasSink hasCodec ref version =
     (if strategy = None \<or> \<not> hasSink \<or> \<not> hasCodec then (strategy, Ok False)
      else case strategy of
          Some (ReadPressureStrategy rp) \<Rightarrow>
            (case rp_ShouldSnapshotFor disp rp ref version of
               (rp', r) \<Rightarrow> (Some (ReadPressureStrategy rp'), r))
        | Some (PlainStrategy f) \<Rightarrow> (strategy, f (sr_Type ref) version)
        | None \<Rightarrow> (strategy, Ok False))"

section \<open>The memory snapshot store\<close>

record MemorySnapshotStore =
  mss_Lifecycle :: Lifecycle
  mss_snapshots :: "string \<rightharpoonup> Snapshot"

definition NewMemorySnapshotStore :: MemorySnapshotStore where
  "NewMemorySnapshotStore = \<lparr>mss_Lifecycle = \<lparr>lc_closed = False\<rparr>, mss_snapshots = Map.empty\<rparr>"

definition mss_withWriteLock ::
  "MemorySnapshotStore \<Rightarrow> string \<Rightarrow> (MemorySnapshotStore \<Rightarrow> MemorySnapshotStore \<times> go_error option) \<Rightarrow>
   MemorySnapshotStore \<times> go_error option" where
  "mss_withWriteLock s code fn =
     (case wrapClosed (Lifecycle_CheckClosed (mss_Lifecycle s) ErrSnapshotStoreClosed) code of
        Some err \<Rightarrow> (s, Some err)
      | None \<Rightarrow> fn s)"

definition withSnapshotReadLock ::
  "MemorySnapshotStore \<Rightarrow> string \<Rightarrow> (MemorySnapshotStore \<Rightarrow> 'r outcome) \<Rightarrow> 'r outcome" where
  "withSnapshotReadLock s code fn =
     (case wrapClosed (Lifecycle_CheckClosed (mss_Lifecycle s) ErrSnapshotStoreClosed) code of
        Some err \<Rightarrow> Fail err
      | None \<Rightarrow> fn s)"

definition copySnapshot :: "Snapshot \<Rightarrow> Snapshot" where
  "copySnapshot snap = snap"

definition mss_Save :: "MemorySnapshotStore \<Rightarrow> Snapshot \<Rightarrow> MemorySnapshotStore \<times> go_error option" where
  "mss_Save s snap =
     mss_withWriteLock s ''memory.snapshot_save_failed'' (\<lambda>s.
       let key = StreamKey (NewStreamRef (sn_StreamType snap) (sn_StreamID snap)) in
       case mss_snapshots s key of
         Some existing \<Rightarrow>
           if Version_Int (sn_Version existing) > Version_Int (sn_Version snap) then (s, None)
           else (s\<lparr>mss_snapshots := (mss_snapshots s)(key \<mapsto> copySnapshot snap)\<rparr>, None)
       | None \<Rightarrow> (s\<lparr>mss_snapshots := (mss_snapshots s)(key \<mapsto> copySnapshot snap)\<rparr>, None))"

definition mss_Load :: "MemorySnapshotStore \<Rightarrow> StreamRef \<Rightarrow> Snapshot option outcome" where
  "mss_Load s ref =
     withSnapshotReadLock s ''memory.snapshot_load_failed'' (\<lambda>s.
       case mss_snapshots s (StreamKey ref) of
         None \<Rightarrow> Fail ErrSnapshotNotFound
       | Some snap \<Rightarrow> Ok (Some (copySnapshot snap)))"

definition mss_LoadAtVersion ::
  "MemorySnapshotStore \<Rightarrow> StreamRef \<Rightarrow> Version \<Rightarrow> Snapshot option outcome" where
  "mss_LoadAtVersion s ref version =
     withSnapshotReadLock s ''memory.snapshot_load_at_version_failed'' (\<lambda>s.
       case mss_snapshots s (StreamKey ref) of
         None \<Rightarrow> Fail ErrSnapshotNotFound
       | Some snap \<Rightarrow>
           if Version_Cmp (sn_Version snap) version > 0 then Fail ErrSnapshotNotFound
           else Ok (Some (copySnapshot snap)))"

definition mss_Delete ::
  "MemorySnapshotStore \<Rightarrow> StreamRef \<Rightarrow> MemorySnapshotStore \<times> go_error option" where
  "mss_Delete s ref =
     mss_withWriteLock s ''memory.snapshot_delete_failed'' (\<lambda>s.
       (s\<lparr>mss_snapshots := (mss_snapshots s)(StreamKey ref := None)\<rparr>, None))"

definition mss_Close :: "MemorySnapshotStore \<Rightarrow> MemorySnapshotStore \<times> go_error option" where
  "mss_Close s = (case Lifecycle_Close (mss_Lifecycle s) of
     (l, err) \<Rightarrow> (s\<lparr>mss_Lifecycle := l\<rparr>, err))"

section \<open>The checkpoint store\<close>

record Checkpoint =
  cp_EventID :: ulid
  cp_ProcessedAt :: instant

definition zeroCheckpoint :: Checkpoint where
  "zeroCheckpoint = \<lparr>cp_EventID = 0, cp_ProcessedAt = 0\<rparr>"

definition Checkpoint_IsZero :: "Checkpoint \<Rightarrow> bool" where
  "Checkpoint_IsZero c \<longleftrightarrow> cp_EventID c = 0"

record MemoryCheckpointStore =
  mcs_Lifecycle :: Lifecycle
  mcs_checkpoints :: "string \<rightharpoonup> Checkpoint"

definition NewMemoryCheckpointStore :: MemoryCheckpointStore where
  "NewMemoryCheckpointStore = \<lparr>mcs_Lifecycle = \<lparr>lc_closed = False\<rparr>, mcs_checkpoints = Map.empty\<rparr>"

definition mcs_withWriteLock ::
  "MemoryCheckpointStore \<Rightarrow> string \<Rightarrow>
   (MemoryCheckpointStore \<Rightarrow> MemoryCheckpointStore \<times> go_error option) \<Rightarrow>
   MemoryCheckpointStore \<times> go_error option" where
  "mcs_withWriteLock s code fn =
     (case wrapClosed (Lifecycle_CheckClosed (mcs_Lifecycle s) ErrDispatcherClosed) code of
        Some err \<Rightarrow> (s, Some err)
      | None \<Rightarrow> fn s)"

definition withCheckpointReadLock ::
  "MemoryCheckpointStore \<Rightarrow> string \<Rightarrow> (MemoryCheckpointStore \<Rightarrow> 'r outcome) \<Rightarrow> 'r outcome" where
  "withCheckpointReadLock s code fn =
     (case wrapClosed (Lifecycle_CheckClosed (mcs_Lifecycle s) ErrDispatcherClosed) code of
        Some err \<Rightarrow> Fail err
      | None \<Rightarrow> fn s)"

definition mcs_Load :: "MemoryCheckpointStore \<Rightarrow> string \<Rightarrow> Checkpoint outcome" where
  "mcs_Load s projectionName =
     withCheckpointReadLock s ''memory.checkpoint_load'' (\<lambda>s.
       Ok (case mcs_checkpoints s projectionName of None \<Rightarrow> zeroCheckpoint | Some c \<Rightarrow> c))"

definition mcs_Save ::
  "MemoryCheckpointStore \<Rightarrow> string \<Rightarrow> Checkpoint \<Rightarrow> MemoryCheckpointStore \<times> go_error option" where
  "mcs_Save s projectionName checkpoint =
     mcs_withWriteLock s ''memory.checkpoint_save'' (\<lambda>s.
       (s\<lparr>mcs_checkpoints := (mcs_checkpoints s)(projectionName \<mapsto> checkpoint)\<rparr>, None))"

definition mcs_Close :: "MemoryCheckpointStore \<Rightarrow> MemoryCheckpointStore \<times> go_error option" where
  "mcs_Close s = (case Lifecycle_Close (mcs_Lifecycle s) of
     (l, err) \<Rightarrow> (s\<lparr>mcs_Lifecycle := l\<rparr>, err))"

section \<open>Decorators over any snapshot store\<close>

text \<open>The interface \<open>SnapshotStore\<close>; a load may change the store and may return a nil pointer.\<close>

record 's snapshot_ops =
  so_Save :: "'s \<Rightarrow> Snapshot \<Rightarrow> 's \<times> go_error option"
  so_Delete :: "'s \<Rightarrow> StreamRef \<Rightarrow> 's \<times> go_error option"
  so_Load :: "'s \<Rightarrow> StreamRef \<Rightarrow> 's \<times> Snapshot option outcome"
  so_LoadAtVersion :: "'s \<Rightarrow> StreamRef \<Rightarrow> Version \<Rightarrow> 's \<times> Snapshot option outcome"

definition memory_snapshot_ops :: "MemorySnapshotStore snapshot_ops" where
  "memory_snapshot_ops =
     \<lparr>so_Save = mss_Save, so_Delete = mss_Delete, so_Load = (\<lambda>s r. (s, mss_Load s r)),
      so_LoadAtVersion = (\<lambda>s r v. (s, mss_LoadAtVersion s r v))\<rparr>"

text \<open>Calling a nil function panics.\<close>

definition call_fn :: "('a \<Rightarrow> 'b outcome) option \<Rightarrow> 'a \<Rightarrow> 'b outcome" where
  "call_fn f x = (case f of None \<Rightarrow> Panic | Some g \<Rightarrow> g x)"

record StateTransforms =
  tr_Protect :: "(byte list \<Rightarrow> byte list outcome) option"
  tr_Restore :: "(byte list \<Rightarrow> byte list outcome) option"
  tr_NeedsRewrite :: "(byte list \<Rightarrow> bool) option"
  tr_Reencrypt :: "(byte list \<Rightarrow> byte list outcome) option"

definition transformed_Save ::
  "'s snapshot_ops \<Rightarrow> StateTransforms \<Rightarrow> 's \<Rightarrow> Snapshot \<Rightarrow> ('s \<times> go_error option) outcome" where
  "transformed_Save inner tr s snapshot =
     (case call_fn (tr_Protect tr) (sn_State snapshot) of
        Panic \<Rightarrow> Panic
      | Fail err \<Rightarrow> Ok (s, Some (ErrWrap Infrastructure ''snapshot.transform_protect'' err))
      | Ok protected \<Rightarrow>
          (case so_Save inner s (snapshot\<lparr>sn_State := protected\<rparr>) of
             (s', Some err) \<Rightarrow> Ok (s', Some (ErrWrap Infrastructure ''snapshot.transformed_save'' err))
           | (s', None) \<Rightarrow> Ok (s', None)))"

definition transformed_Delete ::
  "'s snapshot_ops \<Rightarrow> 's \<Rightarrow> StreamRef \<Rightarrow> 's \<times> go_error option" where
  "transformed_Delete inner s ref =
     (case so_Delete inner s ref of
        (s', Some err) \<Rightarrow> (s', Some (ErrWrap Infrastructure ''snapshot.transformed_delete'' err))
      | (s', None) \<Rightarrow> (s', None))"

text \<open>\<open>rewriteInPlace\<close> returns the store and the snapshot the load goes on with.\<close>

definition rewriteInPlace ::
  "'s snapshot_ops \<Rightarrow> StateTransforms \<Rightarrow> 's \<Rightarrow> Snapshot \<Rightarrow> ('s \<times> Snapshot) outcome" where
  "rewriteInPlace inner tr s snap =
     (case tr_NeedsRewrite tr of
        None \<Rightarrow> Ok (s, snap)
      | Some needs \<Rightarrow>
          if \<not> needs (sn_State snap) then Ok (s, snap)
          else case call_fn (tr_Reencrypt tr) (sn_State snap) of
              Panic \<Rightarrow> Panic
            | Fail _ \<Rightarrow> Ok (s, snap)
            | Ok reencoded \<Rightarrow>
                (case so_Save inner s (snap\<lparr>sn_State := reencoded\<rparr>) of
                   (s', Some _) \<Rightarrow> Ok (s', snap)
                 | (s', None) \<Rightarrow> Ok (s', snap\<lparr>sn_State := reencoded\<rparr>)))"

definition transformed_restore ::
  "'s snapshot_ops \<Rightarrow> StateTransforms \<Rightarrow> 's \<Rightarrow> Snapshot option \<Rightarrow> 's \<times> Snapshot option outcome" where
  "transformed_restore inner tr s snapo =
     (case snapo of
        None \<Rightarrow> (s, Ok None)
      | Some snap0 \<Rightarrow>
          (case rewriteInPlace inner tr s snap0 of
             Panic \<Rightarrow> (s, Panic)
           | Fail e \<Rightarrow> (s, Fail e)
           | Ok (s', snap) \<Rightarrow>
               (case call_fn (tr_Restore tr) (sn_State snap) of
                  Panic \<Rightarrow> (s', Panic)
                | Fail err \<Rightarrow> (s', Fail (ErrWrap Corruption ''snapshot.transform_restore'' err))
                | Ok restored \<Rightarrow> (s', Ok (Some (snap\<lparr>sn_State := restored\<rparr>))))))"

definition transformed_Load ::
  "'s snapshot_ops \<Rightarrow> StateTransforms \<Rightarrow> 's \<Rightarrow> StreamRef \<Rightarrow> 's \<times> Snapshot option outcome" where
  "transformed_Load inner tr s ref =
     (case so_Load inner s ref of
        (s', Fail err) \<Rightarrow> (s', Fail (ErrWrap Infrastructure ''snapshot.transformed_load'' err))
      | (s', Panic) \<Rightarrow> (s', Panic)
      | (s', Ok snap) \<Rightarrow> transformed_restore inner tr s' snap)"

definition transformed_LoadAtVersion ::
  "'s snapshot_ops \<Rightarrow> StateTransforms \<Rightarrow> 's \<Rightarrow> StreamRef \<Rightarrow> Version \<Rightarrow>
   's \<times> Snapshot option outcome" where
  "transformed_LoadAtVersion inner tr s ref version =
     (case so_LoadAtVersion inner s ref version of
        (s', Fail err) \<Rightarrow>
          (s', Fail (ErrWrap Infrastructure ''snapshot.transformed_load_at_version'' err))
      | (s', Panic) \<Rightarrow> (s', Panic)
      | (s', Ok snap) \<Rightarrow> transformed_restore inner tr s' snap)"

definition newTransformedStore ::
  "'s snapshot_ops option \<Rightarrow> StateTransforms \<Rightarrow> ('s snapshot_ops \<times> StateTransforms) outcome" where
  "newTransformedStore inner tr =
     (case inner of
        None \<Rightarrow> Fail (ErrNew Rejection ''snapshot.transform_nil_store'')
      | Some i \<Rightarrow>
          if tr_Protect tr = None \<or> tr_Restore tr = None
          then Fail (ErrNew Rejection ''snapshot.transform_incomplete'')
          else Ok (i, tr))"

definition NewRewritingTransformedStore ::
  "'s snapshot_ops option \<Rightarrow> StateTransforms \<Rightarrow> ('s snapshot_ops \<times> StateTransforms) outcome" where
  "NewRewritingTransformedStore inner tr =
     (if (tr_NeedsRewrite tr = None) \<noteq> (tr_Reencrypt tr = None)
      then Fail (ErrNew Rejection ''snapshot.transform_migration_partial'')
      else newTransformedStore inner tr)"

definition NewTransformedStore ::
  "'s snapshot_ops option \<Rightarrow> (byte list \<Rightarrow> byte list outcome) option \<Rightarrow>
   (byte list \<Rightarrow> byte list outcome) option \<Rightarrow> ('s snapshot_ops \<times> StateTransforms) outcome" where
  "NewTransformedStore inner protect restore =
     newTransformedStore inner \<lparr>tr_Protect = protect, tr_Restore = restore, tr_NeedsRewrite = None,
                                tr_Reencrypt = None\<rparr>"

text \<open>
  \<open>TypedStore\<close>: \<open>enc\<close> and \<open>dec\<close> stand for the envelope encoding and decoding of the codec
  module, \<open>encName\<close> for the encoding name of the configured codec.
\<close>

record 'st TypedSnapshot =
  ts_StreamID :: StreamID
  ts_StreamType :: StreamType
  ts_Version :: Version
  ts_State :: 'st
  ts_CreatedAt :: instant

definition recordEncodingFrom :: "string \<Rightarrow> record_Encoding" where
  "recordEncodingFrom encName =
     (case ParseEncoding encName of Ok parsed \<Rightarrow> parsed | _ \<Rightarrow> RecordUnknown)"

definition typed_Save ::
  "'s snapshot_ops \<Rightarrow> ('st \<Rightarrow> byte list outcome) \<Rightarrow> string \<Rightarrow> instant \<Rightarrow> 's \<Rightarrow> 'st TypedSnapshot \<Rightarrow>
   ('s \<times> go_error option) outcome" where
  "typed_Save store enc encName now s snapshot =
     (case enc (ts_State snapshot) of
        Panic \<Rightarrow> Panic
      | Fail err \<Rightarrow> Ok (s, Some (ErrWrap Corruption ''snapshot.encode_state'' err))
      | Ok encoded \<Rightarrow>
          (case NewSnapshot now \<lparr>sr_Type = ts_StreamType snapshot, sr_ID = ts_StreamID snapshot\<rparr>
                  (ts_Version snapshot) encoded (recordEncodingFrom encName) of
             Panic \<Rightarrow> Panic
           | Fail err \<Rightarrow> Ok (s, Some err)
           | Ok snap0 \<Rightarrow>
               (let snap = (if ts_CreatedAt snapshot \<noteq> 0
                            then snap0\<lparr>sn_CreatedAt := ts_CreatedAt snapshot\<rparr> else snap0)
                in case (if ts_CreatedAt snapshot \<noteq> 0 then Snapshot_Validate snap else None) of
                     Some err \<Rightarrow> Ok (s, Some err)
                   | None \<Rightarrow>
                       (case so_Save store s snap of
                          (s', Some err) \<Rightarrow> Ok (s', Some (ErrWrap Infrastructure ''snapshot.save'' err))
                        | (s', None) \<Rightarrow> Ok (s', None)))))"

definition typed_decode ::
  "(byte list \<Rightarrow> 'st outcome) \<Rightarrow> Snapshot option \<Rightarrow> 'st TypedSnapshot outcome" where
  "typed_decode dec rawo =
     (case rawo of
        None \<Rightarrow> Panic
      | Some raw \<Rightarrow>
          (case dec (sn_State raw) of
             Panic \<Rightarrow> Panic
           | Fail err \<Rightarrow> Fail (ErrWrap Corruption ''snapshot.decode_state'' err)
           | Ok state \<Rightarrow>
               Ok \<lparr>ts_StreamID = sn_StreamID raw, ts_StreamType = sn_StreamType raw,
                   ts_Version = sn_Version raw, ts_State = state,
                   ts_CreatedAt = sn_CreatedAt raw\<rparr>))"

definition typed_Load ::
  "'s snapshot_ops \<Rightarrow> (byte list \<Rightarrow> 'st outcome) \<Rightarrow> 's \<Rightarrow> StreamRef \<Rightarrow>
   's \<times> 'st TypedSnapshot outcome" where
  "typed_Load store dec s ref =
     (case so_Load store s ref of
        (s', Fail err) \<Rightarrow> (s', Fail (ErrWrap Infrastructure ''snapshot.load'' err))
      | (s', Panic) \<Rightarrow> (s', Panic)
      | (s', Ok raw) \<Rightarrow> (s', typed_decode dec raw))"

definition typed_LoadAtVersion ::
  "'s snapshot_ops \<Rightarrow> (byte list \<Rightarrow> 'st outcome) \<Rightarrow> 's \<Rightarrow> StreamRef \<Rightarrow> Version \<Rightarrow>
   's \<times> 'st TypedSnapshot outcome" where
  "typed_LoadAtVersion store dec s ref version =
     (case so_LoadAtVersion store s ref version of
        (s', Fail err) \<Rightarrow> (s', Fail (ErrWrap Infrastructure ''snapshot.load_version'' err))
      | (s', Panic) \<Rightarrow> (s', Panic)
      | (s', Ok raw) \<Rightarrow> (s', typed_decode dec raw))"

definition typed_Delete ::
  "'s snapshot_ops \<Rightarrow> 's \<Rightarrow> StreamRef \<Rightarrow> 's \<times> go_error option" where
  "typed_Delete store s ref =
     (case so_Delete store s ref of
        (s', Some err) \<Rightarrow> (s', Some (ErrWrap Infrastructure ''snapshot.delete'' err))
      | (s', None) \<Rightarrow> (s', None))"

section \<open>The interface of a snapshot store\<close>

definition snap_key :: "Snapshot \<Rightarrow> string" where
  "snap_key x = StreamKey (Snapshot_Ref x)"

definition superseded :: "Snapshot option \<Rightarrow> Snapshot \<Rightarrow> bool" where
  "superseded old x \<longleftrightarrow>
     (case old of None \<Rightarrow> False | Some y \<Rightarrow> Version_Int (sn_Version y) > Version_Int (sn_Version x))"

locale snapshot_store =
  fixes inv :: "'s \<Rightarrow> bool"
    and content :: "'s \<Rightarrow> string \<rightharpoonup> Snapshot"
    and ops :: "'s snapshot_ops"
  assumes load_some: "inv s \<Longrightarrow> content s (StreamKey r) = Some x \<Longrightarrow> so_Load ops s r = (s, Ok (Some x))"
    and load_none: "inv s \<Longrightarrow> content s (StreamKey r) = None \<Longrightarrow>
      \<exists>e. so_Load ops s r = (s, Fail e) \<and> errors_Is e ErrSnapshotNotFound"
    and save: "inv s \<Longrightarrow> \<exists>s'. so_Save ops s x = (s', None) \<and> inv s' \<and>
      content s' = (if superseded (content s (snap_key x)) x then content s
                    else (content s)(snap_key x \<mapsto> x))"
begin

lemma rewriteInPlace_restore:
  assumes "inv s" and "\<And>raw r. call_fn (tr_Reencrypt tr) raw = Ok r \<Longrightarrow>
      call_fn (tr_Restore tr) r = call_fn (tr_Restore tr) raw"
    and "\<And>raw. call_fn (tr_Reencrypt tr) raw \<noteq> Panic"
  obtains s' x' where "rewriteInPlace ops tr s x = Ok (s', x')" "inv s'"
    "call_fn (tr_Restore tr) (sn_State x') = call_fn (tr_Restore tr) (sn_State x)"
    "x'\<lparr>sn_State := st\<rparr> = x\<lparr>sn_State := st\<rparr>"
proof (cases "tr_NeedsRewrite tr")
  case None
  then show ?thesis using assms(1) that by (simp add: rewriteInPlace_def)
next
  case (Some needs)
  show ?thesis
  proof (cases "needs (sn_State x) \<and> (\<exists>r. call_fn (tr_Reencrypt tr) (sn_State x) = Ok r)")
    case True
    then obtain r where r: "call_fn (tr_Reencrypt tr) (sn_State x) = Ok r" by blast
    obtain s' where "so_Save ops s (x\<lparr>sn_State := r\<rparr>) = (s', None)" "inv s'"
      using save [OF assms(1), of "x\<lparr>sn_State := r\<rparr>"] by blast
    with True Some r assms(2) [OF r] that show ?thesis by (simp add: rewriteInPlace_def)
  next
    case False
    then have "rewriteInPlace ops tr s x = Ok (s, x)"
      using Some assms(3) [of "sn_State x"]
      by (cases "call_fn (tr_Reencrypt tr) (sn_State x)") (auto simp: rewriteInPlace_def)
    then show ?thesis using assms(1) that by simp
  qed
qed

lemma transformed_roundtrip:
  assumes "inv s" and "call_fn (tr_Protect tr) (sn_State x) = Ok raw"
    and "call_fn (tr_Restore tr) raw = Ok (sn_State x)"
    and "\<And>raw r. call_fn (tr_Reencrypt tr) raw = Ok r \<Longrightarrow>
      call_fn (tr_Restore tr) r = call_fn (tr_Restore tr) raw"
    and "\<And>raw. call_fn (tr_Reencrypt tr) raw \<noteq> Panic"
    and "\<not> superseded (content s (snap_key x)) x"
  shows "\<exists>s' s''. transformed_Save ops tr s x = Ok (s', None) \<and> inv s' \<and>
           transformed_Load ops tr s' (Snapshot_Ref x) = (s'', Ok (Some x)) \<and> inv s''"
proof -
  let ?y = "x\<lparr>sn_State := raw\<rparr>"
  have key: "snap_key ?y = snap_key x" "superseded oo ?y = superseded oo x" for oo
    by (simp_all add: snap_key_def Snapshot_Ref_def superseded_def split: option.split)
  obtain s' where s': "so_Save ops s ?y = (s', None)" "inv s'"
    "content s' = (content s)(snap_key x \<mapsto> ?y)"
    using save [OF assms(1), of ?y] assms(6) by (auto simp: key)
  then have ld: "so_Load ops s' (Snapshot_Ref x) = (s', Ok (Some ?y))"
    by (intro load_some) (simp_all add: snap_key_def)
  obtain s'' x' where "rewriteInPlace ops tr s' ?y = Ok (s'', x')" "inv s''"
    "call_fn (tr_Restore tr) (sn_State x') = Ok (sn_State x)"
    "x'\<lparr>sn_State := sn_State x\<rparr> = ?y\<lparr>sn_State := sn_State x\<rparr>"
    using rewriteInPlace_restore [OF s'(2) assms(4,5), where x = ?y and st = "sn_State x"] assms(3)
    by auto
  with s' ld assms(2) show ?thesis
    by (simp add: transformed_Save_def transformed_Load_def transformed_restore_def)
qed

lemma typed_roundtrip:
  assumes "inv s" and "enc (ts_State t) = Ok raw" and "dec raw = Ok (ts_State t)" and "raw \<noteq> []"
    and "ts_StreamType t \<noteq> []" and "ts_StreamID t \<noteq> []" and "ts_Version t \<noteq> 0"
    and "ts_CreatedAt t \<noteq> 0"
    and old: "case content s (StreamKey \<lparr>sr_Type = ts_StreamType t, sr_ID = ts_StreamID t\<rparr>) of
        None \<Rightarrow> True | Some y \<Rightarrow> Version_Int (sn_Version y) \<le> Version_Int (ts_Version t)"
  shows "\<exists>s'. typed_Save ops enc encName now s t = Ok (s', None) \<and> inv s' \<and>
           typed_Load ops dec s' \<lparr>sr_Type = ts_StreamType t, sr_ID = ts_StreamID t\<rparr> = (s', Ok t)"
proof -
  let ?x = "\<lparr>sn_StreamID = ts_StreamID t, sn_StreamType = ts_StreamType t, sn_Version = ts_Version t,
      sn_State = raw, sn_Encoding = recordEncodingFrom encName, sn_CreatedAt = ts_CreatedAt t,
      sn_StateShape = []\<rparr>"
  let ?r = "\<lparr>sr_Type = ts_StreamType t, sr_ID = ts_StreamID t\<rparr>"
  have key: "snap_key ?x = StreamKey ?r" by (simp add: snap_key_def Snapshot_Ref_def NewStreamRef_def)
  have "\<not> superseded (content s (StreamKey ?r)) ?x"
    using old by (auto simp: superseded_def split: option.splits)
  then obtain s' where s': "so_Save ops s ?x = (s', None)" "inv s'"
    "content s' = (content s)(StreamKey ?r \<mapsto> ?x)"
    using save [OF assms(1), of ?x] by (auto simp: key)
  then have ld: "so_Load ops s' ?r = (s', Ok (Some ?x))"
    by (intro load_some) simp_all
  have "\<not> ts_Version t < 1" using assms(7) by (simp add: word_less_1)
  then have "typed_Save ops enc encName now s t = Ok (s', None)"
    using assms(2,4-8) s'(1)
    by (simp add: typed_Save_def NewSnapshot_def Snapshot_Validate_def Snapshot_Ref_def
        NewStreamRef_def StreamRef_Validate_def Let_def)
  moreover have "typed_Load ops dec s' ?r = (s', Ok t)"
    using ld assms(3) by (simp add: typed_Load_def typed_decode_def)
  ultimately show ?thesis using s'(2) by blast
qed

end

definition mss_inv :: "MemorySnapshotStore \<Rightarrow> bool" where
  "mss_inv s \<longleftrightarrow> \<not> lc_closed (mss_Lifecycle s)"

lemmas mss_defs = mss_Save_def mss_Load_def mss_LoadAtVersion_def mss_Delete_def
  mss_withWriteLock_def withSnapshotReadLock_def wrapClosed_def Lifecycle_CheckClosed_def
  copySnapshot_def

interpretation mss: snapshot_store mss_inv mss_snapshots memory_snapshot_ops
  by unfold_locales
    (auto simp: memory_snapshot_ops_def mss_defs mss_inv_def snap_key_def Snapshot_Ref_def
      superseded_def Let_def split: option.split)

section \<open>Properties\<close>

definition snap_saves :: "Snapshot list \<Rightarrow> MemorySnapshotStore \<Rightarrow> MemorySnapshotStore" where
  "snap_saves xs s = fold (\<lambda>x s. fst (mss_Save s x)) xs s"

lemma mss_Save_content:
  assumes "mss_inv s"
  shows "mss_inv (fst (mss_Save s x))"
    and "mss_snapshots (fst (mss_Save s x)) =
           (if superseded (mss_snapshots s (snap_key x)) x then mss_snapshots s
            else (mss_snapshots s)(snap_key x \<mapsto> x))"
  using mss.save [OF assms, of x] by (auto simp: memory_snapshot_ops_def)

text \<open>The stored snapshot of a stream is the newest one saved.\<close>

definition newest :: "Snapshot set \<Rightarrow> Snapshot option \<Rightarrow> bool" where
  "newest X y \<longleftrightarrow>
     (case y of None \<Rightarrow> X = {} | Some x \<Rightarrow> x \<in> X \<and> (\<forall>z \<in> X. sn_Version z \<le> sn_Version x))"

lemma superseded_unsigned:
  assumes "version_ok (sn_Version x)" and "\<And>y. old = Some y \<Longrightarrow> version_ok (sn_Version y)"
  shows "superseded old x \<longleftrightarrow> (\<exists>y. old = Some y \<and> sn_Version x < sn_Version y)"
  using assms Version_Int_ok
  by (cases old) (auto simp: superseded_def word_less_nat_alt)

lemma newest_insert:
  assumes "newest X old" and "\<forall>z \<in> insert x X. version_ok (sn_Version z)"
  shows "newest (insert x X) (if superseded old x then old else Some x)"
proof -
  have "superseded old x \<longleftrightarrow> (\<exists>y. old = Some y \<and> sn_Version x < sn_Version y)"
    using assms by (intro superseded_unsigned) (auto simp: newest_def)
  then show ?thesis
    using assms(1) by (cases old) (auto simp: newest_def not_less intro: order_trans)
qed

lemma snap_saves_newest:
  assumes "mss_inv s" and "newest X (mss_snapshots s k)"
    and "\<forall>z \<in> X \<union> set xs. version_ok (sn_Version z)"
  shows "mss_inv (snap_saves xs s) \<and>
         newest (X \<union> {x \<in> set xs. snap_key x = k}) (mss_snapshots (snap_saves xs s) k)"
  using assms
proof (induction xs arbitrary: s X)
  case (Cons x xs)
  let ?s = "fst (mss_Save s x)"
  let ?X = "if snap_key x = k then insert x X else X"
  have "newest ?X (mss_snapshots ?s k)"
    using Cons.prems newest_insert [of X "mss_snapshots s k" x]
    by (auto simp: mss_Save_content split: if_splits)
  moreover have "X \<union> {y \<in> set (x # xs). snap_key y = k} = ?X \<union> {y \<in> set xs. snap_key y = k}"
    by auto
  moreover have "\<forall>z \<in> ?X \<union> set xs. version_ok (sn_Version z)" using Cons.prems(3) by auto
  ultimately show ?case
    using Cons.IH [OF mss_Save_content(1) [OF Cons.prems(1)]] by (simp add: snap_saves_def)
qed (simp add: snap_saves_def)

text \<open>
  C14. Snapshots never go backwards: after any sequence of saves, whatever their order, \<open>Load\<close>
  returns one of the saved snapshots of the stream with the greatest version, or the not-found
  error when none was saved; \<open>LoadAtVersion\<close> returns it when it is not newer than the requested
  version and the not-found error otherwise, so no state from after that version is ever given.
\<close>

theorem snapshot_store_newest:
  fixes r :: StreamRef
  assumes "\<forall>x \<in> set xs. version_ok (sn_Version x)"
  defines "s \<equiv> snap_saves xs NewMemorySnapshotStore"
    and "X \<equiv> {x \<in> set xs. snap_key x = StreamKey r}"
  shows "(X = {} \<longrightarrow> mss_Load s r = Fail ErrSnapshotNotFound) \<and>
         (X \<noteq> {} \<longrightarrow> (\<exists>x \<in> X. mss_Load s r = Ok (Some x) \<and> (\<forall>z \<in> X. sn_Version z \<le> sn_Version x) \<and>
            mss_LoadAtVersion s r v =
              (if sn_Version x \<le> v then Ok (Some x) else Fail ErrSnapshotNotFound)))"
proof -
  have init: "mss_inv NewMemorySnapshotStore" "newest {} (mss_snapshots NewMemorySnapshotStore k)" for k
    by (simp_all add: mss_inv_def NewMemorySnapshotStore_def newest_def)
  have inv: "mss_inv s" and new: "newest X (mss_snapshots s (StreamKey r))"
    using snap_saves_newest [OF init, where xs = xs and k = "StreamKey r"] assms(1)
    unfolding s_def X_def by auto
  show ?thesis
  proof (cases "mss_snapshots s (StreamKey r)")
    case None
    with inv new show ?thesis by (simp add: mss_defs mss_inv_def newest_def)
  next
    case (Some x)
    have cmp: "Version_Cmp (sn_Version x) v > 0 \<longleftrightarrow> \<not> sn_Version x \<le> v"
      by (auto simp: Version_Cmp_def not_le)
    from inv new Some have "x \<in> X" "\<forall>z \<in> X. sn_Version z \<le> sn_Version x"
      by (simp_all add: newest_def)
    moreover have "mss_Load s r = Ok (Some x)"
      "mss_LoadAtVersion s r v = (if sn_Version x \<le> v then Ok (Some x) else Fail ErrSnapshotNotFound)"
      using inv Some cmp by (simp_all add: mss_defs mss_inv_def)
    ultimately show ?thesis by auto
  qed
qed

definition witness_snap :: "nat \<Rightarrow> Snapshot" where
  "witness_snap i = \<lparr>sn_StreamID = ''7'', sn_StreamType = ''order'', sn_Version = of_nat i,
     sn_State = [of_nat i], sn_Encoding = RecordJSON, sn_CreatedAt = 5, sn_StateShape = []\<rparr>"

theorem snapshot_store_newest_witness:
  "mss_Load (snap_saves [witness_snap 3, witness_snap 2] NewMemorySnapshotStore)
     \<lparr>sr_Type = ''order'', sr_ID = ''7''\<rparr> = Ok (Some (witness_snap 3))"
proof -
  have "\<forall>x \<in> set [witness_snap 3, witness_snap 2]. version_ok (sn_Version x)"
    by (simp add: witness_snap_def version_ok_def)
  note newest = snapshot_store_newest [OF this, of "\<lparr>sr_Type = ''order'', sr_ID = ''7''\<rparr>" 9]
  have key: "snap_key (witness_snap i) = StreamKey \<lparr>sr_Type = ''order'', sr_ID = ''7''\<rparr>" for i
    by (simp add: witness_snap_def snap_key_def Snapshot_Ref_def NewStreamRef_def)
  have less: "\<not> sn_Version (witness_snap 3) \<le> sn_Version (witness_snap 2)"
    by (simp add: witness_snap_def)
  have X: "{x \<in> set [witness_snap 3, witness_snap 2].
      snap_key x = StreamKey \<lparr>sr_Type = ''order'', sr_ID = ''7''\<rparr>} = {witness_snap 3, witness_snap 2}"
    using key by auto
  show ?thesis
    using newest [unfolded X] less by blast
qed

text \<open>
  A transformed store gives back what was saved: with transforms that restore what they
  protect, saving a snapshot that is not older than the stored one and loading it returns the
  same snapshot, and rewriting the stored state under a new key during the load never changes
  the result. The restoring and re-encoding functions are assumed to agree.
\<close>

theorem transformed_store_roundtrip:
  assumes "\<not> lc_closed (mss_Lifecycle s)"
    and "call_fn (tr_Protect tr) (sn_State x) = Ok raw"
    and "call_fn (tr_Restore tr) raw = Ok (sn_State x)"
    and "\<And>raw r. call_fn (tr_Reencrypt tr) raw = Ok r \<Longrightarrow>
      call_fn (tr_Restore tr) r = call_fn (tr_Restore tr) raw"
    and "\<And>raw. call_fn (tr_Reencrypt tr) raw \<noteq> Panic"
    and "\<not> superseded (mss_snapshots s (snap_key x)) x"
  shows "\<exists>s' s''. transformed_Save memory_snapshot_ops tr s x = Ok (s', None) \<and>
           transformed_Load memory_snapshot_ops tr s' (Snapshot_Ref x) = (s'', Ok (Some x))"
  using mss.transformed_roundtrip [of s tr x raw] assms by (auto simp: mss_inv_def)

definition witness_transforms :: StateTransforms where
  "witness_transforms = \<lparr>tr_Protect = Some (\<lambda>b. Ok (0 # b)), tr_Restore = Some (\<lambda>b. Ok (tl b)),
     tr_NeedsRewrite = Some (\<lambda>b. hd b = 0), tr_Reencrypt = Some (\<lambda>b. Ok (1 # tl b))\<rparr>"

theorem transformed_store_roundtrip_witness:
  "\<exists>s' s''. transformed_Save memory_snapshot_ops witness_transforms NewMemorySnapshotStore (witness_snap 3)
         = Ok (s', None) \<and>
       transformed_Load memory_snapshot_ops witness_transforms s' (Snapshot_Ref (witness_snap 3)) =
         (s'', Ok (Some (witness_snap 3)))"
  by (rule transformed_store_roundtrip [where raw = "0 # sn_State (witness_snap 3)"])
    (auto simp: NewMemorySnapshotStore_def witness_transforms_def call_fn_def superseded_def)

text \<open>The invariant of the read-pressure strategy.\<close>

definition rp_inv :: "ReadPressure \<Rightarrow> bool" where
  "rp_inv rp \<longleftrightarrow>
     distinct (rp_lru rp) \<and> set (rp_lru rp) = rp_lruElems rp \<and> dom (rp_reads rp) = rp_lruElems rp \<and>
     (rp_capacity rp > 0 \<longrightarrow> int (length (rp_lru rp)) \<le> rp_capacity rp)"

lemma rp_inv_card: "rp_inv rp \<Longrightarrow> card (dom (rp_reads rp)) = length (rp_lru rp)"
  by (metis distinct_card rp_inv_def)

lemma evictOldest_inv:
  assumes "rp_inv rp" and "rp_lru rp \<noteq> []"
  shows "rp_inv (evictOldest rp)" and "length (rp_lru (evictOldest rp)) = length (rp_lru rp) - 1"
    and "rp_capacity (evictOldest rp) = rp_capacity rp"
    and "rp_lruElems (evictOldest rp) \<subseteq> rp_lruElems rp"
proof -
  obtain k ks where lru: "rp_lru rp = k # ks" using assms(2) by (cases "rp_lru rp") auto
  then have e: "evictOldest rp = rp\<lparr>rp_lru := ks, rp_reads := (rp_reads rp)(k := None),
      rp_lruElems := rp_lruElems rp - {k}\<rparr>"
    by (simp add: evictOldest_def)
  show "rp_inv (evictOldest rp)" "length (rp_lru (evictOldest rp)) = length (rp_lru rp) - 1"
    "rp_capacity (evictOldest rp) = rp_capacity rp"
    "rp_lruElems (evictOldest rp) \<subseteq> rp_lruElems rp"
    using assms(1) lru unfolding e by (auto simp: rp_inv_def)
qed

lemma rp_reset_inv: "rp_inv rp \<Longrightarrow> rp_inv (rp_reset rp key)"
proof -
  assume inv: "rp_inv rp"
  show ?thesis
  proof (cases "key \<in> rp_lruElems rp")
    case True
    have "length (remove1 key (rp_lru rp)) \<le> length (rp_lru rp)"
      by (simp add: length_remove1)
    with inv True show ?thesis
      by (auto simp: rp_inv_def rp_reset_def Let_def)
  next
    case False
    then have "(rp_reads rp)(key := None) = rp_reads rp" using inv by (auto simp: rp_inv_def)
    with inv False show ?thesis by (simp add: rp_reset_def Let_def)
  qed
qed

lemma RecordRead_push:
  assumes "rp_inv rp0" and "key \<notin> rp_lruElems rp0"
    and "rp_capacity rp0 > 0 \<longrightarrow> int (length (rp_lru rp0)) < rp_capacity rp0"
  shows "rp_inv (rp0\<lparr>rp_lru := rp_lru rp0 @ [key], rp_lruElems := insert key (rp_lruElems rp0),
           rp_reads := (rp_reads rp0)(key \<mapsto> n)\<rparr>)"
  using assms by (auto simp: rp_inv_def)

lemma RecordRead_inv:
  assumes "rp_inv rp"
  shows "rp_inv (RecordRead disp rp ref)"
proof -
  let ?key = "StreamRef_String disp ref"
  show ?thesis
  proof (cases "?key \<in> rp_lruElems rp")
    case True
    with assms have "?key \<in> set (rp_lru rp)" by (simp add: rp_inv_def)
    then have "0 < length (rp_lru rp)" "length (remove1 ?key (rp_lru rp)) = length (rp_lru rp) - 1"
      by (auto simp: length_remove1 length_pos_if_in_set)
    with assms True show ?thesis
      by (auto simp: RecordRead_def Let_def rp_inv_def)
  next
    case False
    let ?full = "rp_capacity rp > 0 \<and> int (card (dom (rp_reads rp))) \<ge> rp_capacity rp"
    let ?rp0 = "if ?full then evictOldest rp else rp"
    have "rp_lru rp \<noteq> []" if ?full
      using that rp_inv_card [OF assms] by auto
    note ev = evictOldest_inv [OF assms this]
    have "rp_inv ?rp0" using assms ev(1) by auto
    moreover have "?key \<notin> rp_lruElems ?rp0" using False ev(4) by auto
    moreover have "rp_capacity ?rp0 > 0 \<longrightarrow> int (length (rp_lru ?rp0)) < rp_capacity ?rp0"
    proof (cases ?full)
      case True
      then have "0 < length (rp_lru rp)" "int (length (rp_lru rp)) \<le> rp_capacity rp"
        using ev assms \<open>?full \<Longrightarrow> rp_lru rp \<noteq> []\<close> by (auto simp: rp_inv_def)
      with True ev(2,3) show ?thesis by (cases "rp_lru rp") auto
    qed (use rp_inv_card [OF assms] in auto)
    ultimately have "rp_inv (?rp0\<lparr>rp_lru := rp_lru ?rp0 @ [?key],
        rp_lruElems := insert ?key (rp_lruElems ?rp0), rp_reads := (rp_reads ?rp0)(?key \<mapsto> n)\<rparr>)" for n
      by (rule RecordRead_push)
    with False show ?thesis by (simp add: RecordRead_def Let_def)
  qed
qed

lemma evictOldest_count:
  "rp_inv rp \<Longrightarrow> k \<notin> rp_lruElems rp \<Longrightarrow> rp_count (evictOldest rp) k = 0"
  by (auto simp: rp_inv_def evictOldest_def rp_count_def dom_def split: list.split option.split)

text \<open>
  The read-pressure strategy keeps its bookkeeping consistent and bounded: the counter map,
  the recency list and its index always hold the same streams, at most as many as the limit; a
  read adds exactly one to the counter of its stream; and without an inner strategy a snapshot
  is due exactly when the stream was read at least \<open>threshold\<close> times, which starts the count anew.
\<close>

theorem read_pressure_correct:
  fixes disp :: "StreamID \<Rightarrow> string" and ref :: StreamRef
  assumes "rp_inv rp"
  defines "k \<equiv> StreamRef_String disp ref"
  shows "rp_inv (RecordRead disp rp ref) \<and>
         rp_inv (fst (rp_ShouldSnapshotFor disp rp ref v)) \<and>
         ReadCount disp (RecordRead disp rp ref) ref = ReadCount disp rp ref + 1 \<and>
         (rp_capacity rp \<le> 0 \<longrightarrow> (\<forall>k'. k' \<noteq> k \<longrightarrow>
            rp_count (RecordRead disp rp ref) k' = rp_count rp k')) \<and>
         (rp_inner rp = None \<longrightarrow>
            snd (rp_ShouldSnapshotFor disp rp ref v) = Ok (ReadCount disp rp ref \<ge> rp_threshold rp)) \<and>
         (snd (rp_ShouldSnapshotFor disp rp ref v) = Ok True \<longrightarrow>
            ReadCount disp (fst (rp_ShouldSnapshotFor disp rp ref v)) ref = 0)"
proof (intro conjI)
  show "rp_inv (RecordRead disp rp ref)" by (rule RecordRead_inv [OF assms(1)])
  show "rp_inv (fst (rp_ShouldSnapshotFor disp rp ref v))"
    using assms(1) rp_reset_inv [OF assms(1)]
    by (auto simp: rp_ShouldSnapshotFor_def Let_def split: option.split outcome.split bool.split)
  have zero: "rp_count rp k = 0" if "k \<notin> rp_lruElems rp"
    using that assms(1) by (auto simp: rp_inv_def rp_count_def dom_def split: option.split)
  show "ReadCount disp (RecordRead disp rp ref) ref = ReadCount disp rp ref + 1"
  proof (cases "k \<in> rp_lruElems rp")
    case True
    then show ?thesis by (simp add: RecordRead_def ReadCount_def rp_count_def Let_def k_def)
  next
    case False
    with evictOldest_count [OF assms(1) False] zero [OF False] show ?thesis
      by (simp add: RecordRead_def ReadCount_def rp_count_def Let_def k_def)
  qed
  show "rp_capacity rp \<le> 0 \<longrightarrow> (\<forall>k'. k' \<noteq> k \<longrightarrow>
      rp_count (RecordRead disp rp ref) k' = rp_count rp k')"
    by (simp add: RecordRead_def rp_count_def Let_def k_def)
  show "rp_inner rp = None \<longrightarrow>
      snd (rp_ShouldSnapshotFor disp rp ref v) = Ok (ReadCount disp rp ref \<ge> rp_threshold rp)"
    by (simp add: rp_ShouldSnapshotFor_def ReadCount_def Let_def)
  show "snd (rp_ShouldSnapshotFor disp rp ref v) = Ok True \<longrightarrow>
      ReadCount disp (fst (rp_ShouldSnapshotFor disp rp ref v)) ref = 0"
    by (auto simp: rp_ShouldSnapshotFor_def ReadCount_def Let_def rp_reset_def rp_count_def
        split: option.split outcome.split bool.split if_splits)
qed

theorem read_pressure_correct_witness:
  "\<exists>rp. NewReadPressure 1 [WithReadTrackingLimit 2] = Ok rp \<and> rp_inv rp \<and>
        ReadCount id (RecordRead id rp \<lparr>sr_Type = ''order'', sr_ID = ''7''\<rparr>)
          \<lparr>sr_Type = ''order'', sr_ID = ''7''\<rparr> = 1"
proof -
  let ?rp = "\<lparr>rp_threshold = 1, rp_inner = None, rp_reads = Map.empty, rp_capacity = 2,
      rp_lru = [], rp_lruElems = {}\<rparr>"
  have "NewReadPressure 1 [WithReadTrackingLimit 2] = Ok ?rp"
    by (simp add: NewReadPressure_def WithReadTrackingLimit_def)
  moreover have inv: "rp_inv ?rp" by (simp add: rp_inv_def)
  moreover have "ReadCount id ?rp \<lparr>sr_Type = ''order'', sr_ID = ''7''\<rparr> = 0"
    by (simp add: ReadCount_def rp_count_def)
  ultimately show ?thesis
    using read_pressure_correct [OF inv, of id "\<lparr>sr_Type = ''order'', sr_ID = ''7''\<rparr>" 0] by force
qed

end
