(* ===== verification/Decider.thy ===== *)
theory Decider
  imports MemoryStore Snapshots
begin

text \<open>
  The repository of \<open>src/decider\<close>: loading a stream by replay, from a snapshot or from the state
  cache; deciding, saving, publishing, snapshotting and updating the cache; time travel, waiting
  for a version, strict application, command causation and the typed repository. The stores, the
  cache and the publisher are interfaces in the code and records of operations here; the world
  record holds their states. The state codec, error classification and the display form of
  identifiers are parameters, the clock reading and the context are arguments. Tracing spans,
  logging and the flight recorder have no effect on the result and are left out.
\<close>

section \<open>Interfaces\<close>

record 's event_ops =
  eo_Save :: "'s \<Rightarrow> StreamRef \<Rightarrow> event list \<Rightarrow> Version \<Rightarrow> 's \<times> go_error option"
  eo_Load :: "'s \<Rightarrow> StreamRef \<Rightarrow> event list outcome"
  eo_LoadFromVersion :: "'s \<Rightarrow> StreamRef \<Rightarrow> Version \<Rightarrow> event list outcome"
  eo_LoadToVersion :: "'s \<Rightarrow> StreamRef \<Rightarrow> Version \<Rightarrow> event list outcome"
  eo_LoadToTimestamp :: "'s \<Rightarrow> StreamRef \<Rightarrow> instant \<Rightarrow> event list outcome"

record ('c, 'st) cache_ops =
  ca_Get :: "'c \<Rightarrow> StreamRef \<Rightarrow> ('st \<times> Version) option"
  ca_Put :: "'c \<Rightarrow> StreamRef \<Rightarrow> 'st \<Rightarrow> Version \<Rightarrow> 'c"
  ca_Invalidate :: "'c \<Rightarrow> StreamRef \<Rightarrow> 'c"

record 'st state_codec =
  sc_Encoding :: string
  sc_Encode :: "'st \<Rightarrow> byte list outcome"
  sc_Decode :: "byte list \<Rightarrow> 'st outcome"

text \<open>
  \<open>otterCache\<close> keeps entries under the string form of the reference in a cache of another module,
  given by its three operations.
\<close>

record ('k, 'e) otter_ops =
  ot_GetIfPresent :: "'k \<Rightarrow> string \<Rightarrow> 'e option"
  ot_Set :: "'k \<Rightarrow> string \<Rightarrow> 'e \<Rightarrow> 'k"
  ot_Invalidate :: "'k \<Rightarrow> string \<Rightarrow> 'k"

definition otter_Get ::
  "('k, 'st \<times> Version) otter_ops \<Rightarrow> (StreamID \<Rightarrow> string) \<Rightarrow> 'k \<Rightarrow> StreamRef \<Rightarrow> ('st \<times> Version) option" where
  "otter_Get ot disp c ref = ot_GetIfPresent ot c (StreamRef_String disp ref)"

definition otter_Put ::
  "('k, 'st \<times> Version) otter_ops \<Rightarrow> (StreamID \<Rightarrow> string) \<Rightarrow> 'k \<Rightarrow> StreamRef \<Rightarrow> 'st \<Rightarrow> Version \<Rightarrow> 'k" where
  "otter_Put ot disp c ref state version = ot_Set ot c (StreamRef_String disp ref) (state, version)"

definition otter_Invalidate ::
  "('k, 'st \<times> Version) otter_ops \<Rightarrow> (StreamID \<Rightarrow> string) \<Rightarrow> 'k \<Rightarrow> StreamRef \<Rightarrow> 'k" where
  "otter_Invalidate ot disp c ref = ot_Invalidate ot c (StreamRef_String disp ref)"

definition otterCache ::
  "('k, 'st \<times> Version) otter_ops \<Rightarrow> (StreamID \<Rightarrow> string) \<Rightarrow> ('k, 'st) cache_ops" where
  "otterCache ot disp =
     \<lparr>ca_Get = otter_Get ot disp, ca_Put = otter_Put ot disp, ca_Invalidate = otter_Invalidate ot disp\<rparr>"

section \<open>The repository\<close>

record 'st Decider =
  de_Initial :: 'st
  de_Apply :: "'st \<Rightarrow> event \<Rightarrow> 'st outcome"

record ('s, 'n, 'c, 'b, 'x, 'st) Repository =
  r_store :: "'s event_ops"
  r_publisher :: "('b \<Rightarrow> event list \<Rightarrow> 'b \<times> go_error option) option"
  r_snapshotStore :: "'n snapshot_ops option"
  r_codec :: "'st state_codec option"
  r_snapshotStateShape :: string
  r_enricher :: "('x \<Rightarrow> option_fn list) option"
  r_decider :: "'st Decider"
  r_loadCoalescing :: bool
  r_stateCache :: "('c, 'st) cache_ops option"

text \<open>
  The world: the states of the stores, the strategy, the cache and the bus, the discard counter,
  and the loads other goroutines have in flight under a coalescing key.
\<close>

record ('s, 'n, 'c, 'b) world =
  w_store :: 's
  w_snaps :: 'n
  w_strategy :: "SnapshotStrategy option"
  w_cache :: 'c
  w_bus :: 'b
  w_shapeDiscards :: u64
  w_inflight :: "string \<Rightarrow> event list outcome option"

definition ErrNilStore :: go_error where
  "ErrNilStore = ErrNew Infrastructure ''decider.nil_store''"

definition ErrNilApply :: go_error where
  "ErrNilApply = ErrNew Rejection ''decider.nil_fold''"

definition ErrNilDecide :: go_error where
  "ErrNilDecide = ErrNew Rejection ''decider.nil_decide''"

definition ErrLoadFailed :: go_error where
  "ErrLoadFailed = ErrNew Transient ''decider.load_failed''"

definition ErrApplyFailed :: go_error where
  "ErrApplyFailed = ErrNew Corruption ''decider.fold_failed''"

definition ErrSaveFailed :: go_error where
  "ErrSaveFailed = ErrNew Transient ''decider.save_failed''"

definition ErrIncompleteSnapshotConfig :: go_error where
  "ErrIncompleteSnapshotConfig = ErrNew Infrastructure ''decider.incomplete_snapshot_config''"

definition ErrWaitTimeout :: go_error where
  "ErrWaitTimeout = ErrNew Transient ''decider.wait_timeout''"

definition ErrStrictApplyUnknownType :: go_error where
  "ErrStrictApplyUnknownType = ErrNew Corruption ''decider.strict_apply_unknown_type''"

text \<open>\<open>opError\<close>: the error arguments, joined when there are several, become the cause.\<close>

definition opError :: "(go_error \<Rightarrow> family) \<Rightarrow> go_error list \<Rightarrow> go_error" where
  "opError cls errs =
     (if length errs = 0 then ErrNew Infrastructure ''decider.op_error''
      else let cause = (if length errs > 1 then ErrJoin errs else hd errs) in
        ErrWrap (cls cause) ''decider.op_error'' cause)"

definition snapshotConfigIncomplete ::
  "('s, 'n, 'c, 'b, 'x, 'st) Repository \<Rightarrow> SnapshotStrategy option \<Rightarrow> bool" where
  "snapshotConfigIncomplete R strategy \<longleftrightarrow>
     strategy \<noteq> None \<and> (r_snapshotStore R = None \<or> r_codec R = None)"

definition NewRepository ::
  "'s event_ops option \<Rightarrow> ('b \<Rightarrow> event list \<Rightarrow> 'b \<times> go_error option) option \<Rightarrow> 'st \<Rightarrow>
   ('st \<Rightarrow> event \<Rightarrow> 'st outcome) option \<Rightarrow>
   (('s, 'n, 'c, 'b, 'x, 'st) Repository \<times> SnapshotStrategy option \<Rightarrow>
    ('s, 'n, 'c, 'b, 'x, 'st) Repository \<times> SnapshotStrategy option) list \<Rightarrow>
   (('s, 'n, 'c, 'b, 'x, 'st) Repository \<times> SnapshotStrategy option) outcome" where
  "NewRepository storeo publisher initial applyo opts =
     (case storeo of
        None \<Rightarrow> Fail ErrNilStore
      | Some store \<Rightarrow>
          (case applyo of
             None \<Rightarrow> Fail ErrNilApply
           | Some app \<Rightarrow>
               (let (R, strategy) = fold (\<lambda>opt r. opt r) opts
                      (\<lparr>r_store = store, r_publisher = publisher, r_snapshotStore = None,
                        r_codec = None, r_snapshotStateShape = [], r_enricher = None,
                        r_decider = \<lparr>de_Initial = initial, de_Apply = app\<rparr>,
                        r_loadCoalescing = True, r_stateCache = None\<rparr>, None)
                in if snapshotConfigIncomplete R strategy then Fail ErrIncompleteSnapshotConfig
                   else Ok (R, strategy))))"

section \<open>Folding and loading\<close>

fun foldEvents ::
  "(go_error \<Rightarrow> family) \<Rightarrow> ('s, 'n, 'c, 'b, 'x, 'st) Repository \<Rightarrow> 'st \<Rightarrow> event list \<Rightarrow> 'st outcome" where
  "foldEvents cls R state [] = Ok state"
| "foldEvents cls R state (evt # evts) =
     (case de_Apply (r_decider R) state evt of
        Ok state' \<Rightarrow> foldEvents cls R state' evts
      | Fail err \<Rightarrow> Fail (opError cls [ErrApplyFailed, err])
      | Panic \<Rightarrow> Panic)"

definition loadByEvents ::
  "(go_error \<Rightarrow> family) \<Rightarrow> ('s, 'n, 'c, 'b, 'x, 'st) Repository \<Rightarrow> event list outcome \<Rightarrow>
   ('st \<times> Version) outcome" where
  "loadByEvents cls R loaded =
     (case loaded of
        Panic \<Rightarrow> Panic
      | Fail err \<Rightarrow>
          if errors_Is err ErrStreamNotFound then Ok (de_Initial (r_decider R), 0)
          else Fail (opError cls [ErrLoadFailed, err])
      | Ok events \<Rightarrow>
          obind (foldEvents cls R (de_Initial (r_decider R)) events) (\<lambda>state.
            Ok (state, of_nat (length events))))"

text \<open>
  The key of load coalescing, and \<open>singleflight\<close>: a load in flight under the key shares its
  result, otherwise the load runs.
\<close>

definition coalesceKey :: "(StreamID \<Rightarrow> string) \<Rightarrow> StreamRef \<Rightarrow> string" where
  "coalesceKey disp ref = sr_Type ref @ ''/'' @ disp (sr_ID ref)"

definition coalesced_load ::
  "(StreamID \<Rightarrow> string) \<Rightarrow> ('s, 'n, 'c, 'b, 'x, 'st) Repository \<Rightarrow> ('s, 'n, 'c, 'b) world \<Rightarrow>
   StreamRef \<Rightarrow> event list outcome" where
  "coalesced_load disp R w ref =
     (if \<not> r_loadCoalescing R then eo_Load (r_store R) (w_store w) ref
      else case w_inflight w (coalesceKey disp ref) of
          Some result \<Rightarrow> result
        | None \<Rightarrow> eo_Load (r_store R) (w_store w) ref)"

definition loadFromStore ::
  "(go_error \<Rightarrow> family) \<Rightarrow> (StreamID \<Rightarrow> string) \<Rightarrow> ('s, 'n, 'c, 'b, 'x, 'st) Repository \<Rightarrow>
   ('s, 'n, 'c, 'b) world \<Rightarrow> StreamRef \<Rightarrow> ('st \<times> Version) outcome" where
  "loadFromStore cls disp R w ref = loadByEvents cls R (coalesced_load disp R w ref)"

definition LoadAtVersionRef ::
  "(go_error \<Rightarrow> family) \<Rightarrow> ('s, 'n, 'c, 'b, 'x, 'st) Repository \<Rightarrow> ('s, 'n, 'c, 'b) world \<Rightarrow>
   StreamRef \<Rightarrow> Version \<Rightarrow> ('st \<times> Version) outcome" where
  "LoadAtVersionRef cls R w ref maxVersion =
     loadByEvents cls R (eo_LoadToVersion (r_store R) (w_store w) ref maxVersion)"

definition LoadAtTimeRef ::
  "(go_error \<Rightarrow> family) \<Rightarrow> ('s, 'n, 'c, 'b, 'x, 'st) Repository \<Rightarrow> ('s, 'n, 'c, 'b) world \<Rightarrow>
   StreamRef \<Rightarrow> instant \<Rightarrow> ('st \<times> Version) outcome" where
  "LoadAtTimeRef cls R w ref maxTime =
     loadByEvents cls R (eo_LoadToTimestamp (r_store R) (w_store w) ref maxTime)"

definition snapshotShapeMismatch ::
  "('s, 'n, 'c, 'b, 'x, 'st) Repository \<Rightarrow> Snapshot \<Rightarrow> bool" where
  "snapshotShapeMismatch R snap \<longleftrightarrow>
     r_snapshotStateShape R \<noteq> [] \<and> sn_StateShape snap \<noteq> [] \<and>
     sn_StateShape snap \<noteq> r_snapshotStateShape R"

text \<open>The two configured collaborators of a snapshot load are its arguments.\<close>

definition loadFromSnapshot ::
  "(go_error \<Rightarrow> family) \<Rightarrow> (StreamID \<Rightarrow> string) \<Rightarrow> ('s, 'n, 'c, 'b, 'x, 'st) Repository \<Rightarrow>
   'n snapshot_ops \<Rightarrow> 'st state_codec \<Rightarrow> ('s, 'n, 'c, 'b) world \<Rightarrow> StreamRef \<Rightarrow>
   ('s, 'n, 'c, 'b) world \<times> ('st \<times> Version) outcome" where
  "loadFromSnapshot cls disp R snaps c w ref =
     (case so_Load snaps (w_snaps w) ref of
        (n, result) \<Rightarrow>
          (let w1 = w\<lparr>w_snaps := n\<rparr> in
           case result of
             Panic \<Rightarrow> (w1, Panic)
           | Fail err \<Rightarrow>
               if \<not> errors_Is err ErrSnapshotNotFound then (w1, Fail (opError cls [err]))
               else (w1, loadFromStore cls disp R w1 ref)
           | Ok None \<Rightarrow> (w1, loadFromStore cls disp R w1 ref)
           | Ok (Some snap) \<Rightarrow>
               if snapshotShapeMismatch R snap
               then (let w2 = w1\<lparr>w_shapeDiscards := w_shapeDiscards w1 + 1\<rparr> in
                     (w2, loadFromStore cls disp R w2 ref))
               else (case sc_Decode c (sn_State snap) of
                       Panic \<Rightarrow> (w1, Panic)
                     | Fail err \<Rightarrow> (w1, Fail (opError cls [err]))
                     | Ok state \<Rightarrow>
                         (case eo_LoadFromVersion (r_store R) (w_store w1) ref (sn_Version snap) of
                            Panic \<Rightarrow> (w1, Panic)
                          | Fail err \<Rightarrow> (w1, Fail (opError cls [ErrLoadFailed, err]))
                          | Ok events \<Rightarrow>
                              (w1, obind (foldEvents cls R state events) (\<lambda>state'.
                                 Ok (state', Version_Add (sn_Version snap) (of_nat (length events)))))))))"

text \<open>\<open>loadFromCache\<close>: the third result is the hit flag; a panic is passed on.\<close>

definition loadFromCache ::
  "(go_error \<Rightarrow> family) \<Rightarrow> ('s, 'n, 'c, 'b, 'x, 'st) Repository \<Rightarrow> ('c, 'st) cache_ops \<Rightarrow>
   ('s, 'n, 'c, 'b) world \<Rightarrow> StreamRef \<Rightarrow>
   ('s, 'n, 'c, 'b) world \<times> ('st \<times> Version) option outcome" where
  "loadFromCache cls R ca w ref =
     (case ca_Get ca (w_cache w) ref of
        None \<Rightarrow> (w, Ok None)
      | Some (cachedState, cachedVersion) \<Rightarrow>
          (case eo_LoadFromVersion (r_store R) (w_store w) ref cachedVersion of
             Panic \<Rightarrow> (w, Panic)
           | Fail _ \<Rightarrow> (w\<lparr>w_cache := ca_Invalidate ca (w_cache w) ref\<rparr>, Ok None)
           | Ok events \<Rightarrow>
               if length events = 0 then (w, Ok (Some (cachedState, cachedVersion)))
               else (case foldEvents cls R cachedState events of
                       Panic \<Rightarrow> (w, Panic)
                     | Fail _ \<Rightarrow> (w\<lparr>w_cache := ca_Invalidate ca (w_cache w) ref\<rparr>, Ok None)
                     | Ok finalState \<Rightarrow>
                         (let finalVersion = Version_Add cachedVersion (of_nat (length events)) in
                          (w\<lparr>w_cache := ca_Put ca (w_cache w) ref finalState finalVersion\<rparr>,
                           Ok (Some (finalState, finalVersion)))))))"

definition recordRead ::
  "(StreamID \<Rightarrow> string) \<Rightarrow> ('s, 'n, 'c, 'b) world \<Rightarrow> StreamRef \<Rightarrow> ('s, 'n, 'c, 'b) world" where
  "recordRead disp w ref =
     (case w_strategy w of
        Some (ReadPressureStrategy rp) \<Rightarrow>
          w\<lparr>w_strategy := Some (ReadPressureStrategy (RecordRead disp rp ref))\<rparr>
      | _ \<Rightarrow> w)"

definition LoadRef_uncached ::
  "(go_error \<Rightarrow> family) \<Rightarrow> (StreamID \<Rightarrow> string) \<Rightarrow> ('s, 'n, 'c, 'b, 'x, 'st) Repository \<Rightarrow>
   ('s, 'n, 'c, 'b) world \<Rightarrow> StreamRef \<Rightarrow> ('s, 'n, 'c, 'b) world \<times> ('st \<times> Version) outcome" where
  "LoadRef_uncached cls disp R w ref =
     (case (r_snapshotStore R, r_codec R) of
        (Some snaps, Some c) \<Rightarrow> loadFromSnapshot cls disp R snaps c w ref
      | _ \<Rightarrow> (w, loadFromStore cls disp R w ref))"

definition LoadRef ::
  "(go_error \<Rightarrow> family) \<Rightarrow> (StreamID \<Rightarrow> string) \<Rightarrow> ('s, 'n, 'c, 'b, 'x, 'st) Repository \<Rightarrow>
   ('s, 'n, 'c, 'b) world \<Rightarrow> StreamRef \<Rightarrow> ('s, 'n, 'c, 'b) world \<times> ('st \<times> Version) outcome" where
  "LoadRef cls disp R w ref =
     (case (case r_stateCache R of
              None \<Rightarrow> (w, Ok None)
            | Some ca \<Rightarrow> loadFromCache cls R ca w ref) of
        (w1, Panic) \<Rightarrow> (w1, Panic)
      | (w1, Fail e) \<Rightarrow> (w1, Fail e)
      | (w1, Ok (Some (state, ver))) \<Rightarrow> (recordRead disp w1 ref, Ok (state, ver))
      | (w1, Ok None) \<Rightarrow>
          (case LoadRef_uncached cls disp R w1 ref of
             (w2, Ok (state, ver)) \<Rightarrow>
               (let w3 = recordRead disp w2 ref in
                (case r_stateCache R of
                   None \<Rightarrow> w3
                 | Some ca \<Rightarrow> w3\<lparr>w_cache := ca_Put ca (w_cache w3) ref state ver\<rparr>,
                 Ok (state, ver)))
           | (w2, Fail err) \<Rightarrow> (w2, Fail err)
           | (w2, Panic) \<Rightarrow> (w2, Panic)))"

section \<open>Executing\<close>

definition applyEnricher ::
  "('s, 'n, 'c, 'b, 'x, 'st) Repository \<Rightarrow> 'x \<Rightarrow> event list \<Rightarrow> event list" where
  "applyEnricher R ctx events =
     (case r_enricher R of
        None \<Rightarrow> events
      | Some enricher \<Rightarrow>
          (let opts = enricher ctx in
           if length opts = 0 then events else map (apply_opts opts) events))"

definition snapshotEncoding :: "'st state_codec \<Rightarrow> record_Encoding" where
  "snapshotEncoding c =
     (case ParseEncoding (sc_Encoding c) of Ok parsed \<Rightarrow> parsed | _ \<Rightarrow> RecordUnknown)"

text \<open>The fold of \<open>saveSnapshotAfterEvents\<close> over the raw apply function.\<close>

fun snapshot_fold :: "('st \<Rightarrow> event \<Rightarrow> 'st outcome) \<Rightarrow> 'st \<Rightarrow> event list \<Rightarrow> 'st outcome" where
  "snapshot_fold app st [] = Ok st"
| "snapshot_fold app st (evt # evts) = obind (app st evt) (\<lambda>st'. snapshot_fold app st' evts)"

text \<open>A panic while snapshotting or updating the cache aborts the call: the flag of the result.\<close>

definition saveSnapshotAfterEvents ::
  "(StreamID \<Rightarrow> string) \<Rightarrow> instant \<Rightarrow> ('s, 'n, 'c, 'b, 'x, 'st) Repository \<Rightarrow>
   ('s, 'n, 'c, 'b) world \<Rightarrow> StreamRef \<Rightarrow> Version \<Rightarrow> 'st \<Rightarrow> event list \<Rightarrow>
   ('s, 'n, 'c, 'b) world \<times> unit outcome" where
  "saveSnapshotAfterEvents disp now R w ref newVersion state newEvents =
     (case ShouldSnapshotFor disp (w_strategy w) (r_snapshotStore R \<noteq> None) (r_codec R \<noteq> None) ref
             newVersion of
        (strategy, due) \<Rightarrow>
          (let w1 = w\<lparr>w_strategy := strategy\<rparr> in
           case due of
             Panic \<Rightarrow> (w1, Panic)
           | Fail e \<Rightarrow> (w1, Ok ())
           | Ok False \<Rightarrow> (w1, Ok ())
           | Ok True \<Rightarrow>
               (case (r_snapshotStore R, r_codec R) of
                  (Some snaps, Some c) \<Rightarrow>
                    (case snapshot_fold (de_Apply (r_decider R)) state newEvents of
                       Panic \<Rightarrow> (w1, Panic)
                     | Fail _ \<Rightarrow> (w1, Ok ())
                     | Ok finalState \<Rightarrow>
                         (case sc_Encode c finalState of
                            Panic \<Rightarrow> (w1, Panic)
                          | Fail _ \<Rightarrow> (w1, Ok ())
                          | Ok encoded \<Rightarrow>
                              (case NewSnapshot now ref newVersion encoded (snapshotEncoding c) of
                                 Panic \<Rightarrow> (w1, Panic)
                               | Fail _ \<Rightarrow> (w1, Ok ())
                               | Ok snap \<Rightarrow>
                                   (case so_Save snaps (w_snaps w1)
                                           (snap\<lparr>sn_StateShape := r_snapshotStateShape R\<rparr>) of
                                      (n, _) \<Rightarrow> (w1\<lparr>w_snaps := n\<rparr>, Ok ())))))
                | _ \<Rightarrow> (w1, Ok ()))))"

definition updateCacheAfterExecute ::
  "(go_error \<Rightarrow> family) \<Rightarrow> ('s, 'n, 'c, 'b, 'x, 'st) Repository \<Rightarrow> ('c, 'st) cache_ops \<Rightarrow>
   ('s, 'n, 'c, 'b) world \<Rightarrow> StreamRef \<Rightarrow> 'st \<Rightarrow> Version \<Rightarrow> event list \<Rightarrow>
   ('s, 'n, 'c, 'b) world \<times> unit outcome" where
  "updateCacheAfterExecute cls R ca w ref state newVersion newEvents =
     (if length newEvents = 0 then (w, Ok ())
      else case foldEvents cls R state newEvents of
          Panic \<Rightarrow> (w, Panic)
        | Fail _ \<Rightarrow> (w\<lparr>w_cache := ca_Invalidate ca (w_cache w) ref\<rparr>, Ok ())
        | Ok finalState \<Rightarrow>
            (w\<lparr>w_cache := ca_Put ca (w_cache w) ref finalState newVersion\<rparr>, Ok ()))"

definition after_publish ::
  "(go_error \<Rightarrow> family) \<Rightarrow> (StreamID \<Rightarrow> string) \<Rightarrow> instant \<Rightarrow> ('s, 'n, 'c, 'b, 'x, 'st) Repository \<Rightarrow>
   ('s, 'n, 'c, 'b) world \<Rightarrow> StreamRef \<Rightarrow> 'st \<Rightarrow> Version \<Rightarrow> event list \<Rightarrow>
   ('s, 'n, 'c, 'b) world \<times> unit outcome" where
  "after_publish cls disp now R w ref state currentVersion newEvents =
     (let newVersion = Version_Add currentVersion (of_nat (length newEvents)) in
      case saveSnapshotAfterEvents disp now R w ref newVersion state newEvents of
        (w1, Ok _) \<Rightarrow>
          (case r_stateCache R of
             None \<Rightarrow> (w1, Ok ())
           | Some ca \<Rightarrow> updateCacheAfterExecute cls R ca w1 ref state newVersion newEvents)
      | (w1, other) \<Rightarrow> (w1, other))"

definition ExecuteRef ::
  "(go_error \<Rightarrow> family) \<Rightarrow> (StreamID \<Rightarrow> string) \<Rightarrow> instant \<Rightarrow> ('s, 'n, 'c, 'b, 'x, 'st) Repository \<Rightarrow>
   'x \<Rightarrow> ('s, 'n, 'c, 'b) world \<Rightarrow> StreamRef \<Rightarrow> ('st \<Rightarrow> Version \<Rightarrow> event list outcome) \<Rightarrow>
   ('s, 'n, 'c, 'b) world \<times> unit outcome" where
  "ExecuteRef cls disp now R ctx w ref decide =
     (case LoadRef cls disp R w ref of
        (w1, Panic) \<Rightarrow> (w1, Panic)
      | (w1, Fail err) \<Rightarrow> (w1, Fail err)
      | (w1, Ok (state, currentVersion)) \<Rightarrow>
          (case decide state currentVersion of
             Panic \<Rightarrow> (w1, Panic)
           | Fail err \<Rightarrow> (w1, Fail err)
           | Ok decided \<Rightarrow>
               if length decided = 0 then (w1, Ok ())
               else (let newEvents = applyEnricher R ctx decided in
                     case eo_Save (r_store R) (w_store w1) ref newEvents currentVersion of
                       (s, Some err) \<Rightarrow>
                         (w1\<lparr>w_store := s\<rparr>, Fail (opError cls [ErrSaveFailed, err]))
                     | (s, None) \<Rightarrow>
                         (let w2 = w1\<lparr>w_store := s\<rparr> in
                          case r_publisher R of
                            None \<Rightarrow> after_publish cls disp now R w2 ref state currentVersion newEvents
                          | Some publish \<Rightarrow>
                              (case publish (w_bus w2) newEvents of
                                 (b, Some err) \<Rightarrow>
                                   (w2\<lparr>w_bus := b\<rparr>,
                                    Fail (opError cls
                                      [ErrWrap Infrastructure ''event.publish_failed'' err]))
                               | (b, None) \<Rightarrow>
                                   after_publish cls disp now R (w2\<lparr>w_bus := b\<rparr>) ref state
                                     currentVersion newEvents)))))"

section \<open>Commands\<close>

definition causationOptions :: "(ulid \<Rightarrow> string) \<Rightarrow> string \<Rightarrow> ulid \<Rightarrow> option_fn list" where
  "causationOptions udisp cmdType cmdID =
     [WithCausation cmdType cmdID, WithCustom MetadataKeyCommandID (udisp cmdID)]
     @ (if cmdType \<noteq> [] then [WithCustom MetadataKeyCommandType cmdType] else [])"

definition stampCommandCausation ::
  "(ulid \<Rightarrow> string) \<Rightarrow> event list \<Rightarrow> string \<Rightarrow> ulid \<Rightarrow> event list" where
  "stampCommandCausation udisp events cmdType cmdID =
     (if cmdID = 0 \<or> length events = 0 then events
      else map (\<lambda>evt. if m_Causation (e_metadata evt) \<noteq> None then evt
                      else apply_opts (causationOptions udisp cmdType cmdID) evt) events)"

text \<open>The type of a command is \<open>None\<close> when the command has no \<open>Type\<close> method.\<close>

definition commandTypeOf :: "('m \<Rightarrow> string option) \<Rightarrow> 'm \<Rightarrow> string" where
  "commandTypeOf typer cmd = (case typer cmd of None \<Rightarrow> [] | Some t \<Rightarrow> t)"

definition ExecuteCommandRef ::
  "(go_error \<Rightarrow> family) \<Rightarrow> (StreamID \<Rightarrow> string) \<Rightarrow> (ulid \<Rightarrow> string) \<Rightarrow> instant \<Rightarrow>
   ('m \<Rightarrow> ulid) \<Rightarrow> ('m \<Rightarrow> string option) \<Rightarrow> ('s, 'n, 'c, 'b, 'x, 'st) Repository \<Rightarrow> 'x \<Rightarrow>
   ('s, 'n, 'c, 'b) world \<Rightarrow> StreamRef \<Rightarrow> 'm \<Rightarrow> ('st \<Rightarrow> Version \<Rightarrow> 'm \<Rightarrow> event list outcome) \<Rightarrow>
   ('s, 'n, 'c, 'b) world \<times> unit outcome" where
  "ExecuteCommandRef cls disp udisp now ID typer R ctx w ref cmd decide =
     ExecuteRef cls disp now R ctx w ref (\<lambda>state currentVersion.
       obind (decide state currentVersion cmd) (\<lambda>newEvents.
         Ok (stampCommandCausation udisp newEvents (commandTypeOf typer cmd) (ID cmd))))"

definition StrictApply ::
  "('st \<Rightarrow> event \<Rightarrow> 'st outcome) \<Rightarrow> string list \<Rightarrow> 'st \<Rightarrow> event \<Rightarrow> 'st outcome" where
  "StrictApply app knownTypes state evt =
     (if e_eventType evt \<notin> set knownTypes then Fail (ErrFmt [ErrStrictApplyUnknownType])
      else app state evt)"

record ('st, 'm) TypedDecider =
  td_Initial :: 'st
  td_Decide :: "('st \<Rightarrow> 'm \<Rightarrow> event list outcome) option"
  td_Apply :: "('st \<Rightarrow> event \<Rightarrow> 'st outcome) option"

definition NewTypedRepository ::
  "'s event_ops option \<Rightarrow> ('b \<Rightarrow> event list \<Rightarrow> 'b \<times> go_error option) option \<Rightarrow>
   ('st, 'm) TypedDecider \<Rightarrow>
   (('s, 'n, 'c, 'b, 'x, 'st) Repository \<times> SnapshotStrategy option \<Rightarrow>
    ('s, 'n, 'c, 'b, 'x, 'st) Repository \<times> SnapshotStrategy option) list \<Rightarrow>
   (('st, 'm) TypedDecider \<times> ('s, 'n, 'c, 'b, 'x, 'st) Repository \<times> SnapshotStrategy option) outcome" where
  "NewTypedRepository storeo publisher d opts =
     (if td_Decide d = None then Fail ErrNilDecide
      else obind (NewRepository storeo publisher (td_Initial d) (td_Apply d) opts)
             (\<lambda>inner. Ok (d, inner)))"

definition typed_ExecuteCommandRef ::
  "(go_error \<Rightarrow> family) \<Rightarrow> (StreamID \<Rightarrow> string) \<Rightarrow> instant \<Rightarrow> ('st, 'm) TypedDecider \<Rightarrow>
   ('s, 'n, 'c, 'b, 'x, 'st) Repository \<Rightarrow> 'x \<Rightarrow> ('s, 'n, 'c, 'b) world \<Rightarrow> StreamRef \<Rightarrow> 'm \<Rightarrow>
   ('s, 'n, 'c, 'b) world \<times> unit outcome" where
  "typed_ExecuteCommandRef cls disp now d R ctx w ref cmd =
     ExecuteRef cls disp now R ctx w ref (\<lambda>state _. case td_Decide d of
       None \<Rightarrow> Panic
     | Some f \<Rightarrow> f state cmd)"

section \<open>Waiting for a version\<close>

text \<open>
  The polling loop: \<open>stores\<close> gives the state of the event store at each poll, \<open>done\<close> whether the
  deadline has passed when the loop waits after that poll. Fuel bounds the number of polls.
\<close>

fun WaitForVersion_loop ::
  "(go_error \<Rightarrow> family) \<Rightarrow> 's event_ops \<Rightarrow> (nat \<Rightarrow> 's) \<Rightarrow> (nat \<Rightarrow> bool) \<Rightarrow> StreamRef \<Rightarrow> Version \<Rightarrow>
   nat \<Rightarrow> nat \<Rightarrow> event list outcome option" where
  "WaitForVersion_loop cls store stores done ref version i 0 = None"
| "WaitForVersion_loop cls store stores done ref version i (Suc fuel) =
     (let wait = (if done i then Some (Fail ErrWaitTimeout)
                  else WaitForVersion_loop cls store stores done ref version (Suc i) fuel)
      in case eo_LoadFromVersion store (stores i) ref (version - 1) of
           Panic \<Rightarrow> Some Panic
         | Fail err \<Rightarrow>
             if errors_Is err ErrStreamNotFound then wait
             else Some (Fail (opError cls [ErrLoadFailed, err]))
         | Ok events \<Rightarrow> if length events > 0 then Some (Ok events) else wait)"

definition WaitForVersionRef ::
  "(go_error \<Rightarrow> family) \<Rightarrow> 's event_ops \<Rightarrow> (nat \<Rightarrow> 's) \<Rightarrow> (nat \<Rightarrow> bool) \<Rightarrow> StreamRef \<Rightarrow> Version \<Rightarrow>
   nat \<Rightarrow> event list outcome option" where
  "WaitForVersionRef cls store stores done ref version fuel =
     (if version = 0 then Some (Fail (ErrNew Rejection ''decider.wait_invalid_version''))
      else WaitForVersion_loop cls store stores done ref version 0 fuel)"

section \<open>Replay\<close>

lemma snapshot_fold_append:
  "snapshot_fold app st (xs @ ys) = obind (snapshot_fold app st xs) (\<lambda>st'. snapshot_fold app st' ys)"
  by (induction xs arbitrary: st) (auto simp: obind_assoc)

lemma foldEvents_replay:
  "foldEvents cls R st es =
     (case snapshot_fold (de_Apply (r_decider R)) st es of
        Ok st' \<Rightarrow> Ok st'
      | Fail err \<Rightarrow> Fail (opError cls [ErrApplyFailed, err])
      | Panic \<Rightarrow> Panic)"
  by (induction es arbitrary: st) (auto split: outcome.split)

lemma opError_apply [simp]: "errors_Is (opError cls [ErrApplyFailed, err]) ErrApplyFailed"
  by (simp add: opError_def Let_def)

text \<open>\<open>st\<close> is the state of a stream at version \<open>v\<close>.\<close>

definition state_at ::
  "('st \<Rightarrow> event \<Rightarrow> 'st outcome) \<Rightarrow> 'st \<Rightarrow> event list \<Rightarrow> Version \<Rightarrow> 'st \<Rightarrow> bool" where
  "state_at app init es v st \<longleftrightarrow>
     version_ok v \<and> unat v \<le> length es \<and> snapshot_fold app init (take (unat v) es) = Ok st"

lemma state_at_rest:
  assumes "state_at app init es v st"
  shows "snapshot_fold app st (drop (unat v) es) = snapshot_fold app init es"
  using assms snapshot_fold_append [of app init "take (unat v) es" "drop (unat v) es"]
  by (simp add: state_at_def)

lemma state_at_version:
  assumes "state_at app init es v st"
  shows "Version_Add v (of_nat (length (drop (unat v) es))) = of_nat (length es)"
proof -
  have "v + of_nat (length es - unat v) = of_nat (unat v + (length es - unat v))"
    by (simp only: of_nat_add of_nat_unat_self)
  then show ?thesis using assms by (simp add: state_at_def Version_Add_def)
qed

lemma state_at_append: "state_at app init es v st \<Longrightarrow> state_at app init (es @ evs) v st"
  by (simp add: state_at_def)

lemma state_at_whole:
  assumes "snapshot_fold app init es = Ok st" and "length es < 2 ^ 63"
  shows "state_at app init es (of_nat (length es)) st"
  using assms version_ok_of_nat [OF assms(2)] by (simp add: state_at_def)

text \<open>What a load has to return for a stream, whichever path it takes.\<close>

definition load_result ::
  "('st \<Rightarrow> event \<Rightarrow> 'st outcome) \<Rightarrow> 'st \<Rightarrow> event list \<Rightarrow> ('st \<times> Version) outcome \<Rightarrow> bool" where
  "load_result app init es res \<longleftrightarrow>
     (case snapshot_fold app init es of
        Ok st \<Rightarrow> res = Ok (st, of_nat (length es))
      | Fail _ \<Rightarrow> \<exists>e. res = Fail e \<and> errors_Is e ErrApplyFailed
      | Panic \<Rightarrow> res = Panic)"

lemma NewSnapshot_Ok:
  assumes "NewSnapshot now ref v st enc = Ok x"
  shows "sn_State x = st \<and> sn_Version x = v \<and> v \<noteq> 0 \<and> Snapshot_Ref x = ref"
  using assms
  by (auto simp: NewSnapshot_def Snapshot_Validate_def Snapshot_Ref_def NewStreamRef_def Let_def
      split: option.splits if_splits)

lemma recordRead_strategy: "\<exists>x. recordRead disp w r = w\<lparr>w_strategy := x\<rparr>"
proof (cases "recordRead disp w r = w")
  case True
  then have "recordRead disp w r = w\<lparr>w_strategy := w_strategy w\<rparr>" by (cases w) simp
  then show ?thesis by blast
next
  case False
  then show ?thesis
    by (auto simp: recordRead_def split: option.splits SnapshotStrategy.splits)
qed

text \<open>A stream only grows.\<close>

definition begins :: "'a list \<Rightarrow> 'a list \<Rightarrow> bool" where
  "begins xs ys \<longleftrightarrow> (\<exists>zs. ys = xs @ zs)"

lemma begins_refl [simp]: "begins xs xs" and begins_append [simp]: "begins xs (xs @ ys)"
  by (simp_all add: begins_def)

lemma begins_trans: "begins xs ys \<Longrightarrow> begins ys zs \<Longrightarrow> begins xs zs"
  by (auto simp: begins_def)

section \<open>The repository over its interfaces\<close>

locale repository =
  es: event_store inv is_open StreamKey stream save load loadFrom loadTo loadToTime +
  sn: snapshot_store ninv content nops
  for inv :: "'s \<Rightarrow> bool" and is_open and stream and save and load and loadFrom and loadTo
    and loadToTime and ninv :: "'n \<Rightarrow> bool" and content and nops +
  fixes ca :: "('c, 'st) cache_ops"
    and disp :: "StreamID \<Rightarrow> string"
    and D :: "StreamRef \<Rightarrow> bool"
    and codec :: "'st state_codec"
    and R :: "('s, 'n, 'c, 'b, 'x, 'st) Repository"
  assumes cache_put: "ca_Get ca (ca_Put ca c r st v) r' = Some x \<Longrightarrow>
      StreamRef_String disp r' = StreamRef_String disp r \<and> x = (st, v) \<or> ca_Get ca c r' = Some x"
    and cache_invalidate: "ca_Get ca (ca_Invalidate ca c r) r' = Some x \<Longrightarrow> ca_Get ca c r' = Some x"
    and keys: "D r \<Longrightarrow> D r' \<Longrightarrow> StreamRef_String disp r = StreamRef_String disp r' \<Longrightarrow>
      StreamKey r = StreamKey r'"
    and decode_encode: "sc_Encode codec st = Ok b \<Longrightarrow> sc_Decode codec b = Ok st"
    and config: "r_store R = \<lparr>eo_Save = save, eo_Load = load, eo_LoadFromVersion = loadFrom,
        eo_LoadToVersion = loadTo, eo_LoadToTimestamp = loadToTime\<rparr>"
      "r_snapshotStore R \<in> {None, Some nops}" "r_codec R \<in> {None, Some codec}"
      "r_stateCache R \<in> {None, Some ca}"
begin

abbreviation app where "app \<equiv> de_Apply (r_decider R)"
abbreviation init where "init \<equiv> de_Initial (r_decider R)"

definition snap_ok :: "event list \<Rightarrow> Snapshot \<Rightarrow> bool" where
  "snap_ok evs x \<longleftrightarrow> snapshotShapeMismatch R x \<or>
     (\<exists>st. sc_Decode codec (sn_State x) = Ok st \<and> sn_Version x \<noteq> 0 \<and>
           state_at app init evs (sn_Version x) st)"

definition world_ok :: "('s, 'n, 'c, 'b) world \<Rightarrow> bool" where
  "world_ok w \<longleftrightarrow>
     inv (w_store w) \<and> is_open (w_store w) \<and> ninv (w_snaps w) \<and>
     (\<forall>r st v. D r \<longrightarrow> ca_Get ca (w_cache w) r = Some (st, v) \<longrightarrow>
        state_at app init (stream (w_store w) (StreamKey r)) v st) \<and>
     (\<forall>k x. content (w_snaps w) k = Some x \<longrightarrow> snap_ok (stream (w_store w) k) x)"

text \<open>Loads in flight under the key of a stream give what a load of the stream gives.\<close>

definition flight_ok :: "('s, 'n, 'c, 'b) world \<Rightarrow> StreamRef \<Rightarrow> bool" where
  "flight_ok w r \<longleftrightarrow>
     (\<forall>res. w_inflight w (coalesceKey disp r) = Some res \<longrightarrow> res = load (w_store w) r)"

lemma world_ok_strategy: "world_ok (w\<lparr>w_strategy := x\<rparr>) = world_ok w"
  by (simp add: world_ok_def)

lemma loadByEvents_load:
  assumes "inv s" and "is_open s"
  shows "load_result app init (stream s (StreamKey r)) (loadByEvents cls R (load s r))"
proof (cases "stream s (StreamKey r) = []")
  case True
  with es.load_missing [OF assms True] show ?thesis
    by (auto simp: load_result_def loadByEvents_def)
next
  case False
  with es.load_ok [OF assms False] show ?thesis
    by (auto simp: load_result_def loadByEvents_def foldEvents_replay split: outcome.split)
qed

lemma loadFromStore_result:
  assumes "world_ok w" and "flight_ok w r"
  shows "load_result app init (stream (w_store w) (StreamKey r)) (loadFromStore cls disp R w r)"
proof -
  have "coalesced_load disp R w r = load (w_store w) r"
    using assms(2) by (auto simp: coalesced_load_def config flight_ok_def split: option.split)
  with assms(1) loadByEvents_load [of "w_store w" r cls] show ?thesis
    by (simp add: loadFromStore_def world_ok_def)
qed

lemma rest_result:
  assumes "state_at app init evs v st"
  shows "load_result app init evs (obind (foldEvents cls R st (drop (unat v) evs))
           (\<lambda>st'. Ok (st', Version_Add v (of_nat (length (drop (unat v) evs))))))"
  using state_at_rest [OF assms] state_at_version [OF assms]
  by (auto simp: load_result_def foldEvents_replay simp del: length_drop split: outcome.split)

lemma discards_self [simp]:
  "w\<lparr>w_shapeDiscards := w_shapeDiscards w\<rparr> = w" "w\<lparr>w_snaps := w_snaps w\<rparr> = w"
  by (cases w, simp)+

lemma world_ok_discards [simp]:
  "world_ok (w\<lparr>w_shapeDiscards := n\<rparr>) = world_ok w"
  "flight_ok (w\<lparr>w_shapeDiscards := n\<rparr>) r = flight_ok w r"
  by (simp_all add: world_ok_def flight_ok_def)

lemma loadFromStore_same [simp]:
  "loadFromStore cls disp R (w\<lparr>w_shapeDiscards := n\<rparr>) r = loadFromStore cls disp R w r"
  "loadFromStore cls disp R (w\<lparr>w_cache := c\<rparr>) r = loadFromStore cls disp R w r"
  by (simp_all add: loadFromStore_def coalesced_load_def split: option.split)

text \<open>A load that does not replay what the store hands out replays the stream as it is now.\<close>

lemma loadFromSnapshot_reads:
  assumes "world_ok w"
  shows "\<exists>n res. loadFromSnapshot cls disp R nops codec w r = (w\<lparr>w_shapeDiscards := n\<rparr>, res) \<and>
           (load_result app init (stream (w_store w) (StreamKey r)) res \<or> res = loadFromStore cls disp R w r)"
proof -
  from assms have ninv: "ninv (w_snaps w)" by (simp add: world_ok_def)
  show ?thesis
  proof (cases "content (w_snaps w) (StreamKey r)")
    case None
    with sn.load_none [OF ninv] obtain e
      where "so_Load nops (w_snaps w) r = (w_snaps w, Fail e)" "errors_Is e ErrSnapshotNotFound"
      by blast
    then have "loadFromSnapshot cls disp R nops codec w r =
        (w\<lparr>w_shapeDiscards := w_shapeDiscards w\<rparr>, loadFromStore cls disp R w r)"
      by (simp add: loadFromSnapshot_def)
    then show ?thesis by blast
  next
    case (Some x)
    with sn.load_some [OF ninv] have ld: "so_Load nops (w_snaps w) r = (w_snaps w, Ok (Some x))"
      by simp
    show ?thesis
    proof (cases "snapshotShapeMismatch R x")
      case True
      with ld have "loadFromSnapshot cls disp R nops codec w r =
          (w\<lparr>w_shapeDiscards := w_shapeDiscards w + 1\<rparr>, loadFromStore cls disp R w r)"
        by (simp add: loadFromSnapshot_def Let_def)
      then show ?thesis by blast
    next
      case False
      with assms Some obtain st where st: "sc_Decode codec (sn_State x) = Ok st"
        "sn_Version x \<noteq> 0" "state_at app init (stream (w_store w) (StreamKey r)) (sn_Version x) st"
        unfolding world_ok_def snap_ok_def by blast
      then have "stream (w_store w) (StreamKey r) \<noteq> []"
        by (auto simp: state_at_def unat_eq_0)
      with st(3) assms have "loadFrom (w_store w) r (sn_Version x) =
          Ok (drop (unat (sn_Version x)) (stream (w_store w) (StreamKey r)))"
        by (intro es.loadFrom_ok) (auto simp: world_ok_def state_at_def)
      with ld False st(1) rest_result [OF st(3), of cls] show ?thesis
        by (intro exI [of _ "w_shapeDiscards w"] exI conjI)
          (auto simp: loadFromSnapshot_def config simp del: length_drop)
    qed
  qed
qed

lemma uncached_reads:
  assumes "world_ok w"
  shows "\<exists>n res. LoadRef_uncached cls disp R w r = (w\<lparr>w_shapeDiscards := n\<rparr>, res) \<and>
           (load_result app init (stream (w_store w) (StreamKey r)) res \<or> res = loadFromStore cls disp R w r)"
proof (cases "r_snapshotStore R = Some nops \<and> r_codec R = Some codec")
  case True
  then show ?thesis using loadFromSnapshot_reads [OF assms] by (simp add: LoadRef_uncached_def)
next
  case False
  then have "LoadRef_uncached cls disp R w r =
      (w\<lparr>w_shapeDiscards := w_shapeDiscards w\<rparr>, loadFromStore cls disp R w r)"
    using config(2,3) by (auto simp: LoadRef_uncached_def split: option.split)
  then show ?thesis by blast
qed

text \<open>The cache after a put or an invalidation stays consistent.\<close>

lemma world_ok_put:
  assumes "world_ok w" and "D r" and "state_at app init (stream (w_store w) (StreamKey r)) v st"
  shows "world_ok (w\<lparr>w_cache := ca_Put ca (w_cache w) r st v\<rparr>)"
proof -
  have "state_at app init (stream (w_store w) (StreamKey r')) v' st'"
    if "D r'" and get: "ca_Get ca (ca_Put ca (w_cache w) r st v) r' = Some (st', v')" for r' st' v'
    using cache_put [OF get] keys [OF that(1) assms(2)] that(1) assms
    by (auto simp: world_ok_def)
  with assms(1) show ?thesis by (simp add: world_ok_def)
qed

lemma world_ok_invalidate:
  assumes "world_ok w"
  shows "world_ok (w\<lparr>w_cache := ca_Invalidate ca (w_cache w) r\<rparr>)"
proof -
  have "state_at app init (stream (w_store w) (StreamKey r')) v' st'"
    if "D r'" and get: "ca_Get ca (ca_Invalidate ca (w_cache w) r) r' = Some (st', v')" for r' st' v'
    using cache_invalidate [OF get] that(1) assms by (simp add: world_ok_def)
  with assms show ?thesis by (simp add: world_ok_def)
qed

lemma loadFromCache_result:
  assumes "world_ok w" and "D r" and "length (stream (w_store w) (StreamKey r)) < 2 ^ 63"
  shows "\<exists>c res. loadFromCache cls R ca w r = (w\<lparr>w_cache := c\<rparr>, res) \<and> world_ok (w\<lparr>w_cache := c\<rparr>) \<and>
           (case res of
              Ok None \<Rightarrow> True
            | Ok (Some p) \<Rightarrow> load_result app init (stream (w_store w) (StreamKey r)) (Ok p)
            | Fail e \<Rightarrow> False
            | Panic \<Rightarrow> load_result app init (stream (w_store w) (StreamKey r)) Panic)"
proof (cases "ca_Get ca (w_cache w) r")
  case None
  then show ?thesis using assms(1) by (intro exI [of _ "w_cache w"]) (simp add: loadFromCache_def)
next
  case (Some p)
  let ?evs = "stream (w_store w) (StreamKey r)"
  obtain st v where p: "p = (st, v)" by fastforce
  have sa: "state_at app init ?evs v st" using assms(1,2) Some p by (auto simp: world_ok_def)
  have opn: "inv (w_store w)" "is_open (w_store w)" using assms(1) by (simp_all add: world_ok_def)
  show ?thesis
  proof (cases "?evs = []")
    case True
    with es.loadFrom_missing [OF opn True] obtain e where "loadFrom (w_store w) r v = Fail e" by blast
    with Some p world_ok_invalidate [OF assms(1), of r] show ?thesis
      by (intro exI [of _ "ca_Invalidate ca (w_cache w) r"]) (simp add: loadFromCache_def config)
  next
    case False
    have lf: "loadFrom (w_store w) r v = Ok (drop (unat v) ?evs)"
      using sa by (intro es.loadFrom_ok [OF opn False]) (simp add: state_at_def)
    show ?thesis
    proof (cases "drop (unat v) ?evs = []")
      case True
      with sa have "v = of_nat (length ?evs)"
        by (simp add: state_at_def) (metis of_nat_unat_self le_antisym)
      moreover from True sa have "snapshot_fold app init ?evs = Ok st"
        by (simp add: state_at_def)
      ultimately show ?thesis
        using True Some p lf assms(1)
        by (intro exI [of _ "w_cache w"]) (simp add: loadFromCache_def config load_result_def)
    next
      case nonempty: False
      note rest = rest_result [OF sa, of cls]
      show ?thesis
      proof (cases "foldEvents cls R st (drop (unat v) ?evs)")
        case (Ok st')
        then have full: "snapshot_fold app init ?evs = Ok st'"
          using state_at_rest [OF sa] by (simp add: foldEvents_replay split: outcome.splits)
        have ver: "Version_Add v (of_nat (length (drop (unat v) ?evs))) = of_nat (length ?evs)"
          by (rule state_at_version [OF sa])
        have "world_ok (w\<lparr>w_cache := ca_Put ca (w_cache w) r st' (of_nat (length ?evs))\<rparr>)"
          by (rule world_ok_put [OF assms(1,2) state_at_whole [OF full assms(3)]])
        then show ?thesis
          using Ok Some p lf nonempty full
          by (intro exI [of _ "ca_Put ca (w_cache w) r st' (of_nat (length ?evs))"])
            (simp add: loadFromCache_def config load_result_def ver Let_def del: length_drop)
      next
        case (Fail e)
        with Some p lf nonempty world_ok_invalidate [OF assms(1), of r] show ?thesis
          by (intro exI [of _ "ca_Invalidate ca (w_cache w) r"])
            (simp add: loadFromCache_def config)
      next
        case Panic
        with rest Some p lf nonempty assms(1) show ?thesis
          by (intro exI [of _ "w_cache w"]) (simp add: loadFromCache_def config)
      qed
    qed
  qed
qed

lemma state_at_part:
  assumes "load_result app init (take m es) (Ok (st, v))" and "length es < 2 ^ 63"
  shows "state_at app init es v st"
proof -
  have "state_at app init (take m es) v st"
    using assms state_at_whole [of app init "take m es" st] by (auto simp: load_result_def split: outcome.splits)
  from state_at_append [OF this, of "drop m es"] show ?thesis by simp
qed

text \<open>
  Loading: when what the store hands out replays to the first \<open>m\<close> events, the result is the replay
  of these or of the whole stream.
\<close>

lemma LoadRef_reads:
  assumes "world_ok w" and "D r" and "length (stream (w_store w) (StreamKey r)) < 2 ^ 63"
    and store: "load_result app init (take m (stream (w_store w) (StreamKey r))) (loadFromStore cls disp R w r)"
  shows "\<exists>w' res. LoadRef cls disp R w r = (w', res) \<and> world_ok w' \<and>
           (load_result app init (stream (w_store w) (StreamKey r)) res \<or>
            load_result app init (take m (stream (w_store w) (StreamKey r))) res) \<and>
           w_store w' = w_store w \<and> w_bus w' = w_bus w \<and> w_snaps w' = w_snaps w"
proof -
  let ?evs = "stream (w_store w) (StreamKey r)"
  let ?good = "\<lambda>res. load_result app init ?evs res \<or> load_result app init (take m ?evs) res"
  let ?first = "case r_stateCache R of None \<Rightarrow> (w, Ok None) | Some ca \<Rightarrow> loadFromCache cls R ca w r"
  have "\<exists>c res. ?first = (w\<lparr>w_cache := c\<rparr>, res) \<and> world_ok (w\<lparr>w_cache := c\<rparr>) \<and>
      (case res of Ok None \<Rightarrow> True | Ok (Some p) \<Rightarrow> load_result app init ?evs (Ok p)
       | Fail e \<Rightarrow> False | Panic \<Rightarrow> load_result app init ?evs Panic)"
  proof (cases "r_stateCache R")
    case None
    then show ?thesis using assms(1) by (intro exI [of _ "w_cache w"]) simp
  next
    case (Some ca')
    then show ?thesis using config(4) loadFromCache_result [OF assms(1-3), of cls] by simp
  qed
  then obtain c res where first: "?first = (w\<lparr>w_cache := c\<rparr>, res)" "world_ok (w\<lparr>w_cache := c\<rparr>)"
    "case res of Ok None \<Rightarrow> True | Ok (Some p) \<Rightarrow> load_result app init ?evs (Ok p)
     | Fail e \<Rightarrow> False | Panic \<Rightarrow> load_result app init ?evs Panic"
    by blast
  show ?thesis
  proof (cases "res = Ok None")
    case True
    let ?w1 = "w\<lparr>w_cache := c\<rparr>"
    from uncached_reads [OF first(2), of cls r] store obtain n res' where
      unc: "LoadRef_uncached cls disp R ?w1 r = (?w1\<lparr>w_shapeDiscards := n\<rparr>, res')"
      and lr: "?good res'" by auto
    obtain x where rr: "recordRead disp (?w1\<lparr>w_shapeDiscards := n\<rparr>) r =
        ?w1\<lparr>w_shapeDiscards := n, w_strategy := x\<rparr>"
      using recordRead_strategy [of disp "?w1\<lparr>w_shapeDiscards := n\<rparr>" r] by auto
    let ?w2 = "?w1\<lparr>w_shapeDiscards := n, w_strategy := x\<rparr>"
    have ok2: "world_ok ?w2" "world_ok (?w1\<lparr>w_shapeDiscards := n\<rparr>)"
      using first(2) by (simp_all add: world_ok_strategy)
    show ?thesis
    proof (cases res')
      case (Ok p)
      then obtain st v where p: "res' = Ok (st, v)" by (cases p) auto
      then have sa: "state_at app init ?evs v st"
        using lr state_at_part [OF _ assms(3), of m st v] state_at_part [OF _ assms(3), of "length ?evs" st v] by auto
      let ?w3 = "case r_stateCache R of None \<Rightarrow> ?w2
          | Some ca \<Rightarrow> ?w2\<lparr>w_cache := ca_Put ca (w_cache ?w2) r st v\<rparr>"
      have "world_ok ?w3"
        using config(4) ok2(1) world_ok_put [OF ok2(1) assms(2), of v st] sa
        by (auto split: option.split)
      moreover have "LoadRef cls disp R w r = (?w3, Ok (st, v))"
        using first(1) True unc p rr by (simp add: LoadRef_def Let_def split: option.split)
      moreover have "w_store ?w3 = w_store w" "w_bus ?w3 = w_bus w" "w_snaps ?w3 = w_snaps w"
        by (simp_all split: option.split)
      ultimately show ?thesis using lr p by blast
    next
      case (Fail e)
      then show ?thesis
        using first(1) True unc lr ok2(2)
        by (intro exI [of _ "?w1\<lparr>w_shapeDiscards := n\<rparr>"]) (simp add: LoadRef_def)
    next
      case Panic
      then show ?thesis
        using first(1) True unc lr ok2(2)
        by (intro exI [of _ "?w1\<lparr>w_shapeDiscards := n\<rparr>"]) (simp add: LoadRef_def)
    qed
  next
    case False
    obtain x where rr: "recordRead disp (w\<lparr>w_cache := c\<rparr>) r = w\<lparr>w_cache := c, w_strategy := x\<rparr>"
      using recordRead_strategy [of disp "w\<lparr>w_cache := c\<rparr>" r] by auto
    have ok2: "world_ok (w\<lparr>w_cache := c, w_strategy := x\<rparr>)"
      using first(2) by (simp add: world_ok_strategy)
    from False first show ?thesis
      by (cases res) (auto simp: LoadRef_def rr ok2 split: option.splits)
  qed
qed

lemma LoadRef_result:
  assumes "world_ok w" and "flight_ok w r" and "D r"
    and "length (stream (w_store w) (StreamKey r)) < 2 ^ 63"
  shows "\<exists>w' res. LoadRef cls disp R w r = (w', res) \<and> world_ok w' \<and>
           load_result app init (stream (w_store w) (StreamKey r)) res \<and>
           w_store w' = w_store w \<and> w_bus w' = w_bus w \<and> w_snaps w' = w_snaps w"
  using LoadRef_reads [OF assms(1,3,4), of "length (stream (w_store w) (StreamKey r))" cls]
    loadFromStore_result [OF assms(1,2), of cls] by simp

text \<open>
  A load in flight under the key of a reference was started on an earlier state of the store, whose
  stream is the beginning of the present one.
\<close>

definition flight_past :: "('s, 'n, 'c, 'b) world \<Rightarrow> StreamRef \<Rightarrow> bool" where
  "flight_past w r \<longleftrightarrow> (\<forall>res. w_inflight w (coalesceKey disp r) = Some res \<longrightarrow>
     (\<exists>s. inv s \<and> is_open s \<and> res = load s r \<and>
        begins (stream s (StreamKey r)) (stream (w_store w) (StreamKey r))))"

text \<open>The shared load, as the stream it is a load of.\<close>

definition shared_prefix :: "('s, 'n, 'c, 'b) world \<Rightarrow> StreamRef \<Rightarrow> nat \<Rightarrow> bool" where
  "shared_prefix w r n \<longleftrightarrow> r_loadCoalescing R \<and>
     (if n = 0 then \<exists>e. w_inflight w (coalesceKey disp r) = Some (Fail e) \<and> errors_Is e ErrStreamNotFound
      else w_inflight w (coalesceKey disp r) = Some (Ok (take n (stream (w_store w) (StreamKey r)))))"

lemma loadFromStore_past:
  assumes "world_ok w" and "flight_past w r"
  obtains m where "load_result app init (take m (stream (w_store w) (StreamKey r))) (loadFromStore cls disp R w r)"
    and "m \<le> length (stream (w_store w) (StreamKey r))"
    and "m = length (stream (w_store w) (StreamKey r)) \<or> shared_prefix w r m"
proof (cases "r_loadCoalescing R \<and> w_inflight w (coalesceKey disp r) \<noteq> None")
  case False
  then have "coalesced_load disp R w r = load (w_store w) r"
    by (auto simp: coalesced_load_def config)
  with assms(1) loadByEvents_load [of "w_store w" r cls] show thesis
    by (intro that [of "length (stream (w_store w) (StreamKey r))"]) (simp_all add: loadFromStore_def world_ok_def)
next
  case True
  then obtain s where s: "inv s" "is_open s" "w_inflight w (coalesceKey disp r) = Some (load s r)"
    "begins (stream s (StreamKey r)) (stream (w_store w) (StreamKey r))"
    using assms(2) unfolding flight_past_def by blast
  let ?m = "length (stream s (StreamKey r))"
  have take: "take ?m (stream (w_store w) (StreamKey r)) = stream s (StreamKey r)"
    using s(4) by (auto simp: begins_def)
  show thesis
  proof (rule that [of ?m])
    show "load_result app init (take ?m (stream (w_store w) (StreamKey r))) (loadFromStore cls disp R w r)"
      using True s(3) loadByEvents_load [OF s(1,2), of r cls] unfolding take
      by (simp add: loadFromStore_def coalesced_load_def)
    have "shared_prefix w r ?m"
      using True s(3) es.load_ok [OF s(1,2), of r] es.load_missing [OF s(1,2), of r]
      unfolding shared_prefix_def take by auto
    then show "?m = length (stream (w_store w) (StreamKey r)) \<or> shared_prefix w r ?m" ..
  qed (use s(4) in \<open>auto simp: begins_def\<close>)
qed

lemma LoadRef_past:
  assumes "world_ok w" and "flight_past w r" and "D r" and "length (stream (w_store w) (StreamKey r)) < 2 ^ 63"
  shows "\<exists>w' res n. LoadRef cls disp R w r = (w', res) \<and> world_ok w' \<and>
           w_store w' = w_store w \<and> w_bus w' = w_bus w \<and> w_snaps w' = w_snaps w \<and>
           n \<le> length (stream (w_store w) (StreamKey r)) \<and>
           (n = length (stream (w_store w) (StreamKey r)) \<or> shared_prefix w r n) \<and>
           load_result app init (take n (stream (w_store w) (StreamKey r))) res"
proof -
  let ?evs = "stream (w_store w) (StreamKey r)"
  obtain m where m: "load_result app init (take m ?evs) (loadFromStore cls disp R w r)" "m \<le> length ?evs"
    "m = length ?evs \<or> shared_prefix w r m"
    by (rule loadFromStore_past [OF assms(1,2)])
  obtain w' res where w': "LoadRef cls disp R w r = (w', res)" "world_ok w'"
    "load_result app init ?evs res \<or> load_result app init (take m ?evs) res"
    "w_store w' = w_store w" "w_bus w' = w_bus w" "w_snaps w' = w_snaps w"
    using LoadRef_reads [OF assms(1,3,4) m(1)] by blast
  from w'(3) show ?thesis
  proof
    assume "load_result app init ?evs res"
    with w' show ?thesis
      by (intro exI [of _ w'] exI [of _ res] exI [of _ "length ?evs"]) simp
  next
    assume "load_result app init (take m ?evs) res"
    with w' m show ?thesis
      by (intro exI [of _ w'] exI [of _ res] exI [of _ m]) simp
  qed
qed

text \<open>Saving: entries about a prefix of the stream stay true when the stream grows.\<close>

lemma world_ok_save:
  assumes "world_ok w" and "inv s'" and "is_open s'"
    and "stream s' = (stream (w_store w))(StreamKey r := stream (w_store w) (StreamKey r) @ evs)"
  shows "world_ok (w\<lparr>w_store := s'\<rparr>)"
proof -
  have grow: "stream (w_store w) k = stream s' k \<or> (\<exists>more. stream s' k = stream (w_store w) k @ more)" for k
    using assms(4) by (cases "k = StreamKey r") auto
  have "state_at app init (stream (w_store w) k) v st \<Longrightarrow> state_at app init (stream s' k) v st" for k v st
    using grow [of k] state_at_append [of app init "stream (w_store w) k" v st] by metis
  moreover have "snap_ok (stream (w_store w) k) x \<Longrightarrow> snap_ok (stream s' k) x" for k x
    using calculation unfolding snap_ok_def by blast
  ultimately show ?thesis
    using assms(1-3) by (simp add: world_ok_def)
qed

lemma world_ok_bus [simp]: "world_ok (w\<lparr>w_bus := b\<rparr>) = world_ok w"
  by (simp add: world_ok_def)

lemma world_ok_snap_save:
  assumes "world_ok w" and "snap_ok (stream (w_store w) (snap_key x)) x"
  shows "\<exists>n. so_Save nops (w_snaps w) x = (n, None) \<and> world_ok (w\<lparr>w_snaps := n\<rparr>)"
proof -
  have "ninv (w_snaps w)" using assms(1) by (simp add: world_ok_def)
  from sn.save [OF this, of x] obtain n where n: "so_Save nops (w_snaps w) x = (n, None)" "ninv n"
    "content n = (if superseded (content (w_snaps w) (snap_key x)) x then content (w_snaps w)
                  else (content (w_snaps w))(snap_key x \<mapsto> x))"
    by blast
  then have "world_ok (w\<lparr>w_snaps := n\<rparr>)"
    using assms by (auto simp: world_ok_def)
  with n(1) show ?thesis by blast
qed

lemma saveSnapshot_result:
  assumes "world_ok w" and "length (stream (w_store w) (StreamKey r)) < 2 ^ 63"
    and "stream (w_store w) (StreamKey r) = old @ evs" and "snapshot_fold app init old = Ok st"
  shows "\<exists>w' res. saveSnapshotAfterEvents disp now R w r (of_nat (length (old @ evs))) st evs = (w', res) \<and>
           world_ok w' \<and> w_store w' = w_store w \<and> w_bus w' = w_bus w \<and> (res = Ok () \<or> res = Panic)"
proof -
  let ?v = "of_nat (length (old @ evs)) :: Version"
  obtain x due where due: "ShouldSnapshotFor disp (w_strategy w) (r_snapshotStore R \<noteq> None)
      (r_codec R \<noteq> None) r ?v = (x, due)" by fastforce
  let ?w1 = "w\<lparr>w_strategy := x\<rparr>"
  have ok1: "world_ok ?w1" using assms(1) by (simp add: world_ok_strategy)
  note def = saveSnapshotAfterEvents_def due Let_def
  show ?thesis
  proof (cases "due = Ok True \<and> r_snapshotStore R = Some nops \<and> r_codec R = Some codec \<and>
      (\<exists>fin b snap. snapshot_fold app st evs = Ok fin \<and> sc_Encode codec fin = Ok b \<and>
         NewSnapshot now r ?v b (snapshotEncoding codec) = Ok snap)")
    case True
    then obtain fin b snap where c: "snapshot_fold app st evs = Ok fin" "sc_Encode codec fin = Ok b"
      "NewSnapshot now r ?v b (snapshotEncoding codec) = Ok snap" by blast
    note snap = NewSnapshot_Ok [OF c(3)]
    let ?y = "snap\<lparr>sn_StateShape := r_snapshotStateShape R\<rparr>"
    have key: "snap_key ?y = StreamKey r" using snap by (simp add: snap_key_def Snapshot_Ref_def)
    have "snapshot_fold app init (old @ evs) = Ok fin"
      using assms(4) c(1) by (simp add: snapshot_fold_append)
    then have "state_at app init (old @ evs) ?v fin"
      by (rule state_at_whole [OF _ assms(2) [unfolded assms(3)]])
    then have "snap_ok (stream (w_store ?w1) (snap_key ?y)) ?y"
      using snap decode_encode [OF c(2)] assms(3) unfolding key snap_ok_def by auto
    from world_ok_snap_save [OF ok1 this] obtain n
      where n: "so_Save nops (w_snaps ?w1) ?y = (n, None)" "world_ok (?w1\<lparr>w_snaps := n\<rparr>)" by blast
    have "saveSnapshotAfterEvents disp now R w r ?v st evs = (?w1\<lparr>w_snaps := n\<rparr>, Ok ())"
      unfolding def using True c n(1) by (simp del: length_append of_nat_add)
    with n(2) show ?thesis by auto
  next
    case False
    then have "saveSnapshotAfterEvents disp now R w r ?v st evs \<in> {(?w1, Ok ()), (?w1, Panic)}"
      unfolding def using config(2,3) by (auto split: outcome.split option.split bool.split)
    with ok1 show ?thesis by fastforce
  qed
qed

lemma updateCache_result:
  assumes "world_ok w" and "D r" and "length (stream (w_store w) (StreamKey r)) < 2 ^ 63"
    and "stream (w_store w) (StreamKey r) = old @ evs" and "snapshot_fold app init old = Ok st"
  shows "\<exists>w' res. updateCacheAfterExecute cls R ca w r st (of_nat (length (old @ evs))) evs = (w', res) \<and>
           world_ok w' \<and> w_store w' = w_store w \<and> w_bus w' = w_bus w \<and> (res = Ok () \<or> res = Panic)"
proof (cases "foldEvents cls R st evs")
  case (Ok fin)
  let ?w = "w\<lparr>w_cache := ca_Put ca (w_cache w) r fin (of_nat (length (old @ evs)))\<rparr>"
  from Ok have "snapshot_fold app init (old @ evs) = Ok fin"
    using assms(5) by (simp add: snapshot_fold_append foldEvents_replay split: outcome.splits)
  then have "state_at app init (old @ evs) (of_nat (length (old @ evs))) fin"
    by (rule state_at_whole [OF _ assms(3) [unfolded assms(4)]])
  then have "world_ok ?w"
    by (intro world_ok_put [OF assms(1,2)]) (simp only: assms(4))
  then show ?thesis
    using Ok assms(1) by (cases "evs = []") (simp_all add: updateCacheAfterExecute_def)
next
  case (Fail e)
  with assms(1) world_ok_invalidate [OF assms(1), of r] show ?thesis
    by (cases "evs = []") (simp_all add: updateCacheAfterExecute_def)
next
  case Panic
  with assms(1) show ?thesis by (cases "evs = []") (simp_all add: updateCacheAfterExecute_def)
qed

lemma after_publish_result:
  assumes "world_ok w" and "D r" and "length (stream (w_store w) (StreamKey r)) < 2 ^ 63"
    and "stream (w_store w) (StreamKey r) = old @ evs" and "snapshot_fold app init old = Ok st"
  shows "\<exists>w' res. after_publish cls disp now R w r st (of_nat (length old)) evs = (w', res) \<and>
           world_ok w' \<and> w_store w' = w_store w \<and> w_bus w' = w_bus w \<and> (res = Ok () \<or> res = Panic)"
proof -
  let ?v = "of_nat (length (old @ evs)) :: Version"
  have ver: "Version_Add (of_nat (length old)) (of_nat (length evs)) = ?v"
    by (simp add: Version_Add_def)
  obtain w1 res where s1: "saveSnapshotAfterEvents disp now R w r ?v st evs = (w1, res)"
    "world_ok w1" "w_store w1 = w_store w" "w_bus w1 = w_bus w" "res = Ok () \<or> res = Panic"
    using saveSnapshot_result [OF assms(1,3-5), of now] by blast
  show ?thesis
  proof (cases "res = Ok () \<and> r_stateCache R = Some ca")
    case False
    have "r_stateCache R = None \<or> r_stateCache R = Some ca"
      using config(4) by simp
    with False s1(5) consider "res = Panic" | "res = Ok ()" "r_stateCache R = None"
      by fastforce
    then have "after_publish cls disp now R w r st (of_nat (length old)) evs = (w1, res)"
      unfolding after_publish_def ver Let_def s1(1) by cases simp_all
    with s1(2-5) show ?thesis by (intro exI conjI)
  next
    case True
    then have "after_publish cls disp now R w r st (of_nat (length old)) evs =
        updateCacheAfterExecute cls R ca w1 r st ?v evs"
      unfolding after_publish_def ver Let_def s1(1) by simp
    moreover have "length (stream (w_store w1) (StreamKey r)) < 2 ^ 63"
      "stream (w_store w1) (StreamKey r) = old @ evs"
      using assms(3,4) unfolding s1(3) by blast+
    note upd = updateCache_result [OF s1(2) assms(2) this assms(5), of cls]
    ultimately show ?thesis
      using upd unfolding s1(3,4) by simp
  qed
qed

text \<open>Executing: what the decision gives is appended to the stream, and nothing else.\<close>

lemma ExecuteRef_result:
  assumes "world_ok w" and "flight_ok w r" and "D r"
    and "snapshot_fold app init (stream (w_store w) (StreamKey r)) = Ok st"
    and "decide st (of_nat (length (stream (w_store w) (StreamKey r)))) = Ok evs" and "evs \<noteq> []"
    and "length (stream (w_store w) (StreamKey r)) + length evs < 2 ^ 63"
  shows "\<exists>w' res. ExecuteRef cls disp now R ctx w r decide = (w', res) \<and> world_ok w' \<and>
           stream (w_store w') = (stream (w_store w))(StreamKey r :=
             stream (w_store w) (StreamKey r) @ applyEnricher R ctx evs) \<and>
           (case r_publisher R of
              None \<Rightarrow> w_bus w' = w_bus w \<and> (res = Ok () \<or> res = Panic)
            | Some publish \<Rightarrow>
                w_bus w' = fst (publish (w_bus w) (applyEnricher R ctx evs)) \<and>
                (if snd (publish (w_bus w) (applyEnricher R ctx evs)) = None
                 then res = Ok () \<or> res = Panic else \<exists>e. res = Fail e))"
proof -
  let ?old = "stream (w_store w) (StreamKey r)" and ?new = "applyEnricher R ctx evs"
  let ?v = "of_nat (length ?old) :: Version"
  have bound: "length ?old < 2 ^ 63" using assms(7) by linarith
  obtain w1 where w1: "LoadRef cls disp R w r = (w1, Ok (st, ?v))" "world_ok w1"
    "w_store w1 = w_store w" "w_bus w1 = w_bus w"
    using LoadRef_result [OF assms(1-3) bound, of cls] assms(4) by (auto simp: load_result_def)
  have "inv (w_store w1)" "is_open (w_store w1)" using w1(2) by (simp_all add: world_ok_def)
  moreover have "version_ok ?v \<and> length (stream (w_store w1) (StreamKey r)) = unat ?v"
    using version_ok_of_nat [OF bound] by (simp only: w1(3) simp_thms)
  ultimately obtain s' where s': "save (w_store w1) r ?new ?v = (s', None)" "inv s'" "is_open s'"
    "stream s' = (stream (w_store w))(StreamKey r := ?old @ ?new)"
    using es.save_ok [of "w_store w1" ?v r ?new] unfolding w1(3) by blast
  let ?w2 = "w1\<lparr>w_store := s'\<rparr>"
  have ok2: "world_ok ?w2"
    using world_ok_save [OF w1(2) s'(2,3)] s'(4) unfolding w1(3) by blast
  have newlen: "length ?new = length evs"
    by (simp add: applyEnricher_def Let_def split: option.split)
  have str2: "stream s' (StreamKey r) = ?old @ ?new" using s'(4) by simp
  have len2: "length (stream s' (StreamKey r)) < 2 ^ 63"
    unfolding str2 length_append newlen by (rule assms(7))
  have ap: "\<exists>w' res. after_publish cls disp now R (?w2\<lparr>w_bus := b\<rparr>) r st ?v ?new = (w', res) \<and>
      world_ok w' \<and> w_store w' = s' \<and> w_bus w' = b \<and> (res = Ok () \<or> res = Panic)" for b
    using after_publish_result [of "?w2\<lparr>w_bus := b\<rparr>" r ?old ?new st cls now] ok2 assms(3,4)
      len2 str2 by simp
  have body: "ExecuteRef cls disp now R ctx w r decide =
      (case r_publisher R of
         None \<Rightarrow> after_publish cls disp now R ?w2 r st ?v ?new
       | Some publish \<Rightarrow>
           (case publish (w_bus w) ?new of
              (b, Some err) \<Rightarrow> (?w2\<lparr>w_bus := b\<rparr>, Fail (opError cls
                  [ErrWrap Infrastructure ''event.publish_failed'' err]))
            | (b, None) \<Rightarrow> after_publish cls disp now R (?w2\<lparr>w_bus := b\<rparr>) r st ?v ?new))"
    using w1(1,4) assms(5,6) s'(1) by (simp add: ExecuteRef_def config Let_def split: option.split)
  show ?thesis
  proof (cases "r_publisher R")
    case None
    have "?w2\<lparr>w_bus := w_bus w\<rparr> = ?w2" using w1(4) by (cases w1) simp
    with ap [of "w_bus w"] None body s'(4) show ?thesis by auto
  next
    case (Some publish)
    obtain b err where pub: "publish (w_bus w) ?new = (b, err)" by fastforce
    show ?thesis
    proof (cases err)
      case None
      with ap [of b] Some body pub s'(4) show ?thesis by auto
    next
      case (Some e)
      with \<open>r_publisher R = Some publish\<close> body pub s'(4) ok2 show ?thesis by auto
    qed
  qed
qed

lemma ExecuteRef_no_trace:
  assumes "world_ok w" and "flight_ok w r" and "D r"
    and "length (stream (w_store w) (StreamKey r)) < 2 ^ 63"
    and "\<And>st. snapshot_fold app init (stream (w_store w) (StreamKey r)) = Ok st \<Longrightarrow>
      decide st (of_nat (length (stream (w_store w) (StreamKey r)))) = Ok [] \<or>
      (\<exists>e. decide st (of_nat (length (stream (w_store w) (StreamKey r)))) = Fail e)"
  shows "\<exists>w' res. ExecuteRef cls disp now R ctx w r decide = (w', res) \<and> world_ok w' \<and>
           w_store w' = w_store w \<and> w_bus w' = w_bus w \<and> w_snaps w' = w_snaps w \<and>
           (\<forall>st e. snapshot_fold app init (stream (w_store w) (StreamKey r)) = Ok st \<longrightarrow>
              decide st (of_nat (length (stream (w_store w) (StreamKey r)))) = Fail e \<longrightarrow> res = Fail e)"
proof -
  obtain w1 res where w1: "LoadRef cls disp R w r = (w1, res)" "world_ok w1"
    "load_result app init (stream (w_store w) (StreamKey r)) res"
    "w_store w1 = w_store w" "w_bus w1 = w_bus w" "w_snaps w1 = w_snaps w"
    using LoadRef_result [OF assms(1-4), of cls] by blast
  show ?thesis
  proof (cases "snapshot_fold app init (stream (w_store w) (StreamKey r))")
    case (Ok st)
    with w1(3) have "res = Ok (st, of_nat (length (stream (w_store w) (StreamKey r))))"
      by (simp add: load_result_def)
    with assms(5) [OF Ok] w1 Ok show ?thesis
      by (intro exI [of _ w1]) (auto simp: ExecuteRef_def)
  next
    case (Fail e)
    with w1 show ?thesis
      by (intro exI [of _ w1]) (auto simp: ExecuteRef_def load_result_def)
  next
    case Panic
    with w1 show ?thesis
      by (intro exI [of _ w1]) (auto simp: ExecuteRef_def load_result_def)
  qed
qed

end

end
