(* ===== verification/Repositories.thy ===== *)
theory Repositories
  imports Decider
begin

text \<open>
  The repository of \<open>src/decider\<close> on the in-memory stores: the interfaces of the theory
  \<open>Decider\<close> are instantiated by the event and snapshot stores of \<open>src/storage/memory\<close> and by
  the Otter-backed state cache, and the properties of loading and executing are stated on them.
\<close>

section \<open>The memory stores as collaborators\<close>

definition memory_event_ops :: "(go_error \<Rightarrow> family) \<Rightarrow> MemoryStore event_ops" where
  "memory_event_ops cls =
     \<lparr>eo_Save = MemoryStore_Save cls, eo_Load = MemoryStore_Load,
      eo_LoadFromVersion = MemoryStore_LoadFromVersion, eo_LoadToVersion = MemoryStore_LoadToVersion,
      eo_LoadToTimestamp = MemoryStore_LoadToTimestamp\<rparr>"

text \<open>
  What the code relies on of the cache library: a read after a write gives the written entry, an
  entry that was there before, or nothing (the library may evict at any time); invalidation adds
  no entry. Of the state codec: what it encodes it decodes.
\<close>

definition otter_laws :: "('k, 'e) otter_ops \<Rightarrow> bool" where
  "otter_laws ot \<longleftrightarrow>
     (\<forall>c k e k' x. ot_GetIfPresent ot (ot_Set ot c k e) k' = Some x \<longrightarrow>
        k' = k \<and> x = e \<or> ot_GetIfPresent ot c k' = Some x) \<and>
     (\<forall>c k k' x. ot_GetIfPresent ot (ot_Invalidate ot c k) k' = Some x \<longrightarrow>
        ot_GetIfPresent ot c k' = Some x)"

definition codec_laws :: "'st state_codec \<Rightarrow> bool" where
  "codec_laws c \<longleftrightarrow> (\<forall>st b. sc_Encode c st = Ok b \<longrightarrow> sc_Decode c b = Ok st)"

text \<open>
  References whose string form, the key of the cache, belongs to them alone among the references
  with a colon-free type.
\<close>

definition identified :: "(StreamID \<Rightarrow> string) \<Rightarrow> StreamRef \<Rightarrow> bool" where
  "identified disp r \<longleftrightarrow>
     colon_free r \<and>
     (\<forall>r'. colon_free r' \<longrightarrow> StreamRef_String disp r' = StreamRef_String disp r \<longrightarrow> r' = r)"

lemma identified_inj: "inj disp \<Longrightarrow> colon_free r \<Longrightarrow> identified disp r"
  by (auto simp: identified_def dest: StreamRef_String_eqD)

definition uses_memory ::
  "(go_error \<Rightarrow> family) \<Rightarrow> ('k, 'st \<times> Version) otter_ops \<Rightarrow> (StreamID \<Rightarrow> string) \<Rightarrow> 'st state_codec \<Rightarrow>
   (MemoryStore, MemorySnapshotStore, 'k, 'b, 'x, 'st) Repository \<Rightarrow> bool" where
  "uses_memory cls ot disp codec R \<longleftrightarrow>
     r_store R = memory_event_ops cls \<and>
     r_snapshotStore R \<in> {None, Some memory_snapshot_ops} \<and>
     r_codec R \<in> {None, Some codec} \<and> r_stateCache R \<in> {None, Some (otterCache ot disp)}"

lemma memory_repository:
  assumes "otter_laws ot" and "codec_laws codec" and "uses_memory cls ot disp codec R"
  shows "repository ms_inv ms_open ms_stream (MemoryStore_Save cls) MemoryStore_Load
           MemoryStore_LoadFromVersion MemoryStore_LoadToVersion MemoryStore_LoadToTimestamp
           mss_inv mss_snapshots memory_snapshot_ops (otterCache ot disp) disp (identified disp)
           codec R"
proof (intro repository.intro repository_axioms.intro ms.event_store_axioms
    mss.snapshot_store_axioms, goal_cases)
  case (1 c r st v r' x)
  then have "ot_GetIfPresent ot (ot_Set ot c (StreamRef_String disp r) (st, v))
      (StreamRef_String disp r') = Some x"
    by (simp add: otterCache_def otter_Get_def otter_Put_def)
  from assms(1) [unfolded otter_laws_def, THEN conjunct1, rule_format, OF this] show ?case
    by (simp add: otterCache_def otter_Get_def)
next
  case (2 c r r' x)
  then have "ot_GetIfPresent ot (ot_Invalidate ot c (StreamRef_String disp r))
      (StreamRef_String disp r') = Some x"
    by (simp add: otterCache_def otter_Get_def otter_Invalidate_def)
  from assms(1) [unfolded otter_laws_def, THEN conjunct2, rule_format, OF this] show ?case
    by (simp add: otterCache_def otter_Get_def)
next
  case (3 r r')
  then have "r' = r" unfolding identified_def by metis
  then show ?case by simp
qed (use assms(2,3) in \<open>auto simp: codec_laws_def uses_memory_def memory_event_ops_def\<close>)

section \<open>Consistent worlds\<close>

text \<open>
  Everything the repository may read instead of replaying is true of the stream: a cached state is
  the state at its version, and a stored snapshot that is not discarded for its shape decodes to
  the state at its version.
\<close>

definition repo_consistent ::
  "('k, 'st \<times> Version) otter_ops \<Rightarrow> (StreamID \<Rightarrow> string) \<Rightarrow> 'st state_codec \<Rightarrow>
   (MemoryStore, MemorySnapshotStore, 'k, 'b, 'x, 'st) Repository \<Rightarrow>
   (MemoryStore, MemorySnapshotStore, 'k, 'b) world \<Rightarrow> bool" where
  "repo_consistent ot disp codec R w \<longleftrightarrow>
     ms_inv (w_store w) \<and> ms_open (w_store w) \<and> mss_inv (w_snaps w) \<and>
     (\<forall>r st v. identified disp r \<longrightarrow> otter_Get ot disp (w_cache w) r = Some (st, v) \<longrightarrow>
        state_at (de_Apply (r_decider R)) (de_Initial (r_decider R))
          (ms_stream (w_store w) (StreamKey r)) v st) \<and>
     (\<forall>k x. mss_snapshots (w_snaps w) k = Some x \<longrightarrow> snapshotShapeMismatch R x \<or>
        (\<exists>st. sc_Decode codec (sn_State x) = Ok st \<and> sn_Version x \<noteq> 0 \<and>
           state_at (de_Apply (r_decider R)) (de_Initial (r_decider R))
             (ms_stream (w_store w) k) (sn_Version x) st))"

text \<open>A load in flight under the coalescing key of the reference is a load of that stream.\<close>

definition flight_consistent ::
  "(StreamID \<Rightarrow> string) \<Rightarrow> (MemoryStore, 'n, 'c, 'b) world \<Rightarrow> StreamRef \<Rightarrow> bool" where
  "flight_consistent disp w r \<longleftrightarrow>
     (\<forall>res. w_inflight w (coalesceKey disp r) = Some res \<longrightarrow> res = MemoryStore_Load (w_store w) r)"

text \<open>
  What other goroutines may have in flight: loads of streams whose type has no slash, each under the
  coalescing key of its reference, begun on an earlier state of the store. Every write to the store
  extends its streams, so this stays true until the load returns.
\<close>

definition no_slash :: "StreamRef \<Rightarrow> bool" where
  "no_slash r \<longleftrightarrow> CHR ''/'' \<notin> set (sr_Type r)"

definition loads_in_flight :: "(StreamID \<Rightarrow> string) \<Rightarrow> (MemoryStore, 'n, 'c, 'b) world \<Rightarrow> bool" where
  "loads_in_flight disp w \<longleftrightarrow>
     (\<forall>k res. w_inflight w k = Some res \<longrightarrow>
        (\<exists>r s. k = coalesceKey disp r \<and> no_slash r \<and> ms_inv s \<and> ms_open s \<and> res = MemoryStore_Load s r \<and>
           (\<forall>key. begins (ms_stream s key) (ms_stream (w_store w) key))))"

lemma coalesceKey_inj:
  assumes "inj disp" and "no_slash a" and "no_slash b" and "coalesceKey disp a = coalesceKey disp b"
  shows "a = b"
proof -
  have type: "takeWhile (\<lambda>c. c \<noteq> CHR ''/'') (coalesceKey disp r) = sr_Type r" if "no_slash r" for r
    using that by (auto simp: coalesceKey_def no_slash_def takeWhile_tail)
  have "sr_Type a = sr_Type b"
    using type [OF assms(2)] type [OF assms(3)] assms(4) by simp
  with assms(1,4) show ?thesis
    by (simp add: coalesceKey_def inj_eq StreamRef.equality)
qed

text \<open>A load begins and a write happens: both keep this.\<close>

lemma loads_in_flight_begin:
  assumes "loads_in_flight disp w" and "no_slash r" and "ms_inv (w_store w)" and "ms_open (w_store w)"
  shows "loads_in_flight disp (w\<lparr>w_inflight := (w_inflight w)(coalesceKey disp r \<mapsto> MemoryStore_Load (w_store w) r)\<rparr>)"
  using assms by (fastforce simp: loads_in_flight_def)

lemma Save_extends:
  assumes "ms_inv s" and "ms_open s"
  shows "ms_inv (fst (MemoryStore_Save cls s r evs v)) \<and> ms_open (fst (MemoryStore_Save cls s r evs v)) \<and>
    begins (ms_stream s key) (ms_stream (fst (MemoryStore_Save cls s r evs v)) key)"
proof (cases "version_ok v \<and> length (ms_stream s (StreamKey r)) = unat v")
  case True
  then show ?thesis
    using ms.save_ok [OF assms, of v r cls evs] by auto
next
  case False
  with ms.save_conflict [OF assms, of v r cls evs] assms show ?thesis
    by auto
qed

lemma loads_in_flight_write:
  assumes "loads_in_flight disp w" and "\<And>key. begins (ms_stream (w_store w) key) (ms_stream s key)"
  shows "loads_in_flight disp (w\<lparr>w_store := s\<rparr>)"
  unfolding loads_in_flight_def
proof (intro allI impI)
  fix k res
  assume "w_inflight (w\<lparr>w_store := s\<rparr>) k = Some res"
  then have "w_inflight w k = Some res"
    by simp
  from assms(1) [unfolded loads_in_flight_def, rule_format, OF this]
  obtain r s0 where "k = coalesceKey disp r" "no_slash r" "ms_inv s0" "ms_open s0"
    "res = MemoryStore_Load s0 r" "\<And>key. begins (ms_stream s0 key) (ms_stream (w_store w) key)"
    by blast
  with begins_trans [OF _ assms(2)] show "\<exists>r s'. k = coalesceKey disp r \<and> no_slash r \<and> ms_inv s' \<and> ms_open s' \<and>
      res = MemoryStore_Load s' r \<and> (\<forall>key. begins (ms_stream s' key) (ms_stream (w_store (w\<lparr>w_store := s\<rparr>)) key))"
    by (intro exI [of _ r] exI [of _ s0]) simp
qed

lemma repo_consistent_write:
  assumes "repo_consistent ot disp codec R w" and "ms_inv s" and "ms_open s"
    and "\<And>key. begins (ms_stream (w_store w) key) (ms_stream s key)"
  shows "repo_consistent ot disp codec R (w\<lparr>w_store := s\<rparr>)"
proof -
  let ?at = "state_at (de_Apply (r_decider R)) (de_Initial (r_decider R))"
  have "?at (ms_stream s key) v st" if "?at (ms_stream (w_store w) key) v st" for key v st
    using assms(4) [of key] state_at_append [OF that] by (auto simp: begins_def)
  with assms(1-3) show ?thesis
    unfolding repo_consistent_def by simp blast
qed

lemma world_ok_eq:
  assumes "otter_laws ot" and "codec_laws codec" and "uses_memory cls ot disp codec R"
  shows "repository.world_ok ms_inv ms_open ms_stream mss_inv mss_snapshots (otterCache ot disp)
           (identified disp) codec R w = repo_consistent ot disp codec R w"
  by (simp only: repository.world_ok_def [OF memory_repository [OF assms]]
      repository.snap_ok_def [OF memory_repository [OF assms]])
    (simp add: repo_consistent_def otterCache_def)

lemma flight_ok_eq:
  fixes R :: "(MemoryStore, MemorySnapshotStore, 'k, 'b, 'x, 'st) Repository"
    and w :: "(MemoryStore, MemorySnapshotStore, 'k, 'b) world"
  assumes "otter_laws ot" and "codec_laws codec" and "uses_memory cls ot disp codec R"
  shows "repository.flight_ok MemoryStore_Load disp w r = flight_consistent disp w r"
  by (simp only: repository.flight_ok_def [OF memory_repository [OF assms]] flight_consistent_def)

text \<open>The interpretation on a cache that never evicts and a codec of byte states.\<close>

definition map_otter :: "(string \<rightharpoonup> 'e, 'e) otter_ops" where
  "map_otter = \<lparr>ot_GetIfPresent = (\<lambda>m k. m k), ot_Set = (\<lambda>m k e. m(k \<mapsto> e)),
                ot_Invalidate = (\<lambda>m k. m(k := None))\<rparr>"

definition raw_codec :: "byte list state_codec" where
  "raw_codec = \<lparr>sc_Encoding = ''raw'', sc_Encode = (\<lambda>b. Ok b), sc_Decode = (\<lambda>b. Ok b)\<rparr>"

lemma map_otter_laws: "otter_laws map_otter"
  by (simp add: otter_laws_def map_otter_def)

lemma raw_codec_laws: "codec_laws raw_codec"
  by (simp add: codec_laws_def raw_codec_def)

definition memory_repo ::
  "(go_error \<Rightarrow> family) \<Rightarrow> (StreamID \<Rightarrow> string) \<Rightarrow> (byte list \<Rightarrow> event \<Rightarrow> byte list outcome) \<Rightarrow>
   (MemoryStore, MemorySnapshotStore, string \<rightharpoonup> byte list \<times> Version, event list, unit, byte list) Repository" where
  "memory_repo cls disp app =
     \<lparr>r_store = memory_event_ops cls, r_publisher = Some (\<lambda>bus evs. (bus @ evs, None)),
      r_snapshotStore = Some memory_snapshot_ops, r_codec = Some raw_codec,
      r_snapshotStateShape = ''1'', r_enricher = None,
      r_decider = \<lparr>de_Initial = [], de_Apply = app\<rparr>, r_loadCoalescing = True,
      r_stateCache = Some (otterCache map_otter disp)\<rparr>"

lemma uses_memory_repo: "uses_memory cls map_otter disp raw_codec (memory_repo cls disp app)"
  by (simp add: uses_memory_def memory_repo_def)

interpretation mem: repository ms_inv ms_open ms_stream "MemoryStore_Save cls" MemoryStore_Load
  MemoryStore_LoadFromVersion MemoryStore_LoadToVersion MemoryStore_LoadToTimestamp
  mss_inv mss_snapshots memory_snapshot_ops "otterCache map_otter disp" disp "identified disp"
  raw_codec "memory_repo cls disp app"
  for cls disp app
  by (rule memory_repository [OF map_otter_laws raw_codec_laws uses_memory_repo])

section \<open>Properties\<close>

text \<open>The empty world: every repository starts consistent.\<close>

definition empty_world ::
  "SnapshotStrategy option \<Rightarrow>
   (MemoryStore, MemorySnapshotStore, string \<rightharpoonup> 'st \<times> Version, event list) world" where
  "empty_world strategy =
     \<lparr>w_store = NewMemoryStore, w_snaps = NewMemorySnapshotStore, w_strategy = strategy,
      w_cache = Map.empty, w_bus = [], w_shapeDiscards = 0, w_inflight = (\<lambda>_. None)\<rparr>"

lemma empty_world_consistent: "repo_consistent map_otter disp codec R (empty_world strategy)"
  using ms_inv_New
  by (simp add: repo_consistent_def empty_world_def otter_Get_def map_otter_def ms_open_def mss_inv_def
      NewMemorySnapshotStore_def) (simp add: NewMemoryStore_def NewLogStore_def)

lemma empty_world_stream: "ms_stream (w_store (empty_world strategy)) k = []"
  by (simp add: empty_world_def ms_stream_def NewMemoryStore_def NewLogStore_def stream_indices_def)

lemma empty_world_flight: "flight_consistent disp (empty_world strategy) r"
  by (simp add: flight_consistent_def empty_world_def)

text \<open>
  C5. Cache, snapshots and load coalescing: \<open>LoadRef\<close> returns the replay of the stream with the number of
  replayed events as the version, or the apply error if the replay fails, whichever of the cache,
  the snapshot store or the event store it reads. The replay is that of the whole stream, unless
  another load of this stream was in flight and its result is shared: then it may be the replay of
  the events that load had read, which are the beginning of the stream. The event store, the
  snapshots and the bus are left as they were, and what is cached on the way is true of the stream,
  so the world stays consistent, also when the shared result was out of date. (For references
  whose keys identify them.)
\<close>

theorem LoadRef_transparent:
  assumes "otter_laws ot" and "codec_laws codec" and "uses_memory cls ot disp codec R"
    and "repo_consistent ot disp codec R w" and "loads_in_flight disp w" and "inj disp" and "colon_free r" and "no_slash r"
    and "length (ms_stream (w_store w) (StreamKey r)) < 2 ^ 63"
  shows "\<exists>w' res n. LoadRef cls disp R w r = (w', res) \<and> repo_consistent ot disp codec R w' \<and>
           w_store w' = w_store w \<and> w_bus w' = w_bus w \<and> w_snaps w' = w_snaps w \<and>
           n \<le> length (ms_stream (w_store w) (StreamKey r)) \<and>
           (n = length (ms_stream (w_store w) (StreamKey r)) \<or>
            r_loadCoalescing R \<and>
            (if n = 0 then \<exists>e. w_inflight w (coalesceKey disp r) = Some (Fail e) \<and> errors_Is e ErrStreamNotFound
             else w_inflight w (coalesceKey disp r) = Some (Ok (take n (ms_stream (w_store w) (StreamKey r)))))) \<and>
           (case snapshot_fold (de_Apply (r_decider R)) (de_Initial (r_decider R))
                   (take n (ms_stream (w_store w) (StreamKey r))) of
              Ok st \<Rightarrow> res = Ok (st, of_nat n)
            | Fail _ \<Rightarrow> (\<exists>e. res = Fail e \<and> errors_Is e ErrApplyFailed)
            | Panic \<Rightarrow> res = Panic)"
proof -
  note loc = memory_repository [OF assms(1-3)]
  have "repository.flight_past ms_inv ms_open ms_stream MemoryStore_Load disp w r"
    unfolding repository.flight_past_def [OF loc]
  proof (intro allI impI)
    fix res
    assume "w_inflight w (coalesceKey disp r) = Some res"
    then obtain r' s where "coalesceKey disp r = coalesceKey disp r'" "no_slash r'" and s: "ms_inv s" "ms_open s"
      "res = MemoryStore_Load s r'" "\<forall>key. begins (ms_stream s key) (ms_stream (w_store w) key)"
      using assms(5) unfolding loads_in_flight_def by blast
    then have "r' = r"
      using coalesceKey_inj [OF assms(6,8)] by metis
    with s show "\<exists>s. ms_inv s \<and> ms_open s \<and> res = MemoryStore_Load s r \<and>
        begins (ms_stream s (StreamKey r)) (ms_stream (w_store w) (StreamKey r))"
      by blast
  qed
  from repository.LoadRef_past [OF loc _ this identified_inj [OF assms(6,7)] assms(9), of cls] assms(4)
  obtain w' res n where w': "LoadRef cls disp R w r = (w', res)" "repo_consistent ot disp codec R w'"
    "w_store w' = w_store w" "w_bus w' = w_bus w" "w_snaps w' = w_snaps w"
    "n \<le> length (ms_stream (w_store w) (StreamKey r))"
    "n = length (ms_stream (w_store w) (StreamKey r)) \<or> repository.shared_prefix ms_stream disp R w r n"
    "load_result (de_Apply (r_decider R)) (de_Initial (r_decider R)) (take n (ms_stream (w_store w) (StreamKey r))) res"
    unfolding world_ok_eq [OF assms(1-3)] by blast
  then show ?thesis
    unfolding repository.shared_prefix_def [OF loc] load_result_def
    by (intro exI [of _ w'] exI [of _ res] exI [of _ n] conjI) (simp_all add: min_absorb2 cong: outcome.case_cong)
qed

text \<open>
  Worlds in which a second event has been appended while a load begun before that append is in
  flight; the cache and the snapshot store may know the state at version 1.
\<close>

definition sample_repo ::
  "(MemoryStore, MemorySnapshotStore, string \<rightharpoonup> byte list \<times> Version, event list, unit, byte list) Repository" where
  "sample_repo = memory_repo (\<lambda>_. Conflict) id (\<lambda>st e. Ok (st @ [of_int (e_occurredAt e)]))"

definition sample_before :: MemoryStore where
  "sample_before = fst (MemoryStore_Save (\<lambda>_. Conflict) NewMemoryStore witness_ref [witness_event 1] 0)"

definition sample_after :: MemoryStore where
  "sample_after = fst (MemoryStore_Save (\<lambda>_. Conflict) sample_before witness_ref [witness_event 2] 1)"

definition sample_cache :: "string \<rightharpoonup> byte list \<times> Version" where
  "sample_cache = [StreamRef_String id witness_ref \<mapsto> ([1], 1)]"

definition sample_snapshots :: MemorySnapshotStore where
  "sample_snapshots = NewMemorySnapshotStore\<lparr>mss_snapshots := [StreamKey witness_ref \<mapsto>
     \<lparr>sn_StreamID = ''7'', sn_StreamType = ''order'', sn_Version = 1, sn_State = [1], sn_Encoding = RecordUnknown,
      sn_CreatedAt = 0, sn_StateShape = ''1''\<rparr>]\<rparr>"

definition sample_loads ::
  "(string \<rightharpoonup> byte list \<times> Version) \<Rightarrow> MemorySnapshotStore \<Rightarrow>
   (MemoryStore, MemorySnapshotStore, string \<rightharpoonup> byte list \<times> Version, event list) world" where
  "sample_loads c n = \<lparr>w_store = sample_after, w_snaps = n, w_strategy = None, w_cache = c, w_bus = [], w_shapeDiscards = 0,
     w_inflight = [coalesceKey id witness_ref \<mapsto> MemoryStore_Load sample_before witness_ref]\<rparr>"

lemma sample_stores:
  "ms_inv sample_before" "ms_open sample_before" "ms_inv sample_after" "ms_open sample_after"
  "ms_stream sample_before = (\<lambda>k. if k = StreamKey witness_ref then [witness_event 1] else [])"
  "ms_stream sample_after = (\<lambda>k. if k = StreamKey witness_ref then [witness_event 1, witness_event 2] else [])"
proof -
  have new: "ms_inv NewMemoryStore" "ms_open NewMemoryStore" "ms_stream NewMemoryStore = (\<lambda>_. [])"
    using ms_inv_New empty_world_stream [of None] empty_world_consistent [of id raw_codec sample_repo None]
    by (simp_all add: empty_world_def repo_consistent_def fun_eq_iff)
  obtain s1 where s1: "MemoryStore_Save (\<lambda>_. Conflict) NewMemoryStore witness_ref [witness_event 1] 0 = (s1, None)"
    "ms_inv s1" "ms_open s1" "ms_stream s1 = (ms_stream NewMemoryStore)(StreamKey witness_ref := [witness_event 1])"
    using ms.save_ok [OF new(1,2) version_ok_small(1), of witness_ref "\<lambda>_. Conflict" "[witness_event 1]"] new(3) by auto
  then have before: "sample_before = s1"
    by (simp add: sample_before_def)
  obtain s2 where s2: "MemoryStore_Save (\<lambda>_. Conflict) s1 witness_ref [witness_event 2] 1 = (s2, None)"
    "ms_inv s2" "ms_open s2" "ms_stream s2 = (ms_stream s1)(StreamKey witness_ref := [witness_event 1, witness_event 2])"
    using ms.save_ok [OF s1(2,3) version_ok_small(2), of witness_ref "\<lambda>_. Conflict" "[witness_event 2]"] s1(4) by auto
  then have after: "sample_after = s2"
    by (simp add: sample_after_def before)
  show "ms_inv sample_before" "ms_open sample_before" "ms_inv sample_after" "ms_open sample_after"
    "ms_stream sample_before = (\<lambda>k. if k = StreamKey witness_ref then [witness_event 1] else [])"
    "ms_stream sample_after = (\<lambda>k. if k = StreamKey witness_ref then [witness_event 1, witness_event 2] else [])"
    using s1 s2 new(3) by (auto simp: before after fun_eq_iff)
qed

lemma sample_state: "state_at (de_Apply (r_decider sample_repo)) (de_Initial (r_decider sample_repo))
    [witness_event 1, witness_event 2] 1 [1]"
  using version_ok_small(2) by (simp add: state_at_def sample_repo_def memory_repo_def witness_event_def)

lemma sample_loads_ok:
  assumes "c \<in> {Map.empty, sample_cache}" and "n \<in> {NewMemorySnapshotStore, sample_snapshots}"
  shows "repo_consistent map_otter id raw_codec sample_repo (sample_loads c n)" and "loads_in_flight id (sample_loads c n)"
proof -
  let ?w = "sample_loads c n" and ?at = "state_at (de_Apply (r_decider sample_repo)) (de_Initial (r_decider sample_repo))"
  have w: "w_store ?w = sample_after" "w_cache ?w = c" "w_snaps ?w = n"
    by (simp_all add: sample_loads_def)
  have cache: "?at (ms_stream sample_after (StreamKey r)) v st" if "identified id r" "otter_Get map_otter id c r = Some (st, v)" for r st v
  proof -
    have "colon_free witness_ref"
      by (simp add: colon_free_def witness_ref_def)
    moreover have entry: "StreamRef_String id witness_ref = StreamRef_String id r" "st = [1]" "v = 1"
      using that(2) assms(1) by (auto simp: otter_Get_def map_otter_def sample_cache_def split: if_splits)
    ultimately have "witness_ref = r"
      using that(1) unfolding identified_def by blast
    then show ?thesis
      using sample_state entry by (simp add: sample_stores(6))
  qed
  have snaps: "\<exists>st. sc_Decode raw_codec (sn_State x) = Ok st \<and> sn_Version x \<noteq> 0 \<and>
      ?at (ms_stream sample_after k) (sn_Version x) st" if "mss_snapshots n k = Some x" for k x
  proof -
    have "k = StreamKey witness_ref" "sn_State x = [1]" "sn_Version x = 1"
      using that assms(2) by (auto simp: NewMemorySnapshotStore_def sample_snapshots_def split: if_splits)
    then show ?thesis
      using sample_state by (simp add: sample_stores(6) raw_codec_def)
  qed
  have "mss_inv n"
    using assms(2) by (auto simp: mss_inv_def NewMemorySnapshotStore_def sample_snapshots_def)
  then show "repo_consistent map_otter id raw_codec sample_repo ?w"
    unfolding repo_consistent_def w using sample_stores(3,4) by (intro conjI allI impI) (simp_all add: cache snaps)
  have ref: "no_slash witness_ref" "begins (ms_stream sample_before k) (ms_stream sample_after k)" for k
    by (simp_all add: no_slash_def witness_ref_def sample_stores begins_def)
  show "loads_in_flight id ?w"
    unfolding loads_in_flight_def w
  proof (intro allI impI)
    fix k res
    assume "w_inflight ?w k = Some res"
    then have "k = coalesceKey id witness_ref" "res = MemoryStore_Load sample_before witness_ref"
      by (auto simp: sample_loads_def split: if_splits)
    with ref sample_stores(1,2) show "\<exists>r s. k = coalesceKey id r \<and> no_slash r \<and> ms_inv s \<and> ms_open s \<and>
        res = MemoryStore_Load s r \<and> (\<forall>key. begins (ms_stream s key) (ms_stream sample_after key))"
      by (intro exI [of _ witness_ref] exI [of _ sample_before]) simp
  qed
qed

lemma sample_reads:
  "MemoryStore_Load sample_before witness_ref = Ok [witness_event 1]"
  "MemoryStore_LoadFromVersion sample_after witness_ref 1 = Ok [witness_event 2]"
  using ms.load_ok [OF sample_stores(1,2), of witness_ref] ms.loadFrom_ok [OF sample_stores(3,4), of witness_ref 1]
    version_ok_small(2)
  by (simp_all add: sample_stores(5,6))

theorem LoadRef_transparent_witness:
  "snd (LoadRef (\<lambda>_. Conflict) id sample_repo (sample_loads sample_cache sample_snapshots) witness_ref) = Ok ([1, 2], 2) \<and>
   snd (LoadRef (\<lambda>_. Conflict) id sample_repo (sample_loads Map.empty sample_snapshots) witness_ref) = Ok ([1, 2], 2) \<and>
   snd (LoadRef (\<lambda>_. Conflict) id sample_repo (sample_loads Map.empty NewMemorySnapshotStore) witness_ref) = Ok ([1], 1) \<and>
   repo_consistent map_otter id raw_codec sample_repo
     (fst (LoadRef (\<lambda>_. Conflict) id sample_repo (sample_loads Map.empty NewMemorySnapshotStore) witness_ref))"
proof -
  note defs = LoadRef_def LoadRef_uncached_def loadFromCache_def loadFromSnapshot_def loadFromStore_def coalesced_load_def
    loadByEvents_def recordRead_def sample_loads_def sample_repo_def memory_repo_def memory_event_ops_def sample_reads
    otterCache_def otter_Get_def otter_Put_def map_otter_def sample_cache_def sample_snapshots_def snapshotShapeMismatch_def
    raw_codec_def witness_event_def Version_Add_def memory_snapshot_ops_def mss_defs NewMemorySnapshotStore_def
  have cached: "snd (LoadRef (\<lambda>_. Conflict) id sample_repo (sample_loads sample_cache sample_snapshots) witness_ref) = Ok ([1, 2], 2)"
    by (simp add: defs)
  have snap: "snd (LoadRef (\<lambda>_. Conflict) id sample_repo (sample_loads Map.empty sample_snapshots) witness_ref) = Ok ([1, 2], 2)"
    by (simp add: defs)
  have shared: "snd (LoadRef (\<lambda>_. Conflict) id sample_repo (sample_loads Map.empty NewMemorySnapshotStore) witness_ref) = Ok ([1], 1)"
    by (simp add: defs)
  have uses: "uses_memory (\<lambda>_. Conflict) map_otter id raw_codec sample_repo"
    unfolding sample_repo_def by (rule uses_memory_repo)
  have ref: "inj (id :: string \<Rightarrow> string)" "colon_free witness_ref" "no_slash witness_ref"
    by (simp_all add: colon_free_def no_slash_def witness_ref_def)
  have "length (ms_stream (w_store (sample_loads Map.empty NewMemorySnapshotStore)) (StreamKey witness_ref)) < 2 ^ 63"
    by (simp add: sample_loads_def sample_stores)
  moreover have "repo_consistent map_otter id raw_codec sample_repo (sample_loads Map.empty NewMemorySnapshotStore)"
    "loads_in_flight id (sample_loads Map.empty NewMemorySnapshotStore)"
    by (rule sample_loads_ok; simp)+
  ultimately have "\<exists>w' res. LoadRef (\<lambda>_. Conflict) id sample_repo (sample_loads Map.empty NewMemorySnapshotStore) witness_ref = (w', res) \<and>
      repo_consistent map_otter id raw_codec sample_repo w'"
    using LoadRef_transparent [OF map_otter_laws raw_codec_laws uses _ _ ref] by blast
  then
  have "repo_consistent map_otter id raw_codec sample_repo
     (fst (LoadRef (\<lambda>_. Conflict) id sample_repo (sample_loads Map.empty NewMemorySnapshotStore) witness_ref))"
    by auto
  with cached snap shared show ?thesis
    by blast
qed

text \<open>
  C6. A successful decision is recorded exactly once: when the stream replays and \<open>decide\<close>, given
  the replayed state and the version, returns some events, \<open>ExecuteRef\<close> appends exactly these
  events, enriched, to this stream and changes no other stream, hands them to the publisher once,
  and returns without error unless publishing fails. Snapshots and cache entries written on the
  way are true of the new stream, so the world stays consistent.
\<close>

theorem ExecuteRef_appends:
  assumes "otter_laws ot" and "codec_laws codec" and "uses_memory cls ot disp codec R"
    and "repo_consistent ot disp codec R w" and "flight_consistent disp w r" and "identified disp r"
    and "snapshot_fold (de_Apply (r_decider R)) (de_Initial (r_decider R))
           (ms_stream (w_store w) (StreamKey r)) = Ok st"
    and "decide st (of_nat (length (ms_stream (w_store w) (StreamKey r)))) = Ok evs" and "evs \<noteq> []"
    and "length (ms_stream (w_store w) (StreamKey r)) + length evs < 2 ^ 63"
  shows "\<exists>w' res. ExecuteRef cls disp now R ctx w r decide = (w', res) \<and>
           repo_consistent ot disp codec R w' \<and>
           ms_stream (w_store w') = (ms_stream (w_store w))(StreamKey r :=
             ms_stream (w_store w) (StreamKey r) @ applyEnricher R ctx evs) \<and>
           (case r_publisher R of
              None \<Rightarrow> w_bus w' = w_bus w \<and> (res = Ok () \<or> res = Panic)
            | Some publish \<Rightarrow>
                w_bus w' = fst (publish (w_bus w) (applyEnricher R ctx evs)) \<and>
                (if snd (publish (w_bus w) (applyEnricher R ctx evs)) = None
                 then res = Ok () \<or> res = Panic else \<exists>e. res = Fail e))"
  using repository.ExecuteRef_result [OF memory_repository [OF assms(1-3)], of w r st decide evs cls now ctx]
    assms(4-10)
  unfolding world_ok_eq [OF assms(1-3)] flight_ok_eq [OF assms(1-3)] by blast

theorem ExecuteRef_appends_witness:
  "\<exists>w' res. ExecuteRef (\<lambda>_. Conflict) id 5 (memory_repo (\<lambda>_. Conflict) id (\<lambda>st e. Ok (st @ e_payload e)))
       () (empty_world (Some (PlainStrategy (everyN_ShouldSnapshot 1)))) witness_ref
       (\<lambda>st v. Ok [witness_event 1]) = (w', res) \<and>
     ms_stream (w_store w') (StreamKey witness_ref) = [witness_event 1] \<and> w_bus w' = [witness_event 1]"
proof -
  let ?R = "memory_repo (\<lambda>_. Conflict) id (\<lambda>st e. Ok (st @ e_payload e))"
  let ?w = "empty_world (Some (PlainStrategy (everyN_ShouldSnapshot 1))) ::
    (MemoryStore, MemorySnapshotStore, string \<rightharpoonup> byte list \<times> Version, event list) world"
  have ref: "identified id witness_ref"
    by (rule identified_inj) (simp_all add: colon_free_def witness_ref_def)
  have fold: "snapshot_fold (de_Apply (r_decider ?R)) (de_Initial (r_decider ?R))
      (ms_stream (w_store ?w) (StreamKey witness_ref)) = Ok []"
    by (simp add: empty_world_stream memory_repo_def)
  have len: "length (ms_stream (w_store ?w) (StreamKey witness_ref)) + length [witness_event 1] < 2 ^ 63"
    by (simp add: empty_world_stream)
  have enr: "applyEnricher ?R () [witness_event 1] = [witness_event 1]"
    "r_publisher ?R = Some (\<lambda>bus evs. (bus @ evs, None))" "w_bus ?w = []"
    by (simp_all add: applyEnricher_def memory_repo_def empty_world_def)
  have ne: "[witness_event 1] \<noteq> []" by simp
  from ExecuteRef_appends [where cls = "\<lambda>_. Conflict", OF map_otter_laws raw_codec_laws
      uses_memory_repo empty_world_consistent empty_world_flight ref fold refl ne len, of 5 "()"]
  obtain w' res where "ExecuteRef (\<lambda>_. Conflict) id 5 ?R () ?w witness_ref (\<lambda>st v. Ok [witness_event 1]) =
      (w', res)" and "ms_stream (w_store w') = (ms_stream (w_store ?w))(StreamKey witness_ref :=
        ms_stream (w_store ?w) (StreamKey witness_ref) @ [witness_event 1])"
    and "w_bus w' = w_bus ?w @ [witness_event 1]"
    by (auto simp only: enr(1,2) option.case fst_conv snd_conv)
  then show ?thesis by (intro exI [of _ w'] exI [of _ res]) (simp add: empty_world_stream enr)
qed

text \<open>
  C7. A rejected command leaves no trace: when \<open>decide\<close> returns an error or no events, or the
  stream does not replay, \<open>ExecuteRef\<close> leaves the event store, the snapshots and the bus untouched
  and the world consistent; the error of \<open>decide\<close> is returned unchanged.
\<close>

theorem ExecuteRef_rejected:
  assumes "otter_laws ot" and "codec_laws codec" and "uses_memory cls ot disp codec R"
    and "repo_consistent ot disp codec R w" and "flight_consistent disp w r" and "identified disp r"
    and "length (ms_stream (w_store w) (StreamKey r)) < 2 ^ 63"
    and "\<And>st. snapshot_fold (de_Apply (r_decider R)) (de_Initial (r_decider R))
           (ms_stream (w_store w) (StreamKey r)) = Ok st \<Longrightarrow>
      decide st (of_nat (length (ms_stream (w_store w) (StreamKey r)))) = Ok [] \<or>
      (\<exists>e. decide st (of_nat (length (ms_stream (w_store w) (StreamKey r)))) = Fail e)"
  shows "\<exists>w' res. ExecuteRef cls disp now R ctx w r decide = (w', res) \<and>
           repo_consistent ot disp codec R w' \<and>
           w_store w' = w_store w \<and> w_bus w' = w_bus w \<and> w_snaps w' = w_snaps w \<and>
           (\<forall>st e. snapshot_fold (de_Apply (r_decider R)) (de_Initial (r_decider R))
                (ms_stream (w_store w) (StreamKey r)) = Ok st \<longrightarrow>
              decide st (of_nat (length (ms_stream (w_store w) (StreamKey r)))) = Fail e \<longrightarrow>
              res = Fail e)"
  using repository.ExecuteRef_no_trace [OF memory_repository [OF assms(1-3)], of w r decide cls now ctx]
    assms(4-8)
  unfolding world_ok_eq [OF assms(1-3)] flight_ok_eq [OF assms(1-3)] by blast

theorem ExecuteRef_rejected_witness:
  "\<exists>w'. ExecuteRef (\<lambda>_. Conflict) id 5 (memory_repo (\<lambda>_. Conflict) id (\<lambda>st e. Ok (st @ e_payload e)))
       () (empty_world None) witness_ref (\<lambda>st v. Fail (ErrExt ''no'')) = (w', Fail (ErrExt ''no'')) \<and>
     w_bus w' = []"
proof -
  let ?R = "memory_repo (\<lambda>_. Conflict) id (\<lambda>st e. Ok (st @ e_payload e))"
  let ?w = "empty_world None ::
    (MemoryStore, MemorySnapshotStore, string \<rightharpoonup> byte list \<times> Version, event list) world"
  have ref: "identified id witness_ref"
    by (rule identified_inj) (simp_all add: colon_free_def witness_ref_def)
  have len: "length (ms_stream (w_store ?w) (StreamKey witness_ref)) < 2 ^ 63"
    by (simp add: empty_world_stream)
  have "w_bus ?w = []" "de_Initial (r_decider ?R) = []"
    by (simp_all add: empty_world_def memory_repo_def)
  with ExecuteRef_rejected [OF map_otter_laws raw_codec_laws uses_memory_repo empty_world_consistent
      empty_world_flight ref len, where decide = "\<lambda>st v. Fail (ErrExt ''no'')" and now = 5 and ctx = "()"
      and cls = "\<lambda>_. Conflict"]
  show ?thesis by (fastforce simp: empty_world_stream)
qed

section \<open>Time travel, waiting, causation\<close>

lemma loadByEvents_prefix:
  assumes "stream_events \<noteq> [] \<Longrightarrow> loaded = Ok part"
    and "stream_events = [] \<Longrightarrow> part = [] \<and> (\<exists>e. loaded = Fail e \<and> errors_Is e ErrStreamNotFound)"
  shows "load_result (de_Apply (r_decider R)) (de_Initial (r_decider R)) part (loadByEvents cls R loaded)"
  using assms
  by (cases "stream_events = []")
    (auto simp: load_result_def loadByEvents_def foldEvents_replay split: outcome.split)

text \<open>
  Time travel: the state at a version is the replay of the first so many events and the state
  at a time the replay of the events that had occurred by then, each with the number of replayed
  events as its version; a stream without events gives the initial state at version zero.
\<close>

theorem time_travel_correct:
  assumes "r_store R = memory_event_ops cls" and "ms_inv (w_store w)" and "ms_open (w_store w)"
    and "version_ok v"
  shows "load_result (de_Apply (r_decider R)) (de_Initial (r_decider R))
           (take (unat v) (ms_stream (w_store w) (StreamKey r))) (LoadAtVersionRef cls' R w r v) \<and>
         load_result (de_Apply (r_decider R)) (de_Initial (r_decider R))
           (filter (\<lambda>e. e_occurredAt e \<le> t) (ms_stream (w_store w) (StreamKey r)))
           (LoadAtTimeRef cls' R w r t)"
proof -
  note get = getEvents_cases [OF assms(2)]
  have "load_result (de_Apply (r_decider R)) (de_Initial (r_decider R))
      (take (unat v) (ms_stream (w_store w) (StreamKey r)))
      (loadByEvents cls' R (MemoryStore_LoadToVersion (w_store w) r v))"
    using assms(3) by (intro loadByEvents_prefix [of "ms_stream (w_store w) (StreamKey r)"])
      (simp_all add: ms_load_defs get SliceToVersion_ok [OF assms(4)])
  moreover have "load_result (de_Apply (r_decider R)) (de_Initial (r_decider R))
      (filter (\<lambda>e. e_occurredAt e \<le> t) (ms_stream (w_store w) (StreamKey r)))
      (loadByEvents cls' R (MemoryStore_LoadToTimestamp (w_store w) r t))"
    using assms(3) by (intro loadByEvents_prefix [of "ms_stream (w_store w) (StreamKey r)"])
      (simp_all add: ms_load_defs get FilterByTimestamp_eq)
  ultimately show ?thesis
    by (simp add: LoadAtVersionRef_def LoadAtTimeRef_def assms(1) memory_event_ops_def)
qed

theorem time_travel_correct_witness:
  "LoadAtVersionRef (\<lambda>_. Conflict) (memory_repo (\<lambda>_. Conflict) id (\<lambda>st e. Ok (st @ [of_nat (unat (e_version e))])))
     ((empty_world None)\<lparr>w_store := witness_store\<rparr>) witness_ref 2 = Ok ([1, 2], 2)"
proof -
  let ?R = "memory_repo (\<lambda>_. Conflict) id (\<lambda>st e. Ok (st @ [of_nat (unat (e_version e))]))"
  let ?w = "(empty_world None)\<lparr>w_store := witness_store\<rparr> ::
    (MemoryStore, MemorySnapshotStore, string \<rightharpoonup> byte list \<times> Version, event list) world"
  have "r_store ?R = memory_event_ops (\<lambda>_. Conflict)" "ms_inv (w_store ?w)" "ms_open (w_store ?w)"
    by (simp_all add: memory_repo_def witness_store_inv witness_store_facts)
  from time_travel_correct [OF this version_ok_small(3), of witness_ref "\<lambda>_. Conflict" 0]
  show ?thesis
    by (simp add: load_result_def witness_store_facts witness_event_def zeroEvent_def memory_repo_def)
qed

lemma LoadFromVersion_poll:
  assumes "ms_inv s" and "ms_open s" and "version_ok v" and "v \<noteq> 0"
  shows "MemoryStore_LoadFromVersion s r (v - 1) =
    (if ms_stream s (StreamKey r) = []
     then Fail (ErrWrap Rejection ''memory.stream_not_found'' ErrStreamNotFound)
     else Ok (drop (unat v - 1) (ms_stream s (StreamKey r))))"
proof -
  have "unat (v - 1) = unat v - 1"
    using assms(4) by (rule unat_minus_one)
  moreover from this have "version_ok (v - 1)"
    using assms(3) by (simp add: version_ok_def)
  ultimately show ?thesis
    using assms(2) by (simp add: ms_load_defs getEvents_cases [OF assms(1)] SliceFromVersion_ok)
qed

lemma WaitForVersion_loop_result:
  assumes "\<And>i. ms_inv (stores i) \<and> ms_open (stores i)" and "version_ok v" and "v \<noteq> 0"
    and "finished n" and "i \<le> n" and "n < i + fuel"
  shows "\<exists>res. WaitForVersion_loop cls (memory_event_ops cls) stores finished r v i fuel = Some res \<and>
    (res = Fail ErrWaitTimeout \<and> (\<exists>k \<le> n. finished k \<and>
       (\<forall>j. i \<le> j \<and> j \<le> k \<longrightarrow> length (ms_stream (stores j) (StreamKey r)) < unat v)) \<or>
     (\<exists>k \<le> n. res = Ok (drop (unat v - 1) (ms_stream (stores k) (StreamKey r))) \<and>
        unat v \<le> length (ms_stream (stores k) (StreamKey r))))"
  using assms(5,6)
proof (induction fuel arbitrary: i)
  case (Suc fuel)
  let ?s = "ms_stream (stores i) (StreamKey r)"
  let ?loop = "WaitForVersion_loop cls (memory_event_ops cls) stores finished r v"
  have pos: "0 < unat v" using assms(3) by (simp add: unat_gt_0)
  have poll: "eo_LoadFromVersion (memory_event_ops cls) (stores i) r (v - 1) =
      (if ?s = [] then Fail (ErrWrap Rejection ''memory.stream_not_found'' ErrStreamNotFound)
       else Ok (drop (unat v - 1) ?s))"
    using LoadFromVersion_poll [OF _ _ assms(2,3), of "stores i" r] assms(1)
    by (simp add: memory_event_ops_def)
  show ?case
  proof (cases "unat v \<le> length ?s")
    case True
    then have "?loop i (Suc fuel) = Some (Ok (drop (unat v - 1) ?s))"
      using pos poll by (auto simp: Let_def)
    with True Suc.prems(1) show ?thesis by blast
  next
    case False
    have step: "?loop i (Suc fuel) =
        (if finished i then Some (Fail ErrWaitTimeout) else ?loop (Suc i) fuel)"
      using False pos poll by (cases "?s = []") (simp_all add: Let_def)
    show ?thesis
    proof (cases "finished i")
      case True
      then have "?loop i (Suc fuel) = Some (Fail ErrWaitTimeout)" using step by simp
      moreover have "\<forall>j. i \<le> j \<and> j \<le> i \<longrightarrow> length (ms_stream (stores j) (StreamKey r)) < unat v"
        using False by auto
      ultimately show ?thesis using True Suc.prems(1) by blast
    next
      case running: False
      then have "i \<noteq> n" using assms(4) by auto
      then have "Suc i \<le> n" "n < Suc i + fuel" using Suc.prems by auto
      from Suc.IH [OF this] obtain res where res: "?loop (Suc i) fuel = Some res"
        "res = Fail ErrWaitTimeout \<and> (\<exists>k \<le> n. finished k \<and>
           (\<forall>j. Suc i \<le> j \<and> j \<le> k \<longrightarrow> length (ms_stream (stores j) (StreamKey r)) < unat v)) \<or>
         (\<exists>k \<le> n. res = Ok (drop (unat v - 1) (ms_stream (stores k) (StreamKey r))) \<and>
            unat v \<le> length (ms_stream (stores k) (StreamKey r)))"
        by blast
      have ext: "\<forall>j. i \<le> j \<and> j \<le> k \<longrightarrow> length (ms_stream (stores j) (StreamKey r)) < unat v"
        if "\<forall>j. Suc i \<le> j \<and> j \<le> k \<longrightarrow> length (ms_stream (stores j) (StreamKey r)) < unat v" for k
        using that False by (metis Suc_leI le_neq_implies_less not_le)
      show ?thesis using res ext step running by (simp only: if_False) blast
    qed
  qed
qed simp

text \<open>
  C40. Waiting for a version ends and tells the truth: when the deadline passes at some poll, the
  polling loop returns within that many polls, either with the events from the requested version
  on, as the store had them at one of the polls, or with the timeout error after polls none of
  which could see the version. Version zero is rejected at once.
\<close>

theorem WaitForVersion_terminates:
  assumes "\<And>i. ms_inv (stores i) \<and> ms_open (stores i)" and "version_ok v"
    and "finished n" and "n < fuel"
  shows "\<exists>res. WaitForVersionRef cls (memory_event_ops cls) stores finished r v fuel = Some res \<and>
    (v = 0 \<longrightarrow> res = Fail (ErrNew Rejection ''decider.wait_invalid_version'')) \<and>
    (v \<noteq> 0 \<longrightarrow>
      res = Fail ErrWaitTimeout \<and> (\<exists>k \<le> n. finished k \<and>
        (\<forall>j \<le> k. length (ms_stream (stores j) (StreamKey r)) < unat v)) \<or>
      (\<exists>k \<le> n. res = Ok (drop (unat v - 1) (ms_stream (stores k) (StreamKey r))) \<and>
         unat v \<le> length (ms_stream (stores k) (StreamKey r))))"
proof (cases "v = 0")
  case True
  then show ?thesis by (simp add: WaitForVersionRef_def)
next
  case False
  from WaitForVersion_loop_result [where i = 0 and fuel = fuel and cls = cls and r = r
      and stores = stores and finished = finished and n = n, OF assms(1,2) False assms(3)] assms(4)
  show ?thesis using False by (auto simp: WaitForVersionRef_def)
qed

theorem WaitForVersion_terminates_witness:
  "\<exists>res. WaitForVersionRef (\<lambda>_. Conflict) (memory_event_ops (\<lambda>_. Conflict))
       (\<lambda>i. if i < 2 then NewMemoryStore else witness_store) (\<lambda>i. i = 5) witness_ref 2 6 = Some res"
proof -
  have "ms_inv (if i < 2 then NewMemoryStore else witness_store) \<and>
      ms_open (if i < 2 then NewMemoryStore else witness_store)" for i :: nat
    using ms_inv_New witness_store_inv witness_store_facts(1)
    by (simp add: ms_open_def NewMemoryStore_def NewLogStore_def)
  from WaitForVersion_terminates [where stores = "\<lambda>i. if i < 2 then NewMemoryStore else witness_store"
      and finished = "\<lambda>i. i = 5" and n = 5 and fuel = 6 and cls = "\<lambda>_. Conflict" and r = witness_ref,
      OF this version_ok_small(3)]
  show ?thesis by auto
qed

text \<open>
  Command causation: executing with a command whose identifier is not zero stamps every event
  of the decision that has no causation with the command's type and identifier, typed and as custom
  entries, and leaves events that carry their own causation alone; type, stream, version, payload,
  identifier and time of the events are untouched. A command with zero identifier stamps nothing.
\<close>

theorem command_causation_stamped:
  "(cmdID = 0 \<longrightarrow> stampCommandCausation udisp evs cmdType cmdID = evs) \<and>
   (cmdID \<noteq> 0 \<longrightarrow>
     list_all2 (\<lambda>e e'. event_core e' = event_core e \<and> e_id e' = e_id e \<and> e_occurredAt e' = e_occurredAt e \<and>
        (if m_Causation (e_metadata e) \<noteq> None then e' = e
         else m_Causation (e_metadata e') = Some \<lparr>c_CommandType = cmdType, c_CommandID = cmdID\<rparr> \<and>
              custom_get (m_Custom (e_metadata e')) MetadataKeyCommandID = udisp cmdID \<and>
              (cmdType \<noteq> [] \<longrightarrow> custom_get (m_Custom (e_metadata e')) MetadataKeyCommandType = cmdType)))
       evs (stampCommandCausation udisp evs cmdType cmdID))"
proof -
  have keys: "MetadataKeyCommandID \<noteq> MetadataKeyCommandType"
    by (simp add: MetadataKeyCommandID_def MetadataKeyCommandType_def)
  show ?thesis
    by (auto simp: stampCommandCausation_def list_all2_conv_all_nth causationOptions_def option_defs
        event_core_def Metadata_WithCustom_def custom_get_def keys)
qed

theorem command_causation_stamped_witness:
  "list_all2 (\<lambda>e e'. event_core e' = event_core e) [witness_event 1]
     (stampCommandCausation (\<lambda>_. ''c9'') [witness_event 1] ''pay'' 9)"
  using command_causation_stamped [of 9 "\<lambda>_. ''c9''" "[witness_event 1]" "''pay''"]
  by (simp add: list_all2_conv_all_nth)

text \<open>
  The coalescing key does not identify a stream: two different valid references have the same
  key, so that while a load of one is in flight, a load of the other returns the events of the
  wrong stream.
\<close>

theorem coalescing_key_collision:
  "\<exists>a b. StreamRef_Validate a = None \<and> StreamRef_Validate b = None \<and> a \<noteq> b \<and>
     coalesceKey id a = coalesceKey id b \<and>
     (\<forall>R w evs. r_loadCoalescing R \<longrightarrow> w_inflight w (coalesceKey id a) = Some (Ok evs) \<longrightarrow>
        coalesced_load id R w b = Ok evs)"
proof (intro exI conjI)
  let ?a = "\<lparr>sr_Type = ''a/b'', sr_ID = ''c''\<rparr>" and ?b = "\<lparr>sr_Type = ''a'', sr_ID = ''b/c''\<rparr>"
  show "StreamRef_Validate ?a = None" "StreamRef_Validate ?b = None" "?a \<noteq> ?b"
    by (simp_all add: StreamRef_Validate_def)
  show key: "coalesceKey id ?a = coalesceKey id ?b" by (simp add: coalesceKey_def)
  show "\<forall>R w evs. r_loadCoalescing R \<longrightarrow> w_inflight w (coalesceKey id ?a) = Some (Ok evs) \<longrightarrow>
      coalesced_load id R w ?b = Ok evs"
    by (simp add: coalesced_load_def key)
qed

theorem coalescing_key_collision_witness:
  "\<exists>a b. a \<noteq> b \<and> coalesceKey id a = coalesceKey id b"
  using coalescing_key_collision by metis

end
