(* ===== verification/DedupRing.thy ===== *)
theory DedupRing
  imports Prelude
begin

text \<open>
  The fixed-capacity ring of identifiers of \<open>src/dedup/ring.go\<close>, used to drop the events a
  replay and the live stream have in common. The ring is a circular buffer with an index from
  identifiers to positions; the contract of the package is a bounded first-in first-out set,
  stated as the locale \<open>recent_set\<close> and discharged for the buffer through an abstraction
  function.
\<close>

section \<open>The ring\<close>

definition DefaultCapacity :: int where
  "DefaultCapacity = 1024"

record 'k Ring =
  rg_buf :: "'k list"
  rg_idx :: "'k \<rightharpoonup> nat"
  rg_head :: nat
  rg_count :: nat

text \<open>
  A receiver is a pointer, so every method takes a ring or nil. \<open>make([]K, capacity)\<close> fills the
  buffer with the zero value of the identifier type, the argument \<open>zero\<close>.
\<close>

definition NewRing :: "'k \<Rightarrow> int \<Rightarrow> 'k Ring option" where
  "NewRing zero capacity0 =
     (let capacity = (if capacity0 \<le> 0 then DefaultCapacity else capacity0) in
      Some \<lparr>rg_buf = replicate (nat capacity) zero, rg_idx = Map.empty, rg_head = 0, rg_count = 0\<rparr>)"

definition Ring_insert :: "'k \<Rightarrow> 'k Ring \<Rightarrow> 'k Ring" where
  "Ring_insert i r =
     (if rg_idx r i \<noteq> None then r
      else
        let r1 = (if rg_count r = length (rg_buf r)
                  then r\<lparr>rg_idx := (rg_idx r)(rg_buf r ! rg_head r := None)\<rparr>
                  else r\<lparr>rg_count := rg_count r + 1\<rparr>);
            r2 = r1\<lparr>rg_buf := (rg_buf r1)[rg_head r1 := i]\<rparr>;
            r3 = r2\<lparr>rg_idx := (rg_idx r2)(i \<mapsto> rg_head r2)\<rparr>
        in r3\<lparr>rg_head := (rg_head r3 + 1) mod length (rg_buf r3)\<rparr>)"

definition Ring_Add :: "'k \<Rightarrow> 'k Ring option \<Rightarrow> 'k Ring option" where
  "Ring_Add i r = (case r of None \<Rightarrow> None | Some r \<Rightarrow> Some (Ring_insert i r))"

definition Ring_Has :: "'k Ring option \<Rightarrow> 'k \<Rightarrow> bool" where
  "Ring_Has r i = (case r of None \<Rightarrow> False | Some r \<Rightarrow> rg_idx r i \<noteq> None)"

definition Ring_Len :: "'k Ring option \<Rightarrow> nat" where
  "Ring_Len r = (case r of None \<Rightarrow> 0 | Some r \<Rightarrow> rg_count r)"

definition Ring_Capacity :: "'k Ring option \<Rightarrow> nat" where
  "Ring_Capacity r = (case r of None \<Rightarrow> 0 | Some r \<Rightarrow> length (rg_buf r))"

section \<open>The contract: a bounded queue of distinct identifiers\<close>

definition fifo_add :: "nat \<Rightarrow> 'k list \<Rightarrow> 'k \<Rightarrow> 'k list" where
  "fifo_add c xs x =
     (if x \<in> set xs then xs else if length xs = c then tl xs @ [x] else xs @ [x])"

lemma fifo_add_bound: "0 < c \<Longrightarrow> length xs \<le> c \<Longrightarrow> length (fifo_add c xs x) \<le> c"
  by (cases xs) (auto simp: fifo_add_def)

lemma fifo_add_distinct: "distinct xs \<Longrightarrow> distinct (fifo_add c xs x)"
  by (cases xs) (auto simp: fifo_add_def)

lemma fifo_add_fresh:
  assumes "x \<notin> set ys" and "0 < c"
  shows "fifo_add c (drop (length ys - c) ys) x = drop (Suc (length ys) - c) (ys @ [x])"
proof (cases "length ys < c")
  case True
  then show ?thesis
    using assms by (auto simp: fifo_add_def)
next
  case False
  moreover from this have "tl (drop (length ys - c) ys) = drop (Suc (length ys) - c) ys"
    by (simp add: tl_drop drop_Suc[symmetric] Suc_diff_le drop_tl)
  moreover have "x \<notin> set (drop (length ys - c) ys)"
    using assms(1) by (blast dest: in_set_dropD)
  ultimately show ?thesis
    using assms(2) by (simp add: fifo_add_def)
qed

text \<open>Identifiers that are all different: the queue keeps exactly the most recent ones.\<close>

lemma fifo_distinct:
  assumes "distinct ids" and "0 < c"
  shows "foldl (fifo_add c) [] ids = drop (length ids - c) ids"
  using assms(1)
proof (induction ids rule: rev_induct)
  case (snoc x ids)
  then show ?case
    using fifo_add_fresh[of x ids c] assms(2) by simp
qed simp

text \<open>
  Between two additions that both take effect an identifier leaves the queue only after
  \<open>c\<close> other identifiers entered it.
\<close>

lemma fifo_add_suffix:
  assumes "xs = us @ x # vs" and "length vs + 1 < c"
  shows "\<exists>us' vs'. fifo_add c xs y = us' @ x # vs' \<and> length vs' \<le> Suc (length vs)"
proof (cases "y \<in> set xs")
  case True
  then have "fifo_add c xs y = us @ x # vs"
    using assms(1) by (simp add: fifo_add_def)
  then show ?thesis
    by (intro exI[of _ us] exI[of _ vs]) simp
next
  case False
  show ?thesis
  proof (cases "length xs = c")
    case True
    with assms have "us \<noteq> []" by auto
    with False True assms(1) have "fifo_add c xs y = tl us @ x # (vs @ [y])"
      by (cases us) (auto simp: fifo_add_def)
    then show ?thesis
      by (intro exI[of _ "tl us"] exI[of _ "vs @ [y]"]) simp
  next
    case neq: False
    with False assms(1) have "fifo_add c xs y = us @ x # (vs @ [y])"
      by (auto simp: fifo_add_def)
    then show ?thesis
      by (intro exI[of _ us] exI[of _ "vs @ [y]"]) simp
  qed
qed

lemma fifo_retains_aux:
  "xs = us @ x # vs \<Longrightarrow> length vs + length ys < c \<Longrightarrow> x \<in> set (foldl (fifo_add c) xs ys)"
proof (induction ys arbitrary: xs us vs)
  case (Cons y ys)
  then have "length vs + 1 < c" by simp
  from fifo_add_suffix[OF Cons.prems(1) this] obtain us' vs' where
    "fifo_add c xs y = us' @ x # vs'" "length vs' \<le> Suc (length vs)" by blast
  with Cons.IH[of "fifo_add c xs y" us' vs'] Cons.prems(2) show ?case
    by simp
qed simp

locale recent_set =
  fixes new :: "int \<Rightarrow> 'r" and add :: "'k \<Rightarrow> 'r \<Rightarrow> 'r" and has :: "'r \<Rightarrow> 'k \<Rightarrow> bool"
    and len :: "'r \<Rightarrow> nat" and capacity :: "'r \<Rightarrow> nat"
    and valid :: "'r \<Rightarrow> bool" and contents :: "'r \<Rightarrow> 'k list"
  assumes new_valid: "valid (new n)"
    and new_contents: "contents (new n) = []"
    and new_capacity: "capacity (new n) = nat (if n \<le> 0 then DefaultCapacity else n)"
    and add_valid: "valid r \<Longrightarrow> valid (add x r)"
    and add_contents: "valid r \<Longrightarrow> contents (add x r) = fifo_add (capacity r) (contents r) x"
    and add_capacity: "valid r \<Longrightarrow> capacity (add x r) = capacity r"
    and has_contents: "valid r \<Longrightarrow> has r x \<longleftrightarrow> x \<in> set (contents r)"
    and len_contents: "valid r \<Longrightarrow> len r = length (contents r)"
begin

lemma fold_add:
  "valid r \<Longrightarrow>
     valid (fold add ids r) \<and> capacity (fold add ids r) = capacity r \<and>
     contents (fold add ids r) = foldl (fifo_add (capacity r)) (contents r) ids"
  by (induction ids arbitrary: r) (simp_all add: add_valid add_capacity add_contents)

lemma new_capacity_pos: "0 < capacity (new n)"
  by (simp add: new_capacity DefaultCapacity_def)

lemma history:
  fixes n ids
  defines "r \<equiv> fold add ids (new n)" and "c \<equiv> capacity (new n)"
  shows "has r x \<longleftrightarrow> x \<in> set (foldl (fifo_add c) [] ids)"
    and "len r = length (foldl (fifo_add c) [] ids)"
    and "capacity r = c"
  using fold_add[of "new n" ids] new_valid new_contents
  by (simp_all add: r_def c_def has_contents len_contents)

end

section \<open>The buffer implements the contract\<close>

text \<open>
  The invariant: the first \<open>count\<close> cells hold distinct identifiers, the index is their inverse,
  and until the buffer is full the next cell to write is the first free one.
\<close>

definition ring_inv :: "'k Ring \<Rightarrow> bool" where
  "ring_inv r \<longleftrightarrow>
     rg_head r < length (rg_buf r) \<and> rg_count r \<le> length (rg_buf r) \<and>
     (rg_count r < length (rg_buf r) \<longrightarrow> rg_head r = rg_count r) \<and>
     distinct (take (rg_count r) (rg_buf r)) \<and>
     (\<forall>x p. rg_idx r x = Some p \<longleftrightarrow> p < rg_count r \<and> rg_buf r ! p = x)"

definition ring_contents :: "'k Ring \<Rightarrow> 'k list" where
  "ring_contents r =
     (if rg_count r < length (rg_buf r) then take (rg_count r) (rg_buf r)
      else drop (rg_head r) (rg_buf r) @ take (rg_head r) (rg_buf r))"

lemma ring_idx_take:
  assumes "ring_inv r"
  shows "rg_idx r x \<noteq> None \<longleftrightarrow> x \<in> set (take (rg_count r) (rg_buf r))"
  using assms by (auto simp: ring_inv_def in_set_conv_nth simp flip: not_None_eq)

lemma ring_idx_contents:
  assumes "ring_inv r"
  shows "rg_idx r x \<noteq> None \<longleftrightarrow> x \<in> set (ring_contents r)"
proof -
  have "rg_idx r x \<noteq> None \<longleftrightarrow> x \<in> set (take (rg_count r) (rg_buf r))"
    by (rule ring_idx_take[OF assms])
  also have "set (take (rg_count r) (rg_buf r)) = set (ring_contents r)"
  proof (cases "rg_count r < length (rg_buf r)")
    case False
    have "set (drop (rg_head r) (rg_buf r) @ take (rg_head r) (rg_buf r)) = set (rg_buf r)"
      by (metis append_take_drop_id set_append sup_commute)
    with False assms show ?thesis
      by (simp add: ring_contents_def ring_inv_def)
  qed (simp add: ring_contents_def)
  finally show ?thesis .
qed

lemma ring_contents_length: "ring_inv r \<Longrightarrow> length (ring_contents r) = rg_count r"
  by (auto simp: ring_contents_def ring_inv_def)

lemma Ring_insert_known: "rg_idx r x \<noteq> None \<Longrightarrow> Ring_insert x r = r"
  by (simp add: Ring_insert_def)

lemma Ring_insert_free:
  assumes "rg_idx r x = None" and "rg_count r < length (rg_buf r)"
  shows "Ring_insert x r =
    r\<lparr>rg_buf := (rg_buf r)[rg_head r := x], rg_idx := (rg_idx r)(x \<mapsto> rg_head r),
      rg_head := (rg_head r + 1) mod length (rg_buf r), rg_count := rg_count r + 1\<rparr>"
  using assms by (simp add: Ring_insert_def Let_def)

lemma Ring_insert_full:
  assumes "rg_idx r x = None" and "rg_count r = length (rg_buf r)"
  shows "Ring_insert x r =
    r\<lparr>rg_buf := (rg_buf r)[rg_head r := x],
      rg_idx := (rg_idx r)(rg_buf r ! rg_head r := None, x \<mapsto> rg_head r),
      rg_head := (rg_head r + 1) mod length (rg_buf r)\<rparr>"
  using assms by (simp add: Ring_insert_def Let_def)

lemma Ring_insert_capacity: "length (rg_buf (Ring_insert x r)) = length (rg_buf r)"
  by (simp add: Ring_insert_def Let_def)

lemma ring_free_step:
  assumes inv: "ring_inv r" and new: "rg_idx r x = None" and free: "rg_count r < length (rg_buf r)"
  shows "ring_inv (Ring_insert x r)"
    and "ring_contents (Ring_insert x r) = ring_contents r @ [x]"
proof -
  let ?b = "rg_buf r" and ?n = "rg_count r"
  have h: "rg_head r = ?n" using inv free by (simp add: ring_inv_def)
  have tk: "take (Suc ?n) (?b[?n := x]) = take ?n ?b @ [x]"
    using free by (simp add: take_Suc_conv_app_nth)
  have notin: "x \<notin> set (take ?n ?b)"
    using ring_idx_take[OF inv, of x] new by simp
  have ne: "?b ! p \<noteq> x" if "p < ?n" for p
    using inv new that unfolding ring_inv_def by (metis option.distinct(1))
  have idx: "((rg_idx r)(x \<mapsto> ?n)) y = Some p \<longleftrightarrow> p < Suc ?n \<and> ?b[?n := x] ! p = y" for y p
    using inv free ne by (auto simp: ring_inv_def nth_list_update less_Suc_eq)
  have wrap: "Suc ?n mod length ?b < length ?b" using free by (intro mod_less_divisor) linarith
  show "ring_inv (Ring_insert x r)"
    unfolding ring_inv_def Ring_insert_free[OF new free]
    using inv free tk notin idx h wrap by (auto simp: ring_inv_def)
  have "drop (Suc ?n mod length ?b) (?b[?n := x]) @ take (Suc ?n mod length ?b) (?b[?n := x]) =
    take ?n ?b @ [x]" if "Suc ?n = length ?b"
    using that tk by simp
  with tk free show "ring_contents (Ring_insert x r) = ring_contents r @ [x]"
    unfolding ring_contents_def Ring_insert_free[OF new free]
    by (cases "Suc ?n = length ?b") (simp_all add: h)
qed

lemma ring_full_step:
  assumes inv: "ring_inv r" and new: "rg_idx r x = None" and full: "rg_count r = length (rg_buf r)"
  shows "ring_inv (Ring_insert x r)"
    and "ring_contents (Ring_insert x r) = tl (ring_contents r) @ [x]"
proof -
  let ?b = "rg_buf r" and ?h = "rg_head r"
  have h: "?h < length ?b" and d: "distinct ?b" using inv full by (simp_all add: ring_inv_def)
  have notin: "x \<notin> set ?b"
    using ring_idx_take[OF inv, of x] new full by simp
  have idx: "((rg_idx r)(?b ! ?h := None, x \<mapsto> ?h)) y = Some p \<longleftrightarrow>
      p < length ?b \<and> ?b[?h := x] ! p = y" for y p
    using inv full h d notin
    by (auto simp: ring_inv_def nth_list_update nth_eq_iff_index_eq)
  have dist: "distinct (?b[?h := x])"
    using d notin by (simp add: distinct_list_update)
  have mod: "Suc ?h mod length ?b < length ?b" using h by (intro mod_less_divisor) linarith
  show "ring_inv (Ring_insert x r)"
    unfolding ring_inv_def Ring_insert_full[OF new full]
    using full mod dist idx by (simp add: Suc_eq_plus1[symmetric] del: fun_upd_apply)
  have split: "?b = take ?h ?b @ ?b ! ?h # drop (Suc ?h) ?b"
    using h by (simp add: id_take_nth_drop)
  have upd: "?b[?h := x] = take ?h ?b @ x # drop (Suc ?h) ?b"
    using h by (simp add: upd_conv_take_nth_drop)
  have "drop ?h ?b @ take ?h ?b = ?b ! ?h # drop (Suc ?h) ?b @ take ?h ?b"
    using h by (simp add: Cons_nth_drop_Suc)
  then have old: "tl (ring_contents r) = drop (Suc ?h) ?b @ take ?h ?b"
    using full by (simp add: ring_contents_def)
  have "drop (Suc ?h mod length ?b) (?b[?h := x]) @ take (Suc ?h mod length ?b) (?b[?h := x]) =
    drop (Suc ?h) ?b @ take ?h ?b @ [x]"
    using h upd by (cases "Suc ?h = length ?b") (auto simp: min_def)
  then show "ring_contents (Ring_insert x r) = tl (ring_contents r) @ [x]"
    unfolding old Ring_insert_full[OF new full] using full by (simp add: ring_contents_def)
qed

lemma Ring_insert_inv:
  assumes "ring_inv r"
  shows "ring_inv (Ring_insert x r)"
proof -
  consider "rg_idx r x \<noteq> None" | "rg_idx r x = None" "rg_count r < length (rg_buf r)"
    | "rg_idx r x = None" "rg_count r = length (rg_buf r)"
    using assms by (fastforce simp: ring_inv_def)
  then show ?thesis
    using assms by cases (simp_all add: Ring_insert_known ring_free_step ring_full_step)
qed

lemma Ring_insert_contents:
  assumes "ring_inv r"
  shows "ring_contents (Ring_insert x r) = fifo_add (length (rg_buf r)) (ring_contents r) x"
proof -
  consider "rg_idx r x \<noteq> None" | "rg_idx r x = None" "rg_count r < length (rg_buf r)"
    | "rg_idx r x = None" "rg_count r = length (rg_buf r)"
    using assms by (fastforce simp: ring_inv_def)
  then show ?thesis
    using assms ring_idx_contents[OF assms, of x] ring_contents_length[OF assms]
    by cases (simp_all add: Ring_insert_known ring_free_step ring_full_step fifo_add_def)
qed

interpretation ring: recent_set "NewRing zero" Ring_Add Ring_Has Ring_Len Ring_Capacity
    "\<lambda>r. \<exists>s. r = Some s \<and> ring_inv s" "\<lambda>r. ring_contents (the r)"
  for zero :: 'k
proof
  show "\<exists>s. NewRing zero n = Some s \<and> ring_inv s" for n
    by (simp add: NewRing_def ring_inv_def DefaultCapacity_def Let_def)
  show "ring_contents (the (NewRing zero n)) = []" for n
    by (simp add: NewRing_def ring_contents_def DefaultCapacity_def Let_def)
  show "Ring_Capacity (NewRing zero n) = nat (if n \<le> 0 then DefaultCapacity else n)" for n
    by (simp add: NewRing_def Ring_Capacity_def)
qed (auto simp: Ring_Add_def Ring_Has_def Ring_Len_def Ring_Capacity_def Ring_insert_inv
  Ring_insert_contents Ring_insert_capacity ring_contents_length
  simp flip: ring_idx_contents)

section \<open>Properties\<close>

text \<open>
  Refinement of the ring: after any sequence of additions to a new ring, membership and
  length are those of the bounded queue that drops the oldest identifier when a new one does
  not fit and ignores identifiers it holds; the length never exceeds the capacity, which is
  the requested one or the default.
\<close>

theorem ring_refines_fifo:
  fixes zero :: 'k and n :: int and ids :: "'k list"
  defines "c \<equiv> nat (if n \<le> 0 then DefaultCapacity else n)"
    and "r \<equiv> fold Ring_Add ids (NewRing zero n)"
  shows "Ring_Has r x = (x \<in> set (foldl (fifo_add c) [] ids)) \<and>
         Ring_Len r = length (foldl (fifo_add c) [] ids) \<and>
         Ring_Len r \<le> Ring_Capacity r \<and> Ring_Capacity r = c"
proof -
  have c: "Ring_Capacity (NewRing zero n) = c"
    by (simp add: c_def ring.new_capacity)
  have pos: "0 < c" by (simp add: c_def DefaultCapacity_def)
  have "length (foldl (fifo_add c) [] ids) \<le> c"
    by (induction ids rule: rev_induct) (simp_all add: fifo_add_bound pos)
  with ring.history[of ids zero n] show ?thesis
    unfolding r_def c by simp
qed

text \<open>
  What the ring remembers: an identifier that took effect stays in the ring as long as
  fewer additions than the capacity follow it, and when all identifiers are different the ring
  holds exactly the most recent ones, no more and no fewer than the capacity.
\<close>

theorem ring_remembers_recent:
  fixes zero :: 'k
  assumes "0 < n"
  shows "(\<not> Ring_Has (fold Ring_Add pre (NewRing zero n)) x \<and> length post < nat n \<longrightarrow>
            Ring_Has (fold Ring_Add (pre @ x # post) (NewRing zero n)) x) \<and>
         (distinct ids \<longrightarrow>
            (Ring_Has (fold Ring_Add ids (NewRing zero n)) y \<longleftrightarrow>
               y \<in> set (drop (length ids - nat n) ids)))"
proof -
  have c: "Ring_Capacity (NewRing zero n) = nat n"
    using assms by (simp add: ring.new_capacity)
  note has = ring.history(1)[where n = n and zero = zero, unfolded c]
  have fresh: "x \<in> set (foldl (fifo_add (nat n)) [] (pre @ x # post))"
    if "x \<notin> set (foldl (fifo_add (nat n)) [] pre)" "length post < nat n"
  proof -
    let ?q = "foldl (fifo_add (nat n)) [] pre"
    have "\<exists>us. fifo_add (nat n) ?q x = us @ x # []"
      using that(1) by (simp add: fifo_add_def)
    then obtain us where "fifo_add (nat n) ?q x = us @ x # []" by blast
    from fifo_retains_aux[OF this, of post "nat n"] that(2) show ?thesis
      by simp
  qed
  have dist: "foldl (fifo_add (nat n)) [] ids = drop (length ids - nat n) ids" if "distinct ids"
    using fifo_distinct[OF that, of "nat n"] assms by simp
  show ?thesis
    unfolding has using fresh dist by simp
qed

theorem ring_remembers_recent_witness:
  "\<not> Ring_Has (fold Ring_Add [1, 2, 3 :: nat] (NewRing 0 2)) 4 \<and>
   Ring_Has (fold Ring_Add ([1, 2, 3] @ (4 :: nat) # [5]) (NewRing 0 2)) 4 \<and>
   (Ring_Has (fold Ring_Add [1, 2, 3 :: nat] (NewRing 0 2)) 1 \<longleftrightarrow> 1 \<in> set (drop 1 [1, 2, 3 :: nat]))"
proof -
  have "\<not> Ring_Has (fold Ring_Add [1, 2, 3 :: nat] (NewRing 0 2)) 4"
    by (simp add: Ring_Has_def Ring_Add_def NewRing_def Ring_insert_def Let_def)
  then show ?thesis
    using ring_remembers_recent[of 2 "[1, 2, 3]" "0 :: nat" 4 "[5]" "[1, 2, 3]" 1] by simp
qed

end
