(* ===== verification/KeyCodec.thy ===== *)
theory KeyCodec
  imports Versions "HOL-Library.Sublist" "HOL-Library.Char_ord" "HOL-Library.List_Lexorder"
begin

text \<open>
  The storage keys of the embedded key-value engines, \<open>src/metaengine/keycodec\<close>: escaping of
  segments, the unescaped first and the escaped second key family, sequence numbers as
  zero-padded decimals, and counter values. A Go string or byte slice is a list of characters,
  one per byte; keys are compared bytewise, which is the lexicographic order on these lists.
  The JSON helpers of the package only call \<open>encoding/json\<close> and are left out.
\<close>

section \<open>Escaping: escape.go\<close>

definition NUL :: char where
  "NUL = CHR 0x00"

definition ESC :: char where
  "ESC = CHR 0x01"

definition Sep :: string where
  "Sep = [NUL]"

fun Escape_loop :: "string \<Rightarrow> string" where
  "Escape_loop [] = []"
| "Escape_loop (c # cs) =
     (if c = NUL then [ESC, CHR ''0''] else if c = ESC then [ESC, CHR ''1''] else [c]) @ Escape_loop cs"

definition Escape :: "string \<Rightarrow> string" where
  "Escape s = (if NUL \<notin> set s \<and> ESC \<notin> set s then s else Escape_loop s)"

fun Unescape_loop :: "string \<Rightarrow> string" where
  "Unescape_loop [] = []"
| "Unescape_loop [c] = [c]"
| "Unescape_loop (c # d # cs) =
     (if c = ESC then
        if d = CHR ''0'' then NUL # Unescape_loop cs
        else if d = CHR ''1'' then ESC # Unescape_loop cs
        else ESC # Unescape_loop (d # cs)
      else c # Unescape_loop (d # cs))"

definition Unescape :: "string \<Rightarrow> string" where
  "Unescape s = (if ESC \<notin> set s then s else Unescape_loop s)"

section \<open>Sequence numbers: the format verb for 20 zero-padded digits, and strconv.ParseInt\<close>

definition digit :: "nat \<Rightarrow> char" where
  "digit d = char_of (48 + d)"

fun digits :: "nat \<Rightarrow> string" where
  "digits n = (if n < 10 then [digit n] else digits (n div 10) @ [digit (n mod 10)])"

declare digits.simps [simp del]

definition zpad :: "nat \<Rightarrow> nat \<Rightarrow> string" where
  "zpad w n = replicate (w - length (digits n)) (CHR ''0'') @ digits n"

text \<open>\<open>fmt\<close> counts the sign in the width, so a negative number has one digit less.\<close>

definition fmt020d :: "int \<Rightarrow> string" where
  "fmt020d n = (if n < 0 then ''-'' @ zpad 19 (nat (- n)) else zpad 20 (nat n))"

definition is_digit :: "char \<Rightarrow> bool" where
  "is_digit c \<longleftrightarrow> CHR ''0'' \<le> c \<and> c \<le> CHR ''9''"

definition dec_value :: "string \<Rightarrow> nat" where
  "dec_value s = foldl (\<lambda>a c. 10 * a + (of_char c - 48)) 0 s"

text \<open>\<open>strconv.ParseInt(s, 10, 64)\<close>: an optional sign, at least one digit, and the \<open>int64\<close> range.\<close>

definition ParseInt :: "string \<Rightarrow> int option" where
  "ParseInt s =
     (let neg = (s \<noteq> [] \<and> hd s = CHR ''-'');
          ds = (if s \<noteq> [] \<and> (hd s = CHR ''-'' \<or> hd s = CHR ''+'') then tl s else s)
      in if ds = [] \<or> \<not> list_all is_digit ds then None
         else let un = int (dec_value ds) in
           if \<not> neg \<and> un \<ge> 2 ^ 63 then None
           else if neg \<and> un > 2 ^ 63 then None
           else Some (if neg then - un else un))"

section \<open>The first key family: keycodec.go\<close>

definition MapKey :: "string \<Rightarrow> string \<Rightarrow> string" where
  "MapKey col key = ''m'' @ Sep @ col @ Sep @ key"

definition SetKey :: "string \<Rightarrow> string \<Rightarrow> string" where
  "SetKey col key = ''s'' @ Sep @ col @ Sep @ key"

definition CounterKey :: "string \<Rightarrow> string \<Rightarrow> string" where
  "CounterKey col ckey = ''c'' @ Sep @ col @ Sep @ ckey"

definition CollectionPrefix :: "string \<Rightarrow> string" where
  "CollectionPrefix col = ''m'' @ Sep @ col @ Sep"

definition CounterPrefix :: "string \<Rightarrow> string" where
  "CounterPrefix col = ''c'' @ Sep @ col @ Sep"

definition MultimapPrefix :: "string \<Rightarrow> string \<Rightarrow> string" where
  "MultimapPrefix col key = ''mm'' @ Sep @ col @ Sep @ key @ Sep"

definition LogPrefix :: "string \<Rightarrow> string" where
  "LogPrefix col = ''l'' @ Sep @ col @ Sep"

definition MultimapKey :: "string \<Rightarrow> string \<Rightarrow> int \<Rightarrow> string" where
  "MultimapKey col key seq = ''mm'' @ Sep @ col @ Sep @ key @ Sep @ fmt020d seq"

definition LogKey :: "string \<Rightarrow> int \<Rightarrow> string" where
  "LogKey col seq = ''l'' @ Sep @ col @ Sep @ fmt020d seq"

definition VectorKey :: "string \<Rightarrow> string \<Rightarrow> string" where
  "VectorKey col i = ''vec'' @ Sep @ col @ Sep @ i"

definition VectorPrefix :: "string \<Rightarrow> string" where
  "VectorPrefix col = ''vec'' @ Sep @ col @ Sep"

definition VectorMetaKey :: "string \<Rightarrow> string \<Rightarrow> string" where
  "VectorMetaKey col i = ''vecm'' @ Sep @ col @ Sep @ i"

definition VectorMetaPrefix :: "string \<Rightarrow> string" where
  "VectorMetaPrefix col = ''vecm'' @ Sep @ col @ Sep"

definition GraphEdgeFwdKey :: "string \<Rightarrow> string \<Rightarrow> string \<Rightarrow> string" where
  "GraphEdgeFwdKey col from to = ''edge'' @ Sep @ col @ Sep @ from @ Sep @ to"

definition GraphEdgeFwdPrefix :: "string \<Rightarrow> string \<Rightarrow> string" where
  "GraphEdgeFwdPrefix col from = ''edge'' @ Sep @ col @ Sep @ from @ Sep"

definition GraphEdgeRevKey :: "string \<Rightarrow> string \<Rightarrow> string \<Rightarrow> string" where
  "GraphEdgeRevKey col to from = ''edger'' @ Sep @ col @ Sep @ to @ Sep @ from"

definition GraphEdgeRevPrefix :: "string \<Rightarrow> string \<Rightarrow> string" where
  "GraphEdgeRevPrefix col to = ''edger'' @ Sep @ col @ Sep @ to @ Sep"

definition kv_StreamKey :: "string \<Rightarrow> string \<Rightarrow> int \<Rightarrow> string" where
  "kv_StreamKey col sid seq = ''sl'' @ Sep @ col @ Sep @ sid @ Sep @ fmt020d seq"

definition StreamPrefix :: "string \<Rightarrow> string \<Rightarrow> string" where
  "StreamPrefix col sid = ''sl'' @ Sep @ col @ Sep @ sid @ Sep"

definition JournalKey :: "string \<Rightarrow> int \<Rightarrow> string" where
  "JournalKey col gseq = ''jl'' @ Sep @ col @ Sep @ fmt020d gseq"

definition JournalPrefix :: "string \<Rightarrow> string" where
  "JournalPrefix col = ''jl'' @ Sep @ col @ Sep"

text \<open>The sequence is the last 20 bytes, when they parse.\<close>

definition JournalSeq :: "string \<Rightarrow> int \<times> bool" where
  "JournalSeq key =
     (if length key < 20 then (0, False)
      else case ParseInt (drop (length key - 20) key) of
        None \<Rightarrow> (0, False)
      | Some seq \<Rightarrow> (seq, True))"

definition StreamSeqKey :: "string \<Rightarrow> string \<Rightarrow> string" where
  "StreamSeqKey col sid = col @ Sep @ sid"

section \<open>Counter values\<close>

text \<open>\<open>binary.BigEndian.PutUint64\<close> and \<open>Uint64\<close>, with the conversions of \<open>int64\<close> around them.\<close>

definition EncodeCounterValue :: "int \<Rightarrow> byte list" where
  "EncodeCounterValue v =
     (let u = (word_of_int v :: u64) in
      map (\<lambda>k. ucast (drop_bit (8 * k) u)) [7, 6, 5, 4, 3, 2, 1, 0])"

definition BigEndian_Uint64 :: "byte list \<Rightarrow> u64" where
  "BigEndian_Uint64 data = foldl (\<lambda>u b. u * 256 + ucast b) 0 (take 8 data)"

definition DecodeCounterValue :: "byte list \<Rightarrow> int" where
  "DecodeCounterValue data = (if length data < 8 then 0 else sint (BigEndian_Uint64 data))"

section \<open>Splitting a key into its group and sequence\<close>

definition SeqTailLen :: int where
  "SeqTailLen = 21"

text \<open>
  \<open>prefixLen\<close> is an \<open>int\<close>: the sum with the tail length wraps, and the index and the slice
  expressions panic out of range.
\<close>

definition SplitGroupAndSeq :: "string \<Rightarrow> int \<Rightarrow> bool \<Rightarrow> (string \<times> int \<times> bool) outcome" where
  "SplitGroupAndSeq key prefixLen wholeGroup =
     (let n = int (length key) in
      if n < sint (word_of_int (prefixLen + SeqTailLen) :: u64) then Ok ([], 0, False)
      else if n - SeqTailLen < 0 then Panic
      else if key ! nat (n - SeqTailLen) \<noteq> NUL then Ok ([], 0, False)
      else obind (slice_from key (n - SeqTailLen + 1)) (\<lambda>tail.
        case ParseInt tail of
          None \<Rightarrow> Ok ([], 0, False)
        | Some seq \<Rightarrow>
            obind (slice_to key (n - SeqTailLen)) (\<lambda>front.
            obind (slice_from front prefixLen) (\<lambda>rest.
              Ok (if \<not> wholeGroup then takeWhile (\<lambda>c. c \<noteq> NUL) rest else rest, seq, True)))))"

section \<open>The second key family: v2.go\<close>

definition MapKeyV2 :: "string \<Rightarrow> string \<Rightarrow> string" where
  "MapKeyV2 col key = ''m2'' @ Sep @ Escape col @ Sep @ Escape key"

definition SetKeyV2 :: "string \<Rightarrow> string \<Rightarrow> string" where
  "SetKeyV2 col key = ''s2'' @ Sep @ Escape col @ Sep @ Escape key"

definition CounterKeyV2 :: "string \<Rightarrow> string \<Rightarrow> string" where
  "CounterKeyV2 col ckey = ''c2'' @ Sep @ Escape col @ Sep @ Escape ckey"

definition CollectionPrefixV2 :: "string \<Rightarrow> string" where
  "CollectionPrefixV2 col = ''m2'' @ Sep @ Escape col @ Sep"

definition CounterPrefixV2 :: "string \<Rightarrow> string" where
  "CounterPrefixV2 col = ''c2'' @ Sep @ Escape col @ Sep"

definition MultimapPrefixV2 :: "string \<Rightarrow> string \<Rightarrow> string" where
  "MultimapPrefixV2 col key = ''mm2'' @ Sep @ Escape col @ Sep @ Escape key @ Sep"

definition LogPrefixV2 :: "string \<Rightarrow> string" where
  "LogPrefixV2 col = ''l2'' @ Sep @ Escape col @ Sep"

definition MultimapKeyV2 :: "string \<Rightarrow> string \<Rightarrow> int \<Rightarrow> string" where
  "MultimapKeyV2 col key seq = ''mm2'' @ Sep @ Escape col @ Sep @ Escape key @ Sep @ fmt020d seq"

definition LogKeyV2 :: "string \<Rightarrow> int \<Rightarrow> string" where
  "LogKeyV2 col seq = ''l2'' @ Sep @ Escape col @ Sep @ fmt020d seq"

definition VectorKeyV2 :: "string \<Rightarrow> string \<Rightarrow> string" where
  "VectorKeyV2 col i = ''vec2'' @ Sep @ Escape col @ Sep @ Escape i"

definition VectorPrefixV2 :: "string \<Rightarrow> string" where
  "VectorPrefixV2 col = ''vec2'' @ Sep @ Escape col @ Sep"

definition VectorMetaKeyV2 :: "string \<Rightarrow> string \<Rightarrow> string" where
  "VectorMetaKeyV2 col i = ''vecm2'' @ Sep @ Escape col @ Sep @ Escape i"

definition VectorMetaPrefixV2 :: "string \<Rightarrow> string" where
  "VectorMetaPrefixV2 col = ''vecm2'' @ Sep @ Escape col @ Sep"

definition GraphEdgeFwdKeyV2 :: "string \<Rightarrow> string \<Rightarrow> string \<Rightarrow> string" where
  "GraphEdgeFwdKeyV2 col from to = ''edge2'' @ Sep @ Escape col @ Sep @ Escape from @ Sep @ Escape to"

definition GraphEdgeFwdPrefixV2 :: "string \<Rightarrow> string \<Rightarrow> string" where
  "GraphEdgeFwdPrefixV2 col from = ''edge2'' @ Sep @ Escape col @ Sep @ Escape from @ Sep"

definition GraphEdgeRevKeyV2 :: "string \<Rightarrow> string \<Rightarrow> string \<Rightarrow> string" where
  "GraphEdgeRevKeyV2 col to from = ''edger2'' @ Sep @ Escape col @ Sep @ Escape to @ Sep @ Escape from"

definition GraphEdgeRevPrefixV2 :: "string \<Rightarrow> string \<Rightarrow> string" where
  "GraphEdgeRevPrefixV2 col to = ''edger2'' @ Sep @ Escape col @ Sep @ Escape to @ Sep"

definition StreamKeyV2 :: "string \<Rightarrow> string \<Rightarrow> int \<Rightarrow> string" where
  "StreamKeyV2 col sid seq = ''sl2'' @ Sep @ Escape col @ Sep @ Escape sid @ Sep @ fmt020d seq"

definition StreamPrefixV2 :: "string \<Rightarrow> string \<Rightarrow> string" where
  "StreamPrefixV2 col sid = ''sl2'' @ Sep @ Escape col @ Sep @ Escape sid @ Sep"

definition JournalKeyV2 :: "string \<Rightarrow> int \<Rightarrow> string" where
  "JournalKeyV2 col gseq = ''jl2'' @ Sep @ Escape col @ Sep @ fmt020d gseq"

definition JournalPrefixV2 :: "string \<Rightarrow> string" where
  "JournalPrefixV2 col = ''jl2'' @ Sep @ Escape col @ Sep"

definition StreamSeqKeyV2 :: "string \<Rightarrow> string \<Rightarrow> string" where
  "StreamSeqKeyV2 col sid = Escape col @ Sep @ Escape sid"

lemmas v2_key_defs =
  MapKeyV2_def SetKeyV2_def CounterKeyV2_def MultimapKeyV2_def LogKeyV2_def VectorKeyV2_def
  VectorMetaKeyV2_def GraphEdgeFwdKeyV2_def GraphEdgeRevKeyV2_def StreamKeyV2_def JournalKeyV2_def

lemmas v2_prefix_defs =
  CollectionPrefixV2_def CounterPrefixV2_def MultimapPrefixV2_def LogPrefixV2_def
  VectorPrefixV2_def VectorMetaPrefixV2_def GraphEdgeFwdPrefixV2_def GraphEdgeRevPrefixV2_def
  StreamPrefixV2_def JournalPrefixV2_def

section \<open>Escaping is invertible and removes the separator\<close>

lemma NUL_ESC [simp]: "NUL \<noteq> ESC" "ESC \<noteq> NUL" "ESC \<noteq> CHR ''0''" "ESC \<noteq> CHR ''1''"
  "NUL \<noteq> CHR ''0''" "NUL \<noteq> CHR ''1''"
  by (simp_all add: NUL_def ESC_def)

lemma Escape_loop_no_NUL: "NUL \<notin> set (Escape_loop s)"
  by (induction s) auto

lemma Escape_no_NUL [simp]: "NUL \<notin> set (Escape s)"
  by (simp add: Escape_def Escape_loop_no_NUL)

lemma Escape_loop_id: "NUL \<notin> set s \<Longrightarrow> ESC \<notin> set s \<Longrightarrow> Escape_loop s = s"
  by (induction s) auto

lemma Escape_eq_loop: "Escape s = Escape_loop s"
  by (simp add: Escape_def Escape_loop_id)

lemma Unescape_loop_plain: "c \<noteq> ESC \<Longrightarrow> Unescape_loop (c # cs) = c # Unescape_loop cs"
  by (cases cs) simp_all

lemma Unescape_loop_id: "ESC \<notin> set s \<Longrightarrow> Unescape_loop s = s"
  by (induction s) (auto simp: Unescape_loop_plain)

lemma Unescape_Escape: "Unescape (Escape s) = s"
proof -
  have "Unescape_loop (Escape_loop s) = s"
    by (induction s) (auto simp: Unescape_loop_plain)
  then show ?thesis
    by (simp add: Unescape_def Escape_eq_loop) (metis Unescape_loop_id)
qed

lemma Escape_inj [simp]: "Escape s = Escape t \<longleftrightarrow> s = t"
  by (metis Unescape_Escape)

section \<open>Fixed-width decimals\<close>

fun fixed :: "nat \<Rightarrow> nat \<Rightarrow> string" where
  "fixed 0 n = []"
| "fixed (Suc w) n = fixed w (n div 10) @ [digit (n mod 10)]"

lemma length_fixed [simp]: "length (fixed w n) = w"
  by (induction w arbitrary: n) simp_all

lemma digit_zero [simp]: "digit 0 = CHR ''0''"
  unfolding digit_def by (simp add: char_of_def bit_0)

lemma fixed_zero: "fixed w 0 = replicate w (CHR ''0'')"
  by (induction w) (simp_all add: replicate_append_same)

lemma fixed_digits:
  "n < 10 ^ w \<Longrightarrow> 0 < w \<Longrightarrow>
     fixed w n = replicate (w - length (digits n)) (CHR ''0'') @ digits n \<and> length (digits n) \<le> w"
proof (induction n arbitrary: w rule: digits.induct)
  case (1 n)
  then obtain v where w: "w = Suc v" by (cases w) auto
  show ?case
  proof (cases "n < 10")
    case True
    then show ?thesis
      by (simp add: w fixed_zero digits.simps[of n])
  next
    case False
    then have "n div 10 < 10 ^ v" "0 < v"
      using 1(2) w by (auto simp: less_mult_imp_div_less mult.commute intro!: Nat.gr0I)
    with 1(1)[OF False, of v] have
      "fixed v (n div 10) = replicate (v - length (digits (n div 10))) (CHR ''0'') @ digits (n div 10)"
      "length (digits (n div 10)) \<le> v" by auto
    with False show ?thesis
      by (simp add: w digits.simps[of n])
  qed
qed

lemma zpad_fixed: "n < 10 ^ w \<Longrightarrow> 0 < w \<Longrightarrow> zpad w n = fixed w n"
  using fixed_digits[of n w] by (simp add: zpad_def)

lemma of_char_digit [simp]: "d < 10 \<Longrightarrow> of_char (digit d) = 48 + d"
  by (simp add: digit_def)

lemma is_digit_digit [simp]: "d < 10 \<Longrightarrow> is_digit (digit d)"
  by (simp add: is_digit_def less_eq_char_def)

lemma digit_less [simp]: "a < 10 \<Longrightarrow> b < 10 \<Longrightarrow> digit a < digit b \<longleftrightarrow> a < b"
  by (simp add: less_char_def)

lemma digit_inj [simp]: "a < 10 \<Longrightarrow> b < 10 \<Longrightarrow> digit a = digit b \<longleftrightarrow> a = b"
  by (metis of_char_digit add_left_cancel)

lemma fixed_is_digit: "list_all is_digit (fixed w n)"
  by (induction w arbitrary: n) simp_all

lemma dec_value_fixed: "dec_value (fixed w n) = n mod 10 ^ w"
proof (induction w arbitrary: n)
  case (Suc w)
  have "dec_value (fixed (Suc w) n) = 10 * (n div 10 mod 10 ^ w) + n mod 10"
    using Suc[of "n div 10"] by (simp add: dec_value_def)
  also have "\<dots> = n mod 10 ^ Suc w"
    by (simp add: mod_mult2_eq)
  finally show ?case .
qed (simp add: dec_value_def)

lemma less_snoc:
  fixes xs :: "'a::linorder list"
  shows "length xs = length ys \<Longrightarrow> xs @ [a] < ys @ [b] \<longleftrightarrow> xs < ys \<or> xs = ys \<and> a < b"
  by (induction xs ys rule: list_induct2) auto

lemma fixed_inj: "m < 10 ^ w \<Longrightarrow> n < 10 ^ w \<Longrightarrow> fixed w m = fixed w n \<longleftrightarrow> m = n"
  by (metis dec_value_fixed mod_less)

lemma less_div_mod:
  fixes m n :: nat
  shows "m div 10 < n div 10 \<or> m div 10 = n div 10 \<and> m mod 10 < n mod 10 \<longleftrightarrow> m < n"
  using div_mult_mod_eq[of m 10] div_mult_mod_eq[of n 10]
    mod_less_divisor[of 10 m] mod_less_divisor[of 10 n] by linarith

lemma fixed_less: "m < 10 ^ w \<Longrightarrow> n < 10 ^ w \<Longrightarrow> fixed w m < fixed w n \<longleftrightarrow> m < n"
proof (induction w arbitrary: m n)
  case (Suc w)
  have b: "m div 10 < 10 ^ w" "n div 10 < 10 ^ w"
    using Suc.prems by (simp_all add: less_mult_imp_div_less mult.commute)
  have "fixed (Suc w) m < fixed (Suc w) n \<longleftrightarrow>
      m div 10 < n div 10 \<or> m div 10 = n div 10 \<and> m mod 10 < n mod 10"
    using Suc.IH[OF b] fixed_inj[OF b] by (simp add: less_snoc)
  also have "\<dots> \<longleftrightarrow> m < n"
    by (rule less_div_mod)
  finally show ?case .
qed simp

text \<open>The three facts about sequence numbers the key theorems use.\<close>

lemma int64_bounds:
  assumes "int64 n"
  shows "nat n < 10 ^ 20" and "nat (- n) < 10 ^ 19" and "nat n < 2 ^ 63" and "nat (- n) \<le> 2 ^ 63"
  using assms by (simp_all add: int64_def) linarith+

lemma fmt020d_fixed:
  "int64 n \<Longrightarrow> fmt020d n = (if n < 0 then CHR ''-'' # fixed 19 (nat (- n)) else fixed 20 (nat n))"
  using int64_bounds[of n] by (simp add: fmt020d_def zpad_fixed)

lemma length_fmt020d: "int64 n \<Longrightarrow> length (fmt020d n) = 20"
  by (simp add: fmt020d_fixed)

lemma is_digit_sign [simp]: "\<not> is_digit (CHR ''-'')" "\<not> is_digit (CHR ''+'')" "\<not> is_digit NUL"
  by (simp_all add: is_digit_def NUL_def less_eq_char_def)

lemma NUL_sign: "NUL \<noteq> CHR ''-''"
  by (simp add: NUL_def)

lemma fixed_not_sign: "x \<in> set (fixed w n) \<Longrightarrow> is_digit x"
  using fixed_is_digit[of w n] by (simp add: list_all_iff)

lemma fixed_hd: "0 < w \<Longrightarrow> fixed w n \<noteq> [] \<and> is_digit (hd (fixed w n))"
  using fixed_is_digit[of w n] length_fixed[of w n] by (cases "fixed w n") simp_all

lemma ParseInt_fmt020d:
  assumes "int64 n"
  shows "ParseInt (fmt020d n) = Some n"
proof (cases "n < 0")
  case True
  have ne: "fixed 19 (nat (- n)) \<noteq> []" using fixed_hd by simp
  have v: "dec_value (fixed 19 (nat (- n))) = nat (- n)"
    using int64_bounds(2)[OF assms] by (simp only: dec_value_fixed mod_less)
  have r: "\<not> int (nat (- n)) > 2 ^ 63" using assms True by (simp add: int64_def)
  show ?thesis
    using True ne r fixed_is_digit[of 19 "nat (- n)"]
    by (simp add: ParseInt_def fmt020d_fixed[OF assms] v Let_def)
next
  case False
  have h: "hd (fixed 20 (nat n)) \<noteq> CHR ''-''" "hd (fixed 20 (nat n)) \<noteq> CHR ''+''" "fixed 20 (nat n) \<noteq> []"
    using fixed_hd[of 20 "nat n"] by auto
  have v: "dec_value (fixed 20 (nat n)) = nat n"
    using int64_bounds(1)[OF assms] by (simp only: dec_value_fixed mod_less)
  have r: "\<not> 2 ^ 63 \<le> int (nat n)" using assms False by (simp add: int64_def)
  show ?thesis
    using False h r fixed_is_digit[of 20 "nat n"]
    by (simp add: ParseInt_def fmt020d_fixed[OF assms] v Let_def del: fixed.simps)
qed

lemma fmt020d_inj: "int64 m \<Longrightarrow> int64 n \<Longrightarrow> fmt020d m = fmt020d n \<longleftrightarrow> m = n"
  by (metis ParseInt_fmt020d option.inject)

lemma fmt020d_no_NUL: "int64 n \<Longrightarrow> NUL \<notin> set (fmt020d n)"
  using fixed_not_sign[of NUL] by (auto simp: fmt020d_fixed NUL_sign)

lemma fmt020d_less:
  "int64 m \<Longrightarrow> int64 n \<Longrightarrow> 0 \<le> m \<Longrightarrow> 0 \<le> n \<Longrightarrow> fmt020d m < fmt020d n \<longleftrightarrow> m < n"
  using int64_bounds(1)[of m] int64_bounds(1)[of n]
  by (auto simp add: fmt020d_fixed fixed_less simp del: fixed.simps)

section \<open>Joins of separator-free segments\<close>

fun join_sep :: "string list \<Rightarrow> string" where
  "join_sep [] = []"
| "join_sep [x] = x"
| "join_sep (x # y # zs) = x @ NUL # join_sep (y # zs)"

definition clean :: "string list \<Rightarrow> bool" where
  "clean xs \<longleftrightarrow> xs \<noteq> [] \<and> (\<forall>x \<in> set xs. NUL \<notin> set x)"

lemma append_sep_eq:
  "NUL \<notin> set a \<Longrightarrow> NUL \<notin> set b \<Longrightarrow> a @ NUL # x = b @ NUL # y \<longleftrightarrow> a = b \<and> x = y"
proof (induction a arbitrary: b)
  case Nil
  then show ?case by (cases b) auto
next
  case (Cons c a)
  then show ?case by (cases b) auto
qed

lemma join_sep_Cons: "zs \<noteq> [] \<Longrightarrow> join_sep (x # zs) = x @ NUL # join_sep zs"
  by (cases zs) simp_all

lemma clean_Cons: "zs \<noteq> [] \<Longrightarrow> clean (x # zs) \<longleftrightarrow> NUL \<notin> set x \<and> clean zs"
  by (auto simp: clean_def)

lemma clean_single: "clean [x] \<longleftrightarrow> NUL \<notin> set x"
  by (simp add: clean_def)

lemma join_sep_inj: "clean xs \<Longrightarrow> clean ys \<Longrightarrow> join_sep xs = join_sep ys \<longleftrightarrow> xs = ys"
proof (induction xs arbitrary: ys rule: join_sep.induct)
  case 1
  then show ?case by (simp add: clean_def)
next
  case (2 x)
  then show ?case
    by (cases ys rule: join_sep.cases) (auto simp: clean_def)
next
  case (3 x y zs)
  then show ?case
    by (cases ys rule: join_sep.cases) (auto simp: append_sep_eq clean_Cons clean_def[of "[_]"] clean_def[of "[]"])
qed

lemma prefix_sep:
  "NUL \<notin> set a \<Longrightarrow> NUL \<notin> set b \<Longrightarrow> prefix (a @ NUL # x) (b @ NUL # y) \<longleftrightarrow> a = b \<and> prefix x y"
  by (auto simp: prefix_def append_sep_eq)

lemma prefix_sep_none: "NUL \<notin> set b \<Longrightarrow> \<not> prefix (a @ NUL # x) b"
  by (auto simp: prefix_def)

text \<open>A scan prefix, segments ended by a separator, selects the keys that continue these segments.\<close>

lemma prefix_join_sep:
  "clean xs \<Longrightarrow> clean ys \<Longrightarrow>
     prefix (join_sep xs @ Sep) (join_sep ys) \<longleftrightarrow> (\<exists>zs. zs \<noteq> [] \<and> ys = xs @ zs)"
proof (induction xs arbitrary: ys rule: join_sep.induct)
  case 1
  then show ?case by (simp add: clean_def)
next
  case (2 x)
  then show ?case
    by (cases ys rule: join_sep.cases)
      (auto simp: Sep_def clean_single prefix_sep prefix_sep_none clean_Cons)
next
  case (3 x y zs)
  show ?case
  proof (cases ys rule: join_sep.cases)
    case (3 u v ws)
    with "3.prems" "3.IH"[of "v # ws"] show ?thesis
      by (auto simp: prefix_sep clean_Cons)
  qed (use "3.prems" in \<open>auto simp: clean_def prefix_sep_none\<close>)
qed

section \<open>The keys of the second family\<close>

text \<open>The logical keys, one constructor per key builder of \<open>v2.go\<close>, and their encodings.\<close>

datatype v2_key =
    VMap string string | VSet string string | VCounter string string
  | VMultimap string string int | VLog string int
  | VVector string string | VVectorMeta string string
  | VEdgeFwd string string string | VEdgeRev string string string
  | VStream string string int | VJournal string int

fun v2_bytes :: "v2_key \<Rightarrow> string" where
  "v2_bytes (VMap col key) = MapKeyV2 col key"
| "v2_bytes (VSet col key) = SetKeyV2 col key"
| "v2_bytes (VCounter col ckey) = CounterKeyV2 col ckey"
| "v2_bytes (VMultimap col key seq) = MultimapKeyV2 col key seq"
| "v2_bytes (VLog col seq) = LogKeyV2 col seq"
| "v2_bytes (VVector col i) = VectorKeyV2 col i"
| "v2_bytes (VVectorMeta col i) = VectorMetaKeyV2 col i"
| "v2_bytes (VEdgeFwd col from to) = GraphEdgeFwdKeyV2 col from to"
| "v2_bytes (VEdgeRev col to from) = GraphEdgeRevKeyV2 col to from"
| "v2_bytes (VStream col sid seq) = StreamKeyV2 col sid seq"
| "v2_bytes (VJournal col gseq) = JournalKeyV2 col gseq"

fun v2_seq_ok :: "v2_key \<Rightarrow> bool" where
  "v2_seq_ok (VMultimap col key seq) = int64 seq"
| "v2_seq_ok (VLog col seq) = int64 seq"
| "v2_seq_ok (VStream col sid seq) = int64 seq"
| "v2_seq_ok (VJournal col gseq) = int64 gseq"
| "v2_seq_ok _ = True"

fun v2_segments :: "v2_key \<Rightarrow> string list" where
  "v2_segments (VMap col key) = [''m2'', Escape col, Escape key]"
| "v2_segments (VSet col key) = [''s2'', Escape col, Escape key]"
| "v2_segments (VCounter col ckey) = [''c2'', Escape col, Escape ckey]"
| "v2_segments (VMultimap col key seq) = [''mm2'', Escape col, Escape key, fmt020d seq]"
| "v2_segments (VLog col seq) = [''l2'', Escape col, fmt020d seq]"
| "v2_segments (VVector col i) = [''vec2'', Escape col, Escape i]"
| "v2_segments (VVectorMeta col i) = [''vecm2'', Escape col, Escape i]"
| "v2_segments (VEdgeFwd col from to) = [''edge2'', Escape col, Escape from, Escape to]"
| "v2_segments (VEdgeRev col to from) = [''edger2'', Escape col, Escape to, Escape from]"
| "v2_segments (VStream col sid seq) = [''sl2'', Escape col, Escape sid, fmt020d seq]"
| "v2_segments (VJournal col gseq) = [''jl2'', Escape col, fmt020d gseq]"

lemma v2_bytes_join: "v2_bytes k = join_sep (v2_segments k)"
  by (cases k) (simp_all add: v2_key_defs Sep_def)

lemma v2_segments_clean: "v2_seq_ok k \<Longrightarrow> clean (v2_segments k)"
  by (cases k) (simp_all add: clean_def fmt020d_no_NUL, simp_all add: NUL_def)

lemma v2_segments_inj:
  "v2_seq_ok a \<Longrightarrow> v2_seq_ok b \<Longrightarrow> v2_segments a = v2_segments b \<Longrightarrow> a = b"
  by (cases a; cases b) (simp_all add: fmt020d_inj)

lemma v2_scan:
  assumes "v2_seq_ok k" and "clean xs" and "p = join_sep xs @ Sep"
  shows "prefix p (v2_bytes k) \<longleftrightarrow> (\<exists>zs. zs \<noteq> [] \<and> v2_segments k = xs @ zs)"
  using assms by (simp add: v2_bytes_join prefix_join_sep v2_segments_clean)

section \<open>Reading sequences back\<close>

lemma fmt020d_tail:
  assumes "int64 n"
  shows "drop (length (pre @ fmt020d n) - 20) (pre @ fmt020d n) = fmt020d n"
  using length_fmt020d[OF assms] by simp

lemma JournalSeq_tail: "int64 n \<Longrightarrow> JournalSeq (pre @ fmt020d n) = (n, True)"
  using fmt020d_tail[of n pre] length_fmt020d[of n] ParseInt_fmt020d[of n]
  by (simp add: JournalSeq_def)

lemma SplitGroupAndSeq_tail:
  assumes "int64 n" and "int (length tag) + 21 < 2 ^ 63"
  shows "SplitGroupAndSeq (tag @ g @ Sep @ fmt020d n) (int (length tag)) whole =
    Ok (if whole then g else takeWhile (\<lambda>c. c \<noteq> NUL) g, n, True)"
proof -
  let ?key = "tag @ g @ Sep @ fmt020d n"
  have len: "int (length ?key) - 21 = int (length (tag @ g))"
    using length_fmt020d[OF assms(1)] by (simp add: Sep_def)
  have sum: "sint (word_of_int (int (length tag) + 21) :: u64) = int (length tag) + 21"
    using assms(2) by (intro sint_in_range) (simp add: int64_def)
  have nth: "?key ! nat (int (length (tag @ g))) = NUL"
    using nth_append_length[of "tag @ g" NUL "fmt020d n"]
    by (simp only: Sep_def nat_int append.assoc append_Cons append_Nil)
  have tail: "slice_from ?key (int (length (tag @ g)) + 1) = Ok (fmt020d n)"
    using length_fmt020d[OF assms(1)]
    by (simp add: slice_from_def Sep_def nat_add_distrib nat_int_add)
  have front: "slice_to ?key (int (length (tag @ g))) = Ok (tag @ g)"
    using length_fmt020d[OF assms(1)]
    by (simp add: slice_to_def Sep_def nat_int_add)
  have rest: "slice_from (tag @ g) (int (length tag)) = Ok g"
    by (simp add: slice_from_def)
  have enough: "\<not> int (length ?key) < int (length tag) + 21"
    using len by simp
  have nonneg: "\<not> int (length (tag @ g)) < 0" by simp
  show ?thesis
    unfolding SplitGroupAndSeq_def Let_def SeqTailLen_def sum len nth tail
    by (simp only: enough nonneg if_False obind.simps ParseInt_fmt020d[OF assms(1)] option.case
        front rest simp_thms if_not_P) simp
qed

lemma append_same_less:
  fixes xs :: "'a::linorder list"
  shows "us @ xs < us @ ys \<longleftrightarrow> xs < ys"
  by (induction us) simp_all

section \<open>Counter values\<close>

lemma word_byte_split: "drop_bit 8 w * 256 + ucast (ucast w :: byte) = (w :: u64)"
proof -
  have "ucast (ucast w :: byte) = take_bit 8 w"
    by (rule bit_word_eqI) (auto simp: bit_ucast_iff bit_take_bit_iff)
  moreover have "drop_bit 8 w * 256 = push_bit 8 (drop_bit 8 w)"
    by (simp add: push_bit_eq_mult mult.commute)
  ultimately show ?thesis
    by (simp only: bits_ident)
qed

lemma BigEndian_roundtrip:
  fixes u :: u64
  shows "BigEndian_Uint64 (map (\<lambda>k. ucast (drop_bit (8 * k) u)) [7, 6, 5, 4, 3, 2, 1, 0]) = u"
proof -
  have step: "drop_bit (8 * Suc k) u * 256 + ucast (ucast (drop_bit (8 * k) u) :: byte) = drop_bit (8 * k) u" for k
    using word_byte_split[of "drop_bit (8 * k) u"] by (simp add: drop_bit_drop_bit)
  have "drop_bit 64 u = 0"
    by (rule bit_word_eqI) (auto simp: bit_drop_bit_eq dest: bit_imp_le_length)
  with step[of 7] step[of 6] step[of 5] step[of 4] step[of 3] step[of 2] step[of 1] step[of 0]
  show ?thesis
    by (simp add: BigEndian_Uint64_def)
qed

section \<open>Properties\<close>

text \<open>
  The keys of the second family identify what they encode: whatever bytes the collection
  names, keys and node names contain, two keys are equal exactly when the builder and all its
  arguments are, and escaped segments read back. Two keys of the first family can collide.
\<close>

theorem v2_keys_injective:
  assumes "v2_seq_ok a" and "v2_seq_ok b"
  shows "(v2_bytes a = v2_bytes b \<longleftrightarrow> a = b) \<and> Unescape (Escape s) = s \<and>
         (\<exists>col key col' key'. (col, key) \<noteq> (col', key') \<and> MapKey col key = MapKey col' key')"
proof (intro conjI)
  show "v2_bytes a = v2_bytes b \<longleftrightarrow> a = b"
    using assms v2_segments_inj[OF assms]
    by (auto simp: v2_bytes_join join_sep_inj v2_segments_clean)
  show "Unescape (Escape s) = s" by (rule Unescape_Escape)
  have "MapKey ''a'' (''b'' @ Sep @ ''c'') = MapKey (''a'' @ Sep @ ''b'') ''c''"
    by (simp add: MapKey_def)
  then show "\<exists>col key col' key'. (col, key) \<noteq> (col', key') \<and> MapKey col key = MapKey col' key'"
    by (intro exI[of _ "''a''"] exI[of _ "''b'' @ Sep @ ''c''"] exI[of _ "''a'' @ Sep @ ''b''"]
        exI[of _ "''c''"] conjI) (simp_all add: Sep_def)
qed

theorem v2_keys_injective_witness:
  "v2_bytes (VLog ''a'' 5) \<noteq> v2_bytes (VJournal ''a'' 5) \<and>
   v2_bytes (VStream ''a'' ''b'' 7) \<noteq> v2_bytes (VStream ''a'' ''b'' (-7))"
  using v2_keys_injective[of "VLog ''a'' 5" "VJournal ''a'' 5" "[]"]
    v2_keys_injective[of "VStream ''a'' ''b'' 7" "VStream ''a'' ''b'' (-7)" "[]"]
  by (simp add: int64_def)

text \<open>
  Scans are exact: among all keys of the second family the scan prefix of a collection, a
  multimap key, a stream or a node matches exactly the keys built for it, for every content of
  the names.
\<close>

theorem v2_scans_exact:
  assumes "v2_seq_ok k"
  shows "(prefix (CollectionPrefixV2 col) (v2_bytes k) \<longleftrightarrow> (\<exists>key. k = VMap col key)) \<and>
         (prefix (CounterPrefixV2 col) (v2_bytes k) \<longleftrightarrow> (\<exists>key. k = VCounter col key)) \<and>
         (prefix (MultimapPrefixV2 col key) (v2_bytes k) \<longleftrightarrow> (\<exists>seq. k = VMultimap col key seq)) \<and>
         (prefix (LogPrefixV2 col) (v2_bytes k) \<longleftrightarrow> (\<exists>seq. k = VLog col seq)) \<and>
         (prefix (VectorPrefixV2 col) (v2_bytes k) \<longleftrightarrow> (\<exists>i. k = VVector col i)) \<and>
         (prefix (VectorMetaPrefixV2 col) (v2_bytes k) \<longleftrightarrow> (\<exists>i. k = VVectorMeta col i)) \<and>
         (prefix (GraphEdgeFwdPrefixV2 col n) (v2_bytes k) \<longleftrightarrow> (\<exists>m. k = VEdgeFwd col n m)) \<and>
         (prefix (GraphEdgeRevPrefixV2 col n) (v2_bytes k) \<longleftrightarrow> (\<exists>m. k = VEdgeRev col n m)) \<and>
         (prefix (StreamPrefixV2 col sid) (v2_bytes k) \<longleftrightarrow> (\<exists>seq. k = VStream col sid seq)) \<and>
         (prefix (JournalPrefixV2 col) (v2_bytes k) \<longleftrightarrow> (\<exists>seq. k = VJournal col seq))"
proof -
  have two: "prefix (tag @ Sep @ Escape c @ Sep) (v2_bytes k) \<longleftrightarrow>
      (\<exists>zs. zs \<noteq> [] \<and> v2_segments k = [tag, Escape c] @ zs)" if "NUL \<notin> set tag" for tag c
    by (rule v2_scan[OF assms]) (use that in \<open>simp_all add: clean_def Sep_def\<close>)
  have three: "prefix (tag @ Sep @ Escape c @ Sep @ Escape d @ Sep) (v2_bytes k) \<longleftrightarrow>
      (\<exists>zs. zs \<noteq> [] \<and> v2_segments k = [tag, Escape c, Escape d] @ zs)" if "NUL \<notin> set tag" for tag c d
    by (rule v2_scan[OF assms]) (use that in \<open>simp_all add: clean_def Sep_def\<close>)
  show ?thesis
    unfolding v2_prefix_defs
    by (subst two three, simp add: NUL_def)+ (cases k; simp)
qed

theorem v2_scans_exact_witness:
  "\<not> prefix (CollectionPrefixV2 ''a'') (v2_bytes (VMap (''a'' @ Sep @ ''b'') ''c'')) \<and>
   prefix (StreamPrefixV2 ''a'' ''b'') (v2_bytes (VStream ''a'' ''b'' 7))"
  using v2_scans_exact[of "VMap (''a'' @ Sep @ ''b'') ''c''" "''a''" "[]" "[]" "[]"]
    v2_scans_exact[of "VStream ''a'' ''b'' 7" "''a''" "[]" "[]" "''b''"]
  by (simp add: Sep_def int64_def)

text \<open>
  Sequence numbers of keys: every \<open>int64\<close> sequence is read back from the key, with the
  counter group it belongs to (the stream for stream keys, the collection otherwise), and the
  byte order of the keys of one journal or stream is the numeric order of non-negative
  sequences, so a forward scan is in sequence order.
\<close>

theorem key_sequences:
  assumes "int64 i" and "int64 j"
  shows "JournalSeq (JournalKeyV2 col i) = (i, True) \<and>
         SplitGroupAndSeq (StreamKeyV2 col sid i) (int (length (''sl2'' @ Sep))) True =
           Ok (StreamSeqKeyV2 col sid, i, True) \<and>
         SplitGroupAndSeq (JournalKeyV2 col i) (int (length (''jl2'' @ Sep))) False =
           Ok (Escape col, i, True) \<and>
         SplitGroupAndSeq (MultimapKeyV2 col key i) (int (length (''mm2'' @ Sep))) False =
           Ok (Escape col, i, True) \<and>
         (0 \<le> i \<and> 0 \<le> j \<longrightarrow>
            (JournalKeyV2 col i < JournalKeyV2 col j \<longleftrightarrow> i < j) \<and>
            (StreamKeyV2 col sid i < StreamKeyV2 col sid j \<longleftrightarrow> i < j))"
proof (intro conjI impI)
  show "JournalSeq (JournalKeyV2 col i) = (i, True)"
    using JournalSeq_tail[OF assms(1), of "''jl2'' @ Sep @ Escape col @ Sep"]
    by (simp add: JournalKeyV2_def)
  have tw: "takeWhile (\<lambda>c. c \<noteq> NUL) (Escape col) = Escape col"
    by (subst takeWhile_eq_all_conv) (metis Escape_no_NUL)
  have tw3: "takeWhile (\<lambda>c. c \<noteq> NUL) (Escape col @ Sep @ Escape key) = Escape col"
    using tw by (subst takeWhile_append2) (auto simp: Sep_def)
  note split = SplitGroupAndSeq_tail[OF assms(1)]
  show "SplitGroupAndSeq (StreamKeyV2 col sid i) (int (length (''sl2'' @ Sep))) True =
      Ok (StreamSeqKeyV2 col sid, i, True)"
    using split[of "''sl2'' @ Sep" "Escape col @ Sep @ Escape sid" True]
    by (simp add: StreamKeyV2_def StreamSeqKeyV2_def Sep_def)
  show "SplitGroupAndSeq (JournalKeyV2 col i) (int (length (''jl2'' @ Sep))) False =
      Ok (Escape col, i, True)"
    using split[of "''jl2'' @ Sep" "Escape col" False] tw
    by (simp add: JournalKeyV2_def Sep_def)
  show "SplitGroupAndSeq (MultimapKeyV2 col key i) (int (length (''mm2'' @ Sep))) False =
      Ok (Escape col, i, True)"
    using split[of "''mm2'' @ Sep" "Escape col @ Sep @ Escape key" False] tw3
    by (simp add: MultimapKeyV2_def Sep_def)
qed (use assms in \<open>simp_all add: JournalKeyV2_def StreamKeyV2_def append_same_less fmt020d_less\<close>)

theorem key_sequences_witness:
  "JournalSeq (JournalKeyV2 ''a'' 9) = (9, True) \<and> JournalKeyV2 ''a'' 9 < JournalKeyV2 ''a'' 10"
  using key_sequences[of 9 10 "''a''" "[]" "[]"] by (simp add: int64_def)

text \<open>Counter values: every \<open>int64\<close> is decoded from its eight bytes; a shorter value reads as 0.\<close>

theorem counter_value_roundtrip:
  assumes "int64 v"
  shows "DecodeCounterValue (EncodeCounterValue v @ rest) = v \<and>
         (length short < 8 \<longrightarrow> DecodeCounterValue short = 0)"
proof -
  have "BigEndian_Uint64 (EncodeCounterValue v @ rest) = BigEndian_Uint64 (EncodeCounterValue v)"
    by (simp add: BigEndian_Uint64_def EncodeCounterValue_def Let_def)
  also have "\<dots> = word_of_int v"
    unfolding EncodeCounterValue_def Let_def by (rule BigEndian_roundtrip)
  finally show ?thesis
    using sint_in_range[OF assms]
    by (simp add: DecodeCounterValue_def) (simp add: EncodeCounterValue_def Let_def)
qed

theorem counter_value_roundtrip_witness:
  "DecodeCounterValue (EncodeCounterValue (-3) @ [7]) = -3"
  using counter_value_roundtrip[of "-3" "[7]" "[]"] by (simp add: int64_def)

end
