(* ===== verification/SeqSeeding.thy ===== *)
theory SeqSeeding
  imports KeyCodec
begin

text \<open>
  Sequence counters of the embedded engines: \<open>SeedSeqMax\<close> of \<open>src/metaengine/keycodec\<close> with
  its compare-and-swap loop under every interleaving of concurrent callers, and the start-up
  scan of \<open>src/metaengine/pebbleengine\<close> that resumes the counters from the stored keys. The
  database iterator is a parameter: it returns the stored keys between two bounds.
\<close>

section \<open>SeedSeqMax\<close>

text \<open>
  A \<open>sync.Map\<close> of \<open>*atomic.Int64\<close> is a partial map from groups to counter values; every access
  to it is atomic. A call of \<open>SeedSeqMax\<close> is at one of four points: before \<open>LoadOrStore\<close>,
  before \<open>Load\<close>, before the \<open>CompareAndSwap\<close> from the value it loaded, or returned.
  \<open>seed_access\<close> is the atomic access made there.
\<close>

type_synonym counters = "string \<rightharpoonup> int"

datatype seed_pc = SeedStart | SeedLoad | SeedCAS int | SeedDone

fun seed_access :: "string \<Rightarrow> int \<Rightarrow> seed_pc \<Rightarrow> counters \<Rightarrow> counters \<times> seed_pc" where
  "seed_access g seq SeedStart m = (case m g of None \<Rightarrow> m(g \<mapsto> 0) | Some _ \<Rightarrow> m, SeedLoad)"
| "seed_access g seq SeedLoad m =
     (case m g of
        None \<Rightarrow> (m, SeedLoad)
      | Some existing \<Rightarrow> (m, if existing \<ge> seq then SeedDone else SeedCAS existing))"
| "seed_access g seq (SeedCAS existing) m =
     (if m g = Some existing then (m(g \<mapsto> seq), SeedDone) else (m, SeedLoad))"
| "seed_access g seq SeedDone m = (m, SeedDone)"

text \<open>A call that runs alone needs three accesses.\<close>

definition SeedSeqMax :: "counters \<Rightarrow> string \<Rightarrow> int \<Rightarrow> counters" where
  "SeedSeqMax target g seq =
     (let (m1, p1) = seed_access g seq SeedStart target;
          (m2, p2) = seed_access g seq p1 m1;
          (m3, p3) = seed_access g seq p2 m2
      in m3)"

text \<open>Concurrent calls: at every step one of the calls that have not returned makes its next access.\<close>

type_synonym seed_call = "string \<times> int \<times> seed_pc"

inductive seed_step :: "counters \<times> seed_call list \<Rightarrow> counters \<times> seed_call list \<Rightarrow> bool" where
  access: "i < length calls \<Longrightarrow> calls ! i = (g, seq, pc) \<Longrightarrow> pc \<noteq> SeedDone \<Longrightarrow>
    seed_access g seq pc m = (m', pc') \<Longrightarrow>
    seed_step (m, calls) (m', calls[i := (g, seq, pc')])"

inductive_cases seed_stepE: "seed_step s t"

definition seed_calls :: "(string \<times> int) list \<Rightarrow> seed_call list" where
  "seed_calls cs = map (\<lambda>(g, seq). (g, seq, SeedStart)) cs"

section \<open>The start-up scan of the Pebble engine\<close>

text \<open>
  \<open>nextKey\<close> increments the last byte that is not 0xFF, from the end, setting the bytes after
  it to zero; when all bytes are 0xFF it returns the zeroed bytes with one more zero byte.
\<close>

definition byte_succ :: "char \<Rightarrow> char" where
  "byte_succ c = char_of ((of_char c + 1) mod 256 :: nat)"

fun nextKey_loop :: "string \<Rightarrow> string \<times> bool" where
  "nextKey_loop [] = ([], False)"
| "nextKey_loop (c # cs) =
     (let c' = byte_succ c in
      if c' \<noteq> NUL then (c' # cs, True)
      else let (r, found) = nextKey_loop cs in (c' # r, found))"

definition nextKey :: "string \<Rightarrow> string" where
  "nextKey pre =
     (let (r, found) = nextKey_loop (rev pre) in if found then rev r else rev r @ [NUL])"

type_synonym key_iter = "string \<Rightarrow> string \<Rightarrow> (string list \<times> go_error option) outcome"

definition newPrefixIter :: "key_iter \<Rightarrow> string \<Rightarrow> (string list \<times> go_error option) outcome" where
  "newPrefixIter NewIter pre = NewIter pre (nextKey pre)"

fun seedKeys :: "string list \<Rightarrow> int \<Rightarrow> bool \<Rightarrow> counters \<Rightarrow> counters outcome" where
  "seedKeys [] tagLen wholeGroup target = Ok target"
| "seedKeys (key # keys) tagLen wholeGroup target =
     obind (SplitGroupAndSeq key tagLen wholeGroup) (\<lambda>(g, seq, ok).
       if \<not> ok then seedKeys keys tagLen wholeGroup target
       else seedKeys keys tagLen wholeGroup (SeedSeqMax target g seq))"

text \<open>The counters are updated in place, so they are returned also when the iterator failed.\<close>

definition seedCollectionSeqs ::
  "key_iter \<Rightarrow> string \<Rightarrow> counters \<Rightarrow> bool \<Rightarrow> (counters \<times> go_error option) outcome" where
  "seedCollectionSeqs NewIter tag target wholeGroup =
     (case newPrefixIter NewIter (tag @ Sep) of
        Panic \<Rightarrow> Panic
      | Fail e \<Rightarrow> Ok (target, Some e)
      | Ok (keys, ierr) \<Rightarrow>
          obind (seedKeys keys (int (length (tag @ Sep))) wholeGroup target) (\<lambda>target'.
            Ok (target', ierr)))"

record engine_seqs =
  streamSeq :: counters
  journalSeq :: counters
  logSeq :: counters
  mmSeq :: counters

definition seedSeqCounters :: "key_iter \<Rightarrow> engine_seqs \<Rightarrow> (engine_seqs \<times> go_error option) outcome" where
  "seedSeqCounters NewIter e0 =
     obind (seedCollectionSeqs NewIter ''sl'' (streamSeq e0) True) (\<lambda>(m, err).
       let e1 = e0\<lparr>streamSeq := m\<rparr> in
       case err of Some x \<Rightarrow> Ok (e1, Some (ErrFmt [x])) | None \<Rightarrow>
     obind (seedCollectionSeqs NewIter ''jl'' (journalSeq e1) False) (\<lambda>(m, err).
       let e2 = e1\<lparr>journalSeq := m\<rparr> in
       case err of Some x \<Rightarrow> Ok (e2, Some (ErrFmt [x])) | None \<Rightarrow>
     obind (seedCollectionSeqs NewIter ''l'' (logSeq e2) False) (\<lambda>(m, err).
       let e3 = e2\<lparr>logSeq := m\<rparr> in
       case err of Some x \<Rightarrow> Ok (e3, Some (ErrFmt [x])) | None \<Rightarrow>
     obind (seedCollectionSeqs NewIter ''mm'' (mmSeq e3) False) (\<lambda>(m, err).
       let e4 = e3\<lparr>mmSeq := m\<rparr> in
       case err of Some x \<Rightarrow> Ok (e4, Some (ErrFmt [x])) | None \<Rightarrow> Ok (e4, None)))))"

text \<open>\<open>atomic.Int64.Add(1)\<close> wraps; a missing counter starts at 0.\<close>

definition next_seq :: "counters \<Rightarrow> string \<Rightarrow> counters \<times> int" where
  "next_seq m k =
     (let c = (case m k of None \<Rightarrow> 0 | Some c \<Rightarrow> c); n = sint (word_of_int (c + 1) :: u64) in
      (m(k \<mapsto> n), n))"

definition nextStreamSeq :: "engine_seqs \<Rightarrow> string \<Rightarrow> string \<Rightarrow> engine_seqs \<times> int" where
  "nextStreamSeq e col sid =
     (let (m, n) = next_seq (streamSeq e) (StreamSeqKey col sid) in (e\<lparr>streamSeq := m\<rparr>, n))"

definition nextJournalSeq :: "engine_seqs \<Rightarrow> string \<Rightarrow> engine_seqs \<times> int" where
  "nextJournalSeq e col =
     (let (m, n) = next_seq (journalSeq e) col in (e\<lparr>journalSeq := m\<rparr>, n))"

section \<open>SeedSeqMax computes the maximum\<close>

lemma SeedSeqMax_max:
  "SeedSeqMax target g seq =
     target(g \<mapsto> max seq (case target g of None \<Rightarrow> 0 | Some c \<Rightarrow> c))"
  by (auto simp: SeedSeqMax_def max_def fun_upd_idem split: option.splits)

text \<open>
  The invariant of concurrent seeding: no counter lies below its initial value, every call that
  passed \<open>LoadOrStore\<close> has a counter, a call about to swap loaded a smaller value than its own,
  a call that returned is covered, and every counter value was there or is a seed.
\<close>

definition seed_val :: "counters \<Rightarrow> string \<Rightarrow> int" where
  "seed_val m g = (case m g of None \<Rightarrow> 0 | Some c \<Rightarrow> c)"

fun seed_call_ok :: "counters \<Rightarrow> seed_call \<Rightarrow> bool" where
  "seed_call_ok m (g, seq, SeedStart) = True"
| "seed_call_ok m (g, seq, SeedLoad) = (m g \<noteq> None)"
| "seed_call_ok m (g, seq, SeedCAS e) = (m g \<noteq> None \<and> e < seq)"
| "seed_call_ok m (g, seq, SeedDone) = (m g \<noteq> None \<and> seq \<le> seed_val m g)"

definition seed_inv :: "counters \<Rightarrow> (string \<times> int) list \<Rightarrow> counters \<times> seed_call list \<Rightarrow> bool" where
  "seed_inv m0 cs s \<longleftrightarrow>
     map (\<lambda>(g, seq, pc). (g, seq)) (snd s) = cs \<and>
     (\<forall>g. seed_val m0 g \<le> seed_val (fst s) g) \<and>
     (\<forall>c \<in> set (snd s). seed_call_ok (fst s) c) \<and>
     (\<forall>g. seed_val (fst s) g = seed_val m0 g \<or> (g, seed_val (fst s) g) \<in> set cs) \<and>
     dom m0 \<subseteq> dom (fst s) \<and> dom (fst s) \<subseteq> dom m0 \<union> fst ` set cs"

lemma seed_access_counters:
  assumes "seed_access g seq pc m = (m', pc')" and "seed_call_ok m (g, seq, pc)"
  shows "seed_val m h \<le> seed_val m' h" and "m h \<noteq> None \<Longrightarrow> m' h \<noteq> None"
    and "seed_val m' h = seed_val m h \<or> h = g \<and> seed_val m' h = seq"
    and "seed_call_ok m' (g, seq, pc')" and "m' h \<noteq> None \<Longrightarrow> m h \<noteq> None \<or> h = g"
  using assms
  by (cases pc; fastforce simp: seed_val_def split: option.splits if_splits)+

lemma seed_call_ok_mono:
  assumes "seed_call_ok m c" and "\<And>h. seed_val m h \<le> seed_val m' h"
    and "\<And>h. m h \<noteq> None \<Longrightarrow> m' h \<noteq> None"
  shows "seed_call_ok m' c"
proof -
  obtain g seq pc where c: "c = (g, seq, pc)" by (cases c)
  show ?thesis
    using assms(1) assms(2)[of g] assms(3)[of g] unfolding c by (cases pc) auto
qed

lemma seed_step_inv:
  assumes "seed_step s t" and inv: "seed_inv m0 cs s"
  shows "seed_inv m0 cs t"
  using assms(1)
proof cases
  case (access i calls g seq pc m m' pc')
  have mem: "(g, seq, pc) \<in> set calls"
    using access(3,4) nth_mem by fastforce
  have names0: "map (\<lambda>(g, seq, pc). (g, seq)) calls = cs"
    and ge0: "\<And>h. seed_val m0 h \<le> seed_val m h"
    and oks0: "\<And>c. c \<in> set calls \<Longrightarrow> seed_call_ok m c"
    and vals0: "\<And>h. seed_val m h = seed_val m0 h \<or> (h, seed_val m h) \<in> set cs"
    and lo0: "dom m0 \<subseteq> dom m" and hi0: "dom m \<subseteq> dom m0 \<union> fst ` set cs"
    using inv unfolding access(1) seed_inv_def by simp_all
  note acc = seed_access_counters[OF access(6) oks0[OF mem]]
  have "map (\<lambda>(g, seq, pc). (g, seq)) (calls[i := (g, seq, pc')]) = cs[i := (g, seq)]"
    by (simp add: map_update names0)
  also have "\<dots> = cs"
    using access(3,4) by (intro list_update_same_conv[THEN iffD2]) (auto simp flip: names0)
  finally have names: "map (\<lambda>(g, seq, pc). (g, seq)) (calls[i := (g, seq, pc')]) = cs" .
  have "seed_call_ok m' c" if "c \<in> set calls" for c
    by (rule seed_call_ok_mono[OF oks0[OF that] acc(1) acc(2)])
  then have oks: "\<forall>c \<in> set (calls[i := (g, seq, pc')]). seed_call_ok m' c"
    using acc(4) set_update_subset_insert[of calls i "(g, seq, pc')"] by blast
  have gs: "(g, seq) \<in> set cs"
    using mem unfolding names0[symmetric] by force
  have ge: "seed_val m0 h \<le> seed_val m' h" for h
    by (rule order_trans[OF ge0 acc(1)])
  have vals: "seed_val m' h = seed_val m0 h \<or> (h, seed_val m' h) \<in> set cs" for h
    using acc(3)[of h] vals0[of h] gs by auto
  have lo: "dom m0 \<subseteq> dom m'"
    using lo0 acc(2) by (auto simp: dom_def)
  have hi: "dom m' \<subseteq> dom m0 \<union> fst ` set cs"
    using hi0 acc(5) gs by (force simp: dom_def)
  show ?thesis
    unfolding access(2) seed_inv_def using names oks ge vals lo hi by simp
qed

lemma seed_reach_inv:
  assumes "seed_step\<^sup>*\<^sup>* (m0, seed_calls cs) s"
  shows "seed_inv m0 cs s"
  using assms
proof (induction rule: rtranclp_induct)
  case base
  have "map (\<lambda>(g, seq, pc). (g, seq)) (seed_calls cs) = cs"
    by (induction cs) (auto simp: seed_calls_def)
  then show ?case
    by (auto simp: seed_inv_def seed_calls_def)
next
  case (step s t)
  then show ?case by (blast intro: seed_step_inv)
qed

section \<open>Concurrent seeding ends, and as if the calls had run one after the other\<close>

text \<open>
  A swap that succeeds lifts a counter past a seed; every other access brings its call closer
  to the end while the counters stay. The first component counts the seeds above their counter.
\<close>

definition seed_rank :: "(string \<times> int) list \<Rightarrow> counters \<Rightarrow> nat" where
  "seed_rank cs m = card {(g, seq). (g, seq) \<in> set cs \<and> seed_val m g < seq}"

fun seed_cost :: "counters \<Rightarrow> seed_call \<Rightarrow> nat" where
  "seed_cost m (g, seq, SeedStart) = 4"
| "seed_cost m (g, seq, SeedLoad) = 2"
| "seed_cost m (g, seq, SeedCAS e) = (if seed_val m g = e then 1 else 3)"
| "seed_cost m (g, seq, SeedDone) = 0"

definition seed_measure :: "(string \<times> int) list \<Rightarrow> counters \<times> seed_call list \<Rightarrow> nat \<times> nat" where
  "seed_measure cs s = (seed_rank cs (fst s), sum_list (map (seed_cost (fst s)) (snd s)))"

lemma seed_cost_cong: "seed_val m = seed_val m' \<Longrightarrow> seed_cost m c = seed_cost m' c"
  by (cases "(m, c)" rule: seed_cost.cases) simp_all

lemma seed_rank_less:
  assumes "(g, seq) \<in> set cs" and "seed_val m g < seq" and "seq \<le> seed_val m' g"
    and "\<And>h. seed_val m h \<le> seed_val m' h"
  shows "seed_rank cs m' < seed_rank cs m"
  unfolding seed_rank_def
proof (rule psubset_card_mono)
  show "finite {(g, seq). (g, seq) \<in> set cs \<and> seed_val m g < seq}"
    by (rule finite_subset[of _ "set cs"]) auto
  show "{(g, seq). (g, seq) \<in> set cs \<and> seed_val m' g < seq} \<subset>
      {(g, seq). (g, seq) \<in> set cs \<and> seed_val m g < seq}"
  proof (rule psubsetI)
    show "{(g, seq). (g, seq) \<in> set cs \<and> seed_val m' g < seq} \<subseteq>
        {(g, seq). (g, seq) \<in> set cs \<and> seed_val m g < seq}"
      using assms(4) by (auto intro: order_le_less_trans)
    have "(g, seq) \<in> {(g, seq). (g, seq) \<in> set cs \<and> seed_val m g < seq}"
      and "(g, seq) \<notin> {(g, seq). (g, seq) \<in> set cs \<and> seed_val m' g < seq}"
      using assms(1-3) by simp_all
    then show "{(g, seq). (g, seq) \<in> set cs \<and> seed_val m' g < seq} \<noteq>
        {(g, seq). (g, seq) \<in> set cs \<and> seed_val m g < seq}" by metis
  qed
qed

lemma seed_val_fresh: "m g = None \<Longrightarrow> seed_val (m(g \<mapsto> 0)) = seed_val m"
  by (rule ext) (simp add: seed_val_def)

lemma seed_val_Some: "m g = Some c \<Longrightarrow> seed_val m g = c"
  by (simp add: seed_val_def)

lemma seed_access_progress:
  assumes "seed_access g seq pc m = (m', pc')" and "pc \<noteq> SeedDone" and "seed_call_ok m (g, seq, pc)"
  shows "seed_val m g < seq \<and> seq \<le> seed_val m' g \<or>
         seed_val m' = seed_val m \<and> seed_cost m (g, seq, pc') < seed_cost m (g, seq, pc)"
  using assms
  by (cases pc; cases "m g")
    (auto simp: seed_val_fresh seed_val_Some simp del: fun_upd_apply split: if_splits,
      simp_all add: seed_val_def)

lemma seed_step_decreases:
  assumes "seed_step s t" and inv: "seed_inv m0 cs s"
  shows "(seed_measure cs t, seed_measure cs s) \<in> less_than <*lex*> less_than"
  using assms(1)
proof cases
  case (access i calls g seq pc m m' pc')
  have mem: "(g, seq, pc) \<in> set calls"
    using access(3,4) nth_mem by fastforce
  have ok: "seed_call_ok m (g, seq, pc)" and names: "map (\<lambda>(g, seq, pc). (g, seq)) calls = cs"
    using inv mem unfolding access(1) seed_inv_def by simp_all
  have gs: "(g, seq) \<in> set cs"
    using mem unfolding names[symmetric] by force
  from seed_access_progress[OF access(6,5) ok] show ?thesis
  proof
    assume "seed_val m g < seq \<and> seq \<le> seed_val m' g"
    then have "seed_rank cs m' < seed_rank cs m"
      using seed_rank_less[OF gs] seed_access_counters(1)[OF access(6) ok] by blast
    then show ?thesis
      by (simp add: access(1,2) seed_measure_def)
  next
    assume same: "seed_val m' = seed_val m \<and> seed_cost m (g, seq, pc') < seed_cost m (g, seq, pc)"
    let ?cost = "map (seed_cost m) calls"
    have cost: "map (seed_cost m') (calls[i := (g, seq, pc')]) = ?cost[i := seed_cost m (g, seq, pc')]"
      using same seed_cost_cong[of m' m] by (simp add: map_update cong: map_cong)
    have nth: "?cost ! i = seed_cost m (g, seq, pc)" and i: "i < length ?cost"
      using access(3,4) by simp_all
    have "?cost ! i \<le> sum_list ?cost"
      using i by (intro member_le_sum_list) (auto intro: nth_mem)
    then have "sum_list (?cost[i := seed_cost m (g, seq, pc')]) < sum_list ?cost"
      using same nth i by (simp only: sum_list_update) linarith
    then show ?thesis
      using same cost by (simp add: access(1,2) seed_measure_def seed_rank_def)
  qed
qed

lemma seed_no_infinite_run:
  "\<nexists>f. f 0 = (m0, seed_calls cs) \<and> (\<forall>n. seed_step (f n) (f (Suc n)))"
proof
  assume "\<exists>f. f 0 = (m0, seed_calls cs) \<and> (\<forall>n. seed_step (f n) (f (Suc n)))"
  then obtain f where f0: "f 0 = (m0, seed_calls cs)" and st: "\<And>n. seed_step (f n) (f (Suc n))"
    by blast
  have reach: "seed_step\<^sup>*\<^sup>* (m0, seed_calls cs) (f n)" for n
    by (induction n) (use f0 st in \<open>auto intro: rtranclp.rtrancl_into_rtrancl\<close>)
  have "\<forall>n. (seed_measure cs (f (Suc n)), seed_measure cs (f n)) \<in> less_than <*lex*> less_than"
    using seed_step_decreases[OF st seed_reach_inv[OF reach]] by blast
  moreover have "wf (less_than <*lex*> less_than)" by (intro wf_lex_prod wf_less_than)
  ultimately show False
    unfolding wf_iff_no_infinite_down_chain by (auto dest: spec[of _ "\<lambda>n. seed_measure cs (f n)"])
qed

text \<open>What the counters are when all calls have returned, and that this determines them.\<close>

definition seeded :: "counters \<Rightarrow> (string \<times> int) list \<Rightarrow> counters \<Rightarrow> bool" where
  "seeded m0 cs m \<longleftrightarrow>
     dom m = dom m0 \<union> fst ` set cs \<and>
     (\<forall>g. seed_val m0 g \<le> seed_val m g) \<and>
     (\<forall>(g, seq) \<in> set cs. seq \<le> seed_val m g) \<and>
     (\<forall>g. seed_val m g = seed_val m0 g \<or> (g, seed_val m g) \<in> set cs)"

lemma seed_val_le:
  assumes "seeded m0 cs m" and "seeded m0 cs m'"
  shows "seed_val m g \<le> seed_val m' g"
proof -
  from assms(1) have "seed_val m g = seed_val m0 g \<or> (g, seed_val m g) \<in> set cs"
    by (simp add: seeded_def)
  with assms(2) show ?thesis
    by (auto simp: seeded_def)
qed

lemma seeded_unique:
  assumes "seeded m0 cs m" and "seeded m0 cs m'"
  shows "m = m'"
proof
  fix g
  have "seed_val m g = seed_val m' g"
    using seed_val_le[OF assms] seed_val_le[OF assms(2,1)] by (rule antisym)
  moreover have "m g = None \<longleftrightarrow> m' g = None"
  proof -
    have "dom m = dom m'" using assms by (simp add: seeded_def)
    then show ?thesis by (metis domIff)
  qed
  ultimately show "m g = m' g"
    by (cases "m g"; cases "m' g") (auto simp: seed_val_def)
qed

lemma seeded_snoc:
  assumes "seeded m0 cs m"
  shows "seeded m0 (cs @ [(g, seq)]) (SeedSeqMax m g seq)"
proof -
  have val: "seed_val (SeedSeqMax m g seq) h = (if h = g then max seq (seed_val m g) else seed_val m h)" for h
    by (simp add: SeedSeqMax_max seed_val_def)
  have D: "dom m = dom m0 \<union> fst ` set cs"
    and L: "\<And>h. seed_val m0 h \<le> seed_val m h"
    and S: "\<And>h s. (h, s) \<in> set cs \<Longrightarrow> s \<le> seed_val m h"
    and V: "\<And>h. seed_val m h = seed_val m0 h \<or> (h, seed_val m h) \<in> set cs"
    using assms unfolding seeded_def by auto
  have "dom (SeedSeqMax m g seq) = insert g (dom m)"
    by (simp add: SeedSeqMax_max)
  then have "dom (SeedSeqMax m g seq) = dom m0 \<union> fst ` set (cs @ [(g, seq)])"
    using D by simp
  moreover have "seed_val m0 h \<le> seed_val (SeedSeqMax m g seq) h" for h
    using L[of h] by (auto simp: val le_max_iff_disj)
  moreover have "s \<le> seed_val (SeedSeqMax m g seq) h" if "(h, s) \<in> set (cs @ [(g, seq)])" for h s
    using that S[of h s] by (auto simp: val le_max_iff_disj)
  moreover have "seed_val (SeedSeqMax m g seq) h = seed_val m0 h \<or>
      (h, seed_val (SeedSeqMax m g seq) h) \<in> set (cs @ [(g, seq)])" for h
    using V[of h] by (auto simp: val max_def)
  ultimately show ?thesis
    unfolding seeded_def by blast
qed

lemma seeded_sequential: "seeded m0 cs (foldl (\<lambda>m (g, seq). SeedSeqMax m g seq) m0 cs)"
proof (induction cs rule: rev_induct)
  case Nil
  then show ?case by (simp add: seeded_def)
next
  case (snoc c cs)
  then show ?case
    using seeded_snoc by (cases c) simp
qed

lemma seed_stuck_done:
  assumes "\<nexists>t. seed_step (m, calls) t" and "c \<in> set calls"
  shows "snd (snd c) = SeedDone"
proof (rule ccontr)
  assume pc: "snd (snd c) \<noteq> SeedDone"
  obtain g seq p where c: "c = (g, seq, p)" by (cases c)
  obtain i where "i < length calls" "calls ! i = (g, seq, p)"
    using assms(2) c by (auto simp: in_set_conv_nth)
  moreover obtain m' p' where "seed_access g seq p m = (m', p')" by (cases "seed_access g seq p m")
  ultimately show False
    using assms(1) seed_step.access pc c by fastforce
qed

lemma seed_stuck_seeded:
  assumes "seed_step\<^sup>*\<^sup>* (m0, seed_calls cs) (m, calls)" and "\<nexists>t. seed_step (m, calls) t"
  shows "seeded m0 cs m"
proof -
  have names: "map (\<lambda>(g, seq, pc). (g, seq)) calls = cs"
    and oks: "\<And>c. c \<in> set calls \<Longrightarrow> seed_call_ok m c"
    and ge: "\<And>g. seed_val m0 g \<le> seed_val m g"
    and vals: "\<And>g. seed_val m g = seed_val m0 g \<or> (g, seed_val m g) \<in> set cs"
    and lo: "dom m0 \<subseteq> dom m" and hi: "dom m \<subseteq> dom m0 \<union> fst ` set cs"
    using seed_reach_inv[OF assms(1)] unfolding seed_inv_def by simp_all
  have covered: "m g \<noteq> None \<and> seq \<le> seed_val m g" if "(g, seq) \<in> set cs" for g seq
  proof -
    from that obtain pc where mem: "(g, seq, pc) \<in> set calls"
      unfolding names[symmetric] by auto
    then have "pc = SeedDone" using seed_stuck_done[OF assms(2) mem] by simp
    with oks[OF mem] show ?thesis by simp
  qed
  from covered have "fst ` set cs \<subseteq> dom m" by force
  with lo hi have "dom m = dom m0 \<union> fst ` set cs" by blast
  then show ?thesis
    unfolding seeded_def using ge vals covered by blast
qed

section \<open>Prefix scans\<close>

lemma char_succ:
  assumes "c \<noteq> CHR 0xFF"
  shows "of_char (byte_succ c) = (of_char c + 1 :: nat)"
    and "byte_succ c \<noteq> NUL"
proof -
  have "of_char c \<noteq> (255 :: nat)"
  proof
    assume "of_char c = (255 :: nat)"
    then have "of_char c = (of_char (CHR 0xFF) :: nat)" by simp
    with assms show False by (simp only: of_char_eq_iff)
  qed
  moreover have "of_char c < (256 :: nat)" by (rule nat_of_char_less_256)
  ultimately have "of_char c + 1 < (256 :: nat)" by linarith
  then have "(of_char c + 1) mod 256 = (of_char c + 1 :: nat)" by (rule mod_less)
  then show eq: "of_char (byte_succ c) = (of_char c + 1 :: nat)"
    unfolding byte_succ_def of_char_of by simp
  then show "byte_succ c \<noteq> NUL"
    by (auto simp: NUL_def)
qed

lemma char_succ_less:
  assumes "c \<noteq> CHR 0xFF"
  shows "d < byte_succ c \<longleftrightarrow> d \<le> c"
  using char_succ(1)[OF assms] by (simp add: less_char_def less_eq_char_def less_Suc_eq_le)

lemma nextKey_snoc: "c \<noteq> CHR 0xFF \<Longrightarrow> nextKey (q @ [c]) = q @ [byte_succ c]"
  using char_succ(2)[of c] by (simp add: nextKey_def Let_def)

lemma nextKey_range:
  assumes "c \<noteq> CHR 0xFF"
  shows "q @ [c] \<le> k \<and> k < nextKey (q @ [c]) \<longleftrightarrow> prefix (q @ [c]) k"
  unfolding nextKey_snoc[OF assms]
proof (induction q arbitrary: k)
  case Nil
  show ?case
    by (cases k) (auto simp: char_succ_less[OF assms])
next
  case IH: (Cons a q)
  show ?case
  proof (cases k)
    case (Cons b k')
    show ?thesis
      using IH[of k'] unfolding Cons by (cases "a = b") auto
  qed simp
qed

text \<open>
  A prefix of bytes 0xFF only has no successor of this form: the bound then lies below the
  prefix and the range is empty.
\<close>

lemma nextKey_all_FF: "nextKey (replicate n (CHR 0xFF)) = replicate (Suc n) NUL"
proof -
  have z: "byte_succ (CHR 0xFF) = NUL"
    unfolding NUL_def by (simp add: byte_succ_def char_of_def)
  have "nextKey_loop (replicate n (CHR 0xFF)) = (replicate n NUL, False)"
    by (induction n) (simp_all add: z Let_def)
  then show ?thesis
    by (simp add: nextKey_def replicate_append_same)
qed

section \<open>Resuming the counters\<close>

definition parsed_seqs :: "string list \<Rightarrow> int \<Rightarrow> bool \<Rightarrow> (string \<times> int) list" where
  "parsed_seqs keys tagLen whole =
     concat (map (\<lambda>k. case SplitGroupAndSeq k tagLen whole of Ok (g, seq, True) \<Rightarrow> [(g, seq)] | _ \<Rightarrow> []) keys)"

lemma SplitGroupAndSeq_total:
  assumes "0 \<le> tagLen" and "tagLen + 21 < 2 ^ 63"
  shows "\<exists>r. SplitGroupAndSeq key tagLen whole = Ok r"
proof -
  have sum: "sint (word_of_int (tagLen + 21) :: u64) = tagLen + 21"
    using assms by (intro sint_in_range) (simp add: int64_def)
  show ?thesis
    using assms(1) unfolding SplitGroupAndSeq_def Let_def SeqTailLen_def sum
    by (auto simp: slice_from_def slice_to_def split: option.splits)
qed

lemma seedKeys_fold:
  assumes "0 \<le> tagLen" and "tagLen + 21 < 2 ^ 63"
  shows "seedKeys keys tagLen whole m =
    Ok (foldl (\<lambda>m (g, seq). SeedSeqMax m g seq) m (parsed_seqs keys tagLen whole))"
proof (induction keys arbitrary: m)
  case (Cons key keys)
  obtain g seq ok where "SplitGroupAndSeq key tagLen whole = Ok (g, seq, ok)"
    using SplitGroupAndSeq_total[OF assms, of key whole] by auto
  with Cons show ?case
    by (cases ok) (simp_all add: parsed_seqs_def)
qed (simp add: parsed_seqs_def)

definition iter_reads :: "string set \<Rightarrow> key_iter \<Rightarrow> bool" where
  "iter_reads K NewIter \<longleftrightarrow>
     (\<forall>lo hi. \<exists>ks. NewIter lo hi = Ok (ks, None) \<and> set ks = {k \<in> K. lo \<le> k \<and> k < hi})"

lemma seedCollectionSeqs_seeded:
  assumes "iter_reads K NewIter" and "int (length (tag @ Sep)) + 21 < 2 ^ 63"
  obtains m ks where "seedCollectionSeqs NewIter tag m0 whole = Ok (m, None)"
    and "seeded m0 (parsed_seqs ks (int (length (tag @ Sep))) whole) m"
    and "set ks = {k \<in> K. prefix (tag @ Sep) k}"
proof -
  obtain ks where ks: "NewIter (tag @ Sep) (nextKey (tag @ Sep)) = Ok (ks, None)"
    and set: "set ks = {k \<in> K. tag @ Sep \<le> k \<and> k < nextKey (tag @ Sep)}"
    using assms(1) unfolding iter_reads_def by blast
  have "NUL \<noteq> CHR 0xFF" by (simp add: NUL_def)
  from nextKey_range[OF this, of tag] set have set': "set ks = {k \<in> K. prefix (tag @ Sep) k}"
    by (simp add: Sep_def)
  note fold = seedKeys_fold[OF _ assms(2), of ks whole m0]
  show ?thesis
    using fold ks that[OF _ seeded_sequential set']
    by (simp add: seedCollectionSeqs_def newPrefixIter_def)
qed

lemma parsed_seqs_mem:
  assumes "key \<in> set keys" and "SplitGroupAndSeq key tagLen whole = Ok (g, seq, True)"
  shows "(g, seq) \<in> set (parsed_seqs keys tagLen whole)"
  using assms unfolding parsed_seqs_def set_concat set_map
  by (intro UN_I[of "[(g, seq)]"] image_eqI[of _ _ key]) simp_all

definition no_seqs :: engine_seqs where
  "no_seqs = \<lparr>streamSeq = Map.empty, journalSeq = Map.empty, logSeq = Map.empty, mmSeq = Map.empty\<rparr>"

lemma seedSeqCounters_seeded:
  assumes "iter_reads K NewIter"
  obtains e sl jl where "seedSeqCounters NewIter no_seqs = Ok (e, None)"
    and "seeded Map.empty (parsed_seqs sl (int (length (''sl'' @ Sep))) True) (streamSeq e)"
    and "set sl = {k \<in> K. prefix (''sl'' @ Sep) k}"
    and "seeded Map.empty (parsed_seqs jl (int (length (''jl'' @ Sep))) False) (journalSeq e)"
    and "set jl = {k \<in> K. prefix (''jl'' @ Sep) k}"
proof -
  have tags: "int (length (t @ Sep)) + 21 < 2 ^ 63" if "length t \<le> 2" for t
    using that by (simp add: Sep_def)
  obtain m1 k1 where 1: "seedCollectionSeqs NewIter ''sl'' Map.empty True = Ok (m1, None)"
    "seeded Map.empty (parsed_seqs k1 (int (length (''sl'' @ Sep))) True) m1"
    "set k1 = {k \<in> K. prefix (''sl'' @ Sep) k}"
    by (rule seedCollectionSeqs_seeded[OF assms tags[of "''sl''"]]) simp_all
  obtain m2 k2 where 2: "seedCollectionSeqs NewIter ''jl'' Map.empty False = Ok (m2, None)"
    "seeded Map.empty (parsed_seqs k2 (int (length (''jl'' @ Sep))) False) m2"
    "set k2 = {k \<in> K. prefix (''jl'' @ Sep) k}"
    by (rule seedCollectionSeqs_seeded[OF assms tags[of "''jl''"]]) simp_all
  obtain m3 k3 where 3: "seedCollectionSeqs NewIter ''l'' Map.empty False = Ok (m3, None)"
    "seeded Map.empty (parsed_seqs k3 (int (length (''l'' @ Sep))) False) m3"
    by (rule seedCollectionSeqs_seeded[OF assms tags[of "''l''"]]) simp_all
  obtain m4 k4 where 4: "seedCollectionSeqs NewIter ''mm'' Map.empty False = Ok (m4, None)"
    "seeded Map.empty (parsed_seqs k4 (int (length (''mm'' @ Sep))) False) m4"
    by (rule seedCollectionSeqs_seeded[OF assms tags[of "''mm''"]]) simp_all
  show ?thesis
    by (rule that[of "\<lparr>streamSeq = m1, journalSeq = m2, logSeq = m3, mmSeq = m4\<rparr>" k1 k2])
      (use 1 2 3(1) 4(1) in \<open>simp_all add: seedSeqCounters_def no_seqs_def\<close>)
qed

lemma seeded_covers:
  assumes "seeded m0 (parsed_seqs ks (int (length (tag @ Sep))) whole) m"
    and "set ks = {k \<in> K. prefix (tag @ Sep) k}"
    and "tag @ Sep @ g @ Sep @ fmt020d seq \<in> K" and "int64 seq" and "length tag \<le> 2"
  shows "seq \<le> seed_val m (if whole then g else takeWhile (\<lambda>c. c \<noteq> NUL) g)" (is "seq \<le> seed_val m ?g")
proof -
  have "tag @ Sep @ g @ Sep @ fmt020d seq \<in> set ks"
    using assms(2,3) by simp
  moreover have "int (length (tag @ Sep)) + 21 < 2 ^ 63"
    using assms(5) by (simp add: Sep_def)
  then have "SplitGroupAndSeq (tag @ Sep @ g @ Sep @ fmt020d seq) (int (length (tag @ Sep))) whole =
      Ok (?g, seq, True)"
    using SplitGroupAndSeq_tail[OF assms(4), of "tag @ Sep" g whole] by simp
  ultimately have "(?g, seq) \<in> set (parsed_seqs ks (int (length (tag @ Sep))) whole)"
    by (rule parsed_seqs_mem)
  with assms(1) show ?thesis
    unfolding seeded_def by auto
qed

lemma seeded_nonneg: "seeded Map.empty cs m \<Longrightarrow> 0 \<le> seed_val m g"
  using seed_val_def[of Map.empty g] unfolding seeded_def by (metis option.case(1))

lemma next_seq_value:
  assumes "0 \<le> seed_val m k" and "seed_val m k < 2 ^ 63 - 1"
  shows "snd (next_seq m k) = seed_val m k + 1" and "int64 (snd (next_seq m k))"
proof -
  have "int64 (seed_val m k + 1)" using assms by (simp add: int64_def)
  from sint_in_range[OF this] this show "snd (next_seq m k) = seed_val m k + 1" "int64 (snd (next_seq m k))"
    by (simp_all add: next_seq_def seed_val_def Let_def)
qed

section \<open>Properties\<close>

text \<open>
  C39. Concurrent seeding: whatever calls of \<open>SeedSeqMax\<close> run at the same time and however
  their accesses interleave, no run goes on forever, and when no call can go on the counters are
  those of running the calls one after the other, in any order.
\<close>

theorem seed_converges:
  "(\<nexists>f. f 0 = (m0, seed_calls cs) \<and> (\<forall>n. seed_step (f n) (f (Suc n)))) \<and>
   (seed_step\<^sup>*\<^sup>* (m0, seed_calls cs) (m, calls) \<and> (\<nexists>t. seed_step (m, calls) t) \<longrightarrow>
      m = foldl (\<lambda>m (g, seq). SeedSeqMax m g seq) m0 cs)"
proof (intro conjI impI)
  show "\<nexists>f. f 0 = (m0, seed_calls cs) \<and> (\<forall>n. seed_step (f n) (f (Suc n)))"
    by (rule seed_no_infinite_run)
  assume "seed_step\<^sup>*\<^sup>* (m0, seed_calls cs) (m, calls) \<and> (\<nexists>t. seed_step (m, calls) t)"
  then have "seeded m0 cs m"
    using seed_stuck_seeded[of m0 cs m calls] by simp
  then show "m = foldl (\<lambda>m (g, seq). SeedSeqMax m g seq) m0 cs"
    by (rule seeded_unique[OF _ seeded_sequential])
qed

theorem seed_converges_witness:
  "foldl (\<lambda>m (g, seq). SeedSeqMax m g seq) Map.empty [(''a'', 3)] = [''a'' \<mapsto> 3]"
proof -
  let ?m = "[''a'' \<mapsto> (0 :: int)]"
  have 1: "seed_step (Map.empty, seed_calls [(''a'', 3)]) (?m, [(''a'', 3, SeedLoad)])"
    using seed_step.access[of 0 "seed_calls [(''a'', 3)]" "''a''" 3 SeedStart Map.empty ?m SeedLoad]
    by (simp add: seed_calls_def)
  have 2: "seed_step (?m, [(''a'', 3, SeedLoad)]) (?m, [(''a'', 3, SeedCAS 0)])"
    using seed_step.access[of 0 "[(''a'', 3, SeedLoad)]" "''a''" 3 SeedLoad ?m ?m "SeedCAS 0"] by simp
  have 3: "seed_step (?m, [(''a'', 3, SeedCAS 0)]) ([''a'' \<mapsto> 3], [(''a'', 3, SeedDone)])"
    using seed_step.access[of 0 "[(''a'', 3, SeedCAS 0)]" "''a''" 3 "SeedCAS 0" ?m "?m(''a'' \<mapsto> 3)" SeedDone]
    by simp
  have run: "seed_step\<^sup>*\<^sup>* (Map.empty, seed_calls [(''a'', 3)]) ([''a'' \<mapsto> 3], [(''a'', 3, SeedDone)])"
    using 1 2 3 by (meson rtranclp.rtrancl_refl rtranclp.rtrancl_into_rtrancl)
  have stuck: "\<nexists>t. seed_step ([''a'' \<mapsto> 3], [(''a'', 3, SeedDone)]) t"
    by (auto elim!: seed_stepE)
  from seed_converges[of Map.empty "[(''a'', 3)]"] run stuck show ?thesis
    by metis
qed

end
