(* ===== verification/PebbleAppend.thy ===== *)
theory PebbleAppend
  imports SeqSeeding
begin

text \<open>
  Appends to the stream log of the Pebble engine (\<open>src/metaengine/pebbleengine/stream_log.go\<close>) after a
  restart. The database is a partial map from keys to bytes; the encoder of values and the commit of
  a batch are parameters. What the counters were seeded with and what every append adds to them
  keeps each new key behind all stored ones.
\<close>

section \<open>StreamAppend\<close>

record pebbleEngine =
  pb_seqs :: engine_seqs
  pb_db :: "string \<rightharpoonup> string"

type_synonym kv_batch = "(string \<times> string) list"

text \<open>The loop over the values: counters are advanced in place, also when a later value cannot be encoded.\<close>

fun StreamAppend_loop ::
  "('v \<Rightarrow> string outcome) \<Rightarrow> string \<Rightarrow> string \<Rightarrow> 'v list \<Rightarrow> engine_seqs \<Rightarrow> kv_batch \<Rightarrow> engine_seqs \<times> kv_batch outcome" where
  "StreamAppend_loop EncodeJSON col sid [] e batch = (e, Ok batch)"
| "StreamAppend_loop EncodeJSON col sid (v # vs) e batch =
     (case EncodeJSON v of
        Fail err \<Rightarrow> (e, Fail (ErrFmt [err]))
      | Panic \<Rightarrow> (e, Panic)
      | Ok valBytes \<Rightarrow>
          (let (e1, seq) = nextStreamSeq e col sid;
               (e2, gseq) = nextJournalSeq e1 col;
               journalEntry = sid @ Sep @ valBytes in
           StreamAppend_loop EncodeJSON col sid vs e2
             (batch @ [(kv_StreamKey col sid seq, valBytes), (JournalKey col gseq, journalEntry)])))"

definition pebble_StreamAppend ::
  "('v \<Rightarrow> string outcome) \<Rightarrow> ((string \<rightharpoonup> string) \<Rightarrow> kv_batch \<Rightarrow> (string \<rightharpoonup> string) \<times> go_error option) \<Rightarrow>
   string \<Rightarrow> string \<Rightarrow> 'v list \<Rightarrow> pebbleEngine \<Rightarrow> pebbleEngine \<times> unit outcome" where
  "pebble_StreamAppend EncodeJSON Commit col sid values p =
     (case StreamAppend_loop EncodeJSON col sid values (pb_seqs p) [] of
        (e, Fail err) \<Rightarrow> (p \<lparr> pb_seqs := e \<rparr>, Fail err)
      | (e, Panic) \<Rightarrow> (p \<lparr> pb_seqs := e \<rparr>, Panic)
      | (e, Ok batch) \<Rightarrow>
          (case Commit (pb_db p) batch of
             (db, Some err) \<Rightarrow> (p \<lparr> pb_seqs := e, pb_db := db \<rparr>, Fail (ErrFmt [err]))
           | (db, None) \<Rightarrow> (p \<lparr> pb_seqs := e, pb_db := db \<rparr>, Ok ())))"

text \<open>The documented behaviour of a commit: all writes of the batch in order, or none.\<close>

definition commits_atomically ::
  "((string \<rightharpoonup> string) \<Rightarrow> kv_batch \<Rightarrow> (string \<rightharpoonup> string) \<times> go_error option) \<Rightarrow> bool" where
  "commits_atomically Commit \<longleftrightarrow>
     (\<forall>db batch. (\<exists>err. Commit db batch = (db, Some err)) \<or> Commit db batch = (db ++ map_of (rev batch), None))"

text \<open>A sequence of appends, whatever each of them returns.\<close>

fun pebble_appends ::
  "('v \<Rightarrow> string outcome) \<Rightarrow> ((string \<rightharpoonup> string) \<Rightarrow> kv_batch \<Rightarrow> (string \<rightharpoonup> string) \<times> go_error option) \<Rightarrow>
   (string \<times> string \<times> 'v list) list \<Rightarrow> pebbleEngine \<Rightarrow> pebbleEngine" where
  "pebble_appends EncodeJSON Commit [] p = p"
| "pebble_appends EncodeJSON Commit ((col, sid, values) # ops) p =
     pebble_appends EncodeJSON Commit ops (fst (pebble_StreamAppend EncodeJSON Commit col sid values p))"

section \<open>The counters stay ahead of the keys\<close>

abbreviation stream_count :: "engine_seqs \<Rightarrow> string \<Rightarrow> string \<Rightarrow> int" where
  "stream_count e col sid \<equiv> seed_val (streamSeq e) (StreamSeqKey col sid)"

abbreviation journal_count :: "engine_seqs \<Rightarrow> string \<Rightarrow> int" where
  "journal_count e col \<equiv> seed_val (journalSeq e) col"

definition ahead :: "engine_seqs \<Rightarrow> string set \<Rightarrow> bool" where
  "ahead e K \<longleftrightarrow>
     (\<forall>g. 0 \<le> seed_val (streamSeq e) g \<and> 0 \<le> seed_val (journalSeq e) g) \<and>
     (\<forall>col sid seq. kv_StreamKey col sid seq \<in> K \<and> int64 seq \<longrightarrow> seq \<le> stream_count e col sid) \<and>
     (\<forall>col seq. NUL \<notin> set col \<and> JournalKey col seq \<in> K \<and> int64 seq \<longrightarrow> seq \<le> journal_count e col)"

text \<open>The writes for a list of encoded values behind the given counters.\<close>

fun append_writes :: "string \<Rightarrow> string \<Rightarrow> int \<Rightarrow> int \<Rightarrow> string list \<Rightarrow> kv_batch" where
  "append_writes col sid c g [] = []"
| "append_writes col sid c g (b # bs) =
     (kv_StreamKey col sid (c + 1), b) # (JournalKey col (g + 1), sid @ Sep @ b) # append_writes col sid (c + 1) (g + 1) bs"

lemma next_seq_seed_val:
  assumes "0 \<le> seed_val m k" and "seed_val m k + 1 < 2 ^ 63"
  shows "snd (next_seq m k) = seed_val m k + 1"
    and "seed_val (fst (next_seq m k)) g = (if g = k then seed_val m k + 1 else seed_val m g)"
proof -
  show "snd (next_seq m k) = seed_val m k + 1"
    using assms by (intro next_seq_value) simp_all
  then show "seed_val (fst (next_seq m k)) g = (if g = k then seed_val m k + 1 else seed_val m g)"
    by (simp add: next_seq_def Let_def seed_val_def)
qed

text \<open>How far a loop over \<open>n\<close> values may have moved the counters.\<close>

definition advanced :: "string \<Rightarrow> string \<Rightarrow> nat \<Rightarrow> engine_seqs \<Rightarrow> engine_seqs \<Rightarrow> bool" where
  "advanced col sid n e e' \<longleftrightarrow>
     (\<forall>g. seed_val (streamSeq e') g =
        seed_val (streamSeq e) g + (if g = StreamSeqKey col sid then int n else 0)) \<and>
     (\<forall>g. seed_val (journalSeq e') g = seed_val (journalSeq e) g + (if g = col then int n else 0))"

lemma nextSeqs_advance:
  assumes "0 \<le> stream_count e col sid" "stream_count e col sid + 1 < 2 ^ 63"
    and "0 \<le> journal_count e col" "journal_count e col + 1 < 2 ^ 63"
  shows "\<exists>e1 e2. nextStreamSeq e col sid = (e1, stream_count e col sid + 1) \<and>
    nextJournalSeq e1 col = (e2, journal_count e col + 1) \<and> advanced col sid 1 e e2"
  using next_seq_seed_val [OF assms(1,2)] next_seq_seed_val [OF assms(3,4)]
  by (auto simp: nextStreamSeq_def nextJournalSeq_def advanced_def split: prod.splits)

lemma StreamAppend_loop_writes:
  assumes "0 \<le> stream_count e col sid" "stream_count e col sid + int (length vs) < 2 ^ 63"
    and "0 \<le> journal_count e col" "journal_count e col + int (length vs) < 2 ^ 63"
  shows "\<exists>n e' res. StreamAppend_loop enc col sid vs e batch = (e', res) \<and> n \<le> length vs \<and> advanced col sid n e e' \<and>
    (\<forall>b. res = Ok b \<longrightarrow> n = length vs \<and> (\<exists>bs. list_all2 (\<lambda>v x. enc v = Ok x) vs bs \<and>
       b = batch @ append_writes col sid (stream_count e col sid) (journal_count e col) bs))"
  using assms
proof (induction vs arbitrary: e batch)
  case Nil
  then show ?case
    by (auto simp: advanced_def)
next
  case (Cons v vs)
  show ?case
  proof (cases "enc v")
    case (Ok x)
    obtain e1 e2 where seqs: "nextStreamSeq e col sid = (e1, stream_count e col sid + 1)"
      "nextJournalSeq e1 col = (e2, journal_count e col + 1)" "advanced col sid 1 e e2"
      using nextSeqs_advance [of e col sid] Cons.prems by auto
    then have counts: "stream_count e2 col sid = stream_count e col sid + 1" "journal_count e2 col = journal_count e col + 1"
      by (simp_all add: advanced_def)
    let ?b = "batch @ [(kv_StreamKey col sid (stream_count e col sid + 1), x),
        (JournalKey col (journal_count e col + 1), sid @ Sep @ x)]"
    obtain n e' res where rest: "StreamAppend_loop enc col sid vs e2 ?b = (e', res)" "n \<le> length vs"
      "advanced col sid n e2 e'"
      "\<forall>b. res = Ok b \<longrightarrow> n = length vs \<and> (\<exists>bs. list_all2 (\<lambda>v x. enc v = Ok x) vs bs \<and>
         b = ?b @ append_writes col sid (stream_count e2 col sid) (journal_count e2 col) bs)"
      using Cons.IH [of e2 ?b] Cons.prems by (auto simp: counts)
    have "advanced col sid (Suc n) e e'"
      using seqs(3) rest(3) by (simp add: advanced_def)
    moreover have "\<exists>bs'. list_all2 (\<lambda>v x. enc v = Ok x) (v # vs) bs' \<and>
        b = batch @ append_writes col sid (stream_count e col sid) (journal_count e col) bs'"
      if ok: "res = Ok b" for b
    proof -
      obtain bs where "list_all2 (\<lambda>v x. enc v = Ok x) vs bs"
        "b = ?b @ append_writes col sid (stream_count e2 col sid) (journal_count e2 col) bs"
        using rest(4) ok by blast
      then show ?thesis
        using Ok by (intro exI [of _ "x # bs"]) (simp add: counts)
    qed
    ultimately show ?thesis
      using rest(1,2,4) by (intro exI [of _ "Suc n"] exI [of _ e'] exI [of _ res]) (simp add: Ok seqs(1,2))
  qed (auto simp: advanced_def intro: exI [of _ 0])
qed

lemma StreamKey_eq:
  assumes "int64 a" and "int64 b"
  shows "kv_StreamKey col sid a = kv_StreamKey col' sid' b \<longleftrightarrow> StreamSeqKey col sid = StreamSeqKey col' sid' \<and> a = b"
proof -
  have form: "kv_StreamKey c t n = (''sl'' @ Sep @ StreamSeqKey c t @ Sep) @ fmt020d n" for c t n
    by (simp add: kv_StreamKey_def StreamSeqKey_def)
  have "length (fmt020d a) = length (fmt020d b)"
    using assms by (simp add: length_fmt020d)
  then show ?thesis
    unfolding form using fmt020d_inj [OF assms] by (subst append_eq_append_conv) (simp_all add: Sep_def)
qed

lemma JournalKey_eq:
  assumes "int64 a" and "int64 b"
  shows "JournalKey col a = JournalKey col' b \<longleftrightarrow> col = col' \<and> a = b"
proof -
  have form: "JournalKey c n = (''jl'' @ Sep @ c @ Sep) @ fmt020d n" for c n
    by (simp add: JournalKey_def)
  have "length (fmt020d a) = length (fmt020d b)"
    using assms by (simp add: length_fmt020d)
  then show ?thesis
    unfolding form using fmt020d_inj [OF assms] by (subst append_eq_append_conv) (simp_all add: Sep_def)
qed

lemma key_kinds [simp]: "kv_StreamKey col sid a \<noteq> JournalKey col' b" "JournalKey col' b \<noteq> kv_StreamKey col sid a"
  by (simp_all add: kv_StreamKey_def JournalKey_def)

lemma append_writes_mem:
  "(k, x) \<in> set (append_writes col sid c g bs) \<longleftrightarrow>
     (\<exists>i < length bs. (k, x) = (kv_StreamKey col sid (c + 1 + int i), bs ! i) \<or>
        (k, x) = (JournalKey col (g + 1 + int i), sid @ Sep @ bs ! i))"
proof (induction bs arbitrary: c g)
  case (Cons b bs)
  have "(\<exists>i < length (b # bs). P i) \<longleftrightarrow> P 0 \<or> (\<exists>i < length bs. P (Suc i))" for P :: "nat \<Rightarrow> bool"
    by (metis Suc_less_eq length_Cons less_Suc_eq_0_disj zero_less_Suc)
  then show ?case
    using Cons.IH [of "c + 1" "g + 1"] by (simp add: algebra_simps)
qed simp

lemma append_writes_keys:
  "k \<in> fst ` set (append_writes col sid c g bs) \<longleftrightarrow>
     (\<exists>i < length bs. k = kv_StreamKey col sid (c + 1 + int i) \<or> k = JournalKey col (g + 1 + int i))"
proof -
  have "k \<in> fst ` set (append_writes col sid c g bs) \<longleftrightarrow> (\<exists>x. (k, x) \<in> set (append_writes col sid c g bs))"
    by force
  then show ?thesis
    unfolding append_writes_mem by blast
qed

lemma append_writes_distinct:
  assumes "0 \<le> c" "c + int (length bs) < 2 ^ 63" and "0 \<le> g" "g + int (length bs) < 2 ^ 63"
  shows "distinct (map fst (append_writes col sid c g bs))"
  using assms
proof (induction bs arbitrary: c g)
  case (Cons b bs)
  have "kv_StreamKey col sid (c + 1) \<notin> fst ` set (append_writes col sid (c + 1) (g + 1) bs)"
    using Cons.prems by (auto simp: append_writes_mem StreamKey_eq int64_def)
  moreover have "JournalKey col (g + 1) \<notin> fst ` set (append_writes col sid (c + 1) (g + 1) bs)"
    using Cons.prems by (auto simp: append_writes_mem JournalKey_eq int64_def)
  ultimately show ?case
    using Cons by simp
qed simp

text \<open>
  The values stand under consecutive new keys of their stream, behind all stored ones, and under new
  keys of the journal.
\<close>

definition appended_behind ::
  "('v \<Rightarrow> string outcome) \<Rightarrow> string \<Rightarrow> string \<Rightarrow> 'v list \<Rightarrow> (string \<rightharpoonup> string) \<Rightarrow> (string \<rightharpoonup> string) \<Rightarrow> bool" where
  "appended_behind enc col sid vs db db' \<longleftrightarrow>
     (\<exists>bs seq gseq. list_all2 (\<lambda>v x. enc v = Ok x) vs bs \<and>
        0 < seq \<and> seq + int (length bs) \<le> 2 ^ 63 \<and> 0 < gseq \<and> gseq + int (length bs) \<le> 2 ^ 63 \<and>
        (\<forall>s. int64 s \<and> kv_StreamKey col sid s \<in> dom db \<longrightarrow> s < seq) \<and>
        (\<forall>s. int64 s \<and> JournalKey col s \<in> dom db \<longrightarrow> s < gseq) \<and>
        (\<forall>i < length bs. db' (kv_StreamKey col sid (seq + int i)) = Some (bs ! i) \<and>
           db' (JournalKey col (gseq + int i)) = Some (sid @ Sep @ bs ! i)))"

text \<open>The writes behind counters that are ahead of the database touch no stored key.\<close>

lemma writes_fresh:
  assumes ahead: "ahead e (dom db)" and clean: "NUL \<notin> set col" and new: "(k, x) \<in> set (append_writes col sid c g bs)"
    and c: "c = stream_count e col sid" "c + int (length bs) < 2 ^ 63"
    and g: "g = journal_count e col" "g + int (length bs) < 2 ^ 63"
  shows "k \<notin> dom db"
proof
  assume "k \<in> dom db"
  from new obtain i where i: "i < length bs"
    "k = kv_StreamKey col sid (c + 1 + int i) \<or> k = JournalKey col (g + 1 + int i)"
    unfolding append_writes_mem by auto
  have "0 \<le> c" "0 \<le> g"
    using ahead c(1) g(1) by (simp_all add: ahead_def)
  with i(1) c(2) g(2) have "int64 (c + 1 + int i)" "int64 (g + 1 + int i)"
    by (simp_all add: int64_def)
  with i(2) \<open>k \<in> dom db\<close> ahead clean c(1) g(1) show False
    unfolding ahead_def by force
qed

lemma advanced_mono:
  assumes "advanced col sid n e e'"
  shows "seed_val (streamSeq e) k \<le> seed_val (streamSeq e') k" "seed_val (journalSeq e) k \<le> seed_val (journalSeq e') k"
  using assms by (simp_all add: advanced_def)

lemma ahead_advanced:
  assumes "ahead e K" and "advanced col sid n e e'"
  shows "ahead e' K"
  using assms(1) advanced_mono [OF assms(2)] unfolding ahead_def by (meson order_trans)

lemma writes_ahead:
  assumes ahead: "ahead e (dom db)" and adv: "advanced col sid (length bs) e e'" and clean: "NUL \<notin> set col"
    and c: "c = stream_count e col sid" "c + int (length bs) < 2 ^ 63"
    and g: "g = journal_count e col" "g + int (length bs) < 2 ^ 63"
  shows "ahead e' (dom db \<union> fst ` set (append_writes col sid c g bs))"
proof -
  have pos: "0 \<le> c" "0 \<le> g"
    using ahead c(1) g(1) by (simp_all add: ahead_def)
  note mono = advanced_mono [OF adv]
  have "seq \<le> stream_count e' col' sid'"
    if mem: "kv_StreamKey col' sid' seq \<in> dom db \<union> fst ` set (append_writes col sid c g bs)" and "int64 seq" for col' sid' seq
  proof (cases "kv_StreamKey col' sid' seq \<in> dom db")
    case True
    with ahead \<open>int64 seq\<close> have "seq \<le> stream_count e col' sid'"
      by (auto simp: ahead_def)
    with mono(1) show ?thesis
      by (meson order_trans)
  next
    case False
    with mem obtain i where i: "i < length bs" "kv_StreamKey col' sid' seq = kv_StreamKey col sid (c + 1 + int i)"
      unfolding Un_iff append_writes_keys using key_kinds by blast
    moreover have "int64 (c + 1 + int i)"
      using pos i(1) c(2) by (simp add: int64_def)
    ultimately have "StreamSeqKey col' sid' = StreamSeqKey col sid" "seq = c + 1 + int i"
      using StreamKey_eq [OF \<open>int64 seq\<close>] by auto
    with adv c(1) i(1) show ?thesis
      by (simp add: advanced_def)
  qed
  moreover have "seq \<le> journal_count e' col'"
    if mem: "JournalKey col' seq \<in> dom db \<union> fst ` set (append_writes col sid c g bs)" and "int64 seq" "NUL \<notin> set col'" for col' seq
  proof (cases "JournalKey col' seq \<in> dom db")
    case True
    with ahead that(2,3) have "seq \<le> journal_count e col'"
      by (auto simp: ahead_def)
    with mono(2) show ?thesis
      by (meson order_trans)
  next
    case False
    with mem obtain i where i: "i < length bs" "JournalKey col' seq = JournalKey col (g + 1 + int i)"
      unfolding Un_iff append_writes_keys using key_kinds by blast
    moreover have "int64 (g + 1 + int i)"
      using pos i(1) g(2) by (simp add: int64_def)
    ultimately have "col' = col" "seq = g + 1 + int i"
      using JournalKey_eq [OF \<open>int64 seq\<close>] by auto
    with adv g(1) i(1) show ?thesis
      by (simp add: advanced_def)
  qed
  moreover have "0 \<le> seed_val (streamSeq e') k \<and> 0 \<le> seed_val (journalSeq e') k" for k
    using ahead mono [of k] by (meson ahead_def order_trans)
  ultimately show ?thesis
    unfolding ahead_def by blast
qed

lemma fresh_map_le:
  assumes "\<And>k x. (k, x) \<in> set b \<Longrightarrow> k \<notin> dom m"
  shows "m \<subseteq>\<^sub>m m ++ map_of (rev b)"
  unfolding map_le_def
proof
  fix k
  assume "k \<in> dom m"
  then have "k \<notin> dom (map_of (rev b))"
    using assms [of k] unfolding dom_map_of_conv_image_fst by fastforce
  then show "m k = (m ++ map_of (rev b)) k"
    by (simp add: map_add_dom_app_simps)
qed

lemma pebble_StreamAppend_step:
  assumes ahead: "ahead (pb_seqs p) (dom (pb_db p))" and clean: "NUL \<notin> set col" and commit: "commits_atomically Commit"
    and c: "stream_count (pb_seqs p) col sid + int (length vs) < 2 ^ 63"
    and g: "journal_count (pb_seqs p) col + int (length vs) < 2 ^ 63"
  shows "\<exists>n p' res. pebble_StreamAppend enc Commit col sid vs p = (p', res) \<and> n \<le> length vs \<and>
    advanced col sid n (pb_seqs p) (pb_seqs p') \<and> ahead (pb_seqs p') (dom (pb_db p')) \<and>
    pb_db p \<subseteq>\<^sub>m pb_db p' \<and> (res = Ok () \<longrightarrow> appended_behind enc col sid vs (pb_db p) (pb_db p'))"
proof -
  let ?e = "pb_seqs p" and ?db = "pb_db p"
  let ?c = "stream_count ?e col sid" and ?g = "journal_count ?e col"
  have pos: "0 \<le> ?c" "0 \<le> ?g"
    using ahead by (simp_all add: ahead_def)
  obtain n e' res where loop: "StreamAppend_loop enc col sid vs ?e [] = (e', res)" "n \<le> length vs" "advanced col sid n ?e e'"
    "\<forall>b. res = Ok b \<longrightarrow> n = length vs \<and> (\<exists>bs. list_all2 (\<lambda>v x. enc v = Ok x) vs bs \<and> b = append_writes col sid ?c ?g bs)"
    using StreamAppend_loop_writes [OF pos(1) c pos(2) g, of enc "[]"] by auto
  have kept: "ahead e' (dom ?db)"
    by (rule ahead_advanced [OF ahead loop(3)])
  show ?thesis
  proof (cases "\<exists>b. res = Ok b \<and> Commit ?db b = (?db ++ map_of (rev b), None)")
    case False
    then consider (bad) err where "res = Fail err" | (panic) "res = Panic"
      | (refused) b err where "res = Ok b" "Commit ?db b = (?db, Some err)"
      using commit unfolding commits_atomically_def by (metis outcome.exhaust)
    then show ?thesis
      by cases (use loop(1-3) kept in \<open>auto simp: pebble_StreamAppend_def\<close>)
  next
    case True
    then obtain b bs where b: "res = Ok b" "Commit ?db b = (?db ++ map_of (rev b), None)" "n = length vs"
      "list_all2 (\<lambda>v x. enc v = Ok x) vs bs" "b = append_writes col sid ?c ?g bs"
      using loop(4) by blast
    have len: "length bs = length vs"
      using b(4) by (simp add: list_all2_lengthD)
    define db' where "db' = ?db ++ map_of (rev b)"
    have run: "pebble_StreamAppend enc Commit col sid vs p = (p \<lparr> pb_seqs := e', pb_db := db' \<rparr>, Ok ())"
      by (simp add: pebble_StreamAppend_def loop(1) b(1,2) db'_def)
    have keys: "distinct (map fst (rev b))"
      using append_writes_distinct [OF pos(1) _ pos(2), of bs col sid] c g b(5) len by (simp add: rev_map [symmetric])
    have fresh: "k \<notin> dom ?db" if "(k, x) \<in> set b" for k x
      using writes_fresh [OF ahead clean that [unfolded b(5)] refl _ refl] c g len by simp
    have written: "db' k = Some x" if "(k, x) \<in> set b" for k x
      using map_of_is_SomeI [OF keys, of k x] that by (simp add: db'_def)
    have "?db \<subseteq>\<^sub>m db'"
      unfolding db'_def by (rule fresh_map_le) (use fresh in auto)
    moreover have "ahead e' (dom db')"
      using writes_ahead [OF ahead _ clean refl _ refl, where bs = bs and sid = sid and e' = e'] loop(3) b(3,5) c g len
      by (simp add: db'_def dom_map_of_conv_image_fst Un_commute)
    moreover have "appended_behind enc col sid vs ?db db'"
      unfolding appended_behind_def
    proof (rule exI [of _ bs], rule exI [of _ "?c + 1"], rule exI [of _ "?g + 1"], intro conjI)
      show "\<forall>s. int64 s \<and> kv_StreamKey col sid s \<in> dom ?db \<longrightarrow> s < ?c + 1"
        using ahead by (auto simp: ahead_def)
      show "\<forall>s. int64 s \<and> JournalKey col s \<in> dom ?db \<longrightarrow> s < ?g + 1"
        using ahead clean by (auto simp: ahead_def)
      show "\<forall>i < length bs. db' (kv_StreamKey col sid (?c + 1 + int i)) = Some (bs ! i) \<and>
          db' (JournalKey col (?g + 1 + int i)) = Some (sid @ Sep @ bs ! i)"
        using written unfolding b(5) append_writes_mem by blast
    qed (use b(4) pos c g len in simp_all)
    ultimately show ?thesis
      using run loop(2,3) by auto
  qed
qed

text \<open>Any number of appends.\<close>

definition total_values :: "(string \<times> string \<times> 'v list) list \<Rightarrow> nat" where
  "total_values ops = sum_list (map (\<lambda>(col, sid, values). length values) ops)"

definition room :: "engine_seqs \<Rightarrow> nat \<Rightarrow> (string \<times> string \<times> 'v list) list \<Rightarrow> bool" where
  "room e n ops \<longleftrightarrow>
     (\<forall>(col, sid, values) \<in> set ops. NUL \<notin> set col \<and> stream_count e col sid + int n < 2 ^ 63 \<and> journal_count e col + int n < 2 ^ 63)"

lemma room_advanced:
  assumes "room e (n + k) ops" and "advanced col sid n' e e'" and "n' \<le> n"
  shows "room e' k ops"
  unfolding room_def
proof clarify
  fix c s and vs :: "'a list"
  assume "(c, s, vs) \<in> set ops"
  with assms(1) have "NUL \<notin> set c" "stream_count e c s + int (n + k) < 2 ^ 63" "journal_count e c + int (n + k) < 2 ^ 63"
    unfolding room_def by blast+
  moreover have "stream_count e' c s \<le> stream_count e c s + int n" "journal_count e' c \<le> journal_count e c + int n"
    using assms(2,3) by (simp_all add: advanced_def)
  ultimately show "NUL \<notin> set c \<and> stream_count e' c s + int k < 2 ^ 63 \<and> journal_count e' c + int k < 2 ^ 63"
    by simp
qed

lemma room_less: "room e n ops \<Longrightarrow> k \<le> n \<Longrightarrow> set ops' \<subseteq> set ops \<Longrightarrow> room e k ops'"
  unfolding room_def by fastforce

lemma pebble_appends_ahead:
  assumes "ahead (pb_seqs p) (dom (pb_db p))" and commit: "commits_atomically Commit"
    and "room (pb_seqs p) (total_values ops + k) (ops @ rest)"
  shows "ahead (pb_seqs (pebble_appends enc Commit ops p)) (dom (pb_db (pebble_appends enc Commit ops p))) \<and>
    room (pb_seqs (pebble_appends enc Commit ops p)) k rest \<and>
    pb_db p \<subseteq>\<^sub>m pb_db (pebble_appends enc Commit ops p)"
  using assms(1,3)
proof (induction ops arbitrary: p)
  case Nil
  then show ?case
    by (simp add: total_values_def)
next
  case (Cons op ops)
  obtain col sid vs where op: "op = (col, sid, vs)"
    by (cases op)
  have total: "total_values (op # ops) = length vs + total_values ops"
    by (simp add: total_values_def op)
  have "NUL \<notin> set col" "stream_count (pb_seqs p) col sid + int (length vs) < 2 ^ 63"
    "journal_count (pb_seqs p) col + int (length vs) < 2 ^ 63"
    using Cons.prems(2) unfolding total by (auto simp: room_def op)
  from pebble_StreamAppend_step [OF Cons.prems(1) this(1) commit this(2,3)]
  obtain n p' res where step: "pebble_StreamAppend enc Commit col sid vs p = (p', res)" "n \<le> length vs"
    "advanced col sid n (pb_seqs p) (pb_seqs p')" "ahead (pb_seqs p') (dom (pb_db p'))" "pb_db p \<subseteq>\<^sub>m pb_db p'"
    by blast
  have "room (pb_seqs p) (length vs + (total_values ops + k)) (ops @ rest)"
    by (rule room_less [OF Cons.prems(2)]) (auto simp: total)
  then have "room (pb_seqs p') (total_values ops + k) (ops @ rest)"
    by (rule room_advanced [OF _ step(3,2)])
  from Cons.IH [OF step(4) this] step(1,5) show ?case
    by (auto simp: op intro: map_le_trans)
qed

text \<open>Seeding puts the counters ahead of the stored keys.\<close>

lemma seedSeqCounters_ahead:
  assumes "iter_reads K NewIter"
  obtains e where "seedSeqCounters NewIter no_seqs = Ok (e, None)" and "ahead e K"
proof -
  obtain e sl jl where e: "seedSeqCounters NewIter no_seqs = Ok (e, None)"
    and sl: "seeded Map.empty (parsed_seqs sl (int (length (''sl'' @ Sep))) True) (streamSeq e)"
    and sls: "set sl = {k \<in> K. prefix (''sl'' @ Sep) k}"
    and jl: "seeded Map.empty (parsed_seqs jl (int (length (''jl'' @ Sep))) False) (journalSeq e)"
    and jls: "set jl = {k \<in> K. prefix (''jl'' @ Sep) k}"
    by (rule seedSeqCounters_seeded [OF assms])
  have stream: "seq \<le> stream_count e col sid" if "kv_StreamKey col sid seq \<in> K" "int64 seq" for col sid seq
    using seeded_covers [OF sl sls, of "col @ Sep @ sid" seq] that by (simp add: kv_StreamKey_def StreamSeqKey_def)
  have journal: "seq \<le> journal_count e col" if "JournalKey col seq \<in> K" "int64 seq" "NUL \<notin> set col" for col seq
  proof -
    have tw: "takeWhile (\<lambda>c. c \<noteq> NUL) col = col"
      using that(3) by (subst takeWhile_eq_all_conv) metis
    show ?thesis
      using seeded_covers [OF jl jls, of col seq, unfolded tw] that(1,2) by (simp add: JournalKey_def)
  qed
  have "ahead e K"
    unfolding ahead_def using stream journal seeded_nonneg [OF sl] seeded_nonneg [OF jl] by blast
  with e show thesis
    by (rule that)
qed

section \<open>Properties\<close>

text \<open>
  C38. Restart of the engine: when the counters are seeded from a database whose iterator returns the
  stored keys in the requested range, seeding succeeds and every counter is at least every stored
  sequence of its stream or journal. Whatever appends then run, to any streams of collections whose
  names have no separator, failed encodings and failed commits included, no stored entry is changed
  or lost; and an append that succeeds after them puts its values, in order, under consecutive keys of
  its stream and of the journal that lie behind all keys stored before it, while everything stored
  before it stays. (As long as the values fit the \<open>int64\<close> counters.)
\<close>

theorem restart_no_overwrite:
  assumes "iter_reads (dom db) NewIter" and "commits_atomically Commit"
  shows "\<exists>e. seedSeqCounters NewIter no_seqs = Ok (e, None) \<and>
    (\<forall>col sid seq. kv_StreamKey col sid seq \<in> dom db \<and> int64 seq \<longrightarrow> seq \<le> stream_count e col sid) \<and>
    (\<forall>col seq. NUL \<notin> set col \<and> JournalKey col seq \<in> dom db \<and> int64 seq \<longrightarrow> seq \<le> journal_count e col) \<and>
    (\<forall>ops col sid values. room e (total_values (ops @ [(col, sid, values)])) (ops @ [(col, sid, values)]) \<longrightarrow>
       (let p1 = pebble_appends EncodeJSON Commit ops \<lparr>pb_seqs = e, pb_db = db\<rparr>;
            (p2, res) = pebble_StreamAppend EncodeJSON Commit col sid values p1 in
        db \<subseteq>\<^sub>m pb_db p1 \<and> pb_db p1 \<subseteq>\<^sub>m pb_db p2 \<and>
        (res = Ok () \<longrightarrow> appended_behind EncodeJSON col sid values (pb_db p1) (pb_db p2))))"
proof -
  obtain e where e: "seedSeqCounters NewIter no_seqs = Ok (e, None)" and ahead: "ahead e (dom db)"
    by (rule seedSeqCounters_ahead [OF assms(1)])
  have "let p1 = pebble_appends EncodeJSON Commit ops \<lparr>pb_seqs = e, pb_db = db\<rparr>;
            (p2, res) = pebble_StreamAppend EncodeJSON Commit col sid vs p1 in
        db \<subseteq>\<^sub>m pb_db p1 \<and> pb_db p1 \<subseteq>\<^sub>m pb_db p2 \<and>
        (res = Ok () \<longrightarrow> appended_behind EncodeJSON col sid vs (pb_db p1) (pb_db p2))"
    if room: "room e (total_values (ops @ [(col, sid, vs)])) (ops @ [(col, sid, vs)])" for ops col sid vs
  proof -
    define p1 where "p1 = pebble_appends EncodeJSON Commit ops \<lparr>pb_seqs = e, pb_db = db\<rparr>"
    have p1: "ahead (pb_seqs p1) (dom (pb_db p1))" "room (pb_seqs p1) (length vs) [(col, sid, vs)]" "db \<subseteq>\<^sub>m pb_db p1"
      using pebble_appends_ahead [of "\<lparr>pb_seqs = e, pb_db = db\<rparr>" Commit ops "length vs" "[(col, sid, vs)]" EncodeJSON]
        ahead assms(2) room by (simp_all add: p1_def total_values_def)
    with pebble_StreamAppend_step [of p1 col Commit sid vs EncodeJSON] assms(2) show ?thesis
      unfolding p1_def [symmetric] by (auto simp: room_def Let_def)
  qed
  with e ahead show ?thesis
    unfolding ahead_def by blast
qed

lemma let_returned:
  assumes "let p1 = x; (p2, res) = f p1 in A p1 \<and> B p1 p2 \<and> (res = r \<longrightarrow> C p1 p2)" and "\<And>p. snd (f p) = r"
  shows "let p1 = x; (p2, res) = f p1 in A p1 \<and> B p1 p2 \<and> res = r \<and> C p1 p2"
  using assms by (simp add: case_prod_beta Let_def)

definition sample_db :: "string \<rightharpoonup> string" where
  "sample_db = [kv_StreamKey ''a'' ''b'' 4 \<mapsto> ''x'']"

definition sample_iter :: key_iter where
  "sample_iter lo hi = Ok (filter (\<lambda>k. lo \<le> k \<and> k < hi) [kv_StreamKey ''a'' ''b'' 4], None)"

definition sample_commit :: "(string \<rightharpoonup> string) \<Rightarrow> kv_batch \<Rightarrow> (string \<rightharpoonup> string) \<times> go_error option" where
  "sample_commit db batch = (db ++ map_of (rev batch), None)"

definition sample_ops :: "(string \<times> string \<times> string list) list" where
  "sample_ops = [(''a'', ''b'', [''y'']), (''a'', ''c'', [''u'', ''v''])]"

theorem restart_no_overwrite_witness:
  "iter_reads (dom sample_db) sample_iter \<and> commits_atomically sample_commit \<and>
   (\<exists>e. seedSeqCounters sample_iter no_seqs = Ok (e, None) \<and>
      (let p1 = pebble_appends Ok sample_commit sample_ops \<lparr>pb_seqs = e, pb_db = sample_db\<rparr>;
           (p2, res) = pebble_StreamAppend Ok sample_commit ''a'' ''b'' [''z''] p1 in
       sample_db \<subseteq>\<^sub>m pb_db p1 \<and> pb_db p1 \<subseteq>\<^sub>m pb_db p2 \<and> res = Ok () \<and>
       appended_behind Ok ''a'' ''b'' [''z''] (pb_db p1) (pb_db p2)))"
proof -
  have it: "iter_reads (dom sample_db) sample_iter" and commit: "commits_atomically sample_commit"
    unfolding iter_reads_def commits_atomically_def sample_db_def sample_iter_def sample_commit_def by auto
  have counts: "case seedSeqCounters sample_iter no_seqs of Ok (e, _) \<Rightarrow>
      stream_count e ''a'' ''b'' = 4 \<and> stream_count e ''a'' ''c'' = 0 \<and> journal_count e ''a'' = 0 | _ \<Rightarrow> False"
    by code_simp
  obtain e where e: "seedSeqCounters sample_iter no_seqs = Ok (e, None)"
    "\<forall>ops col sid values. room e (total_values (ops @ [(col, sid, values)])) (ops @ [(col, sid, values)]) \<longrightarrow>
       (let p1 = pebble_appends Ok sample_commit ops \<lparr>pb_seqs = e, pb_db = sample_db\<rparr>;
            (p2, res) = pebble_StreamAppend Ok sample_commit col sid values p1 in
        sample_db \<subseteq>\<^sub>m pb_db p1 \<and> pb_db p1 \<subseteq>\<^sub>m pb_db p2 \<and>
        (res = Ok () \<longrightarrow> appended_behind Ok col sid values (pb_db p1) (pb_db p2)))"
    using restart_no_overwrite [OF it commit, of Ok] by blast
  have "room e (total_values (sample_ops @ [(''a'', ''b'', [''z''])])) (sample_ops @ [(''a'', ''b'', [''z''])])"
    using counts e(1) by (simp add: room_def total_values_def sample_ops_def NUL_def)
  with e(2) have "let p1 = pebble_appends Ok sample_commit sample_ops \<lparr>pb_seqs = e, pb_db = sample_db\<rparr>;
            (p2, res) = pebble_StreamAppend Ok sample_commit ''a'' ''b'' [''z''] p1 in
        sample_db \<subseteq>\<^sub>m pb_db p1 \<and> pb_db p1 \<subseteq>\<^sub>m pb_db p2 \<and>
        (res = Ok () \<longrightarrow> appended_behind Ok ''a'' ''b'' [''z''] (pb_db p1) (pb_db p2))"
    by blast
  moreover have "snd (pebble_StreamAppend Ok sample_commit ''a'' ''b'' [''z''] p) = Ok ()" for p
    by (simp add: pebble_StreamAppend_def sample_commit_def split: prod.split)
  ultimately have "let p1 = pebble_appends Ok sample_commit sample_ops \<lparr>pb_seqs = e, pb_db = sample_db\<rparr>;
            (p2, res) = pebble_StreamAppend Ok sample_commit ''a'' ''b'' [''z''] p1 in
        sample_db \<subseteq>\<^sub>m pb_db p1 \<and> pb_db p1 \<subseteq>\<^sub>m pb_db p2 \<and> res = Ok () \<and>
        appended_behind Ok ''a'' ''b'' [''z''] (pb_db p1) (pb_db p2)"
    by (rule let_returned)
  with it commit e(1) show ?thesis
    by (intro conjI exI [of _ e])
qed

end
