(* ===== verification/Interleavings.thy ===== *)
theory Interleavings
  imports MemoryStore
begin

text \<open>
  Concurrent writers on the memory event store. \<open>WithWrite\<close> first checks the lifecycle, under the
  lifecycle's own mutex, and only then takes the store's lock and runs the body of the
  operation; \<open>Close\<close> takes only the lifecycle's mutex. A write therefore is two atomic steps,
  and other calls, \<open>Close\<close> among them, can come between. The step relation interleaves any
  number of calls of \<open>Save\<close>, \<open>AppendBatch\<close>, \<open>SaveMultiBatch\<close> and \<open>Close\<close>.
\<close>

section \<open>Calls in flight\<close>

datatype call_pc = CallStart | CallChecked | CallDone "go_error option"

type_synonym running = "MemoryStore \<times> (store_call \<times> call_pc) list"

text \<open>The closed check in front of the lock, with the error code of the operation.\<close>

fun call_code :: "store_call \<Rightarrow> string" where
  "call_code (CallSave r evs v) = ''memory.save_failed''"
| "call_code (CallAppendBatch r evs) = ''memory.append_batch_failed''"
| "call_code (CallSaveMultiBatch entries) = ''memory.save_multi_batch_failed''"
| "call_code CallStoreClose = []"

definition check_step :: "store_call \<Rightarrow> MemoryStore \<Rightarrow> call_pc" where
  "check_step c s =
     (case wrapClosed (Lifecycle_CheckClosed (ls_Lifecycle s) (cfg_ClosedErr (ls_cfg s))) (call_code c) of
        Some err \<Rightarrow> CallDone (Some err)
      | None \<Rightarrow> CallChecked)"

text \<open>The bodies that run under the lock.\<close>

fun locked_body :: "(go_error \<Rightarrow> family) \<Rightarrow> store_call \<Rightarrow> MemoryStore \<Rightarrow> MemoryStore \<times> go_error option" where
  "locked_body cls (CallSave ref events expectedVersion) s =
     (let key = StreamKey ref in
      case CheckVersionConflict (StreamLenLocked s key) expectedVersion of
        Some err \<Rightarrow> (s, Some (ErrWrap (cls err) ''memory.save_failed'' err))
      | None \<Rightarrow> (AppendLocked s key events, None))"
| "locked_body cls (CallAppendBatch ref events) s = (AppendLocked s (StreamKey ref) events, None)"
| "locked_body cls (CallSaveMultiBatch entries) s = (SaveMultiBatch_loop s entries, None)"
| "locked_body cls CallStoreClose s = LogStore_Close s"

inductive store_step :: "(go_error \<Rightarrow> family) \<Rightarrow> running \<Rightarrow> running \<Rightarrow> bool"
  for cls :: "go_error \<Rightarrow> family" where
  check: "i < length calls \<Longrightarrow> calls ! i = (c, CallStart) \<Longrightarrow> c \<noteq> CallStoreClose \<Longrightarrow>
    store_step cls (s, calls) (s, calls[i := (c, check_step c s)])"
| body: "i < length calls \<Longrightarrow> calls ! i = (c, CallChecked) \<Longrightarrow> locked_body cls c s = (s', r) \<Longrightarrow>
    store_step cls (s, calls) (s', calls[i := (c, CallDone r)])"
| close: "i < length calls \<Longrightarrow> calls ! i = (CallStoreClose, CallStart) \<Longrightarrow>
    LogStore_Close s = (s', r) \<Longrightarrow>
    store_step cls (s, calls) (s', calls[i := (CallStoreClose, CallDone r)])"

definition start_calls :: "store_call list \<Rightarrow> running" where
  "start_calls cs = (NewMemoryStore, map (\<lambda>c. (c, CallStart)) cs)"

text \<open>A call that runs alone is the sequential operation.\<close>

lemma run_alone:
  "run_store_call cls c s =
     (case check_step c s of
        CallDone r \<Rightarrow> if c = CallStoreClose then LogStore_Close s else (s, r)
      | _ \<Rightarrow> locked_body cls c s)"
  by (cases c)
    (simp_all add: check_step_def MemoryStore_Save_def MemoryStore_AppendBatch_def
      MemoryStore_SaveMultiBatch_def WithWrite_def split: option.split)

section \<open>What a call contributes\<close>

fun call_entries :: "store_call \<Rightarrow> (string \<times> event) list" where
  "call_entries (CallSave r evs v) = keyed r evs"
| "call_entries (CallAppendBatch r evs) = keyed r evs"
| "call_entries (CallSaveMultiBatch entries) =
     concat (map (\<lambda>en. keyed (mbe_Ref en) (mbe_Events en)) entries)"
| "call_entries CallStoreClose = []"

fun call_fits :: "(string \<times> event) list \<Rightarrow> store_call \<Rightarrow> bool" where
  "call_fits es (CallSave r evs v) \<longleftrightarrow> version_ok v \<and> unat v = length (stream_of es (StreamKey r))"
| "call_fits es _ \<longleftrightarrow> True"

definition entries_of :: "store_call list \<Rightarrow> (string \<times> event) list" where
  "entries_of cs = concat (map call_entries cs)"

text \<open>Every call in a sequence found the version it expected when its turn came.\<close>

definition all_fit :: "store_call list \<Rightarrow> bool" where
  "all_fit cs \<longleftrightarrow> (\<forall>n < length cs. call_fits (entries_of (take n cs)) (cs ! n))"

lemma all_fit_snoc: "all_fit (cs @ [c]) \<longleftrightarrow> all_fit cs \<and> call_fits (entries_of cs) c"
  by (auto simp: all_fit_def less_Suc_eq nth_append)

lemma entries_of_snoc: "entries_of (cs @ [c]) = entries_of cs @ call_entries c"
  by (simp add: entries_of_def)

lemma StreamLenLocked_store:
  "store_repr (es, closed) s \<Longrightarrow> StreamLenLocked s k = length (stream_of es k)"
  by (simp add: store_repr_def StreamLenLocked_repr)

lemma locked_body_None:
  assumes "store_repr (es, closed) s" and "locked_body cls c s = (s', None)" and "c \<noteq> CallStoreClose"
  shows "call_fits es c \<and> store_repr (es @ call_entries c, closed) s'"
proof (cases c)
  case (CallSave r evs v)
  let ?n = "length (stream_of es (StreamKey r))"
  have len: "StreamLenLocked s (StreamKey r) = ?n"
    by (rule StreamLenLocked_store[OF assms(1)])
  have "CheckVersionConflict ?n v = None" and s': "s' = AppendLocked s (StreamKey r) evs"
    using assms(2) unfolding CallSave by (simp_all add: Let_def len split: option.splits)
  then have "version_ok v \<and> unat v = ?n"
    using CheckVersionConflict_None[of v ?n] CheckVersionConflict_bad[of v ?n] by metis
  with s' show ?thesis
    unfolding CallSave using store_repr_append[OF assms(1), of r evs] by simp
qed (use assms store_repr_append SaveMultiBatch_loop_repr in auto)

lemma locked_body_Some: "locked_body cls c s = (s', Some e) \<Longrightarrow> c \<noteq> CallStoreClose \<Longrightarrow> s' = s"
  by (cases c) (auto simp: Let_def split: option.splits)

section \<open>The order of the writes\<close>

definition won :: "(store_call \<times> call_pc) list \<Rightarrow> nat set" where
  "won calls = {i. i < length calls \<and> snd (calls ! i) = CallDone None \<and> fst (calls ! i) \<noteq> CallStoreClose}"

definition write_order :: "store_call list \<Rightarrow> nat list \<Rightarrow> running \<Rightarrow> bool" where
  "write_order cs h st \<longleftrightarrow>
     map fst (snd st) = cs \<and> distinct h \<and> set h = won (snd st) \<and>
     all_fit (map ((!) cs) h) \<and>
     (\<exists>closed. store_repr (entries_of (map ((!) cs) h), closed) (fst st))"

lemma won_update_other:
  assumes "i < length calls" and "calls ! i = (c, pc)" and "pc \<noteq> CallDone None"
    and "pc' = CallDone None \<Longrightarrow> c = CallStoreClose"
  shows "won (calls[i := (c, pc')]) = won calls"
  using assms by (auto simp: won_def nth_list_update)

lemma won_update_done:
  assumes "i < length calls" and "calls ! i = (c, pc)" and "c \<noteq> CallStoreClose"
  shows "won (calls[i := (c, CallDone None)]) = insert i (won calls)"
  using assms by (auto simp: won_def nth_list_update)

lemma map_fst_update: "i < length calls \<Longrightarrow> calls ! i = (c, pc) \<Longrightarrow> map fst (calls[i := (c, pc')]) = map fst calls"
  by (simp add: map_update) (metis fst_conv length_map list_update_id nth_map)

lemma checked_not_close:
  assumes "(store_step cls)\<^sup>*\<^sup>* (start_calls cs) st" and "i < length (snd st)"
    and "snd st ! i = (c, CallChecked)"
  shows "c \<noteq> CallStoreClose"
  using assms
proof (induction arbitrary: i c rule: rtranclp_induct)
  case base
  then show ?case by (simp add: start_calls_def)
next
  case (step st st')
  from step.hyps(2) step.prems step.IH show ?case
    by cases (auto simp: nth_list_update split: if_splits)
qed

lemma step_write_order:
  assumes reach: "(store_step cls)\<^sup>*\<^sup>* (start_calls cs) st"
    and step: "store_step cls st st'" and ord: "write_order cs h st"
  shows "\<exists>h'. write_order cs h' st'"
  using step
proof cases
  case (check i calls c s)
  have "won (calls[i := (c, check_step c s)]) = won calls"
    using check by (intro won_update_other) (auto simp: check_step_def split: option.splits)
  then have "write_order cs h st'"
    using ord map_fst_update[OF check(3,4)] unfolding check(1,2) write_order_def by simp
  then show ?thesis ..
next
  case (body i calls c s s' r)
  have c: "c \<noteq> CallStoreClose"
    using checked_not_close[OF reach] body by simp
  have names: "map fst calls = cs" using ord body(1) by (simp add: write_order_def)
  then have ci: "cs ! i = c" using body(3,4) by auto
  show ?thesis
  proof (cases r)
    case None
    have h: "distinct h" "set h = won calls" "all_fit (map ((!) cs) h)"
      using ord body(1) by (simp_all add: write_order_def)
    obtain closed where "store_repr (entries_of (map ((!) cs) h), closed) s"
      using ord body(1) by (auto simp: write_order_def)
    from locked_body_None[OF this body(5)[unfolded None] c]
    have "call_fits (entries_of (map ((!) cs) h)) c"
      and "store_repr (entries_of (map ((!) cs) (h @ [i])), closed) s'"
      by (simp_all add: entries_of_snoc ci)
    moreover have "i \<notin> set h" using h(2) body(4) by (simp add: won_def)
    ultimately have "write_order cs (h @ [i]) st'"
      using h names map_fst_update[OF body(3,4)] won_update_done[OF body(3,4) c]
      unfolding body(2) None write_order_def by (auto simp: all_fit_snoc ci)
    then show ?thesis ..
  next
    case (Some e)
    have "s' = s" using locked_body_Some[OF body(5)[unfolded Some] c] .
    moreover have "won (calls[i := (c, CallDone r)]) = won calls"
      using body(3,4) Some by (intro won_update_other) auto
    ultimately have "write_order cs h st'"
      using ord map_fst_update[OF body(3,4)] unfolding body(1,2) write_order_def by simp
    then show ?thesis ..
  qed
next
  case (close i calls s s' r)
  have "won (calls[i := (CallStoreClose, CallDone r)]) = won calls"
    using close(3,4) by (intro won_update_other) auto
  moreover have "\<exists>closed. store_repr (es, closed) s'" if "store_repr (es, closed) s" for es closed
    using that close(5) by (auto simp: store_repr_def LogStore_Close_def split: prod.splits)
  ultimately have "write_order cs h st'"
    using ord map_fst_update[OF close(3,4)] unfolding close(1,2) write_order_def by auto
  then show ?thesis ..
qed

lemma reach_write_order:
  assumes "(store_step cls)\<^sup>*\<^sup>* (start_calls cs) st"
  shows "\<exists>h. write_order cs h st"
  using assms
proof (induction rule: rtranclp_induct)
  case base
  have "store_repr ([], False) NewMemoryStore"
    using run_store_repr[of "[]"] by (simp add: run_store_def spec_store_def)
  then have "write_order cs [] (start_calls cs)"
    by (auto simp: write_order_def start_calls_def won_def all_fit_def entries_of_def comp_def)
  then show ?case ..
next
  case (step st st')
  then show ?case using step_write_order by blast
qed

section \<open>Two writers that expect the same version\<close>

lemma stream_entries_mono:
  assumes "m \<le> n"
  shows "length (stream_of (entries_of (take m cs)) k) \<le> length (stream_of (entries_of (take n cs)) k)"
proof -
  obtain ys where "take n cs = take m cs @ ys"
    using assms by (metis min.absorb2 take_add le_iff_add)
  then show ?thesis by (simp add: entries_of_def)
qed

lemma fit_later:
  assumes "all_fit cs" and "m < n" and "n < length cs"
    and "cs ! m = CallSave r evs v" and "cs ! n = CallSave r' evs' v" and "StreamKey r = StreamKey r'"
    and "evs \<noteq> []"
  shows False
proof -
  let ?len = "\<lambda>n. length (stream_of (entries_of (take n cs)) (StreamKey r))"
  have fits: "unat v = ?len m" "unat v = ?len n"
    using assms unfolding all_fit_def by (metis call_fits.simps(1) less_trans)+
  have "take (Suc m) cs = take m cs @ [cs ! m]"
    using assms(2,3) by (simp add: take_Suc_conv_app_nth)
  then have "?len (Suc m) = ?len m + length evs"
    using assms(4) by (simp add: entries_of_snoc keyed_def)
  moreover have "?len (Suc m) \<le> ?len n"
    using assms(2) by (intro stream_entries_mono) simp
  ultimately show False using fits assms(7) by simp
qed

lemma one_winner:
  assumes ord: "write_order cs h st" and "i \<in> won (snd st)" and "j \<in> won (snd st)" and "i \<noteq> j"
    and "cs ! i = CallSave r evs v" and "cs ! j = CallSave r' evs' v" and "StreamKey r = StreamKey r'"
    and "evs \<noteq> []" and "evs' \<noteq> []"
  shows False
proof -
  have fit: "all_fit (map ((!) cs) h)" and set: "set h = won (snd st)"
    using ord by (simp_all add: write_order_def)
  obtain m n where m: "m < length h" "h ! m = i" and n: "n < length h" "h ! n = j"
    using assms(2,3) unfolding set[symmetric] by (metis in_set_conv_nth)
  then consider "m < n" | "n < m" using assms(4) by (cases m n rule: linorder_cases) auto
  then show False
    using fit_later[OF fit, of m n r evs v r' evs'] fit_later[OF fit, of n m r' evs' v r evs] m n assms
    by cases simp_all
qed

section \<open>Closing\<close>

lemma locked_body_Lifecycle: "c \<noteq> CallStoreClose \<Longrightarrow> ls_Lifecycle (fst (locked_body cls c s)) = ls_Lifecycle s"
proof (cases c)
  case (CallSaveMultiBatch entries)
  have "ls_Lifecycle (SaveMultiBatch_loop s entries) = ls_Lifecycle s"
    by (induction entries arbitrary: s) simp_all
  with CallSaveMultiBatch show ?thesis by simp
qed (auto simp: Let_def split: option.splits)

lemma close_done_closed:
  assumes "(store_step cls)\<^sup>*\<^sup>* (start_calls cs) st" and "(CallStoreClose, CallDone r) \<in> set (snd st)"
  shows "lc_closed (ls_Lifecycle (fst st))"
  using assms
proof (induction arbitrary: r rule: rtranclp_induct)
  case base
  then show ?case by (auto simp: start_calls_def)
next
  case (step st st')
  from step.hyps(2) show ?case
  proof cases
    case (check i calls c s)
    then have "(CallStoreClose, CallDone r) \<in> set calls"
      using step.prems set_update_subset_insert[of calls i "(c, check_step c s)"] by auto
    with step.IH[of r] check show ?thesis by simp
  next
    case (body i calls c s s' q)
    have c: "c \<noteq> CallStoreClose" using checked_not_close[OF step.hyps(1)] body by simp
    then have "(CallStoreClose, CallDone r) \<in> set calls"
      using step.prems body set_update_subset_insert[of calls i "(c, CallDone q)"] by auto
    with step.IH[of r] body locked_body_Lifecycle[OF c, of cls s] show ?thesis by simp
  next
    case (close i calls s s' q)
    then show ?thesis by (auto simp: LogStore_Close_def Lifecycle_Close_def)
  qed
qed

section \<open>Properties\<close>

text \<open>
  C3. Concurrent writers: whatever calls of \<open>Save\<close>, \<open>AppendBatch\<close>, \<open>SaveMultiBatch\<close> and \<open>Close\<close>
  run at the same time and however their steps interleave, there is one order of the successful
  writes such that the journal is exactly their events in this order and every save among them
  found its expected version when its turn came; and of two saves of events to the same stream
  with the same expected version at most one succeeds. Once a \<open>Close\<close> has returned, every write
  that starts fails with the closed error.
\<close>

theorem concurrent_writers:
  assumes "(store_step cls)\<^sup>*\<^sup>* (start_calls cs) (s, calls)"
  shows "(\<exists>h. distinct h \<and> set h = won calls \<and> all_fit (map ((!) cs) h) \<and>
            ls_log s = map snd (entries_of (map ((!) cs) h)) \<and>
            (\<forall>k. ms_stream s k = stream_of (entries_of (map ((!) cs) h)) k)) \<and>
         (\<forall>i j r evs r' evs' v. i \<noteq> j \<and> i \<in> won calls \<and> j \<in> won calls \<and>
            cs ! i = CallSave r evs v \<and> cs ! j = CallSave r' evs' v \<and> StreamKey r = StreamKey r' \<longrightarrow>
            evs = [] \<or> evs' = []) \<and>
         (\<forall>r c. (CallStoreClose, CallDone r) \<in> set calls \<longrightarrow>
            check_step c s = CallDone (Some (ErrWrap Infrastructure (call_code c) event_ErrStoreClosed)))"
proof -
  obtain h where ord: "write_order cs h (s, calls)"
    using reach_write_order[OF assms] by blast
  then obtain closed where repr: "store_repr (entries_of (map ((!) cs) h), closed) s"
    by (auto simp: write_order_def)
  have "ls_log s = map snd (entries_of (map ((!) cs) h))"
    and "\<forall>k. ms_stream s k = stream_of (entries_of (map ((!) cs) h)) k"
    using repr by (simp_all add: store_repr_def log_repr_def ms_stream_repr[of "entries_of (map ((!) cs) h)"])
  moreover have "distinct h \<and> set h = won calls \<and> all_fit (map ((!) cs) h)"
    using ord by (simp add: write_order_def)
  moreover have "check_step c s = CallDone (Some (ErrWrap Infrastructure (call_code c) event_ErrStoreClosed))"
    if "(CallStoreClose, CallDone r) \<in> set calls" for c r
    using close_done_closed[OF assms, of r] that repr
    by (simp add: check_step_def wrapClosed_def Lifecycle_CheckClosed_def store_repr_def)
  moreover have "evs = [] \<or> evs' = []"
    if "i \<noteq> j \<and> i \<in> won calls \<and> j \<in> won calls \<and> cs ! i = CallSave r evs v \<and>
        cs ! j = CallSave r' evs' v \<and> StreamKey r = StreamKey r'" for i j r evs r' evs' v
    using one_winner[OF ord, of i j r evs v r' evs'] that by auto
  ultimately show ?thesis by blast
qed

theorem concurrent_writers_witness:
  defines "cs \<equiv> [CallSave witness_ref [witness_event 1] 0, CallSave witness_ref [witness_event 2] 0]"
  shows "\<exists>s calls. (store_step (\<lambda>_. Conflict))\<^sup>*\<^sup>* (start_calls cs) (s, calls) \<and> won calls = {0} \<and>
    (\<exists>h. distinct h \<and> set h = won calls \<and> ls_log s = map snd (entries_of (map ((!) cs) h)))"
proof -
  let ?c1 = "CallSave witness_ref [witness_event 1] 0" and ?c2 = "CallSave witness_ref [witness_event 2] 0"
  let ?cls = "\<lambda>_ :: go_error. Conflict" and ?s0 = NewMemoryStore
  let ?s1 = "AppendLocked ?s0 (StreamKey witness_ref) [witness_event 1]"
  have open0: "check_step c ?s0 = CallChecked" for c
    by (simp add: check_step_def wrapClosed_def Lifecycle_CheckClosed_def NewMemoryStore_def NewLogStore_def)
  have len0: "StreamLenLocked ?s0 k = 0" for k
    by (simp add: StreamLenLocked_def stream_indices_def NewMemoryStore_def NewLogStore_def)
  have "store_repr ([], False) ?s0"
    using run_store_repr[of "[]"] by (simp add: run_store_def spec_store_def)
  note repr1 = store_repr_append[OF this, of witness_ref "[witness_event 1]"]
  have len1: "StreamLenLocked ?s1 (StreamKey witness_ref) = 1"
    unfolding StreamLenLocked_store[OF repr1] by (simp add: keyed_def stream_of_def)
  have "CheckVersionConflict 1 0 \<noteq> None"
    by (simp add: CheckVersionConflict_def Version_Int_def)
  then obtain e where e: "locked_body ?cls ?c2 ?s1 = (?s1, Some e)"
    unfolding locked_body.simps Let_def len1 by (auto simp del: AppendLocked.simps)
  have b1: "locked_body ?cls ?c1 ?s0 = (?s1, None)"
    unfolding locked_body.simps Let_def len0
    by (simp add: CheckVersionConflict_def Version_Int_def del: AppendLocked.simps)
  have 1: "store_step ?cls (start_calls cs) (?s0, [(?c1, CallChecked), (?c2, CallStart)])"
    using store_step.check[of 0 "snd (start_calls cs)" ?c1 ?cls ?s0]
    by (simp add: start_calls_def cs_def open0)
  have 2: "store_step ?cls (?s0, [(?c1, CallChecked), (?c2, CallStart)]) (?s0, [(?c1, CallChecked), (?c2, CallChecked)])"
    using store_step.check[of 1 "[(?c1, CallChecked), (?c2, CallStart)]" ?c2 ?cls ?s0] by (simp add: open0)
  have 3: "store_step ?cls (?s0, [(?c1, CallChecked), (?c2, CallChecked)]) (?s1, [(?c1, CallDone None), (?c2, CallChecked)])"
    using store_step.body[OF _ _ b1, of 0 "[(?c1, CallChecked), (?c2, CallChecked)]"] by simp
  have 4: "store_step ?cls (?s1, [(?c1, CallDone None), (?c2, CallChecked)]) (?s1, [(?c1, CallDone None), (?c2, CallDone (Some e))])"
    using store_step.body[OF _ _ e, of 1 "[(?c1, CallDone None), (?c2, CallChecked)]"] by simp
  have run: "(store_step ?cls)\<^sup>*\<^sup>* (start_calls cs) (?s1, [(?c1, CallDone None), (?c2, CallDone (Some e))])"
    using 1 2 3 4 by (meson rtranclp.rtrancl_refl rtranclp.rtrancl_into_rtrancl)
  have w: "won [(?c1, CallDone None), (?c2, CallDone (Some e))] = {0}"
    by (auto simp: won_def less_Suc_eq)
  show ?thesis
    using concurrent_writers[OF run] run w by blast
qed

end
