(* ===== verification/Middleware.thy ===== *)
theory Middleware
  imports Dispatcher Ids Complex_Main
begin

text \<open>
  The message middleware of \<open>src/middleware\<close>: the generic handler and its adapters, retry with
  dead letters, validation, panic recovery, idempotency, and the circuit breaker around a
  third-party breaker. A handler takes the context and the message and transforms the world; it
  returns nil (\<open>Ok ()\<close>), an error, or panics. The classification \<open>cls\<close>, the retryable test, the
  back-off computation, the breaker and the idempotency store are arguments; spans and log
  lines are not modelled, and the wait between two attempts is the argument \<open>wait\<close>, which tells
  whether the context was cancelled meanwhile.
\<close>

section \<open>Handlers and adapters: generic.go\<close>

type_synonym ('x, 'm, 'w) handler = "'x \<Rightarrow> 'm \<Rightarrow> 'w \<Rightarrow> 'w \<times> unit outcome"
type_synonym ('x, 'm, 'w) middleware = "('x, 'm, 'w) handler \<Rightarrow> ('x, 'm, 'w) handler"

datatype Kind = KindCommand | KindEvent | KindQuery

fun Kind_string :: "Kind \<Rightarrow> string" where
  "Kind_string KindCommand = ''command''"
| "Kind_string KindEvent = ''event''"
| "Kind_string KindQuery = ''query''"

record 'm MessageAdapter =
  ad_Kind :: Kind
  ad_ExtractType :: "'m \<Rightarrow> string"
  ad_ExtractID :: "('m \<Rightarrow> StreamID) option"

definition failingMiddleware :: "go_error \<Rightarrow> ('x, 'm, 'w) middleware" where
  "failingMiddleware err = (\<lambda>_ _ _ w. (w, Fail err))"

definition AsCommand :: "('x, 'm, 'w) middleware \<Rightarrow> ('x, 'm, 'w) middleware" where
  "AsCommand mw = (\<lambda>next. mw next)"

text \<open>
  A query handler also returns a value, or nil; \<open>None\<close> is a panic. \<open>AsQuery\<close> runs the
  middleware on an error-only handler that stores the value in a captured variable, here a
  second component of the world, and calls the query handler with the outer context and query.
\<close>

type_synonym ('x, 'q, 'v, 'w) query_call = "'x \<Rightarrow> 'q \<Rightarrow> 'w \<Rightarrow> 'w \<times> ('v option \<times> go_error option) option"

definition errOnly :: "('x, 'q, 'v, 'w) query_call \<Rightarrow> 'x \<Rightarrow> 'q \<Rightarrow> ('x, 'q, 'w \<times> 'v option) handler" where
  "errOnly next ctx q = (\<lambda>_ _ (w, result).
     case next ctx q w of
       (w', None) \<Rightarrow> ((w', result), Panic)
     | (w', Some (v, None)) \<Rightarrow> ((w', v), Ok ())
     | (w', Some (v, Some err)) \<Rightarrow> ((w', v), Fail err))"

definition AsQuery ::
  "('x, 'q, 'w \<times> 'v option) middleware \<Rightarrow> ('x, 'q, 'v, 'w) query_call \<Rightarrow> ('x, 'q, 'v, 'w) query_call" where
  "AsQuery middleware next ctx q w =
     (case middleware (errOnly next ctx q) ctx q (w, None) of
        ((w', result), Ok _) \<Rightarrow> (w', Some (result, None))
      | ((w', result), Fail err) \<Rightarrow> (w', Some (result, Some err))
      | ((w', result), Panic) \<Rightarrow> (w', None))"

section \<open>Errors: errors.go\<close>

definition ErrValidationFailed :: go_error where
  "ErrValidationFailed = ErrNew Rejection ''middleware.validation_failed''"

definition ErrRetryExhausted :: go_error where
  "ErrRetryExhausted = ErrNew Infrastructure ''middleware.retry_exhausted''"

definition ErrRetryCanceled :: go_error where
  "ErrRetryCanceled = ErrNew Infrastructure ''middleware.retry_canceled''"

definition ErrPanicRecovered :: go_error where
  "ErrPanicRecovered = ErrNew Corruption ''middleware.panic_recovered''"

definition ErrCircuitBreakerOpen :: go_error where
  "ErrCircuitBreakerOpen = ErrNew Infrastructure ''middleware.circuit_breaker_open''"

section \<open>Dead letters: deadletter.go\<close>

record DeadLetterEntry =
  dl_Kind :: Kind
  dl_Type :: string
  dl_StreamID :: StreamID
  dl_Error :: "go_error option"
  dl_ErrorCode :: string
  dl_ErrorFamily :: string
  dl_Attempts :: int
  dl_FailedAt :: instant

type_synonym MemoryDeadLetterStore = "DeadLetterEntry list"

definition NewMemoryDeadLetterStore :: MemoryDeadLetterStore where
  "NewMemoryDeadLetterStore = []"

definition DeadLetter_Handle :: "DeadLetterEntry \<Rightarrow> MemoryDeadLetterStore \<Rightarrow> MemoryDeadLetterStore" where
  "DeadLetter_Handle entry s = s @ [entry]"

definition DeadLetter_Entries :: "MemoryDeadLetterStore \<Rightarrow> DeadLetterEntry list" where
  "DeadLetter_Entries s = s"

definition DeadLetter_Count :: "MemoryDeadLetterStore \<Rightarrow> nat" where
  "DeadLetter_Count s = length s"

definition DeadLetter_Clear :: "MemoryDeadLetterStore \<Rightarrow> MemoryDeadLetterStore" where
  "DeadLetter_Clear s = take 0 s"

section \<open>Retry: middleware.go, retry.go\<close>

text \<open>A \<open>float64\<close> as far as the configuration check compares it.\<close>

datatype float64 = Num rat | PosInf | NegInf | NaN

fun float_le_one :: "float64 \<Rightarrow> bool" where
  "float_le_one (Num q) = (q \<le> 1)"
| "float_le_one PosInf = False"
| "float_le_one NegInf = True"
| "float_le_one NaN = False"

record ('x, 'w) RetryConfig =
  rc_MaxAttempts :: int
  rc_InitialDelay :: int
  rc_MaxDelay :: int
  rc_Multiplier :: float64
  rc_IsRetryable :: "go_error \<Rightarrow> bool"
  rc_OnDeadLetter :: "('x \<Rightarrow> DeadLetterEntry \<Rightarrow> 'w \<Rightarrow> 'w) option"

definition DefaultRetryConfig :: "(go_error \<Rightarrow> bool) \<Rightarrow> ('x, 'w) RetryConfig" where
  "DefaultRetryConfig IsRetryable =
     \<lparr>rc_MaxAttempts = 3, rc_InitialDelay = 100 * 10 ^ 6, rc_MaxDelay = 5 * 10 ^ 9,
      rc_Multiplier = Num 2, rc_IsRetryable = IsRetryable, rc_OnDeadLetter = None\<rparr>"

definition RetryConfig_Validate :: "('x, 'w) RetryConfig \<Rightarrow> go_error option" where
  "RetryConfig_Validate c =
     (if rc_MaxAttempts c < 1
      then Some (ErrWrap Rejection ''middleware.invalid_max_attempts'' ErrValidationFailed)
      else if rc_InitialDelay c \<le> 0
      then Some (ErrWrap Rejection ''middleware.invalid_initial_delay'' ErrValidationFailed)
      else if float_le_one (rc_Multiplier c)
      then Some (ErrWrap Rejection ''middleware.invalid_multiplier'' ErrValidationFailed)
      else None)"

text \<open>
  What the retry loop uses of its environment: the delay computation of \<open>go-retry\<close>, the wait for a
  delay, the context of an attempt, \<open>WithCause\<close> of \<open>go-error-family\<close> and the time.
\<close>

record ('x, 'w) retry_env =
  re_ComputeDelay :: "int \<Rightarrow> int \<Rightarrow> float64 \<Rightarrow> int \<Rightarrow> int outcome"
  re_wait :: "'x \<Rightarrow> int \<Rightarrow> 'w \<Rightarrow> 'w \<times> bool"
  re_attemptCtx :: "'x \<Rightarrow> int \<Rightarrow> 'x"
  re_WithCause :: "go_error \<Rightarrow> go_error \<Rightarrow> go_error"
  re_Now :: "'w \<Rightarrow> instant"

definition backoff :: "('x, 'w) retry_env \<Rightarrow> ('x, 'w) RetryConfig \<Rightarrow> int \<Rightarrow> int" where
  "backoff env config attempt =
     (case re_ComputeDelay env (rc_InitialDelay config) (rc_MaxDelay config) (rc_Multiplier config) attempt of
        Ok delay \<Rightarrow> delay
      | _ \<Rightarrow> rc_InitialDelay config)"

definition retry_exhausted ::
  "('x, 'w) retry_env \<Rightarrow> ('x, 'w) RetryConfig \<Rightarrow> DeadLetterEntry \<Rightarrow> 'x \<Rightarrow> go_error \<Rightarrow> 'w \<Rightarrow> 'w \<times> unit outcome" where
  "retry_exhausted env config entry ctx err w =
     ((case rc_OnDeadLetter config of
         None \<Rightarrow> w
       | Some handle \<Rightarrow>
           handle ctx (entry\<lparr>dl_Error := Some err, dl_Attempts := rc_MaxAttempts config,
                             dl_FailedAt := re_Now env w\<rparr>) w),
      Fail (re_WithCause env
        (ErrWrap Infrastructure ''middleware.retry_exhausted'' ErrRetryExhausted) err))"

text \<open>
  The loop over the attempts; \<open>left\<close> is the number of attempts that remain after this one, so
  \<open>left = 0\<close> is \<open>attempt == config.MaxAttempts\<close>.
\<close>

fun retry_loop ::
  "('x, 'w) retry_env \<Rightarrow> ('x, 'w) RetryConfig \<Rightarrow> DeadLetterEntry \<Rightarrow> ('x \<Rightarrow> 'w \<Rightarrow> 'w \<times> unit outcome) \<Rightarrow>
   'x \<Rightarrow> int \<Rightarrow> nat \<Rightarrow> 'w \<Rightarrow> 'w \<times> unit outcome" where
  "retry_loop env config entry fn ctx attempt left w =
     (case fn (re_attemptCtx env ctx attempt) w of
        (w1, Ok _) \<Rightarrow> (w1, Ok ())
      | (w1, Panic) \<Rightarrow> (w1, Panic)
      | (w1, Fail err) \<Rightarrow>
          if \<not> rc_IsRetryable config err then (w1, Fail err)
          else (case left of
                  0 \<Rightarrow> retry_exhausted env config entry ctx err w1
                | Suc left' \<Rightarrow>
                    (case re_wait env ctx (backoff env config attempt) w1 of
                       (w2, True) \<Rightarrow>
                         (w2, Fail (re_WithCause env
                            (ErrWrap Infrastructure ''middleware.retry_canceled'' ErrRetryCanceled) err))
                     | (w2, False) \<Rightarrow> retry_loop env config entry fn ctx (attempt + 1) left' w2)))"

declare retry_loop.simps [simp del]

definition retry_zero_entry :: "'m MessageAdapter \<Rightarrow> 'm \<Rightarrow> DeadLetterEntry" where
  "retry_zero_entry adapter msg =
     \<lparr>dl_Kind = ad_Kind adapter, dl_Type = ad_ExtractType adapter msg,
      dl_StreamID = (case ad_ExtractID adapter of None \<Rightarrow> [] | Some f \<Rightarrow> f msg),
      dl_Error = None, dl_ErrorCode = [], dl_ErrorFamily = [], dl_Attempts = 0, dl_FailedAt = 0\<rparr>"

text \<open>A validated configuration has at least one attempt, so the loop body runs.\<close>

definition NewRetry ::
  "('x, 'w) retry_env \<Rightarrow> 'm MessageAdapter \<Rightarrow> ('x, 'w) RetryConfig \<Rightarrow> ('x, 'm, 'w) middleware" where
  "NewRetry env adapter config =
     (case RetryConfig_Validate config of
        Some err \<Rightarrow> failingMiddleware err
      | None \<Rightarrow> (\<lambda>next ctx msg.
          retry_loop env config (retry_zero_entry adapter msg) (\<lambda>attemptCtx. next attemptCtx msg)
            ctx 1 (nat (rc_MaxAttempts config) - 1)))"

section \<open>Validation and recovery: validation.go, recovery.go\<close>

definition NewValidation ::
  "'m MessageAdapter \<Rightarrow> ('m \<Rightarrow> go_error option) \<Rightarrow> ('x, 'm, 'w) middleware" where
  "NewValidation adapter validate next ctx msg w =
     (case validate msg of
        Some err \<Rightarrow>
          (w, Fail (ErrWrap Rejection (''middleware.'' @ Kind_string (ad_Kind adapter) @ ''_validation'') err))
      | None \<Rightarrow> next ctx msg w)"

definition panicError :: go_error where
  "panicError = ErrWrap Corruption ''middleware.panic_detail'' ErrPanicRecovered"

definition handleRecovery :: go_error where
  "handleRecovery = ErrWrap Corruption ''middleware.recovery'' panicError"

definition NewRecovery :: "('x, 'm, 'w) middleware" where
  "NewRecovery next ctx msg w =
     (case next ctx msg w of
        (w', Panic) \<Rightarrow> (w', Fail handleRecovery)
      | (w', r) \<Rightarrow> (w', r))"

section \<open>Idempotency: idempotency.go\<close>

text \<open>The store of \<open>go-idempotency\<close> acts on the world; its duplicate sentinel is an argument.\<close>

definition NewIdempotency ::
  "go_error \<Rightarrow> 'm MessageAdapter \<Rightarrow> ('x \<Rightarrow> string \<Rightarrow> int \<Rightarrow> 'w \<Rightarrow> 'w \<times> go_error option) \<Rightarrow> int \<Rightarrow>
   ('m \<Rightarrow> string) \<Rightarrow> ('x, 'm, 'w) middleware" where
  "NewIdempotency ErrDuplicate adapter CheckAndRecord ttl keyExtractor next ctx msg w =
     (let key = keyExtractor msg in
      if key = [] then next ctx msg w
      else case CheckAndRecord ctx key ttl w of
        (w', Some err) \<Rightarrow>
          if errors_Is err ErrDuplicate then (w', Fail err)
          else (w', Fail (ErrWrap Transient
                 (''middleware.'' @ Kind_string (ad_Kind adapter) @ ''_idempotency'') err))
      | (w', None) \<Rightarrow> next ctx msg w')"

section \<open>Circuit breaker: circuit_breaker.go\<close>

record CircuitBreakerConfig =
  cb_FailureThreshold :: int
  cb_SuccessThreshold :: int
  cb_Timeout :: int
  cb_IsFailure :: "(go_error \<Rightarrow> bool) option"

definition DefaultCircuitBreakerConfig :: "(go_error \<Rightarrow> bool) \<Rightarrow> CircuitBreakerConfig" where
  "DefaultCircuitBreakerConfig IsRetryable =
     \<lparr>cb_FailureThreshold = 5, cb_SuccessThreshold = 3, cb_Timeout = 30 * 10 ^ 9,
      cb_IsFailure = Some IsRetryable\<rparr>"

definition CircuitBreakerConfig_Validate :: "CircuitBreakerConfig \<Rightarrow> go_error option" where
  "CircuitBreakerConfig_Validate c =
     (if cb_FailureThreshold c < 1
      then Some (ErrWrap Rejection ''middleware.cb_invalid_failure_threshold'' ErrValidationFailed)
      else if cb_SuccessThreshold c < 1
      then Some (ErrWrap Rejection ''middleware.cb_invalid_success_threshold'' ErrValidationFailed)
      else if cb_Timeout c \<le> 0
      then Some (ErrWrap Rejection ''middleware.cb_invalid_timeout'' ErrValidationFailed)
      else None)"

text \<open>The operations of the third-party breaker, on the world that holds its state.\<close>

record 'w breaker_ops =
  bo_TryAcquirePermit :: "'w \<Rightarrow> 'w \<times> bool"
  bo_RecordSuccess :: "'w \<Rightarrow> 'w"
  bo_RecordError :: "go_error \<Rightarrow> 'w \<Rightarrow> 'w"

definition breaker_execute ::
  "(go_error \<Rightarrow> family) \<Rightarrow> (go_error \<Rightarrow> bool) \<Rightarrow> 'w breaker_ops \<Rightarrow> CircuitBreakerConfig \<Rightarrow> string \<Rightarrow>
   ('w \<Rightarrow> 'w \<times> unit outcome) \<Rightarrow> 'w \<Rightarrow> 'w \<times> unit outcome" where
  "breaker_execute cls IsRetryable b config opName fn w =
     (case bo_TryAcquirePermit b w of
        (w1, False) \<Rightarrow> (w1, Fail (ErrWrap Transient ''middleware.circuit_open'' ErrCircuitBreakerOpen))
      | (w1, True) \<Rightarrow>
          (case fn w1 of
             (w2, Panic) \<Rightarrow> (w2, Panic)
           | (w2, Ok _) \<Rightarrow> (bo_RecordSuccess b w2, Ok ())
           | (w2, Fail err) \<Rightarrow>
               let isFailure = (case cb_IsFailure config of None \<Rightarrow> IsRetryable | Some f \<Rightarrow> f) in
               ((if isFailure err then bo_RecordError b err w2 else bo_RecordSuccess b w2),
                Fail (ErrWrap (cls err) opName err))))"

definition NewCircuitBreaker ::
  "(go_error \<Rightarrow> family) \<Rightarrow> (go_error \<Rightarrow> bool) \<Rightarrow> 'w breaker_ops \<Rightarrow> 'm MessageAdapter \<Rightarrow> CircuitBreakerConfig \<Rightarrow>
   ('x, 'm, 'w) middleware" where
  "NewCircuitBreaker cls IsRetryable b adapter config =
     (case CircuitBreakerConfig_Validate config of
        Some err \<Rightarrow> failingMiddleware err
      | None \<Rightarrow> (\<lambda>next ctx msg.
          breaker_execute cls IsRetryable b config (ad_ExtractType adapter msg) (next ctx msg)))"

section \<open>What the retry loop does\<close>

text \<open>
  The course of an unlimited retry: the world before attempt \<open>k + 1\<close> when all earlier attempts
  failed and were waited for, the result of the attempt, and whether the wait after it was
  cancelled.
\<close>

definition attempt_delay :: "('x, 'w) retry_env \<Rightarrow> ('x, 'w) RetryConfig \<Rightarrow> int \<Rightarrow> int" where
  "attempt_delay env config a =
     (case re_ComputeDelay env (rc_InitialDelay config) (rc_MaxDelay config) (rc_Multiplier config) a of
        Ok delay \<Rightarrow> delay
      | Fail _ \<Rightarrow> rc_InitialDelay config
      | Panic \<Rightarrow> rc_InitialDelay config)"

lemma backoff_attempt_delay: "backoff env config a = attempt_delay env config a"
  by (simp add: backoff_def attempt_delay_def split: outcome.split)

fun attempt_world ::
  "('x, 'w) retry_env \<Rightarrow> ('x, 'w) RetryConfig \<Rightarrow> ('x \<Rightarrow> 'w \<Rightarrow> 'w \<times> unit outcome) \<Rightarrow> 'x \<Rightarrow> 'w \<Rightarrow> nat \<Rightarrow> 'w" where
  "attempt_world env config fn ctx w 0 = w"
| "attempt_world env config fn ctx w (Suc k) =
     fst (re_wait env ctx (attempt_delay env config (int k + 1))
       (fst (fn (re_attemptCtx env ctx (int k + 1)) (attempt_world env config fn ctx w k))))"

definition attempt_result ::
  "('x, 'w) retry_env \<Rightarrow> ('x, 'w) RetryConfig \<Rightarrow> ('x \<Rightarrow> 'w \<Rightarrow> 'w \<times> unit outcome) \<Rightarrow> 'x \<Rightarrow> 'w \<Rightarrow> nat \<Rightarrow>
   'w \<times> unit outcome" where
  "attempt_result env config fn ctx w k =
     fn (re_attemptCtx env ctx (int k + 1)) (attempt_world env config fn ctx w k)"

definition attempt_wait ::
  "('x, 'w) retry_env \<Rightarrow> ('x, 'w) RetryConfig \<Rightarrow> ('x \<Rightarrow> 'w \<Rightarrow> 'w \<times> unit outcome) \<Rightarrow> 'x \<Rightarrow> 'w \<Rightarrow> nat \<Rightarrow>
   'w \<times> bool" where
  "attempt_wait env config fn ctx w k =
     re_wait env ctx (attempt_delay env config (int k + 1)) (fst (attempt_result env config fn ctx w k))"

text \<open>Attempt \<open>k + 1\<close> failed with a retryable error.\<close>

definition attempt_failed ::
  "('x, 'w) retry_env \<Rightarrow> ('x, 'w) RetryConfig \<Rightarrow> ('x \<Rightarrow> 'w \<Rightarrow> 'w \<times> unit outcome) \<Rightarrow> 'x \<Rightarrow> 'w \<Rightarrow> nat \<Rightarrow>
   go_error \<Rightarrow> bool" where
  "attempt_failed env config fn ctx w k err \<longleftrightarrow>
     snd (attempt_result env config fn ctx w k) = Fail err \<and> rc_IsRetryable config err"

text \<open>The last attempt: it did not fail, is not retryable, is the last one allowed, or its wait is cancelled.\<close>

definition attempt_last ::
  "('x, 'w) retry_env \<Rightarrow> ('x, 'w) RetryConfig \<Rightarrow> ('x \<Rightarrow> 'w \<Rightarrow> 'w \<times> unit outcome) \<Rightarrow> 'x \<Rightarrow> 'w \<Rightarrow> nat \<Rightarrow> bool" where
  "attempt_last env config fn ctx w k \<longleftrightarrow>
     (\<nexists>err. attempt_failed env config fn ctx w k err) \<or> int k + 1 = rc_MaxAttempts config \<or>
     snd (attempt_wait env config fn ctx w k)"

definition attempt_verdict ::
  "('x, 'w) retry_env \<Rightarrow> ('x, 'w) RetryConfig \<Rightarrow> DeadLetterEntry \<Rightarrow> ('x \<Rightarrow> 'w \<Rightarrow> 'w \<times> unit outcome) \<Rightarrow> 'x \<Rightarrow>
   'w \<Rightarrow> nat \<Rightarrow> 'w \<times> unit outcome" where
  "attempt_verdict env config entry fn ctx w k =
     (case attempt_result env config fn ctx w k of
        (w1, Fail err) \<Rightarrow>
          if \<not> rc_IsRetryable config err then (w1, Fail err)
          else if int k + 1 = rc_MaxAttempts config
          then (case rc_OnDeadLetter config of
                  None \<Rightarrow> w1
                | Some handle \<Rightarrow> handle ctx (entry\<lparr>dl_Error := Some err, dl_Attempts := rc_MaxAttempts config,
                    dl_FailedAt := re_Now env w1\<rparr>) w1,
                Fail (re_WithCause env (ErrWrap Infrastructure ''middleware.retry_exhausted'' ErrRetryExhausted) err))
          else (fst (attempt_wait env config fn ctx w k),
                Fail (re_WithCause env
                  (ErrWrap Infrastructure ''middleware.retry_canceled'' ErrRetryCanceled) err))
      | (w1, r) \<Rightarrow> (w1, r))"

lemma attempt_world_Suc:
  "attempt_world env config fn ctx w (Suc k) = fst (attempt_wait env config fn ctx w k)"
  by (simp add: attempt_wait_def attempt_result_def)

lemma retry_loop_step:
  assumes "int k + 1 + int left = rc_MaxAttempts config"
  shows "retry_loop env config entry fn ctx (int k + 1) left (attempt_world env config fn ctx w k) =
    (if attempt_last env config fn ctx w k then attempt_verdict env config entry fn ctx w k
     else retry_loop env config entry fn ctx (int (Suc k) + 1) (left - 1)
            (attempt_world env config fn ctx w (Suc k)))"
proof -
  define a where "a = int k + 1"
  obtain w1 r where res: "fn (re_attemptCtx env ctx a) (attempt_world env config fn ctx w k) = (w1, r)"
    by fastforce
  then have result: "attempt_result env config fn ctx w k = (w1, r)"
    by (simp add: attempt_result_def a_def)
  obtain w2 b where wait: "re_wait env ctx (attempt_delay env config a) w1 = (w2, b)" by fastforce
  then have waited: "attempt_wait env config fn ctx w k = (w2, b)"
    by (simp add: attempt_wait_def result a_def)
  have last: "a = rc_MaxAttempts config \<longleftrightarrow> left = 0"
    using assms by (simp add: a_def) linarith
  have suc: "int (Suc k) + 1 = a + 1" by (simp add: a_def)
  show ?thesis
    unfolding suc attempt_world_Suc waited attempt_last_def attempt_failed_def attempt_verdict_def result
      a_def[symmetric] last
    by (subst retry_loop.simps, unfold res backoff_attempt_delay retry_exhausted_def)
      (auto simp: wait split: outcome.split nat.split)
qed

text \<open>The loop makes attempts up to the first last one and returns its verdict.\<close>

lemma retry_loop_verdict:
  assumes "int k + 1 + int left = rc_MaxAttempts config"
  shows "\<exists>n \<ge> k. int n < rc_MaxAttempts config \<and> attempt_last env config fn ctx w n \<and>
    (\<forall>j. k \<le> j \<and> j < n \<longrightarrow> \<not> attempt_last env config fn ctx w j) \<and>
    retry_loop env config entry fn ctx (int k + 1) left (attempt_world env config fn ctx w k) =
      attempt_verdict env config entry fn ctx w n"
  using assms
proof (induction left arbitrary: k)
  case 0
  then have "attempt_last env config fn ctx w k" by (simp add: attempt_last_def)
  with 0 show ?case
    using retry_loop_step[OF 0, of env entry fn ctx w] by (intro exI[of _ k] conjI) auto
next
  case (Suc left)
  show ?case
  proof (cases "attempt_last env config fn ctx w k")
    case True
    with Suc.prems show ?thesis
      using retry_loop_step[OF Suc.prems, of env entry fn ctx w] by (intro exI[of _ k] conjI) auto
  next
    case False
    from Suc.prems have pre: "int (Suc k) + 1 + int left = rc_MaxAttempts config" by simp
    from Suc.IH[OF pre] obtain n where n: "Suc k \<le> n" "int n < rc_MaxAttempts config"
      "attempt_last env config fn ctx w n"
      "\<forall>j. Suc k \<le> j \<and> j < n \<longrightarrow> \<not> attempt_last env config fn ctx w j"
      "retry_loop env config entry fn ctx (int (Suc k) + 1) left (attempt_world env config fn ctx w (Suc k)) =
        attempt_verdict env config entry fn ctx w n" by blast
    have "\<not> attempt_last env config fn ctx w j" if "k \<le> j \<and> j < n" for j
      using that n(4) False by (cases "j = k") auto
    with n False show ?thesis
      using retry_loop_step[OF Suc.prems, of env entry fn ctx w]
      by (intro exI[of _ n] conjI) (auto simp del: of_nat_Suc)
  qed
qed

section \<open>Idempotency over a sequence of messages\<close>

fun handle_all :: "('x, 'm, 'w) handler \<Rightarrow> 'x \<Rightarrow> 'm list \<Rightarrow> 'w \<Rightarrow> 'w \<times> unit outcome list" where
  "handle_all h ctx [] w = (w, [])"
| "handle_all h ctx (m # ms) w =
     (case h ctx m w of (w1, r) \<Rightarrow> case handle_all h ctx ms w1 of (w2, rs) \<Rightarrow> (w2, r # rs))"

text \<open>
  The messages the handler is to see: those without a key and the first one of every key that
  is not recorded yet.
\<close>

fun firsts :: "('m \<Rightarrow> string) \<Rightarrow> string set \<Rightarrow> 'm list \<Rightarrow> 'm list" where
  "firsts key seen [] = []"
| "firsts key seen (m # ms) =
     (if key m = [] then m # firsts key seen ms
      else if key m \<in> seen then firsts key seen ms
      else m # firsts key (insert (key m) seen) ms)"

text \<open>
  The documented behaviour of the idempotency store on a world in which \<open>seen\<close> reads the recorded
  keys and \<open>calls\<close> the messages the handler was called with: a recorded key is a duplicate, a new
  key is recorded, and the store and the handler do not touch each other's part.
\<close>

definition records_once ::
  "go_error \<Rightarrow> ('x \<Rightarrow> string \<Rightarrow> int \<Rightarrow> 'w \<Rightarrow> 'w \<times> go_error option) \<Rightarrow> ('w \<Rightarrow> string set) \<Rightarrow> ('w \<Rightarrow> 'm list) \<Rightarrow> bool" where
  "records_once dup car seen calls \<longleftrightarrow>
     (\<forall>ctx k ttl w.
        (k \<in> seen w \<longrightarrow> (\<exists>err. car ctx k ttl w = (w, Some err) \<and> errors_Is err dup)) \<and>
        (k \<notin> seen w \<longrightarrow> (\<exists>w'. car ctx k ttl w = (w', None) \<and> seen w' = insert k (seen w) \<and> calls w' = calls w)))"

definition logs_call :: "('x, 'm, 'w) handler \<Rightarrow> ('w \<Rightarrow> string set) \<Rightarrow> ('w \<Rightarrow> 'm list) \<Rightarrow> bool" where
  "logs_call h seen calls \<longleftrightarrow>
     (\<forall>ctx m w. seen (fst (h ctx m w)) = seen w \<and> calls (fst (h ctx m w)) = calls w @ [m])"

lemma records_once_known:
  assumes "records_once dup car seen calls" and "k \<in> seen w"
  obtains err where "car ctx k ttl w = (w, Some err)" and "errors_Is err dup"
  using assms unfolding records_once_def by metis

lemma records_once_new:
  assumes "records_once dup car seen calls" and "k \<notin> seen w"
  obtains w' where "car ctx k ttl w = (w', None)" and "seen w' = insert k (seen w)" and "calls w' = calls w"
  using assms unfolding records_once_def by metis

lemma NewIdempotency_step:
  assumes law: "records_once dup car seen calls" and h: "logs_call h seen calls"
  shows "calls (fst (NewIdempotency dup ad car ttl key h ctx m w)) =
      calls w @ (if key m \<noteq> [] \<and> key m \<in> seen w then [] else [m])"
    and "seen (fst (NewIdempotency dup ad car ttl key h ctx m w)) =
      (if key m = [] then seen w else insert (key m) (seen w))"
proof -
  have hc: "seen (fst (h ctx m w)) = seen w" "calls (fst (h ctx m w)) = calls w @ [m]" for w
    using h unfolding logs_call_def by auto
  consider "key m = []" | "key m \<noteq> []" "key m \<in> seen w" | "key m \<noteq> []" "key m \<notin> seen w" by blast
  then have "calls (fst (NewIdempotency dup ad car ttl key h ctx m w)) =
      calls w @ (if key m \<noteq> [] \<and> key m \<in> seen w then [] else [m]) \<and>
    seen (fst (NewIdempotency dup ad car ttl key h ctx m w)) =
      (if key m = [] then seen w else insert (key m) (seen w))"
  proof cases
    case 1
    then show ?thesis by (simp add: NewIdempotency_def hc)
  next
    case 2
    obtain err where "car ctx (key m) ttl w = (w, Some err)" "errors_Is err dup"
      by (rule records_once_known[OF law 2(2)])
    with 2 show ?thesis by (simp add: NewIdempotency_def insert_absorb)
  next
    case 3
    obtain w' where "car ctx (key m) ttl w = (w', None)" "seen w' = insert (key m) (seen w)" "calls w' = calls w"
      by (rule records_once_new[OF law 3(2)])
    with 3 show ?thesis by (simp add: NewIdempotency_def hc)
  qed
  then show "calls (fst (NewIdempotency dup ad car ttl key h ctx m w)) =
      calls w @ (if key m \<noteq> [] \<and> key m \<in> seen w then [] else [m])"
    and "seen (fst (NewIdempotency dup ad car ttl key h ctx m w)) =
      (if key m = [] then seen w else insert (key m) (seen w))" by simp_all
qed

lemma handle_all_firsts:
  assumes "records_once dup car seen calls" and "logs_call h seen calls"
  shows "calls (fst (handle_all (NewIdempotency dup ad car ttl key h) ctx ms w)) =
    calls w @ firsts key (seen w) ms"
proof (induction ms arbitrary: w)
  case (Cons m ms)
  note step = NewIdempotency_step[OF assms, of ad ttl key ctx m w]
  obtain w1 r where "NewIdempotency dup ad car ttl key h ctx m w = (w1, r)" by fastforce
  with step Cons.IH[of w1] show ?case
    by (auto simp: insert_absorb split: prod.splits)
qed simp

section \<open>Recovery\<close>

lemma NewRecovery_no_panic: "snd (NewRecovery h ctx msg w) \<noteq> Panic"
  by (auto simp: NewRecovery_def split: prod.split outcome.split)

text \<open>The middleware added first is outermost: recovery there catches every panic below it.\<close>

lemma recovery_outermost:
  "mc_middleware c = NewRecovery # ms \<Longrightarrow> snd (Chain_Apply c h (\<lambda>m. m) ctx msg w) \<noteq> Panic"
  by (simp add: Chain_Apply_foldr NewRecovery_no_panic)

text \<open>A query keeps its value and error through a middleware that only passes on.\<close>

lemma AsQuery_pass: "AsQuery (\<lambda>next. next) next ctx q w = next ctx q w"
  by (auto simp: AsQuery_def errOnly_def split: prod.split option.split)

section \<open>Properties\<close>

text \<open>
  C15. Retry: a middleware built from a valid configuration makes attempts, waiting between them,
  up to and including the first attempt that succeeds, panics, fails with an error that is not
  retryable, is the last one allowed, or whose wait is cancelled; there is such an attempt among
  the allowed ones. It returns that attempt's result; when the attempts are used up it hands one dead letter, filled with
  the kind, type and stream of the message, the last error, the number of attempts and the time, to
  the configured handler and returns the exhausted error, and when the wait was cancelled the
  cancelled error. An invalid configuration fails every message with a validation error, without
  calling the handler.
\<close>

theorem retry_exact:
  fixes env :: "('x, 'w) retry_env" and msg :: 'm and adapter :: "'m MessageAdapter"
  defines "fn h \<equiv> (\<lambda>c. h c msg)"
  defines "letter \<equiv> \<lparr>dl_Kind = ad_Kind adapter, dl_Type = ad_ExtractType adapter msg,
      dl_StreamID = (case ad_ExtractID adapter of None \<Rightarrow> [] | Some f \<Rightarrow> f msg),
      dl_Error = None, dl_ErrorCode = [], dl_ErrorFamily = [], dl_Attempts = 0, dl_FailedAt = 0\<rparr>"
  shows "if 1 \<le> rc_MaxAttempts config \<and> 0 < rc_InitialDelay config \<and> \<not> float_le_one (rc_Multiplier config)
   then \<exists>n. int n < rc_MaxAttempts config \<and> attempt_last env config (fn h) ctx w n \<and>
        (\<forall>j < n. \<not> attempt_last env config (fn h) ctx w j) \<and>
        NewRetry env adapter config h ctx msg w = attempt_verdict env config letter (fn h) ctx w n
   else \<exists>code. NewRetry env adapter config h ctx msg w = (w, Fail (ErrWrap Rejection code ErrValidationFailed)) \<and>
        code = (if rc_MaxAttempts config < 1 then ''middleware.invalid_max_attempts''
                else if rc_InitialDelay config \<le> 0 then ''middleware.invalid_initial_delay''
                else ''middleware.invalid_multiplier'')"
proof (cases "RetryConfig_Validate config")
  case None
  then have valid: "1 \<le> rc_MaxAttempts config \<and> 0 < rc_InitialDelay config \<and> \<not> float_le_one (rc_Multiplier config)"
    by (auto simp: RetryConfig_Validate_def split: if_splits)
  then have "int 0 + 1 + int (nat (rc_MaxAttempts config) - 1) = rc_MaxAttempts config" by auto
  from retry_loop_verdict[OF this, of env "fn h" ctx w "retry_zero_entry adapter msg"] None valid
  show ?thesis
    by (auto simp: NewRetry_def fn_def letter_def retry_zero_entry_def)
next
  case (Some err)
  then show ?thesis
    by (auto simp: NewRetry_def failingMiddleware_def RetryConfig_Validate_def split: if_splits)
qed

text \<open>
  The world of the examples: a script of handler results still to come, the number of handler
  calls, the recorded keys and the dead letters.
\<close>

record script_world =
  sw_script :: "unit outcome list"
  sw_calls :: "string list"
  sw_seen :: "string set"
  sw_dead :: "DeadLetterEntry list"

definition script_handler :: "(unit, string, script_world) handler" where
  "script_handler ctx m w =
     (case sw_script w of
        [] \<Rightarrow> (w\<lparr>sw_calls := sw_calls w @ [m]\<rparr>, Ok ())
      | r # rs \<Rightarrow> (w\<lparr>sw_script := rs, sw_calls := sw_calls w @ [m]\<rparr>, r))"

definition script_env :: "(unit, script_world) retry_env" where
  "script_env = \<lparr>re_ComputeDelay = (\<lambda>i m f a. Ok i), re_wait = (\<lambda>ctx d w. (w, False)),
     re_attemptCtx = (\<lambda>ctx a. ctx), re_WithCause = (\<lambda>e c. e), re_Now = (\<lambda>w. 0)\<rparr>"

definition script_config :: "(unit, script_world) RetryConfig" where
  "script_config = (DefaultRetryConfig (\<lambda>e. e = ErrExt ''busy''))
     \<lparr>rc_OnDeadLetter := Some (\<lambda>ctx entry w. w\<lparr>sw_dead := DeadLetter_Handle entry (sw_dead w)\<rparr>)\<rparr>"

definition script_adapter :: "string MessageAdapter" where
  "script_adapter = \<lparr>ad_Kind = KindCommand, ad_ExtractType = id, ad_ExtractID = None\<rparr>"

definition script_start :: "unit outcome list \<Rightarrow> script_world" where
  "script_start rs = \<lparr>sw_script = rs, sw_calls = [], sw_seen = {}, sw_dead = []\<rparr>"

lemma script_config_valid: "RetryConfig_Validate script_config = None"
  by (simp add: RetryConfig_Validate_def script_config_def DefaultRetryConfig_def)

theorem retry_exact_witness:
  "\<exists>n. int n < 3 \<and>
     (let w = script_start (replicate 3 (Fail (ErrExt ''busy''))) in
      NewRetry script_env script_adapter script_config script_handler () ''m'' w =
        attempt_verdict script_env script_config
          \<lparr>dl_Kind = KindCommand, dl_Type = ''m'', dl_StreamID = [], dl_Error = None, dl_ErrorCode = [],
           dl_ErrorFamily = [], dl_Attempts = 0, dl_FailedAt = 0\<rparr>
          (\<lambda>c. script_handler c ''m'') () w n \<and>
      (case NewRetry script_env script_adapter script_config script_handler () ''m'' w of (w', r) \<Rightarrow>
         sw_calls w' = replicate 3 ''m'' \<and>
         sw_dead w' = [\<lparr>dl_Kind = KindCommand, dl_Type = ''m'', dl_StreamID = [],
           dl_Error = Some (ErrExt ''busy''), dl_ErrorCode = [], dl_ErrorFamily = [], dl_Attempts = 3, dl_FailedAt = 0\<rparr>] \<and>
         r = Fail (ErrWrap Infrastructure ''middleware.retry_exhausted'' ErrRetryExhausted)))"
proof -
  let ?w = "script_start (replicate 3 (Fail (ErrExt ''busy'')))"
  have run: "case NewRetry script_env script_adapter script_config script_handler () ''m'' ?w of (w', r) \<Rightarrow>
         sw_calls w' = replicate 3 ''m'' \<and>
         sw_dead w' = [\<lparr>dl_Kind = KindCommand, dl_Type = ''m'', dl_StreamID = [],
           dl_Error = Some (ErrExt ''busy''), dl_ErrorCode = [], dl_ErrorFamily = [], dl_Attempts = 3, dl_FailedAt = 0\<rparr>] \<and>
         r = Fail (ErrWrap Infrastructure ''middleware.retry_exhausted'' ErrRetryExhausted)"
    by code_simp
  have config: "rc_MaxAttempts script_config = 3" "0 < rc_InitialDelay script_config" "\<not> float_le_one (rc_Multiplier script_config)"
    by (simp_all add: script_config_def DefaultRetryConfig_def)
  from retry_exact[of script_config script_env script_handler "''m''" "()" ?w script_adapter] config
  obtain n where "int n < 3" "NewRetry script_env script_adapter script_config script_handler () ''m'' ?w =
      attempt_verdict script_env script_config
        \<lparr>dl_Kind = KindCommand, dl_Type = ''m'', dl_StreamID = [], dl_Error = None, dl_ErrorCode = [],
         dl_ErrorFamily = [], dl_Attempts = 0, dl_FailedAt = 0\<rparr> (\<lambda>c. script_handler c ''m'') () ?w n"
    by (auto simp: script_adapter_def)
  with run show ?thesis
    unfolding Let_def by (intro exI [of _ n] conjI)
qed

text \<open>
  Idempotency: over any sequence of messages the handler is called with exactly the messages
  that carry no key and the first message of every key not recorded before, in order, whatever
  the handler returns for them; a message with a recorded key is answered with the duplicate
  error and changes nothing.
\<close>

theorem idempotency_once:
  assumes "records_once dup car seen calls" and "logs_call h seen calls"
  shows "calls (fst (handle_all (NewIdempotency dup ad car ttl key h) ctx ms w)) =
           calls w @ firsts key (seen w) ms \<and>
         (key m \<noteq> [] \<and> key m \<in> seen w \<longrightarrow>
           (\<exists>err. NewIdempotency dup ad car ttl key h ctx m w = (w, Fail err) \<and> errors_Is err dup))"
proof (intro conjI impI)
  show "calls (fst (handle_all (NewIdempotency dup ad car ttl key h) ctx ms w)) =
      calls w @ firsts key (seen w) ms"
    by (rule handle_all_firsts[OF assms])
next
  assume m: "key m \<noteq> [] \<and> key m \<in> seen w"
  obtain err where "car ctx (key m) ttl w = (w, Some err)" "errors_Is err dup"
    by (rule records_once_known[OF assms(1)]) (use m in auto)
  with m show "\<exists>err. NewIdempotency dup ad car ttl key h ctx m w = (w, Fail err) \<and> errors_Is err dup"
    by (intro exI[of _ err]) (simp add: NewIdempotency_def)
qed

definition script_store :: "unit \<Rightarrow> string \<Rightarrow> int \<Rightarrow> script_world \<Rightarrow> script_world \<times> go_error option" where
  "script_store ctx k ttl w =
     (if k \<in> sw_seen w then (w, Some (ErrExt ''duplicate''))
      else (w\<lparr>sw_seen := insert k (sw_seen w)\<rparr>, None))"

lemma script_store_law: "records_once (ErrExt ''duplicate'') script_store sw_seen sw_calls"
  by (simp add: records_once_def script_store_def)

lemma script_handler_logs: "logs_call script_handler sw_seen sw_calls"
  by (simp add: logs_call_def script_handler_def split: list.split)

theorem idempotency_once_witness:
  "sw_calls (fst (handle_all
      (NewIdempotency (ErrExt ''duplicate'') script_adapter script_store 60 id script_handler) ()
      [''a'', ''b'', ''a''] (script_start [Fail (ErrExt ''busy'')]))) = [''a'', ''b'']"
  using idempotency_once[OF script_store_law script_handler_logs, of script_adapter 60 id "()"
      "[''a'', ''b'', ''a'']" "script_start [Fail (ErrExt ''busy'')]" "''a''"]
  by (simp add: script_start_def)

text \<open>The wait between attempts: never cancelled, and it leaves keys and calls alone.\<close>

definition quiet_wait :: "('x, 'w) retry_env \<Rightarrow> ('w \<Rightarrow> string set) \<Rightarrow> ('w \<Rightarrow> 'm list) \<Rightarrow> bool" where
  "quiet_wait env seen calls \<longleftrightarrow>
     (\<forall>ctx d w. \<not> snd (re_wait env ctx d w) \<and> seen (fst (re_wait env ctx d w)) = seen w \<and>
        calls (fst (re_wait env ctx d w)) = calls w)"

text \<open>
  Composition of the two: when the retry middleware encloses the idempotency middleware, a
  message with a new key whose handler fails with a retryable error is not retried: the second
  attempt finds the key recorded by the first and the whole call returns the duplicate error
  after exactly one call of the handler.
\<close>

theorem retry_around_idempotency:
  fixes env :: "('x, 'w) retry_env" and h :: "('x, 'm, 'w) handler"
  assumes "RetryConfig_Validate config = None" and "2 \<le> rc_MaxAttempts config"
    and law: "records_once dup car seen calls" and h: "logs_call h seen calls"
    and wait: "quiet_wait env seen calls"
    and dup: "\<forall>err. errors_Is err dup \<longrightarrow> \<not> rc_IsRetryable config err"
    and key: "key msg \<noteq> []" "key msg \<notin> seen w"
    and fails: "\<forall>c w'. \<exists>e. snd (h c msg w') = Fail e \<and> rc_IsRetryable config e"
  shows "\<exists>w' err. NewRetry env ad config (NewIdempotency dup ad car ttl key h) ctx msg w = (w', Fail err) \<and>
           errors_Is err dup \<and> calls w' = calls w @ [msg]"
proof -
  let ?idem = "NewIdempotency dup ad car ttl key h"
  let ?loop = "retry_loop env config (retry_zero_entry ad msg) (\<lambda>c. ?idem c msg) ctx"
  obtain left where left: "nat (rc_MaxAttempts config) - 1 = Suc left"
    using assms(2) by (cases "nat (rc_MaxAttempts config) - 1") auto
  obtain w1 where rec: "car (re_attemptCtx env ctx 1) (key msg) ttl w = (w1, None)"
    "seen w1 = insert (key msg) (seen w)" "calls w1 = calls w"
    by (rule records_once_new[OF law key(2)])
  obtain w2 e where run: "h (re_attemptCtx env ctx 1) msg w1 = (w2, Fail e)" "rc_IsRetryable config e"
    using fails by (metis prod.collapse)
  have w2: "seen w2 = insert (key msg) (seen w)" "calls w2 = calls w @ [msg]"
    using h run(1) rec unfolding logs_call_def by (metis fst_conv)+
  have first: "?idem (re_attemptCtx env ctx 1) msg w = (w2, Fail e)"
    using key(1) rec(1) run(1) by (simp add: NewIdempotency_def)
  obtain w3 where w3: "re_wait env ctx (backoff env config 1) w2 = (w3, False)"
    "seen w3 = insert (key msg) (seen w)" "calls w3 = calls w @ [msg]"
    using wait w2 unfolding quiet_wait_def by (metis prod.collapse)
  obtain err where err: "car (re_attemptCtx env ctx 2) (key msg) ttl w3 = (w3, Some err)" "errors_Is err dup"
    by (rule records_once_known[OF law, of "key msg" w3]) (use w3 in auto)
  have second: "?idem (re_attemptCtx env ctx 2) msg w3 = (w3, Fail err)"
    using key(1) err by (simp add: NewIdempotency_def)
  have "?loop 2 left w3 = (w3, Fail err)"
    using second err(2) dup by (subst retry_loop.simps) simp
  then have "?loop 1 (Suc left) w = (w3, Fail err)"
    using first run(2) w3(1) by (subst retry_loop.simps) simp
  then show ?thesis
    using assms(1) left err(2) w3(3) by (simp add: NewRetry_def)
qed

theorem retry_around_idempotency_witness:
  "\<exists>w' err. NewRetry script_env script_adapter script_config
       (NewIdempotency (ErrExt ''duplicate'') script_adapter script_store 60 id
         (\<lambda>c m w. (fst (script_handler c m w), Fail (ErrExt ''busy'')))) () ''a'' (script_start []) = (w', Fail err) \<and>
     errors_Is err (ErrExt ''duplicate'') \<and> sw_calls w' = [''a'']"
proof -
  let ?h = "\<lambda>c m w. (fst (script_handler c m w), Fail (ErrExt ''busy''))"
  have two: "2 \<le> rc_MaxAttempts script_config"
    by (simp add: script_config_def DefaultRetryConfig_def)
  have logs: "logs_call ?h sw_seen sw_calls"
    using script_handler_logs by (simp add: logs_call_def)
  have wait: "quiet_wait script_env sw_seen sw_calls"
    by (simp add: quiet_wait_def script_env_def)
  have busy: "rc_IsRetryable script_config e \<longleftrightarrow> e = ErrExt ''busy''" for e
    by (simp add: script_config_def DefaultRetryConfig_def)
  have dup: "\<forall>err. errors_Is err (ErrExt ''duplicate'') \<longrightarrow> \<not> rc_IsRetryable script_config err"
    by (auto simp: busy)
  show ?thesis
    using retry_around_idempotency[OF script_config_valid two script_store_law logs wait dup,
        of id "''a''" "script_start []" script_adapter 60 "()"]
    by (auto simp: busy script_start_def)
qed

end
