(* ===== verification/SchemaOps.thy ===== *)
theory SchemaOps
  imports Events "HOL-Library.List_Lexorder" "HOL-Library.Char_ord"
begin

text \<open>
  The declarations of schema evolution, \<open>src/schema/ops.go\<close> and the compiler of
  \<open>src/schema/chain.go\<close>: operations on events of one type and schema version, their
  validation, and \<open>Compile\<close>, which indexes a set of operations by what they match and
  rejects ambiguous ones. The lemmas characterise the compiled index, the walk that looks for
  cycles of renames, and what that walk really rejects.
\<close>

section \<open>Operations\<close>

text \<open>
  A value of type \<open>any\<close> in a decoded payload: nil, a string, a map with string keys, a map
  with keys of type \<open>any\<close> (what CBOR decodes into), a slice, bytes, or another value. The
  entries of a map are listed in the order a \<open>range\<close> visits them.
\<close>

datatype gany =
    ANil
  | AStr string
  | AStrMap "(string \<times> gany) list"
  | AAnyMap "(gany \<times> gany) list"
  | ASlice "gany list"
  | ABytes "byte list"
  | AOther string

type_synonym fields = "string \<rightharpoonup> gany"

datatype DecodeErrorPolicy =
    FailOnDecodeError | PassthroughOnDecodeError | DropOnDecodeError | OtherPolicy int

type_synonym OpOption = "DecodeErrorPolicy \<Rightarrow> DecodeErrorPolicy"

datatype fieldOpKind = fieldRename | fieldAdd | fieldRemove

record SplitOutput =
  so_eventType :: string
  so_payload :: "(event \<Rightarrow> fields option \<Rightarrow> gany outcome) option"

text \<open>
  The sealed interface \<open>Op\<close> with its five implementations; \<open>unknownOp\<close> is a nil
  interface value or another implementation. A transform returns a field map, which may be nil.
\<close>

datatype Op =
    renameTypeOp string string
  | dropOp string
  | fieldOp DecodeErrorPolicy string SchemaVersion fieldOpKind string string gany
  | transformOp DecodeErrorPolicy string SchemaVersion "(fields \<Rightarrow> fields option outcome) option"
  | splitOp DecodeErrorPolicy string SchemaVersion "SplitOutput list"
  | unknownOp

definition WithDecodePolicy :: "DecodeErrorPolicy \<Rightarrow> OpOption" where
  "WithDecodePolicy policy c = policy"

definition newOpConfig :: "OpOption list \<Rightarrow> DecodeErrorPolicy" where
  "newOpConfig opts = fold (\<lambda>opt c. opt c) opts FailOnDecodeError"

definition Producing ::
  "string \<Rightarrow> (event \<Rightarrow> fields option \<Rightarrow> gany outcome) option \<Rightarrow> SplitOutput" where
  "Producing eventType payload = \<lparr>so_eventType = eventType, so_payload = payload\<rparr>"

definition RenameType :: "string \<Rightarrow> string \<Rightarrow> Op" where
  "RenameType from target = renameTypeOp from target"

definition RenameField ::
  "string \<Rightarrow> SchemaVersion \<Rightarrow> string \<Rightarrow> string \<Rightarrow> OpOption list \<Rightarrow> Op" where
  "RenameField sourceType sourceVersion from target opts =
     fieldOp (newOpConfig opts) sourceType sourceVersion fieldRename from target ANil"

definition AddField ::
  "string \<Rightarrow> SchemaVersion \<Rightarrow> string \<Rightarrow> gany \<Rightarrow> OpOption list \<Rightarrow> Op" where
  "AddField sourceType sourceVersion field defaultValue opts =
     fieldOp (newOpConfig opts) sourceType sourceVersion fieldAdd field [] defaultValue"

definition RemoveField :: "string \<Rightarrow> SchemaVersion \<Rightarrow> string \<Rightarrow> OpOption list \<Rightarrow> Op" where
  "RemoveField sourceType sourceVersion field opts =
     fieldOp (newOpConfig opts) sourceType sourceVersion fieldRemove field [] ANil"

definition Transform ::
  "string \<Rightarrow> SchemaVersion \<Rightarrow> (fields \<Rightarrow> fields option outcome) option \<Rightarrow> OpOption list \<Rightarrow> Op" where
  "Transform sourceType sourceVersion transform opts =
     transformOp (newOpConfig opts) sourceType sourceVersion transform"

definition Split :: "string \<Rightarrow> SchemaVersion \<Rightarrow> SplitOutput list \<Rightarrow> Op" where
  "Split sourceType sourceVersion outputs =
     splitOp (newOpConfig []) sourceType sourceVersion outputs"

definition Drop :: "string \<Rightarrow> Op" where
  "Drop sourceType = dropOp sourceType"

section \<open>Errors\<close>

definition ErrNilUpcaster :: go_error where
  "ErrNilUpcaster = ErrNew Rejection ''schema.nil_upcaster''"

definition ErrInvalidUpcastResult :: go_error where
  "ErrInvalidUpcastResult = ErrNew Corruption ''schema.invalid_upcast_result''"

definition ErrInvalidOp :: go_error where
  "ErrInvalidOp = ErrNew Rejection ''schema.invalid_op''"

definition ErrDuplicateOp :: go_error where
  "ErrDuplicateOp = ErrNew Rejection ''schema.duplicate_op''"

definition ErrRenameCycle :: go_error where
  "ErrRenameCycle = ErrNew Rejection ''schema.rename_cycle''"

definition ErrBatchOpNotConvertible :: go_error where
  "ErrBatchOpNotConvertible = ErrNew Rejection ''schema.op_not_convertible''"

definition ErrChainCycle :: go_error where
  "ErrChainCycle = ErrNew Corruption ''schema.chain_cycle''"

definition invalidOpErr :: go_error where
  "invalidOpErr = ErrWrap Rejection ''schema.invalid_op'' ErrInvalidOp"

definition duplicateOpErr :: go_error where
  "duplicateOpErr = ErrWrap Rejection ''schema.duplicate_op'' ErrDuplicateOp"

definition batchOpErr :: go_error where
  "batchOpErr = ErrWrap Rejection ''schema.op_not_convertible'' ErrBatchOpNotConvertible"

lemmas schema_errors = ErrNilUpcaster_def ErrInvalidUpcastResult_def ErrInvalidOp_def
  ErrDuplicateOp_def ErrRenameCycle_def ErrBatchOpNotConvertible_def ErrChainCycle_def

section \<open>Validation\<close>

definition SchemaVersion_IsPositive :: "SchemaVersion \<Rightarrow> bool" where
  "SchemaVersion_IsPositive sv \<longleftrightarrow> 0 < sint sv"

definition validateSource :: "string \<Rightarrow> SchemaVersion \<Rightarrow> go_error option" where
  "validateSource sourceType sourceVersion =
     (if sourceType = [] then Some invalidOpErr
      else if \<not> SchemaVersion_IsPositive sourceVersion then Some invalidOpErr
      else None)"

definition validateRename :: "string \<Rightarrow> string \<Rightarrow> go_error option" where
  "validateRename from target =
     (if from = [] \<or> target = [] then Some invalidOpErr
      else if from = target then Some invalidOpErr
      else None)"

definition validateFieldOp ::
  "string \<Rightarrow> SchemaVersion \<Rightarrow> fieldOpKind \<Rightarrow> string \<Rightarrow> string \<Rightarrow> go_error option" where
  "validateFieldOp sourceType sourceVersion kind field renamedTo =
     (case validateSource sourceType sourceVersion of
        Some err \<Rightarrow> Some err
      | None \<Rightarrow>
          (if field = [] \<or> (kind = fieldRename \<and> renamedTo = []) then Some invalidOpErr
           else None))"

definition validateSplit ::
  "string \<Rightarrow> SchemaVersion \<Rightarrow> SplitOutput list \<Rightarrow> go_error option" where
  "validateSplit sourceType sourceVersion outputs =
     (case validateSource sourceType sourceVersion of
        Some err \<Rightarrow> Some err
      | None \<Rightarrow>
          (if outputs = [] then Some invalidOpErr
           else if list_ex (\<lambda>output. so_eventType output = [] \<or> so_payload output = None) outputs
           then Some invalidOpErr
           else None))"

fun validateOpParams :: "Op \<Rightarrow> go_error option" where
  "validateOpParams (renameTypeOp from target) = validateRename from target"
| "validateOpParams (dropOp sourceType) = (if sourceType = [] then Some invalidOpErr else None)"
| "validateOpParams (fieldOp _ sourceType sourceVersion kind field renamedTo _) =
     validateFieldOp sourceType sourceVersion kind field renamedTo"
| "validateOpParams (transformOp _ sourceType sourceVersion transform) =
     (case validateSource sourceType sourceVersion of
        Some err \<Rightarrow> Some err
      | None \<Rightarrow> (if transform = None then Some invalidOpErr else None))"
| "validateOpParams (splitOp _ sourceType sourceVersion outputs) =
     validateSplit sourceType sourceVersion outputs"
| "validateOpParams unknownOp = Some invalidOpErr"

section \<open>Compilation\<close>

text \<open>
  The maps of a chain are association lists in the order of insertion: a key is inserted only
  when it is absent. The set of rename targets is a list without repetitions.
\<close>

record Chain =
  ch_exact :: "((string \<times> SchemaVersion) \<times> Op) list"
  ch_byType :: "(string \<times> Op) list"
  ch_renames :: "(string \<times> string) list"
  ch_targets :: "string list"
  ch_maxHops :: int

definition addDrop :: "Chain \<Rightarrow> string \<Rightarrow> Chain outcome" where
  "addDrop c sourceType =
     (if map_of (ch_byType c) sourceType \<noteq> None then Fail duplicateOpErr
      else Ok (c\<lparr>ch_byType := (sourceType, dropOp sourceType) # ch_byType c\<rparr>))"

definition addExact :: "Chain \<Rightarrow> string \<Rightarrow> SchemaVersion \<Rightarrow> Op \<Rightarrow> Chain outcome" where
  "addExact c sourceType sourceVersion op =
     (if map_of (ch_exact c) (sourceType, sourceVersion) \<noteq> None then Fail duplicateOpErr
      else Ok (c\<lparr>ch_exact := ((sourceType, sourceVersion), op) # ch_exact c\<rparr>))"

definition addRename :: "Chain \<Rightarrow> string \<Rightarrow> string \<Rightarrow> Chain outcome" where
  "addRename c from target =
     (if map_of (ch_byType c) from \<noteq> None
      then Fail (ErrWrap Rejection ''schema.duplicate_rename'' ErrDuplicateOp)
      else if target \<in> set (ch_targets c)
      then Fail (ErrWrap Rejection ''schema.duplicate_rename_target'' ErrDuplicateOp)
      else Ok (c\<lparr>ch_byType := (from, renameTypeOp from target) # ch_byType c,
                 ch_renames := (from, target) # ch_renames c,
                 ch_targets := target # ch_targets c\<rparr>))"

definition Chain_add :: "Chain \<Rightarrow> Op \<Rightarrow> Chain outcome" where
  "Chain_add c op =
     (case validateOpParams op of
        Some err \<Rightarrow> Fail err
      | None \<Rightarrow>
          (case op of
             renameTypeOp from target \<Rightarrow> addRename c from target
           | dropOp sourceType \<Rightarrow> addDrop c sourceType
           | fieldOp _ sourceType sourceVersion _ _ _ _ \<Rightarrow> addExact c sourceType sourceVersion op
           | transformOp _ sourceType sourceVersion _ \<Rightarrow> addExact c sourceType sourceVersion op
           | splitOp _ sourceType sourceVersion _ \<Rightarrow> addExact c sourceType sourceVersion op
           | unknownOp \<Rightarrow> Fail invalidOpErr))"

fun Chain_add_all :: "Chain \<Rightarrow> Op list \<Rightarrow> Chain outcome" where
  "Chain_add_all c [] = Ok c"
| "Chain_add_all c (op # ops) = obind (Chain_add c op) (\<lambda>c'. Chain_add_all c' ops)"

text \<open>
  \<open>walkRenames\<close> updates the map \<open>visited\<close> (0 when absent, 1 on the current walk, 2 fully
  walked) that all walks share.
\<close>

type_synonym visited = "string \<Rightarrow> int"

function walkRenames ::
  "(string \<times> string) list \<Rightarrow> string \<Rightarrow> visited \<Rightarrow> go_error option \<times> visited" where
  "walkRenames renames node visited =
     (if visited node = 1 then
        (Some (ErrWrap Rejection ''schema.rename_cycle'' ErrRenameCycle), visited)
      else if visited node = 2 then (None, visited)
      else (case map_of renames node of
              None \<Rightarrow> (None, visited(node := 2))
            | Some target \<Rightarrow> walkRenames renames target (visited(node := 1))))"
  by pat_completeness auto

definition unwalked :: "(string \<times> string) list \<Rightarrow> visited \<Rightarrow> nat" where
  "unwalked renames visited = card {node \<in> fst ` set renames. visited node \<noteq> 1}"

termination walkRenames
proof (relation "measure (\<lambda>(renames, node, visited). unwalked renames visited)")
  fix renames :: "(string \<times> string) list" and node target and visited :: visited
  assume new: "visited node \<noteq> 1" and "map_of renames node = Some target"
  then have "node \<in> fst ` set renames"
    by (metis map_of_eq_None_iff option.distinct(1))
  with new have "{n \<in> fst ` set renames. (visited(node := 1)) n \<noteq> 1}
      \<subset> {n \<in> fst ` set renames. visited n \<noteq> 1}"
    by auto
  then have "unwalked renames (visited(node := 1)) < unwalked renames visited"
    unfolding unwalked_def by (intro psubset_card_mono) simp_all
  then show "((renames, target, visited(node := 1)), (renames, node, visited))
      \<in> measure (\<lambda>(renames, node, visited). unwalked renames visited)"
    by simp
qed simp

declare walkRenames.simps [simp del]

fun walk_all ::
  "(string \<times> string) list \<Rightarrow> string list \<Rightarrow> visited \<Rightarrow> go_error option" where
  "walk_all renames [] visited = None"
| "walk_all renames (start # froms) visited =
     (case walkRenames renames start visited of
        (Some err, _) \<Rightarrow> Some err
      | (None, visited') \<Rightarrow> walk_all renames froms visited')"

definition detectRenameCycles :: "Chain \<Rightarrow> go_error option" where
  "detectRenameCycles c = walk_all (ch_renames c) (sort (map fst (ch_renames c))) (\<lambda>_. 0)"

definition Compile :: "Op list \<Rightarrow> Chain outcome" where
  "Compile ops =
     obind (Chain_add_all
              \<lparr>ch_exact = [], ch_byType = [], ch_renames = [], ch_targets = [],
               ch_maxHops = int (length ops) + 1\<rparr> ops)
       (\<lambda>c. case detectRenameCycles c of Some err \<Rightarrow> Fail err | None \<Rightarrow> Ok c)"


section \<open>What a compiled chain is\<close>

text \<open>The event type and schema version an exact operation is declared for.\<close>

fun op_source :: "Op \<Rightarrow> (string \<times> SchemaVersion) option" where
  "op_source (fieldOp _ t v _ _ _ _) = Some (t, v)"
| "op_source (transformOp _ t v _) = Some (t, v)"
| "op_source (splitOp _ t v _) = Some (t, v)"
| "op_source _ = None"

text \<open>
  The well-formedness of the index over the operations it was built from: keys are unique, an
  exact entry sits under the positive version its operation declares, a type-only entry is a
  \<open>Drop\<close> or the \<open>RenameType\<close> the rename map records, and every operation is in one index.
\<close>

definition chain_wf :: "Op list \<Rightarrow> Chain \<Rightarrow> bool" where
  "chain_wf ops c \<longleftrightarrow>
     distinct (map fst (ch_exact c)) \<and> distinct (map fst (ch_byType c)) \<and>
     distinct (map fst (ch_renames c)) \<and> distinct (map snd (ch_renames c)) \<and>
     set (ch_targets c) = snd ` set (ch_renames c) \<and>
     (\<forall>k op. (k, op) \<in> set (ch_exact c) \<longrightarrow>
        op \<in> set ops \<and> op_source op = Some k \<and> validateOpParams op = None \<and> 0 < sint (snd k)) \<and>
     (\<forall>t op. (t, op) \<in> set (ch_byType c) \<longrightarrow>
        op \<in> set ops \<and> (op = dropOp t \<or> (\<exists>t'. op = renameTypeOp t t' \<and> (t, t') \<in> set (ch_renames c)))) \<and>
     (\<forall>t t'. (t, t') \<in> set (ch_renames c) \<longrightarrow>
        (t, renameTypeOp t t') \<in> set (ch_byType c) \<and> t \<noteq> t') \<and>
     length (ch_exact c) + length (ch_byType c) = length ops"

lemma chain_wfD:
  assumes "chain_wf ops c"
  shows "distinct (map fst (ch_exact c))" "distinct (map fst (ch_byType c))"
    "distinct (map fst (ch_renames c))" "distinct (map snd (ch_renames c))"
    "set (ch_targets c) = snd ` set (ch_renames c)"
    "\<And>k op. (k, op) \<in> set (ch_exact c) \<Longrightarrow>
       op \<in> set ops \<and> op_source op = Some k \<and> validateOpParams op = None \<and> 0 < sint (snd k)"
    "\<And>t op. (t, op) \<in> set (ch_byType c) \<Longrightarrow>
       op \<in> set ops \<and> (op = dropOp t \<or> (\<exists>t'. op = renameTypeOp t t' \<and> (t, t') \<in> set (ch_renames c)))"
    "\<And>t t'. (t, t') \<in> set (ch_renames c) \<Longrightarrow> (t, renameTypeOp t t') \<in> set (ch_byType c) \<and> t \<noteq> t'"
    "length (ch_exact c) + length (ch_byType c) = length ops"
  using assms unfolding chain_wf_def by (simp_all only: simp_thms)

lemma validateSource_None:
  "validateSource t v = None \<longleftrightarrow> t \<noteq> [] \<and> 0 < sint v"
  by (simp add: validateSource_def SchemaVersion_IsPositive_def)

lemma valid_op_source:
  assumes "validateOpParams op = None" and "op_source op = Some (t, v)"
  shows "t \<noteq> []" and "0 < sint v"
  using assms
  by (cases op; auto simp: validateFieldOp_def validateSplit_def validateSource_None
      split: option.splits)+

lemma Chain_add_cases:
  assumes "Chain_add c op = Ok c'"
  shows "validateOpParams op = None"
    and "(\<exists>k. op_source op = Some k \<and> k \<notin> fst ` set (ch_exact c) \<and>
            c' = c\<lparr>ch_exact := (k, op) # ch_exact c\<rparr>) \<or>
         (\<exists>t. op = dropOp t \<and> t \<notin> fst ` set (ch_byType c) \<and>
            c' = c\<lparr>ch_byType := (t, op) # ch_byType c\<rparr>) \<or>
         (\<exists>t t'. op = renameTypeOp t t' \<and> t \<noteq> t' \<and> t \<notin> fst ` set (ch_byType c) \<and>
            t' \<notin> set (ch_targets c) \<and>
            c' = c\<lparr>ch_byType := (t, op) # ch_byType c, ch_renames := (t, t') # ch_renames c,
                   ch_targets := t' # ch_targets c\<rparr>)"
proof -
  show valid: "validateOpParams op = None"
    using assms by (auto simp: Chain_add_def split: option.splits)
  have step: "(case op of
             renameTypeOp from target \<Rightarrow> addRename c from target
           | dropOp sourceType \<Rightarrow> addDrop c sourceType
           | fieldOp _ sourceType sourceVersion _ _ _ _ \<Rightarrow> addExact c sourceType sourceVersion op
           | transformOp _ sourceType sourceVersion _ \<Rightarrow> addExact c sourceType sourceVersion op
           | splitOp _ sourceType sourceVersion _ \<Rightarrow> addExact c sourceType sourceVersion op
           | unknownOp \<Rightarrow> Fail invalidOpErr) = Ok c'"
    using assms valid by (simp add: Chain_add_def)
  show "(\<exists>k. op_source op = Some k \<and> k \<notin> fst ` set (ch_exact c) \<and>
            c' = c\<lparr>ch_exact := (k, op) # ch_exact c\<rparr>) \<or>
         (\<exists>t. op = dropOp t \<and> t \<notin> fst ` set (ch_byType c) \<and>
            c' = c\<lparr>ch_byType := (t, op) # ch_byType c\<rparr>) \<or>
         (\<exists>t t'. op = renameTypeOp t t' \<and> t \<noteq> t' \<and> t \<notin> fst ` set (ch_byType c) \<and>
            t' \<notin> set (ch_targets c) \<and>
            c' = c\<lparr>ch_byType := (t, op) # ch_byType c, ch_renames := (t, t') # ch_renames c,
                   ch_targets := t' # ch_targets c\<rparr>)"
    using step valid
    by (cases op) (auto simp: addRename_def addDrop_def addExact_def validateRename_def
        map_of_eq_None_iff split: if_splits)
qed

lemma Chain_add_wf:
  assumes wf: "chain_wf ops c" and add: "Chain_add c op = Ok c'"
  shows "chain_wf (ops @ [op]) c'" and "ch_maxHops c' = ch_maxHops c"
proof -
  note w = chain_wfD [OF wf]
  note valid = Chain_add_cases(1) [OF add]
  from Chain_add_cases(2) [OF add] consider
      (exact) k where "op_source op = Some k" "k \<notin> fst ` set (ch_exact c)"
        "c' = c\<lparr>ch_exact := (k, op) # ch_exact c\<rparr>"
    | (drop) t where "op = dropOp t" "t \<notin> fst ` set (ch_byType c)"
        "c' = c\<lparr>ch_byType := (t, op) # ch_byType c\<rparr>"
    | (rename) t t' where "op = renameTypeOp t t'" "t \<noteq> t'" "t \<notin> fst ` set (ch_byType c)"
        "t' \<notin> set (ch_targets c)"
        "c' = c\<lparr>ch_byType := (t, op) # ch_byType c, ch_renames := (t, t') # ch_renames c,
                ch_targets := t' # ch_targets c\<rparr>"
    by blast
  note cs = this
  show "ch_maxHops c' = ch_maxHops c"
    using cs by cases simp_all
  show "chain_wf (ops @ [op]) c'"
    using cs
  proof cases
    case exact
    then have "0 < sint (snd k)"
      using valid valid_op_source(2) [of op "fst k" "snd k"] by simp
    then show ?thesis
      using w exact valid unfolding chain_wf_def by (auto simp: image_iff)
  next
    case drop
    then show ?thesis
      using w unfolding chain_wf_def by (auto simp: image_iff)
  next
    case rename
    have "t \<notin> fst ` set (ch_renames c)"
      using rename(3) w(8) by force
    moreover have "t' \<notin> snd ` set (ch_renames c)"
      using rename(4) w(5) by simp
    moreover have "t \<notin> fst ` set (ch_byType c)"
      by (rule rename(3))
    moreover have "op' \<in> set (ops @ [op]) \<and> (op' = dropOp u \<or>
        (\<exists>u'. op' = renameTypeOp u u' \<and> (u, u') \<in> set ((t, t') # ch_renames c)))"
      if "(u, op') \<in> set ((t, op) # ch_byType c)" for u op'
      using that w(7) [of u op'] rename(1) by auto
    moreover have "(u, renameTypeOp u u') \<in> set ((t, op) # ch_byType c) \<and> u \<noteq> u'"
      if "(u, u') \<in> set ((t, t') # ch_renames c)" for u u'
      using that w(8) [of u u'] rename(1,2) by auto
    ultimately show ?thesis
      using w(1-6,9) unfolding chain_wf_def rename(5) by simp
  qed
qed

lemma Chain_add_all_wf:
  assumes "chain_wf done_ops c" and "Chain_add_all c ops = Ok c'"
  shows "chain_wf (done_ops @ ops) c' \<and> ch_maxHops c' = ch_maxHops c"
  using assms
proof (induction ops arbitrary: c done_ops)
  case Nil
  then show ?case by simp
next
  case (Cons op ops)
  then obtain c1 where add: "Chain_add c op = Ok c1" and rest: "Chain_add_all c1 ops = Ok c'"
    by (auto simp: obind_Ok_iff)
  from Cons.IH [OF Chain_add_wf(1) [OF Cons.prems(1) add] rest] Chain_add_wf(2) [OF Cons.prems(1) add]
  show ?case by simp
qed

lemma Compile_wf:
  assumes "Compile ops = Ok c"
  shows "chain_wf ops c" and "ch_maxHops c = int (length ops) + 1"
    and "detectRenameCycles c = None"
proof -
  let ?c0 = "\<lparr>ch_exact = [], ch_byType = [], ch_renames = [], ch_targets = [],
               ch_maxHops = int (length ops) + 1\<rparr>"
  have added: "Chain_add_all ?c0 ops = Ok c" and "detectRenameCycles c = None"
    using assms by (auto simp: Compile_def obind_Ok_iff split: option.splits)
  moreover have "chain_wf [] ?c0"
    by (simp add: chain_wf_def)
  ultimately show "chain_wf ops c" "ch_maxHops c = int (length ops) + 1"
    "detectRenameCycles c = None"
    using Chain_add_all_wf [of "[]" ?c0 ops c] by simp_all
qed

section \<open>The walk over the renames\<close>

lemma walkRenames_step:
  "walkRenames renames node visited =
     (if visited node = 1 then
        (Some (ErrWrap Rejection ''schema.rename_cycle'' ErrRenameCycle), visited)
      else if visited node = 2 then (None, visited)
      else (case map_of renames node of
              None \<Rightarrow> (None, visited(node := 2))
            | Some target \<Rightarrow> walkRenames renames target (visited(node := 1))))"
  by (rule walkRenames.simps)

lemma walkRenames_mono:
  assumes "walkRenames renames node visited = (None, visited')" and "visited m = 1"
  shows "visited' m = 1"
  using assms
proof (induction renames node visited rule: walkRenames.induct)
  case (1 renames node visited)
  show ?case
    using 1(2,3) unfolding walkRenames_step [of renames node]
    by (auto split: if_splits option.splits intro: 1(1))
qed

text \<open>Only nodes without a rename are ever marked as fully walked.\<close>

definition leaves_walked :: "(string \<times> string) list \<Rightarrow> visited \<Rightarrow> bool" where
  "leaves_walked renames visited \<longleftrightarrow> (\<forall>n. visited n = 2 \<longrightarrow> map_of renames n = None)"

lemma walkRenames_leaves:
  assumes "walkRenames renames node visited = (None, visited')" and "leaves_walked renames visited"
  shows "leaves_walked renames visited'"
  using assms
proof (induction renames node visited rule: walkRenames.induct)
  case (1 renames node visited)
  show ?case
  proof (cases "visited node = 1 \<or> visited node = 2 \<or> map_of renames node = None")
    case True
    then show ?thesis
      using 1(2,3) unfolding walkRenames_step [of renames node]
      by (auto simp: leaves_walked_def split: if_splits)
  next
    case False
    then obtain target where target: "map_of renames node = Some target" by blast
    have "leaves_walked renames (visited(node := 1))"
      using 1(3) by (simp add: leaves_walked_def)
    then show ?thesis
      using False 1(1) [OF _ _ target] 1(2) target
      unfolding walkRenames_step [of renames node] by (simp del: fun_upd_apply)
  qed
qed

lemma walkRenames_source:
  assumes walk: "walkRenames renames node visited = (None, visited')"
    and leaves: "leaves_walked renames visited" and source: "map_of renames node = Some target"
  shows "visited node \<noteq> 1 \<and> visited' node = 1"
    and "map_of renames target \<noteq> None \<Longrightarrow> target \<noteq> node \<and> visited target \<noteq> 1 \<and> visited' target = 1"
proof -
  have fresh: "visited node \<noteq> 1" "visited node \<noteq> 2"
    using walk leaves source unfolding walkRenames_step [of renames node] leaves_walked_def
    by (auto split: if_splits)
  then have walk': "walkRenames renames target (visited(node := 1)) = (None, visited')"
    using walk source unfolding walkRenames_step [of renames node] by simp
  then show "visited node \<noteq> 1 \<and> visited' node = 1"
    using fresh walkRenames_mono [OF walk', of node] by simp
  assume inner: "map_of renames target \<noteq> None"
  then obtain next_target where "map_of renames target = Some next_target" by blast
  moreover have "(visited(node := 1)) target \<noteq> 1"
    using walk' unfolding walkRenames_step [of renames target] by (auto split: if_splits)
  moreover have "(visited(node := 1)) target \<noteq> 2"
    using inner leaves by (auto simp: leaves_walked_def)
  ultimately have "walkRenames renames next_target (visited(node := 1, target := 1)) = (None, visited')"
    and "target \<noteq> node" "visited target \<noteq> 1"
    using walk' unfolding walkRenames_step [of renames target] by (auto split: if_splits)
  then show "target \<noteq> node \<and> visited target \<noteq> 1 \<and> visited' target = 1"
    using walkRenames_mono [of renames next_target _ visited' target] by simp
qed

lemma walkRenames_error:
  assumes "walkRenames renames node visited = (Some err, visited')"
  shows "errors_Is err ErrRenameCycle"
  using assms
proof (induction renames node visited rule: walkRenames.induct)
  case (1 renames node visited)
  show ?case
    using 1(2) unfolding walkRenames_step [of renames node]
    by (auto split: if_splits option.splits intro: 1(1))
qed

lemma detectRenameCycles_error:
  assumes "detectRenameCycles c = Some err"
  shows "errors_Is err ErrRenameCycle"
proof -
  have "walk_all renames froms visited = Some err \<Longrightarrow> errors_Is err ErrRenameCycle"
    for renames froms visited
    by (induction froms arbitrary: visited)
      (auto split: prod.splits option.splits dest: walkRenames_error)
  then show ?thesis
    using assms by (simp add: detectRenameCycles_def)
qed

lemma walk_all_fresh:
  assumes "walk_all renames froms visited = None" and "leaves_walked renames visited"
    and "start \<in> set froms" and "map_of renames start \<noteq> None"
  shows "visited start \<noteq> 1"
  using assms
proof (induction froms arbitrary: visited)
  case Nil
  then show ?case by simp
next
  case (Cons src froms)
  from Cons.prems(1) obtain visited' where walk: "walkRenames renames src visited = (None, visited')"
    and rest: "walk_all renames froms visited' = None"
    by (auto split: prod.splits option.splits)
  show ?case
  proof (cases "start = src")
    case True
    then show ?thesis
      using walkRenames_source(1) [OF walk Cons.prems(2)] Cons.prems(4) by auto
  next
    case False
    then have "visited' start \<noteq> 1"
      using Cons.IH [OF rest walkRenames_leaves [OF walk Cons.prems(2)]] Cons.prems(3,4) by simp
    then show ?thesis
      using walkRenames_mono [OF walk] by blast
  qed
qed

lemma walk_all_rejects_chained:
  assumes "walk_all renames froms visited = None" and "leaves_walked renames visited"
    and "\<And>n. map_of renames n \<noteq> None \<Longrightarrow> n \<notin> set froms \<Longrightarrow> visited n = 1"
    and "start \<in> set froms" and "map_of renames start = Some target"
  shows "map_of renames target = None"
  using assms
proof (induction froms arbitrary: visited)
  case Nil
  then show ?case by simp
next
  case (Cons src froms)
  from Cons.prems(1) obtain visited' where walk: "walkRenames renames src visited = (None, visited')"
    and rest: "walk_all renames froms visited' = None"
    by (auto split: prod.splits option.splits)
  note leaves' = walkRenames_leaves [OF walk Cons.prems(2)]
  have walked': "visited' n = 1" if "map_of renames n \<noteq> None" "n \<notin> set froms" for n
  proof (cases "n = src")
    case True
    with that(1) obtain tn where "map_of renames src = Some tn" by auto
    then show ?thesis
      using walkRenames_source(1) [OF walk Cons.prems(2)] True by simp
  next
    case False
    then have "visited n = 1"
      using that Cons.prems(3) by simp
    then show ?thesis
      by (rule walkRenames_mono [OF walk])
  qed
  show ?case
  proof (cases "start \<in> set froms")
    case True
    then show ?thesis
      using Cons.IH [OF rest leaves' walked' _ Cons.prems(5)] by blast
  next
    case False
    then have src_source: "map_of renames src = Some target"
      using Cons.prems(4,5) by simp
    show ?thesis
    proof (rule ccontr)
      assume inner: "map_of renames target \<noteq> None"
      note t = walkRenames_source(2) [OF walk Cons.prems(2) src_source inner]
      then have "target \<in> set froms"
        using Cons.prems(3) inner by auto
      then have "visited' target \<noteq> 1"
        by (rule walk_all_fresh [OF rest leaves' _ inner])
      with t show False by simp
    qed
  qed
qed

lemma walk_all_accepts_flat:
  assumes "distinct froms"
    and flat: "\<And>s t. map_of renames s = Some t \<Longrightarrow> map_of renames t = None"
    and "\<And>n. n \<in> set froms \<Longrightarrow> map_of renames n \<noteq> None \<and> visited n = 0"
    and "\<And>n. map_of renames n = None \<Longrightarrow> visited n \<noteq> 1"
  shows "walk_all renames froms visited = None"
  using assms(1,3,4)
proof (induction froms arbitrary: visited)
  case Nil
  then show ?case by simp
next
  case (Cons src froms)
  then obtain target where source: "map_of renames src = Some target" and "visited src = 0"
    by fastforce
  moreover have leaf: "map_of renames target = None" and "target \<noteq> src"
    using flat [OF source] source by auto
  ultimately obtain visited' where walk: "walkRenames renames src visited = (None, visited')"
    and change: "visited' = visited(src := 1) \<or> visited' = visited(src := 1, target := 2)"
    using Cons.prems(3) [OF leaf] walkRenames_step [of renames src visited]
      walkRenames_step [of renames target "visited(src := 1)"]
    by (auto split: if_splits)
  have "walk_all renames froms visited' = None"
  proof (rule Cons.IH)
    show "distinct froms" using Cons.prems(1) by simp
    show "map_of renames n \<noteq> None \<and> visited' n = 0" if "n \<in> set froms" for n
      using Cons.prems(1) Cons.prems(2) [of n] that change leaf by auto
    show "visited' n \<noteq> 1" if "map_of renames n = None" for n
      using Cons.prems(3) [OF that] change source that by (auto simp: fun_upd_def split: if_splits)
  qed
  with walk show ?case by simp
qed

text \<open>
  The walk accepts exactly the flat rename sets: those in which no target of a rename is itself
  renamed.
\<close>

lemma detectRenameCycles_flat:
  assumes "distinct (map fst (ch_renames c))"
  shows "detectRenameCycles c = None \<longleftrightarrow>
     (\<forall>s t. map_of (ch_renames c) s = Some t \<longrightarrow> map_of (ch_renames c) t = None)"
    (is "?ok \<longleftrightarrow> ?flat")
proof
  have froms: "n \<in> set (sort (map fst (ch_renames c))) \<longleftrightarrow> map_of (ch_renames c) n \<noteq> None" for n
    by (simp add: map_of_eq_None_iff)
  {
    assume ?ok
    show ?flat
    proof (intro allI impI)
      fix s t
      assume st: "map_of (ch_renames c) s = Some t"
      then have s: "s \<in> set (sort (map fst (ch_renames c)))" using froms by simp
      show "map_of (ch_renames c) t = None"
        using \<open>?ok\<close> unfolding detectRenameCycles_def
        by (rule walk_all_rejects_chained [OF _ _ _ s st]) (use froms in \<open>auto simp: leaves_walked_def\<close>)
    qed
  next
    assume ?flat
    then show ?ok
      unfolding detectRenameCycles_def using assms froms
      by (intro walk_all_accepts_flat) simp_all
  }
qed


lemma Chain_add_all_renames:
  assumes "distinct (map fst rs)" "distinct (map snd rs)"
    and "\<forall>(a, b) \<in> set rs. a \<noteq> [] \<and> b \<noteq> [] \<and> a \<noteq> b"
    and "fst ` set (ch_byType c) \<inter> fst ` set rs = {}"
    and "set (ch_targets c) \<inter> snd ` set rs = {}"
  shows "\<exists>c'. Chain_add_all c (map (\<lambda>(a, b). RenameType a b) rs) = Ok c' \<and>
              ch_renames c' = rev rs @ ch_renames c"
  using assms
proof (induction rs arbitrary: c)
  case Nil
  then show ?case by simp
next
  case (Cons r rs)
  obtain a b where r: "r = (a, b)" by (cases r)
  define c1 where "c1 = c\<lparr>ch_byType := (a, renameTypeOp a b) # ch_byType c,
      ch_renames := (a, b) # ch_renames c, ch_targets := b # ch_targets c\<rparr>"
  have "map_of (ch_byType c) a = None" and "b \<notin> set (ch_targets c)"
    using Cons.prems(4,5) unfolding r map_of_eq_None_iff by auto
  then have add: "Chain_add c (RenameType a b) = Ok c1"
    using Cons.prems(3)
    by (simp add: r RenameType_def Chain_add_def validateRename_def addRename_def c1_def)
  have "\<exists>c'. Chain_add_all c1 (map (\<lambda>(a, b). RenameType a b) rs) = Ok c' \<and>
             ch_renames c' = rev rs @ ch_renames c1"
    by (rule Cons.IH) (use Cons.prems r in \<open>auto simp: c1_def\<close>)
  then show ?case
    using add by (auto simp: r c1_def)
qed

text \<open>
  C10. A set of valid renames with distinct sources and distinct targets compiles exactly when no
  target of a rename is itself the source of a rename; every other such set is rejected with
  \<open>ErrRenameCycle\<close>, cyclic or not. The documentation of \<open>Compile\<close> names cycles only: the
  walk leaves the nodes it passed marked as being on the current walk, so a later walk that
  starts on one of them reports a cycle.
\<close>

theorem Compile_renames_flat:
  assumes "distinct (map fst rs)" and "distinct (map snd rs)"
    and "\<forall>(a, b) \<in> set rs. a \<noteq> [] \<and> b \<noteq> [] \<and> a \<noteq> b"
  shows "if \<forall>(a, b) \<in> set rs. b \<notin> fst ` set rs
         then \<exists>c. Compile (map (\<lambda>(a, b). RenameType a b) rs) = Ok c
         else \<exists>e. Compile (map (\<lambda>(a, b). RenameType a b) rs) = Fail e \<and> errors_Is e ErrRenameCycle"
proof -
  let ?ops = "map (\<lambda>(a, b). RenameType a b) rs"
  let ?c0 = "\<lparr>ch_exact = [], ch_byType = [], ch_renames = [], ch_targets = [],
               ch_maxHops = int (length ?ops) + 1\<rparr>"
  obtain c where added: "Chain_add_all ?c0 ?ops = Ok c" and renames: "ch_renames c = rev rs"
    using Chain_add_all_renames [OF assms, of ?c0] by auto
  have dist: "distinct (map fst (ch_renames c))"
    using assms(1) by (simp add: renames rev_map [symmetric])
  have lookup: "map_of (ch_renames c) a = Some b \<longleftrightarrow> (a, b) \<in> set rs" for a b
    using map_of_eq_Some_iff [OF dist] renames by simp
  have sources: "map_of (ch_renames c) b = None \<longleftrightarrow> b \<notin> fst ` set rs" for b
    by (simp add: map_of_eq_None_iff renames)
  have flat: "detectRenameCycles c = None \<longleftrightarrow> (\<forall>(a, b) \<in> set rs. b \<notin> fst ` set rs)"
    unfolding detectRenameCycles_flat [OF dist] lookup sources by auto
  have "Compile ?ops = (case detectRenameCycles c of Some err \<Rightarrow> Fail err | None \<Rightarrow> Ok c)"
    using added by (simp add: Compile_def)
  moreover have "errors_Is err ErrRenameCycle" if "detectRenameCycles c = Some err" for err
    using that detectRenameCycles_error by blast
  ultimately show ?thesis
    using flat by (cases "detectRenameCycles c") simp_all
qed

theorem Compile_renames_flat_witness:
  "acyclic {(''a'', ''b''), (''b'', ''c'')} \<and>
   (\<exists>e. Compile [RenameType ''a'' ''b'', RenameType ''b'' ''c''] = Fail e \<and> errors_Is e ErrRenameCycle)"
proof
  have "acyclic ({(''a'', ''b''), (''b'', ''c'')}\<inverse>)"
    by (rule acyclicI_order [of _ id]) (auto simp: less_list_code less_char_def)
  then show "acyclic {(''a'', ''b''), (''b'', ''c'')}"
    by (simp only: acyclic_converse)
  have "distinct (map fst [(''a'', ''b''), (''b'', ''c'')])"
    "distinct (map snd [(''a'', ''b''), (''b'', ''c'')])"
    "\<forall>(a, b) \<in> set [(''a'', ''b''), (''b'', ''c'')]. a \<noteq> [] \<and> b \<noteq> [] \<and> a \<noteq> b"
    by simp_all
  from Compile_renames_flat [OF this]
  show "\<exists>e. Compile [RenameType ''a'' ''b'', RenameType ''b'' ''c''] = Fail e \<and> errors_Is e ErrRenameCycle"
    by simp
qed

end
