(* ===== verification/SchemaChain.thy ===== *)
theory SchemaChain
  imports SchemaOps
begin

text \<open>
  The execution of a compiled chain, \<open>src/schema/chain_engine.go\<close> and
  \<open>src/schema/chain_payload.go\<close>: decoding a payload into a field map, applying one
  operation, rebuilding the event, and upcasting an event and a batch within the hop budget.
  The lemmas show that decoding hides the difference between the codecs, that upcasting is
  idempotent, that the hop budget of a compiled chain suffices, and what an upcast event keeps of its
  source.
\<close>

section \<open>Payloads\<close>

text \<open>
  The codec package is not part of the repository: \<open>se_ForEncoding\<close> selects a codec by the
  encoding stamp, and a codec decodes bytes into a field map (None for a nil map) and encodes a
  field map or another value. \<open>se_newID\<close> and \<open>se_now\<close> give the identifier minted and the
  clock read when an event is built; the argument locates the call, as the position of the
  source event in the batch and the steps taken from there.
\<close>

record field_codec =
  fc_Decode :: "byte list \<Rightarrow> fields option outcome"
  fc_EncodeMap :: "fields option \<Rightarrow> byte list outcome"
  fc_Encode :: "gany \<Rightarrow> byte list outcome"

record schema_env =
  se_ForEncoding :: "string \<Rightarrow> field_codec outcome"
  se_DefaultCodec :: codec
  se_newID :: "nat list \<Rightarrow> ulid"
  se_now :: "nat list \<Rightarrow> instant"

definition wrapDecodeErr :: "go_error \<Rightarrow> go_error" where
  "wrapDecodeErr err = ErrWrap Corruption ''schema.op_decode_failed'' err"

definition wrapTransformErr :: "go_error \<Rightarrow> go_error" where
  "wrapTransformErr err = ErrWrap Corruption ''schema.op_transform_failed'' err"

definition wrapRebuildErr :: "go_error \<Rightarrow> go_error" where
  "wrapRebuildErr err = ErrWrap Corruption ''schema.rebuild_failed'' err"

definition wrapEncodeErr :: "go_error \<Rightarrow> go_error" where
  "wrapEncodeErr err = ErrWrap Corruption ''schema.op_encode_failed'' err"

fun wrap_fail :: "(go_error \<Rightarrow> go_error) \<Rightarrow> 'a outcome \<Rightarrow> 'a outcome" where
  "wrap_fail w (Ok a) = Ok a"
| "wrap_fail w (Fail err) = Fail (w err)"
| "wrap_fail w Panic = Panic"

text \<open>
  \<open>normalizeValue\<close> rewrites nested maps with keys of type \<open>any\<close> into maps with string keys.
  A map with another key is returned as it is, but the values visited before that key have been
  normalized in place: \<open>in_place\<close> is what a value holds afterwards when the result is thrown
  away.
\<close>

fun is_AStr :: "gany \<Rightarrow> bool" where
  "is_AStr (AStr _) = True"
| "is_AStr _ = False"

fun the_AStr :: "gany \<Rightarrow> string" where
  "the_AStr (AStr s) = s"
| "the_AStr _ = []"

fun normalizeValue :: "gany \<Rightarrow> gany"
  and normalize_entries :: "(string \<times> gany) list \<Rightarrow> (string \<times> gany) list"
  and normalize_any :: "(gany \<times> gany) list \<Rightarrow> (string \<times> gany) list"
  and normalize_items :: "gany list \<Rightarrow> gany list"
  and in_place :: "gany \<Rightarrow> gany"
  and in_place_any :: "(gany \<times> gany) list \<Rightarrow> (gany \<times> gany) list" where
  "normalizeValue (AStrMap kvs) = AStrMap (normalize_entries kvs)"
| "normalizeValue (AAnyMap kvs) =
     (if list_all (\<lambda>kv. is_AStr (fst kv)) kvs then AStrMap (normalize_any kvs)
      else AAnyMap (in_place_any kvs))"
| "normalizeValue (ASlice xs) = ASlice (normalize_items xs)"
| "normalizeValue v = v"
| "normalize_entries [] = []"
| "normalize_entries ((k, v) # kvs) = (k, normalizeValue v) # normalize_entries kvs"
| "normalize_any [] = []"
| "normalize_any ((k, v) # kvs) = (the_AStr k, normalizeValue v) # normalize_any kvs"
| "normalize_items [] = []"
| "normalize_items (x # xs) = normalizeValue x # normalize_items xs"
| "in_place (AStrMap kvs) = AStrMap (normalize_entries kvs)"
| "in_place (ASlice xs) = ASlice (normalize_items xs)"
| "in_place (AAnyMap kvs) = AAnyMap (in_place_any kvs)"
| "in_place v = v"
| "in_place_any [] = []"
| "in_place_any ((k, v) # kvs) =
     (if is_AStr k then (k, in_place v) # in_place_any kvs else (k, v) # kvs)"

definition normalizeStringKeyMaps :: "fields \<Rightarrow> fields" where
  "normalizeStringKeyMaps fm = (\<lambda>key. map_option normalizeValue (fm key))"

definition decodeFieldMap :: "schema_env \<Rightarrow> event \<Rightarrow> fields outcome" where
  "decodeFieldMap env evt =
     obind (wrap_fail wrapDecodeErr (se_ForEncoding env (Event_Encoding evt))) (\<lambda>codecFor.
     obind (wrap_fail wrapDecodeErr (fc_Decode codecFor (e_payload evt))) (\<lambda>fm.
       Ok (normalizeStringKeyMaps (case fm of None \<Rightarrow> Map.empty | Some m \<Rightarrow> m))))"

definition encodeFieldMap :: "schema_env \<Rightarrow> event \<Rightarrow> fields option \<Rightarrow> byte list outcome" where
  "encodeFieldMap env evt fm =
     obind (wrap_fail wrapDecodeErr (se_ForEncoding env (Event_Encoding evt))) (\<lambda>codecFor.
       wrap_fail wrapEncodeErr (fc_EncodeMap codecFor fm))"

definition encodeValue :: "schema_env \<Rightarrow> event \<Rightarrow> gany \<Rightarrow> byte list outcome" where
  "encodeValue env evt payload =
     (case payload of
        ABytes raw \<Rightarrow> Ok raw
      | _ \<Rightarrow>
          obind (wrap_fail wrapDecodeErr (se_ForEncoding env (Event_Encoding evt))) (\<lambda>codecFor.
            wrap_fail wrapEncodeErr (fc_Encode codecFor payload)))"

definition rebuild ::
  "schema_env \<Rightarrow> nat list \<Rightarrow> event \<Rightarrow> byte list \<Rightarrow> string \<Rightarrow> SchemaVersion \<Rightarrow> event outcome" where
  "rebuild env path evt payload eventType schemaVersion =
     wrap_fail wrapRebuildErr
       (New (se_DefaultCodec env) (se_newID env path) (se_now env path) eventType
          (e_streamID evt) (e_streamType evt) (e_version evt) (PBytes payload)
          [WithEventID (e_id evt), WithOccurredAt (e_occurredAt evt),
           WithMetadata (e_metadata evt), WithEncoding (Event_Encoding evt),
           WithSchemaVersion schemaVersion])"

section \<open>One operation\<close>

datatype opOutcome = opContinue | opDone | opDrop | opSplit

definition Chain_match :: "Chain \<Rightarrow> event \<Rightarrow> Op option" where
  "Chain_match c evt =
     (case map_of (ch_exact c) (e_eventType evt, e_schemaVersion evt) of
        Some op \<Rightarrow> Some op
      | None \<Rightarrow> map_of (ch_byType c) (e_eventType evt))"

definition applyFieldOp :: "fieldOpKind \<Rightarrow> string \<Rightarrow> string \<Rightarrow> gany \<Rightarrow> fields \<Rightarrow> fields" where
  "applyFieldOp kind field renamedTo defaultValue fm =
     (case kind of
        fieldRename \<Rightarrow>
          (case fm field of
             Some v \<Rightarrow> (fm(field := None))(renamedTo \<mapsto> v)
           | None \<Rightarrow> fm)
      | fieldAdd \<Rightarrow>
          (case fm field of Some _ \<Rightarrow> fm | None \<Rightarrow> fm(field \<mapsto> defaultValue))
      | fieldRemove \<Rightarrow> fm(field := None))"

text \<open>The policy of a 1:1 payload operation.\<close>

fun decode_policy :: "Op \<Rightarrow> DecodeErrorPolicy option" where
  "decode_policy (fieldOp p _ _ _ _ _ _) = Some p"
| "decode_policy (transformOp p _ _ _) = Some p"
| "decode_policy _ = None"

text \<open>The event returned is None where the code returns a nil event.\<close>

definition handleDecodeError ::
  "event \<Rightarrow> DecodeErrorPolicy \<Rightarrow> go_error \<Rightarrow> (event option \<times> opOutcome) outcome" where
  "handleDecodeError evt policy err =
     (case policy of
        PassthroughOnDecodeError \<Rightarrow> Ok (Some evt, opDone)
      | DropOnDecodeError \<Rightarrow> Ok (None, opDrop)
      | FailOnDecodeError \<Rightarrow> Fail err
      | OtherPolicy _ \<Rightarrow> Fail (wrapDecodeErr err))"

fun mutate_fields :: "Op \<Rightarrow> fields \<Rightarrow> fields option outcome" where
  "mutate_fields (transformOp _ _ _ transform) fm =
     (case transform of None \<Rightarrow> Panic | Some f \<Rightarrow> wrap_fail wrapTransformErr (f fm))"
| "mutate_fields (fieldOp _ _ _ kind field renamedTo defaultValue) fm =
     Ok (Some (applyFieldOp kind field renamedTo defaultValue fm))"
| "mutate_fields _ fm = Ok (Some fm)"

definition applyDecodeOp ::
  "schema_env \<Rightarrow> nat list \<Rightarrow> Op \<Rightarrow> DecodeErrorPolicy \<Rightarrow> event \<Rightarrow>
   (event option \<times> opOutcome) outcome" where
  "applyDecodeOp env path op policy evt =
     (case decodeFieldMap env evt of
        Fail err \<Rightarrow> handleDecodeError evt policy err
      | Panic \<Rightarrow> Panic
      | Ok fm \<Rightarrow>
          obind (mutate_fields op fm) (\<lambda>fm'.
          obind (encodeFieldMap env evt fm') (\<lambda>payload.
          obind (rebuild env path evt payload (e_eventType evt)
                   (SchemaVersion_Increment (e_schemaVersion evt))) (\<lambda>evt'.
            Ok (Some evt', opContinue)))))"

definition produceSplitOutput ::
  "schema_env \<Rightarrow> nat list \<Rightarrow> event \<Rightarrow> fields option \<Rightarrow> SplitOutput \<Rightarrow> SchemaVersion \<Rightarrow>
   event outcome" where
  "produceSplitOutput env path evt fm output sourceVersion =
     (case so_payload output of
        None \<Rightarrow> Panic
      | Some f \<Rightarrow>
          obind (wrap_fail wrapTransformErr (f evt fm)) (\<lambda>payload.
          obind (encodeValue env evt payload) (\<lambda>data.
            wrap_fail wrapRebuildErr
              (New (se_DefaultCodec env) (se_newID env path) (se_now env path)
                 (so_eventType output) (e_streamID evt) (e_streamType evt) (e_version evt)
                 (PBytes data)
                 [WithOccurredAt (e_occurredAt evt), WithMetadata (e_metadata evt),
                  WithEncoding (Event_Encoding evt),
                  WithSchemaVersion (SchemaVersion_Increment sourceVersion)]))))"

fun produce_outputs ::
  "schema_env \<Rightarrow> nat list \<Rightarrow> nat \<Rightarrow> event \<Rightarrow> fields option \<Rightarrow> SplitOutput list \<Rightarrow> SchemaVersion \<Rightarrow>
   event list outcome" where
  "produce_outputs env path k evt fm [] sourceVersion = Ok []"
| "produce_outputs env path k evt fm (output # outputs) sourceVersion =
     obind (produceSplitOutput env (k # path) evt fm output sourceVersion) (\<lambda>produced.
     obind (produce_outputs env path (Suc k) evt fm outputs sourceVersion) (\<lambda>rest.
       Ok (produced # rest)))"

definition applySplitOp ::
  "schema_env \<Rightarrow> nat list \<Rightarrow> DecodeErrorPolicy \<Rightarrow> SchemaVersion \<Rightarrow> SplitOutput list \<Rightarrow> event \<Rightarrow>
   event list outcome" where
  "applySplitOp env path policy sourceVersion outputs evt =
     (case decodeFieldMap env evt of
        Ok fm \<Rightarrow> produce_outputs env path 0 evt (Some fm) outputs sourceVersion
      | Panic \<Rightarrow> Panic
      | Fail err \<Rightarrow>
          (case policy of
             PassthroughOnDecodeError \<Rightarrow> Ok [evt]
           | DropOnDecodeError \<Rightarrow> Ok []
           | FailOnDecodeError \<Rightarrow> Fail err
           | OtherPolicy _ \<Rightarrow> produce_outputs env path 0 evt None outputs sourceVersion))"

fun applyOp :: "schema_env \<Rightarrow> nat list \<Rightarrow> Op \<Rightarrow> event \<Rightarrow> (event option list \<times> opOutcome) outcome" where
  "applyOp env path (renameTypeOp from target) evt =
     obind (rebuild env (0 # path) evt (e_payload evt) target (e_schemaVersion evt)) (\<lambda>evt'.
       Ok ([Some evt'], opContinue))"
| "applyOp env path (dropOp _) evt = Ok ([], opDrop)"
| "applyOp env path (splitOp policy _ sourceVersion outputs) evt =
     obind (applySplitOp env path policy sourceVersion outputs evt) (\<lambda>outputs'.
       Ok (map Some outputs', opSplit))"
| "applyOp env path op evt =
     (case decode_policy op of
        None \<Rightarrow> Fail invalidOpErr
      | Some policy \<Rightarrow>
          obind (applyDecodeOp env (0 # path) op policy evt) (\<lambda>(evt', outcome).
            Ok ([evt'], outcome)))"

section \<open>The chain\<close>

definition chain_cycle_error :: go_error where
  "chain_cycle_error = ErrWrap Corruption ''schema.chain_cycle'' ErrChainCycle"

text \<open>
  \<open>upcastOne\<close> and \<open>expandSplit\<close>. A nil event where one is needed would panic on the next
  access; \<open>upcastOne_expandSplit\<close> has the two as one mutual recursion.
\<close>

function upcastOne :: "schema_env \<Rightarrow> Chain \<Rightarrow> nat list \<Rightarrow> event \<Rightarrow> int \<Rightarrow> event list outcome"
  and expandSplit ::
    "schema_env \<Rightarrow> Chain \<Rightarrow> nat list \<Rightarrow> nat \<Rightarrow> event option list \<Rightarrow> int \<Rightarrow> event list outcome" where
  "upcastOne env c path evt budget =
     (if budget < 0 then Fail chain_cycle_error
      else case Chain_match c evt of
        None \<Rightarrow> Ok [evt]
      | Some op \<Rightarrow>
          (case applyOp env path op evt of
             Fail err \<Rightarrow> Fail err
           | Panic \<Rightarrow> Panic
           | Ok (results, outcome) \<Rightarrow>
               (case outcome of
                  opContinue \<Rightarrow>
                    (case results of
                       Some evt' # _ \<Rightarrow> upcastOne env c (0 # path) evt' (budget - 1)
                     | _ \<Rightarrow> Panic)
                | opDone \<Rightarrow> Ok [evt]
                | opDrop \<Rightarrow> Ok []
                | opSplit \<Rightarrow> expandSplit env c path 0 results budget)))"
| "expandSplit env c path k [] budget = Ok []"
| "expandSplit env c path k (output # outputs) budget =
     (case output of
        None \<Rightarrow> Panic
      | Some evt \<Rightarrow>
          obind (upcastOne env c (k # path) evt (budget - 1)) (\<lambda>upcasted.
          obind (expandSplit env c path (Suc k) outputs budget) (\<lambda>rest.
            Ok (upcasted @ rest))))"
  by pat_completeness auto
termination
  by (relation "measures [\<lambda>x. case x of Inl (_, _, _, _, budget) \<Rightarrow> nat (budget + 1)
                                     | Inr (_, _, _, _, _, budget) \<Rightarrow> nat budget,
                          \<lambda>x. case x of Inl _ \<Rightarrow> 0
                                     | Inr (_, _, _, _, outputs, _) \<Rightarrow> Suc (length outputs)]") auto


declare upcastOne.simps [simp del]

definition upcast_failed :: "go_error \<Rightarrow> go_error" where
  "upcast_failed err = ErrWrap Corruption ''schema.chain_upcast_failed'' err"

fun upcastAll_from :: "schema_env \<Rightarrow> Chain \<Rightarrow> nat \<Rightarrow> event list \<Rightarrow> event list outcome" where
  "upcastAll_from env c i [] = Ok []"
| "upcastAll_from env c i (evt # events) =
     obind (wrap_fail upcast_failed (upcastOne env c [i] evt (ch_maxHops c))) (\<lambda>upcasted.
     obind (upcastAll_from env c (Suc i) events) (\<lambda>rest.
       Ok (upcasted @ rest)))"

definition Chain_upcastAll :: "schema_env \<Rightarrow> Chain \<Rightarrow> event list \<Rightarrow> event list outcome" where
  "Chain_upcastAll env c events = upcastAll_from env c 0 events"

lemma wrap_fail_Ok [simp]: "wrap_fail w m = Ok a \<longleftrightarrow> m = Ok a"
  by (cases m) simp_all

lemma wrap_fail_Fail: "wrap_fail w m = Fail e \<longleftrightarrow> (\<exists>err. m = Fail err \<and> e = w err)"
  by (cases m) auto

section \<open>Decoding hides the codec\<close>

text \<open>
  A value as JSON decodes it has no map with keys of type \<open>any\<close>; CBOR gives the same value
  with every nested map keyed by \<open>any\<close>.
\<close>

fun json_value :: "gany \<Rightarrow> bool"
  and json_entries :: "(string \<times> gany) list \<Rightarrow> bool"
  and json_items :: "gany list \<Rightarrow> bool" where
  "json_value (AStrMap kvs) = json_entries kvs"
| "json_value (AAnyMap kvs) = False"
| "json_value (ASlice xs) = json_items xs"
| "json_value v = True"
| "json_entries [] = True"
| "json_entries ((k, v) # kvs) = (json_value v \<and> json_entries kvs)"
| "json_items [] = True"
| "json_items (x # xs) = (json_value x \<and> json_items xs)"

fun as_cbor :: "gany \<Rightarrow> gany"
  and cbor_entries :: "(string \<times> gany) list \<Rightarrow> (gany \<times> gany) list"
  and cbor_items :: "gany list \<Rightarrow> gany list" where
  "as_cbor (AStrMap kvs) = AAnyMap (cbor_entries kvs)"
| "as_cbor (AAnyMap kvs) = AAnyMap kvs"
| "as_cbor (ASlice xs) = ASlice (cbor_items xs)"
| "as_cbor v = v"
| "cbor_entries [] = []"
| "cbor_entries ((k, v) # kvs) = (AStr k, as_cbor v) # cbor_entries kvs"
| "cbor_items [] = []"
| "cbor_items (x # xs) = as_cbor x # cbor_items xs"

lemma cbor_entries_keys [simp]: "list_all (\<lambda>kv. is_AStr (fst kv)) (cbor_entries kvs)"
  by (induction kvs) auto

lemma normalize_json:
  "json_value v \<Longrightarrow> normalizeValue v = v"
  "json_entries kvs \<Longrightarrow> normalize_entries kvs = kvs"
  "json_items xs \<Longrightarrow> normalize_items xs = xs"
  by (induction v and kvs and xs rule: json_value_json_entries_json_items.induct) simp_all

lemma normalize_cbor:
  "json_value v \<Longrightarrow> normalizeValue (as_cbor v) = v"
  "json_entries kvs \<Longrightarrow> normalize_any (cbor_entries kvs) = kvs"
  "json_items xs \<Longrightarrow> normalize_items (cbor_items xs) = xs"
  by (induction v and kvs and xs rule: json_value_json_entries_json_items.induct) simp_all

definition json_fields :: "fields \<Rightarrow> bool" where
  "json_fields fm \<longleftrightarrow> (\<forall>k v. fm k = Some v \<longrightarrow> json_value v)"

text \<open>
  The field map an operation sees does not depend on the codec: when one codec decodes the
  payload of an event into a field map of plain values and another decodes its payload into the
  same map with every nested map keyed by \<open>any\<close>, both events decode to that same field map.
\<close>

theorem decodeFieldMap_codec_independent:
  assumes json: "se_ForEncoding env (Event_Encoding evt) = Ok cj" "fc_Decode cj (e_payload evt) = Ok (Some fm)"
    and cbor: "se_ForEncoding env (Event_Encoding evt') = Ok cc"
      "fc_Decode cc (e_payload evt') = Ok (Some (\<lambda>k. map_option as_cbor (fm k)))"
    and plain: "json_fields fm"
  shows "decodeFieldMap env evt = Ok fm \<and> decodeFieldMap env evt' = Ok fm"
proof -
  have "normalizeStringKeyMaps fm = fm"
    and "normalizeStringKeyMaps (\<lambda>k. map_option as_cbor (fm k)) = fm"
    using plain normalize_json(1) normalize_cbor(1)
    by (auto simp: normalizeStringKeyMaps_def json_fields_def fun_eq_iff map_option_case
        split: option.split)
  then show ?thesis
    using json cbor by (simp add: decodeFieldMap_def)
qed

section \<open>Rebuilding an event\<close>

lemma rebuild_Ok:
  assumes "rebuild env path evt payload t sv = Ok evt'"
  shows "evt' = \<lparr>e_id = e_id evt, e_eventType = t, e_streamID = e_streamID evt,
           e_streamType = e_streamType evt, e_version = e_version evt, e_schemaVersion = sv,
           e_encoding = Event_Encoding evt, e_payload = payload,
           e_metadata = Metadata_Merge NewMetadata (e_metadata evt),
           e_occurredAt = (if e_occurredAt evt = 0 then se_now env path else e_occurredAt evt),
           e_opts = None\<rparr>"
  using assms
  by (auto simp: rebuild_def New_def Let_def marshalPayload_def buildEvent_def option_defs
      probeCodec_def zeroEvent_def Event_Encoding_def EncodingJSON_def obind_Ok_iff
      split: option.splits if_splits)

lemma produceSplitOutput_Ok:
  assumes "produceSplitOutput env path evt fm out sv = Ok evt'"
  shows "\<exists>data. evt' = \<lparr>e_id = se_newID env path, e_eventType = so_eventType out,
           e_streamID = e_streamID evt,
           e_streamType = e_streamType evt, e_version = e_version evt,
           e_schemaVersion = SchemaVersion_Increment sv,
           e_encoding = Event_Encoding evt, e_payload = data,
           e_metadata = Metadata_Merge NewMetadata (e_metadata evt),
           e_occurredAt = (if e_occurredAt evt = 0 then se_now env path else e_occurredAt evt),
           e_opts = None\<rparr>"
  using assms
  by (auto simp: produceSplitOutput_def New_def Let_def marshalPayload_def buildEvent_def option_defs
      probeCodec_def zeroEvent_def Event_Encoding_def EncodingJSON_def obind_Ok_iff
      split: option.splits if_splits)

lemma produce_outputs_Ok:
  assumes "produce_outputs env path k evt fm outputs sv = Ok evts" and "evt' \<in> set evts"
  shows "\<exists>out \<in> set outputs. \<exists>path'. produceSplitOutput env path' evt fm out sv = Ok evt'"
  using assms
proof (induction outputs arbitrary: k evts)
  case (Cons out outputs)
  then obtain produced rest where "produceSplitOutput env (k # path) evt fm out sv = Ok produced"
    and "produce_outputs env path (Suc k) evt fm outputs sv = Ok rest" "evts = produced # rest"
    by (auto simp: obind_Ok_iff)
  then show ?case
    using Cons.IH [of "Suc k" rest] Cons.prems(2) by (cases "evt' = produced") auto
qed simp


section \<open>The outcomes of one operation\<close>

lemma applyOp_continue:
  assumes "applyOp env path op evt = Ok (results, opContinue)"
  obtains evt' payload path' t sv where "results = [Some evt']"
    "rebuild env path' evt payload t sv = Ok evt'"
    "(\<exists>from. op = renameTypeOp from t \<and> sv = e_schemaVersion evt) \<or>
     (decode_policy op \<noteq> None \<and> t = e_eventType evt \<and> sv = SchemaVersion_Increment (e_schemaVersion evt))"
proof (cases "decode_policy op")
  case None
  then show ?thesis
    using assms that by (cases op) (auto simp: obind_Ok_iff)
next
  case (Some policy)
  then obtain evt' where "applyDecodeOp env (0 # path) op policy evt = Ok (evt', opContinue)"
    and res: "results = [evt']"
    using assms by (cases op) (auto simp: obind_Ok_iff)
  then obtain payload evt'' where "evt' = Some evt''"
    "rebuild env (0 # path) evt payload (e_eventType evt)
       (SchemaVersion_Increment (e_schemaVersion evt)) = Ok evt''"
    by (auto simp: applyDecodeOp_def handleDecodeError_def obind_Ok_iff
        split: outcome.splits DecodeErrorPolicy.splits)
  then show ?thesis
    using that Some res by blast
qed

lemma applyOp_done:
  assumes "applyOp env path op evt = Ok (results, opDone)"
  shows "decode_policy op = Some PassthroughOnDecodeError \<and> (\<exists>err. decodeFieldMap env evt = Fail err)"
  using assms
  by (cases op) (auto simp: obind_Ok_iff applyDecodeOp_def handleDecodeError_def
      split: outcome.splits DecodeErrorPolicy.splits)

lemma applyOp_split:
  assumes "applyOp env path op evt = Ok (results, opSplit)"
  obtains policy t sv outputs evts where "op = splitOp policy t sv outputs"
    "results = map Some evts" "applySplitOp env path policy sv outputs evt = Ok evts"
  using assms
  by (cases op) (auto simp: obind_Ok_iff applyDecodeOp_def handleDecodeError_def
      split: outcome.splits DecodeErrorPolicy.splits)

lemma applySplitOp_Ok:
  assumes "applySplitOp env path FailOnDecodeError sv outputs evt = Ok evts" and "evt' \<in> set evts"
  obtains fm out path' where "out \<in> set outputs"
    "produceSplitOutput env path' evt fm out sv = Ok evt'"
  using assms
  by (auto simp: applySplitOp_def split: outcome.splits dest: produce_outputs_Ok)

lemma passthrough_done:
  assumes "decode_policy op = Some PassthroughOnDecodeError" and "decodeFieldMap env evt = Fail err"
  shows "applyOp env path op evt = Ok ([Some evt], opDone)"
  using assms by (cases op) (simp_all add: applyDecodeOp_def handleDecodeError_def)

text \<open>No operation reports the error of an exhausted budget.\<close>

lemmas schema_wraps = wrapDecodeErr_def wrapTransformErr_def wrapRebuildErr_def wrapEncodeErr_def
  invalidOpErr_def chain_cycle_error_def

lemma invalidOpErr_not_cycle: "invalidOpErr \<noteq> chain_cycle_error"
  by (simp add: schema_wraps)

lemma rebuild_not_cycle: "rebuild env path evt payload t sv \<noteq> Fail chain_cycle_error"
  by (auto simp: rebuild_def wrap_fail_Fail schema_wraps)

lemma decodeFieldMap_not_cycle:
  assumes "decodeFieldMap env evt = Fail err"
  shows "err \<noteq> chain_cycle_error" and "wrapDecodeErr err \<noteq> chain_cycle_error"
  using assms by (auto simp: decodeFieldMap_def obind_Fail_iff wrap_fail_Fail schema_wraps)

lemma encode_not_cycle:
  "encodeFieldMap env evt fm \<noteq> Fail chain_cycle_error"
  "encodeValue env evt v \<noteq> Fail chain_cycle_error"
  by (auto simp: encodeFieldMap_def encodeValue_def obind_Fail_iff wrap_fail_Fail schema_wraps
      split: gany.splits)

lemma mutate_not_cycle: "mutate_fields op fm \<noteq> Fail chain_cycle_error"
  by (cases op) (auto simp: wrap_fail_Fail schema_wraps split: option.splits)

lemma produceSplitOutput_not_cycle:
  "produceSplitOutput env path evt fm out sv \<noteq> Fail chain_cycle_error"
  unfolding produceSplitOutput_def
  by (auto simp: obind_Fail_iff wrap_fail_Fail encode_not_cycle split: option.splits)
    (simp_all add: schema_wraps)

lemma produce_outputs_not_cycle:
  "produce_outputs env path k evt fm outputs sv \<noteq> Fail chain_cycle_error"
  by (induction outputs arbitrary: k) (auto simp: obind_Fail_iff produceSplitOutput_not_cycle)

lemma applyOp_not_cycle: "applyOp env path op evt \<noteq> Fail chain_cycle_error"
proof (cases "decode_policy op")
  case None
  then show ?thesis
    by (cases op)
      (auto simp: obind_Fail_iff rebuild_not_cycle applySplitOp_def produce_outputs_not_cycle
        invalidOpErr_not_cycle split: outcome.splits DecodeErrorPolicy.splits
        dest: decodeFieldMap_not_cycle(1))
next
  case (Some policy)
  have "applyDecodeOp env (0 # path) op policy evt \<noteq> Fail chain_cycle_error"
    using decodeFieldMap_not_cycle [of env evt]
    by (auto simp: applyDecodeOp_def handleDecodeError_def obind_Fail_iff rebuild_not_cycle
        encode_not_cycle mutate_not_cycle split: outcome.splits DecodeErrorPolicy.splits)
  with Some show ?thesis
    by (cases op) (auto simp: obind_Fail_iff)
qed

section \<open>Upcasting is idempotent\<close>

text \<open>
  An event is settled when no operation matches it, or when the operation that matches it passes
  it through because its payload does not decode.
\<close>

definition settled :: "schema_env \<Rightarrow> Chain \<Rightarrow> event \<Rightarrow> bool" where
  "settled env c evt \<longleftrightarrow>
     (case Chain_match c evt of
        None \<Rightarrow> True
      | Some op \<Rightarrow> decode_policy op = Some PassthroughOnDecodeError \<and>
          (\<exists>err. decodeFieldMap env evt = Fail err))"

lemma settled_env:
  assumes "se_ForEncoding env' = se_ForEncoding env"
  shows "settled env' c evt \<longleftrightarrow> settled env c evt"
proof -
  have "decodeFieldMap env' evt = decodeFieldMap env evt"
    using assms by (simp add: decodeFieldMap_def)
  then show ?thesis by (simp add: settled_def split: option.split)
qed

lemma upcast_settles:
  "upcastOne env c path evt budget = Ok evts \<Longrightarrow> \<forall>e \<in> set evts. settled env c e"
  "expandSplit env c path k outputs budget = Ok evts \<Longrightarrow> \<forall>e \<in> set evts. settled env c e"
proof (induction env c path evt budget and env c path k outputs budget
    arbitrary: evts and evts rule: upcastOne_expandSplit.induct)
  case (1 env c path evt budget)
  show ?case
  proof (cases "Chain_match c evt")
    case None
    then show ?thesis
      using 1(3) by (auto simp: upcastOne.simps settled_def split: if_splits)
  next
    case (Some op)
    with 1(3) obtain results outcome where budget: "\<not> budget < 0"
      and op: "applyOp env path op evt = Ok (results, outcome)"
      by (auto simp: upcastOne.simps [of env c path evt budget] split: if_splits outcome.splits)
    show ?thesis
    proof (cases outcome)
      case opContinue
      then obtain evt' where res: "results = [Some evt']"
        using applyOp_continue [of env path op evt results] op by metis
      then have "upcastOne env c (0 # path) evt' (budget - 1) = Ok evts"
        using 1(3) budget Some op opContinue by (simp add: upcastOne.simps [of env c path evt budget])
      with 1(1) [OF budget Some op refl opContinue res refl] show ?thesis by blast
    next
      case opDone
      then have "evts = [evt]"
        using 1(3) budget Some op by (simp add: upcastOne.simps)
      moreover have "settled env c evt"
        using applyOp_done [of env path op evt results] op opDone Some
        by (simp add: settled_def)
      ultimately show ?thesis by simp
    next
      case opDrop
      then show ?thesis
        using 1(3) budget Some op by (simp add: upcastOne.simps)
    next
      case opSplit
      then have "expandSplit env c path 0 results budget = Ok evts"
        using 1(3) budget Some op by (simp add: upcastOne.simps)
      with 1(2) [OF budget Some op refl opSplit] show ?thesis by blast
    qed
  qed
next
  case (2 env c path k budget)
  then show ?case by simp
next
  case (3 env c path k out outputs budget)
  then show ?case
    by (cases out) (auto simp: obind_Ok_iff)
qed

lemma settled_upcast:
  assumes "settled env c evt" and "0 \<le> budget"
  shows "upcastOne env c path evt budget = Ok [evt]"
proof (cases "Chain_match c evt")
  case None
  with assms(2) show ?thesis by (simp add: upcastOne.simps)
next
  case (Some op)
  with assms(1) obtain err where "decode_policy op = Some PassthroughOnDecodeError"
    "decodeFieldMap env evt = Fail err"
    by (auto simp: settled_def)
  from passthrough_done [OF this] Some assms(2) show ?thesis
    by (simp add: upcastOne.simps)
qed

lemma upcastAll_from_settled:
  assumes "0 \<le> ch_maxHops c" and "\<forall>e \<in> set evts. settled env c e"
  shows "upcastAll_from env c i evts = Ok evts"
  using assms by (induction evts arbitrary: i) (simp_all add: settled_upcast)

lemma upcastAll_from_settles:
  assumes "upcastAll_from env c i evts = Ok evts'"
  shows "\<forall>e \<in> set evts'. settled env c e"
  using assms
proof (induction evts arbitrary: i evts')
  case (Cons evt evts)
  then obtain upcasted rest where "upcastOne env c [i] evt (ch_maxHops c) = Ok upcasted"
    and "upcastAll_from env c (Suc i) evts = Ok rest" "evts' = upcasted @ rest"
    by (auto simp: obind_Ok_iff)
  then show ?case
    using upcast_settles(1) Cons.IH by fastforce
qed simp

text \<open>
  C11. Upcasting is idempotent: a batch that a compiled chain has upcast is a fixed point of the
  chain, whatever identifiers are minted and clocks read by the second pass, so a store that is
  decorated twice, or a reader that upcasts again, sees the same events.
\<close>

theorem upcast_idempotent:
  assumes "Compile ops = Ok c" and "Chain_upcastAll env c evts = Ok evts'"
    and "se_ForEncoding env' = se_ForEncoding env"
  shows "Chain_upcastAll env' c evts' = Ok evts'"
proof -
  have "\<forall>e \<in> set evts'. settled env' c e"
    using upcastAll_from_settles assms(2) settled_env [OF assms(3)]
    by (simp add: Chain_upcastAll_def)
  moreover have "0 \<le> ch_maxHops c"
    using Compile_wf(2) [OF assms(1)] by simp
  ultimately show ?thesis
    by (simp add: Chain_upcastAll_def upcastAll_from_settled)
qed


section \<open>The hop budget suffices\<close>

text \<open>
  The steps an event has left: the exact operations at its schema version or above, and one
  rename. A version that is not positive matches no exact operation.
\<close>

definition exact_ahead :: "Chain \<Rightarrow> SchemaVersion \<Rightarrow> nat" where
  "exact_ahead c sv =
     (if 0 < sint sv then length (filter (\<lambda>kop. sint sv \<le> sint (snd (fst kop))) (ch_exact c)) else 0)"

definition steps_ahead :: "Chain \<Rightarrow> event \<Rightarrow> nat" where
  "steps_ahead c evt =
     exact_ahead c (e_schemaVersion evt) +
     (if map_of (ch_renames c) (e_eventType evt) \<noteq> None then 1 else 0)"

lemma sint_increment:
  assumes "0 < sint (sv :: SchemaVersion)"
  shows "sint (SchemaVersion_Increment sv) = sint sv + 1 \<or> sint (SchemaVersion_Increment sv) < 0"
proof (cases "int64 (sint sv + 1)")
  case True
  have "SchemaVersion_Increment sv = word_of_int (sint sv + 1)"
    using word_of_int_sint_add [of sv 1] by (simp add: SchemaVersion_Increment_def)
  then show ?thesis
    using sint_in_range [OF True] by simp
next
  case False
  moreover have "sint sv < 2 ^ 63"
    using sint_lt [of sv] by simp
  ultimately have "sint sv = 2 ^ 63 - 1"
    using assms by (simp add: int64_def)
  then have "sv = word_of_int (2 ^ 63 - 1)"
    using word_of_int_sint_add [of sv 0] by simp
  then show ?thesis
    by (simp add: SchemaVersion_Increment_def)
qed

lemma length_filter_less:
  assumes "x \<in> set xs" "P x" "\<not> Q x" "\<And>y. Q y \<Longrightarrow> P y"
  shows "length (filter Q xs) < length (filter P xs)"
proof -
  have "filter Q xs = filter Q (filter P xs)"
    using assms(4) by (auto intro: filter_cong)
  moreover have "length (filter Q (filter P xs)) < length (filter P xs)"
    using assms by (intro length_filter_less [of x]) auto
  ultimately show ?thesis by simp
qed

lemma exact_ahead_increment:
  assumes "(k, op) \<in> set (ch_exact c)" and "snd k = sv" and "0 < sint sv"
  shows "exact_ahead c (SchemaVersion_Increment sv) < exact_ahead c sv"
proof -
  have in_list: "(k, op) \<in> set (filter (\<lambda>kop. sint sv \<le> sint (snd (fst kop))) (ch_exact c))"
    using assms by simp
  then have pos: "0 < exact_ahead c sv"
    using assms(3) by (auto simp: exact_ahead_def length_greater_0_conv simp del: length_greater_0_conv
        intro!: length_pos_if_in_set)
  from sint_increment [OF assms(3)] show ?thesis
  proof
    assume "sint (SchemaVersion_Increment sv) < 0"
    then show ?thesis using pos by (simp add: exact_ahead_def)
  next
    assume "sint (SchemaVersion_Increment sv) = sint sv + 1"
    then show ?thesis
      using assms by (auto simp: exact_ahead_def intro!: length_filter_less [of "(k, op)"])
  qed
qed

lemma Chain_match_cases:
  assumes wf: "chain_wf ops c" and "Chain_match c evt = Some op"
  obtains (exact) "((e_eventType evt, e_schemaVersion evt), op) \<in> set (ch_exact c)"
      "0 < sint (e_schemaVersion evt)"
      "op_source op = Some (e_eventType evt, e_schemaVersion evt)" "op \<in> set ops"
  | (drop) "op = dropOp (e_eventType evt)"
  | (rename) t where "op = renameTypeOp (e_eventType evt) t"
      "map_of (ch_renames c) (e_eventType evt) = Some t"
proof (cases "map_of (ch_exact c) (e_eventType evt, e_schemaVersion evt)")
  case (Some op')
  then have "((e_eventType evt, e_schemaVersion evt), op) \<in> set (ch_exact c)"
    using assms(2) by (auto simp: Chain_match_def dest: map_of_SomeD)
  with chain_wfD(6) [OF wf this] show ?thesis
    using exact by auto
next
  case None
  then have "(e_eventType evt, op) \<in> set (ch_byType c)"
    using assms(2) by (auto simp: Chain_match_def dest: map_of_SomeD)
  from chain_wfD(7) [OF wf this] show ?thesis
    using drop rename chain_wfD(3) [OF wf] by (auto simp: map_of_eq_Some_iff)
qed

text \<open>
  The operations of a chain as the constructors build them: a \<open>Split\<close> has no decode policy of
  its own, and here its outputs are not renamed.
\<close>

definition splits_settle :: "Op list \<Rightarrow> bool" where
  "splits_settle ops \<longleftrightarrow>
     (\<forall>policy t sv outputs. splitOp policy t sv outputs \<in> set ops \<longrightarrow>
        policy = FailOnDecodeError \<and>
        (\<forall>out \<in> set outputs. \<forall>target. renameTypeOp (so_eventType out) target \<notin> set ops))"

lemma renames_in_ops:
  assumes "chain_wf ops c" and "map_of (ch_renames c) t = Some t'"
  shows "renameTypeOp t t' \<in> set ops"
  using chain_wfD(7,8) [OF assms(1)] map_of_SomeD [OF assms(2)] by blast

lemma step_decreases:
  assumes wf: "chain_wf ops c" and flat: "detectRenameCycles c = None" and splits: "splits_settle ops"
    and m: "Chain_match c evt = Some op"
    and ap: "applyOp env path op evt = Ok (results, outcome)"
    and out: "outcome = opContinue \<or> outcome = opSplit" and evt': "Some evt' \<in> set results"
  shows "steps_ahead c evt' < steps_ahead c evt"
  using out
proof
  assume outcome: "outcome = opContinue"
  from applyOp_continue [OF ap [unfolded outcome]] obtain evt'' payload path' t sv
    where res: "results = [Some evt'']" and rb: "rebuild env path' evt payload t sv = Ok evt''"
      and kind: "(\<exists>from. op = renameTypeOp from t \<and> sv = e_schemaVersion evt) \<or>
        (decode_policy op \<noteq> None \<and> t = e_eventType evt \<and> sv = SchemaVersion_Increment (e_schemaVersion evt))"
    by metis
  have fields: "e_eventType evt' = t" "e_schemaVersion evt' = sv"
    using rebuild_Ok [OF rb] res evt' by simp_all
  from wf m show ?thesis
  proof (cases rule: Chain_match_cases)
    case exact
    then have "t = e_eventType evt" "sv = SchemaVersion_Increment (e_schemaVersion evt)"
      using kind by auto
    then show ?thesis
      using exact_ahead_increment [OF exact(1) _ exact(2)] by (simp add: steps_ahead_def fields)
  next
    case drop
    then show ?thesis using ap outcome by simp
  next
    case (rename target)
    then have "t = target" "sv = e_schemaVersion evt"
      using kind by auto
    moreover have "map_of (ch_renames c) target = None"
      using flat rename(2) detectRenameCycles_flat [OF chain_wfD(3) [OF wf]] by blast
    ultimately show ?thesis
      using rename(2) by (simp add: steps_ahead_def fields)
  qed
next
  assume outcome: "outcome = opSplit"
  from applyOp_split [OF ap [unfolded outcome]] obtain policy t sv outputs evts
    where op: "op = splitOp policy t sv outputs" and res: "results = map Some evts"
      and sp: "applySplitOp env path policy sv outputs evt = Ok evts"
    by metis
  from wf m show ?thesis
  proof (cases rule: Chain_match_cases)
    case exact
    then have sv: "sv = e_schemaVersion evt" and fail: "policy = FailOnDecodeError"
      using op splits by (auto simp: splits_settle_def)
    have "evt' \<in> set evts" using evt' res by auto
    with sp fail obtain fm out path' where out: "out \<in> set outputs"
      and pr: "produceSplitOutput env path' evt fm out sv = Ok evt'"
      by (metis applySplitOp_Ok)
    have "e_eventType evt' = so_eventType out" "e_schemaVersion evt' = SchemaVersion_Increment sv"
      using produceSplitOutput_Ok [OF pr] by auto
    moreover have "map_of (ch_renames c) (so_eventType out) = None"
      using renames_in_ops [OF wf, of "so_eventType out"] splits exact(4) op out
      by (fastforce simp: splits_settle_def)
    ultimately show ?thesis
      using exact_ahead_increment [OF exact(1) _ exact(2)] sv by (simp add: steps_ahead_def)
  qed (use op ap outcome in auto)
qed

lemma budget_suffices:
  assumes "chain_wf ops c" "detectRenameCycles c = None" "splits_settle ops"
  shows "int (steps_ahead c evt) \<le> budget \<Longrightarrow> upcastOne env c path evt budget \<noteq> Fail chain_cycle_error"
    and "(\<forall>e. Some e \<in> set outputs \<longrightarrow> int (steps_ahead c e) < budget) \<Longrightarrow>
      expandSplit env c path k outputs budget \<noteq> Fail chain_cycle_error"
  using assms
proof (induction env c path evt budget and env c path k outputs budget
    rule: upcastOne_expandSplit.induct)
  case (1 env c path evt budget)
  note wf = 1(4-6)
  show ?case
  proof (cases "Chain_match c evt")
    case None
    then show ?thesis
      using 1(3) by (simp add: upcastOne.simps)
  next
    case (Some op)
    have budget: "\<not> budget < 0" using 1(3) by simp
    show ?thesis
    proof (cases "applyOp env path op evt")
      case (Ok res)
      obtain results outcome where op: "applyOp env path op evt = Ok (results, outcome)"
        using Ok by (cases res) simp
      note dec = step_decreases [OF wf Some op]
      show ?thesis
      proof (cases outcome)
        case opContinue
        then obtain evt' where res: "results = [Some evt']"
          using applyOp_continue [of env path op evt results] op by metis
        have "int (steps_ahead c evt') \<le> budget - 1"
          using dec [of evt'] opContinue res 1(3) by simp
        from 1(1) [OF budget Some op refl opContinue res refl this wf]
        show ?thesis
          using budget Some op opContinue res by (simp add: upcastOne.simps [of env c path evt budget])
      next
        case opSplit
        have "\<forall>e. Some e \<in> set results \<longrightarrow> int (steps_ahead c e) < budget"
          using dec opSplit 1(3) by fastforce
        from 1(2) [OF budget Some op refl opSplit this wf]
        show ?thesis
          using budget Some op opSplit by (simp add: upcastOne.simps [of env c path evt budget])
      qed (use budget Some op in \<open>simp_all add: upcastOne.simps [of env c path evt budget]\<close>)
    qed (use budget Some applyOp_not_cycle [of env path op evt]
        in \<open>simp_all add: upcastOne.simps [of env c path evt budget]\<close>)
  qed
next
  case (2 env c path k budget)
  then show ?case by simp
next
  case (3 env c path k out outputs budget)
  show ?case
  proof (cases out)
    case (Some evt)
    have "upcastOne env c (k # path) evt (budget - 1) \<noteq> Fail chain_cycle_error"
      by (rule 3(1) [OF Some _ 3(4-6)]) (use 3(3) Some in auto)
    moreover have "expandSplit env c path (Suc k) outputs budget \<noteq> Fail chain_cycle_error"
      by (rule 3(2) [OF Some _ 3(4-6)]) (use 3(3) in auto)
    ultimately show ?thesis
      using Some by (auto simp: obind_Fail_iff)
  qed simp
qed

lemma steps_ahead_bound:
  assumes "chain_wf ops c"
  shows "steps_ahead c evt \<le> length ops"
proof -
  note w = chain_wfD [OF assms]
  have exact: "exact_ahead c sv \<le> length (ch_exact c)" for sv
    by (simp add: exact_ahead_def)
  show ?thesis
  proof (cases "map_of (ch_renames c) (e_eventType evt)")
    case None
    then show ?thesis
      using exact [of "e_schemaVersion evt"] w(9) by (simp add: steps_ahead_def)
  next
    case (Some t)
    then have "ch_byType c \<noteq> []"
      using w(8) map_of_SomeD [OF Some] by auto
    then have "1 \<le> length (ch_byType c)"
      by (cases "ch_byType c") simp_all
    then show ?thesis
      using exact [of "e_schemaVersion evt"] w(9) Some by (simp add: steps_ahead_def)
  qed
qed

text \<open>
  C33. The hop budget never runs out: in a chain that compiled, whose splits produce no event of a
  renamed type, no event ends with the error \<open>ErrChainCycle\<close>, whatever the payload codecs and
  the transforms do and whatever schema version the event carries.
\<close>

theorem chain_budget_suffices:
  assumes "Compile ops = Ok c" and "splits_settle ops"
  shows "upcastOne env c path evt (ch_maxHops c) \<noteq> Fail (ErrWrap Corruption ''schema.chain_cycle'' ErrChainCycle)"
  using budget_suffices(1) [OF Compile_wf(1,3) [OF assms(1)] assms(2), of evt "ch_maxHops c" env path]
    steps_ahead_bound [OF Compile_wf(1) [OF assms(1)], of evt] Compile_wf(2) [OF assms(1)]
  by (simp add: chain_cycle_error_def)


section \<open>What an upcast event keeps\<close>

text \<open>
  An upcast event has the stream, the position, the encoding, the timestamp (unless it was
  unset) and the metadata of its source.
\<close>

definition inherits :: "event \<Rightarrow> event \<Rightarrow> bool" where
  "inherits evt evt' \<longleftrightarrow>
     e_streamID evt' = e_streamID evt \<and> e_streamType evt' = e_streamType evt \<and>
     e_version evt' = e_version evt \<and> Event_Encoding evt' = Event_Encoding evt \<and>
     (e_occurredAt evt \<noteq> 0 \<longrightarrow> e_occurredAt evt' = e_occurredAt evt) \<and>
     ((ActorID_IsZero (t_ActorID (m_Tracing (e_metadata evt))) \<longrightarrow>
         t_ActorID (m_Tracing (e_metadata evt)) = zeroActor) \<longrightarrow>
      e_metadata evt' = e_metadata evt)"

lemma inherits_refl: "inherits evt evt"
  by (simp add: inherits_def)

lemma inherits_trans: "inherits a b \<Longrightarrow> inherits b c \<Longrightarrow> inherits a c"
  unfolding inherits_def by metis

lemma rebuild_inherits:
  assumes "rebuild env path evt payload t sv = Ok evt'"
  shows "inherits evt evt'" and "e_id evt' = e_id evt"
  using rebuild_Ok [OF assms] Metadata_Merge_left_zero [of "e_metadata evt"]
  by (auto simp: inherits_def Event_Encoding_def EncodingJSON_def)

lemma produceSplitOutput_inherits:
  assumes "produceSplitOutput env path evt fm out sv = Ok evt'"
  shows "inherits evt evt'"
  using produceSplitOutput_Ok [OF assms] Metadata_Merge_left_zero [of "e_metadata evt"]
  by (auto simp: inherits_def Event_Encoding_def EncodingJSON_def)

lemma applySplitOp_inherits:
  assumes "applySplitOp env path policy sv outputs evt = Ok evts" and "evt' \<in> set evts"
  shows "inherits evt evt'"
  using assms
  by (auto simp: applySplitOp_def inherits_refl split: outcome.splits DecodeErrorPolicy.splits
      dest!: produce_outputs_Ok produceSplitOutput_inherits)

lemma applyOp_inherits:
  assumes ap: "applyOp env path op evt = Ok (results, outcome)" and "Some evt' \<in> set results"
    and "outcome = opContinue \<or> outcome = opSplit"
  shows "inherits evt evt'" and "outcome = opContinue \<Longrightarrow> e_id evt' = e_id evt"
proof -
  have both: "inherits evt evt' \<and> (outcome = opContinue \<longrightarrow> e_id evt' = e_id evt)"
    using assms(3)
  proof
    assume outcome: "outcome = opContinue"
    from applyOp_continue [OF ap [unfolded outcome]] obtain evt'' payload path' t sv
      where "results = [Some evt'']" "rebuild env path' evt payload t sv = Ok evt''" by metis
    then show ?thesis
      using assms(2) rebuild_inherits [of env path' evt payload t sv evt''] by simp
  next
    assume outcome: "outcome = opSplit"
    from applyOp_split [OF ap [unfolded outcome]] obtain policy t sv outputs evts
      where "results = map Some evts" "applySplitOp env path policy sv outputs evt = Ok evts" by metis
    then show ?thesis
      using assms(2) outcome by (auto intro: applySplitOp_inherits)
  qed
  then show "inherits evt evt'" and "outcome = opContinue \<Longrightarrow> e_id evt' = e_id evt" by simp_all
qed

text \<open>The relation between an event and what a chain without splits makes of it.\<close>

definition no_split :: "Chain \<Rightarrow> bool" where
  "no_split c \<longleftrightarrow> (\<forall>k policy t sv outputs. (k, splitOp policy t sv outputs) \<notin> set (ch_exact c) \<and>
     (\<forall>u. (u, splitOp policy t sv outputs) \<notin> set (ch_byType c)))"

definition upcasts_to :: "Chain \<Rightarrow> event \<Rightarrow> event list \<Rightarrow> bool" where
  "upcasts_to c evt evts \<longleftrightarrow>
     (\<forall>evt' \<in> set evts. inherits evt evt') \<and>
     (no_split c \<longrightarrow> evts = [] \<or> (\<exists>evt'. evts = [evt'] \<and> e_id evt' = e_id evt))"

lemma no_split_outcome:
  assumes "no_split c" and "Chain_match c evt = Some op"
  shows "applyOp env path op evt \<noteq> Ok (results, opSplit)"
proof
  assume "applyOp env path op evt = Ok (results, opSplit)"
  then obtain policy t sv outputs where "op = splitOp policy t sv outputs"
    by (metis applyOp_split)
  then show False
    using assms by (auto simp: Chain_match_def no_split_def dest!: map_of_SomeD split: option.splits)
qed

lemma upcast_inherits:
  "upcastOne env c path evt budget = Ok evts \<Longrightarrow> upcasts_to c evt evts"
  "expandSplit env c path k outputs budget = Ok evts \<Longrightarrow>
     \<forall>evt' \<in> set evts. \<exists>src. Some src \<in> set outputs \<and> inherits src evt'"
proof (induction env c path evt budget and env c path k outputs budget
    arbitrary: evts and evts rule: upcastOne_expandSplit.induct)
  case (1 env c path evt budget)
  show ?case
  proof (cases "Chain_match c evt")
    case None
    then show ?thesis
      using 1(3) by (auto simp: upcastOne.simps upcasts_to_def inherits_refl split: if_splits)
  next
    case (Some op)
    with 1(3) obtain results outcome where budget: "\<not> budget < 0"
      and op: "applyOp env path op evt = Ok (results, outcome)"
      by (auto simp: upcastOne.simps [of env c path evt budget] split: if_splits outcome.splits)
    note inh = applyOp_inherits [OF op]
    show ?thesis
    proof (cases outcome)
      case opContinue
      then obtain evt' where res: "results = [Some evt']"
        using applyOp_continue [of env path op evt results] op by metis
      then have "upcastOne env c (0 # path) evt' (budget - 1) = Ok evts"
        using 1(3) budget Some op opContinue by (simp add: upcastOne.simps [of env c path evt budget])
      with 1(1) [OF budget Some op refl opContinue res refl] have "upcasts_to c evt' evts" by blast
      moreover have "inherits evt evt'" "e_id evt' = e_id evt"
        using inh [of evt'] res opContinue by simp_all
      ultimately show ?thesis
        unfolding upcasts_to_def using inherits_trans by auto
    next
      case opSplit
      then have "expandSplit env c path 0 results budget = Ok evts"
        using 1(3) budget Some op by (simp add: upcastOne.simps)
      with 1(2) [OF budget Some op refl opSplit]
      have "\<forall>evt' \<in> set evts. \<exists>src. Some src \<in> set results \<and> inherits src evt'" by blast
      then have "\<forall>evt' \<in> set evts. inherits evt evt'"
        using inh(1) opSplit inherits_trans by blast
      moreover have "\<not> no_split c"
        using no_split_outcome [OF _ Some] op opSplit by blast
      ultimately show ?thesis
        by (simp add: upcasts_to_def)
    qed (use 1(3) budget Some op in
        \<open>auto simp: upcastOne.simps [of env c path evt budget] upcasts_to_def inherits_refl\<close>)
  qed
next
  case (2 env c path k budget)
  then show ?case by simp
next
  case (3 env c path k out outputs budget)
  from 3(3) obtain evt upcasted rest where out: "out = Some evt"
    and up: "upcastOne env c (k # path) evt (budget - 1) = Ok upcasted"
    and rest: "expandSplit env c path (Suc k) outputs budget = Ok rest" and evts: "evts = upcasted @ rest"
    by (auto simp: obind_Ok_iff split: option.splits)
  show ?case
    using 3(1) [OF out up] 3(2) [OF out rest] unfolding evts out upcasts_to_def by auto
qed

lemma upcastAll_from_list:
  assumes "upcastAll_from env c i evts = Ok evts'"
  shows "\<exists>parts. evts' = concat parts \<and> list_all2 (upcasts_to c) evts parts"
  using assms
proof (induction evts arbitrary: i evts')
  case (Cons evt evts)
  then obtain upcasted rest where "upcastOne env c [i] evt (ch_maxHops c) = Ok upcasted"
    and "upcastAll_from env c (Suc i) evts = Ok rest" and evts': "evts' = upcasted @ rest"
    by (auto simp: obind_Ok_iff)
  with Cons.IH [of "Suc i" rest] obtain parts where "rest = concat parts"
    "list_all2 (upcasts_to c) evts parts" "upcasts_to c evt upcasted"
    using upcast_inherits(1) by blast
  then show ?case
    by (intro exI [of _ "upcasted # parts"]) (simp add: evts')
qed simp

text \<open>
  C34. An upcast batch is made up of the results of its events, in order. Every result has the
  stream, the stream version, the encoding, the timestamp and the metadata of the event it came
  from; in a chain without splits an event gives at most one result, and it keeps its
  identifier.
\<close>

theorem upcast_preserves_identity:
  assumes "Chain_upcastAll env c evts = Ok evts'"
  shows "\<exists>parts. evts' = concat parts \<and>
     list_all2 (\<lambda>evt part. (\<forall>evt' \<in> set part. inherits evt evt') \<and>
       (no_split c \<longrightarrow> part = [] \<or> (\<exists>evt'. part = [evt'] \<and> e_id evt' = e_id evt))) evts parts"
  using upcastAll_from_list assms unfolding Chain_upcastAll_def upcasts_to_def [abs_def] by blast


section \<open>An instance\<close>

definition witness_field_codec :: field_codec where
  "witness_field_codec =
     \<lparr>fc_Decode = (\<lambda>b. if b = [] then Fail (ErrExt ''eof'') else Ok (Some [''body'' \<mapsto> ABytes b])),
      fc_EncodeMap = (\<lambda>m. case m of None \<Rightarrow> Fail (ErrExt ''nil'') | Some f \<Rightarrow>
         Ok (case f ''body'' of Some (ABytes b) \<Rightarrow> b | _ \<Rightarrow> [0])),
      fc_Encode = (\<lambda>v. Ok [7])\<rparr>"

definition witness_env :: schema_env where
  "witness_env = \<lparr>se_ForEncoding = (\<lambda>_. Ok witness_field_codec), se_DefaultCodec = witness_codec,
                  se_newID = (\<lambda>path. of_nat (length path)), se_now = (\<lambda>_. 9)\<rparr>"

definition witness_ops :: "Op list" where
  "witness_ops = [RenameType ''old'' ''new'', AddField ''new'' 1 ''x'' ANil [],
                  RemoveField ''gone'' 1 ''x'' [WithDecodePolicy PassthroughOnDecodeError]]"

definition witness_chain :: Chain where
  "witness_chain =
     \<lparr>ch_exact = [((''gone'', 1), fieldOp PassthroughOnDecodeError ''gone'' 1 fieldRemove ''x'' [] ANil),
                  ((''new'', 1), fieldOp FailOnDecodeError ''new'' 1 fieldAdd ''x'' [] ANil)],
      ch_byType = [(''old'', renameTypeOp ''old'' ''new'')],
      ch_renames = [(''old'', ''new'')], ch_targets = [''new''], ch_maxHops = 4\<rparr>"

definition witness_source :: "string \<Rightarrow> byte list \<Rightarrow> event" where
  "witness_source t p = zeroEvent\<lparr>e_id := 5, e_eventType := t, e_streamID := ''s'', e_streamType := ''T'',
     e_version := 3, e_schemaVersion := 1, e_payload := p, e_occurredAt := 8\<rparr>"

definition witness_upcast :: event where
  "witness_upcast = (witness_source ''new'' [1])\<lparr>e_schemaVersion := 2, e_encoding := ''json''\<rparr>"

lemma witness_compiles: "Compile witness_ops = Ok witness_chain"
  by (simp add: witness_ops_def witness_chain_def Compile_def Chain_add_def RenameType_def AddField_def
      RemoveField_def newOpConfig_def WithDecodePolicy_def validateRename_def validateFieldOp_def
      validateSource_def SchemaVersion_IsPositive_def addRename_def addExact_def detectRenameCycles_def
      walkRenames.simps)

lemma witness_upcasts:
  "Chain_upcastAll witness_env witness_chain [witness_source ''old'' [1], witness_source ''gone'' []] =
     Ok [witness_upcast, witness_source ''gone'' []]"
  by (simp add: Chain_upcastAll_def upcastOne.simps Chain_match_def witness_chain_def witness_source_def
      witness_upcast_def witness_env_def witness_field_codec_def rebuild_def New_def Let_def
      marshalPayload_def validateEventParams_def Version_IsZero_def buildEvent_def option_defs
      probeCodec_def zeroEvent_def Event_Encoding_def EncodingJSON_def applyDecodeOp_def
      decodeFieldMap_def encodeFieldMap_def normalizeStringKeyMaps_def applyFieldOp_def
      handleDecodeError_def SchemaVersion_Increment_def metadata_defs overlay_def)

theorem decodeFieldMap_codec_independent_witness:
  "\<exists>env evt evt' fm. Event_Encoding evt \<noteq> Event_Encoding evt' \<and> fm ''a'' = Some (AStrMap [(''k'', ANil)]) \<and>
     decodeFieldMap env evt = Ok fm \<and> decodeFieldMap env evt' = Ok fm"
proof -
  define fm :: fields where "fm = [''a'' \<mapsto> AStrMap [(''k'', ANil)]]"
  define codec_of where "codec_of = (\<lambda>f. witness_field_codec\<lparr>fc_Decode := \<lambda>b. Ok (Some f)\<rparr>)"
  define env where "env = witness_env\<lparr>se_ForEncoding := \<lambda>enc.
     Ok (if enc = ''cbor'' then codec_of (\<lambda>k. map_option as_cbor (fm k)) else codec_of fm)\<rparr>"
  let ?evt = "witness_source ''old'' [1]" and ?evt' = "(witness_source ''old'' [1])\<lparr>e_encoding := ''cbor''\<rparr>"
  have enc: "Event_Encoding ?evt = ''json''" "Event_Encoding ?evt' = ''cbor''"
    by (simp_all add: Event_Encoding_def EncodingJSON_def witness_source_def zeroEvent_def)
  have "decodeFieldMap env ?evt = Ok fm \<and> decodeFieldMap env ?evt' = Ok fm"
    by (rule decodeFieldMap_codec_independent [of _ _ "codec_of fm" _ _ "codec_of (\<lambda>k. map_option as_cbor (fm k))"])
      (simp_all add: env_def enc codec_of_def json_fields_def fm_def)
  then show ?thesis
    using enc by (intro exI [of _ env] exI [of _ ?evt] exI [of _ ?evt'] exI [of _ fm]) (simp add: fm_def)
qed

theorem upcast_idempotent_witness:
  "Chain_upcastAll (witness_env\<lparr>se_now := \<lambda>_. 77\<rparr>) witness_chain [witness_upcast, witness_source ''gone'' []] =
     Ok [witness_upcast, witness_source ''gone'' []]"
  by (rule upcast_idempotent [OF witness_compiles witness_upcasts]) simp

theorem chain_budget_suffices_witness:
  "\<exists>c. Compile witness_ops = Ok c \<and>
     upcastOne witness_env c [0] (witness_source ''old'' [1]) (ch_maxHops c) \<noteq>
       Fail (ErrWrap Corruption ''schema.chain_cycle'' ErrChainCycle)"
proof -
  have "splits_settle witness_ops"
    by (simp add: splits_settle_def witness_ops_def RenameType_def AddField_def RemoveField_def)
  from chain_budget_suffices [OF witness_compiles this] witness_compiles show ?thesis by blast
qed

theorem upcast_preserves_identity_witness:
  "no_split witness_chain \<and>
   (\<exists>parts. [witness_upcast, witness_source ''gone'' []] = concat parts \<and>
     list_all2 (\<lambda>evt part. (\<forall>evt' \<in> set part. inherits evt evt') \<and>
       (no_split witness_chain \<longrightarrow> part = [] \<or> (\<exists>evt'. part = [evt'] \<and> e_id evt' = e_id evt)))
       [witness_source ''old'' [1], witness_source ''gone'' []] parts)"
  using upcast_preserves_identity [OF witness_upcasts]
  by (simp add: no_split_def witness_chain_def)

text \<open>
  The condition on splits is needed: here a rename and three splits that undo it take an event
  through seven steps, all of different operations or schema versions, and the budget of a chain
  of four operations ends at six.
\<close>

definition bounce_ops :: "Op list" where
  "bounce_ops = RenameType ''x'' ''y'' #
     map (\<lambda>v. Split ''y'' v [Producing ''x'' (Some (\<lambda>_ _. Ok (ABytes [1])))]) [1, 2, 3]"

lemma split_rename_exhausts_budget:
  "\<exists>c. Compile bounce_ops = Ok c \<and>
     upcastOne witness_env c [0] (witness_source ''x'' [1]) (ch_maxHops c) = Fail chain_cycle_error \<and>
     (\<exists>evt. upcastOne witness_env c [0] (witness_source ''x'' [1]) (ch_maxHops c + 2) = Ok [evt] \<and>
        e_schemaVersion evt = 4)"
  by (simp add: bounce_ops_def Split_def Producing_def Compile_def Chain_add_def RenameType_def
      newOpConfig_def validateRename_def validateSplit_def validateSource_def
      SchemaVersion_IsPositive_def addRename_def addExact_def detectRenameCycles_def
      walkRenames.simps upcastOne.simps Chain_match_def applySplitOp_def produceSplitOutput_def
      encodeValue_def witness_source_def
      witness_env_def witness_field_codec_def rebuild_def New_def Let_def
      marshalPayload_def validateEventParams_def Version_IsZero_def buildEvent_def option_defs
      probeCodec_def zeroEvent_def Event_Encoding_def EncodingJSON_def
      decodeFieldMap_def normalizeStringKeyMaps_def SchemaVersion_Increment_def)

end
