(* ===== verification/SchemaRegistry.thy ===== *)
theory SchemaRegistry
  imports SchemaChain
begin

text \<open>
  The classic upcasters, \<open>src/schema/registry.go\<close>, \<open>src/schema/upcaster.go\<close> and
  \<open>UpcastSourceTransform\<close>: the registry of upcasters by event type, the loop that applies
  them in the order of their source versions, and the conversion of a chain into upcasters.
  The lemmas show that the converted upcasters do what the chain does, except for the
  pass-through policy.
\<close>

section \<open>Upcasters\<close>

text \<open>
  What an upcaster returns: a nil event, the instance it was given, or another instance. Only
  the identity of the instance tells the last two apart.
\<close>

datatype upcast_result = nil_event | same_instance | new_instance event

record Upcaster =
  u_SourceType :: string
  u_SourceVersion :: SchemaVersion
  u_Upcast :: "event \<Rightarrow> upcast_result outcome"

definition NewUpcaster ::
  "string \<Rightarrow> SchemaVersion \<Rightarrow> (event \<Rightarrow> upcast_result outcome) option \<Rightarrow> Upcaster" where
  "NewUpcaster sourceType sourceVersion upcast =
     \<lparr>u_SourceType = sourceType, u_SourceVersion = sourceVersion,
      u_Upcast = (\<lambda>evt. case upcast of None \<Rightarrow> Fail ErrNilUpcaster | Some f \<Rightarrow> f evt)\<rparr>"

section \<open>The registry\<close>

type_synonym upcasterRegistry = "string \<Rightarrow> Upcaster list"

definition newUpcasterRegistry :: upcasterRegistry where
  "newUpcasterRegistry = (\<lambda>_. [])"

definition registry_register :: "upcasterRegistry \<Rightarrow> Upcaster \<Rightarrow> upcasterRegistry" where
  "registry_register r upcaster =
     (let eventType = u_SourceType upcaster in
      if list_ex (\<lambda>existing. u_SourceVersion existing = u_SourceVersion upcaster) (r eventType) then r
      else r(eventType := sort_key (\<lambda>u. sint (u_SourceVersion u)) (r eventType @ [upcaster])))"

definition newUpcasterRegistryFrom :: "Upcaster option list \<Rightarrow> upcasterRegistry" where
  "newUpcasterRegistryFrom upcasters =
     fold (\<lambda>u reg. case u of None \<Rightarrow> reg | Some u \<Rightarrow> registry_register reg u) upcasters
       newUpcasterRegistry"

definition invalid_result_error :: go_error where
  "invalid_result_error =
     ErrWrap Corruption ''schema.invalid_upcast_result'' ErrInvalidUpcastResult"

fun upcast_loop :: "Upcaster list \<Rightarrow> event \<Rightarrow> event outcome" where
  "upcast_loop [] current = Ok current"
| "upcast_loop (uc # ucs) current =
     (if e_schemaVersion current \<noteq> u_SourceVersion uc then upcast_loop ucs current
      else case u_Upcast uc current of
        Fail err \<Rightarrow> Fail (ErrWrap Corruption ''event.upcast_failed'' err)
      | Panic \<Rightarrow> Panic
      | Ok nil_event \<Rightarrow> Fail invalid_result_error
      | Ok same_instance \<Rightarrow> Fail invalid_result_error
      | Ok (new_instance evt) \<Rightarrow>
          upcast_loop ucs
            (if sint (e_schemaVersion evt) \<le> sint (u_SourceVersion uc)
             then WithSchemaVersion (SchemaVersion_Increment (u_SourceVersion uc)) evt
             else evt))"

definition registry_upcast :: "upcasterRegistry \<Rightarrow> event \<Rightarrow> event outcome" where
  "registry_upcast r evt =
     (let upcasters = r (e_eventType evt) in
      if upcasters = [] then Ok evt else upcast_loop upcasters evt)"

fun registry_upcastAll :: "upcasterRegistry \<Rightarrow> event list \<Rightarrow> event list outcome" where
  "registry_upcastAll r [] = Ok []"
| "registry_upcastAll r (evt # events) =
     obind (wrap_fail (ErrWrap Corruption ''schema.upcast_failed'') (registry_upcast r evt)) (\<lambda>upcasted.
     obind (registry_upcastAll r events) (\<lambda>rest. Ok (upcasted # rest)))"

definition UpcastSourceTransform :: "Upcaster option list \<Rightarrow> event list \<Rightarrow> event list outcome" where
  "UpcastSourceTransform upcasters = registry_upcastAll (newUpcasterRegistryFrom upcasters)"

section \<open>From a chain to upcasters\<close>

definition upcasterFor :: "schema_env \<Rightarrow> string \<times> SchemaVersion \<Rightarrow> Op \<Rightarrow> Upcaster outcome" where
  "upcasterFor env key op =
     (case op of
        splitOp _ _ _ _ \<Rightarrow> Fail batchOpErr
      | _ \<Rightarrow>
          (case decode_policy op of
             None \<Rightarrow> Fail invalidOpErr
           | Some policy \<Rightarrow>
               (if policy = DropOnDecodeError then Fail batchOpErr
                else Ok (NewUpcaster (fst key) (snd key) (Some (\<lambda>evt.
                       obind (applyDecodeOp env [] op policy evt) (\<lambda>(evt', outcome).
                         if outcome = opDone then Ok (new_instance (Event_Clone evt))
                         else Ok (case evt' of None \<Rightarrow> nil_event | Some e \<Rightarrow> new_instance e))))))))"

fun upcasters_of ::
  "schema_env \<Rightarrow> ((string \<times> SchemaVersion) \<times> Op) list \<Rightarrow> Upcaster list outcome" where
  "upcasters_of env [] = Ok []"
| "upcasters_of env ((key, op) # exact) =
     obind (upcasterFor env key op) (\<lambda>converted.
     obind (upcasters_of env exact) (\<lambda>rest. Ok (converted # rest)))"

definition Chain_Upcasters :: "schema_env \<Rightarrow> Chain \<Rightarrow> Upcaster list outcome" where
  "Chain_Upcasters env c =
     (if 0 < length (ch_byType c) then Fail batchOpErr else upcasters_of env (ch_exact c))"

section \<open>What the registry holds\<close>

lemma registry_register_view:
  assumes "\<forall>existing \<in> set (r (u_SourceType u)). u_SourceVersion existing \<noteq> u_SourceVersion u"
  shows "registry_register r u t =
    (if t = u_SourceType u then sort_key (\<lambda>u. sint (u_SourceVersion u)) (r t @ [u]) else r t)"
  using assms by (auto simp: registry_register_def Let_def list_ex_iff)

text \<open>The keys of upcasters; a registry over upcasters with distinct keys keeps all of them.\<close>

definition u_key :: "Upcaster \<Rightarrow> string \<times> SchemaVersion" where
  "u_key u = (u_SourceType u, u_SourceVersion u)"

definition registry_holds :: "upcasterRegistry \<Rightarrow> Upcaster list \<Rightarrow> bool" where
  "registry_holds r us \<longleftrightarrow>
     (\<forall>t. sorted (map (\<lambda>u. sint (u_SourceVersion u)) (r t)) \<and>
          distinct (map u_SourceVersion (r t)) \<and>
          set (r t) = {u \<in> set us. u_SourceType u = t} \<and> length (r t) \<le> length us)"

lemma distinct_map_sort_key: "distinct (map f (sort_key g xs)) = distinct (map f xs)"
  by (simp add: distinct_map distinct_sort)

lemma registry_register_holds:
  assumes r: "registry_holds r us" and new: "u_key u \<notin> u_key ` set us"
  shows "registry_holds (registry_register r u) (us @ [u])"
  unfolding registry_holds_def
proof
  fix t
  have old: "sorted (map (\<lambda>u. sint (u_SourceVersion u)) (r t))" "distinct (map u_SourceVersion (r t))"
    "set (r t) = {u \<in> set us. u_SourceType u = t}" "length (r t) \<le> length us" for t
    using r unfolding registry_holds_def by blast+
  have fresh: "\<forall>existing \<in> set (r (u_SourceType u)). u_SourceVersion existing \<noteq> u_SourceVersion u"
  proof
    fix existing
    assume "existing \<in> set (r (u_SourceType u))"
    then have "existing \<in> set us" "u_SourceType existing = u_SourceType u"
      by (simp_all add: old(3))
    then show "u_SourceVersion existing \<noteq> u_SourceVersion u"
      using new by (metis image_eqI u_key_def)
  qed
  note view = registry_register_view [of r u, OF fresh]
  show "sorted (map (\<lambda>u. sint (u_SourceVersion u)) (registry_register r u t)) \<and>
        distinct (map u_SourceVersion (registry_register r u t)) \<and>
        set (registry_register r u t) = {u' \<in> set (us @ [u]). u_SourceType u' = t} \<and>
        length (registry_register r u t) \<le> length (us @ [u])"
  proof (cases "t = u_SourceType u")
    case True
    have "u_SourceVersion u \<notin> u_SourceVersion ` set (r t)"
      using fresh True by auto
    then show ?thesis
      using True old [of t] by (auto simp: view distinct_map_sort_key)
  next
    case False
    then show ?thesis using old [of t] by (auto simp: view)
  qed
qed

lemma registry_from_holds:
  assumes "distinct (map u_key us)"
  shows "registry_holds (newUpcasterRegistryFrom (map Some us)) us"
  using assms
proof (induction us rule: rev_induct)
  case Nil
  then show ?case
    by (simp add: registry_holds_def newUpcasterRegistryFrom_def newUpcasterRegistry_def)
next
  case (snoc u us)
  have "newUpcasterRegistryFrom (map Some (us @ [u])) =
      registry_register (newUpcasterRegistryFrom (map Some us)) u"
    by (simp add: newUpcasterRegistryFrom_def)
  then show ?case
    using snoc registry_register_holds [of _ us u] by simp
qed

section \<open>The converted upcasters\<close>

text \<open>The upcaster of an operation that converts.\<close>

definition op_upcaster :: "schema_env \<Rightarrow> (string \<times> SchemaVersion) \<times> Op \<Rightarrow> Upcaster" where
  "op_upcaster env kop =
     NewUpcaster (fst (fst kop)) (snd (fst kop)) (Some (\<lambda>evt.
       obind (applyDecodeOp env [] (snd kop) (the (decode_policy (snd kop))) evt) (\<lambda>(evt', outcome).
         if outcome = opDone then Ok (new_instance (Event_Clone evt))
         else Ok (case evt' of None \<Rightarrow> nil_event | Some e \<Rightarrow> new_instance e))))"

lemma upcasterFor_Ok:
  "upcasterFor env key op = Ok u \<longleftrightarrow>
     u = op_upcaster env (key, op) \<and> decode_policy op \<noteq> None \<and> decode_policy op \<noteq> Some DropOnDecodeError"
  by (cases op) (auto simp: upcasterFor_def op_upcaster_def)

lemma upcasters_of_Ok:
  assumes "upcasters_of env exact = Ok us"
  shows "us = map (op_upcaster env) exact" and
    "\<forall>(k, op) \<in> set exact. decode_policy op \<noteq> None \<and> decode_policy op \<noteq> Some DropOnDecodeError"
proof -
  have "us = map (op_upcaster env) exact \<and>
    (\<forall>kop \<in> set exact. decode_policy (snd kop) \<noteq> None \<and> decode_policy (snd kop) \<noteq> Some DropOnDecodeError)"
    using assms
  proof (induction exact arbitrary: us)
    case (Cons kop exact)
    obtain k op where kop: "kop = (k, op)" by (cases kop)
    from Cons.prems obtain u rest where "upcasterFor env k op = Ok u"
      "upcasters_of env exact = Ok rest" "us = u # rest"
      by (auto simp: kop obind_Ok_iff)
    then show ?case
      using Cons.IH [of rest] by (simp add: kop upcasterFor_Ok)
  qed simp
  then show "us = map (op_upcaster env) exact" and
    "\<forall>(k, op) \<in> set exact. decode_policy op \<noteq> None \<and> decode_policy op \<noteq> Some DropOnDecodeError"
    by auto
qed

lemma u_key_op_upcaster [simp]:
  "u_key (op_upcaster env kop) = fst kop"
  "u_SourceType (op_upcaster env kop) = fst (fst kop)"
  "u_SourceVersion (op_upcaster env kop) = snd (fst kop)"
  by (simp_all add: u_key_def op_upcaster_def NewUpcaster_def)

text \<open>The place where an event is rebuilt matters only for an event without a timestamp.\<close>

lemma rebuild_path:
  "e_occurredAt evt \<noteq> 0 \<Longrightarrow> rebuild env path evt payload t sv = rebuild env path' evt payload t sv"
  by (auto simp: rebuild_def New_def Let_def marshalPayload_def buildEvent_def option_defs
      probeCodec_def zeroEvent_def validateEventParams_def Event_Encoding_def EncodingJSON_def)

lemma applyDecodeOp_path:
  "e_occurredAt evt \<noteq> 0 \<Longrightarrow> applyDecodeOp env path op policy evt = applyDecodeOp env path' op policy evt"
  using rebuild_path [of evt env path _ _ _ path']
  by (simp add: applyDecodeOp_def split: outcome.split)

text \<open>One step of the chain and of the upcaster of the same operation.\<close>

lemma upcaster_step:
  assumes "decode_policy op = Some policy" and "policy \<noteq> DropOnDecodeError"
    and "policy \<noteq> PassthroughOnDecodeError" and "e_occurredAt evt \<noteq> 0"
  shows "(\<exists>evt'. u_Upcast (op_upcaster env (k, op)) evt = Ok (new_instance evt') \<and>
             applyOp env path op evt = Ok ([Some evt'], opContinue) \<and>
             e_eventType evt' = e_eventType evt \<and> e_occurredAt evt' \<noteq> 0 \<and>
             e_schemaVersion evt' = SchemaVersion_Increment (e_schemaVersion evt)) \<or>
         (\<exists>e. u_Upcast (op_upcaster env (k, op)) evt = Fail e \<and> applyOp env path op evt = Fail e) \<or>
         (u_Upcast (op_upcaster env (k, op)) evt = Panic \<and> applyOp env path op evt = Panic)"
proof -
  have ap: "applyOp env path op evt =
      obind (applyDecodeOp env [] op policy evt) (\<lambda>(evt', outcome). Ok ([evt'], outcome))"
    using assms(1) applyDecodeOp_path [OF assms(4), of env "0 # path" op policy "[]"]
    by (cases op) simp_all
  have up: "u_Upcast (op_upcaster env (k, op)) evt =
      obind (applyDecodeOp env [] op policy evt) (\<lambda>(evt', outcome).
         if outcome = opDone then Ok (new_instance (Event_Clone evt))
         else Ok (case evt' of None \<Rightarrow> nil_event | Some e \<Rightarrow> new_instance e))"
    using assms(1) by (simp add: op_upcaster_def NewUpcaster_def)
  show ?thesis
  proof (cases "applyDecodeOp env [] op policy evt")
    case (Ok res)
    then obtain payload evt' where res: "res = (Some evt', opContinue)"
      and rb: "rebuild env [] evt payload (e_eventType evt)
        (SchemaVersion_Increment (e_schemaVersion evt)) = Ok evt'"
      using assms(2,3)
      by (auto simp: applyDecodeOp_def handleDecodeError_def obind_Ok_iff
          split: outcome.splits DecodeErrorPolicy.splits)
    show ?thesis
      using rebuild_Ok [OF rb] assms(4) unfolding ap up Ok res by simp
  qed (simp_all add: ap up)
qed

section \<open>The registry does what the chain does\<close>

lemma upcast_loop_skip:
  "\<forall>u \<in> set ucs. u_SourceVersion u \<noteq> e_schemaVersion evt \<Longrightarrow> upcast_loop ucs evt = Ok evt"
  by (induction ucs) auto

text \<open>A chain of converting operations none of which passes events through.\<close>

definition strict_chain :: "Chain \<Rightarrow> bool" where
  "strict_chain c \<longleftrightarrow> ch_byType c = [] \<and>
     (\<forall>(k, op) \<in> set (ch_exact c). \<exists>policy. decode_policy op = Some policy \<and>
        policy \<noteq> DropOnDecodeError \<and> policy \<noteq> PassthroughOnDecodeError)"

lemma sint_inj: "sint (a :: u64) = sint b \<Longrightarrow> a = b"
  using word_of_int_sint_add [of a 0] word_of_int_sint_add [of b 0] by simp

lemma strict_match:
  assumes "chain_wf ops c" and "strict_chain c"
  shows "Chain_match c evt = Some op \<longleftrightarrow> ((e_eventType evt, e_schemaVersion evt), op) \<in> set (ch_exact c)"
proof -
  have "Chain_match c evt = map_of (ch_exact c) (e_eventType evt, e_schemaVersion evt)"
    using assms(2) by (simp add: Chain_match_def strict_chain_def split: option.split)
  then show ?thesis
    using map_of_eq_Some_iff [OF chain_wfD(1) [OF assms(1)]] by simp
qed

lemma loop_is_chain:
  assumes wf: "chain_wf ops c" and strict: "strict_chain c"
  shows "set ucs \<subseteq> {u \<in> set (map (op_upcaster env) (ch_exact c)). u_SourceType u = e_eventType evt} \<Longrightarrow>
     sorted (map (\<lambda>u. sint (u_SourceVersion u)) ucs) \<Longrightarrow> distinct (map u_SourceVersion ucs) \<Longrightarrow>
     (\<And>v op. ((e_eventType evt, v), op) \<in> set (ch_exact c) \<Longrightarrow> 0 < sint (e_schemaVersion evt) \<Longrightarrow>
        sint (e_schemaVersion evt) \<le> sint v \<Longrightarrow> v \<in> u_SourceVersion ` set ucs) \<Longrightarrow>
     e_occurredAt evt \<noteq> 0 \<Longrightarrow> int (length ucs) \<le> budget \<Longrightarrow>
     upcastOne env c path evt budget = Ok evts \<longleftrightarrow> (\<exists>evt'. upcast_loop ucs evt = Ok evt' \<and> evts = [evt'])"
proof (induction ucs arbitrary: evt path budget)
  case Nil
  have "Chain_match c evt = None"
  proof (rule ccontr)
    assume "Chain_match c evt \<noteq> None"
    then obtain op where "((e_eventType evt, e_schemaVersion evt), op) \<in> set (ch_exact c)"
      using strict_match [OF wf strict] by blast
    with Nil.prems(4) [OF this] chain_wfD(6) [OF wf this] show False by simp
  qed
  then show ?case
    using Nil.prems(6) by (auto simp: upcastOne.simps)
next
  case (Cons u ucs)
  from Cons.prems(1) obtain k op where u: "u = op_upcaster env (k, op)"
    and kop: "(k, op) \<in> set (ch_exact c)" and ty: "fst k = e_eventType evt"
    by auto
  have later: "sint (u_SourceVersion u) < sint (u_SourceVersion u')" if "u' \<in> set ucs" for u'
  proof -
    have "sint (u_SourceVersion u) \<le> sint (u_SourceVersion u')"
      using Cons.prems(2) that by simp
    moreover have "u_SourceVersion u \<noteq> u_SourceVersion u'"
      using Cons.prems(3) that by auto
    ultimately show ?thesis
      using sint_inj by (metis order_less_le)
  qed
  have pos: "0 < sint (u_SourceVersion u)"
    using chain_wfD(6) [OF wf kop] by (simp add: u)
  consider (below) "sint (u_SourceVersion u) < sint (e_schemaVersion evt)"
    | (at) "u_SourceVersion u = e_schemaVersion evt"
    | (above) "sint (e_schemaVersion evt) < sint (u_SourceVersion u)"
      "u_SourceVersion u \<noteq> e_schemaVersion evt"
    using sint_inj by (metis linorder_less_linear)
  then show ?case
  proof cases
    case below
    have "upcastOne env c path evt budget = Ok evts \<longleftrightarrow> (\<exists>evt'. upcast_loop ucs evt = Ok evt' \<and> evts = [evt'])"
    proof (rule Cons.IH)
      show "v \<in> u_SourceVersion ` set ucs"
        if "((e_eventType evt, v), op) \<in> set (ch_exact c)" "0 < sint (e_schemaVersion evt)"
          "sint (e_schemaVersion evt) \<le> sint v" for v op
        using Cons.prems(4) [OF that] below that(3) by auto
    qed (use Cons.prems in auto)
    then show ?thesis using below by auto
  next
    case above
    have "Chain_match c evt = None"
    proof (rule ccontr)
      assume "Chain_match c evt \<noteq> None"
      then obtain op' where m: "((e_eventType evt, e_schemaVersion evt), op') \<in> set (ch_exact c)"
        using strict_match [OF wf strict] by blast
      have "e_schemaVersion evt \<in> u_SourceVersion ` set (u # ucs)"
        using Cons.prems(4) [OF m] chain_wfD(6) [OF wf m] by simp
      then obtain u' where "u' \<in> set (u # ucs)" "u_SourceVersion u' = e_schemaVersion evt"
        by (metis imageE)
      with above later [of u'] show False by auto
    qed
    moreover have "upcast_loop (u # ucs) evt = Ok evt"
      using above later by (intro upcast_loop_skip) fastforce
    ultimately show ?thesis
      using Cons.prems(6) by (auto simp: upcastOne.simps)
  next
    case at
    then have key: "k = (e_eventType evt, e_schemaVersion evt)"
      using ty by (simp add: u prod_eq_iff)
    then have m: "Chain_match c evt = Some op"
      using kop strict_match [OF wf strict] by simp
    obtain policy where "decode_policy op = Some policy" "policy \<noteq> DropOnDecodeError"
      "policy \<noteq> PassthroughOnDecodeError"
      using strict kop by (auto simp: strict_chain_def)
    from upcaster_step [OF this Cons.prems(5), of env k path]
    consider (step) evt' where "u_Upcast u evt = Ok (new_instance evt')"
        "applyOp env path op evt = Ok ([Some evt'], opContinue)"
        "e_eventType evt' = e_eventType evt" "e_occurredAt evt' \<noteq> 0"
        "e_schemaVersion evt' = SchemaVersion_Increment (e_schemaVersion evt)"
      | (fail) e where "u_Upcast u evt = Fail e" "applyOp env path op evt = Fail e"
      | (panic) "u_Upcast u evt = Panic" "applyOp env path op evt = Panic"
      unfolding u by blast
    then show ?thesis
    proof cases
      case step
      have stamp: "(if sint (e_schemaVersion evt') \<le> sint (u_SourceVersion u)
             then WithSchemaVersion (SchemaVersion_Increment (u_SourceVersion u)) evt' else evt') = evt'"
        using step(5) at by (simp add: WithSchemaVersion_def)
      have "upcastOne env c (0 # path) evt' (budget - 1) = Ok evts \<longleftrightarrow>
          (\<exists>evt''. upcast_loop ucs evt' = Ok evt'' \<and> evts = [evt''])"
      proof (rule Cons.IH)
        show "v \<in> u_SourceVersion ` set ucs"
          if "((e_eventType evt', v), op) \<in> set (ch_exact c)" "0 < sint (e_schemaVersion evt')"
            "sint (e_schemaVersion evt') \<le> sint v" for v op
        proof -
          have "sint (e_schemaVersion evt') = sint (e_schemaVersion evt) + 1"
            using sint_increment [of "e_schemaVersion evt"] that(2) step(5) pos at by auto
          then show ?thesis
            using Cons.prems(4) [of v op] that pos at step(3) by auto
        qed
      qed (use Cons.prems step in auto)
      then show ?thesis
        using step m at stamp Cons.prems(6) upcastOne.simps [of env c path evt budget] by simp
    qed (use m at Cons.prems(6) upcastOne.simps [of env c path evt budget] in simp_all)
  qed
qed


lemma registry_upcast_is_chain:
  assumes wf: "chain_wf ops c" and strict: "strict_chain c"
    and us: "us = map (op_upcaster env) (ch_exact c)" and time: "e_occurredAt evt \<noteq> 0"
    and budget: "int (length ops) \<le> budget"
  shows "upcastOne env c path evt budget = Ok evts \<longleftrightarrow>
     (\<exists>evt'. registry_upcast (newUpcasterRegistryFrom (map Some us)) evt = Ok evt' \<and> evts = [evt'])"
proof -
  let ?ucs = "newUpcasterRegistryFrom (map Some us) (e_eventType evt)"
  have "distinct (map u_key us)"
    using chain_wfD(1) [OF wf] by (simp add: us comp_def)
  from registry_from_holds [OF this]
  have held: "sorted (map (\<lambda>u. sint (u_SourceVersion u)) ?ucs)" "distinct (map u_SourceVersion ?ucs)"
    "set ?ucs = {u \<in> set us. u_SourceType u = e_eventType evt}" "length ?ucs \<le> length us"
    unfolding registry_holds_def by blast+
  have "upcastOne env c path evt budget = Ok evts \<longleftrightarrow> (\<exists>evt'. upcast_loop ?ucs evt = Ok evt' \<and> evts = [evt'])"
  proof (rule loop_is_chain [OF wf strict _ held(1,2) _ time])
    show "set ?ucs \<subseteq> {u \<in> set (map (op_upcaster env) (ch_exact c)). u_SourceType u = e_eventType evt}"
      unfolding held(3) by (simp add: us)
    show "v \<in> u_SourceVersion ` set ?ucs" if "((e_eventType evt, v), op) \<in> set (ch_exact c)" for v op
    proof
      show "op_upcaster env ((e_eventType evt, v), op) \<in> set ?ucs"
        unfolding held(3) using that by (simp add: us)
    qed simp
    show "int (length ?ucs) \<le> budget"
      using held(4) budget chain_wfD(9) [OF wf] by (simp add: us)
  qed
  moreover have "registry_upcast (newUpcasterRegistryFrom (map Some us)) evt = upcast_loop ?ucs evt"
    by (simp add: registry_upcast_def Let_def)
  ultimately show ?thesis by simp
qed

text \<open>
  The upcasters a chain converts into do what the chain does: when the conversion succeeds
  and no operation has the pass-through policy, a batch of timestamped events upcasts to the
  same events through the registry of these upcasters as through the chain itself, and one
  fails exactly when the other does.
\<close>

theorem Upcasters_equiv_chain:
  assumes c: "Compile ops = Ok c" and us: "Chain_Upcasters env c = Ok us"
    and "\<forall>op \<in> set ops. decode_policy op \<noteq> Some PassthroughOnDecodeError"
    and "\<forall>evt \<in> set evts. e_occurredAt evt \<noteq> 0"
  shows "UpcastSourceTransform (map Some us) evts = Ok evts' \<longleftrightarrow> Chain_upcastAll env c evts = Ok evts'"
proof -
  note wf = Compile_wf(1) [OF c]
  have types: "ch_byType c = []" and conv: "upcasters_of env (ch_exact c) = Ok us"
    using us by (auto simp: Chain_Upcasters_def split: if_splits)
  have strict: "strict_chain c"
    using upcasters_of_Ok(2) [OF conv] assms(3) chain_wfD(6) [OF wf] types
    unfolding strict_chain_def by fastforce
  note step = registry_upcast_is_chain [OF wf strict upcasters_of_Ok(1) [OF conv]]
  have "registry_upcastAll (newUpcasterRegistryFrom (map Some us)) evts = Ok evts' \<longleftrightarrow>
        upcastAll_from env c i evts = Ok evts'" for i
    using assms(4)
  proof (induction evts arbitrary: i evts')
    case (Cons evt evts)
    have "upcastOne env c [i] evt (ch_maxHops c) = Ok part \<longleftrightarrow>
        (\<exists>evt'. registry_upcast (newUpcasterRegistryFrom (map Some us)) evt = Ok evt' \<and> part = [evt'])"
      for part
      using step [of evt "ch_maxHops c" "[i]" part] Cons.prems Compile_wf(2) [OF c] by simp
    then show ?case
      using Cons.IH [of _ "Suc i"] Cons.prems by (auto simp: obind_Ok_iff)
  qed simp
  then show ?thesis
    by (simp add: UpcastSourceTransform_def Chain_upcastAll_def)
qed

definition strict_ops :: "Op list" where
  "strict_ops = [AddField ''new'' 1 ''x'' ANil [], RemoveField ''new'' 2 ''y'' []]"

theorem Upcasters_equiv_chain_witness:
  "\<exists>c us evt. Compile strict_ops = Ok c \<and> Chain_Upcasters witness_env c = Ok us \<and>
     e_schemaVersion evt = 3 \<and>
     UpcastSourceTransform (map Some us) [witness_source ''new'' [1]] = Ok [evt] \<and>
     Chain_upcastAll witness_env c [witness_source ''new'' [1]] = Ok [evt]"
proof -
  define c where "c = \<lparr>ch_exact =
      [((''new'', 2 :: SchemaVersion), fieldOp FailOnDecodeError ''new'' 2 fieldRemove ''y'' [] ANil),
       ((''new'', 1), fieldOp FailOnDecodeError ''new'' 1 fieldAdd ''x'' [] ANil)],
      ch_byType = [], ch_renames = [], ch_targets = [], ch_maxHops = 3\<rparr>"
  define evt where "evt = (witness_source ''new'' [1])\<lparr>e_schemaVersion := 3, e_encoding := ''json''\<rparr>"
  have comp: "Compile strict_ops = Ok c"
    by (simp add: strict_ops_def c_def Compile_def Chain_add_def AddField_def RemoveField_def
        newOpConfig_def validateFieldOp_def validateSource_def SchemaVersion_IsPositive_def
        addExact_def detectRenameCycles_def)
  obtain us where us: "Chain_Upcasters witness_env c = Ok us"
    by (simp add: Chain_Upcasters_def c_def upcasterFor_def)
  have chain: "Chain_upcastAll witness_env c [witness_source ''new'' [1]] = Ok [evt]"
    by (simp add: Chain_upcastAll_def upcastOne.simps Chain_match_def c_def witness_source_def
      evt_def witness_env_def witness_field_codec_def rebuild_def New_def Let_def
      marshalPayload_def validateEventParams_def Version_IsZero_def buildEvent_def option_defs
      probeCodec_def zeroEvent_def Event_Encoding_def EncodingJSON_def applyDecodeOp_def
      decodeFieldMap_def encodeFieldMap_def normalizeStringKeyMaps_def applyFieldOp_def
      SchemaVersion_Increment_def metadata_defs overlay_def)
  have "\<forall>op \<in> set strict_ops. decode_policy op \<noteq> Some PassthroughOnDecodeError"
    by (simp add: strict_ops_def AddField_def RemoveField_def newOpConfig_def)
  moreover have "\<forall>evt \<in> set [witness_source ''new'' [1]]. e_occurredAt evt \<noteq> 0"
    by (simp add: witness_source_def)
  ultimately have "UpcastSourceTransform (map Some us) [witness_source ''new'' [1]] = Ok [evt]"
    using Upcasters_equiv_chain [OF comp us] chain by blast
  then show ?thesis
    using comp us chain by (intro exI [of _ c] exI [of _ us] exI [of _ evt]) (simp add: evt_def)
qed

text \<open>
  The exception is real: an event whose payload does not decode is passed through unchanged by
  the chain, and comes out of the registry with its schema version raised, because the registry
  stamps the clone that the converted upcaster returns.
\<close>

definition passthrough_ops :: "Op list" where
  "passthrough_ops = [RemoveField ''gone'' 1 ''x'' [WithDecodePolicy PassthroughOnDecodeError]]"

lemma passthrough_restamped:
  "\<exists>c us evt. Compile passthrough_ops = Ok c \<and> Chain_Upcasters witness_env c = Ok us \<and>
     Chain_upcastAll witness_env c [witness_source ''gone'' []] = Ok [witness_source ''gone'' []] \<and>
     UpcastSourceTransform (map Some us) [witness_source ''gone'' []] = Ok [evt] \<and>
     e_schemaVersion (witness_source ''gone'' []) = 1 \<and> e_schemaVersion evt = 2"
  by (simp add: passthrough_ops_def Compile_def Chain_add_def RemoveField_def
        newOpConfig_def WithDecodePolicy_def validateFieldOp_def validateSource_def
        SchemaVersion_IsPositive_def
        addExact_def detectRenameCycles_def Chain_Upcasters_def upcasterFor_def Chain_upcastAll_def
        upcastOne.simps Chain_match_def applyDecodeOp_def handleDecodeError_def decodeFieldMap_def
        witness_source_def witness_env_def witness_field_codec_def zeroEvent_def
        UpcastSourceTransform_def newUpcasterRegistryFrom_def registry_register_def
        newUpcasterRegistry_def Let_def registry_upcast_def NewUpcaster_def Event_Clone_def
        Metadata_Clone_def WithSchemaVersion_def SchemaVersion_Increment_def)

end
