(* ===== verification/DecoratedStore.thy ===== *)
theory DecoratedStore
  imports MemoryStore
begin

text \<open>
  Stores and journals with transforms: \<open>DecorateStore\<close> and \<open>DecorateJournal\<close> of
  \<open>src/event\<close> (\<open>store_middleware.go\<close>, \<open>store_middleware_streaming.go\<close>,
  \<open>journal_middleware.go\<close>) over any inner store, and the iterator that applies a transform
  chunk by chunk. The locale \<open>chunk_transform\<close> states what a transform must satisfy for the
  streaming reads to agree with the slice reads; the lemmas show that agreement and the round
  trip of a store with inverse transforms.
\<close>

section \<open>Inner stores\<close>

type_synonym transform = "event list \<Rightarrow> event list outcome"

text \<open>
  An inner store with state \<open>'s\<close>: the methods of \<open>event.Store\<close>, and the optional interfaces
  it may implement. An iterator has the state \<open>'it\<close>; \<open>in_next\<close> and \<open>in_iter_close\<close> are
  its methods.
\<close>

record ('s, 'it) inner_store =
  in_Save :: "'s \<Rightarrow> StreamRef \<Rightarrow> event list \<Rightarrow> Version \<Rightarrow> 's \<times> go_error option"
  in_AppendBatch :: "'s \<Rightarrow> StreamRef \<Rightarrow> event list \<Rightarrow> 's \<times> go_error option"
  in_Load :: "'s \<Rightarrow> StreamRef \<Rightarrow> event list outcome"
  in_LoadFromVersion :: "'s \<Rightarrow> StreamRef \<Rightarrow> Version \<Rightarrow> event list outcome"
  in_LoadToVersion :: "'s \<Rightarrow> StreamRef \<Rightarrow> Version \<Rightarrow> event list outcome"
  in_LoadToTimestamp :: "'s \<Rightarrow> StreamRef \<Rightarrow> instant \<Rightarrow> event list outcome"
  in_MultiSink :: "('s \<Rightarrow> MultiBatchEntry list \<Rightarrow> 's \<times> go_error option) option"
  in_Journal :: "('s \<Rightarrow> event list outcome) option"
  in_SeekableJournal :: "('s \<Rightarrow> ulid \<Rightarrow> int \<Rightarrow> event list outcome) option"
  in_BackwardsSource :: "('s \<Rightarrow> StreamRef \<Rightarrow> event list outcome) option"
  in_StreamingSource ::
    "(('s \<Rightarrow> StreamRef \<Rightarrow> 'it outcome) \<times> ('s \<Rightarrow> StreamRef \<Rightarrow> Version \<Rightarrow> 'it outcome)) option"
  in_StreamingJournal ::
    "(('s \<Rightarrow> 'it outcome) \<times> ('s \<Rightarrow> ulid \<Rightarrow> int \<Rightarrow> 'it outcome)) option"
  in_Closer :: "('s \<Rightarrow> 's \<times> go_error option) option"

definition ErrInnerStoreNotJournal :: go_error where
  "ErrInnerStoreNotJournal = ErrNew Rejection ''event.inner_store_not_journal''"

definition ErrInnerStoreNotSeekable :: go_error where
  "ErrInnerStoreNotSeekable = ErrNew Rejection ''event.inner_store_not_seekable''"

definition ErrInnerStoreNotBackwards :: go_error where
  "ErrInnerStoreNotBackwards = ErrNew Rejection ''event.inner_store_not_backwards''"

definition ErrInnerStoreNotMultiSink :: go_error where
  "ErrInnerStoreNotMultiSink = ErrNew Rejection ''event.inner_store_not_multi_sink''"

definition ErrInnerStoreNotStreaming :: go_error where
  "ErrInnerStoreNotStreaming = ErrNew Rejection ''event.inner_store_not_streaming''"

section \<open>The transforming iterator\<close>

definition journalTransformChunkSize :: nat where
  "journalTransformChunkSize = 128"

text \<open>The methods of an iterator with state \<open>'it\<close>.\<close>

record 'it iter_ops =
  io_Next :: "'it \<Rightarrow> 'it \<times> event outcome"
  io_Close :: "'it \<Rightarrow> 'it \<times> go_error option"

record 'it transformingIterator =
  ti_inner :: 'it
  ti_pending :: "event list"
  ti_exhausted :: bool

text \<open>
  The loop that pulls one chunk: \<open>n\<close> events are still missing. The results are the inner
  iterator, whether it is exhausted, and the chunk or the error of the inner iterator.
\<close>

fun pull_chunk ::
  "'it iter_ops \<Rightarrow> nat \<Rightarrow> 'it \<Rightarrow> event list \<Rightarrow> 'it \<times> bool \<times> event list outcome" where
  "pull_chunk ops 0 it chunk = (it, False, Ok chunk)"
| "pull_chunk ops (Suc n) it chunk =
     (case io_Next ops it of
        (it', Fail err) \<Rightarrow>
          if errors_Is err io_EOF then (it', True, Ok chunk) else (it', False, Fail err)
      | (it', Panic) \<Rightarrow> (it', False, Panic)
      | (it', Ok evt) \<Rightarrow> pull_chunk ops n it' (chunk @ [evt]))"

text \<open>
  \<open>Next\<close> pulls chunks until one of them gives an event; over an inner iterator that never
  ends this may take forever.
\<close>

partial_function (option) transforming_Next ::
  "'it iter_ops \<Rightarrow> transform \<Rightarrow> 'it transformingIterator \<Rightarrow>
   ('it transformingIterator \<times> event outcome) option" where
  "transforming_Next ops sourceT it =
     (case ti_pending it of
        evt # rest \<Rightarrow> Some (it\<lparr>ti_pending := rest\<rparr>, Ok evt)
      | [] \<Rightarrow>
          if ti_exhausted it then Some (it, Fail io_EOF)
          else case pull_chunk ops journalTransformChunkSize (ti_inner it) [] of
            (inner, _, Fail err) \<Rightarrow> Some (it\<lparr>ti_inner := inner\<rparr>, Fail err)
          | (inner, _, Panic) \<Rightarrow> Some (it\<lparr>ti_inner := inner\<rparr>, Panic)
          | (inner, exhausted, Ok chunk) \<Rightarrow>
              let it' = it\<lparr>ti_inner := inner, ti_exhausted := exhausted\<rparr> in
              if length chunk = 0 then transforming_Next ops sourceT it'
              else case sourceT chunk of
                Fail err \<Rightarrow> Some (it', Fail err)
              | Panic \<Rightarrow> Some (it', Panic)
              | Ok transformed \<Rightarrow> transforming_Next ops sourceT (it'\<lparr>ti_pending := transformed\<rparr>))"

definition transforming_Close ::
  "'it iter_ops \<Rightarrow> 'it transformingIterator \<Rightarrow> 'it transformingIterator \<times> go_error option" where
  "transforming_Close ops it =
     (case io_Close ops (ti_inner it) of
        (inner, err) \<Rightarrow> (\<lparr>ti_inner = inner, ti_pending = [], ti_exhausted = True\<rparr>, err))"

definition new_transforming :: "'it \<Rightarrow> 'it transformingIterator" where
  "new_transforming it = \<lparr>ti_inner = it, ti_pending = [], ti_exhausted = False\<rparr>"

text \<open>A streaming read returns the inner iterator itself or one that transforms it.\<close>

datatype 'it event_iterator = plain_iterator 'it | transformed_iterator "'it transformingIterator"

section \<open>Decorated stores\<close>

record ('s, 'it) decoratedStore =
  d_inner :: "('s, 'it) inner_store"
  d_sinkT :: "transform option"
  d_sourceT :: "transform option"

text \<open>\<open>DecorateStore\<close> returns the store itself when there is nothing to apply.\<close>

definition DecorateStore ::
  "('s, 'it) inner_store option \<Rightarrow> transform option \<Rightarrow> transform option \<Rightarrow>
   (('s, 'it) inner_store + ('s, 'it) decoratedStore) outcome" where
  "DecorateStore store sinkT sourceT =
     (case store of
        None \<Rightarrow> Panic
      | Some st \<Rightarrow>
          if sinkT = None \<and> sourceT = None then Ok (Inl st)
          else Ok (Inr \<lparr>d_inner = st, d_sinkT = sinkT, d_sourceT = sourceT\<rparr>))"

definition applySink :: "('s, 'it) decoratedStore \<Rightarrow> event list \<Rightarrow> event list outcome" where
  "applySink d events = (case d_sinkT d of None \<Rightarrow> Ok events | Some t \<Rightarrow> t events)"

definition applySource :: "transform option \<Rightarrow> event list outcome \<Rightarrow> event list outcome" where
  "applySource sourceT loaded =
     obind loaded (\<lambda>events. case sourceT of None \<Rightarrow> Ok events | Some t \<Rightarrow> t events)"

text \<open>A write goes to the inner store unless the sink transform fails.\<close>

fun sink_then ::
  "event list outcome \<Rightarrow> 's \<Rightarrow> (event list \<Rightarrow> 's \<times> go_error option) \<Rightarrow>
   ('s \<times> go_error option) outcome" where
  "sink_then (Ok transformed) s k = Ok (k transformed)"
| "sink_then (Fail err) s k = Ok (s, Some err)"
| "sink_then Panic s k = Panic"

definition decorated_Save ::
  "('s, 'it) decoratedStore \<Rightarrow> 's \<Rightarrow> StreamRef \<Rightarrow> event list \<Rightarrow> Version \<Rightarrow>
   ('s \<times> go_error option) outcome" where
  "decorated_Save d s ref events expectedVersion =
     sink_then (applySink d events) s (\<lambda>transformed. in_Save (d_inner d) s ref transformed expectedVersion)"

definition decorated_AppendBatch ::
  "('s, 'it) decoratedStore \<Rightarrow> 's \<Rightarrow> StreamRef \<Rightarrow> event list \<Rightarrow> ('s \<times> go_error option) outcome" where
  "decorated_AppendBatch d s ref events =
     sink_then (applySink d events) s (\<lambda>transformed. in_AppendBatch (d_inner d) s ref transformed)"

fun sink_entries ::
  "('s, 'it) decoratedStore \<Rightarrow> MultiBatchEntry list \<Rightarrow> MultiBatchEntry list outcome" where
  "sink_entries d [] = Ok []"
| "sink_entries d (entry # entries) =
     obind (applySink d (mbe_Events entry)) (\<lambda>events.
     obind (sink_entries d entries) (\<lambda>rest.
       Ok (\<lparr>mbe_Ref = mbe_Ref entry, mbe_Events = events\<rparr> # rest)))"

definition decorated_SaveMultiBatch ::
  "('s, 'it) decoratedStore \<Rightarrow> 's \<Rightarrow> MultiBatchEntry list \<Rightarrow> ('s \<times> go_error option) outcome" where
  "decorated_SaveMultiBatch d s entries =
     (case in_MultiSink (d_inner d) of
        None \<Rightarrow> Ok (s, Some (ErrWrap Rejection ''event.store_not_multi_sink'' ErrInnerStoreNotMultiSink))
      | Some saveMultiBatch \<Rightarrow>
          (case sink_entries d entries of
             Ok transformed \<Rightarrow> Ok (saveMultiBatch s transformed)
           | Fail err \<Rightarrow> Ok (s, Some err)
           | Panic \<Rightarrow> Panic))"

definition decorated_Load :: "('s, 'it) decoratedStore \<Rightarrow> 's \<Rightarrow> StreamRef \<Rightarrow> event list outcome" where
  "decorated_Load d s ref = applySource (d_sourceT d) (in_Load (d_inner d) s ref)"

definition decorated_LoadFromVersion ::
  "('s, 'it) decoratedStore \<Rightarrow> 's \<Rightarrow> StreamRef \<Rightarrow> Version \<Rightarrow> event list outcome" where
  "decorated_LoadFromVersion d s ref version =
     applySource (d_sourceT d) (in_LoadFromVersion (d_inner d) s ref version)"

definition decorated_LoadToVersion ::
  "('s, 'it) decoratedStore \<Rightarrow> 's \<Rightarrow> StreamRef \<Rightarrow> Version \<Rightarrow> event list outcome" where
  "decorated_LoadToVersion d s ref maxVersion =
     applySource (d_sourceT d) (in_LoadToVersion (d_inner d) s ref maxVersion)"

definition decorated_LoadToTimestamp ::
  "('s, 'it) decoratedStore \<Rightarrow> 's \<Rightarrow> StreamRef \<Rightarrow> instant \<Rightarrow> event list outcome" where
  "decorated_LoadToTimestamp d s ref maxTime =
     applySource (d_sourceT d) (in_LoadToTimestamp (d_inner d) s ref maxTime)"

definition decorated_ReadAll :: "('s, 'it) decoratedStore \<Rightarrow> 's \<Rightarrow> event list outcome" where
  "decorated_ReadAll d s =
     (case in_Journal (d_inner d) of
        None \<Rightarrow> Fail (ErrWrap Rejection ''event.store_not_journal'' ErrInnerStoreNotJournal)
      | Some readAll \<Rightarrow> applySource (d_sourceT d) (readAll s))"

definition seekableReadFrom ::
  "('s \<Rightarrow> ulid \<Rightarrow> int \<Rightarrow> event list outcome) option \<Rightarrow> 's \<Rightarrow> ulid \<Rightarrow> int \<Rightarrow> string \<Rightarrow>
   event list outcome" where
  "seekableReadFrom seekable s afterEventID limit noun =
     (case seekable of
        None \<Rightarrow> Fail (ErrWrap Rejection (''event.'' @ noun @ ''_not_seekable'') ErrInnerStoreNotSeekable)
      | Some readFrom \<Rightarrow> readFrom s afterEventID limit)"

definition decorated_ReadFrom ::
  "('s, 'it) decoratedStore \<Rightarrow> 's \<Rightarrow> ulid \<Rightarrow> int \<Rightarrow> event list outcome" where
  "decorated_ReadFrom d s afterEventID limit =
     applySource (d_sourceT d)
       (seekableReadFrom (in_SeekableJournal (d_inner d)) s afterEventID limit ''store'')"

definition decorated_LoadBackwards ::
  "('s, 'it) decoratedStore \<Rightarrow> 's \<Rightarrow> StreamRef \<Rightarrow> event list outcome" where
  "decorated_LoadBackwards d s ref =
     (case in_BackwardsSource (d_inner d) of
        None \<Rightarrow> Fail (ErrWrap Rejection ''event.store_not_backwards'' ErrInnerStoreNotBackwards)
      | Some loadBackwards \<Rightarrow> applySource (d_sourceT d) (loadBackwards s ref))"

definition decorated_Close :: "('s, 'it) decoratedStore \<Rightarrow> 's \<Rightarrow> 's \<times> go_error option" where
  "decorated_Close d s = (case in_Closer (d_inner d) of None \<Rightarrow> (s, None) | Some close \<Rightarrow> close s)"

definition wrapIterator :: "transform option \<Rightarrow> 'it \<Rightarrow> 'it event_iterator" where
  "wrapIterator sourceT iter =
     (case sourceT of
        None \<Rightarrow> plain_iterator iter
      | Some _ \<Rightarrow> transformed_iterator (new_transforming iter))"

definition streamingIterator ::
  "(('s \<Rightarrow> 'it outcome) \<times> ('s \<Rightarrow> ulid \<Rightarrow> int \<Rightarrow> 'it outcome)) option \<Rightarrow> transform option \<Rightarrow> string \<Rightarrow>
   (('s \<Rightarrow> 'it outcome) \<times> ('s \<Rightarrow> ulid \<Rightarrow> int \<Rightarrow> 'it outcome) \<Rightarrow> 'it outcome) \<Rightarrow>
   'it event_iterator outcome" where
  "streamingIterator inner sourceT noun delegate =
     (case inner of
        None \<Rightarrow> Fail (ErrWrap Rejection (''event.'' @ noun @ ''_not_streaming'') ErrInnerStoreNotStreaming)
      | Some streaming \<Rightarrow> obind (delegate streaming) (\<lambda>iter. Ok (wrapIterator sourceT iter)))"

definition decorated_LoadStream ::
  "('s, 'it) decoratedStore \<Rightarrow> 's \<Rightarrow> StreamRef \<Rightarrow> 'it event_iterator outcome" where
  "decorated_LoadStream d s ref =
     (case in_StreamingSource (d_inner d) of
        None \<Rightarrow> Fail (ErrWrap Rejection ''event.store_not_streaming'' ErrInnerStoreNotStreaming)
      | Some streaming \<Rightarrow> obind (fst streaming s ref) (\<lambda>iter. Ok (wrapIterator (d_sourceT d) iter)))"

definition decorated_LoadStreamFromVersion ::
  "('s, 'it) decoratedStore \<Rightarrow> 's \<Rightarrow> StreamRef \<Rightarrow> Version \<Rightarrow> 'it event_iterator outcome" where
  "decorated_LoadStreamFromVersion d s ref version =
     (case in_StreamingSource (d_inner d) of
        None \<Rightarrow> Fail (ErrWrap Rejection ''event.store_not_streaming'' ErrInnerStoreNotStreaming)
      | Some streaming \<Rightarrow> obind (snd streaming s ref version) (\<lambda>iter. Ok (wrapIterator (d_sourceT d) iter)))"

definition decorated_ReadStream ::
  "('s, 'it) decoratedStore \<Rightarrow> 's \<Rightarrow> 'it event_iterator outcome" where
  "decorated_ReadStream d s =
     streamingIterator (in_StreamingJournal (d_inner d)) (d_sourceT d) ''store''
       (\<lambda>streaming. fst streaming s)"

definition decorated_ReadStreamFrom ::
  "('s, 'it) decoratedStore \<Rightarrow> 's \<Rightarrow> ulid \<Rightarrow> int \<Rightarrow> 'it event_iterator outcome" where
  "decorated_ReadStreamFrom d s afterEventID limit =
     streamingIterator (in_StreamingJournal (d_inner d)) (d_sourceT d) ''store''
       (\<lambda>streaming. snd streaming s afterEventID limit)"

section \<open>Decorated journals\<close>

text \<open>A journal is the reading part of an inner store; its transform is never nil.\<close>

definition decorated_journal_ReadAll ::
  "('s, 'it) inner_store \<Rightarrow> transform \<Rightarrow> 's \<Rightarrow> event list outcome" where
  "decorated_journal_ReadAll j sourceT s =
     (case in_Journal j of None \<Rightarrow> Panic | Some readAll \<Rightarrow> applySource (Some sourceT) (readAll s))"

definition decorated_journal_ReadFrom ::
  "('s, 'it) inner_store \<Rightarrow> transform \<Rightarrow> 's \<Rightarrow> ulid \<Rightarrow> int \<Rightarrow> event list outcome" where
  "decorated_journal_ReadFrom j sourceT s afterEventID limit =
     applySource (Some sourceT)
       (seekableReadFrom (in_SeekableJournal j) s afterEventID limit ''journal'')"

definition decorated_journal_ReadStream ::
  "('s, 'it) inner_store \<Rightarrow> transform \<Rightarrow> 's \<Rightarrow> 'it event_iterator outcome" where
  "decorated_journal_ReadStream j sourceT s =
     streamingIterator (in_StreamingJournal j) (Some sourceT) ''journal'' (\<lambda>streaming. fst streaming s)"

definition decorated_journal_ReadStreamFrom ::
  "('s, 'it) inner_store \<Rightarrow> transform \<Rightarrow> 's \<Rightarrow> ulid \<Rightarrow> int \<Rightarrow> 'it event_iterator outcome" where
  "decorated_journal_ReadStreamFrom j sourceT s afterEventID limit =
     streamingIterator (in_StreamingJournal j) (Some sourceT) ''journal''
       (\<lambda>streaming. snd streaming s afterEventID limit)"

section \<open>The memory store as an inner store\<close>

definition memory_inner :: "(go_error \<Rightarrow> family) \<Rightarrow> (MemoryStore, SliceIterator) inner_store" where
  "memory_inner cls =
     \<lparr>in_Save = MemoryStore_Save cls, in_AppendBatch = MemoryStore_AppendBatch,
      in_Load = MemoryStore_Load, in_LoadFromVersion = MemoryStore_LoadFromVersion,
      in_LoadToVersion = MemoryStore_LoadToVersion, in_LoadToTimestamp = MemoryStore_LoadToTimestamp,
      in_MultiSink = Some MemoryStore_SaveMultiBatch, in_Journal = Some MemoryStore_ReadAll,
      in_SeekableJournal = Some MemoryStore_ReadFrom,
      in_BackwardsSource = Some MemoryStore_LoadBackwards,
      in_StreamingSource = Some (MemoryStore_LoadStream, MemoryStore_LoadStreamFromVersion),
      in_StreamingJournal = Some (MemoryStore_ReadStream, MemoryStore_ReadStreamFrom),
      in_Closer = Some LogStore_Close\<rparr>"

definition slice_iter_ops :: "SliceIterator iter_ops" where
  "slice_iter_ops = \<lparr>io_Next = SliceIterator_Next, io_Close = SliceIterator_Close\<rparr>"


section \<open>Streaming reads apply the transform to the whole\<close>

text \<open>
  What \<open>DecorateJournal\<close> asks of a transform: a batch is transformed chunk by chunk, the
  first failing chunk giving the error, and end-of-stream is not an error of the transform.
\<close>

locale chunk_transform =
  fixes T :: transform
  assumes T_nil: "T [] = Ok []"
    and T_append: "T (xs @ ys) = obind (T xs) (\<lambda>a. obind (T ys) (\<lambda>b. Ok (a @ b)))"
    and T_not_eof: "T xs \<noteq> Fail io_EOF"

text \<open>The documented loop over an iterator: \<open>Next\<close> until \<open>io.EOF\<close>.\<close>

fun drain_iter ::
  "('it \<Rightarrow> ('it \<times> event outcome) option) \<Rightarrow> nat \<Rightarrow> 'it \<Rightarrow> event list outcome option" where
  "drain_iter nxt 0 it = None"
| "drain_iter nxt (Suc fuel) it =
     (case nxt it of
        None \<Rightarrow> None
      | Some (it', Ok evt) \<Rightarrow> map_option (\<lambda>r. obind r (\<lambda>es. Ok (evt # es))) (drain_iter nxt fuel it')
      | Some (it', Fail err) \<Rightarrow> Some (if err = io_EOF then Ok [] else Fail err)
      | Some (it', Panic) \<Rightarrow> Some Panic)"

definition slice_rest :: "SliceIterator \<Rightarrow> event list" where
  "slice_rest it = drop (it_pos it) (it_events it)"

lemma slice_next:
  assumes "\<not> it_closed it"
  shows "slice_rest it = [] \<Longrightarrow> SliceIterator_Next it = (it, Fail io_EOF)"
    and "slice_rest it = e # es \<Longrightarrow> \<exists>it'. SliceIterator_Next it = (it', Ok e) \<and> \<not> it_closed it' \<and>
           slice_rest it' = es"
proof -
  show "slice_rest it = [] \<Longrightarrow> SliceIterator_Next it = (it, Fail io_EOF)"
    using assms by (simp add: SliceIterator_Next_def slice_rest_def)
  assume rest: "slice_rest it = e # es"
  then have pos: "it_pos it < length (it_events it)"
    by (metis slice_rest_def drop_all list.distinct(1) not_le_imp_less)
  then have "it_events it ! it_pos it = e" "drop (Suc (it_pos it)) (it_events it) = es"
    using rest by (simp_all add: slice_rest_def Cons_nth_drop_Suc [symmetric])
  then show "\<exists>it'. SliceIterator_Next it = (it', Ok e) \<and> \<not> it_closed it' \<and> slice_rest it' = es"
    using assms pos by (simp add: SliceIterator_Next_def index_def slice_rest_def)
qed

lemma pull_chunk_slice:
  assumes "\<not> it_closed it"
  shows "\<exists>it'. pull_chunk slice_iter_ops n it chunk =
           (it', length (slice_rest it) < n, Ok (chunk @ take n (slice_rest it))) \<and>
         \<not> it_closed it' \<and> slice_rest it' = drop n (slice_rest it)"
  using assms
proof (induction n arbitrary: it chunk)
  case 0
  then show ?case by simp
next
  case (Suc n)
  show ?case
  proof (cases "slice_rest it")
    case Nil
    then show ?thesis
      using slice_next(1) [OF Suc.prems Nil] Suc.prems by (simp add: slice_iter_ops_def)
  next
    case (Cons e es)
    obtain it' where nxt: "SliceIterator_Next it = (it', Ok e)" and it': "\<not> it_closed it'"
      "slice_rest it' = es"
      using slice_next(2) [OF Suc.prems Cons] by blast
    have "io_Next slice_iter_ops it = (it', Ok e)"
      using nxt by (simp add: slice_iter_ops_def)
    then show ?thesis
      using Suc.IH [OF it'(1), of "chunk @ [e]"] it'(2) Cons by simp
  qed
qed

text \<open>An iterator over a slice that is still open and, once exhausted, has nothing left.\<close>

definition slice_transforming :: "SliceIterator transformingIterator \<Rightarrow> bool" where
  "slice_transforming it \<longleftrightarrow> \<not> it_closed (ti_inner it) \<and> (ti_exhausted it \<longrightarrow> slice_rest (ti_inner it) = [])"

context chunk_transform
begin

text \<open>The events an iterator will still give.\<close>

definition still_to_come :: "SliceIterator transformingIterator \<Rightarrow> event list outcome" where
  "still_to_come it = obind (T (slice_rest (ti_inner it))) (\<lambda>out. Ok (ti_pending it @ out))"

definition yields ::
  "SliceIterator transformingIterator \<Rightarrow> SliceIterator transformingIterator \<times> event outcome \<Rightarrow> bool" where
  "yields it res \<longleftrightarrow>
     (case res of
        (it', Ok e) \<Rightarrow> slice_transforming it' \<and>
           still_to_come it = obind (still_to_come it') (\<lambda>es. Ok (e # es)) \<and>
           (length (slice_rest (ti_inner it')) < length (slice_rest (ti_inner it)) \<or>
            length (slice_rest (ti_inner it')) = length (slice_rest (ti_inner it)) \<and>
            length (ti_pending it') < length (ti_pending it))
      | (it', Fail err) \<Rightarrow> still_to_come it = (if err = io_EOF then Ok [] else Fail err)
      | (it', Panic) \<Rightarrow> still_to_come it = Panic)"

lemma next_yields:
  assumes "slice_transforming it"
  shows "\<exists>res. transforming_Next slice_iter_ops T it = Some res \<and> yields it res"
  using assms
proof (induction "length (slice_rest (ti_inner it))" arbitrary: it rule: less_induct)
  case less
  let ?rest = "slice_rest (ti_inner it)"
  note unfold = transforming_Next.simps [of slice_iter_ops T it]
  show ?case
  proof (cases "ti_pending it")
    case (Cons e pending)
    have "transforming_Next slice_iter_ops T it = Some (it\<lparr>ti_pending := pending\<rparr>, Ok e)"
      using Cons by (simp add: unfold)
    moreover have "yields it (it\<lparr>ti_pending := pending\<rparr>, Ok e)"
      using less.prems Cons by (simp add: yields_def slice_transforming_def still_to_come_def obind_assoc)
    ultimately show ?thesis by blast
  next
    case Nil
    show ?thesis
    proof (cases "ti_exhausted it")
      case True
      then have "yields it (it, Fail io_EOF)" "transforming_Next slice_iter_ops T it = Some (it, Fail io_EOF)"
        using less.prems Nil T_nil
        by (simp_all add: unfold yields_def still_to_come_def slice_transforming_def)
      then show ?thesis by blast
    next
      case False
      obtain inner where pull: "pull_chunk slice_iter_ops journalTransformChunkSize (ti_inner it) [] =
           (inner, length ?rest < journalTransformChunkSize, Ok (take journalTransformChunkSize ?rest))"
        and inner: "\<not> it_closed inner" "slice_rest inner = drop journalTransformChunkSize ?rest"
        using pull_chunk_slice [of "ti_inner it" journalTransformChunkSize "[]"] less.prems
        by (auto simp: slice_transforming_def)
      define it' where "it' = it\<lparr>ti_inner := inner, ti_exhausted := length ?rest < journalTransformChunkSize\<rparr>"
      have it': "slice_transforming (it'\<lparr>ti_pending := p\<rparr>)" for p
        using inner by (simp add: slice_transforming_def it'_def)
      show ?thesis
      proof (cases "?rest = []")
        case True
        then have "ti_exhausted it'" "ti_pending it' = []"
          using Nil by (simp_all add: it'_def journalTransformChunkSize_def)
        then have "transforming_Next slice_iter_ops T it' = Some (it', Fail io_EOF)"
          by (simp add: transforming_Next.simps [of slice_iter_ops T it'])
        moreover have "transforming_Next slice_iter_ops T it = transforming_Next slice_iter_ops T it'"
          using Nil False pull True by (simp add: unfold it'_def Let_def)
        ultimately have "transforming_Next slice_iter_ops T it = Some (it', Fail io_EOF)" by simp
        moreover have "yields it (it', Fail io_EOF)"
          using True Nil T_nil by (simp add: yields_def still_to_come_def)
        ultimately show ?thesis by blast
      next
        case rest: False
        let ?chunk = "take journalTransformChunkSize ?rest"
        have chunk: "length ?chunk \<noteq> 0" "?chunk \<noteq> []"
          using rest by (simp_all add: journalTransformChunkSize_def)
        have split: "T ?rest = obind (T ?chunk) (\<lambda>a. obind (T (slice_rest inner)) (\<lambda>b. Ok (a @ b)))"
          using T_append [of ?chunk "drop journalTransformChunkSize ?rest"] inner(2) by simp
        have unfold': "transforming_Next slice_iter_ops T it =
           (case T ?chunk of
              Fail err \<Rightarrow> Some (it', Fail err)
            | Panic \<Rightarrow> Some (it', Panic)
            | Ok a \<Rightarrow> transforming_Next slice_iter_ops T (it'\<lparr>ti_pending := a\<rparr>))"
          using Nil False pull chunk by (simp add: unfold it'_def Let_def split: outcome.split)
        show ?thesis
        proof (cases "T ?chunk")
          case (Fail err)
          then have "err \<noteq> io_EOF" using T_not_eof by auto
          then have "yields it (it', Fail err)"
            using Fail split by (simp add: yields_def still_to_come_def)
          then show ?thesis using unfold' Fail by auto
        next
          case Panic
          then have "yields it (it', Panic)"
            using split by (simp add: yields_def still_to_come_def)
          then show ?thesis using unfold' Panic by auto
        next
          case (Ok a)
          let ?it2 = "it'\<lparr>ti_pending := a\<rparr>"
          have shorter: "length (slice_rest (ti_inner ?it2)) < length ?rest"
            using rest inner(2) by (simp add: it'_def journalTransformChunkSize_def)
          have same: "still_to_come it = still_to_come ?it2"
            using Nil split Ok by (simp add: still_to_come_def it'_def obind_assoc)
          obtain res where res: "transforming_Next slice_iter_ops T ?it2 = Some res" "yields ?it2 res"
            using less.hyps [OF shorter it'] by blast
          have "yields it res"
            using res(2) shorter same by (auto simp: yields_def split: prod.splits outcome.splits)
          then show ?thesis using unfold' Ok res(1) by auto
        qed
      qed
    qed
  qed
qed

lemma drain_transforming:
  assumes "slice_transforming it"
  shows "\<exists>fuel. drain_iter (transforming_Next slice_iter_ops T) fuel it = Some (still_to_come it)"
  using assms
proof (induction it rule: wf_induct
    [OF wf_inv_image [OF wf_lex_prod [OF wf_less_than wf_less_than],
       of "\<lambda>it. (length (slice_rest (ti_inner it)), length (ti_pending it))"]])
  case (1 it)
  obtain it' r where nxt: "transforming_Next slice_iter_ops T it = Some (it', r)"
    and y: "yields it (it', r)"
    using next_yields [OF "1.prems"] by auto
  show ?case
  proof (cases r)
    case (Ok e)
    with y have "slice_transforming it'"
      and sc: "still_to_come it = obind (still_to_come it') (\<lambda>es. Ok (e # es))"
      and "(it', it) \<in> inv_image (less_than <*lex*> less_than)
        (\<lambda>it. (length (slice_rest (ti_inner it)), length (ti_pending it)))"
      by (simp_all add: yields_def)
    then obtain fuel where "drain_iter (transforming_Next slice_iter_ops T) fuel it' = Some (still_to_come it')"
      using 1(1) by blast
    then have "drain_iter (transforming_Next slice_iter_ops T) (Suc fuel) it = Some (still_to_come it)"
      using nxt Ok sc by simp
    then show ?thesis by blast
  next
    case (Fail err)
    then have "drain_iter (transforming_Next slice_iter_ops T) (Suc 0) it = Some (still_to_come it)"
      using nxt y by (simp add: yields_def)
    then show ?thesis by blast
  next
    case Panic
    then have "drain_iter (transforming_Next slice_iter_ops T) (Suc 0) it = Some (still_to_come it)"
      using nxt y by (simp add: yields_def)
    then show ?thesis by blast
  qed
qed

lemma drain_new:
  "\<exists>fuel. drain_iter (transforming_Next slice_iter_ops T) fuel (new_transforming (NewSliceIterator es)) =
     Some (T es)"
proof -
  have "slice_transforming (new_transforming (NewSliceIterator es))"
    by (simp add: slice_transforming_def new_transforming_def NewSliceIterator_def)
  moreover have "still_to_come (new_transforming (NewSliceIterator es)) = T es"
    by (cases "T es")
      (simp_all add: still_to_come_def new_transforming_def NewSliceIterator_def slice_rest_def)
  ultimately show ?thesis
    using drain_transforming by metis
qed

end


section \<open>Properties\<close>

text \<open>A transform that maps every event by itself.\<close>

definition map_transform :: "(event \<Rightarrow> event) \<Rightarrow> transform" where
  "map_transform f events = Ok (map f events)"

lemma map_chunk_transform: "chunk_transform (map_transform f)"
  by unfold_locales (simp_all add: map_transform_def)

text \<open>
  C31. Streaming reads of a decorated store are its slice reads: over the memory store and any
  transform that works chunk by chunk, the iterators of \<open>LoadStream\<close> and \<open>ReadStream\<close> end
  after finitely many calls, and the events they give are those of \<open>Load\<close> and \<open>ReadAll\<close>,
  or the error these return.
\<close>

theorem decorated_stream_agrees:
  assumes "chunk_transform T"
    and d: "d = \<lparr>d_inner = memory_inner cls, d_sinkT = sinkT, d_sourceT = Some T\<rparr>"
  shows "(MemoryStore_Load s r = Ok stored \<longrightarrow>
           (\<exists>it fuel. decorated_LoadStream d s r = Ok (transformed_iterator it) \<and>
              drain_iter (transforming_Next slice_iter_ops T) fuel it = Some (decorated_Load d s r))) \<and>
         (MemoryStore_ReadAll s = Ok log \<longrightarrow>
           (\<exists>it fuel. decorated_ReadStream d s = Ok (transformed_iterator it) \<and>
              drain_iter (transforming_Next slice_iter_ops T) fuel it = Some (decorated_ReadAll d s)))"
proof (intro conjI impI)
  assume "MemoryStore_Load s r = Ok stored"
  then have "decorated_LoadStream d s r = Ok (transformed_iterator (new_transforming (NewSliceIterator stored)))"
    and "decorated_Load d s r = T stored"
    by (simp_all add: d decorated_LoadStream_def decorated_Load_def memory_inner_def applySource_def
        MemoryStore_LoadStream_def sliceIteratorOrErr_def wrapIterator_def)
  then show "\<exists>it fuel. decorated_LoadStream d s r = Ok (transformed_iterator it) \<and>
      drain_iter (transforming_Next slice_iter_ops T) fuel it = Some (decorated_Load d s r)"
    using chunk_transform.drain_new [OF assms(1), of stored] by auto
next
  assume "MemoryStore_ReadAll s = Ok log"
  then have "decorated_ReadStream d s = Ok (transformed_iterator (new_transforming (NewSliceIterator log)))"
    and "decorated_ReadAll d s = T log"
    by (simp_all add: d decorated_ReadStream_def decorated_ReadAll_def memory_inner_def applySource_def
        streamingIterator_def MemoryStore_ReadStream_def sliceIteratorOrErr_def wrapIterator_def)
  then show "\<exists>it fuel. decorated_ReadStream d s = Ok (transformed_iterator it) \<and>
      drain_iter (transforming_Next slice_iter_ops T) fuel it = Some (decorated_ReadAll d s)"
    using chunk_transform.drain_new [OF assms(1), of log] by auto
qed

theorem decorated_stream_agrees_witness:
  "\<exists>it fuel. decorated_ReadStream
      \<lparr>d_inner = memory_inner (\<lambda>_. Conflict), d_sinkT = None,
       d_sourceT = Some (map_transform (\<lambda>e. e\<lparr>e_payload := []\<rparr>))\<rparr> NewMemoryStore =
        Ok (transformed_iterator it) \<and>
     drain_iter (transforming_Next slice_iter_ops (map_transform (\<lambda>e. e\<lparr>e_payload := []\<rparr>))) fuel it =
       Some (Ok [])"
proof -
  let ?T = "map_transform (\<lambda>e. e\<lparr>e_payload := []\<rparr>)"
  let ?d = "\<lparr>d_inner = memory_inner (\<lambda>_. Conflict), d_sinkT = None, d_sourceT = Some ?T\<rparr>"
  have open_store: "ms_inv NewMemoryStore" "ms_open NewMemoryStore"
    using ms_inv_New by (simp_all add: ms_open_def NewMemoryStore_def NewLogStore_def)
  have all: "MemoryStore_ReadAll NewMemoryStore = Ok []"
    using MemoryStore_ReadFrom_open(2) [OF open_store] by (simp add: NewMemoryStore_def NewLogStore_def)
  then have "decorated_ReadAll ?d NewMemoryStore = Ok []"
    by (simp add: decorated_ReadAll_def memory_inner_def applySource_def map_transform_def)
  with decorated_stream_agrees [OF map_chunk_transform refl] all show ?thesis
    by fastforce
qed

text \<open>
  A decorated store round-trips: when the source transform undoes the sink transform and works
  chunk by chunk, saving events at the current version of a stream succeeds and a load
  afterwards returns what it returned before followed by the saved events, although the inner
  store holds only the transformed ones.
\<close>

theorem decorated_Save_then_Load:
  assumes "chunk_transform source" and "sink evs = Ok stored" and "source stored = Ok evs"
    and "stored \<noteq> []"
    and d: "d = \<lparr>d_inner = memory_inner cls, d_sinkT = Some sink, d_sourceT = Some source\<rparr>"
    and s: "ms_inv s" "ms_open s" "version_ok v" "length (ms_stream s (StreamKey r)) = unat v"
    and old: "source (ms_stream s (StreamKey r)) = Ok old"
  shows "\<exists>s'. decorated_Save d s r evs v = Ok (s', None) \<and> decorated_Load d s' r = Ok (old @ evs) \<and>
     ms_stream s' (StreamKey r) = ms_stream s (StreamKey r) @ stored"
proof -
  obtain s' where save: "MemoryStore_Save cls s r stored v = (s', None)" and s': "ms_inv s'" "ms_open s'"
    and stream: "ms_stream s' = (ms_stream s)(StreamKey r := ms_stream s (StreamKey r) @ stored)"
    using ms.save_ok [OF s(1-3) s(4)] by blast
  have "decorated_Save d s r evs v = Ok (s', None)"
    using save assms(2) by (simp add: d decorated_Save_def applySink_def memory_inner_def)
  moreover have "MemoryStore_Load s' r = Ok (ms_stream s (StreamKey r) @ stored)"
    using ms.load_ok [OF s', of r] assms(4) by (simp add: stream)
  then have "decorated_Load d s' r = Ok (old @ evs)"
    using old assms(3) chunk_transform.T_append [OF assms(1)]
    by (simp add: d decorated_Load_def applySource_def memory_inner_def)
  ultimately show ?thesis
    using stream by auto
qed

theorem decorated_Save_then_Load_witness:
  "\<exists>s'. decorated_Save
      \<lparr>d_inner = memory_inner (\<lambda>_. Conflict),
       d_sinkT = Some (map_transform (\<lambda>e. e\<lparr>e_payload := rev (e_payload e)\<rparr>)),
       d_sourceT = Some (map_transform (\<lambda>e. e\<lparr>e_payload := rev (e_payload e)\<rparr>))\<rparr>
      NewMemoryStore witness_ref [witness_event 1] 0 = Ok (s', None) \<and>
    decorated_Load
      \<lparr>d_inner = memory_inner (\<lambda>_. Conflict),
       d_sinkT = Some (map_transform (\<lambda>e. e\<lparr>e_payload := rev (e_payload e)\<rparr>)),
       d_sourceT = Some (map_transform (\<lambda>e. e\<lparr>e_payload := rev (e_payload e)\<rparr>))\<rparr>
      s' witness_ref = Ok [witness_event 1]"
proof -
  let ?f = "\<lambda>e. e\<lparr>e_payload := rev (e_payload e)\<rparr>"
  have s: "ms_inv NewMemoryStore" "ms_open NewMemoryStore" "version_ok 0"
    "ms_stream NewMemoryStore (StreamKey witness_ref) = []"
    using ms_inv_New by (simp_all add: ms_open_def NewMemoryStore_def NewLogStore_def version_ok_def
        ms_stream_def stream_indices_def)
  have tr: "map_transform ?f [witness_event 1] = Ok [?f (witness_event 1)]"
    "map_transform ?f [?f (witness_event 1)] = Ok [witness_event 1]" "map_transform ?f [] = Ok []"
    by (simp_all add: map_transform_def)
  show ?thesis
    using decorated_Save_then_Load [where cls = "\<lambda>_. Conflict" and sink = "map_transform ?f"
        and old = "[]" and r = witness_ref, OF map_chunk_transform tr(1,2) _ refl s(1-3)] s(4) tr(3)
    by (simp del: One_nat_def) blast
qed

end
