(* ===== verification/SchemaStores.thy ===== *)
theory SchemaStores
  imports SchemaRegistry DecoratedStore Repositories
begin

text \<open>
  Schema evolution composed with the stores and the repository: the transforms of
  \<open>src/schema\<close> as the source transform of a decorated store, and a repository of
  \<open>src/decider\<close> that reads through it. The repository takes the number of events it loaded
  for the version of the stream, so a transform has to keep that number.
\<close>

section \<open>Upcasters as a source transform\<close>

lemma registry_upcastAll_append:
  "registry_upcastAll r (xs @ ys) =
     obind (registry_upcastAll r xs) (\<lambda>a. obind (registry_upcastAll r ys) (\<lambda>b. Ok (a @ b)))"
  by (induction xs) (simp_all add: obind_assoc obind_Ok_id)

interpretation upcasting: chunk_transform "UpcastSourceTransform us" for us
proof (unfold_locales, goal_cases)
  case 1
  then show ?case by (simp add: UpcastSourceTransform_def)
next
  case (2 xs ys)
  then show ?case by (simp add: UpcastSourceTransform_def registry_upcastAll_append)
next
  case (3 xs)
  have "registry_upcastAll r xs \<noteq> Fail io_EOF" for r
    by (induction xs) (auto simp: obind_Fail_iff wrap_fail_Fail io_EOF_def)
  then show ?case by (simp add: UpcastSourceTransform_def)
qed

lemma registry_upcastAll_length:
  "registry_upcastAll r evts = Ok evts' \<Longrightarrow> length evts' = length evts"
  by (induction evts arbitrary: evts') (auto simp: obind_Ok_iff)

section \<open>A repository over a decorated store\<close>

definition upcasting_store ::
  "(go_error \<Rightarrow> family) \<Rightarrow> transform \<Rightarrow> (MemoryStore, SliceIterator) decoratedStore" where
  "upcasting_store cls T = \<lparr>d_inner = memory_inner cls, d_sinkT = None, d_sourceT = Some T\<rparr>"

text \<open>The methods of that store as a repository calls them; without a sink a save cannot panic.\<close>

definition upcasting_event_ops :: "(go_error \<Rightarrow> family) \<Rightarrow> transform \<Rightarrow> MemoryStore event_ops" where
  "upcasting_event_ops cls T =
     \<lparr>eo_Save = (\<lambda>s r evs v. case decorated_Save (upcasting_store cls T) s r evs v of
        Ok res \<Rightarrow> res | _ \<Rightarrow> (s, None)),
      eo_Load = decorated_Load (upcasting_store cls T),
      eo_LoadFromVersion = decorated_LoadFromVersion (upcasting_store cls T),
      eo_LoadToVersion = decorated_LoadToVersion (upcasting_store cls T),
      eo_LoadToTimestamp = decorated_LoadToTimestamp (upcasting_store cls T)\<rparr>"

lemma upcasting_event_ops_simps:
  "eo_Save (upcasting_event_ops cls T) = MemoryStore_Save cls"
  "eo_Load (upcasting_event_ops cls T) s r = obind (MemoryStore_Load s r) T"
  by (simp_all add: upcasting_event_ops_def upcasting_store_def decorated_Save_def applySink_def
      memory_inner_def decorated_Load_def applySource_def)

definition plain_repository ::
  "('s, 'n, 'c, 'b, 'x, 'st) Repository \<Rightarrow> bool" where
  "plain_repository R \<longleftrightarrow> r_snapshotStore R = None \<and> r_stateCache R = None \<and>
     \<not> r_loadCoalescing R \<and> r_publisher R = None"

lemma plain_LoadRef:
  assumes "plain_repository R"
  shows "LoadRef cls disp R w r =
    (case loadByEvents cls R (eo_Load (r_store R) (w_store w) r) of
       Ok x \<Rightarrow> (recordRead disp w r, Ok x) | Fail e \<Rightarrow> (w, Fail e) | Panic \<Rightarrow> (w, Panic))"
  using assms
  by (auto simp: plain_repository_def LoadRef_def LoadRef_uncached_def loadFromStore_def
      coalesced_load_def Let_def split: outcome.splits)

lemma recordRead_store [simp]: "w_store (recordRead disp w r) = w_store w"
  by (simp add: recordRead_def split: option.split SnapshotStrategy.split)

lemma plain_after_publish:
  assumes "plain_repository R"
  shows "w_store (fst (after_publish cls disp now R w r st v evts)) = w_store w"
proof -
  have "w_store (fst (saveSnapshotAfterEvents disp now R w r nv st evts)) = w_store w" for nv
    using assms
    by (auto simp: plain_repository_def saveSnapshotAfterEvents_def Let_def
        split: prod.split outcome.split bool.split)
  then show ?thesis
    using assms
    by (auto simp: after_publish_def plain_repository_def Let_def split: prod.split outcome.split)
      (metis fst_conv)+
qed

text \<open>
  C32. A repository that reads its stream through a transform can write to it exactly when the
  transform keeps the number of events. If it does, the events \<open>decide\<close> returns for the replayed
  state are appended; if it drops or splits events of the stream, every command that produces
  events is rejected with a version conflict and the store stays as it was, now and on every
  later attempt.
\<close>

theorem transformed_stream_writable:
  assumes R: "r_store R = upcasting_event_ops cls T" "plain_repository R"
    and s: "ms_inv (w_store w)" "ms_open (w_store w)"
    and stream: "ms_stream (w_store w) (StreamKey r) \<noteq> []"
      "length (ms_stream (w_store w) (StreamKey r)) < 2 ^ 63" "length evts < 2 ^ 63"
    and T: "T (ms_stream (w_store w) (StreamKey r)) = Ok evts"
    and fold: "foldEvents cls R (de_Initial (r_decider R)) evts = Ok st"
    and dec: "decide st (of_nat (length evts)) = Ok decided" "decided \<noteq> []"
  shows "\<exists>w' res. ExecuteRef cls disp now R ctx w r decide = (w', res) \<and>
     (if length evts = length (ms_stream (w_store w) (StreamKey r))
      then ms_stream (w_store w') (StreamKey r) =
             ms_stream (w_store w) (StreamKey r) @ applyEnricher R ctx decided
      else w_store w' = w_store w \<and> (\<exists>e. res = Fail e \<and> errors_Is e ErrVersionConflict))"
proof -
  let ?stream = "ms_stream (w_store w) (StreamKey r)" and ?v = "of_nat (length evts) :: Version"
  have load: "LoadRef cls disp R w r = (recordRead disp w r, Ok (st, ?v))"
    using ms.load_ok [OF s stream(1)] T fold
    by (simp add: plain_LoadRef [OF R(2)] R(1) upcasting_event_ops_simps loadByEvents_def)
  have v: "version_ok ?v" "unat ?v = length evts"
    using stream(3) by (simp_all add: version_ok_def unat_of_nat)
  show ?thesis
  proof (cases "length evts = length ?stream")
    case True
    obtain s' where save: "MemoryStore_Save cls (w_store w) r (applyEnricher R ctx decided) ?v = (s', None)"
      and s': "ms_stream s' = (ms_stream (w_store w))(StreamKey r := ?stream @ applyEnricher R ctx decided)"
      using ms.save_ok [OF s v(1)] v(2) True by metis
    obtain w' res where after: "after_publish cls disp now R ((recordRead disp w r)\<lparr>w_store := s'\<rparr>) r st ?v
        (applyEnricher R ctx decided) = (w', res)"
      by (metis prod.exhaust)
    then have "w_store w' = s'"
      using plain_after_publish [OF R(2), of cls disp now "(recordRead disp w r)\<lparr>w_store := s'\<rparr>" r st
          ?v "applyEnricher R ctx decided"]
      by simp
    moreover have "ExecuteRef cls disp now R ctx w r decide = (w', res)"
      using load dec save after R
      by (simp add: ExecuteRef_def Let_def upcasting_event_ops_simps plain_repository_def)
    ultimately show ?thesis
      using True s' by simp
  next
    case False
    then obtain e where save: "MemoryStore_Save cls (w_store w) r (applyEnricher R ctx decided) ?v = (w_store w, Some e)"
      and e: "errors_Is e ErrVersionConflict"
      using ms.save_conflict [OF s, of ?v r] v(2) by metis
    then have "ExecuteRef cls disp now R ctx w r decide =
        ((recordRead disp w r)\<lparr>w_store := w_store w\<rparr>, Fail (opError cls [ErrSaveFailed, e]))"
      using load dec R(1) by (simp add: ExecuteRef_def Let_def upcasting_event_ops_simps)
    moreover have "errors_Is (opError cls [ErrSaveFailed, e]) ErrVersionConflict"
      using e by (simp add: opError_def Let_def)
    ultimately show ?thesis
      using False by simp
  qed
qed


definition plain_repo ::
  "transform \<Rightarrow> (MemoryStore, unit, unit, unit, unit, nat) Repository" where
  "plain_repo T =
     \<lparr>r_store = upcasting_event_ops (\<lambda>_. Conflict) T, r_publisher = None, r_snapshotStore = None,
      r_codec = None, r_snapshotStateShape = [], r_enricher = None,
      r_decider = \<lparr>de_Initial = 0, de_Apply = (\<lambda>n _. Ok (Suc n))\<rparr>, r_loadCoalescing = False,
      r_stateCache = None\<rparr>"

definition plain_world :: "MemoryStore \<Rightarrow> (MemoryStore, unit, unit, unit) world" where
  "plain_world s = \<lparr>w_store = s, w_snaps = (), w_strategy = None, w_cache = (), w_bus = (),
                    w_shapeDiscards = 0, w_inflight = (\<lambda>_. None)\<rparr>"

text \<open>A store with one event of a type that the chain drops.\<close>

definition retired_event :: event where
  "retired_event = (witness_event 1)\<lparr>e_eventType := ''gone''\<rparr>"

definition retired_ops :: "Op list" where
  "retired_ops = [Drop ''gone'']"

definition retired_chain :: Chain where
  "retired_chain = \<lparr>ch_exact = [], ch_byType = [(''gone'', Drop ''gone'')],
                    ch_renames = [], ch_targets = [], ch_maxHops = 2\<rparr>"

theorem transformed_stream_writable_witness:
  "Compile retired_ops = Ok retired_chain \<and>
   (\<exists>s w' e. MemoryStore_Save (\<lambda>_. Conflict) NewMemoryStore witness_ref [retired_event] 0 = (s, None) \<and>
     ExecuteRef (\<lambda>_. Conflict) id 5 (plain_repo (Chain_upcastAll witness_env retired_chain)) ()
       (plain_world s) witness_ref (\<lambda>n v. Ok [witness_event 2]) = (w', Fail e) \<and>
     errors_Is e ErrVersionConflict \<and> w_store w' = s)"
proof
  show "Compile retired_ops = Ok retired_chain"
    by (simp add: retired_ops_def retired_chain_def Compile_def Chain_add_def Drop_def addDrop_def
        detectRenameCycles_def)
  have new: "ms_inv NewMemoryStore" "ms_open NewMemoryStore" "version_ok 0"
    "length (ms_stream NewMemoryStore (StreamKey witness_ref)) = unat (0 :: Version)"
    using ms_inv_New by (simp_all add: ms_open_def NewMemoryStore_def NewLogStore_def version_ok_def
        ms_stream_def stream_indices_def)
  then obtain s where save: "MemoryStore_Save (\<lambda>_. Conflict) NewMemoryStore witness_ref [retired_event] 0 = (s, None)"
    and s: "ms_inv s" "ms_open s" and stream: "ms_stream s (StreamKey witness_ref) = [retired_event]"
    using ms.save_ok [OF new, of "\<lambda>_. Conflict" "[retired_event]"] by auto
  let ?T = "Chain_upcastAll witness_env retired_chain" and ?w = "plain_world s"
  have "?T [retired_event] = Ok []"
    by (simp add: Chain_upcastAll_def upcastOne.simps Chain_match_def retired_chain_def Drop_def retired_event_def)
  then have "\<exists>w' res. ExecuteRef (\<lambda>_. Conflict) id 5 (plain_repo ?T) () ?w witness_ref
       (\<lambda>n v. Ok [witness_event 2]) = (w', res) \<and>
     (if length ([] :: event list) = length (ms_stream (w_store ?w) (StreamKey witness_ref))
      then ms_stream (w_store w') (StreamKey witness_ref) =
             ms_stream (w_store ?w) (StreamKey witness_ref) @ applyEnricher (plain_repo ?T) () [witness_event 2]
      else w_store w' = w_store ?w \<and> (\<exists>e. res = Fail e \<and> errors_Is e ErrVersionConflict))"
    using s stream
    by (intro transformed_stream_writable [where evts = "[]" and T = ?T and st = 0])
      (simp_all add: plain_repo_def plain_world_def plain_repository_def)
  then show "\<exists>s w' e. MemoryStore_Save (\<lambda>_. Conflict) NewMemoryStore witness_ref [retired_event] 0 = (s, None) \<and>
     ExecuteRef (\<lambda>_. Conflict) id 5 (plain_repo ?T) ()
       (plain_world s) witness_ref (\<lambda>n v. Ok [witness_event 2]) = (w', Fail e) \<and>
     errors_Is e ErrVersionConflict \<and> w_store w' = s"
    using save stream by (auto simp: plain_world_def)
qed

end
