(* ===== verification/ProjectionWorker.thy ===== *)
theory ProjectionWorker
  imports DedupRing Snapshots Events
begin

text \<open>
  The projection worker of \<open>src/projectionhost\<close> (\<open>worker.go\<close>, \<open>worker_drain.go\<close>,
  \<open>worker_checkpoint.go\<close>) and the dead-letter store of \<open>dlq.go\<close>: applying an event with
  retries, quarantining it, draining the journal page by page from the checkpoint, the live
  handler with its batched checkpoints, the catch-up drain, and the restart loop.
\<close>

section \<open>Dead letters\<close>

record DeadLetterEntry =
  dl_ProjectionName :: string
  dl_EventID :: string
  dl_EventType :: string
  dl_StreamID :: string
  dl_Event :: "event option"
  dl_Error :: string
  dl_ErrorCode :: string
  dl_ErrorFamily :: string
  dl_FailedAt :: instant

type_synonym MemoryDeadLetterStore = "DeadLetterEntry list"

definition NewMemoryDeadLetterStore :: MemoryDeadLetterStore where
  "NewMemoryDeadLetterStore = []"

definition mdl_Store :: "MemoryDeadLetterStore \<Rightarrow> DeadLetterEntry \<Rightarrow> MemoryDeadLetterStore \<times> go_error option" where
  "mdl_Store s entry = (s @ [entry], None)"

definition mdl_List :: "MemoryDeadLetterStore \<Rightarrow> string \<Rightarrow> DeadLetterEntry list" where
  "mdl_List s projectionName =
     (if projectionName = [] then s else filter (\<lambda>e. dl_ProjectionName e = projectionName) s)"

text \<open>\<open>retainEntries\<close>: the kept entries and the number of dropped ones.\<close>

fun retainEntries :: "(DeadLetterEntry \<Rightarrow> bool) \<Rightarrow> MemoryDeadLetterStore \<Rightarrow> MemoryDeadLetterStore \<times> nat" where
  "retainEntries keep [] = ([], 0)"
| "retainEntries keep (e # es) =
     (case retainEntries keep es of
        (filtered, dropped) \<Rightarrow> if keep e then (e # filtered, dropped) else (filtered, Suc dropped))"

definition mdl_Delete :: "MemoryDeadLetterStore \<Rightarrow> string \<Rightarrow> string \<Rightarrow> MemoryDeadLetterStore" where
  "mdl_Delete s projectionName eventID =
     fst (retainEntries (\<lambda>e. dl_ProjectionName e \<noteq> projectionName \<or> dl_EventID e \<noteq> eventID) s)"

definition mdl_Purge :: "MemoryDeadLetterStore \<Rightarrow> string \<Rightarrow> MemoryDeadLetterStore" where
  "mdl_Purge s projectionName =
     (if projectionName = [] then []
      else fst (retainEntries (\<lambda>e. dl_ProjectionName e \<noteq> projectionName) s))"

definition mdl_Count :: "MemoryDeadLetterStore \<Rightarrow> nat" where
  "mdl_Count s = length s"

text \<open>
  The sum of offset and limit wraps around; making a slice of negative length and slicing at a
  negative offset panic.
\<close>

definition mdl_ListPaged ::
  "MemoryDeadLetterStore \<Rightarrow> string \<Rightarrow> int \<Rightarrow> int \<Rightarrow> DeadLetterEntry list outcome" where
  "mdl_ListPaged s projectionName offset limit0 =
     (let filtered = filter (\<lambda>e. projectionName = [] \<or> dl_ProjectionName e = projectionName) s in
      if offset \<ge> int (length filtered) then Ok []
      else
        let limit = (if limit0 \<le> 0 then 50 else limit0);
            upto = min (sint (word_of_int (offset + limit) :: u64)) (int (length filtered)) in
        if upto - offset < 0 \<or> offset < 0 then Panic
        else Ok (take (nat (upto - offset)) (drop (nat offset) filtered)))"

definition mdl_PurgeBefore :: "MemoryDeadLetterStore \<Rightarrow> instant \<Rightarrow> MemoryDeadLetterStore \<times> nat" where
  "mdl_PurgeBefore s before = retainEntries (\<lambda>e. \<not> dl_FailedAt e < before) s"

section \<open>Options\<close>

record hostOptions =
  ho_maxRestarts :: int
  ho_backoffInitial :: int
  ho_backoffMax :: int
  ho_batchSize :: int
  ho_dlqThreshold :: int
  ho_cpEvery :: int
  ho_cpInterval :: int

definition defaultBatchSize :: int where
  "defaultBatchSize = 100"

definition defaultOptions :: hostOptions where
  "defaultOptions =
     \<lparr>ho_maxRestarts = 5, ho_backoffInitial = 1000000000, ho_backoffMax = 30000000000,
      ho_batchSize = defaultBatchSize, ho_dlqThreshold = 3, ho_cpEvery = 0, ho_cpInterval = 0\<rparr>"

definition WithMaxRestarts :: "int \<Rightarrow> hostOptions \<Rightarrow> hostOptions" where
  "WithMaxRestarts n o' = o'\<lparr>ho_maxRestarts := n\<rparr>"

definition WithBackoff :: "int \<Rightarrow> int \<Rightarrow> hostOptions \<Rightarrow> hostOptions" where
  "WithBackoff initial maxDur o' = o'\<lparr>ho_backoffInitial := initial, ho_backoffMax := maxDur\<rparr>"

definition WithBatchSize :: "int \<Rightarrow> hostOptions \<Rightarrow> hostOptions" where
  "WithBatchSize n o' = (if n \<le> 0 then o'\<lparr>ho_batchSize := defaultBatchSize\<rparr> else o'\<lparr>ho_batchSize := n\<rparr>)"

definition WithDeadLetterThreshold :: "int \<Rightarrow> hostOptions \<Rightarrow> hostOptions" where
  "WithDeadLetterThreshold threshold o' =
     (if threshold > 0 then o'\<lparr>ho_dlqThreshold := threshold\<rparr> else o')"

definition WithCheckpointEvery :: "int \<Rightarrow> hostOptions \<Rightarrow> hostOptions" where
  "WithCheckpointEvery n o' = (if n > 1 then o'\<lparr>ho_cpEvery := n\<rparr> else o')"

definition WithCheckpointInterval :: "int \<Rightarrow> hostOptions \<Rightarrow> hostOptions" where
  "WithCheckpointInterval d o' = (if d > 0 then o'\<lparr>ho_cpInterval := d\<rparr> else o')"

section \<open>Workers\<close>

datatype WorkerStatus =
    WorkerIdle | WorkerRunning | WorkerLive | WorkerBackoff | WorkerDraining | WorkerStopped | WorkerFailed

text \<open>What a \<open>select\<close> over the context and the stop channel finds.\<close>

datatype signal = no_signal | ctx_done | stop_closed

text \<open>
  What a worker works with: the projection (its handler on a read model \<open>'p\<close> and its event
  types), the checkpoint store \<open>'c\<close> and, where configured, the dead-letter store \<open>'d\<close>, the
  journal, whether a subscriber is configured and what subscribing returns, and the error
  classification of the error-family package. \<open>en_signal\<close>, \<open>en_clock\<close> and \<open>en_ReadFrom\<close>
  take a running number, that of the poll, of the clock read and of the journal read, so that signals, time and the
  growth of the journal are arbitrary.
\<close>

record ('p, 'c, 'd) worker_env =
  en_name :: string
  en_Handle :: "'p \<Rightarrow> event \<Rightarrow> 'p \<times> go_error option"
  en_EventTypes :: "string list"
  en_cpSave :: "'c \<Rightarrow> string \<Rightarrow> Checkpoint \<Rightarrow> 'c \<times> go_error option"
  en_cpLoad :: "'c \<Rightarrow> string \<Rightarrow> Checkpoint outcome"
  en_dlqStore :: "('d \<Rightarrow> DeadLetterEntry \<Rightarrow> 'd \<times> go_error option) option"
  en_ReadFrom :: "nat \<Rightarrow> ulid \<Rightarrow> int \<Rightarrow> event list outcome"
  en_SubscribeAll :: "go_error option option"
  en_IsRetryable :: "go_error \<Rightarrow> bool"
  en_Classify :: "go_error \<Rightarrow> family"
  en_Code :: "go_error \<Rightarrow> string"
  en_ErrorText :: "go_error \<Rightarrow> string"
  en_IDText :: "ulid \<Rightarrow> string"
  en_StreamText :: "StreamID \<Rightarrow> string"
  en_signal :: "nat \<Rightarrow> signal"
  en_clock :: "nat \<Rightarrow> instant"
  en_opts :: hostOptions

record ('p, 'c, 'd) worker =
  wk_proj :: 'p
  wk_cpStore :: 'c
  wk_dlq :: 'd
  wk_seenIDs :: "ulid Ring option"
  wk_status :: WorkerStatus
  wk_checkpoint :: ulid
  wk_lastError :: "go_error option"
  wk_processed :: nat
  wk_errors :: nat
  wk_restarts :: int
  wk_lastProcessed :: instant
  wk_cpPending :: Checkpoint
  wk_cpHasPending :: bool
  wk_cpSinceSave :: int
  wk_cpLastSave :: instant
  wk_polls :: nat
  wk_ticks :: nat
  wk_reads :: nat

definition newWorker :: "'p \<Rightarrow> 'c \<Rightarrow> 'd \<Rightarrow> ('p, 'c, 'd) worker" where
  "newWorker p c d =
     \<lparr>wk_proj = p, wk_cpStore = c, wk_dlq = d, wk_seenIDs = NewRing 0 DefaultCapacity,
      wk_status = WorkerIdle, wk_checkpoint = 0, wk_lastError = None, wk_processed = 0,
      wk_errors = 0, wk_restarts = 0, wk_lastProcessed = 0, wk_cpPending = zeroCheckpoint,
      wk_cpHasPending = False, wk_cpSinceSave = 0, wk_cpLastSave = 0, wk_polls = 0,
      wk_ticks = 0, wk_reads = 0\<rparr>"

definition poll :: "('p, 'c, 'd) worker_env \<Rightarrow> ('p, 'c, 'd) worker \<Rightarrow> ('p, 'c, 'd) worker \<times> signal" where
  "poll en w = (w\<lparr>wk_polls := Suc (wk_polls w)\<rparr>, en_signal en (wk_polls w))"

definition time_Now :: "('p, 'c, 'd) worker_env \<Rightarrow> ('p, 'c, 'd) worker \<Rightarrow> ('p, 'c, 'd) worker \<times> instant" where
  "time_Now en w = (w\<lparr>wk_ticks := Suc (wk_ticks w)\<rparr>, en_clock en (wk_ticks w))"

text \<open>The errors of a context: the one it has ended with, and the other one \<open>run\<close> looks for.\<close>

definition ctx_Err :: go_error where
  "ctx_Err = ErrExt ''context canceled''"

definition ctx_DeadlineExceeded :: go_error where
  "ctx_DeadlineExceeded = ErrExt ''context deadline exceeded''"

definition markSeen :: "('p, 'c, 'd) worker \<Rightarrow> ulid \<Rightarrow> ('p, 'c, 'd) worker" where
  "markSeen w eventID = w\<lparr>wk_seenIDs := Ring_Add eventID (wk_seenIDs w)\<rparr>"

definition wasSeen :: "('p, 'c, 'd) worker \<Rightarrow> ulid \<Rightarrow> bool" where
  "wasSeen w eventID \<longleftrightarrow> Ring_Has (wk_seenIDs w) eventID"

definition shouldHandle :: "('p, 'c, 'd) worker_env \<Rightarrow> event \<Rightarrow> bool" where
  "shouldHandle en evt \<longleftrightarrow> en_EventTypes en = [] \<or> e_eventType evt \<in> set (en_EventTypes en)"

definition touch :: "('p, 'c, 'd) worker_env \<Rightarrow> ('p, 'c, 'd) worker \<Rightarrow> ('p, 'c, 'd) worker" where
  "touch en w = (case time_Now en w of (w', t) \<Rightarrow> w'\<lparr>wk_lastProcessed := t\<rparr>)"

section \<open>One event\<close>

text \<open>
  The attempts of \<open>applyWithRetry\<close> still left, and the last error. A cancelled context ends it
  before an attempt or during the back-off; the stop channel is not looked at. The length of the
  back-off is not modelled.
\<close>

fun retry_attempts ::
  "('p, 'c, 'd) worker_env \<Rightarrow> nat \<Rightarrow> event \<Rightarrow> go_error option \<Rightarrow> ('p, 'c, 'd) worker \<Rightarrow>
   ('p, 'c, 'd) worker \<times> go_error option" where
  "retry_attempts en 0 evt lastErr w = (w, lastErr)"
| "retry_attempts en (Suc n) evt lastErr w =
     (case poll en w of
        (w1, ctx_done) \<Rightarrow> (w1, Some (ErrFmt [ctx_Err]))
      | (w1, _) \<Rightarrow>
          (case en_Handle en (wk_proj w1) evt of
             (p, None) \<Rightarrow> (w1\<lparr>wk_proj := p\<rparr>, None)
           | (p, Some err) \<Rightarrow>
               (let w2 = w1\<lparr>wk_proj := p, wk_errors := Suc (wk_errors w1)\<rparr> in
                if \<not> en_IsRetryable en err then (w2, Some err)
                else if n = 0 then (w2, Some err)
                else case poll en w2 of
                    (w3, ctx_done) \<Rightarrow> (w3, Some (ErrFmt [ctx_Err]))
                  | (w3, _) \<Rightarrow> retry_attempts en n evt (Some err) w3)))"

definition applyWithRetry ::
  "('p, 'c, 'd) worker_env \<Rightarrow> event \<Rightarrow> ('p, 'c, 'd) worker \<Rightarrow> ('p, 'c, 'd) worker \<times> go_error option" where
  "applyWithRetry en evt w = retry_attempts en (nat (ho_dlqThreshold (en_opts en))) evt None w"

definition familyToName :: "family \<Rightarrow> string" where
  "familyToName f =
     (case f of
        Rejection \<Rightarrow> ''rejection'' | Conflict \<Rightarrow> ''conflict'' | Transient \<Rightarrow> ''transient''
      | Corruption \<Rightarrow> ''corruption'' | Infrastructure \<Rightarrow> ''infrastructure''
      | Orchestration \<Rightarrow> ''orchestration'')"

definition sendToDLQ ::
  "('p, 'c, 'd) worker_env \<Rightarrow> ('d \<Rightarrow> DeadLetterEntry \<Rightarrow> 'd \<times> go_error option) \<Rightarrow> event \<Rightarrow> go_error \<Rightarrow>
   ('p, 'c, 'd) worker \<Rightarrow> ('p, 'c, 'd) worker \<times> go_error option" where
  "sendToDLQ en store evt handlerErr w =
     (case time_Now en w of
        (w1, now) \<Rightarrow>
          (case store (wk_dlq w1)
                  \<lparr>dl_ProjectionName = en_name en, dl_EventID = en_IDText en (e_id evt),
                   dl_EventType = e_eventType evt, dl_StreamID = en_StreamText en (e_streamID evt),
                   dl_Event = Some evt, dl_Error = en_ErrorText en handlerErr,
                   dl_ErrorCode = en_Code en handlerErr,
                   dl_ErrorFamily = familyToName (en_Classify en handlerErr), dl_FailedAt = now\<rparr> of
             (d, None) \<Rightarrow> (w1\<lparr>wk_dlq := d\<rparr>, None)
           | (d, Some err) \<Rightarrow> (w1\<lparr>wk_dlq := d\<rparr>, Some (ErrFmt [err]))))"

definition handleProcessEventError ::
  "('p, 'c, 'd) worker_env \<Rightarrow> event \<Rightarrow> go_error \<Rightarrow> ('p, 'c, 'd) worker \<Rightarrow>
   ('p, 'c, 'd) worker \<times> go_error option" where
  "handleProcessEventError en evt err w =
     (case en_dlqStore en of
        None \<Rightarrow> (w, Some err)
      | Some store \<Rightarrow>
          if en_IsRetryable en err then (w, Some err) else sendToDLQ en store evt err w)"

definition processEvent ::
  "('p, 'c, 'd) worker_env \<Rightarrow> event \<Rightarrow> ('p, 'c, 'd) worker \<Rightarrow> ('p, 'c, 'd) worker \<times> go_error option" where
  "processEvent en evt w =
     (if wasSeen w (e_id evt) then (w, None)
      else if \<not> shouldHandle en evt then (markSeen w (e_id evt), None)
      else
        case (case applyWithRetry en evt w of
                (w1, None) \<Rightarrow> (w1, None)
              | (w1, Some err) \<Rightarrow> handleProcessEventError en evt err w1) of
          (w2, Some e) \<Rightarrow> (w2, Some e)
        | (w2, None) \<Rightarrow>
            (touch en (markSeen (w2\<lparr>wk_processed := Suc (wk_processed w2)\<rparr>) (e_id evt)), None))"

section \<open>Draining the journal\<close>

definition saveCheckpoint ::
  "('p, 'c, 'd) worker_env \<Rightarrow> ulid \<Rightarrow> ('p, 'c, 'd) worker \<Rightarrow> ('p, 'c, 'd) worker \<times> go_error option" where
  "saveCheckpoint en afterID w =
     (case time_Now en w of
        (w1, now) \<Rightarrow>
          (case en_cpSave en (wk_cpStore w1) (en_name en) \<lparr>cp_EventID = afterID, cp_ProcessedAt = now\<rparr> of
             (c, Some err) \<Rightarrow> (w1\<lparr>wk_cpStore := c\<rparr>, Some (ErrFmt [err]))
           | (c, None) \<Rightarrow> (w1\<lparr>wk_cpStore := c, wk_checkpoint := afterID\<rparr>, None)))"

text \<open>How a drain goes on: to the next page, out of the loop, or out of the function.\<close>

datatype drain_exit = next_page | caught_up | returned "go_error option"

text \<open>The loop over the events of a page, with the identifier of the last one processed.\<close>

fun drain_events ::
  "('p, 'c, 'd) worker_env \<Rightarrow> event list \<Rightarrow> ulid \<Rightarrow> ('p, 'c, 'd) worker \<Rightarrow>
   ('p, 'c, 'd) worker \<times> ulid \<times> drain_exit" where
  "drain_events en [] afterID w = (w, afterID, next_page)"
| "drain_events en (evt # events) afterID w =
     (case poll en w of
        (w1, ctx_done) \<Rightarrow> (w1, afterID, returned (Some (ErrFmt [ctx_Err])))
      | (w1, stop_closed) \<Rightarrow> (w1, afterID, returned None)
      | (w1, no_signal) \<Rightarrow>
          (case processEvent en evt w1 of
             (w2, Some err) \<Rightarrow> (w2, afterID, returned (Some err))
           | (w2, None) \<Rightarrow> drain_events en events (e_id evt) w2))"

definition journal_read ::
  "('p, 'c, 'd) worker_env \<Rightarrow> ulid \<Rightarrow> ('p, 'c, 'd) worker \<Rightarrow> ('p, 'c, 'd) worker \<times> event list outcome" where
  "journal_read en afterID w =
     (w\<lparr>wk_reads := Suc (wk_reads w)\<rparr>,
      en_ReadFrom en (wk_reads w) afterID (ho_batchSize (en_opts en)))"

text \<open>One page of the drain in \<open>process\<close>.\<close>

definition drain_page ::
  "('p, 'c, 'd) worker_env \<Rightarrow> ulid \<Rightarrow> ('p, 'c, 'd) worker \<Rightarrow>
   (('p, 'c, 'd) worker \<times> ulid \<times> drain_exit) outcome" where
  "drain_page en afterID w =
     (case poll en w of
        (w1, ctx_done) \<Rightarrow> Ok (w1, afterID, returned (Some (ErrFmt [ctx_Err])))
      | (w1, stop_closed) \<Rightarrow> Ok (w1, afterID, returned None)
      | (w1, no_signal) \<Rightarrow>
          (case journal_read en afterID w1 of
             (w2, Panic) \<Rightarrow> Panic
           | (w2, Fail err) \<Rightarrow> Ok (w2, afterID, returned (Some (ErrFmt [err])))
           | (w2, Ok events) \<Rightarrow>
               if length events = 0 then Ok (w2, afterID, caught_up)
               else
                 (case drain_events en events afterID w2 of
                    (w3, afterID', next_page) \<Rightarrow>
                      (case saveCheckpoint en afterID' w3 of
                         (w4, Some err) \<Rightarrow> Ok (w4, afterID', returned (Some err))
                       | (w4, None) \<Rightarrow>
                           if int (length events) < ho_batchSize (en_opts en)
                           then Ok (w4, afterID', caught_up)
                           else Ok (w4, afterID', next_page))
                  | (w3, afterID', exit) \<Rightarrow> Ok (w3, afterID', exit))))"

partial_function (option) drain_loop ::
  "('p, 'c, 'd) worker_env \<Rightarrow> ulid \<Rightarrow> ('p, 'c, 'd) worker \<Rightarrow>
   (('p, 'c, 'd) worker \<times> ulid \<times> drain_exit) outcome option" where
  "drain_loop en afterID w =
     (case drain_page en afterID w of
        Ok (w', afterID', next_page) \<Rightarrow> drain_loop en afterID' w'
      | res \<Rightarrow> Some res)"

text \<open>
  \<open>drainCatchUp\<close>: the same pages, but a cancelled context and a closed stop channel end it
  without an error.
\<close>

fun catchup_events ::
  "('p, 'c, 'd) worker_env \<Rightarrow> event list \<Rightarrow> ulid \<Rightarrow> ('p, 'c, 'd) worker \<Rightarrow>
   ('p, 'c, 'd) worker \<times> ulid \<times> drain_exit" where
  "catchup_events en [] afterID w = (w, afterID, next_page)"
| "catchup_events en (evt # events) afterID w =
     (case poll en w of
        (w1, no_signal) \<Rightarrow>
          (case processEvent en evt w1 of
             (w2, Some err) \<Rightarrow> (w2, afterID, returned (Some err))
           | (w2, None) \<Rightarrow> catchup_events en events (e_id evt) w2)
      | (w1, _) \<Rightarrow> (w1, afterID, returned None))"

definition catchup_page ::
  "('p, 'c, 'd) worker_env \<Rightarrow> ulid \<Rightarrow> ('p, 'c, 'd) worker \<Rightarrow>
   (('p, 'c, 'd) worker \<times> ulid \<times> drain_exit) outcome" where
  "catchup_page en afterID w =
     (case poll en w of
        (w1, no_signal) \<Rightarrow>
          (case journal_read en afterID w1 of
             (w2, Panic) \<Rightarrow> Panic
           | (w2, Fail err) \<Rightarrow> Ok (w2, afterID, returned (Some (ErrFmt [err])))
           | (w2, Ok events) \<Rightarrow>
               if length events = 0 then Ok (w2, afterID, returned None)
               else
                 (case catchup_events en events afterID w2 of
                    (w3, afterID', next_page) \<Rightarrow>
                      (case saveCheckpoint en afterID' w3 of
                         (w4, Some err) \<Rightarrow> Ok (w4, afterID', returned (Some err))
                       | (w4, None) \<Rightarrow>
                           if int (length events) < ho_batchSize (en_opts en)
                           then Ok (w4, afterID', returned None)
                           else Ok (w4, afterID', next_page))
                  | (w3, afterID', exit) \<Rightarrow> Ok (w3, afterID', exit)))
      | (w1, _) \<Rightarrow> Ok (w1, afterID, returned None))"

partial_function (option) drainCatchUp ::
  "('p, 'c, 'd) worker_env \<Rightarrow> ulid \<Rightarrow> ('p, 'c, 'd) worker \<Rightarrow>
   (('p, 'c, 'd) worker \<times> ulid \<times> drain_exit) outcome option" where
  "drainCatchUp en afterID w =
     (case catchup_page en afterID w of
        Ok (w', afterID', next_page) \<Rightarrow> drainCatchUp en afterID' w'
      | res \<Rightarrow> Some res)"

section \<open>Live events\<close>

definition shouldFlushCheckpoint ::
  "('p, 'c, 'd) worker_env \<Rightarrow> ('p, 'c, 'd) worker \<Rightarrow> ('p, 'c, 'd) worker \<times> bool" where
  "shouldFlushCheckpoint en w =
     (let every = ho_cpEvery (en_opts en); interval = ho_cpInterval (en_opts en) in
      if every \<le> 1 \<and> interval \<le> 0 then (w, True)
      else if every > 1 \<and> wk_cpSinceSave w \<ge> every then (w, True)
      else if interval > 0 then
        (case time_Now en w of (w1, now) \<Rightarrow> (w1, now - wk_cpLastSave w1 \<ge> interval))
      else (w, False))"

definition flushCheckpoint ::
  "('p, 'c, 'd) worker_env \<Rightarrow> ('p, 'c, 'd) worker \<Rightarrow> ('p, 'c, 'd) worker \<times> go_error option" where
  "flushCheckpoint en w =
     (if \<not> wk_cpHasPending w then (w, None)
      else case en_cpSave en (wk_cpStore w) (en_name en) (wk_cpPending w) of
        (c, Some err) \<Rightarrow>
          (w\<lparr>wk_cpStore := c\<rparr>,
           Some (ErrWrap Infrastructure ''projectionhost.save_checkpoint_live'' err))
      | (c, None) \<Rightarrow>
          (case time_Now en (w\<lparr>wk_cpStore := c, wk_checkpoint := cp_EventID (wk_cpPending w),
                              wk_cpHasPending := False, wk_cpSinceSave := 0\<rparr>) of
             (w1, now) \<Rightarrow> (w1\<lparr>wk_cpLastSave := now\<rparr>, None)))"

definition flushPendingCheckpoint ::
  "('p, 'c, 'd) worker_env \<Rightarrow> ('p, 'c, 'd) worker \<Rightarrow> ('p, 'c, 'd) worker" where
  "flushPendingCheckpoint en w = (if \<not> wk_cpHasPending w then w else fst (flushCheckpoint en w))"

definition recordLiveCheckpoint ::
  "('p, 'c, 'd) worker_env \<Rightarrow> event \<Rightarrow> ('p, 'c, 'd) worker \<Rightarrow> ('p, 'c, 'd) worker \<times> go_error option" where
  "recordLiveCheckpoint en evt w =
     (case time_Now en w of
        (w1, now) \<Rightarrow>
          (case shouldFlushCheckpoint en
                  (w1\<lparr>wk_cpPending := \<lparr>cp_EventID = e_id evt, cp_ProcessedAt = now\<rparr>,
                      wk_cpHasPending := True, wk_cpSinceSave := wk_cpSinceSave w1 + 1\<rparr>) of
             (w2, True) \<Rightarrow> flushCheckpoint en w2
           | (w2, False) \<Rightarrow> (w2, None)))"

definition liveHandler ::
  "('p, 'c, 'd) worker_env \<Rightarrow> event \<Rightarrow> ('p, 'c, 'd) worker \<Rightarrow> ('p, 'c, 'd) worker \<times> go_error option" where
  "liveHandler en evt w0 =
     (case poll en w0 of
        (w, ctx_done) \<Rightarrow> (w, Some ctx_Err)
      | (w, stop_closed) \<Rightarrow> (w, None)
      | (w, no_signal) \<Rightarrow>
          if wasSeen w (e_id evt) then (w, None)
          else if \<not> shouldHandle en evt then (touch en (markSeen w (e_id evt)), None)
          else
            case (case applyWithRetry en evt w of
                    (w1, None) \<Rightarrow> (w1, None)
                  | (w1, Some err) \<Rightarrow> handleProcessEventError en evt err w1) of
              (w2, Some e) \<Rightarrow> (w2, Some e)
            | (w2, None) \<Rightarrow>
                (case recordLiveCheckpoint en evt w2 of
                   (w3, Some saveErr) \<Rightarrow> (w3, Some saveErr)
                 | (w3, None) \<Rightarrow>
                     (let w4 = markSeen w3 (e_id evt) in
                      (touch en (w4\<lparr>wk_processed := Suc (wk_processed w4)\<rparr>), None))))"

section \<open>Processing and restarting\<close>

text \<open>
  \<open>processLive\<close>. Live events that arrive in the meantime are calls of \<open>liveHandler\<close> between
  the events of the catch-up drain; they are not part of this function.
\<close>

definition processLive ::
  "('p, 'c, 'd) worker_env \<Rightarrow> go_error option \<Rightarrow> ulid \<Rightarrow> ('p, 'c, 'd) worker \<Rightarrow>
   (('p, 'c, 'd) worker \<times> go_error option) outcome option" where
  "processLive en subscribed afterID w0 =
     (let w = w0\<lparr>wk_status := WorkerLive\<rparr> in
      case subscribed of
        Some err \<Rightarrow> Some (Ok (w, Some (ErrFmt [err])))
      | None \<Rightarrow>
          map_option (\<lambda>res. obind res (\<lambda>(w', _, exit).
            Ok (w', case exit of returned (Some err) \<Rightarrow> Some (ErrFmt [err]) | _ \<Rightarrow> None)))
            (drainCatchUp en afterID w))"

definition worker_process ::
  "('p, 'c, 'd) worker_env \<Rightarrow> ('p, 'c, 'd) worker \<Rightarrow>
   (('p, 'c, 'd) worker \<times> go_error option) outcome option" where
  "worker_process en w =
     (case en_cpLoad en (wk_cpStore w) (en_name en) of
        Panic \<Rightarrow> Some Panic
      | Fail err \<Rightarrow> Some (Ok (w, Some (ErrFmt [err])))
      | Ok checkpoint \<Rightarrow>
          (let afterID = (if \<not> Checkpoint_IsZero checkpoint then cp_EventID checkpoint else 0) in
           case drain_loop en afterID (w\<lparr>wk_checkpoint := afterID\<rparr>) of
             None \<Rightarrow> None
           | Some Panic \<Rightarrow> Some Panic
           | Some (Fail err) \<Rightarrow> Some (Fail err)
           | Some (Ok (w', afterID', exit)) \<Rightarrow>
               (case exit of
                  returned r \<Rightarrow> Some (Ok (w', r))
                | _ \<Rightarrow>
                    (case en_SubscribeAll en of
                       None \<Rightarrow> Some (Ok (w', None))
                     | Some subscribed \<Rightarrow> processLive en subscribed afterID' w'))))"

definition maxBackoffShift :: int where
  "maxBackoffShift = 30"

text \<open>The cap of the back-off before the given restart, in 64-bit arithmetic.\<close>

definition backoff_cap :: "hostOptions \<Rightarrow> int \<Rightarrow> int" where
  "backoff_cap o' n =
     min (sint (word_of_int (ho_backoffInitial o') * (2 :: u64) ^ nat (min n maxBackoffShift)))
         (ho_backoffMax o')"

definition jitter_bound :: "hostOptions \<Rightarrow> int \<Rightarrow> int" where
  "jitter_bound o' n = sint (word_of_int (backoff_cap o' n + 1) :: u64)"

text \<open>
  \<open>run\<close>: restart after a failure until the budget is used up, after a random part of the
  back-off; drawing from an interval that is not positive panics. The callbacks on failure are
  not part of the state; a cancelled context is recognised in the error.
\<close>

definition run_exit :: "('p, 'c, 'd) worker_env \<Rightarrow> ('p, 'c, 'd) worker \<Rightarrow> ('p, 'c, 'd) worker" where
  "run_exit en w =
     flushPendingCheckpoint en (if wk_status w \<noteq> WorkerFailed then w\<lparr>wk_status := WorkerStopped\<rparr> else w)"

partial_function (option) worker_run ::
  "('p, 'c, 'd) worker_env \<Rightarrow> ('p, 'c, 'd) worker \<Rightarrow> ('p, 'c, 'd) worker outcome option" where
  "worker_run en w =
     (case poll en w of
        (w1, no_signal) \<Rightarrow>
          (case worker_process en (w1\<lparr>wk_status := WorkerRunning\<rparr>) of
             None \<Rightarrow> None
           | Some Panic \<Rightarrow> Some Panic
           | Some (Fail err) \<Rightarrow> Some (Fail err)
           | Some (Ok (w2, None)) \<Rightarrow> Some (Ok (run_exit en w2))
           | Some (Ok (w2, Some err)) \<Rightarrow>
               if errors_Is err ctx_Err \<or> errors_Is err ctx_DeadlineExceeded then Some (Ok (run_exit en w2))
               else
                 let w3 = w2\<lparr>wk_errors := Suc (wk_errors w2), wk_lastError := Some err,
                             wk_restarts := wk_restarts w2 + 1\<rparr> in
                 if ho_maxRestarts (en_opts en) \<ge> 0 \<and> wk_restarts w3 > ho_maxRestarts (en_opts en)
                 then Some (Ok (run_exit en (w3\<lparr>wk_status := WorkerFailed\<rparr>)))
                 else if jitter_bound (en_opts en) (wk_restarts w3 - 1) \<le> 0 then Some Panic
                 else
                   (case poll en (w3\<lparr>wk_status := WorkerBackoff\<rparr>) of
                      (w4, no_signal) \<Rightarrow> worker_run en w4
                    | (w4, _) \<Rightarrow> Some (Ok (run_exit en w4))))
      | (w1, _) \<Rightarrow> Some (Ok (run_exit en w1)))"

end
