(* ===== verification/ProjectionDrain.thy ===== *)
theory ProjectionDrain
  imports ProjectionWorker MemoryStore
begin

text \<open>
  What a projection worker guarantees while it drains the journal: whatever its handler, the
  journal reads, the checkpoint saves and the dead-letter store fail on and whenever it is stopped,
  the checkpoint never passes an event that was neither handled, dead-lettered nor filtered, and across restarts no event is applied twice, as long as a page is not
  larger than the ring of seen identifiers. The journal may grow while it is read.
\<close>

section \<open>The checkpoint store\<close>

text \<open>What a worker relies on of its checkpoint store.\<close>

locale checkpoint_store =
  fixes save :: "'c \<Rightarrow> string \<Rightarrow> Checkpoint \<Rightarrow> 'c \<times> go_error option"
    and load :: "'c \<Rightarrow> string \<Rightarrow> Checkpoint outcome"
  assumes save_load: "save c n cp = (c', None) \<Longrightarrow> load c' n = Ok cp"
    and save_failed: "save c n cp = (c', Some e) \<Longrightarrow> load c' n = load c n"

interpretation memory_cp: checkpoint_store mcs_Save mcs_Load
  by unfold_locales
    (auto simp: mcs_Save_def mcs_Load_def mcs_withWriteLock_def withCheckpointReadLock_def
      wrapClosed_def split: option.splits)

section \<open>Recording projections and growing journals\<close>

text \<open>A handler that keeps the list of the events it accepted beside its read model.\<close>

definition recording ::
  "('q \<Rightarrow> event \<Rightarrow> 'q \<times> go_error option) \<Rightarrow> 'q \<times> event list \<Rightarrow> event \<Rightarrow>
   ('q \<times> event list) \<times> go_error option" where
  "recording H p evt =
     (case H (fst p) evt of
        (q, None) \<Rightarrow> ((q, snd p @ [evt]), None)
      | (q, Some err) \<Rightarrow> ((q, snd p), Some err))"

text \<open>The cursor behind the first \<open>n\<close> events of the journal.\<close>

definition cursor :: "event list \<Rightarrow> nat \<Rightarrow> ulid" where
  "cursor L n = (if n = 0 then 0 else e_id (L ! (n - 1)))"

text \<open>
  The journal holds the first \<open>k n\<close> events of \<open>L\<close> at the \<open>n\<close>-th read, and a read behind a
  cursor that it holds returns the next page.
\<close>

definition growing_journal ::
  "('p, 'c, 'd) worker_env \<Rightarrow> event list \<Rightarrow> (nat \<Rightarrow> nat) \<Rightarrow> bool" where
  "growing_journal en L k \<longleftrightarrow>
     distinct (map e_id L) \<and> 0 \<notin> e_id ` set L \<and> mono k \<and> (\<forall>n. k n \<le> length L) \<and>
     (\<forall>n i. i \<le> k n \<longrightarrow>
        en_ReadFrom en n (cursor L i) (ho_batchSize (en_opts en)) =
          Ok (take (nat (ho_batchSize (en_opts en))) (drop i (take (k n) L))))"

lemma growing_journalD:
  assumes "growing_journal en L k"
  shows "distinct (map e_id L)" "0 \<notin> e_id ` set L" "mono k" "\<And>n. k n \<le> length L"
    "\<And>n i. i \<le> k n \<Longrightarrow> en_ReadFrom en n (cursor L i) (ho_batchSize (en_opts en)) =
          Ok (take (nat (ho_batchSize (en_opts en))) (drop i (take (k n) L)))"
  using assms unfolding growing_journal_def by blast+

text \<open>
  A dead-letter store, seen through what it has accepted: storing may fail, but it loses nothing it
  accepted before, and an entry it accepts is there afterwards.
\<close>

definition dlq_keeps :: "('d \<Rightarrow> DeadLetterEntry set) \<Rightarrow> ('p, 'c, 'd) worker_env \<Rightarrow> bool" where
  "dlq_keeps acc en \<longleftrightarrow>
     (\<forall>store d x d' r. en_dlqStore en = Some store \<longrightarrow> store d x = (d', r) \<longrightarrow>
        acc d \<subseteq> acc d' \<and> (r = None \<longrightarrow> x \<in> acc d'))"

definition parked :: "('d \<Rightarrow> DeadLetterEntry set) \<Rightarrow> ('p, 'c, 'd) worker \<Rightarrow> event set" where
  "parked acc w = {e. Some e \<in> dl_Event ` acc (wk_dlq w)}"

text \<open>A dead-letter store that keeps the list of the entries it accepted beside its own state.\<close>

definition recording_dlq ::
  "('d \<Rightarrow> DeadLetterEntry \<Rightarrow> 'd \<times> go_error option) \<Rightarrow> 'd \<times> DeadLetterEntry list \<Rightarrow> DeadLetterEntry \<Rightarrow>
   ('d \<times> DeadLetterEntry list) \<times> go_error option" where
  "recording_dlq S p entry =
     (case S (fst p) entry of
        (d, None) \<Rightarrow> ((d, snd p @ [entry]), None)
      | (d, Some err) \<Rightarrow> ((d, snd p), Some err))"

definition accepted :: "'d \<times> DeadLetterEntry list \<Rightarrow> DeadLetterEntry set" where
  "accepted p = set (snd p)"

lemma recording_dlq_keeps:
  assumes "\<And>store. en_dlqStore en = Some store \<Longrightarrow> \<exists>S. store = recording_dlq S"
  shows "dlq_keeps accepted en"
  unfolding dlq_keeps_def
proof (intro allI impI)
  fix store d x d' r
  assume "en_dlqStore en = Some store" "store d x = (d', r)"
  with assms [of store] show "accepted d \<subseteq> accepted d' \<and> (r = None \<longrightarrow> x \<in> accepted d')"
    by (auto simp: recording_dlq_def accepted_def split: prod.splits option.splits)
qed

lemma parked_accepted: "e \<in> parked accepted w \<longleftrightarrow> (\<exists>entry \<in> set (snd (wk_dlq w)). dl_Event entry = Some e)"
  by (auto simp: parked_def accepted_def image_iff eq_commute)

lemma mdl_Store_keeps: "en_dlqStore en = None \<or> en_dlqStore en = Some mdl_Store \<Longrightarrow> dlq_keeps set en"
  by (auto simp: dlq_keeps_def mdl_Store_def)

text \<open>The same journal, when a read may also fail.\<close>

definition readable_journal ::
  "('p, 'c, 'd) worker_env \<Rightarrow> event list \<Rightarrow> (nat \<Rightarrow> nat) \<Rightarrow> bool" where
  "readable_journal en L k \<longleftrightarrow>
     distinct (map e_id L) \<and> 0 \<notin> e_id ` set L \<and> mono k \<and> (\<forall>n. k n \<le> length L) \<and>
     (\<forall>n i. i \<le> k n \<longrightarrow>
        en_ReadFrom en n (cursor L i) (ho_batchSize (en_opts en)) =
          Ok (take (nat (ho_batchSize (en_opts en))) (drop i (take (k n) L))) \<or>
        (\<exists>err. en_ReadFrom en n (cursor L i) (ho_batchSize (en_opts en)) = Fail err))"

lemma growing_readable: "growing_journal en L k \<Longrightarrow> readable_journal en L k"
  unfolding growing_journal_def readable_journal_def by blast

lemma readable_journalD:
  assumes "readable_journal en L k"
  shows "distinct (map e_id L)" "0 \<notin> e_id ` set L" "mono k" "\<And>n. k n \<le> length L"
    "\<And>n i. i \<le> k n \<Longrightarrow> en_ReadFrom en n (cursor L i) (ho_batchSize (en_opts en)) =
          Ok (take (nat (ho_batchSize (en_opts en))) (drop i (take (k n) L))) \<or>
        (\<exists>err. en_ReadFrom en n (cursor L i) (ho_batchSize (en_opts en)) = Fail err)"
  using assms unfolding readable_journal_def by blast+

section \<open>The parts of a worker that an event leaves alone\<close>

definition worker_frame ::
  "('p, 'c, 'd) worker \<Rightarrow> 'c \<times> ulid Ring option \<times> nat \<times> bool" where
  "worker_frame w = (wk_cpStore w, wk_seenIDs w, wk_reads w, wk_cpHasPending w)"

lemma retry_attempts_frame:
  "retry_attempts en n evt lastErr w = (w', r) \<Longrightarrow> worker_frame w' = worker_frame w \<and> wk_dlq w' = wk_dlq w"
proof (induction n arbitrary: lastErr w)
  case 0
  then show ?case by simp
next
  case (Suc n)
  then show ?case
    by (auto simp: poll_def Let_def worker_frame_def split: signal.splits prod.splits option.splits if_splits)
qed

lemma retry_attempts_trace:
  assumes "en_Handle en = recording H" and "retry_attempts en n evt lastErr w = (w', r)"
    and "r = None \<Longrightarrow> 0 < n \<or> lastErr \<noteq> None"
  shows "snd (wk_proj w') = (if r = None then snd (wk_proj w) @ [evt] else snd (wk_proj w))"
  using assms(2,3)
proof (induction n arbitrary: lastErr w)
  case 0
  then show ?case by auto
next
  case (Suc n)
  show ?case
    using Suc.prems(1) assms(1)
    by (auto simp: poll_def Let_def recording_def
        split: signal.splits prod.splits option.splits if_splits dest!: Suc.IH)
qed


text \<open>Applying an event and, where that fails, quarantining it.\<close>

definition settle ::
  "('p, 'c, 'd) worker_env \<Rightarrow> event \<Rightarrow> ('p, 'c, 'd) worker \<Rightarrow> ('p, 'c, 'd) worker \<times> go_error option" where
  "settle en evt w =
     (case applyWithRetry en evt w of
        (w1, None) \<Rightarrow> (w1, None)
      | (w1, Some err) \<Rightarrow> handleProcessEventError en evt err w1)"

lemma processEvent_settle:
  "processEvent en evt w =
     (if wasSeen w (e_id evt) then (w, None)
      else if \<not> shouldHandle en evt then (markSeen w (e_id evt), None)
      else case settle en evt w of
          (w2, Some e) \<Rightarrow> (w2, Some e)
        | (w2, None) \<Rightarrow>
            (touch en (markSeen (w2\<lparr>wk_processed := Suc (wk_processed w2)\<rparr>) (e_id evt)), None))"
  unfolding processEvent_def settle_def by simp

lemma handle_error_spec:
  assumes "dlq_keeps acc en" and "handleProcessEventError en evt err w = (w', r)"
  shows "worker_frame w' = worker_frame w" and "wk_proj w' = wk_proj w"
    and "parked acc w \<subseteq> parked acc w'" and "r = None \<Longrightarrow> evt \<in> parked acc w'"
proof -
  have "worker_frame w' = worker_frame w \<and> wk_proj w' = wk_proj w \<and> parked acc w \<subseteq> parked acc w' \<and>
    (r = None \<longrightarrow> evt \<in> parked acc w')"
  proof (cases "en_dlqStore en = None \<or> en_IsRetryable en err")
    case True
    then show ?thesis
      using assms(2) by (auto simp: handleProcessEventError_def split: option.splits)
  next
    case False
    then obtain store where store: "en_dlqStore en = Some store" by auto
    define x where "x = \<lparr>dl_ProjectionName = en_name en, dl_EventID = en_IDText en (e_id evt),
      dl_EventType = e_eventType evt, dl_StreamID = en_StreamText en (e_streamID evt),
      dl_Event = Some evt, dl_Error = en_ErrorText en err, dl_ErrorCode = en_Code en err,
      dl_ErrorFamily = familyToName (en_Classify en err), dl_FailedAt = en_clock en (wk_ticks w)\<rparr>"
    obtain d e where st: "store (wk_dlq w) x = (d, e)" by fastforce
    then have kept: "acc (wk_dlq w) \<subseteq> acc d" "e = None \<Longrightarrow> x \<in> acc d"
      using assms(1) store by (auto simp: dlq_keeps_def)
    have "w' = w\<lparr>wk_ticks := Suc (wk_ticks w), wk_dlq := d\<rparr>" "r = None \<longleftrightarrow> e = None"
      using assms(2) store False st
      by (auto simp: handleProcessEventError_def sendToDLQ_def time_Now_def x_def [symmetric] split: option.splits)
    moreover have "dl_Event x = Some evt" by (simp add: x_def)
    ultimately show ?thesis
      using kept by (auto simp: worker_frame_def parked_def intro: rev_image_eqI)
  qed
  then show "worker_frame w' = worker_frame w" "wk_proj w' = wk_proj w"
    "parked acc w \<subseteq> parked acc w'" "r = None \<Longrightarrow> evt \<in> parked acc w'" by blast+
qed

lemma settle_spec:
  assumes "en_Handle en = recording H" and "dlq_keeps acc en" and "0 < ho_dlqThreshold (en_opts en)"
    and "settle en evt w = (w', r)"
  shows "worker_frame w' = worker_frame w" and "parked acc w \<subseteq> parked acc w'"
    and "r \<noteq> None \<Longrightarrow> snd (wk_proj w') = snd (wk_proj w)"
    and "r = None \<Longrightarrow>
      snd (wk_proj w') = snd (wk_proj w) @ [evt] \<or> snd (wk_proj w') = snd (wk_proj w) \<and> evt \<in> parked acc w'"
proof -
  obtain w1 r1 where apply_: "applyWithRetry en evt w = (w1, r1)" by (metis prod.exhaust)
  then have retry: "retry_attempts en (nat (ho_dlqThreshold (en_opts en))) evt None w = (w1, r1)"
    by (simp add: applyWithRetry_def)
  have frame: "worker_frame w1 = worker_frame w" "wk_dlq w1 = wk_dlq w"
    using retry_attempts_frame [OF retry] by simp_all
  have trace: "snd (wk_proj w1) = (if r1 = None then snd (wk_proj w) @ [evt] else snd (wk_proj w))"
    by (rule retry_attempts_trace [OF assms(1) retry]) (use assms(3) in simp)
  have same: "parked acc w1 = parked acc w" using frame(2) by (simp add: parked_def)
  have "worker_frame w' = worker_frame w \<and> parked acc w \<subseteq> parked acc w' \<and>
    (r \<noteq> None \<longrightarrow> snd (wk_proj w') = snd (wk_proj w)) \<and>
    (r = None \<longrightarrow> snd (wk_proj w') = snd (wk_proj w) @ [evt] \<or>
      snd (wk_proj w') = snd (wk_proj w) \<and> evt \<in> parked acc w')"
  proof (cases r1)
    case None
    then have "w' = w1" "r = None" using assms(4) apply_ by (simp_all add: settle_def)
    then show ?thesis using None frame(1) trace same by simp
  next
    case (Some err)
    then have "handleProcessEventError en evt err w1 = (w', r)"
      using assms(4) apply_ by (simp add: settle_def)
    note h = handle_error_spec [OF assms(2) this]
    show ?thesis using Some frame(1) trace same h by auto
  qed
  then show "worker_frame w' = worker_frame w" and "parked acc w \<subseteq> parked acc w'"
    and "r \<noteq> None \<Longrightarrow> snd (wk_proj w') = snd (wk_proj w)"
    and "r = None \<Longrightarrow>
      snd (wk_proj w') = snd (wk_proj w) @ [evt] \<or> snd (wk_proj w') = snd (wk_proj w) \<and> evt \<in> parked acc w'"
    by blast+
qed

section \<open>The invariant of a drain\<close>

text \<open>
  The worker started behind the first \<open>p0\<close> events of \<open>L\<close> with the trace \<open>t0\<close>. Its checkpoint is
  behind the first \<open>p\<close> events and it has dealt with the first \<open>q\<close>. The events between the two
  are the last entries of the ring and those after \<open>q\<close> are not in it.
\<close>

definition dealt_with ::
  "('d \<Rightarrow> DeadLetterEntry set) \<Rightarrow> ('q \<times> event list, 'c, 'd) worker_env \<Rightarrow> event list \<Rightarrow> event list \<Rightarrow>
   ('q \<times> event list, 'c, 'd) worker \<Rightarrow> bool" where
  "dealt_with acc en t0 done_events w \<longleftrightarrow>
     (\<exists>A. snd (wk_proj w) = t0 @ filter (\<lambda>e. e \<in> A) done_events \<and> (\<forall>e \<in> A. shouldHandle en e) \<and>
        (\<forall>e \<in> set done_events. shouldHandle en e \<longrightarrow> e \<in> A \<or> e \<in> parked acc w))"

definition window :: "event list \<Rightarrow> nat \<Rightarrow> nat \<Rightarrow> event list" where
  "window L i j = drop i (take j L)"

definition ring_tail :: "event list \<Rightarrow> nat \<Rightarrow> nat \<Rightarrow> ulid Ring option \<Rightarrow> bool" where
  "ring_tail L p q ring \<longleftrightarrow>
     (\<exists>s older. ring = Some s \<and> ring_inv s \<and>
        ring_contents s = older @ map e_id (window L p q) \<and> set older \<inter> e_id ` set (drop q L) = {})"

definition drain_inv ::
  "('d \<Rightarrow> DeadLetterEntry set) \<Rightarrow> ('q \<times> event list, 'c, 'd) worker_env \<Rightarrow> event list \<Rightarrow> (nat \<Rightarrow> nat) \<Rightarrow> nat \<Rightarrow>
   event list \<Rightarrow> nat \<Rightarrow> nat \<Rightarrow> ('q \<times> event list, 'c, 'd) worker \<Rightarrow> bool" where
  "drain_inv acc en L k p0 t0 p q w \<longleftrightarrow>
     p0 \<le> p \<and> p \<le> q \<and> q \<le> k (wk_reads w) \<and> int q \<le> int p + ho_batchSize (en_opts en) \<and>
     (\<exists>cp. en_cpLoad en (wk_cpStore w) (en_name en) = Ok cp \<and> cp_EventID cp = cursor L p) \<and>
     \<not> wk_cpHasPending w \<and>
     ring_tail L p q (wk_seenIDs w) \<and>
     ho_batchSize (en_opts en) \<le> int (Ring_Capacity (wk_seenIDs w)) \<and>
     dealt_with acc en t0 (window L p0 q) w"

text \<open>The setting the proofs share.\<close>

definition run_setting ::
  "('d \<Rightarrow> DeadLetterEntry set) \<Rightarrow> ('q \<times> event list, 'c, 'd) worker_env \<Rightarrow>
   ('q \<Rightarrow> event \<Rightarrow> 'q \<times> go_error option) \<Rightarrow> event list \<Rightarrow> (nat \<Rightarrow> nat) \<Rightarrow> bool" where
  "run_setting acc en H L k \<longleftrightarrow>
     en_Handle en = recording H \<and> dlq_keeps acc en \<and> 0 < ho_dlqThreshold (en_opts en) \<and>
     0 < ho_batchSize (en_opts en) \<and> readable_journal en L k \<and> checkpoint_store (en_cpSave en) (en_cpLoad en)"

lemma run_settingD:
  assumes "run_setting acc en H L k"
  shows "en_Handle en = recording H" "dlq_keeps acc en" "0 < ho_dlqThreshold (en_opts en)"
    "0 < ho_batchSize (en_opts en)" "readable_journal en L k"
    "checkpoint_store (en_cpSave en) (en_cpLoad en)"
  using assms unfolding run_setting_def by blast+

text \<open>A worker without a subscriber over a journal that can always be read, with the memory dead-letter store.\<close>

definition uses_memory_dlq :: "('p, 'c, MemoryDeadLetterStore) worker_env \<Rightarrow> bool" where
  "uses_memory_dlq en \<longleftrightarrow> en_dlqStore en = None \<or> en_dlqStore en = Some mdl_Store"

definition drain_setting ::
  "('q \<times> event list, 'c, MemoryDeadLetterStore) worker_env \<Rightarrow>
   ('q \<Rightarrow> event \<Rightarrow> 'q \<times> go_error option) \<Rightarrow> event list \<Rightarrow> (nat \<Rightarrow> nat) \<Rightarrow> bool" where
  "drain_setting en H L k \<longleftrightarrow>
     en_Handle en = recording H \<and> uses_memory_dlq en \<and> 0 < ho_dlqThreshold (en_opts en) \<and>
     0 < ho_batchSize (en_opts en) \<and> growing_journal en L k \<and>
     checkpoint_store (en_cpSave en) (en_cpLoad en) \<and> en_SubscribeAll en = None"

lemma drain_settingD:
  assumes "drain_setting en H L k"
  shows "en_Handle en = recording H" "uses_memory_dlq en" "0 < ho_dlqThreshold (en_opts en)"
    "0 < ho_batchSize (en_opts en)" "growing_journal en L k"
    "checkpoint_store (en_cpSave en) (en_cpLoad en)" "en_SubscribeAll en = None"
  using assms unfolding drain_setting_def by blast+

lemma drain_run_setting: "drain_setting en H L k \<Longrightarrow> run_setting set en H L k"
  using growing_readable mdl_Store_keeps unfolding drain_setting_def run_setting_def uses_memory_dlq_def by blast

lemma window_snoc: "i \<le> j \<Longrightarrow> j < length L \<Longrightarrow> window L i (Suc j) = window L i j @ [L ! j]"
  by (simp add: window_def take_Suc_conv_app_nth)

lemma window_Cons: "i < j \<Longrightarrow> j \<le> length L \<Longrightarrow> window L i j = L ! i # window L (Suc i) j"
  by (simp add: window_def Cons_nth_drop_Suc [symmetric])

lemma window_same [simp]: "window L i i = []"
  by (simp add: window_def)

lemma window_page: "take m (drop p (take k L)) = window L p (min (p + m) k)"
  unfolding window_def take_drop take_take by (simp add: add.commute)

lemma length_window: "j \<le> length L \<Longrightarrow> length (window L i j) = j - i"
  by (simp add: window_def)

section \<open>Steps keep the invariant\<close>

lemma ring_tail_seen:
  assumes "ring_tail L p q ring" and "n < length L" and "distinct (map e_id L)"
  shows "p \<le> n \<Longrightarrow> n < q \<Longrightarrow> Ring_Has ring (e_id (L ! n))"
    and "q \<le> n \<Longrightarrow> p \<le> q \<Longrightarrow> \<not> Ring_Has ring (e_id (L ! n))"
proof -
  obtain s older where ring: "ring = Some s" "ring_inv s"
    and contents: "ring_contents s = older @ map e_id (window L p q)"
    and older: "set older \<inter> e_id ` set (drop q L) = {}"
    using assms(1) unfolding ring_tail_def by blast
  have has: "Ring_Has ring x \<longleftrightarrow> x \<in> set (ring_contents s)" for x
    using ring_idx_contents [OF ring(2)] by (simp add: Ring_Has_def ring(1))
  show "Ring_Has ring (e_id (L ! n))" if "p \<le> n" "n < q"
  proof -
    have "window L p q ! (n - p) = L ! n" "n - p < length (window L p q)"
      using that assms(2) by (auto simp: window_def)
    then have "L ! n \<in> set (window L p q)" by (metis nth_mem)
    then show ?thesis by (simp add: has contents)
  qed
  show "\<not> Ring_Has ring (e_id (L ! n))" if "q \<le> n" "p \<le> q"
  proof -
    have "L ! n \<in> set (drop q L)"
      using that assms(2) nth_mem [of "n - q" "drop q L"] by simp
    then have "e_id (L ! n) \<notin> set older" using older by blast
    moreover have "e_id (L ! n) \<notin> e_id ` set (take q L)"
    proof
      assume "e_id (L ! n) \<in> e_id ` set (take q L)"
      then obtain m where "m < q" "m < length L" "e_id (L ! n) = e_id (L ! m)"
        by (auto simp: in_set_conv_nth)
      then show False
        using assms(2,3) that(1) by (metis distinct_map inj_on_eq_iff nth_mem nth_eq_iff_index_eq leD)
    qed
    then have "e_id (L ! n) \<notin> e_id ` set (window L p q)"
      by (auto simp: window_def dest: in_set_dropD)
    ultimately show ?thesis by (simp add: has contents)
  qed
qed

lemma ring_tail_add:
  assumes tail: "ring_tail L p q ring" and q: "q < length L" "p \<le> q"
    and dist: "distinct (map e_id L)" and room: "q < p + Ring_Capacity ring"
  shows "ring_tail L p (Suc q) (Ring_Add (e_id (L ! q)) ring)"
    and "Ring_Capacity (Ring_Add (e_id (L ! q)) ring) = Ring_Capacity ring"
proof -
  obtain s older where ring: "ring = Some s" "ring_inv s"
    and contents: "ring_contents s = older @ map e_id (window L p q)"
    and older: "set older \<inter> e_id ` set (drop q L) = {}"
    using tail unfolding ring_tail_def by blast
  have fresh: "e_id (L ! q) \<notin> set (ring_contents s)"
    using ring_tail_seen(2) [OF tail q(1) dist order_refl q(2)]
      ring_idx_contents [OF ring(2), of "e_id (L ! q)"]
    by (simp add: Ring_Has_def ring(1))
  let ?c = "length (rg_buf s)"
  have cap: "Ring_Capacity ring = ?c" by (simp add: Ring_Capacity_def ring(1))
  have new: "ring_contents (Ring_insert (e_id (L ! q)) s) =
      (if length (ring_contents s) = ?c then tl (ring_contents s) else ring_contents s) @ [e_id (L ! q)]"
    using Ring_insert_contents [OF ring(2), of "e_id (L ! q)"] fresh by (simp add: fifo_add_def)
  have sub: "set (drop (Suc q) L) \<subseteq> set (drop q L)"
    by (simp add: set_drop_subset_set_drop)
  have "\<exists>older'. ring_contents (Ring_insert (e_id (L ! q)) s) = older' @ map e_id (window L p (Suc q)) \<and>
      set older' \<subseteq> set older"
  proof (cases "length (ring_contents s) = ?c \<and> older \<noteq> []")
    case True
    then show ?thesis
      using new contents q by (intro exI [of _ "tl older"])
        (auto simp: window_snoc tl_append dest: list.set_sel(2) split: list.split)
  next
    case False
    have "length (ring_contents s) \<noteq> ?c"
    proof
      assume full: "length (ring_contents s) = ?c"
      with False have "older = []" by simp
      with full contents have "q - p = ?c"
        using q by (simp add: length_window)
      with room cap q show False by simp
    qed
    then show ?thesis
      using new contents q by (intro exI [of _ older]) (simp add: window_snoc)
  qed
  then show "ring_tail L p (Suc q) (Ring_Add (e_id (L ! q)) ring)"
    using older sub Ring_insert_inv [OF ring(2)] unfolding ring_tail_def
    by (simp add: Ring_Add_def ring(1)) blast
  show "Ring_Capacity (Ring_Add (e_id (L ! q)) ring) = Ring_Capacity ring"
    by (simp add: Ring_Add_def Ring_Capacity_def ring(1) Ring_insert_capacity)
qed


lemma dealt_with_more:
  assumes "dealt_with acc en t0 es w" and "e \<notin> set es"
    and "snd (wk_proj w') = snd (wk_proj w) @ [e] \<and> shouldHandle en e \<and> parked acc w \<subseteq> parked acc w' \<or>
         snd (wk_proj w') = snd (wk_proj w) \<and> parked acc w \<subseteq> parked acc w' \<and> (shouldHandle en e \<longrightarrow> e \<in> parked acc w')"
  shows "dealt_with acc en t0 (es @ [e]) w'"
proof -
  from assms(1) obtain A where A: "snd (wk_proj w) = t0 @ filter (\<lambda>e. e \<in> A) es"
    "\<forall>e \<in> A. shouldHandle en e"
    "\<forall>e \<in> set es. shouldHandle en e \<longrightarrow> e \<in> A \<or> e \<in> parked acc w"
    unfolding dealt_with_def by blast
  have same: "filter (\<lambda>x. x \<in> insert e A) es = filter (\<lambda>x. x \<in> A) es"
    "filter (\<lambda>x. x \<in> A - {e}) es = filter (\<lambda>x. x \<in> A) es"
    using assms(2) by (auto intro!: filter_cong)
  from assms(3) show ?thesis
  proof
    assume "snd (wk_proj w') = snd (wk_proj w) @ [e] \<and> shouldHandle en e \<and> parked acc w \<subseteq> parked acc w'"
    then show ?thesis
      unfolding dealt_with_def using A same(1) by (intro exI [of _ "insert e A"]) auto
  next
    assume "snd (wk_proj w') = snd (wk_proj w) \<and> parked acc w \<subseteq> parked acc w' \<and> (shouldHandle en e \<longrightarrow> e \<in> parked acc w')"
    then show ?thesis
      unfolding dealt_with_def using A same(2) assms(2) by (intro exI [of _ "A - {e}"]) auto
  qed
qed

lemma drain_invD:
  assumes "drain_inv acc en L k p0 t0 p q w"
  shows "p0 \<le> p" "p \<le> q" "q \<le> k (wk_reads w)" "int q \<le> int p + ho_batchSize (en_opts en)"
    "\<exists>cp. en_cpLoad en (wk_cpStore w) (en_name en) = Ok cp \<and> cp_EventID cp = cursor L p"
    "\<not> wk_cpHasPending w" "ring_tail L p q (wk_seenIDs w)"
    "ho_batchSize (en_opts en) \<le> int (Ring_Capacity (wk_seenIDs w))"
    "dealt_with acc en t0 (window L p0 q) w"
  using assms unfolding drain_inv_def by blast+

text \<open>The invariant depends on a worker only through these parts.\<close>

definition same_view ::
  "('d \<Rightarrow> DeadLetterEntry set) \<Rightarrow> ('q \<times> event list, 'c, 'd) worker \<Rightarrow>
   ('q \<times> event list, 'c, 'd) worker \<Rightarrow> bool" where
  "same_view acc w w' \<longleftrightarrow> worker_frame w' = worker_frame w \<and> snd (wk_proj w') = snd (wk_proj w) \<and>
     parked acc w \<subseteq> parked acc w'"

lemma drain_inv_view:
  assumes "same_view acc w w'" and "drain_inv acc en L k p0 t0 p q w"
  shows "drain_inv acc en L k p0 t0 p q w'"
  using assms unfolding drain_inv_def same_view_def worker_frame_def dealt_with_def by auto

lemma same_view_poll [simp]: "poll en w = (w', sig) \<Longrightarrow> same_view acc w w'"
  by (auto simp: poll_def same_view_def worker_frame_def parked_def)

lemma window_nth_notin:
  assumes "distinct (map e_id L)" and "q < length L"
  shows "L ! q \<notin> set (window L p0 q)"
proof
  assume "L ! q \<in> set (window L p0 q)"
  then have "L ! q \<in> set (take q L)"
    by (auto simp: window_def dest: in_set_dropD)
  then show False
    using assms by (auto simp: in_set_conv_nth distinct_map nth_eq_iff_index_eq)
qed

lemma processEvent_new:
  assumes S: "run_setting acc en H L k" and I: "drain_inv acc en L k p0 t0 p q w"
    and q: "q < k (wk_reads w)" and room: "int q < int p + ho_batchSize (en_opts en)"
    and step: "processEvent en (L ! q) w = (w', r)"
  shows "if r = None then drain_inv acc en L k p0 t0 p (Suc q) w' else drain_inv acc en L k p0 t0 p q w'"
    and "wk_reads w' = wk_reads w"
proof -
  note S' = run_settingD [OF S] and I' = drain_invD [OF I]
  note J = readable_journalD [OF S'(5)]
  have len: "q < length L" using q J(4) by (meson order_less_le_trans)
  have unseen: "\<not> wasSeen w (e_id (L ! q))"
    using ring_tail_seen(2) [OF I'(7) len J(1) order_refl I'(2)] by (simp add: wasSeen_def)
  have cap: "q < p + Ring_Capacity (wk_seenIDs w)"
    using room I'(8) by linarith
  note add = ring_tail_add [OF I'(7) len I'(2) J(1) cap]
  have grow: "window L p0 (Suc q) = window L p0 q @ [L ! q]"
    using I'(1,2) len by (intro window_snoc) simp_all
  have more: "drain_inv acc en L k p0 t0 p (Suc q) v"
    if "wk_cpStore v = wk_cpStore w" "wk_reads v = wk_reads w" "\<not> wk_cpHasPending v"
      "wk_seenIDs v = Ring_Add (e_id (L ! q)) (wk_seenIDs w)"
      "snd (wk_proj v) = snd (wk_proj w) @ [L ! q] \<and> shouldHandle en (L ! q) \<and> parked acc w \<subseteq> parked acc v \<or>
       snd (wk_proj v) = snd (wk_proj w) \<and> parked acc w \<subseteq> parked acc v \<and>
         (shouldHandle en (L ! q) \<longrightarrow> L ! q \<in> parked acc v)" for v
  proof -
    have "dealt_with acc en t0 (window L p0 (Suc q)) v"
      unfolding grow
      by (rule dealt_with_more [OF I'(9) window_nth_notin [OF J(1) len] that(5)])
    then show ?thesis
      using I' q room add that(1-4) unfolding drain_inv_def by auto
  qed
  show "if r = None then drain_inv acc en L k p0 t0 p (Suc q) w' else drain_inv acc en L k p0 t0 p q w'"
    and "wk_reads w' = wk_reads w"
  proof -
    have "(if r = None then drain_inv acc en L k p0 t0 p (Suc q) w' else drain_inv acc en L k p0 t0 p q w') \<and>
        wk_reads w' = wk_reads w"
    proof (cases "shouldHandle en (L ! q)")
      case False
      then have "w' = markSeen w (e_id (L ! q))" "r = None"
        using step unseen by (auto simp: processEvent_settle)
      then show ?thesis
        using False I'(6) by (auto simp: markSeen_def parked_def intro!: more)
    next
      case True
      obtain w2 r2 where st: "settle en (L ! q) w = (w2, r2)" by (metis prod.exhaust)
      note sp = settle_spec [OF S'(1-3) st]
      show ?thesis
      proof (cases r2)
        case (Some e)
        then have "w' = w2" "r = Some e"
          using step unseen True st by (auto simp: processEvent_settle)
        moreover have "same_view acc w w2"
          using sp(1-3) Some by (simp add: same_view_def)
        ultimately show ?thesis
          using drain_inv_view [OF _ I] sp(1) by (simp add: worker_frame_def)
      next
        case None
        then have w': "w' = touch en (markSeen (w2\<lparr>wk_processed := Suc (wk_processed w2)\<rparr>) (e_id (L ! q)))"
          and "r = None"
          using step unseen True st by (auto simp: processEvent_settle)
        have eff: "wk_cpStore w' = wk_cpStore w" "wk_reads w' = wk_reads w" "\<not> wk_cpHasPending w'"
          "wk_seenIDs w' = Ring_Add (e_id (L ! q)) (wk_seenIDs w)"
          "wk_proj w' = wk_proj w2" "parked acc w' = parked acc w2"
          using sp(1) I'(6)
          by (simp_all add: w' touch_def time_Now_def markSeen_def worker_frame_def parked_def)
        show ?thesis
          using more [OF eff(1-4)] eff(2,5,6) sp(2) sp(4) [OF None] True \<open>r = None\<close> by auto
      qed
    qed
    then show "if r = None then drain_inv acc en L k p0 t0 p (Suc q) w' else drain_inv acc en L k p0 t0 p q w'"
      and "wk_reads w' = wk_reads w" by simp_all
  qed
qed


lemma cursor_Suc [simp]: "cursor L (Suc n) = e_id (L ! n)"
  by (simp add: cursor_def)

lemma drain_events_inv:
  assumes S: "run_setting acc en H L k" and I: "drain_inv acc en L k p0 t0 p q w"
    and pos: "p \<le> i" "i \<le> q" "q \<le> r" "r \<le> k (wk_reads w)" "int r \<le> int p + ho_batchSize (en_opts en)"
    and step: "drain_events en (window L i r) (cursor L i) w = (w', a', exit)"
  shows "\<exists>q'. q' \<le> r \<and> drain_inv acc en L k p0 t0 p q' w' \<and> wk_reads w' = wk_reads w \<and>
     exit \<noteq> caught_up \<and> (exit = next_page \<longrightarrow> q' = r \<and> a' = cursor L r)"
  using I pos step
proof (induction "r - i" arbitrary: i q w)
  case 0
  then have "window L i r = []" "i = r" "q = r"
    by (simp_all add: window_def)
  then show ?case
    using 0 by (intro exI [of _ r]) auto
next
  case (Suc n)
  note J = readable_journalD [OF run_settingD(5) [OF S]]
  have i: "i < r" "r \<le> length L" using Suc.hyps(2) Suc.prems(5) J(4) [of "wk_reads w"] by linarith+
  have win: "window L i r = L ! i # window L (Suc i) r"
    by (rule window_Cons [OF i])
  obtain w1 sig where pl: "poll en w = (w1, sig)" by (metis prod.exhaust)
  note view = same_view_poll [OF pl]
  have I1: "drain_inv acc en L k p0 t0 p q w1"
    by (rule drain_inv_view [OF view Suc.prems(1)])
  have reads1: "wk_reads w1 = wk_reads w" using view by (simp add: same_view_def worker_frame_def)
  show ?case
  proof (cases "sig = no_signal")
    case False
    then have "w' = w1" "exit \<noteq> next_page" "exit \<noteq> caught_up"
      using Suc.prems(7) win pl by (auto split: signal.splits)
    then show ?thesis
      using I1 reads1 Suc.prems(4) by (intro exI [of _ q]) simp
  next
    case True
    obtain w2 res where pe: "processEvent en (L ! i) w1 = (w2, res)" by (metis prod.exhaust)
    have two: "\<exists>q2. drain_inv acc en L k p0 t0 p q2 w2 \<and> wk_reads w2 = wk_reads w \<and> q2 \<le> r \<and>
        (res = None \<longrightarrow> Suc i \<le> q2)"
    proof (cases "i < q")
      case True
      have "Ring_Has (wk_seenIDs w1) (e_id (L ! i))"
        using ring_tail_seen(1) [OF drain_invD(7) [OF I1] _ J(1)] i Suc.prems(2) True by simp
      then have "w2 = w1" "res = None"
        using pe by (simp_all add: processEvent_settle wasSeen_def)
      then show ?thesis
        using True I1 reads1 Suc.prems(4) by (intro exI [of _ q]) simp
    next
      case False
      then have "q = i" using Suc.prems(3) by simp
      then have room: "q < k (wk_reads w1)" "int q < int p + ho_batchSize (en_opts en)"
        using i Suc.prems(5,6) reads1 by simp_all
      have pe': "processEvent en (L ! q) w1 = (w2, res)" using pe \<open>q = i\<close> by simp
      note new = processEvent_new [OF S I1 room pe']
      show ?thesis
      proof (cases res)
        case None
        then show ?thesis
          using new reads1 i \<open>q = i\<close> by (intro exI [of _ "Suc q"]) simp
      next
        case (Some e)
        then show ?thesis
          using new reads1 Suc.prems(4) by (intro exI [of _ q]) simp
      qed
    qed
    then obtain q2 where two: "drain_inv acc en L k p0 t0 p q2 w2" "wk_reads w2 = wk_reads w" "q2 \<le> r"
      "res = None \<Longrightarrow> Suc i \<le> q2" by blast
    show ?thesis
    proof (cases res)
      case (Some e)
      then have "w' = w2" "exit = returned (Some e)"
        using Suc.prems(7) win pl pe True by auto
      then show ?thesis
        using two by (intro exI [of _ q2]) simp
    next
      case None
      have "drain_events en (window L (Suc i) r) (cursor L (Suc i)) w2 = (w', a', exit)"
        using Suc.prems(7) win pl pe True None by simp
      then have "\<exists>q'. q' \<le> r \<and> drain_inv acc en L k p0 t0 p q' w' \<and> wk_reads w' = wk_reads w2 \<and>
         exit \<noteq> caught_up \<and> (exit = next_page \<longrightarrow> q' = r \<and> a' = cursor L r)"
        using Suc.hyps(1) [of "Suc i" q2 w2] Suc.hyps(2) two(1,3) two(4) [OF None] Suc.prems(2,5,6) two(2)
        by simp
      then show ?thesis using two(2) by simp
    qed
  qed
qed

lemma saveCheckpoint_inv:
  assumes S: "run_setting acc en H L k" and I: "drain_inv acc en L k p0 t0 p q w"
    and step: "saveCheckpoint en (cursor L q) w = (w', r)"
  shows "if r = None then drain_inv acc en L k p0 t0 q q w' else drain_inv acc en L k p0 t0 p q w'"
    and "wk_reads w' = wk_reads w"
proof -
  note S' = run_settingD [OF S] and I' = drain_invD [OF I]
  let ?cp = "\<lparr>cp_EventID = cursor L q, cp_ProcessedAt = en_clock en (wk_ticks w)\<rparr>"
  obtain c e where sv: "en_cpSave en (wk_cpStore w) (en_name en) ?cp = (c, e)" by (metis prod.exhaust)
  have eff: "wk_cpStore w' = c" "wk_seenIDs w' = wk_seenIDs w" "wk_reads w' = wk_reads w"
    "wk_cpHasPending w' = wk_cpHasPending w" "wk_proj w' = wk_proj w" "parked acc w' = parked acc w"
    "r = None \<longleftrightarrow> e = None"
    using step sv by (auto simp: saveCheckpoint_def time_Now_def parked_def split: option.splits)
  have dealt: "dealt_with acc en t0 (window L p0 q) w'"
    using I'(9) eff(5,6) by (simp add: dealt_with_def)
  show "wk_reads w' = wk_reads w" by (rule eff(3))
  show "if r = None then drain_inv acc en L k p0 t0 q q w' else drain_inv acc en L k p0 t0 p q w'"
  proof (cases e)
    case None
    have "en_cpLoad en c (en_name en) = Ok ?cp"
      using checkpoint_store.save_load [OF S'(6)] sv None by blast
    moreover have "ring_tail L q q (wk_seenIDs w')"
      using I'(7) unfolding ring_tail_def eff(2)
    proof (elim exE conjE)
      fix s older
      assume a: "wk_seenIDs w = Some s" "ring_inv s" "ring_contents s = older @ map e_id (window L p q)"
        "set older \<inter> e_id ` set (drop q L) = {}"
      have len: "q \<le> length L"
        using I'(3) readable_journalD(4) [OF S'(5)] by (meson order_trans)
      have "e_id ` set (take q L) \<inter> e_id ` set (drop q L) = {}"
        using readable_journalD(1) [OF S'(5)]
        by (metis append_take_drop_id distinct_append list.set_map map_append)
      moreover have "set (window L p q) \<subseteq> set (take q L)"
        by (simp add: window_def set_drop_subset)
      ultimately have "set (older @ map e_id (window L p q)) \<inter> e_id ` set (drop q L) = {}"
        using a(4) unfolding set_append set_map by blast
      then show "\<exists>s older. wk_seenIDs w = Some s \<and> ring_inv s \<and>
          ring_contents s = older @ map e_id (window L q q) \<and> set older \<inter> e_id ` set (drop q L) = {}"
        using a(1-3) by simp
    qed
    ultimately show ?thesis
      using I' S'(4) eff(1-4,7) None dealt unfolding drain_inv_def by auto
  next
    case (Some err)
    have "en_cpLoad en c (en_name en) = en_cpLoad en (wk_cpStore w) (en_name en)"
      using checkpoint_store.save_failed [OF S'(6)] sv Some by blast
    then show ?thesis
      using I' eff(1-4,7) Some dealt unfolding drain_inv_def by auto
  qed
qed


lemma drain_page_inv:
  assumes S: "run_setting acc en H L k" and I: "drain_inv acc en L k p0 t0 p q w"
  shows "\<exists>w' a' exit. drain_page en (cursor L p) w = Ok (w', a', exit) \<and>
    (\<exists>p' q'. p \<le> p' \<and> drain_inv acc en L k p0 t0 p' q' w' \<and>
      ((\<forall>r. exit \<noteq> returned r) \<longrightarrow> a' = cursor L p' \<and> p' = q') \<and>
      (exit = next_page \<longrightarrow> p < p') \<and>
      (exit = caught_up \<longrightarrow> p' = k (wk_reads w)) \<and> wk_reads w' \<le> Suc (wk_reads w))"
proof -
  note S' = run_settingD [OF S]
  note J = readable_journalD [OF S'(5)]
  let ?b = "ho_batchSize (en_opts en)" and ?k = "k (wk_reads w)"
  obtain w1 sig where pl: "poll en w = (w1, sig)" by (metis prod.exhaust)
  note view = same_view_poll [OF pl]
  have I1: "drain_inv acc en L k p0 t0 p q w1"
    by (rule drain_inv_view [OF view I])
  have reads1: "wk_reads w1 = wk_reads w" using view by (simp add: same_view_def worker_frame_def)
  show ?thesis
  proof (cases "sig = no_signal")
    case False
    then obtain e where "drain_page en (cursor L p) w = Ok (w1, cursor L p, returned e)"
      using pl by (cases sig) (auto simp: drain_page_def)
    then show ?thesis
      using I1 reads1
      by (intro exI [of _ w1] exI [of _ "cursor L p"] exI [of _ "returned e"] conjI exI [of _ p] exI [of _ q])
        simp_all
  next
    case True
    define w2 where "w2 = w1\<lparr>wk_reads := Suc (wk_reads w1)\<rparr>"
    have pq: "p \<le> q" "q \<le> ?k" "int q \<le> int p + ?b"
      using drain_invD(2-4) [OF I] by simp_all
    define r where "r = min (p + nat ?b) ?k"
    have read: "journal_read en (cursor L p) w1 = (w2, Ok (window L p r)) \<or>
        (\<exists>err. journal_read en (cursor L p) w1 = (w2, Fail err))"
      using J(5) [of p "wk_reads w"] pq reads1 window_page [of "nat ?b" p ?k L]
      by (simp add: journal_read_def w2_def r_def)
    have r: "q \<le> r" "r \<le> ?k" "int r \<le> int p + ?b" "p \<le> r" "r \<le> length L"
      using pq S'(4) J(4) [of "wk_reads w"] by (auto simp: r_def)
    have "mono k" by (rule J(3))
    then have kk: "?k \<le> k (wk_reads w2)"
      by (simp add: w2_def reads1 monoD)
    have I2: "drain_inv acc en L k p0 t0 p q w2"
      using I1 kk pq unfolding drain_inv_def w2_def dealt_with_def parked_def by auto
    show ?thesis
    proof (cases "\<exists>err. journal_read en (cursor L p) w1 = (w2, Fail err)")
      case True
      then obtain err where "drain_page en (cursor L p) w = Ok (w2, cursor L p, returned (Some (ErrFmt [err])))"
        using pl \<open>sig = no_signal\<close> by (auto simp: drain_page_def)
      then show ?thesis
        using I2
        by (intro exI [of _ w2] exI [of _ "cursor L p"] exI [of _ "returned (Some (ErrFmt [err]))"] conjI
            exI [of _ p] exI [of _ q]) (simp_all add: w2_def reads1)
    next
      case False
      with read have read: "journal_read en (cursor L p) w1 = (w2, Ok (window L p r))" by blast
      show ?thesis
    proof (cases "p = r")
      case empty: True
      then have "drain_page en (cursor L p) w = Ok (w2, cursor L p, caught_up)"
        using pl True read by (simp add: drain_page_def)
      moreover have "p = q" "p = ?k"
        using empty r pq S'(4) by (simp_all add: r_def min_def split: if_splits)
      ultimately show ?thesis
        using I2 by (intro exI conjI) (auto simp: w2_def reads1 intro!: exI [of _ p])
    next
      case False
      then have len: "length (window L p r) = r - p" "r - p \<noteq> 0"
        using r by (simp_all add: length_window)
      obtain w3 a3 ex3 where ev: "drain_events en (window L p r) (cursor L p) w2 = (w3, a3, ex3)"
        by (metis prod.exhaust)
      obtain q3 where three: "q3 \<le> r" "drain_inv acc en L k p0 t0 p q3 w3" "wk_reads w3 = wk_reads w2"
        "ex3 \<noteq> caught_up" "ex3 = next_page \<longrightarrow> q3 = r \<and> a3 = cursor L r"
        using drain_events_inv [OF S I2 order_refl pq(1) r(1) _ r(3) ev] r(2) kk by auto
      have page: "drain_page en (cursor L p) w =
        (case drain_events en (window L p r) (cursor L p) w2 of
                    (w3, afterID', next_page) \<Rightarrow>
                      (case saveCheckpoint en afterID' w3 of
                         (w4, Some err) \<Rightarrow> Ok (w4, afterID', returned (Some err))
                       | (w4, None) \<Rightarrow>
                           if int (length (window L p r)) < ho_batchSize (en_opts en)
                           then Ok (w4, afterID', caught_up)
                           else Ok (w4, afterID', next_page))
                  | (w3, afterID', exit) \<Rightarrow> Ok (w3, afterID', exit))"
        using pl True read len(2) unfolding drain_page_def
        by (simp only: prod.case signal.case outcome.case len(1) if_False)
      show ?thesis
      proof (cases "ex3 = next_page")
        case False
        then obtain e where "drain_page en (cursor L p) w = Ok (w3, a3, returned e)"
          using page ev three(4) by (cases ex3) auto
        then show ?thesis
          using three(2,3)
          by (intro exI [of _ w3] exI [of _ a3] exI [of _ "returned e"] conjI exI [of _ p] exI [of _ q3])
            (simp_all add: w2_def reads1)
      next
        case nxt: True
        then have at: "q3 = r" "a3 = cursor L r" using three(5) by simp_all
        obtain w4 e where sv: "saveCheckpoint en (cursor L r) w3 = (w4, e)" by (metis prod.exhaust)
        note s4 = saveCheckpoint_inv [OF S three(2) [unfolded at] sv]
        have reads4: "wk_reads w4 \<le> Suc (wk_reads w)"
          using s4(2) three(3) by (simp add: w2_def reads1)
        show ?thesis
        proof (cases e)
          case (Some err)
          then have "drain_page en (cursor L p) w = Ok (w4, cursor L r, returned (Some err))"
            using page ev nxt at sv by simp
          then show ?thesis
            using s4(1) Some reads4
            by (intro exI [of _ w4] exI [of _ "cursor L r"] exI [of _ "returned (Some err)"] conjI
                exI [of _ p] exI [of _ r]) simp_all
        next
          case None
          define ex where "ex = (if int (r - p) < ?b then caught_up else next_page)"
          have "drain_page en (cursor L p) w = Ok (w4, cursor L r, ex)"
            using page ev nxt at sv None len by (simp add: ex_def)
          moreover have "ex = caught_up \<Longrightarrow> r = ?k"
            using r(4) by (auto simp: ex_def r_def split: if_splits)
          moreover have "p < r" using False r(4) by simp
          ultimately show ?thesis
            using s4(1) None reads4 r(4)
            by (intro exI [of _ w4] exI [of _ "cursor L r"] exI [of _ ex] conjI exI [of _ r]) auto
        qed
      qed
    qed
    qed
  qed
qed

lemma drain_loop_inv:
  assumes S: "run_setting acc en H L k" and loop: "drain_loop en a w = Some res"
    and I: "drain_inv acc en L k p0 t0 p q w" and a: "a = cursor L p"
  shows "\<exists>w' a' exit p' q'. res = Ok (w', a', exit) \<and> p \<le> p' \<and> drain_inv acc en L k p0 t0 p' q' w' \<and>
           exit \<noteq> next_page \<and> (exit = caught_up \<longrightarrow> a' = cursor L p')"
proof -
  define P where "P = (\<lambda>en' a w res. en' = en \<longrightarrow> (\<forall>p q. drain_inv acc en L k p0 t0 p q w \<longrightarrow> a = cursor L p \<longrightarrow>
      (\<exists>w' (a' :: ulid) exit p' q'. res = Ok (w', a', exit) \<and> p \<le> p' \<and>
        drain_inv acc en L k p0 t0 p' q' w' \<and> exit \<noteq> next_page \<and> (exit = caught_up \<longrightarrow> a' = cursor L p'))))"
  have "P en a w res"
  proof (rule drain_loop.raw_induct [where P = P, OF _ loop])
    fix loop en' a w y
    assume IH: "\<And>en' a w y. loop en' a w = Some y \<Longrightarrow> P en' a w y"
      and body: "(case drain_page en' a w of
        Ok (w', afterID', next_page) \<Rightarrow> loop en' afterID' w'
      | Ok (w', afterID', caught_up) \<Rightarrow> Some (Ok (w', afterID', caught_up))
      | Ok (w', afterID', returned r) \<Rightarrow> Some (Ok (w', afterID', returned r))
      | Fail err \<Rightarrow> Some (Fail err) | Panic \<Rightarrow> Some Panic) = Some y"
    show "P en' a w y"
      unfolding P_def
    proof (intro impI allI)
      fix p q
      assume en: "en' = en" and I: "drain_inv acc en L k p0 t0 p q w" and a: "a = cursor L p"
      from drain_page_inv [OF S I] obtain w' a' exit p' q'
        where pg: "drain_page en a w = Ok (w', a', exit)" and I': "p \<le> p'" "drain_inv acc en L k p0 t0 p' q' w'"
          and pos: "(\<forall>r. exit \<noteq> returned r) \<longrightarrow> a' = cursor L p' \<and> p' = q'"
        unfolding a by metis
      show "\<exists>w' a' exit p' q'. y = Ok (w', a', exit) \<and> p \<le> p' \<and> drain_inv acc en L k p0 t0 p' q' w' \<and>
        exit \<noteq> next_page \<and> (exit = caught_up \<longrightarrow> a' = cursor L p')"
      proof (cases "exit = next_page")
        case True
        then have "loop en' a' w' = Some y" "a' = cursor L p'"
          using body pg pos en by simp_all
        from IH [OF this(1), unfolded P_def, rule_format, OF en I'(2) this(2)]
        obtain w'' a'' exit' p'' q'' where "y = Ok (w'', a'', exit')" "p' \<le> p''"
          "drain_inv acc en L k p0 t0 p'' q'' w''" "exit' \<noteq> next_page" "exit' = caught_up \<longrightarrow> a'' = cursor L p''" by blast
        moreover have "p \<le> p''" using I'(1) \<open>p' \<le> p''\<close> by simp
        ultimately show ?thesis by blast
      next
        case False
        then have "y = Ok (w', a', exit)"
          using body pg en by (cases exit) simp_all
        then show ?thesis
          using False I' pos by blast
      qed
    qed
  qed
  then show ?thesis
    using I a unfolding P_def by blast
qed

text \<open>
  The catch-up drain behind a subscription runs the same pages; it only returns nil where the first
  drain returns the error of the context or leaves its loop.
\<close>

lemma catchup_events_drain:
  "drain_events en es a w = (w', a', exit) \<Longrightarrow>
   \<exists>exit'. catchup_events en es a w = (w', a', exit') \<and> (exit' = exit \<or> exit' = returned None \<and> (\<exists>e. exit = returned e))"
proof (induction es arbitrary: a w)
  case (Cons e es)
  obtain w1 sig where pl: "poll en w = (w1, sig)" by fastforce
  obtain w2 r where pe: "processEvent en e w1 = (w2, r)" by fastforce
  show ?case
    using Cons.prems Cons.IH [of "e_id e" w2] pl pe by (cases sig; cases r) auto
qed simp

lemma catchup_page_drain:
  assumes "drain_page en a w = Ok (w', a', exit)"
  shows "\<exists>exit'. catchup_page en a w = Ok (w', a', exit') \<and> (exit' = exit \<or> exit' = returned None \<and> exit \<noteq> next_page)"
proof -
  obtain w1 sig where pl: "poll en w = (w1, sig)" by fastforce
  obtain w2 res where rd: "journal_read en a w1 = (w2, res)" by fastforce
  show ?thesis
  proof (cases "sig = no_signal \<and> (\<exists>es. res = Ok es \<and> es \<noteq> [])")
    case False
    then show ?thesis
      using assms pl rd by (cases sig; cases res) (auto simp: drain_page_def catchup_page_def)
  next
    case True
    then obtain es where es: "sig = no_signal" "res = Ok es" "es \<noteq> []" by blast
    obtain w3 a3 ex3 where ev: "drain_events en es a w2 = (w3, a3, ex3)" by (metis prod.exhaust)
    obtain ex3' where ev': "catchup_events en es a w2 = (w3, a3, ex3')"
      "ex3' = ex3 \<or> ex3' = returned None \<and> (\<exists>e. ex3 = returned e)"
      using catchup_events_drain [OF ev] by blast
    obtain w4 r where sv: "saveCheckpoint en a3 w3 = (w4, r)" by fastforce
    show ?thesis
      using assms pl rd es ev ev' sv
      by (cases ex3; cases r) (auto simp: drain_page_def catchup_page_def split: if_splits)
  qed
qed

lemma drainCatchUp_inv:
  assumes S: "run_setting acc en H L k" and loop: "drainCatchUp en a w = Some res"
    and I: "drain_inv acc en L k p0 t0 p q w" and a: "a = cursor L p"
  shows "\<exists>w' a' exit p' q'. res = Ok (w', a', exit) \<and> p \<le> p' \<and> drain_inv acc en L k p0 t0 p' q' w'"
proof -
  define P where "P = (\<lambda>en' a w res. en' = en \<longrightarrow> (\<forall>p q. drain_inv acc en L k p0 t0 p q w \<longrightarrow> a = cursor L p \<longrightarrow>
      (\<exists>w' (a' :: ulid) (exit :: drain_exit) p' q'. res = Ok (w', a', exit) \<and> p \<le> p' \<and> drain_inv acc en L k p0 t0 p' q' w')))"
  have "P en a w res"
  proof (rule drainCatchUp.raw_induct [where P = P, OF _ loop])
    fix loop en' a w y
    assume IH: "\<And>en' a w y. loop en' a w = Some y \<Longrightarrow> P en' a w y"
      and body: "(case catchup_page en' a w of
        Ok (w', afterID', next_page) \<Rightarrow> loop en' afterID' w'
      | Ok (w', afterID', caught_up) \<Rightarrow> Some (Ok (w', afterID', caught_up))
      | Ok (w', afterID', returned r) \<Rightarrow> Some (Ok (w', afterID', returned r))
      | Fail err \<Rightarrow> Some (Fail err) | Panic \<Rightarrow> Some Panic) = Some y"
    show "P en' a w y"
      unfolding P_def
    proof (intro impI allI)
      fix p q
      assume en: "en' = en" and I: "drain_inv acc en L k p0 t0 p q w" and a: "a = cursor L p"
      from drain_page_inv [OF S I] obtain w' a' exit p' q'
        where pg: "drain_page en a w = Ok (w', a', exit)" and I': "p \<le> p'" "drain_inv acc en L k p0 t0 p' q' w'"
          and pos: "(\<forall>r. exit \<noteq> returned r) \<longrightarrow> a' = cursor L p' \<and> p' = q'"
        unfolding a by metis
      obtain exit' where cu: "catchup_page en a w = Ok (w', a', exit')"
        "exit' = exit \<or> exit' = returned None \<and> exit \<noteq> next_page"
        using catchup_page_drain [OF pg] by blast
      show "\<exists>w' (a' :: ulid) (exit :: drain_exit) p' q'. y = Ok (w', a', exit) \<and> p \<le> p' \<and> drain_inv acc en L k p0 t0 p' q' w'"
      proof (cases "exit' = next_page")
        case True
        then have "loop en' a' w' = Some y" "a' = cursor L p'"
          using body cu pos en by auto
        from IH [OF this(1), unfolded P_def, rule_format, OF en I'(2) this(2)]
        obtain w'' a'' exit'' p'' q'' where "y = Ok (w'', a'', exit'')" "p' \<le> p''"
          "drain_inv acc en L k p0 t0 p'' q'' w''" by blast
        moreover have "p \<le> p''" using I'(1) \<open>p' \<le> p''\<close> by simp
        ultimately show ?thesis by blast
      next
        case False
        then have "y = Ok (w', a', exit')"
          using body cu(1) en by (cases exit') simp_all
        then show ?thesis
          using I' by blast
      qed
    qed
  qed
  then show ?thesis
    using I a unfolding P_def by blast
qed

lemma worker_process_inv:
  assumes S: "run_setting acc en H L k" and I: "drain_inv acc en L k p0 t0 p q w"
    and step: "worker_process en w = Some res"
  shows "\<exists>w' r p' q'. res = Ok (w', r) \<and> p \<le> p' \<and> drain_inv acc en L k p0 t0 p' q' w'"
proof -
  note S' = run_settingD [OF S]
  obtain cp where cp: "en_cpLoad en (wk_cpStore w) (en_name en) = Ok cp" "cp_EventID cp = cursor L p"
    using drain_invD(5) [OF I] by blast
  define w1 where "w1 = w\<lparr>wk_checkpoint := cursor L p\<rparr>"
  have I1: "drain_inv acc en L k p0 t0 p q w1"
    by (rule drain_inv_view [OF _ I])
      (simp add: same_view_def worker_frame_def parked_def w1_def)
  have after: "(if \<not> Checkpoint_IsZero cp then cp_EventID cp else 0) = cursor L p"
    using cp(2) by (simp add: Checkpoint_IsZero_def)
  obtain out where loop: "drain_loop en (cursor L p) w1 = Some out"
    using step cp(1) after by (auto simp: worker_process_def Let_def w1_def split: option.splits)
  from drain_loop_inv [OF S loop I1 refl] obtain w' a' exit p' q'
    where out: "out = Ok (w', a', exit)" and I': "p \<le> p'" "drain_inv acc en L k p0 t0 p' q' w'"
      and exit: "exit \<noteq> next_page" "exit = caught_up \<longrightarrow> a' = cursor L p'" by blast
  let ?live = "w'\<lparr>wk_status := WorkerLive\<rparr>"
  have live: "drain_inv acc en L k p0 t0 p' q' ?live"
    by (rule drain_inv_view [OF _ I'(2)]) (simp add: same_view_def worker_frame_def parked_def)
  show ?thesis
  proof (cases "exit = caught_up \<and> en_SubscribeAll en = Some None")
    case False
    then have "\<exists>r. res = Ok (w', r) \<or> res = Ok (?live, r)"
      using step cp(1) after loop out exit(1)
      by (cases exit) (auto simp: worker_process_def processLive_def Let_def w1_def split: option.splits)
    with I' live show ?thesis by blast
  next
    case True
    then obtain out' where cu: "drainCatchUp en (cursor L p') ?live = Some out'"
      and res: "res = obind out' (\<lambda>(w', _, exit). Ok (w', case exit of returned (Some err) \<Rightarrow> Some (ErrFmt [err]) | _ \<Rightarrow> None))"
      using step cp(1) after loop out exit by (auto simp: worker_process_def processLive_def Let_def w1_def)
    from drainCatchUp_inv [OF S cu live refl] obtain w'' a'' exit'' p'' q'' where
      out': "out' = Ok (w'', a'', exit'')" and "p' \<le> p''" "drain_inv acc en L k p0 t0 p'' q'' w''" by blast
    moreover have "p \<le> p''" using I'(1) \<open>p' \<le> p''\<close> by simp
    moreover obtain r where "res = Ok (w'', r)" using res out' by simp
    ultimately show ?thesis by blast
  qed
qed

lemma run_exit_inv:
  assumes "drain_inv acc en L k p0 t0 p q w"
  shows "drain_inv acc en L k p0 t0 p q (run_exit en w)"
proof -
  have "same_view acc w (run_exit en w)"
    using drain_invD(6) [OF assms]
    by (simp add: run_exit_def flushPendingCheckpoint_def same_view_def worker_frame_def parked_def)
  then show ?thesis by (rule drain_inv_view [OF _ assms])
qed

lemma worker_run_inv:
  assumes S: "run_setting acc en H L k" and run: "worker_run en w = Some (Ok w')"
    and I: "drain_inv acc en L k p0 t0 p q w"
  shows "\<exists>p' q'. p \<le> p' \<and> drain_inv acc en L k p0 t0 p' q' w'"
proof -
  define P where "P = (\<lambda>en' w res. en' = en \<longrightarrow> (\<forall>w' p q. res = Ok w' \<longrightarrow> drain_inv acc en L k p0 t0 p q w \<longrightarrow>
      (\<exists>p' q'. p \<le> p' \<and> drain_inv acc en L k p0 t0 p' q' w')))"
  have "P en w (Ok w')"
  proof (rule worker_run.raw_induct [where P = P, OF _ run])
    fix loop en' w y
    assume IH: "\<And>en' w y. loop en' w = Some y \<Longrightarrow> P en' w y"
      and body: "(case poll en' w of
        (w1, no_signal) \<Rightarrow>
          (case worker_process en' (w1\<lparr>wk_status := WorkerRunning\<rparr>) of
             None \<Rightarrow> None
           | Some (Ok (w2, None)) \<Rightarrow> Some (Ok (run_exit en' w2))
           | Some (Ok (w2, Some err)) \<Rightarrow>
               if errors_Is err ctx_Err \<or> errors_Is err ctx_DeadlineExceeded then Some (Ok (run_exit en' w2))
               else
                 let w3 = w2\<lparr>wk_errors := Suc (wk_errors w2), wk_lastError := Some err,
                             wk_restarts := wk_restarts w2 + 1\<rparr> in
                 if 0 \<le> ho_maxRestarts (en_opts en') \<and> ho_maxRestarts (en_opts en') < wk_restarts w3
                 then Some (Ok (run_exit en' (w3\<lparr>wk_status := WorkerFailed\<rparr>)))
                 else if jitter_bound (en_opts en') (wk_restarts w3 - 1) \<le> 0 then Some Panic
                 else
                   (case poll en' (w3\<lparr>wk_status := WorkerBackoff\<rparr>) of
                      (w4, no_signal) \<Rightarrow> loop en' w4
                    | (w4, _) \<Rightarrow> Some (Ok (run_exit en' w4)))
           | Some (Fail err) \<Rightarrow> Some (Fail err)
           | Some Panic \<Rightarrow> Some Panic)
      | (w1, _) \<Rightarrow> Some (Ok (run_exit en' w1))) = Some y"
    show "P en' w y"
      unfolding P_def
    proof (intro impI allI)
      fix w' p q
      assume en: "en' = en" and y: "y = Ok w'" and I: "drain_inv acc en L k p0 t0 p q w"
      have upd: "drain_inv acc en L k p0 t0 p q v" if "worker_frame v = worker_frame u" "wk_proj v = wk_proj u"
        "wk_dlq v = wk_dlq u" "drain_inv acc en L k p0 t0 p q u" for u v p q
        by (rule drain_inv_view [OF _ that(4)]) (use that in \<open>simp add: same_view_def parked_def\<close>)
      obtain w1 sig where pl: "poll en w = (w1, sig)" by (metis prod.exhaust)
      have I1: "drain_inv acc en L k p0 t0 p q w1" by (rule drain_inv_view [OF same_view_poll [OF pl] I])
      show "\<exists>p' q'. p \<le> p' \<and> drain_inv acc en L k p0 t0 p' q' w'"
      proof (cases "sig = no_signal")
        case False
        then have "w' = run_exit en w1"
          using body y en pl by (auto split: signal.splits)
        then show ?thesis using run_exit_inv [OF I1] by blast
      next
        case True
        let ?w1 = "w1\<lparr>wk_status := WorkerRunning\<rparr>"
        have I1': "drain_inv acc en L k p0 t0 p q ?w1" by (rule upd [OF _ _ _ I1]) (simp_all add: worker_frame_def)
        obtain res where proc: "worker_process en ?w1 = Some res"
          using body en pl True by (auto split: option.splits)
        from worker_process_inv [OF S I1' proc] obtain w2 r p2 q2
          where res: "res = Ok (w2, r)" and I2: "p \<le> p2" "drain_inv acc en L k p0 t0 p2 q2 w2" by blast
        show ?thesis
        proof (cases "r = None \<or> (\<exists>err. r = Some err \<and> (errors_Is err ctx_Err \<or> errors_Is err ctx_DeadlineExceeded))")
          case done_: True
          then have "w' = run_exit en w2"
            using body y en pl True proc res by auto
          then show ?thesis using run_exit_inv [OF I2(2)] I2(1) by blast
        next
          case False
          then obtain err where r: "r = Some err" "\<not> errors_Is err ctx_Err" "\<not> errors_Is err ctx_DeadlineExceeded" by auto
          define w3 where "w3 = w2\<lparr>wk_errors := Suc (wk_errors w2), wk_lastError := Some err,
                             wk_restarts := wk_restarts w2 + 1\<rparr>"
          have I3: "drain_inv acc en L k p0 t0 p2 q2 (w3\<lparr>wk_status := st\<rparr>)" for st
            by (rule upd [OF _ _ _ I2(2)]) (simp_all add: w3_def worker_frame_def)
          obtain w4 sig' where pl': "poll en (w3\<lparr>wk_status := WorkerBackoff\<rparr>) = (w4, sig')"
            by (metis prod.exhaust)
          have I4: "drain_inv acc en L k p0 t0 p2 q2 w4" by (rule drain_inv_view [OF same_view_poll [OF pl'] I3])
          have cases3: "w' = run_exit en (w3\<lparr>wk_status := WorkerFailed\<rparr>) \<or> w' = run_exit en w4 \<or> loop en' w4 = Some y"
            using body y en pl True proc res r pl'
            by (auto simp: w3_def [symmetric] Let_def split: if_splits signal.splits)
          show ?thesis
            using cases3
          proof (elim disjE)
            assume "loop en' w4 = Some y"
            from IH [OF this, unfolded P_def, rule_format, OF en y I4] I2(1)
            show ?thesis by (meson order_trans)
          qed (use run_exit_inv [OF I3] run_exit_inv [OF I4] I2(1) in blast)+
        qed
      qed
    qed
  qed
  then show ?thesis
    using I unfolding P_def by blast
qed


section \<open>Properties\<close>

text \<open>A fresh worker satisfies the invariant at the position of its checkpoint.\<close>

lemma newWorker_inv:
  assumes "readable_journal en L k" and "0 < ho_batchSize (en_opts en)"
    and "ho_batchSize (en_opts en) \<le> DefaultCapacity"
    and "en_cpLoad en c (en_name en) = Ok cp" "cp_EventID cp = cursor L p0" and "p0 \<le> k 0"
  shows "drain_inv acc en L k p0 t0 p0 p0 (newWorker (q0, t0) c d)"
proof -
  have "\<exists>s. NewRing (0 :: ulid) DefaultCapacity = Some s \<and> ring_inv s \<and> ring_contents s = [] \<and>
      length (rg_buf s) = nat DefaultCapacity"
    using ring.new_valid [of 0 DefaultCapacity] ring.new_contents [of 0 DefaultCapacity]
    by (auto simp: NewRing_def Let_def DefaultCapacity_def)
  then show ?thesis
    using assms unfolding drain_inv_def ring_tail_def dealt_with_def newWorker_def
    by (auto simp: Ring_Capacity_def DefaultCapacity_def)
qed

lemma worker_run_trace:
  assumes S: "run_setting acc en H L k" and "ho_batchSize (en_opts en) \<le> DefaultCapacity"
    and "en_cpLoad en c (en_name en) = Ok cp" "cp_EventID cp = cursor L p0" "p0 \<le> k 0"
    and run: "worker_run en (newWorker (q0, t0) c d) = Some (Ok w)"
  shows "\<exists>p q A cp'. p0 \<le> p \<and> p \<le> q \<and> q \<le> length L \<and>
     en_cpLoad en (wk_cpStore w) (en_name en) = Ok cp' \<and> cp_EventID cp' = cursor L p \<and>
     snd (wk_proj w) = t0 @ filter (\<lambda>e. e \<in> A) (drop p0 (take q L)) \<and>
     distinct (filter (\<lambda>e. e \<in> A) (drop p0 (take q L))) \<and> (\<forall>e \<in> A. shouldHandle en e) \<and>
     (\<forall>e \<in> set (drop p0 (take q L)). shouldHandle en e \<longrightarrow> e \<in> A \<or> e \<in> parked acc w)"
proof -
  note S' = run_settingD [OF S]
  have "drain_inv acc en L k p0 t0 p0 p0 (newWorker (q0, t0) c d)"
    by (rule newWorker_inv [OF S'(5,4) assms(2-5)])
  from worker_run_inv [OF S run this] obtain p q where I: "p0 \<le> p" "drain_inv acc en L k p0 t0 p q w"
    by blast
  note I' = drain_invD [OF I(2)]
  from I'(9) obtain A where A: "snd (wk_proj w) = t0 @ filter (\<lambda>e. e \<in> A) (drop p0 (take q L))"
    "\<forall>e \<in> A. shouldHandle en e"
    "\<forall>e \<in> set (drop p0 (take q L)). shouldHandle en e \<longrightarrow> e \<in> A \<or> e \<in> parked acc w"
    unfolding dealt_with_def window_def by blast
  have "q \<le> length L"
    using I'(3) readable_journalD(4) [OF S'(5)] by (meson order_trans)
  moreover have "distinct (filter (\<lambda>e. e \<in> A) (drop p0 (take q L)))"
    using readable_journalD(1) [OF S'(5)] by (simp add: distinct_map)
  ultimately show ?thesis
    using I'(2,5) I(1) A by blast
qed

text \<open>
  C4. A worker leaves no gap and repeats nothing. Whatever its handler fails on, whichever journal reads,
  checkpoint saves and dead letters fail, whenever it is stopped or cancelled, however often it
  restarts, with or without a subscriber, and however the journal grows: when a run ends, the
  checkpoint is behind some first \<open>p\<close> events and the worker has dealt with the first \<open>q \<ge> p\<close>; of these,
  starting from its first checkpoint, it has applied a subsequence in journal order, each event
  once and of a wanted type, and for every wanted event that is not among them the dead-letter
  store has accepted an entry that holds it. (Pages are not larger than the ring of seen identifiers,
  a failed checkpoint save leaves the stored checkpoint, and no live event is delivered during the run.)
\<close>

theorem worker_no_gap_no_repeat:
  fixes en :: "('q \<times> event list, 'c, 'd \<times> DeadLetterEntry list) worker_env"
  assumes "en_Handle en = recording H" and "en_dlqStore en = None \<or> en_dlqStore en = Some (recording_dlq S)"
    and "readable_journal en L k" and "checkpoint_store (en_cpSave en) (en_cpLoad en)"
    and "0 < ho_dlqThreshold (en_opts en)" "0 < ho_batchSize (en_opts en)" "ho_batchSize (en_opts en) \<le> DefaultCapacity"
    and "en_cpLoad en c (en_name en) = Ok cp" "cp_EventID cp = cursor L p0" "p0 \<le> k 0"
    and run: "worker_run en (newWorker (q0, t0) c d) = Some (Ok w)"
  shows "\<exists>p q A cp'. p0 \<le> p \<and> p \<le> q \<and> q \<le> length L \<and>
     en_cpLoad en (wk_cpStore w) (en_name en) = Ok cp' \<and> cp_EventID cp' = cursor L p \<and>
     snd (wk_proj w) = t0 @ filter (\<lambda>e. e \<in> A) (drop p0 (take q L)) \<and>
     distinct (filter (\<lambda>e. e \<in> A) (drop p0 (take q L))) \<and>
     (\<forall>e \<in> A. en_EventTypes en = [] \<or> e_eventType e \<in> set (en_EventTypes en)) \<and>
     (\<forall>e \<in> set (drop p0 (take q L)). en_EventTypes en = [] \<or> e_eventType e \<in> set (en_EventTypes en) \<longrightarrow>
        e \<in> A \<or> (\<exists>entry \<in> set (snd (wk_dlq w)). dl_Event entry = Some e))"
proof -
  have "dlq_keeps accepted en"
    by (rule recording_dlq_keeps) (use assms(2) in auto)
  then have "run_setting accepted en H L k"
    using assms(1,3-6) by (simp add: run_setting_def)
  from worker_run_trace [OF this assms(7-11)] show ?thesis
    unfolding shouldHandle_def parked_accepted .
qed

end
