(* ===== verification/ProjectionRuns.thy ===== *)
theory ProjectionRuns
  imports ProjectionDrain
begin

text \<open>
  Runs of projection workers: a worker that nothing interrupts catches up with its journal, the
  bounds of the back-off between restarts, live events that fail, and the workers over
  the memory stores.
\<close>

section \<open>Catching up\<close>

text \<open>Nothing fails and nobody interrupts.\<close>

definition quiet :: "('p, MemoryCheckpointStore, 'd) worker_env \<Rightarrow> bool" where
  "quiet en \<longleftrightarrow> (\<forall>n. en_signal en n = no_signal) \<and> (\<forall>q e. snd (en_Handle en q e) = None) \<and>
     en_cpSave en = mcs_Save \<and> en_cpLoad en = mcs_Load \<and> 0 < ho_dlqThreshold (en_opts en)"

definition cp_open :: "('p, MemoryCheckpointStore, 'd) worker \<Rightarrow> bool" where
  "cp_open w \<longleftrightarrow> \<not> lc_closed (mcs_Lifecycle (wk_cpStore w))"

lemma quiet_processEvent:
  assumes "quiet en" and "processEvent en e w = (w', r)"
  shows "r = None" "wk_dlq w' = wk_dlq w" "wk_cpStore w' = wk_cpStore w"
proof -
  obtain m where m: "nat (ho_dlqThreshold (en_opts en)) = Suc m"
    using assms(1) by (metis quiet_def gr0_conv_Suc zero_less_nat_eq)
  obtain x where "en_Handle en (wk_proj w) e = (x, None)"
    using assms(1) by (metis prod.collapse quiet_def)
  then have "\<exists>v. settle en e w = (v, None) \<and> wk_dlq v = wk_dlq w \<and> wk_cpStore v = wk_cpStore w"
    using assms(1) by (simp add: settle_def applyWithRetry_def m poll_def quiet_def)
  then show "r = None" "wk_dlq w' = wk_dlq w" "wk_cpStore w' = wk_cpStore w"
    using assms(2)
    by (auto simp: processEvent_settle touch_def time_Now_def markSeen_def split: if_splits)
qed

lemma quiet_drain_events:
  assumes "quiet en" and "drain_events en es a w = (w', a', exit)"
  shows "exit = next_page \<and> wk_dlq w' = wk_dlq w \<and> wk_cpStore w' = wk_cpStore w"
  using assms(2)
proof (induction es arbitrary: a w)
  case Nil
  then show ?case by simp
next
  case (Cons e es)
  let ?w1 = "w\<lparr>wk_polls := Suc (wk_polls w)\<rparr>"
  have pl: "poll en w = (?w1, no_signal)"
    using assms(1) by (simp add: poll_def quiet_def)
  obtain w2 r where pe: "processEvent en e ?w1 = (w2, r)" by (metis prod.exhaust)
  note qp = quiet_processEvent [OF assms(1) pe]
  then have "drain_events en es (e_id e) w2 = (w', a', exit)"
    using Cons.prems pl pe by simp
  from Cons.IH [OF this] qp show ?case by simp
qed

lemma quiet_saveCheckpoint:
  assumes "quiet en" and "cp_open w" and "saveCheckpoint en a w = (w', r)"
  shows "r = None" "wk_dlq w' = wk_dlq w" "cp_open w'"
  using assms
  by (auto simp: quiet_def cp_open_def saveCheckpoint_def time_Now_def mcs_Save_def mcs_withWriteLock_def
      Lifecycle_CheckClosed_def wrapClosed_def)

lemma quiet_drain_page:
  assumes "quiet en" and "cp_open w" and "drain_page en a w = Ok (w', a', exit)"
    and "\<And>n. \<exists>es. en_ReadFrom en n a (ho_batchSize (en_opts en)) = Ok es"
  shows "exit = caught_up \<or> exit = next_page" "wk_dlq w' = wk_dlq w" "cp_open w'"
proof -
  have pl: "poll en w = (w\<lparr>wk_polls := Suc (wk_polls w)\<rparr>, no_signal)"
    using assms(1) by (simp add: poll_def quiet_def)
  let ?w1 = "w\<lparr>wk_polls := Suc (wk_polls w)\<rparr>"
  let ?w2 = "?w1\<lparr>wk_reads := Suc (wk_reads ?w1)\<rparr>"
  obtain es where rd: "journal_read en a ?w1 = (?w2, Ok es)"
    using assms(4) [of "wk_reads w"] by (auto simp: journal_read_def)
  obtain w3 a3 ex3 where ev: "drain_events en es a ?w2 = (w3, a3, ex3)" by (metis prod.exhaust)
  note q3 = quiet_drain_events [OF assms(1) ev]
  obtain w4 r where sv: "saveCheckpoint en a3 w3 = (w4, r)" by (metis prod.exhaust)
  have "cp_open w3" using q3 assms(2) by (simp add: cp_open_def)
  note q4 = quiet_saveCheckpoint [OF assms(1) this sv]
  show "exit = caught_up \<or> exit = next_page" "wk_dlq w' = wk_dlq w" "cp_open w'"
    using assms(2,3) pl rd ev q3 sv q4
    by (auto simp: drain_page_def cp_open_def split: if_splits)
qed


lemma retry_attempts_status:
  "retry_attempts en n evt lastErr w = (w', r) \<Longrightarrow> wk_status w' = wk_status w"
proof (induction n arbitrary: lastErr w)
  case (Suc n)
  then show ?case
    by (auto simp: poll_def Let_def split: signal.splits prod.splits option.splits if_splits)
qed simp

lemma processEvent_status: "processEvent en e w = (w', r) \<Longrightarrow> wk_status w' = wk_status w"
  by (auto simp: processEvent_def applyWithRetry_def handleProcessEventError_def sendToDLQ_def
      touch_def time_Now_def markSeen_def split: if_splits prod.splits option.splits
      dest!: retry_attempts_status)

lemma drain_events_status: "drain_events en es a w = (w', a', exit) \<Longrightarrow> wk_status w' = wk_status w"
proof (induction es arbitrary: a w)
  case (Cons e es)
  then show ?case
    by (auto simp: poll_def split: signal.splits prod.splits option.splits dest!: processEvent_status)
qed simp

lemma drain_page_status: "drain_page en a w = Ok (w', a', exit) \<Longrightarrow> wk_status w' = wk_status w"
  by (auto simp: drain_page_def poll_def journal_read_def saveCheckpoint_def time_Now_def
      split: signal.splits outcome.splits if_splits prod.splits drain_exit.splits option.splits
      dest!: drain_events_status)

lemma drain_loop_status:
  fixes en :: "('a, 'b, 'c) worker_env"
  assumes "drain_loop en a w = Some (Ok (w', a', exit))"
  shows "wk_status w' = wk_status w"
proof -
  define P :: "('a, 'b, 'c) worker_env \<Rightarrow> ulid \<Rightarrow> ('a, 'b, 'c) worker \<Rightarrow>
      (('a, 'b, 'c) worker \<times> ulid \<times> drain_exit) outcome \<Rightarrow> bool"
    where "P = (\<lambda>en a w res. \<forall>w' a' exit. res = Ok (w', a', exit) \<longrightarrow> wk_status w' = wk_status w)"
  have "P en a w (Ok (w', a', exit))"
  proof (rule drain_loop.raw_induct [where P = P, OF _ assms])
    fix loop en' a w y
    assume IH: "\<And>en' a w y. loop en' a w = Some y \<Longrightarrow> P en' a w y"
      and body: "(case drain_page en' a w of
        Ok (w', afterID', next_page) \<Rightarrow> loop en' afterID' w'
      | Ok (w', afterID', caught_up) \<Rightarrow> Some (Ok (w', afterID', caught_up))
      | Ok (w', afterID', returned r) \<Rightarrow> Some (Ok (w', afterID', returned r))
      | Fail err \<Rightarrow> Some (Fail err) | Panic \<Rightarrow> Some Panic) = Some y"
    then show "P en' a w y"
      unfolding P_def
      by (auto split: outcome.splits prod.splits drain_exit.splits dest!: drain_page_status IH)
  qed
  then show ?thesis by (simp add: P_def)
qed

lemma quiet_drain_loop:
  assumes S: "drain_setting en H L (\<lambda>_. length L)" and quiet: "quiet en"
    and "drain_inv set en L (\<lambda>_. length L) p0 t0 p q w" and "cp_open w"
  shows "\<exists>w'. drain_loop en (cursor L p) w = Some (Ok (w', cursor L (length L), caught_up)) \<and>
     drain_inv set en L (\<lambda>_. length L) p0 t0 (length L) (length L) w' \<and> wk_dlq w' = wk_dlq w"
  using assms(3,4)
proof (induction "length L - p" arbitrary: p q w rule: less_induct)
  case less
  note J = growing_journalD [OF drain_settingD(5) [OF S]]
  have p: "p \<le> length L" using drain_invD(2,3) [OF less.prems(1)] by simp
  from drain_page_inv [OF drain_run_setting [OF S] less.prems(1)] obtain w' a' exit p' q'
    where pg: "drain_page en (cursor L p) w = Ok (w', a', exit)"
      and I': "p \<le> p'" "drain_inv set en L (\<lambda>_. length L) p0 t0 p' q' w'"
      and pos: "(\<forall>r. exit \<noteq> returned r) \<longrightarrow> a' = cursor L p' \<and> p' = q'"
      and more: "exit = next_page \<longrightarrow> p < p'" and fin: "exit = caught_up \<longrightarrow> p' = length L"
    by blast
  have rd: "\<exists>es. en_ReadFrom en n (cursor L p) (ho_batchSize (en_opts en)) = Ok es" for n
    using J(5) [of p n] p by simp
  have ex: "exit = caught_up \<or> exit = next_page" and dlq: "wk_dlq w' = wk_dlq w" and cp: "cp_open w'"
    using quiet_drain_page [OF quiet less.prems(2) pg rd] by blast+
  show ?case
  proof (cases "exit = caught_up")
    case True
    then have "drain_loop en (cursor L p) w = Some (Ok (w', cursor L (length L), caught_up))"
      using pg pos fin by (simp add: drain_loop.simps [of en "cursor L p" w])
    then show ?thesis
      using True I' pos fin dlq by auto
  next
    case False
    then have next_: "exit = next_page" using ex by simp
    then have "p < p'" "a' = cursor L p'" using more pos by simp_all
    moreover have "p' \<le> length L" using drain_invD(2,3) [OF I'(2)] by simp
    ultimately have "length L - p' < length L - p" by simp
    from less.hyps [OF this I'(2) cp] obtain w'' where
      "drain_loop en (cursor L p') w' = Some (Ok (w'', cursor L (length L), caught_up))"
      "drain_inv set en L (\<lambda>_. length L) p0 t0 (length L) (length L) w''" "wk_dlq w'' = wk_dlq w'" by blast
    then show ?thesis
      using pg next_ \<open>a' = cursor L p'\<close> dlq
      by (simp add: drain_loop.simps [of en "cursor L p" w])
  qed
qed

lemma quiet_run:
  assumes S: "drain_setting en H L (\<lambda>_. length L)" and quiet: "quiet en"
    and batch: "ho_batchSize (en_opts en) \<le> DefaultCapacity"
    and cp: "\<not> lc_closed (mcs_Lifecycle c)" "mcs_Load c (en_name en) = Ok cp" "cp_EventID cp = cursor L p0"
      "p0 \<le> length L"
  shows "\<exists>w'. worker_run en (newWorker (q0, t0) c NewMemoryDeadLetterStore) = Some (Ok (run_exit en w')) \<and>
     drain_inv set en L (\<lambda>_. length L) p0 t0 (length L) (length L) w' \<and> wk_dlq w' = [] \<and>
     wk_status w' = WorkerRunning"
proof -
  let ?k = "\<lambda>_. length L" and ?w = "newWorker (q0, t0) c NewMemoryDeadLetterStore"
  note S' = drain_settingD [OF S]
  have ops: "en_cpLoad en = mcs_Load" "\<And>n. en_signal en n = no_signal"
    using quiet by (simp_all add: quiet_def)
  define w1 where "w1 = ?w\<lparr>wk_polls := Suc 0, wk_status := WorkerRunning, wk_checkpoint := cursor L p0\<rparr>"
  have I: "drain_inv set en L ?k p0 t0 p0 p0 ?w"
    using cp ops by (intro newWorker_inv [OF growing_readable [OF S'(5)] S'(4) batch]) simp_all
  have I1: "drain_inv set en L ?k p0 t0 p0 p0 w1"
    by (rule drain_inv_view [OF _ I])
      (simp add: same_view_def worker_frame_def parked_def w1_def newWorker_def)
  have "cp_open w1" "wk_dlq w1 = []" using cp(1) by (simp_all add: cp_open_def w1_def newWorker_def NewMemoryDeadLetterStore_def)
  then obtain w' where loop: "drain_loop en (cursor L p0) w1 = Some (Ok (w', cursor L (length L), caught_up))"
    and I': "drain_inv set en L ?k p0 t0 (length L) (length L) w'" and dlq: "wk_dlq w' = []"
    using quiet_drain_loop [OF S quiet I1] by auto
  have "worker_process en (?w\<lparr>wk_polls := Suc 0, wk_status := WorkerRunning\<rparr>) = Some (Ok (w', None))"
    using loop cp(2,3) ops S'(7)
    by (auto simp: worker_process_def Let_def w1_def newWorker_def Checkpoint_IsZero_def)
  then have run: "worker_run en ?w = Some (Ok (run_exit en w'))"
    using ops unfolding worker_run.simps [of en ?w] by (simp add: poll_def newWorker_def)
  have "wk_status w' = WorkerRunning"
    using drain_loop_status [OF loop] by (simp add: w1_def)
  then show ?thesis
    using run I' dlq by blast
qed

text \<open>
  C9. A worker catches up: over a journal that does not change, with a handler that does not fail
  and nobody interrupting it, a run of a fresh worker ends, in the state Stopped, with every event after
  its checkpoint that the projection wants applied once and in order, nothing dead-lettered
  and the checkpoint on the last event.
\<close>

theorem worker_catches_up:
  assumes S: "drain_setting en H L (\<lambda>_. length L)" and quiet: "quiet en"
    and batch: "ho_batchSize (en_opts en) \<le> DefaultCapacity"
    and cp: "\<not> lc_closed (mcs_Lifecycle c)" "mcs_Load c (en_name en) = Ok cp" "cp_EventID cp = cursor L p0"
      "p0 \<le> length L"
  shows "\<exists>w cp'. worker_run en (newWorker (q0, t0) c NewMemoryDeadLetterStore) = Some (Ok w) \<and> wk_status w = WorkerStopped \<and>
     snd (wk_proj w) = t0 @ filter (shouldHandle en) (drop p0 L) \<and> wk_dlq w = [] \<and>
     mcs_Load (wk_cpStore w) (en_name en) = Ok cp' \<and> cp_EventID cp' = cursor L (length L)"
proof -
  have ops: "en_cpLoad en = mcs_Load"
    using quiet by (simp add: quiet_def)
  from quiet_run [OF assms] obtain w' where
    run: "worker_run en (newWorker (q0, t0) c NewMemoryDeadLetterStore) = Some (Ok (run_exit en w'))"
    and I': "drain_inv set en L (\<lambda>_. length L) p0 t0 (length L) (length L) w'"
    and dlq: "wk_dlq w' = []" and "wk_status w' = WorkerRunning"
    by blast
  define w where "w = run_exit en w'"
  have view: "wk_proj w = wk_proj w'" "wk_dlq w = []" "wk_cpStore w = wk_cpStore w'"
    using drain_invD(6) [OF I'] dlq by (simp_all add: w_def run_exit_def flushPendingCheckpoint_def)
  have "wk_status w = WorkerStopped"
    using drain_invD(6) [OF I'] \<open>wk_status w' = WorkerRunning\<close>
    by (simp add: w_def run_exit_def flushPendingCheckpoint_def)
  moreover from drain_invD(9) [OF I'] obtain A
    where A: "snd (wk_proj w') = t0 @ filter (\<lambda>e. e \<in> A) (drop p0 L)" "\<forall>e \<in> A. shouldHandle en e"
      "\<forall>e \<in> set (drop p0 L). shouldHandle en e \<longrightarrow> e \<in> A"
    unfolding dealt_with_def window_def parked_def dlq by auto
  then have "filter (\<lambda>e. e \<in> A) (drop p0 L) = filter (shouldHandle en) (drop p0 L)"
    by (intro filter_cong) auto
  moreover obtain cp' where "en_cpLoad en (wk_cpStore w') (en_name en) = Ok cp'"
    "cp_EventID cp' = cursor L (length L)"
    using drain_invD(5) [OF I'] by blast
  ultimately show ?thesis
    using run view A(1) ops by (intro exI [of _ w] exI [of _ cp']) (simp add: w_def)
qed


section \<open>Backing off\<close>

text \<open>
  C37. The back-off before a restart lies between zero and its configured maximum, and the jitter is drawn from
  a non-empty range, as long as the initial back-off is below \<open>2^33\<close> nanoseconds (about 8.6
  seconds): then the product with the largest power of two still fits into 64 bits.
\<close>

theorem backoff_bounds:
  assumes "0 \<le> ho_backoffInitial o'" "ho_backoffInitial o' < 2 ^ 33"
    and "0 \<le> ho_backoffMax o'" "ho_backoffMax o' < 2 ^ 63 - 1" and "0 \<le> n"
  shows "0 \<le> backoff_cap o' n \<and> backoff_cap o' n \<le> ho_backoffMax o' \<and> 0 < jitter_bound o' n"
proof -
  define m where "m = nat (min n maxBackoffShift)"
  have m: "m \<le> 30" by (simp add: m_def maxBackoffShift_def)
  have "ho_backoffInitial o' * 2 ^ m \<le> ho_backoffInitial o' * 2 ^ 30"
    using assms(1) m by (intro mult_left_mono power_increasing) simp_all
  also have "\<dots> < 2 ^ 63" using assms(2) by simp
  finally have range: "int64 (ho_backoffInitial o' * 2 ^ m)"
    using assms(1) by (simp add: int64_def order_trans [of _ 0])
  have "(word_of_int (ho_backoffInitial o') * 2 ^ m :: u64) = word_of_int (ho_backoffInitial o' * 2 ^ m)"
    by (simp add: wi_hom_mult [symmetric])
  then have cap: "backoff_cap o' n = min (ho_backoffInitial o' * 2 ^ m) (ho_backoffMax o')"
    using sint_in_range [OF range] by (simp add: backoff_cap_def m_def)
  then have bounds: "0 \<le> backoff_cap o' n" "backoff_cap o' n \<le> ho_backoffMax o'"
    using assms(1,3) by simp_all
  then have "int64 (backoff_cap o' n + 1)"
    using assms(4) by (simp add: int64_def)
  then show ?thesis
    using bounds sint_in_range [of "backoff_cap o' n + 1"] by (simp add: jitter_bound_def)
qed

theorem backoff_bounds_witness:
  "0 \<le> backoff_cap defaultOptions 99 \<and> backoff_cap defaultOptions 99 \<le> ho_backoffMax defaultOptions \<and>
     0 < jitter_bound defaultOptions 99"
  by (rule backoff_bounds) (simp_all add: defaultOptions_def)

text \<open>
  The bound is needed: with nine seconds the product wraps around to a negative number at the
  thirty-first restart, and the draw of the jitter panics.
\<close>

lemma backoff_overflows:
  "jitter_bound (WithBackoff 9000000000 30000000000 defaultOptions) 30 \<le> 0"
  by (simp add: jitter_bound_def backoff_cap_def WithBackoff_def defaultOptions_def maxBackoffShift_def)

lemma restart_panics:
  assumes "en_opts en = WithMaxRestarts (- 1) (WithBackoff 9000000000 30000000000 defaultOptions)"
    and "poll en w = (w1, no_signal)"
    and "worker_process en (w1\<lparr>wk_status := WorkerRunning\<rparr>) = Some (Ok (w2, Some err))"
    and "\<not> errors_Is err ctx_Err" and "\<not> errors_Is err ctx_DeadlineExceeded" and "wk_restarts w2 = 30"
  shows "worker_run en w = Some Panic"
  using assms backoff_overflows
  by (simp add: worker_run.simps [of en w] Let_def WithMaxRestarts_def jitter_bound_def backoff_cap_def)

section \<open>Live events\<close>

lemma settle_unfold:
  "(case applyWithRetry en evt w of (w1, None) \<Rightarrow> (w1, None)
     | (w1, Some err) \<Rightarrow> handleProcessEventError en evt err w1) = settle en evt w"
  by (simp add: settle_def)

text \<open>With the default cadence an applied live event is checkpointed at once.\<close>

lemma liveHandler_checkpoint:
  assumes "checkpoint_store (en_cpSave en) (en_cpLoad en)"
    and "ho_cpEvery (en_opts en) \<le> 1" "ho_cpInterval (en_opts en) \<le> 0"
    and "liveHandler en evt w = (w', None)" and "en_signal en (wk_polls w) = no_signal"
    and "\<not> wasSeen w (e_id evt)" and "shouldHandle en evt"
  shows "\<exists>cp. en_cpLoad en (wk_cpStore w') (en_name en) = Ok cp \<and> cp_EventID cp = e_id evt"
proof -
  let ?w = "w\<lparr>wk_polls := Suc (wk_polls w)\<rparr>"
  have pl: "poll en w = (?w, no_signal)" using assms(5) by (simp add: poll_def)
  have unseen: "\<not> wasSeen ?w (e_id evt)" using assms(6) by (simp add: wasSeen_def)
  obtain w2 r where st: "settle en evt ?w = (w2, r)" by (metis prod.exhaust)
  then have "r = None" and live: "(case recordLiveCheckpoint en evt w2 of
                   (w3, Some saveErr) \<Rightarrow> (w3, Some saveErr)
                 | (w3, None) \<Rightarrow>
                     (let w4 = markSeen w3 (e_id evt) in
                      (touch en (w4\<lparr>wk_processed := Suc (wk_processed w4)\<rparr>), None))) = (w', None)"
    using assms(4,7) pl unseen unfolding liveHandler_def settle_unfold
    by (auto split: option.splits)
  obtain w3 where rec: "recordLiveCheckpoint en evt w2 = (w3, None)"
    and w': "wk_cpStore w' = wk_cpStore w3"
    using live by (auto simp: Let_def touch_def time_Now_def markSeen_def split: prod.splits option.splits)
  obtain c where "en_cpSave en (wk_cpStore w2) (en_name en)
      \<lparr>cp_EventID = e_id evt, cp_ProcessedAt = en_clock en (wk_ticks w2)\<rparr> = (c, None)"
    and "wk_cpStore w3 = c"
    using rec assms(2,3)
    by (auto simp: recordLiveCheckpoint_def time_Now_def shouldFlushCheckpoint_def flushCheckpoint_def Let_def
        split: prod.splits option.splits)
  with checkpoint_store.save_load [OF assms(1)] w' show ?thesis by fastforce
qed

lemma liveHandler_failed:
  assumes "en_Handle en = recording H" and "dlq_keeps acc en" and "0 < ho_dlqThreshold (en_opts en)"
    and "settle en evt w = (w', Some err)"
  shows "snd (wk_proj w') = snd (wk_proj w)"
  using settle_spec(3) [OF assms] by simp

text \<open>
  C36. A live event that fails is not made up for once a later one succeeds. With the default
  checkpoint cadence the handler checkpoints every live event it applies, so after a failure on one event
  and success on a later one the checkpoint is past the failed event, and no run of a worker
  that starts from it ever applies the failed event. (The comment on failed events promises that the
  checkpoint stays put and the journal delivers the event again.)
\<close>

theorem live_failure_overtaken:
  assumes "checkpoint_store (en_cpSave en) (en_cpLoad en)"
    and "ho_cpEvery (en_opts en) \<le> 1" "ho_cpInterval (en_opts en) \<le> 0"
    and "liveHandler en (L ! i) w = (w1, Some err)" and "liveHandler en (L ! j) w1 = (w2, None)"
    and "en_signal en (wk_polls w1) = no_signal" "\<not> wasSeen w1 (e_id (L ! j))" "shouldHandle en (L ! j)"
    and pos: "i < j" "j < length L"
    and S: "drain_setting en' H L (\<lambda>_. length L)" "ho_batchSize (en_opts en') \<le> DefaultCapacity"
    and same: "en_cpLoad en' = en_cpLoad en" "en_name en' = en_name en"
    and run: "worker_run en' (newWorker (q0, t0) (wk_cpStore w2) d) = Some (Ok w')"
  shows "\<exists>later. snd (wk_proj w') = t0 @ later \<and> L ! i \<notin> set later"
proof -
  obtain cp where cp: "en_cpLoad en (wk_cpStore w2) (en_name en) = Ok cp" "cp_EventID cp = e_id (L ! j)"
    using liveHandler_checkpoint [OF assms(1-3,5-8)] by blast
  have at: "cp_EventID cp = cursor L (Suc j)" using cp(2) by simp
  obtain q A where trace: "snd (wk_proj w') = t0 @ filter (\<lambda>e. e \<in> A) (drop (Suc j) (take q L))"
    using worker_run_trace [OF drain_run_setting [OF S(1)] S(2) _ at _ run] cp(1) same pos(2) by auto
  have dist: "distinct (map e_id L)"
    using growing_journalD(1) [OF drain_settingD(5) [OF S(1)]] .
  have "L ! i \<notin> set (drop (Suc j) L)"
  proof
    assume "L ! i \<in> set (drop (Suc j) L)"
    then obtain n where "n < length L - Suc j" "L ! i = L ! (Suc j + n)"
      by (auto simp: in_set_conv_nth)
    then show False
      using dist pos by (simp add: distinct_map nth_eq_iff_index_eq)
  qed
  then have "L ! i \<notin> set (drop (Suc j) (take q L))"
    by (metis drop_take in_set_takeD)
  then show ?thesis
    using trace by auto
qed


section \<open>Workers on the memory stores\<close>

text \<open>The memory event store is a journal a worker can drain.\<close>

lemma memory_journal:
  assumes s: "ms_inv s" "ms_open s" and ids: "distinct (map e_id (ls_log s))" "0 \<notin> e_id ` set (ls_log s)"
    and read: "en_ReadFrom en = (\<lambda>_. MemoryStore_ReadFrom s)" and "0 < ho_batchSize (en_opts en)"
  shows "growing_journal en (ls_log s) (\<lambda>_. length (ls_log s))"
  unfolding growing_journal_def
proof (intro conjI allI impI)
  fix n i
  let ?L = "ls_log s" and ?b = "ho_batchSize (en_opts en)"
  assume i: "i \<le> length ?L"
  show "en_ReadFrom en n (cursor ?L i) ?b = Ok (take (nat ?b) (drop i (take (length ?L) ?L)))"
  proof (cases i)
    case 0
    then show ?thesis
      using ms_journal.read_zero [OF s(1), of ?b] assms(6)
      by (simp add: read cursor_def MemoryStore_ReadFrom_open [OF s] page_def)
  next
    case (Suc m)
    then have "?L = take m ?L @ ?L ! m # drop (Suc m) ?L"
      using i by (simp add: id_take_nth_drop)
    from ms_journal.read_after [OF s(1) ids this, of ?b] Suc show ?thesis
      using assms(6) by (simp add: read MemoryStore_ReadFrom_open [OF s] page_def)
  qed
qed (use ids in \<open>simp_all add: mono_def\<close>)

definition memory_env ::
  "('q \<Rightarrow> event \<Rightarrow> 'q \<times> go_error option) \<Rightarrow> MemoryStore \<Rightarrow> hostOptions \<Rightarrow>
   ('q \<times> event list, MemoryCheckpointStore, MemoryDeadLetterStore) worker_env" where
  "memory_env H s opts =
     \<lparr>en_name = ''view'', en_Handle = recording H, en_EventTypes = [], en_cpSave = mcs_Save,
      en_cpLoad = mcs_Load, en_dlqStore = Some mdl_Store, en_ReadFrom = (\<lambda>_. MemoryStore_ReadFrom s),
      en_SubscribeAll = None, en_IsRetryable = (\<lambda>_. True), en_Classify = (\<lambda>_. Transient),
      en_Code = (\<lambda>_. []), en_ErrorText = (\<lambda>_. []), en_IDText = (\<lambda>_. []), en_StreamText = id,
      en_signal = (\<lambda>_. no_signal), en_clock = int, en_opts = opts\<rparr>"

lemma witness_ids:
  "distinct (map e_id (ls_log witness_store))" "0 \<notin> e_id ` set (ls_log witness_store)"
  by (simp_all add: witness_store_facts witness_event_def)

lemma memory_env_setting:
  assumes "0 < ho_dlqThreshold opts" and "0 < ho_batchSize opts"
  shows "drain_setting (memory_env H witness_store opts) H (ls_log witness_store)
     (\<lambda>_. length (ls_log witness_store))"
  unfolding drain_setting_def
  using assms memory_journal [OF witness_store_inv witness_store_facts(1) witness_ids,
      of "memory_env H witness_store opts"] memory_cp.checkpoint_store_axioms
  by (simp add: memory_env_def uses_memory_dlq_def)

abbreviation accept :: "nat \<Rightarrow> event \<Rightarrow> nat \<times> go_error option" where
  "accept n e \<equiv> (Suc n, None)"

lemma new_checkpoint:
  "mcs_Load NewMemoryCheckpointStore n = Ok zeroCheckpoint"
  "\<not> lc_closed (mcs_Lifecycle NewMemoryCheckpointStore)"
  by (simp_all add: mcs_Load_def withCheckpointReadLock_def NewMemoryCheckpointStore_def
      Lifecycle_CheckClosed_def wrapClosed_def)

lemma accept_setting:
  fixes en :: "(nat \<times> event list, MemoryCheckpointStore, MemoryDeadLetterStore) worker_env"
  defines "en \<equiv> memory_env accept witness_store defaultOptions"
  shows "drain_setting en accept (ls_log witness_store) (\<lambda>_. length (ls_log witness_store))" "quiet en"
    "ho_batchSize (en_opts en) \<le> DefaultCapacity"
    "cp_EventID zeroCheckpoint = cursor (ls_log witness_store) 0"
  unfolding en_def
  by (rule memory_env_setting)
    (simp_all add: defaultOptions_def defaultBatchSize_def quiet_def memory_env_def recording_def
      DefaultCapacity_def zeroCheckpoint_def cursor_def)

theorem worker_catches_up_witness:
  "\<exists>w. worker_run (memory_env accept witness_store defaultOptions)
         (newWorker (0, []) NewMemoryCheckpointStore NewMemoryDeadLetterStore) = Some (Ok w) \<and>
     snd (wk_proj w) = [witness_event 1, witness_event 2, witness_event 3]"
  using worker_catches_up [OF accept_setting(1-3) new_checkpoint(2,1) accept_setting(4),
      where ?q0.0 = 0 and ?t0.0 = "[]"]
  by (auto simp: witness_store_facts shouldHandle_def memory_env_def)

text \<open>
  A run with failures: the first journal read fails, the handler rejects the second event for good, and
  the dead-letter store refuses its first entry.
\<close>

definition failing_env ::
  "(nat \<times> event list, MemoryCheckpointStore, nat \<times> DeadLetterEntry list) worker_env" where
  "failing_env =
     \<lparr>en_name = ''view'', en_Handle = recording (\<lambda>n e. if e_id e = 2 then (n, Some (ErrExt ''bad'')) else (Suc n, None)),
      en_EventTypes = [], en_cpSave = mcs_Save, en_cpLoad = mcs_Load,
      en_dlqStore = Some (recording_dlq (\<lambda>d x. (Suc d, if d = 0 then Some (ErrExt ''full'') else None))),
      en_ReadFrom = (\<lambda>n. if n = 0 then (\<lambda>_ _. Fail (ErrExt ''down'')) else MemoryStore_ReadFrom witness_store),
      en_SubscribeAll = None, en_IsRetryable = (\<lambda>_. False), en_Classify = (\<lambda>_. Rejection),
      en_Code = (\<lambda>_. []), en_ErrorText = (\<lambda>_. []), en_IDText = (\<lambda>_. []), en_StreamText = id,
      en_signal = (\<lambda>_. no_signal), en_clock = int, en_opts = defaultOptions\<rparr>"

lemma new_ring_unseen: "\<not> Ring_Has (NewRing 0 DefaultCapacity) x"
  using ring.new_valid [of 0 DefaultCapacity] ring.new_contents [of 0 DefaultCapacity]
  by (auto simp: NewRing_def Let_def DefaultCapacity_def Ring_Has_def)

lemma new_ring_added:
  "Ring_Has (Ring_Add x (NewRing 0 DefaultCapacity)) y \<longleftrightarrow> y = x"
  "Ring_Has (Ring_Add z (Ring_Add x (NewRing 0 DefaultCapacity))) y \<longleftrightarrow> y = x \<or> y = z"
  by (auto simp: NewRing_def Ring_Add_def Ring_Has_def Ring_insert_def DefaultCapacity_def Let_def)

lemma witness_page: "MemoryStore_ReadFrom witness_store 0 100 = Ok [witness_event 1, witness_event 2, witness_event 3]"
  using ms_journal.read_zero [OF witness_store_inv, of 100]
  by (simp add: MemoryStore_ReadFrom_open [OF witness_store_inv witness_store_facts(1)] page_def witness_store_facts)

lemma failing_run:
  "\<exists>w. worker_run failing_env (newWorker (0, []) NewMemoryCheckpointStore (0, [])) = Some (Ok w) \<and>
     snd (wk_proj w) = [witness_event 1, witness_event 3] \<and> wk_restarts w = 2 \<and>
     map dl_Event (snd (wk_dlq w)) = [Some (witness_event 2)]"
proof -
  note defs = worker_run.simps drain_loop.simps failing_env_def newWorker_def worker_process_def drain_page_def journal_read_def
    poll_def processEvent_def applyWithRetry_def handleProcessEventError_def sendToDLQ_def saveCheckpoint_def
    recording_def recording_dlq_def shouldHandle_def touch_def time_Now_def markSeen_def wasSeen_def
    new_ring_unseen new_ring_added witness_page witness_event_def defaultOptions_def defaultBatchSize_def numeral_3_eq_3
    mcs_Save_def mcs_Load_def NewMemoryCheckpointStore_def mcs_withWriteLock_def withCheckpointReadLock_def
    Lifecycle_CheckClosed_def wrapClosed_def Checkpoint_IsZero_def zeroCheckpoint_def
    run_exit_def flushPendingCheckpoint_def ctx_Err_def ctx_DeadlineExceeded_def
    jitter_bound_def backoff_cap_def maxBackoffShift_def Let_def
  show ?thesis
    by (simp add: defs)
qed

theorem worker_no_gap_no_repeat_witness:
  "\<exists>w p q A. worker_run failing_env (newWorker (0, []) NewMemoryCheckpointStore (0, [])) = Some (Ok w) \<and>
     wk_restarts w = 2 \<and> snd (wk_proj w) = [witness_event 1, witness_event 3] \<and>
     snd (wk_proj w) = filter (\<lambda>e. e \<in> A) (take q [witness_event 1, witness_event 2, witness_event 3]) \<and>
     (\<forall>e \<in> set (take q [witness_event 1, witness_event 2, witness_event 3]).
        e \<in> A \<or> (\<exists>entry \<in> set (snd (wk_dlq w)). dl_Event entry = Some e))"
proof -
  let ?L = "ls_log witness_store"
  obtain w where w: "worker_run failing_env (newWorker (0, []) NewMemoryCheckpointStore (0, [])) = Some (Ok w)"
    "snd (wk_proj w) = [witness_event 1, witness_event 3]" "wk_restarts w = 2"
    using failing_run by blast
  have J: "growing_journal (memory_env accept witness_store defaultOptions) ?L (\<lambda>_. length ?L)"
    using drain_settingD(5) [OF accept_setting(1)] .
  have journal: "readable_journal failing_env ?L (\<lambda>_. length ?L)"
    using growing_journalD [OF J] unfolding readable_journal_def
    by (auto simp: failing_env_def memory_env_def)
  have env: "en_Handle failing_env = recording (\<lambda>n e. if e_id e = 2 then (n, Some (ErrExt ''bad'')) else (Suc n, None))"
    "en_dlqStore failing_env = None \<or> en_dlqStore failing_env =
       Some (recording_dlq (\<lambda>d x. (Suc d, if d = 0 then Some (ErrExt ''full'') else None)))"
    "checkpoint_store (en_cpSave failing_env) (en_cpLoad failing_env)"
    "0 < ho_dlqThreshold (en_opts failing_env)" "0 < ho_batchSize (en_opts failing_env)"
    "ho_batchSize (en_opts failing_env) \<le> DefaultCapacity" "en_EventTypes failing_env = []"
    "en_cpLoad failing_env NewMemoryCheckpointStore (en_name failing_env) = Ok zeroCheckpoint"
    using memory_cp.checkpoint_store_axioms new_checkpoint(1)
    by (simp_all add: failing_env_def defaultOptions_def defaultBatchSize_def DefaultCapacity_def)
  from worker_no_gap_no_repeat [OF env(1,2) journal env(3-6,8) accept_setting(4) _ w(1)] w env(7) show ?thesis
    by (auto simp: witness_store_facts(2))
qed

text \<open>A handler that fails on the first event, on a live subscription.\<close>

abbreviation reject_first :: "nat \<Rightarrow> event \<Rightarrow> nat \<times> go_error option" where
  "reject_first n e \<equiv> (if e_id e = 1 then (n, Some (ErrExt ''unavailable'')) else (Suc n, None))"

lemma reject_first_live:
  fixes en :: "(nat \<times> event list, MemoryCheckpointStore, MemoryDeadLetterStore) worker_env"
  defines "en \<equiv> memory_env reject_first witness_store defaultOptions"
  shows "\<exists>w1 w2 err. liveHandler en (witness_event 1) (newWorker (0, []) NewMemoryCheckpointStore NewMemoryDeadLetterStore) = (w1, Some err) \<and>
     liveHandler en (witness_event 2) w1 = (w2, None) \<and> \<not> wasSeen w1 2 \<and>
     \<not> lc_closed (mcs_Lifecycle (wk_cpStore w2)) \<and>
     (\<exists>cp. mcs_Load (wk_cpStore w2) ''view'' = Ok cp \<and> cp_EventID cp = 2)"
  unfolding en_def
  by (simp add: liveHandler_def memory_env_def poll_def newWorker_def wasSeen_def new_ring_unseen shouldHandle_def
     applyWithRetry_def defaultOptions_def numeral_3_eq_3 recording_def witness_event_def handleProcessEventError_def Let_def
     recordLiveCheckpoint_def time_Now_def shouldFlushCheckpoint_def flushCheckpoint_def mcs_Save_def mcs_Load_def
     NewMemoryCheckpointStore_def markSeen_def touch_def mcs_withWriteLock_def withCheckpointReadLock_def
     Lifecycle_CheckClosed_def wrapClosed_def)

theorem live_failure_overtaken_witness:
  "\<exists>w1 w2 err w' later. liveHandler (memory_env reject_first witness_store defaultOptions) (witness_event 1)
       (newWorker (0, []) NewMemoryCheckpointStore NewMemoryDeadLetterStore) = (w1, Some err) \<and>
     liveHandler (memory_env reject_first witness_store defaultOptions) (witness_event 2) w1 = (w2, None) \<and>
     worker_run (memory_env accept witness_store defaultOptions)
       (newWorker (0, []) (wk_cpStore w2) NewMemoryDeadLetterStore) = Some (Ok w') \<and>
     snd (wk_proj w') = later \<and> witness_event 1 \<notin> set later"
proof -
  let ?en = "memory_env reject_first witness_store defaultOptions" and ?L = "ls_log witness_store"
    and ?en' = "memory_env accept witness_store defaultOptions"
    and ?w = "newWorker (0, []) NewMemoryCheckpointStore NewMemoryDeadLetterStore"
  have L: "?L ! 0 = witness_event 1" "?L ! 1 = witness_event 2" "length ?L = 3"
    by (simp_all add: witness_store_facts)
  have id2: "e_id (witness_event 2) = 2" by (simp add: witness_event_def)
  obtain w1 w2 err cp where live: "liveHandler ?en (witness_event 1) ?w = (w1, Some err)"
    "liveHandler ?en (witness_event 2) w1 = (w2, None)" "\<not> wasSeen w1 2"
    and cp: "\<not> lc_closed (mcs_Lifecycle (wk_cpStore w2))" "mcs_Load (wk_cpStore w2) (en_name ?en') = Ok cp" "cp_EventID cp = 2"
    using reject_first_live by (auto simp: memory_env_def)
  have at: "cp_EventID cp = cursor ?L 2" using cp(3) L id2 by (simp add: cursor_def)
  have two: "2 \<le> length ?L" using L by simp
  obtain w' where run: "worker_run ?en' (newWorker (0, []) (wk_cpStore w2) NewMemoryDeadLetterStore) = Some (Ok w')"
    using quiet_run [OF accept_setting(1-3) cp(1,2) at two] by blast
  have "checkpoint_store (en_cpSave ?en) (en_cpLoad ?en)"
    using memory_cp.checkpoint_store_axioms by (simp add: memory_env_def)
  from live_failure_overtaken [OF this _ _ _ _ _ _ _ _ _ accept_setting(1,3) _ _ run, of 0 ?w w1 err 1]
  have "\<exists>later. snd (wk_proj w') = [] @ later \<and> witness_event 1 \<notin> set later"
    using live L id2 by (simp add: memory_env_def defaultOptions_def shouldHandle_def)
  then show ?thesis
    using live(1,2) run by auto
qed

end
