(* ===== verification/ProjectionSchema.thy ===== *)
theory ProjectionSchema
  imports ProjectionRuns SchemaStores
begin

text \<open>
  A projection worker over an upcasting journal: \<open>DecorateJournal\<close> transforms the page it reads, the
  worker takes an empty page for the end of the journal.
\<close>

definition upcasting_env ::
  "('q \<Rightarrow> event \<Rightarrow> 'q \<times> go_error option) \<Rightarrow> transform \<Rightarrow> MemoryStore \<Rightarrow> hostOptions \<Rightarrow>
   ('q \<times> event list, MemoryCheckpointStore, MemoryDeadLetterStore) worker_env" where
  "upcasting_env H T s opts =
     (memory_env H s opts)
       \<lparr>en_ReadFrom := (\<lambda>_. decorated_journal_ReadFrom (memory_inner (\<lambda>_. Conflict)) T s)\<rparr>"

lemma upcasting_env_simps [simp]:
  "en_signal (upcasting_env H T s opts) n = no_signal"
  "en_cpLoad (upcasting_env H T s opts) = mcs_Load"
  "en_name (upcasting_env H T s opts) = ''view''"
  "en_SubscribeAll (upcasting_env H T s opts) = None"
  "en_opts (upcasting_env H T s opts) = opts"
  by (simp_all add: upcasting_env_def memory_env_def)

lemma upcasting_env_page:
  assumes s: "ms_inv s" "ms_open s" and ids: "distinct (map e_id (ls_log s))" "0 \<notin> e_id ` set (ls_log s)"
    and "0 < ho_batchSize opts" "p \<le> length (ls_log s)"
  shows "en_ReadFrom (upcasting_env H T s opts) n (cursor (ls_log s) p) (ho_batchSize opts) =
    T (take (nat (ho_batchSize opts)) (drop p (ls_log s)))"
proof -
  have J: "growing_journal (memory_env H s opts) (ls_log s) (\<lambda>_. length (ls_log s))"
    using assms by (intro memory_journal) (simp_all add: memory_env_def)
  from growing_journalD(5) [OF J, of p n] assms(6) show ?thesis
    by (simp add: upcasting_env_def memory_env_def decorated_journal_ReadFrom_def seekableReadFrom_def
        memory_inner_def applySource_def)
qed

text \<open>
  C35. A page that the transform drops completely is the end of the journal for a worker. A run
  from a checkpoint in front of such a page ends, without an error, with the projection and the
  checkpoint as they were; so does every later run, and the events behind the page are never applied.
\<close>

theorem dropped_page_blocks:
  assumes "ms_inv s" "ms_open s" and "distinct (map e_id (ls_log s))" "0 \<notin> e_id ` set (ls_log s)"
    and "0 < ho_batchSize opts" and "p \<le> length (ls_log s)"
    and cp: "mcs_Load c ''view'' = Ok cp" "cp_EventID cp = cursor (ls_log s) p"
    and dropped: "T (take (nat (ho_batchSize opts)) (drop p (ls_log s))) = Ok []"
  shows "\<exists>w. worker_run (upcasting_env H T s opts) (newWorker proj c d) = Some (Ok w) \<and>
     wk_proj w = proj \<and> wk_cpStore w = c \<and> wk_lastError w = None \<and> wk_status w = WorkerStopped"
proof -
  let ?en = "upcasting_env H T s opts"
  have page: "en_ReadFrom ?en n (cursor (ls_log s) p) (ho_batchSize opts) = Ok []" for n
    using dropped by (simp only: upcasting_env_page [OF assms(1-6), of H T])
  have loop: "drain_loop ?en (cursor (ls_log s) p) w =
      Some (Ok (w\<lparr>wk_polls := Suc (wk_polls w), wk_reads := Suc (wk_reads w)\<rparr>, cursor (ls_log s) p, caught_up))"
    for w :: "('a \<times> event list, MemoryCheckpointStore, MemoryDeadLetterStore) worker"
    using page by (simp add: drain_loop.simps [of ?en _ w] drain_page_def poll_def journal_read_def)
  have after: "(if \<not> Checkpoint_IsZero cp then cp_EventID cp else 0) = cursor (ls_log s) p"
    using cp(2) by (simp add: Checkpoint_IsZero_def)
  then show ?thesis
    using loop cp(1) unfolding worker_run.simps [of ?en "newWorker proj c d"]
    by (simp add: worker_process_def Let_def poll_def newWorker_def run_exit_def
        flushPendingCheckpoint_def)
qed

text \<open>
  The chain of the witness drops the first of two events; with pages of one event the worker
  never applies the second.
\<close>

definition retired_store :: MemoryStore where
  "retired_store = AppendLocked NewMemoryStore (StreamKey witness_ref) [retired_event, witness_event 2]"

lemma retired_store_facts:
  "ms_inv retired_store" "ms_open retired_store" "ls_log retired_store = [retired_event, witness_event 2]"
  unfolding retired_store_def
  by (rule ms_inv_append [OF ms_inv_New])
    (simp_all add: ms_open_def Let_def NewMemoryStore_def NewLogStore_def)

theorem dropped_page_blocks_witness:
  "\<exists>w. worker_run (upcasting_env accept (Chain_upcastAll witness_env retired_chain) retired_store
         (WithBatchSize 1 defaultOptions))
       (newWorker (0, []) NewMemoryCheckpointStore NewMemoryDeadLetterStore) = Some (Ok w) \<and>
     wk_proj w = (0, []) \<and> wk_cpStore w = NewMemoryCheckpointStore"
proof -
  let ?T = "Chain_upcastAll witness_env retired_chain" and ?opts = "WithBatchSize 1 defaultOptions"
  have ids: "distinct (map e_id (ls_log retired_store))" "0 \<notin> e_id ` set (ls_log retired_store)"
    by (simp_all add: retired_store_facts retired_event_def witness_event_def)
  have batch: "ho_batchSize ?opts = 1" by (simp add: WithBatchSize_def)
  have "?T (take (nat (ho_batchSize ?opts)) (drop 0 (ls_log retired_store))) = Ok []"
    by (simp add: batch retired_store_facts Chain_upcastAll_def upcastOne.simps Chain_match_def
        retired_chain_def Drop_def retired_event_def)
  from dropped_page_blocks [where T = ?T, OF retired_store_facts(1,2) ids _ _ new_checkpoint(1) _ this,
      where H = accept and proj = "(0, [])" and d = NewMemoryDeadLetterStore]
  show ?thesis
    by (auto simp: batch zeroCheckpoint_def cursor_def)
qed

end
