(* ===== verification/GraphStore.thy ===== *)
theory GraphStore
  imports Events "HOL-Library.AList"
begin

text \<open>
  The graph projection tier (\<open>src/graph\<close>): references and keys, schemas and their validation, the
  in-memory driver with its transactional sink, the schema-checking sink and the projection.
  A Go map is an association list; what depends on the order of its entries takes the order as a
  parameter (theory \<open>GraphSearch\<close>).
\<close>

section \<open>References and keys\<close>

text \<open>
  The value of a key property is any Go value, stored by its printed form \<open>fmt.Sprint\<close>: a string
  prints as itself, how other values print is a parameter.
\<close>

datatype 'k any_key = KeyString string | KeyOther 'k

fun fmt_Sprint :: "('k \<Rightarrow> string) \<Rightarrow> 'k any_key \<Rightarrow> string" where
  "fmt_Sprint sprint (KeyString s) = s"
| "fmt_Sprint sprint (KeyOther x) = sprint x"

record 'k NodeRef =
  nr_Label :: string
  nr_KeyProp :: string
  nr_KeyValue :: "'k any_key"

record 'k EdgeRef =
  er_Type :: string
  er_From :: "'k NodeRef"
  er_To :: "'k NodeRef"

record nodeKey =
  nk_label :: string
  nk_keyProp :: string
  nk_keyVal :: string

record edgeKey =
  ek_typ :: string
  ek_from :: nodeKey
  ek_to :: nodeKey

definition errEmptyLabel :: go_error where
  "errEmptyLabel = ErrNew Rejection ''graph.noderef.label_required''"

definition errEmptyKeyProp :: go_error where
  "errEmptyKeyProp = ErrNew Rejection ''graph.noderef.key_prop_required''"

definition errEmptyEdgeType :: go_error where
  "errEmptyEdgeType = ErrNew Rejection ''graph.edgeref.type_required''"

definition NodeRef_validate :: "'k NodeRef \<Rightarrow> go_error option" where
  "NodeRef_validate r =
     (if nr_Label r = [] then Some errEmptyLabel
      else if nr_KeyProp r = [] then Some errEmptyKeyProp
      else None)"

definition NodeRef_key :: "('k \<Rightarrow> string) \<Rightarrow> 'k NodeRef \<Rightarrow> go_error + nodeKey" where
  "NodeRef_key sprint r =
     (case NodeRef_validate r of
        Some err \<Rightarrow> Inl err
      | None \<Rightarrow> Inr \<lparr>nk_label = nr_Label r, nk_keyProp = nr_KeyProp r,
                     nk_keyVal = fmt_Sprint sprint (nr_KeyValue r)\<rparr>)"

definition EdgeRef_key :: "('k \<Rightarrow> string) \<Rightarrow> 'k EdgeRef \<Rightarrow> go_error + edgeKey" where
  "EdgeRef_key sprint r =
     (if er_Type r = [] then Inl errEmptyEdgeType
      else case NodeRef_key sprint (er_From r) of
        Inl err \<Rightarrow> Inl (ErrWrap Rejection ''graph.edge_from'' err)
      | Inr from_key \<Rightarrow>
          (case NodeRef_key sprint (er_To r) of
             Inl err \<Rightarrow> Inl (ErrWrap Rejection ''graph.edge_to'' err)
           | Inr target \<Rightarrow> Inr \<lparr>ek_typ = er_Type r, ek_from = from_key, ek_to = target\<rparr>))"

definition keyToRef :: "nodeKey \<Rightarrow> 'k NodeRef" where
  "keyToRef k = \<lparr>nr_Label = nk_label k, nr_KeyProp = nk_keyProp k, nr_KeyValue = KeyString (nk_keyVal k)\<rparr>"

definition edgeKeyToRef :: "edgeKey \<Rightarrow> 'k EdgeRef" where
  "edgeKeyToRef k = \<lparr>er_Type = ek_typ k, er_From = keyToRef (ek_from k), er_To = keyToRef (ek_to k)\<rparr>"

section \<open>The graph and its sink\<close>

type_synonym 'v props = "(string \<times> 'v) list"

record 'v node =
  nd_key :: nodeKey
  nd_props :: "'v props"

record 'v edge =
  eg_key :: edgeKey
  eg_props :: "'v props"

record 'v graphData =
  g_nodes :: "(nodeKey \<times> 'v node) list"
  g_edges :: "(edgeKey \<times> 'v edge) list"

definition newGraphData :: "'v graphData" where
  "newGraphData = \<lparr>g_nodes = [], g_edges = []\<rparr>"

definition maps_Copy :: "'v props \<Rightarrow> 'v props \<Rightarrow> 'v props" where
  "maps_Copy dst src = fold (\<lambda>(k, v) d. AList.update k v d) src dst"

text \<open>The node under a key, or a new one without properties.\<close>

definition node_at :: "'v graphData \<Rightarrow> nodeKey \<Rightarrow> 'v node" where
  "node_at g k = (case map_of (g_nodes g) k of Some n \<Rightarrow> n | None \<Rightarrow> \<lparr>nd_key = k, nd_props = []\<rparr>)"

definition edge_at :: "'v graphData \<Rightarrow> edgeKey \<Rightarrow> 'v edge" where
  "edge_at g k = (case map_of (g_edges g) k of Some e \<Rightarrow> e | None \<Rightarrow> \<lparr>eg_key = k, eg_props = []\<rparr>)"

definition sink_MergeNode ::
  "('k \<Rightarrow> string) \<Rightarrow> 'k NodeRef \<Rightarrow> 'v props \<Rightarrow> 'v graphData \<Rightarrow> 'v graphData \<times> go_error option" where
  "sink_MergeNode sprint ref props g =
     (case NodeRef_key sprint ref of
        Inl err \<Rightarrow> (g, Some err)
      | Inr k \<Rightarrow>
          (let n = node_at g k in
           (g\<lparr>g_nodes := AList.update k (n\<lparr>nd_props := maps_Copy (nd_props n) props\<rparr>) (g_nodes g)\<rparr>, None)))"

text \<open>The loop over the endpoints of an edge.\<close>

fun ensure_endpoints ::
  "('k \<Rightarrow> string) \<Rightarrow> 'k NodeRef list \<Rightarrow> 'v graphData \<Rightarrow> 'v graphData \<times> go_error option" where
  "ensure_endpoints sprint [] g = (g, None)"
| "ensure_endpoints sprint (endpoint # endpoints) g =
     (case NodeRef_key sprint endpoint of
        Inl err \<Rightarrow> (g, Some err)
      | Inr k \<Rightarrow> ensure_endpoints sprint endpoints
          (if map_of (g_nodes g) k = None
           then g\<lparr>g_nodes := AList.update k \<lparr>nd_key = k, nd_props = []\<rparr> (g_nodes g)\<rparr> else g))"

definition sink_MergeEdge ::
  "('k \<Rightarrow> string) \<Rightarrow> 'k EdgeRef \<Rightarrow> 'v props \<Rightarrow> 'v graphData \<Rightarrow> 'v graphData \<times> go_error option" where
  "sink_MergeEdge sprint ref props g =
     (case EdgeRef_key sprint ref of
        Inl err \<Rightarrow> (g, Some err)
      | Inr k \<Rightarrow>
          (case ensure_endpoints sprint [er_From ref, er_To ref] g of
             (g1, Some err) \<Rightarrow> (g1, Some err)
           | (g1, None) \<Rightarrow>
               (let e = edge_at g1 k in
                (g1\<lparr>g_edges := AList.update k (e\<lparr>eg_props := maps_Copy (eg_props e) props\<rparr>) (g_edges g1)\<rparr>,
                 None))))"

definition sink_RemoveNode ::
  "('k \<Rightarrow> string) \<Rightarrow> 'k NodeRef \<Rightarrow> 'v graphData \<Rightarrow> 'v graphData \<times> go_error option" where
  "sink_RemoveNode sprint ref g =
     (case NodeRef_key sprint ref of
        Inl err \<Rightarrow> (g, Some err)
      | Inr k \<Rightarrow>
          (g\<lparr>g_nodes := AList.delete k (g_nodes g),
             g_edges := filter (\<lambda>(ek, _). \<not> (ek_from ek = k \<or> ek_to ek = k)) (g_edges g)\<rparr>, None))"

definition sink_RemoveEdge ::
  "('k \<Rightarrow> string) \<Rightarrow> 'k EdgeRef \<Rightarrow> 'v graphData \<Rightarrow> 'v graphData \<times> go_error option" where
  "sink_RemoveEdge sprint ref g =
     (case EdgeRef_key sprint ref of
        Inl err \<Rightarrow> (g, Some err)
      | Inr k \<Rightarrow> (g\<lparr>g_edges := AList.delete k (g_edges g)\<rparr>, None))"

definition sink_SetNodeProperty ::
  "('k \<Rightarrow> string) \<Rightarrow> 'k NodeRef \<Rightarrow> string \<Rightarrow> 'v \<Rightarrow> 'v graphData \<Rightarrow> 'v graphData \<times> go_error option" where
  "sink_SetNodeProperty sprint ref prop value g =
     (case NodeRef_key sprint ref of
        Inl err \<Rightarrow> (g, Some err)
      | Inr k \<Rightarrow>
          (let n = node_at g k in
           (g\<lparr>g_nodes := AList.update k (n\<lparr>nd_props := AList.update prop value (nd_props n)\<rparr>) (g_nodes g)\<rparr>, None)))"

section \<open>Schemas\<close>

record PropertyType =
  pt_Name :: string

record NodeType =
  nt_Label :: string
  nt_KeyProp :: string
  nt_Properties :: "PropertyType list"

record EdgeType =
  et_Type :: string
  et_FromLabel :: string
  et_ToLabel :: string
  et_Properties :: "PropertyType list"

record IndexSpec =
  ix_Name :: string
  ix_Label :: string
  ix_Properties :: "string list"

record Schema =
  sc_Nodes :: "NodeType list"
  sc_Edges :: "EdgeType list"
  sc_Indexes :: "IndexSpec list"

definition Schema_NodeType :: "Schema \<Rightarrow> string \<Rightarrow> NodeType option" where
  "Schema_NodeType s label = find (\<lambda>nt. nt_Label nt = label) (sc_Nodes s)"

definition Schema_EdgeType :: "Schema \<Rightarrow> string \<Rightarrow> EdgeType option" where
  "Schema_EdgeType s typ = find (\<lambda>et. et_Type et = typ) (sc_Edges s)"

definition hasProperty :: "PropertyType list \<Rightarrow> string \<Rightarrow> bool" where
  "hasProperty props name \<longleftrightarrow> list_ex (\<lambda>p. pt_Name p = name) props"

text \<open>The sentinels of a schema declaration and of the checking sink, by their code.\<close>

definition schema_error :: "string \<Rightarrow> go_error" where
  "schema_error code = ErrNew Rejection (''graph.schema.'' @ code)"

definition sink_error :: "string \<Rightarrow> go_error" where
  "sink_error code = ErrNew Rejection (''graph.sink.'' @ code)"

fun validate_props_loop :: "PropertyType list \<Rightarrow> string list \<Rightarrow> go_error option" where
  "validate_props_loop [] seen = None"
| "validate_props_loop (p # props) seen =
     (if pt_Name p = [] then Some (ErrFmt [schema_error ''prop_name_required''])
      else if pt_Name p \<in> set seen then Some (ErrFmt [schema_error ''duplicate_prop''])
      else validate_props_loop props (pt_Name p # seen))"

definition validateProperties :: "PropertyType list \<Rightarrow> go_error option" where
  "validateProperties props = validate_props_loop props []"

fun validateNodeTypes :: "NodeType list \<Rightarrow> string list \<Rightarrow> go_error + string list" where
  "validateNodeTypes [] seen = Inr seen"
| "validateNodeTypes (nt # nts) seen =
     (if nt_Label nt = [] then Inl (ErrFmt [schema_error ''label_required''])
      else if nt_KeyProp nt = [] then Inl (ErrFmt [schema_error ''key_prop_required''])
      else if nt_Label nt \<in> set seen then Inl (ErrFmt [schema_error ''duplicate_node_label''])
      else case validateProperties (nt_Properties nt) of
        Some err \<Rightarrow> Inl err
      | None \<Rightarrow>
          if hasProperty (nt_Properties nt) (nt_KeyProp nt)
          then Inl (ErrFmt [schema_error ''key_prop_in_properties''])
          else validateNodeTypes nts (nt_Label nt # seen))"

definition validateSingleEdge :: "EdgeType \<Rightarrow> string list \<Rightarrow> go_error option" where
  "validateSingleEdge et seenNodes =
     (if et_FromLabel et = [] then Some (ErrFmt [schema_error ''from_label_required''])
      else if et_ToLabel et = [] then Some (ErrFmt [schema_error ''to_label_required''])
      else if et_FromLabel et \<notin> set seenNodes then Some (ErrFmt [schema_error ''unknown_from_label''])
      else if et_ToLabel et \<notin> set seenNodes then Some (ErrFmt [schema_error ''unknown_to_label''])
      else validateProperties (et_Properties et))"

fun validateEdgeTypes :: "EdgeType list \<Rightarrow> string list \<Rightarrow> string list \<Rightarrow> go_error option" where
  "validateEdgeTypes [] seenNodes seen = None"
| "validateEdgeTypes (et # ets) seenNodes seen =
     (if et_Type et = [] then Some (ErrFmt [schema_error ''edge_type_required''])
      else if et_Type et \<in> set seen then Some (ErrFmt [schema_error ''duplicate_edge_type''])
      else case validateSingleEdge et seenNodes of
        Some err \<Rightarrow> Some err
      | None \<Rightarrow> validateEdgeTypes ets seenNodes (et_Type et # seen))"

fun validate_index_props :: "NodeType \<Rightarrow> string list \<Rightarrow> go_error option" where
  "validate_index_props nt [] = None"
| "validate_index_props nt (prop # props) =
     (if prop = nt_KeyProp nt then validate_index_props nt props
      else if \<not> hasProperty (nt_Properties nt) prop
      then Some (ErrFmt [schema_error ''unknown_index_prop''])
      else validate_index_props nt props)"

fun validateIndexes :: "Schema \<Rightarrow> IndexSpec list \<Rightarrow> go_error option" where
  "validateIndexes s [] = None"
| "validateIndexes s (idx # idxs) =
     (if ix_Name idx = [] then Some (ErrFmt [schema_error ''index_name_required''])
      else case Schema_NodeType s (ix_Label idx) of
        None \<Rightarrow> Some (ErrFmt [schema_error ''unknown_index_label''])
      | Some nt \<Rightarrow>
          (case validate_index_props nt (ix_Properties idx) of
             Some err \<Rightarrow> Some err
           | None \<Rightarrow> validateIndexes s idxs))"

definition Schema_Validate :: "Schema \<Rightarrow> go_error option" where
  "Schema_Validate s =
     (if length (sc_Nodes s) = 0 then Some (schema_error ''no_node_types'')
      else case validateNodeTypes (sc_Nodes s) [] of
        Inl err \<Rightarrow> Some err
      | Inr seenNodes \<Rightarrow>
          (case validateEdgeTypes (sc_Edges s) seenNodes [] of
             Some err \<Rightarrow> Some err
           | None \<Rightarrow> validateIndexes s (sc_Indexes s)))"

section \<open>Validation at the sink\<close>

definition validateNodeRef :: "Schema \<Rightarrow> 'k NodeRef \<Rightarrow> go_error option" where
  "validateNodeRef s ref =
     (case Schema_NodeType s (nr_Label ref) of
        None \<Rightarrow> Some (ErrFmt [sink_error ''unknown_node_label''])
      | Some nt \<Rightarrow>
          if nr_KeyProp ref \<noteq> nt_KeyProp nt then Some (ErrFmt [sink_error ''wrong_key_prop'']) else None)"

definition validateProps :: "PropertyType list \<Rightarrow> 'v props \<Rightarrow> go_error option" where
  "validateProps declared props =
     (if list_all (\<lambda>(name, _). name \<in> set (map pt_Name declared)) props then None
      else Some (ErrFmt [sink_error ''unknown_prop'']))"

text \<open>
  The type looked up here exists, since the reference was validated before
  (\<open>validateNodeRef_declared\<close>, \<open>validateEdgeRef_declared\<close>).
\<close>

definition validateNodeProps :: "Schema \<Rightarrow> string \<Rightarrow> 'v props \<Rightarrow> go_error option" where
  "validateNodeProps s label props =
     validateProps (case Schema_NodeType s label of Some nt \<Rightarrow> nt_Properties nt | None \<Rightarrow> []) props"

definition validateEdgeProps :: "Schema \<Rightarrow> string \<Rightarrow> 'v props \<Rightarrow> go_error option" where
  "validateEdgeProps s typ props =
     validateProps (case Schema_EdgeType s typ of Some et \<Rightarrow> et_Properties et | None \<Rightarrow> []) props"

definition validateEdgeRef :: "Schema \<Rightarrow> 'k EdgeRef \<Rightarrow> go_error option" where
  "validateEdgeRef s ref =
     (case Schema_EdgeType s (er_Type ref) of
        None \<Rightarrow> Some (ErrFmt [sink_error ''unknown_edge_type''])
      | Some et \<Rightarrow>
          if nr_Label (er_From ref) \<noteq> et_FromLabel et
          then Some (ErrFmt [sink_error ''edge_endpoint_mismatch''])
          else if nr_Label (er_To ref) \<noteq> et_ToLabel et
          then Some (ErrFmt [sink_error ''edge_endpoint_mismatch''])
          else None)"

section \<open>Sinks and handlers\<close>

text \<open>The interface \<open>GraphSink\<close>, over the state the sink writes to.\<close>

record ('k, 'v, 's) GraphSink =
  gs_MergeNode :: "'k NodeRef \<Rightarrow> 'v props \<Rightarrow> 's \<Rightarrow> 's \<times> go_error option"
  gs_MergeEdge :: "'k EdgeRef \<Rightarrow> 'v props \<Rightarrow> 's \<Rightarrow> 's \<times> go_error option"
  gs_RemoveNode :: "'k NodeRef \<Rightarrow> 's \<Rightarrow> 's \<times> go_error option"
  gs_RemoveEdge :: "'k EdgeRef \<Rightarrow> 's \<Rightarrow> 's \<times> go_error option"
  gs_SetNodeProperty :: "'k NodeRef \<Rightarrow> string \<Rightarrow> 'v \<Rightarrow> 's \<Rightarrow> 's \<times> go_error option"

definition memorySink :: "('k \<Rightarrow> string) \<Rightarrow> ('k, 'v, 'v graphData) GraphSink" where
  "memorySink sprint =
     \<lparr>gs_MergeNode = sink_MergeNode sprint, gs_MergeEdge = sink_MergeEdge sprint,
      gs_RemoveNode = sink_RemoveNode sprint, gs_RemoveEdge = sink_RemoveEdge sprint,
      gs_SetNodeProperty = sink_SetNodeProperty sprint\<rparr>"

definition schemaSink :: "('k, 'v, 's) GraphSink \<Rightarrow> Schema \<Rightarrow> ('k, 'v, 's) GraphSink" where
  "schemaSink inner schema =
     \<lparr>gs_MergeNode = (\<lambda>ref props st.
        case validateNodeRef schema ref of
          Some err \<Rightarrow> (st, Some err)
        | None \<Rightarrow>
            (case validateNodeProps schema (nr_Label ref) props of
               Some err \<Rightarrow> (st, Some err)
             | None \<Rightarrow> gs_MergeNode inner ref props st)),
      gs_MergeEdge = (\<lambda>ref props st.
        case validateEdgeRef schema ref of
          Some err \<Rightarrow> (st, Some err)
        | None \<Rightarrow>
            (case validateEdgeProps schema (er_Type ref) props of
               Some err \<Rightarrow> (st, Some err)
             | None \<Rightarrow> gs_MergeEdge inner ref props st)),
      gs_RemoveNode = gs_RemoveNode inner,
      gs_RemoveEdge = gs_RemoveEdge inner,
      gs_SetNodeProperty = (\<lambda>ref prop value st.
        case validateNodeRef schema ref of
          Some err \<Rightarrow> (st, Some err)
        | None \<Rightarrow>
            (case Schema_NodeType schema (nr_Label ref) of
               None \<Rightarrow> (st, Some (sink_error ''unknown_node_label''))
             | Some nt \<Rightarrow>
                 if \<not> hasProperty (nt_Properties nt) prop then (st, Some (sink_error ''unknown_prop''))
                 else gs_SetNodeProperty inner ref prop value st))\<rparr>"

definition wrapWithSchema :: "('k, 'v, 's) GraphSink \<Rightarrow> Schema option \<Rightarrow> ('k, 'v, 's) GraphSink" where
  "wrapWithSchema inner schema = (case schema of None \<Rightarrow> inner | Some s \<Rightarrow> schemaSink inner s)"

text \<open>
  A handler sees a sink only through its calls and the errors these return, so a run of it is a
  tree: it returns, or makes a call and goes on according to the error.
\<close>

datatype ('k, 'v) sink_call =
    MergeNode "'k NodeRef" "'v props"
  | MergeEdge "'k EdgeRef" "'v props"
  | RemoveNode "'k NodeRef"
  | RemoveEdge "'k EdgeRef"
  | SetNodeProperty "'k NodeRef" string 'v

datatype ('k, 'v) handler_run =
    Return "go_error option"
  | Call "('k, 'v) sink_call" "go_error option \<Rightarrow> ('k, 'v) handler_run"

fun sink_do :: "('k, 'v, 's) GraphSink \<Rightarrow> ('k, 'v) sink_call \<Rightarrow> 's \<Rightarrow> 's \<times> go_error option" where
  "sink_do sink (MergeNode ref props) = gs_MergeNode sink ref props"
| "sink_do sink (MergeEdge ref props) = gs_MergeEdge sink ref props"
| "sink_do sink (RemoveNode ref) = gs_RemoveNode sink ref"
| "sink_do sink (RemoveEdge ref) = gs_RemoveEdge sink ref"
| "sink_do sink (SetNodeProperty ref prop value) = gs_SetNodeProperty sink ref prop value"

primrec run_handler :: "('k, 'v, 's) GraphSink \<Rightarrow> ('k, 'v) handler_run \<Rightarrow> 's \<Rightarrow> 's \<times> go_error option" where
  "run_handler sink (Return err) = (\<lambda>st. (st, err))"
| "run_handler sink (Call c continue) =
     (\<lambda>st. case sink_do sink c st of (st', err) \<Rightarrow> run_handler sink (continue err) st')"

section \<open>The memory driver\<close>

record 'v MemoryDriver =
  md_data :: "'v graphData"
  md_schema :: "Schema option"

type_synonym 'v MemoryDriverOption = "'v MemoryDriver \<Rightarrow> 'v MemoryDriver"

definition WithDriverSchema :: "Schema option \<Rightarrow> 'v MemoryDriverOption" where
  "WithDriverSchema schema d = d\<lparr>md_schema := schema\<rparr>"

definition NewMemoryDriver :: "'v MemoryDriverOption list \<Rightarrow> 'v MemoryDriver" where
  "NewMemoryDriver opts = fold (\<lambda>opt d. opt d) opts \<lparr>md_data = newGraphData, md_schema = None\<rparr>"

text \<open>
  \<open>RunInTx\<close> locks the driver while it copies the graph and while it publishes the result, not in
  between. The two locked sections are separate definitions: other transactions may run
  between them.
\<close>

definition graph_clone :: "'v graphData \<Rightarrow> 'v graphData" where
  "graph_clone g =
     \<lparr>g_nodes = map (\<lambda>(k, n). (k, \<lparr>nd_key = nd_key n, nd_props = nd_props n\<rparr>)) (g_nodes g),
      g_edges = map (\<lambda>(k, e). (k, \<lparr>eg_key = eg_key e, eg_props = eg_props e\<rparr>)) (g_edges g)\<rparr>"

definition tx_begin :: "'v MemoryDriver \<Rightarrow> 'v graphData" where
  "tx_begin d = graph_clone (md_data d)"

definition tx_finish ::
  "('k \<Rightarrow> string) \<Rightarrow> 'v MemoryDriver \<Rightarrow> 'v graphData \<Rightarrow>
   (('k, 'v, 'v graphData) GraphSink \<Rightarrow> 'v graphData \<Rightarrow> 'v graphData \<times> go_error option) \<Rightarrow>
   'v MemoryDriver \<times> go_error option" where
  "tx_finish sprint d snap fn =
     (case fn (wrapWithSchema (memorySink sprint) (md_schema d)) snap of
        (_, Some err) \<Rightarrow> (d, Some err)
      | (snap', None) \<Rightarrow> (d\<lparr>md_data := snap'\<rparr>, None))"

definition RunInTx ::
  "('k \<Rightarrow> string) \<Rightarrow> 'v MemoryDriver \<Rightarrow>
   (('k, 'v, 'v graphData) GraphSink \<Rightarrow> 'v graphData \<Rightarrow> 'v graphData \<times> go_error option) \<Rightarrow>
   'v MemoryDriver \<times> go_error option" where
  "RunInTx sprint d fn = tx_finish sprint d (tx_begin d) fn"

definition MemoryDriver_Close :: "'v MemoryDriver \<Rightarrow> 'v MemoryDriver \<times> go_error option" where
  "MemoryDriver_Close d = (d, None)"

definition MemoryDriver_Snapshot :: "'v MemoryDriver \<Rightarrow> 'v graphData" where
  "MemoryDriver_Snapshot d = graph_clone (md_data d)"

section \<open>The projection\<close>

record ('k, 'v) GraphProjection =
  gp_name :: string
  gp_driver :: "'v MemoryDriver"
  gp_handler :: "event \<Rightarrow> ('k, 'v) handler_run"
  gp_types :: "string list"
  gp_schema :: "Schema option"

definition WithSchema :: "Schema option \<Rightarrow> ('k, 'v) GraphProjection \<Rightarrow> ('k, 'v) GraphProjection" where
  "WithSchema schema p = p\<lparr>gp_schema := schema\<rparr>"

definition errNoName :: go_error where
  "errNoName = ErrNew Rejection ''graph.projection.name_required''"

definition errNilDriver :: go_error where
  "errNilDriver = ErrNew Rejection ''graph.projection.driver_required''"

definition errNilHandler :: go_error where
  "errNilHandler = ErrNew Rejection ''graph.projection.handler_required''"

definition NewGraphProjection ::
  "string \<Rightarrow> 'v MemoryDriver option \<Rightarrow> (event \<Rightarrow> ('k, 'v) handler_run) option \<Rightarrow> string list \<Rightarrow>
   (('k, 'v) GraphProjection \<Rightarrow> ('k, 'v) GraphProjection) list \<Rightarrow> go_error + ('k, 'v) GraphProjection" where
  "NewGraphProjection name driver handler types opts =
     (if name = [] then Inl errNoName
      else case driver of
        None \<Rightarrow> Inl errNilDriver
      | Some d \<Rightarrow>
          (case handler of
             None \<Rightarrow> Inl errNilHandler
           | Some h \<Rightarrow> Inr (fold (\<lambda>opt p. opt p) opts
               \<lparr>gp_name = name, gp_driver = d, gp_handler = h, gp_types = types, gp_schema = None\<rparr>)))"

definition GraphProjection_Handle ::
  "(go_error \<Rightarrow> family) \<Rightarrow> ('k \<Rightarrow> string) \<Rightarrow> ('k, 'v) GraphProjection \<Rightarrow> event \<Rightarrow>
   ('k, 'v) GraphProjection \<times> go_error option" where
  "GraphProjection_Handle cls sprint p evt =
     (case RunInTx sprint (gp_driver p)
             (\<lambda>sink. run_handler (wrapWithSchema sink (gp_schema p)) (gp_handler p evt)) of
        (d, Some err) \<Rightarrow>
          (p\<lparr>gp_driver := d\<rparr>, Some (ErrWrap (cls err) ''graph.projection.handle'' err))
      | (d, None) \<Rightarrow> (p\<lparr>gp_driver := d\<rparr>, None))"

definition GraphProjection_Close :: "('k, 'v) GraphProjection \<Rightarrow> ('k, 'v) GraphProjection \<times> go_error option" where
  "GraphProjection_Close p =
     (case MemoryDriver_Close (gp_driver p) of
        (d, Some err) \<Rightarrow>
          (p\<lparr>gp_driver := d\<rparr>, Some (ErrWrap Infrastructure ''graph.projection.close'' err))
      | (d, None) \<Rightarrow> (p\<lparr>gp_driver := d\<rparr>, None))"

end
