(* ===== verification/GraphProjections.thy ===== *)
theory GraphProjections
  imports GraphStore
begin

text \<open>
  What the graph tier guarantees: transactions are all or nothing, every write keeps the graph
  well formed and, under a schema, well typed, and projecting an event again changes nothing.
\<close>

section \<open>The graph as two maps\<close>

definition nodes_view :: "'v graphData \<Rightarrow> nodeKey \<Rightarrow> (string \<rightharpoonup> 'v) option" where
  "nodes_view g k = map_option (\<lambda>n. map_of (nd_props n)) (map_of (g_nodes g) k)"

definition edges_view :: "'v graphData \<Rightarrow> edgeKey \<Rightarrow> (string \<rightharpoonup> 'v) option" where
  "edges_view g k = map_option (\<lambda>e. map_of (eg_props e)) (map_of (g_edges g) k)"

lemma graph_clone_id [simp]: "graph_clone g = g"
proof -
  have "(\<lambda>(k, n). (k, \<lparr>nd_key = nd_key n, nd_props = nd_props n\<rparr>)) = (id :: nodeKey \<times> 'a node \<Rightarrow> _)"
    "(\<lambda>(k, e). (k, \<lparr>eg_key = eg_key e, eg_props = eg_props e\<rparr>)) = (id :: edgeKey \<times> 'a edge \<Rightarrow> _)"
    by auto
  then show ?thesis by (simp add: graph_clone_def)
qed

lemma map_of_maps_Copy: "map_of (maps_Copy dst src) = map_of dst ++ map_of (rev src)"
  by (induction src arbitrary: dst)
    (auto simp: maps_Copy_def update_conv' map_add_def fun_eq_iff split: option.split)

lemma set_maps_Copy: "fst ` set (maps_Copy dst src) = fst ` set dst \<union> fst ` set src"
proof (induction src arbitrary: dst)
  case (Cons x src)
  from Cons [of "AList.update (fst x) (snd x) dst"] show ?case
    by (simp add: maps_Copy_def dom_update case_prod_beta)
qed (simp add: maps_Copy_def)

lemma map_of_filter_keys:
  "map_of (filter (\<lambda>(k, _). P k) xs) k = (if P k then map_of xs k else None)"
  by (induction xs) auto

section \<open>Calls as effects\<close>

text \<open>What a call does to one node or edge, seen as its properties if it exists.\<close>

datatype 'v change = Keep | Merge "string \<rightharpoonup> 'v" | Const "(string \<rightharpoonup> 'v) option"

fun change_to :: "'v change \<Rightarrow> (string \<rightharpoonup> 'v) option \<Rightarrow> (string \<rightharpoonup> 'v) option" where
  "change_to Keep x = x"
| "change_to (Merge u) x = Some ((case x of None \<Rightarrow> Map.empty | Some m \<Rightarrow> m) ++ u)"
| "change_to (Const c) x = c"

lemma change_idem: "change_to e (change_to e x) = change_to e x"
  by (cases e) (auto simp: map_add_def fun_eq_iff split: option.split)

lemma change_compose: "\<exists>e. \<forall>x. change_to e2 (change_to e1 x) = change_to e x"
proof (cases e2)
  case Keep
  then show ?thesis by auto
next
  case (Const c)
  then show ?thesis by (metis change_to.simps(3))
next
  case m2: (Merge u2)
  show ?thesis
  proof (cases e1)
    case Keep
    then show ?thesis by auto
  next
    case (Merge u1)
    then show ?thesis
      using m2 by (intro exI [of _ "Merge (u1 ++ u2)"]) (auto split: option.split)
  next
    case (Const c)
    then show ?thesis
      by (intro exI [of _ "Const (change_to e2 c)"]) simp
  qed
qed

text \<open>
  A sink whose calls act in this way: the error depends on the call only, and every node and every
  edge is kept, merged with fixed properties or set to a fixed value.
\<close>

locale merging_sink =
  fixes sink :: "('k, 'v, 'v graphData) GraphSink"
  assumes call_error: "\<exists>err. \<forall>g. snd (sink_do sink c g) = err"
    and call_nodes: "\<exists>e. \<forall>g. nodes_view (fst (sink_do sink c g)) k = change_to e (nodes_view g k)"
    and call_edges: "\<exists>e. \<forall>g. edges_view (fst (sink_do sink c g)) ek = change_to e (edges_view g ek)"
begin

lemma handler_error: "\<exists>err. \<forall>g. snd (run_handler sink h g) = err"
proof (induction h)
  case (Call c continue)
  obtain err where "\<forall>g. snd (sink_do sink c g) = err" using call_error by blast
  with Call [of "continue err"] show ?case by (auto simp: case_prod_beta)
qed simp

lemma handler_view:
  assumes view: "\<And>c. \<exists>e. \<forall>g. view (fst (sink_do sink c g)) = change_to e (view g)"
  shows "\<exists>e. \<forall>g. view (fst (run_handler sink h g)) = change_to e (view g)"
proof (induction h)
  case (Return err)
  show ?case by (auto intro: exI [of _ Keep])
next
  case (Call c continue)
  obtain err where err: "\<forall>g. snd (sink_do sink c g) = err" using call_error by blast
  from view obtain e1 where e1: "\<forall>g. view (fst (sink_do sink c g)) = change_to e1 (view g)" by blast
  from Call [of "continue err"] obtain e2
    where e2: "\<forall>g. view (fst (run_handler sink (continue err) g)) = change_to e2 (view g)" by blast
  obtain e where "\<forall>x. change_to e2 (change_to e1 x) = change_to e x" using change_compose by blast
  with e1 e2 err show ?case by (auto simp: case_prod_beta)
qed

lemmas handler_nodes = handler_view [where view = "\<lambda>g. nodes_view g k" for k, OF call_nodes]
lemmas handler_edges = handler_view [where view = "\<lambda>g. edges_view g k" for k, OF call_edges]

text \<open>A second run of a handler on the graph it left returns the same error and changes nothing.\<close>

lemma replay:
  assumes "run_handler sink h g = (g1, err)"
  shows "\<exists>g2. run_handler sink h g1 = (g2, err) \<and> nodes_view g2 = nodes_view g1 \<and>
    edges_view g2 = edges_view g1"
proof -
  let ?g2 = "fst (run_handler sink h g1)"
  have "nodes_view ?g2 k = nodes_view g1 k" for k
    using handler_nodes [of h k] assms change_idem by (metis fst_conv)
  moreover have "edges_view ?g2 k = edges_view g1 k" for k
    using handler_edges [of h k] assms change_idem by (metis fst_conv)
  moreover have "snd (run_handler sink h g1) = err"
    using handler_error [of h] assms by (metis snd_conv)
  ultimately show ?thesis
    by (intro exI [of _ ?g2]) (auto simp: prod_eq_iff)
qed

end

lemma nodes_view_update:
  "nodes_view (g\<lparr>g_nodes := AList.update k n (g_nodes g)\<rparr>) = (nodes_view g)(k := Some (map_of (nd_props n)))"
  by (simp add: fun_eq_iff nodes_view_def update_conv')

lemma edges_view_update:
  "edges_view (g\<lparr>g_edges := AList.update k e (g_edges g)\<rparr>) = (edges_view g)(k := Some (map_of (eg_props e)))"
  by (simp add: fun_eq_iff edges_view_def update_conv')

lemma views_same [simp]:
  "nodes_view (g\<lparr>g_edges := E\<rparr>) = nodes_view g" "edges_view (g\<lparr>g_nodes := N\<rparr>) = edges_view g"
  by (simp_all add: fun_eq_iff nodes_view_def edges_view_def)

lemma node_at_view: "map_of (nd_props (node_at g k)) = (case nodes_view g k of None \<Rightarrow> Map.empty | Some m \<Rightarrow> m)"
  by (simp add: node_at_def nodes_view_def split: option.split)

lemma edge_at_view: "map_of (eg_props (edge_at g k)) = (case edges_view g k of None \<Rightarrow> Map.empty | Some m \<Rightarrow> m)"
  by (simp add: edge_at_def edges_view_def split: option.split)

text \<open>The endpoints of an edge exist after the loop over them, with the properties they had.\<close>

lemma ensure_endpoints_view:
  assumes "NodeRef_key sprint a = Inr ka" "NodeRef_key sprint b = Inr kb"
  shows "\<exists>g'. ensure_endpoints sprint [a, b] g = (g', None) \<and> g_edges g' = g_edges g \<and>
    nodes_view g' = (\<lambda>k. if k = ka \<or> k = kb then change_to (Merge Map.empty) (nodes_view g k)
                         else nodes_view g k)"
  using assms
  by (auto simp: fun_eq_iff nodes_view_def update_conv' split: option.split)

lemma EdgeRef_key_Inr:
  "EdgeRef_key sprint r = Inr k \<Longrightarrow>
   NodeRef_key sprint (er_From r) = Inr (ek_from k) \<and> NodeRef_key sprint (er_To r) = Inr (ek_to k) \<and>
   ek_typ k = er_Type r"
  by (auto simp: EdgeRef_key_def split: if_splits sum.splits)

lemmas sink_defs = memorySink_def sink_MergeNode_def sink_MergeEdge_def sink_RemoveNode_def
  sink_RemoveEdge_def sink_SetNodeProperty_def Let_def

text \<open>The error of a call, and what it does to a node and to an edge.\<close>

fun call_err :: "('k \<Rightarrow> string) \<Rightarrow> ('k, 'v) sink_call \<Rightarrow> go_error option" where
  "call_err sprint (MergeNode ref _) = (case NodeRef_key sprint ref of Inl e \<Rightarrow> Some e | _ \<Rightarrow> None)"
| "call_err sprint (MergeEdge ref _) = (case EdgeRef_key sprint ref of Inl e \<Rightarrow> Some e | _ \<Rightarrow> None)"
| "call_err sprint (RemoveNode ref) = (case NodeRef_key sprint ref of Inl e \<Rightarrow> Some e | _ \<Rightarrow> None)"
| "call_err sprint (RemoveEdge ref) = (case EdgeRef_key sprint ref of Inl e \<Rightarrow> Some e | _ \<Rightarrow> None)"
| "call_err sprint (SetNodeProperty ref _ _) = (case NodeRef_key sprint ref of Inl e \<Rightarrow> Some e | _ \<Rightarrow> None)"

fun node_change :: "('k \<Rightarrow> string) \<Rightarrow> ('k, 'v) sink_call \<Rightarrow> nodeKey \<Rightarrow> 'v change" where
  "node_change sprint (MergeNode ref props) k =
     (if NodeRef_key sprint ref = Inr k then Merge (map_of (rev props)) else Keep)"
| "node_change sprint (MergeEdge ref props) k =
     (case EdgeRef_key sprint ref of
        Inr ek \<Rightarrow> if k = ek_from ek \<or> k = ek_to ek then Merge Map.empty else Keep
      | Inl _ \<Rightarrow> Keep)"
| "node_change sprint (RemoveNode ref) k = (if NodeRef_key sprint ref = Inr k then Const None else Keep)"
| "node_change sprint (RemoveEdge ref) k = Keep"
| "node_change sprint (SetNodeProperty ref prop val) k =
     (if NodeRef_key sprint ref = Inr k then Merge [prop \<mapsto> val] else Keep)"

fun edge_change :: "('k \<Rightarrow> string) \<Rightarrow> ('k, 'v) sink_call \<Rightarrow> edgeKey \<Rightarrow> 'v change" where
  "edge_change sprint (MergeEdge ref props) k =
     (if EdgeRef_key sprint ref = Inr k then Merge (map_of (rev props)) else Keep)"
| "edge_change sprint (RemoveNode ref) k =
     (case NodeRef_key sprint ref of
        Inr nk \<Rightarrow> if ek_from k = nk \<or> ek_to k = nk then Const None else Keep
      | Inl _ \<Rightarrow> Keep)"
| "edge_change sprint (RemoveEdge ref) k = (if EdgeRef_key sprint ref = Inr k then Const None else Keep)"
| "edge_change sprint _ k = Keep"

text \<open>Merging an edge, when its key is well formed.\<close>

lemma MergeEdge_view:
  assumes "EdgeRef_key sprint ref = Inr k"
  shows "\<exists>g1. sink_MergeEdge sprint ref props g =
      (g1\<lparr>g_edges := AList.update k ((edge_at g1 k)\<lparr>eg_props := maps_Copy (eg_props (edge_at g1 k)) props\<rparr>)
         (g_edges g1)\<rparr>, None) \<and>
    ensure_endpoints sprint [er_From ref, er_To ref] g = (g1, None) \<and> edges_view g1 = edges_view g \<and>
    nodes_view g1 = (\<lambda>nk. if nk = ek_from k \<or> nk = ek_to k then change_to (Merge Map.empty) (nodes_view g nk)
                          else nodes_view g nk)"
proof -
  obtain g1 where "ensure_endpoints sprint [er_From ref, er_To ref] g = (g1, None)" "g_edges g1 = g_edges g"
    "nodes_view g1 = (\<lambda>nk. if nk = ek_from k \<or> nk = ek_to k then change_to (Merge Map.empty) (nodes_view g nk)
                          else nodes_view g nk)"
    using ensure_endpoints_view [of sprint "er_From ref" "ek_from k" "er_To ref" "ek_to k" g]
      EdgeRef_key_Inr [OF assms] by blast
  then show ?thesis
    using assms
    by (intro exI [of _ g1]) (simp add: sink_MergeEdge_def Let_def fun_eq_iff edges_view_def del: ensure_endpoints.simps)
qed

lemma mem_call:
  "snd (sink_do (memorySink sprint) c g) = call_err sprint c"
  "nodes_view (fst (sink_do (memorySink sprint) c g)) k = change_to (node_change sprint c k) (nodes_view g k)"
  "edges_view (fst (sink_do (memorySink sprint) c g)) ek = change_to (edge_change sprint c ek) (edges_view g ek)"
proof -
  have "snd (sink_do (memorySink sprint) c g) = call_err sprint c \<and>
    nodes_view (fst (sink_do (memorySink sprint) c g)) k = change_to (node_change sprint c k) (nodes_view g k) \<and>
    edges_view (fst (sink_do (memorySink sprint) c g)) ek = change_to (edge_change sprint c ek) (edges_view g ek)"
  proof (cases c)
    case (MergeNode ref props)
    then show ?thesis
      by (auto simp: sink_defs nodes_view_update map_of_maps_Copy node_at_view split: sum.split)
  next
    case (SetNodeProperty ref name v)
    then show ?thesis
      by (auto simp: sink_defs nodes_view_update update_conv' node_at_view split: sum.split)
  next
    case (RemoveNode ref)
    then show ?thesis
      by (auto simp: sink_defs nodes_view_def edges_view_def delete_conv' map_of_filter_keys split: sum.split)
  next
    case (RemoveEdge ref)
    then show ?thesis
      by (auto simp: sink_defs nodes_view_def edges_view_def delete_conv' split: sum.split)
  next
    case (MergeEdge ref props)
    show ?thesis
    proof (cases "EdgeRef_key sprint ref")
      case (Inl err)
      then show ?thesis using MergeEdge by (simp add: sink_defs)
    next
      case (Inr key)
      obtain g1 where "sink_MergeEdge sprint ref props g =
          (g1\<lparr>g_edges := AList.update key ((edge_at g1 key)\<lparr>eg_props := maps_Copy (eg_props (edge_at g1 key)) props\<rparr>)
             (g_edges g1)\<rparr>, None)" (is "_ = (?g, None)")
        and g1: "edges_view g1 = edges_view g"
          "nodes_view g1 = (\<lambda>nk. if nk = ek_from key \<or> nk = ek_to key
             then change_to (Merge Map.empty) (nodes_view g nk) else nodes_view g nk)"
        using MergeEdge_view [OF Inr, of props g] by blast
      then have "sink_do (memorySink sprint) c g = (?g, None)"
        using MergeEdge by (simp add: memorySink_def)
      then show ?thesis
        using MergeEdge Inr g1 by (simp add: edges_view_update map_of_maps_Copy edge_at_view)
    qed
  qed
  then show "snd (sink_do (memorySink sprint) c g) = call_err sprint c"
    "nodes_view (fst (sink_do (memorySink sprint) c g)) k = change_to (node_change sprint c k) (nodes_view g k)"
    "edges_view (fst (sink_do (memorySink sprint) c g)) ek = change_to (edge_change sprint c ek) (edges_view g ek)"
    by simp_all
qed

interpretation mem: merging_sink "memorySink sprint" for sprint :: "'k \<Rightarrow> string"
  by unfold_locales (use mem_call in blast)+

text \<open>A schema refuses calls; the calls it lets through keep their effect.\<close>

lemma schemaSink_do:
  "(\<exists>err. sink_do (schemaSink inner s) c = (\<lambda>st. (st, Some err))) \<or>
   sink_do (schemaSink inner s) c = sink_do inner c"
  by (cases c) (auto simp: schemaSink_def fun_eq_iff split: option.split)

lemma merging_schemaSink:
  assumes "merging_sink inner"
  shows "merging_sink (schemaSink inner s)"
proof
  fix c k ek
  consider err where "sink_do (schemaSink inner s) c = (\<lambda>st. (st, Some err))"
    | "sink_do (schemaSink inner s) c = sink_do inner c"
    using schemaSink_do by blast
  note cases = this
  show "\<exists>err. \<forall>g. snd (sink_do (schemaSink inner s) c g) = err"
    using cases merging_sink.call_error [OF assms, of c] by cases auto
  show "\<exists>e. \<forall>g. nodes_view (fst (sink_do (schemaSink inner s) c g)) k = change_to e (nodes_view g k)"
    using cases merging_sink.call_nodes [OF assms, of c k] by cases (auto intro: exI [of _ Keep])
  show "\<exists>e. \<forall>g. edges_view (fst (sink_do (schemaSink inner s) c g)) ek = change_to e (edges_view g ek)"
    using cases merging_sink.call_edges [OF assms, of c ek] by cases (auto intro: exI [of _ Keep])
qed

lemma merging_wrapWithSchema: "merging_sink inner \<Longrightarrow> merging_sink (wrapWithSchema inner schema)"
  by (cases schema) (simp_all add: wrapWithSchema_def merging_schemaSink)

lemma Handle_cases:
  "GraphProjection_Handle cls sprint p evt =
     (let d = gp_driver p;
          sink = wrapWithSchema (wrapWithSchema (memorySink sprint) (md_schema d)) (gp_schema p) in
      case run_handler sink (gp_handler p evt) (md_data d) of
        (g, Some err) \<Rightarrow> (p, Some (ErrWrap (cls err) ''graph.projection.handle'' err))
      | (g, None) \<Rightarrow> (p\<lparr>gp_driver := d\<lparr>md_data := g\<rparr>\<rparr>, None))"
  by (auto simp: GraphProjection_Handle_def RunInTx_def tx_finish_def tx_begin_def Let_def
      split: prod.split option.split)

text \<open>
  C18. Projecting an event again changes nothing. When a graph projection has handled an event,
  handling the same event on the graph it left succeeds again and leaves every node and every edge
  with the properties it had, whatever the handler calls and with or without schemas.
\<close>

theorem graph_replay_idempotent:
  assumes "GraphProjection_Handle cls sprint p evt = (p1, None)"
  shows "\<exists>p2. GraphProjection_Handle cls sprint p1 evt = (p2, None) \<and>
     nodes_view (md_data (gp_driver p2)) = nodes_view (md_data (gp_driver p1)) \<and>
     edges_view (md_data (gp_driver p2)) = edges_view (md_data (gp_driver p1))"
proof -
  let ?sink = "wrapWithSchema (wrapWithSchema (memorySink sprint) (md_schema (gp_driver p))) (gp_schema p)"
  have M: "merging_sink ?sink"
    by (intro merging_wrapWithSchema mem.merging_sink_axioms)
  from assms obtain g1 where g1: "run_handler ?sink (gp_handler p evt) (md_data (gp_driver p)) = (g1, None)"
    and p1: "p1 = p\<lparr>gp_driver := (gp_driver p)\<lparr>md_data := g1\<rparr>\<rparr>"
    by (auto simp: Handle_cases Let_def split: prod.splits option.splits)
  from merging_sink.replay [OF M g1] show ?thesis
    by (auto simp: Handle_cases Let_def p1)
qed

section \<open>Valid schemas\<close>

definition props_ok :: "PropertyType list \<Rightarrow> bool" where
  "props_ok ps \<longleftrightarrow> [] \<notin> pt_Name ` set ps \<and> distinct (map pt_Name ps)"

definition node_type_ok :: "NodeType \<Rightarrow> bool" where
  "node_type_ok nt \<longleftrightarrow> nt_Label nt \<noteq> [] \<and> nt_KeyProp nt \<noteq> [] \<and> props_ok (nt_Properties nt) \<and>
     nt_KeyProp nt \<notin> pt_Name ` set (nt_Properties nt)"

definition edge_type_ok :: "string set \<Rightarrow> EdgeType \<Rightarrow> bool" where
  "edge_type_ok labels et \<longleftrightarrow> et_Type et \<noteq> [] \<and> et_FromLabel et \<in> labels \<and> et_ToLabel et \<in> labels \<and>
     et_FromLabel et \<noteq> [] \<and> et_ToLabel et \<noteq> [] \<and> props_ok (et_Properties et)"

definition index_ok :: "Schema \<Rightarrow> IndexSpec \<Rightarrow> bool" where
  "index_ok s ix \<longleftrightarrow> ix_Name ix \<noteq> [] \<and>
     (\<exists>nt. Schema_NodeType s (ix_Label ix) = Some nt \<and>
        set (ix_Properties ix) \<subseteq> insert (nt_KeyProp nt) (pt_Name ` set (nt_Properties nt)))"

lemma hasProperty_iff: "hasProperty ps x \<longleftrightarrow> x \<in> pt_Name ` set ps"
  by (auto simp: hasProperty_def list_ex_iff)

lemma validate_props_loop_None:
  "validate_props_loop ps seen = None \<longleftrightarrow> props_ok ps \<and> set seen \<inter> pt_Name ` set ps = {}"
  by (induction ps arbitrary: seen) (auto simp: props_ok_def)

lemma first_error_None [simp]:
  "(case x of None \<Rightarrow> y | Some err \<Rightarrow> Some err) = None \<longleftrightarrow> x = None \<and> y = None"
  "(case x of None \<Rightarrow> z | Some err \<Rightarrow> Inl err) = Inr v \<longleftrightarrow> x = None \<and> z = Inr v"
  by (simp_all split: option.split)

lemma validateNodeTypes_Inr:
  "validateNodeTypes nts seen = Inr labels \<longleftrightarrow>
     list_all node_type_ok nts \<and> distinct (map nt_Label nts) \<and> set seen \<inter> nt_Label ` set nts = {} \<and>
     labels = rev (map nt_Label nts) @ seen"
  by (induction nts arbitrary: seen)
    (auto simp: node_type_ok_def validateProperties_def hasProperty_iff validate_props_loop_None)

lemma validateEdgeTypes_None:
  "validateEdgeTypes ets labels seen = None \<longleftrightarrow>
     list_all (edge_type_ok (set labels)) ets \<and> distinct (map et_Type ets) \<and> set seen \<inter> et_Type ` set ets = {}"
  by (induction ets arbitrary: seen)
    (auto simp: edge_type_ok_def validateSingleEdge_def validateProperties_def validate_props_loop_None)

lemma validate_index_props_None:
  "validate_index_props nt ps = None \<longleftrightarrow> set ps \<subseteq> insert (nt_KeyProp nt) (pt_Name ` set (nt_Properties nt))"
  by (induction ps) (auto simp: hasProperty_iff)

lemma validateIndexes_None: "validateIndexes s ixs = None \<longleftrightarrow> list_all (index_ok s) ixs"
proof (induction ixs)
  case (Cons ix ixs)
  then show ?case
    by (cases "Schema_NodeType s (ix_Label ix)") (auto simp: index_ok_def validate_index_props_None)
qed simp

lemma Schema_Validate_None:
  "Schema_Validate s = None \<longleftrightarrow>
     sc_Nodes s \<noteq> [] \<and> list_all node_type_ok (sc_Nodes s) \<and> distinct (map nt_Label (sc_Nodes s)) \<and>
     list_all (edge_type_ok (nt_Label ` set (sc_Nodes s))) (sc_Edges s) \<and> distinct (map et_Type (sc_Edges s)) \<and>
     list_all (index_ok s) (sc_Indexes s)"
proof (cases "validateNodeTypes (sc_Nodes s) []")
  case (Inl err)
  then have "\<not> (list_all node_type_ok (sc_Nodes s) \<and> distinct (map nt_Label (sc_Nodes s)))"
    using validateNodeTypes_Inr [of "sc_Nodes s" "[]" "rev (map nt_Label (sc_Nodes s))"] by auto
  then show ?thesis
    using Inl by (auto simp: Schema_Validate_def)
next
  case (Inr labels)
  then have "list_all node_type_ok (sc_Nodes s) \<and> distinct (map nt_Label (sc_Nodes s)) \<and>
      set labels = nt_Label ` set (sc_Nodes s)"
    by (simp add: validateNodeTypes_Inr)
  then show ?thesis
    using Inr by (auto simp: Schema_Validate_def validateEdgeTypes_None validateIndexes_None)
qed

lemmas valid_schema = Schema_Validate_None [THEN iffD1]

text \<open>
  \<open>Validate\<close> accepts a schema exactly when it declares a node type, node labels and edge types are
  non-empty and unique, every key property is named and not declared again, property names are
  non-empty and unique, edges connect declared labels, and indexes name declared properties.
\<close>

theorem Schema_Validate_iff:
  "Schema_Validate s = None \<longleftrightarrow>
     sc_Nodes s \<noteq> [] \<and> list_all node_type_ok (sc_Nodes s) \<and> distinct (map nt_Label (sc_Nodes s)) \<and>
     list_all (edge_type_ok (nt_Label ` set (sc_Nodes s))) (sc_Edges s) \<and> distinct (map et_Type (sc_Edges s)) \<and>
     list_all (index_ok s) (sc_Indexes s)"
  by (rule Schema_Validate_None)

section \<open>Well-formed and well-typed graphs\<close>

text \<open>Entries are filed under their own key, once, and edges connect existing nodes.\<close>

definition graph_inv :: "'v graphData \<Rightarrow> bool" where
  "graph_inv g \<longleftrightarrow> distinct (map fst (g_nodes g)) \<and> distinct (map fst (g_edges g)) \<and>
     (\<forall>(k, n) \<in> set (g_nodes g). nd_key n = k) \<and> (\<forall>(k, e) \<in> set (g_edges g). eg_key e = k) \<and>
     (\<forall>(k, e) \<in> set (g_edges g). {ek_from k, ek_to k} \<subseteq> fst ` set (g_nodes g))"

text \<open>Labels, edge types, endpoint labels and properties are declared.\<close>

definition node_typed :: "Schema \<Rightarrow> nodeKey \<Rightarrow> 'v node \<Rightarrow> bool" where
  "node_typed s k n \<longleftrightarrow> (\<exists>nt. Schema_NodeType s (nk_label k) = Some nt \<and>
     fst ` set (nd_props n) \<subseteq> pt_Name ` set (nt_Properties nt))"

definition edge_typed :: "Schema \<Rightarrow> edgeKey \<Rightarrow> 'v edge \<Rightarrow> bool" where
  "edge_typed s k e \<longleftrightarrow> (\<exists>et. Schema_EdgeType s (ek_typ k) = Some et \<and>
     nk_label (ek_from k) = et_FromLabel et \<and> nk_label (ek_to k) = et_ToLabel et \<and>
     fst ` set (eg_props e) \<subseteq> pt_Name ` set (et_Properties et))"

definition graph_typed :: "Schema \<Rightarrow> 'v graphData \<Rightarrow> bool" where
  "graph_typed s g \<longleftrightarrow> (\<forall>(k, n) \<in> set (g_nodes g). node_typed s k n) \<and>
     (\<forall>(k, e) \<in> set (g_edges g). edge_typed s k e)"

text \<open>
  Both are of one form: every node satisfies a predicate, every edge satisfies a predicate, and edges
  connect existing nodes. The updates of the sink keep any such property that the new entry has.
\<close>

definition all_entries :: "(nodeKey \<Rightarrow> 'v node \<Rightarrow> bool) \<Rightarrow> (edgeKey \<Rightarrow> 'v edge \<Rightarrow> bool) \<Rightarrow> 'v graphData \<Rightarrow> bool" where
  "all_entries P Q g \<longleftrightarrow> distinct (map fst (g_nodes g)) \<and> distinct (map fst (g_edges g)) \<and>
     (\<forall>(k, n) \<in> set (g_nodes g). P k n) \<and>
     (\<forall>(k, e) \<in> set (g_edges g). Q k e \<and> {ek_from k, ek_to k} \<subseteq> fst ` set (g_nodes g))"

lemma set_update_distinct:
  "distinct (map fst xs) \<Longrightarrow> set (AList.update k v xs) = insert (k, v) {x \<in> set xs. fst x \<noteq> k}"
  by (induction xs) (auto simp: rev_image_eqI)

lemma all_entries_put_node:
  assumes "all_entries P Q g" and "P k n"
  shows "all_entries P Q (g\<lparr>g_nodes := AList.update k n (g_nodes g)\<rparr>)"
  using assms
  by (auto simp: all_entries_def distinct_update dom_update set_update_distinct
      simp del: update.simps)

lemma all_entries_put_edge:
  assumes "all_entries P Q g" and "Q k e" and "{ek_from k, ek_to k} \<subseteq> fst ` set (g_nodes g)"
  shows "all_entries P Q (g\<lparr>g_edges := AList.update k e (g_edges g)\<rparr>)"
  using assms
  by (auto simp: all_entries_def distinct_update set_update_distinct simp del: update.simps)

lemma dom_delete: "fst ` set (AList.delete k xs) = fst ` set xs - {k}"
  by (metis delete_keys set_map set_removeAll)

lemma set_delete: "set (AList.delete k xs) \<subseteq> set xs"
  by (auto simp: AList.delete_eq)

lemma all_entries_shrink:
  assumes "all_entries P Q g" and "distinct (map fst N)" "set N \<subseteq> set (g_nodes g)"
    and "distinct (map fst E)" "set E \<subseteq> set (g_edges g)"
    and "\<And>k e. (k, e) \<in> set E \<Longrightarrow> {ek_from k, ek_to k} \<subseteq> fst ` set N"
  shows "all_entries P Q (g\<lparr>g_nodes := N, g_edges := E\<rparr>)"
proof -
  have "\<forall>(k, n) \<in> set N. P k n" "\<forall>(k, e) \<in> set E. Q k e"
    using assms(1,3,5) by (auto simp: all_entries_def)
  then show ?thesis
    using assms(2,4,6) by (auto simp: all_entries_def)
qed

lemma all_entries_drop_node:
  assumes "all_entries P Q g"
  shows "all_entries P Q (g\<lparr>g_nodes := AList.delete k (g_nodes g),
     g_edges := filter (\<lambda>(ek, _). \<not> (ek_from ek = k \<or> ek_to ek = k)) (g_edges g)\<rparr>)"
proof (rule all_entries_shrink [OF assms _ set_delete])
  fix ek e
  assume "(ek, e) \<in> set (filter (\<lambda>(ek, _). \<not> (ek_from ek = k \<or> ek_to ek = k)) (g_edges g))"
  then show "{ek_from ek, ek_to ek} \<subseteq> fst ` set (AList.delete k (g_nodes g))"
    using assms by (auto simp: all_entries_def dom_delete)
qed (use assms in \<open>auto simp: all_entries_def distinct_delete distinct_map_filter\<close>)

lemma all_entries_drop_edge:
  assumes "all_entries P Q g"
  shows "all_entries P Q (g\<lparr>g_edges := AList.delete k (g_edges g)\<rparr>)"
proof -
  have "all_entries P Q (g\<lparr>g_nodes := g_nodes g, g_edges := AList.delete k (g_edges g)\<rparr>)"
  proof (rule all_entries_shrink [OF assms _ _ _ set_delete])
    fix ek e
    assume "(ek, e) \<in> set (AList.delete k (g_edges g))"
    then show "{ek_from ek, ek_to ek} \<subseteq> fst ` set (g_nodes g)"
      using assms set_delete [of k "g_edges g"] by (auto simp: all_entries_def)
  qed (use assms in \<open>auto simp: all_entries_def distinct_delete\<close>)
  then show ?thesis by simp
qed

lemma all_entries_node_at:
  "all_entries P Q g \<Longrightarrow> (\<And>k. P k \<lparr>nd_key = k, nd_props = []\<rparr>) \<Longrightarrow> P k (node_at g k)"
  by (auto simp: all_entries_def node_at_def split: option.split dest: map_of_SomeD)

lemma all_entries_edge_at:
  "all_entries P Q g \<Longrightarrow> Q k \<lparr>eg_key = k, eg_props = []\<rparr> \<Longrightarrow> Q k (edge_at g k)"
  by (auto simp: all_entries_def edge_at_def split: option.split dest: map_of_SomeD)

text \<open>What a schema lets through.\<close>

fun allowed :: "Schema \<Rightarrow> ('k, 'v) sink_call \<Rightarrow> bool" where
  "allowed s (MergeNode ref props) \<longleftrightarrow>
     validateNodeRef s ref = None \<and> validateNodeProps s (nr_Label ref) props = None"
| "allowed s (MergeEdge ref props) \<longleftrightarrow>
     validateEdgeRef s ref = None \<and> validateEdgeProps s (er_Type ref) props = None"
| "allowed s (SetNodeProperty ref p _) \<longleftrightarrow> validateNodeRef s ref = None \<and>
     (\<exists>nt. Schema_NodeType s (nr_Label ref) = Some nt \<and> hasProperty (nt_Properties nt) p)"
| "allowed s _ \<longleftrightarrow> True"

lemma schemaSink_allowed:
  "fst (sink_do (schemaSink inner s) c st) = st \<or>
   allowed s c \<and> fst (sink_do (schemaSink inner s) c st) = fst (sink_do inner c st)"
  by (cases c) (auto simp: schemaSink_def split: option.split)

lemma wrapped_do:
  fixes sprint and ds ps :: "Schema option"
  defines "sink \<equiv> wrapWithSchema (wrapWithSchema (memorySink sprint) ds) ps"
  shows "fst (sink_do sink c g) = g \<or>
    fst (sink_do sink c g) = fst (sink_do (memorySink sprint) c g) \<and>
    (\<forall>s. ds = Some s \<or> ps = Some s \<longrightarrow> allowed s c)"
proof -
  have inner: "fst (sink_do (wrapWithSchema i (os :: Schema option)) c g) = g \<or>
    fst (sink_do (wrapWithSchema i os) c g) = fst (sink_do i c g) \<and> (\<forall>s. os = Some s \<longrightarrow> allowed s c)" for i os
    using schemaSink_allowed [of i _ c g] by (auto simp: wrapWithSchema_def split: option.split)
  from inner [of "wrapWithSchema (memorySink sprint) ds" ps] inner [of "memorySink sprint" ds]
  show ?thesis unfolding sink_def by metis
qed

lemma run_handler_preserves:
  assumes "\<And>c st. P st \<Longrightarrow> P (fst (sink_do sink c st))" and "P st"
  shows "P (fst (run_handler sink h st))"
  using assms(2)
proof (induction h arbitrary: st)
  case (Call c continue)
  from Call.IH [OF _ assms(1) [OF Call.prems, of c], of "continue (snd (sink_do sink c st))"]
  show ?case by (simp add: case_prod_beta)
qed simp

lemma ensure_endpoints_entries:
  assumes "all_entries P Q g" and "\<And>k. k \<in> {ka, kb} \<Longrightarrow> P k \<lparr>nd_key = k, nd_props = []\<rparr>"
    and "NodeRef_key sprint a = Inr ka" "NodeRef_key sprint b = Inr kb"
    and "ensure_endpoints sprint [a, b] g = (g1, None)"
  shows "all_entries P Q g1" "{ka, kb} \<subseteq> fst ` set (g_nodes g1)"
proof -
  let ?put = "\<lambda>k (g :: 'a graphData). if map_of (g_nodes g) k = None
     then g\<lparr>g_nodes := AList.update k \<lparr>nd_key = k, nd_props = []\<rparr> (g_nodes g)\<rparr> else g"
  have g1: "g1 = ?put kb (?put ka g)" using assms(3-5) by simp
  have put: "all_entries P Q (?put k h)" if "all_entries P Q h" "k \<in> {ka, kb}" for k h
    using all_entries_put_node [OF that(1) assms(2) [OF that(2)]] that(1) by simp
  have has: "insert k (fst ` set (g_nodes h)) \<subseteq> fst ` set (g_nodes (?put k h))" for k and h :: "'a graphData"
    by (auto simp: dom_update map_of_eq_None_iff simp del: update.simps)
  show "all_entries P Q g1"
    unfolding g1 by (intro put assms(1)) simp_all
  show "{ka, kb} \<subseteq> fst ` set (g_nodes g1)"
    unfolding g1 using has [of ka g] has [of kb "?put ka g"] by blast
qed

lemma mem_call_entries:
  assumes g: "all_entries P Q g"
    and new_node: "\<And>k u. node_change sprint c k = Merge u \<Longrightarrow> P k \<lparr>nd_key = k, nd_props = []\<rparr>"
    and new_edge: "\<And>k u. edge_change sprint c k = Merge u \<Longrightarrow> Q k \<lparr>eg_key = k, eg_props = []\<rparr>"
    and merge_node: "\<And>ref k n props. c = MergeNode ref props \<Longrightarrow> NodeRef_key sprint ref = Inr k \<Longrightarrow> P k n \<Longrightarrow>
        P k (n\<lparr>nd_props := maps_Copy (nd_props n) props\<rparr>)"
    and merge_edge: "\<And>ref k e props. c = MergeEdge ref props \<Longrightarrow> EdgeRef_key sprint ref = Inr k \<Longrightarrow> Q k e \<Longrightarrow>
        Q k (e\<lparr>eg_props := maps_Copy (eg_props e) props\<rparr>)"
    and set_node: "\<And>ref k n p v. c = SetNodeProperty ref p v \<Longrightarrow> NodeRef_key sprint ref = Inr k \<Longrightarrow> P k n \<Longrightarrow>
        P k (n\<lparr>nd_props := AList.update p v (nd_props n)\<rparr>)"
  shows "all_entries P Q (fst (sink_do (memorySink sprint) c g))"
proof -
  have at: "P k (node_at g k)" if "node_change sprint c k = Merge u" for k u
    using g new_node [OF that] by (auto simp: all_entries_def node_at_def split: option.split dest: map_of_SomeD)
  show ?thesis
  proof (cases c)
    case (MergeNode ref props)
    then show ?thesis
      using g merge_node [OF MergeNode] at
      by (auto simp: sink_defs split: sum.split intro!: all_entries_put_node)
  next
    case (SetNodeProperty ref p v)
    then show ?thesis
      using g set_node [OF SetNodeProperty] at
      by (auto simp: sink_defs split: sum.split intro!: all_entries_put_node)
  next
    case (RemoveNode ref)
    then show ?thesis
      using g all_entries_drop_node [OF g] by (auto simp: sink_defs split: sum.split)
  next
    case (RemoveEdge ref)
    then show ?thesis
      using g all_entries_drop_edge [OF g] by (auto simp: sink_defs split: sum.split)
  next
    case (MergeEdge ref props)
    show ?thesis
    proof (cases "EdgeRef_key sprint ref")
      case (Inl err)
      then show ?thesis using MergeEdge g by (simp add: sink_defs)
    next
      case (Inr k)
      note ends = EdgeRef_key_Inr [OF Inr]
      obtain g1 where g1: "ensure_endpoints sprint [er_From ref, er_To ref] g = (g1, None)"
        "fst (sink_do (memorySink sprint) c g) =
          g1\<lparr>g_edges := AList.update k ((edge_at g1 k)\<lparr>eg_props := maps_Copy (eg_props (edge_at g1 k)) props\<rparr>)
             (g_edges g1)\<rparr>"
        using MergeEdge_view [OF Inr, of props g] MergeEdge by (auto simp: memorySink_def)
      have ok: "P k' \<lparr>nd_key = k', nd_props = []\<rparr>" if "k' \<in> {ek_from k, ek_to k}" for k'
        using that Inr MergeEdge by (intro new_node) auto
      have fine: "all_entries P Q g1" "{ek_from k, ek_to k} \<subseteq> fst ` set (g_nodes g1)"
        using ensure_endpoints_entries [OF g ok _ _ g1(1)] ends by blast+
      moreover have "Q k (edge_at g1 k)"
        using Inr MergeEdge by (intro all_entries_edge_at [OF fine(1)] new_edge) simp
      ultimately show ?thesis
        unfolding g1(2) using merge_edge [OF MergeEdge Inr] by (intro all_entries_put_edge)
    qed
  qed
qed

lemma graph_inv_entries:
  "graph_inv g \<longleftrightarrow> all_entries (\<lambda>k n. nd_key n = k) (\<lambda>k e. eg_key e = k) g"
  by (auto simp: graph_inv_def all_entries_def)

lemma graph_typed_entries:
  "graph_inv g \<Longrightarrow> graph_typed s g \<longleftrightarrow> all_entries (node_typed s) (edge_typed s) g"
  by (auto simp: graph_inv_def graph_typed_def all_entries_def)

lemma find_mem: "find Q xs = Some x \<Longrightarrow> x \<in> set xs \<and> Q x"
  by (metis find_Some_iff nth_mem)

lemma find_ex: "x \<in> set xs \<Longrightarrow> Q x \<Longrightarrow> \<exists>y. find Q xs = Some y"
  by (metis find_None_iff not_None_eq)

text \<open>In a valid schema the labels an edge type connects are declared.\<close>

lemma valid_edge_labels:
  assumes "Schema_Validate s = None" and "Schema_EdgeType s t = Some et"
  shows "\<exists>nt. Schema_NodeType s (et_FromLabel et) = Some nt" "\<exists>nt. Schema_NodeType s (et_ToLabel et) = Some nt"
proof -
  have "et \<in> set (sc_Edges s)"
    using assms(2) by (auto simp: Schema_EdgeType_def dest: find_mem)
  then have "et_FromLabel et \<in> nt_Label ` set (sc_Nodes s)" "et_ToLabel et \<in> nt_Label ` set (sc_Nodes s)"
    using valid_schema [OF assms(1)] by (auto simp: list_all_iff edge_type_ok_def)
  then show "\<exists>nt. Schema_NodeType s (et_FromLabel et) = Some nt" "\<exists>nt. Schema_NodeType s (et_ToLabel et) = Some nt"
    unfolding Schema_NodeType_def by (auto intro: find_ex)
qed

lemma NodeRef_key_label: "NodeRef_key sprint ref = Inr k \<Longrightarrow> nk_label k = nr_Label ref"
  by (auto simp: NodeRef_key_def split: option.splits)

lemma validateProps_None: "validateProps declared props = None \<longleftrightarrow> fst ` set props \<subseteq> pt_Name ` set declared"
  by (auto simp: validateProps_def list_all_iff)

text \<open>The lookups behind the property checks succeed.\<close>

lemma validateNodeRef_declared:
  "validateNodeRef s ref = None \<Longrightarrow> \<exists>nt. Schema_NodeType s (nr_Label ref) = Some nt \<and> nr_KeyProp ref = nt_KeyProp nt"
  by (auto simp: validateNodeRef_def split: option.splits if_splits)

lemma validateEdgeRef_declared:
  "validateEdgeRef s ref = None \<Longrightarrow> \<exists>et. Schema_EdgeType s (er_Type ref) = Some et \<and>
     nr_Label (er_From ref) = et_FromLabel et \<and> nr_Label (er_To ref) = et_ToLabel et"
  by (auto simp: validateEdgeRef_def split: option.splits if_splits)

lemma mem_call_inv: "graph_inv g \<Longrightarrow> graph_inv (fst (sink_do (memorySink sprint) c g))"
  unfolding graph_inv_entries by (rule mem_call_entries) simp_all

lemma edge_ends_declared:
  assumes "Schema_Validate s = None" and "validateEdgeRef s ref = None" and "EdgeRef_key sprint ref = Inr k"
    and "nk = ek_from k \<or> nk = ek_to k"
  shows "\<exists>nt. Schema_NodeType s (nk_label nk) = Some nt"
proof -
  obtain et where et: "Schema_EdgeType s (er_Type ref) = Some et"
    "nr_Label (er_From ref) = et_FromLabel et" "nr_Label (er_To ref) = et_ToLabel et"
    using validateEdgeRef_declared [OF assms(2)] by blast
  have "nk_label nk = et_FromLabel et \<or> nk_label nk = et_ToLabel et"
    using assms(4) et(2,3) EdgeRef_key_Inr [OF assms(3)] by (auto dest: NodeRef_key_label)
  then show ?thesis
    using valid_edge_labels [OF assms(1) et(1)] by auto
qed

lemma mem_call_typed:
  fixes c :: "('k, 'v) sink_call"
  assumes s: "Schema_Validate s = None" and a: "allowed s c"
    and g: "all_entries (node_typed s) (edge_typed s) g"
  shows "all_entries (node_typed s) (edge_typed s) (fst (sink_do (memorySink sprint) c g))"
proof (rule mem_call_entries [OF g])
  fix k u
  assume u: "node_change sprint c k = Merge u"
  then consider ref where "NodeRef_key sprint ref = Inr k" "validateNodeRef s ref = None"
    | ref ek where "EdgeRef_key sprint ref = Inr ek" "k = ek_from ek \<or> k = ek_to ek" "validateEdgeRef s ref = None"
    using a by (cases c) (auto split: if_splits sum.splits)
  then have "\<exists>nt. Schema_NodeType s (nk_label k) = Some nt"
  proof cases
    case 1
    then show ?thesis using NodeRef_key_label [OF 1(1)] validateNodeRef_declared [OF 1(2)] by auto
  next
    case 2
    then show ?thesis using edge_ends_declared [OF s 2(3,1,2)] by blast
  qed
  then show "node_typed s k \<lparr>nd_key = k, nd_props = []\<rparr>" by (simp add: node_typed_def)
next
  fix k u
  assume "edge_change sprint c k = Merge u"
  then obtain ref props where c: "c = MergeEdge ref props" and k: "EdgeRef_key sprint ref = Inr k"
    by (cases c) (auto split: if_splits sum.splits)
  with a validateEdgeRef_declared [of s ref] EdgeRef_key_Inr [OF k]
  show "edge_typed s k \<lparr>eg_key = k, eg_props = []\<rparr>"
    by (auto simp: edge_typed_def NodeRef_key_label)
next
  fix ref k and n :: "'v node" and props
  assume "c = MergeNode ref props" "NodeRef_key sprint ref = Inr k" "node_typed s k n"
  then show "node_typed s k (n\<lparr>nd_props := maps_Copy (nd_props n) props\<rparr>)"
    using a by (auto simp: node_typed_def set_maps_Copy validateNodeProps_def validateProps_None
        dest!: NodeRef_key_label)
next
  fix ref k and e :: "'v edge" and props
  assume "c = MergeEdge ref props" "EdgeRef_key sprint ref = Inr k" "edge_typed s k e"
  then show "edge_typed s k (e\<lparr>eg_props := maps_Copy (eg_props e) props\<rparr>)"
    using a by (auto simp: edge_typed_def set_maps_Copy validateEdgeProps_def validateProps_None
        dest!: EdgeRef_key_Inr)
next
  fix ref k p v and n :: "'v node"
  assume "c = SetNodeProperty ref p v" "NodeRef_key sprint ref = Inr k" "node_typed s k n"
  then show "node_typed s k (n\<lparr>nd_props := AList.update p v (nd_props n)\<rparr>)"
    using a by (auto simp: node_typed_def dom_update hasProperty_iff simp del: update.simps
        dest!: NodeRef_key_label)
qed

lemma handler_inv_typed:
  fixes ds ps :: "Schema option" and sprint and g :: "'v graphData" and sink :: "('k, 'v, 'v graphData) GraphSink"
  defines "sink \<equiv> wrapWithSchema (wrapWithSchema (memorySink sprint) ds) ps"
  assumes "graph_inv g"
  shows "graph_inv (fst (run_handler sink h g))"
    and "Schema_Validate s = None \<Longrightarrow> ds = Some s \<or> ps = Some s \<Longrightarrow> graph_typed s g \<Longrightarrow>
      graph_typed s (fst (run_handler sink h g))"
proof -
  show inv: "graph_inv (fst (run_handler sink h g))"
  proof (rule run_handler_preserves [where P = graph_inv, OF _ assms(2)])
    fix c and g :: "'v graphData"
    assume "graph_inv g"
    then show "graph_inv (fst (sink_do sink c g))"
      using wrapped_do [of sprint ds ps c g] mem_call_inv [of g sprint c] unfolding sink_def by metis
  qed
  assume s: "Schema_Validate s = None" "ds = Some s \<or> ps = Some s" "graph_typed s g"
  let ?P = "all_entries (node_typed s) (edge_typed s)"
  have "?P (fst (run_handler sink h g))"
  proof (rule run_handler_preserves [where P = ?P])
    fix c and g :: "'v graphData"
    assume "?P g"
    then show "?P (fst (sink_do sink c g))"
      using wrapped_do [of sprint ds ps c g] mem_call_typed [OF s(1), of c g sprint] s(2) unfolding sink_def by metis
  qed (use graph_typed_entries [OF assms(2)] s(3) in blast)
  then show "graph_typed s (fst (run_handler sink h g))"
    using graph_typed_entries [OF inv] by blast
qed

section \<open>Histories of a projection\<close>

text \<open>The events a projection receives one after another; an error is reported and leaves it as it was.\<close>

definition handle_all ::
  "(go_error \<Rightarrow> family) \<Rightarrow> ('k \<Rightarrow> string) \<Rightarrow> ('k, 'v) GraphProjection \<Rightarrow> event list \<Rightarrow> ('k, 'v) GraphProjection" where
  "handle_all cls sprint p evts = fold (\<lambda>evt p. fst (GraphProjection_Handle cls sprint p evt)) evts p"

text \<open>
  C17. The graph of a projection that starts empty is always well formed: whatever events it handles and
  whatever its handler does with the sink, every entry is filed once, under its own key, and edges
  connect existing nodes. With a valid schema on the projection or the driver every node has a
  declared label, every edge a declared type between the labels declared for it, and both only
  declared properties. An event is all or nothing on any graph: when the handler returns an error,
  the projection reports it and its graph is exactly what it was, and when the handler succeeds the
  graph is the one the handler left.
\<close>

theorem graph_projection_typed:
  fixes p :: "('k, 'v) GraphProjection"
  assumes "md_data (gp_driver p) = newGraphData"
  shows "graph_inv (md_data (gp_driver (handle_all cls sprint p evts))) \<and>
     (\<forall>s. Schema_Validate s = None \<and> (gp_schema p = Some s \<or> md_schema (gp_driver p) = Some s) \<longrightarrow>
        graph_typed s (md_data (gp_driver (handle_all cls sprint p evts)))) \<and>
     (\<forall>(q :: ('k, 'v) GraphProjection) evt.
        let sink = wrapWithSchema (wrapWithSchema (memorySink sprint) (md_schema (gp_driver q))) (gp_schema q);
            (g, failed) = run_handler sink (gp_handler q evt) (md_data (gp_driver q)) in
        case failed of
          Some err \<Rightarrow> GraphProjection_Handle cls sprint q evt = (q, Some (ErrWrap (cls err) ''graph.projection.handle'' err))
        | None \<Rightarrow> GraphProjection_Handle cls sprint q evt = (q\<lparr>gp_driver := (gp_driver q)\<lparr>md_data := g\<rparr>\<rparr>, None))"
proof -
  let ?graph = "\<lambda>q :: ('k, 'v) GraphProjection. md_data (gp_driver q)"
  note run = handler_inv_typed [where g = "?graph q" and sprint = sprint and ds = "md_schema (gp_driver q)"
      and ps = "gp_schema q" and h = "gp_handler q evt" for q :: "('k, 'v) GraphProjection" and evt]
  have inv: "graph_inv (?graph (fst (GraphProjection_Handle cls sprint q evt)))" if "graph_inv (?graph q)"
    for q :: "('k, 'v) GraphProjection" and evt
    using that run(1) [of q evt] by (auto simp: Handle_cases Let_def split: prod.split option.split)
  have start: "graph_inv (?graph p)" "graph_typed s (?graph p)" for s
    using assms by (simp_all add: newGraphData_def graph_inv_def graph_typed_def)
  have "graph_inv (?graph (handle_all cls sprint p evts))"
    unfolding handle_all_def using start(1) by (induction evts arbitrary: p) (simp_all add: inv)
  moreover have "graph_typed s (?graph (handle_all cls sprint p evts))"
    if s: "Schema_Validate s = None" "gp_schema p = Some s \<or> md_schema (gp_driver p) = Some s" for s
  proof -
    define ok where "ok q \<longleftrightarrow> graph_inv (?graph q) \<and> graph_typed s (?graph q) \<and>
       (gp_schema q = Some s \<or> md_schema (gp_driver q) = Some s)" for q :: "('k, 'v) GraphProjection"
    have "ok (fst (GraphProjection_Handle cls sprint q evt))" if "ok q" for q evt
      using that s(1) run(1) [of q evt] run(2) [where s = s, of q evt]
      by (auto simp: ok_def Handle_cases Let_def split: prod.split option.split)
    moreover have "ok p"
      using s(2) start by (simp add: ok_def)
    ultimately have "ok (handle_all cls sprint p evts)"
      unfolding handle_all_def by (induction evts arbitrary: p) simp_all
    then show ?thesis
      by (simp add: ok_def)
  qed
  ultimately show ?thesis
    by (auto simp: Handle_cases Let_def split: prod.split option.split)
qed

text \<open>
  Transactions that overlap lose writes. When a second transaction begins before the first
  publishes and both succeed, the graph is what the second alone would have left: the first has
  had no effect, although it reported success. (The driver is documented as safe for concurrent
  use with real atomicity.)
\<close>

theorem overlapping_tx_lost:
  assumes "tx_finish sprint d (tx_begin d) fn1 = (d1, None)"
    and "tx_finish sprint d1 (tx_begin d) fn2 = (d2, None)"
  shows "RunInTx sprint d fn2 = (d2, None)"
  using assms by (auto simp: RunInTx_def tx_finish_def split: prod.splits option.splits)

section \<open>An instance\<close>

definition user :: "string \<Rightarrow> nat NodeRef" where
  "user x = \<lparr>nr_Label = ''User'', nr_KeyProp = ''id'', nr_KeyValue = KeyString x\<rparr>"

definition follows :: "string \<Rightarrow> string \<Rightarrow> nat EdgeRef" where
  "follows x y = \<lparr>er_Type = ''FOLLOWS'', er_From = user x, er_To = user y\<rparr>"

definition user_schema :: Schema where
  "user_schema =
     \<lparr>sc_Nodes = [\<lparr>nt_Label = ''User'', nt_KeyProp = ''id'', nt_Properties = [\<lparr>pt_Name = ''name''\<rparr>]\<rparr>],
      sc_Edges = [\<lparr>et_Type = ''FOLLOWS'', et_FromLabel = ''User'', et_ToLabel = ''User'', et_Properties = []\<rparr>],
      sc_Indexes = []\<rparr>"

text \<open>
  Events of a type make their user known, under a name; those of another type write a node and then
  fail; the others let two users follow each other.
\<close>

definition user_handler :: "event \<Rightarrow> (nat, string) handler_run" where
  "user_handler evt =
     (if e_eventType evt = ''named'' then Call (MergeNode (user ''a'') [(''name'', ''A'')]) Return
      else if e_eventType evt = ''broken'' then Call (MergeNode (user ''c'') []) (\<lambda>_. Return (Some (ErrExt ''broken'')))
      else Call (MergeEdge (follows ''a'' ''b'') []) Return)"

definition user_projection :: "(nat, string) GraphProjection" where
  "user_projection = \<lparr>gp_name = ''users'', gp_driver = NewMemoryDriver [], gp_handler = user_handler,
     gp_types = [], gp_schema = Some user_schema\<rparr>"

lemma user_schema_valid: "Schema_Validate user_schema = None"
  by (simp add: Schema_Validate_None user_schema_def node_type_ok_def edge_type_ok_def props_ok_def)

lemma user_keys:
  "NodeRef_key sprint (user x) = Inr \<lparr>nk_label = ''User'', nk_keyProp = ''id'', nk_keyVal = x\<rparr>"
  "EdgeRef_key sprint (follows x y) = Inr \<lparr>ek_typ = ''FOLLOWS'',
     ek_from = \<lparr>nk_label = ''User'', nk_keyProp = ''id'', nk_keyVal = x\<rparr>,
     ek_to = \<lparr>nk_label = ''User'', nk_keyProp = ''id'', nk_keyVal = y\<rparr>\<rparr>"
  by (simp_all add: NodeRef_key_def NodeRef_validate_def EdgeRef_key_def user_def follows_def)

lemma user_follows_allowed:
  "validateEdgeRef user_schema (follows x y) = None" "validateEdgeProps user_schema (er_Type (follows x y)) [] = None"
  "er_From (follows x y) = user x" "er_To (follows x y) = user y"
  by (simp_all add: user_schema_def follows_def user_def validateEdgeRef_def validateEdgeProps_def
      validateProps_def Schema_EdgeType_def)

theorem graph_projection_typed_witness:
  "let p = handle_all (\<lambda>_. Rejection) (\<lambda>_. []) user_projection [zeroEvent\<lparr>e_eventType := ''named''\<rparr>, zeroEvent] in
   graph_inv (md_data (gp_driver p)) \<and> graph_typed user_schema (md_data (gp_driver p)) \<and>
   map (nk_keyVal \<circ> fst) (g_nodes (md_data (gp_driver p))) = [''a'', ''b''] \<and>
   GraphProjection_Handle (\<lambda>_. Rejection) (\<lambda>_. []) p (zeroEvent\<lparr>e_eventType := ''broken''\<rparr>) =
     (p, Some (ErrWrap Rejection ''graph.projection.handle'' (ErrExt ''broken'')))"
proof -
  let ?bad = "zeroEvent\<lparr>e_eventType := ''broken''\<rparr>"
  define p where "p = handle_all (\<lambda>_. Rejection) (\<lambda>_. []) user_projection [zeroEvent\<lparr>e_eventType := ''named''\<rparr>, zeroEvent]"
  have empty: "md_data (gp_driver user_projection) = newGraphData"
    by (simp add: user_projection_def NewMemoryDriver_def)
  note typed = graph_projection_typed [OF empty, of "\<lambda>_. Rejection" "\<lambda>_. []"
      "[zeroEvent\<lparr>e_eventType := ''named''\<rparr>, zeroEvent]", folded p_def]
  have nodes: "map (nk_keyVal \<circ> fst) (g_nodes (md_data (gp_driver p))) = [''a'', ''b'']"
    unfolding p_def by code_simp
  have "snd (run_handler sink (gp_handler p ?bad) g) = Some (ErrExt ''broken'')" for sink :: "(nat, string, string graphData) GraphSink" and g
  proof -
    have "gp_handler p = user_handler"
      by (simp add: p_def handle_all_def GraphProjection_Handle_def user_projection_def split: prod.split option.split)
    then show ?thesis
      by (simp add: user_handler_def split: prod.split)
  qed
  then have "GraphProjection_Handle (\<lambda>_. Rejection) (\<lambda>_. []) p ?bad =
      (p, Some (ErrWrap Rejection ''graph.projection.handle'' (ErrExt ''broken'')))"
    using conjunct2 [OF conjunct2 [OF typed], rule_format, of p ?bad] by (simp add: Let_def case_prod_beta)
  with typed nodes user_schema_valid show ?thesis
    unfolding p_def [symmetric] by (simp add: user_projection_def)
qed

theorem graph_replay_idempotent_witness:
  "\<exists>p1 p2. GraphProjection_Handle (\<lambda>_. Rejection) (\<lambda>_. []) user_projection zeroEvent = (p1, None) \<and>
     GraphProjection_Handle (\<lambda>_. Rejection) (\<lambda>_. []) p1 zeroEvent = (p2, None) \<and>
     edges_view (md_data (gp_driver p2)) = edges_view (md_data (gp_driver p1))"
proof -
  have "\<exists>p1. GraphProjection_Handle (\<lambda>_. Rejection) (\<lambda>_. []) user_projection zeroEvent = (p1, None)"
    by (simp add: Handle_cases user_projection_def NewMemoryDriver_def user_handler_def wrapWithSchema_def
        schemaSink_def zeroEvent_def sink_defs user_keys user_follows_allowed newGraphData_def)
  then show ?thesis
    using graph_replay_idempotent by blast
qed

theorem overlapping_tx_lost_witness:
  "\<exists>d1 d2. tx_finish (\<lambda>_ :: nat. []) (NewMemoryDriver []) (tx_begin (NewMemoryDriver []))
       (\<lambda>sink. gs_MergeNode sink (user ''a'') [(''name'', True)]) = (d1, None) \<and>
     tx_finish (\<lambda>_ :: nat. []) d1 (tx_begin (NewMemoryDriver []))
       (\<lambda>sink. gs_MergeNode sink (user ''b'') []) = (d2, None) \<and>
     RunInTx (\<lambda>_ :: nat. []) (NewMemoryDriver []) (\<lambda>sink. gs_MergeNode sink (user ''b'') []) = (d2, None) \<and>
     nodes_view (md_data d2) \<lparr>nk_label = ''User'', nk_keyProp = ''id'', nk_keyVal = ''a''\<rparr> = None"
proof -
  let ?d = "NewMemoryDriver [] :: bool MemoryDriver" and ?s = "\<lambda>_ :: nat. [] :: char list"
  obtain d1 where d1: "tx_finish ?s ?d (tx_begin ?d) (\<lambda>sink. gs_MergeNode sink (user ''a'') [(''name'', True)]) = (d1, None)"
    "md_schema d1 = None"
    by (simp add: tx_finish_def tx_begin_def NewMemoryDriver_def wrapWithSchema_def sink_defs user_keys)
  obtain d2 where d2: "tx_finish ?s d1 (tx_begin ?d) (\<lambda>sink. gs_MergeNode sink (user ''b'') []) = (d2, None)"
    "nodes_view (md_data d2) \<lparr>nk_label = ''User'', nk_keyProp = ''id'', nk_keyVal = ''a''\<rparr> = None"
    using d1(2)
    by (simp add: tx_finish_def tx_begin_def NewMemoryDriver_def wrapWithSchema_def sink_defs user_keys
        nodes_view_def newGraphData_def)
  show ?thesis
    using d1(1) d2 overlapping_tx_lost [OF d1(1) d2(1)] by blast
qed

text \<open>
  The key property of the endpoints of an edge is not checked: with a valid schema, merging an edge
  creates a node that merging the node itself refuses.
\<close>

definition stray :: "nat NodeRef" where
  "stray = (user ''a'')\<lparr>nr_KeyProp := ''mail''\<rparr>"

lemma endpoint_key_prop_unchecked:
  fixes sprint :: "nat \<Rightarrow> string"
  defines "sink \<equiv> schemaSink (memorySink sprint) user_schema :: (nat, string, string graphData) GraphSink"
  shows "snd (gs_MergeNode sink stray [] newGraphData) = Some (ErrFmt [sink_error ''wrong_key_prop''])"
    and "\<exists>g. gs_MergeEdge sink ((follows ''a'' ''b'')\<lparr>er_From := stray\<rparr>) [] newGraphData = (g, None) \<and>
      nodes_view g \<lparr>nk_label = ''User'', nk_keyProp = ''mail'', nk_keyVal = ''a''\<rparr> = Some Map.empty"
  by (simp_all add: sink_def schemaSink_def sink_defs validateNodeRef_def validateEdgeRef_def validateEdgeProps_def
      validateProps_def Schema_NodeType_def Schema_EdgeType_def user_schema_def stray_def follows_def user_def
      NodeRef_key_def NodeRef_validate_def EdgeRef_key_def newGraphData_def nodes_view_def)

end
