(* ===== verification/GraphSearch.thy ===== *)
theory GraphSearch
  imports GraphProjections
begin

text \<open>
  Reading the in-memory graph (\<open>src/graph/memory_read.go\<close>): queries, breadth-first traversal,
  neighbours and shortest paths. A range over a Go map visits its entries in an arbitrary order; a
  rank of the entries stands for it, for the inner ranges one that depends on the node being
  visited, which a search visits once. All properties hold for every rank.
\<close>

record 'v Pattern =
  pa_Label :: string
  pa_Where :: "('v props \<Rightarrow> bool) option"

record ('k, 'v) NodeView =
  nv_Ref :: "'k NodeRef"
  nv_Props :: "'v props"

record ('k, 'v) EdgeView =
  ev_Ref :: "'k EdgeRef"
  ev_Props :: "'v props"

definition ErrPathNotFound :: go_error where
  "ErrPathNotFound = ErrNew Rejection ''graph.read.path_not_found''"

definition range_map :: "('a \<Rightarrow> nat) \<Rightarrow> ('a \<times> 'b) list \<Rightarrow> ('a \<times> 'b) list" where
  "range_map rank m = sort_key (\<lambda>(k, _). rank k) m"

section \<open>Queries and neighbours\<close>

fun query_nodes :: "'v Pattern \<Rightarrow> (nodeKey \<times> 'v node) list \<Rightarrow> ('k, 'v) NodeView list" where
  "query_nodes p [] = []"
| "query_nodes p ((k, n) # ns) =
     (if pa_Label p \<noteq> [] \<and> nk_label k \<noteq> pa_Label p then query_nodes p ns
      else if (case pa_Where p of None \<Rightarrow> False | Some f \<Rightarrow> \<not> f (nd_props n)) then query_nodes p ns
      else \<lparr>nv_Ref = keyToRef k, nv_Props = nd_props n\<rparr> # query_nodes p ns)"

definition MemoryDriver_Query ::
  "(nodeKey \<Rightarrow> nat) \<Rightarrow> 'v MemoryDriver \<Rightarrow> 'v Pattern \<Rightarrow> ('k, 'v) NodeView list" where
  "MemoryDriver_Query rank d p = query_nodes p (range_map rank (g_nodes (MemoryDriver_Snapshot d)))"

definition other_end :: "nodeKey \<Rightarrow> edgeKey \<Rightarrow> nodeKey option" where
  "other_end center ek =
     (if ek_from ek = center then Some (ek_to ek)
      else if ek_to ek = center then Some (ek_from ek)
      else None)"

definition view_of :: "'v graphData \<Rightarrow> nodeKey \<Rightarrow> ('k, 'v) NodeView list" where
  "view_of g k =
     (case map_of (g_nodes g) k of
        Some n \<Rightarrow> [\<lparr>nv_Ref = keyToRef k, nv_Props = nd_props n\<rparr>]
      | None \<Rightarrow> [])"

fun neighbor_nodes ::
  "'v graphData \<Rightarrow> nodeKey \<Rightarrow> edgeKey list \<Rightarrow> nodeKey set \<Rightarrow> ('k, 'v) NodeView list" where
  "neighbor_nodes g center [] neighborSet = []"
| "neighbor_nodes g center (ek # eks) neighborSet =
     (case other_end center ek of
        None \<Rightarrow> neighbor_nodes g center eks neighborSet
      | Some neighbor \<Rightarrow>
          if neighbor \<in> neighborSet then neighbor_nodes g center eks neighborSet
          else view_of g neighbor @ neighbor_nodes g center eks (insert neighbor neighborSet))"

definition Neighbors ::
  "('k \<Rightarrow> string) \<Rightarrow> (edgeKey \<Rightarrow> nat) \<Rightarrow> (edgeKey \<Rightarrow> nat) \<Rightarrow> 'v MemoryDriver \<Rightarrow> 'k NodeRef \<Rightarrow>
   ('k, 'v) NodeView list \<times> ('k, 'v) EdgeView list" where
  "Neighbors sprint rank1 rank2 d ref =
     (let data = MemoryDriver_Snapshot d in
      case NodeRef_key sprint ref of
        Inl _ \<Rightarrow> ([], [])
      | Inr centerKey \<Rightarrow>
          if map_of (g_nodes data) centerKey = None then ([], [])
          else
            (neighbor_nodes data centerKey (map fst (range_map rank1 (g_edges data))) {},
             map (\<lambda>(ek, e). \<lparr>ev_Ref = edgeKeyToRef ek, ev_Props = eg_props e\<rparr>)
               (filter (\<lambda>(ek, _). ek_from ek = centerKey \<or> ek_to ek = centerKey)
                 (range_map rank2 (g_edges data)))))"

section \<open>Traversal\<close>

text \<open>The range over the edges while \<open>current\<close> is visited.\<close>

fun visit_edges ::
  "string \<Rightarrow> nodeKey \<Rightarrow> edgeKey list \<Rightarrow> nodeKey set \<Rightarrow> nodeKey set \<times> nodeKey list" where
  "visit_edges via current [] visited = (visited, [])"
| "visit_edges via current (ek # eks) visited =
     (if ek_typ ek \<noteq> via then visit_edges via current eks visited
      else if ek_from ek \<noteq> current then visit_edges via current eks visited
      else if ek_to ek \<in> visited then visit_edges via current eks visited
      else case visit_edges via current eks (insert (ek_to ek) visited) of
        (visited', found) \<Rightarrow> (visited', ek_to ek # found))"

fun visit_queue ::
  "(nodeKey \<Rightarrow> edgeKey \<Rightarrow> nat) \<Rightarrow> edgeKey list \<Rightarrow> string \<Rightarrow> nodeKey list \<Rightarrow> nodeKey set \<Rightarrow>
   nodeKey set \<times> nodeKey list" where
  "visit_queue rank edges via [] visited = (visited, [])"
| "visit_queue rank edges via (current # queue) visited =
     (case visit_edges via current (sort_key (rank current) edges) visited of
        (visited1, found1) \<Rightarrow>
          (case visit_queue rank edges via queue visited1 of
             (visited2, found2) \<Rightarrow> (visited2, found1 @ found2)))"

text \<open>The successors of a node along edges of a type.\<close>

definition via_rel :: "string \<Rightarrow> edgeKey list \<Rightarrow> (nodeKey \<times> nodeKey) set" where
  "via_rel via edges = {(ek_from ek, ek_to ek) | ek. ek \<in> set edges \<and> ek_typ ek = via}"

lemma via_rel_Cons:
  "via_rel via (ek # eks) `` {k} =
     (if ek_typ ek = via \<and> ek_from ek = k then insert (ek_to ek) (via_rel via eks `` {k}) else via_rel via eks `` {k})"
  by (auto simp: via_rel_def)

lemma visit_edges_visited:
  "visit_edges via current eks visited = (visited', found) \<Longrightarrow>
   visited' = visited \<union> set found \<and> distinct found \<and> set found = via_rel via eks `` {current} - visited"
proof (induction eks arbitrary: visited visited' found)
  case (Cons ek eks)
  show ?case
  proof (cases "ek_typ ek = via \<and> ek_from ek = current \<and> ek_to ek \<notin> visited")
    case True
    then obtain found' where rec: "visit_edges via current eks (insert (ek_to ek) visited) = (visited', found')"
      and found: "found = ek_to ek # found'"
      using Cons.prems by (auto split: prod.splits)
    from Cons.IH [OF rec] True found show ?thesis by (auto simp: via_rel_Cons)
  next
    case False
    then have "visit_edges via current eks visited = (visited', found)"
      using Cons.prems by (auto split: if_splits)
    from Cons.IH [OF this] False show ?thesis by (auto simp: via_rel_Cons)
  qed
qed (simp add: via_rel_def)

lemma via_rel_sort [simp]: "via_rel via (sort_key f edges) = via_rel via edges"
  by (simp add: via_rel_def)

lemma visit_queue_visited:
  "visit_queue rank edges via queue visited = (visited', found) \<Longrightarrow>
   visited' = visited \<union> set found \<and> distinct found \<and> set found = via_rel via edges `` set queue - visited"
proof (induction queue arbitrary: visited visited' found)
  case (Cons current queue)
  obtain v1 f1 v2 f2 where run: "visit_edges via current (sort_key (rank current) edges) visited = (v1, f1)"
    "visit_queue rank edges via queue v1 = (v2, f2)" "visited' = v2" "found = f1 @ f2"
    using Cons.prems by (auto split: prod.splits)
  have 1: "v1 = visited \<union> set f1" "distinct f1" "set f1 = via_rel via edges `` {current} - visited"
    using visit_edges_visited [OF run(1)] by simp_all
  have 2: "v2 = v1 \<union> set f2" "distinct f2" "set f2 = via_rel via edges `` set queue - v1"
    using Cons.IH [OF run(2)] by simp_all
  have "via_rel via edges `` set (current # queue) =
      via_rel via edges `` {current} \<union> via_rel via edges `` set queue" by auto
  moreover have "set f1 \<inter> set f2 = {}" using 1(1) 2(3) by blast
  ultimately show ?case using run(3,4) 1 2 by auto
qed auto

lemma unvisited_decreases:
  assumes "visit_queue rank edges via queue visited = (visited', found)" and "queue \<noteq> []"
  shows "card (ek_to ` set edges - visited') < card (ek_to ` set edges - visited) \<or>
    card (ek_to ` set edges - visited') = card (ek_to ` set edges - visited) \<and> length found < length queue"
proof (cases "found = []")
  case True
  then show ?thesis using visit_queue_visited [OF assms(1)] assms(2) by simp
next
  case False
  have v: "visited' = visited \<union> set found" "set found = via_rel via edges `` set queue - visited"
    using visit_queue_visited [OF assms(1)] by blast+
  have "set found \<subseteq> ek_to ` set edges - visited" using v(2) by (auto simp: via_rel_def)
  then have "ek_to ` set edges - visited' \<subset> ek_to ` set edges - visited"
    using v(1) hd_in_set [OF False] by blast
  then show ?thesis by (simp add: psubset_card_mono)
qed

function traverse_loop ::
  "(nodeKey \<Rightarrow> edgeKey \<Rightarrow> nat) \<Rightarrow> edgeKey list \<Rightarrow> string \<Rightarrow> int \<Rightarrow> int \<Rightarrow> nodeKey list \<Rightarrow> nodeKey set \<Rightarrow>
   nodeKey list" where
  "traverse_loop rank edges via maxDepth depth queue visited =
     (if queue \<noteq> [] \<and> (maxDepth < 0 \<or> depth \<le> maxDepth) then
        (case visit_queue rank edges via queue visited of
           (visited', found) \<Rightarrow>
             found @ traverse_loop rank edges via maxDepth (depth + 1) found visited')
      else [])"
  by pat_completeness auto
termination
  by (relation "measures [\<lambda>(_, edges, _, _, _, _, visited). card (ek_to ` set edges - visited),
    \<lambda>(_, _, _, _, _, queue, _). length queue]") (use unvisited_decreases in \<open>auto dest!: sym\<close>)

declare traverse_loop.simps [simp del]

definition Traverse ::
  "('k \<Rightarrow> string) \<Rightarrow> (nodeKey \<Rightarrow> edgeKey \<Rightarrow> nat) \<Rightarrow> 'v MemoryDriver \<Rightarrow> 'k NodeRef \<Rightarrow> string \<Rightarrow> int \<Rightarrow>
   ('k, 'v) NodeView list" where
  "Traverse sprint rank d ref via maxDepth =
     (let data = MemoryDriver_Snapshot d in
      case NodeRef_key sprint ref of
        Inl _ \<Rightarrow> []
      | Inr fromKey \<Rightarrow>
          if map_of (g_nodes data) fromKey = None then []
          else concat (map (view_of data)
                 (traverse_loop rank (map fst (g_edges data)) via maxDepth 0 [fromKey] {fromKey})))"

section \<open>Distances\<close>

text \<open>The nodes within \<open>n\<close> steps of a node.\<close>

primrec within :: "('a \<times> 'a) set \<Rightarrow> 'a \<Rightarrow> nat \<Rightarrow> 'a set" where
  "within E x 0 = {x}"
| "within E x (Suc n) = within E x n \<union> E `` within E x n"

lemma within_mono: "m \<le> n \<Longrightarrow> within E x m \<subseteq> within E x n"
  by (induction n) (auto simp: le_Suc_eq)

lemma within_self [simp]: "x \<in> within E x n"
  using within_mono [of 0 n E x] by simp

lemma within_rtrancl: "within E x n \<subseteq> E\<^sup>* `` {x}"
  by (induction n) (auto intro: rtrancl_into_rtrancl)

lemma rtrancl_within: "E\<^sup>* `` {x} = (\<Union>n. within E x n)"
proof
  show "E\<^sup>* `` {x} \<subseteq> (\<Union>n. within E x n)"
  proof
    fix y
    assume "y \<in> E\<^sup>* `` {x}"
    then have "(x, y) \<in> E\<^sup>*" by simp
    then show "y \<in> (\<Union>n. within E x n)"
    proof (induction rule: rtrancl_induct)
      case (step y z)
      then obtain n where "y \<in> within E x n" by blast
      with step(2) have "z \<in> within E x (Suc n)" by auto
      then show ?case by blast
    qed (auto intro: exI [of _ 0])
  qed
qed (rule UN_least, rule within_rtrancl)

lemma within_closed:
  assumes "E `` within E x n \<subseteq> within E x n"
  shows "within E x n = E\<^sup>* `` {x}"
proof -
  have "within E x m \<subseteq> within E x n" for m
    using assms by (induction m) auto
  then show ?thesis by (auto simp: rtrancl_within)
qed

text \<open>The nodes first reached in step \<open>n\<close>.\<close>

fun ring_at :: "('a \<times> 'a) set \<Rightarrow> 'a \<Rightarrow> nat \<Rightarrow> 'a set" where
  "ring_at E x 0 = {x}"
| "ring_at E x (Suc n) = within E x (Suc n) - within E x n"

lemma within_Suc_ring: "within E x (Suc n) = within E x n \<union> E `` ring_at E x n"
proof (cases n)
  case (Suc m)
  have "E `` within E x m \<subseteq> within E x n" by (auto simp: Suc)
  moreover have "within E x n = within E x m \<union> ring_at E x n" by (auto simp: Suc)
  ultimately show ?thesis by auto
qed simp

text \<open>Nodes in the order of a breadth-first search: whatever is closer comes first.\<close>

definition closer_first :: "('a \<times> 'a) set \<Rightarrow> 'a \<Rightarrow> 'a list \<Rightarrow> bool" where
  "closer_first E x ks \<longleftrightarrow> sorted_wrt (\<lambda>a b. \<forall>n. b \<in> within E x n \<longrightarrow> a \<in> within E x n) ks"

lemma closer_first_ring:
  assumes "set found = ring_at E x (Suc n)" and "set rest \<inter> within E x (Suc n) = {}" and "closer_first E x rest"
  shows "closer_first E x (found @ rest)"
proof -
  have near: "a \<in> within E x m" if "a \<in> set found" "b \<in> set found \<union> set rest" "b \<in> within E x m" for a b m
  proof -
    have "b \<notin> within E x n" using that(2) assms(1,2) within_mono [of n "Suc n" E x] by auto
    then have "\<not> m \<le> n" using that(3) within_mono [of m n E x] by blast
    then have "within E x (Suc n) \<subseteq> within E x m" by (intro within_mono) simp
    then show ?thesis using that(1) assms(1) by auto
  qed
  have "sorted_wrt (\<lambda>a b. \<forall>m. b \<in> within E x m \<longrightarrow> a \<in> within E x m) found"
    by (rule sorted_wrt_mono_rel [of _ "\<lambda>_ _. True"]) (use near in \<open>auto simp: sorted_wrt_iff_nth_less\<close>)
  with near assms(3) show ?thesis unfolding closer_first_def sorted_wrt_append by blast
qed

lemma traverse_levels:
  assumes "visited = within E x n" and "set queue = ring_at E x n" and "E = via_rel via edges"
    and "depth = int n" and "maxDepth < 0 \<or> int n \<le> maxDepth + 1"
  shows "set (traverse_loop rank edges via maxDepth depth queue visited) =
      (if maxDepth < 0 then E\<^sup>* `` {x} else within E x (nat (maxDepth + 1))) - within E x n \<and>
    distinct (traverse_loop rank edges via maxDepth depth queue visited) \<and>
    closer_first E x (traverse_loop rank edges via maxDepth depth queue visited)"
  using assms
proof (induction rank edges via maxDepth depth queue visited arbitrary: n rule: traverse_loop.induct)
  case (1 rank edges via maxDepth depth queue visited)
  let ?goal = "if maxDepth < 0 then E\<^sup>* `` {x} else within E x (nat (maxDepth + 1))"
  show ?case
  proof (cases "queue \<noteq> [] \<and> (maxDepth < 0 \<or> depth \<le> maxDepth)")
    case False
    have "?goal \<subseteq> within E x n"
    proof (cases "queue = []")
      case True
      then have "E `` within E x n \<subseteq> within E x n"
        using within_Suc_ring [of E x n] "1.prems"(2) by auto
      then have "within E x n = E\<^sup>* `` {x}" by (rule within_closed)
      then show ?thesis using within_rtrancl [of E x] by auto
    next
      case False
      then have "nat (maxDepth + 1) = n" "\<not> maxDepth < 0"
        using \<open>\<not> (queue \<noteq> [] \<and> _)\<close> "1.prems"(4,5) by auto
      then show ?thesis by simp
    qed
    moreover have "traverse_loop rank edges via maxDepth depth queue visited = []"
      using False by (subst traverse_loop.simps) (simp only: if_False)
    ultimately show ?thesis by (auto simp: closer_first_def)
  next
    case True
    obtain visited' found where vq: "visit_queue rank edges via queue visited = (visited', found)"
      by (metis prod.exhaust)
    let ?rest = "traverse_loop rank edges via maxDepth (depth + 1) found visited'"
    have loop: "traverse_loop rank edges via maxDepth depth queue visited = found @ ?rest"
      using True vq by (subst traverse_loop.simps) simp
    have v: "visited' = visited \<union> set found" "distinct found" "set found = E `` set queue - visited"
      using visit_queue_visited [OF vq] "1.prems"(3) by simp_all
    have visited': "visited' = within E x (Suc n)"
      using v(1,3) "1.prems"(1,2) within_Suc_ring [of E x n] by auto
    have found: "set found = ring_at E x (Suc n)"
      using v(3) "1.prems"(1,2) within_Suc_ring [of E x n] by auto
    have "maxDepth < 0 \<or> int (Suc n) \<le> maxDepth + 1"
      using True "1.prems"(4) by auto
    from "1.IH" [OF True vq [symmetric] visited' found "1.prems"(3) _ this]
    have IH: "set ?rest = ?goal - within E x (Suc n)" "distinct ?rest" "closer_first E x ?rest"
      using "1.prems"(4) by auto
    have "Suc n \<le> nat (maxDepth + 1)" if "\<not> maxDepth < 0"
      using that True "1.prems"(4) by linarith
    then have "within E x (Suc n) \<subseteq> ?goal"
      using within_mono [of "Suc n" "nat (maxDepth + 1)" E x] within_rtrancl [of E x "Suc n"] by presburger
    then have "set (found @ ?rest) = ?goal - within E x n"
      using IH(1) found within_mono [of n "Suc n" E x] by auto
    moreover have "distinct (found @ ?rest)"
      using v(2) IH(1,2) found by auto
    moreover have "closer_first E x (found @ ?rest)"
      by (rule closer_first_ring [OF found _ IH(3)]) (use IH(1) in auto)
    ultimately show ?thesis unfolding loop by blast
  qed
qed

lemma concat_views: "\<forall>y \<in> set ks. view y = [f y] \<Longrightarrow> concat (map view ks) = map f ks"
  by (induction ks) auto

text \<open>
  \<open>Traverse\<close> is a breadth-first traversal. From an existing node it returns the views of
  exactly the other nodes that can be reached along edges of the given type in at most
  \<open>maxDepth + 1\<close> steps, or in any number of steps when \<open>maxDepth\<close> is negative, each once, and what
  is closer comes first, whatever order the maps are iterated in; from a missing node it
  returns nothing.
\<close>

theorem Traverse_correct:
  fixes ref :: "'k NodeRef" and d :: "'v MemoryDriver" and via :: string
  assumes g: "graph_inv (md_data d)" and k: "NodeRef_key sprint ref = Inr k"
  defines "E \<equiv> via_rel via (map fst (g_edges (md_data d)))"
  shows "if k \<in> fst ` set (g_nodes (md_data d))
    then \<exists>ks. Traverse sprint rank d ref via maxDepth =
          map (\<lambda>k. \<lparr>nv_Ref = keyToRef k, nv_Props = nd_props (node_at (md_data d) k)\<rparr>) ks \<and>
        set ks = (if maxDepth < 0 then E\<^sup>* `` {k} else within E k (nat (maxDepth + 1))) - {k} \<and>
        distinct ks \<and> closer_first E k ks
    else Traverse sprint rank d ref via maxDepth = []"
proof (cases "k \<in> fst ` set (g_nodes (md_data d))")
  case True
  let ?ks = "traverse_loop rank (map fst (g_edges (md_data d))) via maxDepth 0 [k] {k}"
  have ks: "set ?ks = (if maxDepth < 0 then E\<^sup>* `` {k} else within E k (nat (maxDepth + 1))) - within E k 0 \<and>
      distinct ?ks \<and> closer_first E k ?ks"
    by (rule traverse_levels) (auto simp: E_def)
  have "y \<in> fst ` set (g_nodes (md_data d))" if "y \<in> set ?ks" for y
  proof -
    have "y \<in> E\<^sup>* `` {k}" "y \<noteq> k" using that ks within_rtrancl [of E k] by (auto split: if_splits)
    then obtain z where "(z, y) \<in> E" by (auto elim: rtranclE)
    then show ?thesis using g by (auto simp: E_def via_rel_def graph_inv_def)
  qed
  moreover define view where "view y = (\<lparr>nv_Ref = keyToRef y, nv_Props = nd_props (node_at (md_data d) y)\<rparr>
      :: ('k, 'v) NodeView)" for y
  ultimately have "\<forall>y \<in> set ?ks. view_of (md_data d) y = [view y]"
    by (fastforce simp: view_of_def node_at_def map_of_eq_None_iff split: option.split)
  then have "concat (map (view_of (md_data d)) ?ks) = map view ?ks"
    by (rule concat_views)
  then have "Traverse sprint rank d ref via maxDepth = map view ?ks"
    using True k by (simp add: Traverse_def MemoryDriver_Snapshot_def map_of_eq_None_iff)
  then show ?thesis
    using True ks unfolding view_def [abs_def] by auto
next
  case False
  then show ?thesis
    using k by (simp add: Traverse_def MemoryDriver_Snapshot_def map_of_eq_None_iff)
qed

section \<open>Shortest paths\<close>

text \<open>The range over the edges while \<open>current\<close> is taken from the queue.\<close>

fun expand_edges ::
  "nodeKey \<Rightarrow> edgeKey list \<Rightarrow> (nodeKey \<rightharpoonup> nodeKey) \<Rightarrow> (nodeKey \<rightharpoonup> nodeKey) \<times> nodeKey list" where
  "expand_edges current [] parent = (parent, [])"
| "expand_edges current (ek # eks) parent =
     (case other_end current ek of
        None \<Rightarrow> expand_edges current eks parent
      | Some neighbor \<Rightarrow>
          if parent neighbor \<noteq> None then expand_edges current eks parent
          else case expand_edges current eks (parent(neighbor \<mapsto> current)) of
            (parent', found) \<Rightarrow> (parent', neighbor # found))"

definition adjacent :: "edgeKey list \<Rightarrow> (nodeKey \<times> nodeKey) set" where
  "adjacent edges = {(a, b). \<exists>ek \<in> set edges. other_end a ek = Some b}"

lemma adjacent_Cons:
  "adjacent (ek # eks) `` {k} = (case other_end k ek of None \<Rightarrow> {} | Some b \<Rightarrow> {b}) \<union> adjacent eks `` {k}"
  by (auto simp: adjacent_def split: option.split)

lemma adjacent_sort [simp]: "adjacent (sort_key f edges) = adjacent edges"
  by (simp add: adjacent_def)

lemma expand_edges_parent:
  "expand_edges current eks parent = (parent', found) \<Longrightarrow>
   distinct found \<and> set found = adjacent eks `` {current} - dom parent \<and>
   parent' = (\<lambda>k. if k \<in> set found then Some current else parent k)"
proof (induction eks arbitrary: parent parent' found)
  case (Cons ek eks)
  show ?case
  proof (cases "\<exists>nb. other_end current ek = Some nb \<and> parent nb = None")
    case True
    then obtain nb where nb: "other_end current ek = Some nb" "parent nb = None" by blast
    then obtain found' where rec: "expand_edges current eks (parent(nb \<mapsto> current)) = (parent', found')"
      and found: "found = nb # found'"
      using Cons.prems by (auto split: prod.splits)
    have "distinct found'" "set found' = adjacent eks `` {current} - insert nb (dom parent)"
      "parent' = (\<lambda>k. if k \<in> set found' then Some current else (parent(nb \<mapsto> current)) k)"
      using Cons.IH [OF rec] unfolding dom_fun_upd by auto
    with nb found show ?thesis by (auto simp: adjacent_Cons)
  next
    case False
    then have "expand_edges current eks parent = (parent', found)"
      using Cons.prems by (auto split: option.splits)
    from Cons.IH [OF this] False show ?thesis by (auto simp: adjacent_Cons split: option.split)
  qed
qed (simp add: adjacent_def fun_eq_iff)

lemma finite_adjacent: "finite (adjacent edges)"
proof (rule finite_subset)
  show "adjacent edges \<subseteq> (\<lambda>ek. (ek_from ek, ek_to ek)) ` set edges \<union> (\<lambda>ek. (ek_to ek, ek_from ek)) ` set edges"
    by (auto simp: adjacent_def other_end_def split: if_splits)
qed simp

lemma undiscovered_decreases:
  assumes "expand_edges current (sort_key f edges) parent = (parent', found)"
  shows "card (snd ` adjacent edges - dom parent') < card (snd ` adjacent edges - dom parent) \<or>
    card (snd ` adjacent edges - dom parent') = card (snd ` adjacent edges - dom parent) \<and> found = []"
proof (cases "found = []")
  case True
  then show ?thesis using expand_edges_parent [OF assms] by simp
next
  case False
  have found: "set found = adjacent edges `` {current} - dom parent"
    "parent' = (\<lambda>k. if k \<in> set found then Some current else parent k)"
    using expand_edges_parent [OF assms] by simp_all
  have "set found \<subseteq> snd ` adjacent edges - dom parent" using found(1) by force
  moreover have "dom parent' = dom parent \<union> set found" unfolding found(2) by auto
  ultimately have "snd ` adjacent edges - dom parent' \<subset> snd ` adjacent edges - dom parent"
    using hd_in_set [OF False] by blast
  then show ?thesis by (simp add: psubset_card_mono finite_adjacent)
qed

text \<open>The search; the result is the parent map when the target is taken from the queue.\<close>

function sp_loop ::
  "(nodeKey \<Rightarrow> edgeKey \<Rightarrow> nat) \<Rightarrow> edgeKey list \<Rightarrow> nodeKey \<Rightarrow> (nodeKey \<rightharpoonup> nodeKey) \<Rightarrow> nodeKey list \<Rightarrow>
   (nodeKey \<rightharpoonup> nodeKey) option" where
  "sp_loop rank edges target parent [] = None"
| "sp_loop rank edges target parent (current # queue) =
     (if current = target then Some parent
      else case expand_edges current (sort_key (rank current) edges) parent of
        (parent', found) \<Rightarrow> sp_loop rank edges target parent' (queue @ found))"
  by pat_completeness auto
termination
proof (relation "measures [\<lambda>(_, edges, _, parent, _). card (snd ` adjacent edges - dom parent),
    \<lambda>(_, _, _, _, queue). length queue]", goal_cases)
  case (2 rank edges target parent current queue parent' found)
  then have "expand_edges current (sort_key (rank current) edges) parent = (parent', found)" by simp
  from undiscovered_decreases [OF this] show ?case by auto
qed simp

text \<open>The walk back along the parents; a missing entry reads as the zero key.\<close>

definition zero_nodeKey :: nodeKey where
  "zero_nodeKey = \<lparr>nk_label = [], nk_keyProp = [], nk_keyVal = []\<rparr>"

partial_function (option) reconstruct_loop ::
  "(nodeKey \<rightharpoonup> nodeKey) \<Rightarrow> nodeKey \<Rightarrow> nodeKey list \<Rightarrow> nodeKey list option" where
  "reconstruct_loop parent k path =
     (let p = (case parent k of Some p \<Rightarrow> p | None \<Rightarrow> zero_nodeKey) in
      if k = p then Some (k # path) else reconstruct_loop parent p (k # path))"

definition reconstructPath :: "(nodeKey \<rightharpoonup> nodeKey) \<Rightarrow> nodeKey \<Rightarrow> 'k NodeRef list option" where
  "reconstructPath parent last_key = map_option (map keyToRef) (reconstruct_loop parent last_key [])"

definition ShortestPath ::
  "('k \<Rightarrow> string) \<Rightarrow> (nodeKey \<Rightarrow> edgeKey \<Rightarrow> nat) \<Rightarrow> 'v MemoryDriver \<Rightarrow> 'k NodeRef \<Rightarrow> 'k NodeRef \<Rightarrow>
   'k NodeRef list outcome option" where
  "ShortestPath sprint rank d start target =
     (let data = MemoryDriver_Snapshot d in
      case NodeRef_key sprint start of
        Inl err \<Rightarrow> Some (Fail (ErrWrap Rejection ''graph.shortest_path_from'' err))
      | Inr fromKey \<Rightarrow>
          (case NodeRef_key sprint target of
             Inl err \<Rightarrow> Some (Fail (ErrWrap Rejection ''graph.shortest_path_to'' err))
           | Inr targetKey \<Rightarrow>
               if fromKey = targetKey then Some (Ok [start])
               else if map_of (g_nodes data) fromKey = None then Some (Fail ErrPathNotFound)
               else if map_of (g_nodes data) targetKey = None then Some (Fail ErrPathNotFound)
               else
                 (case sp_loop rank (map fst (g_edges data)) targetKey [fromKey \<mapsto> fromKey] [fromKey] of
                    None \<Rightarrow> Some (Fail ErrPathNotFound)
                  | Some parent \<Rightarrow> map_option Ok (reconstructPath parent targetKey))))"

text \<open>The distance of a node that can be reached.\<close>

definition hops :: "('a \<times> 'a) set \<Rightarrow> 'a \<Rightarrow> 'a \<Rightarrow> nat" where
  "hops E x y = (LEAST n. y \<in> within E x n)"

lemma hops_within: "y \<in> E\<^sup>* `` {x} \<Longrightarrow> y \<in> within E x (hops E x y)"
  unfolding hops_def rtrancl_within by (auto intro: LeastI)

lemma hops_le: "y \<in> within E x n \<Longrightarrow> hops E x y \<le> n"
  unfolding hops_def by (rule Least_le)

lemma hops_self [simp]: "hops E x x = 0"
  using hops_le [of x E x 0] by simp

lemma hops_step: "(x, y) \<in> E\<^sup>* \<Longrightarrow> (y, z) \<in> E \<Longrightarrow> hops E x z \<le> Suc (hops E x y)"
  using hops_within [of y E x] by (intro hops_le) auto

lemma hops_pred:
  assumes "(x, y) \<in> E\<^sup>*" and "y \<noteq> x"
  shows "\<exists>z. (x, z) \<in> E\<^sup>* \<and> (z, y) \<in> E \<and> hops E x y = Suc (hops E x z)"
proof -
  have y: "y \<in> within E x (hops E x y)" using hops_within assms(1) by auto
  then obtain n where n: "hops E x y = Suc n"
    using assms(2) by (cases "hops E x y") auto
  have "y \<notin> within E x n" using hops_le [of y E x n] n by auto
  then obtain z where z: "z \<in> within E x n" "(z, y) \<in> E" using y n by auto
  have r: "(x, z) \<in> E\<^sup>*" using within_rtrancl [of E x n] z(1) by auto
  have "hops E x z = n"
    using hops_le [OF z(1)] hops_step [OF r z(2)] n by simp
  then show ?thesis using r z(2) n by auto
qed

text \<open>A path is a non-empty list of nodes, each adjacent to the next.\<close>

definition is_path :: "('a \<times> 'a) set \<Rightarrow> 'a \<Rightarrow> 'a list \<Rightarrow> 'a \<Rightarrow> bool" where
  "is_path E x ks y \<longleftrightarrow> ks \<noteq> [] \<and> hd ks = x \<and> last ks = y \<and> successively (\<lambda>a b. (a, b) \<in> E) ks"

lemma is_path_snoc:
  "is_path E x ks y \<Longrightarrow> (y, z) \<in> E \<Longrightarrow> is_path E x (ks @ [z]) z"
  by (auto simp: is_path_def successively_append_iff)

lemma is_path_within: "is_path E x ks y \<Longrightarrow> y \<in> within E x (length ks - 1)"
proof (induction ks arbitrary: y rule: rev_induct)
  case (snoc z ks)
  show ?case
  proof (cases "ks = []")
    case False
    then have "is_path E x ks (last ks)" "(last ks, y) \<in> E"
      using snoc.prems by (auto simp: is_path_def successively_append_iff)
    with snoc.IH [of "last ks"] False show ?thesis by (cases ks) auto
  qed (use snoc.prems in \<open>auto simp: is_path_def\<close>)
qed (simp add: is_path_def)

lemma path_length: "is_path E x ks y \<Longrightarrow> Suc (hops E x y) \<le> length ks"
  using is_path_within [THEN hops_le, of E x ks y] by (cases ks) (auto simp: is_path_def)

lemma path_reach: "is_path E x ks y \<Longrightarrow> (x, y) \<in> E\<^sup>*"
  using is_path_within [of E x ks y] within_rtrancl [of E x] by blast

text \<open>
  What the search keeps. The discovered nodes are the domain of the parent map; a discovered node
  other than the start has a discovered parent one step closer; nodes taken from the queue have
  all neighbours discovered and are not the target; the queue is ordered by distance and spans
  at most two distances.
\<close>

definition search_inv ::
  "('a \<times> 'a) set \<Rightarrow> 'a \<Rightarrow> 'a \<Rightarrow> ('a \<rightharpoonup> 'a) \<Rightarrow> 'a list \<Rightarrow> bool" where
  "search_inv E x t parent queue \<longleftrightarrow>
     parent x = Some x \<and> set queue \<subseteq> dom parent \<and>
     (\<forall>k \<in> dom parent. (x, k) \<in> E\<^sup>*) \<and>
     (\<forall>k p. parent k = Some p \<longrightarrow> k \<noteq> x \<longrightarrow> p \<in> dom parent \<and> (p, k) \<in> E \<and> hops E x k = Suc (hops E x p)) \<and>
     (\<forall>k \<in> dom parent - set queue. E `` {k} \<subseteq> dom parent \<and> k \<noteq> t) \<and>
     sorted (map (hops E x) queue) \<and>
     (\<forall>a \<in> set queue. \<forall>b \<in> set queue. hops E x a \<le> Suc (hops E x b))"

lemma search_invD:
  assumes "search_inv E x t parent queue"
  shows "parent x = Some x" "set queue \<subseteq> dom parent" "\<And>k. k \<in> dom parent \<Longrightarrow> (x, k) \<in> E\<^sup>*"
    "\<And>k p. parent k = Some p \<Longrightarrow> k \<noteq> x \<Longrightarrow> p \<in> dom parent \<and> (p, k) \<in> E \<and> hops E x k = Suc (hops E x p)"
    "\<And>k. k \<in> dom parent \<Longrightarrow> k \<notin> set queue \<Longrightarrow> E `` {k} \<subseteq> dom parent \<and> k \<noteq> t"
    "sorted (map (hops E x) queue)"
    "\<And>a b. a \<in> set queue \<Longrightarrow> b \<in> set queue \<Longrightarrow> hops E x a \<le> Suc (hops E x b)"
  using assms unfolding search_inv_def by blast+

text \<open>A node not yet discovered is further away than some node in the queue.\<close>

lemma undiscovered_far:
  assumes I: "search_inv E x t parent queue" and "(x, y) \<in> E\<^sup>*" and "y \<notin> dom parent"
  shows "\<exists>w \<in> set queue. hops E x w < hops E x y"
  using assms(2,3)
proof (induction "hops E x y" arbitrary: y rule: less_induct)
  case less
  note I' = search_invD [OF I]
  have "y \<noteq> x" using I'(1) less.prems(2) by auto
  then obtain z where z: "(x, z) \<in> E\<^sup>*" "(z, y) \<in> E" "hops E x y = Suc (hops E x z)"
    using hops_pred less.prems(1) by metis
  show ?case
  proof (cases "z \<in> dom parent")
    case True
    then have "z \<in> set queue" using I'(5) [OF True] z(2) less.prems(2) by blast
    then show ?thesis using z(3) by auto
  next
    case False
    then obtain w where "w \<in> set queue" "hops E x w < hops E x z"
      using less.hyps [of z] z by auto
    then show ?thesis using z(3) by (intro bexI [of _ w]) simp_all
  qed
qed

lemma search_inv_expand:
  assumes I: "search_inv E x t parent (current # queue)" and "current \<noteq> t"
    and found: "set found = E `` {current} - dom parent"
    and parent': "parent' = (\<lambda>k. if k \<in> set found then Some current else parent k)"
  shows "search_inv E x t parent' (queue @ found)"
proof -
  note I' = search_invD [OF I]
  have cur: "current \<in> dom parent" "(x, current) \<in> E\<^sup>*" using I'(2,3) by auto
  have dom: "dom parent' = dom parent \<union> set found" by (auto simp: parent')
  have queue: "hops E x current \<le> hops E x a \<and> hops E x a \<le> Suc (hops E x current)" if "a \<in> set queue" for a
    using that I'(6) I'(7) [of a current] by auto
  have new: "hops E x k = Suc (hops E x current)" "(x, k) \<in> E\<^sup>*" "(current, k) \<in> E" if "k \<in> set found" for k
  proof -
    show e: "(current, k) \<in> E" using that found by auto
    show r: "(x, k) \<in> E\<^sup>*" using cur(2) e by (rule rtrancl_into_rtrancl)
    have "k \<notin> dom parent" using that found by auto
    then obtain w where "w \<in> set (current # queue)" "hops E x w < hops E x k"
      using undiscovered_far [OF I r] by blast
    then have "hops E x current < hops E x k" using queue by force
    then show "hops E x k = Suc (hops E x current)" using hops_step [OF cur(2) e] by simp
  qed
  have "parent' x = Some x" using I'(1) found by (auto simp: parent')
  moreover have "set (queue @ found) \<subseteq> dom parent'" using I'(2) dom by auto
  moreover have "\<forall>k \<in> dom parent'. (x, k) \<in> E\<^sup>*" using I'(3) new(2) dom by auto
  moreover have "p \<in> dom parent' \<and> (p, k) \<in> E \<and> hops E x k = Suc (hops E x p)"
    if "parent' k = Some p" "k \<noteq> x" for k p
    using that I'(4) [of k p] new [of k] cur(1) dom by (auto simp: parent' split: if_splits)
  moreover have "E `` {k} \<subseteq> dom parent' \<and> k \<noteq> t" if "k \<in> dom parent' - set (queue @ found)" for k
    using that I'(5) [of k] found dom assms(2) by (cases "k = current") auto
  moreover have "map (hops E x) found = replicate (length found) (Suc (hops E x current))"
    using new(1) by (simp add: map_replicate_const [symmetric])
  then have "sorted (map (hops E x) (queue @ found))"
    using I'(6) queue by (auto simp: sorted_append)
  moreover have "hops E x a \<le> Suc (hops E x b)" if "a \<in> set (queue @ found)" "b \<in> set (queue @ found)" for a b
    using that queue [of a] queue [of b] new(1) [of a] new(1) [of b] by auto
  ultimately show ?thesis unfolding search_inv_def by blast
qed

declare sp_loop.simps [simp del]

lemma sp_loop_correct:
  assumes "search_inv (adjacent edges) x t parent queue"
  shows "case sp_loop rank edges t parent queue of
      None \<Rightarrow> (x, t) \<notin> (adjacent edges)\<^sup>*
    | Some parent' \<Rightarrow> t \<in> dom parent' \<and> (\<exists>queue'. search_inv (adjacent edges) x t parent' queue')"
  using assms
proof (induction rank edges t parent queue rule: sp_loop.induct)
  case (1 rank edges t parent)
  note I' = search_invD [OF "1.prems"]
  have "y \<in> dom parent" if "(x, y) \<in> (adjacent edges)\<^sup>*" for y
    using that by (induction rule: rtrancl_induct) (use I'(1,5) in auto)
  then show ?case using I'(5) [of t] by (auto simp: sp_loop.simps)
next
  case (2 rank edges t parent current queue)
  show ?case
  proof (cases "current = t")
    case True
    then show ?thesis using "2.prems" search_invD(2) [OF "2.prems"] by (auto simp: sp_loop.simps)
  next
    case False
    obtain parent' found where e: "expand_edges current (sort_key (rank current) edges) parent = (parent', found)"
      by (metis prod.exhaust)
    have "search_inv (adjacent edges) x t parent' (queue @ found)"
      using expand_edges_parent [OF e] by (intro search_inv_expand [OF "2.prems" False]) simp_all
    from "2.IH" [OF False e [symmetric] this] show ?thesis using False e by (simp add: sp_loop.simps)
  qed
qed

lemma reconstruct_correct:
  assumes I: "search_inv E x t parent queue" and "k \<in> dom parent"
  shows "\<exists>ks. reconstruct_loop parent k path = Some (ks @ path) \<and> is_path E x ks k \<and> length ks = Suc (hops E x k)"
  using assms(2)
proof (induction "hops E x k" arbitrary: k path rule: less_induct)
  case less
  note I' = search_invD [OF I]
  obtain p where p: "parent k = Some p" using less.prems by blast
  show ?case
  proof (cases "k = x")
    case True
    then show ?thesis using I'(1)
      by (subst reconstruct_loop.simps) (auto simp: is_path_def)
  next
    case False
    have step: "p \<in> dom parent" "(p, k) \<in> E" "hops E x k = Suc (hops E x p)" using I'(4) [OF p False] by auto
    then obtain ks where ks: "reconstruct_loop parent p (k # path) = Some (ks @ k # path)" "is_path E x ks p"
      "length ks = Suc (hops E x p)"
      using less.hyps [of p "k # path"] by auto
    have "k \<noteq> p" using step(3) by auto
    then have "reconstruct_loop parent k path = Some ((ks @ [k]) @ path)"
      using ks(1) p by (subst reconstruct_loop.simps) simp
    then show ?thesis
      using is_path_snoc [OF ks(2) step(2)] ks(3) step(3) by (intro exI [of _ "ks @ [k]"]) simp
  qed
qed

text \<open>
  C19. \<open>ShortestPath\<close> always returns. Between two different nodes it gives a path along edges taken
  in either direction that no other path undercuts, or \<open>ErrPathNotFound\<close> exactly when there is
  no path, whatever order the edges are iterated in.
\<close>

theorem ShortestPath_correct:
  fixes d :: "'v MemoryDriver"
  assumes g: "graph_inv (md_data d)"
    and keys: "NodeRef_key sprint start = Inr a" "NodeRef_key sprint target = Inr b" and "a \<noteq> b"
  defines "E \<equiv> adjacent (map fst (g_edges (md_data d)))"
  shows "if \<exists>ks. is_path E a ks b
    then \<exists>ks. ShortestPath sprint rank d start target = Some (Ok (map keyToRef ks)) \<and> is_path E a ks b \<and>
      (\<forall>ks'. is_path E a ks' b \<longrightarrow> length ks \<le> length ks')
    else ShortestPath sprint rank d start target = Some (Fail ErrPathNotFound)"
proof -
  let ?N = "fst ` set (g_nodes (md_data d))" and ?edges = "map fst (g_edges (md_data d))"
  have nodes: "u \<in> ?N \<and> v \<in> ?N" if "(u, v) \<in> E" for u v
    using that g by (auto simp: E_def adjacent_def other_end_def graph_inv_def split: if_splits)
  have "search_inv E a b [a \<mapsto> a] [a]"
    by (auto simp: search_inv_def split: if_splits)
  then have sp: "case sp_loop rank ?edges b [a \<mapsto> a] [a] of
      None \<Rightarrow> (a, b) \<notin> E\<^sup>*
    | Some parent' \<Rightarrow> b \<in> dom parent' \<and> (\<exists>queue'. search_inv E a b parent' queue')"
    unfolding E_def by (rule sp_loop_correct)
  have ends: "a \<in> ?N \<and> b \<in> ?N" if "is_path E a ks b" for ks
  proof -
    have "(a, b) \<in> E\<^sup>+" using path_reach [OF that] assms(4) by (meson rtranclD)
    then show ?thesis using nodes by (meson tranclD tranclD2)
  qed
  show ?thesis
  proof (cases "a \<in> ?N \<and> b \<in> ?N")
    case False
    then have "\<nexists>ks. is_path E a ks b" using ends by blast
    then show ?thesis
      using False keys assms(4)
      by (auto simp: ShortestPath_def MemoryDriver_Snapshot_def Let_def map_of_eq_None_iff)
  next
    case True
    then have run: "ShortestPath sprint rank d start target =
        (case sp_loop rank ?edges b [a \<mapsto> a] [a] of
           None \<Rightarrow> Some (Fail ErrPathNotFound)
         | Some parent \<Rightarrow> map_option Ok (reconstructPath parent b))"
      using keys assms(4) by (simp add: ShortestPath_def MemoryDriver_Snapshot_def map_of_eq_None_iff)
    show ?thesis
    proof (cases "sp_loop rank ?edges b [a \<mapsto> a] [a]")
      case None
      then show ?thesis using run sp path_reach by fastforce
    next
      case (Some parent)
      then obtain queue where "b \<in> dom parent" "search_inv E a b parent queue" using sp by auto
      from reconstruct_correct [OF this(2,1), of "[]"] obtain ks
        where ks: "reconstruct_loop parent b [] = Some ks" "is_path E a ks b" "length ks = Suc (hops E a b)"
        by auto
      then have "ShortestPath sprint rank d start target = Some (Ok (map keyToRef ks))"
        using run Some by (simp add: reconstructPath_def)
      moreover have "\<forall>ks'. is_path E a ks' b \<longrightarrow> length ks \<le> length ks'"
        using ks(3) path_length by metis
      ultimately show ?thesis using ks(2) by auto
    qed
  qed
qed

section \<open>Queries and neighbours\<close>

lemma set_query_nodes:
  "set (query_nodes p ns) = (\<lambda>(k, n). \<lparr>nv_Ref = keyToRef k, nv_Props = nd_props n\<rparr>) `
     {(k, n) \<in> set ns. (pa_Label p = [] \<or> nk_label k = pa_Label p) \<and>
        (\<forall>f. pa_Where p = Some f \<longrightarrow> f (nd_props n))}"
proof (induction p ns rule: query_nodes.induct)
  case (2 p k n ns)
  then show ?case by (auto split: option.splits if_splits)
qed simp

lemma Query_matches:
  "set (MemoryDriver_Query rank d p) = (\<lambda>(k, n). \<lparr>nv_Ref = keyToRef k, nv_Props = nd_props n\<rparr>) `
     {(k, n) \<in> set (g_nodes (md_data d)). (pa_Label p = [] \<or> nk_label k = pa_Label p) \<and>
        (\<forall>f. pa_Where p = Some f \<longrightarrow> f (nd_props n))}"
  by (simp add: MemoryDriver_Query_def MemoryDriver_Snapshot_def range_map_def set_query_nodes)

text \<open>The neighbours of a node, each once, are the nodes adjacent to it in either direction.\<close>

lemma neighbor_nodes_adjacent:
  "\<exists>ks. (neighbor_nodes g center eks seen :: ('k, 'v) NodeView list) = concat (map (view_of g) ks) \<and> distinct ks \<and>
     set ks = adjacent eks `` {center} - seen"
proof (induction eks arbitrary: seen)
  case (Cons ek eks)
  show ?case
  proof (cases "\<exists>nb. other_end center ek = Some nb \<and> nb \<notin> seen")
    case True
    then obtain nb where nb: "other_end center ek = Some nb" "nb \<notin> seen" by blast
    from Cons.IH [of "insert nb seen"] obtain ks
      where ks: "(neighbor_nodes g center eks (insert nb seen) :: ('k, 'v) NodeView list) = concat (map (view_of g) ks) \<and> distinct ks \<and>
        set ks = adjacent eks `` {center} - insert nb seen" ..
    have "adjacent (ek # eks) `` {center} = insert nb (adjacent eks `` {center})"
      using nb(1) by (simp add: adjacent_Cons)
    then have "set (nb # ks) = adjacent (ek # eks) `` {center} - seen"
      using ks nb(2) by auto
    then show ?thesis using nb ks by (intro exI [of _ "nb # ks"]) simp
  next
    case False
    then have "(neighbor_nodes g center (ek # eks) seen :: ('k, 'v) NodeView list) = neighbor_nodes g center eks seen"
      by (auto split: option.splits)
    moreover have "adjacent (ek # eks) `` {center} - seen = adjacent eks `` {center} - seen"
      using False by (auto simp: adjacent_Cons split: option.splits)
    ultimately show ?thesis using Cons.IH [of seen] by simp
  qed
qed (simp add: adjacent_def)

section \<open>An instance\<close>

definition user_key :: "string \<Rightarrow> nodeKey" where
  "user_key x = \<lparr>nk_label = ''User'', nk_keyProp = ''id'', nk_keyVal = x\<rparr>"

definition follow_key :: "string \<Rightarrow> string \<Rightarrow> edgeKey" where
  "follow_key x y = \<lparr>ek_typ = ''FOLLOWS'', ek_from = user_key x, ek_to = user_key y\<rparr>"

definition user_graph :: "bool MemoryDriver" where
  "user_graph = \<lparr>md_data =
     \<lparr>g_nodes = [(user_key ''a'', \<lparr>nd_key = user_key ''a'', nd_props = []\<rparr>),
                 (user_key ''b'', \<lparr>nd_key = user_key ''b'', nd_props = []\<rparr>)],
      g_edges = [(follow_key ''a'' ''b'', \<lparr>eg_key = follow_key ''a'' ''b'', eg_props = []\<rparr>)]\<rparr>,
     md_schema = None\<rparr>"

lemma user_graph_facts:
  "graph_inv (md_data user_graph)" "NodeRef_key sprint (user x) = Inr (user_key x)"
  "user_key ''a'' \<noteq> user_key ''b''"
  by (simp_all add: user_graph_def graph_inv_def user_key_def follow_key_def user_keys)

theorem Traverse_correct_witness:
  "\<exists>ks. Traverse (\<lambda>_ :: nat. []) (\<lambda>_ _. 0) user_graph (user ''a'') ''FOLLOWS'' 0 =
     map (\<lambda>k. \<lparr>nv_Ref = keyToRef k, nv_Props = nd_props (node_at (md_data user_graph) k)\<rparr>) ks \<and>
     set ks = {user_key ''b''}"
proof -
  have "via_rel ''FOLLOWS'' (map fst (g_edges (md_data user_graph))) = {(user_key ''a'', user_key ''b'')}"
    by (auto simp: via_rel_def user_graph_def follow_key_def)
  moreover have a: "user_key ''a'' \<in> fst ` set (g_nodes (md_data user_graph))"
    by (simp add: user_graph_def)
  moreover have "\<not> (0 :: int) < 0" "nat (0 + 1) = Suc 0" by simp_all
  ultimately show ?thesis
    using Traverse_correct [OF user_graph_facts(1) user_graph_facts(2) [of "\<lambda>_. []" "''a''"],
        unfolded if_P [OF a], where rank = "\<lambda>_ _. 0" and via = "''FOLLOWS''" and maxDepth = 0]
      user_graph_facts(3) by auto
qed

theorem ShortestPath_correct_witness:
  "\<exists>ks. ShortestPath (\<lambda>_ :: nat. []) (\<lambda>_ _. 0) user_graph (user ''b'') (user ''a'') = Some (Ok (map keyToRef ks)) \<and>
     is_path (adjacent [follow_key ''a'' ''b'']) (user_key ''b'') ks (user_key ''a'')"
proof -
  let ?E = "adjacent (map fst (g_edges (md_data user_graph)))"
  have "(user_key ''b'', user_key ''a'') \<in> ?E"
    using user_graph_facts(3) by (simp add: adjacent_def user_graph_def follow_key_def other_end_def)
  then have path: "is_path ?E (user_key ''b'') [user_key ''b'', user_key ''a''] (user_key ''a'')"
    by (simp add: is_path_def)
  have E: "?E = adjacent [follow_key ''a'' ''b'']" by (simp add: user_graph_def)
  have ex: "\<exists>ks. is_path ?E (user_key ''b'') ks (user_key ''a'')" using path by blast
  from ShortestPath_correct [OF user_graph_facts(1,2,2) user_graph_facts(3) [symmetric], of "\<lambda>_. []" "\<lambda>_ _. 0"]
  show ?thesis unfolding if_P [OF ex] unfolding E by blast
qed

end
