(* ===== verification/GoSort.thy ===== *)
theory GoSort
  imports KeyCodec "HOL-Library.Multiset"
begin

text \<open>
  What the embedded engines use of Go's \<open>sort\<close> and \<open>bytes\<close> packages: the binary search of
  \<open>sort.Search\<close>, \<open>sort.Slice\<close> with a less function, and \<open>bytes.Compare\<close>. The binary search is the
  loop of the standard library with its probes; \<open>sort.Slice\<close> is an insertion sort, which is the
  result of every sorting algorithm when the less function orders the elements totally
  (\<open>sort_Slice_unique\<close>).
\<close>

section \<open>Binary search\<close>

function sort_Search_loop :: "(nat \<Rightarrow> bool) \<Rightarrow> nat \<Rightarrow> nat \<Rightarrow> nat" where
  "sort_Search_loop f i j =
     (if i < j then
        let h = (i + j) div 2 in
        if \<not> f h then sort_Search_loop f (h + 1) j else sort_Search_loop f i h
      else i)"
  by pat_completeness auto
termination
  by (relation "measure (\<lambda>(f, i, j). j - i)") auto

declare sort_Search_loop.simps [simp del]

definition sort_Search :: "nat \<Rightarrow> (nat \<Rightarrow> bool) \<Rightarrow> nat" where
  "sort_Search n f = sort_Search_loop f 0 n"

definition splits_at :: "(nat \<Rightarrow> bool) \<Rightarrow> nat \<Rightarrow> nat \<Rightarrow> bool" where
  "splits_at f n r \<longleftrightarrow> r \<le> n \<and> (\<forall>k < r. \<not> f k) \<and> (\<forall>k. r \<le> k \<and> k < n \<longrightarrow> f k)"

lemma sort_Search_loop_correct:
  assumes "i \<le> j" and "\<forall>a b. a \<le> b \<and> b < n \<and> f a \<longrightarrow> f b" and "j \<le> n"
    and "\<forall>k < i. \<not> f k" and "\<forall>k. j \<le> k \<and> k < n \<longrightarrow> f k"
  shows "splits_at f n (sort_Search_loop f i j)"
  using assms
proof (induction f i j rule: sort_Search_loop.induct)
  case (1 f i j)
  define h where "h = (i + j) div 2"
  consider "\<not> i < j" | "i < j" "f h" | "i < j" "\<not> f h"
    by blast
  then show ?case
  proof cases
    case 1
    with "1.prems" have "i = j"
      by simp
    with "1.prems" show ?thesis
      by (simp add: sort_Search_loop.simps [of f j j] splits_at_def)
  next
    case 2
    then have le: "i \<le> h" "h \<le> n"
      using "1.prems"(3) by (auto simp: h_def)
    have all: "\<forall>k. h \<le> k \<and> k < n \<longrightarrow> f k"
      using "1.prems"(2) 2(2) by blast
    have "sort_Search_loop f i j = sort_Search_loop f i h"
      using 2 by (simp add: sort_Search_loop.simps [of f i j] Let_def flip: h_def)
    moreover have "splits_at f n (sort_Search_loop f i h)"
      using "1.IH"(2) [OF 2(1) h_def] 2(2) le "1.prems"(2,4) all by blast
    ultimately show ?thesis
      by simp
  next
    case 3
    then have le: "h + 1 \<le> j" "h < n"
      using "1.prems"(3) by (auto simp: h_def)
    have none: "\<forall>k < h + 1. \<not> f k"
      using "1.prems"(2) 3(2) le(2) by (metis less_Suc_eq_le Suc_eq_plus1)
    have "sort_Search_loop f i j = sort_Search_loop f (h + 1) j"
      using 3 by (simp add: sort_Search_loop.simps [of f i j] Let_def flip: h_def)
    moreover have "splits_at f n (sort_Search_loop f (h + 1) j)"
      using "1.IH"(1) [OF 3(1) h_def] 3(2) le(1) "1.prems"(2,3,5) none by blast
    ultimately show ?thesis
      by simp
  qed
qed

text \<open>
  On a slice ordered so that the predicate, once true, stays true, the search is the length of
  the prefix on which it is false.
\<close>

lemma sort_Search_takeWhile:
  assumes "sorted_wrt (\<lambda>x y. P x \<longrightarrow> P y) xs"
  shows "sort_Search (length xs) (\<lambda>i. P (xs ! i)) = length (takeWhile (\<lambda>x. \<not> P x) xs)"
    (is "?r = length ?w")
proof -
  have "P (xs ! b)" if "a \<le> b" "b < length xs" "P (xs ! a)" for a b
    using assms that unfolding sorted_wrt_iff_nth_less by (metis nat_less_le)
  then have "splits_at (\<lambda>i. P (xs ! i)) (length xs) ?r"
    unfolding sort_Search_def by (intro sort_Search_loop_correct) auto
  then have "?r \<le> length xs" "\<forall>k < ?r. \<not> P (xs ! k)" "\<forall>k. ?r \<le> k \<and> k < length xs \<longrightarrow> P (xs ! k)"
    unfolding splits_at_def by blast+
  moreover have "\<not> P (xs ! k)" if "k < length ?w" for k
    using that nth_mem [OF that] by (auto simp: takeWhile_nth dest: set_takeWhileD)
  moreover have "P (xs ! length ?w)" if "length ?w < length xs"
    using nth_length_takeWhile [OF that] by simp
  ultimately show ?thesis
    by (metis length_takeWhile_le linorder_neqE_nat order.strict_trans2 le_refl)
qed

corollary sort_Search_le: "sorted_wrt (\<lambda>x y. P x \<longrightarrow> P y) xs \<Longrightarrow>
    sort_Search (length xs) (\<lambda>i. P (xs ! i)) \<le> length xs"
  by (simp add: sort_Search_takeWhile length_takeWhile_le)

lemma take_sort_Search:
  "sorted_wrt (\<lambda>x y. P x \<longrightarrow> P y) xs \<Longrightarrow>
     take (sort_Search (length xs) (\<lambda>i. P (xs ! i))) xs = filter (\<lambda>x. \<not> P x) xs"
proof (simp add: sort_Search_takeWhile takeWhile_eq_take [symmetric], induction xs)
  case (Cons x xs)
  then show ?case
    by (auto simp: filter_empty_conv)
qed simp

lemma drop_sort_Search:
  "sorted_wrt (\<lambda>x y. P x \<longrightarrow> P y) xs \<Longrightarrow>
     drop (sort_Search (length xs) (\<lambda>i. P (xs ! i))) xs = filter P xs"
proof (simp add: sort_Search_takeWhile dropWhile_eq_drop [symmetric], induction xs)
  case (Cons x xs)
  then have "P x \<longrightarrow> filter P xs = xs"
    by (simp add: filter_id_conv)
  with Cons show ?case
    by auto
qed simp

section \<open>Sorting\<close>

fun sort_insert :: "('a \<Rightarrow> 'a \<Rightarrow> bool) \<Rightarrow> 'a \<Rightarrow> 'a list \<Rightarrow> 'a list" where
  "sort_insert lt x [] = [x]"
| "sort_insert lt x (y # ys) = (if lt y x then y # sort_insert lt x ys else x # y # ys)"

fun sort_Slice :: "('a \<Rightarrow> 'a \<Rightarrow> bool) \<Rightarrow> 'a list \<Rightarrow> 'a list" where
  "sort_Slice lt [] = []"
| "sort_Slice lt (x # xs) = sort_insert lt x (sort_Slice lt xs)"

lemma mset_sort_insert [simp]: "mset (sort_insert lt x ys) = add_mset x (mset ys)"
  by (induction ys) auto

lemma mset_sort_Slice [simp]: "mset (sort_Slice lt xs) = mset xs"
  by (induction xs) auto

lemma set_sort_Slice [simp]: "set (sort_Slice lt xs) = set xs"
  by (metis mset_sort_Slice set_mset_mset)

lemma length_sort_Slice [simp]: "length (sort_Slice lt xs) = length xs"
  by (metis mset_sort_Slice size_mset)

text \<open>A less function that orders the elements of a slice totally.\<close>

definition strict_total_on :: "('a \<Rightarrow> 'a \<Rightarrow> bool) \<Rightarrow> 'a set \<Rightarrow> bool" where
  "strict_total_on lt A \<longleftrightarrow>
     (\<forall>x \<in> A. \<not> lt x x) \<and>
     (\<forall>x \<in> A. \<forall>y \<in> A. \<forall>z \<in> A. lt x y \<longrightarrow> lt y z \<longrightarrow> lt x z) \<and>
     (\<forall>x \<in> A. \<forall>y \<in> A. x \<noteq> y \<longrightarrow> lt x y \<or> lt y x)"

lemma strict_total_on_subset:
  "strict_total_on lt B \<Longrightarrow> A \<subseteq> B \<Longrightarrow> strict_total_on lt A"
  unfolding strict_total_on_def by blast

lemma sorted_sort_insert:
  assumes "strict_total_on lt (insert x (set ys))" and "sorted_wrt lt ys" and "x \<notin> set ys"
  shows "sorted_wrt lt (sort_insert lt x ys)"
  using assms
proof (induction ys)
  case (Cons y ys)
  have tot: "strict_total_on lt (insert x (set ys))"
    by (rule strict_total_on_subset [OF Cons.prems(1)]) auto
  have set: "set (sort_insert lt x ys) = insert x (set ys)"
    by (metis mset_sort_insert set_mset_add_mset_insert set_mset_mset)
  show ?case
  proof (cases "lt y x")
    case True
    with Cons tot show ?thesis
      by (simp add: set)
  next
    case False
    then have "lt x y"
      using Cons.prems by (auto simp: strict_total_on_def)
    moreover have "lt x z" if "z \<in> set ys" for z
      using Cons.prems that \<open>lt x y\<close> unfolding strict_total_on_def
      by (metis insert_iff list.set_intros(1) list.set_intros(2) sorted_wrt.simps(2))
    ultimately show ?thesis
      using Cons.prems False by simp
  qed
qed simp

lemma sorted_sort_Slice:
  assumes "strict_total_on lt (set xs)" and "distinct xs"
  shows "sorted_wrt lt (sort_Slice lt xs)"
  using assms
proof (induction xs)
  case (Cons x xs)
  have "strict_total_on lt (set xs)"
    by (rule strict_total_on_subset [OF Cons.prems(1)]) auto
  with Cons show ?case
    by (simp add: sorted_sort_insert)
qed simp

lemma sorted_wrt_unique:
  assumes "strict_total_on lt (set xs)" and "sorted_wrt lt xs" and "sorted_wrt lt ys"
    and "mset xs = mset ys"
  shows "xs = ys"
  using assms
proof (induction xs arbitrary: ys)
  case (Cons x xs)
  obtain y ys' where ys: "ys = y # ys'"
    using Cons.prems(4) by (cases ys) auto
  have sets: "set (x # xs) = set ys"
    using Cons.prems(4) by (metis set_mset_mset)
  have "x = y"
  proof (rule ccontr)
    assume "x \<noteq> y"
    then have "lt x y" "lt y x"
      using Cons.prems(2,3) sets by (auto simp: ys)
    moreover have "x \<in> set (x # xs)" "y \<in> set (x # xs)"
      using sets by (auto simp: ys)
    ultimately show False
      using Cons.prems(1) unfolding strict_total_on_def by metis
  qed
  moreover have "xs = ys'"
  proof (rule Cons.IH)
    show "strict_total_on lt (set xs)"
      by (rule strict_total_on_subset [OF Cons.prems(1)]) auto
  qed (use Cons.prems \<open>x = y\<close> in \<open>auto simp: ys\<close>)
  ultimately show ?case
    by (simp add: ys)
qed simp

text \<open>Any sorted rearrangement is the result, so the algorithm behind \<open>sort.Slice\<close> does not matter.\<close>

lemma sort_Slice_unique:
  assumes "strict_total_on lt (set xs)" and "distinct xs" and "sorted_wrt lt ys"
    and "mset ys = mset xs"
  shows "sort_Slice lt xs = ys"
  by (rule sorted_wrt_unique [where lt = lt])
    (use assms in \<open>auto intro: sorted_sort_Slice\<close>)

corollary sort_Slice_perm:
  assumes "strict_total_on lt (set xs)" and "distinct xs" and "mset ys = mset xs"
  shows "sort_Slice lt ys = sort_Slice lt xs"
proof -
  have "set ys = set xs" "distinct ys"
    using assms(2,3) by (metis set_mset_mset, metis mset_eq_imp_distinct_iff)
  then show ?thesis
    using assms by (intro sort_Slice_unique) (auto intro: sorted_sort_Slice)
qed

text \<open>The order in which a \<open>range\<close> loop visits a map: some rearrangement of its pairs.\<close>

definition rearranges :: "('p list \<Rightarrow> 'p list) \<Rightarrow> bool" where
  "rearranges order \<longleftrightarrow> (\<forall>xs. mset (order xs) = mset xs)"

section \<open>Bytes\<close>

text \<open>A byte slice is a list of characters; \<open>bytes.Compare\<close> is the lexicographic order.\<close>

definition bytes_Compare :: "string \<Rightarrow> string \<Rightarrow> int" where
  "bytes_Compare a b = (if a < b then -1 else if a = b then 0 else 1)"

lemma bytes_Compare_less [simp]: "bytes_Compare a b < 0 \<longleftrightarrow> a < b"
  by (auto simp: bytes_Compare_def)

lemma bytes_Compare_le [simp]: "bytes_Compare a b \<le> 0 \<longleftrightarrow> a \<le> b"
  by (auto simp: bytes_Compare_def)

end
