(* ===== verification/MemEngine.thy ===== *)
theory MemEngine
  imports GoSort
begin

text \<open>
  The in-memory engine of \<open>src/metaengine\<close> (\<open>memory_engine.go\<close>, \<open>memory_backends.go\<close>,
  \<open>memory_reset.go\<close>, \<open>memory_snapshot.go\<close>, \<open>sort_paginate.go\<close>): collections of maps, sets,
  counters, multimaps and logs, the scan with its keyset cursors, reset, and the snapshot backend.
  Collections with history are in \<open>VersionedCells\<close>, stream logs in \<open>StreamLog\<close>.

  A value of type \<open>any\<close> is an option, \<open>None\<close> for \<open>nil\<close>; a map is a list of pairs with distinct keys,
  and the order in which a \<open>range\<close> loop visits it is the argument \<open>order\<close>, a rearrangement of the
  pairs. The printed form of a key (\<open>fmt.Sprint\<close>, \<open>%v\<close>) is the argument \<open>sprint\<close>, the wall clock
  the argument \<open>now\<close>. An update function returns, beside the new value, what it leaves in the
  variables it captures. The vector, text and spatial indexes are not part of the state.
\<close>

section \<open>State\<close>

record 'v versionedEntry =
  ve_ts :: instant
  ve_value :: "'v option"

type_synonym 'v versionChain = "'v versionedEntry list"

record RetentionPolicy =
  rp_MaxVersions :: int
  rp_MaxAge :: int

record 'v streamJournalEntry =
  je_seq :: int
  je_streamID :: string
  je_value :: "'v option"

type_synonym ('k, 'v) kv_map = "('k \<times> 'v option) list"

record ('k, 'v) memData =
  md_maps :: "string \<rightharpoonup> ('k, 'v) kv_map"
  md_sets :: "string \<rightharpoonup> 'k set"
  md_counters :: "string \<rightharpoonup> (string \<rightharpoonup> u64)"
  md_multimaps :: "string \<rightharpoonup> ('k \<rightharpoonup> 'v option list)"
  md_logs :: "string \<Rightarrow> 'v option list"
  md_streams :: "string \<rightharpoonup> (string \<rightharpoonup> 'v option list)"
  md_streamJournal :: "string \<Rightarrow> 'v streamJournalEntry list"
  md_graphs :: "string \<rightharpoonup> (string \<times> string list) list"

record ('k, 'v) memoryEngine =
  me_data :: "('k, 'v) memData"
  me_versions :: "(string \<rightharpoonup> (string \<rightharpoonup> 'v versionChain)) option"
  me_retention :: "RetentionPolicy option"

definition newMemData :: "('k, 'v) memData" where
  "newMemData = \<lparr> md_maps = Map.empty, md_sets = Map.empty, md_counters = Map.empty,
     md_multimaps = Map.empty, md_logs = (\<lambda>_. []), md_streams = Map.empty,
     md_streamJournal = (\<lambda>_. []), md_graphs = Map.empty \<rparr>"

definition NewMemoryEngine :: "('k, 'v) memoryEngine" where
  "NewMemoryEngine = \<lparr> me_data = newMemData, me_versions = None, me_retention = None \<rparr>"

text \<open>
  \<open>ResetEngine\<close> drops the derived collections and the version chains and keeps the journal: logs,
  streams and the cross-stream journal.
\<close>

definition ResetEngine :: "('k, 'v) memoryEngine \<Rightarrow> ('k, 'v) memoryEngine" where
  "ResetEngine e =
     (let journal = md_logs (me_data e); streams = md_streams (me_data e);
          streamJournal = md_streamJournal (me_data e);
          data = newMemData \<lparr> md_logs := journal, md_streams := streams,
                              md_streamJournal := streamJournal \<rparr> in
      e \<lparr> me_data := data,
          me_versions := (if me_versions e \<noteq> None then Some Map.empty else None) \<rparr>)"

section \<open>Pairs\<close>

fun map_put :: "'k \<Rightarrow> 'v option \<Rightarrow> ('k, 'v) kv_map \<Rightarrow> ('k, 'v) kv_map" where
  "map_put k v [] = [(k, v)]"
| "map_put k v ((k', v') # ps) = (if k = k' then (k, v) # ps else (k', v') # map_put k v ps)"

definition map_delete :: "'k \<Rightarrow> ('k, 'v) kv_map \<Rightarrow> ('k, 'v) kv_map" where
  "map_delete k ps = filter (\<lambda>p. fst p \<noteq> k) ps"

lemma map_of_map_put [simp]: "map_of (map_put k v ps) = (map_of ps)(k \<mapsto> v)"
  by (induction ps) auto

lemma map_of_map_delete [simp]: "map_of (map_delete k ps) = (map_of ps)(k := None)"
  by (induction ps) (auto simp: map_delete_def)

lemma keys_map_put [simp]: "set (map fst (map_put k v ps)) = insert k (set (map fst ps))"
  by (induction k v ps rule: map_put.induct) (simp_all add: insert_commute)

lemma distinct_map_put [simp]: "distinct (map fst ps) \<Longrightarrow> distinct (map fst (map_put k v ps))"
proof (induction k v ps rule: map_put.induct)
  case (2 k v k' v' ps)
  with keys_map_put [of k v ps] show ?case
    by (auto simp del: keys_map_put)
qed simp

lemma distinct_map_delete [simp]: "distinct (map fst ps) \<Longrightarrow> distinct (map fst (map_delete k ps))"
  by (simp add: map_delete_def distinct_map_filter)

section \<open>Version cells\<close>

text \<open>
  \<open>insertAt\<close> grows the slice by one, shifts the tail and writes the entry at the position the
  binary search finds. \<open>trimRetentionLocked\<close> keeps the newest \<open>MaxVersions\<close> entries and those after
  the age limit, and always the last one.
\<close>

definition insertAt :: "'v versionedEntry \<Rightarrow> 'v versionChain \<Rightarrow> 'v versionChain" where
  "insertAt entry entries =
     (let idx = sort_Search (length entries) (\<lambda>i. After (ve_ts (entries ! i)) (ve_ts entry)) in
      take idx entries @ [entry] @ drop idx entries)"

definition trim_MaxVersions :: "RetentionPolicy \<Rightarrow> 'v versionChain \<Rightarrow> 'v versionChain" where
  "trim_MaxVersions p entries =
     (if 0 < rp_MaxVersions p \<and> rp_MaxVersions p < int (length entries) then
        let cutoff = length entries - nat (rp_MaxVersions p) in drop cutoff entries
      else entries)"

definition trim_MaxAge :: "RetentionPolicy \<Rightarrow> 'v versionChain \<Rightarrow> instant \<Rightarrow> 'v versionChain" where
  "trim_MaxAge p entries newest =
     (if 0 < rp_MaxAge p then
        let minTs = newest - rp_MaxAge p;
            idx = sort_Search (length entries) (\<lambda>i. After (ve_ts (entries ! i)) minTs) in
        if idx = 0 then entries
        else if idx < length entries then drop idx entries
        else drop (length entries - 1) entries
      else entries)"

definition trimRetentionLocked ::
  "('k, 'v) memoryEngine \<Rightarrow> 'v versionChain \<Rightarrow> instant \<Rightarrow> 'v versionChain" where
  "trimRetentionLocked e entries newest =
     (case me_retention e of
        None \<Rightarrow> entries
      | Some p \<Rightarrow> trim_MaxAge p (trim_MaxVersions p entries) newest)"

text \<open>
  The chain of a cell lives in the engine: \<open>chainLocked\<close> finds it or gives an empty one,
  \<open>put_chain\<close> is the write through the pointer it returns.
\<close>

definition chainLocked :: "('k, 'v) memoryEngine \<Rightarrow> string \<Rightarrow> string \<Rightarrow> 'v versionChain" where
  "chainLocked e col key =
     (case me_versions e of
        None \<Rightarrow> []
      | Some vs \<Rightarrow> (case vs col of
            None \<Rightarrow> []
          | Some cells \<Rightarrow> (case cells key of None \<Rightarrow> [] | Some chain \<Rightarrow> chain)))"

definition put_chain ::
  "string \<Rightarrow> string \<Rightarrow> 'v versionChain \<Rightarrow> ('k, 'v) memoryEngine \<Rightarrow> ('k, 'v) memoryEngine" where
  "put_chain col key chain e =
     (case me_versions e of
        None \<Rightarrow> e
      | Some vs \<Rightarrow>
          e \<lparr> me_versions := Some (vs(col \<mapsto>
                (case vs col of None \<Rightarrow> Map.empty | Some cells \<Rightarrow> cells)(key \<mapsto> chain))) \<rparr>)"

definition recordVersionAt ::
  "string \<Rightarrow> string \<Rightarrow> 'v option \<Rightarrow> instant \<Rightarrow> ('k, 'v) memoryEngine \<Rightarrow> ('k, 'v) memoryEngine" where
  "recordVersionAt col key value ts e =
     (let chain = insertAt \<lparr> ve_ts = ts, ve_value = value \<rparr> (chainLocked e col key) in
      put_chain col key (trimRetentionLocked e chain ts) e)"

definition recordVersionNow ::
  "instant \<Rightarrow> string \<Rightarrow> string \<Rightarrow> 'v option \<Rightarrow> ('k, 'v) memoryEngine \<Rightarrow> ('k, 'v) memoryEngine" where
  "recordVersionNow now col key value e = recordVersionAt col key value now e"

section \<open>Maps\<close>

definition getMapLocked :: "('k, 'v) memoryEngine \<Rightarrow> string \<Rightarrow> ('k, 'v) kv_map" where
  "getMapLocked e col = (case md_maps (me_data e) col of None \<Rightarrow> [] | Some store \<Rightarrow> store)"

definition put_map ::
  "string \<Rightarrow> ('k, 'v) kv_map \<Rightarrow> ('k, 'v) memoryEngine \<Rightarrow> ('k, 'v) memoryEngine" where
  "put_map col store e = e \<lparr> me_data := (me_data e) \<lparr> md_maps := (md_maps (me_data e))(col \<mapsto> store) \<rparr> \<rparr>"

definition MapSet ::
  "('k \<Rightarrow> string) \<Rightarrow> instant \<Rightarrow> ('k, 'v) memoryEngine \<Rightarrow> string \<Rightarrow> 'k \<Rightarrow> 'v option \<Rightarrow>
     ('k, 'v) memoryEngine" where
  "MapSet sprint now e col key value =
     (let e1 = put_map col (map_put key value (getMapLocked e col)) e in
      if me_versions e1 \<noteq> None then recordVersionNow now col (sprint key) value e1 else e1)"

definition MapGet :: "('k, 'v) memoryEngine \<Rightarrow> string \<Rightarrow> 'k \<Rightarrow> 'v option \<times> bool" where
  "MapGet e col key =
     (case md_maps (me_data e) col of
        None \<Rightarrow> (None, False)
      | Some store \<Rightarrow> (case map_of store key of None \<Rightarrow> (None, False) | Some v \<Rightarrow> (v, True)))"

definition MapDelete ::
  "('k \<Rightarrow> string) \<Rightarrow> instant \<Rightarrow> ('k, 'v) memoryEngine \<Rightarrow> string \<Rightarrow> 'k \<Rightarrow> ('k, 'v) memoryEngine" where
  "MapDelete sprint now e col key =
     (let e1 = put_map col (map_delete key (getMapLocked e col)) e in
      if me_versions e1 \<noteq> None then recordVersionNow now col (sprint key) None e1 else e1)"

definition store_get :: "('k, 'v) kv_map \<Rightarrow> 'k \<Rightarrow> 'v option" where
  "store_get store key = (case map_of store key of None \<Rightarrow> None | Some v \<Rightarrow> v)"

definition MapUpdate ::
  "('k \<Rightarrow> string) \<Rightarrow> instant \<Rightarrow> ('k, 'v) memoryEngine \<Rightarrow> string \<Rightarrow> 'k \<Rightarrow>
     ('v option \<Rightarrow> 'v option \<times> 'b) \<Rightarrow> ('k, 'v) memoryEngine \<times> 'b" where
  "MapUpdate sprint now e col key update =
     (let store = getMapLocked e col;
          prev = store_get store key;
          (newVal, captured) = update prev;
          e1 = put_map col (map_put key newVal store) e in
      (if me_versions e1 \<noteq> None then recordVersionNow now col (sprint key) newVal e1 else e1,
       captured))"

section \<open>Sets, counters, multimaps and logs\<close>

definition SetAdd :: "('k, 'v) memoryEngine \<Rightarrow> string \<Rightarrow> 'k \<Rightarrow> ('k, 'v) memoryEngine" where
  "SetAdd e col key =
     (let old = (case md_sets (me_data e) col of None \<Rightarrow> {} | Some s \<Rightarrow> s) in
      e \<lparr> me_data := (me_data e) \<lparr> md_sets := (md_sets (me_data e))(col \<mapsto> insert key old) \<rparr> \<rparr>)"

definition SetContains :: "('k, 'v) memoryEngine \<Rightarrow> string \<Rightarrow> 'k \<Rightarrow> bool" where
  "SetContains e col key = (case md_sets (me_data e) col of None \<Rightarrow> False | Some s \<Rightarrow> key \<in> s)"

text \<open>\<open>counters[col][k] += d\<close> for every entry of the deltas, on 64-bit integers.\<close>

fun add_deltas :: "(string \<times> u64) list \<Rightarrow> (string \<rightharpoonup> u64) \<Rightarrow> (string \<rightharpoonup> u64)" where
  "add_deltas [] m = m"
| "add_deltas ((k, d) # ds) m =
     add_deltas ds (m(k \<mapsto> (case m k of None \<Rightarrow> 0 | Some c \<Rightarrow> c) + d))"

definition CounterIncrement ::
  "('k, 'v) memoryEngine \<Rightarrow> string \<Rightarrow> (string \<times> u64) list \<Rightarrow> ('k, 'v) memoryEngine" where
  "CounterIncrement e col deltas =
     (let old = (case md_counters (me_data e) col of None \<Rightarrow> Map.empty | Some m \<Rightarrow> m) in
      e \<lparr> me_data := (me_data e) \<lparr> md_counters :=
            (md_counters (me_data e))(col \<mapsto> add_deltas deltas old) \<rparr> \<rparr>)"

definition CounterGet :: "('k, 'v) memoryEngine \<Rightarrow> string \<Rightarrow> (string \<rightharpoonup> u64)" where
  "CounterGet e col = (case md_counters (me_data e) col of None \<Rightarrow> Map.empty | Some m \<Rightarrow> m)"

definition MultiGet :: "('k, 'v) memoryEngine \<Rightarrow> string \<Rightarrow> 'k \<Rightarrow> 'v option list" where
  "MultiGet e col key =
     (case md_multimaps (me_data e) col of
        None \<Rightarrow> []
      | Some m \<Rightarrow> (case m key of None \<Rightarrow> [] | Some vs \<Rightarrow> vs))"

definition MultiAdd ::
  "('k, 'v) memoryEngine \<Rightarrow> string \<Rightarrow> 'k \<Rightarrow> 'v option \<Rightarrow> ('k, 'v) memoryEngine" where
  "MultiAdd e col key value =
     (let m = (case md_multimaps (me_data e) col of None \<Rightarrow> Map.empty | Some m \<Rightarrow> m);
          old = (case m key of None \<Rightarrow> [] | Some vs \<Rightarrow> vs) in
      e \<lparr> me_data := (me_data e) \<lparr> md_multimaps :=
            (md_multimaps (me_data e))(col \<mapsto> m(key \<mapsto> old @ [value])) \<rparr> \<rparr>)"

definition LogAppend ::
  "('k, 'v) memoryEngine \<Rightarrow> string \<Rightarrow> 'v option \<Rightarrow> ('k, 'v) memoryEngine" where
  "LogAppend e col value =
     e \<lparr> me_data := (me_data e) \<lparr> md_logs :=
           (md_logs (me_data e))(col := md_logs (me_data e) col @ [value]) \<rparr> \<rparr>"

definition LogTail :: "('k, 'v) memoryEngine \<Rightarrow> string \<Rightarrow> int \<Rightarrow> 'v option list outcome" where
  "LogTail e col limit =
     (let log = md_logs (me_data e) col;
          limit1 = (if limit \<le> 0 \<or> int (length log) < limit then int (length log) else limit);
          start = int (length log) - limit1 in
      slice_from log start)"

section \<open>Scans\<close>

text \<open>
  A cursor is absent, a bare sort value, or the compound cursor of \<open>sort_paginate.go\<close> with the
  printed key of the last item served. The addition \<open>limit+1\<close> wraps at the width of \<open>int\<close>.
\<close>

datatype 'v scan_cursor = NoCursor | RawCursor "'v option" | SortKeyCursor "'v option" string

record 'v ScanResult =
  sr_Items :: "'v option list"
  sr_HasMore :: bool
  sr_NextCursor :: "'v scan_cursor"

definition pairs_less ::
  "('p \<Rightarrow> string) \<Rightarrow> ('p \<Rightarrow> 'v option) \<Rightarrow> ('v option \<Rightarrow> 'v option \<Rightarrow> int) \<Rightarrow> 'p \<Rightarrow> 'p \<Rightarrow> bool" where
  "pairs_less keyOf valueOf sortFn p q =
     (let c = sortFn (valueOf p) (valueOf q) in
      if c \<noteq> 0 then c < 0 else bytes_Compare (keyOf p) (keyOf q) < 0)"

fun cursor_keeps ::
  "('p \<Rightarrow> string) \<Rightarrow> ('p \<Rightarrow> 'v option) \<Rightarrow> ('v option \<Rightarrow> 'v option \<Rightarrow> int) \<Rightarrow> 'v scan_cursor \<Rightarrow> 'p \<Rightarrow> bool" where
  "cursor_keeps keyOf valueOf sortFn NoCursor p = True"
| "cursor_keeps keyOf valueOf sortFn (RawCursor v) p =
     (let c = sortFn (valueOf p) v in if c < 0 then False else if c = 0 then False else True)"
| "cursor_keeps keyOf valueOf sortFn (SortKeyCursor v k) p =
     (let c = sortFn (valueOf p) v in
      if c < 0 then False
      else if c = 0 then (if bytes_Compare (keyOf p) k \<le> 0 then False else True)
      else True)"

definition truncate_limit :: "int \<Rightarrow> int" where
  "truncate_limit limit =
     (if 0 < limit then (if limit = MaxInt then - MaxInt - 1 else limit + 1) else 0)"

definition SortPaginate ::
  "'p list \<Rightarrow> ('p \<Rightarrow> string) \<Rightarrow> ('p \<Rightarrow> 'v option) \<Rightarrow> ('v option \<Rightarrow> 'v option \<Rightarrow> int) option \<Rightarrow>
     'v scan_cursor \<Rightarrow> int \<Rightarrow> 'p list" where
  "SortPaginate pairs keyOf valueOf sortFn cursor limit =
     (let sorted_pairs = (case sortFn of
            None \<Rightarrow> pairs
          | Some f \<Rightarrow> sort_Slice (pairs_less keyOf valueOf f) pairs);
          filtered = (case sortFn of
            None \<Rightarrow> sorted_pairs
          | Some f \<Rightarrow> filter (cursor_keeps keyOf valueOf f cursor) sorted_pairs);
          truncLimit = truncate_limit limit in
      if 0 < truncLimit \<and> truncLimit < int (length filtered)
      then take (nat truncLimit) filtered else filtered)"

definition PairsToScanResult :: "'p list \<Rightarrow> ('p \<Rightarrow> 'v option) \<Rightarrow> int \<Rightarrow> 'v ScanResult" where
  "PairsToScanResult pairs valueOf limit =
     (let hasMore = (0 < limit \<and> limit < int (length pairs));
          kept = (if hasMore then take (nat limit) pairs else pairs) in
      \<lparr> sr_Items = map valueOf kept, sr_HasMore = hasMore, sr_NextCursor = NoCursor \<rparr>)"

definition LastPairCursor ::
  "'p list \<Rightarrow> ('p \<Rightarrow> string) \<Rightarrow> ('p \<Rightarrow> 'v option) \<Rightarrow> int \<Rightarrow> 'v scan_cursor" where
  "LastPairCursor pairs keyOf valueOf limit =
     (let n = int (length pairs) in
      if n = 0 then NoCursor
      else
        let m = (if 0 < limit \<and> limit < n then limit else n);
            l = pairs ! nat (m - 1) in
        SortKeyCursor (valueOf l) (keyOf l))"

definition MapScan ::
  "('k \<Rightarrow> string) \<Rightarrow> (('k, 'v) kv_map \<Rightarrow> ('k, 'v) kv_map) \<Rightarrow> ('k, 'v) memoryEngine \<Rightarrow> string \<Rightarrow>
     ('v option \<Rightarrow> bool) option \<Rightarrow> ('v option \<Rightarrow> 'v option \<Rightarrow> int) option \<Rightarrow> 'v scan_cursor \<Rightarrow> int \<Rightarrow>
     'v ScanResult" where
  "MapScan sprint order e col filterFn sortFunc cursor limit =
     (case md_maps (me_data e) col of
        None \<Rightarrow> \<lparr> sr_Items = [], sr_HasMore = False, sr_NextCursor = NoCursor \<rparr>
      | Some store \<Rightarrow>
          let pairs = filter (\<lambda>(k, v). case filterFn of None \<Rightarrow> True | Some f \<Rightarrow> f v) (order store);
              keyOf = (\<lambda>p. sprint (fst p));
              valueOf = snd in
          (case sortFunc of
             None \<Rightarrow>
               PairsToScanResult
                 (sort_Slice (\<lambda>p q. bytes_Compare (keyOf p) (keyOf q) < 0) pairs) valueOf limit
           | Some f \<Rightarrow>
               let page = SortPaginate pairs keyOf valueOf (Some f) cursor limit in
               (PairsToScanResult page valueOf limit)
                 \<lparr> sr_NextCursor := LastPairCursor page keyOf valueOf limit \<rparr>))"

section \<open>Snapshot backend\<close>

record snapshotEntry =
  sn_version :: int
  sn_data :: "byte list"

type_synonym memorySnapshotBackend = "string \<rightharpoonup> (string \<rightharpoonup> snapshotEntry)"

definition Engine_ErrNotFound :: go_error where
  "Engine_ErrNotFound = ErrExt ''metaengine: key not found''"

definition newMemorySnapshotBackend :: memorySnapshotBackend where
  "newMemorySnapshotBackend = Map.empty"

definition SnapshotSave ::
  "memorySnapshotBackend \<Rightarrow> string \<Rightarrow> string \<Rightarrow> int \<Rightarrow> byte list \<Rightarrow> memorySnapshotBackend" where
  "SnapshotSave m collection streamID version data =
     (let entries = (case m collection of None \<Rightarrow> Map.empty | Some es \<Rightarrow> es) in
      m(collection \<mapsto> entries(streamID \<mapsto> \<lparr> sn_version = version, sn_data = data \<rparr>)))"

definition snapshot_entry :: "memorySnapshotBackend \<Rightarrow> string \<Rightarrow> string \<Rightarrow> snapshotEntry option" where
  "snapshot_entry m collection streamID =
     (case m collection of None \<Rightarrow> None | Some es \<Rightarrow> es streamID)"

definition SnapshotLoad ::
  "memorySnapshotBackend \<Rightarrow> string \<Rightarrow> string \<Rightarrow> (byte list \<times> int) outcome" where
  "SnapshotLoad m collection streamID =
     (case snapshot_entry m collection streamID of
        None \<Rightarrow> Fail Engine_ErrNotFound
      | Some entry \<Rightarrow> Ok (sn_data entry, sn_version entry))"

definition SnapshotLoadAtVersion ::
  "memorySnapshotBackend \<Rightarrow> string \<Rightarrow> string \<Rightarrow> int \<Rightarrow> (byte list \<times> int) outcome" where
  "SnapshotLoadAtVersion m collection streamID maxVersion =
     (case snapshot_entry m collection streamID of
        None \<Rightarrow> Fail Engine_ErrNotFound
      | Some entry \<Rightarrow>
          if maxVersion < sn_version entry then Fail Engine_ErrNotFound
          else Ok (sn_data entry, sn_version entry))"

definition SnapshotDelete ::
  "memorySnapshotBackend \<Rightarrow> string \<Rightarrow> string \<Rightarrow> memorySnapshotBackend" where
  "SnapshotDelete m collection streamID =
     (case m collection of None \<Rightarrow> m | Some es \<Rightarrow> m(collection \<mapsto> es(streamID := None)))"

end
