(* ===== verification/ScanPaging.thy ===== *)
theory ScanPaging
  imports MemEngine
begin

text \<open>
  Correctness of the scans of the in-memory engine: keyset paging with compound cursors serves every
  matching item exactly once and in order, whatever order the map is visited in and however many
  items tie on their sort value. What a scan relies on is the locale \<open>comparator\<close>: a tri-state
  comparison that orders the values up to ties.
\<close>

section \<open>Comparators\<close>

locale comparator =
  fixes sortFn :: "'v option \<Rightarrow> 'v option \<Rightarrow> int"
  assumes cmp_swap: "sortFn a b < 0 \<longleftrightarrow> 0 < sortFn b a"
    and cmp_trans: "sortFn a b \<le> 0 \<Longrightarrow> sortFn b c \<le> 0 \<Longrightarrow> sortFn a c \<le> 0"
begin

lemma cmp_refl: "sortFn a a = 0"
  using cmp_swap [of a a] by linarith

lemma cmp_zero: "sortFn a b = 0 \<longleftrightarrow> sortFn b a = 0"
  using cmp_swap [of a b] cmp_swap [of b a] by linarith

lemma cmp_less_le: "sortFn a b < 0 \<Longrightarrow> sortFn b c \<le> 0 \<Longrightarrow> sortFn a c < 0"
  using cmp_trans [of a b c] cmp_trans [of b c a] cmp_swap [of a b] cmp_zero [of a c] by force

lemma cmp_le_less: "sortFn a b \<le> 0 \<Longrightarrow> sortFn b c < 0 \<Longrightarrow> sortFn a c < 0"
  using cmp_trans [of a b c] cmp_trans [of c a b] cmp_swap [of b c] cmp_zero [of a c] by force

lemma pairs_less_le: "pairs_less keyOf valueOf sortFn p q \<Longrightarrow> sortFn (valueOf p) (valueOf q) \<le> 0"
  by (auto simp: pairs_less_def Let_def split: if_splits)

lemma pairs_less_irrefl: "\<not> pairs_less keyOf valueOf sortFn p p"
  by (simp add: pairs_less_def cmp_refl)

lemma pairs_less_trans:
  assumes "pairs_less keyOf valueOf sortFn p q" and "pairs_less keyOf valueOf sortFn q r"
  shows "pairs_less keyOf valueOf sortFn p r"
proof (cases "sortFn (valueOf p) (valueOf q) = 0 \<and> sortFn (valueOf q) (valueOf r) = 0")
  case True
  then have "sortFn (valueOf p) (valueOf r) = 0"
    using cmp_trans [of "valueOf p" "valueOf q" "valueOf r"]
      cmp_trans [of "valueOf r" "valueOf q" "valueOf p"]
      cmp_zero [of "valueOf p" "valueOf q"] cmp_zero [of "valueOf q" "valueOf r"]
      cmp_swap [of "valueOf p" "valueOf r"] by force
  then show ?thesis
    using assms True by (auto simp: pairs_less_def)
next
  case False
  then have "sortFn (valueOf p) (valueOf r) < 0"
    using assms pairs_less_le [OF assms(1)] pairs_less_le [OF assms(2)]
      cmp_less_le [of "valueOf p" "valueOf q" "valueOf r"]
      cmp_le_less [of "valueOf p" "valueOf q" "valueOf r"] by force
  then show ?thesis
    by (simp add: pairs_less_def)
qed

lemma pairs_less_total:
  assumes "distinct (map keyOf ps)"
  shows "strict_total_on (pairs_less keyOf valueOf sortFn) (set ps)"
  unfolding strict_total_on_def
proof (intro conjI ballI impI)
  fix p q
  assume "p \<in> set ps" "q \<in> set ps" "p \<noteq> q"
  then have "keyOf p \<noteq> keyOf q"
    using assms by (auto simp: distinct_map inj_on_def)
  then show "pairs_less keyOf valueOf sortFn p q \<or> pairs_less keyOf valueOf sortFn q p"
    using cmp_swap [of "valueOf p" "valueOf q"] cmp_zero [of "valueOf p" "valueOf q"]
    by (auto simp: pairs_less_def)
next
  fix p q r
  assume "pairs_less keyOf valueOf sortFn p q" "pairs_less keyOf valueOf sortFn q r"
  then show "pairs_less keyOf valueOf sortFn p r"
    by (rule pairs_less_trans)
qed (simp add: pairs_less_irrefl)

lemma cursor_keeps_pair:
  "cursor_keeps keyOf valueOf sortFn (SortKeyCursor (valueOf p) (keyOf p)) q \<longleftrightarrow>
     pairs_less keyOf valueOf sortFn p q"
  using cmp_swap [of "valueOf p" "valueOf q"] cmp_swap [of "valueOf q" "valueOf p"]
    cmp_zero [of "valueOf p" "valueOf q"]
  by (auto simp: pairs_less_def Let_def not_le)

end

lemma filter_after_nth:
  assumes "sorted_wrt lt S" and "i < length S" and "\<And>x. \<not> lt x x"
    and "\<And>x y z. lt x y \<Longrightarrow> lt y z \<Longrightarrow> lt x z"
  shows "filter (lt (S ! i)) S = drop (Suc i) S"
proof -
  have eq: "S = take i S @ S ! i # drop (Suc i) S"
    using assms(2) by (rule id_take_nth_drop)
  have "sorted_wrt lt (take i S @ S ! i # drop (Suc i) S)"
    using assms(1) eq by simp
  then have before: "lt x (S ! i)" if "x \<in> set (take i S)" for x
    using that by (simp add: sorted_wrt_append)
  have after: "lt (S ! i) x" if "x \<in> set (drop (Suc i) S)" for x
    using that \<open>sorted_wrt lt (take i S @ _)\<close> by (simp add: sorted_wrt_append)
  have "filter (lt (S ! i)) S = filter (lt (S ! i)) (take i S @ S ! i # drop (Suc i) S)"
    using eq by simp
  also have "\<dots> = filter (lt (S ! i)) (take i S) @ filter (lt (S ! i)) (drop (Suc i) S)"
    using assms(3) by simp
  also have "filter (lt (S ! i)) (take i S) = []"
    unfolding filter_empty_conv using before assms(3,4) by blast
  also have "filter (lt (S ! i)) (drop (Suc i) S) = drop (Suc i) S"
    using after by (simp add: filter_id_conv)
  finally show ?thesis
    by simp
qed

section \<open>Pages\<close>

text \<open>A cursor that stands after the first \<open>n\<close> items of the sorted list.\<close>

definition stands_at ::
  "('p \<Rightarrow> string) \<Rightarrow> ('p \<Rightarrow> 'v option) \<Rightarrow> 'p list \<Rightarrow> nat \<Rightarrow> 'v scan_cursor \<Rightarrow> bool" where
  "stands_at keyOf valueOf S n c \<longleftrightarrow>
     (n = 0 \<and> c = NoCursor) \<or>
     (0 < n \<and> n \<le> length S \<and> c = SortKeyCursor (valueOf (S ! (n - 1))) (keyOf (S ! (n - 1))))"

definition page_of :: "int \<Rightarrow> 'p list \<Rightarrow> 'p list" where
  "page_of limit rest =
     (let t = truncate_limit limit in
      if 0 < t \<and> t < int (length rest) then take (nat t) rest else rest)"

lemma page_of_take:
  assumes "0 < limit" and "limit \<le> MaxInt"
  shows "take (nat limit) (page_of limit rest) = take (nat limit) rest"
    and "limit < int (length (page_of limit rest)) \<longleftrightarrow> limit < int (length rest)"
  using assms by (auto simp: page_of_def truncate_limit_def Let_def min_def nat_le_eq_zle)

lemma page_of_all: "limit \<le> 0 \<Longrightarrow> page_of limit rest = rest"
  by (simp add: page_of_def truncate_limit_def)

context comparator
begin

lemma SortPaginate_drop:
  assumes "distinct (map keyOf ps)"
    and "stands_at keyOf valueOf (sort_Slice (pairs_less keyOf valueOf sortFn) ps) n c"
  shows "SortPaginate ps keyOf valueOf (Some sortFn) c limit =
    page_of limit (drop n (sort_Slice (pairs_less keyOf valueOf sortFn) ps))"
proof -
  let ?S = "sort_Slice (pairs_less keyOf valueOf sortFn) ps"
  have sorted: "sorted_wrt (pairs_less keyOf valueOf sortFn) ?S"
    using assms(1) by (intro sorted_sort_Slice pairs_less_total) (auto simp: distinct_map)
  have "filter (cursor_keeps keyOf valueOf sortFn c) ?S = drop n ?S"
  proof (cases "n = 0")
    case True
    with assms(2) show ?thesis
      by (auto simp: stands_at_def)
  next
    case False
    then have n: "n - 1 < length ?S" "Suc (n - 1) = n"
      and c: "c = SortKeyCursor (valueOf (?S ! (n - 1))) (keyOf (?S ! (n - 1)))"
      using assms(2) by (auto simp: stands_at_def)
    have "filter (cursor_keeps keyOf valueOf sortFn c) ?S =
        filter (pairs_less keyOf valueOf sortFn (?S ! (n - 1))) ?S"
      unfolding c by (rule filter_cong) (simp_all only: cursor_keeps_pair)
    also have "\<dots> = drop (Suc (n - 1)) ?S"
      by (rule filter_after_nth [OF sorted n(1)]) (auto simp: pairs_less_irrefl intro: pairs_less_trans)
    finally show ?thesis
      using n(2) by simp
  qed
  then show ?thesis
    by (simp add: SortPaginate_def page_of_def Let_def)
qed

end

lemma LastPairCursor_stands:
  assumes "0 < limit" and "limit < int (length (drop n S))"
    and "take (nat limit) page = take (nat limit) (drop n S)" and "limit < int (length page)"
  shows "stands_at keyOf valueOf S (n + nat limit) (LastPairCursor page keyOf valueOf limit)"
proof -
  let ?i = "nat (limit - 1)"
  have i: "?i < nat limit" "nat limit - 1 = ?i"
    using assms(1) by auto
  have "page ! ?i = take (nat limit) page ! ?i"
    using i by simp
  also have "\<dots> = S ! (n + ?i)"
    unfolding assms(3) using i assms(2) by simp
  also have "n + ?i = n + nat limit - 1"
    using assms(1) by auto
  finally have nth: "page ! ?i = S ! (n + nat limit - 1)" .
  have "page \<noteq> []"
    using assms(1,4) by auto
  then have "LastPairCursor page keyOf valueOf limit =
      SortKeyCursor (valueOf (page ! ?i)) (keyOf (page ! ?i))"
    using assms(1,4) by (simp add: LastPairCursor_def Let_def)
  then show ?thesis
    using assms(1,2) nth by (simp add: stands_at_def)
qed

section \<open>Scans and their pages\<close>

definition matching :: "('v option \<Rightarrow> bool) option \<Rightarrow> ('k \<times> 'v option) \<Rightarrow> bool" where
  "matching filterFn p = (case filterFn of None \<Rightarrow> True | Some f \<Rightarrow> f (snd p))"

definition scan_order :: "('k \<Rightarrow> string) \<Rightarrow> ('v option \<Rightarrow> 'v option \<Rightarrow> int) \<Rightarrow>
    ('k \<times> 'v option) \<Rightarrow> ('k \<times> 'v option) \<Rightarrow> bool" where
  "scan_order sprint sortFn = pairs_less (\<lambda>p. sprint (fst p)) snd sortFn"

definition sorted_matches :: "('k \<Rightarrow> string) \<Rightarrow> ('v option \<Rightarrow> bool) option \<Rightarrow>
    ('v option \<Rightarrow> 'v option \<Rightarrow> int) \<Rightarrow> ('k, 'v) kv_map \<Rightarrow> ('k, 'v) kv_map" where
  "sorted_matches sprint filterFn sortFn store =
     sort_Slice (scan_order sprint sortFn) (filter (matching filterFn) store)"

text \<open>Keys with distinct printed forms.\<close>

definition printed_distinct :: "('k \<Rightarrow> string) \<Rightarrow> ('k, 'v) kv_map \<Rightarrow> bool" where
  "printed_distinct sprint store \<longleftrightarrow> distinct (map (\<lambda>p. sprint (fst p)) store)"

lemma printed_distinct_filter:
  "printed_distinct sprint store \<Longrightarrow> printed_distinct sprint (filter P store)"
  by (simp add: printed_distinct_def distinct_map_filter)

lemma printed_distinct_perm:
  "mset xs = mset ys \<Longrightarrow> printed_distinct sprint xs \<longleftrightarrow> printed_distinct sprint ys"
  unfolding printed_distinct_def by (metis mset_eq_imp_distinct_iff mset_map)

text \<open>Following the cursors of successive pages until a page reports that nothing is left.\<close>

fun scan_pages ::
  "nat \<Rightarrow> (nat \<Rightarrow> 'v scan_cursor \<Rightarrow> 'v ScanResult) \<Rightarrow> 'v scan_cursor \<Rightarrow> 'v option list option" where
  "scan_pages 0 scan c = None"
| "scan_pages (Suc n) scan c =
     (let r = scan n c in
      if sr_HasMore r then
        (case scan_pages n scan (sr_NextCursor r) of
           None \<Rightarrow> None | Some items \<Rightarrow> Some (sr_Items r @ items))
      else Some (sr_Items r))"

context comparator
begin

lemma sorted_matches_perm:
  assumes "printed_distinct sprint store" and "rearranges order"
  shows "sorted_matches sprint filterFn sortFn (order store) = sorted_matches sprint filterFn sortFn store"
proof -
  let ?m = "filter (matching filterFn) store"
  have dist: "distinct (map (\<lambda>p. sprint (fst p)) ?m)"
    using printed_distinct_filter [OF assms(1)] by (simp add: printed_distinct_def)
  have "mset (filter (matching filterFn) (order store)) = mset ?m"
    using assms(2) by (simp add: rearranges_def)
  then show ?thesis
    unfolding sorted_matches_def scan_order_def
    by (intro sort_Slice_perm pairs_less_total [OF dist]) (use dist in \<open>auto simp: distinct_map\<close>)
qed

lemma MapScan_page:
  assumes store: "md_maps (me_data e) col = Some store" and dist: "printed_distinct sprint store"
    and order: "rearranges order"
    and at: "stands_at (\<lambda>p. sprint (fst p)) snd (sorted_matches sprint filterFn sortFn store) n c"
  shows "MapScan sprint order e col filterFn (Some sortFn) c limit =
    (let page = page_of limit (drop n (sorted_matches sprint filterFn sortFn store)) in
     (PairsToScanResult page snd limit)
       \<lparr> sr_NextCursor := LastPairCursor page (\<lambda>p. sprint (fst p)) snd limit \<rparr>)"
proof -
  let ?m = "filter (matching filterFn) (order store)"
  let ?S = "sorted_matches sprint filterFn sortFn"
  have pairs: "filter (\<lambda>(k, v). case filterFn of None \<Rightarrow> True | Some f \<Rightarrow> f v) (order store) = ?m"
    by (rule filter_cong) (auto simp: matching_def split: option.split)
  have "printed_distinct sprint (order store)"
    using dist order printed_distinct_perm unfolding rearranges_def by blast
  then have d: "distinct (map (\<lambda>p. sprint (fst p)) ?m)"
    using printed_distinct_filter unfolding printed_distinct_def by blast
  have S: "sort_Slice (pairs_less (\<lambda>p. sprint (fst p)) snd sortFn) ?m = ?S store"
    using sorted_matches_perm [OF dist order, of filterFn]
    by (simp add: sorted_matches_def scan_order_def)
  have "SortPaginate ?m (\<lambda>p. sprint (fst p)) snd (Some sortFn) c limit = page_of limit (drop n (?S store))"
    using SortPaginate_drop [OF d, of snd n c limit] at by (simp add: S)
  then show ?thesis
    by (simp add: MapScan_def store pairs Let_def)
qed

lemma MapScan_unlimited:
  assumes "md_maps (me_data e) col = Some store" and "printed_distinct sprint store"
    and "rearranges order" and "limit \<le> 0"
  shows "sr_Items (MapScan sprint order e col filterFn (Some sortFn) NoCursor limit) =
    map snd (sorted_matches sprint filterFn sortFn store)"
  using MapScan_page [OF assms(1-3), of filterFn 0 NoCursor limit] assms(4)
  by (simp add: stands_at_def page_of_all PairsToScanResult_def Let_def)

lemma scan_pages_from:
  assumes store: "md_maps (me_data e) col = Some store" and dist: "printed_distinct sprint store"
    and order: "\<And>i. rearranges (order i)" and limit: "0 < limit" "limit \<le> MaxInt"
  shows "stands_at (\<lambda>p. sprint (fst p)) snd (sorted_matches sprint filterFn sortFn store) n c \<Longrightarrow>
    length (sorted_matches sprint filterFn sortFn store) - n < fuel \<Longrightarrow>
    scan_pages fuel (\<lambda>i c. MapScan sprint (order i) e col filterFn (Some sortFn) c limit) c =
      Some (map snd (drop n (sorted_matches sprint filterFn sortFn store)))"
proof (induction fuel arbitrary: n c)
  case (Suc fuel)
  let ?S = "sorted_matches sprint filterFn sortFn store"
  let ?scan = "\<lambda>i c. MapScan sprint (order i) e col filterFn (Some sortFn) c limit"
  let ?r = "?scan fuel c"
  let ?page = "page_of limit (drop n ?S)"
  note r = MapScan_page [OF store dist order [of fuel] Suc.prems(1), of limit]
  note page = page_of_take [OF limit, of "drop n ?S"]
  have more: "sr_HasMore ?r \<longleftrightarrow> limit < int (length (drop n ?S))"
    using limit page(2) by (simp add: r PairsToScanResult_def Let_def)
  show ?case
  proof (cases "limit < int (length (drop n ?S))")
    case True
    have items: "sr_Items ?r = map snd (take (nat limit) (drop n ?S))"
      using True limit page by (simp add: r PairsToScanResult_def Let_def)
    have "stands_at (\<lambda>p. sprint (fst p)) snd ?S (n + nat limit) (sr_NextCursor ?r)"
      using LastPairCursor_stands [OF limit(1) True page(1)] True page(2)
      by (simp only: r Let_def) simp
    moreover have "length ?S - (n + nat limit) < fuel"
      using Suc.prems(2) limit True by auto
    ultimately have "scan_pages fuel ?scan (sr_NextCursor ?r) = Some (map snd (drop (n + nat limit) ?S))"
      by (rule Suc.IH)
    then have "scan_pages (Suc fuel) ?scan c =
        Some (map snd (take (nat limit) (drop n ?S)) @ map snd (drop (n + nat limit) ?S))"
      using True more by (simp add: items Let_def)
    also have "map snd (take (nat limit) (drop n ?S)) @ map snd (drop (n + nat limit) ?S) =
        map snd (drop n ?S)"
      by (metis add.commute append_take_drop_id drop_drop map_append)
    finally show ?thesis .
  next
    case False
    have "?page = drop n ?S"
      using False limit by (auto simp: page_of_def truncate_limit_def Let_def)
    then have "sr_Items ?r = map snd (drop n ?S)"
      using False by (simp add: r PairsToScanResult_def Let_def)
    then show ?thesis
      using False more by (simp add: Let_def)
  qed
qed simp

lemma sorted_matches_sorted:
  assumes "printed_distinct sprint store"
  shows "sorted_wrt (\<lambda>a b. sortFn a b \<le> 0) (map snd (sorted_matches sprint filterFn sortFn store))"
proof -
  let ?m = "filter (matching filterFn) store"
  have dist: "distinct (map (\<lambda>p. sprint (fst p)) ?m)"
    using printed_distinct_filter [OF assms] by (simp add: printed_distinct_def)
  have "sorted_wrt (pairs_less (\<lambda>p. sprint (fst p)) snd sortFn)
      (sort_Slice (pairs_less (\<lambda>p. sprint (fst p)) snd sortFn) ?m)"
    using dist by (intro sorted_sort_Slice pairs_less_total) (auto simp: distinct_map)
  then show ?thesis
    unfolding sorted_matches_def scan_order_def sorted_wrt_map
    by (rule sorted_wrt_mono_rel [rotated]) (drule pairs_less_le, simp)
qed

end

lemma mset_sorted_matches:
  "mset (sorted_matches sprint filterFn sortFn store) = filter_mset (matching filterFn) (mset store)"
  by (simp add: sorted_matches_def)

lemma length_sorted_matches: "length (sorted_matches sprint filterFn sortFn store) \<le> length store"
  by (simp add: sorted_matches_def)

text \<open>
  C23. Paging a map with compound cursors: for every comparator, filter, page size and order of
  iteration on each page, following the cursors serves the matching values exactly once each, in
  the order of the comparator, and ends after at most one page per stored item; the values
  served are those of one unlimited scan.
\<close>

theorem MapScan_pages_complete:
  assumes "\<And>a b. sortFn a b < 0 \<longleftrightarrow> 0 < sortFn b a"
    and "\<And>a b c. sortFn a b \<le> 0 \<Longrightarrow> sortFn b c \<le> 0 \<Longrightarrow> sortFn a c \<le> 0"
    and "md_maps (me_data e) col = Some store" and "printed_distinct sprint store"
    and "\<And>i. rearranges (order i)" and "0 < limit" and "limit \<le> MaxInt" and "length store < fuel"
  shows "\<exists>items.
    scan_pages fuel (\<lambda>i c. MapScan sprint (order i) e col filterFn (Some sortFn) c limit) NoCursor =
      Some items \<and>
    items = sr_Items (MapScan sprint (order 0) e col filterFn (Some sortFn) NoCursor 0) \<and>
    mset items = image_mset snd (filter_mset (matching filterFn) (mset store)) \<and>
    sorted_wrt (\<lambda>a b. sortFn a b \<le> 0) items"
proof -
  have "comparator sortFn"
    by unfold_locales (use assms(1,2) in blast)+
  note loc = comparator.scan_pages_from [OF this assms(3,4)]
    comparator.MapScan_unlimited [OF this assms(3,4)] comparator.sorted_matches_sorted [OF this assms(4)]
  have "stands_at (\<lambda>p. sprint (fst p)) snd (sorted_matches sprint filterFn sortFn store) 0 NoCursor"
    by (simp add: stands_at_def)
  from loc(1) [OF assms(5-7) this, of fuel] assms(8) length_sorted_matches [of sprint filterFn sortFn store]
  have "scan_pages fuel (\<lambda>i c. MapScan sprint (order i) e col filterFn (Some sortFn) c limit) NoCursor =
      Some (map snd (sorted_matches sprint filterFn sortFn store))"
    by simp
  then show ?thesis
    using loc(2) [OF assms(5), of 0 0 filterFn] loc(3) [of filterFn]
    by (simp add: mset_sorted_matches)
qed

theorem MapScan_pages_complete_witness:
  "\<exists>items.
    scan_pages 4 (\<lambda>i c. MapScan id (\<lambda>xs. if even i then xs else rev xs)
        (put_map ''t'' [(''c'', Some 21), (''a'', Some 12), (''b'', Some 11)] NewMemoryEngine) ''t''
        None (Some (\<lambda>a b :: int option. the a div 10 - the b div 10)) c 1) NoCursor = Some items \<and>
    items = sr_Items (MapScan id (\<lambda>xs. if even (0 :: nat) then xs else rev xs)
        (put_map ''t'' [(''c'', Some 21), (''a'', Some 12), (''b'', Some 11)] NewMemoryEngine) ''t''
        None (Some (\<lambda>a b. the a div 10 - the b div 10)) NoCursor 0) \<and>
    mset items = image_mset snd (filter_mset (matching None)
      (mset [(''c'', Some 21), (''a'', Some 12), (''b'', Some 11)])) \<and>
    sorted_wrt (\<lambda>a b. the a div 10 - the b div 10 \<le> 0) items"
  by (rule MapScan_pages_complete [where order = "\<lambda>i xs. if even i then xs else rev xs"])
    (simp_all add: put_map_def NewMemoryEngine_def newMemData_def printed_distinct_def
      rearranges_def MaxInt_def)

end
