(* ===== verification/VersionedCells.thy ===== *)
theory VersionedCells
  imports MemEngine
begin

text \<open>
  Versioned cells of the in-memory engine (\<open>src/metaengine/version_chain.go\<close>,
  \<open>memory_versioned.go\<close>): reads as of an instant, histories, writes with an explicit timestamp and
  their retention. The main result relates the binary searches over sorted chains to the list of
  all writes in the order they arrived.
\<close>

section \<open>Operations\<close>

record 'v CellVersion =
  cv_Timestamp :: instant
  cv_Value :: "'v option"

definition asOf :: "'v versionChain \<Rightarrow> instant \<Rightarrow> 'v option \<times> bool" where
  "asOf entries t =
     (let idx = sort_Search (length entries) (\<lambda>i. After (ve_ts (entries ! i)) t) in
      if idx = 0 then (None, False)
      else
        let entry = entries ! (idx - 1) in
        if ve_value entry = None then (None, False) else (ve_value entry, True))"

fun history_loop :: "'v versionChain \<Rightarrow> instant \<Rightarrow> nat \<Rightarrow> 'v CellVersion list" where
  "history_loop entries lo 0 = []"
| "history_loop entries lo (Suc i) =
     (if \<not> ve_ts (entries ! i) < lo then
        \<lparr> cv_Timestamp = ve_ts (entries ! i), cv_Value = ve_value (entries ! i) \<rparr>
          # history_loop entries lo i
      else [])"

definition history :: "'v versionChain \<Rightarrow> instant \<Rightarrow> instant \<Rightarrow> 'v CellVersion list" where
  "history entries lo hi =
     (let idx = sort_Search (length entries) (\<lambda>i. After (ve_ts (entries ! i)) hi) in
      history_loop entries lo idx)"

definition syncLatestLocked ::
  "string \<Rightarrow> 'k \<Rightarrow> 'v versionChain \<Rightarrow> ('k, 'v) memoryEngine \<Rightarrow> ('k, 'v) memoryEngine outcome" where
  "syncLatestLocked col key chain e =
     (let store = getMapLocked e col in
      if chain = [] then Panic
      else
        let tail = chain ! (length chain - 1) in
        if ve_value tail = None then Ok (put_map col (map_delete key store) e)
        else Ok (put_map col (map_put key (ve_value tail) store) e))"

definition applyVersionLocked ::
  "('k \<Rightarrow> string) \<Rightarrow> ('k, 'v) memoryEngine \<Rightarrow> string \<Rightarrow> 'k \<Rightarrow> 'v option \<Rightarrow> instant \<Rightarrow>
     ('k, 'v) memoryEngine outcome" where
  "applyVersionLocked sprint e col key value ts =
     (if me_versions e = None then
        let store = getMapLocked e col in
        if value = None then Ok (put_map col (map_delete key store) e)
        else Ok (put_map col (map_put key value store) e)
      else
        let chain = insertAt \<lparr> ve_ts = ts, ve_value = value \<rparr> (chainLocked e col (sprint key));
            trimmed = trimRetentionLocked e chain ts in
        syncLatestLocked col key trimmed (put_chain col (sprint key) trimmed e))"

definition MapSetAt ::
  "('k \<Rightarrow> string) \<Rightarrow> ('k, 'v) memoryEngine \<Rightarrow> string \<Rightarrow> 'k \<Rightarrow> 'v option \<Rightarrow> instant \<Rightarrow>
     ('k, 'v) memoryEngine outcome" where
  "MapSetAt sprint e col key value ts = applyVersionLocked sprint e col key value ts"

definition MapDeleteAt ::
  "('k \<Rightarrow> string) \<Rightarrow> ('k, 'v) memoryEngine \<Rightarrow> string \<Rightarrow> 'k \<Rightarrow> instant \<Rightarrow>
     ('k, 'v) memoryEngine outcome" where
  "MapDeleteAt sprint e col key ts = applyVersionLocked sprint e col key None ts"

definition MapUpdateAt ::
  "('k \<Rightarrow> string) \<Rightarrow> ('k, 'v) memoryEngine \<Rightarrow> string \<Rightarrow> 'k \<Rightarrow> ('v option \<Rightarrow> 'v option) \<Rightarrow> instant \<Rightarrow>
     ('k, 'v) memoryEngine" where
  "MapUpdateAt sprint e col key update ts =
     (let store = getMapLocked e col;
          newVal = update (store_get store key);
          e1 = put_map col (map_put key newVal store) e in
      if me_versions e1 = None then e1
      else recordVersionAt col (sprint key) newVal ts e1)"

definition chainFor :: "('k, 'v) memoryEngine \<Rightarrow> string \<Rightarrow> string \<Rightarrow> 'v versionChain option" where
  "chainFor e col key =
     (case me_versions e of
        None \<Rightarrow> None
      | Some vs \<Rightarrow> (case vs col of None \<Rightarrow> None | Some collections \<Rightarrow> collections key))"

definition MapGetAsOf ::
  "('k, 'v) memoryEngine \<Rightarrow> string \<Rightarrow> string \<Rightarrow> instant \<Rightarrow> 'v option outcome" where
  "MapGetAsOf e col key t =
     (case chainFor e col key of
        None \<Rightarrow> Fail Engine_ErrNotFound
      | Some chain \<Rightarrow>
          (let (val, exists) = asOf chain t in
           if \<not> exists then Fail Engine_ErrNotFound else Ok val))"

definition MapExistsAsOf :: "('k, 'v) memoryEngine \<Rightarrow> string \<Rightarrow> string \<Rightarrow> instant \<Rightarrow> bool" where
  "MapExistsAsOf e col key t =
     (case chainFor e col key of None \<Rightarrow> False | Some chain \<Rightarrow> snd (asOf chain t))"

definition MapHistory ::
  "('k, 'v) memoryEngine \<Rightarrow> string \<Rightarrow> string \<Rightarrow> instant \<Rightarrow> instant \<Rightarrow> 'v CellVersion list" where
  "MapHistory e col key lo hi =
     (case chainFor e col key of None \<Rightarrow> [] | Some chain \<Rightarrow> history chain lo hi)"

definition CellVersioningEnabled :: "('k, 'v) memoryEngine \<Rightarrow> bool" where
  "CellVersioningEnabled e \<longleftrightarrow> me_versions e \<noteq> None"

definition NewMemoryEngineWithVersioning :: "RetentionPolicy option \<Rightarrow> ('k, 'v) memoryEngine" where
  "NewMemoryEngineWithVersioning retention =
     NewMemoryEngine \<lparr> me_versions := Some Map.empty, me_retention := retention \<rparr>"

section \<open>Chains\<close>

abbreviation chain_sorted :: "'v versionChain \<Rightarrow> bool" where
  "chain_sorted c \<equiv> sorted (map ve_ts c)"

lemma After_mono: "chain_sorted c \<Longrightarrow> sorted_wrt (\<lambda>x y. After (ve_ts x) t \<longrightarrow> After (ve_ts y) t) c"
  unfolding sorted_map After_def by (erule sorted_wrt_mono_rel [rotated]) auto

lemmas chain_take = take_sort_Search [OF After_mono] and chain_drop = drop_sort_Search [OF After_mono]

lemma chain_idx_le: "chain_sorted c \<Longrightarrow> sort_Search (length c) (\<lambda>i. After (ve_ts (c ! i)) t) \<le> length c"
  by (rule sort_Search_le [OF After_mono])

lemma insertAt_filter:
  "chain_sorted c \<Longrightarrow> insertAt w c =
     filter (\<lambda>x. ve_ts x \<le> ve_ts w) c @ [w] @ filter (\<lambda>x. ve_ts w < ve_ts x) c"
  by (simp add: insertAt_def Let_def chain_take chain_drop) (simp add: After_def not_less)

lemma insertAt_sorted: "chain_sorted c \<Longrightarrow> chain_sorted (insertAt w c)"
  by (auto simp: insertAt_filter sorted_append sorted_filter)

lemma insertAt_ne: "insertAt w c \<noteq> []"
  by (simp add: insertAt_def Let_def)

lemma length_insertAt: "chain_sorted c \<Longrightarrow> length (insertAt w c) = Suc (length c)"
  using chain_idx_le [of c "ve_ts w"] by (simp add: insertAt_def Let_def)

text \<open>The newest of the entries that satisfy a predicate, a later write winning a tie.\<close>

definition newest_step ::
  "('v versionedEntry \<Rightarrow> bool) \<Rightarrow> 'v versionedEntry \<Rightarrow> 'v versionedEntry option \<Rightarrow> 'v versionedEntry option" where
  "newest_step P w acc =
     (if P w \<and> (case acc of None \<Rightarrow> True | Some a \<Rightarrow> ve_ts a \<le> ve_ts w) then Some w else acc)"

definition newest_write :: "('v versionedEntry \<Rightarrow> bool) \<Rightarrow> 'v versionedEntry list \<Rightarrow> 'v versionedEntry option" where
  "newest_write P ws = fold (newest_step P) ws None"

lemma newest_write_Nil [simp]: "newest_write P [] = None"
  by (simp add: newest_write_def)

lemma newest_write_snoc [simp]: "newest_write P (ws @ [w]) = newest_step P w (newest_write P ws)"
  by (simp add: newest_write_def)

definition last_opt :: "'a list \<Rightarrow> 'a option" where
  "last_opt xs = (if xs = [] then None else Some (last xs))"

abbreviation until :: "instant option \<Rightarrow> 'v versionedEntry \<Rightarrow> bool" where
  "until t w \<equiv> (case t of None \<Rightarrow> True | Some t \<Rightarrow> ve_ts w \<le> t)"

lemma insertAt_newest:
  assumes "chain_sorted c"
  shows "last_opt (filter (until t) (insertAt w c)) = newest_step (until t) w (last_opt (filter (until t) c))"
proof -
  let ?low = "filter (\<lambda>x. ve_ts x \<le> ve_ts w) c" and ?high = "filter (\<lambda>x. ve_ts w < ve_ts x) c"
  have c: "c = ?low @ ?high"
    using append_take_drop_id [of "sort_Search (length c) (\<lambda>i. After (ve_ts (c ! i)) (ve_ts w))" c]
    unfolding chain_take [OF assms] chain_drop [OF assms] by (simp add: After_def not_less)
  have split: "filter (until t) c = filter (until t) ?low @ filter (until t) ?high"
    by (subst c) simp
  show ?thesis
  proof (cases "filter (until t) ?high = []")
    case True
    then have "last_opt (filter (until t) c) = last_opt (filter (until t) ?low)"
      using split by simp
    moreover have "ve_ts (last (filter (until t) ?low)) \<le> ve_ts w" if "filter (until t) ?low \<noteq> []"
      using last_in_set [OF that] by auto
    moreover have "filter (until t) (insertAt w c) = filter (until t) ?low @ (if until t w then [w] else [])"
      using True by (simp add: insertAt_filter [OF assms])
    ultimately show ?thesis
      by (auto simp: newest_step_def last_opt_def)
  next
    case False
    then have "last (filter (until t) ?high) \<in> set (filter (until t) ?high)"
      by (rule last_in_set)
    then have "until t w" "ve_ts w < ve_ts (last (filter (until t) ?high))"
      by (auto split: option.splits)
    moreover have "last (filter (until t) c) = last (filter (until t) ?high)" "filter (until t) c \<noteq> []"
      unfolding split using False by simp_all
    moreover have "last (filter (until t) (insertAt w c)) = last (filter (until t) ?high)"
      "filter (until t) (insertAt w c) \<noteq> []"
      using False by (auto simp: insertAt_filter [OF assms])
    ultimately show ?thesis
      by (simp add: newest_step_def last_opt_def)
  qed
qed

lemma asOf_last:
  assumes "chain_sorted c"
  shows "asOf c t = (case last_opt (filter (until (Some t)) c) of
      None \<Rightarrow> (None, False)
    | Some w \<Rightarrow> (ve_value w, ve_value w \<noteq> None))"
proof -
  let ?idx = "sort_Search (length c) (\<lambda>i. After (ve_ts (c ! i)) t)"
  have "take ?idx c = filter (until (Some t)) c"
    unfolding chain_take [OF assms] by (simp add: After_def not_less)
  moreover have "last (take ?idx c) = c ! (?idx - 1)" "take ?idx c \<noteq> []" if "?idx \<noteq> 0"
    using that chain_idx_le [OF assms, of t] by (cases c; simp add: last_conv_nth min_def)+
  ultimately show ?thesis
    by (auto simp: asOf_def Let_def last_opt_def split: if_splits)
qed

lemma history_loop_rev:
  "n \<le> length c \<Longrightarrow> chain_sorted c \<Longrightarrow>
     history_loop c lo n =
       map (\<lambda>w. \<lparr> cv_Timestamp = ve_ts w, cv_Value = ve_value w \<rparr>)
         (rev (filter (\<lambda>w. lo \<le> ve_ts w) (take n c)))"
proof (induction n)
  case (Suc n)
  show ?case
  proof (cases "lo \<le> ve_ts (c ! n)")
    case True
    with Suc show ?thesis
      by (simp add: take_Suc_conv_app_nth)
  next
    case False
    have "ve_ts w \<le> ve_ts (c ! n)" if w: "w \<in> set (take n c)" for w
    proof -
      obtain i where i: "i < n" "w = c ! i"
        using w Suc.prems(1) by (auto simp: in_set_conv_nth)
      then show ?thesis
        using sorted_nth_mono [OF Suc.prems(2), of i n] Suc.prems(1) by simp
    qed
    then have "filter (\<lambda>w. lo \<le> ve_ts w) (take n c) = []"
      using False by (force simp: filter_empty_conv)
    with False Suc show ?thesis
      by (simp add: take_Suc_conv_app_nth)
  qed
qed simp

lemma history_filter:
  assumes "chain_sorted c"
  shows "history c lo hi =
    map (\<lambda>w. \<lparr> cv_Timestamp = ve_ts w, cv_Value = ve_value w \<rparr>)
      (rev (filter (\<lambda>w. lo \<le> ve_ts w \<and> ve_ts w \<le> hi) c))"
  using history_loop_rev [OF chain_idx_le [OF assms, of hi] assms, of lo]
  by (simp add: history_def Let_def chain_take [OF assms] filter_filter)
    (simp add: After_def not_less conj_commute)

section \<open>Retention\<close>

lemma trim_suffix:
  assumes "chain_sorted c" and "c \<noteq> []"
  shows "\<exists>n < length c. trimRetentionLocked e c ts = drop n c"
proof (cases "me_retention e")
  case None
  then show ?thesis
    using assms by (auto simp: trimRetentionLocked_def intro!: exI [of _ 0])
next
  case (Some p)
  have "\<exists>n < length c. trim_MaxVersions p c = drop n c"
  proof (cases "0 < rp_MaxVersions p \<and> rp_MaxVersions p < int (length c)")
    case True
    then show ?thesis
      using assms(2)
      by (intro exI [of _ "length c - nat (rp_MaxVersions p)"]) (auto simp: trim_MaxVersions_def Let_def)
  next
    case False
    then show ?thesis
      using assms(2) by (intro exI [of _ 0]) (auto simp: trim_MaxVersions_def)
  qed
  then obtain n where n: "n < length c" "trim_MaxVersions p c = drop n c"
    by blast
  let ?d = "drop n c"
  define idx where "idx = sort_Search (length ?d) (\<lambda>i. After (ve_ts (?d ! i)) (ts - rp_MaxAge p))"
  define m where "m = (if 0 < rp_MaxAge p then
      if idx = 0 then 0 else if idx < length ?d then idx else length ?d - 1 else 0)"
  have "trim_MaxAge p ?d ts = drop m ?d"
    unfolding trim_MaxAge_def Let_def idx_def [symmetric] by (simp add: m_def)
  moreover have "m < length ?d"
    using n(1) by (auto simp: m_def)
  ultimately have "\<exists>m < length ?d. trim_MaxAge p ?d ts = drop m ?d"
    by blast
  then obtain m where "m < length ?d" "trim_MaxAge p ?d ts = drop (m + n) c"
    by (auto simp: add.commute)
  with Some n show ?thesis
    by (auto simp: trimRetentionLocked_def intro!: exI [of _ "m + n"])
qed

corollary trim_keeps_newest:
  assumes "chain_sorted c" and "c \<noteq> []"
  shows "trimRetentionLocked e c ts \<noteq> []" and "last (trimRetentionLocked e c ts) = last c"
    and "chain_sorted (trimRetentionLocked e c ts)"
  using trim_suffix [OF assms, of e ts] assms(1) by (auto simp: drop_map [symmetric])

section \<open>Sequences of writes\<close>

text \<open>
  The six ways to write a cell: live writes stamped with the wall clock (the first argument) and
  writes with an explicit timestamp. \<open>written\<close> is the cell and the entry an operation records.
\<close>

datatype ('k, 'v) cell_op =
    OpSet instant string 'k "'v option"
  | OpDelete instant string 'k
  | OpUpdate instant string 'k "'v option \<Rightarrow> 'v option"
  | OpSetAt string 'k "'v option" instant
  | OpDeleteAt string 'k instant
  | OpUpdateAt string 'k "'v option \<Rightarrow> 'v option" instant

fun apply_op :: "('k \<Rightarrow> string) \<Rightarrow> ('k, 'v) memoryEngine \<Rightarrow> ('k, 'v) cell_op \<Rightarrow>
    ('k, 'v) memoryEngine outcome" where
  "apply_op sprint e (OpSet now col key v) = Ok (MapSet sprint now e col key v)"
| "apply_op sprint e (OpDelete now col key) = Ok (MapDelete sprint now e col key)"
| "apply_op sprint e (OpUpdate now col key f) =
     Ok (fst (MapUpdate sprint now e col key (\<lambda>prev. (f prev, ()))))"
| "apply_op sprint e (OpSetAt col key v ts) = MapSetAt sprint e col key v ts"
| "apply_op sprint e (OpDeleteAt col key ts) = MapDeleteAt sprint e col key ts"
| "apply_op sprint e (OpUpdateAt col key f ts) = Ok (MapUpdateAt sprint e col key f ts)"

definition latest :: "('k, 'v) memoryEngine \<Rightarrow> string \<Rightarrow> 'k \<Rightarrow> 'v option" where
  "latest e col key = store_get (getMapLocked e col) key"

lemma MapGet_latest: "fst (MapGet e col key) = latest e col key"
  by (simp add: MapGet_def latest_def getMapLocked_def store_get_def split: option.split)

fun op_col :: "('k, 'v) cell_op \<Rightarrow> string" where
  "op_col (OpSet now col key v) = col"
| "op_col (OpDelete now col key) = col"
| "op_col (OpUpdate now col key f) = col"
| "op_col (OpSetAt col key v ts) = col"
| "op_col (OpDeleteAt col key ts) = col"
| "op_col (OpUpdateAt col key f ts) = col"

fun op_key :: "('k, 'v) cell_op \<Rightarrow> 'k" where
  "op_key (OpSet now col key v) = key"
| "op_key (OpDelete now col key) = key"
| "op_key (OpUpdate now col key f) = key"
| "op_key (OpSetAt col key v ts) = key"
| "op_key (OpDeleteAt col key ts) = key"
| "op_key (OpUpdateAt col key f ts) = key"

fun op_entry :: "('k, 'v) memoryEngine \<Rightarrow> ('k, 'v) cell_op \<Rightarrow> 'v versionedEntry" where
  "op_entry e (OpSet now col key v) = \<lparr> ve_ts = now, ve_value = v \<rparr>"
| "op_entry e (OpDelete now col key) = \<lparr> ve_ts = now, ve_value = None \<rparr>"
| "op_entry e (OpUpdate now col key f) = \<lparr> ve_ts = now, ve_value = f (latest e col key) \<rparr>"
| "op_entry e (OpSetAt col key v ts) = \<lparr> ve_ts = ts, ve_value = v \<rparr>"
| "op_entry e (OpDeleteAt col key ts) = \<lparr> ve_ts = ts, ve_value = None \<rparr>"
| "op_entry e (OpUpdateAt col key f ts) = \<lparr> ve_ts = ts, ve_value = f (latest e col key) \<rparr>"

text \<open>Only \<open>MapSetAt\<close> and \<open>MapDeleteAt\<close> bring the latest view in line with the chain.\<close>

fun syncs :: "('k, 'v) cell_op \<Rightarrow> bool" where
  "syncs (OpSetAt col key v ts) = True"
| "syncs (OpDeleteAt col key ts) = True"
| "syncs op = False"

type_synonym 'v write_log = "((string \<times> string) \<times> 'v versionedEntry) list"

definition written :: "('k \<Rightarrow> string) \<Rightarrow> ('k, 'v) memoryEngine \<Rightarrow> ('k, 'v) cell_op \<Rightarrow>
    (string \<times> string) \<times> 'v versionedEntry" where
  "written sprint e op = ((op_col op, sprint (op_key op)), op_entry e op)"

definition writes_to :: "string \<times> string \<Rightarrow> 'v write_log \<Rightarrow> 'v versionedEntry list" where
  "writes_to cell log = map snd (filter (\<lambda>p. fst p = cell) log)"

lemma writes_to_Nil [simp]: "writes_to cell [] = []"
  by (simp add: writes_to_def)

lemma writes_to_snoc [simp]:
  "writes_to cell (log @ [written sprint e op]) =
     writes_to cell log @ (if cell = (op_col op, sprint (op_key op)) then [op_entry e op] else [])"
  by (auto simp: writes_to_def written_def)

text \<open>Running a sequence of operations, with the log of what they record.\<close>

fun run_ops :: "('k \<Rightarrow> string) \<Rightarrow> ('k, 'v) memoryEngine \<Rightarrow> ('k, 'v) cell_op list \<Rightarrow>
    ('k, 'v) memoryEngine outcome" where
  "run_ops sprint e [] = Ok e"
| "run_ops sprint e (op # ops) = obind (apply_op sprint e op) (\<lambda>e'. run_ops sprint e' ops)"

fun op_log :: "('k \<Rightarrow> string) \<Rightarrow> ('k, 'v) memoryEngine \<Rightarrow> ('k, 'v) cell_op list \<Rightarrow> 'v write_log" where
  "op_log sprint e [] = []"
| "op_log sprint e (op # ops) =
     written sprint e op # (case apply_op sprint e op of Ok e' \<Rightarrow> op_log sprint e' ops | _ \<Rightarrow> [])"

section \<open>One operation\<close>

lemma latest_put_map [simp]: "latest (put_map col store e) col' key =
    (if col' = col then store_get store key else latest e col' key)"
  by (simp add: latest_def put_map_def getMapLocked_def)

lemma latest_put_chain [simp]: "latest (put_chain col key c e) col' key' = latest e col' key'"
  by (simp add: latest_def put_chain_def getMapLocked_def split: option.split)

lemma store_get_put [simp]: "store_get (map_put k v ps) k' = (if k' = k then v else store_get ps k')"
  by (simp add: store_get_def)

lemma store_get_delete [simp]: "store_get (map_delete k ps) k' = (if k' = k then None else store_get ps k')"
  by (simp add: store_get_def)

lemma put_frame [simp]:
  "me_versions (put_map col store e) = me_versions e"
  "me_retention (put_map col store e) = me_retention e"
  "me_retention (put_chain col key c e) = me_retention e"
  "me_versions (put_chain col key c e) = None \<longleftrightarrow> me_versions e = None"
  "chainLocked (put_map col store e) = chainLocked e"
  "trimRetentionLocked (put_map col store e) = trimRetentionLocked e"
  by (auto simp: put_map_def put_chain_def chainLocked_def trimRetentionLocked_def fun_eq_iff
      split: option.split)

lemma chainLocked_put_chain:
  "me_versions e \<noteq> None \<Longrightarrow> chainLocked (put_chain col key c e) col' key' =
     (if col' = col \<and> key' = key then c else chainLocked e col' key')"
  by (auto simp: chainLocked_def put_chain_def split: option.split)

lemma chain_ne: "chain_sorted c \<Longrightarrow> trimRetentionLocked e (insertAt w c) ts \<noteq> []"
  by (simp add: trim_keeps_newest insertAt_sorted insertAt_ne)

lemmas write_defs = MapSet_def MapDelete_def MapUpdate_def MapUpdateAt_def MapSetAt_def MapDeleteAt_def
  applyVersionLocked_def syncLatestLocked_def recordVersionNow_def recordVersionAt_def Let_def

definition op_chain :: "('k \<Rightarrow> string) \<Rightarrow> ('k, 'v) memoryEngine \<Rightarrow> ('k, 'v) cell_op \<Rightarrow> 'v versionChain" where
  "op_chain sprint e op =
     (let w = op_entry e op in
      trimRetentionLocked e (insertAt w (chainLocked e (op_col op) (sprint (op_key op)))) (ve_ts w))"

lemma syncLatestLocked_effect:
  assumes "chain \<noteq> []"
  shows "\<exists>e'. syncLatestLocked col key chain e = Ok e' \<and> me_versions e' = me_versions e \<and>
    me_retention e' = me_retention e \<and> chainLocked e' = chainLocked e \<and>
    (\<forall>c k. latest e' c k = (if c = col \<and> k = key then ve_value (last chain) else latest e c k))"
  using assms by (simp add: syncLatestLocked_def Let_def last_conv_nth) (simp add: latest_def)

lemma apply_op_sync:
  assumes "me_versions e \<noteq> None" and "syncs op"
  shows "apply_op sprint e op =
    syncLatestLocked (op_col op) (op_key op) (op_chain sprint e op)
      (put_chain (op_col op) (sprint (op_key op)) (op_chain sprint e op) e)"
  using assms by (cases op)
    (auto simp: MapSetAt_def MapDeleteAt_def applyVersionLocked_def op_chain_def Let_def)

lemma apply_op_live:
  assumes "me_versions e \<noteq> None" and "\<not> syncs op"
  shows "\<exists>store. apply_op sprint e op = Ok (put_chain (op_col op) (sprint (op_key op))
        (op_chain sprint e op) (put_map (op_col op) store e)) \<and>
    (\<forall>k. store_get store k =
      (if k = op_key op then ve_value (op_entry e op) else latest e (op_col op) k))"
  using assms
  by (cases op) (auto simp: write_defs op_chain_def latest_def intro!: exI)

lemma apply_op_effect:
  assumes "me_versions e \<noteq> None" and "chain_sorted (chainLocked e (op_col op) (sprint (op_key op)))"
  shows "\<exists>e'. apply_op sprint e op = Ok e' \<and> me_versions e' \<noteq> None \<and> me_retention e' = me_retention e \<and>
    (\<forall>col key. chainLocked e' col key =
       (if col = op_col op \<and> key = sprint (op_key op) then op_chain sprint e op else chainLocked e col key)) \<and>
    (\<forall>col key. latest e' col key =
       (if col = op_col op \<and> key = op_key op then
          if syncs op then ve_value (last (op_chain sprint e op)) else ve_value (op_entry e op)
        else latest e col key))"
proof (cases "syncs op")
  case True
  let ?e = "put_chain (op_col op) (sprint (op_key op)) (op_chain sprint e op) e"
  have "op_chain sprint e op \<noteq> []"
    unfolding op_chain_def Let_def by (rule chain_ne [OF assms(2)])
  from syncLatestLocked_effect [OF this, of "op_col op" "op_key op" ?e]
  obtain e' where e': "apply_op sprint e op = Ok e'" "me_versions e' = me_versions ?e"
      "me_retention e' = me_retention ?e" "chainLocked e' = chainLocked ?e"
      "\<And>c k. latest e' c k = (if c = op_col op \<and> k = op_key op
         then ve_value (last (op_chain sprint e op)) else latest ?e c k)"
    unfolding apply_op_sync [OF assms(1) True] by blast
  have "me_versions ?e \<noteq> None"
    using assms(1) by simp
  then show ?thesis
    using e' True
    by (intro exI [of _ e']) (simp add: chainLocked_put_chain [OF assms(1)] del: not_None_eq)
next
  case False
  obtain store where app: "apply_op sprint e op = Ok (put_chain (op_col op) (sprint (op_key op))
        (op_chain sprint e op) (put_map (op_col op) store e))"
    and get: "\<And>k. store_get store k =
        (if k = op_key op then ve_value (op_entry e op) else latest e (op_col op) k)"
    using apply_op_live [OF assms(1) False, of sprint] by blast
  let ?e = "put_map (op_col op) store e"
  have "me_versions ?e \<noteq> None"
    using assms(1) by simp
  then show ?thesis
    unfolding app using False assms(1)
    by (intro exI [of _ "put_chain (op_col op) (sprint (op_key op)) (op_chain sprint e op) ?e"])
      (simp add: chainLocked_put_chain get del: not_None_eq)
qed

section \<open>All operations\<close>

text \<open>
  What holds of an engine after the writes of a log: chains are sorted, their last entry is the
  newest write of the cell, and without retention they answer for every instant.
\<close>

definition cells_inv :: "('k, 'v) memoryEngine \<Rightarrow> 'v write_log \<Rightarrow> bool" where
  "cells_inv e log \<longleftrightarrow> me_versions e \<noteq> None \<and>
     (\<forall>col key. chain_sorted (chainLocked e col key) \<and>
       last_opt (chainLocked e col key) = newest_write (until None) (writes_to (col, key) log) \<and>
       (me_retention e = None \<longrightarrow>
         (\<forall>t. last_opt (filter (until t) (chainLocked e col key)) =
           newest_write (until t) (writes_to (col, key) log))))"

lemma cells_inv_step:
  assumes "cells_inv e log"
  shows "\<exists>e'. apply_op sprint e op = Ok e' \<and> cells_inv e' (log @ [written sprint e op]) \<and>
    me_retention e' = me_retention e \<and>
    (\<forall>col key. latest e' col key =
       (if col = op_col op \<and> key = op_key op then
          if syncs op then ve_value (last (chainLocked e' col (sprint key))) else ve_value (op_entry e op)
        else latest e col key))"
proof -
  let ?col = "op_col op" and ?key = "sprint (op_key op)" and ?w = "op_entry e op"
  let ?c = "chainLocked e ?col ?key"
  have vs: "me_versions e \<noteq> None" and sorted: "chain_sorted ?c"
    using assms by (auto simp: cells_inv_def)
  obtain e' where e': "apply_op sprint e op = Ok e'" "me_versions e' \<noteq> None" "me_retention e' = me_retention e"
    and chain: "\<And>col key. chainLocked e' col key =
       (if col = ?col \<and> key = ?key then op_chain sprint e op else chainLocked e col key)"
    and lat: "\<And>col key. latest e' col key =
       (if col = ?col \<and> key = op_key op then
          if syncs op then ve_value (last (op_chain sprint e op)) else ve_value ?w
        else latest e col key)"
    using apply_op_effect [of e op sprint, OF vs sorted] by blast
  note trim = trim_keeps_newest [OF insertAt_sorted [OF sorted, of ?w] insertAt_ne, of e "ve_ts ?w"]
  have ins: "last_opt (filter (until t) (insertAt ?w ?c)) =
      newest_write (until t) (writes_to (?col, ?key) log @ [?w])"
    if "last_opt (filter (until t) ?c) = newest_write (until t) (writes_to (?col, ?key) log)" for t
    using insertAt_newest [OF sorted, of t ?w] that by simp
  have "last_opt (op_chain sprint e op) = last_opt (filter (until None) (insertAt ?w ?c))"
    using trim by (simp add: op_chain_def Let_def last_opt_def insertAt_ne)
  also have "\<dots> = newest_write (until None) (writes_to (?col, ?key) log @ [?w])"
    by (rule ins) (use assms in \<open>simp add: cells_inv_def\<close>)
  finally have new: "last_opt (op_chain sprint e op) =
      newest_write (until None) (writes_to (?col, ?key) log @ [?w])" .
  have asof: "last_opt (filter (until t) (op_chain sprint e op)) =
      newest_write (until t) (writes_to (?col, ?key) log @ [?w])" if "me_retention e = None" for t
    using ins [of t] assms that
    by (simp add: op_chain_def Let_def trimRetentionLocked_def cells_inv_def)
  have "chain_sorted (op_chain sprint e op)"
    using trim(3) by (simp add: op_chain_def Let_def)
  then have "cells_inv e' (log @ [written sprint e op])"
    using assms new asof e'(2,3) unfolding cells_inv_def by (simp add: chain)
  then show ?thesis
    using e' lat chain by auto
qed

text \<open>
  Live writes and updates put their value into the latest view whatever their timestamp, so the
  view follows the chain as long as they come in the order of their timestamps.
\<close>

definition live_in_order :: "'v write_log \<Rightarrow> (string \<times> string) \<times> 'v versionedEntry \<Rightarrow> bool" where
  "live_in_order log w = (\<forall>x \<in> set (writes_to (fst w) log). ve_ts x \<le> ve_ts (snd w))"

fun run_in_order :: "('k \<Rightarrow> string) \<Rightarrow> ('k, 'v) memoryEngine \<Rightarrow> 'v write_log \<Rightarrow> ('k, 'v) cell_op list \<Rightarrow> bool" where
  "run_in_order sprint e log [] = True"
| "run_in_order sprint e log (op # ops) =
     ((syncs op \<or> live_in_order log (written sprint e op)) \<and>
      (case apply_op sprint e op of
         Ok e' \<Rightarrow> run_in_order sprint e' (log @ [written sprint e op]) ops
       | _ \<Rightarrow> True))"

definition newest_value :: "'v versionedEntry option \<Rightarrow> 'v option" where
  "newest_value w = (case w of None \<Rightarrow> None | Some w \<Rightarrow> ve_value w)"

lemma newest_write_mem: "newest_write P ws = Some w \<Longrightarrow> w \<in> set ws"
  by (induction ws rule: rev_induct) (auto simp: newest_step_def split: if_splits option.splits)

lemma cells_run:
  assumes "cells_inv e log"
  shows "\<exists>e'. run_ops sprint e ops = Ok e' \<and> cells_inv e' (log @ op_log sprint e ops) \<and>
    me_retention e' = me_retention e"
  using assms
proof (induction ops arbitrary: e log)
  case (Cons op ops)
  obtain e1 where "apply_op sprint e op = Ok e1" "cells_inv e1 (log @ [written sprint e op])"
    "me_retention e1 = me_retention e"
    using cells_inv_step [OF Cons.prems, of sprint op] by blast
  with Cons.IH [of e1 "log @ [written sprint e op]"] show ?case
    by auto
qed auto

lemma latest_run:
  assumes "cells_inv e log" and "inj sprint" and "run_in_order sprint e log ops"
    and "\<forall>col key. latest e col key = newest_value (newest_write (until None) (writes_to (col, sprint key) log))"
    and "run_ops sprint e ops = Ok e'"
  shows "latest e' col key =
    newest_value (newest_write (until None) (writes_to (col, sprint key) (log @ op_log sprint e ops)))"
  using assms
proof (induction ops arbitrary: e log)
  case (Cons op ops)
  let ?log = "log @ [written sprint e op]"
  obtain e1 where e1: "apply_op sprint e op = Ok e1" "cells_inv e1 ?log"
    and lat: "\<And>col key. latest e1 col key =
       (if col = op_col op \<and> key = op_key op then
          if syncs op then ve_value (last (chainLocked e1 col (sprint key))) else ve_value (op_entry e op)
        else latest e col key)"
    using cells_inv_step [OF Cons.prems(1), of sprint op] by blast
  have "latest e1 c k = newest_value (newest_write (until None) (writes_to (c, sprint k) ?log))" for c k
  proof (cases "c = op_col op \<and> k = op_key op")
    case False
    then have "(c, sprint k) \<noteq> (op_col op, sprint (op_key op))"
      using Cons.prems(2) by (auto simp: inj_def)
    with False show ?thesis
      using Cons.prems(4) by (auto simp: lat)
  next
    case here: True
    let ?ws = "writes_to (c, sprint k) log" and ?w = "op_entry e op"
    have new: "newest_write (until None) (writes_to (c, sprint k) ?log) =
        newest_step (until None) ?w (newest_write (until None) ?ws)"
      using here by simp
    show ?thesis
    proof (cases "syncs op")
      case True
      have "last_opt (chainLocked e1 c (sprint k)) = newest_write (until None) (writes_to (c, sprint k) ?log)"
        using e1(2) by (auto simp: cells_inv_def)
      moreover have "newest_write (until None) (writes_to (c, sprint k) ?log) \<noteq> None"
        unfolding new by (auto simp: newest_step_def split: option.split)
      ultimately show ?thesis
        using here True by (auto simp: lat last_opt_def newest_value_def split: if_splits)
    next
      case False
      then have "\<forall>x \<in> set ?ws. ve_ts x \<le> ve_ts ?w"
        using Cons.prems(3) here by (auto simp: live_in_order_def written_def)
      then have "newest_step (until None) ?w (newest_write (until None) ?ws) = Some ?w"
        using newest_write_mem [of "until None" ?ws] by (auto simp: newest_step_def split: option.split)
      then show ?thesis
        unfolding new using here False by (simp add: lat newest_value_def)
    qed
  qed
  then show ?case
    using Cons.IH [of e1 ?log] Cons.prems(2,3,5) e1 by auto
qed simp

lemma new_engine_inv: "cells_inv (NewMemoryEngineWithVersioning r) []"
  by (simp add: cells_inv_def NewMemoryEngineWithVersioning_def chainLocked_def NewMemoryEngine_def last_opt_def)

lemma new_engine_latest: "latest (NewMemoryEngineWithVersioning r) col key = None"
  by (simp add: latest_def NewMemoryEngineWithVersioning_def NewMemoryEngine_def newMemData_def
      getMapLocked_def store_get_def)

lemma new_engine_retention: "me_retention (NewMemoryEngineWithVersioning r) = r"
  by (simp add: NewMemoryEngineWithVersioning_def)

lemma MapGetAsOf_chain: "chain_sorted (chainLocked e col key) \<Longrightarrow>
    MapGetAsOf e col key t =
      (case newest_value (last_opt (filter (until (Some t)) (chainLocked e col key))) of
         None \<Rightarrow> Fail Engine_ErrNotFound | Some v \<Rightarrow> Ok (Some v))"
  by (auto simp: MapGetAsOf_def chainFor_def chainLocked_def asOf_last newest_value_def last_opt_def
      split: option.splits)

text \<open>
  C24. Temporal reads of a versioned engine without retention: after any sequence of live and
  timestamped writes, in any order of timestamps, no operation panics and reading a cell as of \<open>t\<close>
  gives the value of the newest write at or before \<open>t\<close>, the last one to arrive among equal
  timestamps, and \<open>ErrNotFound\<close> when there is none or it was a deletion.
\<close>

theorem MapGetAsOf_exact:
  "\<exists>e. run_ops sprint (NewMemoryEngineWithVersioning None) ops = Ok e \<and>
     (\<forall>col key t. MapGetAsOf e col key t =
        (case newest_value (newest_write (until (Some t))
             (writes_to (col, key) (op_log sprint (NewMemoryEngineWithVersioning None) ops))) of
           None \<Rightarrow> Fail Engine_ErrNotFound
         | Some v \<Rightarrow> Ok (Some v)))"
proof -
  obtain e where e: "run_ops sprint (NewMemoryEngineWithVersioning None) ops = Ok e"
    and inv: "cells_inv e (op_log sprint (NewMemoryEngineWithVersioning None) ops)" "me_retention e = None"
    using cells_run [OF new_engine_inv [of None], of sprint ops] by (auto simp: new_engine_retention)
  then have "MapGetAsOf e col key t =
      (case newest_value (newest_write (until (Some t))
           (writes_to (col, key) (op_log sprint (NewMemoryEngineWithVersioning None) ops))) of
         None \<Rightarrow> Fail Engine_ErrNotFound | Some v \<Rightarrow> Ok (Some v))" for col key t
    using MapGetAsOf_chain [of e col key t] unfolding cells_inv_def by metis
  with e show ?thesis
    by blast
qed

text \<open>
  The latest view of a versioned engine under any retention policy: when keys print
  injectively and the writes other than \<open>MapSetAt\<close> and \<open>MapDeleteAt\<close> are not older than what their
  cell has recorded, \<open>MapGet\<close> returns the value of the newest write ever made to the cell, whatever
  the order of the timestamped writes and however many versions retention has pruned.
\<close>

theorem MapGet_newest:
  assumes "inj sprint" and "run_in_order sprint (NewMemoryEngineWithVersioning r) [] ops"
  shows "\<exists>e. run_ops sprint (NewMemoryEngineWithVersioning r) ops = Ok e \<and>
    (\<forall>col key. fst (MapGet e col key) =
       newest_value (newest_write (until None)
         (writes_to (col, sprint key) (op_log sprint (NewMemoryEngineWithVersioning r) ops))))"
proof -
  obtain e where e: "run_ops sprint (NewMemoryEngineWithVersioning r) ops = Ok e"
    using cells_run [OF new_engine_inv [of r], of sprint ops] by blast
  have "\<forall>col key. latest (NewMemoryEngineWithVersioning r) col key =
      newest_value (newest_write (until None) (writes_to (col, sprint key) []))"
    by (simp add: new_engine_latest newest_value_def)
  from latest_run [OF new_engine_inv assms this e] e show ?thesis
    by (auto simp: MapGet_latest)
qed

theorem MapGet_newest_witness:
  "\<exists>e. run_ops id (NewMemoryEngineWithVersioning (Some \<lparr> rp_MaxVersions = 1, rp_MaxAge = 0 \<rparr>))
      [OpSetAt ''t'' ''k'' (Some 5) 50, OpSetAt ''t'' ''k'' (Some 3) 30, OpUpdate 60 ''t'' ''k'' (\<lambda>_. Some (6 :: int))] =
      Ok e \<and>
    (\<forall>col key. fst (MapGet e col key) =
       newest_value (newest_write (until None)
         (writes_to (col, id key) (op_log id
           (NewMemoryEngineWithVersioning (Some \<lparr> rp_MaxVersions = 1, rp_MaxAge = 0 \<rparr>))
           [OpSetAt ''t'' ''k'' (Some 5) 50, OpSetAt ''t'' ''k'' (Some 3) 30, OpUpdate 60 ''t'' ''k'' (\<lambda>_. Some 6)]))))"
proof (rule MapGet_newest)
  show "run_in_order id (NewMemoryEngineWithVersioning (Some \<lparr> rp_MaxVersions = 1, rp_MaxAge = 0 \<rparr>)) []
      [OpSetAt ''t'' ''k'' (Some 5) 50, OpSetAt ''t'' ''k'' (Some 3) 30, OpUpdate 60 ''t'' ''k'' (\<lambda>_. Some (6 :: int))]"
    by code_simp
qed simp

text \<open>
  Without that order the view can fall behind: an update with an older timestamp than the newest
  version replaces the value \<open>MapGet\<close> returns, while reads as of any later instant keep the newest
  version.
\<close>

lemma MapUpdateAt_regresses:
  "let e = (case run_ops id (NewMemoryEngineWithVersioning None)
        [OpSetAt ''t'' ''k'' (Some (2 :: int)) 20, OpUpdateAt ''t'' ''k'' (\<lambda>_. Some 1) 10] of Ok e \<Rightarrow> e) in
   MapGet e ''t'' ''k'' = (Some 1, True) \<and> MapGetAsOf e ''t'' ''k'' 30 = Ok (Some 2)"
  by code_simp

text \<open>Two keys with the same printed form share one chain.\<close>

lemma printed_keys_share_chain:
  "let e = (case run_ops (\<lambda>_. ''1'') (NewMemoryEngineWithVersioning None)
        [OpSetAt ''t'' (1 :: int) (Some ''a'') 1, OpSetAt ''t'' 2 (Some ''b'') 2] of Ok e \<Rightarrow> e) in
   MapGet e ''t'' 1 = (Some ''a'', True) \<and> MapGetAsOf e ''t'' ''1'' 3 = Ok (Some ''b'')"
  by code_simp

section \<open>What retention keeps\<close>

lemma trim_MaxVersions_length:
  "0 < rp_MaxVersions p \<Longrightarrow> length (trim_MaxVersions p c) \<le> nat (rp_MaxVersions p)"
  by (auto simp: trim_MaxVersions_def Let_def)

lemma trim_MaxAge_length: "length (trim_MaxAge p c ts) \<le> length c"
  by (simp add: trim_MaxAge_def Let_def)

lemma op_chain_bounded:
  assumes "me_retention e = Some p" and "0 < rp_MaxVersions p"
  shows "length (op_chain sprint e op) \<le> nat (rp_MaxVersions p)"
  using trim_MaxAge_length [of p] trim_MaxVersions_length [OF assms(2)] assms(1)
  unfolding op_chain_def trimRetentionLocked_def Let_def by (metis option.simps(5) order_trans)

lemma retention_bounded:
  assumes "cells_inv e log" and "me_retention e = Some p" and "0 < rp_MaxVersions p"
    and "\<forall>col key. length (chainLocked e col key) \<le> nat (rp_MaxVersions p)"
    and "run_ops sprint e ops = Ok e'"
  shows "length (chainLocked e' col key) \<le> nat (rp_MaxVersions p)"
  using assms
proof (induction ops arbitrary: e log)
  case (Cons op ops)
  have "me_versions e \<noteq> None" "chain_sorted (chainLocked e (op_col op) (sprint (op_key op)))"
    using Cons.prems(1) by (auto simp: cells_inv_def)
  then obtain e1 where e1: "apply_op sprint e op = Ok e1" "me_retention e1 = me_retention e"
    and chain: "\<And>col key. chainLocked e1 col key =
       (if col = op_col op \<and> key = sprint (op_key op) then op_chain sprint e op else chainLocked e col key)"
    using apply_op_effect [of e op sprint] by blast
  moreover have "cells_inv e1 (log @ [written sprint e op])"
    using cells_inv_step [OF Cons.prems(1), of sprint op] e1(1) by auto
  ultimately show ?case
    using Cons.IH [of e1 "log @ [written sprint e op]"] Cons.prems(2-5) op_chain_bounded [of e p sprint op]
    by auto
qed auto

text \<open>
  The age limit: what stays is within \<open>MaxAge\<close> of the write that trims, or is the newest entry.
\<close>

lemma retention_age:
  assumes "chain_sorted c" and "c \<noteq> []" and "0 < rp_MaxAge p" and "w \<in> set (trim_MaxAge p c ts)"
  shows "ts - rp_MaxAge p < ve_ts w \<or> w = last c"
proof -
  let ?P = "\<lambda>i. After (ve_ts (c ! i)) (ts - rp_MaxAge p)"
  have drop: "drop (sort_Search (length c) ?P) c = filter (\<lambda>x. After (ve_ts x) (ts - rp_MaxAge p)) c"
    by (rule chain_drop [OF assms(1)])
  consider "sort_Search (length c) ?P < length c" | "\<not> sort_Search (length c) ?P < length c"
    by blast
  then show ?thesis
  proof cases
    case 1
    then have "trim_MaxAge p c ts = drop (sort_Search (length c) ?P) c"
      using assms(3) by (auto simp: trim_MaxAge_def Let_def)
    then show ?thesis
      using assms(4) unfolding drop by (simp add: After_def)
  next
    case 2
    then have "trim_MaxAge p c ts = drop (length c - 1) c"
      using assms(2,3) by (auto simp: trim_MaxAge_def Let_def)
    also have "\<dots> = [last c]"
      using assms(2) by (cases c rule: rev_cases) auto
    finally show ?thesis
      using assms(4) by simp
  qed
qed

end
