(* ===== verification/StreamLog.thy ===== *)
theory StreamLog
  imports MemEngine LogStore
begin

text \<open>
  The stream logs of the in-memory engine (\<open>src/metaengine/memory_stream_log.go\<close>, \<open>seq_seek.go\<close>):
  streams of values with a cross-stream journal, reads by version and by resume token, and the
  conditional append. The specification is one list of pairs of stream and value per
  collection; every read is a view of it. The journal is an instance of the locale
  \<open>seekable_log\<close>, so that reading it page by page with tokens is complete.
\<close>

section \<open>Operations\<close>

record 'v StreamLogEntry =
  sle_Seq :: int
  sle_Value :: "'v option"

definition Engine_ErrVersionConflict :: go_error where
  "Engine_ErrVersionConflict = ErrExt ''metaengine: version conflict''"

definition stream_at :: "('k, 'v) memoryEngine \<Rightarrow> string \<Rightarrow> string \<Rightarrow> 'v option list" where
  "stream_at e col sid =
     (case md_streams (me_data e) col of
        None \<Rightarrow> []
      | Some streams \<Rightarrow> (case streams sid of None \<Rightarrow> [] | Some vs \<Rightarrow> vs))"

definition streamSnapshot :: "('k, 'v) memoryEngine \<Rightarrow> string \<Rightarrow> string \<Rightarrow> 'v option list" where
  "streamSnapshot e col sid = stream_at e col sid"

definition StreamReadAsOfVersion ::
  "('k, 'v) memoryEngine \<Rightarrow> string \<Rightarrow> string \<Rightarrow> int \<Rightarrow> 'v option list outcome" where
  "StreamReadAsOfVersion e col sid maxVersion =
     (if maxVersion \<le> 0 then Ok []
      else
        let stream = stream_at e col sid in
        if int (length stream) \<le> maxVersion then Ok stream
        else slice_to stream maxVersion)"

definition StreamReadFromVersion ::
  "('k, 'v) memoryEngine \<Rightarrow> string \<Rightarrow> string \<Rightarrow> int \<Rightarrow> 'v option list outcome" where
  "StreamReadFromVersion e col sid minVersion =
     (if minVersion \<le> 0 then Ok (streamSnapshot e col sid)
      else
        let stream = stream_at e col sid;
            start = minVersion - 1 in
        if int (length stream) \<le> start then Ok []
        else slice_from stream start)"

fun append_journal ::
  "string \<Rightarrow> 'v option list \<Rightarrow> 'v streamJournalEntry list \<Rightarrow> 'v streamJournalEntry list" where
  "append_journal sid [] journal = journal"
| "append_journal sid (v # values) journal =
     (let nextSeq = (if 0 < length journal then je_seq (journal ! (length journal - 1)) + 1 else 1) in
      append_journal sid values
        (journal @ [\<lparr> je_seq = nextSeq, je_streamID = sid, je_value = v \<rparr>]))"

definition append_stream ::
  "('k, 'v) memoryEngine \<Rightarrow> string \<Rightarrow> string \<Rightarrow> 'v option list \<Rightarrow> ('k, 'v) memoryEngine" where
  "append_stream e col sid values =
     (let d = me_data e;
          streams = (case md_streams d col of None \<Rightarrow> Map.empty | Some m \<Rightarrow> m) in
      e \<lparr> me_data := d
          \<lparr> md_streams := (md_streams d)(col \<mapsto> streams(sid \<mapsto> stream_at e col sid @ values)),
            md_streamJournal :=
              (md_streamJournal d)(col := append_journal sid values (md_streamJournal d col)) \<rparr> \<rparr>)"

definition StreamAppend ::
  "('k, 'v) memoryEngine \<Rightarrow> string \<Rightarrow> string \<Rightarrow> 'v option list \<Rightarrow> ('k, 'v) memoryEngine" where
  "StreamAppend e col sid values = append_stream e col sid values"

definition StreamRead :: "('k, 'v) memoryEngine \<Rightarrow> string \<Rightarrow> string \<Rightarrow> 'v option list" where
  "StreamRead e col sid = streamSnapshot e col sid"

definition StreamVersion :: "('k, 'v) memoryEngine \<Rightarrow> string \<Rightarrow> string \<Rightarrow> int" where
  "StreamVersion e col sid = int (length (stream_at e col sid))"

definition JournalReadAll :: "('k, 'v) memoryEngine \<Rightarrow> string \<Rightarrow> 'v option list" where
  "JournalReadAll e col = map je_value (md_streamJournal (me_data e) col)"

fun start_loop :: "'v streamJournalEntry list \<Rightarrow> int \<Rightarrow> nat \<Rightarrow> nat" where
  "start_loop [] afterSeq start = start"
| "start_loop (x # xs) afterSeq start =
     (if je_seq x \<le> afterSeq then start_loop xs afterSeq (start + 1) else start)"

definition clamp_limit :: "int \<Rightarrow> 'a list \<Rightarrow> nat" where
  "clamp_limit limit remaining =
     (if limit \<le> 0 \<or> int (length remaining) < limit then length remaining else nat limit)"

definition JournalReadFrom :: "('k, 'v) memoryEngine \<Rightarrow> string \<Rightarrow> int \<Rightarrow> int \<Rightarrow> 'v option list" where
  "JournalReadFrom e col afterSeq limit =
     (let journal = md_streamJournal (me_data e) col;
          start = start_loop journal afterSeq 0;
          remaining = drop start journal in
      map (\<lambda>i. je_value (remaining ! i)) [0..<clamp_limit limit remaining])"

definition JournalReadAllWithSeq :: "('k, 'v) memoryEngine \<Rightarrow> string \<Rightarrow> 'v StreamLogEntry list" where
  "JournalReadAllWithSeq e col =
     map (\<lambda>x. \<lparr> sle_Seq = je_seq x, sle_Value = je_value x \<rparr>) (md_streamJournal (me_data e) col)"

definition JournalReadFromSeq ::
  "('k, 'v) memoryEngine \<Rightarrow> string \<Rightarrow> int \<Rightarrow> int \<Rightarrow> 'v StreamLogEntry list" where
  "JournalReadFromSeq e col afterSeq limit =
     (let journal = md_streamJournal (me_data e) col;
          start = sort_Search (length journal) (\<lambda>i. afterSeq < je_seq (journal ! i));
          remaining = drop start journal in
      map (\<lambda>i. \<lparr> sle_Seq = je_seq (remaining ! i), sle_Value = je_value (remaining ! i) \<rparr>)
        [0..<clamp_limit limit remaining])"

definition Engine_RunInTx :: "('s \<Rightarrow> 's \<times> go_error option) \<Rightarrow> 's \<Rightarrow> 's \<times> go_error option" where
  "Engine_RunInTx f s = f s"

definition StreamAppendExpected ::
  "('k, 'v) memoryEngine \<Rightarrow> string \<Rightarrow> string \<Rightarrow> int \<Rightarrow> 'v option list \<Rightarrow>
     ('k, 'v) memoryEngine \<times> go_error option" where
  "StreamAppendExpected e col sid expectedVersion values =
     (let current = int (length (stream_at e col sid)) in
      if current \<noteq> expectedVersion then (e, Some Engine_ErrVersionConflict)
      else (append_stream e col sid values, None))"

section \<open>Specification\<close>

type_synonym 'v log_spec = "string \<Rightarrow> (string \<times> 'v option) list"

datatype 'v log_op =
    Append string string "'v option list"
  | AppendExpected string string int "'v option list"

fun log_apply :: "('k, 'v) memoryEngine \<Rightarrow> 'v log_op \<Rightarrow> ('k, 'v) memoryEngine \<times> go_error option" where
  "log_apply e (Append col sid values) = (StreamAppend e col sid values, None)"
| "log_apply e (AppendExpected col sid v values) = StreamAppendExpected e col sid v values"

definition spec_stream :: "'v log_spec \<Rightarrow> string \<Rightarrow> string \<Rightarrow> 'v option list" where
  "spec_stream L col sid = map snd (filter (\<lambda>p. fst p = sid) (L col))"

fun spec_apply :: "'v log_spec \<Rightarrow> 'v log_op \<Rightarrow> 'v log_spec \<times> go_error option" where
  "spec_apply L (Append col sid values) = (L(col := L col @ map (Pair sid) values), None)"
| "spec_apply L (AppendExpected col sid v values) =
     (if int (length (spec_stream L col sid)) = v
      then (L(col := L col @ map (Pair sid) values), None)
      else (L, Some Engine_ErrVersionConflict))"

definition log_abs :: "('k, 'v) memoryEngine \<Rightarrow> 'v log_spec" where
  "log_abs e col = map (\<lambda>x. (je_streamID x, je_value x)) (md_streamJournal (me_data e) col)"

text \<open>
  The tokens of a collection count from 1 without gaps, and every stream is what the journal has of it.
\<close>

definition log_inv :: "('k, 'v) memoryEngine \<Rightarrow> bool" where
  "log_inv e \<longleftrightarrow>
     (\<forall>col. map je_seq (md_streamJournal (me_data e) col) =
        map int [1..<Suc (length (md_streamJournal (me_data e) col))]) \<and>
     (\<forall>col sid. stream_at e col sid = spec_stream (log_abs e) col sid)"

section \<open>Refinement\<close>

lemma append_journal_props:
  assumes "map je_seq j = map int [1..<Suc (length j)]"
  shows "map je_seq (append_journal sid vs j) = map int [1..<Suc (length j + length vs)]"
    and "map (\<lambda>x. (je_streamID x, je_value x)) (append_journal sid vs j) =
      map (\<lambda>x. (je_streamID x, je_value x)) j @ map (Pair sid) vs"
proof -
  show "map je_seq (append_journal sid vs j) = map int [1..<Suc (length j + length vs)]"
    using assms
  proof (induction vs arbitrary: j)
    case (Cons v vs)
    have "(if 0 < length j then je_seq (j ! (length j - 1)) + 1 else 1) = int (Suc (length j))"
    proof (cases "j = []")
      case False
      then have "je_seq (j ! (length j - 1)) = map je_seq j ! (length j - 1)"
        by simp
      also have "\<dots> = int (length j)"
        using False unfolding Cons.prems by (cases j rule: rev_cases) (simp_all del: upt_Suc)
      finally show ?thesis
        using False by simp
    qed simp
    with Cons.IH [of "j @ [\<lparr> je_seq = int (Suc (length j)), je_streamID = sid, je_value = v \<rparr>]"]
      Cons.prems show ?case
      by (simp add: Let_def)
  qed simp
  show "map (\<lambda>x. (je_streamID x, je_value x)) (append_journal sid vs j) =
      map (\<lambda>x. (je_streamID x, je_value x)) j @ map (Pair sid) vs"
    by (induction vs arbitrary: j) (simp_all add: Let_def)
qed

lemma length_append_journal [simp]: "length (append_journal sid vs j) = length j + length vs"
  by (induction vs arbitrary: j) (simp_all add: Let_def)

lemma append_stream_refines:
  assumes "log_inv e"
  shows "log_inv (append_stream e col sid vs)"
    and "log_abs (append_stream e col sid vs) = (log_abs e)(col := log_abs e col @ map (Pair sid) vs)"
proof -
  have seqs: "map je_seq (md_streamJournal (me_data e) c) =
      map int [1..<Suc (length (md_streamJournal (me_data e) c))]" for c
    using assms by (simp add: log_inv_def)
  have streams: "stream_at e c s = spec_stream (log_abs e) c s" for c s
    using assms by (simp add: log_inv_def)
  show abs: "log_abs (append_stream e col sid vs) = (log_abs e)(col := log_abs e col @ map (Pair sid) vs)"
    using append_journal_props(2) [OF seqs]
    by (simp add: log_abs_def append_stream_def Let_def fun_eq_iff)
  have "stream_at (append_stream e col sid vs) c s =
      (if c = col \<and> s = sid then stream_at e c s @ vs else stream_at e c s)" for c s
    by (auto simp: stream_at_def append_stream_def Let_def split: option.split)
  moreover have "spec_stream (log_abs (append_stream e col sid vs)) c s =
      (if c = col \<and> s = sid then spec_stream (log_abs e) c s @ vs else spec_stream (log_abs e) c s)" for c s
    by (auto simp: abs spec_stream_def filter_map o_def)
  ultimately have "stream_at (append_stream e col sid vs) c s = spec_stream (log_abs (append_stream e col sid vs)) c s"
    for c s
    using streams by simp
  moreover have "md_streamJournal (me_data (append_stream e col sid vs)) c =
      (if c = col then append_journal sid vs (md_streamJournal (me_data e) c)
       else md_streamJournal (me_data e) c)" for c
    by (simp add: append_stream_def Let_def)
  ultimately show "log_inv (append_stream e col sid vs)"
    using append_journal_props(1) [OF seqs] seqs unfolding log_inv_def by (simp del: upt_Suc)
qed

lemma log_apply_refines:
  assumes "log_inv e"
  shows "log_inv (fst (log_apply e op))" and "log_abs (fst (log_apply e op)) = fst (spec_apply (log_abs e) op)"
    and "snd (log_apply e op) = snd (spec_apply (log_abs e) op)"
proof -
  have "stream_at e col sid = spec_stream (log_abs e) col sid" for col sid
    using assms by (simp add: log_inv_def)
  note facts = this append_stream_refines [OF assms]
  show "log_inv (fst (log_apply e op))" "log_abs (fst (log_apply e op)) = fst (spec_apply (log_abs e) op)"
    "snd (log_apply e op) = snd (spec_apply (log_abs e) op)"
    by (cases op; simp add: facts StreamAppend_def StreamAppendExpected_def assms Let_def)+
qed

section \<open>Reads are views\<close>

lemma start_loop_takeWhile: "start_loop xs a n = n + length (takeWhile (\<lambda>x. je_seq x \<le> a) xs)"
  by (induction xs arbitrary: n) auto

lemma map_upt_clamp: "map (\<lambda>i. f (xs ! i)) [0..<clamp_limit limit xs] = map f (page limit xs)"
proof -
  have "map (\<lambda>i. f (xs ! i)) [0..<n] = map f (take n xs)" if "n \<le> length xs" for n
    using that by (intro nth_equalityI) auto
  from this [of "clamp_limit limit xs"] show ?thesis
    by (auto simp: clamp_limit_def page_def)
qed

lemma journal_after:
  assumes "log_inv e" and "0 \<le> n" and j: "j = md_streamJournal (me_data e) col"
  shows "sort_Search (length j) (\<lambda>i. n < je_seq (j ! i)) = min (nat n) (length j)"
    and "start_loop j n 0 = min (nat n) (length j)"
proof -
  have seq: "je_seq (j ! i) = int i + 1" if "i < length j" for i
  proof -
    have "je_seq (j ! i) = map je_seq j ! i"
      using that by simp
    also have "\<dots> = int (Suc i)"
      using assms(1) that by (simp add: log_inv_def j del: upt_Suc)
    finally show ?thesis
      by simp
  qed
  have "takeWhile (\<lambda>x. je_seq x \<le> n) j = take (min (nat n) (length j)) j"
    using seq assms(2) by (intro takeWhile_eq_take_P_nth) (auto simp: min_def split: if_splits)
  then have tw: "length (takeWhile (\<lambda>x. je_seq x \<le> n) j) = min (nat n) (length j)"
    by simp
  then show "start_loop j n 0 = min (nat n) (length j)"
    by (simp add: start_loop_takeWhile)
  have "sorted_wrt (\<lambda>x y. n < je_seq x \<longrightarrow> n < je_seq y) j"
    using seq by (auto simp: sorted_wrt_iff_nth_less)
  from sort_Search_takeWhile [OF this] tw
  show "sort_Search (length j) (\<lambda>i. n < je_seq (j ! i)) = min (nat n) (length j)"
    by (simp add: not_less)
qed

lemma reads_after:
  assumes "log_inv e" and "0 \<le> n"
  shows "JournalReadFrom e col n limit = map snd (page limit (drop (nat n) (log_abs e col)))"
    and "JournalReadFromSeq e col n limit = page limit (drop (nat n) (JournalReadAllWithSeq e col))"
proof -
  let ?j = "md_streamJournal (me_data e) col"
  have drop: "drop (min (nat n) (length ?j)) ?j = drop (nat n) ?j"
    by (simp add: min_def)
  have page_map: "map f (page limit xs) = page limit (map f xs)" for f :: "'x \<Rightarrow> 'y" and xs
    by (simp add: page_def take_map)
  show "JournalReadFrom e col n limit = map snd (page limit (drop (nat n) (log_abs e col)))"
    using journal_after(2) [OF assms refl, of col]
    by (simp add: JournalReadFrom_def Let_def map_upt_clamp drop log_abs_def page_def take_map drop_map o_def)
  show "JournalReadFromSeq e col n limit = page limit (drop (nat n) (JournalReadAllWithSeq e col))"
    using journal_after(1) [OF assms refl, of col]
    by (simp add: JournalReadFromSeq_def Let_def drop JournalReadAllWithSeq_def drop_map page_def take_map
        map_upt_clamp [where f = "\<lambda>x. \<lparr> sle_Seq = je_seq x, sle_Value = je_value x \<rparr>"])
qed

lemma stream_versions:
  "StreamReadAsOfVersion e col sid v = Ok (take (nat v) (stream_at e col sid))"
  "StreamReadFromVersion e col sid v = Ok (drop (nat (v - 1)) (stream_at e col sid))"
  by (auto simp: StreamReadAsOfVersion_def StreamReadFromVersion_def streamSnapshot_def slice_to_def
      slice_from_def Let_def)

lemma journal_token:
  assumes "log_inv e" and "JournalReadAllWithSeq e col = pre @ x # post"
  shows "sle_Seq x = int (Suc (length pre))"
proof -
  let ?j = "md_streamJournal (me_data e) col"
  have len: "length ?j = length (pre @ x # post)"
    using arg_cong [OF assms(2), of length] by (simp add: JournalReadAllWithSeq_def)
  have "sle_Seq x = map sle_Seq (JournalReadAllWithSeq e col) ! length pre"
    unfolding assms(2) by (simp add: nth_append)
  also have "map sle_Seq (JournalReadAllWithSeq e col) = map je_seq ?j"
    by (simp add: JournalReadAllWithSeq_def)
  also have "map je_seq ?j = map int [1..<Suc (length ?j)]"
    using assms(1) by (simp only: log_inv_def)
  also have "\<dots> ! length pre = int (Suc (length pre))"
    using len by (simp del: upt_Suc)
  finally show ?thesis .
qed

interpretation journal: seekable_log log_inv "\<lambda>e. JournalReadAllWithSeq e col"
  "\<lambda>e. JournalReadFromSeq e col" sle_Seq 0 for col :: string
proof
  fix e :: "('a, 'b) memoryEngine" and limit
  assume "log_inv e"
  then show "JournalReadFromSeq e col 0 limit = page limit (JournalReadAllWithSeq e col)"
    by (simp add: reads_after(2))
next
  fix e :: "('a, 'b) memoryEngine" and pre x post limit
  assume e: "log_inv e" and split: "JournalReadAllWithSeq e col = pre @ x # post"
  from journal_token [OF this] have "nat (sle_Seq x) = Suc (length pre)" "0 \<le> sle_Seq x"
    by simp_all
  then show "JournalReadFromSeq e col (sle_Seq x) limit = page limit post"
    using reads_after(2) [OF e, of "sle_Seq x" col limit] split by simp
qed

lemma journal_tokens_distinct:
  assumes "log_inv e"
  shows "distinct (map sle_Seq (JournalReadAllWithSeq e col))" "0 \<notin> sle_Seq ` set (JournalReadAllWithSeq e col)"
proof -
  have "map sle_Seq (JournalReadAllWithSeq e col) = map je_seq (md_streamJournal (me_data e) col)"
    by (simp add: JournalReadAllWithSeq_def)
  also have "\<dots> = map int [1..<Suc (length (md_streamJournal (me_data e) col))]"
    using assms by (simp only: log_inv_def)
  finally have eq: "map sle_Seq (JournalReadAllWithSeq e col) =
      map int [1..<Suc (length (md_streamJournal (me_data e) col))]" .
  show "distinct (map sle_Seq (JournalReadAllWithSeq e col))"
    unfolding eq by (simp add: distinct_map del: upt_Suc)
  have "0 \<notin> set (map sle_Seq (JournalReadAllWithSeq e col))"
    unfolding eq by (auto simp del: upt_Suc)
  then show "0 \<notin> sle_Seq ` set (JournalReadAllWithSeq e col)"
    by simp
qed

lemma journal_pages:
  "log_inv e \<Longrightarrow> 0 < limit \<Longrightarrow> length (md_streamJournal (me_data e) col) < fuel \<Longrightarrow>
     catch_up fuel (JournalReadFromSeq e col) sle_Seq limit 0 = Some (JournalReadAllWithSeq e col)"
  by (rule journal.catch_up_whole_log) (simp_all add: journal_tokens_distinct, simp add: JournalReadAllWithSeq_def)

section \<open>Histories\<close>

fun run_log :: "('k, 'v) memoryEngine \<Rightarrow> 'v log_op list \<Rightarrow> ('k, 'v) memoryEngine \<times> go_error option list" where
  "run_log e [] = (e, [])"
| "run_log e (op # ops) =
     (let (e1, err) = log_apply e op; (e2, errs) = run_log e1 ops in (e2, err # errs))"

fun run_spec :: "'v log_spec \<Rightarrow> 'v log_op list \<Rightarrow> 'v log_spec \<times> go_error option list" where
  "run_spec L [] = (L, [])"
| "run_spec L (op # ops) =
     (let (L1, err) = spec_apply L op; (L2, errs) = run_spec L1 ops in (L2, err # errs))"

lemma run_log_refines:
  assumes "log_inv e"
  shows "log_inv (fst (run_log e ops)) \<and> log_abs (fst (run_log e ops)) = fst (run_spec (log_abs e) ops) \<and>
    snd (run_log e ops) = snd (run_spec (log_abs e) ops)"
  using assms
proof (induction ops arbitrary: e)
  case (Cons op ops)
  note step = log_apply_refines [OF Cons.prems, of op]
  from Cons.IH [OF step(1)] step(2,3) show ?case
    by (simp add: case_prod_beta Let_def)
qed simp

lemma new_log_inv: "log_inv NewMemoryEngine" and new_log_abs: "log_abs NewMemoryEngine = (\<lambda>_. [])"
  by (simp_all add: log_inv_def NewMemoryEngine_def newMemData_def stream_at_def spec_stream_def log_abs_def
      fun_eq_iff)

text \<open>
  C20. Stream logs refine one ordered list per collection: for every history of plain and
  conditional appends, the errors are those of the specification, in which a conditional append
  succeeds exactly at the current version, and afterwards whole streams, reads up to and from a version,
  versions, the journal, its positional reads and its reads page by page through resume tokens
  are the corresponding parts of that list.
\<close>

theorem stream_log_refinement:
  "\<exists>e L errs. run_log (NewMemoryEngine :: ('k, 'v) memoryEngine) ops = (e, errs) \<and>
     run_spec (\<lambda>_. []) ops = (L, errs) \<and>
     (\<forall>col sid. StreamRead e col sid = spec_stream L col sid \<and>
        StreamVersion e col sid = int (length (spec_stream L col sid)) \<and>
        (\<forall>v. StreamReadAsOfVersion e col sid v = Ok (take (nat v) (spec_stream L col sid))) \<and>
        (\<forall>v. StreamReadFromVersion e col sid v = Ok (drop (nat (v - 1)) (spec_stream L col sid)))) \<and>
     (\<forall>col. JournalReadAll e col = map snd (L col) \<and>
        (\<forall>n limit. JournalReadFrom e col (int n) limit = map snd (page limit (drop n (L col)))) \<and>
        (\<forall>m. map_option (map sle_Value)
            (catch_up (Suc (length (L col))) (JournalReadFromSeq e col) sle_Seq (int (Suc m)) 0) =
          Some (map snd (L col))))"
proof -
  let ?e = "fst (run_log (NewMemoryEngine :: ('k, 'v) memoryEngine) ops)"
  let ?L = "fst (run_spec (\<lambda>_. []) ops)"
  have inv: "log_inv ?e" and abs: "log_abs ?e = ?L" and errs: "snd (run_log (NewMemoryEngine :: ('k, 'v) memoryEngine) ops) =
      snd (run_spec (\<lambda>_. []) ops)"
    using run_log_refines [of "NewMemoryEngine :: ('k, 'v) memoryEngine" ops, OF new_log_inv]
    by (simp_all add: new_log_abs)
  have streams: "stream_at ?e col sid = spec_stream ?L col sid" for col sid
    using inv abs by (simp add: log_inv_def)
  have len: "length (?L col) = length (md_streamJournal (me_data ?e) col)" for col
    by (simp add: abs [symmetric] log_abs_def)
  have vals: "map sle_Value (JournalReadAllWithSeq ?e col) = map snd (?L col)"
    "JournalReadAll ?e col = map snd (?L col)" for col
    by (simp_all add: abs [symmetric] log_abs_def JournalReadAllWithSeq_def JournalReadAll_def)
  have pages: "map_option (map sle_Value)
      (catch_up (Suc (length (?L col))) (JournalReadFromSeq ?e col) sle_Seq (int (Suc m)) 0) =
      Some (map snd (?L col))" for col m
    using journal_pages [OF inv, of "int (Suc m)" col "Suc (length (?L col))"] by (simp add: len vals)
  have positions: "JournalReadFrom ?e col (int n) limit = map snd (page limit (drop n (?L col)))" for col n limit
    using reads_after(1) [OF inv, of "int n" col limit] by (simp add: abs)
  show ?thesis
    by (intro exI [of _ ?e] exI [of _ ?L] exI [of _ "snd (run_spec (\<lambda>_. []) ops)"] conjI allI)
      (simp_all add: prod_eq_iff errs streams stream_versions StreamRead_def streamSnapshot_def
        StreamVersion_def vals positions pages del: catch_up.simps of_nat_Suc)
qed

end
