(* ===== verification/MapRuntime.thy ===== *)
theory MapRuntime
  imports ScanPaging
begin

text \<open>
  What the claim and deduplication runtimes of \<open>src/metaengine\<close> (\<open>map_dueclaim.go\<close>,
  \<open>map_dedup.go\<close>) call of an engine: the backends for maps, read-modify-write and scans, as a record
  of operations over the engine's state. The locale \<open>map_engine\<close> states what the runtimes rely on;
  it is interpreted on the in-memory engine, the wiring of \<open>memory_dueclaim.go\<close>. Keys are strings,
  which print as themselves.
\<close>

section \<open>Backends\<close>

definition sprint_string :: "string \<Rightarrow> string" where
  "sprint_string s = s"

record ('s, 'v) map_backends =
  rt_MapGet :: "'s \<Rightarrow> string \<Rightarrow> string \<Rightarrow> ('v option \<times> bool) outcome"
  rt_MapDelete :: "'s \<Rightarrow> string \<Rightarrow> string \<Rightarrow> 's \<times> go_error option"
  rt_MapUpdate :: "'s \<Rightarrow> string \<Rightarrow> string \<Rightarrow> ('v option \<Rightarrow> 'v option \<times> bool) \<Rightarrow>
    's \<times> bool \<times> go_error option"
  rt_MapScan :: "'s \<Rightarrow> string \<Rightarrow> ('v option \<Rightarrow> bool) option \<Rightarrow>
    ('v option \<Rightarrow> 'v option \<Rightarrow> int) option \<Rightarrow> 'v scan_cursor \<Rightarrow> int \<Rightarrow> 'v ScanResult outcome"

definition claimer ::
  "instant \<Rightarrow> ((string, 'v) kv_map \<Rightarrow> (string, 'v) kv_map) \<Rightarrow> ((string, 'v) memoryEngine, 'v) map_backends" where
  "claimer clock order = \<lparr>
     rt_MapGet = (\<lambda>e col key. Ok (MapGet e col key)),
     rt_MapDelete = (\<lambda>e col key. (MapDelete sprint_string clock e col key, None)),
     rt_MapUpdate = (\<lambda>e col key f.
       let (e', captured) = MapUpdate sprint_string clock e col key f in (e', captured, None)),
     rt_MapScan = (\<lambda>e col flt srt cursor limit. Ok (MapScan sprint_string order e col flt srt cursor limit)) \<rparr>"

section \<open>The interface\<close>

definition key_order :: "string \<times> 'v option \<Rightarrow> string \<times> 'v option \<Rightarrow> bool" where
  "key_order p q \<longleftrightarrow> fst p < fst q"

locale map_engine =
  fixes rt :: "('s, 'v) map_backends"
    and contents :: "'s \<Rightarrow> string \<Rightarrow> (string, 'v) kv_map"
    and inv :: "'s \<Rightarrow> bool"
  assumes contents_distinct: "inv s \<Longrightarrow> distinct (map fst (contents s col))"
    and get_spec: "inv s \<Longrightarrow> rt_MapGet rt s col key =
      Ok (store_get (contents s col) key, map_of (contents s col) key \<noteq> None)"
    and delete_spec: "inv s \<Longrightarrow> \<exists>s'. rt_MapDelete rt s col key = (s', None) \<and> inv s' \<and>
      contents s' = (contents s)(col := map_delete key (contents s col))"
    and update_spec: "inv s \<Longrightarrow> \<exists>s'. rt_MapUpdate rt s col key f =
        (s', snd (f (store_get (contents s col) key)), None) \<and> inv s' \<and>
      contents s' = (contents s)(col :=
        map_put key (fst (f (store_get (contents s col) key))) (contents s col))"
    and scan_sorted: "inv s \<Longrightarrow> comparator cmp \<Longrightarrow> 0 < limit \<Longrightarrow> limit \<le> MaxInt \<Longrightarrow>
      \<exists>r. rt_MapScan rt s col flt (Some cmp) NoCursor limit = Ok r \<and>
        sr_Items r = map snd (take (nat limit) (sorted_matches sprint_string flt cmp (contents s col)))"
    and scan_keys: "inv s \<Longrightarrow> 0 < limit \<Longrightarrow>
      \<exists>r. rt_MapScan rt s col flt None NoCursor limit = Ok r \<and>
        sr_Items r = map snd (take (nat limit) (sort_Slice key_order (filter (matching flt) (contents s col))))"

section \<open>The in-memory engine\<close>

definition maps_inv :: "('k, 'v) memoryEngine \<Rightarrow> bool" where
  "maps_inv e \<longleftrightarrow> (\<forall>col. distinct (map fst (getMapLocked e col)))"

lemma getMap_put_map [simp]: "getMapLocked (put_map col store e) = (getMapLocked e)(col := store)"
  by (simp add: getMapLocked_def put_map_def fun_eq_iff)

lemma getMap_put_chain [simp]: "getMapLocked (put_chain col key c e) = getMapLocked e"
  by (simp add: getMapLocked_def put_chain_def fun_eq_iff split: option.split)

lemmas mem_write_defs = MapDelete_def MapUpdate_def MapSet_def recordVersionNow_def recordVersionAt_def Let_def

lemma MapDelete_contents:
  "getMapLocked (MapDelete sprint now e col key) = (getMapLocked e)(col := map_delete key (getMapLocked e col))"
  by (simp add: mem_write_defs)

lemma MapUpdate_contents:
  "getMapLocked (fst (MapUpdate sprint now e col key f)) = (getMapLocked e)(col :=
     map_put key (fst (f (store_get (getMapLocked e col) key))) (getMapLocked e col))"
  "snd (MapUpdate sprint now e col key f) = snd (f (store_get (getMapLocked e col) key))"
  by (simp_all add: mem_write_defs case_prod_beta)

lemma MapSet_contents:
  "getMapLocked (MapSet sprint now e col key v) = (getMapLocked e)(col := map_put key v (getMapLocked e col))"
  by (simp add: mem_write_defs)

lemma maps_inv_upd [intro]:
  "maps_inv e \<Longrightarrow> getMapLocked e' = (getMapLocked e)(col := store) \<Longrightarrow> distinct (map fst store) \<Longrightarrow> maps_inv e'"
  by (simp add: maps_inv_def)

lemma MapGet_contents:
  "MapGet e col key = (store_get (getMapLocked e col) key, map_of (getMapLocked e col) key \<noteq> None)"
  by (auto simp: MapGet_def getMapLocked_def store_get_def split: option.split)

lemma MapScan_sorted_items:
  assumes "maps_inv e" and "comparator f" and "rearranges order" and "0 < limit" and "limit \<le> MaxInt"
  shows "sr_Items (MapScan sprint_string order e col flt (Some f) NoCursor limit) =
    map snd (take (nat limit) (sorted_matches sprint_string flt f (getMapLocked e col)))"
proof (cases "md_maps (me_data e) col")
  case None
  then show ?thesis
    by (simp add: MapScan_def getMapLocked_def sorted_matches_def)
next
  case (Some store)
  then have store: "getMapLocked e col = store"
    by (simp add: getMapLocked_def)
  have dist: "printed_distinct sprint_string store"
    using assms(1) by (auto simp: maps_inv_def printed_distinct_def sprint_string_def store [symmetric])
  let ?S = "sorted_matches sprint_string flt f store"
  have "stands_at (\<lambda>p. sprint_string (fst p)) snd ?S 0 NoCursor"
    by (simp add: stands_at_def)
  from comparator.MapScan_page [OF assms(2) Some dist assms(3) this, of limit]
  have "sr_Items (MapScan sprint_string order e col flt (Some f) NoCursor limit) =
      map snd (if limit < int (length (page_of limit ?S)) then take (nat limit) (page_of limit ?S)
        else page_of limit ?S)"
    using assms(4) by (simp add: PairsToScanResult_def Let_def)
  also have "\<dots> = map snd (take (nat limit) (page_of limit ?S))"
    by simp
  finally show ?thesis
    unfolding store page_of_take(1) [OF assms(4,5)] .
qed

lemma key_order_total: "distinct (map fst ps) \<Longrightarrow> strict_total_on key_order (set ps)"
  unfolding strict_total_on_def key_order_def
proof (intro conjI ballI impI)
  fix p q
  assume "distinct (map fst ps)" "p \<in> set ps" "q \<in> set ps" "p \<noteq> q"
  then have "fst p \<noteq> fst q"
    unfolding distinct_map inj_on_def by blast
  then show "fst p < fst q \<or> fst q < fst p"
    by (simp add: neq_iff)
qed (auto intro: less_trans)

lemma MapScan_key_items:
  assumes "maps_inv e" and "rearranges order" and "0 < limit"
  shows "sr_Items (MapScan sprint_string order e col flt None NoCursor limit) =
    map snd (take (nat limit) (sort_Slice key_order (filter (matching flt) (getMapLocked e col))))"
proof (cases "md_maps (me_data e) col")
  case None
  then show ?thesis
    by (simp add: MapScan_def getMapLocked_def)
next
  case (Some store)
  then have store: "getMapLocked e col = store"
    by (simp add: getMapLocked_def)
  have dist: "distinct (map fst (filter (matching flt) store))"
    using assms(1) by (auto simp: maps_inv_def store [symmetric] distinct_map_filter)
  have flt: "filter (\<lambda>(k, v). case flt of None \<Rightarrow> True | Some f \<Rightarrow> f v) (order store) =
      filter (matching flt) (order store)"
    by (rule filter_cong) (auto simp: matching_def split: option.split)
  have ord: "(\<lambda>p q. bytes_Compare (sprint_string (fst p)) (sprint_string (fst q)) < 0) = (key_order :: string \<times> 'a option \<Rightarrow> _)"
    by (simp add: key_order_def sprint_string_def fun_eq_iff)
  have "sort_Slice key_order (filter (matching flt) (order store)) =
      sort_Slice key_order (filter (matching flt) store)"
    using assms(2) by (intro sort_Slice_perm key_order_total [OF dist])
      (use dist in \<open>auto simp: distinct_map rearranges_def\<close>)
  moreover have "sr_Items (MapScan sprint_string order e col flt None NoCursor limit) =
      map snd (take (nat limit) (sort_Slice key_order (filter (matching flt) (order store))))"
    using assms(3) unfolding MapScan_def Some option.simps(5) Let_def flt ord
    by (simp add: PairsToScanResult_def Let_def)
  ultimately show ?thesis
    by (simp add: store)
qed

lemma claimer_engine:
  assumes "rearranges order"
  shows "map_engine (claimer clock order) getMapLocked maps_inv"
proof
  fix s :: "(string, 'a) memoryEngine" and col key f
  assume inv: "maps_inv s"
  show "distinct (map fst (getMapLocked s col))"
    using inv by (simp add: maps_inv_def)
  show "rt_MapGet (claimer clock order) s col key =
      Ok (store_get (getMapLocked s col) key, map_of (getMapLocked s col) key \<noteq> None)"
    by (simp add: claimer_def MapGet_contents)
  have "maps_inv (MapDelete sprint_string clock s col key)"
    by (rule maps_inv_upd [OF inv MapDelete_contents]) (use inv in \<open>simp add: maps_inv_def\<close>)
  then show "\<exists>s'. rt_MapDelete (claimer clock order) s col key = (s', None) \<and> maps_inv s' \<and>
      getMapLocked s' = (getMapLocked s)(col := map_delete key (getMapLocked s col))"
    by (simp add: claimer_def MapDelete_contents)
  fix f :: "'a option \<Rightarrow> 'a option \<times> bool"
  have "maps_inv (fst (MapUpdate sprint_string clock s col key f))"
    by (rule maps_inv_upd [OF inv MapUpdate_contents(1)]) (use inv in \<open>simp add: maps_inv_def\<close>)
  then show "\<exists>s'. rt_MapUpdate (claimer clock order) s col key f =
        (s', snd (f (store_get (getMapLocked s col) key)), None) \<and> maps_inv s' \<and>
      getMapLocked s' = (getMapLocked s)(col :=
        map_put key (fst (f (store_get (getMapLocked s col) key))) (getMapLocked s col))"
    by (simp add: claimer_def MapUpdate_contents case_prod_beta Let_def)
qed (use assms in \<open>simp_all add: claimer_def MapScan_sorted_items MapScan_key_items\<close>)

interpretation mem_claims: map_engine "claimer clock id" getMapLocked maps_inv for clock
  by (rule claimer_engine) (simp add: rearranges_def)

lemma new_maps_inv: "maps_inv NewMemoryEngine"
  by (simp add: maps_inv_def NewMemoryEngine_def newMemData_def getMapLocked_def)

end
