(* ===== verification/DueClaims.thy ===== *)
theory DueClaims
  imports MapRuntime
begin

text \<open>
  Lease-fenced claims of due items over a map-shaped engine (\<open>src/metaengine/dueclaim.go\<close>,
  \<open>map_dueclaim.go\<close>). A claim is stored as an ordinary map value; \<open>box\<close> is its conversion to
  \<open>any\<close> and \<open>reify\<close> the decoding of \<open>reify.go\<close> at the type of claims, which goes through
  \<open>encoding/json\<close>. What the runtime relies on is the locale \<open>due_claims\<close>: an engine, and that a
  claim it stored decodes to itself.
\<close>

section \<open>Claims\<close>

record mapClaimRecord =
  mc_Key :: string
  mc_DueAt :: instant
  mc_LeaseUntil :: instant
  mc_Owner :: string
  mc_Payload :: "byte list"
  mc_Deleted :: bool

definition zero_claim :: mapClaimRecord where
  "zero_claim = \<lparr> mc_Key = [], mc_DueAt = 0, mc_LeaseUntil = 0, mc_Owner = [], mc_Payload = [],
     mc_Deleted = False \<rparr>"

record DueClaim =
  dc_Key :: string
  dc_DueAt :: instant
  dc_Payload :: "byte list"
  dc_LeaseUntil :: instant

record ClaimDueRequest =
  cr_Collection :: string
  cr_Owner :: string
  cr_Lease :: int
  cr_Limit :: int
  cr_Now :: instant

definition ErrClaimLeaseNotHeld :: go_error where
  "ErrClaimLeaseNotHeld = ErrNew Orchestration ''metaengine.claim_lease_not_held''"

definition DefaultClaimLease :: int where
  "DefaultClaimLease = 60 * 10 ^ 9"

definition DefaultClaimLimit :: int where
  "DefaultClaimLimit = 512"

definition resolvedNow :: "instant \<Rightarrow> ClaimDueRequest \<Rightarrow> instant" where
  "resolvedNow wall r = (if cr_Now r = 0 then wall else cr_Now r)"

definition resolvedLease :: "ClaimDueRequest \<Rightarrow> int" where
  "resolvedLease r = (if cr_Lease r \<le> 0 then DefaultClaimLease else cr_Lease r)"

definition resolvedLimit :: "ClaimDueRequest \<Rightarrow> int" where
  "resolvedLimit r = (if cr_Limit r \<le> 0 then DefaultClaimLimit else cr_Limit r)"

definition reifyClaim :: "('v \<Rightarrow> mapClaimRecord option) \<Rightarrow> 'v option \<Rightarrow> mapClaimRecord option" where
  "reifyClaim reify raw = (case raw of None \<Rightarrow> None | Some v \<Rightarrow> reify v)"

definition claimable :: "mapClaimRecord \<Rightarrow> instant \<Rightarrow> bool" where
  "claimable r now \<longleftrightarrow> \<not> After (mc_DueAt r) now \<and> \<not> After (mc_LeaseUntil r) now"

definition time_Compare :: "instant \<Rightarrow> instant \<Rightarrow> int" where
  "time_Compare t u = (if t < u then -1 else if u < t then 1 else 0)"

definition compareClaims :: "mapClaimRecord \<Rightarrow> mapClaimRecord \<Rightarrow> int" where
  "compareClaims a b =
     (let c = time_Compare (mc_DueAt a) (mc_DueAt b) in
      if c \<noteq> 0 then c else bytes_Compare (mc_Key a) (mc_Key b))"

section \<open>The runtime\<close>

text \<open>The update functions passed to \<open>MapUpdate\<close>; the flag is the variable they capture.\<close>

definition insert_fn ::
  "('v \<Rightarrow> mapClaimRecord option) \<Rightarrow> (mapClaimRecord \<Rightarrow> 'v) \<Rightarrow> string \<Rightarrow> instant \<Rightarrow> byte list \<Rightarrow>
     'v option \<Rightarrow> 'v option \<times> bool" where
  "insert_fn reify box key dueAt payload prev =
     (let fresh = Some (box (zero_claim \<lparr> mc_Key := key, mc_DueAt := dueAt, mc_Payload := payload \<rparr>)) in
      case reifyClaim reify prev of
        Some r \<Rightarrow> if \<not> mc_Deleted r then (prev, False) else (fresh, False)
      | None \<Rightarrow> (fresh, False))"

definition stamp_fn ::
  "('v \<Rightarrow> mapClaimRecord option) \<Rightarrow> (mapClaimRecord \<Rightarrow> 'v) \<Rightarrow> ClaimDueRequest \<Rightarrow> instant \<Rightarrow>
     'v option \<Rightarrow> 'v option \<times> bool" where
  "stamp_fn reify box req now prev =
     (case reifyClaim reify prev of
        None \<Rightarrow> (prev, False)
      | Some cur \<Rightarrow>
          if mc_Deleted cur \<or> \<not> claimable cur now then (prev, False)
          else (Some (box (cur \<lparr> mc_LeaseUntil := now + resolvedLease req, mc_Owner := cr_Owner req \<rparr>)), True))"

definition renew_fn ::
  "('v \<Rightarrow> mapClaimRecord option) \<Rightarrow> (mapClaimRecord \<Rightarrow> 'v) \<Rightarrow> string \<Rightarrow> int \<Rightarrow> instant \<Rightarrow>
     'v option \<Rightarrow> 'v option \<times> bool" where
  "renew_fn reify box owner ext now prev =
     (case reifyClaim reify prev of
        None \<Rightarrow> (prev, False)
      | Some cur \<Rightarrow>
          if \<not> mc_Deleted cur \<and> mc_Owner cur = owner \<and> After (mc_LeaseUntil cur) now
          then (Some (box (cur \<lparr> mc_LeaseUntil := now + ext \<rparr>)), True)
          else (prev, False))"

definition finalize_fn ::
  "('v \<Rightarrow> mapClaimRecord option) \<Rightarrow> (mapClaimRecord \<Rightarrow> 'v) \<Rightarrow> string \<Rightarrow> instant \<Rightarrow>
     'v option \<Rightarrow> 'v option \<times> bool" where
  "finalize_fn reify box key dueAt prev =
     (case reifyClaim reify prev of
        None \<Rightarrow> (prev, False)
      | Some cur \<Rightarrow>
          if mc_Deleted cur \<or> mc_DueAt cur \<noteq> dueAt then (prev, False)
          else (Some (box (zero_claim \<lparr> mc_Key := key, mc_Deleted := True \<rparr>)), False))"

definition ClaimInsert ::
  "('s, 'v) map_backends \<Rightarrow> ('v \<Rightarrow> mapClaimRecord option) \<Rightarrow> (mapClaimRecord \<Rightarrow> 'v) \<Rightarrow>
     's \<Rightarrow> string \<Rightarrow> string \<Rightarrow> instant \<Rightarrow> byte list \<Rightarrow> 's \<times> go_error option" where
  "ClaimInsert rt reify box s collection key dueAt payload =
     (let (s', _, err) = rt_MapUpdate rt s collection key (insert_fn reify box key dueAt payload) in
      (s', err))"

text \<open>The scan of \<open>ClaimDue\<close>: due and unleased items, ordered by due time and key.\<close>

definition due_filter :: "('v \<Rightarrow> mapClaimRecord option) \<Rightarrow> instant \<Rightarrow> 'v option \<Rightarrow> bool" where
  "due_filter reify now item =
     (case reifyClaim reify item of None \<Rightarrow> False | Some r \<Rightarrow> \<not> mc_Deleted r \<and> claimable r now)"

definition reify_or_zero :: "('v \<Rightarrow> mapClaimRecord option) \<Rightarrow> 'v option \<Rightarrow> mapClaimRecord" where
  "reify_or_zero reify raw = (case reifyClaim reify raw of None \<Rightarrow> zero_claim | Some r \<Rightarrow> r)"

definition due_order :: "('v \<Rightarrow> mapClaimRecord option) \<Rightarrow> 'v option \<Rightarrow> 'v option \<Rightarrow> int" where
  "due_order reify a b = compareClaims (reify_or_zero reify a) (reify_or_zero reify b)"

definition ClaimDue_scan ::
  "('s, 'v) map_backends \<Rightarrow> ('v \<Rightarrow> mapClaimRecord option) \<Rightarrow> 's \<Rightarrow> ClaimDueRequest \<Rightarrow> instant \<Rightarrow>
     'v ScanResult outcome" where
  "ClaimDue_scan rt reify s req now =
     rt_MapScan rt s (cr_Collection req) (Some (due_filter reify now)) (Some (due_order reify)) NoCursor
       (resolvedLimit req)"

text \<open>The read-modify-write of one scanned item; the flag says whether this call won it.\<close>

definition ClaimDue_stamp ::
  "('s, 'v) map_backends \<Rightarrow> ('v \<Rightarrow> mapClaimRecord option) \<Rightarrow> (mapClaimRecord \<Rightarrow> 'v) \<Rightarrow>
     's \<Rightarrow> ClaimDueRequest \<Rightarrow> instant \<Rightarrow> string \<Rightarrow> 's \<times> bool \<times> go_error option" where
  "ClaimDue_stamp rt reify box s req now key =
     rt_MapUpdate rt s (cr_Collection req) key (stamp_fn reify box req now)"

definition due_claim :: "instant \<Rightarrow> mapClaimRecord \<Rightarrow> DueClaim" where
  "due_claim leaseUntil r = \<lparr> dc_Key = mc_Key r, dc_DueAt = mc_DueAt r, dc_Payload = mc_Payload r,
     dc_LeaseUntil = leaseUntil \<rparr>"

fun ClaimDue_loop ::
  "('s, 'v) map_backends \<Rightarrow> ('v \<Rightarrow> mapClaimRecord option) \<Rightarrow> (mapClaimRecord \<Rightarrow> 'v) \<Rightarrow>
     ClaimDueRequest \<Rightarrow> instant \<Rightarrow> 's \<Rightarrow> 'v option list \<Rightarrow> DueClaim list \<Rightarrow>
     's \<times> DueClaim list \<times> go_error option" where
  "ClaimDue_loop rt reify box req now s [] claimed = (s, claimed, None)"
| "ClaimDue_loop rt reify box req now s (item # items) claimed =
     (case reifyClaim reify item of
        None \<Rightarrow> ClaimDue_loop rt reify box req now s items claimed
      | Some r \<Rightarrow>
          (let (s1, won, upd) = ClaimDue_stamp rt reify box s req now (mc_Key r) in
           case upd of
             Some err \<Rightarrow> (s1, claimed, Some (ErrFmt [err]))
           | None \<Rightarrow>
               let claimed1 = (if won then claimed @ [due_claim (now + resolvedLease req) r] else claimed) in
               if resolvedLimit req \<le> int (length claimed1) then (s1, claimed1, None)
               else ClaimDue_loop rt reify box req now s1 items claimed1))"

definition ClaimDue ::
  "('s, 'v) map_backends \<Rightarrow> ('v \<Rightarrow> mapClaimRecord option) \<Rightarrow> (mapClaimRecord \<Rightarrow> 'v) \<Rightarrow>
     instant \<Rightarrow> 's \<Rightarrow> ClaimDueRequest \<Rightarrow> ('s \<times> DueClaim list \<times> go_error option) outcome" where
  "ClaimDue rt reify box wall s req =
     (let now = resolvedNow wall req in
      case ClaimDue_scan rt reify s req now of
        Panic \<Rightarrow> Panic
      | Fail err \<Rightarrow> Ok (s, [], Some (ErrFmt [err]))
      | Ok res \<Rightarrow> Ok (ClaimDue_loop rt reify box req now s (sr_Items res) []))"

definition RenewLease ::
  "('s, 'v) map_backends \<Rightarrow> ('v \<Rightarrow> mapClaimRecord option) \<Rightarrow> (mapClaimRecord \<Rightarrow> 'v) \<Rightarrow>
     's \<Rightarrow> string \<Rightarrow> string \<Rightarrow> string \<Rightarrow> int \<Rightarrow> instant \<Rightarrow> 's \<times> go_error option" where
  "RenewLease rt reify box s collection key owner ext now =
     (let (s', held, err) = rt_MapUpdate rt s collection key (renew_fn reify box owner ext now) in
      case err of
        Some e \<Rightarrow> (s', Some (ErrFmt [e]))
      | None \<Rightarrow> if \<not> held then (s', Some (ErrFmt [ErrClaimLeaseNotHeld])) else (s', None))"

definition ClaimDelete ::
  "('s, 'v) map_backends \<Rightarrow> 's \<Rightarrow> string \<Rightarrow> string \<Rightarrow> 's \<times> go_error option" where
  "ClaimDelete rt s collection key =
     (let (s', err) = rt_MapDelete rt s collection key in
      (s', case err of Some e \<Rightarrow> Some (ErrFmt [e]) | None \<Rightarrow> None))"

definition ClaimDeleteIfDue ::
  "('s, 'v) map_backends \<Rightarrow> ('v \<Rightarrow> mapClaimRecord option) \<Rightarrow> (mapClaimRecord \<Rightarrow> 'v) \<Rightarrow>
     's \<Rightarrow> string \<Rightarrow> string \<Rightarrow> instant \<Rightarrow> 's \<times> go_error option" where
  "ClaimDeleteIfDue rt reify box s collection key dueAt =
     (let (s', _, err) = rt_MapUpdate rt s collection key (finalize_fn reify box key dueAt) in
      (s', case err of Some e \<Rightarrow> Some (ErrFmt [e]) | None \<Rightarrow> None))"

section \<open>The order of claims\<close>

lemma compareClaims_less:
  "compareClaims a b < 0 \<longleftrightarrow> mc_DueAt a < mc_DueAt b \<or> mc_DueAt a = mc_DueAt b \<and> mc_Key a < mc_Key b"
  "compareClaims a b \<le> 0 \<longleftrightarrow> mc_DueAt a < mc_DueAt b \<or> mc_DueAt a = mc_DueAt b \<and> mc_Key a \<le> mc_Key b"
  "0 < compareClaims a b \<longleftrightarrow> mc_DueAt b < mc_DueAt a \<or> mc_DueAt a = mc_DueAt b \<and> mc_Key b < mc_Key a"
  by (auto simp: compareClaims_def time_Compare_def bytes_Compare_def Let_def)

interpretation due: comparator "due_order reify" for reify :: "'v \<Rightarrow> mapClaimRecord option"
  by unfold_locales (auto simp: due_order_def compareClaims_less)

section \<open>What the runtime relies on\<close>

locale due_claims = map_engine rt contents inv
  for rt :: "('s, 'v) map_backends" and contents inv +
  fixes reify :: "'v \<Rightarrow> mapClaimRecord option" and box :: "mapClaimRecord \<Rightarrow> 'v"
  assumes reify_box: "reify (box r) = Some r"

definition claim_at ::
  "('s \<Rightarrow> string \<Rightarrow> (string, 'v) kv_map) \<Rightarrow> ('v \<Rightarrow> mapClaimRecord option) \<Rightarrow> 's \<Rightarrow> string \<Rightarrow> string \<Rightarrow>
     mapClaimRecord option" where
  "claim_at contents reify s col key = reifyClaim reify (store_get (contents s col) key)"

definition live_claim :: "mapClaimRecord option \<Rightarrow> mapClaimRecord option" where
  "live_claim c = (case c of None \<Rightarrow> None | Some r \<Rightarrow> if mc_Deleted r then None else Some r)"

lemma reifyClaim_Some [simp]: "reifyClaim reify (Some v) = reify v"
  by (simp add: reifyClaim_def)

text \<open>What the operations do to the claim of their key.\<close>

definition inserted :: "string \<Rightarrow> instant \<Rightarrow> byte list \<Rightarrow> mapClaimRecord option \<Rightarrow> mapClaimRecord option" where
  "inserted key dueAt payload c =
     (case live_claim c of
        Some r \<Rightarrow> c
      | None \<Rightarrow> Some (zero_claim \<lparr> mc_Key := key, mc_DueAt := dueAt, mc_Payload := payload \<rparr>))"

definition winnable :: "instant \<Rightarrow> mapClaimRecord option \<Rightarrow> bool" where
  "winnable now c = (case live_claim c of Some r \<Rightarrow> claimable r now | None \<Rightarrow> False)"

definition stamped :: "ClaimDueRequest \<Rightarrow> instant \<Rightarrow> mapClaimRecord option \<Rightarrow> mapClaimRecord option" where
  "stamped req now c =
     (if winnable now c
      then map_option (\<lambda>r. r \<lparr> mc_LeaseUntil := now + resolvedLease req, mc_Owner := cr_Owner req \<rparr>) c
      else c)"

definition held_by :: "string \<Rightarrow> instant \<Rightarrow> mapClaimRecord option \<Rightarrow> bool" where
  "held_by owner now c =
     (case live_claim c of Some r \<Rightarrow> mc_Owner r = owner \<and> now < mc_LeaseUntil r | None \<Rightarrow> False)"

definition renewed :: "string \<Rightarrow> int \<Rightarrow> instant \<Rightarrow> mapClaimRecord option \<Rightarrow> mapClaimRecord option" where
  "renewed owner ext now c =
     (if held_by owner now c then map_option (\<lambda>r. r \<lparr> mc_LeaseUntil := now + ext \<rparr>) c else c)"

definition finalized :: "string \<Rightarrow> instant \<Rightarrow> mapClaimRecord option \<Rightarrow> mapClaimRecord option" where
  "finalized key dueAt c =
     (case live_claim c of
        Some r \<Rightarrow> if mc_DueAt r = dueAt then Some (zero_claim \<lparr> mc_Key := key, mc_Deleted := True \<rparr>) else c
      | None \<Rightarrow> c)"

lemmas claim_effects = inserted_def winnable_def stamped_def held_by_def renewed_def finalized_def
  live_claim_def After_def

definition claim_upd :: "(string \<Rightarrow> string \<Rightarrow> mapClaimRecord option) \<Rightarrow> string \<Rightarrow> string \<Rightarrow>
    mapClaimRecord option \<Rightarrow> (string \<Rightarrow> string \<Rightarrow> mapClaimRecord option)" where
  "claim_upd cl col key v = (\<lambda>c k. if c = col \<and> k = key then v else cl c k)"

context due_claims
begin

abbreviation claim :: "'s \<Rightarrow> string \<Rightarrow> string \<Rightarrow> mapClaimRecord option" where
  "claim \<equiv> claim_at contents reify"

text \<open>A read-modify-write whose function acts on the decoded claim as \<open>g\<close>.\<close>

lemma claim_rmw:
  assumes "inv s" and g: "\<And>prev. reifyClaim reify (fst (f prev)) = g (reifyClaim reify prev)"
    and w: "\<And>prev. snd (f prev) = w (reifyClaim reify prev)"
  obtains s' where "rt_MapUpdate rt s col key f = (s', w (claim s col key), None)" and "inv s'"
    and "claim s' = claim_upd (claim s) col key (g (claim s col key))"
proof -
  let ?prev = "store_get (contents s col) key"
  obtain s' where s': "rt_MapUpdate rt s col key f = (s', snd (f ?prev), None)" "inv s'"
      "contents s' = (contents s)(col := map_put key (fst (f ?prev)) (contents s col))"
    using update_spec [OF assms(1)] by blast
  have "claim s' = claim_upd (claim s) col key (g (claim s col key))"
    by (simp add: fun_eq_iff claim_upd_def claim_at_def s'(3) store_get_def g [symmetric])
  with s' that show ?thesis
    by (simp add: w claim_at_def)
qed

lemma insert_fn_acts:
  "reifyClaim reify (fst (insert_fn reify box key dueAt payload prev)) =
     inserted key dueAt payload (reifyClaim reify prev)"
  "snd (insert_fn reify box key dueAt payload prev) = False"
  by (auto simp: insert_fn_def claim_effects reify_box Let_def split: option.split)

lemma stamp_fn_acts:
  "reifyClaim reify (fst (stamp_fn reify box req now prev)) = stamped req now (reifyClaim reify prev)"
  "snd (stamp_fn reify box req now prev) = winnable now (reifyClaim reify prev)"
  by (auto simp: stamp_fn_def claim_effects reify_box split: option.split)

lemma renew_fn_acts:
  "reifyClaim reify (fst (renew_fn reify box owner ext now prev)) = renewed owner ext now (reifyClaim reify prev)"
  "snd (renew_fn reify box owner ext now prev) = held_by owner now (reifyClaim reify prev)"
  by (auto simp: renew_fn_def claim_effects reify_box split: option.split)

lemma finalize_fn_acts:
  "reifyClaim reify (fst (finalize_fn reify box key dueAt prev)) = finalized key dueAt (reifyClaim reify prev)"
  "snd (finalize_fn reify box key dueAt prev) = False"
  by (auto simp: finalize_fn_def claim_effects reify_box split: option.split)

lemma ClaimInsert_effect:
  assumes "inv s"
  obtains s' where "ClaimInsert rt reify box s col key dueAt payload = (s', None)" and "inv s'"
    and "claim s' = claim_upd (claim s) col key (inserted key dueAt payload (claim s col key))"
  by (rule claim_rmw [where f = "insert_fn reify box key dueAt payload" and g = "inserted key dueAt payload"
        and w = "\<lambda>_. False" and col = col and key = key, OF assms insert_fn_acts])
    (rule that, simp_all add: ClaimInsert_def)

lemma ClaimDue_stamp_effect:
  assumes "inv s"
  obtains s' where "ClaimDue_stamp rt reify box s req now key =
      (s', winnable now (claim s (cr_Collection req) key), None)" and "inv s'"
    and "claim s' = claim_upd (claim s) (cr_Collection req) key (stamped req now (claim s (cr_Collection req) key))"
  by (rule claim_rmw [where f = "stamp_fn reify box req now" and g = "stamped req now"
        and w = "winnable now" and col = "cr_Collection req" and key = key, OF assms stamp_fn_acts])
    (rule that, simp_all add: ClaimDue_stamp_def)

lemma RenewLease_effect:
  assumes "inv s"
  obtains s' where "RenewLease rt reify box s col key owner ext now =
      (s', if held_by owner now (claim s col key) then None else Some (ErrFmt [ErrClaimLeaseNotHeld]))" and "inv s'"
    and "claim s' = claim_upd (claim s) col key (renewed owner ext now (claim s col key))"
  by (rule claim_rmw [where f = "renew_fn reify box owner ext now" and g = "renewed owner ext now"
        and w = "held_by owner now" and col = col and key = key, OF assms renew_fn_acts])
    (rule that, simp_all add: RenewLease_def)

lemma ClaimDeleteIfDue_effect:
  assumes "inv s"
  obtains s' where "ClaimDeleteIfDue rt reify box s col key dueAt = (s', None)" and "inv s'"
    and "claim s' = claim_upd (claim s) col key (finalized key dueAt (claim s col key))"
  by (rule claim_rmw [where f = "finalize_fn reify box key dueAt" and g = "finalized key dueAt"
        and w = "\<lambda>_. False" and col = col and key = key, OF assms finalize_fn_acts])
    (rule that, simp_all add: ClaimDeleteIfDue_def)

lemma ClaimDelete_effect:
  assumes "inv s"
  obtains s' where "ClaimDelete rt s col key = (s', None)" and "inv s'"
    and "claim s' = claim_upd (claim s) col key None"
proof -
  obtain s' where s': "rt_MapDelete rt s col key = (s', None)" "inv s'"
      "contents s' = (contents s)(col := map_delete key (contents s col))"
    using delete_spec [OF assms] by blast
  then have "ClaimDelete rt s col key = (s', None)"
    by (simp add: ClaimDelete_def)
  moreover have "claim s' = claim_upd (claim s) col key None"
    by (simp add: fun_eq_iff claim_upd_def claim_at_def s'(3) store_get_def reifyClaim_def)
  ultimately show ?thesis
    using that s'(2) by blast
qed

end

section \<open>Claiming\<close>

text \<open>Every stored claim carries its own key.\<close>

definition claims_wf :: "(string \<Rightarrow> string \<Rightarrow> mapClaimRecord option) \<Rightarrow> string \<Rightarrow> bool" where
  "claims_wf cl col \<longleftrightarrow> (\<forall>k r. cl col k = Some r \<longrightarrow> mc_Key r = k)"

definition due_claims_of :: "(string \<Rightarrow> string \<Rightarrow> mapClaimRecord option) \<Rightarrow> string \<Rightarrow> instant \<Rightarrow> mapClaimRecord set" where
  "due_claims_of cl col now = {r. \<exists>k. cl col k = Some r \<and> winnable now (Some r)}"

lemma due_filter_winnable: "due_filter reify now item = winnable now (reifyClaim reify item)"
  by (auto simp: due_filter_def claim_effects split: option.split)

lemma winnable_Some: "winnable now c \<Longrightarrow> \<exists>r. c = Some r"
  by (auto simp: winnable_def live_claim_def split: option.splits)

context due_claims
begin

lemma ClaimDue_loop_effect:
  assumes "inv s" and "distinct (map fst ps)" and "int (length cs + length ps) \<le> resolvedLimit req"
    and "\<forall>p \<in> set ps. claim s (cr_Collection req) (fst p) = reifyClaim reify (snd p) \<and>
      winnable now (reifyClaim reify (snd p)) \<and> mc_Key (reify_or_zero reify (snd p)) = fst p"
  shows "\<exists>s'. ClaimDue_loop rt reify box req now s (map snd ps) cs =
      (s', cs @ map (\<lambda>p. due_claim (now + resolvedLease req) (reify_or_zero reify (snd p))) ps, None) \<and> inv s' \<and>
    (\<forall>c k. claim s' c k =
      (if c = cr_Collection req \<and> k \<in> fst ` set ps then stamped req now (claim s c k) else claim s c k))"
  using assms
proof (induction ps arbitrary: s cs)
  case (Cons p ps)
  let ?col = "cr_Collection req" and ?c = "due_claim (now + resolvedLease req) (reify_or_zero reify (snd p))"
  have p: "claim s ?col (fst p) = reifyClaim reify (snd p)" "winnable now (claim s ?col (fst p))"
      "mc_Key (reify_or_zero reify (snd p)) = fst p"
    using Cons.prems(4) by auto
  then obtain r where r: "reifyClaim reify (snd p) = Some r" "mc_Key r = fst p"
    using winnable_Some by (fastforce simp: reify_or_zero_def)
  obtain s1 where s1: "ClaimDue_stamp rt reify box s req now (fst p) = (s1, True, None)" "inv s1"
    and cl: "claim s1 = claim_upd (claim s) ?col (fst p) (stamped req now (claim s ?col (fst p)))"
    using ClaimDue_stamp_effect [OF Cons.prems(1)] p(2) by metis
  have step: "ClaimDue_loop rt reify box req now s (map snd (p # ps)) cs =
      (if resolvedLimit req \<le> int (length (cs @ [?c])) then (s1, cs @ [?c], None)
       else ClaimDue_loop rt reify box req now s1 (map snd ps) (cs @ [?c]))"
    using r s1(1) by (simp add: reify_or_zero_def)
  have loop: "ClaimDue_loop rt reify box req now s (map snd (p # ps)) cs =
      ClaimDue_loop rt reify box req now s1 (map snd ps) (cs @ [?c])"
    using step Cons.prems(3) by (cases ps) auto
  have keep: "claim s1 ?col (fst q) = claim s ?col (fst q)" if "q \<in> set ps" for q
  proof -
    have "fst q \<noteq> fst p"
      using that Cons.prems(2) by (auto simp: image_iff)
    then show ?thesis
      by (simp add: cl claim_upd_def)
  qed
  have "\<exists>s'. ClaimDue_loop rt reify box req now s1 (map snd ps) (cs @ [?c]) =
      (s', (cs @ [?c]) @ map (\<lambda>p. due_claim (now + resolvedLease req) (reify_or_zero reify (snd p))) ps, None) \<and>
      inv s' \<and> (\<forall>c k. claim s' c k =
        (if c = ?col \<and> k \<in> fst ` set ps then stamped req now (claim s1 c k) else claim s1 c k))"
    by (rule Cons.IH) (use s1(2) Cons.prems keep in auto)
  then show ?case
    unfolding loop using Cons.prems(2) by (fastforce simp: cl claim_upd_def)
qed auto

text \<open>The items the scan of a request finds, with their keys.\<close>

abbreviation scanned :: "'s \<Rightarrow> string \<Rightarrow> instant \<Rightarrow> (string, 'v) kv_map" where
  "scanned s col now \<equiv>
     sorted_matches sprint_string (Some (due_filter reify now)) (due_order reify) (contents s col)"

lemma scanned_set:
  "set (scanned s col now) = {p \<in> set (contents s col). winnable now (reifyClaim reify (snd p))}"
  by (auto simp: sorted_matches_def matching_def due_filter_winnable)

lemma scanned_keys:
  assumes "inv s"
  shows "distinct (map fst (scanned s col now))"
proof -
  have "mset (map fst (scanned s col now)) =
      mset (map fst (filter (matching (Some (due_filter reify now))) (contents s col)))"
    by (simp add: mset_sorted_matches)
  moreover have "distinct (map fst (filter (matching (Some (due_filter reify now))) (contents s col)))"
    by (rule distinct_map_filter [OF contents_distinct [OF assms]])
  ultimately show ?thesis
    using mset_eq_imp_distinct_iff by blast
qed

lemma contents_claim:
  "inv s \<Longrightarrow> p \<in> set (contents s col) \<Longrightarrow> claim s col (fst p) = reifyClaim reify (snd p)"
  using contents_distinct [of s col] by (cases p) (simp add: claim_at_def store_get_def)

lemma scanned_record:
  assumes "inv s" and "claims_wf (claim s) col" and "p \<in> set (scanned s col now)"
  shows "claim s col (fst p) = Some (reify_or_zero reify (snd p))"
    and "reifyClaim reify (snd p) = Some (reify_or_zero reify (snd p))"
    and "winnable now (Some (reify_or_zero reify (snd p)))"
    and "mc_Key (reify_or_zero reify (snd p)) = fst p"
proof -
  have p: "p \<in> set (contents s col)" "winnable now (reifyClaim reify (snd p))"
    using assms(3) scanned_set by auto
  obtain r where r: "reifyClaim reify (snd p) = Some r"
    using winnable_Some [OF p(2)] by blast
  then show "reifyClaim reify (snd p) = Some (reify_or_zero reify (snd p))"
    and "claim s col (fst p) = Some (reify_or_zero reify (snd p))"
    and "winnable now (Some (reify_or_zero reify (snd p)))"
    using p(2) contents_claim [OF assms(1) p(1)] by (simp_all add: reify_or_zero_def)
  then show "mc_Key (reify_or_zero reify (snd p)) = fst p"
    using assms(2) by (simp add: claims_wf_def)
qed

lemma scanned_claims:
  assumes "inv s" and "claims_wf (claim s) col"
  shows "set (map (\<lambda>p. reify_or_zero reify (snd p)) (scanned s col now)) = due_claims_of (claim s) col now"
proof (intro equalityI subsetI)
  fix x
  assume "x \<in> set (map (\<lambda>p. reify_or_zero reify (snd p)) (scanned s col now))"
  then obtain p where p: "p \<in> set (scanned s col now)" "x = reify_or_zero reify (snd p)"
    by auto
  show "x \<in> due_claims_of (claim s) col now"
    using scanned_record(1,3) [OF assms p(1)] p(2) by (auto simp: due_claims_of_def)
next
  fix x
  assume "x \<in> due_claims_of (claim s) col now"
  then obtain k where k: "claim s col k = Some x" "winnable now (Some x)"
    by (auto simp: due_claims_of_def)
  then obtain v where v: "map_of (contents s col) k = Some v" "reifyClaim reify v = Some x"
    by (auto simp: claim_at_def store_get_def reifyClaim_def split: option.splits)
  have "(k, v) \<in> set (scanned s col now)"
    unfolding scanned_set using k(2) v(2) map_of_SomeD [OF v(1)] by simp
  moreover have "reify_or_zero reify (snd (k, v)) = x"
    using v(2) by (simp add: reify_or_zero_def)
  ultimately show "x \<in> set (map (\<lambda>p. reify_or_zero reify (snd p)) (scanned s col now))"
    unfolding set_map by (metis rev_image_eqI)
qed

lemma scanned_sorted:
  assumes "inv s" and "claims_wf (claim s) col"
  shows "sorted_wrt (\<lambda>a b. compareClaims a b < 0) (map (\<lambda>p. reify_or_zero reify (snd p)) (scanned s col now))"
proof -
  let ?S = "scanned s col now" and ?rec = "\<lambda>p. reify_or_zero reify (snd p)"
  have "printed_distinct sprint_string (contents s col)"
    using contents_distinct [OF assms(1)] by (simp add: printed_distinct_def sprint_string_def)
  from due.sorted_matches_sorted [OF this, of reify "Some (due_filter reify now)"]
  have le: "compareClaims (?rec (?S ! i)) (?rec (?S ! j)) \<le> 0" if "i < j" "j < length ?S" for i j
    using that by (simp add: sorted_wrt_iff_nth_less due_order_def)
  have "mc_Key (?rec (?S ! i)) \<noteq> mc_Key (?rec (?S ! j))" if "i < j" "j < length ?S" for i j
  proof -
    have "map fst ?S ! i \<noteq> map fst ?S ! j"
      using that scanned_keys [OF assms(1), where col = col and now = now] by (simp only: nth_eq_iff_index_eq length_map)
    then show ?thesis
      using that scanned_record(4) [OF assms nth_mem] by simp
  qed
  with le show ?thesis
    unfolding sorted_wrt_iff_nth_less compareClaims_less by (auto simp: order.strict_iff_order)
qed

lemma ClaimDue_effect:
  assumes "inv s" and wf: "claims_wf (claim s) (cr_Collection req)" and limit: "resolvedLimit req \<le> MaxInt"
    and now: "now = resolvedNow wall req"
  obtains s' rs where "ClaimDue rt reify box wall s req =
      Ok (s', map (due_claim (now + resolvedLease req)) (take (nat (resolvedLimit req)) rs), None)"
    and "inv s'" and "sorted_wrt (\<lambda>a b. compareClaims a b < 0) rs"
    and "set rs = due_claims_of (claim s) (cr_Collection req) now"
    and "\<And>c k. claim s' c k =
      (if c = cr_Collection req \<and> k \<in> mc_Key ` set (take (nat (resolvedLimit req)) rs)
       then stamped req now (claim s c k) else claim s c k)"
proof -
  let ?col = "cr_Collection req" and ?n = "nat (resolvedLimit req)"
  let ?S = "take ?n (scanned s ?col now)" and ?rec = "\<lambda>p. reify_or_zero reify (snd p)"
  have pos: "0 < resolvedLimit req"
    by (simp add: resolvedLimit_def DefaultClaimLimit_def)
  obtain r where scan: "ClaimDue_scan rt reify s req now = Ok r" "sr_Items r = map snd ?S"
    using scan_sorted [OF assms(1) due.comparator_axioms pos limit] unfolding ClaimDue_scan_def by blast
  note rec = scanned_record [OF assms(1) wf in_set_takeD]
  have "\<exists>s'. ClaimDue_loop rt reify box req now s (map snd ?S) [] =
      (s', [] @ map (\<lambda>p. due_claim (now + resolvedLease req) (?rec p)) ?S, None) \<and> inv s' \<and>
    (\<forall>c k. claim s' c k =
      (if c = ?col \<and> k \<in> fst ` set ?S then stamped req now (claim s c k) else claim s c k))"
  proof (rule ClaimDue_loop_effect [OF assms(1)])
    show "distinct (map fst ?S)"
      using scanned_keys [OF assms(1)] by (simp only: take_map [symmetric] distinct_take)
    show "int (length ([] :: DueClaim list) + length ?S) \<le> resolvedLimit req"
      using pos by simp
  qed (use rec in simp)
  then obtain s' where s': "ClaimDue_loop rt reify box req now s (map snd ?S) [] =
      (s', map (\<lambda>p. due_claim (now + resolvedLease req) (?rec p)) ?S, None)" "inv s'"
    "\<And>c k. claim s' c k =
      (if c = ?col \<and> k \<in> fst ` set ?S then stamped req now (claim s c k) else claim s c k)"
    by auto
  have "map mc_Key (take ?n (map ?rec (scanned s ?col now))) = map fst ?S"
    using rec(4) by (simp add: take_map)
  then have keys: "mc_Key ` set (take ?n (map ?rec (scanned s ?col now))) = fst ` set ?S"
    by (metis list.set_map)
  show ?thesis
  proof (rule that)
    show "ClaimDue rt reify box wall s req = Ok (s',
        map (due_claim (now + resolvedLease req)) (take ?n (map ?rec (scanned s ?col now))), None)"
      using scan s'(1) now by (simp add: ClaimDue_def Let_def take_map o_def)
    show "\<And>c k. claim s' c k =
      (if c = ?col \<and> k \<in> mc_Key ` set (take ?n (map ?rec (scanned s ?col now)))
       then stamped req now (claim s c k) else claim s c k)"
      unfolding keys by (rule s'(3))
  qed (use s'(2) scanned_sorted [OF assms(1) wf] scanned_claims [OF assms(1) wf] in simp_all)
qed

end

end
