(* ===== verification/ClaimRuns.thy ===== *)
theory ClaimRuns
  imports DueClaims
begin

text \<open>
  Claims on the in-memory engine (\<open>src/metaengine/memory_dueclaim.go\<close>) and concurrent claimers. A
  call of \<open>ClaimDue\<close> is a scan followed by one read-modify-write per item; the engine serialises
  them one by one, so concurrent calls are sequences of such steps in any order, mixed with the
  other operations.
\<close>

section \<open>Claimers as sequences of steps\<close>

record 'v claim_run =
  run_req :: ClaimDueRequest
  run_now :: instant
  run_items :: "'v option list"
  run_claimed :: "DueClaim list"

record ('s, 'v) claim_world =
  cw_store :: 's
  cw_runs :: "nat \<Rightarrow> 'v claim_run option"

datatype claim_act =
    ActScan nat ClaimDueRequest instant
  | ActStamp nat
  | ActInsert string string instant "byte list"
  | ActRenew string string string int instant
  | ActDelete string string
  | ActDeleteIfDue string string instant

datatype claim_event = Won string string instant instant | Renewed string string | Removed string string | Quiet

text \<open>One item of the loop in \<open>ClaimDue\<close>.\<close>

definition stamp_step ::
  "('s, 'v) map_backends \<Rightarrow> ('v \<Rightarrow> mapClaimRecord option) \<Rightarrow> (mapClaimRecord \<Rightarrow> 'v) \<Rightarrow>
     's \<Rightarrow> 'v claim_run \<Rightarrow> 's \<times> 'v claim_run \<times> claim_event" where
  "stamp_step rt reify box s run =
     (if resolvedLimit (run_req run) \<le> int (length (run_claimed run)) then (s, run, Quiet)
      else
        case run_items run of
          [] \<Rightarrow> (s, run, Quiet)
        | item # items \<Rightarrow>
            (case reifyClaim reify item of
               None \<Rightarrow> (s, run \<lparr> run_items := items \<rparr>, Quiet)
             | Some r \<Rightarrow>
                 let req = run_req run; leaseUntil = run_now run + resolvedLease req;
                     (s1, won, upd) = ClaimDue_stamp rt reify box s req (run_now run) (mc_Key r) in
                 case upd of
                   Some err \<Rightarrow> (s1, run \<lparr> run_items := [] \<rparr>, Quiet)
                 | None \<Rightarrow>
                     if won then
                       (s1, run \<lparr> run_items := items, run_claimed := run_claimed run @ [due_claim leaseUntil r] \<rparr>,
                        Won (cr_Collection req) (mc_Key r) (run_now run) leaseUntil)
                     else (s1, run \<lparr> run_items := items \<rparr>, Quiet)))"

fun act_step ::
  "('s, 'v) map_backends \<Rightarrow> ('v \<Rightarrow> mapClaimRecord option) \<Rightarrow> (mapClaimRecord \<Rightarrow> 'v) \<Rightarrow>
     ('s, 'v) claim_world \<Rightarrow> claim_act \<Rightarrow> ('s, 'v) claim_world \<times> claim_event" where
  "act_step rt reify box w (ActScan i req wall) =
     (case ClaimDue_scan rt reify (cw_store w) req (resolvedNow wall req) of
        Ok res \<Rightarrow>
          (w \<lparr> cw_runs := (cw_runs w)(i \<mapsto> \<lparr> run_req = req, run_now = resolvedNow wall req,
                 run_items = sr_Items res, run_claimed = [] \<rparr>) \<rparr>, Quiet)
      | _ \<Rightarrow> (w, Quiet))"
| "act_step rt reify box w (ActStamp i) =
     (case cw_runs w i of
        None \<Rightarrow> (w, Quiet)
      | Some run \<Rightarrow>
          (let (s1, run1, ev) = stamp_step rt reify box (cw_store w) run in
           (w \<lparr> cw_store := s1, cw_runs := (cw_runs w)(i \<mapsto> run1) \<rparr>, ev)))"
| "act_step rt reify box w (ActInsert col key dueAt payload) =
     (w \<lparr> cw_store := fst (ClaimInsert rt reify box (cw_store w) col key dueAt payload) \<rparr>, Quiet)"
| "act_step rt reify box w (ActRenew col key owner ext now) =
     (let (s1, err) = RenewLease rt reify box (cw_store w) col key owner ext now in
      (w \<lparr> cw_store := s1 \<rparr>, if err = None then Renewed col key else Quiet))"
| "act_step rt reify box w (ActDelete col key) =
     (w \<lparr> cw_store := fst (ClaimDelete rt (cw_store w) col key) \<rparr>, Removed col key)"
| "act_step rt reify box w (ActDeleteIfDue col key dueAt) =
     (w \<lparr> cw_store := fst (ClaimDeleteIfDue rt reify box (cw_store w) col key dueAt) \<rparr>, Removed col key)"

fun acts_run ::
  "('s, 'v) map_backends \<Rightarrow> ('v \<Rightarrow> mapClaimRecord option) \<Rightarrow> (mapClaimRecord \<Rightarrow> 'v) \<Rightarrow>
     ('s, 'v) claim_world \<Rightarrow> claim_act list \<Rightarrow> ('s, 'v) claim_world \<times> claim_event list" where
  "acts_run rt reify box w [] = (w, [])"
| "acts_run rt reify box w (a # as) =
     (let (w1, ev) = act_step rt reify box w a; (w2, evs) = acts_run rt reify box w1 as in
      (w2, ev # evs))"

text \<open>Events that end or move a lease other than by winning the item.\<close>

fun touches :: "string \<Rightarrow> string \<Rightarrow> claim_event \<Rightarrow> bool" where
  "touches col key (Renewed c k) = (c = col \<and> k = key)"
| "touches col key (Removed c k) = (c = col \<and> k = key)"
| "touches col key ev = False"

section \<open>The steps of one claimer are its call\<close>

fun stamp_steps ::
  "nat \<Rightarrow> ('s, 'v) map_backends \<Rightarrow> ('v \<Rightarrow> mapClaimRecord option) \<Rightarrow> (mapClaimRecord \<Rightarrow> 'v) \<Rightarrow>
     's \<Rightarrow> 'v claim_run \<Rightarrow> 's \<times> 'v claim_run" where
  "stamp_steps 0 rt reify box s run = (s, run)"
| "stamp_steps (Suc n) rt reify box s run =
     (let (s1, run1, ev) = stamp_step rt reify box s run in stamp_steps n rt reify box s1 run1)"

lemma stamp_steps_done:
  "resolvedLimit (run_req run) \<le> int (length (run_claimed run)) \<Longrightarrow> stamp_steps n rt reify box s run = (s, run)"
  by (induction n) (simp_all add: stamp_step_def)

lemma stamp_steps_loop:
  assumes "ClaimDue_loop rt reify box (run_req run) (run_now run) s (run_items run) (run_claimed run) = (s', cs, None)"
    and "int (length (run_claimed run)) < resolvedLimit (run_req run)"
  shows "\<exists>run'. stamp_steps (length (run_items run)) rt reify box s run = (s', run') \<and> run_claimed run' = cs"
  using assms
proof (induction "run_items run" arbitrary: s run)
  case (Cons item items)
  have items: "run_items run = item # items"
    using Cons.hyps(2) by simp
  have steps: "stamp_steps (length (run_items run)) rt reify box s run = stamp_steps (length items) rt reify box s1 run1"
    if "stamp_step rt reify box s run = (s1, run1, ev)" for s1 run1 ev
    using that by (simp add: items)
  show ?case
  proof (cases "reifyClaim reify item")
    case None
    let ?run = "run \<lparr> run_items := items \<rparr>"
    have "stamp_step rt reify box s run = (s, ?run, Quiet)"
      using Cons.prems(2) None by (simp add: stamp_step_def items)
    moreover have "\<exists>run'. stamp_steps (length (run_items ?run)) rt reify box s ?run = (s', run') \<and> run_claimed run' = cs"
      by (rule Cons.hyps(1)) (use Cons.prems None items in auto)
    ultimately show ?thesis
      using steps by simp
  next
    case (Some r)
    obtain s1 won upd where st:
        "ClaimDue_stamp rt reify box s (run_req run) (run_now run) (mc_Key r) = (s1, won, upd)"
      by (metis prod_cases3)
    have upd: "upd = None"
      using Cons.prems(1) Some st by (auto simp: items split: option.splits)
    let ?cs = "if won then run_claimed run @ [due_claim (run_now run + resolvedLease (run_req run)) r]
      else run_claimed run"
    let ?run = "run \<lparr> run_items := items, run_claimed := ?cs \<rparr>"
    have "\<exists>ev. stamp_step rt reify box s run = (s1, ?run, ev)"
      using Cons.prems(2) Some st upd by (cases won) (simp_all add: stamp_step_def items Let_def)
    then have run: "stamp_steps (length (run_items run)) rt reify box s run = stamp_steps (length items) rt reify box s1 ?run"
      using steps by blast
    have loop: "(if resolvedLimit (run_req run) \<le> int (length ?cs) then (s1, ?cs, None)
        else ClaimDue_loop rt reify box (run_req run) (run_now run) s1 items ?cs) = (s', cs, None)"
      using Cons.prems(1) Some st upd by (simp add: items Let_def split: if_splits)
    show ?thesis
    proof (cases "resolvedLimit (run_req run) \<le> int (length ?cs)")
      case True
      then have "stamp_steps (length items) rt reify box s1 ?run = (s1, ?run)"
        by (intro stamp_steps_done) simp
      then show ?thesis
        using run loop True by (simp del: stamp_steps.simps)
    next
      case False
      have "\<exists>run'. stamp_steps (length (run_items ?run)) rt reify box s1 ?run = (s', run') \<and> run_claimed run' = cs"
        by (rule Cons.hyps(1)) (use loop False in \<open>simp_all split: if_splits\<close>)
      then show ?thesis
        using run by simp
    qed
  qed
qed auto

section \<open>Exclusive leases\<close>

context due_claims
begin

lemma stamp_step_effect:
  assumes "inv s" and "stamp_step rt reify box s run = (s1, run1, ev)"
  shows "inv s1 \<and>
    (claim s1 = claim s \<and> ev = Quiet \<or>
     (\<exists>key. winnable (run_now run) (claim s (cr_Collection (run_req run)) key) \<and>
        claim s1 = claim_upd (claim s) (cr_Collection (run_req run)) key
          (stamped (run_req run) (run_now run) (claim s (cr_Collection (run_req run)) key)) \<and>
        ev = Won (cr_Collection (run_req run)) key (run_now run) (run_now run + resolvedLease (run_req run))))"
proof (cases "resolvedLimit (run_req run) \<le> int (length (run_claimed run)) \<or> run_items run = [] \<or>
    reifyClaim reify (hd (run_items run)) = None")
  case True
  then show ?thesis
    using assms by (cases "run_items run") (auto simp: stamp_step_def split: if_splits)
next
  case False
  then obtain item items r where "run_items run = item # items" "reifyClaim reify item = Some r"
    by (cases "run_items run") auto
  moreover obtain s' where "ClaimDue_stamp rt reify box s (run_req run) (run_now run) (mc_Key r) =
      (s', winnable (run_now run) (claim s (cr_Collection (run_req run)) (mc_Key r)), None)" "inv s'"
    "claim s' = claim_upd (claim s) (cr_Collection (run_req run)) (mc_Key r)
       (stamped (run_req run) (run_now run) (claim s (cr_Collection (run_req run)) (mc_Key r)))"
    using ClaimDue_stamp_effect [OF assms(1)] by blast
  moreover have "claim_upd (claim s) (cr_Collection (run_req run)) (mc_Key r)
      (claim s (cr_Collection (run_req run)) (mc_Key r)) = claim s"
    by (simp add: claim_upd_def fun_eq_iff)
  ultimately show ?thesis
    using False assms(2) by (auto simp: stamp_step_def stamped_def Let_def split: if_splits)
qed

text \<open>A claim whose lease runs at least until \<open>L\<close> keeps doing so, and is won only from \<open>L\<close> on.\<close>

definition fenced :: "'s \<Rightarrow> string \<Rightarrow> string \<Rightarrow> instant \<Rightarrow> bool" where
  "fenced s col key L \<longleftrightarrow> (\<exists>r. live_claim (claim s col key) = Some r \<and> L \<le> mc_LeaseUntil r)"

lemma resolvedLease_pos: "0 < resolvedLease req"
  by (simp add: resolvedLease_def DefaultClaimLease_def)

lemma fenced_stamped:
  assumes "winnable now (claim s col key)" and "cr_Collection req = col"
    and "claim s' = claim_upd (claim s) col key (stamped req now (claim s col key))"
  shows "fenced s' col key (now + resolvedLease req)"
proof -
  obtain r where r: "claim s col key = Some r" "\<not> mc_Deleted r"
    using assms(1) by (auto simp: winnable_def live_claim_def split: option.splits if_splits)
  then show ?thesis
    using assms(1,3) by (simp add: fenced_def claim_upd_def stamped_def live_claim_def)
qed

lemma fenced_upd:
  assumes "fenced s col key L" and "claim s' = claim_upd (claim s) c k v" and "\<not> (c = col \<and> k = key)"
  shows "fenced s' col key L"
  using assms by (auto simp: fenced_def claim_upd_def)

lemma fenced_same:
  assumes "fenced s col key L" and "claim s' = claim_upd (claim s) col key (claim s col key)"
  shows "fenced s' col key L"
  using assms by (simp add: fenced_def claim_upd_def)

lemma fenced_won: "fenced s col key L \<Longrightarrow> winnable now (claim s col key) \<Longrightarrow> L \<le> now"
  by (auto simp: fenced_def winnable_def claimable_def After_def)

lemma fenced_inserted:
  assumes "fenced s col key L" and "claim s' = claim_upd (claim s) c k (inserted k dueAt payload (claim s c k))"
  shows "fenced s' col key L"
proof (cases "c = col \<and> k = key")
  case True
  then have "inserted k dueAt payload (claim s c k) = claim s col key"
    using assms(1) by (auto simp: fenced_def inserted_def)
  with True assms show ?thesis
    by (intro fenced_same [OF assms(1)]) simp
qed (rule fenced_upd [OF assms])

lemma fenced_stamp_step:
  assumes "inv s" and "stamp_step rt reify box s run = (s1, run1, ev)" and "fenced s col key L"
  shows "inv s1 \<and> fenced s1 col key L \<and> (\<forall>n l. ev = Won col key n l \<longrightarrow> L \<le> n)"
proof -
  let ?col = "cr_Collection (run_req run)"
  from stamp_step_effect [OF assms(1,2)] consider
      "inv s1" "claim s1 = claim s" "ev = Quiet"
    | k where "inv s1" "winnable (run_now run) (claim s ?col k)"
        "claim s1 = claim_upd (claim s) ?col k (stamped (run_req run) (run_now run) (claim s ?col k))"
        "ev = Won ?col k (run_now run) (run_now run + resolvedLease (run_req run))"
    by blast
  then show ?thesis
  proof cases
    case 1
    then show ?thesis
      using assms(3) by (simp add: fenced_def)
  next
    case 2
    show ?thesis
    proof (cases "?col = col \<and> k = key")
      case True
      have "L \<le> run_now run"
        using fenced_won [OF assms(3)] 2(2) True by simp
      moreover have "fenced s1 col key (run_now run + resolvedLease (run_req run))"
        by (rule fenced_stamped [where req = "run_req run"]) (use 2 True in auto)
      ultimately show ?thesis
        using 2 True resolvedLease_pos [of "run_req run"] by (force simp: fenced_def)
    next
      case False
      then show ?thesis
        using fenced_upd [OF assms(3) 2(3) False] 2 by auto
    qed
  qed
qed

lemma fenced_step:
  assumes "inv (cw_store w)" and "act_step rt reify box w a = (w', ev)"
    and "fenced (cw_store w) col key L" and "\<not> touches col key ev"
  shows "inv (cw_store w') \<and> fenced (cw_store w') col key L \<and> (\<forall>n l. ev = Won col key n l \<longrightarrow> L \<le> n)"
proof (cases a)
  case (ActScan i req wall)
  then show ?thesis
    using assms by (auto split: outcome.splits)
next
  case (ActStamp i)
  show ?thesis
  proof (cases "cw_runs w i")
    case None
    then show ?thesis
      using assms ActStamp by auto
  next
    case (Some run)
    obtain s1 run1 where st: "stamp_step rt reify box (cw_store w) run = (s1, run1, ev)" "cw_store w' = s1"
      using assms(2) ActStamp Some by (auto split: prod.splits)
    from fenced_stamp_step [OF assms(1) st(1) assms(3)] st(2) show ?thesis
      by blast
  qed
next
  case (ActInsert c k dueAt payload)
  obtain s' where "ClaimInsert rt reify box (cw_store w) c k dueAt payload = (s', None)" "inv s'"
    "claim s' = claim_upd (claim (cw_store w)) c k (inserted k dueAt payload (claim (cw_store w) c k))"
    using ClaimInsert_effect [OF assms(1)] by blast
  then show ?thesis
    using fenced_inserted [OF assms(3)] assms(2) ActInsert by auto
next
  case (ActRenew c k owner ext now)
  obtain s' where s': "RenewLease rt reify box (cw_store w) c k owner ext now =
      (s', if held_by owner now (claim (cw_store w) c k) then None else Some (ErrFmt [ErrClaimLeaseNotHeld]))" "inv s'"
    "claim s' = claim_upd (claim (cw_store w)) c k (renewed owner ext now (claim (cw_store w) c k))"
    using RenewLease_effect [OF assms(1)] by blast
  have "fenced s' col key L"
  proof (cases "c = col \<and> k = key")
    case True
    then have "renewed owner ext now (claim (cw_store w) c k) = claim (cw_store w) col key"
      using s'(1) assms(2,4) ActRenew by (auto simp: renewed_def split: if_splits)
    then show ?thesis
      using True s'(3) by (intro fenced_same [OF assms(3)]) simp
  qed (rule fenced_upd [OF assms(3) s'(3)])
  then show ?thesis
    using s' assms(2) ActRenew by (auto split: if_splits)
next
  case (ActDelete c k)
  obtain s' where "ClaimDelete rt (cw_store w) c k = (s', None)" "inv s'"
    "claim s' = claim_upd (claim (cw_store w)) c k None"
    using ClaimDelete_effect [OF assms(1)] by blast
  then show ?thesis
    using fenced_upd [OF assms(3)] assms(2,4) ActDelete by auto
next
  case (ActDeleteIfDue c k dueAt)
  obtain s' where "ClaimDeleteIfDue rt reify box (cw_store w) c k dueAt = (s', None)" "inv s'"
    "claim s' = claim_upd (claim (cw_store w)) c k (finalized k dueAt (claim (cw_store w) c k))"
    using ClaimDeleteIfDue_effect [OF assms(1)] by blast
  then show ?thesis
    using fenced_upd [OF assms(3)] assms(2,4) ActDeleteIfDue by auto
qed

lemma act_step_inv:
  assumes "inv (cw_store w)" and "act_step rt reify box w a = (w', ev)"
  shows "inv (cw_store w') \<and> (\<forall>c k n l. ev = Won c k n l \<longrightarrow> fenced (cw_store w') c k l)"
proof (cases a)
  case (ActStamp i)
  show ?thesis
  proof (cases "cw_runs w i")
    case (Some run)
    obtain s1 run1 where st: "stamp_step rt reify box (cw_store w) run = (s1, run1, ev)" "cw_store w' = s1"
      using assms(2) ActStamp Some by (auto split: prod.splits)
    from stamp_step_effect [OF assms(1) st(1)] show ?thesis
      using fenced_stamped [where req = "run_req run"] st(2) by blast
  qed (use assms ActStamp in auto)
next
  case (ActInsert c k dueAt payload)
  obtain s' where "ClaimInsert rt reify box (cw_store w) c k dueAt payload = (s', None)" "inv s'"
    using ClaimInsert_effect [OF assms(1)] by blast
  then show ?thesis
    using assms(2) ActInsert by auto
next
  case (ActRenew c k owner ext now)
  obtain s' err where "RenewLease rt reify box (cw_store w) c k owner ext now = (s', err)" "inv s'"
    using RenewLease_effect [OF assms(1)] by blast
  then show ?thesis
    using assms(2) ActRenew by (auto split: if_splits)
next
  case (ActDelete c k)
  obtain s' where "ClaimDelete rt (cw_store w) c k = (s', None)" "inv s'"
    using ClaimDelete_effect [OF assms(1)] by blast
  then show ?thesis
    using assms(2) ActDelete by auto
next
  case (ActDeleteIfDue c k dueAt)
  obtain s' where "ClaimDeleteIfDue rt reify box (cw_store w) c k dueAt = (s', None)" "inv s'"
    using ClaimDeleteIfDue_effect [OF assms(1)] by blast
  then show ?thesis
    using assms(2) ActDeleteIfDue by auto
qed (use assms in \<open>auto split: outcome.splits\<close>)

lemma run_fenced:
  assumes "inv (cw_store w)" and "fenced (cw_store w) col key L"
    and "snd (acts_run rt reify box w as) = ys @ Won col key n l # zs"
    and "\<forall>ev \<in> set ys. \<not> touches col key ev"
  shows "L \<le> n"
  using assms
proof (induction ys arbitrary: w as)
  case Nil
  then obtain a as' where as: "as = a # as'"
    by (cases as) auto
  obtain w1 ev where st: "act_step rt reify box w a = (w1, ev)"
    by fastforce
  with Nil as have "ev = Won col key n l"
    by (simp add: case_prod_beta Let_def)
  then show ?case
    using fenced_step [OF Nil.prems(1) st Nil.prems(2)] by simp
next
  case (Cons y ys)
  then obtain a as' where as: "as = a # as'"
    by (cases as) auto
  obtain w1 ev where st: "act_step rt reify box w a = (w1, ev)"
    by fastforce
  have y: "ev = y" "snd (acts_run rt reify box w1 as') = ys @ Won col key n l # zs"
    using Cons.prems(3) as st by (simp_all add: case_prod_beta Let_def)
  then show ?case
    using Cons.IH fenced_step [OF Cons.prems(1) st Cons.prems(2)] Cons.prems(4) by auto
qed

lemma run_exclusive:
  assumes "inv (cw_store w)"
    and "snd (acts_run rt reify box w as) = xs @ Won col key n1 l1 # ys @ Won col key n2 l2 # zs"
    and "\<forall>ev \<in> set ys. \<not> touches col key ev"
  shows "l1 \<le> n2"
  using assms
proof (induction xs arbitrary: w as)
  case Nil
  then obtain a as' where as: "as = a # as'"
    by (cases as) auto
  obtain w1 ev where st: "act_step rt reify box w a = (w1, ev)"
    by fastforce
  have ev: "ev = Won col key n1 l1" "snd (acts_run rt reify box w1 as') = ys @ Won col key n2 l2 # zs"
    using Nil.prems(2) as st by (simp_all add: case_prod_beta Let_def)
  then have "inv (cw_store w1)" "fenced (cw_store w1) col key l1"
    using act_step_inv [OF Nil.prems(1) st] by simp_all
  then show ?case
    by (rule run_fenced [OF _ _ ev(2) Nil.prems(3)])
next
  case (Cons x xs)
  then obtain a as' where as: "as = a # as'"
    by (cases as) auto
  obtain w1 ev where st: "act_step rt reify box w a = (w1, ev)"
    by fastforce
  have "snd (acts_run rt reify box w1 as') = xs @ Won col key n1 l1 # ys @ Won col key n2 l2 # zs"
    using Cons.prems(2) as st by (simp add: case_prod_beta Let_def)
  then show ?case
    using Cons.IH act_step_inv [OF Cons.prems(1) st] Cons.prems(3) by blast
qed

end

section \<open>On the in-memory engine\<close>

lemma memory_due_claims:
  assumes "rearranges order" and "\<And>r. reify (box r) = Some r"
  shows "due_claims (claimer clock order) getMapLocked maps_inv reify box"
  by (rule due_claims.intro [OF claimer_engine [OF assms(1)] due_claims_axioms.intro]) (rule assms(2))

interpretation mem_due: due_claims "claimer clock id" getMapLocked maps_inv Some "\<lambda>r. r" for clock
  by (rule memory_due_claims) (simp_all add: rearranges_def)

abbreviation mem_claim :: "('v \<Rightarrow> mapClaimRecord option) \<Rightarrow> (string, 'v) memoryEngine \<Rightarrow> string \<Rightarrow> string \<Rightarrow>
    mapClaimRecord option" where
  "mem_claim reify \<equiv> claim_at getMapLocked reify"

text \<open>
  C21. \<open>ClaimDue\<close> on the in-memory engine returns exactly the first \<open>Limit\<close> items, by due time and
  then by key, among those that are live, due and without a running lease at the time of the
  request, stamps the lease and the owner on exactly these, and leaves every other claim as it
  was, whatever order the map is visited in.
\<close>

theorem ClaimDue_exact:
  assumes "rearranges order" and "\<And>r. reify (box r) = Some r" and "maps_inv e"
    and "claims_wf (mem_claim reify e) (cr_Collection req)" and "cr_Limit req \<le> MaxInt"
  shows "let col = cr_Collection req;
      now = (if cr_Now req = 0 then wall else cr_Now req);
      lease_end = now + (if cr_Lease req \<le> 0 then 60 * 10 ^ 9 else cr_Lease req);
      limit = nat (if cr_Limit req \<le> 0 then 512 else cr_Limit req)
    in \<exists>e' rs. ClaimDue (claimer clock order) reify box wall e req = Ok (e',
        map (\<lambda>r. \<lparr>dc_Key = mc_Key r, dc_DueAt = mc_DueAt r, dc_Payload = mc_Payload r, dc_LeaseUntil = lease_end\<rparr>)
          (take limit rs), None) \<and>
      sorted_wrt (\<lambda>a b. mc_DueAt a < mc_DueAt b \<or> mc_DueAt a = mc_DueAt b \<and> mc_Key a < mc_Key b) rs \<and>
      set rs = {r. \<exists>k. mem_claim reify e col k = Some r \<and> \<not> mc_Deleted r \<and> mc_DueAt r \<le> now \<and> mc_LeaseUntil r \<le> now} \<and>
      (\<forall>c k. mem_claim reify e' c k =
         (if c = col \<and> k \<in> mc_Key ` set (take limit rs)
          then map_option (\<lambda>r. r\<lparr>mc_LeaseUntil := lease_end, mc_Owner := cr_Owner req\<rparr>) (mem_claim reify e c k)
          else mem_claim reify e c k))"
proof -
  let ?now = "resolvedNow wall req" and ?limit = "nat (resolvedLimit req)" and ?col = "cr_Collection req"
  have limit: "resolvedLimit req \<le> MaxInt"
    using assms(5) by (simp add: resolvedLimit_def DefaultClaimLimit_def MaxInt_def)
  obtain e' rs where due: "ClaimDue (claimer clock order) reify box wall e req =
      Ok (e', map (due_claim (?now + resolvedLease req)) (take ?limit rs), None)"
    "sorted_wrt (\<lambda>a b. compareClaims a b < 0) rs" "set rs = due_claims_of (mem_claim reify e) ?col ?now"
    "\<And>c k. mem_claim reify e' c k = (if c = ?col \<and> k \<in> mc_Key ` set (take ?limit rs)
       then stamped req ?now (mem_claim reify e c k) else mem_claim reify e c k)"
    by (rule due_claims.ClaimDue_effect [where wall = wall, OF memory_due_claims [of order reify box clock, OF assms(1,2)]
          assms(3,4) limit refl]) blast
  have set: "set rs = {r. \<exists>k. mem_claim reify e ?col k = Some r \<and> \<not> mc_Deleted r \<and> mc_DueAt r \<le> ?now \<and> mc_LeaseUntil r \<le> ?now}"
    unfolding due(3) due_claims_of_def by (auto simp: winnable_def live_claim_def claimable_def After_def split: if_splits)
  have stamp: "stamped req ?now (mem_claim reify e ?col k) =
      map_option (\<lambda>r. r\<lparr>mc_LeaseUntil := ?now + resolvedLease req, mc_Owner := cr_Owner req\<rparr>) (mem_claim reify e ?col k)"
    if "k \<in> mc_Key ` set (take ?limit rs)" for k
  proof -
    from that obtain r k' where r: "mc_Key r = k" "mem_claim reify e ?col k' = Some r" "winnable ?now (Some r)"
      using in_set_takeD [of _ ?limit rs] unfolding due(3) due_claims_of_def by blast
    then have "k' = k"
      using assms(4) by (auto simp: claims_wf_def)
    with r show ?thesis
      by (simp add: stamped_def)
  qed
  show ?thesis
    unfolding Let_def DefaultClaimLease_def [symmetric] DefaultClaimLimit_def [symmetric]
      resolvedNow_def [symmetric] resolvedLease_def [symmetric] resolvedLimit_def [symmetric]
    by (intro exI [of _ e'] exI [of _ rs] conjI allI)
      (use due(1,2,4) set stamp in \<open>simp_all add: due_claim_def [abs_def] compareClaims_less\<close>)
qed

text \<open>
  C22. Leases exclude each other: in every interleaving of concurrent claimers, inserts, renewals and
  deletions on the in-memory engine, an item that one claimer has won is won again only by
  a claimer whose time is at or after the end of that lease, unless it was renewed or removed in
  between.
\<close>

theorem lease_exclusive:
  assumes "rearranges order" and "\<And>r. reify (box r) = Some r" and "maps_inv (cw_store w)"
    and "snd (acts_run (claimer clock order) reify box w as) =
      xs @ Won col key n1 l1 # ys @ Won col key n2 l2 # zs"
    and "\<forall>ev \<in> set ys. \<not> touches col key ev"
  shows "l1 \<le> n2"
  by (rule due_claims.run_exclusive [OF memory_due_claims [OF assms(1,2)] assms(3-5)])

definition sample_req :: "instant \<Rightarrow> ClaimDueRequest" where
  "sample_req now = \<lparr> cr_Collection = ''timers'', cr_Owner = ''w'', cr_Lease = 10, cr_Limit = 5, cr_Now = now \<rparr>"

definition sample_world :: "((string, mapClaimRecord) memoryEngine, mapClaimRecord) claim_world" where
  "sample_world = \<lparr> cw_store = fst (ClaimInsert (claimer 0 (\<lambda>xs. xs)) Some (\<lambda>r. r) NewMemoryEngine ''timers'' ''k'' 1 [7]),
     cw_runs = (\<lambda>_. None) \<rparr>"

lemma sample_inv: "maps_inv (cw_store sample_world)"
proof -
  obtain s' where "ClaimInsert (claimer 0 id) Some (\<lambda>r. r) NewMemoryEngine ''timers'' ''k'' 1 [7] = (s', None)"
    "maps_inv s'"
    using mem_due.ClaimInsert_effect [OF new_maps_inv] by blast
  then show ?thesis
    by (simp add: sample_world_def id_def)
qed

theorem lease_exclusive_witness:
  "snd (acts_run (claimer 0 (\<lambda>xs. xs)) Some (\<lambda>r. r) sample_world
      [ActScan 0 (sample_req 5) 0, ActScan 1 (sample_req 6) 0, ActStamp 0, ActStamp 1,
       ActScan 2 (sample_req 20) 0, ActStamp 2]) =
     [Quiet, Quiet, Won ''timers'' ''k'' 5 15, Quiet, Quiet, Won ''timers'' ''k'' 20 30] \<and> (15 :: instant) \<le> 20"
proof -
  have run: "snd (acts_run (claimer 0 (\<lambda>xs. xs)) Some (\<lambda>r. r) sample_world
      [ActScan 0 (sample_req 5) 0, ActScan 1 (sample_req 6) 0, ActStamp 0, ActStamp 1,
       ActScan 2 (sample_req 20) 0, ActStamp 2]) =
     [Quiet, Quiet] @ Won ''timers'' ''k'' 5 15 # [Quiet, Quiet] @ Won ''timers'' ''k'' 20 30 # []"
    by code_simp
  have "(15 :: instant) \<le> 20"
    by (rule lease_exclusive [OF _ _ sample_inv run]) (simp_all add: rearranges_def)
  with run show ?thesis
    by simp
qed

text \<open>Four items: one free and due, one due under a running lease, one not due yet, one due and with an expired lease.\<close>

definition sample_claims :: "(string, mapClaimRecord) memoryEngine" where
  "sample_claims = foldl (\<lambda>e r. MapSet sprint_string 0 e ''timers'' (mc_Key r) (Some r)) NewMemoryEngine
     [zero_claim \<lparr> mc_Key := ''free'', mc_DueAt := 4, mc_Payload := [7] \<rparr>,
      zero_claim \<lparr> mc_Key := ''held'', mc_DueAt := 1, mc_LeaseUntil := 9, mc_Owner := ''v'' \<rparr>,
      zero_claim \<lparr> mc_Key := ''later'', mc_DueAt := 6 \<rparr>,
      zero_claim \<lparr> mc_Key := ''over'', mc_DueAt := 2, mc_LeaseUntil := 5, mc_Owner := ''v'' \<rparr>]"

theorem ClaimDue_exact_witness:
  "\<exists>e' rs. ClaimDue (claimer 0 rev) Some (\<lambda>r. r) 0 sample_claims (sample_req 5) = Ok (e',
      [\<lparr>dc_Key = ''over'', dc_DueAt = 2, dc_Payload = [], dc_LeaseUntil = 15\<rparr>,
       \<lparr>dc_Key = ''free'', dc_DueAt = 4, dc_Payload = [7], dc_LeaseUntil = 15\<rparr>], None) \<and>
    map (\<lambda>k. map_option mc_LeaseUntil (mem_claim Some e' ''timers'' k)) [''free'', ''held'', ''later'', ''over''] =
      [Some 15, Some 9, Some 0, Some 15] \<and>
    map mc_Key (take 5 rs) = [''over'', ''free''] \<and>
    set rs = {r. \<exists>k. mem_claim Some sample_claims ''timers'' k = Some r \<and> \<not> mc_Deleted r \<and>
      mc_DueAt r \<le> 5 \<and> mc_LeaseUntil r \<le> 5}"
proof -
  have store: "getMapLocked sample_claims = (getMapLocked NewMemoryEngine)(''timers'' := getMapLocked sample_claims ''timers'')"
    by (simp add: sample_claims_def MapSet_contents)
  have cl: "mem_claim Some sample_claims ''timers'' =
      [''free'' \<mapsto> zero_claim \<lparr> mc_Key := ''free'', mc_DueAt := 4, mc_Payload := [7] \<rparr>,
       ''held'' \<mapsto> zero_claim \<lparr> mc_Key := ''held'', mc_DueAt := 1, mc_LeaseUntil := 9, mc_Owner := ''v'' \<rparr>,
       ''later'' \<mapsto> zero_claim \<lparr> mc_Key := ''later'', mc_DueAt := 6 \<rparr>,
       ''over'' \<mapsto> zero_claim \<lparr> mc_Key := ''over'', mc_DueAt := 2, mc_LeaseUntil := 5, mc_Owner := ''v'' \<rparr>]"
    by (auto simp: fun_eq_iff claim_at_def sample_claims_def MapSet_contents reifyClaim_def store_get_def
        NewMemoryEngine_def newMemData_def getMapLocked_def)
  have inv: "maps_inv sample_claims"
    by (rule maps_inv_upd [OF new_maps_inv store]) code_simp
  have wf: "claims_wf (mem_claim Some sample_claims) (cr_Collection (sample_req 5))"
    by (simp add: claims_wf_def sample_req_def cl)
  have run: "case ClaimDue (claimer 0 rev) Some (\<lambda>r. r) 0 sample_claims (sample_req 5) of Ok (e', cs, err) \<Rightarrow>
      cs = [\<lparr>dc_Key = ''over'', dc_DueAt = 2, dc_Payload = [], dc_LeaseUntil = 15\<rparr>,
       \<lparr>dc_Key = ''free'', dc_DueAt = 4, dc_Payload = [7], dc_LeaseUntil = 15\<rparr>] \<and>
      map (\<lambda>k. map_option mc_LeaseUntil (mem_claim Some e' ''timers'' k)) [''free'', ''held'', ''later'', ''over''] =
        [Some 15, Some 9, Some 0, Some 15] | _ \<Rightarrow> False"
    by code_simp
  obtain e' rs where rs: "ClaimDue (claimer 0 rev) Some (\<lambda>r. r) 0 sample_claims (sample_req 5) = Ok (e',
        map (\<lambda>r. \<lparr>dc_Key = mc_Key r, dc_DueAt = mc_DueAt r, dc_Payload = mc_Payload r, dc_LeaseUntil = 15\<rparr>)
          (take 5 rs), None)"
      "set rs = {r. \<exists>k. mem_claim Some sample_claims ''timers'' k = Some r \<and> \<not> mc_Deleted r \<and>
        mc_DueAt r \<le> 5 \<and> mc_LeaseUntil r \<le> 5}"
      "sorted_wrt (\<lambda>a b. mc_DueAt a < mc_DueAt b \<or> mc_DueAt a = mc_DueAt b \<and> mc_Key a < mc_Key b) rs"
    using ClaimDue_exact [OF _ _ inv wf, of rev "\<lambda>r. r" 0 0]
    by (auto simp: rearranges_def sample_req_def MaxInt_def Let_def)
  have "map mc_Key (take 5 rs) = [''over'', ''free'']"
    using run unfolding rs(1) by (auto simp: map_eq_Cons_conv)
  with run rs(1,2) show ?thesis
    by (intro exI [of _ e'] exI [of _ rs]) simp
qed

text \<open>
  What a claimer gets is the scanned record, not the one it stamped: when the item is removed
  and scheduled again between the two steps, the claimer receives the payload and the due time of
  the old generation while the lease is on the new one, and finalising with the due time it was
  given does nothing.
\<close>

lemma claim_returns_scanned_record:
  "let acts = [ActScan 0 (sample_req 5) 0, ActDelete ''timers'' ''k'', ActInsert ''timers'' ''k'' 3 [8], ActStamp 0];
       w = fst (acts_run (claimer 0 (\<lambda>xs. xs)) Some (\<lambda>r. r) sample_world acts);
       w' = fst (act_step (claimer 0 (\<lambda>xs. xs)) Some (\<lambda>r. r) w (ActDeleteIfDue ''timers'' ''k'' 1)) in
   map_option (\<lambda>run. map (\<lambda>c. (dc_DueAt c, dc_Payload c)) (run_claimed run)) (cw_runs w 0) = Some [(1, [7])] \<and>
   map_option (\<lambda>r. (mc_DueAt r, mc_Payload r, mc_LeaseUntil r)) (mem_claim Some (cw_store w) ''timers'' ''k'') =
     Some (3, [8], 15) \<and>
   mem_claim Some (cw_store w') ''timers'' ''k'' = mem_claim Some (cw_store w) ''timers'' ''k''"
  by code_simp

end
