(* ===== verification/MapDedup.thy ===== *)
theory MapDedup
  imports DueClaims
begin

text \<open>
  The deduplication window over a map-shaped engine (\<open>src/metaengine/map_dedup.go\<close>,
  \<open>dedup_store.go\<close>): a key is recorded until an expiry time, a check finds it or records it in one
  read-modify-write, and lapsed records are removed by reads and sweeps. The specification is a table
  of expiry times from which nothing is ever removed.
\<close>

section \<open>Operations\<close>

record mapDedupRecord =
  dr_Key :: string
  dr_ExpiresAt :: instant

definition reifyDedup :: "('v \<Rightarrow> mapDedupRecord option) \<Rightarrow> 'v option \<Rightarrow> mapDedupRecord option" where
  "reifyDedup reify raw = (case raw of None \<Rightarrow> None | Some v \<Rightarrow> reify v)"

definition record_fn ::
  "('v \<Rightarrow> mapDedupRecord option) \<Rightarrow> (mapDedupRecord \<Rightarrow> 'v) \<Rightarrow> string \<Rightarrow> int \<Rightarrow> instant \<Rightarrow>
     'v option \<Rightarrow> 'v option \<times> bool" where
  "record_fn reify box key ttl now prev =
     (let fresh = Some (box \<lparr> dr_Key = key, dr_ExpiresAt = now + ttl \<rparr>) in
      case reifyDedup reify prev of
        Some cur \<Rightarrow> if After (dr_ExpiresAt cur) now then (prev, True) else (fresh, False)
      | None \<Rightarrow> (fresh, False))"

definition DedupCheckAndRecord ::
  "('s, 'v) map_backends \<Rightarrow> ('v \<Rightarrow> mapDedupRecord option) \<Rightarrow> (mapDedupRecord \<Rightarrow> 'v) \<Rightarrow>
     's \<Rightarrow> string \<Rightarrow> string \<Rightarrow> int \<Rightarrow> instant \<Rightarrow> 's \<times> bool \<times> go_error option" where
  "DedupCheckAndRecord rt reify box s collection key ttl now =
     (let (s', seen, err) = rt_MapUpdate rt s collection key (record_fn reify box key ttl now) in
      case err of
        Some e \<Rightarrow> (s', False, Some (ErrFmt [e]))
      | None \<Rightarrow> (s', seen, None))"

definition DedupSeen ::
  "('s, 'v) map_backends \<Rightarrow> ('v \<Rightarrow> mapDedupRecord option) \<Rightarrow>
     's \<Rightarrow> string \<Rightarrow> string \<Rightarrow> instant \<Rightarrow> ('s \<times> bool \<times> go_error option) outcome" where
  "DedupSeen rt reify s collection key now =
     (case rt_MapGet rt s collection key of
        Panic \<Rightarrow> Panic
      | Fail e \<Rightarrow> Ok (s, False, Some (ErrFmt [e]))
      | Ok (raw, ok) \<Rightarrow>
          if \<not> ok then Ok (s, False, None)
          else
            case reifyDedup reify raw of
              None \<Rightarrow> Ok (s, False, None)
            | Some r \<Rightarrow>
                if After (dr_ExpiresAt r) now then Ok (s, True, None)
                else Ok (fst (rt_MapDelete rt s collection key), False, None))"

definition expired_filter :: "('v \<Rightarrow> mapDedupRecord option) \<Rightarrow> instant \<Rightarrow> 'v option \<Rightarrow> bool" where
  "expired_filter reify now item =
     (case reifyDedup reify item of None \<Rightarrow> False | Some r \<Rightarrow> \<not> After (dr_ExpiresAt r) now)"

fun sweep_loop ::
  "('s, 'v) map_backends \<Rightarrow> ('v \<Rightarrow> mapDedupRecord option) \<Rightarrow> string \<Rightarrow> 's \<Rightarrow> 'v option list \<Rightarrow> int \<Rightarrow>
     's \<times> int \<times> go_error option" where
  "sweep_loop rt reify collection s [] removed = (s, removed, None)"
| "sweep_loop rt reify collection s (item # items) removed =
     (case reifyDedup reify item of
        None \<Rightarrow> sweep_loop rt reify collection s items removed
      | Some r \<Rightarrow>
          (let (s1, err) = rt_MapDelete rt s collection (dr_Key r) in
           case err of
             Some e \<Rightarrow> (s1, removed, Some (ErrFmt [e]))
           | None \<Rightarrow> sweep_loop rt reify collection s1 items (removed + 1)))"

definition DedupSweep ::
  "('s, 'v) map_backends \<Rightarrow> ('v \<Rightarrow> mapDedupRecord option) \<Rightarrow>
     's \<Rightarrow> string \<Rightarrow> instant \<Rightarrow> ('s \<times> int \<times> go_error option) outcome" where
  "DedupSweep rt reify s collection now =
     (case rt_MapScan rt s collection (Some (expired_filter reify now)) None NoCursor DefaultClaimLimit of
        Panic \<Rightarrow> Panic
      | Fail e \<Rightarrow> Ok (s, 0, Some (ErrFmt [e]))
      | Ok res \<Rightarrow> Ok (sweep_loop rt reify collection s (sr_Items res) 0))"

section \<open>Effects on the records\<close>

definition dedup_at ::
  "('s \<Rightarrow> string \<Rightarrow> (string, 'v) kv_map) \<Rightarrow> ('v \<Rightarrow> mapDedupRecord option) \<Rightarrow> 's \<Rightarrow> string \<Rightarrow> string \<Rightarrow>
     mapDedupRecord option" where
  "dedup_at contents reify s col key = reifyDedup reify (store_get (contents s col) key)"

definition live_at :: "mapDedupRecord option \<Rightarrow> instant \<Rightarrow> bool" where
  "live_at r t = (case r of None \<Rightarrow> False | Some r \<Rightarrow> t < dr_ExpiresAt r)"

locale dedup_store = map_engine rt contents inv
  for rt :: "('s, 'v) map_backends" and contents inv +
  fixes reify :: "'v \<Rightarrow> mapDedupRecord option" and box :: "mapDedupRecord \<Rightarrow> 'v"
  assumes reify_box: "reify (box r) = Some r"
begin

abbreviation entry :: "'s \<Rightarrow> string \<Rightarrow> string \<Rightarrow> mapDedupRecord option" where
  "entry \<equiv> dedup_at contents reify"

text \<open>The collection \<open>col\<close> holds records under their own keys.\<close>

definition well_keyed :: "'s \<Rightarrow> string \<Rightarrow> bool" where
  "well_keyed s col \<longleftrightarrow> inv s \<and> (\<forall>k r. entry s col k = Some r \<longrightarrow> dr_Key r = k)"

lemma check_effect:
  assumes "well_keyed s col"
  obtains s' where "DedupCheckAndRecord rt reify box s col key ttl now = (s', live_at (entry s col key) now, None)"
    and "well_keyed s' col"
    and "entry s' col = (if live_at (entry s col key) now then entry s col
      else (entry s col)(key \<mapsto> \<lparr> dr_Key = key, dr_ExpiresAt = now + ttl \<rparr>))"
proof -
  let ?prev = "store_get (contents s col) key" and ?f = "record_fn reify box key ttl now"
  have "inv s"
    using assms by (simp add: well_keyed_def)
  then obtain s' where s': "rt_MapUpdate rt s col key ?f = (s', snd (?f ?prev), None)" "inv s'"
      "contents s' = (contents s)(col := map_put key (fst (?f ?prev)) (contents s col))"
    using update_spec by blast
  have fn: "snd (?f ?prev) = live_at (entry s col key) now"
    "reifyDedup reify (fst (?f ?prev)) = (if live_at (entry s col key) now then entry s col key
      else Some \<lparr> dr_Key = key, dr_ExpiresAt = now + ttl \<rparr>)"
    by (auto simp: record_fn_def live_at_def dedup_at_def After_def reify_box Let_def reifyDedup_def
        split: option.split)
  have entry: "entry s' col = (if live_at (entry s col key) now then entry s col
      else (entry s col)(key \<mapsto> \<lparr> dr_Key = key, dr_ExpiresAt = now + ttl \<rparr>))"
    using fn(2) by (auto simp: fun_eq_iff dedup_at_def s'(3) store_get_def split: if_splits)
  moreover have "well_keyed s' col"
    using assms s'(2) unfolding well_keyed_def entry by simp
  moreover have "DedupCheckAndRecord rt reify box s col key ttl now = (s', live_at (entry s col key) now, None)"
    using s'(1) fn(1) by (simp add: DedupCheckAndRecord_def)
  ultimately show ?thesis
    using that by blast
qed

lemma delete_effect:
  assumes "well_keyed s col"
  obtains s' where "rt_MapDelete rt s col key = (s', None)" and "well_keyed s' col"
    and "entry s' col = (entry s col)(key := None)"
proof -
  have "inv s"
    using assms by (simp add: well_keyed_def)
  then obtain s' where s': "rt_MapDelete rt s col key = (s', None)" "inv s'"
      "contents s' = (contents s)(col := map_delete key (contents s col))"
    using delete_spec by blast
  have entry: "entry s' col = (entry s col)(key := None)"
    by (simp add: fun_eq_iff dedup_at_def s'(3) store_get_def reifyDedup_def)
  moreover have "well_keyed s' col"
    using assms s'(2) unfolding well_keyed_def entry by simp
  ultimately show ?thesis
    using that s'(1) by blast
qed

lemma seen_effect:
  assumes "well_keyed s col"
  obtains s' where "DedupSeen rt reify s col key now = Ok (s', live_at (entry s col key) now, None)"
    and "well_keyed s' col" and "entry s' col = (if live_at (entry s col key) now then entry s col
      else (entry s col)(key := None))"
proof -
  have "inv s"
    using assms by (simp add: well_keyed_def)
  note get = get_spec [OF this, of col key]
  show ?thesis
  proof (cases "entry s col key")
    case None
    then have "DedupSeen rt reify s col key now = Ok (s, False, None)"
      by (simp add: DedupSeen_def get dedup_at_def split: option.split)
    moreover have "(entry s col)(key := None) = entry s col"
      using None by (simp add: fun_upd_idem)
    ultimately show ?thesis
      using None that [of s] assms by (simp add: live_at_def)
  next
    case (Some r)
    then have ok: "map_of (contents s col) key \<noteq> None"
      by (auto simp: dedup_at_def store_get_def reifyDedup_def split: option.splits)
    obtain s' where s': "rt_MapDelete rt s col key = (s', None)" "well_keyed s' col"
      "entry s' col = (entry s col)(key := None)"
      using delete_effect [OF assms] by blast
    have "DedupSeen rt reify s col key now =
        (if now < dr_ExpiresAt r then Ok (s, True, None) else Ok (s', False, None))"
      using ok Some s'(1) by (simp add: DedupSeen_def get dedup_at_def After_def)
    with Some that s' assms show ?thesis
      by (cases "now < dr_ExpiresAt r") (simp_all add: live_at_def)
  qed
qed

lemma sweep_loop_effect:
  assumes "well_keyed s col" and "\<forall>item \<in> set items. reifyDedup reify item \<noteq> None"
  shows "\<exists>s'. sweep_loop rt reify col s items n = (s', n + int (length items), None) \<and> well_keyed s' col \<and>
    entry s' col = (\<lambda>k. if \<exists>item \<in> set items. \<exists>r. reifyDedup reify item = Some r \<and> dr_Key r = k
      then None else entry s col k)"
  using assms
proof (induction items arbitrary: s n)
  case (Cons item items)
  obtain r where r: "reifyDedup reify item = Some r"
    using Cons.prems(2) by auto
  obtain s1 where s1: "rt_MapDelete rt s col (dr_Key r) = (s1, None)" "well_keyed s1 col"
      "entry s1 col = (entry s col)(dr_Key r := None)"
    using delete_effect [OF Cons.prems(1)] by blast
  obtain s' where s': "sweep_loop rt reify col s1 items (n + 1) = (s', n + 1 + int (length items), None)"
      "well_keyed s' col" "entry s' col = (\<lambda>k. if \<exists>item \<in> set items. \<exists>r. reifyDedup reify item = Some r \<and> dr_Key r = k
        then None else entry s1 col k)"
    using Cons.IH [OF s1(2)] Cons.prems(2) by auto
  have "entry s' col = (\<lambda>k. if \<exists>item \<in> set (item # items). \<exists>r. reifyDedup reify item = Some r \<and> dr_Key r = k
      then None else entry s col k)"
    by (auto simp: fun_eq_iff s'(3) s1(3) r)
  then show ?case
    using r s1(1) s'(1,2) by simp
qed auto

lemma sweep_effect:
  assumes "well_keyed s col"
  obtains s' n where "DedupSweep rt reify s col now = Ok (s', n, None)" and "well_keyed s' col"
    and "n = int (min 512 (length (filter (matching (Some (expired_filter reify now))) (contents s col))))"
    and "\<And>k. entry s' col k = entry s col k \<or> entry s' col k = None \<and> \<not> live_at (entry s col k) now"
proof -
  let ?m = "filter (matching (Some (expired_filter reify now))) (contents s col)"
  let ?ps = "take 512 (sort_Slice key_order ?m)"
  have inv: "inv s"
    using assms by (simp add: well_keyed_def)
  obtain r where r: "rt_MapScan rt s col (Some (expired_filter reify now)) None NoCursor DefaultClaimLimit = Ok r"
      "sr_Items r = map snd ?ps"
    using scan_keys [OF inv, of DefaultClaimLimit col "Some (expired_filter reify now)"]
    by (auto simp: DefaultClaimLimit_def)
  have item: "\<exists>x. reifyDedup reify (snd p) = Some x \<and> entry s col (dr_Key x) = Some x \<and> \<not> live_at (Some x) now"
    if "p \<in> set ?ps" for p
  proof -
    have p: "p \<in> set (contents s col)" "expired_filter reify now (snd p)"
      using in_set_takeD [OF that] by (auto simp: matching_def)
    then obtain x where x: "reifyDedup reify (snd p) = Some x" "\<not> live_at (Some x) now"
      by (auto simp: expired_filter_def live_at_def After_def split: option.splits)
    have "entry s col (fst p) = Some x"
      using contents_distinct [OF inv, of col] p(1) x(1) by (cases p) (simp add: dedup_at_def store_get_def)
    with x assms show ?thesis
      by (auto simp: well_keyed_def)
  qed
  obtain s' where s': "sweep_loop rt reify col s (map snd ?ps) 0 = (s', 0 + int (length (map snd ?ps)), None)"
      "well_keyed s' col" "entry s' col = (\<lambda>k. if \<exists>item \<in> set (map snd ?ps). \<exists>r. reifyDedup reify item = Some r \<and> dr_Key r = k
        then None else entry s col k)"
    using sweep_loop_effect [OF assms, of "map snd ?ps" 0] item by fastforce
  show ?thesis
  proof (rule that)
    show "DedupSweep rt reify s col now = Ok (s', int (length ?ps), None)"
      using r s'(1) by (simp add: DedupSweep_def)
    show "int (length ?ps) = int (min 512 (length ?m))"
      by (simp add: min.commute)
    show "entry s' col k = entry s col k \<or> entry s' col k = None \<and> \<not> live_at (entry s col k) now" for k
    proof (cases "\<exists>item \<in> set (map snd ?ps). \<exists>r. reifyDedup reify item = Some r \<and> dr_Key r = k")
      case True
      then obtain p x where "p \<in> set ?ps" "reifyDedup reify (snd p) = Some x" "dr_Key x = k"
        by auto
      then show ?thesis
        using item [of p] True by (auto simp: s'(3))
    next
      case False
      then show ?thesis
        unfolding s'(3) by (simp only: if_False) simp
    qed
  qed (rule s'(2))
qed

end

section \<open>The window\<close>

datatype dedup_act = Check string int instant | Seen string instant | Sweep instant

fun act_now :: "dedup_act \<Rightarrow> instant" where
  "act_now (Check key ttl now) = now"
| "act_now (Seen key now) = now"
| "act_now (Sweep now) = now"

text \<open>The answers of a sequence of calls; a sweep answers nothing about keys.\<close>

fun dedup_step ::
  "('s, 'v) map_backends \<Rightarrow> ('v \<Rightarrow> mapDedupRecord option) \<Rightarrow> (mapDedupRecord \<Rightarrow> 'v) \<Rightarrow> string \<Rightarrow>
     's \<Rightarrow> dedup_act \<Rightarrow> 's \<times> bool option" where
  "dedup_step rt reify box col s (Check key ttl now) =
     (let (s', seen, err) = DedupCheckAndRecord rt reify box s col key ttl now in (s', Some seen))"
| "dedup_step rt reify box col s (Seen key now) =
     (case DedupSeen rt reify s col key now of Ok (s', seen, err) \<Rightarrow> (s', Some seen) | _ \<Rightarrow> (s, None))"
| "dedup_step rt reify box col s (Sweep now) =
     (case DedupSweep rt reify s col now of Ok (s', n, err) \<Rightarrow> (s', None) | _ \<Rightarrow> (s, None))"

fun dedup_run ::
  "('s, 'v) map_backends \<Rightarrow> ('v \<Rightarrow> mapDedupRecord option) \<Rightarrow> (mapDedupRecord \<Rightarrow> 'v) \<Rightarrow> string \<Rightarrow>
     's \<Rightarrow> dedup_act list \<Rightarrow> bool option list" where
  "dedup_run rt reify box col s [] = []"
| "dedup_run rt reify box col s (a # as) =
     (let (s', ans) = dedup_step rt reify box col s a in ans # dedup_run rt reify box col s' as)"

text \<open>The specification: expiry times that only a recording check changes.\<close>

definition unexpired :: "(string \<rightharpoonup> instant) \<Rightarrow> string \<Rightarrow> instant \<Rightarrow> bool" where
  "unexpired table key now = (case table key of None \<Rightarrow> False | Some t \<Rightarrow> now < t)"

fun window_spec :: "(string \<rightharpoonup> instant) \<Rightarrow> dedup_act list \<Rightarrow> bool option list" where
  "window_spec table [] = []"
| "window_spec table (Check key ttl now # as) =
     (if unexpired table key now then Some True # window_spec table as
      else Some False # window_spec (table(key \<mapsto> now + ttl)) as)"
| "window_spec table (Seen key now # as) = Some (unexpired table key now) # window_spec table as"
| "window_spec table (Sweep now # as) = None # window_spec table as"

context dedup_store
begin

text \<open>The records and the table agree on every key from an instant on.\<close>

definition agree :: "'s \<Rightarrow> string \<Rightarrow> (string \<rightharpoonup> instant) \<Rightarrow> instant \<Rightarrow> bool" where
  "agree s col table T \<longleftrightarrow> (\<forall>k t. T \<le> t \<longrightarrow> live_at (entry s col k) t = unexpired table k t)"

lemma agree_later: "agree s col table T \<Longrightarrow> T \<le> T' \<Longrightarrow> agree s col table T'"
  by (auto simp: agree_def)

lemma agree_forgets:
  assumes "agree s col table T" and "T \<le> now"
    and "\<And>k. entry s' col k = entry s col k \<or> entry s' col k = None \<and> \<not> live_at (entry s col k) now"
  shows "agree s' col table now"
  unfolding agree_def
proof (intro allI impI)
  fix k t
  assume "now \<le> t"
  have "live_at (entry s' col k) t = live_at (entry s col k) t"
    using assms(3) [of k] \<open>now \<le> t\<close> by (auto simp: live_at_def split: option.splits)
  then show "live_at (entry s' col k) t = unexpired table k t"
    using assms(1,2) \<open>now \<le> t\<close> by (simp add: agree_def)
qed

lemma dedup_run_window:
  assumes "well_keyed s col" and "agree s col table T" and "sorted (T # map act_now as)"
  shows "dedup_run rt reify box col s as = window_spec table as"
  using assms
proof (induction as arbitrary: s table T)
  case (Cons a as)
  have T: "T \<le> act_now a" "sorted (act_now a # map act_now as)"
    using Cons.prems(3) by auto
  show ?case
  proof (cases a)
    case (Check key ttl now)
    obtain s' where s': "DedupCheckAndRecord rt reify box s col key ttl now = (s', live_at (entry s col key) now, None)"
        "well_keyed s' col" "entry s' col = (if live_at (entry s col key) now then entry s col
          else (entry s col)(key \<mapsto> \<lparr> dr_Key = key, dr_ExpiresAt = now + ttl \<rparr>))"
      using check_effect [OF Cons.prems(1)] by blast
    have seen: "live_at (entry s col key) now = unexpired table key now"
      using Cons.prems(2) T(1) Check by (simp add: agree_def)
    have "agree s' col (if unexpired table key now then table else table(key \<mapsto> now + ttl)) now"
      using agree_later [OF Cons.prems(2), of now] T(1) Check
      by (auto simp: agree_def s'(3) seen) (simp_all add: live_at_def unexpired_def)
    from Cons.IH [OF s'(2) this] T(2) show ?thesis
      using Check s'(1) seen by auto
  next
    case (Seen key now)
    obtain s' where s': "DedupSeen rt reify s col key now = Ok (s', live_at (entry s col key) now, None)"
        "well_keyed s' col" "entry s' col = (if live_at (entry s col key) now then entry s col
          else (entry s col)(key := None))"
      using seen_effect [OF Cons.prems(1)] by blast
    have "live_at (entry s col key) now = unexpired table key now"
      using Cons.prems(2) T(1) Seen by (simp add: agree_def)
    moreover have "agree s' col table now"
      by (rule agree_forgets [OF Cons.prems(2)]) (use T(1) Seen in \<open>auto simp: s'(3)\<close>)
    ultimately show ?thesis
      using Cons.IH [OF s'(2)] T(2) Seen s'(1) by simp
  next
    case (Sweep now)
    obtain s' n where s': "DedupSweep rt reify s col now = Ok (s', n, None)" "well_keyed s' col"
        "\<And>k. entry s' col k = entry s col k \<or> entry s' col k = None \<and> \<not> live_at (entry s col k) now"
      using sweep_effect [OF Cons.prems(1)] by blast
    have "agree s' col table now"
      by (rule agree_forgets [OF Cons.prems(2) _ s'(3)]) (use T(1) Sweep in simp)
    then show ?thesis
      using Cons.IH [OF s'(2)] T(2) Sweep s'(1) by simp
  qed
qed simp

end

section \<open>On the in-memory engine\<close>

lemma memory_dedup_store:
  assumes "rearranges order" and "\<And>r. reify (box r) = Some r"
  shows "dedup_store (claimer clock order) getMapLocked maps_inv reify box"
  by (rule dedup_store.intro [OF claimer_engine [OF assms(1)] dedup_store_axioms.intro]) (rule assms(2))

interpretation mem_dedup: dedup_store "claimer clock id" getMapLocked maps_inv Some "\<lambda>r. r" for clock
  by (rule memory_dedup_store) (simp_all add: rearranges_def)

lemma new_entries: "dedup_at getMapLocked reify NewMemoryEngine col key = None"
  by (simp add: dedup_at_def NewMemoryEngine_def newMemData_def getMapLocked_def store_get_def reifyDedup_def)

text \<open>
  C25. The deduplication window on the in-memory engine: under a clock that does not go backwards,
  every sequence of checks, reads and sweeps on a fresh collection answers as a table of expiry
  times from which nothing is removed. A check reports a key as seen exactly while the window of
  the last recording check is open, so among the checks inside one window exactly the first
  reports it unseen, and the lazy deletions of reads and sweeps are never visible.
\<close>

theorem dedup_window:
  assumes "rearranges order" and "\<And>r. reify (box r) = Some r" and "sorted (map act_now acts)"
  shows "dedup_run (claimer clock order) reify box col NewMemoryEngine acts = window_spec Map.empty acts"
proof (cases acts)
  case (Cons a as)
  note loc = memory_dedup_store [of order reify box clock, OF assms(1,2)]
  have "dedup_store.well_keyed getMapLocked maps_inv reify NewMemoryEngine col"
    by (simp add: dedup_store.well_keyed_def [OF loc] new_maps_inv new_entries)
  moreover have "dedup_store.agree getMapLocked reify NewMemoryEngine col Map.empty (act_now a)"
    by (simp add: dedup_store.agree_def [OF loc] new_entries live_at_def unexpired_def)
  moreover have "sorted (act_now a # map act_now acts)"
    using assms(3) Cons by simp
  ultimately show ?thesis
    by (rule dedup_store.dedup_run_window [OF loc])
qed simp

theorem dedup_window_witness:
  "dedup_run (claimer 0 rev) Some (\<lambda>r. r) ''ids'' NewMemoryEngine
     [Check ''a'' 10 1, Check ''a'' 10 5, Sweep 8, Seen ''a'' 10, Sweep 12, Check ''a'' 10 13] =
   [Some False, Some True, None, Some True, None, Some False]"
proof -
  have "dedup_run (claimer 0 rev) Some (\<lambda>r. r) ''ids'' NewMemoryEngine
      [Check ''a'' 10 1, Check ''a'' 10 5, Sweep 8, Seen ''a'' 10, Sweep 12, Check ''a'' 10 13] =
    window_spec Map.empty [Check ''a'' 10 1, Check ''a'' 10 5, Sweep 8, Seen ''a'' 10, Sweep 12, Check ''a'' 10 13]"
    by (rule dedup_window) (simp_all add: rearranges_def)
  then show ?thesis
    by (simp add: unexpired_def)
qed

text \<open>A sweep removes at most 512 records, however many have lapsed.\<close>

lemma sweep_bounded:
  assumes "rearranges order" and "\<And>r. reify (box r) = Some r" and "maps_inv e"
    and "\<And>k r. dedup_at getMapLocked reify e col k = Some r \<Longrightarrow> dr_Key r = k"
  shows "\<exists>e' n. DedupSweep (claimer clock order) reify e col now = Ok (e', n, None) \<and>
    n = int (min 512 (length (filter (matching (Some (expired_filter reify now))) (getMapLocked e col))))"
proof -
  note loc = memory_dedup_store [of order reify box clock, OF assms(1,2)]
  have well_keyed: "dedup_store.well_keyed getMapLocked maps_inv reify e col"
    using assms(3,4) by (simp add: dedup_store.well_keyed_def [OF loc])
  show ?thesis
    by (rule dedup_store.sweep_effect [OF loc well_keyed]) blast
qed

end
