(* ===== verification/EngineGraph.thy ===== *)
theory EngineGraph
  imports MemEngine GraphSearch
begin

text \<open>
  Graphs of the engines (\<open>src/metaengine/graph_walk.go\<close>, \<open>memory_graph.go\<close>): the breadth-first walk
  the engines share, and the adjacency lists of the in-memory engine with neighbours along and
  against the edges. Nodes are stored by their printed form. The range over the adjacency map in
  \<open>undirectedNeighbors\<close> visits it in the order given by the argument \<open>order\<close>.
\<close>

section \<open>The walk\<close>

text \<open>The loop over the neighbours of one node, over a frontier, and over the levels.\<close>

fun bfs_visit :: "('n \<Rightarrow> string) \<Rightarrow> 'n list \<Rightarrow> string set \<Rightarrow> string set \<times> 'n list" where
  "bfs_visit key [] visited = (visited, [])"
| "bfs_visit key (nb # nbs) visited =
     (let k = key nb in
      if k \<in> visited then bfs_visit key nbs visited
      else
        let (visited', found) = bfs_visit key nbs (insert k visited) in (visited', nb # found))"

fun bfs_frontier ::
  "('n \<Rightarrow> string) \<Rightarrow> ('n \<Rightarrow> 'n list outcome) \<Rightarrow> 'n list \<Rightarrow> string set \<Rightarrow> (string set \<times> 'n list) outcome" where
  "bfs_frontier key expand [] visited = Ok (visited, [])"
| "bfs_frontier key expand (n # frontier) visited =
     (case expand n of
        Panic \<Rightarrow> Panic
      | Fail err \<Rightarrow> Fail (ErrFmt [err])
      | Ok neighbors \<Rightarrow>
          (let (visited1, found1) = bfs_visit key neighbors visited in
           obind (bfs_frontier key expand frontier visited1) (\<lambda>(visited2, found2).
             Ok (visited2, found1 @ found2))))"

fun bfs_levels ::
  "('n \<Rightarrow> string) \<Rightarrow> ('n \<Rightarrow> 'n list outcome) \<Rightarrow> nat \<Rightarrow> 'n list \<Rightarrow> string set \<Rightarrow> 'n list outcome" where
  "bfs_levels key expand 0 frontier visited = Ok []"
| "bfs_levels key expand (Suc d) frontier visited =
     (if frontier = [] then Ok []
      else obind (bfs_frontier key expand frontier visited) (\<lambda>(visited', found).
        obind (bfs_levels key expand d found visited') (\<lambda>rest. Ok (found @ rest))))"

definition GraphBFSNodes ::
  "'n \<Rightarrow> int \<Rightarrow> ('n \<Rightarrow> string) \<Rightarrow> ('n \<Rightarrow> 'n list outcome) \<Rightarrow> 'n list outcome" where
  "GraphBFSNodes node depth key expand = bfs_levels key expand (nat depth) [node] {key node}"

definition GraphBFS ::
  "'a \<Rightarrow> int \<Rightarrow> ('a \<Rightarrow> string) \<Rightarrow> (string \<Rightarrow> string list outcome) \<Rightarrow> string list outcome" where
  "GraphBFS node depth encode expand = GraphBFSNodes (encode node) depth (\<lambda>s. s) expand"

section \<open>Adjacency lists\<close>

type_synonym adjacency = "(string \<times> string list) list"

definition adj_get :: "adjacency \<Rightarrow> string \<Rightarrow> string list" where
  "adj_get adj n = (case map_of adj n of None \<Rightarrow> [] | Some ts \<Rightarrow> ts)"

fun adj_put :: "string \<Rightarrow> string list \<Rightarrow> adjacency \<Rightarrow> adjacency" where
  "adj_put n ts [] = [(n, ts)]"
| "adj_put n ts ((m, us) # adj) = (if n = m then (n, ts) # adj else (m, us) # adj_put n ts adj)"

definition put_graph :: "string \<Rightarrow> adjacency \<Rightarrow> ('k, 'v) memoryEngine \<Rightarrow> ('k, 'v) memoryEngine" where
  "put_graph col adj e =
     e \<lparr> me_data := (me_data e) \<lparr> md_graphs := (md_graphs (me_data e))(col \<mapsto> adj) \<rparr> \<rparr>"

definition GraphAddEdge ::
  "('k \<Rightarrow> string) \<Rightarrow> ('k, 'v) memoryEngine \<Rightarrow> string \<Rightarrow> 'k \<times> 'k \<Rightarrow> ('k, 'v) memoryEngine" where
  "GraphAddEdge sprint e collection edge =
     (let adj = (case md_graphs (me_data e) collection of None \<Rightarrow> [] | Some adj \<Rightarrow> adj);
          fromKey = sprint (fst edge); toKey = sprint (snd edge) in
      if list_ex (\<lambda>existing. existing = toKey) (adj_get adj fromKey) then put_graph collection adj e
      else put_graph collection (adj_put fromKey (adj_get adj fromKey @ [toKey]) adj) e)"

definition GraphRemoveEdge ::
  "('k \<Rightarrow> string) \<Rightarrow> ('k, 'v) memoryEngine \<Rightarrow> string \<Rightarrow> 'k \<times> 'k \<Rightarrow> ('k, 'v) memoryEngine" where
  "GraphRemoveEdge sprint e collection edge =
     (case md_graphs (me_data e) collection of
        None \<Rightarrow> e
      | Some adj \<Rightarrow>
          let fromKey = sprint (fst edge); toKey = sprint (snd edge) in
          put_graph collection
            (adj_put fromKey (filter (\<lambda>existing. existing \<noteq> toKey) (adj_get adj fromKey)) adj) e)"

definition GraphNeighbors ::
  "('k \<Rightarrow> string) \<Rightarrow> ('k, 'v) memoryEngine \<Rightarrow> string \<Rightarrow> 'k \<Rightarrow> int \<Rightarrow> string list outcome" where
  "GraphNeighbors sprint e collection node depth =
     (case md_graphs (me_data e) collection of
        None \<Rightarrow> Ok []
      | Some adj \<Rightarrow>
          let start = sprint node in
          bfs_levels (\<lambda>s. s) (\<lambda>n. Ok (adj_get adj n)) (nat depth) [start] {start})"

text \<open>The closure \<open>appendNeighbor\<close>, and the scan for nodes with an edge into \<open>n\<close>.\<close>

definition appendNeighbor :: "string set \<times> string list \<Rightarrow> string \<Rightarrow> string set \<times> string list" where
  "appendNeighbor acc key =
     (if key \<in> fst acc then acc else (insert key (fst acc), snd acc @ [key]))"

fun reverse_scan :: "string \<Rightarrow> adjacency \<Rightarrow> string set \<times> string list \<Rightarrow> string set \<times> string list" where
  "reverse_scan n [] acc = acc"
| "reverse_scan n ((frm, targets) # adj) acc =
     (if frm = n then reverse_scan n adj acc
      else if n \<in> set targets then reverse_scan n adj (appendNeighbor acc frm)
      else reverse_scan n adj acc)"

definition undirectedNeighbors :: "(adjacency \<Rightarrow> adjacency) \<Rightarrow> adjacency \<Rightarrow> string \<Rightarrow> string list" where
  "undirectedNeighbors order adj n =
     snd (reverse_scan n (order adj) (foldl appendNeighbor ({}, []) (adj_get adj n)))"

definition GraphNeighborsUndirected ::
  "('k \<Rightarrow> string) \<Rightarrow> (adjacency \<Rightarrow> adjacency) \<Rightarrow> ('k, 'v) memoryEngine \<Rightarrow> string \<Rightarrow> 'k \<Rightarrow> int \<Rightarrow>
     string list outcome" where
  "GraphNeighborsUndirected sprint order e collection node depth =
     (case md_graphs (me_data e) collection of
        None \<Rightarrow> Ok []
      | Some adj \<Rightarrow>
          if depth \<le> 0 then Ok []
          else
            let start = sprint node in
            bfs_levels (\<lambda>s. s) (\<lambda>n. Ok (undirectedNeighbors order adj n)) (nat depth) [start] {start})"

section \<open>The walk is breadth first\<close>

text \<open>The graph an expansion without errors spans.\<close>

definition span_of :: "('n \<Rightarrow> 'n list) \<Rightarrow> ('n \<times> 'n) set" where
  "span_of nbr = {(n, m). m \<in> set (nbr n)}"

lemma bfs_visit_found:
  assumes "inj key" and "bfs_visit key nbs (key ` V) = (visited', found)"
  shows "visited' = key ` (V \<union> set found) \<and> distinct found \<and> set found = set nbs - V"
  using assms(2)
proof (induction nbs arbitrary: V visited' found)
  case (Cons nb nbs)
  show ?case
  proof (cases "nb \<in> V")
    case True
    then have "bfs_visit key nbs (key ` V) = (visited', found)"
      using Cons.prems by simp
    from Cons.IH [OF this] True show ?thesis
      by auto
  next
    case False
    then have "key nb \<notin> key ` V"
      using assms(1) by (auto simp: inj_def)
    then obtain found' where rec: "bfs_visit key nbs (key ` insert nb V) = (visited', found')"
        and found: "found = nb # found'"
      using Cons.prems by (auto split: prod.splits)
    from Cons.IH [OF rec] False found show ?thesis
      by auto
  qed
qed simp

lemma bfs_frontier_found:
  assumes "inj key"
  shows "\<exists>found. bfs_frontier key (\<lambda>n. Ok (nbr n)) frontier (key ` V) = Ok (key ` (V \<union> set found), found) \<and>
    distinct found \<and> set found = span_of nbr `` set frontier - V"
proof (induction frontier arbitrary: V)
  case (Cons n frontier)
  obtain v1 f1 where v: "bfs_visit key (nbr n) (key ` V) = (v1, f1)"
    by fastforce
  note f1 = bfs_visit_found [OF assms v]
  obtain f2 where f2: "bfs_frontier key (\<lambda>n. Ok (nbr n)) frontier (key ` (V \<union> set f1)) =
      Ok (key ` (V \<union> set f1 \<union> set f2), f2)" "distinct f2" "set f2 = span_of nbr `` set frontier - (V \<union> set f1)"
    using Cons.IH [of "V \<union> set f1"] by auto
  have "bfs_frontier key (\<lambda>n. Ok (nbr n)) (n # frontier) (key ` V) =
      Ok (key ` (V \<union> set (f1 @ f2)), f1 @ f2)"
    using v conjunct1 [OF f1] f2(1) by (simp add: Un_assoc)
  moreover have "distinct (f1 @ f2)" "set (f1 @ f2) = span_of nbr `` set (n # frontier) - V"
    using f1 f2(2,3) by (auto simp: span_of_def)
  ultimately show ?case
    by blast
qed auto

lemma bfs_levels_within:
  assumes "inj key" and "set frontier = ring_at (span_of nbr) x n"
  shows "\<exists>ks. bfs_levels key (\<lambda>n. Ok (nbr n)) d frontier (key ` within (span_of nbr) x n) = Ok ks \<and>
    set ks = within (span_of nbr) x (n + d) - within (span_of nbr) x n \<and> distinct ks \<and>
    closer_first (span_of nbr) x ks"
  using assms(2)
proof (induction d arbitrary: frontier n)
  case 0
  then show ?case
    by (simp add: closer_first_def)
next
  case (Suc d)
  let ?E = "span_of nbr"
  show ?case
  proof (cases "frontier = []")
    case True
    then have "?E `` within ?E x n \<subseteq> within ?E x n"
      using Suc.prems within_Suc_ring [of ?E x n] by auto
    then have "within ?E x (n + Suc d) \<subseteq> within ?E x n"
      using within_closed [of ?E x n] within_rtrancl [of ?E x "n + Suc d"] by (simp only:)
    with True show ?thesis
      by (auto simp: closer_first_def)
  next
    case False
    obtain found where f: "bfs_frontier key (\<lambda>n. Ok (nbr n)) frontier (key ` within ?E x n) =
        Ok (key ` (within ?E x n \<union> set found), found)" "distinct found"
        "set found = ?E `` set frontier - within ?E x n"
      using bfs_frontier_found [OF assms(1)] by blast
    have W: "within ?E x n \<union> set found = within ?E x (Suc n)"
      using f(3) Suc.prems within_Suc_ring [of ?E x n] by auto
    have ring: "set found = ring_at ?E x (Suc n)"
      using f(3) Suc.prems within_Suc_ring [of ?E x n] by auto
    obtain ks where ks: "bfs_levels key (\<lambda>n. Ok (nbr n)) d found (key ` within ?E x (Suc n)) = Ok ks"
        "set ks = within ?E x (Suc n + d) - within ?E x (Suc n)" "distinct ks" "closer_first ?E x ks"
      using Suc.IH [OF ring] by blast
    have "bfs_levels key (\<lambda>n. Ok (nbr n)) (Suc d) frontier (key ` within ?E x n) = Ok (found @ ks)"
      using False f(1) ks(1) unfolding W by simp
    moreover have "set (found @ ks) = within ?E x (n + Suc d) - within ?E x n"
      using ks(2) ring within_mono [of n "Suc n" ?E x] within_mono [of "Suc n" "Suc n + d" ?E x] by auto
    moreover have "distinct (found @ ks)"
      using f(2) ks(2,3) ring by auto
    moreover have "closer_first ?E x (found @ ks)"
      by (rule closer_first_ring [OF ring _ ks(4)]) (use ks(2) in auto)
    ultimately show ?thesis
      by blast
  qed
qed

lemma bfs_correct:
  assumes "inj key"
  shows "\<exists>ks. bfs_levels key (\<lambda>n. Ok (nbr n)) d [x] {key x} = Ok ks \<and>
    set ks = within (span_of nbr) x d - {x} \<and> distinct ks \<and> closer_first (span_of nbr) x ks"
  using bfs_levels_within [OF assms, of "[x]" nbr x 0 d] by simp

section \<open>Neighbours in the in-memory engine\<close>

text \<open>The edges of a collection, as pairs of printed nodes.\<close>

definition adj_edges :: "adjacency \<Rightarrow> (string \<times> string) set" where
  "adj_edges adj = {(n, m). m \<in> set (adj_get adj n)}"

definition engine_edges :: "('k, 'v) memoryEngine \<Rightarrow> string \<Rightarrow> (string \<times> string) set" where
  "engine_edges e col = (case md_graphs (me_data e) col of None \<Rightarrow> {} | Some adj \<Rightarrow> adj_edges adj)"

definition graphs_inv :: "('k, 'v) memoryEngine \<Rightarrow> bool" where
  "graphs_inv e \<longleftrightarrow> (\<forall>col adj. md_graphs (me_data e) col = Some adj \<longrightarrow> distinct (map fst adj))"

lemma adj_get_put [simp]: "adj_get (adj_put n ts adj) m = (if m = n then ts else adj_get adj m)"
proof -
  have "map_of (adj_put n ts adj) = (map_of adj)(n \<mapsto> ts)"
    by (induction adj) auto
  then show ?thesis
    by (simp add: adj_get_def)
qed

lemma adj_get_Nil [simp]: "adj_get [] n = []"
  by (simp add: adj_get_def)

lemma adj_put_keys:
  "distinct (map fst adj) \<Longrightarrow>
     distinct (map fst (adj_put n ts adj)) \<and> set (map fst (adj_put n ts adj)) = insert n (set (map fst adj))"
  by (induction n ts adj rule: adj_put.induct) (simp_all add: insert_commute)

lemma put_graph_edges [simp]:
  "engine_edges (put_graph col adj e) c = (if c = col then adj_edges adj else engine_edges e c)"
  by (simp add: engine_edges_def put_graph_def)

lemma GraphAddEdge_edges:
  assumes "graphs_inv e"
  shows "engine_edges (GraphAddEdge sprint e col edge) c =
      (if c = col then insert (sprint (fst edge), sprint (snd edge)) (engine_edges e c) else engine_edges e c)"
    and "graphs_inv (GraphAddEdge sprint e col edge)"
proof -
  show "engine_edges (GraphAddEdge sprint e col edge) c =
      (if c = col then insert (sprint (fst edge), sprint (snd edge)) (engine_edges e c) else engine_edges e c)"
    by (auto simp: GraphAddEdge_def Let_def list_ex_iff engine_edges_def adj_edges_def put_graph_def
        split: option.split if_splits)
  show "graphs_inv (GraphAddEdge sprint e col edge)"
    using assms adj_put_keys [of "[]"] adj_put_keys
    by (auto simp: GraphAddEdge_def Let_def graphs_inv_def put_graph_def split: option.splits)
qed

lemma GraphRemoveEdge_edges:
  assumes "graphs_inv e"
  shows "engine_edges (GraphRemoveEdge sprint e col edge) c =
      (if c = col then engine_edges e c - {(sprint (fst edge), sprint (snd edge))} else engine_edges e c)"
    and "graphs_inv (GraphRemoveEdge sprint e col edge)"
proof -
  show "engine_edges (GraphRemoveEdge sprint e col edge) c =
      (if c = col then engine_edges e c - {(sprint (fst edge), sprint (snd edge))} else engine_edges e c)"
    by (auto simp: GraphRemoveEdge_def Let_def engine_edges_def adj_edges_def put_graph_def
        split: option.split if_splits)
  show "graphs_inv (GraphRemoveEdge sprint e col edge)"
    using assms adj_put_keys
    by (auto simp: GraphRemoveEdge_def Let_def graphs_inv_def put_graph_def split: option.splits)
qed

lemma appendNeighbor_set: "fst acc = set (snd acc) \<Longrightarrow>
    fst (appendNeighbor acc k) = set (snd (appendNeighbor acc k)) \<and>
    set (snd (appendNeighbor acc k)) = insert k (set (snd acc))"
  by (auto simp: appendNeighbor_def)

lemma foldl_appendNeighbor: "fst acc = set (snd acc) \<Longrightarrow>
    fst (foldl appendNeighbor acc ks) = set (snd (foldl appendNeighbor acc ks)) \<and>
    set (snd (foldl appendNeighbor acc ks)) = set (snd acc) \<union> set ks"
proof (induction ks arbitrary: acc)
  case (Cons k ks)
  from Cons.IH appendNeighbor_set [OF Cons.prems, of k] show ?case
    by simp
qed simp

lemma reverse_scan_set: "fst acc = set (snd acc) \<Longrightarrow>
    set (snd (reverse_scan n adj acc)) = set (snd acc) \<union> {m. \<exists>ts. (m, ts) \<in> set adj \<and> m \<noteq> n \<and> n \<in> set ts}"
proof (induction n adj acc rule: reverse_scan.induct)
  case (2 n frm targets adj acc)
  show ?case
  proof (cases "frm \<noteq> n \<and> n \<in> set targets")
    case True
    with 2 appendNeighbor_set [OF "2.prems", of frm] show ?thesis
      by auto
  next
    case False
    with 2 show ?thesis
      by auto
  qed
qed simp

lemma undirectedNeighbors_set:
  assumes "distinct (map fst adj)" and "mset (order adj) = mset adj"
  shows "set (undirectedNeighbors order adj n) - {n} = (adj_edges adj \<union> (adj_edges adj)\<inverse>) `` {n} - {n}"
proof -
  have set: "set (order adj) = set adj"
    using assms(2) by (metis set_mset_mset)
  have "(m, ts) \<in> set adj \<longleftrightarrow> map_of adj m = Some ts" for m ts
    using assms(1) by (simp add: map_of_eq_Some_iff)
  then have "{m. \<exists>ts. (m, ts) \<in> set (order adj) \<and> m \<noteq> n \<and> n \<in> set ts} = {m. m \<noteq> n \<and> n \<in> set (adj_get adj m)}"
    by (force simp: set adj_get_def split: option.splits)
  moreover have "fst (foldl appendNeighbor ({}, []) (adj_get adj n)) =
      set (snd (foldl appendNeighbor ({}, []) (adj_get adj n)))"
    "set (snd (foldl appendNeighbor ({}, []) (adj_get adj n))) = set (adj_get adj n)"
    using foldl_appendNeighbor [of "({}, [])" "adj_get adj n"] by simp_all
  ultimately show ?thesis
    using reverse_scan_set [of "foldl appendNeighbor ({}, []) (adj_get adj n)" n "order adj"]
    by (auto simp: undirectedNeighbors_def adj_edges_def)
qed

text \<open>Edges from a node to itself do not matter for what is near.\<close>

lemma within_irrefl:
  assumes "\<And>n. E `` {n} - {n} = F `` {n} - {n}"
  shows "within E x d = within F x d"
proof (induction d)
  case (Suc d)
  have "V \<union> E `` V = V \<union> F `` V" for V
    using assms by blast
  with Suc show ?case
    by simp
qed simp

lemma span_adj: "span_of (adj_get adj) = adj_edges adj"
  by (simp add: span_of_def adj_edges_def)

lemma within_empty [simp]: "within {} x d = {x}"
  by (induction d) auto

text \<open>
  Neighbours of a node in the in-memory engine: along the edges, and along edges in both
  directions, the walk to a given depth returns exactly the nodes within that many steps other
  than the start, each once and the closer ones first, whatever order the adjacency map is
  visited in.
\<close>

theorem GraphNeighbors_correct:
  assumes "graphs_inv e" and "\<And>adj. mset (order adj) = mset adj"
  shows "\<exists>ks us. GraphNeighbors sprint e col node depth = Ok ks \<and>
    set ks = within (engine_edges e col) (sprint node) (nat depth) - {sprint node} \<and> distinct ks \<and>
    closer_first (engine_edges e col) (sprint node) ks \<and>
    GraphNeighborsUndirected sprint order e col node depth = Ok us \<and>
    set us = within (engine_edges e col \<union> (engine_edges e col)\<inverse>) (sprint node) (nat depth) - {sprint node} \<and>
    distinct us \<and> closer_first (engine_edges e col \<union> (engine_edges e col)\<inverse>) (sprint node) us"
proof (cases "md_graphs (me_data e) col")
  case None
  then show ?thesis
    by (simp add: GraphNeighbors_def GraphNeighborsUndirected_def engine_edges_def closer_first_def)
next
  case (Some adj)
  let ?x = "sprint node" and ?E = "adj_edges adj"
  let ?F = "span_of (undirectedNeighbors order adj)"
  have inj: "inj (\<lambda>s :: string. s)"
    by simp
  have "distinct (map fst adj)"
    using assms(1) Some by (simp add: graphs_inv_def)
  then have und: "?F `` {n} - {n} = (?E \<union> ?E\<inverse>) `` {n} - {n}" for n
    using undirectedNeighbors_set [of adj order n] assms(2) by (auto simp: span_of_def)
  have W: "within ?F ?x = within (?E \<union> ?E\<inverse>) ?x"
    using within_irrefl [of ?F "?E \<union> ?E\<inverse>" ?x] und by (simp add: fun_eq_iff)
  then have closer: "closer_first ?F ?x us = closer_first (?E \<union> ?E\<inverse>) ?x us" for us
    by (simp add: closer_first_def)
  obtain ks where ks: "GraphNeighbors sprint e col node depth = Ok ks" "distinct ks" "closer_first ?E ?x ks"
      "set ks = within ?E ?x (nat depth) - {?x}"
    using bfs_correct [OF inj, of "adj_get adj" "nat depth" ?x]
    by (auto simp: GraphNeighbors_def Some Let_def span_adj)
  obtain us where us: "bfs_levels (\<lambda>s. s) (\<lambda>n. Ok (undirectedNeighbors order adj n)) (nat depth) [?x] {?x} = Ok us"
      "distinct us" "closer_first (?E \<union> ?E\<inverse>) ?x us" "set us = within (?E \<union> ?E\<inverse>) ?x (nat depth) - {?x}"
    using bfs_correct [OF inj, of "undirectedNeighbors order adj" "nat depth" ?x] by (auto simp: W closer)
  have "GraphNeighborsUndirected sprint order e col node depth = Ok us"
    using us(1) by (cases "depth \<le> 0") (simp_all add: GraphNeighborsUndirected_def Some Let_def)
  moreover have "engine_edges e col = ?E"
    by (simp add: engine_edges_def Some)
  ultimately show ?thesis
    using ks us(2-4) by (intro exI [of _ ks] exI [of _ us]) simp
qed

theorem GraphNeighbors_correct_witness:
  "\<exists>ks us. GraphNeighbors id (GraphAddEdge id (NewMemoryEngine :: (string, bool) memoryEngine) ''g'' (''a'', ''b'')) ''g'' ''b'' 3 = Ok ks \<and> ks = [] \<and>
    GraphNeighborsUndirected id rev (GraphAddEdge id (NewMemoryEngine :: (string, bool) memoryEngine) ''g'' (''a'', ''b'')) ''g'' ''b'' 3 = Ok us \<and>
    set us = {''a''}"
proof -
  let ?e = "GraphAddEdge id (NewMemoryEngine :: (string, bool) memoryEngine) ''g'' (''a'', ''b'')"
  have new: "graphs_inv (NewMemoryEngine :: (string, bool) memoryEngine)"
    "engine_edges (NewMemoryEngine :: (string, bool) memoryEngine) ''g'' = {}"
    by (simp_all add: graphs_inv_def engine_edges_def NewMemoryEngine_def newMemData_def)
  have edges: "engine_edges ?e ''g'' = {(''a'', ''b'')}"
    by (simp add: GraphAddEdge_edges(1) [OF new(1)] new(2))
  have W: "within {(''a'', ''b'')} ''b'' (nat 3) = {''b''}"
    "within ({(''a'', ''b'')} \<union> {(''a'', ''b'')}\<inverse>) ''b'' (nat 3) = {''a'', ''b''}"
    by (auto simp: numeral_3_eq_3)
  from GraphNeighbors_correct [where e = ?e and order = rev and sprint = id and col = "''g''" and node = "''b''"
      and depth = 3, OF GraphAddEdge_edges(2) [OF new(1)]]
  show ?thesis
    unfolding edges id_apply W by (auto simp: insert_Diff_if)
qed

end
