(* ===== verification/Timers.thy ===== *)
theory Timers
  imports DueClaims Ids "HOL-Library.Signed_Division"
begin

text \<open>
  Scheduled timers (\<open>src/scheduling/store.go\<close>, \<open>scheduler.go\<close>): the in-memory timer store, the
  scheduler's options, its retry loop with equal-jitter back-off, one poll (\<open>tick\<close>) and the polling
  loop. The world of a scheduler is the state of its timer store together with an environment \<open>'e\<close>
  that the dispatch callback acts on. What the loop asks of its surroundings is the record
  \<open>sched_env\<close>: whether the context is done, the wait for a delay, the random numbers, and the error
  classification of the error library. The locale \<open>timer_store\<close> is the contract of
  \<open>TimerStore\<close> that a scheduler relies on; it is interpreted on the in-memory store here and on the
  engine-backed store in \<open>EngineTimers\<close>.
\<close>

section \<open>Timers and their stores: store.go\<close>

type_synonym TimerID = string

record 'p Timer =
  tm_ID :: TimerID
  tm_FireAt :: instant
  tm_Payload :: 'p
  tm_Actor :: ActorID

definition ErrEmptyTimerID :: go_error where
  "ErrEmptyTimerID = ErrExt ''scheduling: timer ID must be non-empty''"

definition ParseTimerID :: "string \<Rightarrow> TimerID outcome" where
  "ParseTimerID s = (if s = [] then Fail ErrEmptyTimerID else Ok s)"

definition MustParseTimerID :: "string \<Rightarrow> TimerID outcome" where
  "MustParseTimerID s = (case ParseTimerID s of Ok timerID \<Rightarrow> Ok timerID | _ \<Rightarrow> Panic)"

text \<open>
  The interface \<open>TimerStore\<close> over a state. \<open>Due\<close> may change the state, may return timers together
  with an error, and \<open>None\<close> says that it does not return.
\<close>

record ('s, 'p) TimerStore =
  ts_Schedule :: "'s \<Rightarrow> 'p Timer \<Rightarrow> 's \<times> go_error option"
  ts_Due :: "'s \<Rightarrow> instant \<Rightarrow> ('s \<times> 'p Timer list \<times> go_error option) outcome option"
  ts_MarkFired :: "'s \<Rightarrow> TimerID \<Rightarrow> 's \<times> go_error option"
  ts_Cancel :: "'s \<Rightarrow> TimerID \<Rightarrow> 's \<times> go_error option"

type_synonym 'p MemoryTimerStore = "(TimerID \<times> 'p Timer) list"

definition NewMemoryTimerStore :: "'p MemoryTimerStore" where
  "NewMemoryTimerStore = []"

definition memory_Schedule :: "'p MemoryTimerStore \<Rightarrow> 'p Timer \<Rightarrow> 'p MemoryTimerStore \<times> go_error option" where
  "memory_Schedule s t =
     (if map_of s (tm_ID t) \<noteq> None then (s, None) else ((tm_ID t, t) # s, None))"

definition compareTimers :: "'p Timer \<Rightarrow> 'p Timer \<Rightarrow> int" where
  "compareTimers a b =
     (let c = time_Compare (tm_FireAt a) (tm_FireAt b) in
      if c \<noteq> 0 then c else bytes_Compare (tm_ID a) (tm_ID b))"

definition memory_Due ::
  "((TimerID \<times> 'p Timer) list \<Rightarrow> (TimerID \<times> 'p Timer) list) \<Rightarrow> 'p MemoryTimerStore \<Rightarrow> instant \<Rightarrow>
     'p Timer list \<times> go_error option" where
  "memory_Due order s now =
     (let due = filter (\<lambda>t. \<not> After (tm_FireAt t) now) (map snd (order s)) in
      (sort_Slice (\<lambda>a b. compareTimers a b < 0) due, None))"

definition deleteTimer :: "'p MemoryTimerStore \<Rightarrow> TimerID \<Rightarrow> 'p MemoryTimerStore \<times> go_error option" where
  "deleteTimer s k = (filter (\<lambda>p. fst p \<noteq> k) s, None)"

definition memory_MarkFired :: "'p MemoryTimerStore \<Rightarrow> TimerID \<Rightarrow> 'p MemoryTimerStore \<times> go_error option" where
  "memory_MarkFired s k = deleteTimer s k"

definition memory_Cancel :: "'p MemoryTimerStore \<Rightarrow> TimerID \<Rightarrow> 'p MemoryTimerStore \<times> go_error option" where
  "memory_Cancel s k = deleteTimer s k"

definition memory_timers ::
  "((TimerID \<times> 'p Timer) list \<Rightarrow> (TimerID \<times> 'p Timer) list) \<Rightarrow> ('p MemoryTimerStore, 'p) TimerStore" where
  "memory_timers order = \<lparr>
     ts_Schedule = memory_Schedule,
     ts_Due = (\<lambda>s now. let (due, err) = memory_Due order s now in Some (Ok (s, due, err))),
     ts_MarkFired = memory_MarkFired,
     ts_Cancel = memory_Cancel \<rparr>"

section \<open>The scheduler: scheduler.go\<close>

definition defaultPollInterval :: int where
  "defaultPollInterval = 10 ^ 9"

definition defaultMaxRetries :: int where
  "defaultMaxRetries = 3"

definition defaultRetryDelay :: int where
  "defaultRetryDelay = 100 * 10 ^ 6"

definition jitterHalfDivisor :: int where
  "jitterHalfDivisor = 2"

record 'e schedulerOptions =
  so_pollInterval :: int
  so_maxRetries :: int
  so_retryDelay :: int
  so_now :: "'e \<Rightarrow> instant"

definition sched_defaultOptions :: "('e \<Rightarrow> instant) \<Rightarrow> 'e schedulerOptions" where
  "sched_defaultOptions time_Now = \<lparr> so_pollInterval = defaultPollInterval, so_maxRetries = defaultMaxRetries,
     so_retryDelay = defaultRetryDelay, so_now = time_Now \<rparr>"

definition WithPollInterval :: "int \<Rightarrow> 'e schedulerOptions \<Rightarrow> 'e schedulerOptions" where
  "WithPollInterval d opts = opts \<lparr> so_pollInterval := d \<rparr>"

definition WithMaxRetries :: "int \<Rightarrow> 'e schedulerOptions \<Rightarrow> 'e schedulerOptions" where
  "WithMaxRetries n opts = (let n' = (if n < 1 then 1 else n) in opts \<lparr> so_maxRetries := n' \<rparr>)"

definition WithRetryDelay :: "int \<Rightarrow> 'e schedulerOptions \<Rightarrow> 'e schedulerOptions" where
  "WithRetryDelay d opts = opts \<lparr> so_retryDelay := d \<rparr>"

definition sched_WithClock :: "('e \<Rightarrow> instant) option \<Rightarrow> 'e schedulerOptions \<Rightarrow> 'e schedulerOptions" where
  "sched_WithClock now opts = (case now of Some f \<Rightarrow> opts \<lparr> so_now := f \<rparr> | None \<Rightarrow> opts)"

type_synonym ('s, 'e, 'p) DispatchFunc = "'p Timer \<Rightarrow> 's \<times> 'e \<Rightarrow> ('s \<times> 'e) \<times> unit outcome"

record ('s, 'e, 'p) Scheduler =
  sch_store :: "('s, 'p) TimerStore"
  sch_dispatch :: "('s, 'e, 'p) DispatchFunc"
  sch_opts :: "'e schedulerOptions"

definition New_Scheduler ::
  "('e \<Rightarrow> instant) \<Rightarrow> ('s, 'p) TimerStore \<Rightarrow> ('s, 'e, 'p) DispatchFunc \<Rightarrow>
     ('e schedulerOptions \<Rightarrow> 'e schedulerOptions) list \<Rightarrow> ('s, 'e, 'p) Scheduler" where
  "New_Scheduler time_Now store dispatch opts =
     \<lparr> sch_store = store, sch_dispatch = dispatch,
       sch_opts = foldl (\<lambda>o' opt. opt o') (sched_defaultOptions time_Now) opts \<rparr>"

record 'e sched_env =
  se_Done :: "'e \<Rightarrow> go_error option"
  se_Wait :: "int \<Rightarrow> 'e \<Rightarrow> 'e \<times> go_error option"
  se_Int64N :: "int \<Rightarrow> 'e \<Rightarrow> 'e \<times> int"
  se_Classify :: "go_error \<Rightarrow> family"

text \<open>
  The delay of an attempt, in the arithmetic of \<open>int64\<close>: the product of the base delay and
  \<open>1 << attempt\<close> wraps around, and \<open>rand.Int64N\<close> panics unless its bound is positive.
\<close>

definition wrap64 :: "int \<Rightarrow> int" where
  "wrap64 n = signed_take_bit 63 n"

definition backoff_exp :: "int \<Rightarrow> nat \<Rightarrow> int" where
  "backoff_exp retryDelay attempt = wrap64 (retryDelay * wrap64 (2 ^ attempt))"

definition backoff_delay :: "'e sched_env \<Rightarrow> int \<Rightarrow> nat \<Rightarrow> 'e \<Rightarrow> 'e \<times> int outcome" where
  "backoff_delay env retryDelay attempt e =
     (let half = backoff_exp retryDelay attempt sdiv jitterHalfDivisor in
      if half + 1 \<le> 0 then (e, Panic)
      else let (e', r) = se_Int64N env (half + 1) e in (e', Ok (wrap64 (half + r))))"

fun dispatch_loop ::
  "'e sched_env \<Rightarrow> 'e schedulerOptions \<Rightarrow> ('s, 'e, 'p) DispatchFunc \<Rightarrow> 'p Timer \<Rightarrow> nat \<Rightarrow> nat \<Rightarrow>
     go_error option \<Rightarrow> 's \<times> 'e \<Rightarrow> ('s \<times> 'e) \<times> unit outcome" where
  "dispatch_loop env opts dispatch timer attempt 0 lastErr w =
     (w, case lastErr of None \<Rightarrow> Ok () | Some err \<Rightarrow> Fail (ErrJoin [err]))"
| "dispatch_loop env opts dispatch timer attempt (Suc left) lastErr w =
     (case se_Done env (snd w) of
        Some err \<Rightarrow> (w, Fail (ErrFmt [err]))
      | None \<Rightarrow>
          (case dispatch timer w of
             (w1, Panic) \<Rightarrow> (w1, Panic)
           | (w1, Ok _) \<Rightarrow> (w1, Ok ())
           | (w1, Fail err) \<Rightarrow>
               if se_Classify env err = Rejection \<or> se_Classify env err = Conflict then (w1, Fail err)
               else if int attempt < so_maxRetries opts - 1 then
                 (case backoff_delay env (so_retryDelay opts) attempt (snd w1) of
                    (e, Ok delay) \<Rightarrow>
                      (case se_Wait env delay e of
                         (e', Some cancelled) \<Rightarrow> ((fst w1, e'), Fail (ErrFmt [cancelled]))
                       | (e', None) \<Rightarrow>
                           dispatch_loop env opts dispatch timer (Suc attempt) left (Some err) (fst w1, e'))
                  | (e, _) \<Rightarrow> ((fst w1, e), Panic))
               else dispatch_loop env opts dispatch timer (Suc attempt) left (Some err) w1))"

definition dispatchWithRetry ::
  "'e sched_env \<Rightarrow> 'e schedulerOptions \<Rightarrow> ('s, 'e, 'p) DispatchFunc \<Rightarrow> 'p Timer \<Rightarrow> 's \<times> 'e \<Rightarrow>
     ('s \<times> 'e) \<times> unit outcome" where
  "dispatchWithRetry env opts dispatch timer w =
     dispatch_loop env opts dispatch timer 0 (nat (so_maxRetries opts)) None w"

text \<open>One poll. A failed dispatch leaves its timer in the store; log lines are not modelled.\<close>

fun tick_loop ::
  "'e sched_env \<Rightarrow> ('s, 'e, 'p) Scheduler \<Rightarrow> 'p Timer list \<Rightarrow> 's \<times> 'e \<Rightarrow> ('s \<times> 'e) outcome" where
  "tick_loop env sch [] w = Ok w"
| "tick_loop env sch (timer # timers) w =
     (case dispatchWithRetry env (sch_opts sch) (sch_dispatch sch) timer w of
        (w1, Panic) \<Rightarrow> Panic
      | (w1, Fail err) \<Rightarrow> tick_loop env sch timers w1
      | (w1, Ok _) \<Rightarrow>
          (let (s, _) = ts_MarkFired (sch_store sch) (fst w1) (tm_ID timer) in
           tick_loop env sch timers (s, snd w1)))"

definition tick ::
  "'e sched_env \<Rightarrow> ('s, 'e, 'p) Scheduler \<Rightarrow> 's \<times> 'e \<Rightarrow> (('s \<times> 'e) \<times> go_error option) outcome option" where
  "tick env sch w =
     (case ts_Due (sch_store sch) (fst w) (so_now (sch_opts sch) (snd w)) of
        None \<Rightarrow> None
      | Some Panic \<Rightarrow> Some Panic
      | Some (Fail err) \<Rightarrow> Some (Fail err)
      | Some (Ok (s, due, err)) \<Rightarrow>
          (if err \<noteq> None \<and> due = [] then Some (Ok ((s, snd w), Some (ErrFmt [the err])))
           else Some (obind (tick_loop env sch due (s, snd w)) (\<lambda>w'.
             Ok (w', case err of None \<Rightarrow> None | Some e \<Rightarrow> Some (ErrFmt [e]))))))"

text \<open>
  The polling loop, driven by what its \<open>select\<close> receives: a tick, or the end of the context. A
  non-positive interval makes \<open>time.NewTicker\<close> panic. A loop that has consumed its signals is
  still blocked.
\<close>

datatype select_signal = Tick | Stop go_error

datatype ('s, 'e) start_result = Blocked "'s \<times> 'e" | Stopped "'s \<times> 'e" go_error | Crashed | Hung

fun Start_loop :: "'e sched_env \<Rightarrow> ('s, 'e, 'p) Scheduler \<Rightarrow> select_signal list \<Rightarrow> 's \<times> 'e \<Rightarrow> ('s, 'e) start_result" where
  "Start_loop env sch [] w = Blocked w"
| "Start_loop env sch (Stop err # signals) w = Stopped w (ErrFmt [err])"
| "Start_loop env sch (Tick # signals) w =
     (case tick env sch w of
        None \<Rightarrow> Hung
      | Some (Ok (w', _)) \<Rightarrow> Start_loop env sch signals w'
      | Some _ \<Rightarrow> Crashed)"

definition Start :: "'e sched_env \<Rightarrow> ('s, 'e, 'p) Scheduler \<Rightarrow> select_signal list \<Rightarrow> 's \<times> 'e \<Rightarrow> ('s, 'e) start_result" where
  "Start env sch signals w =
     (if so_pollInterval (sch_opts sch) \<le> 0 then Crashed else Start_loop env sch signals w)"

section \<open>The order of timers\<close>

lemma compareTimers_less:
  "compareTimers a b < 0 \<longleftrightarrow> tm_FireAt a < tm_FireAt b \<or> tm_FireAt a = tm_FireAt b \<and> tm_ID a < tm_ID b"
  by (auto simp: compareTimers_def time_Compare_def Let_def)

abbreviation timer_sorted :: "'p Timer list \<Rightarrow> bool" where
  "timer_sorted \<equiv> sorted_wrt (\<lambda>a b. compareTimers a b < 0)"

lemma timers_total:
  assumes "\<And>a b. a \<in> A \<Longrightarrow> b \<in> A \<Longrightarrow> tm_ID a = tm_ID b \<Longrightarrow> a = b"
  shows "strict_total_on (\<lambda>a b. compareTimers a b < 0) A"
  unfolding strict_total_on_def compareTimers_less
proof (intro conjI ballI impI)
  fix x y
  assume "x \<in> A" "y \<in> A" "x \<noteq> y"
  then have "tm_ID x \<noteq> tm_ID y"
    using assms by blast
  then show "(tm_FireAt x < tm_FireAt y \<or> tm_FireAt x = tm_FireAt y \<and> tm_ID x < tm_ID y) \<or>
      (tm_FireAt y < tm_FireAt x \<or> tm_FireAt y = tm_FireAt x \<and> tm_ID y < tm_ID x)"
    by (auto simp: neq_iff)
qed auto

lemma timer_sorted_distinct:
  assumes "timer_sorted ts" and "\<And>t. t \<in> set ts \<Longrightarrow> f (tm_ID t) = Some t"
  shows "distinct (map tm_ID ts)"
proof -
  have "distinct ts"
    using assms(1) by (induction ts) (auto simp: compareTimers_less)
  moreover have "inj_on tm_ID (set ts)"
    by (rule inj_onI) (metis assms(2) option.inject)
  ultimately show ?thesis
    by (simp add: distinct_map)
qed

section \<open>The contract of a timer store\<close>

text \<open>
  \<open>pending\<close> is the store's table of timers that have neither fired nor been cancelled; \<open>offered\<close>
  says which of them a query at a given time may hand out, and \<open>taken\<close> that the store handed out
  this very timer. A query at the zero time is left open.
\<close>

locale timer_store =
  fixes ops :: "('s, 'p) TimerStore"
    and inv :: "'s \<Rightarrow> bool"
    and pending :: "'s \<Rightarrow> TimerID \<Rightarrow> 'p Timer option"
    and offered :: "'s \<Rightarrow> instant \<Rightarrow> TimerID \<Rightarrow> bool"
    and taken :: "'s \<Rightarrow> 'p Timer \<Rightarrow> bool"
    and storable :: "'p Timer \<Rightarrow> bool"
  assumes pending_id: "inv s \<Longrightarrow> pending s k = Some t \<Longrightarrow> tm_ID t = k"
    and schedule_spec: "inv s \<Longrightarrow> storable t \<Longrightarrow> \<exists>s'. ts_Schedule ops s t = (s', None) \<and> inv s' \<and>
      pending s' = (if pending s (tm_ID t) = None then (pending s)(tm_ID t \<mapsto> t) else pending s)"
    and due_spec: "inv s \<Longrightarrow> now \<noteq> 0 \<Longrightarrow> \<exists>s' ts. ts_Due ops s now = Some (Ok (s', ts, None)) \<and> inv s' \<and>
      pending s' = pending s \<and> timer_sorted ts \<and>
      set ts = {t. \<exists>k. pending s k = Some t \<and> tm_FireAt t \<le> now \<and> offered s now k} \<and>
      (\<forall>t \<in> set ts. taken s' t)"
    and fired_spec: "inv s \<Longrightarrow> pending s (tm_ID t) = Some t \<Longrightarrow> taken s t \<Longrightarrow>
      \<exists>s'. ts_MarkFired ops s (tm_ID t) = (s', None) \<and> inv s' \<and> pending s' = (pending s)(tm_ID t := None) \<and>
        (\<forall>u. tm_ID u \<noteq> tm_ID t \<longrightarrow> taken s u \<longrightarrow> taken s' u)"
    and cancel_spec: "inv s \<Longrightarrow> \<exists>s'. ts_Cancel ops s k = (s', None) \<and> inv s' \<and>
      pending s' = (pending s)(k := None)"

section \<open>One poll\<close>

text \<open>
  A callback that acts on its environment alone, and what a poll is to do with it, read off the
  answers of the callback. \<open>attempts\<close> is one timer: its callback is called until it returns nil, fails
  for good, has been called as often as allowed or the context ends, with a wait after each call that
  is to be repeated; the list holds what the calls returned. \<open>dispatched\<close> is a list of timers, one
  after another.
\<close>

definition env_only :: "('p Timer \<Rightarrow> 'e \<Rightarrow> 'e \<times> unit outcome) \<Rightarrow> ('s, 'e, 'p) DispatchFunc" where
  "env_only d t w = (let (e, r) = d t (snd w) in ((fst w, e), r))"

inductive attempts ::
  "'e sched_env \<Rightarrow> 'e schedulerOptions \<Rightarrow> ('p Timer \<Rightarrow> 'e \<Rightarrow> 'e \<times> unit outcome) \<Rightarrow> 'p Timer \<Rightarrow>
     nat \<Rightarrow> 'e \<Rightarrow> unit outcome list \<Rightarrow> 'e \<Rightarrow> bool"
  for env opts d t where
  stopped: "se_Done env e \<noteq> None \<Longrightarrow> attempts env opts d t k e [] e"
| succeeded: "se_Done env e = None \<Longrightarrow> d t e = (e', Ok u) \<Longrightarrow> attempts env opts d t k e [Ok u] e'"
| permanent: "se_Done env e = None \<Longrightarrow> d t e = (e', Fail err) \<Longrightarrow> se_Classify env err \<in> {Rejection, Conflict} \<Longrightarrow>
    attempts env opts d t k e [Fail err] e'"
| last_one: "se_Done env e = None \<Longrightarrow> d t e = (e', Fail err) \<Longrightarrow> se_Classify env err \<notin> {Rejection, Conflict} \<Longrightarrow>
    int k + 1 = so_maxRetries opts \<Longrightarrow> attempts env opts d t k e [Fail err] e'"
| cancelled: "se_Done env e = None \<Longrightarrow> d t e = (e1, Fail err) \<Longrightarrow> se_Classify env err \<notin> {Rejection, Conflict} \<Longrightarrow>
    int k + 1 < so_maxRetries opts \<Longrightarrow> backoff_delay env (so_retryDelay opts) k e1 = (e2, Ok delay) \<Longrightarrow>
    se_Wait env delay e2 = (e', Some stop) \<Longrightarrow> attempts env opts d t k e [Fail err] e'"
| retried: "se_Done env e = None \<Longrightarrow> d t e = (e1, Fail err) \<Longrightarrow> se_Classify env err \<notin> {Rejection, Conflict} \<Longrightarrow>
    int k + 1 < so_maxRetries opts \<Longrightarrow> backoff_delay env (so_retryDelay opts) k e1 = (e2, Ok delay) \<Longrightarrow>
    se_Wait env delay e2 = (e3, None) \<Longrightarrow> attempts env opts d t (Suc k) e3 rs e' \<Longrightarrow>
    attempts env opts d t k e (Fail err # rs) e'"

inductive dispatched ::
  "'e sched_env \<Rightarrow> 'e schedulerOptions \<Rightarrow> ('p Timer \<Rightarrow> 'e \<Rightarrow> 'e \<times> unit outcome) \<Rightarrow>
     'p Timer list \<Rightarrow> 'e \<Rightarrow> ('p Timer \<times> unit outcome list) list \<Rightarrow> 'e \<Rightarrow> bool"
  for env opts d where
  nothing: "dispatched env opts d [] e [] e"
| one: "attempts env opts d t 0 e rs e1 \<Longrightarrow> dispatched env opts d ts e1 runs e' \<Longrightarrow>
    dispatched env opts d (t # ts) e ((t, rs) # runs) e'"

inductive_cases dispatched_ConsE: "dispatched env opts d (t # ts) e runs e'"

text \<open>The last call of the callback returned nil.\<close>

definition acknowledged :: "unit outcome list \<Rightarrow> bool" where
  "acknowledged rs \<longleftrightarrow> rs \<noteq> [] \<and> last rs = Ok ()"

text \<open>\<open>fire_all\<close> dispatches with the code's loop and collects the identifiers of those that succeeded.\<close>

fun fire_all ::
  "'e sched_env \<Rightarrow> 'e schedulerOptions \<Rightarrow> ('p Timer \<Rightarrow> 'e \<Rightarrow> 'e \<times> unit outcome) \<Rightarrow> 'p Timer list \<Rightarrow> 'e \<Rightarrow>
     ('e \<times> TimerID set) outcome" where
  "fire_all env opts d [] e = Ok (e, {})"
| "fire_all env opts d (t # ts) e =
     (case dispatchWithRetry env opts (env_only d) t ((), e) of
        (w, Panic) \<Rightarrow> Panic
      | (w, r) \<Rightarrow> obind (fire_all env opts d ts (snd w)) (\<lambda>(e', fired).
          Ok (e', if r = Ok () then insert (tm_ID t) fired else fired)))"

lemma dispatch_loop_env:
  "dispatch_loop env opts (env_only d) t attempt left lastErr (s, e) =
     (let (w, r) = dispatch_loop env opts (env_only d) t attempt left lastErr ((), e) in ((s, snd w), r))"
  by (induction left arbitrary: attempt lastErr s e)
    (auto simp: env_only_def Let_def split: option.split prod.split outcome.split)

lemma dispatchWithRetry_env:
  "dispatchWithRetry env opts (env_only d) t (s, e) =
     (let (w, r) = dispatchWithRetry env opts (env_only d) t ((), e) in ((s, snd w), r))"
  unfolding dispatchWithRetry_def by (rule dispatch_loop_env)

lemma env_only_apply: "d t e = (e1, r) \<Longrightarrow> env_only d t (s, e) = ((s, e1), r)"
  by (simp add: env_only_def)

lemma dispatch_loop_attempts:
  assumes "attempts env opts d t k e rs e'" and "int k + int left = so_maxRetries opts" and "0 < left"
  shows "\<exists>r. dispatch_loop env opts (env_only d) t k left lastErr ((), e) = (((), e'), r) \<and> r \<noteq> Panic \<and>
    (r = Ok () \<longleftrightarrow> acknowledged rs)"
  using assms
proof (induction arbitrary: left lastErr rule: attempts.induct)
  case (last_one e e' err k)
  then obtain "left = Suc 0" by linarith
  with last_one show ?case
    by (simp add: env_only_def acknowledged_def)
next
  case (retried e e1 err k e2 delay e3 rs e')
  define left' where "left' = left - 1"
  have left: "left = Suc left'" "0 < left'" "int (Suc k) + int left' = so_maxRetries opts"
    using retried.hyps(4) retried.prems unfolding left'_def by linarith+
  from retried.IH [OF left(3,2), of "Some err"] obtain r where
    "dispatch_loop env opts (env_only d) t (Suc k) left' (Some err) ((), e3) = (((), e'), r)" "r \<noteq> Panic"
    "r = Ok () \<longleftrightarrow> acknowledged rs"
    by blast
  moreover from retried.hyps(7) have "rs \<noteq> [] \<or> \<not> acknowledged rs"
    by (simp add: acknowledged_def)
  ultimately show ?case
    using retried.hyps(1-6) by (auto simp: left(1) env_only_apply acknowledged_def)
qed (auto simp: gr0_conv_Suc env_only_def acknowledged_def)

lemma dispatch_loop_attempts_ex:
  assumes "dispatch_loop env opts (env_only d) t k left lastErr ((), e) = (w, r)" and "r \<noteq> Panic"
    and "int k + int left = so_maxRetries opts" and "0 < left"
  shows "\<exists>rs. attempts env opts d t k e rs (snd w)"
  using assms
proof (induction left arbitrary: k lastErr e)
  case (Suc left)
  show ?case
  proof (cases "se_Done env e")
    case None
    obtain e1 res where call: "d t e = (e1, res)"
      by fastforce
    show ?thesis
    proof (cases res)
      case (Ok u)
      with Suc.prems(1) None call have "snd w = e1"
        by (auto simp: env_only_def)
      then show ?thesis
        using attempts.succeeded [of env e d t e1 u opts k] None call Ok by blast
    next
      case (Fail err)
      consider (permanent) "se_Classify env err \<in> {Rejection, Conflict}"
        | (final) "se_Classify env err \<notin> {Rejection, Conflict}" "left = 0"
        | (more) "se_Classify env err \<notin> {Rejection, Conflict}" "0 < left"
        by blast
      then show ?thesis
      proof cases
        case permanent
        with Suc.prems(1) None call Fail have "snd w = e1"
          by (auto simp: env_only_def)
        then show ?thesis
          using attempts.permanent [of env e d t e1 err opts k] None call Fail permanent by blast
      next
        case final
        with Suc.prems None call Fail have "snd w = e1" "int k + 1 = so_maxRetries opts"
          by (auto simp: env_only_def)
        then show ?thesis
          using attempts.last_one [of env e d t e1 err k opts] None call Fail final(1) by blast
      next
        case more
        with Suc.prems(3) have k: "int k + 1 < so_maxRetries opts" "int (Suc k) + int left = so_maxRetries opts"
          by simp_all
        obtain e2 b where delay: "backoff_delay env (so_retryDelay opts) k e1 = (e2, b)"
          by fastforce
        with Suc.prems(1,2) None call Fail more k(1) obtain delay where b: "b = Ok delay"
          by (cases b) (auto simp: env_only_def)
        obtain e3 c where wait: "se_Wait env delay e2 = (e3, c)"
          by fastforce
        note hyps = None call [unfolded Fail] more(1) k(1) delay [unfolded b]
        show ?thesis
        proof (cases c)
          case (Some stop)
          with Suc.prems(1) hyps wait have "snd w = e3"
            by (auto simp: env_only_def)
          then show ?thesis
            using attempts.cancelled [of env e d t e1 err k opts e2 delay e3 stop] hyps wait Some by blast
        next
          case w: None
          have "dispatch_loop env opts (env_only d) t (Suc k) left (Some err) ((), e3) = (w, r)"
            using Suc.prems(1) hyps wait w by (auto simp: env_only_apply)
          from Suc.IH [OF this Suc.prems(2) k(2) more(2)] show ?thesis
            using attempts.retried [of env e d t e1 err k opts e2 delay e3] hyps wait w by blast
        qed
      qed
    next
      case Panic
      with Suc.prems(1,2) None call show ?thesis
        by (auto simp: env_only_def)
    qed
  next
    case (Some err)
    with Suc.prems(1) have "snd w = e"
      by auto
    then show ?thesis
      using attempts.stopped [of env e opts d t k] Some by blast
  qed
qed simp

lemma dispatchWithRetry_attempts:
  assumes "1 \<le> so_maxRetries opts"
  shows "attempts env opts d t 0 e rs e' \<Longrightarrow>
      \<exists>r. dispatchWithRetry env opts (env_only d) t ((), e) = (((), e'), r) \<and> r \<noteq> Panic \<and> (r = Ok () \<longleftrightarrow> acknowledged rs)"
    and "dispatchWithRetry env opts (env_only d) t ((), e) = (w, r) \<Longrightarrow> r \<noteq> Panic \<Longrightarrow>
      \<exists>rs. attempts env opts d t 0 e rs (snd w)"
  using assms dispatch_loop_attempts [of env opts d t 0 e rs e' "nat (so_maxRetries opts)" None]
    dispatch_loop_attempts_ex [of env opts d t 0 "nat (so_maxRetries opts)" None e w r]
  by (simp_all add: dispatchWithRetry_def)

lemma fire_all_dispatched:
  assumes "1 \<le> so_maxRetries opts" and "dispatched env opts d ts e runs e'"
  shows "fire_all env opts d ts e = Ok (e', {tm_ID t | t rs. (t, rs) \<in> set runs \<and> acknowledged rs})"
  using assms(2)
proof (induction rule: dispatched.induct)
  case (one t e rs e1 ts runs e')
  obtain r where "dispatchWithRetry env opts (env_only d) t ((), e) = (((), e1), r)" "r \<noteq> Panic"
    "r = Ok () \<longleftrightarrow> acknowledged rs"
    using dispatchWithRetry_attempts(1) [OF assms(1) one.hyps(1)] by blast
  moreover have "{tm_ID t' | t' rs'. (t', rs') \<in> set ((t, rs) # runs) \<and> acknowledged rs'} =
      (if acknowledged rs then insert (tm_ID t) {tm_ID t | t rs. (t, rs) \<in> set runs \<and> acknowledged rs}
       else {tm_ID t | t rs. (t, rs) \<in> set runs \<and> acknowledged rs})"
    by auto
  ultimately show ?case
    using one.IH by (cases r) auto
qed simp

lemma fire_all_not_dispatched:
  assumes "1 \<le> so_maxRetries opts" and "\<nexists>runs e'. dispatched env opts d ts e runs e'"
  shows "fire_all env opts d ts e = Panic"
  using assms(2)
proof (induction ts arbitrary: e)
  case Nil
  then show ?case
    using dispatched.nothing [of env opts d e] by blast
next
  case (Cons t ts)
  obtain w r where run: "dispatchWithRetry env opts (env_only d) t ((), e) = (w, r)"
    by fastforce
  show ?case
  proof (cases "r = Panic")
    case False
    with dispatchWithRetry_attempts(2) [OF assms(1) run] obtain rs where "attempts env opts d t 0 e rs (snd w)"
      by blast
    with Cons.prems have "\<nexists>runs e'. dispatched env opts d ts (snd w) runs e'"
      using dispatched.one [of env opts d t e rs "snd w" ts] by blast
    then have "fire_all env opts d ts (snd w) = Panic"
      by (rule Cons.IH)
    with run False show ?thesis
      by (cases r) auto
  qed (simp add: run)
qed

lemma tick_loop_crash:
  assumes "sch_dispatch sch = env_only d" and "fire_all env (sch_opts sch) d ts e = Panic"
  shows "tick_loop env sch ts (s, e) = Panic"
  using assms(2)
proof (induction ts arbitrary: s e)
  case (Cons t ts)
  obtain w r where run: "dispatchWithRetry env (sch_opts sch) (env_only d) t ((), e) = (w, r)"
    by fastforce
  have disp: "dispatchWithRetry env (sch_opts sch) (sch_dispatch sch) t (s, e) = ((s, snd w), r)"
    unfolding assms(1) by (subst dispatchWithRetry_env) (simp add: run)
  have "r = Panic \<or> fire_all env (sch_opts sch) d ts (snd w) = Panic"
    using Cons.prems run by (cases r; cases "fire_all env (sch_opts sch) d ts (snd w)") auto
  then show ?case
    using Cons.IH disp by (cases r) (auto split: prod.split)
qed simp

lemma fire_all_subset: "fire_all env opts d ts e = Ok (e', fired) \<Longrightarrow> fired \<subseteq> tm_ID ` set ts"
  by (induction ts arbitrary: e e' fired)
    (fastforce simp: obind_Ok_iff split: prod.splits outcome.splits if_splits)+

context timer_store
begin

lemma tick_loop_fires:
  assumes "sch_store sch = ops" and "sch_dispatch sch = env_only d" and "inv s"
    and "\<forall>t \<in> set ts. taken s t \<and> pending s (tm_ID t) = Some t" and "distinct (map tm_ID ts)"
    and "fire_all env (sch_opts sch) d ts e = Ok (e', fired)"
  shows "\<exists>s'. tick_loop env sch ts (s, e) = Ok (s', e') \<and> inv s' \<and>
    pending s' = (\<lambda>k. if k \<in> fired then None else pending s k)"
  using assms(3-)
proof (induction ts arbitrary: s e fired)
  case (Cons t ts)
  obtain w r where run: "dispatchWithRetry env (sch_opts sch) (env_only d) t ((), e) = (w, r)"
    by fastforce
  with Cons.prems(4) obtain fired' where rest: "fire_all env (sch_opts sch) d ts (snd w) = Ok (e', fired')"
    and fired: "fired = (if r = Ok () then insert (tm_ID t) fired' else fired')" and "r \<noteq> Panic"
    by (auto simp: obind_Ok_iff split: outcome.splits)
  have disp: "dispatchWithRetry env (sch_opts sch) (sch_dispatch sch) t (s, e) = ((s, snd w), r)"
    unfolding assms(2) by (subst dispatchWithRetry_env) (simp add: run)
  show ?case
  proof (cases "r = Ok ()")
    case True
    have t: "pending s (tm_ID t) = Some t" "taken s t"
      using Cons.prems(2) by simp_all
    obtain s1 where s1: "ts_MarkFired ops s (tm_ID t) = (s1, None)" "inv s1"
      "pending s1 = (pending s)(tm_ID t := None)" "\<forall>u. tm_ID u \<noteq> tm_ID t \<longrightarrow> taken s u \<longrightarrow> taken s1 u"
      using fired_spec [OF Cons.prems(1) t] by (elim exE conjE) (rule that)
    have "\<exists>s'. tick_loop env sch ts (s1, snd w) = Ok (s', e') \<and> inv s' \<and>
        pending s' = (\<lambda>k. if k \<in> fired' then None else pending s1 k)"
      by (rule Cons.IH) (use Cons.prems(2,3) s1 rest in \<open>auto simp: image_iff\<close>)
    then show ?thesis
      using True disp s1(1,3) assms(1) fired by (auto simp: fun_eq_iff)
  next
    case False
    then obtain err where "r = Fail err"
      using \<open>r \<noteq> Panic\<close> by (cases r) auto
    moreover have "\<exists>s'. tick_loop env sch ts (s, snd w) = Ok (s', e') \<and> inv s' \<and>
        pending s' = (\<lambda>k. if k \<in> fired' then None else pending s k)"
      by (rule Cons.IH) (use Cons.prems rest in auto)
    ultimately show ?thesis
      using disp fired by simp
  qed
qed simp

lemma tick_fires:
  assumes "sch_store sch = ops" and "sch_dispatch sch = env_only d" and "inv s"
    and now: "so_now (sch_opts sch) e = now" "now \<noteq> 0"
  obtains ts where "timer_sorted ts"
    and "set ts = {t. \<exists>k. pending s k = Some t \<and> tm_FireAt t \<le> now \<and> offered s now k}"
    and "\<And>e' fired. fire_all env (sch_opts sch) d ts e = Ok (e', fired) \<Longrightarrow>
      \<exists>s'. tick env sch (s, e) = Some (Ok ((s', e'), None)) \<and> inv s' \<and>
        pending s' = (\<lambda>k. if k \<in> fired then None else pending s k)"
    and "fire_all env (sch_opts sch) d ts e = Panic \<Longrightarrow> tick env sch (s, e) = Some Panic"
proof -
  obtain s1 ts where due: "ts_Due ops s now = Some (Ok (s1, ts, None))" "inv s1" "pending s1 = pending s"
    and ts: "timer_sorted ts" "set ts = {t. \<exists>k. pending s k = Some t \<and> tm_FireAt t \<le> now \<and> offered s now k}"
    and tk: "\<forall>t \<in> set ts. taken s1 t"
    using due_spec [OF assms(3) now(2)] by (elim exE conjE) (rule that)
  have mem: "pending s (tm_ID t) = Some t" if "t \<in> set ts" for t
    using that ts(2) pending_id [OF assms(3)] by auto
  have own: "\<forall>t \<in> set ts. taken s1 t \<and> pending s1 (tm_ID t) = Some t"
    using tk mem due(3) by simp
  have "distinct (map tm_ID ts)"
    using timer_sorted_distinct [OF ts(1), of "pending s"] mem by blast
  note run = tick_loop_fires [OF assms(1,2) due(2) own this]
  show ?thesis
  proof (rule that [OF ts])
    fix e' fired
    assume "fire_all env (sch_opts sch) d ts e = Ok (e', fired)"
    from run [OF this, unfolded due(3)] show "\<exists>s'. tick env sch (s, e) = Some (Ok ((s', e'), None)) \<and> inv s' \<and>
        pending s' = (\<lambda>k. if k \<in> fired then None else pending s k)"
      using due(1) now(1) assms(1) by (auto simp: tick_def)
  next
    assume "fire_all env (sch_opts sch) d ts e = Panic"
    from tick_loop_crash [OF assms(2) this, of s1] show "tick env sch (s, e) = Some Panic"
      using due(1) now(1) assms(1) by (simp add: tick_def)
  qed
qed

end

section \<open>The in-memory store\<close>

definition timers_inv :: "'p MemoryTimerStore \<Rightarrow> bool" where
  "timers_inv s \<longleftrightarrow> distinct (map fst s) \<and> (\<forall>(k, t) \<in> set s. tm_ID t = k)"

lemma memory_Due_timers:
  assumes "timers_inv s" and "rearranges order"
  shows "timer_sorted (fst (memory_Due order s now))"
    and "set (fst (memory_Due order s now)) = {t. map_of s (tm_ID t) = Some t \<and> tm_FireAt t \<le> now}"
    and "snd (memory_Due order s now) = None"
proof -
  let ?due = "filter (\<lambda>t. \<not> After (tm_FireAt t) now) (map snd (order s))"
  have perm: "mset (order s) = mset s"
    using assms(2) by (simp add: rearranges_def)
  then have elems: "set (order s) = set s"
    by (metis set_mset_mset)
  have ids: "map (tm_ID \<circ> snd) (order s) = map fst (order s)"
    using assms(1) elems by (auto simp: timers_inv_def)
  have "distinct (map fst (order s))"
    using assms(1) perm by (metis timers_inv_def mset_map mset_eq_imp_distinct_iff)
  then have dist: "distinct (map tm_ID (map snd (order s)))"
    by (simp add: ids)
  then have "distinct (map tm_ID ?due)"
    by (rule distinct_map_filter)
  then have "timer_sorted (sort_Slice (\<lambda>a b. compareTimers a b < 0) ?due)"
    by (intro sorted_sort_Slice timers_total) (auto simp: distinct_map inj_on_def)
  then show "timer_sorted (fst (memory_Due order s now))"
    by (simp add: memory_Due_def)
  have "t \<in> snd ` set s \<longleftrightarrow> map_of s (tm_ID t) = Some t" for t
    using assms(1) by (force simp: timers_inv_def dest: map_of_SomeD)
  then show "set (fst (memory_Due order s now)) = {t. map_of s (tm_ID t) = Some t \<and> tm_FireAt t \<le> now}"
    by (auto simp: memory_Due_def Let_def elems After_def)
qed (simp add: memory_Due_def Let_def)

lemma memory_timer_store:
  assumes "rearranges order"
  shows "timer_store (memory_timers order) timers_inv map_of (\<lambda>_ _ _. True) (\<lambda>_ _. True) (\<lambda>_. True)"
proof
  fix s :: "'a MemoryTimerStore" and t :: "'a Timer" and k now
  assume inv: "timers_inv s"
  then show ids: "map_of s k = Some t \<Longrightarrow> tm_ID t = k" for k t
    by (auto simp: timers_inv_def dest: map_of_SomeD)
  have "tm_ID t \<notin> fst ` set s" if "map_of s (tm_ID t) = None"
    using that by (simp add: map_of_eq_None_iff)
  then show "\<exists>s'. ts_Schedule (memory_timers order) s t = (s', None) \<and> timers_inv s' \<and>
      map_of s' = (if map_of s (tm_ID t) = None then (map_of s)(tm_ID t \<mapsto> t) else map_of s)"
    using inv by (auto simp: memory_timers_def memory_Schedule_def timers_inv_def)
  have "{t. \<exists>k. map_of s k = Some t \<and> tm_FireAt t \<le> now \<and> True} = {t. map_of s (tm_ID t) = Some t \<and> tm_FireAt t \<le> now}"
    using ids by blast
  with memory_Due_timers [OF inv assms, of now] inv
  show "\<exists>s' ts. ts_Due (memory_timers order) s now = Some (Ok (s', ts, None)) \<and> timers_inv s' \<and>
      map_of s' = map_of s \<and> timer_sorted ts \<and>
      set ts = {t. \<exists>k. map_of s k = Some t \<and> tm_FireAt t \<le> now \<and> True} \<and> (\<forall>t \<in> set ts. True)"
    by (intro exI [of _ s] exI [of _ "fst (memory_Due order s now)"]) (simp add: memory_timers_def case_prod_beta Let_def prod_eq_iff)
  have del: "timers_inv (filter (\<lambda>p. fst p \<noteq> k) s)" "map_of (filter (\<lambda>p. fst p \<noteq> k) s) = (map_of s)(k := None)" for k
    using inv by (auto simp: timers_inv_def distinct_map_filter) (induction s; auto)
  then show "\<exists>s'. ts_MarkFired (memory_timers order) s (tm_ID t) = (s', None) \<and> timers_inv s' \<and>
      map_of s' = (map_of s)(tm_ID t := None) \<and> (\<forall>u. tm_ID u \<noteq> tm_ID t \<longrightarrow> True \<longrightarrow> True)"
    and "\<exists>s'. ts_Cancel (memory_timers order) s k = (s', None) \<and> timers_inv s' \<and> map_of s' = (map_of s)(k := None)"
    by (simp_all add: memory_timers_def memory_MarkFired_def memory_Cancel_def deleteTimer_def)
qed

interpretation mem_timers: timer_store "memory_timers id" timers_inv map_of "\<lambda>_ _ _. True" "\<lambda>_ _. True" "\<lambda>_. True"
  by (rule memory_timer_store) (simp add: rearranges_def)

section \<open>Retries\<close>

text \<open>The options keep at least one attempt.\<close>

definition scheduler_option :: "('e schedulerOptions \<Rightarrow> 'e schedulerOptions) \<Rightarrow> bool" where
  "scheduler_option opt \<longleftrightarrow> (\<exists>d n now. opt \<in> {WithPollInterval d, WithMaxRetries n, WithRetryDelay d, sched_WithClock now})"

lemma options_attempts:
  assumes "\<forall>opt \<in> set opts. scheduler_option opt"
  shows "1 \<le> so_maxRetries (sch_opts (New_Scheduler time_Now store dispatch opts))"
proof -
  have "1 \<le> so_maxRetries (foldl (\<lambda>o' opt. opt o') o0 opts)" if "1 \<le> so_maxRetries o0" for o0 :: "'a schedulerOptions"
    using that assms
  proof (induction opts arbitrary: o0)
    case (Cons opt opts)
    have "1 \<le> so_maxRetries (opt o0)"
      using Cons.prems by (auto simp: scheduler_option_def WithPollInterval_def WithMaxRetries_def
          WithRetryDelay_def sched_WithClock_def split: option.split)
    with Cons show ?case
      by simp
  qed simp
  then show ?thesis
    by (simp add: New_Scheduler_def sched_defaultOptions_def defaultMaxRetries_def)
qed

text \<open>A dispatch counts as done only when the callback returned nil.\<close>

lemma dispatch_loop_success:
  assumes "dispatch_loop env opts dispatch t attempt left lastErr w = (w', Ok ())" and "0 < left \<or> lastErr \<noteq> None"
  shows "\<exists>w1 r. dispatch t w1 = (w', Ok r)"
  using assms
proof (induction left arbitrary: attempt lastErr w)
  case (Suc left)
  show ?case
    using Suc.prems(1) by (cases w) (auto split: option.splits prod.splits outcome.splits if_splits dest!: Suc.IH)
qed auto

lemma wrap64_id: "- (2 ^ 63) \<le> n \<Longrightarrow> n < 2 ^ 63 \<Longrightarrow> wrap64 n = n"
  by (simp add: wrap64_def signed_take_bit_int_eq_self)

lemma sdiv_half: "0 \<le> n \<Longrightarrow> n sdiv 2 = n div (2 :: int)"
  by (cases "n = 0") (simp_all add: signed_divide_int_def)

lemma backoff_delay_bounds:
  assumes "0 \<le> d" and "d * 2 ^ attempt < 2 ^ 63" and "attempt < 63"
    and "\<And>n e. 0 < n \<Longrightarrow> 0 \<le> snd (se_Int64N env n e) \<and> snd (se_Int64N env n e) < n"
  obtains e' delay where "backoff_delay env d attempt e = (e', Ok delay)"
    and "d * 2 ^ attempt div 2 \<le> delay" and "delay \<le> d * 2 ^ attempt"
proof -
  let ?x = "d * 2 ^ attempt" and ?h = "d * 2 ^ attempt div 2"
  have "(2 :: int) ^ attempt < 2 ^ 63"
    using assms(3) by (intro power_strict_increasing) auto
  then have "wrap64 (2 ^ attempt) = 2 ^ attempt"
    by (intro wrap64_id) (auto intro: order_trans [of _ 0])
  moreover have x: "0 \<le> ?x"
    using assms(1) by simp
  ultimately have exp: "backoff_exp d attempt sdiv jitterHalfDivisor = ?h"
    using assms(2) by (simp add: backoff_exp_def jitterHalfDivisor_def wrap64_id sdiv_half)
  obtain e' r where r: "se_Int64N env (?h + 1) e = (e', r)"
    by fastforce
  have h: "0 \<le> ?h" "?h + ?h \<le> ?x"
    using x by simp_all
  have b: "0 \<le> r" "r \<le> ?h"
    using assms(4) [of "?h + 1" e] h(1) by (simp_all add: r)
  then have "wrap64 (?h + r) = ?h + r"
    using h assms(2) by (intro wrap64_id) linarith+
  then have "backoff_delay env d attempt e = (e', Ok (?h + r))"
    using h(1) by (simp add: backoff_delay_def exp r Let_def)
  then show ?thesis
    by (rule that) (use b h in linarith)+
qed

text \<open>A negative base delay is accepted by the option and makes the first retry panic.\<close>

lemma negative_delay_panics:
  assumes "d \<le> - 2" and "- (2 ^ 63) \<le> d"
  shows "backoff_delay env (so_retryDelay (WithRetryDelay d opts)) 0 e = (e, Panic)"
proof -
  have "backoff_exp d 0 = d"
    using assms by (simp add: backoff_exp_def wrap64_id)
  moreover have "d sdiv 2 + 1 \<le> 0"
    using assms(1) by (simp add: signed_divide_int_def)
  ultimately show ?thesis
    by (simp add: backoff_delay_def WithRetryDelay_def jitterHalfDivisor_def)
qed

end
