(* ===== verification/EngineTimers.thy ===== *)
theory EngineTimers
  imports Timers ClaimRuns
begin

text \<open>
  The engine-backed timer store (\<open>src/scheduling/engine/store.go\<close>): timers as due claims of a
  metaengine engine, the batches of \<open>Due\<close>, and the epochs that guard \<open>MarkFired\<close>. The JSON encoding
  of a timer is an argument; that decoding inverts encoding is what the locale
  \<open>engine_timer_store\<close> assumes of it. The store implements the contract \<open>timer_store\<close>, so
  everything shown of a scheduler holds of it.
\<close>

section \<open>The store\<close>

record config =
  cf_collection :: string
  cf_owner :: string
  cf_lease :: int

definition WithCollection :: "string \<Rightarrow> config \<Rightarrow> config" where
  "WithCollection name c = (if name \<noteq> [] then c \<lparr> cf_collection := name \<rparr> else c)"

definition WithOwner :: "string \<Rightarrow> config \<Rightarrow> config" where
  "WithOwner owner c = (if owner \<noteq> [] then c \<lparr> cf_owner := owner \<rparr> else c)"

definition WithLease :: "int \<Rightarrow> config \<Rightarrow> config" where
  "WithLease d c = (if 0 < d then c \<lparr> cf_lease := d \<rparr> else c)"

definition ErrEngineNotDueClaimer :: go_error where
  "ErrEngineNotDueClaimer = ErrExt ''scheduling/engine: engine does not implement metaengine.DueClaimer (ADR-0142 capability)''"

definition DefaultLease :: int where
  "DefaultLease = DefaultClaimLease"

text \<open>
  The claiming engine, with the boxing of its claims and the wall clock, and the encoding of
  timers; the state of a store is the engine's state and the epochs it remembers.
\<close>

record ('s, 'v, 'p) timer_engine =
  te_rt :: "('s, 'v) map_backends"
  te_reify :: "'v \<Rightarrow> mapClaimRecord option"
  te_box :: "mapClaimRecord \<Rightarrow> 'v"
  te_wall :: instant
  te_Marshal :: "'p Timer \<Rightarrow> go_error + byte list"
  te_Unmarshal :: "byte list \<Rightarrow> go_error + 'p Timer"

record 's timer_state =
  es_claims :: 's
  es_epochs :: "string \<rightharpoonup> instant"

definition NewTimerStore ::
  "('s, 'v, 'p) timer_engine option \<Rightarrow> 's \<Rightarrow> (config \<Rightarrow> config) list \<Rightarrow>
     (('s, 'v, 'p) timer_engine \<times> config \<times> 's timer_state) outcome" where
  "NewTimerStore claims s opts =
     (case claims of
        None \<Rightarrow> Fail (ErrFmt [ErrEngineNotDueClaimer])
      | Some T \<Rightarrow>
          (let cfg = foldl (\<lambda>c opt. opt c)
             \<lparr> cf_collection = ''timers'', cf_owner = ''scheduler'', cf_lease = DefaultLease \<rparr> opts in
           Ok (T, cfg, \<lparr> es_claims = s, es_epochs = Map.empty \<rparr>)))"

definition rememberEpoch :: "'s timer_state \<Rightarrow> string \<Rightarrow> instant \<Rightarrow> 's timer_state" where
  "rememberEpoch st key dueAt = st \<lparr> es_epochs := (es_epochs st)(key \<mapsto> dueAt) \<rparr>"

definition takeEpoch :: "'s timer_state \<Rightarrow> string \<Rightarrow> 's timer_state \<times> instant option" where
  "takeEpoch st key =
     (case es_epochs st key of
        Some epoch \<Rightarrow> (st \<lparr> es_epochs := (es_epochs st)(key := None) \<rparr>, Some epoch)
      | None \<Rightarrow> (st, None))"

definition engine_Schedule ::
  "('s, 'v, 'p) timer_engine \<Rightarrow> config \<Rightarrow> 's timer_state \<Rightarrow> 'p Timer \<Rightarrow> 's timer_state \<times> go_error option" where
  "engine_Schedule T cfg st t =
     (case te_Marshal T t of
        Inl err \<Rightarrow> (st, Some (ErrFmt [err]))
      | Inr payload \<Rightarrow>
          (let (s, err) = ClaimInsert (te_rt T) (te_reify T) (te_box T) (es_claims st) (cf_collection cfg)
             (tm_ID t) (tm_FireAt t) payload in
           (st \<lparr> es_claims := s \<rparr>, case err of Some e \<Rightarrow> Some (ErrFmt [e]) | None \<Rightarrow> None)))"

definition due_request :: "config \<Rightarrow> instant \<Rightarrow> ClaimDueRequest" where
  "due_request cfg now = \<lparr> cr_Collection = cf_collection cfg, cr_Owner = cf_owner cfg, cr_Lease = cf_lease cfg,
     cr_Limit = DefaultClaimLimit, cr_Now = now \<rparr>"

fun Due_decode ::
  "('s, 'v, 'p) timer_engine \<Rightarrow> 's timer_state \<Rightarrow> DueClaim list \<Rightarrow> 'p Timer list \<Rightarrow>
     's timer_state \<times> 'p Timer list \<times> go_error option" where
  "Due_decode T st [] due = (st, due, None)"
| "Due_decode T st (claim # batch) due =
     (case te_Unmarshal T (dc_Payload claim) of
        Inl err \<Rightarrow> (st, due, Some (ErrFmt [err]))
      | Inr t \<Rightarrow> Due_decode T (rememberEpoch st (tm_ID t) (dc_DueAt claim)) batch (due @ [t]))"

partial_function (option) Due_loop ::
  "('s, 'v, 'p) timer_engine \<Rightarrow> config \<Rightarrow> instant \<Rightarrow> 's timer_state \<Rightarrow> 'p Timer list \<Rightarrow>
     ('s timer_state \<times> 'p Timer list \<times> go_error option) outcome option" where
  "Due_loop T cfg now st due =
     (case ClaimDue (te_rt T) (te_reify T) (te_box T) (te_wall T) (es_claims st) (due_request cfg now) of
        Panic \<Rightarrow> Some Panic
      | Fail err \<Rightarrow> Some (Fail err)
      | Ok r \<Rightarrow>
          (case snd (snd r) of
             Some err \<Rightarrow> Some (Ok (st \<lparr> es_claims := fst r \<rparr>, due, Some (ErrFmt [err])))
           | None \<Rightarrow>
               (let q = Due_decode T (st \<lparr> es_claims := fst r \<rparr>) (fst (snd r)) due in
                if snd (snd q) \<noteq> None \<or> int (length (fst (snd r))) < DefaultClaimLimit then Some (Ok q)
                else Due_loop T cfg now (fst q) (fst (snd q)))))"

declare Due_loop.simps [code]

definition engine_Due ::
  "('s, 'v, 'p) timer_engine \<Rightarrow> config \<Rightarrow> 's timer_state \<Rightarrow> instant \<Rightarrow>
     ('s timer_state \<times> 'p Timer list \<times> go_error option) outcome option" where
  "engine_Due T cfg st now = Due_loop T cfg now st []"

definition engine_MarkFired ::
  "('s, 'v, 'p) timer_engine \<Rightarrow> config \<Rightarrow> 's timer_state \<Rightarrow> TimerID \<Rightarrow> 's timer_state \<times> go_error option" where
  "engine_MarkFired T cfg st k =
     (case takeEpoch st k of
        (st1, None) \<Rightarrow> (st1, None)
      | (st1, Some epoch) \<Rightarrow>
          (let (s, err) = ClaimDeleteIfDue (te_rt T) (te_reify T) (te_box T) (es_claims st1) (cf_collection cfg) k epoch in
           (st1 \<lparr> es_claims := s \<rparr>, case err of Some e \<Rightarrow> Some (ErrFmt [e]) | None \<Rightarrow> None)))"

definition engine_Cancel ::
  "('s, 'v, 'p) timer_engine \<Rightarrow> config \<Rightarrow> 's timer_state \<Rightarrow> TimerID \<Rightarrow> 's timer_state \<times> go_error option" where
  "engine_Cancel T cfg st k =
     (let (st1, _) = takeEpoch st k;
          (s, err) = ClaimDelete (te_rt T) (es_claims st1) (cf_collection cfg) k in
      (st1 \<lparr> es_claims := s \<rparr>, case err of Some e \<Rightarrow> Some (ErrFmt [e]) | None \<Rightarrow> None))"

definition engine_timers ::
  "('s, 'v, 'p) timer_engine \<Rightarrow> config \<Rightarrow> ('s timer_state, 'p) TimerStore" where
  "engine_timers T cfg = \<lparr> ts_Schedule = engine_Schedule T cfg, ts_Due = engine_Due T cfg,
     ts_MarkFired = engine_MarkFired T cfg, ts_Cancel = engine_Cancel T cfg \<rparr>"

section \<open>The timers of an engine\<close>

definition timer_of :: "('s, 'v, 'p) timer_engine \<Rightarrow> mapClaimRecord option \<Rightarrow> 'p Timer option" where
  "timer_of T c =
     (case live_claim c of
        None \<Rightarrow> None
      | Some r \<Rightarrow> (case te_Unmarshal T (mc_Payload r) of Inl _ \<Rightarrow> None | Inr t \<Rightarrow> Some t))"

definition unleased :: "instant \<Rightarrow> mapClaimRecord option \<Rightarrow> bool" where
  "unleased now c = (case live_claim c of None \<Rightarrow> False | Some r \<Rightarrow> mc_LeaseUntil r \<le> now)"

text \<open>A live claim holds the encoding of a timer of its key and due time.\<close>

definition timers_wf ::
  "('s, 'v, 'p) timer_engine \<Rightarrow> (string \<Rightarrow> string \<Rightarrow> mapClaimRecord option) \<Rightarrow> string \<Rightarrow> bool" where
  "timers_wf T cl col \<longleftrightarrow> claims_wf cl col \<and>
     (\<forall>k r. live_claim (cl col k) = Some r \<longrightarrow>
        (\<exists>t. te_Unmarshal T (mc_Payload r) = Inr t \<and> tm_ID t = k \<and> tm_FireAt t = mc_DueAt r))"

definition decoded :: "('s, 'v, 'p) timer_engine \<Rightarrow> mapClaimRecord \<Rightarrow> 'p Timer" where
  "decoded T r = projr (te_Unmarshal T (mc_Payload r))"

lemma live_claim_Some: "live_claim c = Some r \<longleftrightarrow> c = Some r \<and> \<not> mc_Deleted r"
  by (auto simp: live_claim_def split: option.split)

lemma winnable_iff:
  "winnable now c \<longleftrightarrow> (\<exists>r. c = Some r \<and> \<not> mc_Deleted r \<and> mc_DueAt r \<le> now \<and> mc_LeaseUntil r \<le> now)"
  by (auto simp: winnable_def claimable_def live_claim_def After_def split: option.split)

lemma timers_wf_record:
  assumes "timers_wf T cl col" and "cl col k = Some r" and "\<not> mc_Deleted r"
  shows "te_Unmarshal T (mc_Payload r) = Inr (decoded T r)" and "tm_ID (decoded T r) = k"
    and "tm_FireAt (decoded T r) = mc_DueAt r" and "mc_Key r = k" and "timer_of T (cl col k) = Some (decoded T r)"
proof -
  have "live_claim (cl col k) = Some r"
    using assms(2,3) by (simp add: live_claim_Some)
  with assms(1) obtain t where t: "te_Unmarshal T (mc_Payload r) = Inr t" "tm_ID t = k" "tm_FireAt t = mc_DueAt r"
    unfolding timers_wf_def by blast
  then show "te_Unmarshal T (mc_Payload r) = Inr (decoded T r)" "tm_ID (decoded T r) = k"
    "tm_FireAt (decoded T r) = mc_DueAt r" "timer_of T (cl col k) = Some (decoded T r)"
    using assms(2,3) by (simp_all add: decoded_def timer_of_def live_claim_def)
  show "mc_Key r = k"
    using assms(1,2) by (simp add: timers_wf_def claims_wf_def)
qed

lemma timer_of_stamped: "timer_of T (stamped req now c) = timer_of T c"
  by (auto simp: timer_of_def stamped_def live_claim_def winnable_iff split: option.split)

lemma timers_wf_upd:
  assumes "timers_wf T cl col"
    and "\<And>r. v = Some r \<Longrightarrow> mc_Key r = key \<and> (\<not> mc_Deleted r \<longrightarrow>
      (\<exists>t. te_Unmarshal T (mc_Payload r) = Inr t \<and> tm_ID t = key \<and> tm_FireAt t = mc_DueAt r))"
  shows "timers_wf T (claim_upd cl col key v) col"
  using assms unfolding timers_wf_def claims_wf_def claim_upd_def
  by (auto simp: live_claim_Some)

lemma timers_wf_stamped:
  assumes "timers_wf T cl col" and "\<And>k. cl' col k = (if k \<in> K then stamped req now (cl col k) else cl col k)"
  shows "timers_wf T cl' col"
  using assms unfolding timers_wf_def claims_wf_def
  by (fastforce simp: live_claim_Some stamped_def split: if_splits)

section \<open>Batches of due timers\<close>

lemma claims_order_total:
  assumes "\<And>a b. a \<in> A \<Longrightarrow> b \<in> A \<Longrightarrow> mc_Key a = mc_Key b \<Longrightarrow> a = b"
  shows "strict_total_on (\<lambda>a b. compareClaims a b < 0) A"
  unfolding strict_total_on_def compareClaims_less
proof (intro conjI ballI impI)
  fix x y
  assume "x \<in> A" "y \<in> A" "x \<noteq> y"
  then have "mc_Key x \<noteq> mc_Key y"
    using assms by blast
  then show "(mc_DueAt x < mc_DueAt y \<or> mc_DueAt x = mc_DueAt y \<and> mc_Key x < mc_Key y) \<or>
      (mc_DueAt y < mc_DueAt x \<or> mc_DueAt y = mc_DueAt x \<and> mc_Key y < mc_Key x)"
    by (auto simp: neq_iff)
qed auto

lemma claims_sorted_distinct: "sorted_wrt (\<lambda>a b. compareClaims a b < 0) rs \<Longrightarrow> distinct rs"
  by (induction rs) (auto simp: compareClaims_less)

lemma claims_sorted_unique:
  assumes "claims_wf cl col" and "set rs = due_claims_of cl col now" and "set rs' = set rs"
    and "sorted_wrt (\<lambda>a b. compareClaims a b < 0) rs" and "sorted_wrt (\<lambda>a b. compareClaims a b < 0) rs'"
  shows "rs' = rs"
proof (rule sorted_wrt_unique [OF _ assms(5,4)])
  show "strict_total_on (\<lambda>a b. compareClaims a b < 0) (set rs')"
    unfolding assms(2,3) by (rule claims_order_total) (use assms(1) in \<open>auto simp: due_claims_of_def claims_wf_def\<close>)
  show "mset rs' = mset rs"
    using claims_sorted_distinct assms(3-5) by (metis set_eq_iff_mset_eq_distinct)
qed

lemma due_keys_distinct:
  assumes "claims_wf cl col" and "set rs = due_claims_of cl col now"
    and "sorted_wrt (\<lambda>a b. compareClaims a b < 0) rs"
  shows "distinct (map mc_Key rs)"
proof -
  have "inj_on mc_Key (set rs)"
    using assms(1,2) by (fastforce simp: inj_on_def due_claims_of_def claims_wf_def)
  then show ?thesis
    using claims_sorted_distinct [OF assms(3)] by (simp add: distinct_map)
qed

text \<open>Claiming the first items leaves the others due, and no others.\<close>

lemma due_after_claim:
  assumes "claims_wf cl col" and "set rs = due_claims_of cl col now"
    and "sorted_wrt (\<lambda>a b. compareClaims a b < 0) rs" and "cr_Collection req = col"
    and "\<And>k. cl' col k = (if k \<in> mc_Key ` set (take n rs) then stamped req now (cl col k) else cl col k)"
  shows "due_claims_of cl' col now = set (drop n rs)"
proof -
  have dist: "mc_Key ` set (take n rs) \<inter> mc_Key ` set (drop n rs) = {}"
    using due_keys_distinct [OF assms(1-3)] by (metis append_take_drop_id distinct_append list.set_map map_append)
  have lease: "0 < resolvedLease req"
    by (simp add: resolvedLease_def DefaultClaimLease_def)
  have win: "winnable now (cl' col k) \<longleftrightarrow> winnable now (cl col k) \<and> k \<notin> mc_Key ` set (take n rs)" for k
    unfolding assms(5) using lease by (auto simp: winnable_iff stamped_def)
  have "due_claims_of cl' col now =
      {r. \<exists>k. k \<notin> mc_Key ` set (take n rs) \<and> cl col k = Some r \<and> winnable now (Some r)}"
    unfolding due_claims_of_def by (rule Collect_cong) (metis win assms(5))
  also have "\<dots> = {r \<in> set rs. mc_Key r \<notin> mc_Key ` set (take n rs)}"
    using assms(1) unfolding assms(2) due_claims_of_def claims_wf_def by auto
  also have "\<dots> = set (drop n rs)"
    using dist by (subst append_take_drop_id [of n rs, symmetric], unfold set_append) blast
  finally show ?thesis .
qed

lemma due_claim_sel [simp]:
  "dc_Key (due_claim l r) = mc_Key r" "dc_DueAt (due_claim l r) = mc_DueAt r"
  "dc_Payload (due_claim l r) = mc_Payload r" "dc_LeaseUntil (due_claim l r) = l"
  by (simp_all add: due_claim_def)

lemma Due_decode_effect:
  assumes "\<forall>r \<in> set rs. te_Unmarshal T (mc_Payload r) = Inr (decoded T r) \<and> tm_ID (decoded T r) = mc_Key r"
    and "distinct (map mc_Key rs)"
  shows "\<exists>st'. Due_decode T st (map (due_claim l) rs) due = (st', due @ map (decoded T) rs, None) \<and>
    es_claims st' = es_claims st \<and> (\<forall>r \<in> set rs. es_epochs st' (mc_Key r) = Some (mc_DueAt r)) \<and>
    (\<forall>k. k \<notin> mc_Key ` set rs \<longrightarrow> es_epochs st' k = es_epochs st k)"
  using assms
proof (induction rs arbitrary: st due)
  case (Cons r rs)
  let ?st = "rememberEpoch st (mc_Key r) (mc_DueAt r)"
  obtain st' where st': "Due_decode T ?st (map (due_claim l) rs) (due @ [decoded T r]) =
      (st', (due @ [decoded T r]) @ map (decoded T) rs, None)" "es_claims st' = es_claims ?st"
    "\<forall>r \<in> set rs. es_epochs st' (mc_Key r) = Some (mc_DueAt r)"
    "\<forall>k. k \<notin> mc_Key ` set rs \<longrightarrow> es_epochs st' k = es_epochs ?st k"
    using Cons.IH [of ?st "due @ [decoded T r]"] Cons.prems by auto
  have "mc_Key r \<notin> mc_Key ` set rs"
    using Cons.prems(2) by simp
  then show ?case
    using st' Cons.prems(1) by (intro exI [of _ st']) (auto simp: rememberEpoch_def)
qed simp


section \<open>The store implements the contract\<close>

locale engine_timer_store = due_claims "te_rt T" contents inv "te_reify T" "te_box T"
  for T :: "('s, 'v, 'p) timer_engine" and contents inv +
  fixes cfg :: config
  assumes roundtrip: "te_Marshal T t = Inr bs \<Longrightarrow> te_Unmarshal T bs = Inr t"
begin

abbreviation st_inv :: "'s timer_state \<Rightarrow> bool" where
  "st_inv st \<equiv> inv (es_claims st) \<and> timers_wf T (claim (es_claims st)) (cf_collection cfg)"

abbreviation st_pending :: "'s timer_state \<Rightarrow> TimerID \<Rightarrow> 'p Timer option" where
  "st_pending st k \<equiv> timer_of T (claim (es_claims st) (cf_collection cfg) k)"

abbreviation st_offered :: "'s timer_state \<Rightarrow> instant \<Rightarrow> TimerID \<Rightarrow> bool" where
  "st_offered st now k \<equiv> unleased now (claim (es_claims st) (cf_collection cfg) k)"

abbreviation st_taken :: "'s timer_state \<Rightarrow> 'p Timer \<Rightarrow> bool" where
  "st_taken st t \<equiv> es_epochs st (tm_ID t) = Some (tm_FireAt t)"

lemma due_record:
  assumes "timers_wf T cl (cf_collection cfg)" and "r \<in> due_claims_of cl (cf_collection cfg) now"
  shows "te_Unmarshal T (mc_Payload r) = Inr (decoded T r)" and "tm_ID (decoded T r) = mc_Key r"
    and "tm_FireAt (decoded T r) = mc_DueAt r" and "timer_of T (cl (cf_collection cfg) (mc_Key r)) = Some (decoded T r)"
proof -
  obtain k where k: "cl (cf_collection cfg) k = Some r" "\<not> mc_Deleted r"
    using assms(2) by (auto simp: due_claims_of_def winnable_iff)
  note rec = timers_wf_record [OF assms(1) k]
  show "te_Unmarshal T (mc_Payload r) = Inr (decoded T r)" "tm_ID (decoded T r) = mc_Key r"
    "tm_FireAt (decoded T r) = mc_DueAt r" "timer_of T (cl (cf_collection cfg) (mc_Key r)) = Some (decoded T r)"
    using rec by simp_all
qed

text \<open>The claims a query leaves behind: those it handed out are leased.\<close>

definition claimed_from :: "instant \<Rightarrow> 's \<Rightarrow> mapClaimRecord list \<Rightarrow> 's \<Rightarrow> bool" where
  "claimed_from now s rs s' \<longleftrightarrow> (\<forall>c k. claim s' c k =
     (if c = cf_collection cfg \<and> k \<in> mc_Key ` set rs then stamped (due_request cfg now) now (claim s c k)
      else claim s c k))"

text \<open>One round of the loop: the first items of the due claims, in order.\<close>

abbreviation due_list :: "'s timer_state \<Rightarrow> instant \<Rightarrow> mapClaimRecord list \<Rightarrow> bool" where
  "due_list st now rs \<equiv> set rs = due_claims_of (claim (es_claims st)) (cf_collection cfg) now \<and>
     sorted_wrt (\<lambda>a b. compareClaims a b < 0) rs"

abbreviation epochs_from :: "'s timer_state \<Rightarrow> mapClaimRecord list \<Rightarrow> 's timer_state \<Rightarrow> bool" where
  "epochs_from st rs st' \<equiv> (\<forall>r \<in> set rs. es_epochs st' (mc_Key r) = Some (mc_DueAt r)) \<and>
     (\<forall>k. k \<notin> mc_Key ` set rs \<longrightarrow> es_epochs st' k = es_epochs st k)"

lemma claim_batch:
  assumes "st_inv st" and "now \<noteq> 0" and "due_list st now rs"
  obtains s where "ClaimDue (te_rt T) (te_reify T) (te_box T) (te_wall T) (es_claims st) (due_request cfg now) =
      Ok (s, map (due_claim (now + resolvedLease (due_request cfg now))) (take (nat DefaultClaimLimit) rs), None)"
    and "inv s" and "claimed_from now (es_claims st) (take (nat DefaultClaimLimit) rs) s"
proof -
  let ?col = "cf_collection cfg" and ?req = "due_request cfg now" and ?n = "nat DefaultClaimLimit"
  have wf: "claims_wf (claim (es_claims st)) ?col"
    using assms(1) by (simp add: timers_wf_def)
  have req: "cr_Collection ?req = ?col" "resolvedLimit ?req = DefaultClaimLimit" "resolvedNow (te_wall T) ?req = now"
    using assms(2) by (simp_all add: due_request_def resolvedLimit_def resolvedNow_def DefaultClaimLimit_def)
  obtain s rs' where claim1: "ClaimDue (te_rt T) (te_reify T) (te_box T) (te_wall T) (es_claims st) ?req =
      Ok (s, map (due_claim (now + resolvedLease ?req)) (take ?n rs'), None)" "inv s"
    and rs': "sorted_wrt (\<lambda>a b. compareClaims a b < 0) rs'" "set rs' = due_claims_of (claim (es_claims st)) ?col now"
    and cl: "\<And>c k. claim s c k = (if c = ?col \<and> k \<in> mc_Key ` set (take ?n rs')
       then stamped ?req now (claim (es_claims st) c k) else claim (es_claims st) c k)"
    using ClaimDue_effect [of "es_claims st" ?req now "te_wall T"] assms(1) wf req
    by (auto simp: MaxInt_def DefaultClaimLimit_def)
  have "rs' = rs"
    by (rule claims_sorted_unique [OF wf _ _ _ rs'(1)]) (use rs'(2) assms(3) in simp_all)
  with claim1 cl that show ?thesis
    by (simp add: claimed_from_def)
qed

lemma Due_round:
  assumes "st_inv st" and "now \<noteq> 0" and "due_list st now rs" and n: "n = nat DefaultClaimLimit"
  obtains st1 where "Due_loop T cfg now st due =
      (if length rs < n then Some (Ok (st1, due @ map (decoded T) (take n rs), None))
       else Due_loop T cfg now st1 (due @ map (decoded T) (take n rs)))"
    and "st_inv st1" and "due_list st1 now (drop n rs)"
    and "claimed_from now (es_claims st) (take n rs) (es_claims st1)" and "epochs_from st (take n rs) st1"
proof -
  let ?col = "cf_collection cfg" and ?l = "now + resolvedLease (due_request cfg now)"
  obtain s where s: "ClaimDue (te_rt T) (te_reify T) (te_box T) (te_wall T) (es_claims st) (due_request cfg now) =
      Ok (s, map (due_claim ?l) (take n rs), None)" "inv s" "claimed_from now (es_claims st) (take n rs) s"
    using claim_batch [OF assms(1-3)] n by blast
  have wf: "claims_wf (claim (es_claims st)) ?col" "timers_wf T (claim (es_claims st)) ?col"
    using assms(1) by (simp_all add: timers_wf_def)
  have keys: "distinct (map mc_Key (take n rs))"
    using due_keys_distinct [OF wf(1), of rs now] assms(3) by (simp add: take_map [symmetric])
  have "\<forall>r \<in> set (take n rs). te_Unmarshal T (mc_Payload r) = Inr (decoded T r) \<and> tm_ID (decoded T r) = mc_Key r"
    using due_record(1,2) [OF wf(2), of _ now] assms(3) in_set_takeD [of _ n rs] by auto
  from Due_decode_effect [OF this keys, of "st \<lparr> es_claims := s \<rparr>" ?l due]
  obtain st1 where st1: "Due_decode T (st \<lparr> es_claims := s \<rparr>) (map (due_claim ?l) (take n rs)) due =
      (st1, due @ map (decoded T) (take n rs), None)" "es_claims st1 = s" "epochs_from st (take n rs) st1"
    by auto
  have "timers_wf T (claim s) ?col"
    by (rule timers_wf_stamped [OF wf(2), where K = "mc_Key ` set (take n rs)"]) (use s(3) in \<open>simp add: claimed_from_def\<close>)
  moreover have "due_claims_of (claim s) ?col now = set (drop n rs)"
    by (rule due_after_claim [OF wf(1), where req = "due_request cfg now"])
      (use s(3) assms(3) in \<open>simp_all add: claimed_from_def due_request_def\<close>)
  moreover have "Due_loop T cfg now st due =
      (if length rs < n then Some (Ok (st1, due @ map (decoded T) (take n rs), None))
       else Due_loop T cfg now st1 (due @ map (decoded T) (take n rs)))"
  proof -
    have "int (length (take n rs)) < DefaultClaimLimit \<longleftrightarrow> length rs < n"
      by (auto simp: n DefaultClaimLimit_def)
    then show ?thesis
      by (subst Due_loop.simps) (simp add: s(1) st1(1) Let_def del: length_take)
  qed
  ultimately show ?thesis
    using that s(2,3) st1(2,3) assms(3) by (simp add: sorted_wrt_drop)
qed

lemma Due_loop_effect:
  assumes "st_inv st" and "now \<noteq> 0" and "due_list st now rs"
  shows "\<exists>st'. Due_loop T cfg now st due = Some (Ok (st', due @ map (decoded T) rs, None)) \<and> st_inv st' \<and>
    claimed_from now (es_claims st) rs (es_claims st') \<and> epochs_from st rs st'"
  using assms
proof (induction "length rs" arbitrary: rs st due rule: less_induct)
  case less
  define n where "n = nat DefaultClaimLimit"
  obtain st1 where st1: "Due_loop T cfg now st due =
      (if length rs < n then Some (Ok (st1, due @ map (decoded T) (take n rs), None))
       else Due_loop T cfg now st1 (due @ map (decoded T) (take n rs)))"
    "st_inv st1" "due_list st1 now (drop n rs)" "claimed_from now (es_claims st) (take n rs) (es_claims st1)"
    "epochs_from st (take n rs) st1"
    using Due_round [OF less.prems n_def, where due = due] by blast
  show ?case
  proof (cases "length rs < n")
    case True
    then show ?thesis
      using st1 by (intro exI [of _ st1]) simp
  next
    case False
    have len: "length (drop n rs) < length rs"
      using False by (simp add: n_def DefaultClaimLimit_def)
    obtain st' where st': "Due_loop T cfg now st1 (due @ map (decoded T) (take n rs)) =
        Some (Ok (st', (due @ map (decoded T) (take n rs)) @ map (decoded T) (drop n rs), None))" "st_inv st'"
      "claimed_from now (es_claims st1) (drop n rs) (es_claims st')" "epochs_from st1 (drop n rs) st'"
      using less.hyps [OF len st1(2) less.prems(2) st1(3)] by blast
    have parts: "mc_Key ` set rs = mc_Key ` set (take n rs) \<union> mc_Key ` set (drop n rs)"
      by (metis append_take_drop_id image_Un set_append)
    have "distinct (map mc_Key rs)"
      by (rule due_keys_distinct [where now = now]) (use less.prems in \<open>auto simp: timers_wf_def\<close>)
    then have disj: "mc_Key ` set (take n rs) \<inter> mc_Key ` set (drop n rs) = {}"
      by (metis append_take_drop_id distinct_append list.set_map map_append)
    have "claimed_from now (es_claims st) rs (es_claims st')"
      using st'(3) st1(4) disj unfolding claimed_from_def parts by auto
    moreover have "es_epochs st' (mc_Key r) = Some (mc_DueAt r)" if "r \<in> set rs" for r
    proof (cases "r \<in> set (drop n rs)")
      case False
      then have "r \<in> set (take n rs)"
        using that by (metis Un_iff append_take_drop_id set_append)
      then have "es_epochs st1 (mc_Key r) = Some (mc_DueAt r)" "mc_Key r \<notin> mc_Key ` set (drop n rs)"
        using st1(5) disj by auto
      then show ?thesis
        using st'(4) by simp
    qed (use st'(4) in simp)
    moreover have "\<forall>k. k \<notin> mc_Key ` set rs \<longrightarrow> es_epochs st' k = es_epochs st k"
      using st1(5) st'(4) parts by simp
    moreover have "Due_loop T cfg now st due = Some (Ok (st', due @ map (decoded T) rs, None))"
      using False st1(1) st'(1) by (simp flip: map_append)
    ultimately show ?thesis
      using st'(2) by (intro exI [of _ st'] conjI ballI) simp_all
  qed
qed

lemma claimed_timers:
  "claimed_from now s rs s' \<Longrightarrow> timer_of T (claim s' c k) = timer_of T (claim s c k)"
  unfolding claimed_from_def by (simp add: timer_of_stamped)

text \<open>The due claims of a store, in the order of \<open>Due\<close>.\<close>

lemma due_list_exists:
  assumes "st_inv st"
  obtains rs where "due_list st now rs"
proof -
  have "claims_wf (claim (es_claims st)) (cf_collection cfg)"
    using assms by (simp add: timers_wf_def)
  then show ?thesis
    using that assms scanned_claims [of "es_claims st" "cf_collection cfg" now]
      scanned_sorted [of "es_claims st" "cf_collection cfg" now] by blast
qed

lemma due_list_timers:
  assumes "st_inv st" and "due_list st now rs"
  shows "timer_sorted (map (decoded T) rs)"
    and "set (map (decoded T) rs) = {t. \<exists>k. st_pending st k = Some t \<and> tm_FireAt t \<le> now \<and> st_offered st now k}"
proof -
  have wf: "timers_wf T (claim (es_claims st)) (cf_collection cfg)"
    using assms(1) by simp
  have rec: "tm_ID (decoded T r) = mc_Key r \<and> tm_FireAt (decoded T r) = mc_DueAt r" if "r \<in> set rs" for r
    using due_record(2,3) [OF wf, of r now] that assms(2) by simp
  have "sorted_wrt (\<lambda>a b. compareTimers (decoded T a) (decoded T b) < 0) rs"
    by (rule sorted_wrt_mono_rel [of rs "\<lambda>a b. compareClaims a b < 0"])
      (use rec assms(2) in \<open>auto simp: compareTimers_less compareClaims_less\<close>)
  then show "timer_sorted (map (decoded T) rs)"
    by (simp add: sorted_wrt_map)
  show "set (map (decoded T) rs) = {t. \<exists>k. st_pending st k = Some t \<and> tm_FireAt t \<le> now \<and> st_offered st now k}"
  proof (intro equalityI subsetI)
    fix t
    assume "t \<in> set (map (decoded T) rs)"
    then obtain k r where r: "claim (es_claims st) (cf_collection cfg) k = Some r" "winnable now (Some r)" "t = decoded T r"
      using assms(2) by (auto simp: due_claims_of_def)
    then have "\<not> mc_Deleted r" "mc_DueAt r \<le> now" "mc_LeaseUntil r \<le> now"
      by (simp_all add: winnable_iff)
    with timers_wf_record [OF wf r(1)] r show "t \<in> {t. \<exists>k. st_pending st k = Some t \<and> tm_FireAt t \<le> now \<and> st_offered st now k}"
      by (auto simp: unleased_def live_claim_def intro!: exI [of _ k])
  next
    fix t
    assume "t \<in> {t. \<exists>k. st_pending st k = Some t \<and> tm_FireAt t \<le> now \<and> st_offered st now k}"
    then obtain k r where r: "claim (es_claims st) (cf_collection cfg) k = Some r" "\<not> mc_Deleted r" "mc_LeaseUntil r \<le> now"
      "timer_of T (Some r) = Some t" "tm_FireAt t \<le> now"
      by (auto simp: unleased_def live_claim_Some split: option.splits)
    with timers_wf_record [OF wf r(1,2)] have "t = decoded T r" "winnable now (Some r)"
      by (simp_all add: winnable_iff)
    with r(1) assms(2) show "t \<in> set (map (decoded T) rs)"
      by (auto simp: due_claims_of_def)
  qed
qed

lemma engine_Due_spec:
  assumes "st_inv st" and "now \<noteq> 0"
  obtains st' rs where "engine_Due T cfg st now = Some (Ok (st', map (decoded T) rs, None))" and "st_inv st'"
    and "due_list st now rs" and "claimed_from now (es_claims st) rs (es_claims st')"
    and "\<And>t. t \<in> set (map (decoded T) rs) \<Longrightarrow> st_taken st' t"
proof -
  obtain rs where rs: "due_list st now rs"
    using due_list_exists [OF assms(1)] by blast
  obtain st' where st': "Due_loop T cfg now st [] = Some (Ok (st', [] @ map (decoded T) rs, None))" "st_inv st'"
    "claimed_from now (es_claims st) rs (es_claims st')" "epochs_from st rs st'"
    using Due_loop_effect [OF assms rs, of "[]"] by blast
  have "st_taken st' t" if "t \<in> set (map (decoded T) rs)" for t
    using that due_record(2,3) [of "claim (es_claims st)" _ now] assms(1) rs st'(4) by auto
  with that st' rs show ?thesis
    by (simp add: engine_Due_def)
qed

lemma engine_fired:
  assumes "st_inv st" and "st_pending st (tm_ID t) = Some t" and "st_taken st t"
  shows "\<exists>st'. engine_MarkFired T cfg st (tm_ID t) = (st', None) \<and> st_inv st' \<and>
    (\<lambda>k. st_pending st' k) = (st_pending st)(tm_ID t := None) \<and>
    (\<forall>u. tm_ID u \<noteq> tm_ID t \<longrightarrow> st_taken st u \<longrightarrow> st_taken st' u)"
proof -
  let ?col = "cf_collection cfg" and ?k = "tm_ID t"
  obtain s' where s': "ClaimDeleteIfDue (te_rt T) (te_reify T) (te_box T) (es_claims st) ?col ?k (tm_FireAt t) = (s', None)"
    "inv s'" "claim s' = claim_upd (claim (es_claims st)) ?col ?k (finalized ?k (tm_FireAt t) (claim (es_claims st) ?col ?k))"
    using ClaimDeleteIfDue_effect assms(1) by blast
  obtain r where r: "claim (es_claims st) ?col ?k = Some r" "\<not> mc_Deleted r"
    using assms(2) by (auto simp: timer_of_def live_claim_Some split: option.splits)
  have "mc_DueAt r = tm_FireAt t"
    using timers_wf_record(3,5) [where cl = "claim (es_claims st)" and col = ?col and k = ?k, OF _ r] assms(1,2)
    by (metis option.inject)
  then have fin: "finalized ?k (tm_FireAt t) (claim (es_claims st) ?col ?k) =
      Some (zero_claim \<lparr> mc_Key := ?k, mc_Deleted := True \<rparr>)"
    by (simp add: finalized_def live_claim_def r)
  have "timers_wf T (claim s') ?col"
    unfolding s'(3) by (rule timers_wf_upd) (use assms(1) fin in auto)
  moreover have "timer_of T (claim s' ?col k) = ((st_pending st)(?k := None)) k" for k
    by (simp add: s'(3) claim_upd_def fin timer_of_def live_claim_def)
  ultimately show ?thesis
    using s'(1,2) assms(3) by (simp add: engine_MarkFired_def takeEpoch_def fun_eq_iff)
qed

lemma engine_cancelled:
  assumes "st_inv st"
  shows "\<exists>st'. engine_Cancel T cfg st k = (st', None) \<and> st_inv st' \<and> (\<lambda>j. st_pending st' j) = (st_pending st)(k := None)"
proof -
  obtain s' where s': "ClaimDelete (te_rt T) (es_claims st) (cf_collection cfg) k = (s', None)"
    "inv s'" "claim s' = claim_upd (claim (es_claims st)) (cf_collection cfg) k None"
    using ClaimDelete_effect assms by blast
  have "timers_wf T (claim s') (cf_collection cfg)"
    unfolding s'(3) by (rule timers_wf_upd) (use assms in auto)
  moreover have "timer_of T (claim s' (cf_collection cfg) j) = ((st_pending st)(k := None)) j" for j
    by (simp add: s'(3) claim_upd_def timer_of_def live_claim_def)
  ultimately show ?thesis
    using s'(1,2) by (auto simp: engine_Cancel_def takeEpoch_def Let_def fun_eq_iff split: option.split)
qed

lemma engine_scheduled:
  assumes "st_inv st" and "te_Marshal T t = Inr bs"
  shows "\<exists>st'. engine_Schedule T cfg st t = (st', None) \<and> st_inv st' \<and> (\<lambda>k. st_pending st' k) =
    (if st_pending st (tm_ID t) = None then (st_pending st)(tm_ID t \<mapsto> t) else st_pending st)"
proof -
  let ?col = "cf_collection cfg" and ?k = "tm_ID t"
  obtain s' where s': "ClaimInsert (te_rt T) (te_reify T) (te_box T) (es_claims st) ?col ?k (tm_FireAt t) bs = (s', None)"
    "inv s'" "claim s' = claim_upd (claim (es_claims st)) ?col ?k (inserted ?k (tm_FireAt t) bs (claim (es_claims st) ?col ?k))"
    using ClaimInsert_effect assms by blast
  have wf: "timers_wf T (claim (es_claims st)) ?col"
    using assms(1) by simp
  have ins: "inserted ?k (tm_FireAt t) bs c = (if live_claim c = None
      then Some (zero_claim \<lparr> mc_Key := ?k, mc_DueAt := tm_FireAt t, mc_Payload := bs \<rparr>) else c)" for c
    by (auto simp: inserted_def split: option.split)
  have live: "live_claim (claim (es_claims st) ?col ?k) = None \<longleftrightarrow> st_pending st ?k = None"
  proof (cases "live_claim (claim (es_claims st) ?col ?k)")
    case (Some r)
    then show ?thesis
      using timers_wf_record(5) [where cl = "claim (es_claims st)" and col = ?col and k = ?k, OF wf] by (simp add: live_claim_Some)
  qed (simp add: timer_of_def)
  have "timers_wf T (claim s') ?col"
    unfolding s'(3) ins
  proof (rule timers_wf_upd [OF wf])
    fix r
    assume r: "(if live_claim (claim (es_claims st) ?col ?k) = None
        then Some (zero_claim \<lparr> mc_Key := ?k, mc_DueAt := tm_FireAt t, mc_Payload := bs \<rparr>)
        else claim (es_claims st) ?col ?k) = Some r"
    show "mc_Key r = ?k \<and> (\<not> mc_Deleted r \<longrightarrow>
        (\<exists>t. te_Unmarshal T (mc_Payload r) = Inr t \<and> tm_ID t = ?k \<and> tm_FireAt t = mc_DueAt r))"
    proof (cases "live_claim (claim (es_claims st) ?col ?k)")
      case None
      then show ?thesis
        using r roundtrip [OF assms(2)] by (auto simp: zero_claim_def)
    next
      case (Some r')
      then have "claim (es_claims st) ?col ?k = Some r"
        using r by simp
      with Some show ?thesis
        using wf unfolding timers_wf_def claims_wf_def by (simp add: live_claim_Some)
    qed
  qed
  moreover have "timer_of T (claim s' ?col k) =
      (if st_pending st ?k = None then (st_pending st)(?k \<mapsto> t) else st_pending st) k" for k
    using roundtrip [OF assms(2)] unfolding s'(3) ins live
    by (simp add: claim_upd_def timer_of_def live_claim_def zero_claim_def)
  ultimately show ?thesis
    using s'(1,2) assms(2) by (auto simp: engine_Schedule_def fun_eq_iff)
qed

sublocale engine: timer_store "engine_timers T cfg" st_inv "\<lambda>st k. st_pending st k" st_offered st_taken
  "\<lambda>t. \<exists>bs. te_Marshal T t = Inr bs"
proof
  fix st :: "'s timer_state" and t :: "'p Timer" and k now
  assume inv: "st_inv st"
  show "tm_ID t = k" if "st_pending st k = Some t"
    using that timers_wf_record [of T "claim (es_claims st)" "cf_collection cfg" k] inv
    by (auto simp: timer_of_def live_claim_Some split: option.splits sum.splits)
  show "\<exists>st'. ts_Schedule (engine_timers T cfg) st t = (st', None) \<and> st_inv st' \<and> (\<lambda>k. st_pending st' k) =
      (if st_pending st (tm_ID t) = None then (st_pending st)(tm_ID t \<mapsto> t) else st_pending st)"
    if m: "\<exists>bs. te_Marshal T t = Inr bs"
  proof -
    obtain bs where "te_Marshal T t = Inr bs"
      using m by blast
    from engine_scheduled [OF inv this] show ?thesis
      by (simp add: engine_timers_def)
  qed
  show "\<exists>st' ts. ts_Due (engine_timers T cfg) st now = Some (Ok (st', ts, None)) \<and> st_inv st' \<and>
      (\<lambda>k. st_pending st' k) = (\<lambda>k. st_pending st k) \<and> timer_sorted ts \<and>
      set ts = {t. \<exists>k. st_pending st k = Some t \<and> tm_FireAt t \<le> now \<and> st_offered st now k} \<and>
      (\<forall>t \<in> set ts. st_taken st' t)" if "now \<noteq> 0"
  proof (rule engine_Due_spec [OF inv that])
    fix st' rs
    assume due: "engine_Due T cfg st now = Some (Ok (st', map (decoded T) rs, None))" "st_inv st'" "due_list st now rs"
      "claimed_from now (es_claims st) rs (es_claims st')" "\<And>t. t \<in> set (map (decoded T) rs) \<Longrightarrow> st_taken st' t"
    show ?thesis
      using due(1,2,5) due_list_timers [OF inv due(3)] claimed_timers [OF due(4)]
      by (intro exI [of _ st'] exI [of _ "map (decoded T) rs"] conjI ballI) (simp_all add: engine_timers_def)
  qed
  show "\<exists>st'. ts_MarkFired (engine_timers T cfg) st (tm_ID t) = (st', None) \<and> st_inv st' \<and>
      (\<lambda>k. st_pending st' k) = (st_pending st)(tm_ID t := None) \<and> (\<forall>u. tm_ID u \<noteq> tm_ID t \<longrightarrow> st_taken st u \<longrightarrow> st_taken st' u)"
    if "st_pending st (tm_ID t) = Some t" "st_taken st t"
    using engine_fired [OF inv that] by (simp add: engine_timers_def)
  show "\<exists>st'. ts_Cancel (engine_timers T cfg) st k = (st', None) \<and> st_inv st' \<and>
      (\<lambda>k. st_pending st' k) = (st_pending st)(k := None)"
    using engine_cancelled [OF inv] by (simp add: engine_timers_def)
qed

end


section \<open>Two stores over one engine\<close>

text \<open>
  The timers handed out at one time are leased: before the lease ends nobody is handed them again,
  afterwards everybody is, as long as they have not been marked as fired.
\<close>

lemma unleased_after:
  assumes "winnable now c"
  shows "unleased now' (stamped req now c) \<longleftrightarrow> now + resolvedLease req \<le> now'"
  using assms by (auto simp: winnable_iff stamped_def unleased_def live_claim_def)

context engine_timer_store
begin

lemmas poll = engine.tick_fires

lemma engine_Due_claims:
  assumes "st_inv st" and "now \<noteq> 0"
  obtains st' ts where "engine_Due T cfg st now = Some (Ok (st', ts, None))" and "st_inv st'" and "timer_sorted ts"
    and "set ts = {t. \<exists>k. st_pending st k = Some t \<and> tm_FireAt t \<le> now \<and> st_offered st now k}"
    and "\<And>t. t \<in> set ts \<Longrightarrow> winnable now (claim (es_claims st) (cf_collection cfg) (tm_ID t))"
    and "\<And>k. claim (es_claims st') (cf_collection cfg) k = (if k \<in> tm_ID ` set ts
      then stamped (due_request cfg now) now (claim (es_claims st) (cf_collection cfg) k)
      else claim (es_claims st) (cf_collection cfg) k)"
proof (rule engine_Due_spec [OF assms])
  fix st' rs
  assume due: "engine_Due T cfg st now = Some (Ok (st', map (decoded T) rs, None))" "st_inv st'" "due_list st now rs"
    "claimed_from now (es_claims st) rs (es_claims st')"
  have rec: "tm_ID (decoded T r) = mc_Key r" if "r \<in> set rs" for r
    using due_record(2) [of "claim (es_claims st)" r now] that due(3) assms(1) by simp
  then have keys: "tm_ID ` set (map (decoded T) rs) = mc_Key ` set rs"
    by (force simp: image_iff)
  have win: "winnable now (claim (es_claims st) (cf_collection cfg) (tm_ID t))" if mem: "t \<in> set (map (decoded T) rs)" for t
  proof -
    obtain r where r: "r \<in> set rs" "t = decoded T r"
      using mem by auto
    then obtain k where "claim (es_claims st) (cf_collection cfg) k = Some r" "winnable now (Some r)"
      using due(3) by (auto simp: due_claims_of_def)
    moreover from this have "mc_Key r = k"
      using assms(1) by (simp add: timers_wf_def claims_wf_def)
    ultimately show ?thesis
      using rec r by simp
  qed
  show thesis
    by (rule that [OF due(1,2) due_list_timers [OF assms(1) due(3)] win])
      (use due(4) in \<open>simp_all add: claimed_from_def keys del: set_map\<close>)
qed

lemma Due_by_other:
  assumes "st_inv st" and "now \<noteq> 0" and col: "cf_collection cfg' = cf_collection cfg"
  obtains st' ts where "engine_Due T cfg' st now = Some (Ok (st', ts, None))"
    and "set ts = {t. \<exists>k. st_pending st k = Some t \<and> tm_FireAt t \<le> now \<and> st_offered st now k}"
proof (rule engine_timer_store.engine_Due_claims [where cfg = cfg' and st = st, OF engine_timer_store_axioms _ assms(2)])
  show "inv (es_claims st) \<and> timers_wf T (claim (es_claims st)) (cf_collection cfg')"
    using assms(1) by (simp add: col)
next
  fix st' ts
  assume "engine_Due T cfg' st now = Some (Ok (st', ts, None))"
    and "set ts = {t. \<exists>k. timer_of T (claim (es_claims st) (cf_collection cfg') k) = Some t \<and>
      tm_FireAt t \<le> now \<and> unleased now (claim (es_claims st) (cf_collection cfg') k)}"
  then show thesis
    using that by (simp add: col)
qed

lemma Due_twice:
  assumes "st_inv st" and "now \<noteq> 0" and "now' \<noteq> 0"
  obtains st' ts where "engine_Due T cfg st now = Some (Ok (st', ts, None))"
    and "\<And>cfg' ep. cf_collection cfg' = cf_collection cfg \<Longrightarrow>
      \<exists>st'' ts'. engine_Due T cfg' \<lparr> es_claims = es_claims st', es_epochs = ep \<rparr> now' = Some (Ok (st'', ts', None)) \<and>
        (now' < now + resolvedLease (due_request cfg now) \<longrightarrow> set ts \<inter> set ts' = {}) \<and>
        (now + resolvedLease (due_request cfg now) \<le> now' \<longrightarrow> set ts \<subseteq> set ts')"
proof (rule engine_Due_claims [OF assms(1,2)])
  let ?until = "now + resolvedLease (due_request cfg now)"
  fix st' ts
  assume due: "engine_Due T cfg st now = Some (Ok (st', ts, None))" "st_inv st'"
    and ts: "set ts = {t. \<exists>k. st_pending st k = Some t \<and> tm_FireAt t \<le> now \<and> st_offered st now k}"
    and win: "\<And>t. t \<in> set ts \<Longrightarrow> winnable now (claim (es_claims st) (cf_collection cfg) (tm_ID t))"
    and cl: "\<And>k. claim (es_claims st') (cf_collection cfg) k = (if k \<in> tm_ID ` set ts
      then stamped (due_request cfg now) now (claim (es_claims st) (cf_collection cfg) k)
      else claim (es_claims st) (cf_collection cfg) k)"
  have pend: "st_pending st' k = st_pending st k" for k
    by (simp add: cl timer_of_stamped)
  have id: "st_pending st k = Some t \<Longrightarrow> tm_ID t = k" for k t
    by (rule engine.pending_id [OF assms(1)])
  have off: "st_offered st' now' (tm_ID t) \<longleftrightarrow> ?until \<le> now'" if "t \<in> set ts" for t
    using unleased_after [OF win [OF that]] that by (simp add: cl)
  have lease: "0 < resolvedLease (due_request cfg now)"
    by (simp add: resolvedLease_def DefaultClaimLease_def)
  show thesis
  proof (rule that [OF due(1)])
    fix cfg' :: config and ep
    assume col: "cf_collection cfg' = cf_collection cfg"
    let ?st = "\<lparr> es_claims = es_claims st', es_epochs = ep \<rparr>"
    obtain st'' ts' where due': "engine_Due T cfg' ?st now' = Some (Ok (st'', ts', None))"
      and ts': "set ts' = {t. \<exists>k. st_pending st' k = Some t \<and> tm_FireAt t \<le> now' \<and> st_offered st' now' k}"
      using Due_by_other [OF _ assms(3) col, of ?st] due(2) by auto
    have "?until \<le> now'" if "t \<in> set ts" "t \<in> set ts'" for t
      using that off [OF that(1)] ts' id pend by auto
    moreover have "t \<in> set ts'" if late: "?until \<le> now'" and mem: "t \<in> set ts" for t
    proof -
      obtain k where k: "st_pending st k = Some t" "tm_FireAt t \<le> now"
        using mem ts by blast
      then have "st_pending st' (tm_ID t) = Some t" "tm_FireAt t \<le> now'"
        using id pend late lease by auto
      then show ?thesis
        using off [OF mem] late ts' by blast
    qed
    ultimately show "\<exists>st'' ts'. engine_Due T cfg' ?st now' = Some (Ok (st'', ts', None)) \<and>
        (now' < ?until \<longrightarrow> set ts \<inter> set ts' = {}) \<and> (?until \<le> now' \<longrightarrow> set ts \<subseteq> set ts')"
      using due' by (intro exI [of _ st''] exI [of _ ts']) force
  qed
qed

text \<open>
  A dispatch that is still running when its timer is cancelled and scheduled again for another
  time does not remove the new generation.
\<close>

lemma MarkFired_stale:
  assumes "st_inv st" and "st_pending st k = Some t" and "es_epochs st k = Some epoch" and "tm_FireAt t \<noteq> epoch"
  shows "\<exists>st'. engine_MarkFired T cfg st k = (st', None) \<and> (\<lambda>j. st_pending st' j) = (\<lambda>j. st_pending st j)"
proof -
  let ?col = "cf_collection cfg"
  obtain s' where s': "ClaimDeleteIfDue (te_rt T) (te_reify T) (te_box T) (es_claims st) ?col k epoch = (s', None)"
    "inv s'" "claim s' = claim_upd (claim (es_claims st)) ?col k (finalized k epoch (claim (es_claims st) ?col k))"
    using ClaimDeleteIfDue_effect assms(1) by blast
  obtain r where r: "claim (es_claims st) ?col k = Some r" "\<not> mc_Deleted r"
    using assms(2) by (auto simp: timer_of_def live_claim_Some split: option.splits)
  have "mc_DueAt r = tm_FireAt t"
    using timers_wf_record(3,5) [where cl = "claim (es_claims st)" and col = ?col and k = k, OF _ r] assms(1,2)
    by (metis option.inject)
  then have "finalized k epoch (claim (es_claims st) ?col k) = claim (es_claims st) ?col k"
    using assms(4) by (simp add: finalized_def r live_claim_def)
  then show ?thesis
    using s'(1,3) assms(3) by (simp add: engine_MarkFired_def takeEpoch_def claim_upd_def fun_eq_iff)
qed

end

section \<open>On the in-memory engine\<close>

text \<open>
  A timer engine over the in-memory engine: \<open>reify\<close> and \<open>box\<close> convert claim records to stored values
  and back, \<open>enc\<close> and \<open>dec\<close> are the JSON encoding of a timer.
\<close>

definition memory_timer_engine ::
  "instant \<Rightarrow> instant \<Rightarrow> ((string, 'v) kv_map \<Rightarrow> (string, 'v) kv_map) \<Rightarrow>
     ('v \<Rightarrow> mapClaimRecord option) \<Rightarrow> (mapClaimRecord \<Rightarrow> 'v) \<Rightarrow>
     ('p Timer \<Rightarrow> go_error + byte list) \<Rightarrow> (byte list \<Rightarrow> go_error + 'p Timer) \<Rightarrow>
     ((string, 'v) memoryEngine, 'v, 'p) timer_engine" where
  "memory_timer_engine clock wall order reify box enc dec = \<lparr> te_rt = claimer clock order, te_reify = reify, te_box = box,
     te_wall = wall, te_Marshal = enc, te_Unmarshal = dec \<rparr>"

lemma memory_engine_timers:
  assumes "rearranges order" and "\<And>r. reify (box r) = Some r" and "\<And>t bs. enc t = Inr bs \<Longrightarrow> dec bs = Inr t"
  shows "engine_timer_store (memory_timer_engine clock wall order reify box enc dec) getMapLocked maps_inv"
proof (rule engine_timer_store.intro)
  show "due_claims (te_rt (memory_timer_engine clock wall order reify box enc dec)) getMapLocked maps_inv
      (te_reify (memory_timer_engine clock wall order reify box enc dec))
      (te_box (memory_timer_engine clock wall order reify box enc dec))"
    unfolding memory_timer_engine_def by (simp add: memory_due_claims [OF assms(1,2)])
  show "engine_timer_store_axioms (memory_timer_engine clock wall order reify box enc dec)"
    by (rule engine_timer_store_axioms.intro) (simp add: memory_timer_engine_def assms(3))
qed


text \<open>Two timers and an encoding of them.\<close>

definition timer_a :: "string Timer" where
  "timer_a = \<lparr> tm_ID = ''a'', tm_FireAt = 1, tm_Payload = ''first'', tm_Actor = zeroActor \<rparr>"

definition timer_b :: "string Timer" where
  "timer_b = \<lparr> tm_ID = ''b'', tm_FireAt = 2, tm_Payload = ''second'', tm_Actor = zeroActor \<rparr>"

definition sample_Marshal :: "string Timer \<Rightarrow> go_error + byte list" where
  "sample_Marshal t = (if t = timer_a then Inr [1] else if t = timer_b then Inr [2] else Inl (ErrExt ''json''))"

definition sample_Unmarshal :: "byte list \<Rightarrow> go_error + string Timer" where
  "sample_Unmarshal bs = (if bs = [1] then Inr timer_a else if bs = [2] then Inr timer_b else Inl (ErrExt ''json''))"

lemma sample_timer_sel:
  "tm_ID timer_a = ''a''" "tm_ID timer_b = ''b''" "tm_FireAt timer_a = 1" "tm_FireAt timer_b = 2"
  by (simp_all add: timer_a_def timer_b_def)

lemma sample_roundtrip: "sample_Marshal t = Inr bs \<Longrightarrow> sample_Unmarshal bs = Inr t"
  by (auto simp: sample_Marshal_def sample_Unmarshal_def split: if_splits)

definition sample_engine :: "((string, mapClaimRecord) memoryEngine, mapClaimRecord, string) timer_engine" where
  "sample_engine = memory_timer_engine 0 0 (\<lambda>xs. xs) Some (\<lambda>r. r) sample_Marshal sample_Unmarshal"

lemma sample_reify [simp]: "te_reify sample_engine = Some"
  by (simp add: sample_engine_def memory_timer_engine_def)

interpretation sample_timers: engine_timer_store sample_engine getMapLocked maps_inv cfg for cfg
  unfolding sample_engine_def by (rule memory_engine_timers) (simp_all add: rearranges_def sample_roundtrip)

definition sample_config :: config where
  "sample_config = \<lparr> cf_collection = ''timers'', cf_owner = ''s'', cf_lease = 10 \<rparr>"

definition empty_timers :: "(string, mapClaimRecord) memoryEngine timer_state" where
  "empty_timers = \<lparr> es_claims = NewMemoryEngine, es_epochs = Map.empty \<rparr>"

abbreviation engine_pending ::
  "((string, 'v) memoryEngine, 'v, 'p) timer_engine \<Rightarrow> string \<Rightarrow> (string, 'v) memoryEngine timer_state \<Rightarrow> TimerID \<Rightarrow> 'p Timer option" where
  "engine_pending T col st k \<equiv> timer_of T (mem_claim (te_reify T) (es_claims st) col k)"

abbreviation engine_inv ::
  "((string, 'v) memoryEngine, 'v, 'p) timer_engine \<Rightarrow> string \<Rightarrow> (string, 'v) memoryEngine timer_state \<Rightarrow> bool" where
  "engine_inv T col st \<equiv> maps_inv (es_claims st) \<and> timers_wf T (mem_claim (te_reify T) (es_claims st)) col"

lemma empty_timers_inv: "engine_inv sample_engine ''timers'' empty_timers"
  using new_maps_inv by (simp add: empty_timers_def timers_wf_def claims_wf_def claim_at_def live_claim_def reifyClaim_def
      store_get_def getMapLocked_def) (simp add: NewMemoryEngine_def newMemData_def)

text \<open>
  C26. One poll of a scheduler on the engine-backed store: the timers that are due and not leased
  are dispatched one after another in the order of their times and identifiers. Each callback is
  called until it returns nil, fails for good, has been called as often as the options allow or the
  context ends, with a wait between the calls; a timer is gone from the store exactly when the last
  call for it returned nil, every other timer is still there. Only a callback or a back-off that
  panics ends the poll, with that panic. This holds for any number of due timers, in batches of any
  number, and whatever order the map is visited in.
\<close>

theorem engine_tick:
  fixes T :: "((string, 'v) memoryEngine, 'v, 'p) timer_engine"
  assumes "T = memory_timer_engine clock wall order reify box enc dec" and "rearranges order"
    and "\<And>r. reify (box r) = Some r" and "\<And>t bs. enc t = Inr bs \<Longrightarrow> dec bs = Inr t"
    and "sch_store sch = engine_timers T cfg" and "sch_dispatch sch = env_only d" and "1 \<le> so_maxRetries (sch_opts sch)"
    and "engine_inv T (cf_collection cfg) st" and "so_now (sch_opts sch) e = now" and "now \<noteq> 0"
  shows "\<exists>ts. sorted_wrt (\<lambda>a b. tm_FireAt a < tm_FireAt b \<or> tm_FireAt a = tm_FireAt b \<and> tm_ID a < tm_ID b) ts \<and>
    set ts = {t. \<exists>k. engine_pending T (cf_collection cfg) st k = Some t \<and> tm_FireAt t \<le> now \<and>
      unleased now (mem_claim reify (es_claims st) (cf_collection cfg) k)} \<and>
    (\<forall>runs e'. dispatched env (sch_opts sch) d ts e runs e' \<longrightarrow>
      (\<exists>st'. tick env sch (st, e) = Some (Ok ((st', e'), None)) \<and>
        engine_inv T (cf_collection cfg) st' \<and>
        (\<forall>k. engine_pending T (cf_collection cfg) st' k =
           (if \<exists>(t, results) \<in> set runs. tm_ID t = k \<and> results \<noteq> [] \<and> last results = Ok ()
            then None else engine_pending T (cf_collection cfg) st k)))) \<and>
    ((\<nexists>runs e'. dispatched env (sch_opts sch) d ts e runs e') \<longrightarrow> tick env sch (st, e) = Some Panic)"
proof -
  have loc: "engine_timer_store T getMapLocked maps_inv"
    unfolding assms(1) by (rule memory_engine_timers [OF assms(2-4)])
  have reify: "te_reify T = reify"
    by (simp add: assms(1) memory_timer_engine_def)
  note store = engine_timer_store.poll [OF loc]
  show ?thesis
  proof (rule store [OF assms(5,6,8-10), where env = env], goal_cases)
    case (1 ts)
    show ?case
    proof (intro exI [of _ ts] conjI allI impI)
      fix runs e'
      assume "dispatched env (sch_opts sch) d ts e runs e'"
      note fire = fire_all_dispatched [OF assms(7) this]
      have "k \<in> {tm_ID t | t rs. (t, rs) \<in> set runs \<and> acknowledged rs} \<longleftrightarrow>
          (\<exists>(t, results) \<in> set runs. tm_ID t = k \<and> results \<noteq> [] \<and> last results = Ok ())" for k
        by (auto simp: acknowledged_def)
      with 1(3) [OF fire] show "\<exists>st'. tick env sch (st, e) = Some (Ok ((st', e'), None)) \<and>
          engine_inv T (cf_collection cfg) st' \<and> (\<forall>k. engine_pending T (cf_collection cfg) st' k =
            (if \<exists>(t, results) \<in> set runs. tm_ID t = k \<and> results \<noteq> [] \<and> last results = Ok ()
             then None else engine_pending T (cf_collection cfg) st k))"
        by (simp add: fun_eq_iff)
    next
      assume "\<nexists>runs e'. dispatched env (sch_opts sch) d ts e runs e'"
      then show "tick env sch (st, e) = Some Panic"
        by (rule 1(4) [OF fire_all_not_dispatched [OF assms(7)]])
    qed (use 1(1,2) in \<open>simp_all add: compareTimers_less reify\<close>)
  qed
qed

text \<open>
  C27. Stores over one engine fence each other: after one store was handed the due timers, no
  store of the same collection, whatever its owner, is handed any of them while the lease runs,
  and every store is handed all of them again once the lease is over, if they were not marked as
  fired. In both cases the query returns.
\<close>

theorem engine_Due_fenced:
  fixes T :: "((string, 'v) memoryEngine, 'v, 'p) timer_engine"
  assumes "T = memory_timer_engine clock wall order reify box enc dec" and "rearranges order"
    and "\<And>r. reify (box r) = Some r" and "\<And>t bs. enc t = Inr bs \<Longrightarrow> dec bs = Inr t"
    and "engine_inv T (cf_collection cfg) st" and "now \<noteq> 0" and "now' \<noteq> 0"
  shows "\<exists>st' ts. engine_Due T cfg st now = Some (Ok (st', ts, None)) \<and>
    (\<forall>cfg' ep. cf_collection cfg' = cf_collection cfg \<longrightarrow>
      (\<exists>st'' ts'. engine_Due T cfg' \<lparr> es_claims = es_claims st', es_epochs = ep \<rparr> now' = Some (Ok (st'', ts', None)) \<and>
        (now' < now + resolvedLease (due_request cfg now) \<longrightarrow> set ts \<inter> set ts' = {}) \<and>
        (now + resolvedLease (due_request cfg now) \<le> now' \<longrightarrow> set ts \<subseteq> set ts')))"
proof -
  have loc: "engine_timer_store T getMapLocked maps_inv"
    unfolding assms(1) by (rule memory_engine_timers [OF assms(2-4)])
  show ?thesis
  proof (rule engine_timer_store.Due_twice [OF loc assms(5-7)], goal_cases)
    case (1 st' ts)
    show ?case
      by (rule exI [of _ st'], rule exI [of _ ts], rule conjI [OF 1(1)], intro allI impI, rule 1(2))
  qed
qed

text \<open>A callback that fails once for the first timer and rejects the second one.\<close>

definition sample_dispatch :: "string Timer \<Rightarrow> string list \<Rightarrow> string list \<times> unit outcome" where
  "sample_dispatch t e = (e @ [tm_ID t],
     if tm_ID t = ''b'' then Fail (ErrNew Rejection ''no'') else if e = [] then Fail (ErrExt ''busy'') else Ok ())"

definition sample_scheduler :: "((string, mapClaimRecord) memoryEngine timer_state, string list, string) Scheduler" where
  "sample_scheduler = New_Scheduler (\<lambda>_. 5) (engine_timers sample_engine sample_config) (env_only sample_dispatch) []"

definition sample_env :: "string list sched_env" where
  "sample_env = \<lparr> se_Done = (\<lambda>_. None), se_Wait = (\<lambda>_ e. (e, None)), se_Int64N = (\<lambda>_ e. (e, 0)),
     se_Classify = (\<lambda>err. case err of ErrNew f _ \<Rightarrow> f | _ \<Rightarrow> Transient) \<rparr>"

definition scheduled :: "(string, mapClaimRecord) memoryEngine timer_state" where
  "scheduled = fst (engine_Schedule sample_engine sample_config
     (fst (engine_Schedule sample_engine sample_config empty_timers timer_b)) timer_a)"

lemma scheduled_claims:
  "mem_claim Some (es_claims scheduled) ''timers'' =
     [''a'' \<mapsto> zero_claim \<lparr> mc_Key := ''a'', mc_DueAt := 1, mc_Payload := [1] \<rparr>,
      ''b'' \<mapsto> zero_claim \<lparr> mc_Key := ''b'', mc_DueAt := 2, mc_Payload := [2] \<rparr>]"
  by (auto simp: fun_eq_iff claim_at_def scheduled_def engine_Schedule_def sample_engine_def memory_timer_engine_def
      sample_Marshal_def timer_a_def timer_b_def sample_config_def empty_timers_def ClaimInsert_def claimer_def
      MapUpdate_contents insert_fn_def reifyClaim_def store_get_def Let_def case_prod_beta
      NewMemoryEngine_def newMemData_def getMapLocked_def)

lemma scheduled_inv: "engine_inv sample_engine ''timers'' scheduled"
proof -
  obtain st1 where st1: "engine_Schedule sample_engine sample_config empty_timers timer_b = (st1, None)"
      "engine_inv sample_engine ''timers'' st1"
    using sample_timers.engine_scheduled [of empty_timers sample_config timer_b "[2]"] empty_timers_inv
    by (auto simp: sample_config_def sample_engine_def memory_timer_engine_def sample_Marshal_def timer_a_def timer_b_def)
  then show ?thesis
    using sample_timers.engine_scheduled [of st1 sample_config timer_a "[1]"]
    by (auto simp: scheduled_def sample_config_def sample_engine_def memory_timer_engine_def sample_Marshal_def)
qed

lemma scheduled_due:
  "{t. \<exists>k. engine_pending sample_engine ''timers'' scheduled k = Some t \<and> tm_FireAt t \<le> 5 \<and>
      unleased 5 (mem_claim Some (es_claims scheduled) ''timers'' k)} = {timer_a, timer_b}"
proof -
  have "engine_pending sample_engine ''timers'' scheduled = [''a'' \<mapsto> timer_a, ''b'' \<mapsto> timer_b]"
    by (auto simp: scheduled_claims timer_of_def live_claim_def fun_eq_iff sample_engine_def memory_timer_engine_def
        sample_Unmarshal_def zero_claim_def)
  moreover have "unleased 5 (mem_claim Some (es_claims scheduled) ''timers'' k) \<longleftrightarrow> k = ''a'' \<or> k = ''b''" for k
    by (auto simp: scheduled_claims unleased_def live_claim_def zero_claim_def)
  ultimately have "{t. \<exists>k. engine_pending sample_engine ''timers'' scheduled k = Some t \<and> tm_FireAt t \<le> 5 \<and>
      unleased 5 (mem_claim Some (es_claims scheduled) ''timers'' k)} =
    {t. \<exists>k. [''a'' \<mapsto> timer_a, ''b'' \<mapsto> timer_b] k = Some t \<and> tm_FireAt t \<le> 5 \<and> (k = ''a'' \<or> k = ''b'')}"
    by (intro Collect_cong ex_cong1) (metis (no_types, lifting))
  also have "\<dots> = {timer_a, timer_b}"
  proof (intro equalityI subsetI CollectI)
    fix t :: "string Timer"
    assume "t \<in> {timer_a, timer_b}"
    then show "\<exists>k. [''a'' \<mapsto> timer_a, ''b'' \<mapsto> timer_b] k = Some t \<and> tm_FireAt t \<le> 5 \<and> (k = ''a'' \<or> k = ''b'')"
      by (intro exI [of _ "tm_ID t"]) (auto simp: sample_timer_sel)
  qed (auto split: if_splits)
  finally show ?thesis .
qed

lemma sorted_pair:
  assumes "timer_sorted ts" and "set ts = {timer_a, timer_b}"
  shows "ts = [timer_a, timer_b]"
proof (rule sorted_wrt_unique [OF _ assms(1)])
  have "distinct ts"
    using assms(1) by (induction ts) (auto simp: compareTimers_less)
  moreover have "set [timer_a, timer_b] = set ts" "distinct [timer_a, timer_b]"
    using assms(2) by (auto simp: timer_a_def timer_b_def)
  ultimately show "mset ts = mset [timer_a, timer_b]"
    by (metis set_eq_iff_mset_eq_distinct)
  show "strict_total_on (\<lambda>a b. compareTimers a b < 0) (set ts)"
    by (rule timers_total) (use assms(2) in \<open>auto simp: sample_timer_sel\<close>)
qed (simp add: sample_timer_sel compareTimers_less)

lemma sample_dispatched:
  "dispatched sample_env (sch_opts sample_scheduler) sample_dispatch [timer_a, timer_b] []
     [(timer_a, [Fail (ErrExt ''busy''), Ok ()]), (timer_b, [Fail (ErrNew Rejection ''no'')])] [''a'', ''a'', ''b'']"
proof -
  have delay: "backoff_delay sample_env (so_retryDelay (sch_opts sample_scheduler)) 0 [''a''] = ([''a''], Ok (5 * 10 ^ 7))"
    by code_simp
  have call: "sample_dispatch timer_a [] = ([''a''], Fail (ErrExt ''busy''))"
    "sample_dispatch timer_a [''a''] = ([''a'', ''a''], Ok ())"
    "sample_dispatch timer_b [''a'', ''a''] = ([''a'', ''a'', ''b''], Fail (ErrNew Rejection ''no''))"
    by (simp_all add: sample_dispatch_def sample_timer_sel)
  have env: "se_Done sample_env e = None" "se_Wait sample_env n e = (e, None)"
    "se_Classify sample_env (ErrExt x) = Transient" "se_Classify sample_env (ErrNew Rejection x) = Rejection" for e n x
    by (simp_all add: sample_env_def)
  have max: "int 0 + 1 < so_maxRetries (sch_opts sample_scheduler)"
    by (simp add: sample_scheduler_def New_Scheduler_def sched_defaultOptions_def defaultMaxRetries_def)
  have a: "attempts sample_env (sch_opts sample_scheduler) sample_dispatch timer_a 0 [] [Fail (ErrExt ''busy''), Ok ()] [''a'', ''a'']"
    by (rule attempts.retried [of sample_env "[]" sample_dispatch timer_a "[''a'']" "ErrExt ''busy''" 0])
      (use max delay in \<open>auto simp: env call intro: attempts.succeeded\<close>)
  have b: "attempts sample_env (sch_opts sample_scheduler) sample_dispatch timer_b 0 [''a'', ''a'']
      [Fail (ErrNew Rejection ''no'')] [''a'', ''a'', ''b'']"
    by (rule attempts.permanent) (simp_all add: env call)
  show ?thesis
    by (rule dispatched.one [OF a dispatched.one [OF b dispatched.nothing]])
qed

theorem engine_tick_witness:
  "\<exists>st'. tick sample_env sample_scheduler (scheduled, []) = Some (Ok ((st', [''a'', ''a'', ''b'']), None)) \<and>
     engine_pending sample_engine ''timers'' st' ''a'' = None \<and>
     engine_pending sample_engine ''timers'' st' ''b'' = engine_pending sample_engine ''timers'' scheduled ''b''"
proof -
  have sch: "sch_store sample_scheduler = engine_timers sample_engine sample_config"
    "sch_dispatch sample_scheduler = env_only sample_dispatch" "1 \<le> so_maxRetries (sch_opts sample_scheduler)"
    "so_now (sch_opts sample_scheduler) [] = 5"
    by (simp_all add: sample_scheduler_def New_Scheduler_def sched_defaultOptions_def defaultMaxRetries_def)
  have cfg: "cf_collection sample_config = ''timers''"
    by (simp add: sample_config_def)
  obtain ts where ts: "timer_sorted ts" "set ts = {timer_a, timer_b}"
    "\<forall>runs e'. dispatched sample_env (sch_opts sample_scheduler) sample_dispatch ts [] runs e' \<longrightarrow>
      (\<exists>st'. tick sample_env sample_scheduler (scheduled, []) = Some (Ok ((st', e'), None)) \<and>
        engine_inv sample_engine ''timers'' st' \<and>
        (\<forall>k. engine_pending sample_engine ''timers'' st' k =
           (if \<exists>(t, results) \<in> set runs. tm_ID t = k \<and> results \<noteq> [] \<and> last results = Ok ()
            then None else engine_pending sample_engine ''timers'' scheduled k)))"
    using engine_tick [OF sample_engine_def _ _ sample_roundtrip sch(1-3) _ sch(4), of scheduled sample_env] scheduled_inv
    unfolding cfg scheduled_due compareTimers_less by (elim impE exE conjE) (auto simp: rearranges_def)
  from ts(3) [unfolded sorted_pair [OF ts(1,2)], rule_format, OF sample_dispatched]
  obtain st' where st': "tick sample_env sample_scheduler (scheduled, []) = Some (Ok ((st', [''a'', ''a'', ''b'']), None))"
    "\<forall>k. engine_pending sample_engine ''timers'' st' k =
       (if \<exists>(t, results) \<in> set [(timer_a, [Fail (ErrExt ''busy''), Ok ()]), (timer_b, [Fail (ErrNew Rejection ''no'')])].
           tm_ID t = k \<and> results \<noteq> [] \<and> last results = Ok ()
        then None else engine_pending sample_engine ''timers'' scheduled k)"
    by blast
  show ?thesis
    by (intro exI [of _ st'] conjI st'(1)) (simp_all only: st'(2), simp_all add: sample_timer_sel)
qed

theorem engine_Due_fenced_witness:
  "\<exists>st' ts. engine_Due sample_engine sample_config scheduled 5 = Some (Ok (st', ts, None)) \<and>
    (\<exists>st'' ts'. engine_Due sample_engine (sample_config \<lparr> cf_owner := ''other'' \<rparr>)
      \<lparr> es_claims = es_claims st', es_epochs = Map.empty \<rparr> 14 = Some (Ok (st'', ts', None)) \<and> set ts \<inter> set ts' = {})"
proof -
  have "resolvedLease (due_request sample_config 5) = 10"
    by (simp add: resolvedLease_def due_request_def sample_config_def)
  with engine_Due_fenced [OF sample_engine_def _ _ sample_roundtrip, where cfg = sample_config and st = scheduled and now = 5 and now' = 14] scheduled_inv
  obtain st' ts where due: "engine_Due sample_engine sample_config scheduled 5 = Some (Ok (st', ts, None))"
    and other: "\<forall>cfg' ep. cf_collection cfg' = cf_collection sample_config \<longrightarrow>
      (\<exists>st'' ts'. engine_Due sample_engine cfg' \<lparr> es_claims = es_claims st', es_epochs = ep \<rparr> 14 = Some (Ok (st'', ts', None)) \<and>
        (14 < (15 :: instant) \<longrightarrow> set ts \<inter> set ts' = {}) \<and> (15 \<le> (14 :: instant) \<longrightarrow> set ts \<subseteq> set ts'))"
    by (auto simp: rearranges_def sample_config_def)
  from other [rule_format, of "sample_config \<lparr> cf_owner := ''other'' \<rparr>" Map.empty] due show ?thesis
    by fastforce
qed

text \<open>
  A payload that does not decode ends the query: the timers that follow it in the batch are
  leased but not handed out, and after the lease the same happens again. Here \<open>timer_b\<close> is due
  and stays in the store, and no poll is handed it.
\<close>

lemma poison_starves:
  "let T = sample_engine; cfg = sample_config;
       st0 = \<lparr> es_claims = fst (ClaimInsert (te_rt T) (te_reify T) (te_box T)
         (es_claims (fst (engine_Schedule T cfg empty_timers timer_b))) ''timers'' ''a'' 1 [9]), es_epochs = Map.empty \<rparr> in
   case engine_Due T cfg st0 5 of Some (Ok (st1, ts1, err1)) \<Rightarrow>
     ts1 = [] \<and> err1 \<noteq> None \<and>
     (case engine_Due T cfg st1 20 of Some (Ok (st2, ts2, err2)) \<Rightarrow> ts2 = [] \<and> err2 \<noteq> None
      | _ \<Rightarrow> False)
   | _ \<Rightarrow> False"
  by code_simp

end
