(* ===== verification/KvStore.thy ===== *)
theory KvStore
  imports GoSort "HOL-Library.AList" "HOL-Library.Sublist"
begin

text \<open>
  The key-value stores of \<open>src/kv\<close>: the in-memory store with its iterators and batches
  (\<open>mem.go\<close>, \<open>mem_batch.go\<close>), and the interfaces \<open>Store\<close>, \<open>Iterator\<close> and \<open>Batch\<close> (\<open>kv.go\<close>) as a record
  of operations. A key is
  a byte string, a value a list of bytes; copies of slices need no counterpart, since values are
  not shared. The locale \<open>kv_backend\<close> is what the interface documents; the typed store is a client
  of it and the in-memory store an instance.
\<close>

section \<open>The in-memory store: mem.go\<close>

definition kv_ErrNotFound :: go_error where
  "kv_ErrNotFound = ErrNew Rejection ''kv.not_found''"

definition kv_ErrClosed :: go_error where
  "kv_ErrClosed = ErrNew Infrastructure ''kv.closed''"

type_synonym kv_data = "(string \<times> byte list) list"

record MemStore =
  ms_data :: kv_data
  ms_closed :: bool

definition NewMemStore :: MemStore where
  "NewMemStore = \<lparr> ms_data = [], ms_closed = False \<rparr>"

definition ms_checkClosed :: "MemStore \<Rightarrow> go_error option" where
  "ms_checkClosed s = (if ms_closed s then Some kv_ErrClosed else None)"

text \<open>The function run under a lock, on the variables it captures; the locks themselves are not modelled.\<close>

definition runLocked :: "MemStore \<Rightarrow> (kv_data \<Rightarrow> kv_data \<times> 'a) \<Rightarrow> MemStore \<times> 'a outcome" where
  "runLocked s fn =
     (case ms_checkClosed s of
        Some err \<Rightarrow> (s, Fail err)
      | None \<Rightarrow> (let (data, r) = fn (ms_data s) in (s \<lparr> ms_data := data \<rparr>, Ok r)))"

definition withRLock :: "MemStore \<Rightarrow> (kv_data \<Rightarrow> 'a) \<Rightarrow> 'a outcome" where
  "withRLock s fn = snd (runLocked s (\<lambda>data. (data, fn data)))"

definition withLock :: "MemStore \<Rightarrow> (kv_data \<Rightarrow> kv_data \<times> 'a) \<Rightarrow> MemStore \<times> 'a outcome" where
  "withLock s fn = runLocked s fn"

definition ms_Get :: "MemStore \<Rightarrow> string \<Rightarrow> byte list outcome" where
  "ms_Get s key =
     obind (withRLock s (\<lambda>data. map_of data key)) (\<lambda>found.
       case found of None \<Rightarrow> Fail kv_ErrNotFound | Some val \<Rightarrow> Ok val)"

definition ms_Has :: "MemStore \<Rightarrow> string \<Rightarrow> bool outcome" where
  "ms_Has s key = withRLock s (\<lambda>data. map_of data key \<noteq> None)"

definition lock_error :: "MemStore \<times> unit outcome \<Rightarrow> MemStore \<times> go_error option" where
  "lock_error r = (fst r, case snd r of Fail err \<Rightarrow> Some err | _ \<Rightarrow> None)"

definition ms_Set :: "MemStore \<Rightarrow> string \<Rightarrow> byte list \<Rightarrow> MemStore \<times> go_error option" where
  "ms_Set s key val = lock_error (withLock s (\<lambda>data. (AList.update key val data, ())))"

definition ms_Delete :: "MemStore \<Rightarrow> string \<Rightarrow> MemStore \<times> go_error option" where
  "ms_Delete s key = lock_error (withLock s (\<lambda>data. (AList.delete key data, ())))"

definition ms_SetIfAbsent :: "MemStore \<Rightarrow> string \<Rightarrow> byte list \<Rightarrow> MemStore \<times> bool outcome" where
  "ms_SetIfAbsent s key val =
     withLock s (\<lambda>data. if map_of data key \<noteq> None then (data, False) else (AList.update key val data, True))"

definition collectSorted :: "(kv_data \<Rightarrow> kv_data) \<Rightarrow> kv_data \<Rightarrow> string \<Rightarrow> kv_data" where
  "collectSorted order data pre =
     (let pairs = filter (\<lambda>(k, _). pre = [] \<or> prefix pre k) (order data) in
      sort_Slice (\<lambda>a b. bytes_Compare (fst a) (fst b) < 0) pairs)"

record memIterator =
  mi_pairs :: kv_data
  mi_idx :: nat
  mi_err :: "go_error option"
  mi_closed :: bool

definition ms_NewIterator :: "(kv_data \<Rightarrow> kv_data) \<Rightarrow> MemStore \<Rightarrow> string \<Rightarrow> memIterator outcome" where
  "ms_NewIterator order s pre =
     obind (withRLock s (\<lambda>data. collectSorted order data pre)) (\<lambda>pairs.
       Ok \<lparr> mi_pairs = pairs, mi_idx = 0, mi_err = None, mi_closed = False \<rparr>)"

definition ms_Close :: "MemStore \<Rightarrow> MemStore \<times> go_error option" where
  "ms_Close s = (\<lparr> ms_data = [], ms_closed = True \<rparr>, None)"

definition mi_Next :: "memIterator \<Rightarrow> memIterator \<times> bool" where
  "mi_Next it =
     (if mi_closed it then (it, False)
      else let it' = it \<lparr> mi_idx := mi_idx it + 1 \<rparr> in (it', mi_idx it' \<le> length (mi_pairs it')))"

definition mi_Key :: "memIterator \<Rightarrow> string option" where
  "mi_Key it = (if mi_idx it = 0 \<or> mi_idx it > length (mi_pairs it) then None
     else Some (fst (mi_pairs it ! (mi_idx it - 1))))"

definition mi_Value :: "memIterator \<Rightarrow> byte list option" where
  "mi_Value it = (if mi_idx it = 0 \<or> mi_idx it > length (mi_pairs it) then None
     else Some (snd (mi_pairs it ! (mi_idx it - 1))))"

definition mi_Error :: "memIterator \<Rightarrow> go_error option" where
  "mi_Error it = mi_err it"

definition mi_Close :: "memIterator \<Rightarrow> memIterator \<times> go_error option" where
  "mi_Close it = (it \<lparr> mi_closed := True, mi_pairs := [] \<rparr>, None)"

section \<open>Batches: mem\_batch.go\<close>

record batchOp =
  bo_isDelete :: bool
  bo_key :: string
  bo_value :: "byte list"

record memBatch =
  mb_ops :: "batchOp list"
  mb_closed :: bool

definition ms_Batch :: "MemStore \<Rightarrow> memBatch outcome" where
  "ms_Batch s = withRLock s (\<lambda>_. \<lparr> mb_ops = [], mb_closed = False \<rparr>)"

definition mb_Set :: "memBatch \<Rightarrow> string \<Rightarrow> byte list \<Rightarrow> memBatch \<times> go_error option" where
  "mb_Set b key val =
     (if mb_closed b then (b, Some kv_ErrClosed)
      else (b \<lparr> mb_ops := mb_ops b @ [\<lparr> bo_isDelete = False, bo_key = key, bo_value = val \<rparr>] \<rparr>, None))"

definition mb_Delete :: "memBatch \<Rightarrow> string \<Rightarrow> memBatch \<times> go_error option" where
  "mb_Delete b key =
     (if mb_closed b then (b, Some kv_ErrClosed)
      else (b \<lparr> mb_ops := mb_ops b @ [\<lparr> bo_isDelete = True, bo_key = key, bo_value = [] \<rparr>] \<rparr>, None))"

definition mb_Close :: "memBatch \<Rightarrow> memBatch" where
  "mb_Close b = b \<lparr> mb_closed := True, mb_ops := [] \<rparr>"

definition apply_batch_op :: "kv_data \<Rightarrow> batchOp \<Rightarrow> kv_data" where
  "apply_batch_op data op = (if bo_isDelete op then AList.delete (bo_key op) data
     else AList.update (bo_key op) (bo_value op) data)"

definition mb_Commit :: "MemStore \<Rightarrow> memBatch \<Rightarrow> MemStore \<times> memBatch \<times> go_error option" where
  "mb_Commit s b =
     (if mb_closed b then (s, b, Some kv_ErrClosed)
      else case ms_checkClosed s of
        Some err \<Rightarrow> (s, mb_Close b, Some err)
      | None \<Rightarrow> (s \<lparr> ms_data := foldl apply_batch_op (ms_data s) (mb_ops b) \<rparr>, mb_Close b, None))"

section \<open>The interfaces: kv.go\<close>

record ('s, 'i, 'b) kv_Store =
  kv_Get :: "'s \<Rightarrow> string \<Rightarrow> byte list outcome"
  kv_Has :: "'s \<Rightarrow> string \<Rightarrow> bool outcome"
  kv_NewIterator :: "'s \<Rightarrow> string \<Rightarrow> 'i outcome"
  kv_Set :: "'s \<Rightarrow> string \<Rightarrow> byte list \<Rightarrow> 's \<times> go_error option"
  kv_Delete :: "'s \<Rightarrow> string \<Rightarrow> 's \<times> go_error option"
  kv_Batch :: "'s \<Rightarrow> 'b outcome"
  it_Next :: "'i \<Rightarrow> 'i \<times> bool"
  it_Key :: "'i \<Rightarrow> string option"
  it_Value :: "'i \<Rightarrow> byte list option"
  it_Error :: "'i \<Rightarrow> go_error option"
  it_Close :: "'i \<Rightarrow> 'i \<times> go_error option"
  bt_Set :: "'b \<Rightarrow> string \<Rightarrow> byte list \<Rightarrow> 'b \<times> go_error option"
  bt_Delete :: "'b \<Rightarrow> string \<Rightarrow> 'b \<times> go_error option"
  bt_Commit :: "'s \<Rightarrow> 'b \<Rightarrow> 's \<times> 'b \<times> go_error option"

definition mem_kv :: "(kv_data \<Rightarrow> kv_data) \<Rightarrow> (MemStore, memIterator, memBatch) kv_Store" where
  "mem_kv order = \<lparr> kv_Get = ms_Get, kv_Has = ms_Has, kv_NewIterator = ms_NewIterator order, kv_Set = ms_Set,
     kv_Delete = ms_Delete, kv_Batch = ms_Batch, it_Next = mi_Next, it_Key = mi_Key, it_Value = mi_Value,
     it_Error = mi_Error, it_Close = mi_Close, bt_Set = mb_Set, bt_Delete = mb_Delete, bt_Commit = mb_Commit \<rparr>"

text \<open>The iterator yields exactly these pairs and then ends without an error.\<close>

fun iter_yields :: "('s, 'i, 'b) kv_Store \<Rightarrow> 'i \<Rightarrow> kv_data \<Rightarrow> bool" where
  "iter_yields B it [] \<longleftrightarrow> snd (it_Next B it) = False \<and> it_Error B (fst (it_Next B it)) = None"
| "iter_yields B it ((k, v) # ps) \<longleftrightarrow> snd (it_Next B it) = True \<and> it_Key B (fst (it_Next B it)) = Some k \<and>
     it_Value B (fst (it_Next B it)) = Some v \<and> iter_yields B (fst (it_Next B it)) ps"

text \<open>The writes a batch has queued.\<close>

datatype kv_write = Put string "byte list" | Del string

fun apply_write :: "(string \<rightharpoonup> byte list) \<Rightarrow> kv_write \<Rightarrow> (string \<rightharpoonup> byte list)" where
  "apply_write m (Put k v) = m(k \<mapsto> v)"
| "apply_write m (Del k) = m(k := None)"

definition sorted_pairs :: "(string \<rightharpoonup> byte list) \<Rightarrow> string \<Rightarrow> kv_data \<Rightarrow> bool" where
  "sorted_pairs m pre ps \<longleftrightarrow> sorted_wrt (\<lambda>a b. fst a < fst b) ps \<and>
     set ps = {(k, v). m k = Some v \<and> prefix pre k}"

locale kv_backend =
  fixes B :: "('s, 'i, 'b) kv_Store"
    and inv :: "'s \<Rightarrow> bool"
    and table :: "'s \<Rightarrow> string \<rightharpoonup> byte list"
    and queued :: "'b \<Rightarrow> kv_write list option"
  assumes get_spec: "inv s \<Longrightarrow> kv_Get B s key =
      (case table s key of Some v \<Rightarrow> Ok v | None \<Rightarrow> Fail kv_ErrNotFound)"
    and has_spec: "inv s \<Longrightarrow> kv_Has B s key = Ok (table s key \<noteq> None)"
    and set_spec: "inv s \<Longrightarrow> \<exists>s'. kv_Set B s key val = (s', None) \<and> inv s' \<and> table s' = (table s)(key \<mapsto> val)"
    and delete_spec: "inv s \<Longrightarrow> \<exists>s'. kv_Delete B s key = (s', None) \<and> inv s' \<and> table s' = (table s)(key := None)"
    and iterator_spec: "inv s \<Longrightarrow> \<exists>it ps. kv_NewIterator B s pre = Ok it \<and> iter_yields B it ps \<and> sorted_pairs (table s) pre ps"
    and close_spec: "\<exists>it'. it_Close B it = (it', None)"
    and batch_spec: "inv s \<Longrightarrow> \<exists>b. kv_Batch B s = Ok b \<and> queued b = Some []"
    and batch_set: "queued b = Some ws \<Longrightarrow> \<exists>b'. bt_Set B b key val = (b', None) \<and> queued b' = Some (ws @ [Put key val])"
    and batch_delete: "queued b = Some ws \<Longrightarrow> \<exists>b'. bt_Delete B b key = (b', None) \<and> queued b' = Some (ws @ [Del key])"
    and batch_commit: "inv s \<Longrightarrow> queued b = Some ws \<Longrightarrow>
      \<exists>s' b'. bt_Commit B s b = (s', b', None) \<and> inv s' \<and> table s' = foldl apply_write (table s) ws \<and> queued b' = None"

section \<open>The in-memory store implements them\<close>

definition kvmem_inv :: "MemStore \<Rightarrow> bool" where
  "kvmem_inv s \<longleftrightarrow> \<not> ms_closed s \<and> distinct (map fst (ms_data s))"

definition ms_table :: "MemStore \<Rightarrow> string \<rightharpoonup> byte list" where
  "ms_table s = map_of (ms_data s)"

definition op_write :: "batchOp \<Rightarrow> kv_write" where
  "op_write op = (if bo_isDelete op then Del (bo_key op) else Put (bo_key op) (bo_value op))"

definition mb_queued :: "memBatch \<Rightarrow> kv_write list option" where
  "mb_queued b = (if mb_closed b then None else Some (map op_write (mb_ops b)))"

lemmas ms_defs = kvmem_inv_def ms_table_def runLocked_def withRLock_def withLock_def ms_checkClosed_def lock_error_def

lemma map_of_apply_batch_op: "map_of (apply_batch_op data op) = apply_write (map_of data) (op_write op)"
  by (simp add: apply_batch_op_def op_write_def update_conv' delete_conv')

lemma map_of_apply_batch_ops: "map_of (foldl apply_batch_op data ops) = foldl apply_write (map_of data) (map op_write ops)"
  by (induction ops arbitrary: data) (simp_all add: map_of_apply_batch_op)

lemma distinct_apply_batch_op: "distinct (map fst data) \<Longrightarrow> distinct (map fst (apply_batch_op data op))"
  by (simp add: apply_batch_op_def distinct_update distinct_delete)

lemma distinct_apply_batch_ops: "distinct (map fst data) \<Longrightarrow> distinct (map fst (foldl apply_batch_op data ops))"
  by (induction ops arbitrary: data) (simp_all add: distinct_apply_batch_op)

lemma mem_kv_iterator [simp]:
  "it_Next (mem_kv order) = mi_Next" "it_Key (mem_kv order) = mi_Key" "it_Value (mem_kv order) = mi_Value"
  "it_Error (mem_kv order) = mi_Error"
  by (simp_all add: mem_kv_def)

lemma mi_yields:
  assumes "i \<le> length ps"
  shows "iter_yields (mem_kv order) \<lparr> mi_pairs = ps, mi_idx = i, mi_err = None, mi_closed = False \<rparr> (drop i ps)"
  using assms
proof (induction "length ps - i" arbitrary: i)
  case (Suc n)
  then have i: "i < length ps"
    by simp
  obtain k v where kv: "ps ! i = (k, v)"
    by fastforce
  have "drop i ps = (k, v) # drop (Suc i) ps"
    using i by (simp add: Cons_nth_drop_Suc flip: kv)
  moreover have "iter_yields (mem_kv order) \<lparr> mi_pairs = ps, mi_idx = Suc i, mi_err = None, mi_closed = False \<rparr> (drop (Suc i) ps)"
    using Suc i by simp
  ultimately show ?case
    using i by (simp add: mi_Next_def mi_Key_def mi_Value_def kv)
qed (simp add: mi_Next_def mi_Error_def)

lemma collectSorted_pairs:
  assumes "distinct (map fst data)" and "rearranges order"
  shows "sorted_pairs (map_of data) pre (collectSorted order data pre)"
proof -
  let ?ps = "filter (\<lambda>(k, _). pre = [] \<or> prefix pre k) (order data)"
  have perm: "mset (order data) = mset data"
    using assms(2) by (simp add: rearranges_def)
  then have elems: "set (order data) = set data"
    by (metis set_mset_mset)
  have dist: "distinct (map fst (order data))"
    using assms(1) perm by (metis mset_map mset_eq_imp_distinct_iff)
  have tot: "strict_total_on (\<lambda>a b. bytes_Compare (fst a) (fst b) < 0) (set ?ps)"
    unfolding strict_total_on_def bytes_Compare_less
  proof (intro conjI ballI impI)
    fix x y
    assume "x \<in> set ?ps" "y \<in> set ?ps" "x \<noteq> y"
    then have "fst x \<noteq> fst y"
      using dist by (auto simp: distinct_map inj_on_def)
    then show "fst x < fst y \<or> fst y < fst x"
      by (simp add: neq_iff)
  qed auto
  have "distinct ?ps"
    using dist by (simp add: distinct_map)
  from sorted_sort_Slice [OF tot this] have "sorted_wrt (\<lambda>a b. fst a < fst b) (collectSorted order data pre)"
    by (simp add: collectSorted_def)
  moreover have "set (collectSorted order data pre) = {(k, v). map_of data k = Some v \<and> prefix pre k}"
    using assms(1) by (auto simp: collectSorted_def elems)
  ultimately show ?thesis
    by (simp add: sorted_pairs_def)
qed

lemma mem_kv_backend:
  assumes "rearranges order"
  shows "kv_backend (mem_kv order) kvmem_inv ms_table mb_queued"
proof
  fix s :: MemStore and b :: memBatch and key pre val ws
  show "kvmem_inv s \<Longrightarrow> kv_Get (mem_kv order) s key = (case ms_table s key of Some v \<Rightarrow> Ok v | None \<Rightarrow> Fail kv_ErrNotFound)"
    and "kvmem_inv s \<Longrightarrow> kv_Has (mem_kv order) s key = Ok (ms_table s key \<noteq> None)"
    by (simp_all add: mem_kv_def ms_Get_def ms_Has_def ms_defs Let_def)
  show "kvmem_inv s \<Longrightarrow> \<exists>s'. kv_Set (mem_kv order) s key val = (s', None) \<and> kvmem_inv s' \<and> ms_table s' = (ms_table s)(key \<mapsto> val)"
    by (simp add: mem_kv_def ms_Set_def ms_defs update_conv' distinct_update)
  show "kvmem_inv s \<Longrightarrow> \<exists>s'. kv_Delete (mem_kv order) s key = (s', None) \<and> kvmem_inv s' \<and> ms_table s' = (ms_table s)(key := None)"
    by (simp add: mem_kv_def ms_Delete_def ms_defs delete_conv' distinct_delete)
  show "\<exists>it ps. kv_NewIterator (mem_kv order) s pre = Ok it \<and> iter_yields (mem_kv order) it ps \<and> sorted_pairs (ms_table s) pre ps"
    if "kvmem_inv s"
  proof (intro exI conjI)
    let ?ps = "collectSorted order (ms_data s) pre"
    show "kv_NewIterator (mem_kv order) s pre = Ok \<lparr> mi_pairs = ?ps, mi_idx = 0, mi_err = None, mi_closed = False \<rparr>"
      using that by (simp add: mem_kv_def ms_NewIterator_def ms_defs)
    show "iter_yields (mem_kv order) \<lparr> mi_pairs = ?ps, mi_idx = 0, mi_err = None, mi_closed = False \<rparr> ?ps"
      using mi_yields [of 0 ?ps] by simp
    show "sorted_pairs (ms_table s) pre ?ps"
      using that collectSorted_pairs [OF _ assms] by (simp add: ms_defs)
  qed
  show "kvmem_inv s \<Longrightarrow> \<exists>b. kv_Batch (mem_kv order) s = Ok b \<and> mb_queued b = Some []"
    by (simp add: mem_kv_def ms_Batch_def ms_defs mb_queued_def)
  show "mb_queued b = Some ws \<Longrightarrow> \<exists>b'. bt_Set (mem_kv order) b key val = (b', None) \<and> mb_queued b' = Some (ws @ [Put key val])"
    and "mb_queued b = Some ws \<Longrightarrow> \<exists>b'. bt_Delete (mem_kv order) b key = (b', None) \<and> mb_queued b' = Some (ws @ [Del key])"
    by (auto simp: mem_kv_def mb_Set_def mb_Delete_def mb_queued_def op_write_def split: if_splits)
  show "kvmem_inv s \<Longrightarrow> mb_queued b = Some ws \<Longrightarrow> \<exists>s' b'. bt_Commit (mem_kv order) s b = (s', b', None) \<and> kvmem_inv s' \<and>
      ms_table s' = foldl apply_write (ms_table s) ws \<and> mb_queued b' = None"
    by (auto simp: mem_kv_def mb_Commit_def mb_Close_def mb_queued_def ms_defs map_of_apply_batch_ops distinct_apply_batch_ops
        split: if_splits)
qed (simp add: mem_kv_def mi_Close_def)

interpretation mem_kv: kv_backend "mem_kv id" kvmem_inv ms_table mb_queued
  by (rule mem_kv_backend) (simp add: rearranges_def)

end
