(* ===== verification/KvTyped.thy ===== *)
theory KvTyped
  imports KvStore
begin

text \<open>
  The typed store of \<open>src/kv\<close> (\<open>typed_store.go\<close>, \<open>typed_options.go\<close>) over any \<open>Store\<close>: encoded values
  under prefixed keys, scans of the namespace, and its removal. The codec is a third-party package
  and an argument of the operations; that decoding inverts encoding is assumed where it is
  used. The error classification \<open>cls\<close> belongs to the error library. The locale \<open>view_store\<close> is the
  contract of \<open>ViewStore\<close> (\<open>view_store.go\<close>) a cache relies on.
\<close>

section \<open>The store\<close>

record 't value_codec =
  cd_WrapEncode :: "'t \<Rightarrow> go_error + byte list"
  cd_DecodeEnvelopeOrLegacy :: "byte list \<Rightarrow> go_error + 't"
  cd_Encode :: "'t \<Rightarrow> go_error + byte list"
  cd_Decode :: "byte list \<Rightarrow> go_error + 't"

record ('t, 'k) TypedStore =
  ty_codec :: "'t value_codec"
  ty_prefix :: string
  ty_keyFunc :: "'k \<Rightarrow> string"

definition errNilTypedValue :: go_error where
  "errNilTypedValue = ErrNew Rejection ''kv.nil_value''"

definition WithTypedCodec :: "'t value_codec option \<Rightarrow> ('t, 'k) TypedStore \<Rightarrow> ('t, 'k) TypedStore" where
  "WithTypedCodec c s = (case c of Some cd \<Rightarrow> s \<lparr> ty_codec := cd \<rparr> | None \<Rightarrow> s)"

definition WithTypedKeyPrefix :: "string \<Rightarrow> ('t, 'k) TypedStore \<Rightarrow> ('t, 'k) TypedStore" where
  "WithTypedKeyPrefix pre s = s \<lparr> ty_prefix := pre \<rparr>"

definition WithTypedKeyFunc :: "('k \<Rightarrow> string) option \<Rightarrow> ('t, 'k) TypedStore \<Rightarrow> ('t, 'k) TypedStore" where
  "WithTypedKeyFunc fn s = (case fn of Some f \<Rightarrow> s \<lparr> ty_keyFunc := f \<rparr> | None \<Rightarrow> s)"

definition NewTypedStore ::
  "'t value_codec \<Rightarrow> ('k \<Rightarrow> string) \<Rightarrow> (('t, 'k) TypedStore \<Rightarrow> ('t, 'k) TypedStore) list \<Rightarrow> ('t, 'k) TypedStore" where
  "NewTypedStore CBORCodec String opts =
     foldl (\<lambda>s opt. opt s) \<lparr> ty_codec = CBORCodec, ty_prefix = [], ty_keyFunc = String \<rparr> opts"

definition typed_key :: "('t, 'k) TypedStore \<Rightarrow> 'k \<Rightarrow> string" where
  "typed_key T k = (if ty_prefix T \<noteq> [] then ty_prefix T @ ty_keyFunc T k else ty_keyFunc T k)"

abbreviation rewrap :: "(go_error \<Rightarrow> family) \<Rightarrow> string \<Rightarrow> go_error \<Rightarrow> go_error" where
  "rewrap cls code err \<equiv> ErrWrap (cls err) code err"

definition TypedStore_Get ::
  "(go_error \<Rightarrow> family) \<Rightarrow> ('s, 'i, 'b) kv_Store \<Rightarrow> ('t, 'k) TypedStore \<Rightarrow> 's \<Rightarrow> 'k \<Rightarrow> 't outcome" where
  "TypedStore_Get cls B T s k =
     (case kv_Get B s (typed_key T k) of
        Panic \<Rightarrow> Panic
      | Fail err \<Rightarrow> Fail (rewrap cls ''kv.typed_store.get'' err)
      | Ok data \<Rightarrow>
          (case cd_DecodeEnvelopeOrLegacy (ty_codec T) data of
             Inl err \<Rightarrow> Fail (ErrWrap Corruption ''kv.typed_store.decode'' err)
           | Inr val \<Rightarrow> Ok val))"

definition TypedStore_Has ::
  "(go_error \<Rightarrow> family) \<Rightarrow> ('s, 'i, 'b) kv_Store \<Rightarrow> ('t, 'k) TypedStore \<Rightarrow> 's \<Rightarrow> 'k \<Rightarrow> bool outcome" where
  "TypedStore_Has cls B T s k =
     (case kv_Has B s (typed_key T k) of
        Panic \<Rightarrow> Panic
      | Fail err \<Rightarrow> Fail (rewrap cls ''kv.typed_store.has'' err)
      | Ok has \<Rightarrow> Ok has)"

definition TypedStore_Set ::
  "(go_error \<Rightarrow> family) \<Rightarrow> ('s, 'i, 'b) kv_Store \<Rightarrow> ('t, 'k) TypedStore \<Rightarrow> 's \<Rightarrow> 'k \<Rightarrow> 't option \<Rightarrow>
     's \<times> go_error option" where
  "TypedStore_Set cls B T s k val =
     (case val of
        None \<Rightarrow> (s, Some (ErrWrap Rejection ''kv.typed_store.set_nil'' errNilTypedValue))
      | Some v \<Rightarrow>
          (case cd_WrapEncode (ty_codec T) v of
             Inl err \<Rightarrow> (s, Some (ErrWrap Corruption ''kv.typed_store.encode'' err))
           | Inr data \<Rightarrow>
               (case kv_Set B s (typed_key T k) data of
                  (s', Some err) \<Rightarrow> (s', Some (rewrap cls ''kv.typed_store.set'' err))
                | (s', None) \<Rightarrow> (s', None))))"

definition TypedStore_Delete ::
  "(go_error \<Rightarrow> family) \<Rightarrow> ('s, 'i, 'b) kv_Store \<Rightarrow> ('t, 'k) TypedStore \<Rightarrow> 's \<Rightarrow> 'k \<Rightarrow> 's \<times> go_error option" where
  "TypedStore_Delete cls B T s k =
     (case kv_Delete B s (typed_key T k) of
        (s', Some err) \<Rightarrow> (s', Some (rewrap cls ''kv.typed_store.delete'' err))
      | (s', None) \<Rightarrow> (s', None))"

text \<open>The loops over an iterator; an iterator that never ends makes them run forever. A nil slice is empty.\<close>

definition slice_bytes :: "'a list option \<Rightarrow> 'a list" where
  "slice_bytes x = (case x of None \<Rightarrow> [] | Some xs \<Rightarrow> xs)"

partial_function (option) Scan_loop ::
  "(go_error \<Rightarrow> family) \<Rightarrow> ('s, 'i, 'b) kv_Store \<Rightarrow> ('t, 'k) TypedStore \<Rightarrow> 'i \<Rightarrow> 't list \<Rightarrow> 't list outcome option" where
  "Scan_loop cls B T iter results =
     (if snd (it_Next B iter) then
        (case cd_DecodeEnvelopeOrLegacy (ty_codec T) (slice_bytes (it_Value B (fst (it_Next B iter)))) of
           Inl err \<Rightarrow> Some (Fail (ErrWrap Corruption ''kv.typed_store.scan_decode'' err))
         | Inr val \<Rightarrow> Scan_loop cls B T (fst (it_Next B iter)) (results @ [val]))
      else
        (case it_Error B (fst (it_Next B iter)) of
           Some err \<Rightarrow> Some (Fail (rewrap cls ''kv.typed_store.scan_error'' err))
         | None \<Rightarrow> Some (Ok results)))"

declare Scan_loop.simps [code]

definition TypedStore_Scan ::
  "(go_error \<Rightarrow> family) \<Rightarrow> ('s, 'i, 'b) kv_Store \<Rightarrow> ('t, 'k) TypedStore \<Rightarrow> 's \<Rightarrow> string \<Rightarrow> 't list outcome option" where
  "TypedStore_Scan cls B T s pre =
     (let scanPrefix = (if ty_prefix T \<noteq> [] then ty_prefix T @ pre else pre) in
      case kv_NewIterator B s scanPrefix of
        Panic \<Rightarrow> Some Panic
      | Fail err \<Rightarrow> Some (Fail (rewrap cls ''kv.typed_store.scan_iter'' err))
      | Ok iter \<Rightarrow> Scan_loop cls B T iter [])"

partial_function (option) collect_keys ::
  "('s, 'i, 'b) kv_Store \<Rightarrow> 'i \<Rightarrow> string list \<Rightarrow> ('i \<times> string list) option" where
  "collect_keys B iter keys =
     (if snd (it_Next B iter)
      then collect_keys B (fst (it_Next B iter)) (keys @ [slice_bytes (it_Key B (fst (it_Next B iter)))])
      else Some (fst (it_Next B iter), keys))"

declare collect_keys.simps [code]

fun deleteAllOneByOne ::
  "(go_error \<Rightarrow> family) \<Rightarrow> ('s, 'i, 'b) kv_Store \<Rightarrow> 's \<Rightarrow> string list \<Rightarrow> 's \<times> go_error option" where
  "deleteAllOneByOne cls B s [] = (s, None)"
| "deleteAllOneByOne cls B s (k # ks) =
     (case kv_Delete B s k of
        (s', Some err) \<Rightarrow> (s', Some (rewrap cls ''kv.typed_store.delete_one'' err))
      | (s', None) \<Rightarrow> deleteAllOneByOne cls B s' ks)"

fun batch_deletes :: "('s, 'i, 'b) kv_Store \<Rightarrow> 'b \<Rightarrow> string list \<Rightarrow> 'b \<times> go_error option" where
  "batch_deletes B b [] = (b, None)"
| "batch_deletes B b (k # ks) =
     (case bt_Delete B b k of (b', Some err) \<Rightarrow> (b', Some err) | (b', None) \<Rightarrow> batch_deletes B b' ks)"

definition delete_keys ::
  "(go_error \<Rightarrow> family) \<Rightarrow> ('s, 'i, 'b) kv_Store \<Rightarrow> 's \<Rightarrow> string list \<Rightarrow> 's \<times> go_error option" where
  "delete_keys cls B s keys =
     (if keys = [] then (s, None)
      else case kv_Batch B s of
        Ok batch \<Rightarrow>
          (case batch_deletes B batch keys of
             (b, Some err) \<Rightarrow> (s, Some (rewrap cls ''kv.typed_store.delete_all_batch'' err))
           | (b, None) \<Rightarrow>
               (case bt_Commit B s b of
                  (s', _, Some err) \<Rightarrow> (s', Some (rewrap cls ''kv.typed_store.delete_all_commit'' err))
                | (s', _, None) \<Rightarrow> (s', None)))
      | _ \<Rightarrow> deleteAllOneByOne cls B s keys)"

definition TypedStore_DeleteAll ::
  "(go_error \<Rightarrow> family) \<Rightarrow> ('s, 'i, 'b) kv_Store \<Rightarrow> ('t, 'k) TypedStore \<Rightarrow> 's \<Rightarrow> ('s \<times> go_error option) outcome option" where
  "TypedStore_DeleteAll cls B T s =
     (case kv_NewIterator B s (ty_prefix T) of
        Panic \<Rightarrow> Some Panic
      | Fail err \<Rightarrow> Some (Ok (s, Some (rewrap cls ''kv.typed_store.delete_all_iter'' err)))
      | Ok iter0 \<Rightarrow>
          (case collect_keys B iter0 [] of
             None \<Rightarrow> None
           | Some (iter, keys) \<Rightarrow>
               (case it_Error B iter of
                  Some err \<Rightarrow> Some (Ok (s, Some (rewrap cls ''kv.typed_store.delete_all_error'' err)))
                | None \<Rightarrow>
                    (case it_Close B iter of
                       (_, Some err) \<Rightarrow> Some (Ok (s, Some (rewrap cls ''kv.typed_store.delete_all_close'' err)))
                     | (_, None) \<Rightarrow> Some (Ok (delete_keys cls B s keys))))))"

section \<open>The interface of views: view\_store.go\<close>

record ('s, 't, 'k) ViewStore =
  vs_Get :: "'s \<Rightarrow> 'k \<Rightarrow> 't outcome"
  vs_Set :: "'s \<Rightarrow> 'k \<Rightarrow> 't option \<Rightarrow> 's \<times> go_error option"
  vs_Delete :: "'s \<Rightarrow> 'k \<Rightarrow> 's \<times> go_error option"
  vs_Scan :: "'s \<Rightarrow> string \<Rightarrow> 't list outcome option"
  vs_Has :: "('s \<Rightarrow> 'k \<Rightarrow> bool outcome) option"

definition typed_view ::
  "(go_error \<Rightarrow> family) \<Rightarrow> ('s, 'i, 'b) kv_Store \<Rightarrow> ('t, 'k) TypedStore \<Rightarrow> ('s, 't, 'k) ViewStore" where
  "typed_view cls B T = \<lparr> vs_Get = TypedStore_Get cls B T, vs_Set = TypedStore_Set cls B T, vs_Delete = TypedStore_Delete cls B T,
     vs_Scan = TypedStore_Scan cls B T, vs_Has = Some (TypedStore_Has cls B T) \<rparr>"

locale view_store =
  fixes V :: "('s, 't, 'k) ViewStore"
    and vinv :: "'s \<Rightarrow> bool"
    and view :: "'s \<Rightarrow> 'k \<rightharpoonup> 't"
    and storable :: "'t \<Rightarrow> bool"
  assumes view_get: "vinv s \<Longrightarrow> view s k = Some v \<Longrightarrow> vs_Get V s k = Ok v"
    and view_miss: "vinv s \<Longrightarrow> view s k = None \<Longrightarrow> \<exists>err. vs_Get V s k = Fail err \<and> errors_Is err kv_ErrNotFound"
    and view_set: "vinv s \<Longrightarrow> storable v \<Longrightarrow>
      \<exists>s'. vs_Set V s k (Some v) = (s', None) \<and> vinv s' \<and> view s' = (view s)(k \<mapsto> v)"
    and view_reject: "vinv s \<Longrightarrow> (case ov of None \<Rightarrow> True | Some x \<Rightarrow> \<not> storable x) \<Longrightarrow>
      \<exists>err. vs_Set V s k ov = (s, Some err)"
    and view_delete: "vinv s \<Longrightarrow> \<exists>s'. vs_Delete V s k = (s', None) \<and> vinv s' \<and> view s' = (view s)(k := None)"
    and view_has: "vinv s \<Longrightarrow> vs_Has V = Some has \<Longrightarrow> has s k = Ok (view s k \<noteq> None)"

section \<open>Keys and encoded values\<close>

definition decodes :: "('t, 'k) TypedStore \<Rightarrow> byte list \<Rightarrow> 't option" where
  "decodes T data = (case cd_DecodeEnvelopeOrLegacy (ty_codec T) data of Inl _ \<Rightarrow> None | Inr v \<Rightarrow> Some v)"

lemma typed_key_append: "typed_key T k = ty_prefix T @ ty_keyFunc T k"
  by (simp add: typed_key_def)

lemma foldl_Del: "foldl apply_write m (map Del ks) = (\<lambda>k. if k \<in> set ks then None else m k)"
  by (induction ks arbitrary: m) (auto simp: fun_eq_iff)

section \<open>Removal of the namespace\<close>

context kv_backend
begin

lemma collect_keys_yields:
  assumes "iter_yields B it ps"
  shows "\<exists>it'. collect_keys B it keys = Some (it', keys @ map fst ps) \<and> it_Error B it' = None"
  using assms
proof (induction B it ps arbitrary: keys rule: iter_yields.induct)
  case (1 B it)
  then show ?case
    by (subst collect_keys.simps) simp
next
  case (2 B it k v ps)
  then show ?case
    using "2.IH" [of "keys @ [k]"] by (subst collect_keys.simps) (simp add: slice_bytes_def)
qed

lemma batch_deletes_queue:
  assumes "queued b = Some ws"
  shows "\<exists>b'. batch_deletes B b ks = (b', None) \<and> queued b' = Some (ws @ map Del ks)"
  using assms
proof (induction ks arbitrary: b ws)
  case (Cons k ks)
  obtain b1 where b1: "bt_Delete B b k = (b1, None)" "queued b1 = Some (ws @ [Del k])"
    using batch_delete [OF Cons.prems] by blast
  from Cons.IH [OF b1(2)] show ?case
    by (simp add: b1(1))
qed simp

lemma deleteAllOneByOne_effect:
  assumes "inv s"
  shows "\<exists>s'. deleteAllOneByOne cls B s ks = (s', None) \<and> inv s' \<and>
    table s' = (\<lambda>k. if k \<in> set ks then None else table s k)"
  using assms
proof (induction ks arbitrary: s)
  case (Cons k ks)
  obtain s1 where s1: "kv_Delete B s k = (s1, None)" "inv s1" "table s1 = (table s)(k := None)"
    using delete_spec [OF Cons.prems] by blast
  from Cons.IH [OF s1(2)] show ?case
    by (simp add: s1(1)) (metis (no_types, lifting) fun_upd_apply s1(3))
qed simp

lemma delete_keys_effect:
  assumes "inv s"
  shows "\<exists>s'. delete_keys cls B s ks = (s', None) \<and> inv s' \<and> table s' = (\<lambda>k. if k \<in> set ks then None else table s k)"
proof (cases "ks = []")
  case False
  obtain b where b: "kv_Batch B s = Ok b" "queued b = Some []"
    using batch_spec [OF assms] by blast
  obtain b1 where b1: "batch_deletes B b ks = (b1, None)" "queued b1 = Some (map Del ks)"
    using batch_deletes_queue [OF b(2), of ks] by auto
  obtain s' b' where s': "bt_Commit B s b1 = (s', b', None)" "inv s'" "table s' = foldl apply_write (table s) (map Del ks)"
    using batch_commit [OF assms b1(2)] by blast
  then show ?thesis
    using False b(1) b1(1) by (simp add: delete_keys_def foldl_Del)
qed (use assms in \<open>simp add: delete_keys_def\<close>)

lemma DeleteAll_effect:
  assumes "inv s"
  shows "\<exists>s'. TypedStore_DeleteAll cls B T s = Some (Ok (s', None)) \<and> inv s' \<and>
    table s' = (\<lambda>k. if prefix (ty_prefix T) k then None else table s k)"
proof -
  obtain it ps where it: "kv_NewIterator B s (ty_prefix T) = Ok it" "iter_yields B it ps" "sorted_pairs (table s) (ty_prefix T) ps"
    using iterator_spec [OF assms] by blast
  obtain it' where it': "collect_keys B it [] = Some (it', map fst ps)" "it_Error B it' = None"
    using collect_keys_yields [OF it(2), of "[]"] by auto
  obtain it'' where close: "it_Close B it' = (it'', None)"
    using close_spec by blast
  obtain s' where s': "delete_keys cls B s (map fst ps) = (s', None)" "inv s'"
    "table s' = (\<lambda>k. if k \<in> set (map fst ps) then None else table s k)"
    using delete_keys_effect [OF assms] by blast
  have "k \<in> set (map fst ps) \<longleftrightarrow> prefix (ty_prefix T) k \<and> table s k \<noteq> None" for k
    using it(3) by (force simp: sorted_pairs_def)
  then have "table s' = (\<lambda>k. if prefix (ty_prefix T) k then None else table s k)"
    by (auto simp: s'(3) fun_eq_iff)
  then show ?thesis
    using it(1) it' close s'(1,2) by (simp add: TypedStore_DeleteAll_def)
qed

end

section \<open>The typed store as a view\<close>

locale typed_store = kv_backend B inv table queued
  for B :: "('s, 'i, 'b) kv_Store" and inv table queued +
  fixes T :: "('t, 'k) TypedStore" and cls :: "go_error \<Rightarrow> family"
  assumes codec_roundtrip: "cd_WrapEncode (ty_codec T) v = Inr data \<Longrightarrow> cd_DecodeEnvelopeOrLegacy (ty_codec T) data = Inr v"
    and key_inj: "inj (ty_keyFunc T)"
begin

text \<open>Every value in the namespace decodes.\<close>

definition typed_inv :: "'s \<Rightarrow> bool" where
  "typed_inv s \<longleftrightarrow> inv s \<and> (\<forall>k data. table s k = Some data \<longrightarrow> prefix (ty_prefix T) k \<longrightarrow> decodes T data \<noteq> None)"

definition typed_table :: "'s \<Rightarrow> 'k \<rightharpoonup> 't" where
  "typed_table s k = Option.bind (table s (typed_key T k)) (decodes T)"

lemma typed_key_inj: "typed_key T k = typed_key T k' \<longleftrightarrow> k = k'"
  using key_inj by (auto simp: typed_key_append inj_def)

sublocale typed: view_store "typed_view cls B T" typed_inv typed_table "\<lambda>v. \<exists>data. cd_WrapEncode (ty_codec T) v = Inr data"
proof
  fix s k v and ov :: "'t option" and has
  assume inv: "typed_inv s"
  then have inv': "inv s"
    by (simp add: typed_inv_def)
  show "vs_Get (typed_view cls B T) s k = Ok v" if "typed_table s k = Some v"
  proof -
    obtain data where "table s (typed_key T k) = Some data" "decodes T data = Some v"
      using \<open>typed_table s k = Some v\<close> by (auto simp: typed_table_def bind_eq_Some_conv)
    then show ?thesis
      by (auto simp: typed_view_def TypedStore_Get_def get_spec [OF inv'] decodes_def split: sum.splits)
  qed
  have ns: "\<exists>v. decodes T data = Some v" if "table s (typed_key T k) = Some data" for data
    using that inv by (auto simp: typed_inv_def typed_key_append)
  show "\<exists>err. vs_Get (typed_view cls B T) s k = Fail err \<and> errors_Is err kv_ErrNotFound" if "typed_table s k = None"
    using that ns by (auto simp: typed_view_def TypedStore_Get_def get_spec [OF inv'] typed_table_def bind_eq_None_conv
        split: option.splits)
  show "\<exists>s'. vs_Set (typed_view cls B T) s k (Some v) = (s', None) \<and> typed_inv s' \<and> typed_table s' = (typed_table s)(k \<mapsto> v)"
    if enc: "\<exists>data. cd_WrapEncode (ty_codec T) v = Inr data"
  proof -
    obtain data where data: "cd_WrapEncode (ty_codec T) v = Inr data"
      using enc by blast
    obtain s' where s': "kv_Set B s (typed_key T k) data = (s', None)" "inv s'" "table s' = (table s)(typed_key T k \<mapsto> data)"
      using set_spec [OF inv'] by blast
    have dec: "decodes T data = Some v"
      by (simp add: decodes_def codec_roundtrip [OF data])
    have "typed_inv s'"
      using inv s'(2,3) dec by (simp add: typed_inv_def)
    moreover have "typed_table s' = (typed_table s)(k \<mapsto> v)"
      by (auto simp: fun_eq_iff typed_table_def s'(3) typed_key_inj dec)
    ultimately show ?thesis
      using s'(1) data by (simp add: typed_view_def TypedStore_Set_def)
  qed
  show "\<exists>err. vs_Set (typed_view cls B T) s k ov = (s, Some err)"
    if "case ov of None \<Rightarrow> True | Some x \<Rightarrow> \<nexists>data. cd_WrapEncode (ty_codec T) x = Inr data"
    using that by (auto simp: typed_view_def TypedStore_Set_def split: option.splits sum.splits)
  show "\<exists>s'. vs_Delete (typed_view cls B T) s k = (s', None) \<and> typed_inv s' \<and> typed_table s' = (typed_table s)(k := None)"
  proof -
    obtain s' where s': "kv_Delete B s (typed_key T k) = (s', None)" "inv s'" "table s' = (table s)(typed_key T k := None)"
      using delete_spec [OF inv'] by blast
    have "typed_inv s'"
      using inv s'(2,3) by (simp add: typed_inv_def)
    moreover have "typed_table s' = (typed_table s)(k := None)"
      by (auto simp: fun_eq_iff typed_table_def s'(3) typed_key_inj)
    ultimately show ?thesis
      using s'(1) by (simp add: typed_view_def TypedStore_Delete_def)
  qed
  show "has s k = Ok (typed_table s k \<noteq> None)" if "vs_Has (typed_view cls B T) = Some has"
  proof -
    have "typed_table s k \<noteq> None \<longleftrightarrow> table s (typed_key T k) \<noteq> None"
      using ns by (auto simp: typed_table_def bind_eq_Some_conv)
    then show ?thesis
      using that by (auto simp: typed_view_def TypedStore_Has_def has_spec [OF inv'])
  qed
qed

lemmas view_axioms = typed.view_store_axioms

section \<open>Scans\<close>

lemma Scan_loop_yields:
  assumes "iter_yields B it ps" and "\<forall>(k, data) \<in> set ps. decodes T data \<noteq> None"
  shows "Scan_loop cls B T it results = Some (Ok (results @ map (\<lambda>p. the (decodes T (snd p))) ps))"
  using assms
proof (induction B it ps arbitrary: results rule: iter_yields.induct)
  case (1 B it)
  then show ?case
    by (subst Scan_loop.simps) simp
next
  case (2 B it k v ps)
  then obtain x where x: "cd_DecodeEnvelopeOrLegacy (ty_codec T) v = Inr x" "decodes T v = Some x"
    by (auto simp: decodes_def split: sum.splits)
  with 2 show ?case
    by (subst Scan_loop.simps) (simp add: slice_bytes_def)
qed

lemma Scan_effect:
  assumes "typed_inv s"
  obtains ps where "TypedStore_Scan cls B T s pre = Some (Ok (map (\<lambda>p. the (decodes T (snd p))) ps))"
    and "sorted_pairs (table s) (ty_prefix T @ pre) ps"
proof -
  obtain it ps where it: "kv_NewIterator B s (ty_prefix T @ pre) = Ok it" "iter_yields B it ps"
    "sorted_pairs (table s) (ty_prefix T @ pre) ps"
    using iterator_spec assms unfolding typed_inv_def by blast
  have "\<forall>(k, data) \<in> set ps. decodes T data \<noteq> None"
    using it(3) assms by (auto simp: sorted_pairs_def typed_inv_def dest: append_prefixD)
  then have "TypedStore_Scan cls B T s pre = Some (Ok (map (\<lambda>p. the (decodes T (snd p))) ps))"
    using Scan_loop_yields [OF it(2), of "[]"] it(1) by (cases "ty_prefix T = []") (simp_all add: TypedStore_Scan_def)
  with it(3) that show ?thesis
    by blast
qed

end


section \<open>On the in-memory store\<close>

lemma mem_typed_store:
  assumes "rearranges order" and "\<And>v data. cd_WrapEncode (ty_codec T) v = Inr data \<Longrightarrow>
      cd_DecodeEnvelopeOrLegacy (ty_codec T) data = Inr v" and "inj (ty_keyFunc T)"
  shows "typed_store (mem_kv order) kvmem_inv ms_table mb_queued T"
  by (intro typed_store.intro mem_kv_backend typed_store_axioms.intro assms)

text \<open>Values that are bytes already, under string keys.\<close>

definition bytes_codec :: "byte list value_codec" where
  "bytes_codec = \<lparr> cd_WrapEncode = Inr, cd_DecodeEnvelopeOrLegacy = Inr, cd_Encode = Inr, cd_Decode = Inr \<rparr>"

definition raw_store :: "string \<Rightarrow> (byte list, string) TypedStore" where
  "raw_store pre = NewTypedStore bytes_codec (\<lambda>k. k) [WithTypedKeyPrefix pre]"

interpretation raw: typed_store "mem_kv id" kvmem_inv ms_table mb_queued "raw_store pre" cls for pre cls
  by (rule mem_typed_store)
    (auto simp: rearranges_def raw_store_def bytes_codec_def NewTypedStore_def WithTypedKeyPrefix_def)

lemma ms_Get_table: "kvmem_inv s \<Longrightarrow> ms_Get s k = (case ms_table s k of Some v \<Rightarrow> Ok v | None \<Rightarrow> Fail kv_ErrNotFound)"
  using mem_kv.get_spec [of s k] by (simp add: mem_kv_def)

text \<open>
  \<open>DeleteAll\<close> on a typed store over the in-memory store returns, and removes exactly the keys
  that begin with the store's prefix: a read of any other key gives what it gave before.
\<close>

theorem DeleteAll_namespace:
  assumes "rearranges order" and "kvmem_inv s"
  shows "\<exists>s'. TypedStore_DeleteAll cls (mem_kv order) T s = Some (Ok (s', None)) \<and> kvmem_inv s' \<and>
    (\<forall>k. ms_Get s' k = (if prefix (ty_prefix T) k then Fail kv_ErrNotFound else ms_Get s k))"
proof -
  obtain s' where s': "TypedStore_DeleteAll cls (mem_kv order) T s = Some (Ok (s', None))" "kvmem_inv s'"
    "ms_table s' = (\<lambda>k. if prefix (ty_prefix T) k then None else ms_table s k)"
    using kv_backend.DeleteAll_effect [OF mem_kv_backend [OF assms(1)] assms(2)] by blast
  then have "ms_Get s' k = (if prefix (ty_prefix T) k then Fail kv_ErrNotFound else ms_Get s k)" for k
    using assms(2) by (simp add: ms_Get_table)
  with s'(1,2) show ?thesis
    by blast
qed

definition two_namespaces :: MemStore where
  "two_namespaces = \<lparr> ms_data = [(''b:1'', [1]), (''a:1'', [2]), (''a:2'', [3])], ms_closed = False \<rparr>"

theorem DeleteAll_namespace_witness:
  "\<exists>s'. TypedStore_DeleteAll (\<lambda>_. Rejection) (mem_kv rev) (raw_store ''a:'') two_namespaces = Some (Ok (s', None)) \<and>
     ms_Get s' ''a:1'' = Fail kv_ErrNotFound \<and> ms_Get s' ''a:2'' = Fail kv_ErrNotFound \<and> ms_Get s' ''b:1'' = Ok [1]"
proof -
  have "kvmem_inv two_namespaces" "ms_Get two_namespaces ''b:1'' = Ok [1]" "ty_prefix (raw_store ''a:'') = ''a:''"
    by code_simp+
  with DeleteAll_namespace [of rev two_namespaces "\<lambda>_. Rejection" "raw_store ''a:''"] show ?thesis
    by (auto simp: rearranges_def prefix_def)
qed

end
