(* ===== verification/KvCache.thy ===== *)
theory KvCache
  imports KvTyped
begin

text \<open>
  The write-through cache in front of a view store (\<open>src/kv/cache.go\<close>, \<open>view_cache.go\<close>): construction,
  reads and writes, invalidation. The cache library is a third-party package: its operations are the
  record \<open>cache_lib\<close>, an argument, and what the code relies on is \<open>cache_lib_laws\<close>: a hit returns the value
  last set under the key and not invalidated since, while entries may vanish at any time, by
  eviction or expiry. Values are compared by content; the sharing of references that a shallow copy
  leaves is not modelled.
\<close>

section \<open>Construction\<close>

record ('c, 't) cache_lib =
  ot_GetIfPresent :: "'c \<Rightarrow> string \<Rightarrow> 'c \<times> 't option"
  ot_Set :: "'c \<Rightarrow> string \<Rightarrow> 't \<Rightarrow> 'c"
  ot_Invalidate :: "'c \<Rightarrow> string \<Rightarrow> 'c"
  ot_InvalidateAll :: "'c \<Rightarrow> 'c"

definition ErrNilTypedStore :: go_error where
  "ErrNilTypedStore = ErrNew Rejection ''kv.cache.nil_store''"

definition ErrInvalidCacheCap :: go_error where
  "ErrInvalidCacheCap = ErrNew Rejection ''kv.cache.invalid_capacity''"

definition defaultCacheCapacity :: int where
  "defaultCacheCapacity = 1000"

record ('s, 'c, 't, 'k) Cache =
  ca_store :: "('s, 't, 'k) ViewStore"
  ca_cache :: "('c, 't) cache_lib"
  ca_copyFn :: "'t \<Rightarrow> 't outcome"
  ca_String :: "'k \<Rightarrow> string"

record 't cacheConfig =
  cc_capacity :: int
  cc_ttl :: int
  cc_copyFn :: "('t \<Rightarrow> 't outcome) option"

definition WithCacheCapacity :: "int \<Rightarrow> 't cacheConfig \<Rightarrow> 't cacheConfig" where
  "WithCacheCapacity n c = c \<lparr> cc_capacity := n \<rparr>"

definition WithCacheTTL :: "int \<Rightarrow> 't cacheConfig \<Rightarrow> 't cacheConfig" where
  "WithCacheTTL d c = c \<lparr> cc_ttl := d \<rparr>"

text \<open>The closure calls the given function, which panics when it is nil.\<close>

definition WithCacheCopyFunc :: "('t \<Rightarrow> 't) option \<Rightarrow> 't cacheConfig \<Rightarrow> 't cacheConfig" where
  "WithCacheCopyFunc fn c =
     c \<lparr> cc_copyFn := Some (\<lambda>val. case fn of Some f \<Rightarrow> Ok (f val) | None \<Rightarrow> Panic) \<rparr>"

definition shallowCopy :: "'t \<Rightarrow> 't outcome" where
  "shallowCopy val = Ok val"

definition codecCopy :: "'t value_codec \<Rightarrow> 't \<Rightarrow> 't outcome" where
  "codecCopy c val =
     (case cd_Encode c val of
        Inl err \<Rightarrow> Fail (ErrWrap Corruption ''kv.cache.copy_encode'' err)
      | Inr data \<Rightarrow>
          (case cd_Decode c data of
             Inl err \<Rightarrow> Fail (ErrWrap Corruption ''kv.cache.copy_decode'' err)
           | Inr res \<Rightarrow> Ok res))"

text \<open>The construction of the library's cache from its capacity and, if positive, the time to live.\<close>

definition newCache ::
  "(int \<Rightarrow> int option \<Rightarrow> ('c, 't) cache_lib \<times> 'c) \<Rightarrow> ('k \<Rightarrow> string) \<Rightarrow> ('s, 't, 'k) ViewStore \<Rightarrow> ('t \<Rightarrow> 't outcome) \<Rightarrow>
     ('t cacheConfig \<Rightarrow> 't cacheConfig) list \<Rightarrow> (('s, 'c, 't, 'k) Cache \<times> 'c) outcome" where
  "newCache otter_Must String store copyFn opts =
     (let cfg = foldl (\<lambda>c opt. opt c) \<lparr> cc_capacity = defaultCacheCapacity, cc_ttl = 0, cc_copyFn = Some copyFn \<rparr> opts in
      if cc_capacity cfg \<le> 0 then Fail (ErrWrap Rejection ''kv.cache.invalid_capacity'' ErrInvalidCacheCap)
      else case cc_copyFn cfg of
        None \<Rightarrow> Fail (ErrNew Rejection ''kv.cache.nil_copy_func'')
      | Some fn \<Rightarrow>
          (let (lib, c) = otter_Must (cc_capacity cfg) (if 0 < cc_ttl cfg then Some (cc_ttl cfg) else None) in
           Ok (\<lparr> ca_store = store, ca_cache = lib, ca_copyFn = fn, ca_String = String \<rparr>, c)))"

definition NewCache ::
  "(int \<Rightarrow> int option \<Rightarrow> ('c, 't) cache_lib \<times> 'c) \<Rightarrow> ('k \<Rightarrow> string) \<Rightarrow> (go_error \<Rightarrow> family) \<Rightarrow> ('s, 'i, 'b) kv_Store \<Rightarrow>
     ('t, 'k) TypedStore option \<Rightarrow> ('t cacheConfig \<Rightarrow> 't cacheConfig) list \<Rightarrow> (('s, 'c, 't, 'k) Cache \<times> 'c) outcome" where
  "NewCache otter_Must String cls B store opts =
     (case store of
        None \<Rightarrow> Fail ErrNilTypedStore
      | Some T \<Rightarrow> newCache otter_Must String (typed_view cls B T) (codecCopy (ty_codec T)) opts)"

definition NewCacheForViewStore ::
  "(int \<Rightarrow> int option \<Rightarrow> ('c, 't) cache_lib \<times> 'c) \<Rightarrow> ('k \<Rightarrow> string) \<Rightarrow> ('s, 't, 'k) ViewStore option \<Rightarrow>
     ('t cacheConfig \<Rightarrow> 't cacheConfig) list \<Rightarrow> (('s, 'c, 't, 'k) Cache \<times> 'c) outcome" where
  "NewCacheForViewStore otter_Must String store opts =
     (case store of
        None \<Rightarrow> Fail ErrNilTypedStore
      | Some V \<Rightarrow> newCache otter_Must String V shallowCopy opts)"

section \<open>Operations\<close>

record ('s, 'c) cache_state =
  cs_store :: 's
  cs_cache :: 'c

definition Cache_Get ::
  "('s, 'c, 't, 'k) Cache \<Rightarrow> ('s, 'c) cache_state \<Rightarrow> 'k \<Rightarrow> ('s, 'c) cache_state \<times> 't outcome" where
  "Cache_Get C st k =
     (let key = ca_String C k; (c, present) = ot_GetIfPresent (ca_cache C) (cs_cache st) key;
          st1 = st \<lparr> cs_cache := c \<rparr> in
      case present of
        Some val \<Rightarrow> (st1, ca_copyFn C val)
      | None \<Rightarrow>
          (case vs_Get (ca_store C) (cs_store st1) k of
             Ok val \<Rightarrow>
               (case ca_copyFn C val of
                  Ok cached \<Rightarrow> (st1 \<lparr> cs_cache := ot_Set (ca_cache C) (cs_cache st1) key cached \<rparr>, Ok val)
                | r \<Rightarrow> (st1, r))
           | r \<Rightarrow> (st1, r)))"

definition store_Has :: "('s, 't, 'k) ViewStore \<Rightarrow> 's \<Rightarrow> 'k \<Rightarrow> bool outcome" where
  "store_Has V s k =
     (case vs_Has V of
        Some has \<Rightarrow> has s k
      | None \<Rightarrow>
          (case vs_Get V s k of
             Ok _ \<Rightarrow> Ok True
           | Fail err \<Rightarrow> if errors_Is err kv_ErrNotFound then Ok False else Fail err
           | Panic \<Rightarrow> Panic))"

definition Cache_Has ::
  "('s, 'c, 't, 'k) Cache \<Rightarrow> ('s, 'c) cache_state \<Rightarrow> 'k \<Rightarrow> ('s, 'c) cache_state \<times> bool outcome" where
  "Cache_Has C st k =
     (let (c, present) = ot_GetIfPresent (ca_cache C) (cs_cache st) (ca_String C k); st1 = st \<lparr> cs_cache := c \<rparr> in
      if present \<noteq> None then (st1, Ok True) else (st1, store_Has (ca_store C) (cs_store st1) k))"

text \<open>A nil value that the store accepts makes the copy dereference nil; the typed store rejects it.\<close>

definition Cache_Set ::
  "('s, 'c, 't, 'k) Cache \<Rightarrow> ('s, 'c) cache_state \<Rightarrow> 'k \<Rightarrow> 't option \<Rightarrow> ('s, 'c) cache_state \<times> unit outcome" where
  "Cache_Set C st k val =
     (case vs_Set (ca_store C) (cs_store st) k val of
        (s, Some err) \<Rightarrow> (st \<lparr> cs_store := s \<rparr>, Fail err)
      | (s, None) \<Rightarrow>
          (case val of
             None \<Rightarrow> (st \<lparr> cs_store := s \<rparr>, Panic)
           | Some v \<Rightarrow>
               (case ca_copyFn C v of
                  Ok cached \<Rightarrow> (\<lparr> cs_store = s, cs_cache = ot_Set (ca_cache C) (cs_cache st) (ca_String C k) cached \<rparr>, Ok ())
                | Fail err \<Rightarrow>
                    (\<lparr> cs_store = s, cs_cache = ot_Invalidate (ca_cache C) (cs_cache st) (ca_String C k) \<rparr>, Fail err)
                | Panic \<Rightarrow> (st \<lparr> cs_store := s \<rparr>, Panic))))"

definition Cache_Delete ::
  "('s, 'c, 't, 'k) Cache \<Rightarrow> ('s, 'c) cache_state \<Rightarrow> 'k \<Rightarrow> ('s, 'c) cache_state \<times> go_error option" where
  "Cache_Delete C st k =
     (case vs_Delete (ca_store C) (cs_store st) k of
        (s, Some err) \<Rightarrow> (st \<lparr> cs_store := s \<rparr>, Some err)
      | (s, None) \<Rightarrow> (\<lparr> cs_store = s, cs_cache = ot_Invalidate (ca_cache C) (cs_cache st) (ca_String C k) \<rparr>, None))"

definition Cache_Scan ::
  "('s, 'c, 't, 'k) Cache \<Rightarrow> ('s, 'c) cache_state \<Rightarrow> string \<Rightarrow> 't list outcome option" where
  "Cache_Scan C st pre = vs_Scan (ca_store C) (cs_store st) pre"

definition Cache_Invalidate :: "('s, 'c, 't, 'k) Cache \<Rightarrow> ('s, 'c) cache_state \<Rightarrow> 'k \<Rightarrow> ('s, 'c) cache_state" where
  "Cache_Invalidate C st k = st \<lparr> cs_cache := ot_Invalidate (ca_cache C) (cs_cache st) (ca_String C k) \<rparr>"

definition Cache_InvalidateAll :: "('s, 'c, 't, 'k) Cache \<Rightarrow> ('s, 'c) cache_state \<Rightarrow> ('s, 'c) cache_state" where
  "Cache_InvalidateAll C st = st \<lparr> cs_cache := ot_InvalidateAll (ca_cache C) (cs_cache st) \<rparr>"

section \<open>What the code relies on\<close>

definition cache_lib_laws :: "('c, 't) cache_lib \<Rightarrow> ('c \<Rightarrow> string \<rightharpoonup> 't) \<Rightarrow> bool" where
  "cache_lib_laws lib content \<longleftrightarrow>
     (\<forall>c k. content (fst (ot_GetIfPresent lib c k)) \<subseteq>\<^sub>m content c) \<and>
     (\<forall>c k v. snd (ot_GetIfPresent lib c k) = Some v \<longrightarrow> content c k = Some v) \<and>
     (\<forall>c k v. content (ot_Set lib c k v) \<subseteq>\<^sub>m (content c)(k \<mapsto> v)) \<and>
     (\<forall>c k. content (ot_Invalidate lib c k) \<subseteq>\<^sub>m (content c)(k := None)) \<and>
     (\<forall>c. content (ot_InvalidateAll lib c) = Map.empty)"

section \<open>Transparency\<close>

datatype ('k, 't) view_op =
  OpGet 'k | OpHas 'k | OpSet 'k "'t option" | OpDelete 'k | OpScan string | OpInvalidate 'k | OpInvalidateAll

datatype 't view_result =
  ResGet "'t outcome" | ResHas "bool outcome" | ResSet "unit outcome" | ResDelete "go_error option" |
  ResScan "'t list outcome option" | ResNone

fun cache_op :: "('s, 'c, 't, 'k) Cache \<Rightarrow> ('s, 'c) cache_state \<Rightarrow> ('k, 't) view_op \<Rightarrow>
    ('s, 'c) cache_state \<times> 't view_result" where
  "cache_op C st (OpGet k) = (let (st', r) = Cache_Get C st k in (st', ResGet r))"
| "cache_op C st (OpHas k) = (let (st', r) = Cache_Has C st k in (st', ResHas r))"
| "cache_op C st (OpSet k v) = (let (st', r) = Cache_Set C st k v in (st', ResSet r))"
| "cache_op C st (OpDelete k) = (let (st', r) = Cache_Delete C st k in (st', ResDelete r))"
| "cache_op C st (OpScan pre) = (st, ResScan (Cache_Scan C st pre))"
| "cache_op C st (OpInvalidate k) = (Cache_Invalidate C st k, ResNone)"
| "cache_op C st OpInvalidateAll = (Cache_InvalidateAll C st, ResNone)"

text \<open>The same calls on the store without a cache.\<close>

fun direct_op :: "('s, 't, 'k) ViewStore \<Rightarrow> 's \<Rightarrow> ('k, 't) view_op \<Rightarrow> 's \<times> 't view_result" where
  "direct_op V s (OpGet k) = (s, ResGet (vs_Get V s k))"
| "direct_op V s (OpHas k) = (s, ResHas (store_Has V s k))"
| "direct_op V s (OpSet k v) = (let (s', err) = vs_Set V s k v in
     (s', ResSet (case err of None \<Rightarrow> Ok () | Some e \<Rightarrow> Fail e)))"
| "direct_op V s (OpDelete k) = (let (s', err) = vs_Delete V s k in (s', ResDelete err))"
| "direct_op V s (OpScan pre) = (s, ResScan (vs_Scan V s pre))"
| "direct_op V s (OpInvalidate k) = (s, ResNone)"
| "direct_op V s OpInvalidateAll = (s, ResNone)"

fun cache_run :: "('s, 'c, 't, 'k) Cache \<Rightarrow> ('s, 'c) cache_state \<Rightarrow> ('k, 't) view_op list \<Rightarrow>
    ('s, 'c) cache_state \<times> 't view_result list" where
  "cache_run C st [] = (st, [])"
| "cache_run C st (p # ps) = (let (st1, r) = cache_op C st p; (st2, rs) = cache_run C st1 ps in (st2, r # rs))"

fun direct_run :: "('s, 't, 'k) ViewStore \<Rightarrow> 's \<Rightarrow> ('k, 't) view_op list \<Rightarrow> 's \<times> 't view_result list" where
  "direct_run V s [] = (s, [])"
| "direct_run V s (p # ps) = (let (s1, r) = direct_op V s p; (s2, rs) = direct_run V s1 ps in (s2, r # rs))"

definition cache_ok :: "('s, 'c, 't, 'k) Cache \<Rightarrow> ('c \<Rightarrow> string \<rightharpoonup> 't) \<Rightarrow> bool" where
  "cache_ok C content \<longleftrightarrow> cache_lib_laws (ca_cache C) content \<and> inj (ca_String C) \<and> (\<forall>v. ca_copyFn C v = Ok v)"

lemma lookup_entry:
  assumes "cache_ok C content" and "ot_GetIfPresent (ca_cache C) c k = (c', r)"
  shows "content c' \<subseteq>\<^sub>m content c" and "r = Some v \<Longrightarrow> content c k = Some v"
  using assms unfolding cache_ok_def cache_lib_laws_def by (metis fst_conv, metis snd_conv)

lemma map_le_SomeD: "m \<subseteq>\<^sub>m m' \<Longrightarrow> m x = Some y \<Longrightarrow> m' x = Some y"
  unfolding map_le_def by (metis domI)

context view_store
begin

text \<open>Every entry of the cache is the value of the store.\<close>

definition agrees :: "('s, 'c, 't, 'k) Cache \<Rightarrow> ('c \<Rightarrow> string \<rightharpoonup> 't) \<Rightarrow> ('s, 'c) cache_state \<Rightarrow> bool" where
  "agrees C content st \<longleftrightarrow> vinv (cs_store st) \<and>
     (\<forall>k v. content (cs_cache st) (ca_String C k) = Some v \<longrightarrow> view (cs_store st) k = Some v)"

text \<open>A call on the cache gives what the call on the store gives, and keeps the agreement.\<close>

definition matches ::
  "('s, 'c, 't, 'k) Cache \<Rightarrow> ('c \<Rightarrow> string \<rightharpoonup> 't) \<Rightarrow> ('s, 'c) cache_state \<times> 'r \<Rightarrow> 's \<times> 'r \<Rightarrow> bool" where
  "matches C content x y \<longleftrightarrow> agrees C content (fst x) \<and> cs_store (fst x) = fst y \<and> snd x = snd y"

lemma agrees_shrink:
  assumes "agrees C content st" and "content c \<subseteq>\<^sub>m content (cs_cache st)"
  shows "agrees C content (st \<lparr> cs_cache := c \<rparr>)"
  using assms(1) map_le_SomeD [OF assms(2)] by (simp add: agrees_def)

text \<open>An update of one entry, together with the update of the store.\<close>

lemma agrees_update:
  assumes "inj (ca_String C)" and "agrees C content st" and "vinv s"
    and "content c \<subseteq>\<^sub>m (content (cs_cache st))(ca_String C k := view s k)"
    and "\<And>k'. k' \<noteq> k \<Longrightarrow> view s k' = view (cs_store st) k'"
  shows "agrees C content \<lparr> cs_store = s, cs_cache = c \<rparr>"
  unfolding agrees_def cache_state.simps
proof (intro conjI allI impI)
  fix k' v
  assume "content c (ca_String C k') = Some v"
  from map_le_SomeD [OF assms(4) this] show "view s k' = Some v"
    using assms(1,2,5) by (cases "k' = k") (auto simp: agrees_def inj_eq)
qed (rule assms(3))

lemma agrees_set:
  assumes "cache_ok C content" and "agrees C content st" and "view s k = Some v" and "vinv s"
    and "\<And>k'. k' \<noteq> k \<Longrightarrow> view s k' = view (cs_store st) k'"
  shows "agrees C content \<lparr> cs_store = s, cs_cache = ot_Set (ca_cache C) (cs_cache st) (ca_String C k) v \<rparr>"
  by (rule agrees_update [OF _ assms(2,4) _ assms(5)]) (use assms(1,3) in \<open>simp_all add: cache_ok_def cache_lib_laws_def\<close>)

lemma agrees_invalidate:
  assumes "cache_ok C content" and "agrees C content st" and "vinv s"
    and "\<And>k'. k' \<noteq> k \<Longrightarrow> view s k' = view (cs_store st) k'"
  shows "agrees C content \<lparr> cs_store = s, cs_cache = ot_Invalidate (ca_cache C) (cs_cache st) (ca_String C k) \<rparr>"
proof (rule agrees_update [OF _ assms(2,3) _ assms(4)])
  have "content (ot_Invalidate (ca_cache C) (cs_cache st) (ca_String C k)) \<subseteq>\<^sub>m
      (content (cs_cache st))(ca_String C k := None)"
    using assms(1) by (simp add: cache_ok_def cache_lib_laws_def)
  then show "content (ot_Invalidate (ca_cache C) (cs_cache st) (ca_String C k)) \<subseteq>\<^sub>m
      (content (cs_cache st))(ca_String C k := view s k)"
    unfolding map_le_def by (auto simp: dom_def)
qed (use assms(1) in \<open>simp add: cache_ok_def\<close>)

lemma store_Has_view:
  assumes "vinv s"
  shows "store_Has V s k = Ok (view s k \<noteq> None)"
proof (cases "vs_Has V")
  case None
  then show ?thesis
    using view_get [OF assms, of k] view_miss [OF assms, of k] by (cases "view s k") (auto simp: store_Has_def)
qed (use view_has [OF assms] in \<open>simp add: store_Has_def\<close>)

lemma Get_matches:
  assumes ok: "cache_ok C content" and V: "ca_store C = V" and ag: "agrees C content st"
  shows "matches C content (Cache_Get C st k) (cs_store st, vs_Get V (cs_store st) k)"
proof -
  have vinv: "vinv (cs_store st)" and copy: "\<And>v. ca_copyFn C v = Ok v"
    using ag ok by (simp_all add: agrees_def cache_ok_def)
  obtain c r where get: "ot_GetIfPresent (ca_cache C) (cs_cache st) (ca_String C k) = (c, r)"
    by fastforce
  note ag1 = agrees_shrink [OF ag lookup_entry(1) [OF ok get]]
  show ?thesis
  proof (cases r)
    case (Some v)
    then have "view (cs_store st) k = Some v"
      using ag lookup_entry(2) [OF ok get] by (simp add: agrees_def)
    with Some ag1 show ?thesis
      using view_get [OF vinv] by (simp add: matches_def Cache_Get_def get copy)
  next
    case miss: None
    show ?thesis
    proof (cases "view (cs_store st) k")
      case (Some v)
      have "agrees C content (st \<lparr> cs_cache := ot_Set (ca_cache C) c (ca_String C k) v \<rparr>)"
        using agrees_set [OF ok ag1 Some vinv] by (cases st) simp
      then show ?thesis
        using miss view_get [OF vinv Some] by (simp add: matches_def Cache_Get_def get copy V)
    next
      case None
      then obtain err where "vs_Get V (cs_store st) k = Fail err"
        using view_miss [OF vinv] by blast
      with miss ag1 show ?thesis
        by (simp add: matches_def Cache_Get_def get V)
    qed
  qed
qed

lemma Has_matches:
  assumes ok: "cache_ok C content" and V: "ca_store C = V" and ag: "agrees C content st"
  shows "matches C content (Cache_Has C st k) (cs_store st, store_Has V (cs_store st) k)"
proof -
  obtain c r where get: "ot_GetIfPresent (ca_cache C) (cs_cache st) (ca_String C k) = (c, r)"
    by fastforce
  have vinv: "vinv (cs_store st)"
    using ag by (simp add: agrees_def)
  have "r \<noteq> None \<Longrightarrow> view (cs_store st) k \<noteq> None"
    using ag lookup_entry(2) [OF ok get] by (auto simp: agrees_def)
  then show ?thesis
    using agrees_shrink [OF ag lookup_entry(1) [OF ok get]]
    by (auto simp: matches_def Cache_Has_def get V store_Has_view [OF vinv] Let_def)
qed

lemma Set_matches:
  assumes ok: "cache_ok C content" and V: "ca_store C = V" and ag: "agrees C content st"
  shows "matches C content (Cache_Set C st k val)
    (fst (vs_Set V (cs_store st) k val), case snd (vs_Set V (cs_store st) k val) of None \<Rightarrow> Ok () | Some e \<Rightarrow> Fail e)"
proof -
  have vinv: "vinv (cs_store st)" and copy: "\<And>v. ca_copyFn C v = Ok v"
    using ag ok by (simp_all add: agrees_def cache_ok_def)
  show ?thesis
  proof (cases "case val of None \<Rightarrow> True | Some x \<Rightarrow> \<not> storable x")
    case True
    then obtain err where "vs_Set V (cs_store st) k val = (cs_store st, Some err)"
      using view_reject [OF vinv] by blast
    with ag show ?thesis
      by (simp add: matches_def Cache_Set_def V)
  next
    case False
    then obtain v where v: "val = Some v" "storable v"
      by (auto split: option.splits)
    obtain s' where s': "vs_Set V (cs_store st) k (Some v) = (s', None)" "vinv s'" "view s' = (view (cs_store st))(k \<mapsto> v)"
      using view_set [OF vinv v(2)] by blast
    then show ?thesis
      using agrees_set [OF ok ag, of s' k v] by (simp add: matches_def Cache_Set_def V v(1) copy)
  qed
qed

lemma Delete_matches:
  assumes ok: "cache_ok C content" and V: "ca_store C = V" and ag: "agrees C content st"
  shows "matches C content (Cache_Delete C st k) (vs_Delete V (cs_store st) k)"
proof -
  have "vinv (cs_store st)"
    using ag by (simp add: agrees_def)
  then obtain s' where "vs_Delete V (cs_store st) k = (s', None)" "vinv s'" "view s' = (view (cs_store st))(k := None)"
    using view_delete by blast
  then show ?thesis
    using agrees_invalidate [OF ok ag, of s' k] by (simp add: matches_def Cache_Delete_def V)
qed

lemma cache_op_matches:
  assumes ok: "cache_ok C content" and V: "ca_store C = V" and ag: "agrees C content st"
  shows "matches C content (cache_op C st p) (direct_op V (cs_store st) p)"
proof (cases p)
  case (OpInvalidate k)
  have "agrees C content (Cache_Invalidate C st k)"
    using agrees_invalidate [OF ok ag, of "cs_store st" k] ag by (cases st) (simp add: Cache_Invalidate_def agrees_def)
  then show ?thesis
    by (simp add: OpInvalidate matches_def Cache_Invalidate_def)
next
  case OpInvalidateAll
  have "agrees C content (Cache_InvalidateAll C st)"
    using ok ag by (simp add: Cache_InvalidateAll_def agrees_def cache_ok_def cache_lib_laws_def)
  then show ?thesis
    by (simp add: OpInvalidateAll matches_def Cache_InvalidateAll_def)
qed (use Get_matches [OF assms] Has_matches [OF assms] Set_matches [OF assms] Delete_matches [OF assms] ag in
    \<open>auto simp: matches_def Cache_Scan_def V case_prod_beta Let_def\<close>)

lemma cache_run_matches:
  assumes "cache_ok C content" and "ca_store C = V" and "agrees C content st"
  shows "matches C content (cache_run C st ps) (direct_run V (cs_store st) ps)"
  using assms(3)
proof (induction ps arbitrary: st)
  case (Cons p ps)
  have "matches C content (cache_op C st p) (direct_op V (cs_store st) p)"
    by (rule cache_op_matches [OF assms(1,2) Cons.prems])
  then show ?case
    using Cons.IH [of "fst (cache_op C st p)"] by (simp add: matches_def case_prod_beta Let_def)
qed (simp add: matches_def)

end


section \<open>Over the typed store\<close>

text \<open>
  C28. A cache over a typed store on the in-memory backend is transparent to its own callers: any
  sequence of reads, writes, deletions, scans and invalidations through it gives the answers
  the store alone would give, errors included, and leaves the store in the same state, whatever the
  cache library evicts or expires meanwhile.
\<close>

theorem cache_transparent:
  assumes "rearranges order" and "inj (ty_keyFunc T)" and "inj (ca_String C)"
    and "\<And>v data. cd_WrapEncode (ty_codec T) v = Inr data \<Longrightarrow> cd_DecodeEnvelopeOrLegacy (ty_codec T) data = Inr v"
    and "ca_store C = typed_view cls (mem_kv order) T" and "\<And>v. ca_copyFn C v = Ok v"
    and "cache_lib_laws (ca_cache C) content" and "content c = Map.empty" and "kvmem_inv s"
    and "\<And>k data. ms_table s k = Some data \<Longrightarrow> prefix (ty_prefix T) k \<Longrightarrow> decodes T data \<noteq> None"
  shows "snd (cache_run C \<lparr> cs_store = s, cs_cache = c \<rparr> ops) = snd (direct_run (ca_store C) s ops) \<and>
    cs_store (fst (cache_run C \<lparr> cs_store = s, cs_cache = c \<rparr> ops)) = fst (direct_run (ca_store C) s ops)"
proof -
  note loc = mem_typed_store [OF assms(1,4,2)]
  note view = typed_store.view_axioms [OF loc, of cls]
  have "cache_ok C content"
    using assms(3,6,7) by (simp add: cache_ok_def)
  moreover have "view_store.agrees (typed_store.typed_inv kvmem_inv ms_table T) (typed_store.typed_table ms_table T) C content
      \<lparr> cs_store = s, cs_cache = c \<rparr>"
    using assms(8-10) by (simp add: view_store.agrees_def [OF view] typed_store.typed_inv_def [OF loc])
  ultimately show ?thesis
    using view_store.cache_run_matches [OF view _ assms(5)] assms(5)
    by (simp add: view_store.matches_def [OF view])
qed

text \<open>A cache that keeps two entries.\<close>

definition small_cache :: "((string \<times> 't) list, 't) cache_lib" where
  "small_cache = \<lparr> ot_GetIfPresent = (\<lambda>c k. (c, map_of c k)), ot_Set = (\<lambda>c k v. take 2 ((k, v) # AList.delete k c)),
     ot_Invalidate = (\<lambda>c k. AList.delete k c), ot_InvalidateAll = (\<lambda>_. []) \<rparr>"

lemma map_of_take: "map_of (take n ps) \<subseteq>\<^sub>m map_of ps"
proof -
  have "map_of ps = map_of (drop n ps) ++ map_of (take n ps)"
    by (metis append_take_drop_id map_of_append)
  then show ?thesis
    by (simp add: map_le_map_add)
qed

lemma small_cache_laws: "cache_lib_laws small_cache map_of"
proof -
  have "map_of (take 2 ((k, v) # AList.delete k c)) \<subseteq>\<^sub>m (map_of c)(k \<mapsto> v)" for k :: string and v :: 'a and c
    using map_of_take [of 2 "(k, v) # AList.delete k c"] by (simp add: delete_conv')
  then show ?thesis
    by (simp add: cache_lib_laws_def small_cache_def delete_conv')
qed

definition sample_cache :: "(MemStore, (string \<times> byte list) list, byte list, string) Cache" where
  "sample_cache = \<lparr> ca_store = typed_view (\<lambda>_. Rejection) (mem_kv (\<lambda>xs. xs)) (raw_store ''v:''), ca_cache = small_cache,
     ca_copyFn = codecCopy bytes_codec, ca_String = (\<lambda>k. k) \<rparr>"

theorem cache_transparent_witness:
  "snd (cache_run sample_cache \<lparr> cs_store = NewMemStore, cs_cache = [] \<rparr>
      [OpSet ''a'' (Some [1]), OpGet ''a'', OpDelete ''a'', OpGet ''a'', OpSet ''a'' None, OpHas ''a'']) =
    [ResSet (Ok ()), ResGet (Ok [1]), ResDelete None,
     ResGet (Fail (ErrWrap Rejection ''kv.typed_store.get'' kv_ErrNotFound)),
     ResSet (Fail (ErrWrap Rejection ''kv.typed_store.set_nil'' errNilTypedValue)), ResHas (Ok False)]"
proof -
  let ?ops = "[OpSet ''a'' (Some [1]), OpGet ''a'', OpDelete ''a'', OpGet ''a'', OpSet ''a'' None, OpHas ''a'']"
  have "snd (cache_run sample_cache \<lparr> cs_store = NewMemStore, cs_cache = [] \<rparr> ?ops) =
      snd (direct_run (ca_store sample_cache) NewMemStore ?ops)"
    using cache_transparent [where C = sample_cache and order = "\<lambda>xs. xs" and T = "raw_store ''v:''"
        and cls = "\<lambda>_. Rejection" and content = map_of and c = "[]" and s = NewMemStore and ops = ?ops]
    by (simp add: rearranges_def raw_store_def NewTypedStore_def WithTypedKeyPrefix_def bytes_codec_def sample_cache_def
        codecCopy_def small_cache_laws kvmem_inv_def ms_table_def NewMemStore_def)
  also have "\<dots> = [ResSet (Ok ()), ResGet (Ok [1]), ResDelete None,
     ResGet (Fail (ErrWrap Rejection ''kv.typed_store.get'' kv_ErrNotFound)),
     ResSet (Fail (ErrWrap Rejection ''kv.typed_store.set_nil'' errNilTypedValue)), ResHas (Ok False)]"
    by code_simp
  finally show ?thesis .
qed

text \<open>
  A nil copy function is not caught by the constructor: the option wraps it in a closure that is not
  nil, and the first value that has to be copied panics.
\<close>

lemma nil_copy_func_accepted:
  "\<exists>C c. newCache otter_Must String V copyFn [WithCacheCopyFunc None] = Ok (C, c) \<and> ca_copyFn C v = Panic"
  by (auto simp: newCache_def WithCacheCopyFunc_def defaultCacheCapacity_def Let_def case_prod_beta)

end
