(* ===== verification/Listing.thy ===== *)
theory Listing
  imports Events GoSort "HOL-Library.AList"
begin

text \<open>
  Listings of streams (\<open>src/listing\<close>): the status of a stream by its last event, the in-memory reader
  with its cached index over a journal, filters, cursors and pages, the fluent builder, and the
  publishing middleware that marks events and invalidates the index. The journal is an argument, a
  read that may fail; \<open>disp\<close> is the display form of identifiers and \<open>order\<close> the order in
  which the index map is visited.
\<close>

section \<open>Status: status.go\<close>

datatype Status = StatusActive | StatusTombstoned | StatusUndetermined | StatusOther int

text \<open>The format verb \<open>%d\<close>.\<close>

definition format_d :: "int \<Rightarrow> string" where
  "format_d n = (if n < 0 then CHR ''-'' # digits (nat (- n)) else digits (nat n))"

fun Status_String :: "Status \<Rightarrow> string" where
  "Status_String StatusActive = ''active''"
| "Status_String StatusTombstoned = ''tombstoned''"
| "Status_String StatusUndetermined = ''undetermined''"
| "Status_String (StatusOther n) = ''Status('' @ format_d n @ '')''"

definition Status_IsActive :: "Status \<Rightarrow> bool" where
  "Status_IsActive s \<longleftrightarrow> s = StatusActive"

definition Status_IsTombstoned :: "Status \<Rightarrow> bool" where
  "Status_IsTombstoned s \<longleftrightarrow> s = StatusTombstoned"

definition Status_IsKnown :: "Status \<Rightarrow> bool" where
  "Status_IsKnown s \<longleftrightarrow> s \<noteq> StatusUndetermined"

record StatusClassifier =
  sc_deletes :: "string set"
  sc_rebirths :: "string set"

definition NewTypeSet :: "string list \<Rightarrow> string set" where
  "NewTypeSet types = set types"

definition NewStatusClassifier :: "string list \<Rightarrow> string list \<Rightarrow> StatusClassifier" where
  "NewStatusClassifier deleteTypes rebirthTypes =
     \<lparr> sc_deletes = NewTypeSet deleteTypes, sc_rebirths = NewTypeSet rebirthTypes \<rparr>"

definition sc_configured :: "StatusClassifier \<Rightarrow> bool" where
  "sc_configured c \<longleftrightarrow> sc_deletes c \<noteq> {} \<or> sc_rebirths c \<noteq> {}"

definition ClassifyLast :: "StatusClassifier \<Rightarrow> event \<Rightarrow> Status" where
  "ClassifyLast c evt =
     (if \<not> sc_configured c then StatusUndetermined
      else if e_eventType evt \<in> sc_deletes c then StatusTombstoned
      else if e_eventType evt \<in> sc_rebirths c then StatusActive
      else StatusActive)"

section \<open>Listings and pages: types.go\<close>

record StreamListing =
  sl_ID :: StreamID
  sl_Type :: StreamType
  sl_Version :: Version
  sl_EventCount :: u64
  sl_LastEventAt :: instant

record StreamStatus =
  ss_Ref :: StreamListing
  ss_Status :: Status

record 'a Page =
  pg_Items :: "'a list"
  pg_HasMore :: bool

datatype TombstonePolicy = TombstoneExclude | TombstoneInclude | TombstoneOnly | TombstoneOther int

fun TombstonePolicy_String :: "TombstonePolicy \<Rightarrow> string" where
  "TombstonePolicy_String TombstoneExclude = ''exclude''"
| "TombstonePolicy_String TombstoneInclude = ''include''"
| "TombstonePolicy_String TombstoneOnly = ''only''"
| "TombstonePolicy_String (TombstoneOther n) = ''TombstonePolicy('' @ format_d n @ '')''"

record ListOptions =
  lo_Type :: StreamType
  lo_After :: StreamID
  lo_Limit :: u64
  lo_Tombstone :: TombstonePolicy

section \<open>The index: in\_memory.go\<close>

definition add_event ::
  "((StreamType \<times> StreamID) \<times> (StreamListing \<times> event)) list \<Rightarrow> event \<Rightarrow>
     ((StreamType \<times> StreamID) \<times> (StreamListing \<times> event)) list" where
  "add_event builders evt =
     (let key = (e_streamType evt, e_streamID evt);
          ref = (case map_of builders key of
            Some b \<Rightarrow> fst b
          | None \<Rightarrow> \<lparr> sl_ID = e_streamID evt, sl_Type = e_streamType evt, sl_Version = 0, sl_EventCount = 0,
              sl_LastEventAt = 0 \<rparr>) in
      AList.update key (ref \<lparr> sl_Version := e_version evt, sl_EventCount := sl_EventCount ref + 1,
        sl_LastEventAt := e_occurredAt evt \<rparr>, evt) builders)"

type_synonym index_order =
  "((StreamType \<times> StreamID) \<times> (StreamListing \<times> event)) list \<Rightarrow> ((StreamType \<times> StreamID) \<times> (StreamListing \<times> event)) list"

definition buildRefs :: "index_order \<Rightarrow> event list \<Rightarrow> StatusClassifier \<Rightarrow> StreamStatus list" where
  "buildRefs order events classifier =
     (let builders = foldl add_event [] events in
      map (\<lambda>(_, ref, lastEvent). \<lparr> ss_Ref = ref, ss_Status = ClassifyLast classifier lastEvent \<rparr>) (order builders))"

definition compareRefs :: "(StreamID \<Rightarrow> string) \<Rightarrow> StreamStatus \<Rightarrow> StreamStatus \<Rightarrow> int" where
  "compareRefs disp a b =
     (if sl_Type (ss_Ref a) \<noteq> sl_Type (ss_Ref b) then bytes_Compare (sl_Type (ss_Ref a)) (sl_Type (ss_Ref b))
      else bytes_Compare (disp (sl_ID (ss_Ref a))) (disp (sl_ID (ss_Ref b))))"

text \<open>The reader: its classifier and the cached index, \<open>None\<close> for nil.\<close>

record InMemoryStreamReader =
  ir_classifier :: StatusClassifier
  ir_cached :: "StreamStatus list option"

definition WithStatusClassifier :: "StatusClassifier \<Rightarrow> StatusClassifier \<Rightarrow> StatusClassifier" where
  "WithStatusClassifier classifier cfg = classifier"

definition NewInMemoryStreamReader :: "(StatusClassifier \<Rightarrow> StatusClassifier) list \<Rightarrow> InMemoryStreamReader" where
  "NewInMemoryStreamReader opts =
     \<lparr> ir_classifier = foldl (\<lambda>cfg opt. opt cfg) \<lparr> sc_deletes = {}, sc_rebirths = {} \<rparr> opts, ir_cached = None \<rparr>"

definition getRefsUnsorted :: "InMemoryStreamReader \<Rightarrow> StreamStatus list option" where
  "getRefsUnsorted r = ir_cached r"

definition InvalidateCache :: "InMemoryStreamReader \<Rightarrow> InMemoryStreamReader" where
  "InvalidateCache r = r \<lparr> ir_cached := None \<rparr>"

definition sorted_refs :: "(StreamID \<Rightarrow> string) \<Rightarrow> index_order \<Rightarrow> StatusClassifier \<Rightarrow> event list \<Rightarrow> StreamStatus list" where
  "sorted_refs disp order classifier events =
     sort_Slice (\<lambda>a b. compareRefs disp a b < 0) (buildRefs order events classifier)"

text \<open>The two halves of a rebuild: the read of the journal with the sort, and the locked assignment.\<close>

definition rebuild_read ::
  "(StreamID \<Rightarrow> string) \<Rightarrow> index_order \<Rightarrow> event list outcome \<Rightarrow> InMemoryStreamReader \<Rightarrow> StreamStatus list outcome" where
  "rebuild_read disp order journal r =
     (case journal of
        Ok all \<Rightarrow> Ok (sorted_refs disp order (ir_classifier r) all)
      | Fail err \<Rightarrow> Fail (ErrWrap Infrastructure ''listing.in_memory_list'' err)
      | Panic \<Rightarrow> Panic)"

definition rebuild_store :: "StreamStatus list \<Rightarrow> InMemoryStreamReader \<Rightarrow> InMemoryStreamReader" where
  "rebuild_store refs r = r \<lparr> ir_cached := Some refs \<rparr>"

definition rebuildCache ::
  "(StreamID \<Rightarrow> string) \<Rightarrow> index_order \<Rightarrow> event list outcome \<Rightarrow> InMemoryStreamReader \<Rightarrow>
     InMemoryStreamReader \<times> StreamStatus list outcome" where
  "rebuildCache disp order journal r =
     (case rebuild_read disp order journal r of
        Ok refs \<Rightarrow> (rebuild_store refs r, Ok refs)
      | res \<Rightarrow> (r, res))"

definition filterByType :: "StreamStatus list \<Rightarrow> StreamType \<Rightarrow> StreamStatus list" where
  "filterByType refs streamType = filter (\<lambda>r. sl_Type (ss_Ref r) = streamType) refs"

definition policy_keeps :: "TombstonePolicy \<Rightarrow> StreamStatus \<Rightarrow> bool" where
  "policy_keeps policy r \<longleftrightarrow>
     policy = TombstoneExclude \<and> \<not> Status_IsTombstoned (ss_Status r) \<or>
     policy = TombstoneOnly \<and> Status_IsTombstoned (ss_Status r)"

definition applyTombstonePolicy :: "StreamStatus list \<Rightarrow> TombstonePolicy \<Rightarrow> StreamStatus list" where
  "applyTombstonePolicy refs policy = (if policy = TombstoneInclude then refs else filter (policy_keeps policy) refs)"

fun cursor_loop :: "(StreamID \<Rightarrow> string) \<Rightarrow> StreamStatus list \<Rightarrow> StreamID \<Rightarrow> StreamStatus list option" where
  "cursor_loop disp [] after = None"
| "cursor_loop disp (r # refs) after =
     (if disp (sl_ID (ss_Ref r)) = disp after then Some refs else cursor_loop disp refs after)"

definition applyCursor :: "(StreamID \<Rightarrow> string) \<Rightarrow> StreamStatus list \<Rightarrow> StreamID \<Rightarrow> StreamStatus list" where
  "applyCursor disp refs after =
     (if after = [] then refs
      else case cursor_loop disp refs after of Some rest \<Rightarrow> rest | None \<Rightarrow> refs)"

definition defaultPageSize :: u64 where
  "defaultPageSize = 20"

definition maxPageSize :: u64 where
  "maxPageSize = 100"

definition paginateStatus :: "StreamStatus list \<Rightarrow> u64 \<Rightarrow> StreamStatus Page" where
  "paginateStatus refs limit0 =
     (let limit = (if limit0 = 0 then defaultPageSize else limit0) in
      if length refs \<le> unat limit then \<lparr> pg_Items = refs, pg_HasMore = False \<rparr>
      else \<lparr> pg_Items = take (unat limit) refs, pg_HasMore = True \<rparr>)"

definition select_page :: "(StreamID \<Rightarrow> string) \<Rightarrow> ListOptions \<Rightarrow> StreamStatus list \<Rightarrow> StreamStatus Page" where
  "select_page disp opts refs0 =
     (let refs1 = (if lo_Type opts \<noteq> [] then filterByType refs0 (lo_Type opts) else refs0);
          refs2 = applyTombstonePolicy refs1 (lo_Tombstone opts);
          refs3 = applyCursor disp refs2 (lo_After opts) in
      paginateStatus refs3 (lo_Limit opts))"

definition ListWithStatus ::
  "(StreamID \<Rightarrow> string) \<Rightarrow> index_order \<Rightarrow> event list outcome \<Rightarrow> InMemoryStreamReader \<Rightarrow> ListOptions \<Rightarrow>
     InMemoryStreamReader \<times> StreamStatus Page outcome" where
  "ListWithStatus disp order journal r opts =
     (let (r', refs) = (case getRefsUnsorted r of
            Some refs \<Rightarrow> (r, Ok refs)
          | None \<Rightarrow> rebuildCache disp order journal r) in
      (r', obind refs (\<lambda>rs. Ok (select_page disp opts rs))))"

definition ListRefsFromStatus :: "StreamStatus Page outcome \<Rightarrow> StreamListing Page outcome" where
  "ListRefsFromStatus statusPage =
     (case statusPage of
        Ok p \<Rightarrow> Ok \<lparr> pg_Items = map ss_Ref (pg_Items p), pg_HasMore = pg_HasMore p \<rparr>
      | Fail err \<Rightarrow> Fail (ErrWrap Infrastructure ''listing.list_with_status'' err)
      | Panic \<Rightarrow> Panic)"

definition StreamReader_List ::
  "(StreamID \<Rightarrow> string) \<Rightarrow> index_order \<Rightarrow> event list outcome \<Rightarrow> InMemoryStreamReader \<Rightarrow> ListOptions \<Rightarrow>
     InMemoryStreamReader \<times> StreamListing Page outcome" where
  "StreamReader_List disp order journal r opts =
     (let (r', page) = ListWithStatus disp order journal r opts in (r', ListRefsFromStatus page))"

section \<open>The builder: builder.go\<close>

text \<open>A builder is its options; the reader it points to is the state its last calls take and return.\<close>

definition NewListBuilder :: ListOptions where
  "NewListBuilder = \<lparr> lo_Type = [], lo_After = [], lo_Limit = defaultPageSize, lo_Tombstone = TombstoneExclude \<rparr>"

definition OfType :: "StreamType \<Rightarrow> ListOptions \<Rightarrow> ListOptions" where
  "OfType t opts = opts \<lparr> lo_Type := t \<rparr>"

definition builder_After :: "StreamID \<Rightarrow> ListOptions \<Rightarrow> ListOptions" where
  "builder_After i opts = opts \<lparr> lo_After := i \<rparr>"

definition PageSize :: "u64 \<Rightarrow> ListOptions \<Rightarrow> ListOptions" where
  "PageSize n opts =
     (if n = 0 then opts \<lparr> lo_Limit := defaultPageSize \<rparr>
      else if maxPageSize < n then opts \<lparr> lo_Limit := maxPageSize \<rparr>
      else opts \<lparr> lo_Limit := n \<rparr>)"

definition IncludeDeleted :: "ListOptions \<Rightarrow> ListOptions" where
  "IncludeDeleted opts = opts \<lparr> lo_Tombstone := TombstoneInclude \<rparr>"

definition OnlyDeleted :: "ListOptions \<Rightarrow> ListOptions" where
  "OnlyDeleted opts = opts \<lparr> lo_Tombstone := TombstoneOnly \<rparr>"

definition builder_List ::
  "(StreamID \<Rightarrow> string) \<Rightarrow> index_order \<Rightarrow> event list outcome \<Rightarrow> InMemoryStreamReader \<Rightarrow> ListOptions \<Rightarrow>
     InMemoryStreamReader \<times> StreamListing Page outcome" where
  "builder_List disp order journal reader opts = StreamReader_List disp order journal reader opts"

definition builder_ListWithStatus ::
  "(StreamID \<Rightarrow> string) \<Rightarrow> index_order \<Rightarrow> event list outcome \<Rightarrow> InMemoryStreamReader \<Rightarrow> ListOptions \<Rightarrow>
     InMemoryStreamReader \<times> StreamStatus Page outcome" where
  "builder_ListWithStatus disp order journal reader opts = ListWithStatus disp order journal reader opts"

section \<open>Publishing: middleware.go\<close>

type_synonym 'w publisher = "event list \<Rightarrow> 'w \<Rightarrow> 'w \<times> unit outcome"

fun mark_events :: "string set \<Rightarrow> string set \<Rightarrow> event list \<Rightarrow> event list \<Rightarrow> event list outcome" where
  "mark_events deletes rebirths [] marked = Ok marked"
| "mark_events deletes rebirths (evt # events) marked =
     (if e_eventType evt \<in> deletes then
        (case MarkTombstone (Some evt) of
           Ok m \<Rightarrow> mark_events deletes rebirths events (marked @ [m])
         | Fail err \<Rightarrow> Fail (ErrWrap Infrastructure ''listing.tombstone'' err)
         | Panic \<Rightarrow> Panic)
      else if e_eventType evt \<in> rebirths then
        (case MarkRebirth (Some evt) of
           Ok m \<Rightarrow> mark_events deletes rebirths events (marked @ [m])
         | Fail err \<Rightarrow> Fail (ErrWrap Infrastructure ''listing.rebirth'' err)
         | Panic \<Rightarrow> Panic)
      else mark_events deletes rebirths events (marked @ [evt]))"

definition StatusMiddleware :: "string list \<Rightarrow> string list \<Rightarrow> 'w publisher \<Rightarrow> 'w publisher" where
  "StatusMiddleware deleteTypes rebirthTypes nxt = (\<lambda>events w.
     case mark_events (NewTypeSet deleteTypes) (NewTypeSet rebirthTypes) events [] of
       Ok marked \<Rightarrow> nxt marked w
     | Fail err \<Rightarrow> (w, Fail err)
     | Panic \<Rightarrow> (w, Panic))"

definition CacheInvalidationMiddleware :: "('w \<Rightarrow> 'w) \<Rightarrow> 'w publisher \<Rightarrow> 'w publisher" where
  "CacheInvalidationMiddleware invalidate nxt = (\<lambda>events w.
     case nxt events w of
       (w', Ok _) \<Rightarrow> (invalidate w', Ok ())
     | (w', Fail err) \<Rightarrow> (w', Fail (ErrWrap Infrastructure ''listing.publish_events_failed'' err))
     | (w', Panic) \<Rightarrow> (w', Panic))"

section \<open>The index is exact\<close>

definition events_of :: "StreamType \<Rightarrow> StreamID \<Rightarrow> event list \<Rightarrow> event list" where
  "events_of t i events = filter (\<lambda>e. e_streamType e = t \<and> e_streamID e = i) events"

definition summary :: "StatusClassifier \<Rightarrow> StreamType \<Rightarrow> StreamID \<Rightarrow> event list \<Rightarrow> StreamStatus" where
  "summary c t i events =
     (let es = events_of t i events in
      \<lparr> ss_Ref = \<lparr> sl_ID = i, sl_Type = t, sl_Version = e_version (last es), sl_EventCount = of_nat (length es),
          sl_LastEventAt = e_occurredAt (last es) \<rparr>, ss_Status = ClassifyLast c (last es) \<rparr>)"

definition streams_in :: "event list \<Rightarrow> (StreamType \<times> StreamID) set" where
  "streams_in events = (\<lambda>e. (e_streamType e, e_streamID e)) ` set events"

lemma events_of_snoc:
  "events_of t i (events @ [e]) = events_of t i events @ (if e_streamType e = t \<and> e_streamID e = i then [e] else [])"
  by (simp add: events_of_def)

lemma events_of_empty: "events_of t i events = [] \<longleftrightarrow> (t, i) \<notin> streams_in events"
  by (auto simp: events_of_def streams_in_def filter_empty_conv)

lemma add_event_lookup:
  "map_of (add_event builders evt) k =
     (if k = (e_streamType evt, e_streamID evt)
      then Some (\<lparr> sl_ID = case map_of builders k of Some b \<Rightarrow> sl_ID (fst b) | None \<Rightarrow> e_streamID evt,
          sl_Type = case map_of builders k of Some b \<Rightarrow> sl_Type (fst b) | None \<Rightarrow> e_streamType evt,
          sl_Version = e_version evt,
          sl_EventCount = (case map_of builders k of Some b \<Rightarrow> sl_EventCount (fst b) | None \<Rightarrow> 0) + 1,
          sl_LastEventAt = e_occurredAt evt \<rparr>, evt)
      else map_of builders k)"
  by (auto simp: add_event_def update_conv' Let_def split: option.splits)

lemma streams_in_snoc: "streams_in (events @ [e]) = insert (e_streamType e, e_streamID e) (streams_in events)"
  by (simp add: streams_in_def)

lemma builders_exact:
  "map_of (foldl add_event [] events) (t, i) =
     (if (t, i) \<in> streams_in events
      then Some (ss_Ref (summary c t i events), last (events_of t i events)) else None)"
proof (induction events rule: rev_induct)
  case (snoc e events)
  have "events_of t i events = [] \<longleftrightarrow> (t, i) \<notin> streams_in events"
    by (rule events_of_empty)
  with snoc show ?case
    by (auto simp: add_event_lookup streams_in_snoc summary_def Let_def events_of_snoc)
qed (simp add: streams_in_def)

lemma distinct_builders: "distinct (map fst (foldl add_event [] events))"
proof (induction events rule: rev_induct)
  case (snoc e events)
  then show ?case
    by (simp add: add_event_def Let_def distinct_update)
qed simp

definition entry_status :: "StatusClassifier \<Rightarrow> (StreamType \<times> StreamID) \<times> (StreamListing \<times> event) \<Rightarrow> StreamStatus" where
  "entry_status c = (\<lambda>(_, ref, lastEvent). \<lparr> ss_Ref = ref, ss_Status = ClassifyLast c lastEvent \<rparr>)"

lemma summary_key [simp]:
  "sl_ID (ss_Ref (summary c t i events)) = i" "sl_Type (ss_Ref (summary c t i events)) = t"
  "ss_Status (summary c t i events) = ClassifyLast c (last (events_of t i events))"
  by (simp_all add: summary_def Let_def)

lemma builders_entry:
  "(k, b) \<in> set (foldl add_event [] events) \<longleftrightarrow>
     k \<in> streams_in events \<and>
     b = (ss_Ref (summary c (fst k) (snd k) events), last (events_of (fst k) (snd k) events))"
proof -
  have "(k, b) \<in> set (foldl add_event [] events) \<longleftrightarrow> map_of (foldl add_event [] events) k = Some b"
    using distinct_builders by (simp add: map_of_eq_Some_iff)
  then show ?thesis
    by (cases k) (auto simp: builders_exact [where c = c])
qed

lemma entry_status_builder:
  "p \<in> set (foldl add_event [] events) \<Longrightarrow>
     fst p \<in> streams_in events \<and> entry_status c p = summary c (fst (fst p)) (snd (fst p)) events"
  by (cases p) (auto simp: builders_entry [where c = c] entry_status_def summary_def Let_def)

lemma buildRefs_map:
  assumes "rearranges order"
  shows "mset (buildRefs order events c) = mset (map (entry_status c) (foldl add_event [] events))"
  using assms by (simp add: buildRefs_def entry_status_def rearranges_def)

lemma set_builders: "fst ` set (foldl add_event [] events) = streams_in events"
proof -
  have "fst ` set (foldl add_event [] events) = dom (map_of (foldl add_event [] events))"
    by (simp add: dom_map_of_conv_image_fst)
  also have "\<dots> = streams_in events"
    by (auto simp: dom_def builders_exact [where c = "NewStatusClassifier [] []"] split: if_splits)
  finally show ?thesis .
qed

lemma set_buildRefs:
  assumes "rearranges order"
  shows "set (buildRefs order events c) = (\<lambda>(t, i). summary c t i events) ` streams_in events"
proof -
  have "set (buildRefs order events c) = entry_status c ` set (foldl add_event [] events)"
    using buildRefs_map [OF assms, of events c] by (metis list.set_map set_mset_mset)
  also have "\<dots> = (\<lambda>p. summary c (fst (fst p)) (snd (fst p)) events) ` set (foldl add_event [] events)"
    using entry_status_builder by (auto intro!: image_cong)
  also have "\<dots> = (\<lambda>(t, i). summary c t i events) ` fst ` set (foldl add_event [] events)"
    by (simp add: image_image split_beta)
  finally show ?thesis
    by (simp add: set_builders)
qed

lemma distinct_buildRefs:
  assumes "rearranges order"
  shows "distinct (buildRefs order events c)"
proof -
  have "inj_on (entry_status c) (set (foldl add_event [] events))"
  proof (rule inj_onI)
    fix p q
    assume pq: "p \<in> set (foldl add_event [] events)" "q \<in> set (foldl add_event [] events)"
      "entry_status c p = entry_status c q"
    then have "summary c (fst (fst p)) (snd (fst p)) events = summary c (fst (fst q)) (snd (fst q)) events"
      by (simp add: entry_status_builder)
    then have "fst p = fst q"
      by (metis prod.expand summary_key(1) summary_key(2))
    with pq show "p = q"
      using distinct_builders by (metis eq_key_imp_eq_value prod.collapse)
  qed
  then have "distinct (map (entry_status c) (foldl add_event [] events))"
    using distinct_builders by (simp add: distinct_map)
  with buildRefs_map [OF assms, of events c] show ?thesis
    by (metis mset_eq_imp_distinct_iff)
qed

text \<open>The order of the index is total when the display form tells the identifiers of the journal apart.\<close>

abbreviation ref_before :: "(StreamID \<Rightarrow> string) \<Rightarrow> StreamStatus \<Rightarrow> StreamStatus \<Rightarrow> bool" where
  "ref_before disp a b \<equiv> compareRefs disp a b < 0"

lemma ref_before_iff:
  "ref_before disp a b \<longleftrightarrow> sl_Type (ss_Ref a) < sl_Type (ss_Ref b) \<or>
     sl_Type (ss_Ref a) = sl_Type (ss_Ref b) \<and> disp (sl_ID (ss_Ref a)) < disp (sl_ID (ss_Ref b))"
  by (auto simp: compareRefs_def)

definition tells_apart :: "(StreamID \<Rightarrow> string) \<Rightarrow> event list \<Rightarrow> bool" where
  "tells_apart disp events \<longleftrightarrow> inj_on disp (snd ` streams_in events)"

lemma ref_before_total:
  assumes "rearranges order" and "tells_apart disp events"
  shows "strict_total_on (ref_before disp) (set (buildRefs order events c))"
proof -
  have eq: "a = b" if mem: "a \<in> set (buildRefs order events c)" "b \<in> set (buildRefs order events c)"
    and same: "sl_Type (ss_Ref a) = sl_Type (ss_Ref b)" "disp (sl_ID (ss_Ref a)) = disp (sl_ID (ss_Ref b))" for a b
  proof -
    obtain k l where kl: "k \<in> streams_in events" "l \<in> streams_in events"
      "a = summary c (fst k) (snd k) events" "b = summary c (fst l) (snd l) events"
      using mem by (auto simp: set_buildRefs [OF assms(1)])
    then have "snd k = snd l"
      using same(2) assms(2) by (simp add: tells_apart_def inj_on_eq_iff)
    with kl same(1) show ?thesis
      by simp
  qed
  show ?thesis
    unfolding strict_total_on_def ref_before_iff
  proof (intro conjI ballI impI)
    fix a b
    assume "a \<in> set (buildRefs order events c)" "b \<in> set (buildRefs order events c)" "a \<noteq> b"
    with eq have "sl_Type (ss_Ref a) \<noteq> sl_Type (ss_Ref b) \<or> disp (sl_ID (ss_Ref a)) \<noteq> disp (sl_ID (ss_Ref b))"
      by blast
    then show "(sl_Type (ss_Ref a) < sl_Type (ss_Ref b) \<or>
        sl_Type (ss_Ref a) = sl_Type (ss_Ref b) \<and> disp (sl_ID (ss_Ref a)) < disp (sl_ID (ss_Ref b))) \<or>
      (sl_Type (ss_Ref b) < sl_Type (ss_Ref a) \<or>
        sl_Type (ss_Ref b) = sl_Type (ss_Ref a) \<and> disp (sl_ID (ss_Ref b)) < disp (sl_ID (ss_Ref a)))"
      by (metis linorder_neqE)
  qed auto
qed

lemma sorted_refs_exact:
  assumes "rearranges order" and "tells_apart disp events"
  shows "sorted_wrt (ref_before disp) (sorted_refs disp order c events)"
    and "set (sorted_refs disp order c events) = (\<lambda>(t, i). summary c t i events) ` streams_in events"
    and "rearranges order' \<Longrightarrow> sorted_refs disp order' c events = sorted_refs disp order c events"
proof -
  show "sorted_wrt (ref_before disp) (sorted_refs disp order c events)"
    unfolding sorted_refs_def
    by (rule sorted_sort_Slice [OF ref_before_total [OF assms] distinct_buildRefs [OF assms(1)]])
  show "set (sorted_refs disp order c events) = (\<lambda>(t, i). summary c t i events) ` streams_in events"
    by (simp add: sorted_refs_def set_buildRefs [OF assms(1)])
  show "sorted_refs disp order' c events = sorted_refs disp order c events" if "rearranges order'"
    unfolding sorted_refs_def
    by (rule sort_Slice_perm [OF ref_before_total [OF assms] distinct_buildRefs [OF assms(1)]])
      (simp add: buildRefs_map that assms(1))
qed

section \<open>Following the cursors\<close>

text \<open>Who sees a stream under a policy.\<close>

fun visible :: "TombstonePolicy \<Rightarrow> Status \<Rightarrow> bool" where
  "visible TombstoneInclude s = True"
| "visible TombstoneExclude s \<longleftrightarrow> s \<noteq> StatusTombstoned"
| "visible TombstoneOnly s \<longleftrightarrow> s = StatusTombstoned"
| "visible (TombstoneOther n) s = False"

lemma applyTombstonePolicy_filter: "applyTombstonePolicy refs policy = filter (\<lambda>r. visible policy (ss_Status r)) refs"
  by (cases policy) (auto simp: applyTombstonePolicy_def policy_keeps_def Status_IsTombstoned_def intro!: filter_cong)

definition matches :: "ListOptions \<Rightarrow> StreamStatus list \<Rightarrow> StreamStatus list" where
  "matches opts refs =
     applyTombstonePolicy (if lo_Type opts \<noteq> [] then filterByType refs (lo_Type opts) else refs) (lo_Tombstone opts)"

lemma select_page_matches:
  "select_page disp opts refs = paginateStatus (applyCursor disp (matches opts refs) (lo_After opts)) (lo_Limit opts)"
  by (simp add: select_page_def matches_def Let_def)

lemma matches_filter:
  "lo_Type opts \<noteq> [] \<Longrightarrow> matches opts refs =
     filter (\<lambda>r. sl_Type (ss_Ref r) = lo_Type opts \<and> visible (lo_Tombstone opts) (ss_Status r)) refs"
  by (simp add: matches_def filterByType_def applyTombstonePolicy_filter conj_commute)

lemma matches_After [simp]: "matches (opts \<lparr> lo_After := i \<rparr>) refs = matches opts refs"
  by (simp add: matches_def)

text \<open>
  A client that follows the cursors: it asks for a page, and while the page says that there is more
  it asks again with the identifier of the last item as \<open>After\<close>.
\<close>

fun follow ::
  "nat \<Rightarrow> (StreamID \<Rightarrow> string) \<Rightarrow> index_order \<Rightarrow> event list outcome \<Rightarrow> InMemoryStreamReader \<Rightarrow> ListOptions \<Rightarrow>
     StreamStatus list outcome option" where
  "follow 0 disp order journal r opts = None"
| "follow (Suc fuel) disp order journal r opts =
     (case ListWithStatus disp order journal r opts of
        (r', Ok page) \<Rightarrow>
          (if pg_HasMore page then
             map_option (\<lambda>res. obind res (\<lambda>more. Ok (pg_Items page @ more)))
               (follow fuel disp order journal r' (opts \<lparr> lo_After := sl_ID (ss_Ref (last (pg_Items page))) \<rparr>))
           else Some (Ok (pg_Items page)))
      | (r', Fail err) \<Rightarrow> Some (Fail err)
      | (r', Panic) \<Rightarrow> Some Panic)"

definition fresh :: "(StreamID \<Rightarrow> string) \<Rightarrow> index_order \<Rightarrow> event list \<Rightarrow> InMemoryStreamReader \<Rightarrow> bool" where
  "fresh disp order events r \<longleftrightarrow>
     ir_cached r = None \<or> ir_cached r = Some (sorted_refs disp order (ir_classifier r) events)"

lemma ListWithStatus_fresh:
  assumes "fresh disp order events r"
  shows "\<exists>r'. ListWithStatus disp order (Ok events) r opts =
       (r', Ok (select_page disp opts (sorted_refs disp order (ir_classifier r) events))) \<and>
     fresh disp order events r' \<and> ir_classifier r' = ir_classifier r"
  using assms
  by (cases "ir_cached r")
    (auto simp: ListWithStatus_def fresh_def getRefsUnsorted_def rebuildCache_def rebuild_read_def rebuild_store_def)

lemma cursor_loop_found:
  "disp (sl_ID (ss_Ref r)) \<notin> (\<lambda>r. disp (sl_ID (ss_Ref r))) ` set xs \<Longrightarrow>
     cursor_loop disp (xs @ r # ys) (sl_ID (ss_Ref r)) = Some ys"
  by (induction xs) auto

lemma applyCursor_found:
  assumes "sl_ID (ss_Ref r) \<noteq> []" and "distinct (map (\<lambda>r. disp (sl_ID (ss_Ref r))) (xs @ r # ys))"
  shows "applyCursor disp (xs @ r # ys) (sl_ID (ss_Ref r)) = ys"
  using assms cursor_loop_found [of disp r xs ys] by (simp add: applyCursor_def)

text \<open>The page size in force, never 0.\<close>

definition page_limit :: "u64 \<Rightarrow> nat" where
  "page_limit limit = unat (if limit = 0 then defaultPageSize else limit)"

lemma page_limit_positive: "0 < page_limit limit"
  by (auto simp: page_limit_def defaultPageSize_def unat_gt_0)

lemma paginateStatus_page:
  "paginateStatus refs limit =
     \<lparr> pg_Items = take (page_limit limit) refs, pg_HasMore = (page_limit limit < length refs) \<rparr>"
  by (auto simp: paginateStatus_def page_limit_def Let_def)

lemma follow_rest:
  assumes "fresh disp order events r" and "length rest \<le> fuel * page_limit (lo_Limit opts)" and "0 < fuel"
    and "matches opts (sorted_refs disp order (ir_classifier r) events) = before @ rest"
    and "applyCursor disp (before @ rest) (lo_After opts) = rest"
    and "distinct (map (\<lambda>r. disp (sl_ID (ss_Ref r))) (before @ rest))"
    and "\<forall>r \<in> set (before @ rest). sl_ID (ss_Ref r) \<noteq> []"
  shows "follow fuel disp order (Ok events) r opts = Some (Ok rest)"
  using assms
proof (induction fuel arbitrary: r opts before rest)
  case (Suc fuel)
  let ?n = "page_limit (lo_Limit opts)" and ?S = "sorted_refs disp order (ir_classifier r) events"
  obtain r' where r': "ListWithStatus disp order (Ok events) r opts = (r', Ok (select_page disp opts ?S))"
    "fresh disp order events r'" "ir_classifier r' = ir_classifier r"
    using ListWithStatus_fresh [OF Suc.prems(1)] by blast
  have page: "select_page disp opts ?S = \<lparr> pg_Items = take ?n rest, pg_HasMore = (?n < length rest) \<rparr>"
    by (simp add: select_page_matches Suc.prems(4,5) paginateStatus_page)
  show ?case
  proof (cases "?n < length rest")
    case True
    let ?items = "take ?n rest" and ?rest = "drop ?n rest"
    have ne: "?items \<noteq> []"
      using True page_limit_positive [of "lo_Limit opts"] by auto
    then have snoc: "?items = butlast ?items @ [last ?items]"
      by simp
    have split: "before @ rest = (before @ butlast ?items) @ last ?items # ?rest"
      by (subst append_take_drop_id [of ?n rest, symmetric], subst snoc) simp
    have "last ?items \<in> set rest"
      using ne last_in_set in_set_takeD by metis
    then have cursor: "applyCursor disp (before @ rest) (sl_ID (ss_Ref (last ?items))) = ?rest"
      using Suc.prems(6,7) by (subst split, intro applyCursor_found) (simp_all only: split [symmetric], simp)
    have "follow fuel disp order (Ok events) r' (opts \<lparr> lo_After := sl_ID (ss_Ref (last ?items)) \<rparr>) = Some (Ok ?rest)"
    proof (rule Suc.IH [where before = "before @ ?items"])
      show "fresh disp order events r'"
        by (rule r'(2))
      show "length ?rest \<le> fuel * page_limit (lo_Limit (opts\<lparr>lo_After := sl_ID (ss_Ref (last ?items))\<rparr>))"
        using Suc.prems(2) by simp
      show "0 < fuel"
        using Suc.prems(2) True by (cases fuel) auto
      show "matches (opts\<lparr>lo_After := sl_ID (ss_Ref (last ?items))\<rparr>)
          (sorted_refs disp order (ir_classifier r') events) = (before @ ?items) @ ?rest"
        using Suc.prems(4) by (simp add: r'(3))
      show "applyCursor disp ((before @ ?items) @ ?rest)
          (lo_After (opts\<lparr>lo_After := sl_ID (ss_Ref (last ?items))\<rparr>)) = ?rest"
        using cursor by simp
      show "distinct (map (\<lambda>r. disp (sl_ID (ss_Ref r))) ((before @ ?items) @ ?rest))"
        using Suc.prems(6) by (simp only: append.assoc append_take_drop_id)
      show "\<forall>r \<in> set ((before @ ?items) @ ?rest). sl_ID (ss_Ref r) \<noteq> []"
        using Suc.prems(7) by (simp only: append.assoc append_take_drop_id)
    qed
    then show ?thesis
      by (simp add: r'(1) page True)
  next
    case False
    then show ?thesis
      by (simp add: r'(1) page)
  qed
qed simp

lemma matches_exact:
  assumes "rearranges order" and "tells_apart disp events" and "lo_Type opts \<noteq> []"
  shows "sorted_wrt (\<lambda>a b. disp (sl_ID (ss_Ref a)) < disp (sl_ID (ss_Ref b)))
      (matches opts (sorted_refs disp order c events))" (is "sorted_wrt ?lt ?m")
    and "set (matches opts (sorted_refs disp order c events)) =
      {summary c (lo_Type opts) i events | i. (lo_Type opts, i) \<in> streams_in events \<and>
         visible (lo_Tombstone opts) (ClassifyLast c (last (events_of (lo_Type opts) i events)))}"
proof -
  have "sorted_wrt (ref_before disp) ?m"
    using sorted_refs_exact(1) [OF assms(1,2), of c] by (simp add: matches_filter [OF assms(3)] sorted_wrt_filter)
  moreover have "\<forall>r \<in> set ?m. sl_Type (ss_Ref r) = lo_Type opts"
    by (simp add: matches_filter [OF assms(3)])
  ultimately show "sorted_wrt ?lt ?m"
    by (auto simp: ref_before_iff elim!: sorted_wrt_mono_rel [rotated])
  show "set ?m = {summary c (lo_Type opts) i events | i. (lo_Type opts, i) \<in> streams_in events \<and>
      visible (lo_Tombstone opts) (ClassifyLast c (last (events_of (lo_Type opts) i events)))}"
    by (auto simp: matches_filter [OF assms(3)] sorted_refs_exact(2) [OF assms(1,2)])
qed

lemma sorted_distinct_map: "sorted_wrt (\<lambda>a b. (f a :: 'b :: linorder) < f b) xs \<Longrightarrow> distinct (map f xs)"
  by (induction xs) auto

lemma finite_streams_of: "finite {i. (t, i) \<in> streams_in events}"
  by (rule finite_subset [of _ "snd ` streams_in events"]) (force simp: streams_in_def)+

lemma length_matches:
  assumes "rearranges order" and "tells_apart disp events" and "lo_Type opts \<noteq> []"
  shows "length (matches opts (sorted_refs disp order c events)) \<le> card {i. (lo_Type opts, i) \<in> streams_in events}"
    (is "length ?m \<le> card ?I")
proof -
  have "distinct ?m"
    using sorted_distinct_map [OF matches_exact(1) [OF assms]] by (simp add: distinct_map)
  then have "length ?m = card (set ?m)"
    by (simp add: distinct_card)
  also have "\<dots> \<le> card ((\<lambda>i. summary c (lo_Type opts) i events) ` ?I)"
    by (rule card_mono) (auto simp: finite_streams_of matches_exact(2) [OF assms])
  also have "\<dots> \<le> card ?I"
    by (rule card_image_le [OF finite_streams_of])
  finally show ?thesis .
qed

text \<open>
  C29. The in-memory reader lists every stream: over a journal whose streams have non-empty
  identifiers that the display form tells apart, for a listing of one stream type from the start, a
  client that follows the cursors gets, in at most as many pages as there are streams of that type
  (fewer with larger pages), exactly one entry for every stream of the type that the tombstone policy
  lets through, in the order of the displayed identifiers, each with the version, the time and the
  status of the last event of that stream and the number of its events. It does not matter whether
  the index is cached already or in which order the map of streams is visited.
\<close>

theorem listing_complete:
  assumes "rearranges order" and "tells_apart disp events" and "\<forall>k \<in> streams_in events. snd k \<noteq> []"
    and "lo_Type opts \<noteq> []" and "lo_After opts = []" and "fresh disp order events r"
    and "card {i. (lo_Type opts, i) \<in> streams_in events} \<le> fuel * page_limit (lo_Limit opts)" and "0 < fuel"
  shows "\<exists>items. follow fuel disp order (Ok events) r opts = Some (Ok items) \<and>
    sorted_wrt (\<lambda>a b. disp (sl_ID (ss_Ref a)) < disp (sl_ID (ss_Ref b))) items \<and>
    set items = {summary (ir_classifier r) (lo_Type opts) i events | i. (lo_Type opts, i) \<in> streams_in events \<and>
      visible (lo_Tombstone opts) (ClassifyLast (ir_classifier r) (last (events_of (lo_Type opts) i events)))}"
proof -
  let ?m = "matches opts (sorted_refs disp order (ir_classifier r) events)"
  note exact = matches_exact [OF assms(1,2,4), of "ir_classifier r"]
  have "follow fuel disp order (Ok events) r opts = Some (Ok ?m)"
  proof (rule follow_rest [where before = "[]"])
    show "length ?m \<le> fuel * page_limit (lo_Limit opts)"
      using length_matches [OF assms(1,2,4), of "ir_classifier r"] assms(7) by linarith
    show "distinct (map (\<lambda>r. disp (sl_ID (ss_Ref r))) ([] @ ?m))"
      using sorted_distinct_map [OF exact(1)] by simp
    show "\<forall>r \<in> set ([] @ ?m). sl_ID (ss_Ref r) \<noteq> []"
      using assms(3) by (force simp: exact(2))
  qed (use assms(5,6,8) in \<open>simp_all add: applyCursor_def\<close>)
  with exact show ?thesis
    by blast
qed

definition sample_event :: "string \<Rightarrow> StreamID \<Rightarrow> Version \<Rightarrow> event" where
  "sample_event t i v = zeroEvent \<lparr> e_eventType := t, e_streamID := i, e_streamType := ''user'', e_version := v \<rparr>"

definition sample_journal :: "event list" where
  "sample_journal =
     [sample_event ''created'' ''b'' 1, sample_event ''created'' ''a'' 1, sample_event ''deleted'' ''b'' 2,
      sample_event ''created'' ''c'' 1]"

theorem listing_complete_witness:
  "\<exists>items. follow 3 (\<lambda>i. i) (\<lambda>xs. xs) (Ok sample_journal)
      (NewInMemoryStreamReader [WithStatusClassifier (NewStatusClassifier [''deleted''] [])])
      (PageSize 1 (OfType ''user'' NewListBuilder)) = Some (Ok items) \<and>
    (\<lambda>r. sl_ID (ss_Ref r)) ` set items = {''a'', ''c''}"
proof -
  let ?r = "NewInMemoryStreamReader [WithStatusClassifier (NewStatusClassifier [''deleted''] [])]"
  let ?opts = "PageSize 1 (OfType ''user'' NewListBuilder)"
  have opts: "lo_Type ?opts = ''user''" "lo_After ?opts = []" "lo_Limit ?opts = 1" "lo_Tombstone ?opts = TombstoneExclude"
    by (simp_all add: PageSize_def OfType_def NewListBuilder_def maxPageSize_def)
  have streams: "streams_in sample_journal = {(''user'', ''a''), (''user'', ''b''), (''user'', ''c'')}"
    by (auto simp: streams_in_def sample_journal_def sample_event_def)
  have "{i. (''user'', i) \<in> streams_in sample_journal} = {''a'', ''b'', ''c''}"
    by (auto simp: streams)
  then have "\<exists>items. follow 3 (\<lambda>i. i) (\<lambda>xs. xs) (Ok sample_journal) ?r ?opts = Some (Ok items) \<and>
      sorted_wrt (\<lambda>a b. sl_ID (ss_Ref a) < sl_ID (ss_Ref b)) items \<and>
      set items = {summary (ir_classifier ?r) ''user'' i sample_journal | i. (''user'', i) \<in> streams_in sample_journal \<and>
        visible TombstoneExclude (ClassifyLast (ir_classifier ?r) (last (events_of ''user'' i sample_journal)))}"
    using listing_complete [of "\<lambda>xs. xs" "\<lambda>i. i" sample_journal ?opts ?r 3]
    by (simp add: rearranges_def tells_apart_def streams opts fresh_def NewInMemoryStreamReader_def page_limit_def)
  then obtain items where items: "follow 3 (\<lambda>i. i) (\<lambda>xs. xs) (Ok sample_journal) ?r ?opts = Some (Ok items)"
    "set items = {summary (ir_classifier ?r) ''user'' i sample_journal | i. (''user'', i) \<in> streams_in sample_journal \<and>
        visible TombstoneExclude (ClassifyLast (ir_classifier ?r) (last (events_of ''user'' i sample_journal)))}"
    by blast
  have "(\<lambda>r. sl_ID (ss_Ref r)) ` set items = {i. (''user'', i) \<in> streams_in sample_journal \<and>
        visible TombstoneExclude (ClassifyLast (ir_classifier ?r) (last (events_of ''user'' i sample_journal)))}"
    by (force simp: items(2))
  also have "\<dots> = {i \<in> {''a'', ''b'', ''c''}.
      e_eventType (last (events_of ''user'' i sample_journal)) \<noteq> ''deleted''}"
    by (auto simp: streams ClassifyLast_def NewInMemoryStreamReader_def WithStatusClassifier_def
      NewStatusClassifier_def NewTypeSet_def sc_configured_def)
  also have "\<dots> = {''a'', ''c''}"
    by (auto simp: events_of_def sample_journal_def sample_event_def)
  finally show ?thesis
    using items(1) by blast
qed

text \<open>The listing without status is the same page without the status, and the builder keeps its page size in bounds.\<close>

lemma List_strips_status:
  assumes "ListWithStatus disp order journal r opts = (r', Ok page)"
  shows "StreamReader_List disp order journal r opts =
    (r', Ok \<lparr> pg_Items = map ss_Ref (pg_Items page), pg_HasMore = pg_HasMore page \<rparr>)"
  using assms by (simp add: StreamReader_List_def ListRefsFromStatus_def)

lemma PageSize_bounds: "1 \<le> lo_Limit (PageSize n opts) \<and> lo_Limit (PageSize n opts) \<le> maxPageSize"
  using word_gt_0 [of n]
  by (auto simp: PageSize_def maxPageSize_def defaultPageSize_def inc_le not_less dest: inc_le [of 0])

section \<open>Cursors and caches that go stale\<close>

text \<open>
  A cursor that matches no entry of the filtered index is ignored: the reader answers with the first
  page again. That is what a client meets when the stream it stopped at is tombstoned before it asks
  for the next page.
\<close>

lemma cursor_loop_missing:
  "\<forall>r \<in> set refs. disp (sl_ID (ss_Ref r)) \<noteq> disp after \<Longrightarrow> cursor_loop disp refs after = None"
  by (induction refs) auto

lemma tombstoned_cursor_restarts:
  assumes "rearranges order" and "tells_apart disp events" and "lo_Type opts \<noteq> []"
    and "lo_Tombstone opts = TombstoneExclude" and "(lo_Type opts, lo_After opts) \<in> streams_in events"
    and "ClassifyLast (ir_classifier r) (last (events_of (lo_Type opts) (lo_After opts) events)) = StatusTombstoned"
    and "ir_cached r = None"
  shows "snd (ListWithStatus disp order (Ok events) r opts) =
    snd (ListWithStatus disp order (Ok events) r (opts \<lparr> lo_After := [] \<rparr>))"
proof -
  let ?S = "sorted_refs disp order (ir_classifier r) events"
  have "disp (sl_ID (ss_Ref s)) \<noteq> disp (lo_After opts)" if mem: "s \<in> set (matches opts ?S)" for s
  proof -
    obtain i where i: "s = summary (ir_classifier r) (lo_Type opts) i events" "(lo_Type opts, i) \<in> streams_in events"
      "visible (lo_Tombstone opts) (ClassifyLast (ir_classifier r) (last (events_of (lo_Type opts) i events)))"
      using mem by (auto simp: matches_exact(2) [OF assms(1-3)])
    then have "i \<noteq> lo_After opts"
      using assms(4,6) by auto
    moreover have "i \<in> snd ` streams_in events" "lo_After opts \<in> snd ` streams_in events"
      using i(2) assms(5) by force+
    ultimately show ?thesis
      using assms(2) i(1) by (simp add: tells_apart_def inj_on_eq_iff)
  qed
  then have "applyCursor disp (matches opts ?S) (lo_After opts) = matches opts ?S"
    using cursor_loop_missing [of "matches opts ?S" disp "lo_After opts"] by (simp add: applyCursor_def)
  then show ?thesis
    by (simp add: ListWithStatus_def getRefsUnsorted_def assms(7) rebuildCache_def rebuild_read_def
      select_page_matches applyCursor_def)
qed

text \<open>
  An invalidation that falls between the read of the journal and the assignment of a rebuild is lost:
  the reader keeps answering from the journal as it was before, whatever has been published since.
\<close>

lemma lost_invalidation:
  assumes "rebuild_read disp order (Ok earlier) r = Ok refs"
  shows "ListWithStatus disp order journal (rebuild_store refs (InvalidateCache r)) opts =
    (rebuild_store refs (InvalidateCache r),
     Ok (select_page disp opts (sorted_refs disp order (ir_classifier r) earlier)))"
  using assms
  by (auto simp: ListWithStatus_def getRefsUnsorted_def rebuild_store_def rebuild_read_def InvalidateCache_def)

text \<open>Without such an interleaving the middleware keeps the reader exact.\<close>

lemma invalidation_fresh:
  assumes "CacheInvalidationMiddleware (\<lambda>(r, w). (InvalidateCache r, w)) nxt events (r, w) = ((r', w'), Ok ())"
  shows "fresh disp order journal r'"
  using assms
  by (auto simp: CacheInvalidationMiddleware_def InvalidateCache_def fresh_def split: prod.splits outcome.splits)

text \<open>
  Marking never fails and leaves the listing as it is: the marked events have the streams, versions,
  times and types of the originals.
\<close>

definition same_listing :: "event \<Rightarrow> event \<Rightarrow> bool" where
  "same_listing e m \<longleftrightarrow> event_core m = event_core e \<and> e_occurredAt m = e_occurredAt e"

lemma marks_same_listing:
  "\<exists>m. MarkTombstone (Some e) = Ok m \<and> same_listing e m" "\<exists>m. MarkRebirth (Some e) = Ok m \<and> same_listing e m"
  unfolding MarkTombstone_def MarkRebirth_def same_listing_def
  using marked_event [of e _ _ "[]"] by metis+

lemma mark_events_keeps:
  "\<exists>marked. mark_events deletes rebirths events acc = Ok (acc @ marked) \<and> list_all2 same_listing events marked"
proof (induction events arbitrary: acc)
  case (Cons e events)
  obtain d b where db: "MarkTombstone (Some e) = Ok d" "same_listing e d" "MarkRebirth (Some e) = Ok b" "same_listing e b"
    using marks_same_listing by blast
  have "same_listing e e"
    by (simp add: same_listing_def)
  then have "\<exists>m. same_listing e m \<and>
      mark_events deletes rebirths (e # events) acc = mark_events deletes rebirths events (acc @ [m])"
    using db(2,4) by (cases "e_eventType e \<in> deletes"; cases "e_eventType e \<in> rebirths") (auto simp: db(1,3))
  then obtain m where m: "same_listing e m"
    "mark_events deletes rebirths (e # events) acc = mark_events deletes rebirths events (acc @ [m])"
    by blast
  with Cons [of "acc @ [m]"] show ?case
    by (metis append.assoc append_Cons append_Nil list_all2_Cons)
qed simp

lemma same_listing_summary:
  assumes "list_all2 same_listing events marked"
  shows "streams_in marked = streams_in events" and "summary c t i marked = summary c t i events"
proof -
  show "streams_in marked = streams_in events"
    using assms by (induction rule: list_all2_induct) (auto simp: streams_in_def same_listing_def event_core_def)
  have "list_all2 same_listing (events_of t i events) (events_of t i marked)"
    using assms by (induction rule: list_all2_induct) (auto simp: events_of_def same_listing_def event_core_def)
  then have "length (events_of t i marked) = length (events_of t i events) \<and>
      (events_of t i events \<noteq> [] \<longrightarrow> same_listing (last (events_of t i events)) (last (events_of t i marked)))"
    by (induction rule: list_all2_induct) auto
  then show "summary c t i marked = summary c t i events"
    by (cases "events_of t i events = []")
      (auto simp: summary_def Let_def same_listing_def event_core_def ClassifyLast_def)
qed

lemma StatusMiddleware_transparent:
  "\<exists>marked. StatusMiddleware deleteTypes rebirthTypes nxt events w = nxt marked w \<and>
     streams_in marked = streams_in events \<and> (\<forall>c t i. summary c t i marked = summary c t i events)"
  using mark_events_keeps [of "NewTypeSet deleteTypes" "NewTypeSet rebirthTypes" events "[]"] same_listing_summary
  by (fastforce simp: StatusMiddleware_def)

end
