(* ===== verification/BoundedMap.thy ===== *)
theory BoundedMap
  imports Prelude "HOL-Library.AList"
begin

text \<open>
  The bounded map of \<open>src/commandlifecycle/bounded.go\<close>: a map with a queue of its keys in the order
  of insertion, evicted at capacity and compacted when deletions dominate. A lookup after a write
  sees it and eviction only forgets; the queue, however, may hold a key several times.
\<close>

section \<open>Operations\<close>

record 'a boundedMap =
  bm_entries :: "(string \<times> 'a) list"
  bm_order :: "string list"
  bm_stale :: int
  bm_cap :: int

definition lifecycle_defaultCacheCapacity :: int where
  "lifecycle_defaultCacheCapacity = 1024"

definition compactStaleThreshold :: int where
  "compactStaleThreshold = 64"

definition newBoundedMap :: "int \<Rightarrow> 'a boundedMap" where
  "newBoundedMap capacity = \<lparr> bm_entries = [], bm_order = [], bm_stale = 0, bm_cap = capacity \<rparr>"

definition bm_get :: "'a boundedMap \<Rightarrow> string \<Rightarrow> 'a option" where
  "bm_get m key = map_of (bm_entries m) key"

definition bm_len :: "'a boundedMap \<Rightarrow> int" where
  "bm_len m = int (length (bm_entries m))"

text \<open>The loop of \<open>evictOldest\<close> over the queue: the entries, the queue and the stale count it leaves.\<close>

fun evict_loop :: "(string \<times> 'a) list \<Rightarrow> string list \<Rightarrow> int \<Rightarrow> (string \<times> 'a) list \<times> string list \<times> int" where
  "evict_loop entries [] stale = (entries, [], stale)"
| "evict_loop entries (oldest # order) stale =
     (if map_of entries oldest \<noteq> None then (AList.delete oldest entries, order, stale)
      else evict_loop entries order (stale - 1))"

definition bm_evictOldest :: "'a boundedMap \<Rightarrow> 'a boundedMap" where
  "bm_evictOldest m =
     (case evict_loop (bm_entries m) (bm_order m) (bm_stale m) of
        (entries, order, stale) \<Rightarrow> m \<lparr> bm_entries := entries, bm_order := order, bm_stale := stale \<rparr>)"

definition bm_put :: "'a boundedMap \<Rightarrow> string \<Rightarrow> 'a \<Rightarrow> 'a boundedMap" where
  "bm_put m key val =
     (let m' = (if bm_get m key = None then
          (let m1 = (if 0 < bm_cap m \<and> bm_cap m \<le> bm_len m then bm_evictOldest m else m) in
           m1 \<lparr> bm_order := bm_order m1 @ [key] \<rparr>)
        else m) in
      m' \<lparr> bm_entries := AList.update key val (bm_entries m') \<rparr>)"

definition bm_maybeCompact :: "'a boundedMap \<Rightarrow> 'a boundedMap" where
  "bm_maybeCompact m =
     (if bm_stale m \<le> compactStaleThreshold \<or> bm_stale m \<le> bm_len m then m
      else m \<lparr> bm_order := filter (\<lambda>key. bm_get m key \<noteq> None) (bm_order m), bm_stale := 0 \<rparr>)"

definition bm_delete :: "'a boundedMap \<Rightarrow> string \<Rightarrow> 'a boundedMap" where
  "bm_delete m key =
     (if bm_get m key = None then m
      else bm_maybeCompact (m \<lparr> bm_entries := AList.delete key (bm_entries m), bm_stale := bm_stale m + 1 \<rparr>))"

section \<open>Lookups\<close>

lemma evict_loop_le:
  "evict_loop entries order stale = (entries', order', stale') \<Longrightarrow> map_of entries' \<subseteq>\<^sub>m map_of entries"
  by (induction entries order stale rule: evict_loop.induct)
    (auto simp: map_le_def delete_conv' split: if_splits)

lemma bm_get_evict: "bm_get (bm_evictOldest m) \<subseteq>\<^sub>m bm_get m"
proof -
  obtain e' o' s' where loop: "evict_loop (bm_entries m) (bm_order m) (bm_stale m) = (e', o', s')"
    by (metis prod_cases3)
  have "bm_get (bm_evictOldest m) = map_of e'" "bm_get m = map_of (bm_entries m)"
    by (auto simp: bm_evictOldest_def loop bm_get_def)
  with evict_loop_le [OF loop] show ?thesis
    by simp
qed

lemma bm_get_new [simp]: "bm_get (newBoundedMap c) = Map.empty"
  by (rule ext) (simp add: bm_get_def newBoundedMap_def)

lemma bm_get_compact [simp]: "bm_get (bm_maybeCompact m) = bm_get m"
  by (rule ext) (simp add: bm_maybeCompact_def bm_get_def)

lemma bm_get_delete [simp]: "bm_get (bm_delete m key) = (bm_get m)(key := None)"
proof -
  have "bm_get (m \<lparr> bm_entries := AList.delete key (bm_entries m), bm_stale := n \<rparr>) = (bm_get m)(key := None)" for n
    by (rule ext) (simp add: bm_get_def delete_conv')
  then show ?thesis
    by (auto simp: bm_delete_def)
qed

lemma bm_get_put [simp]: "bm_get (bm_put m key val) key = Some val"
  by (simp add: bm_put_def bm_get_def Let_def update_conv')

lemma bm_get_put_other:
  assumes "key' \<noteq> key" and "bm_get (bm_put m key val) key' = Some v"
  shows "bm_get m key' = Some v"
proof -
  let ?m = "if bm_get m key = None \<and> 0 < bm_cap m \<and> bm_cap m \<le> bm_len m then bm_evictOldest m else m"
  have "bm_get (bm_put m key val) key' = bm_get ?m key'"
    using assms(1) by (simp add: bm_put_def bm_get_def Let_def update_conv')
  with assms(2) bm_get_evict [of m] show ?thesis
    by (auto simp: map_le_def dom_def split: if_splits)
qed

section \<open>Sizes\<close>

text \<open>What the operations keep: distinct keys, all of them queued, and no more than the capacity.\<close>

definition bm_inv :: "'a boundedMap \<Rightarrow> bool" where
  "bm_inv m \<longleftrightarrow> distinct (map fst (bm_entries m)) \<and> fst ` set (bm_entries m) \<subseteq> set (bm_order m) \<and>
     (0 < bm_cap m \<longrightarrow> bm_len m \<le> bm_cap m)"

lemma bm_inv_new: "bm_inv (newBoundedMap c)"
  by (simp add: bm_inv_def newBoundedMap_def bm_len_def)

lemma length_delete_key:
  "distinct (map fst al) \<Longrightarrow> map_of al k \<noteq> None \<Longrightarrow> Suc (length (AList.delete k al)) = length al"
proof (induction al)
  case (Cons p al)
  show ?case
  proof (cases "fst p = k")
    case True
    with Cons.prems(1) have "AList.delete k al = al"
      by (intro delete_id) (auto simp: image_iff)
    with True show ?thesis
      by simp
  next
    case False
    with Cons show ?thesis
      by simp
  qed
qed simp

lemma delete_fst: "fst ` set (AList.delete k al) = fst ` set al - {k}"
  using arg_cong [OF delete_keys [of k al], of set] by simp

lemma length_update:
  "length (AList.update k v al) = (if k \<in> fst ` set al then length al else Suc (length al))"
  by (induction al) auto

lemma evict_loop_inv:
  assumes "evict_loop entries order stale = (entries', order', stale')"
    and "distinct (map fst entries)" and "fst ` set entries \<subseteq> set order" and "entries \<noteq> []"
  shows "distinct (map fst entries') \<and> fst ` set entries' \<subseteq> set order' \<and> Suc (length entries') = length entries"
  using assms
proof (induction entries order stale rule: evict_loop.induct)
  case (2 entries oldest order stale)
  show ?case
  proof (cases "map_of entries oldest = None")
    case True
    then have "oldest \<notin> fst ` set entries"
      by (simp add: map_of_eq_None_iff)
    with 2 True show ?thesis
      by auto
  next
    case False
    then have "entries' = AList.delete oldest entries" "order' = order"
      using 2(2) by auto
    with 2(3,4) length_delete_key [OF 2(3) False] show ?thesis
      by (auto simp: delete_fst distinct_delete)
  qed
qed simp

lemma bm_inv_put:
  assumes "bm_inv m"
  shows "bm_inv (bm_put m key val)"
proof (cases "bm_get m key")
  case None
  define m1 where "m1 = (if 0 < bm_cap m \<and> bm_cap m \<le> bm_len m then bm_evictOldest m else m)"
  have room: "distinct (map fst (bm_entries m1)) \<and> fst ` set (bm_entries m1) \<subseteq> set (bm_order m1) \<and>
      bm_cap m1 = bm_cap m \<and> (0 < bm_cap m \<longrightarrow> bm_len m1 < bm_cap m)"
  proof (cases "0 < bm_cap m \<and> bm_cap m \<le> bm_len m")
    case True
    then have "bm_entries m \<noteq> []"
      by (auto simp: bm_len_def)
    obtain e' o' s' where loop: "evict_loop (bm_entries m) (bm_order m) (bm_stale m) = (e', o', s')"
      by (metis prod_cases3)
    have "distinct (map fst e') \<and> fst ` set e' \<subseteq> set o' \<and> Suc (length e') = length (bm_entries m)"
      by (rule evict_loop_inv [OF loop]) (use assms \<open>bm_entries m \<noteq> []\<close> in \<open>auto simp: bm_inv_def\<close>)
    with True assms show ?thesis
      by (auto simp: m1_def bm_evictOldest_def loop bm_inv_def bm_len_def)
  next
    case False
    with assms show ?thesis
      by (auto simp: m1_def bm_inv_def)
  qed
  have "bm_put m key val = m1 \<lparr> bm_order := bm_order m1 @ [key], bm_entries := AList.update key val (bm_entries m1) \<rparr>"
    using None by (simp add: bm_put_def m1_def Let_def)
  moreover have "length (AList.update key val (bm_entries m1)) \<le> Suc (length (bm_entries m1))"
    by (simp add: length_update)
  ultimately show ?thesis
    using room by (auto simp: bm_inv_def bm_len_def distinct_update dom_update)
next
  case (Some v)
  then have "key \<in> fst ` set (bm_entries m)"
    by (metis bm_get_def domI dom_map_of_conv_image_fst)
  moreover have "length (AList.update key val (bm_entries m)) = length (bm_entries m)"
    using calculation by (simp add: length_update)
  ultimately show ?thesis
    using assms Some by (auto simp: bm_inv_def bm_put_def bm_len_def distinct_update dom_update)
qed

lemma bm_inv_delete:
  assumes "bm_inv m"
  shows "bm_inv (bm_delete m key)"
proof -
  have "bm_inv (m \<lparr> bm_entries := AList.delete key (bm_entries m), bm_stale := n \<rparr>)" for n
    using assms length_delete_le [of key "bm_entries m"]
    by (auto simp: bm_inv_def bm_len_def delete_fst distinct_delete)
  moreover have "bm_inv (bm_maybeCompact m')" if "bm_inv m'" for m' :: "'a boundedMap"
    using that by (auto simp: bm_inv_def bm_maybeCompact_def bm_len_def bm_get_def map_of_eq_None_iff)
  ultimately show ?thesis
    using assms by (simp add: bm_delete_def)
qed

section \<open>A key that is deleted and inserted again\<close>

text \<open>
  The stale occurrence of a key stays in the queue when the key is inserted again. So the newest
  entry can be evicted in place of the oldest, and a compaction keeps every occurrence of a live key:
  deleting and inserting two keys in turn grows the queue without bound.
\<close>

lemma newest_evicted:
  fixes v :: 'a
  defines "m \<equiv> bm_put (bm_delete (bm_put (bm_put (newBoundedMap 2) ''a'' v) ''b'' v) ''a'') ''a'' v"
  shows "bm_get m ''a'' = Some v" and "bm_get (bm_put m ''c'' v) ''a'' = None"
    and "bm_get (bm_put m ''c'' v) ''b'' = Some v"
  by (simp_all add: m_def bm_put_def bm_delete_def bm_maybeCompact_def bm_evictOldest_def bm_get_def bm_len_def
      newBoundedMap_def compactStaleThreshold_def Let_def)

definition churn :: "'a \<Rightarrow> string \<Rightarrow> 'a boundedMap \<Rightarrow> 'a boundedMap" where
  "churn v k m = bm_put (bm_delete m k) k v"

definition two_keys :: "'a \<Rightarrow> int \<Rightarrow> nat \<Rightarrow> 'a boundedMap" where
  "two_keys v cap n =
     \<lparr> bm_entries = [(''a'', v), (''b'', v)], bm_order = replicate n ''a'' @ [''b''], bm_stale = 0, bm_cap = cap \<rparr>"

lemmas bm_defs = bm_put_def bm_delete_def bm_maybeCompact_def bm_get_def bm_len_def compactStaleThreshold_def

lemma churn_first: "1 < cap \<Longrightarrow> churn v ''a'' (two_keys v cap n) =
    \<lparr> bm_entries = [(''b'', v), (''a'', v)], bm_order = replicate n ''a'' @ [''b''] @ replicate 1 ''a'', bm_stale = 1,
      bm_cap = cap \<rparr>"
  by (simp add: churn_def two_keys_def bm_defs)

lemma churn_next:
  assumes "1 < cap" and "j < 64"
  shows "churn v ''a'' \<lparr> bm_entries = [(''b'', v), (''a'', v)], bm_order = replicate n ''a'' @ [''b''] @ replicate j ''a'',
      bm_stale = int j, bm_cap = cap \<rparr> =
    \<lparr> bm_entries = [(''b'', v), (''a'', v)], bm_order = replicate n ''a'' @ [''b''] @ replicate (Suc j) ''a'',
      bm_stale = int (Suc j), bm_cap = cap \<rparr>"
  using assms by (simp add: churn_def bm_defs replicate_append_same)

lemma churn_many:
  assumes "1 < cap" and "j < 64"
  shows "(churn v ''a'' ^^ Suc j) (two_keys v cap n) =
    \<lparr> bm_entries = [(''b'', v), (''a'', v)], bm_order = replicate n ''a'' @ [''b''] @ replicate (Suc j) ''a'',
      bm_stale = int (Suc j), bm_cap = cap \<rparr>"
  using assms(2)
proof (induction j)
  case 0
  then show ?case
    using churn_first [OF assms(1), of v n] by simp
next
  case (Suc j)
  have "(churn v ''a'' ^^ Suc (Suc j)) (two_keys v cap n) = churn v ''a'' ((churn v ''a'' ^^ Suc j) (two_keys v cap n))"
    by simp
  also have "\<dots> = churn v ''a'' \<lparr> bm_entries = [(''b'', v), (''a'', v)],
      bm_order = replicate n ''a'' @ [''b''] @ replicate (Suc j) ''a'', bm_stale = int (Suc j), bm_cap = cap \<rparr>"
    using Suc by (simp only: Suc_lessD)
  finally show ?case
    using churn_next [OF assms(1) Suc.prems, of v n] by simp
qed

lemma churn_compacts:
  assumes "1 < cap"
  shows "churn v ''b'' \<lparr> bm_entries = [(''b'', v), (''a'', v)], bm_order = replicate n ''a'' @ [''b''] @ replicate j ''a'',
      bm_stale = 64, bm_cap = cap \<rparr> = two_keys v cap (n + j)"
  using assms by (simp add: churn_def two_keys_def bm_defs replicate_add)

lemma churn_round:
  assumes "1 < cap"
  shows "churn v ''b'' ((churn v ''a'' ^^ 64) (two_keys v cap n)) = two_keys v cap (n + 64)"
proof -
  have "Suc 63 = 64" "int 64 = 64"
    by simp_all
  then have "(churn v ''a'' ^^ 64) (two_keys v cap n) =
      \<lparr> bm_entries = [(''b'', v), (''a'', v)], bm_order = replicate n ''a'' @ [''b''] @ replicate 64 ''a'',
        bm_stale = 64, bm_cap = cap \<rparr>"
    using churn_many [OF assms, of 63 v n] by (simp only: \<open>Suc 63 = 64\<close> \<open>int 64 = 64\<close>)
  then show ?thesis
    by (simp only: churn_compacts [OF assms])
qed

lemma queue_unbounded:
  assumes "1 < cap"
  shows "(((\<lambda>m. churn v ''b'' ((churn v ''a'' ^^ 64) m)) ^^ r)
      (bm_put (bm_put (newBoundedMap cap) ''a'' v) ''b'' v)) = two_keys v cap (1 + 64 * r)"
proof (induction r)
  case 0
  show ?case
    using assms by (simp add: newBoundedMap_def two_keys_def bm_defs)
next
  case (Suc r)
  then show ?case
    using churn_round [OF assms, of v "1 + 64 * r"] by (simp add: algebra_simps)
qed

end
