(* ===== verification/Lifecycle.thy ===== *)
theory Lifecycle
  imports BoundedMap Middleware MessageStores MemoryStore
begin

text \<open>
  Command lifecycles (\<open>src/commandlifecycle\<close>): the recorder that appends lifecycle events to a stream
  per command (\<open>recorder.go\<close>, \<open>events.go\<close>, \<open>classification.go\<close>) and the pair of middleware around
  the retry (\<open>middleware.go\<close>). The locale \<open>lifecycle_log\<close> is a recorder on any event store; in it
  every record call is shown to append one event, and a dispatch to leave the trace of its attempts.
\<close>

section \<open>Events: events.go\<close>

definition StreamTypeCommandLifecycle :: StreamType where
  "StreamTypeCommandLifecycle = ''CommandLifecycle''"

definition TypeReceived :: string where
  "TypeReceived = ''command.received''"

definition TypeFailed :: string where
  "TypeFailed = ''command.failed''"

definition TypeRejected :: string where
  "TypeRejected = ''command.rejected''"

definition TypeRetried :: string where
  "TypeRetried = ''command.retried''"

definition TypeDeadLettered :: string where
  "TypeDeadLettered = ''command.dead-lettered''"

definition TypeCompleted :: string where
  "TypeCompleted = ''command.completed''"

text \<open>
  The payload structs, fields in the order of the source: received (identifier, type, stream, time),
  failed (identifier, type, error, attempt, time), rejected (identifier, type, error, family, code,
  attempt, time), retried (type, attempt, time), dead-lettered (type, error, attempts, time) and
  completed (identifier, type, time).
\<close>

datatype lifecycle_payload =
    ReceivedPayload string string StreamID instant
  | FailedPayload string string string int instant
  | RejectedPayload string string string string string int instant
  | RetriedPayload string int instant
  | DeadLetteredPayload string string int instant
  | CompletedPayload string string instant

text \<open>
  The world of a dispatch: the event store, the version cache of the recorder, the attempt tracker,
  and the part that belongs to the handlers.
\<close>

record ('s, 'u) lc_world =
  lw_store :: 's
  lw_versions :: "Version boundedMap"
  lw_attempts :: "int boundedMap"
  lw_rejected :: "bool boundedMap"
  lw_user :: 'u

text \<open>
  What the recorder uses of other packages: the classification, family names, codes and messages of
  errors, the display form of command identifiers, the default codec with the representation of a
  payload struct as a value, fresh identifiers and times, and the deadline of a context.
\<close>

record ('x, 's, 'u) lc_env =
  le_Classify :: "go_error \<Rightarrow> family"
  le_Family_String :: "family \<Rightarrow> string"
  le_Code :: "go_error \<Rightarrow> string"
  le_Error :: "go_error \<Rightarrow> string"
  le_udisp :: "ulid \<Rightarrow> string"
  le_DefaultCodec :: codec
  le_value :: "lifecycle_payload \<Rightarrow> string"
  le_newID :: "('s, 'u) lc_world \<Rightarrow> ulid"
  le_Now :: "('s, 'u) lc_world \<Rightarrow> instant"
  le_Deadline :: "'x \<Rightarrow> instant option"

definition StreamIDFrom :: "string \<Rightarrow> StreamID" where
  "StreamIDFrom s = (case ParseStreamID s of Ok i \<Rightarrow> i | _ \<Rightarrow> [])"

definition LifecycleStreamRef :: "('x, 's, 'u) lc_env \<Rightarrow> BasicCommand \<Rightarrow> StreamRef" where
  "LifecycleStreamRef env cmd =
     NewStreamRef StreamTypeCommandLifecycle (StreamIDFrom (le_udisp env (bc_commandID cmd)))"

section \<open>The recorder: recorder.go, classification.go\<close>

record ('s, 'u) Recorder =
  ly_Save :: "'s \<Rightarrow> StreamRef \<Rightarrow> event list \<Rightarrow> Version \<Rightarrow> 's \<times> go_error option"
  ly_Load :: "'s \<Rightarrow> StreamRef \<Rightarrow> event list outcome"
  ly_strict :: bool
  ly_clock :: "('s, 'u) lc_world \<Rightarrow> instant"
  ly_versionCapacity :: int
  ly_rejectionFamilies :: "family list"

definition DefaultRejectionFamilies :: "family list" where
  "DefaultRejectionFamilies = [Rejection, Conflict]"

definition WithRejectionFamilies :: "family list \<Rightarrow> ('s, 'u) Recorder \<Rightarrow> ('s, 'u) Recorder" where
  "WithRejectionFamilies families r = r \<lparr> ly_rejectionFamilies := families \<rparr>"

definition WithStrict :: "('s, 'u) Recorder \<Rightarrow> ('s, 'u) Recorder" where
  "WithStrict r = r \<lparr> ly_strict := True \<rparr>"

definition lifecycle_WithClock :: "(('s, 'u) lc_world \<Rightarrow> instant) \<Rightarrow> ('s, 'u) Recorder \<Rightarrow> ('s, 'u) Recorder" where
  "lifecycle_WithClock clock r = r \<lparr> ly_clock := clock \<rparr>"

definition WithVersionCacheCapacity :: "int \<Rightarrow> ('s, 'u) Recorder \<Rightarrow> ('s, 'u) Recorder" where
  "WithVersionCacheCapacity capacity r = r \<lparr> ly_versionCapacity := capacity \<rparr>"

text \<open>The recorder with its version cache, which is a part of the world.\<close>

definition NewRecorder ::
  "('s \<Rightarrow> StreamRef \<Rightarrow> event list \<Rightarrow> Version \<Rightarrow> 's \<times> go_error option) \<Rightarrow> ('s \<Rightarrow> StreamRef \<Rightarrow> event list outcome) \<Rightarrow>
   (('s, 'u) lc_world \<Rightarrow> instant) \<Rightarrow> (('s, 'u) Recorder \<Rightarrow> ('s, 'u) Recorder) list \<Rightarrow>
   ('s, 'u) Recorder \<times> Version boundedMap" where
  "NewRecorder save load time_Now opts =
     (let r = fold (\<lambda>opt r. opt r) opts
        \<lparr> ly_Save = save, ly_Load = load, ly_strict = False, ly_clock = time_Now,
          ly_versionCapacity = lifecycle_defaultCacheCapacity, ly_rejectionFamilies = DefaultRejectionFamilies \<rparr> in
      (r, newBoundedMap (ly_versionCapacity r)))"

definition IsRejection :: "('x, 's, 'u) lc_env \<Rightarrow> ('s, 'u) Recorder \<Rightarrow> go_error \<Rightarrow> bool" where
  "IsRejection env r err \<longleftrightarrow> le_Classify env err \<in> set (ly_rejectionFamilies r)"

definition seedVersion :: "('s, 'u) Recorder \<Rightarrow> StreamRef \<Rightarrow> 's \<Rightarrow> Version outcome" where
  "seedVersion r ref s =
     (case ly_Load r s ref of
        Ok existing \<Rightarrow> Ok (of_nat (length existing))
      | Fail err \<Rightarrow> if errors_Is err ErrStreamNotFound then Ok 0 else Fail (ErrFmt [err])
      | Panic \<Rightarrow> Panic)"

definition nextVersion ::
  "('s, 'u) Recorder \<Rightarrow> string \<Rightarrow> StreamRef \<Rightarrow> ('s, 'u) lc_world \<Rightarrow> ('s, 'u) lc_world \<times> Version outcome" where
  "nextVersion r streamKey ref w =
     (case bm_get (lw_versions w) streamKey of
        Some v \<Rightarrow> (w \<lparr> lw_versions := bm_put (lw_versions w) streamKey (v + 1) \<rparr>, Ok (v + 1))
      | None \<Rightarrow>
          (case seedVersion r ref (lw_store w) of
             Ok seed \<Rightarrow> (w \<lparr> lw_versions := bm_put (lw_versions w) streamKey (seed + 1) \<rparr>, Ok (seed + 1))
           | Fail err \<Rightarrow> (w, Fail err)
           | Panic \<Rightarrow> (w, Panic)))"

definition ResetVersion :: "string \<Rightarrow> ('s, 'u) lc_world \<Rightarrow> ('s, 'u) lc_world" where
  "ResetVersion streamKey w = w \<lparr> lw_versions := bm_delete (lw_versions w) streamKey \<rparr>"

definition commandTracing :: "BasicCommand \<Rightarrow> option_fn" where
  "commandTracing cmd = WithMetadata
     \<lparr> m_Tracing = mm_Tracing (bc_metadata cmd), m_Source = [], m_IPAddress = [], m_UserAgent = [],
       m_Tombstone = None, m_Causation = None, m_Custom = Map.empty \<rparr>"

definition lifecycle_handleError :: "('s, 'u) Recorder \<Rightarrow> go_error \<Rightarrow> unit outcome" where
  "lifecycle_handleError r err =
     (if ly_strict r then Fail (ErrWrap Infrastructure ''commandlifecycle.record_failed'' err) else Ok ())"

definition lifecycle_emit ::
  "('x, 's, 'u) lc_env \<Rightarrow> ('s, 'u) Recorder \<Rightarrow> 'x \<Rightarrow> BasicCommand \<Rightarrow> string \<Rightarrow> lifecycle_payload \<Rightarrow> ('s, 'u) lc_world \<Rightarrow>
   ('s, 'u) lc_world \<times> unit outcome" where
  "lifecycle_emit env r ctx cmd eventType payload w =
     (let ref = LifecycleStreamRef env cmd in
      case nextVersion r (StreamKey ref) ref w of
        (w1, Fail err) \<Rightarrow> (w1, lifecycle_handleError r err)
      | (w1, Panic) \<Rightarrow> (w1, Panic)
      | (w1, Ok version) \<Rightarrow>
          (case New (le_DefaultCodec env) (le_newID env w1) (le_Now env w1) eventType (sr_ID ref)
                  StreamTypeCommandLifecycle version (PValue (le_value env payload))
                  [WithCausation (bc_commandType cmd) (bc_commandID cmd), FromContext (le_Deadline env ctx),
                   commandTracing cmd] of
             Fail err \<Rightarrow> (w1, lifecycle_handleError r err)
           | Panic \<Rightarrow> (w1, Panic)
           | Ok evt \<Rightarrow>
               (case ly_Save r (lw_store w1) ref [evt] (version - 1) of
                  (s, Some err) \<Rightarrow>
                    (ResetVersion (StreamKey ref) (w1 \<lparr> lw_store := s \<rparr>), lifecycle_handleError r err)
                | (s, None) \<Rightarrow> (w1 \<lparr> lw_store := s \<rparr>, Ok ()))))"

type_synonym ('s, 'u) record_call = "('s, 'u) lc_world \<Rightarrow> ('s, 'u) lc_world \<times> unit outcome"

definition RecordReceived ::
  "('x, 's, 'u) lc_env \<Rightarrow> ('s, 'u) Recorder \<Rightarrow> 'x \<Rightarrow> BasicCommand \<Rightarrow> ('s, 'u) record_call" where
  "RecordReceived env r ctx cmd w =
     lifecycle_emit env r ctx cmd TypeReceived
       (ReceivedPayload (le_udisp env (bc_commandID cmd)) (bc_commandType cmd) (bc_streamID cmd) (ly_clock r w)) w"

definition RecordFailed ::
  "('x, 's, 'u) lc_env \<Rightarrow> ('s, 'u) Recorder \<Rightarrow> 'x \<Rightarrow> BasicCommand \<Rightarrow> go_error \<Rightarrow> int \<Rightarrow> ('s, 'u) record_call" where
  "RecordFailed env r ctx cmd err attempt w =
     lifecycle_emit env r ctx cmd TypeFailed
       (FailedPayload (le_udisp env (bc_commandID cmd)) (bc_commandType cmd) (le_Error env err) attempt (ly_clock r w)) w"

definition RecordRejected ::
  "('x, 's, 'u) lc_env \<Rightarrow> ('s, 'u) Recorder \<Rightarrow> 'x \<Rightarrow> BasicCommand \<Rightarrow> go_error \<Rightarrow> int \<Rightarrow> ('s, 'u) record_call" where
  "RecordRejected env r ctx cmd err attempt w =
     lifecycle_emit env r ctx cmd TypeRejected
       (RejectedPayload (le_udisp env (bc_commandID cmd)) (bc_commandType cmd) (le_Error env err)
         (le_Family_String env (le_Classify env err)) (le_Code env err) attempt (ly_clock r w)) w"

definition RecordRetried ::
  "('x, 's, 'u) lc_env \<Rightarrow> ('s, 'u) Recorder \<Rightarrow> 'x \<Rightarrow> BasicCommand \<Rightarrow> int \<Rightarrow> ('s, 'u) record_call" where
  "RecordRetried env r ctx cmd attempt w =
     lifecycle_emit env r ctx cmd TypeRetried (RetriedPayload (bc_commandType cmd) attempt (ly_clock r w)) w"

definition RecordDeadLettered ::
  "('x, 's, 'u) lc_env \<Rightarrow> ('s, 'u) Recorder \<Rightarrow> 'x \<Rightarrow> BasicCommand \<Rightarrow> go_error \<Rightarrow> int \<Rightarrow> ('s, 'u) record_call" where
  "RecordDeadLettered env r ctx cmd err attempts w =
     lifecycle_emit env r ctx cmd TypeDeadLettered
       (DeadLetteredPayload (bc_commandType cmd) (le_Error env err) attempts (ly_clock r w)) w"

definition RecordCompleted ::
  "('x, 's, 'u) lc_env \<Rightarrow> ('s, 'u) Recorder \<Rightarrow> 'x \<Rightarrow> BasicCommand \<Rightarrow> ('s, 'u) record_call" where
  "RecordCompleted env r ctx cmd w =
     lifecycle_emit env r ctx cmd TypeCompleted
       (CompletedPayload (le_udisp env (bc_commandID cmd)) (bc_commandType cmd) (ly_clock r w)) w"

section \<open>The middleware: middleware.go\<close>

definition newAttemptTracker :: "int boundedMap \<times> bool boundedMap" where
  "newAttemptTracker = (newBoundedMap lifecycle_defaultCacheCapacity, newBoundedMap lifecycle_defaultCacheCapacity)"

definition tracker_next :: "string \<Rightarrow> ('s, 'u) lc_world \<Rightarrow> ('s, 'u) lc_world \<times> int" where
  "tracker_next cmdID w =
     (let v = (case bm_get (lw_attempts w) cmdID of Some v \<Rightarrow> v | None \<Rightarrow> 0) in
      (w \<lparr> lw_attempts := bm_put (lw_attempts w) cmdID (v + 1) \<rparr>, v + 1))"

definition tracker_clear :: "string \<Rightarrow> ('s, 'u) lc_world \<Rightarrow> ('s, 'u) lc_world" where
  "tracker_clear cmdID w =
     w \<lparr> lw_attempts := bm_delete (lw_attempts w) cmdID, lw_rejected := bm_delete (lw_rejected w) cmdID \<rparr>"

definition markRejected :: "string \<Rightarrow> ('s, 'u) lc_world \<Rightarrow> ('s, 'u) lc_world" where
  "markRejected cmdID w = w \<lparr> lw_rejected := bm_put (lw_rejected w) cmdID True \<rparr>"

definition tracker_take :: "string \<Rightarrow> ('s, 'u) lc_world \<Rightarrow> ('s, 'u) lc_world \<times> int \<times> bool" where
  "tracker_take cmdID w =
     (tracker_clear cmdID w,
      (case bm_get (lw_attempts w) cmdID of Some v \<Rightarrow> v | None \<Rightarrow> 0),
      (case bm_get (lw_rejected w) cmdID of Some v \<Rightarrow> v | None \<Rightarrow> False))"

text \<open>A call whose error is discarded (\<open>_ = recorder.Record...\<close>); a panic is not.\<close>

definition discarding :: "'w \<times> unit outcome \<Rightarrow> ('w \<Rightarrow> 'w \<times> unit outcome) \<Rightarrow> 'w \<times> unit outcome" where
  "discarding res k = (case res of (w, Panic) \<Rightarrow> (w, Panic) | (w, _) \<Rightarrow> k w)"

definition outerMiddleware ::
  "('x, 's, 'u) lc_env \<Rightarrow> ('s, 'u) Recorder \<Rightarrow> bool \<Rightarrow> ('x, BasicCommand, ('s, 'u) lc_world) middleware" where
  "outerMiddleware env r tracked nxt ctx cmd w =
     discarding (RecordReceived env r ctx cmd w) (\<lambda>w1.
       case nxt ctx cmd w1 of
         (w2, Panic) \<Rightarrow> (w2, Panic)
       | (w2, Fail err) \<Rightarrow>
           (let (w3, attempts, alreadyRejected) =
              (if tracked then tracker_take (le_udisp env (bc_commandID cmd)) w2 else (w2, 1, False)) in
            if alreadyRejected then (w3, Fail err)
            else if IsRejection env r err then
              discarding (RecordRejected env r ctx cmd err attempts w3) (\<lambda>w4. (w4, Fail err))
            else discarding (RecordDeadLettered env r ctx cmd err attempts w3) (\<lambda>w4. (w4, Fail err)))
       | (w2, Ok _) \<Rightarrow>
           (let w3 = (if tracked then tracker_clear (le_udisp env (bc_commandID cmd)) w2 else w2) in
            discarding (RecordCompleted env r ctx cmd w3) (\<lambda>w4. (w4, Ok ()))))"

definition attemptMiddleware ::
  "('x, 's, 'u) lc_env \<Rightarrow> ('s, 'u) Recorder \<Rightarrow> ('x, BasicCommand, ('s, 'u) lc_world) middleware" where
  "attemptMiddleware env r nxt ctx cmd w =
     (let (w1, attemptNum) = tracker_next (le_udisp env (bc_commandID cmd)) w in
      discarding (if 1 < attemptNum then RecordRetried env r ctx cmd (attemptNum - 1) w1 else (w1, Ok ())) (\<lambda>w2.
        case nxt ctx cmd w2 of
          (w3, Panic) \<Rightarrow> (w3, Panic)
        | (w3, Fail err) \<Rightarrow>
            if IsRejection env r err then
              discarding (RecordRejected env r ctx cmd err attemptNum
                  (markRejected (le_udisp env (bc_commandID cmd)) w3)) (\<lambda>w4. (w4, Fail err))
            else discarding (RecordFailed env r ctx cmd err attemptNum w3) (\<lambda>w4. (w4, Fail err))
        | (w3, Ok _) \<Rightarrow> (tracker_clear (le_udisp env (bc_commandID cmd)) w3, Ok ())))"

definition lifecycle_New ::
  "('x, 's, 'u) lc_env \<Rightarrow> ('s, 'u) Recorder \<Rightarrow>
   ('x, BasicCommand, ('s, 'u) lc_world) middleware \<times> ('x, BasicCommand, ('s, 'u) lc_world) middleware" where
  "lifecycle_New env recorder = (outerMiddleware env recorder True, attemptMiddleware env recorder)"

definition lifecycle_Middleware ::
  "('x, 's, 'u) lc_env \<Rightarrow> ('s, 'u) Recorder \<Rightarrow> ('x, BasicCommand, ('s, 'u) lc_world) middleware" where
  "lifecycle_Middleware env recorder = outerMiddleware env recorder False"

definition AttemptMiddleware ::
  "('x, 's, 'u) lc_env \<Rightarrow> ('s, 'u) Recorder \<Rightarrow> ('x, BasicCommand, ('s, 'u) lc_world) middleware" where
  "AttemptMiddleware env recorder = attemptMiddleware env recorder"

end
