(* ===== verification/LifecycleTrace.thy ===== *)
theory LifecycleTrace
  imports Lifecycle
begin

text \<open>
  What a dispatch leaves in the lifecycle stream of its command: the locale \<open>lifecycle_log\<close> is a
  recorder on an event store, its interpretation the recorder on the memory store.
\<close>

section \<open>Entries\<close>

datatype lifecycle_entry =
    Received | Failed go_error int | Rejected go_error int | Retried int | DeadLettered go_error int | Completed

fun entry_type :: "lifecycle_entry \<Rightarrow> string" where
  "entry_type Received = TypeReceived"
| "entry_type (Failed err n) = TypeFailed"
| "entry_type (Rejected err n) = TypeRejected"
| "entry_type (Retried n) = TypeRetried"
| "entry_type (DeadLettered err n) = TypeDeadLettered"
| "entry_type Completed = TypeCompleted"

fun entry_payload :: "('x, 's, 'u) lc_env \<Rightarrow> BasicCommand \<Rightarrow> lifecycle_entry \<Rightarrow> instant \<Rightarrow> lifecycle_payload" where
  "entry_payload env cmd Received tm =
     ReceivedPayload (le_udisp env (bc_commandID cmd)) (bc_commandType cmd) (bc_streamID cmd) tm"
| "entry_payload env cmd (Failed err n) tm =
     FailedPayload (le_udisp env (bc_commandID cmd)) (bc_commandType cmd) (le_Error env err) n tm"
| "entry_payload env cmd (Rejected err n) tm =
     RejectedPayload (le_udisp env (bc_commandID cmd)) (bc_commandType cmd) (le_Error env err)
       (le_Family_String env (le_Classify env err)) (le_Code env err) n tm"
| "entry_payload env cmd (Retried n) tm = RetriedPayload (bc_commandType cmd) n tm"
| "entry_payload env cmd (DeadLettered err n) tm = DeadLetteredPayload (bc_commandType cmd) (le_Error env err) n tm"
| "entry_payload env cmd Completed tm = CompletedPayload (le_udisp env (bc_commandID cmd)) (bc_commandType cmd) tm"

abbreviation lifecycle_key :: "('x, 's, 'u) lc_env \<Rightarrow> BasicCommand \<Rightarrow> string" where
  "lifecycle_key env cmd \<equiv> StreamKey (LifecycleStreamRef env cmd)"

abbreviation tracker_key :: "('x, 's, 'u) lc_env \<Rightarrow> BasicCommand \<Rightarrow> string" where
  "tracker_key env cmd \<equiv> le_udisp env (bc_commandID cmd)"

text \<open>An event records an entry: its type, stream, cause and the encoded payload with some time.\<close>

definition recorded :: "('x, 's, 'u) lc_env \<Rightarrow> BasicCommand \<Rightarrow> lifecycle_entry \<Rightarrow> event \<Rightarrow> bool" where
  "recorded env cmd en e \<longleftrightarrow> e_eventType e = entry_type en \<and>
     e_streamType e = StreamTypeCommandLifecycle \<and> e_streamID e = sr_ID (LifecycleStreamRef env cmd) \<and>
     m_Causation (e_metadata e) = Some \<lparr> c_CommandType = bc_commandType cmd, c_CommandID = bc_commandID cmd \<rparr> \<and>
     (\<exists>tm. cd_Encode (le_DefaultCodec env) (PValue (le_value env (entry_payload env cmd en tm))) = Ok (e_payload e))"

text \<open>The lifecycle stream grew by events for the given entries, with consecutive versions.\<close>

definition logged ::
  "('s \<Rightarrow> string \<Rightarrow> event list) \<Rightarrow> ('x, 's, 'u) lc_env \<Rightarrow> BasicCommand \<Rightarrow> ('s, 'u) lc_world \<Rightarrow> ('s, 'u) lc_world \<Rightarrow>
   lifecycle_entry list \<Rightarrow> bool" where
  "logged stream env cmd w w' ens \<longleftrightarrow>
     (\<exists>es. stream (lw_store w') (lifecycle_key env cmd) = stream (lw_store w) (lifecycle_key env cmd) @ es \<and>
       list_all2 (recorded env cmd) ens es \<and>
       (\<forall>i < length es. e_version (es ! i) = of_nat (length (stream (lw_store w) (lifecycle_key env cmd)) + i + 1)))"

text \<open>The version cache agrees with the store.\<close>

definition coherent ::
  "('s \<Rightarrow> bool) \<Rightarrow> ('s \<Rightarrow> bool) \<Rightarrow> ('s \<Rightarrow> string \<Rightarrow> event list) \<Rightarrow> ('s, 'u) lc_world \<Rightarrow> bool" where
  "coherent good is_open stream w \<longleftrightarrow> good (lw_store w) \<and> is_open (lw_store w) \<and>
     (\<forall>k v. bm_get (lw_versions w) k = Some v \<longrightarrow> length (stream (lw_store w) k) = unat v)"

lemma logged_refl: "stream (lw_store w') (lifecycle_key env cmd) = stream (lw_store w) (lifecycle_key env cmd) \<Longrightarrow>
    logged stream env cmd w w' []"
  by (simp add: logged_def)

lemma logged_trans:
  assumes "logged stream env cmd w w1 a" and "logged stream env cmd w1 w2 b"
  shows "logged stream env cmd w w2 (a @ b)"
proof -
  obtain as where as: "stream (lw_store w1) (lifecycle_key env cmd) = stream (lw_store w) (lifecycle_key env cmd) @ as"
    "list_all2 (recorded env cmd) a as"
    "\<forall>i < length as. e_version (as ! i) = of_nat (length (stream (lw_store w) (lifecycle_key env cmd)) + i + 1)"
    using assms(1) by (auto simp: logged_def)
  obtain bs where bs: "stream (lw_store w2) (lifecycle_key env cmd) = stream (lw_store w1) (lifecycle_key env cmd) @ bs"
    "list_all2 (recorded env cmd) b bs"
    "\<forall>i < length bs. e_version (bs ! i) = of_nat (length (stream (lw_store w1) (lifecycle_key env cmd)) + i + 1)"
    using assms(2) by (auto simp: logged_def)
  have "e_version ((as @ bs) ! i) = of_nat (length (stream (lw_store w) (lifecycle_key env cmd)) + i + 1)"
    if "i < length (as @ bs)" for i
  proof (cases "i < length as")
    case False
    with that bs(3) [rule_format, of "i - length as"] show ?thesis
      by (simp add: nth_append as(1))
  qed (simp add: nth_append as(3))
  with as bs show ?thesis
    unfolding logged_def by (intro exI [of _ "as @ bs"]) (simp add: list_all2_appendI)
qed

lemma logged_length: "logged stream env cmd w w' ens \<Longrightarrow>
    length (stream (lw_store w') (lifecycle_key env cmd)) = length (stream (lw_store w) (lifecycle_key env cmd)) + length ens"
  by (auto simp: logged_def dest: list_all2_lengthD)

section \<open>A recorder on an event store\<close>

lemma lifecycle_event:
  assumes "\<exists>d. cd_Encode (le_DefaultCodec env) (PValue (le_value env (entry_payload env cmd en tm))) = Ok d"
    and "sr_ID (LifecycleStreamRef env cmd) \<noteq> []" and "v \<noteq> 0"
  shows "\<exists>evt. New (le_DefaultCodec env) newID now (entry_type en) (sr_ID (LifecycleStreamRef env cmd))
       StreamTypeCommandLifecycle v (PValue (le_value env (entry_payload env cmd en tm)))
       [WithCausation (bc_commandType cmd) (bc_commandID cmd), FromContext dl, commandTracing cmd] = Ok evt \<and>
     recorded env cmd en evt \<and> e_version evt = v"
proof -
  let ?opts = "[WithCausation (bc_commandType cmd) (bc_commandID cmd), FromContext dl, commandTracing cmd]"
  let ?p = "PValue (le_value env (entry_payload env cmd en tm))"
  obtain d where d: "cd_Encode (le_DefaultCodec env) ?p = Ok d"
    using assms(1) by blast
  have neutral: "\<forall>opt \<in> set ?opts. neutral_option opt" and frame: "\<forall>opt \<in> set ?opts. frame_option opt"
    by (simp_all add: commandTracing_def)
  have marshal: "marshalPayload ?p (entry_type en) (probeCodec (le_DefaultCodec env) ?opts) = Ok d"
    using probeCodec_neutral(1) [OF neutral] d by (simp add: marshalPayload_def)
  have "entry_type en \<noteq> []"
    by (cases en) (simp_all add: TypeReceived_def TypeFailed_def TypeRejected_def TypeRetried_def TypeDeadLettered_def
        TypeCompleted_def)
  then have valid: "validateEventParams (entry_type en) (sr_ID (LifecycleStreamRef env cmd)) StreamTypeCommandLifecycle v d =
      None"
    using assms(2,3) by (simp add: validateEventParams_None StreamTypeCommandLifecycle_def)
  obtain evt where evt: "New (le_DefaultCodec env) newID now (entry_type en) (sr_ID (LifecycleStreamRef env cmd))
      StreamTypeCommandLifecycle v ?p ?opts = Ok evt"
    using marshal valid by (simp add: New_def Let_def)
  have "m_Causation (e_metadata (apply_opts ?opts e)) = Some \<lparr> c_CommandType = bc_commandType cmd, c_CommandID = bc_commandID cmd \<rparr>"
    for e
    by (cases dl) (simp_all add: commandTracing_def option_defs Metadata_Merge_def overlay_def)
  then have meta: "m_Causation (e_metadata evt) = Some \<lparr> c_CommandType = bc_commandType cmd, c_CommandID = bc_commandID cmd \<rparr>"
    using evt marshal valid
    by (auto simp: New_def Let_def buildEvent_def simp del: apply_opts_simps split: if_splits)
  note core = New_Ok_core [OF evt frame]
  have "cd_Encode (le_DefaultCodec env) ?p = Ok (e_payload evt)"
    using core(9) marshal d by simp
  then have "recorded env cmd en evt"
    unfolding recorded_def using core(5-7) meta by blast
  with evt core(8) show ?thesis
    by blast
qed

text \<open>Nothing the recorder relies on has changed; what belongs to the handlers may have.\<close>

definition undisturbed ::
  "('s \<Rightarrow> bool) \<Rightarrow> ('s \<Rightarrow> bool) \<Rightarrow> ('s \<Rightarrow> string \<Rightarrow> event list) \<Rightarrow> ('x, 's, 'u) lc_env \<Rightarrow> BasicCommand \<Rightarrow> ('s, 'u) lc_world \<Rightarrow>
   ('s, 'u) lc_world \<Rightarrow> bool" where
  "undisturbed good is_open stream env cmd w w' \<longleftrightarrow>
     (coherent good is_open stream w \<longrightarrow> coherent good is_open stream w') \<and>
     stream (lw_store w') (lifecycle_key env cmd) = stream (lw_store w) (lifecycle_key env cmd) \<and>
     bm_get (lw_attempts w') (tracker_key env cmd) = bm_get (lw_attempts w) (tracker_key env cmd) \<and>
     bm_get (lw_rejected w') (tracker_key env cmd) = bm_get (lw_rejected w) (tracker_key env cmd)"

text \<open>
  A handler that leaves the recorder alone, does not panic and whose results can be read from its part
  of the world, in the order of the calls; and actions between the calls that leave both alone.
\<close>

definition reports ::
  "('s \<Rightarrow> bool) \<Rightarrow> ('s \<Rightarrow> bool) \<Rightarrow> ('s \<Rightarrow> string \<Rightarrow> event list) \<Rightarrow> ('x, 's, 'u) lc_env \<Rightarrow> BasicCommand \<Rightarrow>
   ('u \<Rightarrow> unit outcome list) \<Rightarrow> ('x, BasicCommand, ('s, 'u) lc_world) handler \<Rightarrow> bool" where
  "reports good is_open stream env cmd results h \<longleftrightarrow>
     (\<forall>ctx w. undisturbed good is_open stream env cmd w (fst (h ctx cmd w)) \<and> snd (h ctx cmd w) \<noteq> Panic \<and>
        results (lw_user (fst (h ctx cmd w))) = results (lw_user w) @ [snd (h ctx cmd w)])"

definition quiet_between ::
  "('s \<Rightarrow> bool) \<Rightarrow> ('s \<Rightarrow> bool) \<Rightarrow> ('s \<Rightarrow> string \<Rightarrow> event list) \<Rightarrow> ('x, 's, 'u) lc_env \<Rightarrow> BasicCommand \<Rightarrow>
   ('u \<Rightarrow> unit outcome list) \<Rightarrow> (('s, 'u) lc_world \<Rightarrow> ('s, 'u) lc_world) \<Rightarrow> bool" where
  "quiet_between good is_open stream env cmd results f \<longleftrightarrow>
     (\<forall>w. undisturbed good is_open stream env cmd w (f w) \<and> results (lw_user (f w)) = results (lw_user w))"

lemma reportsD:
  assumes "reports good is_open stream env cmd results h"
  shows "undisturbed good is_open stream env cmd w (fst (h ctx cmd w))" "snd (h ctx cmd w) \<noteq> Panic"
    "results (lw_user (fst (h ctx cmd w))) = results (lw_user w) @ [snd (h ctx cmd w)]"
  using assms unfolding reports_def by blast+

lemma quiet_betweenD:
  assumes "quiet_between good is_open stream env cmd results f"
  shows "undisturbed good is_open stream env cmd w (f w)" "results (lw_user (f w)) = results (lw_user w)"
  using assms unfolding quiet_between_def by blast+

text \<open>The entries of the attempts with the given results, counted from \<open>a\<close>, and the entry that ends a dispatch.\<close>

fun attempt_trace :: "(go_error \<Rightarrow> bool) \<Rightarrow> int \<Rightarrow> unit outcome list \<Rightarrow> lifecycle_entry list" where
  "attempt_trace rej a [] = []"
| "attempt_trace rej a (res # rs) =
     (if 1 < a then [Retried (a - 1)] else []) @
     (case res of Fail err \<Rightarrow> [if rej err then Rejected err a else Failed err a] | _ \<Rightarrow> []) @
     attempt_trace rej (a + 1) rs"

definition final_entry :: "(go_error \<Rightarrow> bool) \<Rightarrow> unit outcome list \<Rightarrow> unit outcome \<Rightarrow> lifecycle_entry list" where
  "final_entry rej rs res =
     (case res of
        Ok _ \<Rightarrow> [Completed]
      | Fail err \<Rightarrow>
          (if \<exists>e. Fail e \<in> set rs \<and> rej e then []
           else [if rej err then Rejected err (int (length rs)) else DeadLettered err (int (length rs))])
      | Panic \<Rightarrow> [])"

lemma trace_length: "length (attempt_trace rej a rs) \<le> 2 * length rs"
  by (induction rej a rs rule: attempt_trace.induct) (auto split: outcome.splits)

text \<open>The attempt tracker counts \<open>n\<close> attempts of a command and knows whether one was rejected.\<close>

definition tracking :: "('x, 's, 'u) lc_env \<Rightarrow> BasicCommand \<Rightarrow> int \<Rightarrow> bool \<Rightarrow> ('s, 'u) lc_world \<Rightarrow> bool" where
  "tracking env cmd n rj w \<longleftrightarrow>
     bm_get (lw_attempts w) (tracker_key env cmd) = (if n = 0 then None else Some n) \<and>
     bm_get (lw_rejected w) (tracker_key env cmd) = (if rj then Some True else None)"

lemma undisturbed_refl: "undisturbed good is_open stream env cmd w w"
  by (simp add: undisturbed_def)

lemma exhausted_quiet:
  assumes "\<forall>handle ctx entry. rc_OnDeadLetter config = Some handle \<longrightarrow>
    quiet_between good is_open stream env cmd results (handle ctx entry)"
  shows "quiet_between good is_open stream env cmd results (\<lambda>w. fst (retry_exhausted renv config entry ctx err w))"
proof (cases "rc_OnDeadLetter config")
  case None
  then show ?thesis
    by (simp add: quiet_between_def retry_exhausted_def undisturbed_refl)
next
  case (Some handle)
  with assms have "quiet_between good is_open stream env cmd results (handle ctx en)" for en
    by blast
  with Some show ?thesis
    by (simp add: quiet_between_def retry_exhausted_def)
qed

lemma tracking_undisturbed:
  "undisturbed good is_open stream env cmd w w' \<Longrightarrow> tracking env cmd n rj w' \<longleftrightarrow> tracking env cmd n rj w"
  by (simp add: undisturbed_def tracking_def)

lemma logged_undisturbed:
  "undisturbed good is_open stream env cmd w w' \<Longrightarrow> logged stream env cmd w w' []"
  by (simp add: undisturbed_def logged_refl)

lemma tracker_next_tracking:
  "tracking env cmd n rj w \<Longrightarrow> \<exists>w'. tracker_next (tracker_key env cmd) w = (w', n + 1) \<and>
     (0 \<le> n \<longrightarrow> tracking env cmd (n + 1) rj w') \<and> lw_store w' = lw_store w \<and> lw_versions w' = lw_versions w \<and>
     lw_user w' = lw_user w"
  by (auto simp: tracker_next_def tracking_def Let_def)

lemma tracker_clear_tracking: "tracking env cmd 0 False (tracker_clear (tracker_key env cmd) w)"
  by (simp add: tracking_def tracker_clear_def)

lemma markRejected_tracking: "tracking env cmd n rj w \<Longrightarrow> tracking env cmd n True (markRejected (tracker_key env cmd) w)"
  by (simp add: tracking_def markRejected_def)

lemma tracker_take_tracking:
  "tracking env cmd n rj w \<Longrightarrow> tracker_take (tracker_key env cmd) w = (tracker_clear (tracker_key env cmd) w, n, rj)"
  by (simp add: tracker_take_def tracking_def)

lemma coherent_cong:
  "lw_store w' = lw_store w \<Longrightarrow> lw_versions w' = lw_versions w \<Longrightarrow>
     coherent good is_open stream w' \<longleftrightarrow> coherent good is_open stream w"
  by (simp add: coherent_def)

lemma logged_cong:
  "lw_store w1 = lw_store w \<Longrightarrow> logged stream env cmd w1 w' ens \<longleftrightarrow> logged stream env cmd w w' ens"
  by (simp add: logged_def)

lemma tracking_cong:
  "lw_attempts w' = lw_attempts w \<Longrightarrow> lw_rejected w' = lw_rejected w \<Longrightarrow>
     tracking env cmd n rj w' \<longleftrightarrow> tracking env cmd n rj w"
  by (simp add: tracking_def)

lemma tracker_frames [simp]:
  "lw_store (tracker_clear c w) = lw_store w" "lw_versions (tracker_clear c w) = lw_versions w"
  "lw_user (tracker_clear c w) = lw_user w" "lw_store (markRejected c w) = lw_store w"
  "lw_versions (markRejected c w) = lw_versions w" "lw_user (markRejected c w) = lw_user w"
  by (simp_all add: tracker_clear_def markRejected_def)

lemma record_calls:
  "RecordReceived env r ctx cmd w =
     lifecycle_emit env r ctx cmd (entry_type Received) (entry_payload env cmd Received (ly_clock r w)) w"
  "RecordFailed env r ctx cmd err n w =
     lifecycle_emit env r ctx cmd (entry_type (Failed err n)) (entry_payload env cmd (Failed err n) (ly_clock r w)) w"
  "RecordRejected env r ctx cmd err n w =
     lifecycle_emit env r ctx cmd (entry_type (Rejected err n)) (entry_payload env cmd (Rejected err n) (ly_clock r w)) w"
  "RecordRetried env r ctx cmd n w =
     lifecycle_emit env r ctx cmd (entry_type (Retried n)) (entry_payload env cmd (Retried n) (ly_clock r w)) w"
  "RecordDeadLettered env r ctx cmd err n w =
     lifecycle_emit env r ctx cmd (entry_type (DeadLettered err n))
       (entry_payload env cmd (DeadLettered err n) (ly_clock r w)) w"
  "RecordCompleted env r ctx cmd w =
     lifecycle_emit env r ctx cmd (entry_type Completed) (entry_payload env cmd Completed (ly_clock r w)) w"
  by (simp_all add: RecordReceived_def RecordFailed_def RecordRejected_def RecordRetried_def RecordDeadLettered_def
      RecordCompleted_def)

lemma discarding_Ok [simp]: "discarding (w, Ok ()) k = k w"
  by (simp add: discarding_def)

locale lifecycle_store = event_store inv is_open StreamKey stream save load loadFrom loadTo loadToTime
  for inv and is_open and stream and save and load and loadFrom and loadTo and loadToTime +
  fixes env :: "('x, 's, 'u) lc_env" and r :: "('s, 'u) Recorder"
  assumes saves: "ly_Save r = save" and loads: "ly_Load r = load"
begin

abbreviation "coh \<equiv> coherent inv is_open stream"

abbreviation "log_len cmd w \<equiv> length (stream (lw_store w) (lifecycle_key env cmd))"

lemma nextVersion_coherent:
  assumes "coh w"
  shows "nextVersion r (StreamKey ref) ref w =
    (let v = of_nat (length (stream (lw_store w) (StreamKey ref))) + 1 in
     (w \<lparr> lw_versions := bm_put (lw_versions w) (StreamKey ref) v \<rparr>, Ok v))"
proof (cases "bm_get (lw_versions w) (StreamKey ref)")
  case None
  have "seedVersion r ref (lw_store w) = Ok (of_nat (length (stream (lw_store w) (StreamKey ref))))"
  proof (cases "stream (lw_store w) (StreamKey ref) = []")
    case True
    then obtain e where "load (lw_store w) ref = Fail e" "errors_Is e ErrStreamNotFound"
      using load_missing assms unfolding coherent_def by blast
    with True show ?thesis
      by (simp add: seedVersion_def loads)
  next
    case False
    then have "load (lw_store w) ref = Ok (stream (lw_store w) (StreamKey ref))"
      using load_ok assms unfolding coherent_def by blast
    then show ?thesis
      by (simp add: seedVersion_def loads)
  qed
  with None show ?thesis
    by (simp add: nextVersion_def Let_def)
next
  case (Some v)
  then have "unat v = length (stream (lw_store w) (StreamKey ref))"
    using assms by (simp add: coherent_def)
  then have "v = of_nat (length (stream (lw_store w) (StreamKey ref)))"
    by (metis of_nat_unat_self)
  with Some show ?thesis
    by (simp add: nextVersion_def Let_def)
qed

lemma emit_appends:
  assumes encodes: "\<exists>d. cd_Encode (le_DefaultCodec env) (PValue (le_value env (entry_payload env cmd en tm))) = Ok d"
    and coh: "coh w" and room: "log_len cmd w + 1 < 2 ^ 63" and named: "sr_ID (LifecycleStreamRef env cmd) \<noteq> []"
  shows "\<exists>w'. lifecycle_emit env r ctx cmd (entry_type en) (entry_payload env cmd en tm) w = (w', Ok ()) \<and>
    coh w' \<and> logged stream env cmd w w' [en] \<and>
    lw_attempts w' = lw_attempts w \<and> lw_rejected w' = lw_rejected w \<and> lw_user w' = lw_user w"
proof -
  let ?ref = "LifecycleStreamRef env cmd" and ?K = "lifecycle_key env cmd" and ?n = "log_len cmd w"
  define v :: Version where "v = of_nat ?n + 1"
  define w1 where "w1 = w \<lparr> lw_versions := bm_put (lw_versions w) ?K v \<rparr>"
  have unat_n: "unat (of_nat ?n :: Version) = ?n" and unat_v: "unat v = ?n + 1"
    using room version_ok_of_nat [of ?n] version_ok_of_nat [of "?n + 1"] by (simp_all add: v_def add.commute)
  then have "v \<noteq> 0" and v1: "v - 1 = of_nat ?n"
    by (auto simp: v_def)
  obtain evt where evt: "New (le_DefaultCodec env) (le_newID env w1) (le_Now env w1) (entry_type en) (sr_ID ?ref)
       StreamTypeCommandLifecycle v (PValue (le_value env (entry_payload env cmd en tm)))
       [WithCausation (bc_commandType cmd) (bc_commandID cmd), FromContext (le_Deadline env ctx), commandTracing cmd] = Ok evt"
    "recorded env cmd en evt" "e_version evt = v"
    using lifecycle_event [OF encodes named \<open>v \<noteq> 0\<close>] by blast
  obtain s' where s': "save (lw_store w) ?ref [evt] (of_nat ?n) = (s', None)" "inv s'" "is_open s'"
    "stream s' = (stream (lw_store w))(?K := stream (lw_store w) ?K @ [evt])"
    using save_ok [of "lw_store w" "of_nat ?n" ?ref "[evt]"] coh unat_n room
    by (auto simp: coherent_def version_ok_def)
  let ?w = "w1 \<lparr> lw_store := s' \<rparr>"
  have "lifecycle_emit env r ctx cmd (entry_type en) (entry_payload env cmd en tm) w = (?w, Ok ())"
    unfolding lifecycle_emit_def Let_def nextVersion_coherent [OF coh]
    by (simp add: evt(1) v1 s'(1) saves w1_def flip: v_def) (simp add: evt(1) [unfolded w1_def] v1 s'(1) saves)
  moreover have "coh ?w"
  proof -
    have "length (stream s' k) = unat x" if look: "bm_get (bm_put (lw_versions w) ?K v) k = Some x" for k x
    proof (cases "k = ?K")
      case True
      with look unat_v show ?thesis
        by (simp add: s'(4))
    next
      case False
      with bm_get_put_other [OF False look] coh show ?thesis
        by (simp add: s'(4) coherent_def)
    qed
    then show ?thesis
      by (simp add: coherent_def w1_def s'(2,3))
  qed
  moreover have "logged stream env cmd w ?w [en]"
    using evt(2,3) by (simp add: logged_def s'(4) v_def)
  ultimately show ?thesis
    by (simp add: w1_def)
qed


text \<open>
  An event that cannot be created leaves the cached version one ahead of the stream: the next event is
  refused by the store and dropped as well, after which the cache is in order again.
\<close>

lemma failed_creation_loses_next:
  assumes coh: "coh w" and room: "log_len cmd w + 2 < 2 ^ 63" and named: "sr_ID (LifecycleStreamRef env cmd) \<noteq> []"
    and bad: "cd_Encode (le_DefaultCodec env) (PValue (le_value env p)) = Fail err"
    and good: "\<exists>d. cd_Encode (le_DefaultCodec env) (PValue (le_value env (entry_payload env cmd en tm))) = Ok d"
    and lenient: "\<not> ly_strict r"
  shows "\<exists>w1 w2. lifecycle_emit env r ctx cmd t p w = (w1, Ok ()) \<and>
    lifecycle_emit env r ctx cmd (entry_type en) (entry_payload env cmd en tm) w1 = (w2, Ok ()) \<and>
    stream (lw_store w2) = stream (lw_store w) \<and> coh w2"
proof -
  let ?ref = "LifecycleStreamRef env cmd" and ?K = "lifecycle_key env cmd" and ?n = "log_len cmd w"
  define v :: Version where "v = of_nat ?n + 1"
  define w1 where "w1 = w \<lparr> lw_versions := bm_put (lw_versions w) ?K v \<rparr>"
  define w2 where "w2 = w1 \<lparr> lw_versions := bm_put (lw_versions w1) ?K (v + 1) \<rparr>"
  have unat_v: "unat v = ?n + 1" "unat (v + 1) = ?n + 2"
    using room version_ok_of_nat [of "?n + 1"] version_ok_of_nat [of "?n + 2"] by (simp_all add: v_def add.commute)
  have "v + 1 \<noteq> 0"
    using unat_v(2) by auto
  let ?opts = "[WithCausation (bc_commandType cmd) (bc_commandID cmd), FromContext (le_Deadline env ctx), commandTracing cmd]"
  have neutral: "\<forall>opt \<in> set ?opts. neutral_option opt"
    by (simp add: commandTracing_def)
  have "New (le_DefaultCodec env) (le_newID env w1) (le_Now env w1) t (sr_ID ?ref) StreamTypeCommandLifecycle v
      (PValue (le_value env p)) ?opts = Fail (ErrWrap Corruption ''event.marshal_payload_failed'' err)"
    using probeCodec_neutral(1) [OF neutral] bad by (simp add: New_def Let_def marshalPayload_def)
  then have first: "lifecycle_emit env r ctx cmd t p w = (w1, Ok ())"
    unfolding lifecycle_emit_def Let_def nextVersion_coherent [OF coh]
    using lenient by (simp add: w1_def lifecycle_handleError_def flip: v_def)
  have "nextVersion r ?K ?ref w1 = (w2, Ok (v + 1))"
    by (simp add: nextVersion_def w1_def w2_def)
  moreover obtain evt where "New (le_DefaultCodec env) (le_newID env w2) (le_Now env w2) (entry_type en) (sr_ID ?ref)
       StreamTypeCommandLifecycle (v + 1) (PValue (le_value env (entry_payload env cmd en tm))) ?opts = Ok evt"
    using lifecycle_event [OF good named \<open>v + 1 \<noteq> 0\<close>] by blast
  moreover have "length (stream (lw_store w) ?K) \<noteq> unat v"
    using unat_v(1) by simp
  then obtain e where "save (lw_store w) ?ref [evt] v = (lw_store w, Some e)"
    using save_conflict [of "lw_store w" v ?ref "[evt]"] coh unfolding coherent_def by blast
  ultimately have second: "lifecycle_emit env r ctx cmd (entry_type en) (entry_payload env cmd en tm) w1 =
      (ResetVersion ?K w2, Ok ())"
    using lenient by (simp add: lifecycle_emit_def Let_def saves w2_def w1_def lifecycle_handleError_def)
  have "length (stream (lw_store w) k) = unat x" if look: "bm_get (lw_versions (ResetVersion ?K w2)) k = Some x" for k x
  proof -
    have "k \<noteq> ?K" "bm_get (lw_versions w2) k = Some x"
      using look by (auto simp: ResetVersion_def split: if_splits)
    then have "bm_get (bm_put (bm_put (lw_versions w) ?K v) ?K (v + 1)) k = Some x"
      by (simp add: w2_def w1_def)
    from bm_get_put_other [OF \<open>k \<noteq> ?K\<close> bm_get_put_other [OF \<open>k \<noteq> ?K\<close> this]] show ?thesis
      using coh by (simp add: coherent_def)
  qed
  then have "coh (ResetVersion ?K w2)"
    using coh by (simp add: coherent_def ResetVersion_def w2_def w1_def)
  with first second show ?thesis
    by (intro exI [of _ w1] exI [of _ "ResetVersion ?K w2"]) (simp add: ResetVersion_def w2_def w1_def)
qed

end

locale lifecycle_log = lifecycle_store inv is_open stream save load loadFrom loadTo loadToTime env r
  for inv and is_open and stream and save and load and loadFrom and loadTo and loadToTime
    and env :: "('x, 's, 'u) lc_env" and r :: "('s, 'u) Recorder" +
  assumes encodes: "\<exists>d. cd_Encode (le_DefaultCodec env) (PValue (le_value env p)) = Ok d"
begin

text \<open>One attempt.\<close>

definition attempted ::
  "BasicCommand \<Rightarrow> ('u \<Rightarrow> unit outcome list) \<Rightarrow> int \<Rightarrow> bool \<Rightarrow> ('s, 'u) lc_world \<Rightarrow> ('s, 'u) lc_world \<Rightarrow> unit outcome \<Rightarrow>
   bool" where
  "attempted cmd results n rj w w' res \<longleftrightarrow> coh w' \<and> res \<noteq> Panic \<and>
     results (lw_user w') = results (lw_user w) @ [res] \<and>
     logged stream env cmd w w' (attempt_trace (IsRejection env r) (n + 1) [res]) \<and>
     (\<forall>err. res = Fail err \<longrightarrow> tracking env cmd (n + 1) (rj \<or> IsRejection env r err) w')"

lemma attempt_step:
  assumes coh: "coh w" and track: "tracking env cmd n rj w" and n: "0 \<le> n" and room: "log_len cmd w + 2 < 2 ^ 63"
    and named: "sr_ID (LifecycleStreamRef env cmd) \<noteq> []" and h: "reports inv is_open stream env cmd results h"
  shows "\<exists>w' res. attemptMiddleware env r h ctx cmd w = (w', res) \<and> attempted cmd results n rj w w' res"
proof -
  obtain w1 where w1: "tracker_next (tracker_key env cmd) w = (w1, n + 1)" "tracking env cmd (n + 1) rj w1"
    "lw_store w1 = lw_store w" "lw_versions w1 = lw_versions w" "lw_user w1 = lw_user w"
    using tracker_next_tracking [OF track] n by blast
  define pre where "pre = (if 1 < n + 1 then [Retried n] else [])"
  have coh1: "coh w1"
    using coh coherent_cong [OF w1(3,4)] by blast
  have "\<exists>w2. (if 1 < n + 1 then RecordRetried env r ctx cmd (n + 1 - 1) w1 else (w1, Ok ())) = (w2, Ok ()) \<and> coh w2 \<and>
      logged stream env cmd w w2 pre \<and> tracking env cmd (n + 1) rj w2 \<and> lw_user w2 = lw_user w"
  proof (cases "1 < n + 1")
    case True
    have "log_len cmd w1 + 1 < 2 ^ 63"
      using room by (simp add: w1(3))
    from emit_appends [OF encodes coh1 this named, of ctx "Retried n" "ly_clock r w1"] True w1 show ?thesis
      by (auto simp: record_calls pre_def logged_cong [OF w1(3)] intro: tracking_cong [THEN iffD2])
  next
    case False
    with coh1 w1 show ?thesis
      by (simp add: pre_def logged_refl)
  qed
  then obtain w2 where w2: "(if 1 < n + 1 then RecordRetried env r ctx cmd (n + 1 - 1) w1 else (w1, Ok ())) = (w2, Ok ())"
    "coh w2" "logged stream env cmd w w2 pre" "tracking env cmd (n + 1) rj w2" "lw_user w2 = lw_user w"
    by blast
  obtain w3 res where w3: "h ctx cmd w2 = (w3, res)"
    by fastforce
  have quiet: "undisturbed inv is_open stream env cmd w2 w3" "res \<noteq> Panic"
    "results (lw_user w3) = results (lw_user w) @ [res]"
    using reportsD [OF h, where w = w2 and ctx = ctx] by (simp_all add: w3 w2(5))
  have coh3: "coh w3" and track3: "tracking env cmd (n + 1) rj w3"
    using quiet(1) w2(2,4) tracking_undisturbed [OF quiet(1)] by (auto simp: undisturbed_def)
  have log3: "logged stream env cmd w w3 pre"
    using logged_trans [OF w2(3) logged_undisturbed [OF quiet(1)]] by simp
  have room3: "log_len cmd w3 + 1 < 2 ^ 63"
    using logged_length [OF log3] room by (auto simp: pre_def split: if_splits)
  have run: "attemptMiddleware env r h ctx cmd w =
      (case h ctx cmd w2 of
          (w3, Panic) \<Rightarrow> (w3, Panic)
        | (w3, Fail err) \<Rightarrow>
            if IsRejection env r err then
              discarding (RecordRejected env r ctx cmd err (n + 1) (markRejected (tracker_key env cmd) w3)) (\<lambda>w4. (w4, Fail err))
            else discarding (RecordFailed env r ctx cmd err (n + 1) w3) (\<lambda>w4. (w4, Fail err))
        | (w3, Ok _) \<Rightarrow> (tracker_clear (tracker_key env cmd) w3, Ok ()))"
    unfolding attemptMiddleware_def w1(1) Let_def prod.case w2(1) discarding_Ok ..
  consider (ok) "res = Ok ()" | (rejected) err where "res = Fail err" "IsRejection env r err"
    | (failed) err where "res = Fail err" "\<not> IsRejection env r err"
    using quiet(2) by (cases res) auto
  then show ?thesis
  proof cases
    case ok
    have "coh (tracker_clear (tracker_key env cmd) w3)"
      using coh3 coherent_cong [of "tracker_clear (tracker_key env cmd) w3" w3] by simp
    moreover have "logged stream env cmd w (tracker_clear (tracker_key env cmd) w3) pre"
      using log3 by (simp add: logged_def)
    ultimately show ?thesis
      using ok quiet(3) by (cases "0 < n") (simp_all add: run w3 pre_def attempted_def)
  next
    case rejected
    let ?m = "markRejected (tracker_key env cmd) w3"
    have "coh ?m" "log_len cmd ?m + 1 < 2 ^ 63"
      using coh3 coherent_cong [of ?m w3] room3 by simp_all
    from emit_appends [OF encodes this named, of ctx "Rejected err (n + 1)" "ly_clock r ?m"]
    obtain w4 where w4: "RecordRejected env r ctx cmd err (n + 1) ?m = (w4, Ok ())" "coh w4"
      "logged stream env cmd w3 w4 [Rejected err (n + 1)]" "lw_attempts w4 = lw_attempts ?m" "lw_rejected w4 = lw_rejected ?m"
      "lw_user w4 = lw_user w3"
      by (auto simp: record_calls logged_cong [of ?m w3])
    have "tracking env cmd (n + 1) True w4"
      using tracking_cong [OF w4(4,5)] markRejected_tracking [OF track3] by blast
    with w4 logged_trans [OF log3 w4(3)] quiet(3) rejected show ?thesis
      by (cases "0 < n") (simp_all add: run w3 pre_def attempted_def)
  next
    case failed
    from emit_appends [OF encodes coh3 room3 named, of ctx "Failed err (n + 1)" "ly_clock r w3"]
    obtain w4 where w4: "RecordFailed env r ctx cmd err (n + 1) w3 = (w4, Ok ())" "coh w4"
      "logged stream env cmd w3 w4 [Failed err (n + 1)]" "lw_attempts w4 = lw_attempts w3" "lw_rejected w4 = lw_rejected w3"
      "lw_user w4 = lw_user w3"
      by (auto simp: record_calls)
    have "tracking env cmd (n + 1) rj w4"
      using tracking_cong [OF w4(4,5)] track3 by blast
    with w4 logged_trans [OF log3 w4(3)] quiet(3) failed show ?thesis
      by (cases "0 < n") (simp_all add: run w3 pre_def attempted_def)
  qed
qed


text \<open>What the attempts from attempt \<open>n + 1\<close> on lead to: the world \<open>w'\<close>, the result \<open>res\<close> and the results \<open>rs\<close> of the handler.\<close>

definition attempts_lead ::
  "BasicCommand \<Rightarrow> ('u \<Rightarrow> unit outcome list) \<Rightarrow> int \<Rightarrow> bool \<Rightarrow> nat \<Rightarrow> ('s, 'u) lc_world \<Rightarrow> ('s, 'u) lc_world \<Rightarrow>
   unit outcome \<Rightarrow> unit outcome list \<Rightarrow> bool" where
  "attempts_lead cmd results n rj left w w' res rs \<longleftrightarrow>
     coh w' \<and> res \<noteq> Panic \<and> results (lw_user w') = results (lw_user w) @ rs \<and> rs \<noteq> [] \<and> length rs \<le> left + 1 \<and>
     logged stream env cmd w w' (attempt_trace (IsRejection env r) (n + 1) rs) \<and>
     (res = Ok () \<longleftrightarrow> last rs = Ok ()) \<and>
     (\<forall>err. res = Fail err \<longrightarrow>
       tracking env cmd (n + int (length rs)) (rj \<or> (\<exists>e. Fail e \<in> set rs \<and> IsRejection env r e)) w')"

lemma attempts_lead_more:
  assumes "logged stream env cmd w w2 (attempt_trace (IsRejection env r) (n + 1) [Fail err])"
    and "results (lw_user w2) = results (lw_user w) @ [Fail err]"
    and "attempts_lead cmd results (n + 1) (rj \<or> IsRejection env r err) left w2 w' res rs"
  shows "attempts_lead cmd results n rj (Suc left) w w' res (Fail err # rs)"
proof -
  have "logged stream env cmd w w' (attempt_trace (IsRejection env r) (n + 1) (Fail err # rs))"
    using logged_trans [OF assms(1)] assms(3) by (auto simp: attempts_lead_def)
  moreover have "((rj \<or> IsRejection env r err) \<or> (\<exists>e. Fail e \<in> set rs \<and> IsRejection env r e)) =
      (rj \<or> (\<exists>e. Fail e \<in> set (Fail err # rs) \<and> IsRejection env r e))"
    by auto
  moreover have "(n + 1) + int (length rs) = n + int (length (Fail err # rs))"
    by simp
  ultimately show ?thesis
    using assms(2,3) unfolding attempts_lead_def by (elim conjE, intro conjI allI impI) (simp_all del: attempt_trace.simps)
qed

text \<open>A single attempt ends the retry with its own result, or with an error that wraps its error.\<close>

lemma attempts_lead_last:
  assumes "attempted cmd results n rj w w1 res"
    and "undisturbed inv is_open stream env cmd w1 w2" and "results (lw_user w2) = results (lw_user w1)"
    and "res' = res \<or> (\<exists>e e'. res = Fail e \<and> res' = Fail e')"
  shows "attempts_lead cmd results n rj left w w2 res' [res]"
proof -
  have "coh w2" "\<forall>err. res = Fail err \<longrightarrow> tracking env cmd (n + 1) (rj \<or> IsRejection env r err) w2"
    using assms(1,2) tracking_undisturbed [OF assms(2)] by (auto simp: undisturbed_def attempted_def)
  moreover have "logged stream env cmd w w1 (attempt_trace (IsRejection env r) (n + 1) [res])"
    using assms(1) by (simp only: attempted_def)
  from logged_trans [OF this logged_undisturbed [OF assms(2)]]
  have "logged stream env cmd w w2 (attempt_trace (IsRejection env r) (n + 1) [res])"
    by simp
  ultimately show ?thesis
    using assms(1,3,4) unfolding attempts_lead_def attempted_def by (auto simp del: attempt_trace.simps)
qed

lemma retry_stops:
  assumes "attemptMiddleware env r h (re_attemptCtx renv ctx (n + 1)) cmd w = (w1, res)" and "res \<noteq> Panic"
  shows "(\<exists>err. res = Fail err \<and> rc_IsRetryable config err) \<or>
    retry_loop renv config entry (\<lambda>c. attemptMiddleware env r h c cmd) ctx (n + 1) left w = (w1, res)"
  using assms(2) by (subst retry_loop.simps) (cases res, auto simp: assms(1))

lemma retry_trace:
  fixes renv :: "('x, ('s, 'u) lc_world) retry_env"
  assumes named: "sr_ID (LifecycleStreamRef env cmd) \<noteq> []" and h: "reports inv is_open stream env cmd results h"
    and wait: "\<forall>ctx d. quiet_between inv is_open stream env cmd results (\<lambda>w. fst (re_wait renv ctx d w))"
    and dead: "\<forall>handle ctx entry. rc_OnDeadLetter config = Some handle \<longrightarrow>
      quiet_between inv is_open stream env cmd results (handle ctx entry)"
    and coh: "coh w" and track: "tracking env cmd n rj w" and n: "0 \<le> n"
    and room: "log_len cmd w + 2 * left + 2 < 2 ^ 63"
  shows "\<exists>w' res rs. retry_loop renv config entry (\<lambda>c. attemptMiddleware env r h c cmd) ctx (n + 1) left w = (w', res) \<and>
    attempts_lead cmd results n rj left w w' res rs"
  using coh track n room
proof (induction left arbitrary: w n rj)
  case (0 w n rj)
  have "log_len cmd w + 2 < 2 ^ 63"
    using 0(4) by simp
  from attempt_step [OF 0(1-3) this named h, of "re_attemptCtx renv ctx (n + 1)"]
  obtain w1 res where w1: "attemptMiddleware env r h (re_attemptCtx renv ctx (n + 1)) cmd w = (w1, res)"
    "attempted cmd results n rj w w1 res"
    by blast
  consider (stop) "retry_loop renv config entry (\<lambda>c. attemptMiddleware env r h c cmd) ctx (n + 1) 0 w = (w1, res)"
    | (exhausted) err where "res = Fail err" "rc_IsRetryable config err"
    using retry_stops [OF w1(1)] w1(2) unfolding attempted_def by blast
  then show ?case
  proof cases
    case stop
    with attempts_lead_last [OF w1(2) undisturbed_refl refl] show ?thesis
      by blast
  next
    case exhausted
    let ?w2 = "fst (retry_exhausted renv config entry ctx err w1)"
    have "retry_loop renv config entry (\<lambda>c. attemptMiddleware env r h c cmd) ctx (n + 1) 0 w =
        (?w2, Fail (re_WithCause renv (ErrWrap Infrastructure ''middleware.retry_exhausted'' ErrRetryExhausted) err))"
      by (subst retry_loop.simps) (simp add: w1(1) exhausted retry_exhausted_def)
    with attempts_lead_last [OF w1(2) quiet_betweenD [OF exhausted_quiet [OF dead, of renv entry ctx err]]] exhausted(1)
    show ?thesis
      by blast
  qed
next
  case (Suc left w n rj)
  have "log_len cmd w + 2 < 2 ^ 63" "0 \<le> n + 1"
    using Suc.prems(3,4) by simp_all
  from attempt_step [OF Suc.prems(1-3) this(1) named h, of "re_attemptCtx renv ctx (n + 1)"]
  obtain w1 res where w1: "attemptMiddleware env r h (re_attemptCtx renv ctx (n + 1)) cmd w = (w1, res)"
    "attempted cmd results n rj w w1 res"
    by blast
  consider (stop) "retry_loop renv config entry (\<lambda>c. attemptMiddleware env r h c cmd) ctx (n + 1) (Suc left) w = (w1, res)"
    | (again) err where "res = Fail err" "rc_IsRetryable config err"
    using retry_stops [OF w1(1)] w1(2) unfolding attempted_def by blast
  then show ?case
  proof cases
    case stop
    with attempts_lead_last [OF w1(2) undisturbed_refl refl] show ?thesis
      by blast
  next
    case again
    obtain w2 b where w2: "re_wait renv ctx (backoff renv config (n + 1)) w1 = (w2, b)"
      by fastforce
    have "quiet_between inv is_open stream env cmd results (\<lambda>w. fst (re_wait renv ctx (backoff renv config (n + 1)) w))"
      using wait by blast
    from quiet_betweenD [OF this, where w = w1]
    have quiet: "undisturbed inv is_open stream env cmd w1 w2" "results (lw_user w2) = results (lw_user w1)"
      by (simp_all add: w2)
    show ?thesis
    proof (cases b)
      case True
      then have "retry_loop renv config entry (\<lambda>c. attemptMiddleware env r h c cmd) ctx (n + 1) (Suc left) w =
          (w2, Fail (re_WithCause renv (ErrWrap Infrastructure ''middleware.retry_canceled'' ErrRetryCanceled) err))"
        by (subst retry_loop.simps) (simp add: w1(1) again w2)
      with attempts_lead_last [OF w1(2) quiet] again(1) show ?thesis
        by blast
    next
      case False
      have "attempts_lead cmd results n rj 0 w w2 res [res]"
        using attempts_lead_last [OF w1(2) quiet] by blast
      then have lead: "coh w2" "tracking env cmd (n + 1) (rj \<or> IsRejection env r err) w2"
        "logged stream env cmd w w2 (attempt_trace (IsRejection env r) (n + 1) [Fail err])"
        "results (lw_user w2) = results (lw_user w) @ [Fail err]"
        unfolding attempts_lead_def again(1) by auto
      have "log_len cmd w2 + 2 * left + 2 < 2 ^ 63"
        using logged_length [OF lead(3)] Suc.prems(4) by (auto split: if_splits)
      from Suc.IH [OF lead(1,2) \<open>0 \<le> n + 1\<close> this] attempts_lead_more [OF lead(3,4)] show ?thesis
        by (subst retry_loop.simps) (simp add: w1(1) again w2 False del: attempt_trace.simps, blast)
    qed
  qed
qed

text \<open>A dispatch through both middleware and the retry between them.\<close>

lemma dispatch_trace:
  fixes renv :: "('x, ('s, 'u) lc_world) retry_env"
  assumes named: "sr_ID (LifecycleStreamRef env cmd) \<noteq> []" and h: "reports inv is_open stream env cmd results h"
    and wait: "\<forall>ctx d. quiet_between inv is_open stream env cmd results (\<lambda>w. fst (re_wait renv ctx d w))"
    and dead: "\<forall>handle ctx entry. rc_OnDeadLetter config = Some handle \<longrightarrow>
      quiet_between inv is_open stream env cmd results (handle ctx entry)"
    and valid: "RetryConfig_Validate config = None" and coh: "coh w" and track: "tracking env cmd 0 False w"
    and room: "log_len cmd w + 2 * nat (rc_MaxAttempts config) + 2 < 2 ^ 63"
  shows "\<exists>w' res rs. outerMiddleware env r True (NewRetry renv adapter config (attemptMiddleware env r h)) ctx cmd w = (w', res) \<and>
    coh w' \<and> tracking env cmd 0 False w' \<and> results (lw_user w') = results (lw_user w) @ rs \<and> rs \<noteq> [] \<and>
    int (length rs) \<le> rc_MaxAttempts config \<and> (res = Ok () \<longleftrightarrow> last rs = Ok ()) \<and>
    logged stream env cmd w w' (Received # attempt_trace (IsRejection env r) 1 rs @ final_entry (IsRejection env r) rs res)"
proof -
  let ?rej = "IsRejection env r" and ?c = "tracker_key env cmd" and ?left = "nat (rc_MaxAttempts config) - 1"
  have max: "1 \<le> rc_MaxAttempts config"
    using valid by (simp add: RetryConfig_Validate_def split: if_splits)
  have "log_len cmd w + 1 < 2 ^ 63"
    using room by simp
  from emit_appends [OF encodes coh this named, of ctx Received "ly_clock r w"]
  obtain w1 where w1: "RecordReceived env r ctx cmd w = (w1, Ok ())" "coh w1" "logged stream env cmd w w1 [Received]"
    "lw_attempts w1 = lw_attempts w" "lw_rejected w1 = lw_rejected w" "lw_user w1 = lw_user w"
    by (auto simp: record_calls)
  have "log_len cmd w1 + 2 * ?left + 2 < 2 ^ 63"
    using logged_length [OF w1(3)] room max by simp
  from retry_trace [OF named h wait dead w1(2) _ _ this, of 0 False "retry_zero_entry adapter cmd" ctx]
    track tracking_cong [OF w1(4,5), of env cmd 0 False]
  obtain w2 res rs where retry: "NewRetry renv adapter config (attemptMiddleware env r h) ctx cmd w1 = (w2, res)"
    and lead: "attempts_lead cmd results 0 False ?left w1 w2 res rs"
    by (auto simp: NewRetry_def valid)
  note lead = lead [unfolded attempts_lead_def, simplified]
  have len: "int (length rs) \<le> rc_MaxAttempts config"
    using lead max by linarith
  have log2: "logged stream env cmd w w2 (Received # attempt_trace ?rej 1 rs)"
    using logged_trans [OF w1(3)] lead by force
  let ?w3 = "tracker_clear ?c w2"
  have coh3: "coh ?w3" and log3: "logged stream env cmd w ?w3 (Received # attempt_trace ?rej 1 rs)"
    and user3: "lw_user ?w3 = lw_user w2"
    using lead coherent_cong [of ?w3 w2 inv is_open stream] log2 by (simp_all add: logged_def)
  have room3: "log_len cmd ?w3 + 1 < 2 ^ 63"
    using logged_length [OF log3] trace_length [of ?rej 1 rs] room len by simp
  have run: "outerMiddleware env r True (NewRetry renv adapter config (attemptMiddleware env r h)) ctx cmd w =
      (case final_entry ?rej rs res of
         [] \<Rightarrow> (?w3, res)
       | en # _ \<Rightarrow> discarding (lifecycle_emit env r ctx cmd (entry_type en) (entry_payload env cmd en (ly_clock r ?w3)) ?w3)
           (\<lambda>w4. (w4, res)))"
  proof (cases res)
    case (Fail err)
    define rj where "rj \<longleftrightarrow> (\<exists>e. Fail e \<in> set rs \<and> ?rej e)"
    have "tracking env cmd (int (length rs)) rj w2"
      using lead Fail unfolding rj_def by blast
    from tracker_take_tracking [OF this] Fail show ?thesis
      by (simp add: outerMiddleware_def w1(1) retry final_entry_def record_calls(3,5,6) flip: rj_def)
  qed (use lead in \<open>simp_all add: Let_def outerMiddleware_def w1(1) retry final_entry_def record_calls(3,5,6)\<close>)
  have results3: "results (lw_user ?w3) = results (lw_user w) @ rs"
    using lead w1(6) by simp
  show ?thesis
  proof (cases "final_entry ?rej rs res")
    case Nil
    with run log3 coh3 results3 len lead tracker_clear_tracking [of env cmd w2] show ?thesis
      by (intro exI [of _ ?w3] exI [of _ res] exI [of _ rs]) (simp del: attempt_trace.simps)
  next
    case (Cons en more)
    then have "more = []"
      by (auto simp: final_entry_def split: outcome.splits if_splits)
    from emit_appends [OF encodes coh3 room3 named, of ctx en "ly_clock r ?w3"]
    obtain w4 where w4: "lifecycle_emit env r ctx cmd (entry_type en) (entry_payload env cmd en (ly_clock r ?w3)) ?w3 = (w4, Ok ())"
      "coh w4" "logged stream env cmd ?w3 w4 [en]" "lw_attempts w4 = lw_attempts ?w3" "lw_rejected w4 = lw_rejected ?w3"
      "lw_user w4 = lw_user ?w3"
      by blast
    have "tracking env cmd 0 False w4"
      using tracking_cong [OF w4(4,5)] tracker_clear_tracking by blast
    with run Cons \<open>more = []\<close> w4(1,2) logged_trans [OF log3 w4(3)] results3 len lead show ?thesis
      by (intro exI [of _ w4] exI [of _ res] exI [of _ rs]) (simp add: w4(6) del: attempt_trace.simps)
  qed
qed

end

section \<open>The recorder on the memory store\<close>

lemma memory_lifecycle_store:
  assumes "ly_Save r = MemoryStore_Save cls" and "ly_Load r = MemoryStore_Load"
  shows "lifecycle_store ms_inv ms_open ms_stream (MemoryStore_Save cls) MemoryStore_Load MemoryStore_LoadFromVersion
    MemoryStore_LoadToVersion MemoryStore_LoadToTimestamp r"
  by (intro lifecycle_store.intro lifecycle_store_axioms.intro ms.event_store_axioms assms)

lemma memory_lifecycle_log:
  assumes "ly_Save r = MemoryStore_Save cls" and "ly_Load r = MemoryStore_Load"
    and "\<forall>p. \<exists>d. cd_Encode (le_DefaultCodec env) (PValue (le_value env p)) = Ok d"
  shows "lifecycle_log ms_inv ms_open ms_stream (MemoryStore_Save cls) MemoryStore_Load MemoryStore_LoadFromVersion
    MemoryStore_LoadToVersion MemoryStore_LoadToTimestamp env r"
  by (intro lifecycle_log.intro lifecycle_log_axioms.intro memory_lifecycle_store) (use assms in simp_all)

text \<open>
  C30. The trace of a dispatch: through the outer middleware, a retry with a valid configuration and the
  attempt middleware, on a recorder over the memory store whose version cache agrees with the store, a
  command that nobody is working on leaves exactly this in its lifecycle stream: received; for
  every call of the handler in order, a retried entry unless it is the first, and a failed or
  rejected entry with its number when it returned an error; and at the end completed when the last call
  succeeded, nothing more when some call was rejected, and otherwise dead-lettered (or rejected, by the
  class of the returned error) with the number of calls. The events are numbered consecutively and name
  the command as their cause. The handler is called at least once and at most as often as the
  configuration allows, the result is success exactly when the last call succeeded, and afterwards the
  tracker has forgotten the command and the cache agrees with the store again.
\<close>

theorem lifecycle_trace:
  fixes renv :: "('x, (MemoryStore, 'u) lc_world) retry_env" and env :: "('x, MemoryStore, 'u) lc_env"
  assumes "ly_Save r = MemoryStore_Save cls" and "ly_Load r = MemoryStore_Load"
    and "\<forall>p. \<exists>d. cd_Encode (le_DefaultCodec env) (PValue (le_value env p)) = Ok d"
    and "sr_ID (LifecycleStreamRef env cmd) \<noteq> []" and "reports ms_inv ms_open ms_stream env cmd results h"
    and "\<forall>ctx d. quiet_between ms_inv ms_open ms_stream env cmd results (\<lambda>w. fst (re_wait renv ctx d w))"
    and "\<forall>handle ctx entry. rc_OnDeadLetter config = Some handle \<longrightarrow>
      quiet_between ms_inv ms_open ms_stream env cmd results (handle ctx entry)"
    and "RetryConfig_Validate config = None" and "coherent ms_inv ms_open ms_stream w" and "tracking env cmd 0 False w"
    and "length (ms_stream (lw_store w) (StreamKey (LifecycleStreamRef env cmd))) + 2 * nat (rc_MaxAttempts config) + 2 < 2 ^ 63"
  shows "\<exists>w' res rs.
    fst (lifecycle_New env r) (NewRetry renv adapter config (snd (lifecycle_New env r) h)) ctx cmd w = (w', res) \<and>
    coherent ms_inv ms_open ms_stream w' \<and> tracking env cmd 0 False w' \<and>
    results (lw_user w') = results (lw_user w) @ rs \<and> rs \<noteq> [] \<and> int (length rs) \<le> rc_MaxAttempts config \<and>
    (res = Ok () \<longleftrightarrow> last rs = Ok ()) \<and>
    logged ms_stream env cmd w w'
      (Received # attempt_trace (IsRejection env r) 1 rs @ final_entry (IsRejection env r) rs res)"
proof -
  have loc: "lifecycle_log ms_inv ms_open ms_stream (MemoryStore_Save cls) MemoryStore_Load MemoryStore_LoadFromVersion
      MemoryStore_LoadToVersion MemoryStore_LoadToTimestamp env r"
    by (rule memory_lifecycle_log [OF assms(1-3)])
  show ?thesis
    using lifecycle_log.dispatch_trace [OF loc assms(4-11)]
    by (simp only: lifecycle_New_def fst_conv snd_conv)
qed

text \<open>A handler that fails with the errors of a script and then succeeds.\<close>

type_synonym scripted = "(MemoryStore, go_error list \<times> unit outcome list) lc_world"

definition scripted_handler :: "(unit, BasicCommand, scripted) handler" where
  "scripted_handler ctx cmd w =
     (case lw_user w of
        ([], rs) \<Rightarrow> (w \<lparr> lw_user := ([], rs @ [Ok ()]) \<rparr>, Ok ())
      | (err # script, rs) \<Rightarrow> (w \<lparr> lw_user := (script, rs @ [Fail err]) \<rparr>, Fail err))"

definition scripted_env :: "(unit, MemoryStore, go_error list \<times> unit outcome list) lc_env" where
  "scripted_env = \<lparr> le_Classify = (\<lambda>_. Transient), le_Family_String = (\<lambda>_. ''transient''), le_Code = (\<lambda>_. []),
     le_Error = (\<lambda>_. ''busy''), le_udisp = (\<lambda>_. ''c1''), le_DefaultCodec = witness_codec, le_value = (\<lambda>_. ''p''),
     le_newID = (\<lambda>w. of_nat (length (ls_log (lw_store w))) + 1), le_Now = (\<lambda>_. 5), le_Deadline = (\<lambda>_. None) \<rparr>"

definition scripted_recorder :: "(MemoryStore, go_error list \<times> unit outcome list) Recorder" where
  "scripted_recorder = fst (NewRecorder (MemoryStore_Save (\<lambda>_. Transient)) MemoryStore_Load (\<lambda>_. 5) [])"

definition scripted_retry :: "(unit, scripted) retry_env" where
  "scripted_retry = \<lparr> re_ComputeDelay = (\<lambda>i m f a. Ok i), re_wait = (\<lambda>ctx d w. (w, False)),
     re_attemptCtx = (\<lambda>ctx a. ctx), re_WithCause = (\<lambda>e c. e), re_Now = (\<lambda>w. 5) \<rparr>"

definition scripted_config :: "(unit, scripted) RetryConfig" where
  "scripted_config = DefaultRetryConfig (\<lambda>e. e = ErrExt ''busy'')"

definition scripted_adapter :: "BasicCommand MessageAdapter" where
  "scripted_adapter = \<lparr> ad_Kind = KindCommand, ad_ExtractType = bc_commandType, ad_ExtractID = Some bc_streamID \<rparr>"

definition scripted_command :: BasicCommand where
  "scripted_command = \<lparr> bc_commandID = 7, bc_commandType = ''open'', bc_streamID = ''s'', bc_metadata = zeroMsgMetadata \<rparr>"

definition scripted_start :: "go_error list \<Rightarrow> scripted" where
  "scripted_start script =
     \<lparr> lw_store = NewMemoryStore, lw_versions = newBoundedMap 1024, lw_attempts = fst newAttemptTracker,
       lw_rejected = snd newAttemptTracker, lw_user = (script, []) \<rparr>"

interpretation scripted_store: lifecycle_store ms_inv ms_open ms_stream "MemoryStore_Save (\<lambda>_. Transient)" MemoryStore_Load
  MemoryStore_LoadFromVersion MemoryStore_LoadToVersion MemoryStore_LoadToTimestamp scripted_env scripted_recorder
  by (rule memory_lifecycle_store) (simp_all add: scripted_recorder_def NewRecorder_def Let_def)

interpretation scripted_log: lifecycle_log ms_inv ms_open ms_stream "MemoryStore_Save (\<lambda>_. Transient)" MemoryStore_Load
  MemoryStore_LoadFromVersion MemoryStore_LoadToVersion MemoryStore_LoadToTimestamp scripted_env scripted_recorder
  by (rule memory_lifecycle_log)
    (simp_all add: scripted_recorder_def scripted_env_def NewRecorder_def Let_def witness_codec_def)

lemma scripted_facts:
  "ly_Save scripted_recorder = MemoryStore_Save (\<lambda>_. Transient)" "ly_Load scripted_recorder = MemoryStore_Load"
  "sr_ID (LifecycleStreamRef scripted_env cmd) = ''c1''"
  "undisturbed ms_inv ms_open ms_stream scripted_env cmd w (w \<lparr> lw_user := u \<rparr>)"
  "coherent ms_inv ms_open ms_stream (scripted_start script)" "tracking scripted_env cmd 0 False (scripted_start script)"
  "ms_stream (lw_store (scripted_start script)) k = []" "rc_MaxAttempts scripted_config = 3"
  "rc_OnDeadLetter scripted_config = None" "RetryConfig_Validate scripted_config = None"
proof -
  have empty: "ms_stream NewMemoryStore k = []" for k
    by (simp add: ms_stream_def NewMemoryStore_def NewLogStore_def stream_indices_def)
  then show "ms_stream (lw_store (scripted_start script)) k = []"
    by (simp add: scripted_start_def)
  show "sr_ID (LifecycleStreamRef scripted_env cmd) = ''c1''"
    by (simp add: scripted_env_def LifecycleStreamRef_def NewStreamRef_def) code_simp
  show "coherent ms_inv ms_open ms_stream (scripted_start script)"
    using ms_inv_New by (simp add: coherent_def scripted_start_def ms_open_def NewMemoryStore_def NewLogStore_def)
qed (simp_all add: scripted_recorder_def NewRecorder_def Let_def undisturbed_def coherent_def tracking_def scripted_start_def newAttemptTracker_def
    scripted_config_def DefaultRetryConfig_def RetryConfig_Validate_def)

theorem lifecycle_trace_witness:
  "\<exists>w' res rs.
    fst (lifecycle_New scripted_env scripted_recorder)
      (NewRetry scripted_retry scripted_adapter scripted_config (snd (lifecycle_New scripted_env scripted_recorder) scripted_handler))
      () scripted_command (scripted_start [ErrExt ''busy'']) = (w', res) \<and>
    snd (lw_user w') = rs \<and> rs \<noteq> [] \<and> length rs \<le> 3 \<and>
    logged ms_stream scripted_env scripted_command (scripted_start [ErrExt ''busy'']) w'
      (Received # attempt_trace (IsRejection scripted_env scripted_recorder) 1 rs @
        final_entry (IsRejection scripted_env scripted_recorder) rs res)"
proof -
  have "reports ms_inv ms_open ms_stream scripted_env scripted_command snd scripted_handler"
    by (auto simp: reports_def scripted_handler_def scripted_facts split: prod.splits list.splits)
  moreover have "\<forall>ctx d. quiet_between ms_inv ms_open ms_stream scripted_env scripted_command snd
      (\<lambda>w. fst (re_wait scripted_retry ctx d w))"
    by (simp add: quiet_between_def scripted_retry_def undisturbed_refl)
  ultimately have "\<exists>w' res rs.
    fst (lifecycle_New scripted_env scripted_recorder)
      (NewRetry scripted_retry scripted_adapter scripted_config (snd (lifecycle_New scripted_env scripted_recorder) scripted_handler))
      () scripted_command (scripted_start [ErrExt ''busy'']) = (w', res) \<and>
    coherent ms_inv ms_open ms_stream w' \<and> tracking scripted_env scripted_command 0 False w' \<and>
    snd (lw_user w') = snd (lw_user (scripted_start [ErrExt ''busy''])) @ rs \<and> rs \<noteq> [] \<and>
    int (length rs) \<le> rc_MaxAttempts scripted_config \<and> (res = Ok () \<longleftrightarrow> last rs = Ok ()) \<and>
    logged ms_stream scripted_env scripted_command (scripted_start [ErrExt ''busy'']) w'
      (Received # attempt_trace (IsRejection scripted_env scripted_recorder) 1 rs @
        final_entry (IsRejection scripted_env scripted_recorder) rs res)"
    by (intro lifecycle_trace) (simp_all add: scripted_facts scripted_log.encodes)
  moreover have "snd (lw_user (scripted_start [ErrExt ''busy''])) = []"
    by (simp add: scripted_start_def)
  ultimately show ?thesis
    by (elim exE conjE, intro exI conjI) (assumption | simp add: scripted_facts)+
qed

end
