(* ===== verification/Spec2Isabelle.thy ===== *)
theory Spec2Isabelle
  imports Ids Versions Metadata Events Dispatcher LogStore MemoryStore MessageStores Snapshots Decider
    Repositories DedupRing KeyCodec SeqSeeding PebbleAppend Interleavings Middleware
    SchemaOps SchemaChain SchemaRegistry DecoratedStore SchemaStores ProjectionWorker ProjectionDrain
    ProjectionRuns ProjectionSchema GraphStore GraphProjections
    GraphSearch GoSort MemEngine ScanPaging VersionedCells StreamLog MapRuntime DueClaims ClaimRuns MapDedup
    EngineGraph Timers EngineTimers KvStore KvTyped KvCache Listing
    BoundedMap Lifecycle LifecycleTrace
begin

text \<open>
  Verification of the core of go-cqrs-lite, a Go library for event sourcing and CQRS.

  \<^bold>\<open>The program.\<close> A stream is named by a type and an identifier (\<open>src/id\<close>). Its history is a
  sequence of events with consecutive versions (\<open>src/event\<close>), each with metadata
  (\<open>src/metadata\<close>). Event stores (\<open>src/storage\<close>) append under optimistic concurrency and read
  streams and a global journal; sibling stores keep commands, queries, snapshots and
  checkpoints. A decider repository (\<open>src/decider\<close>) rebuilds the state of a stream by replay,
  from a snapshot (\<open>src/snapshot\<close>) or from a cache, lets a decision produce new events, appends
  and publishes them. Commands and queries reach their handlers through dispatchers with
  middleware (\<open>src/dispatcher\<close>, \<open>src/command\<close>, \<open>src/query\<close>, \<open>src/middleware\<close>). Old events are
  brought up to date while they are read, by chains of schema operations (\<open>src/schema\<close>) in
  decorators over stores and journals (\<open>src/event/*_middleware*.go\<close>). Projection workers
  (\<open>src/projectionhost\<close>) drain the journal from a checkpoint and go on with live events; a graph
  projection (\<open>src/graph\<close>) merges them into nodes and edges. Consumers drop the overlap of replay
  and live events with a ring of recent identifiers (\<open>src/dedup\<close>). The embedded engines encode
  keys with \<open>src/metaengine/keycodec\<close> and resume their counters at start-up
  (\<open>src/metaengine/pebbleengine\<close>). The in-memory engine of \<open>src/metaengine\<close> keeps maps with history,
  sets, counters, logs, streams and graphs, and carries the runtimes for timers and work queues
  (claims with leases) and for deduplication. Schedulers (\<open>src/scheduling\<close>) poll timer stores, in
  memory or over such claims, and dispatch what is due. Read models live in key-value stores
  (\<open>src/kv\<close>) with typed views and caches over them, and readers list the streams of a journal page by
  page (\<open>src/listing\<close>). Command lifecycles (\<open>src/commandlifecycle\<close>) record what happened to a command as
  events of a stream of its own.

  \<^bold>\<open>The theories\<close>, in the order of the imports:

  \<^item> \<open>Prelude\<close>: errors with their families and \<open>errors.Is\<close>, the result type with errors and
    panics, bounds-checked slices and indices, positions in lists.
  \<^item> \<open>Ids\<close> (\<open>src/id\<close>): stream references and their storage keys, actors and their wire form,
    derived command identifiers.
  \<^item> \<open>Versions\<close> (\<open>src/event/types.go\<close>, \<open>slice.go\<close>): versions and schema versions as 64-bit words,
    the version check and the version slices.
  \<^item> \<open>Metadata\<close> (\<open>src/metadata\<close>, \<open>src/event/metadata.go\<close>): tracing data, merging and cloning.
  \<^item> \<open>Events\<close> (\<open>src/event\<close>): the event record, functional options, construction and validation,
    batches, reconstruction from storage, payload decoding, tombstones.
  \<^item> \<open>Dispatcher\<close> (\<open>src/dispatcher\<close>, \<open>src/command/dispatcher.go\<close>, \<open>src/query/dispatcher.go\<close>):
    lifecycle, middleware chain, registration and dispatch, typed queries.
  \<^item> \<open>LogStore\<close> (\<open>src/storage/memory/log_store.go\<close>): the append-only log with its two indexes that
    the memory stores share; its interface is the locale \<open>seekable_log\<close>, in which reading page by
    page is shown to visit everything once.
  \<^item> \<open>MemoryStore\<close> (\<open>src/storage/memory/store*.go\<close>): the event store; the locale \<open>event_store\<close>
    states what a repository relies on and is interpreted on it.
  \<^item> \<open>Interleavings\<close>: concurrent writers on the memory store, with the closed check and the locked
    body as separate steps.
  \<^item> \<open>MessageStores\<close> (\<open>src/command\<close>, \<open>src/query\<close> and their memory stores): persisted commands
    and queries; the locale \<open>unique_log\<close> is interpreted on both stores.
  \<^item> \<open>Snapshots\<close> (\<open>src/snapshot\<close>, \<open>src/storage/memory/snapshot.go\<close>, \<open>checkpoint.go\<close>): strategies,
    the read-pressure counters, the snapshot store with its locale \<open>snapshot_store\<close>, transforming
    and typed stores, checkpoints.
  \<^item> \<open>Decider\<close> (\<open>src/decider\<close>): the repository over the interfaces of its stores; the locale
    \<open>repository\<close> extends \<open>event_store\<close> and \<open>snapshot_store\<close> and holds the client lemmas.
  \<^item> \<open>Repositories\<close>: the repository on the memory stores, the interpretation of \<open>repository\<close>, and
    the properties that span decider and stores.
  \<^item> \<open>DedupRing\<close> (\<open>src/dedup/ring.go\<close>): the ring, its locale \<open>recent_set\<close> and interpretation.
  \<^item> \<open>KeyCodec\<close> (\<open>src/metaengine/keycodec\<close>): escaping, both key families, sequence tails, counter
    values.
  \<^item> \<open>SeqSeeding\<close> (\<open>src/metaengine/keycodec\<close>, \<open>src/metaengine/pebbleengine\<close>): the
    compare-and-swap loop of \<open>SeedSeqMax\<close> as a step relation over concurrent calls, prefix scans
    and the start-up seeding. \<open>PebbleAppend\<close> (\<open>stream_log.go\<close>): appends to the streams and the
    journal of the Pebble engine with the seeded counters.
  \<^item> \<open>Middleware\<close> (\<open>src/middleware\<close>): retry with dead letters, validation, recovery, idempotency
    and the circuit breaker around any handler.
  \<^item> \<open>SchemaOps\<close> (\<open>src/schema/ops.go\<close>, \<open>chain.go\<close>): the operators, their validation and the
    compilation of a chain. \<open>SchemaChain\<close> (\<open>chain_engine.go\<close>, \<open>chain_payload.go\<close>): upcasting
    with its hop budget, payload normalisation, splits and drops. \<open>SchemaRegistry\<close>
    (\<open>registry.go\<close>, \<open>upcaster.go\<close>): the registry and the conversion of a chain to upcasters.
  \<^item> \<open>DecoratedStore\<close> (\<open>src/event/store_middleware*.go\<close>, \<open>journal_middleware.go\<close>): stores and
    journals with a sink and a source transform, and the chunked iterator; the locale
    \<open>chunk_transform\<close> is what the iterator relies on. \<open>SchemaStores\<close> interprets it on the upcasters
    and puts a repository on top.
  \<^item> \<open>ProjectionWorker\<close> (\<open>src/projectionhost/worker*.go\<close>, \<open>dlq.go\<close>, \<open>options.go\<close>): a worker with
    its retries, dead letters, checkpoints and restarts. \<open>ProjectionDrain\<close> has the invariant of
    a worker over any journal and checkpoint store (locale \<open>checkpoint_store\<close>), \<open>ProjectionRuns\<close> the
    runs that catch up, the back-off and failing live events, \<open>ProjectionSchema\<close> workers over
    an upcasting journal.
  \<^item> \<open>GraphStore\<close> (\<open>src/graph\<close>): the graph tier with its schemas, sinks, in-memory driver and
    projection; \<open>GraphProjections\<close> shows what projections keep, with the locale \<open>merging_sink\<close> for
    sinks that act on every node and edge by a fixed change; \<open>GraphSearch\<close> has the reads, for every
    order of iteration over the maps.
  \<^item> \<open>GoSort\<close>: the binary search and the sort of Go's library, and the order on byte slices.
    \<open>MemEngine\<close> (\<open>src/metaengine/memory_*.go\<close>, \<open>sort_paginate.go\<close>): the in-memory engine; \<open>ScanPaging\<close>
    its scans and cursors over the locale \<open>comparator\<close>; \<open>VersionedCells\<close> (\<open>version_chain.go\<close>,
    \<open>memory_versioned.go\<close>) histories of cells; \<open>StreamLog\<close> (\<open>memory_stream_log.go\<close>) streams and
    journal, an instance of \<open>seekable_log\<close>; \<open>EngineGraph\<close> (\<open>graph_walk.go\<close>, \<open>memory_graph.go\<close>) graphs.
  \<^item> \<open>MapRuntime\<close>: what the runtimes call of an engine, as the locale \<open>map_engine\<close>, interpreted on the
    in-memory engine. \<open>DueClaims\<close> (\<open>dueclaim.go\<close>, \<open>map_dueclaim.go\<close>) claims over it, with the locale
    \<open>due_claims\<close> extending \<open>map_engine\<close>; \<open>ClaimRuns\<close> concurrent claimers on the in-memory engine;
    \<open>MapDedup\<close> (\<open>map_dedup.go\<close>) deduplication windows, locale \<open>dedup_store\<close>.
  \<^item> \<open>Timers\<close> (\<open>src/scheduling/store.go\<close>, \<open>scheduler.go\<close>): timers, the in-memory timer store and the
    scheduler; the locale \<open>timer_store\<close> is the contract of a store, in which one poll is characterised.
    \<open>EngineTimers\<close> (\<open>src/scheduling/engine/store.go\<close>): timers as due claims; \<open>engine_timer_store\<close> extends
    \<open>due_claims\<close> and is a sublocale of \<open>timer_store\<close>.
  \<^item> \<open>KvStore\<close> (\<open>src/kv/mem*.go\<close>, \<open>kv.go\<close>): the in-memory key-value store, its iterators and batches, and
    the interface as the locale \<open>kv_backend\<close>. \<open>KvTyped\<close> (\<open>typed_store.go\<close>): the typed store over any
    backend; \<open>typed_store\<close> is a sublocale of \<open>view_store\<close>. \<open>KvCache\<close> (\<open>cache.go\<close>, \<open>view_cache.go\<close>): the
    write-through cache over any view store.
  \<^item> \<open>Listing\<close> (\<open>src/listing\<close>): the status of streams, the cached index of the in-memory reader, filters,
    cursors and pages, the builder and the publishing middleware.
  \<^item> \<open>BoundedMap\<close> (\<open>src/commandlifecycle/bounded.go\<close>): the bounded map of the lifecycle caches.
    \<open>Lifecycle\<close> (\<open>src/commandlifecycle\<close>): the recorder of lifecycle events and its two middleware.
    \<open>LifecycleTrace\<close>: the locale \<open>lifecycle_store\<close> extends \<open>event_store\<close> by a recorder on it, \<open>lifecycle_log\<close>
    adds that payloads can be encoded; both are interpreted on the memory store.

  \<^bold>\<open>State and operations.\<close> A Go struct is a record, an enumeration a datatype; a method is a
  function that takes and returns the record. An operation that may fail returns an
  \<open>outcome\<close> (\<open>Ok\<close>, \<open>Fail\<close> with the error value, \<open>Panic\<close>), or the new state with an optional
  error when the source mutates and returns only an error. Versions keep their 64 bits; where
  the source converts to \<open>int\<close> the model reads the word as signed, and the hypotheses of the
  properties exclude versions of \<open>2 ^ 63\<close> and above when they matter. Operations guarded by a
  mutex are one atomic step, with the closed check in front of it as the source has it; where
  interleavings matter the check and the locked body are separate steps (\<open>Interleavings\<close>).
  Human-readable error messages, logging, tracing spans and context cancellation are not part of
  the model.

  \<^bold>\<open>Parameters.\<close> Code outside the repository is an argument: the error classifier \<open>cls\<close> of
  go-error-family, the display forms \<open>disp\<close> and \<open>udisp\<close> of branded identifiers, the payload
  codecs, the cache library, SHA-256, fresh identifiers and the clock, the database iterator, the
  order in which Go visits a map, printed forms of keys and the JSON decoding of stored records.
  What is assumed of them is a hypothesis of the property that needs it, and its witness
  instantiates them.

  \<^bold>\<open>What is shown.\<close>

  \<^item> Stores: after any history of writes all reads are views of one list of entries; an append
    succeeds exactly at the expected version and otherwise changes nothing; paging a journal is
    complete and ends; concurrent writers are ordered, with at most one winner per
    expected version; command batches are atomic; snapshot stores keep a newest snapshot.
  \<^item> Repository: loading through cache, snapshot or store equals the replay of the stream, and a
    coalesced load the replay of what the shared load had read of it;
    executing appends and publishes once and keeps caches and snapshots true; a rejected command
    leaves no trace; time travel is the replay of a part; waiting ends.
  \<^item> Dispatch: the result depends only on the first registration, the list of middleware and the
    closed flag.
  \<^item> Events and identifiers: round trips of construction, reconstruction and wire forms, version
    arithmetic at its width, storage keys.
  \<^item> Ring and keys: the ring is a bounded queue of distinct identifiers; escaped keys are
    injective and their scans exact; concurrent seeding ends with the sequential result, and
    however many appends follow a restart, none of them changes a stored entry.
  \<^item> Middleware: retry makes exactly the attempts its configuration allows, with one filled dead letter
    when they are used up; idempotency lets the
    first message of a key through.
  \<^item> Schema: upcasting is idempotent, keeps identity and metadata, does not run out of budget and
    agrees with its conversion to upcasters; streaming and slice reads of a decorated store agree,
    and what a decorated store saves it gives back.
  \<^item> Projections: whatever handler, journal reads, checkpoint saves and dead-letter store fail on, a
    worker applies a duplicate-free subsequence of the journal and leaves no wanted event behind its
    checkpoint that it neither applied nor handed to the dead-letter store; undisturbed it catches up
    and stops.
  \<^item> Graphs: a projection keeps its graph well formed and well typed, an event is all or nothing, and
    handling it again changes nothing; validation of schemas is exact; traversal and shortest paths are those of the
    graph.
  \<^item> In-memory engine: paging with cursors serves every match once and in order; reads as of an
    instant are those of the list of all writes, and the latest view is the newest write; stream logs
    are one list per collection; claims are returned in due order and their leases exclude each
    other under every interleaving; deduplication windows answer as if nothing were ever removed;
    neighbours are those of the graph.
  \<^item> Timers: one poll dispatches exactly the due timers that nobody has leased, in order and in any
    number of batches, and removes exactly those whose last call returned nil; stores over one engine
    fence each other for the time of the lease and hand out again afterwards; a stale mark does not
    remove a rescheduled timer; the delay of a retry is within its documented bounds.
  \<^item> Key-value stores: iteration is sorted and exact for its prefix, a batch acts as its writes one
    after another, a typed store is a map of decoded values, removing a namespace removes exactly
    its keys, and a cache is transparent whatever it evicts.
  \<^item> Listings: following the cursors visits every stream of a type that the policy lets through, once,
    in order and with the summary of its events; the marking middleware does not change a listing.
  \<^item> Command lifecycles: a dispatch with retries leaves exactly the trace of its attempts in the
    lifecycle stream of the command.
  \<^item> Limits of the code, as theorems: storage keys and coalescing keys of different streams can
    collide, a dangling cursor replays the journal, versions of \<open>2 ^ 63\<close> and above panic in the
    slices; acyclic chains of renames are refused; a transform that changes the number of events
    makes a stream unwritable and can stop a projection for good; a failed live event is
    overtaken by a later one; retry around idempotency never retries; a large back-off overflows;
    overlapping graph transactions lose writes; an out-of-order update makes the latest view
    regress; a claimer can receive an older generation of the item it leases; a sweep is bounded; an
    undecodable timer starves those behind it; a negative retry delay panics; a cursor
    whose stream is no longer listed starts a listing over, and an invalidation during a rebuild of
    the index is lost; the queue of a bounded map grows without bound and its newest entry can be
    evicted; after a lifecycle event that cannot be encoded the next one is dropped too.

  \<^bold>\<open>Loops.\<close> All loops over slices are structural recursions. The polling loop of
  \<open>WaitForVersion\<close>, the paging loop and the walk over the pages of a listing take fuel, with theorems
  that enough fuel gives the result (the number of polls until the deadline, one more than the number
  of entries, as many pages as cover the streams of the type). The
  compare-and-swap loop is a relation; its termination is a theorem. The walk over renames and the
  upcasting engine terminate by a measure (nodes not yet walked, the budget). The drain and restart
  loops of a worker, the transforming iterator, the batches of due timers and the loops over a
  key-value iterator may run on and are partial functions; that they return is shown where
  their input is finite.

  \<^bold>\<open>Not modelled\<close>: the SQL, bbolt, Pebble and Turso stores (of the Pebble engine the seeding and
  \<open>StreamAppend\<close> are), the metaengine planner and the engines over
  external databases, the vector, text and spatial indexes (floating point), encryption and signing (external primitives), telemetry
  and messaging adapters, code generators and command-line tools. Of a projection host: the
  concurrency of live callbacks with the catch-up drain, the delays between the attempts of a handler,
  replay and reset.

  \<^bold>\<open>Plan\<close>: pagination and the remaining query and command options, the projection host with
  replay and reset, and the reads of the stream log of the Pebble engine over the key codec.
\<close>

end
